(* ===== verification/E2_Prelude.thy ===== *)
theory E2_Prelude
  imports Main "HOL-Library.Word" "HOL-Library.Monad_Syntax"
begin

text \<open>
  Shared vocabulary of the e2fsprogs development: the fixed-width integer types of
  \<^verbatim>\<open>lib/ext2fs/ext2_types.h\<close>, the error codes that the modelled functions return, C arrays
  with their bounds, and the list, option and word lemmas that several components use.

  Conventions.
  \<^item> \<open>'a ub\<close> is the result of a piece of C code: \<open>None\<close> means that the code has performed an
    access outside the array it works on, dereferenced a null pointer or overflowed a signed
    integer, so that C gives it no meaning; \<open>Some x\<close> is a defined execution with result \<open>x\<close>.
    A theorem that states \<open>f s = Some r\<close> therefore also states memory safety.
  \<^item> A function that may fail with an \<^verbatim>\<open>errcode_t\<close> returns that code, \<open>E_OK\<close> being the C value 0.
  \<^item> Each call of the allocator is represented by a boolean argument: whether that call succeeds.
    The contents of freshly allocated memory that the code does not initialise are an arbitrary
    function \<open>junk\<close> of the index.
\<close>

named_theorems c_defs \<open>unfolding rules of the C primitives\<close>
named_theorems word_nat \<open>rules that turn word arithmetic into arithmetic on natural numbers\<close>

subsection \<open>Types\<close>

type_synonym u8 = "8 word"
type_synonym u16 = "16 word"
type_synonym u32 = "32 word"
type_synonym u64 = "64 word"
type_synonym 'a ub = "'a option"

abbreviation INT_MAX :: nat where
  "INT_MAX \<equiv> 2147483647"

text \<open>
  The error codes used by the modelled code. The codes beginning with \<open>EXT2_ET_MAGIC\<close> are also the
  values of the \<^verbatim>\<open>magic\<close> fields of the library's structures, and \<open>E_OK\<close> is the cleared field.
\<close>

datatype errcode =
    E_OK
  | EINVAL
  | ENOENT
  | EOVERFLOW
  | EXT2_ET_NO_MEMORY
  | EXT2_ET_INVALID_ARGUMENT
  | EXT2_ET_FILE_TOO_BIG
  | EXT2_ET_UNIMPLEMENTED
  | EXT2_ET_BAD_INODE_MARK
  | EXT2_ET_BAD_BLOCK_MARK
  | EXT2_ET_BAD_GENERIC_MARK
  | EXT2_ET_MAGIC_BADBLOCKS_LIST
  | EXT2_ET_MAGIC_BADBLOCKS_ITERATE
  | EXT2_ET_MAGIC_EXT2FS_FILSYS
  | EXT2_ET_CANT_USE_LEGACY_BITMAPS
  | EXT2_FILSYS_CORRUPTED
  | EXT2_ET_DIR_CORRUPTED
  | EXT2_ET_DIR_NO_SPACE_FOR_CSUM
  | EXT2_ET_DIR_CSUM_INVALID
  | EXT2_ET_DIR_NO_SPACE
  | EXT2_ET_FILE_NOT_FOUND
  | EXT2_ET_RO_FILSYS
  | EXT2_ET_DB_NOT_FOUND
  | EXT2_ET_NO_INODE_BITMAP
  | EXT2_ET_NO_BLOCK_BITMAP
  | EXT2_ET_BLOCK_ALLOC_FAIL
  | EXT2_ET_INODE_ALLOC_FAIL
  | EXT2_ET_NEQ_BLOCK_BITMAP
  | EXT2_ET_NEQ_INODE_BITMAP
  | EXT2_ET_FUDGE_INODE_BITMAP_END
  | EXT2_ET_FUDGE_BLOCK_BITMAP_END
  | EXT2_ET_MAGIC_ICOUNT
  | EXT2_ET_MAGIC_DBLIST
  | EXT2_ET_DBLIST_EMPTY
  | EXT2_ET_DIRHASH_UNSUPP
  | EXT2_ET_MAGIC_GENERIC_BITMAP
  | EXT2_ET_MAGIC_BLOCK_BITMAP
  | EXT2_ET_MAGIC_INODE_BITMAP
  | EXT2_ET_MAGIC_GENERIC_BITMAP64
  | EXT2_ET_MAGIC_BLOCK_BITMAP64
  | EXT2_ET_MAGIC_INODE_BITMAP64
  | E_OTHER nat

subsection \<open>C arrays\<close>

text \<open>
  An array is the list of its cells. Reading or writing a cell that does not exist is \<open>None\<close>.
  \<open>c_memmove\<close> copies \<open>n\<close> cells inside one array, as \<^verbatim>\<open>memmove\<close> does, and \<open>c_realloc\<close> is the
  array after a successful \<^verbatim>\<open>ext2fs_resize_mem\<close>: the old cells that fit are kept, the others
  hold indeterminate values.
\<close>

definition c_load :: "'a list \<Rightarrow> nat \<Rightarrow> 'a ub" where
  [c_defs]: "c_load xs i = (if i < length xs then Some (xs ! i) else None)"

definition c_store :: "'a list \<Rightarrow> nat \<Rightarrow> 'a \<Rightarrow> 'a list ub" where
  [c_defs]: "c_store xs i v = (if i < length xs then Some (xs[i := v]) else None)"

definition c_memmove :: "'a list \<Rightarrow> nat \<Rightarrow> nat \<Rightarrow> nat \<Rightarrow> 'a list ub" where
  [c_defs]: "c_memmove xs dst src n =
     (if dst + n \<le> length xs \<and> src + n \<le> length xs
      then Some (take dst xs @ take n (drop src xs) @ drop (dst + n) xs) else None)"

definition c_realloc :: "(nat \<Rightarrow> 'a) \<Rightarrow> 'a list \<Rightarrow> nat \<Rightarrow> 'a list" where
  "c_realloc junk xs n = map (\<lambda>i. if i < length xs then xs ! i else junk i) [0..<n]"

lemma c_load_inside [simp]: "i < length xs \<Longrightarrow> c_load xs i = Some (xs ! i)"
  by (simp add: c_load_def)

lemma c_store_inside [simp]: "i < length xs \<Longrightarrow> c_store xs i v = Some (xs[i := v])"
  by (simp add: c_store_def)

lemma c_load_outside: "length xs \<le> i \<Longrightarrow> c_load xs i = None"
  by (simp add: c_load_def)

lemma c_store_outside: "length xs \<le> i \<Longrightarrow> c_store xs i v = None"
  by (simp add: c_store_def)

lemma c_store_SomeD: "c_store xs i v = Some ys \<Longrightarrow> i < length xs \<and> ys = xs[i := v]"
  by (auto simp: c_store_def split: if_splits)

lemma c_load_SomeD: "c_load xs i = Some v \<Longrightarrow> i < length xs \<and> v = xs ! i"
  by (auto simp: c_load_def split: if_splits)

lemma length_c_realloc [simp]: "length (c_realloc junk xs n) = n"
  by (simp add: c_realloc_def)

lemma take_c_realloc [simp]: "k \<le> length xs \<Longrightarrow> k \<le> n \<Longrightarrow> take k (c_realloc junk xs n) = take k xs"
  by (auto simp: c_realloc_def intro!: nth_equalityI)

lemma nth_c_realloc [simp]: "i < length xs \<Longrightarrow> i < n \<Longrightarrow> c_realloc junk xs n ! i = xs ! i"
  by (simp add: c_realloc_def)

subsection \<open>Strictly sorted tables\<close>

text \<open>
  Several components keep an array whose first \<open>n\<close> cells are strictly ascending in some key. These
  lemmas turn index comparisons into key comparisons.
\<close>

lemma sorted_wrt_nth_less_iff:
  fixes ks :: "'k::linorder list"
  assumes "sorted_wrt (<) ks" "i < length ks" "j < length ks"
  shows "ks ! i < ks ! j \<longleftrightarrow> i < j"
  using assms by (metis linorder_neq_iff not_less_iff_gr_or_eq sorted_wrt_nth_less)

lemma sorted_wrt_nth_eq_iff:
  fixes ks :: "'k::linorder list"
  assumes "sorted_wrt (<) ks" "i < length ks" "j < length ks"
  shows "ks ! i = ks ! j \<longleftrightarrow> i = j"
  using assms by (metis linorder_neq_iff sorted_wrt_nth_less)

text \<open>Where a key lies strictly between two neighbours, it is not in the table.\<close>

lemma sorted_gap_notin:
  fixes ks :: "'k::linorder list"
  assumes srt: "sorted_wrt (<) ks" and n: "n \<le> length ks"
    and below: "\<And>i. i < n \<Longrightarrow> ks ! i < k" and above: "\<And>i. n \<le> i \<Longrightarrow> i < length ks \<Longrightarrow> k < ks ! i"
  shows "k \<notin> set ks"
proof
  assume "k \<in> set ks"
  then obtain i where i: "i < length ks" "ks ! i = k" by (auto simp: in_set_conv_nth)
  show False
  proof (cases "i < n")
    case True
    with below i show ?thesis by fastforce
  next
    case False
    then have "n \<le> i" by simp
    from above [OF this i(1)] i(2) show ?thesis by simp
  qed
qed

lemma sorted_insert_gap:
  fixes ks :: "'k::linorder list"
  assumes srt: "sorted_wrt (<) ks" and n: "n \<le> length ks"
    and below: "\<And>i. i < n \<Longrightarrow> ks ! i < k" and above: "\<And>i. n \<le> i \<Longrightarrow> i < length ks \<Longrightarrow> k < ks ! i"
  shows "sorted_wrt (<) (take n ks @ k # drop n ks)"
proof -
  have 1: "\<forall>x\<in>set (take n ks). x < k"
    using below n by (auto simp: in_set_conv_nth)
  have 2: "\<forall>y\<in>set (drop n ks). k < y"
    using above n by (auto simp: in_set_conv_nth)
  have 3: "\<forall>x\<in>set (take n ks). \<forall>y\<in>set (drop n ks). x < y"
    using 1 2 by (meson less_trans)
  show ?thesis
    using srt 1 2 3 by (auto simp: sorted_wrt_append sorted_wrt_take sorted_wrt_drop)
qed

lemma set_insert_gap: "set (take n ks @ k # drop n ks) = insert k (set ks)"
  by (metis Un_insert_right append_take_drop_id list.simps(15) set_append)

subsection \<open>Words as natural numbers\<close>

lemma unat_u64_less [simp]: "unat (w :: u64) < 18446744073709551616"
  using unsigned_less [of w] by simp

lemma unat_u32_less [simp]: "unat (w :: u32) < 4294967296"
  using unsigned_less [of w] by simp

lemma unat_u16_less [simp]: "unat (w :: u16) < 65536"
  using unsigned_less [of w] by simp

lemma u32_less_max: "e \<noteq> 0xffffffff \<Longrightarrow> e < (0xffffffff :: u32)"
  by (simp add: word_less_nat_alt word_unat_eq_iff) (use unat_u32_less [of e] in linarith)

lemma u64_less_max: "e \<noteq> 0xffffffffffffffff \<Longrightarrow> e < (0xffffffffffffffff :: u64)"
  by (simp add: word_less_nat_alt word_unat_eq_iff) (use unat_u64_less [of e] in linarith)

lemma unat_of_nat_u64: "n < 18446744073709551616 \<Longrightarrow> unat (of_nat n :: u64) = n"
  by (simp add: unat_of_nat)

lemma unat_of_nat_u32: "n < 4294967296 \<Longrightarrow> unat (of_nat n :: u32) = n"
  by (simp add: unat_of_nat)

lemma unat_ucast_32_64 [simp]: "unat (ucast (i :: u32) :: u64) = unat i"
  by (simp add: unsigned_ucast_eq take_bit_nat_eq_self less_trans [OF unat_u32_less])

lemma unat_ucast_16_32 [simp]: "unat (ucast (i :: u16) :: u32) = unat i"
  by (simp add: unsigned_ucast_eq take_bit_nat_eq_self less_trans [OF unat_u16_less])

lemma unat_ucast_64_32: "unat (ucast (i :: u64) :: u32) = unat i mod 4294967296"
  by (simp add: unsigned_ucast_eq unsigned_take_bit_eq take_bit_eq_mod)

lemma unat_drop_bit_div [word_nat]: "unat (drop_bit n w) = unat w div 2 ^ n"
  for w :: "'a::len word"
  by (metis drop_bit_eq_div unat_drop_bit_eq)

lemma unat_add_u64: "unat a + unat b < 18446744073709551616 \<Longrightarrow> unat (a + b) = unat a + unat (b :: u64)"
  by (simp add: unat_word_ariths)

lemma unat_add_u32: "unat a + unat b < 4294967296 \<Longrightarrow> unat (a + b) = unat a + unat (b :: u32)"
  by (simp add: unat_word_ariths)

lemma unat_push_bit_u64:
  assumes "unat (c :: u64) * 2 ^ n < 18446744073709551616"
  shows "unat (push_bit n c) = unat c * 2 ^ n"
proof (subst unsigned_push_bit_eq)
  show "take_bit LENGTH(64) (push_bit n (unat c)) = unat c * 2 ^ n"
    using assms by (simp add: push_bit_eq_mult take_bit_nat_eq_self)
qed

lemma unat_diff_le [word_nat]: "b \<le> a \<Longrightarrow> unat (a - b) = unat a - unat b"
  for a b :: "'a::len word"
  by (rule unat_sub)

lemma unat_inc [word_nat]: "i < n \<Longrightarrow> unat (i + 1) = Suc (unat i)"
  for i n :: "'a::len word"
proof -
  assume "i < n"
  moreover have "unat n < 2 ^ LENGTH('a)" by (rule unsigned_less)
  ultimately have "Suc (unat i) < 2 ^ LENGTH('a)"
    by (meson Suc_leI le_less_trans word_less_nat_alt)
  then show ?thesis by (simp add: unat_word_ariths)
qed

lemma unat_dec [word_nat]: "n < i \<Longrightarrow> unat (i - 1) = unat i - 1"
  for i n :: "'a::len word"
proof -
  assume "n < i"
  then have "i \<noteq> 0" by auto
  then show ?thesis by (rule unat_minus_one)
qed

end
