(* ===== verification/Set_Store.thy ===== *)
theory Set_Store
  imports E2_Prelude
begin

text \<open>
  The contract shared by the library's sets of numbers: the sorted lists of \<^verbatim>\<open>badblocks.c\<close> and the
  bitmaps of \<^verbatim>\<open>gen_bitmap64.c\<close> all promise that marking adds a number, unmarking removes it and
  testing reports membership. A provider states which numbers it can hold (\<open>univ\<close>), how many more
  additions it is sure to be able to serve (\<open>budget\<close>) and its invariant; the client lemma is that
  any history of marks and unmarks leaves exactly the set that the history describes.
\<close>

datatype 'k set_op = Mark 'k | Unmark 'k

primrec op_key :: "'k set_op \<Rightarrow> 'k" where
  "op_key (Mark k) = k"
| "op_key (Unmark k) = k"

text \<open>The abstract meaning of a history, and its execution by a provider's operations.\<close>

fun spec_ops :: "'k set_op list \<Rightarrow> 'k set \<Rightarrow> 'k set" where
  "spec_ops [] A = A"
| "spec_ops (Mark k # ops) A = spec_ops ops (insert k A)"
| "spec_ops (Unmark k # ops) A = spec_ops ops (A - {k})"

fun run_ops :: "('k \<Rightarrow> 's \<Rightarrow> 's ub) \<Rightarrow> ('k \<Rightarrow> 's \<Rightarrow> 's ub) \<Rightarrow> 'k set_op list \<Rightarrow> 's \<Rightarrow> 's ub" where
  "run_ops add del [] s = Some s"
| "run_ops add del (Mark k # ops) s = Option.bind (add k s) (run_ops add del ops)"
| "run_ops add del (Unmark k # ops) s = Option.bind (del k s) (run_ops add del ops)"

locale set_store =
  fixes inv :: "'s \<Rightarrow> bool"
    and elems :: "'s \<Rightarrow> 'k set"
    and univ :: "'s \<Rightarrow> 'k set"
    and budget :: "nat \<Rightarrow> 's \<Rightarrow> bool"
    and add :: "'k \<Rightarrow> 's \<Rightarrow> 's ub"
    and del :: "'k \<Rightarrow> 's \<Rightarrow> 's ub"
    and test :: "'s \<Rightarrow> 'k \<Rightarrow> bool ub"
  assumes test_law: "inv s \<Longrightarrow> k \<in> univ s \<Longrightarrow> test s k = Some (k \<in> elems s)"
    and add_law: "inv s \<Longrightarrow> k \<in> univ s \<Longrightarrow> budget (Suc n) s \<Longrightarrow>
      \<exists>s'. add k s = Some s' \<and> inv s' \<and> elems s' = insert k (elems s) \<and> univ s' = univ s \<and> budget n s'"
    and del_law: "inv s \<Longrightarrow> k \<in> univ s \<Longrightarrow> budget (Suc n) s \<Longrightarrow>
      \<exists>s'. del k s = Some s' \<and> inv s' \<and> elems s' = elems s - {k} \<and> univ s' = univ s \<and> budget n s'"
begin

lemma run_ops_refines:
  assumes "inv s" "op_key ` set ops \<subseteq> univ s" "budget (length ops) s"
  shows "\<exists>s'. run_ops add del ops s = Some s' \<and> inv s' \<and> elems s' = spec_ops ops (elems s)
    \<and> univ s' = univ s"
  using assms
proof (induction ops arbitrary: s)
  case Nil
  then show ?case by simp
next
  case (Cons op ops)
  have "\<exists>s'. (case op of Mark k \<Rightarrow> add k s | Unmark k \<Rightarrow> del k s) = Some s' \<and> inv s'
      \<and> elems s' = (case op of Mark k \<Rightarrow> insert k (elems s) | Unmark k \<Rightarrow> elems s - {k})
      \<and> univ s' = univ s \<and> budget (length ops) s'"
    using Cons.prems add_law [of s "op_key op" "length ops"] del_law [of s "op_key op" "length ops"]
    by (cases op) auto
  then obtain s1 where s1: "(case op of Mark k \<Rightarrow> add k s | Unmark k \<Rightarrow> del k s) = Some s1" "inv s1"
      "elems s1 = (case op of Mark k \<Rightarrow> insert k (elems s) | Unmark k \<Rightarrow> elems s - {k})"
      "univ s1 = univ s" "budget (length ops) s1"
    by blast
  with Cons.prems have "op_key ` set ops \<subseteq> univ s1" by auto
  from Cons.IH [OF s1(2) this s1(5)] s1 show ?case
    by (cases op) auto
qed

lemma run_ops_test:
  assumes "inv s" "op_key ` set ops \<subseteq> univ s" "budget (length ops) s" "k \<in> univ s"
  shows "Option.bind (run_ops add del ops s) (\<lambda>s'. test s' k) = Some (k \<in> spec_ops ops (elems s))"
proof -
  from run_ops_refines [OF assms(1-3)] obtain s' where
    "run_ops add del ops s = Some s'" "inv s'" "elems s' = spec_ops ops (elems s)" "univ s' = univ s"
    by blast
  with test_law [of s' k] assms(4) show ?thesis by simp
qed

end

end
