(* ===== verification/Badblocks.thy ===== *)
theory Badblocks
  imports Set_Store
begin

text \<open>
  The sorted list of 32-bit numbers of \<^verbatim>\<open>lib/ext2fs/badblocks.c\<close>, which the library uses for bad
  block lists and for small sets of inode numbers. The structure is a heap array of \<open>bb_size\<close> cells
  whose first \<open>bb_num\<close> cells are the elements, strictly ascending; \<open>bb_set\<close> is the set it stands for.
  The functions \<^verbatim>\<open>ext2fs_badblocks_*\<close> of the file only cast their arguments and call the
  \<^verbatim>\<open>ext2fs_u32_*\<close> functions below.
\<close>

subsection \<open>The structure and its construction\<close>

record u32_list =
  bb_magic :: errcode
  bb_num :: nat
  bb_size :: nat
  bb_list :: "u32 list"
  bb_flags :: u32

text \<open>
  \<open>ok1\<close> and \<open>ok2\<close> say whether the allocations of the structure and of its array succeed. A negative
  \<open>sz\<close> becomes a huge element count, which \<^verbatim>\<open>ext2fs_get_array\<close> refuses.
\<close>

definition make_u32_list ::
    "bool \<Rightarrow> bool \<Rightarrow> int \<Rightarrow> nat \<Rightarrow> u32 list option \<Rightarrow> (errcode + u32_list) ub" where
  "make_u32_list ok1 ok2 sz num list =
     (if \<not> ok1 then Some (Inl EXT2_ET_NO_MEMORY)
      else if sz < 0 \<or> \<not> ok2 then Some (Inl EXT2_ET_NO_MEMORY)
      else
        let n = (if sz = 0 then 10 else nat sz)
        in case list of
             None \<Rightarrow> Some (Inr \<lparr>bb_magic = EXT2_ET_MAGIC_BADBLOCKS_LIST, bb_num = num, bb_size = n,
                               bb_list = replicate n 0, bb_flags = 0\<rparr>)
           | Some l \<Rightarrow>
               if n \<le> length l
               then Some (Inr \<lparr>bb_magic = EXT2_ET_MAGIC_BADBLOCKS_LIST, bb_num = num, bb_size = n,
                               bb_list = take n l, bb_flags = 0\<rparr>)
               else None)"

definition ext2fs_u32_list_create :: "bool \<Rightarrow> bool \<Rightarrow> int \<Rightarrow> (errcode + u32_list) ub" where
  "ext2fs_u32_list_create ok1 ok2 sz = make_u32_list ok1 ok2 sz 0 None"

definition ext2fs_u32_copy :: "bool \<Rightarrow> bool \<Rightarrow> u32_list \<Rightarrow> (errcode + u32_list) ub" where
  "ext2fs_u32_copy ok1 ok2 src = do {
     r \<leftarrow> make_u32_list ok1 ok2 (int (bb_size src)) (bb_num src) (Some (bb_list src));
     Some (case r of Inl e \<Rightarrow> Inl e | Inr dest \<Rightarrow> Inr (dest\<lparr>bb_flags := bb_flags src\<rparr>))
   }"

subsection \<open>Adding an element\<close>

text \<open>
  The scan for the insertion point (\<^verbatim>\<open>for (i=0; i < bb->num; i++)\<close>): \<open>Some None\<close> when the element
  is already present, \<open>Some (Some j)\<close> for the index \<open>j\<close> at which it is to be stored.
\<close>

function u32_add_scan :: "u32 list \<Rightarrow> u32 \<Rightarrow> nat \<Rightarrow> nat \<Rightarrow> nat option ub" where
  "u32_add_scan list blk num i =
     (if i < num then do {
        v \<leftarrow> c_load list i;
        if v = blk then Some None
        else if v > blk then Some (Some i)
        else u32_add_scan list blk num (Suc i)
      } else Some (Some num))"
  by pat_completeness auto
termination
  by (relation "measure (\<lambda>(list, blk, num, i). num - i)") auto

text \<open>The loop that moves the tail up by one cell, \<^verbatim>\<open>for (i=bb->num; i > j; i--)\<close>.\<close>

fun u32_shift_up :: "u32 list \<Rightarrow> nat \<Rightarrow> nat \<Rightarrow> u32 list ub" where
  "u32_shift_up list j 0 = Some list"
| "u32_shift_up list j (Suc i) =
     (if j < Suc i then do {
        v \<leftarrow> c_load list i;
        list' \<leftarrow> c_store list (Suc i) v;
        u32_shift_up list' j i
      } else Some list)"

definition u32_insert :: "u32_list \<Rightarrow> u32 \<Rightarrow> (errcode \<times> u32_list) ub" where
  "u32_insert bb blk = do {
     r \<leftarrow> u32_add_scan (bb_list bb) blk (bb_num bb) 0;
     case r of
       None \<Rightarrow> Some (E_OK, bb)
     | Some j \<Rightarrow> do {
         l1 \<leftarrow> u32_shift_up (bb_list bb) j (bb_num bb);
         l2 \<leftarrow> c_store l1 j blk;
         Some (E_OK, bb\<lparr>bb_list := l2, bb_num := Suc (bb_num bb)\<rparr>)
       }
   }"

definition u32_append :: "u32_list \<Rightarrow> u32 \<Rightarrow> (errcode \<times> u32_list) ub" where
  "u32_append bb blk = do {
     l \<leftarrow> c_store (bb_list bb) (bb_num bb) blk;
     Some (E_OK, bb\<lparr>bb_list := l, bb_num := Suc (bb_num bb)\<rparr>)
   }"

definition ext2fs_u32_list_add ::
    "bool \<Rightarrow> (nat \<Rightarrow> u32) \<Rightarrow> u32_list \<Rightarrow> u32 \<Rightarrow> (errcode \<times> u32_list) ub" where
  "ext2fs_u32_list_add ok junk bb blk =
     (if bb_magic bb \<noteq> EXT2_ET_MAGIC_BADBLOCKS_LIST
      then Some (EXT2_ET_MAGIC_BADBLOCKS_LIST, bb)
      else if bb_num bb \<ge> bb_size bb \<and> bb_size bb + 100 > INT_MAX then None
      else if bb_num bb \<ge> bb_size bb \<and> \<not> ok then Some (EXT2_ET_NO_MEMORY, bb)
      else
        let bb = (if bb_num bb \<ge> bb_size bb
                  then bb\<lparr>bb_size := bb_size bb + 100,
                          bb_list := c_realloc junk (bb_list bb) (bb_size bb + 100)\<rparr>
                  else bb)
        in if bb_num bb = 0 then u32_append bb blk
           else do {
             last \<leftarrow> c_load (bb_list bb) (bb_num bb - 1);
             if last = blk then Some (E_OK, bb)
             else if last < blk then u32_append bb blk
             else u32_insert bb blk
           })"

subsection \<open>Searching, testing, deleting\<close>

text \<open>The search loop of \<^verbatim>\<open>ext2fs_u32_list_find\<close>; the result is the index or -1.\<close>

function u32_find_loop :: "u32 list \<Rightarrow> u32 \<Rightarrow> nat \<Rightarrow> nat \<Rightarrow> int ub" where
  "u32_find_loop list blk low high =
     (if low < high then
        let mid = (low + high) div 2 in
        if mid = low \<or> mid = high then Some (-1)
        else do {
          v \<leftarrow> c_load list mid;
          if blk = v then Some (int mid)
          else if blk < v then u32_find_loop list blk low mid
          else u32_find_loop list blk mid high
        }
      else Some (-1))"
  by pat_completeness auto
termination
  by (relation "measure (\<lambda>(list, blk, low, high). high - low)") auto

definition ext2fs_u32_list_find :: "u32_list \<Rightarrow> u32 \<Rightarrow> int ub" where
  "ext2fs_u32_list_find bb blk =
     (if bb_magic bb \<noteq> EXT2_ET_MAGIC_BADBLOCKS_LIST then Some (-1)
      else if bb_num bb = 0 then Some (-1)
      else do {
        lo \<leftarrow> c_load (bb_list bb) 0;
        if blk = lo then Some 0
        else do {
          hi \<leftarrow> c_load (bb_list bb) (bb_num bb - 1);
          if blk = hi then Some (int (bb_num bb - 1))
          else u32_find_loop (bb_list bb) blk 0 (bb_num bb - 1)
        }
      })"

definition ext2fs_u32_list_test :: "u32_list \<Rightarrow> u32 \<Rightarrow> int ub" where
  "ext2fs_u32_list_test bb blk = do {
     i \<leftarrow> ext2fs_u32_list_find bb blk;
     Some (if i < 0 then 0 else 1)
   }"

text \<open>The loop that moves the tail down over the deleted cell.\<close>

function u32_shift_down :: "u32 list \<Rightarrow> nat \<Rightarrow> nat \<Rightarrow> u32 list ub" where
  "u32_shift_down list num i =
     (if i < num - 1 then do {
        v \<leftarrow> c_load list (Suc i);
        list' \<leftarrow> c_store list i v;
        u32_shift_down list' num (Suc i)
      } else Some list)"
  by pat_completeness auto
termination
  by (relation "measure (\<lambda>(list, num, i). num - i)") auto

definition ext2fs_u32_list_del :: "u32_list \<Rightarrow> u32 \<Rightarrow> (int \<times> u32_list) ub" where
  "ext2fs_u32_list_del bb blk =
     (if bb_num bb = 0 then Some (-1, bb)
      else do {
        remloc \<leftarrow> ext2fs_u32_list_find bb blk;
        if remloc < 0 then Some (-1, bb)
        else do {
          l \<leftarrow> u32_shift_down (bb_list bb) (bb_num bb) (nat remloc);
          Some (0, bb\<lparr>bb_list := l, bb_num := bb_num bb - 1\<rparr>)
        }
      })"

subsection \<open>Iterating and comparing\<close>

record u32_iterate =
  it_magic :: errcode
  it_bb :: u32_list
  it_ptr :: nat

definition ext2fs_u32_list_iterate_begin ::
    "bool \<Rightarrow> u32_list \<Rightarrow> errcode + u32_iterate" where
  "ext2fs_u32_list_iterate_begin ok bb =
     (if bb_magic bb \<noteq> EXT2_ET_MAGIC_BADBLOCKS_LIST then Inl EXT2_ET_MAGIC_BADBLOCKS_LIST
      else if \<not> ok then Inl EXT2_ET_NO_MEMORY
      else Inr \<lparr>it_magic = EXT2_ET_MAGIC_BADBLOCKS_ITERATE, it_bb = bb, it_ptr = 0\<rparr>)"

text \<open>
  One step of the iteration: the C result (1 or 0), the value stored through \<^verbatim>\<open>blk\<close> (no store on a
  bad magic number) and the advanced iterator.
\<close>

definition ext2fs_u32_list_iterate ::
    "u32_iterate \<Rightarrow> (int \<times> u32 option \<times> u32_iterate) ub" where
  "ext2fs_u32_list_iterate iter =
     (if it_magic iter \<noteq> EXT2_ET_MAGIC_BADBLOCKS_ITERATE then Some (0, None, iter)
      else if bb_magic (it_bb iter) \<noteq> EXT2_ET_MAGIC_BADBLOCKS_LIST then Some (0, None, iter)
      else if it_ptr iter < bb_num (it_bb iter) then do {
        v \<leftarrow> c_load (bb_list (it_bb iter)) (it_ptr iter);
        Some (1, Some v, iter\<lparr>it_ptr := Suc (it_ptr iter)\<rparr>)
      }
      else Some (0, Some 0, iter))"

text \<open>A client's loop \<^verbatim>\<open>while (ext2fs_u32_list_iterate(iter, &blk))\<close>, collecting the values.\<close>

fun u32_list_collect :: "nat \<Rightarrow> u32_iterate \<Rightarrow> u32 list ub" where
  "u32_list_collect 0 iter = None"
| "u32_list_collect (Suc fuel) iter = do {
     (r, v, iter') \<leftarrow> ext2fs_u32_list_iterate iter;
     case v of
       None \<Rightarrow> Some []
     | Some blk \<Rightarrow> if r = 0 then Some [] else do {
         rest \<leftarrow> u32_list_collect fuel iter';
         Some (blk # rest)
       }
   }"

text \<open>
  \<^verbatim>\<open>memcmp\<close> of the first \<^verbatim>\<open>num\<close> cells. A wrong magic number makes the function return the
  error code \<open>EXT2_ET_MAGIC_BADBLOCKS_LIST\<close> through its \<^verbatim>\<open>int\<close> result; it is modelled as \<open>Inl\<close>.
\<close>

definition ext2fs_u32_list_equal :: "u32_list \<Rightarrow> u32_list \<Rightarrow> (errcode + int) ub" where
  "ext2fs_u32_list_equal bb1 bb2 =
     (if bb_magic bb1 \<noteq> EXT2_ET_MAGIC_BADBLOCKS_LIST \<or> bb_magic bb2 \<noteq> EXT2_ET_MAGIC_BADBLOCKS_LIST
      then Some (Inl EXT2_ET_MAGIC_BADBLOCKS_LIST)
      else if bb_num bb1 \<noteq> bb_num bb2 then Some (Inr 0)
      else if bb_num bb1 > length (bb_list bb1) \<or> bb_num bb1 > length (bb_list bb2) then None
      else Some (Inr (if take (bb_num bb1) (bb_list bb1) = take (bb_num bb1) (bb_list bb2)
                      then 1 else 0)))"

definition ext2fs_u32_list_count :: "u32_list \<Rightarrow> int" where
  "ext2fs_u32_list_count bb = int (bb_num bb)"

subsection \<open>The invariant and the set a list stands for\<close>

definition bb_elems :: "u32_list \<Rightarrow> u32 list" where
  "bb_elems bb = take (bb_num bb) (bb_list bb)"

definition bb_ok :: "u32_list \<Rightarrow> bool" where
  "bb_ok bb \<longleftrightarrow> bb_magic bb = EXT2_ET_MAGIC_BADBLOCKS_LIST \<and> bb_num bb \<le> bb_size bb
     \<and> length (bb_list bb) = bb_size bb \<and> sorted_wrt (<) (bb_elems bb)"

definition bb_set :: "u32_list \<Rightarrow> u32 set" where
  "bb_set bb = set (bb_elems bb)"

lemma length_bb_elems [simp]: "bb_ok bb \<Longrightarrow> length (bb_elems bb) = bb_num bb"
  by (simp add: bb_ok_def bb_elems_def)

lemma bb_nth: "i < bb_num bb \<Longrightarrow> bb_list bb ! i = bb_elems bb ! i"
  by (simp add: bb_elems_def)

text \<open>The helper loops.\<close>

declare u32_add_scan.simps [simp del] u32_find_loop.simps [simp del] u32_shift_down.simps [simp del]

lemma u32_add_scan_correct:
  assumes "num \<le> length l" "i \<le> num" "sorted_wrt (<) (take num l)" "\<And>k. k < i \<Longrightarrow> l ! k < blk"
  shows "\<exists>r. u32_add_scan l blk num i = Some r \<and>
    (case r of None \<Rightarrow> blk \<in> set (take num l)
     | Some j \<Rightarrow> j \<le> num \<and> (\<forall>k<j. l ! k < blk) \<and> (\<forall>k. j \<le> k \<longrightarrow> k < num \<longrightarrow> blk < l ! k))"
  using assms
proof (induction l blk num i rule: u32_add_scan.induct)
  case (1 l blk num i)
  show ?case
  proof (cases "i < num")
    case False
    with 1 show ?thesis by (subst u32_add_scan.simps) auto
  next
    case True
    with 1 have load: "c_load l i = Some (l ! i)" by simp
    consider "l ! i = blk" | "blk < l ! i" | "l ! i < blk" by force
    then show ?thesis
    proof cases
      case 1
      with True load "1.prems" show ?thesis
        by (subst u32_add_scan.simps) (auto simp: in_set_conv_nth)
    next
      case 2
      have "blk < l ! k" if "i \<le> k" "k < num" for k
        using 2 that "1.prems" sorted_wrt_nth_less [of "(<)" "take num l" i k]
        by (cases "i = k") auto
      with 2 True load "1.prems" show ?thesis
        by (subst u32_add_scan.simps) auto
    next
      case 3
      have below: "l ! k < blk" if "k < Suc i" for k
        using that 3 "1.prems"(4) by (cases "k = i") auto
      from "1.IH" [OF True] 3 have
        "\<exists>r. u32_add_scan l blk num (Suc i) = Some r \<and>
          (case r of None \<Rightarrow> blk \<in> set (take num l)
           | Some j \<Rightarrow> j \<le> num \<and> (\<forall>k<j. l ! k < blk) \<and> (\<forall>k. j \<le> k \<longrightarrow> k < num \<longrightarrow> blk < l ! k))"
        using "1.prems" True below less_imp_le [OF 3] less_imp_neq [OF 3] by (auto simp: not_less)
      with 3 True load show ?thesis
        by (subst u32_add_scan.simps) auto
    qed
  qed
qed

lemma u32_shift_up_correct:
  assumes "i < length l" "j \<le> i"
  shows "u32_shift_up l j i = Some (take j l @ l ! j # drop j (take i l) @ drop (Suc i) l)"
  using assms
proof (induction l j i rule: u32_shift_up.induct)
  case (1 l j)
  then show ?case by (simp add: Cons_nth_drop_Suc)
next
  case (2 l j i)
  show ?case
  proof (cases "j = Suc i")
    case True
    with 2 show ?thesis by (simp add: Cons_nth_drop_Suc)
  next
    case False
    with "2.prems" have j: "j < Suc i" by simp
    have "u32_shift_up l j (Suc i) = u32_shift_up (l[Suc i := l ! i]) j i"
      using "2.prems" j by simp
    also have "\<dots> = Some (take j (l[Suc i := l ! i]) @ l[Suc i := l ! i] ! j
        # drop j (take i (l[Suc i := l ! i])) @ drop (Suc i) (l[Suc i := l ! i]))"
      by (rule "2.IH" [OF j]) (use "2.prems" j in auto)
    also have "drop (Suc i) (l[Suc i := l ! i]) = l ! i # drop (Suc (Suc i)) l"
      using "2.prems" by (metis Cons_nth_drop_Suc drop_update_cancel length_list_update lessI
          nth_list_update_eq)
    also have "drop j (take i (l[Suc i := l ! i])) @ l ! i # drop (Suc (Suc i)) l
        = drop j (take (Suc i) l) @ drop (Suc (Suc i)) l"
      using "2.prems" j by (simp add: take_Suc_conv_app_nth)
    finally show ?thesis
      using j by simp
  qed
qed

lemma u32_shift_down_correct:
  assumes "num \<le> length l" "i < num"
  shows "u32_shift_down l num i = Some (take i l @ drop (Suc i) (take num l) @ drop (num - 1) l)"
  using assms
proof (induction l num i rule: u32_shift_down.induct)
  case (1 l num i)
  show ?case
  proof (cases "i < num - 1")
    case False
    with "1.prems" have "num = Suc i" by simp
    then show ?thesis by (subst u32_shift_down.simps) simp
  next
    case True
    let ?l = "l[i := l ! Suc i]"
    have "u32_shift_down l num i = u32_shift_down ?l num (Suc i)"
      using "1.prems" True by (subst u32_shift_down.simps) simp
    also have "\<dots> = Some (take (Suc i) ?l @ drop (Suc (Suc i)) (take num ?l) @ drop (num - 1) ?l)"
      by (rule "1.IH" [OF True]) (use "1.prems" True in auto)
    also have "take (Suc i) ?l = take i l @ [l ! Suc i]"
      using "1.prems" True by (simp add: take_Suc_conv_app_nth)
    also have "drop (Suc (Suc i)) (take num ?l) = drop (Suc (Suc i)) (take num l)"
      using True by (simp add: drop_take)
    also have "drop (num - 1) ?l = drop (num - 1) l"
      using True by simp
    also have "(take i l @ [l ! Suc i]) @ drop (Suc (Suc i)) (take num l) @ drop (num - 1) l
        = take i l @ drop (Suc i) (take num l) @ drop (num - 1) l"
      using "1.prems" True Cons_nth_drop_Suc [of "Suc i" "take num l"] by simp
    finally show ?thesis .
  qed
qed

lemma u32_find_loop_absent:
  assumes "blk \<notin> set (take n l)" "high < n" "n \<le> length l"
  shows "u32_find_loop l blk low high = Some (-1)"
  using assms
proof (induction l blk low high rule: u32_find_loop.induct)
  case (1 l blk low high)
  show ?case
  proof (cases "low < high \<and> \<not> ((low + high) div 2 = low \<or> (low + high) div 2 = high)")
    case True
    let ?m = "(low + high) div 2"
    from True "1.prems" have m: "?m < n" "?m < length l" by auto
    with "1.prems" have "l ! ?m \<noteq> blk" by (auto simp: in_set_conv_nth)
    with True m "1.IH" "1.prems" show ?thesis
      by (subst u32_find_loop.simps) (auto simp: Let_def)
  qed (subst u32_find_loop.simps, auto simp: Let_def)
qed

text \<open>Between two elements the search finds every element of the table.\<close>

lemma u32_find_loop_present:
  assumes "sorted_wrt (<) (take n l)" "n \<le> length l" "k < n" "low < k" "k < high" "high < n"
  shows "u32_find_loop l (l ! k) low high = Some (int k)"
  using assms
proof (induction l "l ! k" low high rule: u32_find_loop.induct)
  case (1 l low high)
  let ?m = "(low + high) div 2"
  from "1.prems" have lh: "low < high" and nm: "\<not> (?m = low \<or> ?m = high)" and m: "?m < n" "?m < length l"
    by auto
  then have load: "c_load l ?m = Some (l ! ?m)" by simp
  have lt: "l ! i < l ! j \<longleftrightarrow> i < j" if "i < n" "j < n" for i j
    using that "1.prems"(1,2) sorted_wrt_nth_less_iff [of "take n l" i j] by simp
  have eq: "l ! i = l ! j \<longleftrightarrow> i = j" if "i < n" "j < n" for i j
    using that "1.prems"(1,2) sorted_wrt_nth_eq_iff [of "take n l" i j] by simp
  have step: "u32_find_loop l (l ! k) low high =
      (if k = ?m then Some (int ?m)
       else if k < ?m then u32_find_loop l (l ! k) low ?m else u32_find_loop l (l ! k) ?m high)"
    using lh nm m "1.prems" by (subst u32_find_loop.simps) (simp add: Let_def lt eq)
  consider "k = ?m" | "k < ?m" | "?m < k" by force
  then show ?case
  proof cases
    case 2
    then have "l ! k \<noteq> l ! ?m" "l ! k < l ! ?m" using "1.prems" m by (simp_all add: lt eq)
    from "1.hyps"(1) [OF lh refl nm load this] 2 "1.prems" m step show ?thesis by simp
  next
    case 3
    then have "l ! k \<noteq> l ! ?m" "\<not> l ! k < l ! ?m" using "1.prems" m by (simp_all add: lt eq)
    from "1.hyps"(2) [OF lh refl nm load this] 3 "1.prems" m step show ?thesis by simp
  qed (subst step, simp)
qed

subsection \<open>The operations on a well-formed list\<close>

lemma bb_okD:
  assumes "bb_ok bb"
  shows "bb_magic bb = EXT2_ET_MAGIC_BADBLOCKS_LIST" "bb_num bb \<le> length (bb_list bb)"
    "length (bb_list bb) = bb_size bb" "bb_num bb \<le> bb_size bb" "sorted_wrt (<) (take (bb_num bb) (bb_list bb))"
  using assms by (auto simp: bb_ok_def bb_elems_def)

lemma bb_set_nth: "bb_ok bb \<Longrightarrow> blk \<in> bb_set bb \<longleftrightarrow> (\<exists>k < bb_num bb. bb_list bb ! k = blk)"
  using bb_okD(2) [of bb] by (fastforce simp: bb_set_def bb_elems_def in_set_conv_nth)

lemma u32_list_find_unfold:
  assumes "bb_ok bb" "bb_num bb \<noteq> 0"
  shows "ext2fs_u32_list_find bb blk =
      (if blk = bb_list bb ! 0 then Some 0
       else if blk = bb_list bb ! (bb_num bb - 1) then Some (int (bb_num bb - 1))
       else u32_find_loop (bb_list bb) blk 0 (bb_num bb - 1))"
proof -
  from assms have "0 < length (bb_list bb)" "bb_num bb - 1 < length (bb_list bb)"
    by (auto dest: bb_okD)
  then have "c_load (bb_list bb) 0 = Some (bb_list bb ! 0)"
    "c_load (bb_list bb) (bb_num bb - 1) = Some (bb_list bb ! (bb_num bb - 1))"
    by simp_all
  with assms show ?thesis
    by (simp add: ext2fs_u32_list_find_def bb_okD)
qed

lemma u32_list_find_absent:
  assumes "bb_ok bb" "blk \<notin> bb_set bb"
  shows "ext2fs_u32_list_find bb blk = Some (-1)"
proof (cases "bb_num bb = 0")
  case False
  have "blk \<notin> set (take (bb_num bb) (bb_list bb))"
    using assms(2) by (simp add: bb_set_def bb_elems_def)
  moreover have "bb_list bb ! 0 \<noteq> blk" "bb_list bb ! (bb_num bb - 1) \<noteq> blk"
    using assms False by (auto simp: bb_set_nth)
  ultimately show ?thesis
    using assms False u32_find_loop_absent [of blk "bb_num bb"]
    by (auto simp: u32_list_find_unfold bb_okD)
qed (simp add: ext2fs_u32_list_find_def)

lemma u32_list_find_present:
  assumes "bb_ok bb" "k < bb_num bb"
  shows "ext2fs_u32_list_find bb (bb_list bb ! k) = Some (int k)"
proof -
  let ?n = "bb_num bb"
  have eq: "bb_list bb ! i = bb_list bb ! j \<longleftrightarrow> i = j" if "i < ?n" "j < ?n" for i j
    using that assms(1) sorted_wrt_nth_eq_iff [of "take ?n (bb_list bb)" i j] bb_okD [OF assms(1)]
    by simp
  have eqs: "bb_list bb ! k = bb_list bb ! 0 \<longleftrightarrow> k = 0" "bb_list bb ! k = bb_list bb ! (?n - 1) \<longleftrightarrow> k = ?n - 1"
    using assms eq by auto
  show ?thesis
  proof (cases "k = 0 \<or> k = ?n - 1")
    case True
    with assms eqs show ?thesis by (auto simp: u32_list_find_unfold)
  next
    case False
    with assms have "u32_find_loop (bb_list bb) (bb_list bb ! k) 0 (?n - 1) = Some (int k)"
      by (intro u32_find_loop_present [of ?n]) (auto simp: bb_okD)
    with False assms eqs show ?thesis by (simp add: u32_list_find_unfold)
  qed
qed

lemma ext2fs_u32_list_test_correct:
  assumes "bb_ok bb"
  shows "ext2fs_u32_list_test bb blk = Some (if blk \<in> bb_set bb then 1 else 0)"
proof (cases "blk \<in> bb_set bb")
  case True
  with assms obtain k where "k < bb_num bb" "bb_list bb ! k = blk" by (auto simp: bb_set_nth)
  with u32_list_find_present [OF assms] True show ?thesis
    by (auto simp: ext2fs_u32_list_test_def)
next
  case False
  with assms show ?thesis by (simp add: ext2fs_u32_list_test_def u32_list_find_absent)
qed

lemma u32_append_correct:
  assumes "bb_ok bb" "bb_num bb < bb_size bb" "bb_num bb = 0 \<or> bb_list bb ! (bb_num bb - 1) < blk"
  shows "\<exists>bb'. u32_append bb blk = Some (E_OK, bb') \<and> bb_ok bb' \<and> bb_set bb' = insert blk (bb_set bb)
    \<and> bb_size bb' = bb_size bb"
proof -
  let ?n = "bb_num bb" and ?l = "bb_list bb"
  from assms have n: "?n < length ?l" by (simp add: bb_okD)
  let ?bb = "bb\<lparr>bb_list := ?l[?n := blk], bb_num := Suc ?n\<rparr>"
  have el: "bb_elems ?bb = bb_elems bb @ [blk]"
    using n by (simp add: bb_elems_def take_Suc_conv_app_nth)
  have "x < blk" if "x \<in> set (bb_elems bb)" for x
  proof -
    from that n obtain k where k: "k < ?n" "x = ?l ! k"
      by (auto simp: bb_elems_def in_set_conv_nth)
    then have "?l ! k \<le> ?l ! (?n - 1)"
      using bb_okD(5) [OF assms(1)] n sorted_wrt_nth_less [of "(<)" "take ?n ?l" k "?n - 1"]
      by (cases "k = ?n - 1") (auto intro: less_imp_le)
    with k assms(3) show ?thesis by auto
  qed
  with el assms n have "bb_ok ?bb" "bb_set ?bb = insert blk (bb_set bb)"
    by (auto simp: bb_ok_def sorted_wrt_append bb_set_def)
  moreover have "u32_append bb blk = Some (E_OK, ?bb)"
    using n by (simp add: u32_append_def)
  ultimately show ?thesis by simp
qed

lemma u32_insert_correct:
  assumes "bb_ok bb" "bb_num bb < bb_size bb"
  shows "\<exists>bb'. u32_insert bb blk = Some (E_OK, bb') \<and> bb_ok bb' \<and> bb_set bb' = insert blk (bb_set bb)
    \<and> bb_size bb' = bb_size bb"
proof -
  let ?n = "bb_num bb" and ?l = "bb_list bb"
  note ok = bb_okD [OF assms(1)]
  obtain r where r: "u32_add_scan ?l blk ?n 0 = Some r"
    and rc: "case r of None \<Rightarrow> blk \<in> set (take ?n ?l)
     | Some j \<Rightarrow> j \<le> ?n \<and> (\<forall>k<j. ?l ! k < blk) \<and> (\<forall>k. j \<le> k \<longrightarrow> k < ?n \<longrightarrow> blk < ?l ! k)"
    using u32_add_scan_correct [of ?n ?l 0 blk] ok by auto
  show ?thesis
  proof (cases r)
    case None
    with rc have "blk \<in> bb_set bb" by (simp add: bb_set_def bb_elems_def)
    with None r assms show ?thesis by (simp add: u32_insert_def insert_absorb)
  next
    case (Some j)
    with rc have j: "j \<le> ?n" and below: "\<And>k. k < j \<Longrightarrow> ?l ! k < blk"
      and above: "\<And>k. j \<le> k \<Longrightarrow> k < ?n \<Longrightarrow> blk < ?l ! k" by auto
    from assms ok have n: "?n < length ?l" by simp
    let ?l1 = "take j ?l @ ?l ! j # drop j (take ?n ?l) @ drop (Suc ?n) ?l"
    let ?l2 = "take j ?l @ blk # drop j (take ?n ?l) @ drop (Suc ?n) ?l"
    let ?bb = "bb\<lparr>bb_list := ?l2, bb_num := Suc ?n\<rparr>"
    have sh: "u32_shift_up ?l j ?n = Some ?l1" using n j by (rule u32_shift_up_correct)
    have st: "c_store ?l1 j blk = Some ?l2"
      using n j by (simp add: c_store_def list_update_append min_def)
    have el: "bb_elems ?bb = take j (bb_elems bb) @ blk # drop j (bb_elems bb)"
      using n j by (simp add: bb_elems_def min_def Suc_diff_le)
    have "sorted_wrt (<) (bb_elems ?bb)"
      unfolding el using ok j below above n
      by (intro sorted_insert_gap) (auto simp: bb_elems_def)
    then have "bb_ok ?bb"
      using assms ok n j by (auto simp: bb_ok_def)
    moreover have "bb_set ?bb = insert blk (bb_set bb)"
      unfolding bb_set_def el by (rule set_insert_gap)
    moreover have "u32_insert bb blk = Some (E_OK, ?bb)"
      by (simp add: u32_insert_def r Some sh st)
    ultimately show ?thesis by simp
  qed
qed

lemma bb_grow_ok:
  fixes junk :: "nat \<Rightarrow> u32"
  assumes "bb_ok bb"
  defines "bb' \<equiv> bb\<lparr>bb_size := bb_size bb + 100, bb_list := c_realloc junk (bb_list bb) (bb_size bb + 100)\<rparr>"
  shows "bb_ok bb'" "bb_set bb' = bb_set bb" "bb_num bb' < bb_size bb'" "bb_num bb' = bb_num bb"
proof -
  have "bb_elems bb' = bb_elems bb"
    using bb_okD [OF assms(1)] by (simp add: bb'_def bb_elems_def)
  then show "bb_ok bb'" "bb_set bb' = bb_set bb" "bb_num bb' < bb_size bb'" "bb_num bb' = bb_num bb"
    using assms by (auto simp: bb_ok_def bb_set_def bb'_def)
qed

text \<open>
  With room in the array or a successful reallocation, adding is insertion into the set. Whatever
  happens, a defined call keeps the invariant, and a failing one changes nothing.
\<close>

lemma u32_list_add_room:
  assumes "bb_ok bb" "bb_num bb < bb_size bb"
  shows "\<exists>bb'. (if bb_num bb = 0 then u32_append bb blk
           else do {
             last \<leftarrow> c_load (bb_list bb) (bb_num bb - 1);
             if last = blk then Some (E_OK, bb)
             else if last < blk then u32_append bb blk
             else u32_insert bb blk
           }) = Some (E_OK, bb') \<and> bb_ok bb' \<and> bb_set bb' = insert blk (bb_set bb)
           \<and> bb_size bb' = bb_size bb"
proof (cases "bb_num bb = 0")
  case True
  with u32_append_correct [OF assms, of blk] show ?thesis by simp
next
  case False
  let ?last = "bb_list bb ! (bb_num bb - 1)"
  have "bb_num bb - 1 < length (bb_list bb)" using assms False bb_okD [OF assms(1)] by linarith
  then have load: "c_load (bb_list bb) (bb_num bb - 1) = Some ?last" by (rule c_load_inside)
  consider "?last = blk" | "?last < blk" | "blk < ?last" by force
  then show ?thesis
  proof cases
    case 1
    from False have "bb_num bb - 1 < bb_num bb" by simp
    with assms 1 have "blk \<in> bb_set bb" by (auto simp only: bb_set_nth)
    with 1 False load assms show ?thesis by (simp add: insert_absorb)
  next
    case 2
    with u32_append_correct [OF assms, of blk] False load show ?thesis by auto
  next
    case 3
    with u32_insert_correct [OF assms, of blk] False load show ?thesis by auto
  qed
qed

lemma ext2fs_u32_list_add_ok:
  assumes "bb_ok bb" and room: "bb_num bb < bb_size bb \<or> ok \<and> bb_size bb + 100 \<le> INT_MAX"
  shows "\<exists>bb'. ext2fs_u32_list_add ok junk bb blk = Some (E_OK, bb') \<and> bb_ok bb'
    \<and> bb_set bb' = insert blk (bb_set bb)"
proof (cases "bb_num bb < bb_size bb")
  case True
  with assms u32_list_add_room [OF assms(1) True, of blk] show ?thesis
    by (auto simp: ext2fs_u32_list_add_def bb_okD Let_def simp del: c_load_inside)
next
  case False
  let ?bb = "bb\<lparr>bb_size := bb_size bb + 100, bb_list := c_realloc junk (bb_list bb) (bb_size bb + 100)\<rparr>"
  note g = bb_grow_ok [OF assms(1), of junk]
  have "ext2fs_u32_list_add ok junk bb blk = (if bb_num ?bb = 0 then u32_append ?bb blk
           else do {
             last \<leftarrow> c_load (bb_list ?bb) (bb_num ?bb - 1);
             if last = blk then Some (E_OK, ?bb)
             else if last < blk then u32_append ?bb blk
             else u32_insert ?bb blk
           })"
    using False room assms(1) by (simp add: ext2fs_u32_list_add_def bb_okD Let_def)
  with u32_list_add_room [OF g(1,3), of blk] g(2) show ?thesis by (auto simp del: c_load_inside)
qed

lemma ext2fs_u32_list_add_no_memory:
  assumes "bb_ok bb" "bb_num bb = bb_size bb" "bb_size bb + 100 \<le> INT_MAX"
  shows "ext2fs_u32_list_add False junk bb blk = Some (EXT2_ET_NO_MEMORY, bb)"
  using assms by (simp add: ext2fs_u32_list_add_def bb_okD)

lemma ext2fs_u32_list_del_correct:
  assumes "bb_ok bb"
  shows "\<exists>bb'. ext2fs_u32_list_del bb blk = Some (if blk \<in> bb_set bb then 0 else -1, bb') \<and> bb_ok bb'
    \<and> bb_set bb' = bb_set bb - {blk} \<and> bb_size bb' = bb_size bb"
proof (cases "blk \<in> bb_set bb")
  case False
  with assms show ?thesis by (simp add: ext2fs_u32_list_del_def u32_list_find_absent)
next
  case True
  let ?n = "bb_num bb" and ?l = "bb_list bb"
  note ok = bb_okD [OF assms]
  from True assms obtain k where k: "k < ?n" "?l ! k = blk" by (auto simp: bb_set_nth)
  let ?l' = "take k ?l @ drop (Suc k) (take ?n ?l) @ drop (?n - 1) ?l"
  let ?bb = "bb\<lparr>bb_list := ?l', bb_num := ?n - 1\<rparr>"
  have el: "bb_elems ?bb = take k (bb_elems bb) @ drop (Suc k) (bb_elems bb)"
    using k ok by (cases "?n - 1 = k") (auto simp: bb_elems_def min_def)
  have split: "bb_elems bb = take k (bb_elems bb) @ blk # drop (Suc k) (bb_elems bb)"
    using k assms id_take_nth_drop [of k "bb_elems bb"] by (simp add: bb_nth)
  have srt: "sorted_wrt (<) (take k (bb_elems bb) @ blk # drop (Suc k) (bb_elems bb))"
    using assms split by (simp add: bb_ok_def)
  then have "sorted_wrt (<) (bb_elems ?bb)"
    unfolding el by (auto simp: sorted_wrt_append)
  then have "bb_ok ?bb"
    using assms ok k by (auto simp: bb_ok_def)
  moreover have "bb_set ?bb = bb_set bb - {blk}"
    using srt unfolding bb_set_def el by (subst split) (auto simp: sorted_wrt_append)
  moreover have "ext2fs_u32_list_del bb blk = Some (0, ?bb)"
    using u32_list_find_present [OF assms k(1)] k ok u32_shift_down_correct [of ?n ?l k]
    by (simp add: ext2fs_u32_list_del_def)
  ultimately show ?thesis using True by simp
qed

subsection \<open>Construction, copying, comparing, iterating\<close>

lemma ext2fs_u32_list_create_ok:
  assumes "0 \<le> sz"
  shows "\<exists>bb. ext2fs_u32_list_create True True sz = Some (Inr bb) \<and> bb_ok bb \<and> bb_set bb = {}
    \<and> bb_size bb = (if sz = 0 then 10 else nat sz)"
  using assms
  by (auto simp: ext2fs_u32_list_create_def make_u32_list_def Let_def bb_ok_def bb_set_def bb_elems_def)

lemma ext2fs_u32_copy_ok:
  assumes "bb_ok bb" "bb_size bb \<noteq> 0"
  shows "ext2fs_u32_copy True True bb = Some (Inr bb)"
  using assms by (cases bb) (simp add: ext2fs_u32_copy_def make_u32_list_def bb_ok_def)

lemma bb_set_eq_iff:
  assumes "bb_ok bb1" "bb_ok bb2"
  shows "bb_set bb1 = bb_set bb2 \<longleftrightarrow> bb_elems bb1 = bb_elems bb2"
  using assms strict_sorted_equal [of "bb_elems bb1" "bb_elems bb2"]
  by (auto simp: bb_set_def bb_ok_def)

lemma ext2fs_u32_list_equal_correct:
  assumes "bb_ok bb1" "bb_ok bb2"
  shows "ext2fs_u32_list_equal bb1 bb2 = Some (Inr (if bb_set bb1 = bb_set bb2 then 1 else 0))"
proof (cases "bb_num bb1 = bb_num bb2")
  case True
  with bb_set_eq_iff [OF assms] bb_okD(1,2) [OF assms(1)] bb_okD(1,2) [OF assms(2)] show ?thesis
    by (simp add: ext2fs_u32_list_equal_def bb_elems_def)
next
  case False
  with assms have "bb_elems bb1 \<noteq> bb_elems bb2" by (metis length_bb_elems)
  with False assms bb_set_eq_iff [OF assms] show ?thesis
    by (simp add: ext2fs_u32_list_equal_def bb_okD)
qed

lemma u32_list_collect_from:
  assumes "bb_ok bb" "p \<le> bb_num bb" "bb_num bb - p < fuel"
  shows "u32_list_collect fuel \<lparr>it_magic = EXT2_ET_MAGIC_BADBLOCKS_ITERATE, it_bb = bb, it_ptr = p\<rparr>
    = Some (drop p (bb_elems bb))"
  using assms
proof (induction fuel arbitrary: p)
  case 0
  then show ?case by simp
next
  case (Suc fuel)
  show ?case
  proof (cases "p < bb_num bb")
    case True
    with bb_okD(2) [OF Suc.prems(1)] have "p < length (bb_list bb)" by simp
    moreover have "drop p (bb_elems bb) = bb_list bb ! p # drop (Suc p) (bb_elems bb)"
      using True Suc.prems Cons_nth_drop_Suc [of p "bb_elems bb"] by (simp add: bb_nth)
    ultimately show ?thesis
      using True Suc.prems Suc.IH [of "Suc p"] by (simp add: ext2fs_u32_list_iterate_def bb_okD)
  next
    case False
    with Suc.prems show ?thesis by (simp add: ext2fs_u32_list_iterate_def bb_okD)
  qed
qed

lemma bb_elems_sorted_list: "bb_ok bb \<Longrightarrow> bb_elems bb = sorted_list_of_set (bb_set bb)"
  by (metis bb_ok_def bb_set_def sorted_list_of_set.idem_if_sorted_distinct strict_sorted_iff)

subsection \<open>The list as a provider of the set contract\<close>

text \<open>
  Adding and deleting as the contract sees them: an allocation failure leaves the structure
  unchanged and is no success, so the contract is stated for a memory that does not run out; the
  budget bounds the signed \<^verbatim>\<open>size\<close> field, which grows by 100 at most with each addition.
\<close>

definition u32_add_step :: "(nat \<Rightarrow> u32) \<Rightarrow> u32 \<Rightarrow> u32_list \<Rightarrow> u32_list ub" where
  "u32_add_step junk blk bb = map_option snd (ext2fs_u32_list_add True junk bb blk)"

definition u32_del_step :: "u32 \<Rightarrow> u32_list \<Rightarrow> u32_list ub" where
  "u32_del_step blk bb = map_option snd (ext2fs_u32_list_del bb blk)"

definition u32_test_step :: "u32_list \<Rightarrow> u32 \<Rightarrow> bool ub" where
  "u32_test_step bb blk = map_option (\<lambda>r. r \<noteq> 0) (ext2fs_u32_list_test bb blk)"

definition bb_budget :: "nat \<Rightarrow> u32_list \<Rightarrow> bool" where
  "bb_budget n bb \<longleftrightarrow> bb_size bb + 100 * n \<le> INT_MAX"

lemma u32_list_add_size:
  assumes "ext2fs_u32_list_add ok junk bb blk = Some (e, bb')"
  shows "bb_size bb' \<le> bb_size bb + 100"
  using assms
  by (auto simp: ext2fs_u32_list_add_def Let_def u32_append_def u32_insert_def Option.bind_eq_Some_conv
      split: if_splits option.splits)

interpretation bb: set_store bb_ok bb_set "\<lambda>_. UNIV" bb_budget "u32_add_step junk" u32_del_step u32_test_step
proof (unfold_locales, goal_cases)
  case (1 s k)
  then show ?case by (simp add: u32_test_step_def ext2fs_u32_list_test_correct)
next
  case (2 s k n)
  then have "bb_size s + 100 \<le> INT_MAX" by (simp add: bb_budget_def)
  with ext2fs_u32_list_add_ok [OF 2(1), of True junk k] obtain s' where
    s': "ext2fs_u32_list_add True junk s k = Some (E_OK, s')" "bb_ok s'" "bb_set s' = insert k (bb_set s)"
    by auto
  with 2 u32_list_add_size [OF s'(1)] show ?case by (auto simp: u32_add_step_def bb_budget_def)
next
  case (3 s k n)
  with ext2fs_u32_list_del_correct [OF 3(1), of k] show ?case
    by (auto simp: u32_del_step_def bb_budget_def)
qed

subsection \<open>Properties\<close>

text \<open>
  (C40) Any history of additions and deletions, executed by the code on a well-formed list of any
  contents, is free of undefined behaviour, leaves a well-formed list that holds exactly the set the
  history describes, and every later membership test reports that set, as long as memory lasts and
  the signed capacity field cannot overflow.
\<close>

theorem u32_list_history:
  assumes "bb_ok bb" "bb_size bb + 100 * length ops \<le> INT_MAX"
  shows "\<exists>bb'. run_ops (u32_add_step junk) u32_del_step ops bb = Some bb' \<and> bb_ok bb'
    \<and> bb_set bb' = spec_ops ops (bb_set bb)
    \<and> (\<forall>blk. ext2fs_u32_list_test bb' blk = Some (if blk \<in> spec_ops ops (bb_set bb) then 1 else 0))"
proof -
  have "bb_budget (length ops) bb" using assms(2) by (simp add: bb_budget_def)
  from bb.run_ops_refines [OF assms(1) _ this] obtain bb' where
    "run_ops (u32_add_step junk) u32_del_step ops bb = Some bb'" "bb_ok bb'"
    "bb_set bb' = spec_ops ops (bb_set bb)" by auto
  then show ?thesis by (auto simp: ext2fs_u32_list_test_correct)
qed

theorem u32_list_history_witness:
  "\<exists>bb'. run_ops (u32_add_step (\<lambda>_. 7)) u32_del_step [Mark 5, Mark 3, Unmark 5, Mark 4]
      \<lparr>bb_magic = EXT2_ET_MAGIC_BADBLOCKS_LIST, bb_num = 1, bb_size = 1, bb_list = [9], bb_flags = 0\<rparr> = Some bb'
    \<and> bb_set bb' = {3, 4, 9}"
proof -
  let ?bb = "\<lparr>bb_magic = EXT2_ET_MAGIC_BADBLOCKS_LIST, bb_num = 1, bb_size = 1, bb_list = [9], bb_flags = 0\<rparr> :: u32_list"
  have "bb_ok ?bb" by (simp add: bb_ok_def bb_elems_def)
  from u32_list_history [OF this, of "[Mark 5, Mark 3, Unmark 5, Mark 4]" "\<lambda>_. 7"]
  show ?thesis by (auto simp: bb_set_def bb_elems_def)
qed

text \<open>
  A client that opens an iterator on a well-formed list and calls
  the step function until it returns 0 sees every element exactly once, in ascending order; one call
  more than there are elements is always enough.
\<close>

theorem u32_list_iterate_sorted:
  assumes "bb_ok bb" "ext2fs_u32_list_iterate_begin True bb = Inr iter"
  shows "u32_list_collect (Suc (bb_num bb)) iter = Some (sorted_list_of_set (bb_set bb))"
  using assms u32_list_collect_from [of bb 0 "Suc (bb_num bb)"]
  by (auto simp: ext2fs_u32_list_iterate_begin_def bb_elems_sorted_list split: if_splits)

theorem u32_list_iterate_sorted_witness:
  "\<exists>iter. ext2fs_u32_list_iterate_begin True
      \<lparr>bb_magic = EXT2_ET_MAGIC_BADBLOCKS_LIST, bb_num = 2, bb_size = 3, bb_list = [4, 9, 1], bb_flags = 0\<rparr> = Inr iter
    \<and> u32_list_collect 3 iter = Some (sorted_list_of_set {4, 9})"
proof -
  let ?bb = "\<lparr>bb_magic = EXT2_ET_MAGIC_BADBLOCKS_LIST, bb_num = 2, bb_size = 3, bb_list = [4, 9, 1], bb_flags = 0\<rparr> :: u32_list"
  have ok: "bb_ok ?bb" and set: "bb_set ?bb = {4, 9}"
    by (simp_all add: bb_ok_def bb_elems_def bb_set_def)
  obtain iter where it: "ext2fs_u32_list_iterate_begin True ?bb = Inr iter"
    by (simp add: ext2fs_u32_list_iterate_begin_def)
  from u32_list_iterate_sorted [OF ok it] it set show ?thesis by (simp add: numeral_3_eq_3)
qed

text \<open>
  Comparing two well-formed lists answers 1 exactly when they hold the same set, whatever
  their capacities and the contents of their unused cells.
\<close>

theorem u32_list_equal_iff:
  assumes "bb_ok bb1" "bb_ok bb2"
  shows "ext2fs_u32_list_equal bb1 bb2 = Some (Inr 1) \<longleftrightarrow> bb_set bb1 = bb_set bb2"
  using ext2fs_u32_list_equal_correct [OF assms] by simp

theorem u32_list_equal_iff_witness:
  "ext2fs_u32_list_equal
     \<lparr>bb_magic = EXT2_ET_MAGIC_BADBLOCKS_LIST, bb_num = 1, bb_size = 2, bb_list = [4, 9], bb_flags = 0\<rparr>
     \<lparr>bb_magic = EXT2_ET_MAGIC_BADBLOCKS_LIST, bb_num = 1, bb_size = 1, bb_list = [4], bb_flags = 1\<rparr> = Some (Inr 1)"
  by (subst u32_list_equal_iff) (simp_all add: bb_ok_def bb_elems_def bb_set_def)

end
