(* ===== verification/Bitops.thy ===== *)
theory Bitops
  imports E2_Prelude
begin

unbundle bit_operations_syntax

text \<open>
  The bit primitives of \<^verbatim>\<open>lib/ext2fs/bitops.c\<close> and \<^verbatim>\<open>bitops.h\<close> and the memory comparison
  \<^verbatim>\<open>ext2fs_mem_is_zero\<close> of \<^verbatim>\<open>gen_bitmap.c\<close>. A byte array is a list of bytes; bit \<open>n\<close> of it is bit
  \<open>n mod 8\<close> of byte \<open>n div 8\<close>, and \<open>bit_at\<close> is the abstract reading that all later proofs use.
  C's \<^verbatim>\<open>int\<close> results are 32-bit words.
\<close>

subsection \<open>Single bits\<close>

definition ext2fs_set_bit :: "u32 \<Rightarrow> u8 list \<Rightarrow> (u32 \<times> u8 list) ub" where
  "ext2fs_set_bit nr addr = do {
     let ADDR = unat (drop_bit 3 nr);
     let mask = push_bit (unat (nr AND 7)) (1 :: u32);
     b \<leftarrow> c_load addr ADDR;
     let retval = mask AND ucast b;
     addr' \<leftarrow> c_store addr ADDR (ucast (ucast b OR mask));
     Some (retval, addr')
   }"

definition ext2fs_clear_bit :: "u32 \<Rightarrow> u8 list \<Rightarrow> (u32 \<times> u8 list) ub" where
  "ext2fs_clear_bit nr addr = do {
     let ADDR = unat (drop_bit 3 nr);
     let mask = push_bit (unat (nr AND 7)) (1 :: u32);
     b \<leftarrow> c_load addr ADDR;
     let retval = mask AND ucast b;
     addr' \<leftarrow> c_store addr ADDR (ucast (ucast b AND NOT mask));
     Some (retval, addr')
   }"

definition ext2fs_test_bit :: "u32 \<Rightarrow> u8 list \<Rightarrow> u32 ub" where
  "ext2fs_test_bit nr addr = do {
     let ADDR = unat (drop_bit 3 nr);
     let mask = push_bit (unat (nr AND 7)) (1 :: u32);
     b \<leftarrow> c_load addr ADDR;
     Some (mask AND ucast b)
   }"

definition ext2fs_set_bit64 :: "u64 \<Rightarrow> u8 list \<Rightarrow> (u32 \<times> u8 list) ub" where
  "ext2fs_set_bit64 nr addr = do {
     let ADDR = unat (drop_bit 3 nr);
     let mask = push_bit (unat (nr AND 7)) (1 :: u32);
     b \<leftarrow> c_load addr ADDR;
     let retval = mask AND ucast b;
     addr' \<leftarrow> c_store addr ADDR (ucast (ucast b OR mask));
     Some (retval, addr')
   }"

definition ext2fs_clear_bit64 :: "u64 \<Rightarrow> u8 list \<Rightarrow> (u32 \<times> u8 list) ub" where
  "ext2fs_clear_bit64 nr addr = do {
     let ADDR = unat (drop_bit 3 nr);
     let mask = push_bit (unat (nr AND 7)) (1 :: u32);
     b \<leftarrow> c_load addr ADDR;
     let retval = mask AND ucast b;
     addr' \<leftarrow> c_store addr ADDR (ucast (ucast b AND NOT mask));
     Some (retval, addr')
   }"

definition ext2fs_test_bit64 :: "u64 \<Rightarrow> u8 list \<Rightarrow> u32 ub" where
  "ext2fs_test_bit64 nr addr = do {
     let ADDR = unat (drop_bit 3 nr);
     let mask = push_bit (unat (nr AND 7)) (1 :: u32);
     b \<leftarrow> c_load addr ADDR;
     Some (mask AND ucast b)
   }"

text \<open>The inline variants of \<^verbatim>\<open>bitops.h\<close>, without a result.\<close>

definition ext2fs_fast_set_bit64 :: "u64 \<Rightarrow> u8 list \<Rightarrow> u8 list ub" where
  "ext2fs_fast_set_bit64 nr addr = do {
     let ADDR = unat (drop_bit 3 nr);
     b \<leftarrow> c_load addr ADDR;
     c_store addr ADDR (ucast (ucast b OR push_bit (unat (nr AND 7)) (1 :: u32)))
   }"

definition ext2fs_fast_clear_bit64 :: "u64 \<Rightarrow> u8 list \<Rightarrow> u8 list ub" where
  "ext2fs_fast_clear_bit64 nr addr = do {
     let ADDR = unat (drop_bit 3 nr);
     b \<leftarrow> c_load addr ADDR;
     c_store addr ADDR (ucast (ucast b AND NOT (push_bit (unat (nr AND 7)) (1 :: u32))))
   }"

definition ext2fs_fast_set_bit :: "u32 \<Rightarrow> u8 list \<Rightarrow> u8 list ub" where
  "ext2fs_fast_set_bit nr addr = do {
     let ADDR = unat (drop_bit 3 nr);
     b \<leftarrow> c_load addr ADDR;
     c_store addr ADDR (ucast (ucast b OR push_bit (unat (nr AND 7)) (1 :: u32)))
   }"

definition ext2fs_fast_clear_bit :: "u32 \<Rightarrow> u8 list \<Rightarrow> u8 list ub" where
  "ext2fs_fast_clear_bit nr addr = do {
     let ADDR = unat (drop_bit 3 nr);
     b \<leftarrow> c_load addr ADDR;
     c_store addr ADDR (ucast (ucast b AND NOT (push_bit (unat (nr AND 7)) (1 :: u32))))
   }"

subsection \<open>Comparing memory with zero\<close>

text \<open>\<^verbatim>\<open>memcmp(mem, zero_buf, len)\<close> on the bytes from \<open>p\<close>: \<open>Some True\<close> when they are all zero.\<close>

definition memcmp_zero :: "u8 list \<Rightarrow> nat \<Rightarrow> nat \<Rightarrow> bool ub" where
  "memcmp_zero mem p len =
     (if p + len \<le> length mem then Some (\<forall>b \<in> set (take len (drop p mem)). b = 0) else None)"

function ext2fs_mem_is_zero :: "u8 list \<Rightarrow> nat \<Rightarrow> nat \<Rightarrow> u32 ub" where
  "ext2fs_mem_is_zero mem p len =
     (if len \<ge> 256 then do {
        z \<leftarrow> memcmp_zero mem p 256;
        if \<not> z then Some 0 else ext2fs_mem_is_zero mem (p + 256) (len - 256)
      }
      else if len \<noteq> 0 then do {
        z \<leftarrow> memcmp_zero mem p len;
        Some (if z then 1 else 0)
      }
      else Some 1)"
  by pat_completeness auto
termination
  by (relation "measure (\<lambda>(mem, p, len). len)") auto

subsection \<open>Testing a run of bits\<close>

text \<open>
  The loops that build a mask of \<open>i\<close> ones ending at bit \<open>mark_bit\<close>. The masks have no bit above bit 7, so
  the sign extension of the promoted \<^verbatim>\<open>char\<close> does not matter and the byte is read as unsigned.
\<close>

fun mask_down :: "u32 \<Rightarrow> nat \<Rightarrow> nat \<Rightarrow> u32" where
  "mask_down acc mark_bit 0 = acc"
| "mask_down acc mark_bit (Suc i) = mask_down (acc OR push_bit mark_bit 1) (mark_bit - 1) i"

text \<open>The part after the first, partial byte: the last partial byte, then the whole bytes.\<close>

definition test_clear_tail :: "u8 list \<Rightarrow> nat \<Rightarrow> nat \<Rightarrow> nat \<Rightarrow> u32 ub" where
  "test_clear_tail ADDR start_byte len_bit len_byte =
     (if len_bit \<noteq> 0 then do {
        let last_bit = mask_down 0 (len_bit - 1) len_bit;
        b \<leftarrow> c_load ADDR (start_byte + len_byte);
        if last_bit AND ucast b \<noteq> 0 then Some 0
        else if len_byte = 0 then Some 1
        else ext2fs_mem_is_zero ADDR start_byte len_byte
      }
      else ext2fs_mem_is_zero ADDR start_byte len_byte)"

text \<open>
  \<^verbatim>\<open>ext2fs_test_clear_generic_bitmap_range\<close> of \<^verbatim>\<open>gen_bitmap.c\<close> on the \<open>n\<close> bits from \<open>st\<close>.
\<close>

definition test_clear_run :: "u8 list \<Rightarrow> nat \<Rightarrow> nat \<Rightarrow> u32 ub" where
  "test_clear_run ADDR st n =
     (let start_byte = st div 8;
          start_bit = st mod 8
      in if start_bit \<noteq> 0 then
           let mark_count = (if n < 8 - start_bit then n else 8 - start_bit);
               mark_bit = (if n < 8 - start_bit then n + start_bit - 1 else 7);
               first_bit = mask_down 0 mark_bit mark_count
           in do {
             b \<leftarrow> c_load ADDR start_byte;
             if first_bit AND ucast b \<noteq> 0 then Some 0
             else if n \<le> 8 - start_bit then Some 1
             else test_clear_tail ADDR (start_byte + 1) ((n - mark_count) mod 8) ((n - mark_count) div 8)
           }
         else test_clear_tail ADDR start_byte (n mod 8) (n div 8))"

subsection \<open>The abstract reading\<close>

declare push_bit_of_1 [simp del]

definition bit_at :: "u8 list \<Rightarrow> nat \<Rightarrow> bool" where
  "bit_at addr n \<longleftrightarrow> n < 8 * length addr \<and> bit (addr ! (n div 8)) (n mod 8)"

lemma bit_at_update:
  assumes "i < length addr"
  shows "bit_at (addr[i := b]) n \<longleftrightarrow> (if n div 8 = i then bit b (n mod 8) else bit_at addr n)"
  using assms by (auto simp: bit_at_def nth_list_update)

lemma unat_and_7 [simp]: "unat (nr AND 7 :: u64) = unat nr mod 8"
proof -
  have "nr AND 7 = take_bit 3 nr" by (simp add: take_bit_eq_mask mask_eq_exp_minus_1 and.commute)
  then show ?thesis by (simp add: take_bit_eq_mod unat_mod)
qed

lemma unat_and_7_u32 [simp]: "unat (nr AND 7 :: u32) = unat nr mod 8"
proof -
  have "nr AND 7 = take_bit 3 nr" by (simp add: take_bit_eq_mask mask_eq_exp_minus_1 and.commute)
  then show ?thesis by (simp add: take_bit_eq_mod unat_mod)
qed

lemma bit_or_mask:
  assumes "n < 8" "k < 8"
  shows "bit (ucast (ucast (b :: u8) OR push_bit n (1 :: u32)) :: u8) k \<longleftrightarrow> k = n \<or> bit b k"
  using assms by (auto simp: bit_simps)

lemma bit_and_not_mask:
  assumes "n < 8" "k < 8"
  shows "bit (ucast (ucast (b :: u8) AND NOT (push_bit n (1 :: u32))) :: u8) k \<longleftrightarrow> k \<noteq> n \<and> bit b k"
  using assms by (auto simp: bit_simps)

lemma mask_and_byte:
  assumes "n < 8"
  shows "(push_bit n (1 :: u32) AND ucast (b :: u8)) = (if bit b n then push_bit n 1 else 0)"
  using assms by (auto intro!: bit_word_eqI simp: bit_simps)

lemma push_bit_1_ne_0 [simp]: "push_bit (n mod 8) (1 :: u32) \<noteq> 0"
proof -
  have "n mod 8 < 32" using mod_less_divisor [of 8 n] by linarith
  then show ?thesis by (simp add: push_bit_of_1)
qed

lemma div_mod_8_eq: "(k div 8 = n div 8 \<and> k mod 8 = n mod 8) \<longleftrightarrow> k = n" for k n :: nat
  by (metis div_mult_mod_eq)

lemma bit_at_set:
  assumes "n < 8 * length addr"
  shows "bit_at (addr[n div 8 := ucast (ucast (addr ! (n div 8)) OR push_bit (n mod 8) (1 :: u32))]) k
    \<longleftrightarrow> k = n \<or> bit_at addr k"
proof -
  have i: "n div 8 < length addr" using assms by simp
  show ?thesis
  proof (cases "k div 8 = n div 8")
    case True
    with i have "k div 8 < length addr" by simp
    then have "k < 8 * length addr" by linarith
    with True i assms div_mod_8_eq [of k n] show ?thesis
      by (simp add: bit_at_update bit_or_mask bit_at_def)
  next
    case False
    with i show ?thesis by (auto simp: bit_at_update)
  qed
qed

lemma bit_at_clear:
  assumes "n < 8 * length addr"
  shows "bit_at (addr[n div 8 := ucast (ucast (addr ! (n div 8)) AND NOT (push_bit (n mod 8) (1 :: u32)))]) k
    \<longleftrightarrow> k \<noteq> n \<and> bit_at addr k"
proof -
  have i: "n div 8 < length addr" using assms by simp
  show ?thesis
  proof (cases "k div 8 = n div 8")
    case True
    with i have "k div 8 < length addr" by simp
    then have "k < 8 * length addr" by linarith
    with True i assms div_mod_8_eq [of k n] show ?thesis
      by (simp add: bit_at_update bit_and_not_mask bit_at_def)
  next
    case False
    with i show ?thesis by (auto simp: bit_at_update)
  qed
qed

text \<open>Two arrays of the same length with the same bits are equal.\<close>

lemma bit_at_eqI:
  assumes len: "length a = length b" and bits: "\<And>k. k < 8 * length a \<Longrightarrow> bit_at a k = bit_at b k"
  shows "a = b"
proof (rule nth_equalityI [OF len])
  fix i assume i: "i < length a"
  show "a ! i = b ! i"
  proof (rule bit_word_eqI)
    fix j assume "j < LENGTH(8)"
    then have j: "j < 8" by simp
    with i have "8 * i + j < 8 * length a" by simp
    from bits [OF this] j i len show "bit (a ! i) j = bit (b ! i) j"
      by (simp add: bit_at_def)
  qed
qed

subsection \<open>The primitives in terms of bits\<close>

text \<open>
  The value a set, clear or test primitive returns: the mask of the bit when it was set, else 0.
  It is a truth value only in the sense of C: the mask of bit 7 is 128.
\<close>

definition bit_val :: "u8 list \<Rightarrow> nat \<Rightarrow> u32" where
  "bit_val addr n = (if bit_at addr n then push_bit (n mod 8) 1 else 0)"

lemma bit_val_ne_0 [simp]: "bit_val addr n \<noteq> 0 \<longleftrightarrow> bit_at addr n"
  by (simp add: bit_val_def)

lemma bit_val_eq_0 [simp]: "bit_val addr n = 0 \<longleftrightarrow> \<not> bit_at addr n"
  by (simp add: bit_val_def)

definition set_bit_list :: "u8 list \<Rightarrow> nat \<Rightarrow> u8 list" where
  "set_bit_list addr n = addr[n div 8 := ucast (ucast (addr ! (n div 8)) OR push_bit (n mod 8) (1 :: u32))]"

definition clear_bit_list :: "u8 list \<Rightarrow> nat \<Rightarrow> u8 list" where
  "clear_bit_list addr n =
     addr[n div 8 := ucast (ucast (addr ! (n div 8)) AND NOT (push_bit (n mod 8) (1 :: u32)))]"

lemma length_set_bit_list [simp]: "length (set_bit_list addr n) = length addr"
  by (simp add: set_bit_list_def)

lemma length_clear_bit_list [simp]: "length (clear_bit_list addr n) = length addr"
  by (simp add: clear_bit_list_def)

lemma bit_at_set_bit_list [simp]:
  "n < 8 * length addr \<Longrightarrow> bit_at (set_bit_list addr n) k \<longleftrightarrow> k = n \<or> bit_at addr k"
  by (simp add: set_bit_list_def bit_at_set)

lemma bit_at_clear_bit_list [simp]:
  "n < 8 * length addr \<Longrightarrow> bit_at (clear_bit_list addr n) k \<longleftrightarrow> k \<noteq> n \<and> bit_at addr k"
  by (simp add: clear_bit_list_def bit_at_clear)

lemma byte_inside: "n < 8 * length addr \<Longrightarrow> n div 8 < length addr" for addr :: "u8 list"
  by simp

lemma mask_and_nth:
  "n < 8 * length addr \<Longrightarrow> (push_bit (n mod 8) (1 :: u32) AND ucast (addr ! (n div 8))) = bit_val addr n"
  by (simp add: mask_and_byte bit_val_def bit_at_def)

lemmas bit_prims = byte_inside mask_and_nth unat_drop_bit_div

lemma ext2fs_set_bit64_eq:
  "unat nr < 8 * length addr \<Longrightarrow>
   ext2fs_set_bit64 nr addr = Some (bit_val addr (unat nr), set_bit_list addr (unat nr))"
  by (simp add: ext2fs_set_bit64_def Let_def bit_prims set_bit_list_def)

lemma ext2fs_clear_bit64_eq:
  "unat nr < 8 * length addr \<Longrightarrow>
   ext2fs_clear_bit64 nr addr = Some (bit_val addr (unat nr), clear_bit_list addr (unat nr))"
  by (simp add: ext2fs_clear_bit64_def Let_def bit_prims clear_bit_list_def)

lemma ext2fs_test_bit64_eq:
  "unat nr < 8 * length addr \<Longrightarrow> ext2fs_test_bit64 nr addr = Some (bit_val addr (unat nr))"
  by (simp add: ext2fs_test_bit64_def Let_def bit_prims)

lemma ext2fs_set_bit_eq:
  "unat nr < 8 * length addr \<Longrightarrow>
   ext2fs_set_bit nr addr = Some (bit_val addr (unat nr), set_bit_list addr (unat nr))"
  by (simp add: ext2fs_set_bit_def Let_def bit_prims set_bit_list_def)

lemma ext2fs_clear_bit_eq:
  "unat nr < 8 * length addr \<Longrightarrow>
   ext2fs_clear_bit nr addr = Some (bit_val addr (unat nr), clear_bit_list addr (unat nr))"
  by (simp add: ext2fs_clear_bit_def Let_def bit_prims clear_bit_list_def)

lemma ext2fs_test_bit_eq:
  "unat nr < 8 * length addr \<Longrightarrow> ext2fs_test_bit nr addr = Some (bit_val addr (unat nr))"
  by (simp add: ext2fs_test_bit_def Let_def bit_prims)

lemma ext2fs_fast_set_bit64_eq:
  "unat nr < 8 * length addr \<Longrightarrow> ext2fs_fast_set_bit64 nr addr = Some (set_bit_list addr (unat nr))"
  by (simp add: ext2fs_fast_set_bit64_def Let_def bit_prims set_bit_list_def)

lemma ext2fs_fast_clear_bit64_eq:
  "unat nr < 8 * length addr \<Longrightarrow> ext2fs_fast_clear_bit64 nr addr = Some (clear_bit_list addr (unat nr))"
  by (simp add: ext2fs_fast_clear_bit64_def Let_def bit_prims clear_bit_list_def)

lemma ext2fs_fast_set_bit_eq:
  "unat nr < 8 * length addr \<Longrightarrow> ext2fs_fast_set_bit nr addr = Some (set_bit_list addr (unat nr))"
  by (simp add: ext2fs_fast_set_bit_def Let_def bit_prims set_bit_list_def)

lemma ext2fs_fast_clear_bit_eq:
  "unat nr < 8 * length addr \<Longrightarrow> ext2fs_fast_clear_bit nr addr = Some (clear_bit_list addr (unat nr))"
  by (simp add: ext2fs_fast_clear_bit_def Let_def bit_prims clear_bit_list_def)

lemma ext2fs_test_bit64_outside:
  "8 * length addr \<le> unat nr \<Longrightarrow> ext2fs_test_bit64 nr addr = None"
  by (simp add: ext2fs_test_bit64_def Let_def c_load_def unat_drop_bit_div)

declare ext2fs_mem_is_zero.simps [simp del]

lemma ext2fs_mem_is_zero_eq:
  assumes "p + len \<le> length mem"
  shows "ext2fs_mem_is_zero mem p len = Some (if \<forall>i. p \<le> i \<and> i < p + len \<longrightarrow> mem ! i = 0 then 1 else 0)"
  using assms
proof (induction mem p len rule: ext2fs_mem_is_zero.induct)
  case (1 mem p len)
  have zero: "(\<forall>b\<in>set (take n (drop p mem)). b = 0) \<longleftrightarrow> (\<forall>i. p \<le> i \<and> i < p + n \<longrightarrow> mem ! i = 0)"
    if "p + n \<le> length mem" for n
  proof -
    have "(\<forall>b\<in>set (take n (drop p mem)). b = 0) \<longleftrightarrow> (\<forall>j<n. mem ! (p + j) = 0)"
      using that by (auto simp: all_set_conv_all_nth)
    also have "\<dots> \<longleftrightarrow> (\<forall>i. p \<le> i \<and> i < p + n \<longrightarrow> mem ! i = 0)"
      by (metis add_less_cancel_left le_add1 le_Suc_ex)
    finally show ?thesis .
  qed
  show ?case
  proof (cases "len \<ge> 256")
    case True
    then have split: "p \<le> i \<and> i < p + len \<longleftrightarrow> p \<le> i \<and> i < p + 256 \<or> p + 256 \<le> i \<and> i < p + 256 + (len - 256)" for i
      by linarith
    show ?thesis
    proof (cases "\<forall>i. p \<le> i \<and> i < p + 256 \<longrightarrow> mem ! i = 0")
      case z: True
      then have "ext2fs_mem_is_zero mem p len = ext2fs_mem_is_zero mem (p + 256) (len - 256)"
        using True "1.prems" zero [of 256] by (subst ext2fs_mem_is_zero.simps) (simp add: memcmp_zero_def)
      with z True "1.prems" "1.IH" zero [of 256] show ?thesis
        by (simp add: memcmp_zero_def split)
    next
      case z: False
      then have "ext2fs_mem_is_zero mem p len = Some 0"
        using True "1.prems" zero [of 256] by (subst ext2fs_mem_is_zero.simps) (simp add: memcmp_zero_def)
      moreover have "\<not> (\<forall>i. p \<le> i \<and> i < p + len \<longrightarrow> mem ! i = 0)" using z split by blast
      ultimately show ?thesis by simp
    qed
  next
    case False
    with "1.prems" zero [of len] show ?thesis
      by (subst ext2fs_mem_is_zero.simps) (auto simp: memcmp_zero_def)
  qed
qed

subsection \<open>The test of a run in terms of bits\<close>

text \<open>The masks, and what the test of a masked byte says about the bits of the array.\<close>

lemma bit_mask_down:
  assumes "n \<le> Suc mb" "mb < 32"
  shows "bit (mask_down acc mb n) k \<longleftrightarrow> bit acc k \<or> (mb < k + n \<and> k \<le> mb)"
  using assms
proof (induction acc mb n rule: mask_down.induct)
  case (2 acc mb i)
  have "bit (acc OR push_bit mb 1) k \<longleftrightarrow> bit acc k \<or> k = mb"
    using 2(3) by (auto simp: bit_simps)
  with 2 show ?case by (cases mb) (auto simp: bit_simps)
qed auto

lemma mask_test_byte:
  assumes i: "i < length addr" and n: "n \<le> Suc mb" "mb < 8"
  shows "mask_down 0 mb n AND ucast (addr ! i) = 0 \<longleftrightarrow>
    (\<forall>j. 8 * i + mb < j + n \<and> j \<le> 8 * i + mb \<longrightarrow> \<not> bit_at addr j)" (is "?z \<longleftrightarrow> ?a")
proof -
  have "?z \<longleftrightarrow> (\<forall>k<8. \<not> (mb < k + n \<and> k \<le> mb \<and> bit (addr ! i) k))"
    using n by (auto simp: bit_eq_iff bit_simps bit_mask_down)
  also have "\<dots> \<longleftrightarrow> (\<forall>k<8. mb < k + n \<and> k \<le> mb \<longrightarrow> \<not> bit_at addr (8 * i + k))"
    using i by (auto simp: bit_at_def)
  also have "\<dots> \<longleftrightarrow> ?a"
  proof safe
    fix j assume h: "\<forall>k<8. mb < k + n \<and> k \<le> mb \<longrightarrow> \<not> bit_at addr (8 * i + k)"
      and j: "8 * i + mb < j + n" "j \<le> 8 * i + mb" "bit_at addr j"
    with n have "8 * i \<le> j" by linarith
    then obtain k where "j = 8 * i + k" using le_Suc_ex by blast
    with h j n show False by auto
  qed auto
  finally show ?thesis .
qed

lemma zero_bytes_iff:
  assumes "p + n \<le> length addr"
  shows "(\<forall>i. p \<le> i \<and> i < p + n \<longrightarrow> addr ! i = 0) \<longleftrightarrow>
    (\<forall>j. 8 * p \<le> j \<and> j < 8 * (p + n) \<longrightarrow> \<not> bit_at addr j)" (is "?a \<longleftrightarrow> ?b")
proof
  assume a: ?a
  show ?b
  proof (intro allI impI)
    fix j assume "8 * p \<le> j \<and> j < 8 * (p + n)"
    then have "p \<le> j div 8 \<and> j div 8 < p + n" by auto
    with a show "\<not> bit_at addr j" by (simp add: bit_at_def)
  qed
next
  assume b: ?b
  show ?a
  proof (intro allI impI bit_word_eqI)
    fix i k assume i: "p \<le> i \<and> i < p + n" and "k < LENGTH(8)"
    then have k: "k < 8" by simp
    with i b have "\<not> bit_at addr (8 * i + k)" by simp
    with i k assms show "bit (addr ! i) k = bit (0 :: u8) k" by (simp add: bit_at_def)
  qed
qed

lemma test_clear_tail_eq:
  assumes "8 * sb + 8 * n + m \<le> 8 * length addr" "m < 8"
  shows "\<exists>r. test_clear_tail addr sb m n = Some r
    \<and> (r \<noteq> 0 \<longleftrightarrow> (\<forall>j. 8 * sb \<le> j \<and> j < 8 * sb + 8 * n + m \<longrightarrow> \<not> bit_at addr j))"
proof -
  from assms have l: "sb + n \<le> length addr" by linarith
  have whole: "ext2fs_mem_is_zero addr sb n
      = Some (if \<forall>j. 8 * sb \<le> j \<and> j < 8 * sb + 8 * n \<longrightarrow> \<not> bit_at addr j then 1 else 0)"
    using l by (simp add: ext2fs_mem_is_zero_eq zero_bytes_iff)
  show ?thesis
  proof (cases "m = 0")
    case True
    with whole show ?thesis by (simp add: test_clear_tail_def)
  next
    case False
    with assms have i: "sb + n < length addr" by linarith
    have rng: "8 * (sb + n) + (m - 1) < j + m \<and> j \<le> 8 * (sb + n) + (m - 1) \<longleftrightarrow>
        8 * sb + 8 * n \<le> j \<and> j < 8 * sb + 8 * n + m" for j
      using False by auto
    have "mask_down 0 (m - 1) m AND ucast (addr ! (sb + n)) = 0 \<longleftrightarrow>
        (\<forall>j. 8 * sb + 8 * n \<le> j \<and> j < 8 * sb + 8 * n + m \<longrightarrow> \<not> bit_at addr j)"
      using mask_test_byte [OF i, of m "m - 1"] False assms(2) unfolding rng by simp
    moreover have split: "8 * sb \<le> j \<and> j < 8 * sb + 8 * n + m \<longleftrightarrow>
        8 * sb \<le> j \<and> j < 8 * sb + 8 * n \<or> 8 * sb + 8 * n \<le> j \<and> j < 8 * sb + 8 * n + m" for j
      by linarith
    ultimately show ?thesis
      unfolding split using False i whole by (cases "n = 0") (auto simp: test_clear_tail_def)
  qed
qed

lemma test_clear_run_eq:
  assumes ins: "st + n \<le> 8 * length addr"
  shows "\<exists>r. test_clear_run addr st n = Some r
    \<and> (r \<noteq> 0 \<longleftrightarrow> (\<forall>j. st \<le> j \<and> j < st + n \<longrightarrow> \<not> bit_at addr j))"
proof -
  show ?thesis
  proof (cases "st mod 8 = 0")
    case True
    then have "8 * (st div 8) = st" "8 * (n div 8) + n mod 8 = n" by auto
    with True ins test_clear_tail_eq [of "st div 8" "n div 8" "n mod 8" addr] show ?thesis
      by (simp add: test_clear_run_def add.assoc Let_def)
  next
    case False
    define c where "c = (if n < 8 - st mod 8 then n else 8 - st mod 8)"
    define mb where "mb = (if n < 8 - st mod 8 then n + st mod 8 - 1 else 7)"
    have i: "st div 8 < length addr"
    proof -
      have "st mod 8 > 0" using False by simp
      moreover have "st = 8 * (st div 8) + st mod 8" by simp
      ultimately show ?thesis using ins by linarith
    qed
    have mb: "c \<le> Suc mb" "mb < 8" and mb_eq: "Suc mb = c + st mod 8"
      using False unfolding c_def mb_def by (auto simp: less_diff_conv)
    have rng: "8 * (st div 8) + mb < j + c \<and> j \<le> 8 * (st div 8) + mb \<longleftrightarrow> st \<le> j \<and> j < st + c" for j
      using mb_eq mult_div_mod_eq [of 8 st] by linarith
    have first: "mask_down 0 mb c AND ucast (addr ! (st div 8)) = 0 \<longleftrightarrow>
        (\<forall>j. st \<le> j \<and> j < st + c \<longrightarrow> \<not> bit_at addr j)"
      using mask_test_byte [OF i mb] unfolding rng .
    have unf: "test_clear_run addr st n =
        (if mask_down 0 mb c AND ucast (addr ! (st div 8)) \<noteq> 0 then Some 0
         else if n \<le> 8 - st mod 8 then Some 1
         else test_clear_tail addr (st div 8 + 1) ((n - c) mod 8) ((n - c) div 8))"
      using False i unfolding test_clear_run_def Let_def
        c_def [symmetric] mb_def [symmetric] by simp
    show ?thesis
    proof (cases "n \<le> 8 - st mod 8")
      case True
      then have "c = n" by (simp add: c_def)
      with True first show ?thesis by (simp add: unf)
    next
      case big: False
      then have c: "c = 8 - st mod 8" by (simp add: c_def)
      have "c + st mod 8 = 8" using c by simp
      then have e: "8 * (st div 8 + 1) = st + c" by presburger
      have l: "8 * ((n - c) div 8) + (n - c) mod 8 = n - c" by simp
      have cn: "c \<le> n" using big c by simp
      have tot: "8 * (st div 8 + 1) + 8 * ((n - c) div 8) + (n - c) mod 8 = st + n"
        unfolding e using l cn by linarith
      from test_clear_tail_eq [of "st div 8 + 1" "(n - c) div 8" "(n - c) mod 8" addr, unfolded tot, unfolded e] ins
      obtain r where r: "test_clear_tail addr (st div 8 + 1) ((n - c) mod 8) ((n - c) div 8) = Some r"
        "r \<noteq> 0 \<longleftrightarrow> (\<forall>j. st + c \<le> j \<and> j < st + n \<longrightarrow> \<not> bit_at addr j)"
        by auto
      have split: "st \<le> j \<and> j < st + n \<longleftrightarrow> st \<le> j \<and> j < st + c \<or> st + c \<le> j \<and> j < st + n" for j
        using cn by linarith
      show ?thesis using first r big
        unfolding unf split by auto
    qed
  qed
qed

end
