(* ===== verification/Gen_Bitmap32.thy ===== *)
theory Gen_Bitmap32
  imports Bitops Set_Store
begin

text \<open>
  The original bitmaps with 32-bit numbers, \<^verbatim>\<open>lib/ext2fs/gen_bitmap.c\<close>. The structure holds its bytes
  in one array. The functions are modelled on structures of this layout; where the source hands a
  64-bit bitmap on to \<^verbatim>\<open>gen_bitmap64.c\<close>, the structure does not have this layout and the model has no
  value (the theory of the 64-bit bitmaps dispatches on the layout first). A warning is a message of
  \<^verbatim>\<open>com_err\<close> and no part of the result. The loops whose 32-bit counter can wrap around are partial
  functions: \<open>None\<close> if they do not end.
\<close>

subsection \<open>The structure\<close>

record bitmap32 =
  b32_magic :: errcode
  b32_start :: u32
  b32_end :: u32
  b32_real_end :: u32
  b32_description :: "string option"
  b32_bitmap :: "u8 list"
  b32_base_error_code :: errcode

definition EXT2FS_IS_32_BITMAP :: "errcode \<Rightarrow> bool" where
  "EXT2FS_IS_32_BITMAP magic \<longleftrightarrow> magic = EXT2_ET_MAGIC_GENERIC_BITMAP
     \<or> magic = EXT2_ET_MAGIC_BLOCK_BITMAP \<or> magic = EXT2_ET_MAGIC_INODE_BITMAP"

definition EXT2FS_IS_64_BITMAP :: "errcode \<Rightarrow> bool" where
  "EXT2FS_IS_64_BITMAP magic \<longleftrightarrow> magic = EXT2_ET_MAGIC_GENERIC_BITMAP64
     \<or> magic = EXT2_ET_MAGIC_BLOCK_BITMAP64 \<or> magic = EXT2_ET_MAGIC_INODE_BITMAP64"

text \<open>The number of bytes in use, and the number that are allocated.\<close>

definition b32_size :: "u32 \<Rightarrow> u32 \<Rightarrow> nat" where
  "b32_size start real_end = unat ((real_end - start) div 8 + 1)"

definition b32_alloc_size :: "u32 \<Rightarrow> u32 \<Rightarrow> nat" where
  "b32_alloc_size start real_end = (b32_size start real_end + 7) div 4 * 4"

definition ext2fs_make_generic_bitmap ::
    "bool \<Rightarrow> bool \<Rightarrow> bool \<Rightarrow> errcode \<Rightarrow> u32 \<Rightarrow> u32 \<Rightarrow> u32 \<Rightarrow> string option \<Rightarrow> u8 list option
      \<Rightarrow> (errcode + bitmap32) ub" where
  "ext2fs_make_generic_bitmap ok1 ok2 ok3 magic start end real_end descr init_map =
     (if \<not> ok1 then Some (Inl EXT2_ET_NO_MEMORY)
      else if descr \<noteq> None \<and> \<not> ok2 then Some (Inl EXT2_ET_NO_MEMORY)
      else if \<not> ok3 then Some (Inl EXT2_ET_NO_MEMORY)
      else do {
        let size = b32_alloc_size start real_end;
        arr \<leftarrow> (case init_map of
                 Some m \<Rightarrow> if size \<le> length m then Some (take size m) else None
               | None \<Rightarrow> Some (replicate size 0));
        Some (Inr \<lparr>b32_magic = magic, b32_start = start, b32_end = end, b32_real_end = real_end,
          b32_description = descr, b32_bitmap = arr,
          b32_base_error_code =
            (if magic = EXT2_ET_MAGIC_INODE_BITMAP then EXT2_ET_BAD_INODE_MARK
             else if magic = EXT2_ET_MAGIC_BLOCK_BITMAP then EXT2_ET_BAD_BLOCK_MARK
             else EXT2_ET_BAD_GENERIC_MARK)\<rparr>)
      })"

definition ext2fs_allocate_generic_bitmap ::
    "bool \<Rightarrow> bool \<Rightarrow> bool \<Rightarrow> u32 \<Rightarrow> u32 \<Rightarrow> u32 \<Rightarrow> string option \<Rightarrow> (errcode + bitmap32) ub" where
  "ext2fs_allocate_generic_bitmap ok1 ok2 ok3 start end real_end descr =
     ext2fs_make_generic_bitmap ok1 ok2 ok3 EXT2_ET_MAGIC_GENERIC_BITMAP start end real_end descr None"

definition ext2fs_copy_generic_bitmap ::
    "bool \<Rightarrow> bool \<Rightarrow> bool \<Rightarrow> bitmap32 \<Rightarrow> (errcode + bitmap32) ub" where
  "ext2fs_copy_generic_bitmap ok1 ok2 ok3 src =
     ext2fs_make_generic_bitmap ok1 ok2 ok3 (b32_magic src) (b32_start src) (b32_end src)
       (b32_real_end src) (b32_description src) (Some (b32_bitmap src))"

subsection \<open>Single numbers\<close>

definition ext2fs_test_generic_bitmap :: "bitmap32 \<Rightarrow> u32 \<Rightarrow> u32 ub" where
  "ext2fs_test_generic_bitmap bitmap bitno =
     (if \<not> EXT2FS_IS_32_BITMAP (b32_magic bitmap)
      then if EXT2FS_IS_64_BITMAP (b32_magic bitmap) then None else Some 0
      else if bitno < b32_start bitmap \<or> bitno > b32_end bitmap then Some 0
      else ext2fs_test_bit (bitno - b32_start bitmap) (b32_bitmap bitmap))"

definition ext2fs_mark_generic_bitmap :: "bitmap32 \<Rightarrow> u32 \<Rightarrow> (u32 \<times> bitmap32) ub" where
  "ext2fs_mark_generic_bitmap bitmap bitno =
     (if \<not> EXT2FS_IS_32_BITMAP (b32_magic bitmap)
      then if EXT2FS_IS_64_BITMAP (b32_magic bitmap) then None else Some (0, bitmap)
      else if bitno < b32_start bitmap \<or> bitno > b32_end bitmap then Some (0, bitmap)
      else do {
        (r, arr) \<leftarrow> ext2fs_set_bit (bitno - b32_start bitmap) (b32_bitmap bitmap);
        Some (r, bitmap\<lparr>b32_bitmap := arr\<rparr>)
      })"

definition ext2fs_unmark_generic_bitmap :: "bitmap32 \<Rightarrow> u32 \<Rightarrow> (u32 \<times> bitmap32) ub" where
  "ext2fs_unmark_generic_bitmap bitmap bitno =
     (if \<not> EXT2FS_IS_32_BITMAP (b32_magic bitmap)
      then if EXT2FS_IS_64_BITMAP (b32_magic bitmap) then None else Some (0, bitmap)
      else if bitno < b32_start bitmap \<or> bitno > b32_end bitmap then Some (0, bitmap)
      else do {
        (r, arr) \<leftarrow> ext2fs_clear_bit (bitno - b32_start bitmap) (b32_bitmap bitmap);
        Some (r, bitmap\<lparr>b32_bitmap := arr\<rparr>)
      })"

definition ext2fs_get_generic_bitmap_start :: "bitmap32 \<Rightarrow> u32 ub" where
  "ext2fs_get_generic_bitmap_start bitmap =
     (if \<not> EXT2FS_IS_32_BITMAP (b32_magic bitmap)
      then if EXT2FS_IS_64_BITMAP (b32_magic bitmap) then None else Some 0
      else Some (b32_start bitmap))"

definition ext2fs_get_generic_bitmap_end :: "bitmap32 \<Rightarrow> u32 ub" where
  "ext2fs_get_generic_bitmap_end bitmap =
     (if \<not> EXT2FS_IS_32_BITMAP (b32_magic bitmap)
      then if EXT2FS_IS_64_BITMAP (b32_magic bitmap) then None else Some 0
      else Some (b32_end bitmap))"

definition ext2fs_clear_generic_bitmap :: "bitmap32 \<Rightarrow> bitmap32 ub" where
  "ext2fs_clear_generic_bitmap bitmap =
     (if \<not> EXT2FS_IS_32_BITMAP (b32_magic bitmap)
      then if EXT2FS_IS_64_BITMAP (b32_magic bitmap) then None else Some bitmap
      else let n = b32_size (b32_start bitmap) (b32_real_end bitmap)
           in if n \<le> length (b32_bitmap bitmap)
              then Some (bitmap\<lparr>b32_bitmap := replicate n 0 @ drop n (b32_bitmap bitmap)\<rparr>)
              else None)"

subsection \<open>Ends, resizing and comparison\<close>

text \<open>The second component is what is stored through the pointer \<^verbatim>\<open>oend\<close>, if anything.\<close>

definition ext2fs_fudge_generic_bitmap_end ::
    "bitmap32 \<Rightarrow> errcode \<Rightarrow> errcode \<Rightarrow> u32 \<Rightarrow> errcode \<times> u32 option \<times> bitmap32" where
  "ext2fs_fudge_generic_bitmap_end bitmap magic neq end =
     (if b32_magic bitmap \<noteq> magic then (magic, None, bitmap)
      else if end > b32_real_end bitmap then (neq, None, bitmap)
      else (E_OK, Some (b32_end bitmap), bitmap\<lparr>b32_end := end\<rparr>))"

function b32_clear_down :: "u32 \<Rightarrow> u32 \<Rightarrow> u32 \<Rightarrow> u8 list \<Rightarrow> u8 list ub" where
  "b32_clear_down start end bitno addr =
     (if bitno > end then do {
        (_, addr') \<leftarrow> ext2fs_clear_bit (bitno - start) addr;
        b32_clear_down start end (bitno - 1) addr'
      } else Some addr)"
  by pat_completeness auto
termination
proof (relation "measure (\<lambda>(start, end, bitno, addr). unat bitno)", goal_cases)
  case (2 start "end" bitno addr p r addr')
  then have "bitno \<noteq> 0" by auto
  then show ?case by (simp add: measure_unat)
qed simp

definition ext2fs_resize_generic_bitmap ::
    "bool \<Rightarrow> (nat \<Rightarrow> u8) \<Rightarrow> errcode \<Rightarrow> u32 \<Rightarrow> u32 \<Rightarrow> bitmap32 option
      \<Rightarrow> (errcode \<times> bitmap32 option) ub" where
  "ext2fs_resize_generic_bitmap ok junk magic new_end new_real_end bmap =
     (case bmap of
        None \<Rightarrow> Some (magic, None)
      | Some bmap \<Rightarrow>
          if b32_magic bmap \<noteq> magic then Some (magic, Some bmap)
          else do {
            arr \<leftarrow> (if new_end > b32_end bmap
                    then b32_clear_down (b32_start bmap) (b32_end bmap)
                           (if b32_real_end bmap > new_end then new_end else b32_real_end bmap)
                           (b32_bitmap bmap)
                    else Some (b32_bitmap bmap));
            let bmap = bmap\<lparr>b32_bitmap := arr\<rparr>;
            if new_real_end = b32_real_end bmap then Some (E_OK, Some (bmap\<lparr>b32_end := new_end\<rparr>))
            else do {
              let size = b32_size (b32_start bmap) (b32_real_end bmap);
              let new_size = b32_size (b32_start bmap) new_real_end;
              if size \<noteq> new_size \<and> \<not> ok then Some (EXT2_ET_NO_MEMORY, Some bmap)
              else do {
                let arr = (if size \<noteq> new_size then c_realloc junk (b32_bitmap bmap) new_size
                           else b32_bitmap bmap);
                let arr = (if new_size > size then take size arr @ replicate (new_size - size) 0 else arr);
                Some (E_OK, Some (bmap\<lparr>b32_bitmap := arr, b32_end := new_end, b32_real_end := new_real_end\<rparr>))
              }
            }
          })"

partial_function (option) b32_compare_loop :: "bitmap32 \<Rightarrow> bitmap32 \<Rightarrow> errcode \<Rightarrow> u32 \<Rightarrow> errcode ub" where
  [code]: "b32_compare_loop bm1 bm2 neq i =
     (if i \<le> b32_end bm1 then do {
        t1 \<leftarrow> ext2fs_test_generic_bitmap bm1 i;
        t2 \<leftarrow> ext2fs_test_generic_bitmap bm2 i;
        if t1 \<noteq> t2 then Some neq else b32_compare_loop bm1 bm2 neq (i + 1)
      } else Some E_OK)"

definition ext2fs_compare_generic_bitmap ::
    "errcode \<Rightarrow> errcode \<Rightarrow> bitmap32 option \<Rightarrow> bitmap32 option \<Rightarrow> errcode ub" where
  "ext2fs_compare_generic_bitmap magic neq gen_bm1 gen_bm2 =
     (case (gen_bm1, gen_bm2) of
        (Some bm1, Some bm2) \<Rightarrow>
          if b32_magic bm1 \<noteq> magic \<or> b32_magic bm2 \<noteq> magic then Some magic
          else if b32_start bm1 \<noteq> b32_start bm2 \<or> b32_end bm1 \<noteq> b32_end bm2 then Some neq
          else let n = unat ((b32_end bm1 - b32_start bm1)) div 8
               in if n \<le> length (b32_bitmap bm1) \<and> n \<le> length (b32_bitmap bm2) then
                    if take n (b32_bitmap bm1) \<noteq> take n (b32_bitmap bm2) then Some neq
                    else b32_compare_loop bm1 bm2 neq
                           (b32_end bm1 - (b32_end bm1 - b32_start bm1) mod 8)
                  else None
      | _ \<Rightarrow> Some magic)"

text \<open>The loop guards itself against the wrap-around of \<^verbatim>\<open>i\<close>.\<close>

function b32_padding_loop :: "u32 \<Rightarrow> u32 \<Rightarrow> u32 \<Rightarrow> u32 \<Rightarrow> u8 list \<Rightarrow> u8 list ub" where
  "b32_padding_loop end real_end i j addr =
     (if i \<le> real_end \<and> i > end then do {
        (_, addr') \<leftarrow> ext2fs_set_bit j addr;
        b32_padding_loop end real_end (i + 1) (j + 1) addr'
      } else Some addr)"
  by pat_completeness auto
termination
proof (relation "measure (\<lambda>(end, real_end, i, j, addr). if i > end then 2 ^ 32 - unat i else 0)", goal_cases)
  case (2 "end" real_end i j addr p r addr')
  have "unat i = 4294967295 \<or> Suc (unat i) < 4294967296"
    using unat_u32_less [of i] by linarith
  with 2 show ?case by (auto simp: unat_word_ariths word_less_nat_alt)
qed simp

definition ext2fs_set_generic_bitmap_padding :: "bitmap32 \<Rightarrow> bitmap32 ub" where
  "ext2fs_set_generic_bitmap_padding bmap = do {
     let i = b32_end bmap + 1;
     arr \<leftarrow> b32_padding_loop (b32_end bmap) (b32_real_end bmap) i (i - b32_start bmap) (b32_bitmap bmap);
     Some (bmap\<lparr>b32_bitmap := arr\<rparr>)
   }"

subsection \<open>Ranges\<close>

definition ext2fs_get_generic_bitmap_range ::
    "bitmap32 option \<Rightarrow> errcode \<Rightarrow> u32 \<Rightarrow> u32 \<Rightarrow> u8 list \<Rightarrow> (errcode \<times> u8 list) ub" where
  "ext2fs_get_generic_bitmap_range gen_bmap magic start num outb =
     (case gen_bmap of
        None \<Rightarrow> Some (magic, outb)
      | Some bmap \<Rightarrow>
          if b32_magic bmap \<noteq> magic then Some (magic, outb)
          else if start < b32_start bmap \<or> start + num - 1 > b32_real_end bmap
          then Some (EXT2_ET_INVALID_ARGUMENT, outb)
          else let off = unat (drop_bit 3 (start - b32_start bmap)); n = unat (drop_bit 3 (num + 7))
               in if n \<le> length outb \<and> off + n \<le> length (b32_bitmap bmap)
                  then Some (E_OK, take n (drop off (b32_bitmap bmap)) @ drop n outb)
                  else None)"

definition ext2fs_set_generic_bitmap_range ::
    "bitmap32 option \<Rightarrow> errcode \<Rightarrow> u32 \<Rightarrow> u32 \<Rightarrow> u8 list \<Rightarrow> (errcode \<times> bitmap32 option) ub" where
  "ext2fs_set_generic_bitmap_range gen_bmap magic start num inb =
     (case gen_bmap of
        None \<Rightarrow> Some (magic, None)
      | Some bmap \<Rightarrow>
          if b32_magic bmap \<noteq> magic then Some (magic, Some bmap)
          else if start < b32_start bmap \<or> start + num - 1 > b32_real_end bmap
          then Some (EXT2_ET_INVALID_ARGUMENT, Some bmap)
          else let off = unat (drop_bit 3 (start - b32_start bmap)); n = unat (drop_bit 3 (num + 7));
                   arr = b32_bitmap bmap
               in if n \<le> length inb \<and> off + n \<le> length arr
                  then Some (E_OK, Some (bmap\<lparr>b32_bitmap := take off arr @ take n inb @ drop (off + n) arr\<rparr>))
                  else None)"

definition ext2fs_test_clear_generic_bitmap_range :: "bitmap32 \<Rightarrow> u32 \<Rightarrow> u32 \<Rightarrow> u32 ub" where
  "ext2fs_test_clear_generic_bitmap_range bitmap start len =
     test_clear_run (b32_bitmap bitmap) (unat (start - b32_start bitmap)) (unat len)"

text \<open>The two searches differ in the value they look for.\<close>

partial_function (option) b32_find_loop ::
    "bool \<Rightarrow> bitmap32 \<Rightarrow> u32 \<Rightarrow> u32 \<Rightarrow> (errcode + u32) ub" where
  [code]: "b32_find_loop want bitmap start end =
     (if start \<le> end then do {
        b \<leftarrow> ext2fs_test_bit (start - b32_start bitmap) (b32_bitmap bitmap);
        if (b \<noteq> 0) = want then Some (Inr start) else b32_find_loop want bitmap (start + 1) end
      } else Some (Inl ENOENT))"

definition ext2fs_find_first_zero_generic_bitmap :: "bitmap32 \<Rightarrow> u32 \<Rightarrow> u32 \<Rightarrow> (errcode + u32) ub" where
  "ext2fs_find_first_zero_generic_bitmap bitmap start end =
     (if start < b32_start bitmap \<or> end > b32_end bitmap \<or> start > end then Some (Inl EINVAL)
      else b32_find_loop False bitmap start end)"

definition ext2fs_find_first_set_generic_bitmap :: "bitmap32 \<Rightarrow> u32 \<Rightarrow> u32 \<Rightarrow> (errcode + u32) ub" where
  "ext2fs_find_first_set_generic_bitmap bitmap start end =
     (if start < b32_start bitmap \<or> end > b32_end bitmap \<or> start > end then Some (Inl EINVAL)
      else b32_find_loop True bitmap start end)"

text \<open>
  The run operations take the number of elements as an \<^verbatim>\<open>int\<close>, which is converted to unsigned in the
  comparisons. \<open>Inl\<close> is an error code returned as the truth value.
\<close>

definition ext2fs_test_block_bitmap_range :: "bitmap32 \<Rightarrow> u32 \<Rightarrow> int \<Rightarrow> (errcode + u32) ub" where
  "ext2fs_test_block_bitmap_range bitmap block num =
     (if b32_magic bitmap \<noteq> EXT2_ET_MAGIC_BLOCK_BITMAP then Some (Inl EXT2_ET_MAGIC_BLOCK_BITMAP)
      else if block < b32_start bitmap \<or> block > b32_real_end bitmap
        \<or> block + of_int num - 1 > b32_real_end bitmap then Some (Inr 0)
      else map_option Inr (ext2fs_test_clear_generic_bitmap_range bitmap block (of_int num)))"

definition ext2fs_test_inode_bitmap_range :: "bitmap32 \<Rightarrow> u32 \<Rightarrow> int \<Rightarrow> (errcode + u32) ub" where
  "ext2fs_test_inode_bitmap_range bitmap ino num =
     (if b32_magic bitmap \<noteq> EXT2_ET_MAGIC_INODE_BITMAP then Some (Inl EXT2_ET_MAGIC_INODE_BITMAP)
      else if ino < b32_start bitmap \<or> ino > b32_real_end bitmap
        \<or> ino + of_int num - 1 > b32_real_end bitmap then Some (Inr 0)
      else map_option Inr (ext2fs_test_clear_generic_bitmap_range bitmap ino (of_int num)))"

fun b32_mark_run :: "u32 \<Rightarrow> nat \<Rightarrow> nat \<Rightarrow> u8 list \<Rightarrow> u8 list ub" where
  "b32_mark_run pos i 0 addr = Some addr"
| "b32_mark_run pos i (Suc n) addr = do {
     addr' \<leftarrow> ext2fs_fast_set_bit (pos + of_nat i) addr;
     b32_mark_run pos (i + 1) n addr'
   }"

fun b32_unmark_run :: "u32 \<Rightarrow> nat \<Rightarrow> nat \<Rightarrow> u8 list \<Rightarrow> u8 list ub" where
  "b32_unmark_run pos i 0 addr = Some addr"
| "b32_unmark_run pos i (Suc n) addr = do {
     addr' \<leftarrow> ext2fs_fast_clear_bit (pos + of_nat i) addr;
     b32_unmark_run pos (i + 1) n addr'
   }"

definition ext2fs_mark_block_bitmap_range :: "bitmap32 \<Rightarrow> u32 \<Rightarrow> int \<Rightarrow> bitmap32 ub" where
  "ext2fs_mark_block_bitmap_range bitmap block num =
     (if block < b32_start bitmap \<or> block > b32_end bitmap \<or> block + of_int num - 1 > b32_end bitmap
      then Some bitmap
      else do {
        arr \<leftarrow> b32_mark_run (block - b32_start bitmap) 0 (nat num) (b32_bitmap bitmap);
        Some (bitmap\<lparr>b32_bitmap := arr\<rparr>)
      })"

definition ext2fs_unmark_block_bitmap_range :: "bitmap32 \<Rightarrow> u32 \<Rightarrow> int \<Rightarrow> bitmap32 ub" where
  "ext2fs_unmark_block_bitmap_range bitmap block num =
     (if block < b32_start bitmap \<or> block > b32_end bitmap \<or> block + of_int num - 1 > b32_end bitmap
      then Some bitmap
      else do {
        arr \<leftarrow> b32_unmark_run (block - b32_start bitmap) 0 (nat num) (b32_bitmap bitmap);
        Some (bitmap\<lparr>b32_bitmap := arr\<rparr>)
      })"

subsection \<open>The invariant and the set of marked numbers\<close>

definition b32_ok :: "bitmap32 \<Rightarrow> bool" where
  "b32_ok b \<longleftrightarrow> EXT2FS_IS_32_BITMAP (b32_magic b) \<and> b32_start b \<le> b32_end b \<and> b32_end b \<le> b32_real_end b
     \<and> b32_size (b32_start b) (b32_real_end b) \<le> length (b32_bitmap b)"

definition b32_bits :: "bitmap32 \<Rightarrow> u32 set" where
  "b32_bits b = {k. b32_start b \<le> k \<and> k \<le> b32_real_end b
     \<and> bit_at (b32_bitmap b) (unat k - unat (b32_start b))}"

lemma b32_size_eq:
  assumes "start \<le> real_end"
  shows "b32_size start real_end = (unat real_end - unat start) div 8 + 1"
proof -
  let ?d = "real_end - start"
  have "unat (?d div 8) = unat ?d div 8" by (simp add: unat_div)
  moreover have "unat ?d div 8 + 1 < 4294967296" using unat_u32_less [of ?d] by linarith
  ultimately have "unat (?d div 8 + 1) = unat ?d div 8 + 1"
    by (simp add: unat_word_ariths)
  with assms show ?thesis by (simp add: b32_size_def unat_diff_le)
qed

lemma b32_inside:
  assumes "b32_ok b" "b32_start b \<le> k" "k \<le> b32_real_end b"
  shows "unat (k - b32_start b) = unat k - unat (b32_start b)"
    "unat k - unat (b32_start b) < 8 * length (b32_bitmap b)"
proof -
  from assms have se: "b32_start b \<le> b32_real_end b" by simp
  show "unat (k - b32_start b) = unat k - unat (b32_start b)"
    using assms by (simp add: unat_diff_le)
  have "unat k - unat (b32_start b) \<le> unat (b32_real_end b) - unat (b32_start b)"
    using assms by (simp add: word_le_nat_alt diff_le_mono)
  moreover have "(unat (b32_real_end b) - unat (b32_start b)) div 8 < length (b32_bitmap b)"
    using assms(1) b32_size_eq [OF se] by (simp add: b32_ok_def)
  ultimately show "unat k - unat (b32_start b) < 8 * length (b32_bitmap b)" by linarith
qed

lemma b32_offset_inj:
  assumes "b32_start b \<le> x" "b32_start b \<le> k"
  shows "unat x - unat (b32_start b) = unat k - unat (b32_start b) \<longleftrightarrow> x = k"
  using assms by (auto simp: word_le_nat_alt eq_diff_iff word_unat_eq_iff)

lemma b32_ok_update [simp]:
  "length arr = length (b32_bitmap b) \<Longrightarrow> b32_ok (b\<lparr>b32_bitmap := arr\<rparr>) = b32_ok b"
  by (simp add: b32_ok_def)

lemma b32_bits_iff:
  assumes "b32_start b \<le> k" "k \<le> b32_real_end b"
  shows "k \<in> b32_bits b \<longleftrightarrow> bit_at (b32_bitmap b) (unat k - unat (b32_start b))"
  using assms by (simp add: b32_bits_def)

lemma b32_test_bit:
  assumes "b32_ok b" "b32_start b \<le> k" "k \<le> b32_real_end b"
  shows "ext2fs_test_bit (k - b32_start b) (b32_bitmap b)
    = Some (bit_val (b32_bitmap b) (unat k - unat (b32_start b)))"
  using b32_inside [OF assms] by (simp add: ext2fs_test_bit_eq)

text \<open>Numbers outside the bitmap are refused: they are reported as clear and leave it as it is.\<close>

lemma b32_outside:
  assumes "b32_ok b" "k < b32_start b \<or> b32_end b < k"
  shows "ext2fs_test_generic_bitmap b k = Some 0" "ext2fs_mark_generic_bitmap b k = Some (0, b)"
    "ext2fs_unmark_generic_bitmap b k = Some (0, b)"
  using assms by (auto simp: ext2fs_test_generic_bitmap_def ext2fs_mark_generic_bitmap_def
      ext2fs_unmark_generic_bitmap_def b32_ok_def)

lemma b32_in_range:
  assumes "b32_ok b" "b32_start b \<le> k" "k \<le> b32_end b"
  shows "k \<le> b32_real_end b"
  using assms by (auto simp: b32_ok_def)

lemma b32_not_outside:
  assumes "b32_start b \<le> k" "k \<le> b32_end b"
  shows "\<not> k < b32_start b" "\<not> b32_end b < k"
  using assms by auto

lemma b32_test_eq:
  assumes "b32_ok b" "b32_start b \<le> k" "k \<le> b32_end b"
  shows "ext2fs_test_generic_bitmap b k = Some (bit_val (b32_bitmap b) (unat k - unat (b32_start b)))"
  using b32_test_bit [OF assms(1,2) b32_in_range [OF assms]] assms
    b32_not_outside [OF assms(2,3)] by (simp add: ext2fs_test_generic_bitmap_def b32_ok_def)

lemma b32_mark_eq:
  assumes "b32_ok b" "b32_start b \<le> k" "k \<le> b32_end b"
  defines "n \<equiv> unat k - unat (b32_start b)"
  shows "ext2fs_mark_generic_bitmap b k
      = Some (bit_val (b32_bitmap b) n, b\<lparr>b32_bitmap := set_bit_list (b32_bitmap b) n\<rparr>)"
    "b32_bits (b\<lparr>b32_bitmap := set_bit_list (b32_bitmap b) n\<rparr>) = insert k (b32_bits b)"
proof -
  note r = b32_in_range [OF assms(1-3)]
  note i = b32_inside [OF assms(1,2) r]
  show "ext2fs_mark_generic_bitmap b k
      = Some (bit_val (b32_bitmap b) n, b\<lparr>b32_bitmap := set_bit_list (b32_bitmap b) n\<rparr>)"
    using i assms b32_not_outside [OF assms(2,3)]
    by (simp add: ext2fs_mark_generic_bitmap_def ext2fs_set_bit_eq b32_ok_def)
  show "b32_bits (b\<lparr>b32_bitmap := set_bit_list (b32_bitmap b) n\<rparr>) = insert k (b32_bits b)"
    using i r assms b32_offset_inj [of b _ k] by (auto simp: b32_bits_def)
qed

lemma b32_unmark_eq:
  assumes "b32_ok b" "b32_start b \<le> k" "k \<le> b32_end b"
  defines "n \<equiv> unat k - unat (b32_start b)"
  shows "ext2fs_unmark_generic_bitmap b k
      = Some (bit_val (b32_bitmap b) n, b\<lparr>b32_bitmap := clear_bit_list (b32_bitmap b) n\<rparr>)"
    "b32_bits (b\<lparr>b32_bitmap := clear_bit_list (b32_bitmap b) n\<rparr>) = b32_bits b - {k}"
proof -
  note r = b32_in_range [OF assms(1-3)]
  note i = b32_inside [OF assms(1,2) r]
  show "ext2fs_unmark_generic_bitmap b k
      = Some (bit_val (b32_bitmap b) n, b\<lparr>b32_bitmap := clear_bit_list (b32_bitmap b) n\<rparr>)"
    using i assms b32_not_outside [OF assms(2,3)]
    by (simp add: ext2fs_unmark_generic_bitmap_def ext2fs_clear_bit_eq b32_ok_def)
  show "b32_bits (b\<lparr>b32_bitmap := clear_bit_list (b32_bitmap b) n\<rparr>) = b32_bits b - {k}"
    using i r assms b32_offset_inj [of b _ k] by (auto simp: b32_bits_def)
qed

subsection \<open>Searching\<close>

lemma b32_find_loop_correct:
  assumes "b32_ok b" "b32_start b \<le> s" "e \<le> b32_real_end b" "e \<noteq> 0xffffffff"
  shows "\<exists>r. b32_find_loop want b s e = Some r \<and>
    (case r of Inl c \<Rightarrow> c = ENOENT \<and> (\<forall>x. s \<le> x \<and> x \<le> e \<longrightarrow> (x \<in> b32_bits b) \<noteq> want)
     | Inr v \<Rightarrow> s \<le> v \<and> v \<le> e \<and> (v \<in> b32_bits b) = want
         \<and> (\<forall>x. s \<le> x \<and> x < v \<longrightarrow> (x \<in> b32_bits b) \<noteq> want))"
  using assms(2)
proof (induction "Suc (unat e) - unat s" arbitrary: s)
  case 0
  then have "\<not> s \<le> e" by (simp add: word_le_nat_alt)
  then show ?case by (subst b32_find_loop.simps) auto
next
  case (Suc n)
  then have se: "s \<le> e" by (simp add: word_le_nat_alt)
  have in_s: "s \<le> b32_real_end b" using se assms(3) by simp
  note t = b32_test_bit [OF assms(1) Suc.prems in_s] and m = b32_bits_iff [OF Suc.prems in_s]
  show ?case
  proof (cases "(s \<in> b32_bits b) = want")
    case True
    with se t m show ?thesis by (subst b32_find_loop.simps) auto
  next
    case False
    have "e < 0xffffffff" using assms(4) by (rule u32_less_max)
    with se have lt: "s < 0xffffffff" by simp
    have u: "unat (s + 1) = Suc (unat s)" using lt by (rule unat_inc)
    have "b32_start b \<le> s + 1" using Suc.prems u by (simp add: word_le_nat_alt)
    moreover have "n = Suc (unat e) - unat (s + 1)" using Suc.hyps(2) u by simp
    ultimately obtain r where r: "b32_find_loop want b (s + 1) e = Some r"
      "case r of Inl c \<Rightarrow> c = ENOENT \<and> (\<forall>x. s + 1 \<le> x \<and> x \<le> e \<longrightarrow> (x \<in> b32_bits b) \<noteq> want)
       | Inr v \<Rightarrow> s + 1 \<le> v \<and> v \<le> e \<and> (v \<in> b32_bits b) = want
         \<and> (\<forall>x. s + 1 \<le> x \<and> x < v \<longrightarrow> (x \<in> b32_bits b) \<noteq> want)"
      using Suc.hyps(1) by blast
    have step: "s \<le> x \<longleftrightarrow> x = s \<or> s + 1 \<le> x" for x
      using u by (auto simp: word_le_nat_alt word_unat_eq_iff)
    have "case r of Inl c \<Rightarrow> c = ENOENT \<and> (\<forall>x. s \<le> x \<and> x \<le> e \<longrightarrow> (x \<in> b32_bits b) \<noteq> want)
       | Inr v \<Rightarrow> s \<le> v \<and> v \<le> e \<and> (v \<in> b32_bits b) = want
         \<and> (\<forall>x. s \<le> x \<and> x < v \<longrightarrow> (x \<in> b32_bits b) \<noteq> want)"
      using r(2) False by (cases r) (auto simp: step)
    with r(1) se t m False show ?thesis by (subst b32_find_loop.simps) auto
  qed
qed

subsection \<open>Comparison\<close>

lemma bit_val_eq_iff: "bit_val a n = bit_val b n \<longleftrightarrow> (bit_at a n \<longleftrightarrow> bit_at b n)"
  by (metis bit_val_def bit_val_ne_0)

lemma take_eq_bits:
  assumes "n \<le> length a" "n \<le> length b"
  shows "take n a = take n b \<longleftrightarrow> (\<forall>j < 8 * n. bit_at a j = bit_at b j)" (is "?l \<longleftrightarrow> ?r")
proof -
  have at: "bit_at (take n xs) j = bit_at xs j" if "j < 8 * n" "n \<le> length xs" for xs j
    using that by (auto simp: bit_at_def)
  show ?thesis
  proof
    assume l: ?l
    show ?r using at assms l by metis
  next
    assume r: ?r
    show ?l by (rule bit_at_eqI) (use assms r at in auto)
  qed
qed

lemma b32_offset_number:
  assumes "j + unat (s :: u32) \<le> unat (e :: u32)"
  obtains x where "unat x = j + unat s" "s \<le> x" "x \<le> e"
proof -
  have "j + unat s < 4294967296" using assms unat_u32_less [of e] by linarith
  then have "unat (of_nat (j + unat s) :: u32) = j + unat s" by (rule unat_of_nat_u32)
  with assms that show thesis by (simp add: word_le_nat_alt)
qed

lemma b32_bits_prefix:
  assumes u: "unat i = unat (b32_start bm1) + 8 * n" and same: "b32_start bm2 = b32_start bm1"
    and "i \<le> b32_real_end bm1" "i \<le> b32_real_end bm2"
  shows "(\<forall>j < 8 * n. bit_at (b32_bitmap bm1) j = bit_at (b32_bitmap bm2) j) \<longleftrightarrow>
    (\<forall>x. b32_start bm1 \<le> x \<and> x < i \<longrightarrow> (x \<in> b32_bits bm1) = (x \<in> b32_bits bm2))" (is "?l \<longleftrightarrow> ?r")
proof
  assume l: ?l
  show ?r
  proof (intro allI impI)
    fix x assume x: "b32_start bm1 \<le> x \<and> x < i"
    then have "x \<le> b32_real_end bm1" "x \<le> b32_real_end bm2" using assms(3,4) by auto
    moreover have "unat x - unat (b32_start bm1) < 8 * n" using x u unfolding word_le_nat_alt word_less_nat_alt by linarith
    ultimately show "(x \<in> b32_bits bm1) = (x \<in> b32_bits bm2)" using l x same by (simp add: b32_bits_def)
  qed
next
  assume r: ?r
  show ?l
  proof (intro allI impI)
    fix j assume j: "j < 8 * n"
    then have "j + unat (b32_start bm1) \<le> unat i" using u by simp
    then obtain x where x: "unat x = j + unat (b32_start bm1)" "b32_start bm1 \<le> x" "x \<le> i"
      by (rule b32_offset_number)
    then have "x < i" using j u by (simp add: word_less_nat_alt)
    with r x have "(x \<in> b32_bits bm1) = (x \<in> b32_bits bm2)" by blast
    moreover have "x \<le> b32_real_end bm1" "x \<le> b32_real_end bm2" using x(3) assms(3,4) by auto
    ultimately show "bit_at (b32_bitmap bm1) j = bit_at (b32_bitmap bm2) j"
      using x same by (simp add: b32_bits_def)
  qed
qed

lemma b32_compare_loop_eq:
  assumes ok: "b32_ok bm1" "b32_ok bm2" and same: "b32_start bm1 = b32_start bm2" "b32_end bm1 = b32_end bm2"
    and "b32_end bm1 \<noteq> 0xffffffff" and i: "b32_start bm1 \<le> i"
  shows "b32_compare_loop bm1 bm2 neq i =
    Some (if \<forall>x. i \<le> x \<and> x \<le> b32_end bm1 \<longrightarrow> (x \<in> b32_bits bm1) = (x \<in> b32_bits bm2) then E_OK else neq)"
  using i
proof (induction "Suc (unat (b32_end bm1)) - unat i" arbitrary: i)
  case 0
  then have "\<not> i \<le> b32_end bm1" by (simp add: word_le_nat_alt)
  moreover from this have "\<not> (i \<le> x \<and> x \<le> b32_end bm1)" for x by auto
  ultimately show ?case by (subst b32_compare_loop.simps) auto
next
  case (Suc n)
  then have se: "i \<le> b32_end bm1" by (simp add: word_le_nat_alt)
  have se2: "b32_start bm2 \<le> i" "i \<le> b32_end bm2" using Suc.prems se same by simp_all
  note t1 = b32_test_eq [OF ok(1) Suc.prems se] and t2 = b32_test_eq [OF ok(2) se2]
  note m1 = b32_bits_iff [OF Suc.prems b32_in_range [OF ok(1) Suc.prems se]]
  note m2 = b32_bits_iff [OF se2(1) b32_in_range [OF ok(2) se2]]
  have eq: "bit_val (b32_bitmap bm1) (unat i - unat (b32_start bm1)) = bit_val (b32_bitmap bm2) (unat i - unat (b32_start bm2))
      \<longleftrightarrow> (i \<in> b32_bits bm1) = (i \<in> b32_bits bm2)"
    unfolding m1 m2 same(1) bit_val_eq_iff ..
  show ?case
  proof (cases "(i \<in> b32_bits bm1) = (i \<in> b32_bits bm2)")
    case False
    with se t1 t2 eq show ?thesis by (subst b32_compare_loop.simps) auto
  next
    case True
    have "b32_end bm1 < 0xffffffff" using assms(5) by (rule u32_less_max)
    with se have "i < 0xffffffff" by simp
    then have u: "unat (i + 1) = Suc (unat i)" by (rule unat_inc)
    have "b32_start bm1 \<le> i + 1" using Suc.prems u by (simp add: word_le_nat_alt)
    moreover have "n = Suc (unat (b32_end bm1)) - unat (i + 1)" using Suc.hyps(2) u by simp
    ultimately have ih: "b32_compare_loop bm1 bm2 neq (i + 1) =
      Some (if \<forall>x. i + 1 \<le> x \<and> x \<le> b32_end bm1 \<longrightarrow> (x \<in> b32_bits bm1) = (x \<in> b32_bits bm2) then E_OK else neq)"
      using Suc.hyps(1) by blast
    have step: "i \<le> x \<longleftrightarrow> x = i \<or> i + 1 \<le> x" for x
      using u by (auto simp: word_le_nat_alt word_unat_eq_iff)
    have "(\<forall>x. i \<le> x \<and> x \<le> b32_end bm1 \<longrightarrow> (x \<in> b32_bits bm1) = (x \<in> b32_bits bm2))
        \<longleftrightarrow> (\<forall>x. i + 1 \<le> x \<and> x \<le> b32_end bm1 \<longrightarrow> (x \<in> b32_bits bm1) = (x \<in> b32_bits bm2))"
      using True by (metis step)
    with ih se t1 t2 eq True show ?thesis by (subst b32_compare_loop.simps) simp
  qed
qed

text \<open>
  Comparing two well-formed 32-bit bitmaps of the same kind answers 0 exactly when they have the same
  start and end and mark the same numbers between them; it reads only inside the two arrays.
\<close>

theorem b32_compare_iff:
  assumes ok: "b32_ok bm1" "b32_ok bm2" and mg: "b32_magic bm1 = b32_magic bm2"
    and max: "b32_end bm1 \<noteq> 0xffffffff" and neq: "neq \<noteq> E_OK"
  shows "\<exists>r. ext2fs_compare_generic_bitmap (b32_magic bm1) neq (Some bm1) (Some bm2) = Some r
    \<and> (r = E_OK \<longleftrightarrow> b32_start bm1 = b32_start bm2 \<and> b32_end bm1 = b32_end bm2
        \<and> (\<forall>x. b32_start bm1 \<le> x \<and> x \<le> b32_end bm1 \<longrightarrow> (x \<in> b32_bits bm1) = (x \<in> b32_bits bm2)))"
proof (cases "b32_start bm1 = b32_start bm2 \<and> b32_end bm1 = b32_end bm2")
  case False
  then show ?thesis using mg neq by (auto simp: ext2fs_compare_generic_bitmap_def)
next
  case True
  let ?s = "b32_start bm1" and ?e = "b32_end bm1"
  define d where "d = unat (?e - ?s)"
  have se: "?s \<le> ?e" using ok(1) by (simp add: b32_ok_def)
  have d: "d = unat ?e - unat ?s" using se by (simp add: d_def unat_diff_le)
  have len: "d div 8 \<le> length (b32_bitmap bm1)" "d div 8 \<le> length (b32_bitmap bm2)"
    using b32_inside(2) [OF ok(1) se b32_in_range [OF ok(1) se]] b32_inside(2) [OF ok(2), of ?e] True se
      b32_in_range [OF ok(2), of ?e] d by auto
  define i where "i = ?e - (?e - ?s) mod 8"
  have "unat ((?e - ?s) mod 8) = d mod 8" by (simp add: d_def unat_mod)
  moreover have md: "d mod 8 \<le> unat ?e" using d by (meson diff_le_self mod_less_eq_dividend le_trans)
  ultimately have "unat i = unat ?e - d mod 8"
    unfolding i_def by (simp add: unat_diff_le word_le_nat_alt)
  moreover have "unat ?e = unat ?s + d" using d se by (simp add: word_le_nat_alt)
  ultimately have u: "unat i = unat ?s + 8 * (d div 8)" using mult_div_mod_eq [of 8 d] by linarith
  have si: "?s \<le> i" using u by (simp add: word_le_nat_alt)
  have ie: "i \<le> ?e" using \<open>unat i = unat ?e - d mod 8\<close> by (simp add: word_le_nat_alt)
  have loop: "b32_compare_loop bm1 bm2 neq i =
    Some (if \<forall>x. i \<le> x \<and> x \<le> ?e \<longrightarrow> (x \<in> b32_bits bm1) = (x \<in> b32_bits bm2) then E_OK else neq)"
    using b32_compare_loop_eq [OF ok _ _ max si] True by simp
  have head: "take (d div 8) (b32_bitmap bm1) = take (d div 8) (b32_bitmap bm2) \<longleftrightarrow>
      (\<forall>x. ?s \<le> x \<and> x < i \<longrightarrow> (x \<in> b32_bits bm1) = (x \<in> b32_bits bm2))"
    unfolding take_eq_bits [OF len]
  proof (rule b32_bits_prefix [OF u])
    show "b32_start bm2 = ?s" "i \<le> b32_real_end bm1" "i \<le> b32_real_end bm2"
      using True ie ok by (auto simp: b32_ok_def)
  qed
  have split: "?s \<le> x \<and> x \<le> ?e \<longleftrightarrow> ?s \<le> x \<and> x < i \<or> i \<le> x \<and> x \<le> ?e" for x
    using si ie by auto
  have "ext2fs_compare_generic_bitmap (b32_magic bm1) neq (Some bm1) (Some bm2)
      = (if take (d div 8) (b32_bitmap bm1) \<noteq> take (d div 8) (b32_bitmap bm2) then Some neq
         else b32_compare_loop bm1 bm2 neq i)"
    using mg True len by (simp add: ext2fs_compare_generic_bitmap_def d_def i_def)
  with head loop True neq show ?thesis unfolding split by auto
qed

subsection \<open>Copying after a resize\<close>

text \<open>
  (C34) The copy function assumes that the array has the rounded size with which bitmaps are created, but
  resizing reallocates the array to the exact size: after a resize that changes the number of bytes,
  copying the bitmap reads past the end of its array.
\<close>

theorem b32_copy_after_resize_overreads:
  assumes "ext2fs_resize_generic_bitmap True junk (b32_magic b) new_end new_real_end (Some b) = Some (E_OK, Some b')"
    and "b32_size (b32_start b) new_real_end \<noteq> b32_size (b32_start b) (b32_real_end b)"
  shows "ext2fs_copy_generic_bitmap True True True b' = None"
proof -
  let ?n = "b32_size (b32_start b) new_real_end"
  have ne: "new_real_end \<noteq> b32_real_end b" using assms(2) by auto
  have "length (b32_bitmap b') = ?n \<and> b32_start b' = b32_start b \<and> b32_real_end b' = new_real_end"
    using assms ne
    by (auto simp: ext2fs_resize_generic_bitmap_def Let_def split: if_splits bind_splits option.splits)
  moreover have "?n < (?n + 7) div 4 * 4" by presburger
  ultimately show ?thesis
    by (simp add: ext2fs_copy_generic_bitmap_def ext2fs_make_generic_bitmap_def b32_alloc_size_def)
qed

definition b32_example :: bitmap32 where
  "b32_example = \<lparr>b32_magic = EXT2_ET_MAGIC_BLOCK_BITMAP, b32_start = 1, b32_end = 16, b32_real_end = 16,
     b32_description = None, b32_bitmap = [4, 8, 0, 0, 0, 0, 0, 0],
     b32_base_error_code = EXT2_ET_BAD_BLOCK_MARK\<rparr>"

lemma b32_example_ok: "b32_ok b32_example"
  by (simp add: b32_ok_def b32_example_def b32_size_def EXT2FS_IS_32_BITMAP_def)

theorem b32_copy_after_resize_overreads_witness:
  "\<exists>b'. ext2fs_resize_generic_bitmap True (\<lambda>_. 0) EXT2_ET_MAGIC_BLOCK_BITMAP 8 8 (Some b32_example)
      = Some (E_OK, Some b') \<and> ext2fs_copy_generic_bitmap True True True b' = None"
proof -
  define b' where "b' = b32_example\<lparr>b32_bitmap := [4], b32_end := 8, b32_real_end := 8\<rparr>"
  have r: "ext2fs_resize_generic_bitmap True (\<lambda>_. 0) (b32_magic b32_example) 8 8 (Some b32_example)
      = Some (E_OK, Some b')"
    by (simp add: ext2fs_resize_generic_bitmap_def b32_example_def b'_def b32_size_def c_realloc_def)
  have "ext2fs_copy_generic_bitmap True True True b' = None"
    by (rule b32_copy_after_resize_overreads [OF r]) (simp add: b32_example_def b32_size_def)
  with r show ?thesis by (auto simp: b32_example_def)
qed

theorem b32_compare_iff_witness:
  "\<exists>r. ext2fs_compare_generic_bitmap (b32_magic b32_example) EXT2_ET_INVALID_ARGUMENT (Some b32_example)
         (Some (b32_example\<lparr>b32_bitmap := [4, 0]\<rparr>)) = Some r
    \<and> (r = E_OK \<longleftrightarrow> b32_start b32_example = b32_start (b32_example\<lparr>b32_bitmap := [4, 0]\<rparr>)
        \<and> b32_end b32_example = b32_end (b32_example\<lparr>b32_bitmap := [4, 0]\<rparr>)
        \<and> (\<forall>x. b32_start b32_example \<le> x \<and> x \<le> b32_end b32_example
            \<longrightarrow> (x \<in> b32_bits b32_example) = (x \<in> b32_bits (b32_example\<lparr>b32_bitmap := [4, 0]\<rparr>))))"
proof (rule b32_compare_iff [OF b32_example_ok])
  show "b32_ok (b32_example\<lparr>b32_bitmap := [4, 0]\<rparr>)"
    by (simp add: b32_ok_def b32_example_def b32_size_def EXT2FS_IS_32_BITMAP_def)
qed (simp_all add: b32_example_def)

subsection \<open>Runs of numbers\<close>

lemma b32_mark_run_correct:
  assumes "unat pos + i + n \<le> 8 * length addr" "unat pos + i + n \<le> 4294967296"
  shows "\<exists>addr'. b32_mark_run pos i n addr = Some addr' \<and> length addr' = length addr
    \<and> (\<forall>k. bit_at addr' k \<longleftrightarrow> bit_at addr k \<or> unat pos + i \<le> k \<and> k < unat pos + i + n)"
  using assms
proof (induction pos i n addr rule: b32_mark_run.induct)
  case (2 pos i n addr)
  let ?m = "unat pos + i"
  have "unat (of_nat i :: u32) = i" using "2.prems" by (intro unat_of_nat_u32) simp
  then have u: "unat (pos + of_nat i) = ?m" using "2.prems" by (simp add: unat_word_ariths)
  have st: "ext2fs_fast_set_bit (pos + of_nat i) addr = Some (set_bit_list addr ?m)"
    using "2.prems" u by (simp add: ext2fs_fast_set_bit_eq)
  from "2.IH" [OF st] "2.prems" obtain addr' where
    a: "b32_mark_run pos (i + 1) n (set_bit_list addr ?m) = Some addr'" "length addr' = length addr"
    "\<And>k. bit_at addr' k \<longleftrightarrow> bit_at (set_bit_list addr ?m) k \<or> unat pos + (i + 1) \<le> k \<and> k < unat pos + (i + 1) + n"
    by auto
  have "bit_at addr' k \<longleftrightarrow> bit_at addr k \<or> ?m \<le> k \<and> k < ?m + Suc n" for k
    using a(3) [of k] "2.prems" by auto
  with st a show ?case by simp
qed auto

lemma b32_unmark_run_correct:
  assumes "unat pos + i + n \<le> 8 * length addr" "unat pos + i + n \<le> 4294967296"
  shows "\<exists>addr'. b32_unmark_run pos i n addr = Some addr' \<and> length addr' = length addr
    \<and> (\<forall>k. bit_at addr' k \<longleftrightarrow> bit_at addr k \<and> \<not> (unat pos + i \<le> k \<and> k < unat pos + i + n))"
  using assms
proof (induction pos i n addr rule: b32_unmark_run.induct)
  case (2 pos i n addr)
  let ?m = "unat pos + i"
  have "unat (of_nat i :: u32) = i" using "2.prems" by (intro unat_of_nat_u32) simp
  then have u: "unat (pos + of_nat i) = ?m" using "2.prems" by (simp add: unat_word_ariths)
  have st: "ext2fs_fast_clear_bit (pos + of_nat i) addr = Some (clear_bit_list addr ?m)"
    using "2.prems" u by (simp add: ext2fs_fast_clear_bit_eq)
  from "2.IH" [OF st] "2.prems" obtain addr' where
    a: "b32_unmark_run pos (i + 1) n (clear_bit_list addr ?m) = Some addr'" "length addr' = length addr"
    "\<And>k. bit_at addr' k \<longleftrightarrow> bit_at (clear_bit_list addr ?m) k
       \<and> \<not> (unat pos + (i + 1) \<le> k \<and> k < unat pos + (i + 1) + n)"
    by auto
  have "bit_at addr' k \<longleftrightarrow> bit_at addr k \<and> \<not> (?m \<le> k \<and> k < ?m + Suc n)" for k
    using a(3) [of k] "2.prems" by auto
  with st a show ?case by simp
qed auto

text \<open>A run inside the bitmap passes the guards of the code and lies inside the array.\<close>

lemma b32_run_guard:
  assumes "0 < num" "num < 2147483648" "unat k + nat num \<le> Suc (unat (e :: u32))"
  shows "k \<le> e" "k + of_int num - 1 \<le> e" "unat (of_int num :: u32) = nat num"
proof -
  have n: "(of_int num :: u32) = of_nat (nat num)" using assms(1) by simp
  show u: "unat (of_int num :: u32) = nat num"
    unfolding n using assms(1,2) by (intro unat_of_nat_u32) simp
  show "k \<le> e" using assms by (simp add: word_le_nat_alt)
  define m :: u32 where "m = of_nat (nat num - 1)"
  have m: "unat m = nat num - 1" unfolding m_def using assms(2) by (intro unat_of_nat_u32) simp
  have k: "k + of_int num - 1 = k + m"
    unfolding n m_def using assms(1) by simp
  have "unat k + unat m < 4294967296" using m assms(1,3) unat_u32_less [of e] by linarith
  then have "unat (k + m) = unat k + unat m" by (simp add: unat_word_ariths)
  then show "k + of_int num - 1 \<le> e" unfolding k word_le_nat_alt using m assms(1,3) by linarith
qed

lemma b32_run_inside:
  assumes "b32_ok b" "b32_start b \<le> k" "0 < num" "unat k + nat num \<le> Suc (unat (b32_end b))"
  shows "unat (k - b32_start b) = unat k - unat (b32_start b)"
    "unat (k - b32_start b) + nat num \<le> 8 * length (b32_bitmap b)"
    "unat (k - b32_start b) + nat num \<le> 4294967296"
proof -
  show u: "unat (k - b32_start b) = unat k - unat (b32_start b)" using assms(2) by (rule unat_diff_le)
  have se: "b32_start b \<le> b32_end b" using assms(1) by (simp add: b32_ok_def)
  have i: "unat (b32_end b) - unat (b32_start b) < 8 * length (b32_bitmap b)"
    by (rule b32_inside(2) [OF assms(1) se b32_in_range [OF assms(1) se order_refl]])
  have "unat (b32_start b) \<le> unat k" using assms(2) by (simp add: word_le_nat_alt)
  with u i assms(3,4) show "unat (k - b32_start b) + nat num \<le> 8 * length (b32_bitmap b)" by linarith
  show "unat (k - b32_start b) + nat num \<le> 4294967296"
    using u assms(4) unat_u32_less [of "b32_end b"] by linarith
qed

lemma b32_run_iff:
  assumes "b32_ok b" "b32_start b \<le> k" "unat k + n \<le> Suc (unat (b32_end b))"
  shows "unat k \<le> unat x \<and> unat x < unat k + n \<longleftrightarrow>
    b32_start b \<le> x \<and> x \<le> b32_real_end b
    \<and> unat k - unat (b32_start b) \<le> unat x - unat (b32_start b)
    \<and> unat x - unat (b32_start b) < unat k - unat (b32_start b) + n"
  using assms unfolding word_le_nat_alt b32_ok_def by linarith

lemma b32_run_clear_iff:
  assumes "b32_ok b" "b32_start b \<le> k" "unat k + n \<le> Suc (unat (b32_end b))"
  defines "p \<equiv> unat k - unat (b32_start b)"
  shows "(\<forall>j. p \<le> j \<and> j < p + n \<longrightarrow> \<not> bit_at (b32_bitmap b) j) \<longleftrightarrow>
    b32_bits b \<inter> {x. b32_start b \<le> x \<and> x \<le> b32_real_end b \<and> p \<le> unat x - unat (b32_start b)
      \<and> unat x - unat (b32_start b) < p + n} = {}" (is "?l \<longleftrightarrow> ?r")
proof
  assume ?l
  then show ?r by (auto simp: b32_bits_def)
next
  assume r: ?r
  show ?l
  proof (intro allI impI notI)
    fix j assume j: "p \<le> j \<and> j < p + n" and bit: "bit_at (b32_bitmap b) j"
    have "unat (b32_start b) \<le> unat k" "unat (b32_end b) \<le> unat (b32_real_end b)"
      using assms(1,2) by (auto simp: word_le_nat_alt b32_ok_def)
    then have "j + unat (b32_start b) \<le> unat (b32_real_end b)" using j assms(3) unfolding p_def by linarith
    then obtain x where x: "unat x = j + unat (b32_start b)" "b32_start b \<le> x" "x \<le> b32_real_end b"
      by (rule b32_offset_number)
    with bit j r show False by (auto simp: b32_bits_def)
  qed
qed

text \<open>
  Marking, unmarking and testing a run of numbers inside a 32-bit block bitmap act on exactly the
  numbers of the run: marking adds them all, unmarking removes them all, and the test answers whether
  none of them is marked.
\<close>

theorem b32_range_ops:
  assumes ok: "b32_ok b" and mg: "b32_magic b = EXT2_ET_MAGIC_BLOCK_BITMAP"
    and k: "b32_start b \<le> k" "0 < num" "num < 2147483648" "unat k + nat num \<le> Suc (unat (b32_end b))"
  defines "run \<equiv> {x. unat k \<le> unat x \<and> unat x < unat k + nat num}"
  shows "(\<exists>b'. ext2fs_mark_block_bitmap_range b k num = Some b' \<and> b32_ok b' \<and> b32_bits b' = b32_bits b \<union> run)
    \<and> (\<exists>b'. ext2fs_unmark_block_bitmap_range b k num = Some b' \<and> b32_ok b' \<and> b32_bits b' = b32_bits b - run)
    \<and> (\<exists>r. ext2fs_test_block_bitmap_range b k num = Some (Inr r) \<and> (r \<noteq> 0 \<longleftrightarrow> b32_bits b \<inter> run = {}))"
proof (intro conjI)
  let ?p = "k - b32_start b" and ?a = "b32_bitmap b"
  note g = b32_run_guard [OF k(2-4)]
  note i = b32_run_inside [OF ok k(1,2,4)]
  note run = b32_run_iff [OF ok k(1,4)]
  have guards: "\<not> k < b32_start b" "\<not> b32_end b < k" "\<not> b32_end b < k + of_int num - 1"
    "\<not> b32_real_end b < k" "\<not> b32_real_end b < k + of_int num - 1"
    using k(1) g ok by (auto simp: b32_ok_def)
  from b32_mark_run_correct [of ?p 0 "nat num" ?a] i obtain arr where
    a: "b32_mark_run ?p 0 (nat num) ?a = Some arr" "length arr = length ?a"
    "\<And>j. bit_at arr j \<longleftrightarrow> bit_at ?a j \<or> unat ?p \<le> j \<and> j < unat ?p + nat num" by auto
  have "b32_bits (b\<lparr>b32_bitmap := arr\<rparr>) = b32_bits b \<union> run"
    unfolding run_def run using a(3) i(1) by (auto simp: b32_bits_def)
  with a guards ok show "\<exists>b'. ext2fs_mark_block_bitmap_range b k num = Some b' \<and> b32_ok b' \<and> b32_bits b' = b32_bits b \<union> run"
    by (simp add: ext2fs_mark_block_bitmap_range_def)
  from b32_unmark_run_correct [of ?p 0 "nat num" ?a] i obtain arr' where
    c: "b32_unmark_run ?p 0 (nat num) ?a = Some arr'" "length arr' = length ?a"
    "\<And>j. bit_at arr' j \<longleftrightarrow> bit_at ?a j \<and> \<not> (unat ?p \<le> j \<and> j < unat ?p + nat num)" by auto
  have "b32_bits (b\<lparr>b32_bitmap := arr'\<rparr>) = b32_bits b - run"
    unfolding run_def run using c(3) i(1) by (auto simp: b32_bits_def)
  with c guards ok show "\<exists>b'. ext2fs_unmark_block_bitmap_range b k num = Some b' \<and> b32_ok b' \<and> b32_bits b' = b32_bits b - run"
    by (simp add: ext2fs_unmark_block_bitmap_range_def)
  from test_clear_run_eq [OF i(2)] obtain r where
    r: "test_clear_run ?a (unat ?p) (nat num) = Some r"
    "r \<noteq> 0 \<longleftrightarrow> (\<forall>j. unat ?p \<le> j \<and> j < unat ?p + nat num \<longrightarrow> \<not> bit_at ?a j)" by blast
  have "(\<forall>j. unat ?p \<le> j \<and> j < unat ?p + nat num \<longrightarrow> \<not> bit_at ?a j) \<longleftrightarrow> b32_bits b \<inter> run = {}"
    unfolding i(1) run_def run by (rule b32_run_clear_iff [OF ok k(1,4)])
  with r g(3) guards mg show "\<exists>r. ext2fs_test_block_bitmap_range b k num = Some (Inr r) \<and> (r \<noteq> 0 \<longleftrightarrow> b32_bits b \<inter> run = {})"
    by (simp add: ext2fs_test_block_bitmap_range_def ext2fs_test_clear_generic_bitmap_range_def)
qed

theorem b32_range_ops_witness:
  "(\<exists>b'. ext2fs_mark_block_bitmap_range b32_example 3 5 = Some b' \<and> b32_ok b'
      \<and> b32_bits b' = b32_bits b32_example \<union> {x. 3 \<le> unat x \<and> unat x < 8})
    \<and> (\<exists>b'. ext2fs_unmark_block_bitmap_range b32_example 3 5 = Some b' \<and> b32_ok b'
      \<and> b32_bits b' = b32_bits b32_example - {x. 3 \<le> unat x \<and> unat x < 8})
    \<and> (\<exists>r. ext2fs_test_block_bitmap_range b32_example 3 5 = Some (Inr r)
      \<and> (r \<noteq> 0 \<longleftrightarrow> b32_bits b32_example \<inter> {x. 3 \<le> unat x \<and> unat x < 8} = {}))"
proof -
  have "b32_magic b32_example = EXT2_ET_MAGIC_BLOCK_BITMAP" "b32_start b32_example = 1" "b32_end b32_example = 16"
    by (simp_all add: b32_example_def)
  then show ?thesis using b32_range_ops [OF b32_example_ok, of 3 5] by simp
qed

end
