(* ===== verification/Bmap64.thy ===== *)
theory Bmap64
  imports Set_Store Bitops
begin

text \<open>
  The 64-bit bitmap structure and its table of operations, from \<^verbatim>\<open>lib/ext2fs/bmap64.h\<close>. A bitmap
  stands for a set of numbers between \<open>bm_start\<close> and \<open>bm_end\<close>; up to \<open>bm_real_end\<close> the back end holds
  padding bits. The private data of the back end is the type parameter \<open>'p\<close>. The \<^verbatim>\<open>fs\<close> pointer, the
  unused \<^verbatim>\<open>flags\<close> and the optional statistics are left out; the pointer to the operations is an
  argument of the functions that use it.

  The locale \<open>bitmap_backend\<close> is the contract that \<^verbatim>\<open>gen_bitmap64.c\<close> relies on.
\<close>

record 'p bitmap64 =
  bm_magic :: errcode
  bm_start :: u64
  bm_end :: u64
  bm_real_end :: u64
  bm_cluster_bits :: nat
  bm_description :: "string option"
  bm_private :: 'p
  bm_base_error_code :: errcode

record 'p bitmap_ops =
  new_bmap :: "'p bitmap64 \<Rightarrow> (errcode \<times> 'p bitmap64) ub"
  copy_bmap :: "'p bitmap64 \<Rightarrow> 'p bitmap64 \<Rightarrow> (errcode \<times> 'p bitmap64) ub"
  resize_bmap :: "'p bitmap64 \<Rightarrow> u64 \<Rightarrow> u64 \<Rightarrow> (errcode \<times> 'p bitmap64) ub"
  mark_bmap :: "'p bitmap64 \<Rightarrow> u64 \<Rightarrow> (u32 \<times> 'p bitmap64) ub"
  unmark_bmap :: "'p bitmap64 \<Rightarrow> u64 \<Rightarrow> (u32 \<times> 'p bitmap64) ub"
  test_bmap :: "'p bitmap64 \<Rightarrow> u64 \<Rightarrow> u32 ub"
  mark_bmap_extent :: "'p bitmap64 \<Rightarrow> u64 \<Rightarrow> u32 \<Rightarrow> 'p bitmap64 ub"
  unmark_bmap_extent :: "'p bitmap64 \<Rightarrow> u64 \<Rightarrow> u32 \<Rightarrow> 'p bitmap64 ub"
  test_clear_bmap_extent :: "'p bitmap64 \<Rightarrow> u64 \<Rightarrow> u32 \<Rightarrow> u32 ub"
  set_bmap_range :: "'p bitmap64 \<Rightarrow> u64 \<Rightarrow> nat \<Rightarrow> u8 list \<Rightarrow> (errcode \<times> 'p bitmap64) ub"
  get_bmap_range :: "'p bitmap64 \<Rightarrow> u64 \<Rightarrow> nat \<Rightarrow> u8 list \<Rightarrow> (errcode \<times> u8 list) ub"
  clear_bmap :: "'p bitmap64 \<Rightarrow> 'p bitmap64"
  find_first_zero :: "('p bitmap64 \<Rightarrow> u64 \<Rightarrow> u64 \<Rightarrow> (errcode + u64) ub) option"
  find_first_set :: "('p bitmap64 \<Rightarrow> u64 \<Rightarrow> u64 \<Rightarrow> (errcode + u64) ub) option"

subsection \<open>The contract of a back end\<close>

text \<open>
  \<open>bits bm\<close> is the set of numbers whose bit is set, \<open>bm_frame\<close> says that only the private data of a
  bitmap has changed. The laws cover the numbers between the start and the real end.
\<close>

definition bm_frame :: "'p bitmap64 \<Rightarrow> 'p bitmap64 \<Rightarrow> bool" where
  "bm_frame bm bm' \<longleftrightarrow> bm' = bm\<lparr>bm_private := bm_private bm'\<rparr>"

definition bm_range :: "'p bitmap64 \<Rightarrow> u64 set" where
  "bm_range bm = {bm_start bm..bm_end bm}"

text \<open>The blocks a search between \<open>s\<close> and \<open>e\<close> may return: the least one with the wanted value.\<close>

definition is_first :: "(u64 \<Rightarrow> bool) \<Rightarrow> u64 \<Rightarrow> u64 \<Rightarrow> errcode + u64 \<Rightarrow> bool" where
  "is_first P s e r \<longleftrightarrow>
     (case r of
        Inl c \<Rightarrow> c = ENOENT \<and> (\<forall>x. s \<le> x \<and> x \<le> e \<longrightarrow> \<not> P x)
      | Inr v \<Rightarrow> s \<le> v \<and> v \<le> e \<and> P v \<and> (\<forall>x. s \<le> x \<and> x < v \<longrightarrow> \<not> P x))"

lemma bm_frame_refl [simp]: "bm_frame bm bm"
  by (simp add: bm_frame_def)

lemma bm_frame_update [simp]: "bm_frame bm (bm\<lparr>bm_private := p\<rparr>)"
  by (simp add: bm_frame_def)

lemma bm_frameD:
  assumes "bm_frame bm bm'"
  shows "bm_magic bm' = bm_magic bm" "bm_start bm' = bm_start bm" "bm_end bm' = bm_end bm"
    "bm_real_end bm' = bm_real_end bm" "bm_cluster_bits bm' = bm_cluster_bits bm"
    "bm_description bm' = bm_description bm" "bm_base_error_code bm' = bm_base_error_code bm"
    "bm_range bm' = bm_range bm"
  using assms by (metis bm_frame_def bm_range_def bitmap64.ext_inject bitmap64.surjective
      bitmap64.update_convs)+

locale bitmap_backend =
  fixes ops :: "'p bitmap_ops"
    and inv :: "'p bitmap64 \<Rightarrow> bool"
    and bits :: "'p bitmap64 \<Rightarrow> u64 set"
  assumes inv_range: "inv bm \<Longrightarrow> bm_start bm \<le> bm_end bm \<and> bm_end bm \<le> bm_real_end bm"
    and test_law: "inv bm \<Longrightarrow> bm_start bm \<le> k \<Longrightarrow> k \<le> bm_real_end bm \<Longrightarrow>
      \<exists>r. test_bmap ops bm k = Some r \<and> (r \<noteq> 0 \<longleftrightarrow> k \<in> bits bm)"
    and mark_law: "inv bm \<Longrightarrow> bm_start bm \<le> k \<Longrightarrow> k \<le> bm_real_end bm \<Longrightarrow>
      \<exists>r bm'. mark_bmap ops bm k = Some (r, bm') \<and> (r \<noteq> 0 \<longleftrightarrow> k \<in> bits bm)
        \<and> inv bm' \<and> bm_frame bm bm' \<and> bits bm' = insert k (bits bm)"
    and unmark_law: "inv bm \<Longrightarrow> bm_start bm \<le> k \<Longrightarrow> k \<le> bm_real_end bm \<Longrightarrow>
      \<exists>r bm'. unmark_bmap ops bm k = Some (r, bm') \<and> (r \<noteq> 0 \<longleftrightarrow> k \<in> bits bm)
        \<and> inv bm' \<and> bm_frame bm bm' \<and> bits bm' = bits bm - {k}"
    and mark_extent_law: "inv bm \<Longrightarrow> bm_start bm \<le> k \<Longrightarrow>
      unat k + unat n \<le> Suc (unat (bm_real_end bm)) \<Longrightarrow>
      \<exists>bm'. mark_bmap_extent ops bm k n = Some bm' \<and> inv bm' \<and> bm_frame bm bm'
        \<and> bits bm' = bits bm \<union> {x. unat k \<le> unat x \<and> unat x < unat k + unat n}"
    and unmark_extent_law: "inv bm \<Longrightarrow> bm_start bm \<le> k \<Longrightarrow>
      unat k + unat n \<le> Suc (unat (bm_real_end bm)) \<Longrightarrow>
      \<exists>bm'. unmark_bmap_extent ops bm k n = Some bm' \<and> inv bm' \<and> bm_frame bm bm'
        \<and> bits bm' = bits bm - {x. unat k \<le> unat x \<and> unat x < unat k + unat n}"
    and test_clear_law: "inv bm \<Longrightarrow> bm_start bm \<le> k \<Longrightarrow>
      unat k + unat n \<le> Suc (unat (bm_real_end bm)) \<Longrightarrow>
      \<exists>r. test_clear_bmap_extent ops bm k n = Some r
        \<and> (r \<noteq> 0 \<longleftrightarrow> (\<forall>x. unat k \<le> unat x \<and> unat x < unat k + unat n \<longrightarrow> x \<notin> bits bm))"
    and clear_law: "inv bm \<Longrightarrow> inv (clear_bmap ops bm) \<and> bm_frame bm (clear_bmap ops bm)
      \<and> bits (clear_bmap ops bm) = {}"

text \<open>A back end whose searches, where it has them, find the least bit of the wanted value.\<close>

locale bitmap_search = bitmap_backend ops inv bits
  for ops :: "'p bitmap_ops" and inv :: "'p bitmap64 \<Rightarrow> bool" and bits :: "'p bitmap64 \<Rightarrow> u64 set" +
  assumes find_zero_law: "inv bm \<Longrightarrow> bm_start bm \<le> s \<Longrightarrow> s \<le> e \<Longrightarrow> e \<le> bm_real_end bm \<Longrightarrow>
      find_first_zero ops = Some f \<Longrightarrow> \<exists>r. f bm s e = Some r \<and> is_first (\<lambda>x. x \<notin> bits bm) s e r"
    and find_set_law: "inv bm \<Longrightarrow> bm_start bm \<le> s \<Longrightarrow> s \<le> e \<Longrightarrow> e \<le> bm_real_end bm \<Longrightarrow>
      find_first_set ops = Some f \<Longrightarrow> \<exists>r. f bm s e = Some r \<and> is_first (\<lambda>x. x \<in> bits bm) s e r"

end
