(* ===== verification/Bitarray.thy ===== *)
theory Bitarray
  imports Bmap64
begin

unbundle bit_operations_syntax

text \<open>
  The bit array back end of \<^verbatim>\<open>lib/ext2fs/blkmap64_ba.c\<close>: the private data is one flat byte array with
  one bit for every number from \<open>bm_start\<close> to \<open>bm_real_end\<close>. The searches work bit by bit up to a byte
  boundary, byte by byte up to an address that is a multiple of 8, then by 64-bit words, so their
  course depends on the address \<open>base\<close> of the array, which is arbitrary.
\<close>

subsection \<open>Allocation, copying, resizing\<close>

text \<open>The size in bytes, \<^verbatim>\<open>((real_end - start) / 8) + 1\<close>.\<close>

definition ba_size :: "'p bitmap64 \<Rightarrow> nat" where
  "ba_size bm = unat ((bm_real_end bm - bm_start bm) div 8 + 1)"

definition ba_alloc_private_data ::
    "bool \<Rightarrow> bool \<Rightarrow> (nat \<Rightarrow> u8) \<Rightarrow> u8 list bitmap64 \<Rightarrow> (errcode \<times> u8 list bitmap64) ub" where
  "ba_alloc_private_data ok1 ok2 junk bitmap =
     (if \<not> ok1 \<or> \<not> ok2 then Some (EXT2_ET_NO_MEMORY, bitmap)
      else Some (E_OK, bitmap\<lparr>bm_private := map junk [0..<ba_size bitmap]\<rparr>))"

definition ba_new_bmap ::
    "bool \<Rightarrow> bool \<Rightarrow> (nat \<Rightarrow> u8) \<Rightarrow> u8 list bitmap64 \<Rightarrow> (errcode \<times> u8 list bitmap64) ub" where
  "ba_new_bmap ok1 ok2 junk bitmap = do {
     (retval, bitmap) \<leftarrow> ba_alloc_private_data ok1 ok2 junk bitmap;
     if retval \<noteq> E_OK then Some (retval, bitmap)
     else Some (E_OK, bitmap\<lparr>bm_private := replicate (ba_size bitmap) 0\<rparr>)
   }"

definition ba_copy_bmap ::
    "bool \<Rightarrow> bool \<Rightarrow> (nat \<Rightarrow> u8) \<Rightarrow> u8 list bitmap64 \<Rightarrow> u8 list bitmap64
      \<Rightarrow> (errcode \<times> u8 list bitmap64) ub" where
  "ba_copy_bmap ok1 ok2 junk src dest = do {
     (retval, dest) \<leftarrow> ba_alloc_private_data ok1 ok2 junk dest;
     if retval \<noteq> E_OK then Some (retval, dest)
     else if ba_size src \<le> length (bm_private src) \<and> ba_size src \<le> length (bm_private dest)
     then Some (E_OK, dest\<lparr>bm_private := take (ba_size src) (bm_private src)
                                   @ drop (ba_size src) (bm_private dest)\<rparr>)
     else None
   }"

text \<open>The loop \<^verbatim>\<open>for (; bitno > bmap->end; bitno--)\<close> that clears the bits above the old end.\<close>

function ba_clear_down :: "u64 \<Rightarrow> u64 \<Rightarrow> u64 \<Rightarrow> u8 list \<Rightarrow> u8 list ub" where
  "ba_clear_down start end bitno addr =
     (if bitno > end then do {
        (_, addr') \<leftarrow> ext2fs_clear_bit64 (bitno - start) addr;
        ba_clear_down start end (bitno - 1) addr'
      } else Some addr)"
  by pat_completeness auto
termination
proof (relation "measure (\<lambda>(start, end, bitno, addr). unat bitno)", goal_cases)
  case (2 start "end" bitno addr p r addr')
  then have "bitno \<noteq> 0" by auto
  then show ?case by (simp add: measure_unat)
qed simp

definition ba_resize_bmap ::
    "bool \<Rightarrow> (nat \<Rightarrow> u8) \<Rightarrow> u8 list bitmap64 \<Rightarrow> u64 \<Rightarrow> u64 \<Rightarrow> (errcode \<times> u8 list bitmap64) ub" where
  "ba_resize_bmap ok junk bmap new_end new_real_end = do {
     arr \<leftarrow> (if new_end > bm_end bmap
             then ba_clear_down (bm_start bmap) (bm_end bmap)
                    (if bm_real_end bmap > new_end then new_end else bm_real_end bmap) (bm_private bmap)
             else Some (bm_private bmap));
     let bmap = bmap\<lparr>bm_private := arr\<rparr>;
     if new_real_end = bm_real_end bmap then Some (E_OK, bmap\<lparr>bm_end := new_end\<rparr>)
     else do {
       let size = ba_size bmap;
       let new_size = unat ((new_real_end - bm_start bmap) div 8 + 1);
       if size \<noteq> new_size \<and> \<not> ok then Some (EXT2_ET_NO_MEMORY, bmap)
       else do {
         let arr = (if size \<noteq> new_size then c_realloc junk (bm_private bmap) new_size
                    else bm_private bmap);
         let arr = (if new_size > size then take size arr @ replicate (new_size - size) 0 else arr);
         Some (E_OK, bmap\<lparr>bm_private := arr, bm_end := new_end, bm_real_end := new_real_end\<rparr>)
       }
     }
   }"

subsection \<open>Single bits and runs of bits\<close>

definition ba_mark_bmap :: "u8 list bitmap64 \<Rightarrow> u64 \<Rightarrow> (u32 \<times> u8 list bitmap64) ub" where
  "ba_mark_bmap bitmap bitno = do {
     (r, arr) \<leftarrow> ext2fs_set_bit64 (bitno - bm_start bitmap) (bm_private bitmap);
     Some (r, bitmap\<lparr>bm_private := arr\<rparr>)
   }"

definition ba_unmark_bmap :: "u8 list bitmap64 \<Rightarrow> u64 \<Rightarrow> (u32 \<times> u8 list bitmap64) ub" where
  "ba_unmark_bmap bitmap bitno = do {
     (r, arr) \<leftarrow> ext2fs_clear_bit64 (bitno - bm_start bitmap) (bm_private bitmap);
     Some (r, bitmap\<lparr>bm_private := arr\<rparr>)
   }"

definition ba_test_bmap :: "u8 list bitmap64 \<Rightarrow> u64 \<Rightarrow> u32 ub" where
  "ba_test_bmap bitmap bitno = ext2fs_test_bit64 (bitno - bm_start bitmap) (bm_private bitmap)"

text \<open>The loops of the two extent operations, \<^verbatim>\<open>for (i = 0; i < num; i++)\<close> on 32-bit counters.\<close>

function ba_mark_loop :: "u64 \<Rightarrow> u32 \<Rightarrow> u32 \<Rightarrow> u8 list \<Rightarrow> u8 list ub" where
  "ba_mark_loop pos num i addr =
     (if i < num then do {
        addr' \<leftarrow> ext2fs_fast_set_bit64 (pos + ucast i) addr;
        ba_mark_loop pos num (i + 1) addr'
      } else Some addr)"
  by pat_completeness auto
termination
  by (relation "measure (\<lambda>(pos, num, i, addr). unat num - unat i)")
    (auto simp: unat_inc word_less_nat_alt diff_less_mono2)

function ba_unmark_loop :: "u64 \<Rightarrow> u32 \<Rightarrow> u32 \<Rightarrow> u8 list \<Rightarrow> u8 list ub" where
  "ba_unmark_loop pos num i addr =
     (if i < num then do {
        addr' \<leftarrow> ext2fs_fast_clear_bit64 (pos + ucast i) addr;
        ba_unmark_loop pos num (i + 1) addr'
      } else Some addr)"
  by pat_completeness auto
termination
  by (relation "measure (\<lambda>(pos, num, i, addr). unat num - unat i)")
    (auto simp: unat_inc word_less_nat_alt diff_less_mono2)

definition ba_mark_bmap_extent :: "u8 list bitmap64 \<Rightarrow> u64 \<Rightarrow> u32 \<Rightarrow> u8 list bitmap64 ub" where
  "ba_mark_bmap_extent bitmap bitno num = do {
     arr \<leftarrow> ba_mark_loop (bitno - bm_start bitmap) num 0 (bm_private bitmap);
     Some (bitmap\<lparr>bm_private := arr\<rparr>)
   }"

definition ba_unmark_bmap_extent :: "u8 list bitmap64 \<Rightarrow> u64 \<Rightarrow> u32 \<Rightarrow> u8 list bitmap64 ub" where
  "ba_unmark_bmap_extent bitmap bitno num = do {
     arr \<leftarrow> ba_unmark_loop (bitno - bm_start bitmap) num 0 (bm_private bitmap);
     Some (bitmap\<lparr>bm_private := arr\<rparr>)
   }"

subsection \<open>Testing a run of bits\<close>

text \<open>The body of \<^verbatim>\<open>ba_test_clear_bmap_extent\<close> is the code of the 32-bit bitmaps, \<open>test_clear_run\<close>.\<close>

definition ba_test_clear_bmap_extent :: "u8 list bitmap64 \<Rightarrow> u64 \<Rightarrow> u32 \<Rightarrow> u32 ub" where
  "ba_test_clear_bmap_extent bitmap start len =
     test_clear_run (bm_private bitmap) (unat (start - bm_start bitmap)) (unat len)"

subsection \<open>Byte ranges\<close>

text \<open>
  The byte offset is \<^verbatim>\<open>start >> 3\<close>: the start of the bitmap is not subtracted.
\<close>

definition ba_set_bmap_range ::
    "u8 list bitmap64 \<Rightarrow> u64 \<Rightarrow> nat \<Rightarrow> u8 list \<Rightarrow> (errcode \<times> u8 list bitmap64) ub" where
  "ba_set_bmap_range bitmap start num inb =
     (let off = unat (drop_bit 3 start); n = (num + 7) div 8; arr = bm_private bitmap
      in if n \<le> length inb \<and> off + n \<le> length arr
         then Some (E_OK, bitmap\<lparr>bm_private := take off arr @ take n inb @ drop (off + n) arr\<rparr>)
         else None)"

definition ba_get_bmap_range ::
    "u8 list bitmap64 \<Rightarrow> u64 \<Rightarrow> nat \<Rightarrow> u8 list \<Rightarrow> (errcode \<times> u8 list) ub" where
  "ba_get_bmap_range bitmap start num outb =
     (let off = unat (drop_bit 3 start); n = (num + 7) div 8; arr = bm_private bitmap
      in if n \<le> length outb \<and> off + n \<le> length arr
         then Some (E_OK, take n (drop off arr) @ drop n outb)
         else None)"

definition ba_clear_bmap :: "u8 list bitmap64 \<Rightarrow> u8 list bitmap64" where
  "ba_clear_bmap bitmap = bitmap\<lparr>bm_private := replicate (ba_size bitmap) 0\<rparr>"

subsection \<open>Searching\<close>

text \<open>
  \<^verbatim>\<open>ba_find_first_zero\<close> and \<^verbatim>\<open>ba_find_first_set\<close> are the same code but for the bit value they look
  for, \<open>want\<close>, and the byte they skip, 0xff or 0. The counters \<^verbatim>\<open>bitpos\<close> and \<^verbatim>\<open>count\<close> always add up to
  the position after the end of the search, so they do not wrap around.
\<close>

definition skip_byte :: "bool \<Rightarrow> u8" where
  "skip_byte want = (if want then 0 else 0xff)"

text \<open>Scan bits until a byte boundary: \<open>Inl\<close> a hit, or \<open>Inr\<close> the new position and count.\<close>

function ba_scan_head :: "bool \<Rightarrow> u8 list \<Rightarrow> nat \<Rightarrow> nat \<Rightarrow> (nat + nat \<times> nat) ub" where
  "ba_scan_head want addr bitpos count =
     (if bitpos mod 8 \<noteq> 0 \<and> count > 0 then do {
        t \<leftarrow> ext2fs_test_bit64 (of_nat bitpos) addr;
        if (t \<noteq> 0) = want then Some (Inl bitpos)
        else ba_scan_head want addr (bitpos + 1) (count - 1)
      } else Some (Inr (bitpos, count)))"
  by pat_completeness auto
termination
  by (relation "measure (\<lambda>(want, addr, bitpos, count). count)") auto

text \<open>Scan bytes until the address is a multiple of 8; the flag is \<^verbatim>\<open>byte_found\<close>.\<close>

function ba_scan_align :: "bool \<Rightarrow> nat \<Rightarrow> u8 list \<Rightarrow> nat \<Rightarrow> nat \<Rightarrow> (bool \<times> nat \<times> nat) ub" where
  "ba_scan_align want base addr bitpos count =
     (if count \<ge> 8 \<and> (base + bitpos div 8) mod 8 \<noteq> 0 then do {
        b \<leftarrow> c_load addr (bitpos div 8);
        if b \<noteq> skip_byte want then Some (True, bitpos, count)
        else ba_scan_align want base addr (bitpos + 8) (count - 8)
      } else Some (False, bitpos, count))"
  by pat_completeness auto
termination
  by (relation "measure (\<lambda>(want, base, addr, bitpos, count). count)") auto

text \<open>
  Skip 64-bit words (all ones or all zeros), at most \<open>i\<close> of them; the result is the number of words
  left. The comparison of a word is a comparison of its eight bytes, in either byte order.
\<close>

fun ba_skip_words :: "bool \<Rightarrow> u8 list \<Rightarrow> nat \<Rightarrow> nat \<Rightarrow> nat ub" where
  "ba_skip_words want addr p 0 = Some 0"
| "ba_skip_words want addr p (Suc i) =
     (if p + 8 \<le> length addr then
        if take 8 (drop p addr) \<noteq> replicate 8 (skip_byte want) then Some (Suc i)
        else ba_skip_words want addr (p + 8) i
      else None)"

text \<open>Skip single bytes, at most \<open>i\<close> of them.\<close>

fun ba_skip_bytes :: "bool \<Rightarrow> u8 list \<Rightarrow> nat \<Rightarrow> nat \<Rightarrow> nat ub" where
  "ba_skip_bytes want addr p 0 = Some 0"
| "ba_skip_bytes want addr p (Suc i) = do {
     b \<leftarrow> c_load addr p;
     if b \<noteq> skip_byte want then Some (Suc i)
     else ba_skip_bytes want addr (p + 1) i
   }"

text \<open>The final loop \<^verbatim>\<open>while (count-- > 0)\<close>.\<close>

fun ba_scan_tail :: "bool \<Rightarrow> u8 list \<Rightarrow> nat \<Rightarrow> nat \<Rightarrow> nat option ub" where
  "ba_scan_tail want addr bitpos 0 = Some None"
| "ba_scan_tail want addr bitpos (Suc count) = do {
     t \<leftarrow> ext2fs_test_bit64 (of_nat bitpos) addr;
     if (t \<noteq> 0) = want then Some (Some bitpos)
     else ba_scan_tail want addr (bitpos + 1) count
   }"

text \<open>The middle part: words and bytes, when the alignment scan has found nothing.\<close>

definition ba_scan_middle :: "bool \<Rightarrow> u8 list \<Rightarrow> nat \<Rightarrow> nat \<Rightarrow> (nat \<times> nat) ub" where
  "ba_scan_middle want addr bitpos count = do {
     let max_loop_count = count div 64;
     i \<leftarrow> ba_skip_words want addr (bitpos div 8) max_loop_count;
     let pos = bitpos div 8 + 8 * (max_loop_count - i);
     let count = count - 64 * (max_loop_count - i);
     let bitpos = bitpos + 64 * (max_loop_count - i);
     let max_loop_count = count div 8;
     i \<leftarrow> ba_skip_bytes want addr pos max_loop_count;
     Some (bitpos + 8 * (max_loop_count - i), count - 8 * (max_loop_count - i))
   }"

definition ba_find_first :: "bool \<Rightarrow> nat \<Rightarrow> u8 list bitmap64 \<Rightarrow> u64 \<Rightarrow> u64 \<Rightarrow> (errcode + u64) ub" where
  "ba_find_first want base bitmap start end = do {
     let addr = bm_private bitmap;
     h \<leftarrow> ba_scan_head want addr (unat (start - bm_start bitmap)) (unat (end - start + 1));
     case h of
       Inl hit \<Rightarrow> Some (Inr (of_nat hit + bm_start bitmap))
     | Inr (bitpos, count) \<Rightarrow>
         if count = 0 then Some (Inl ENOENT)
         else do {
           (byte_found, bitpos, count) \<leftarrow> ba_scan_align want base addr bitpos count;
           (bitpos, count) \<leftarrow> (if byte_found then Some (bitpos, count)
                               else ba_scan_middle want addr bitpos count);
           t \<leftarrow> ba_scan_tail want addr bitpos count;
           Some (case t of None \<Rightarrow> Inl ENOENT | Some hit \<Rightarrow> Inr (of_nat hit + bm_start bitmap))
         }
   }"

definition ba_find_first_zero :: "nat \<Rightarrow> u8 list bitmap64 \<Rightarrow> u64 \<Rightarrow> u64 \<Rightarrow> (errcode + u64) ub" where
  "ba_find_first_zero = ba_find_first False"

definition ba_find_first_set :: "nat \<Rightarrow> u8 list bitmap64 \<Rightarrow> u64 \<Rightarrow> u64 \<Rightarrow> (errcode + u64) ub" where
  "ba_find_first_set = ba_find_first True"

subsection \<open>The table of operations\<close>

definition ext2fs_blkmap64_bitarray ::
    "bool \<Rightarrow> bool \<Rightarrow> (nat \<Rightarrow> u8) \<Rightarrow> nat \<Rightarrow> u8 list bitmap_ops" where
  "ext2fs_blkmap64_bitarray ok1 ok2 junk base = \<lparr>
     new_bmap = ba_new_bmap ok1 ok2 junk,
     copy_bmap = ba_copy_bmap ok1 ok2 junk,
     resize_bmap = ba_resize_bmap ok1 junk,
     mark_bmap = ba_mark_bmap,
     unmark_bmap = ba_unmark_bmap,
     test_bmap = ba_test_bmap,
     mark_bmap_extent = ba_mark_bmap_extent,
     unmark_bmap_extent = ba_unmark_bmap_extent,
     test_clear_bmap_extent = ba_test_clear_bmap_extent,
     set_bmap_range = ba_set_bmap_range,
     get_bmap_range = ba_get_bmap_range,
     clear_bmap = ba_clear_bmap,
     find_first_zero = Some (ba_find_first_zero base),
     find_first_set = Some (ba_find_first_set base)
   \<rparr>"

subsection \<open>The invariant and the set of marked numbers\<close>

text \<open>
  The number of bits, \<^verbatim>\<open>real_end - start + 1\<close>, fits into 64 bits: the code computes such differences
  when it searches, and an array of \<open>2 ^ 61\<close> bytes cannot be allocated.
\<close>

definition ba_ok :: "u8 list bitmap64 \<Rightarrow> bool" where
  "ba_ok bm \<longleftrightarrow> bm_start bm \<le> bm_end bm \<and> bm_end bm \<le> bm_real_end bm
     \<and> unat (bm_real_end bm) - unat (bm_start bm) < 0xffffffffffffffff
     \<and> length (bm_private bm) = ba_size bm"

definition ba_bits :: "u8 list bitmap64 \<Rightarrow> u64 set" where
  "ba_bits bm = {k. bm_start bm \<le> k \<and> k \<le> bm_real_end bm
     \<and> bit_at (bm_private bm) (unat k - unat (bm_start bm))}"

lemma ba_size_eq:
  assumes "bm_start bm \<le> bm_real_end bm"
  shows "ba_size bm = (unat (bm_real_end bm) - unat (bm_start bm)) div 8 + 1"
proof -
  let ?d = "bm_real_end bm - bm_start bm"
  have "unat (?d div 8) = unat ?d div 8" by (simp add: unat_div)
  moreover have "unat ?d div 8 + 1 < 18446744073709551616" using unat_u64_less [of ?d] by linarith
  ultimately have "unat (?d div 8 + 1) = unat ?d div 8 + 1"
    by (simp add: unat_word_ariths)
  with assms show ?thesis by (simp add: ba_size_def unat_diff_le)
qed

text \<open>Every number of the bitmap has its bit inside the array.\<close>

lemma ba_inside:
  assumes "ba_ok bm" "bm_start bm \<le> k" "k \<le> bm_real_end bm"
  shows "unat (k - bm_start bm) = unat k - unat (bm_start bm)"
    "unat k - unat (bm_start bm) < 8 * length (bm_private bm)"
proof -
  from assms have se: "bm_start bm \<le> bm_real_end bm" by simp
  show "unat (k - bm_start bm) = unat k - unat (bm_start bm)"
    using assms by (simp add: unat_diff_le)
  have "unat k - unat (bm_start bm) \<le> unat (bm_real_end bm) - unat (bm_start bm)"
    using assms by (simp add: word_le_nat_alt diff_le_mono)
  then show "unat k - unat (bm_start bm) < 8 * length (bm_private bm)"
    using assms(1) ba_size_eq [OF se] by (simp add: ba_ok_def)
qed

lemma ba_offset_inj:
  assumes "bm_start bm \<le> x" "bm_start bm \<le> k"
  shows "unat x - unat (bm_start bm) = unat k - unat (bm_start bm) \<longleftrightarrow> x = k"
  using assms by (auto simp: word_le_nat_alt eq_diff_iff word_unat_eq_iff)

lemma ba_ok_update [simp]:
  "length arr = length (bm_private bm) \<Longrightarrow> ba_ok (bm\<lparr>bm_private := arr\<rparr>) = ba_ok bm"
  by (simp add: ba_ok_def ba_size_def)

lemma ba_mark_bmap_eq:
  assumes "ba_ok bm" "bm_start bm \<le> k" "k \<le> bm_real_end bm"
  defines "n \<equiv> unat k - unat (bm_start bm)"
  shows "ba_mark_bmap bm k = Some (bit_val (bm_private bm) n,
           bm\<lparr>bm_private := set_bit_list (bm_private bm) n\<rparr>)"
    "ba_bits (bm\<lparr>bm_private := set_bit_list (bm_private bm) n\<rparr>) = insert k (ba_bits bm)"
  using ba_inside [OF assms(1-3)] assms ba_offset_inj [of bm _ k]
  by (auto simp: ba_mark_bmap_def ext2fs_set_bit64_eq ba_bits_def)

lemma ba_unmark_bmap_eq:
  assumes "ba_ok bm" "bm_start bm \<le> k" "k \<le> bm_real_end bm"
  defines "n \<equiv> unat k - unat (bm_start bm)"
  shows "ba_unmark_bmap bm k = Some (bit_val (bm_private bm) n,
           bm\<lparr>bm_private := clear_bit_list (bm_private bm) n\<rparr>)"
    "ba_bits (bm\<lparr>bm_private := clear_bit_list (bm_private bm) n\<rparr>) = ba_bits bm - {k}"
  using ba_inside [OF assms(1-3)] assms ba_offset_inj [of bm _ k]
  by (auto simp: ba_unmark_bmap_def ext2fs_clear_bit64_eq ba_bits_def)

lemma ba_test_bmap_eq:
  assumes "ba_ok bm" "bm_start bm \<le> k" "k \<le> bm_real_end bm"
  shows "ba_test_bmap bm k = Some (bit_val (bm_private bm) (unat k - unat (bm_start bm)))"
  using ba_inside [OF assms] by (simp add: ba_test_bmap_def ext2fs_test_bit64_eq)

lemma ba_bits_iff:
  assumes "bm_start bm \<le> k" "k \<le> bm_real_end bm"
  shows "k \<in> ba_bits bm \<longleftrightarrow> bit_at (bm_private bm) (unat k - unat (bm_start bm))"
  using assms by (simp add: ba_bits_def)

subsection \<open>Runs of bits\<close>

declare ba_mark_loop.simps [simp del] ba_unmark_loop.simps [simp del] ba_clear_down.simps [simp del]
  ba_scan_head.simps [simp del] ba_scan_align.simps [simp del]

lemma unat_pos_plus:
  assumes "unat (pos :: u64) + unat (num :: u32) \<le> 18446744073709551616" "(i :: u32) < num"
  shows "unat (pos + ucast i) = unat pos + unat i"
proof -
  have "unat pos + unat i < 18446744073709551616"
    using assms by (simp add: word_less_nat_alt)
  then show ?thesis by (simp add: unat_word_ariths)
qed

lemma ba_mark_loop_correct:
  assumes "unat pos + unat num \<le> 8 * length addr" "unat pos + unat num \<le> 18446744073709551616" "i \<le> num"
  shows "\<exists>addr'. ba_mark_loop pos num i addr = Some addr' \<and> length addr' = length addr
    \<and> (\<forall>k. bit_at addr' k \<longleftrightarrow> bit_at addr k \<or> unat pos + unat i \<le> k \<and> k < unat pos + unat num)"
  using assms
proof (induction pos num i addr rule: ba_mark_loop.induct)
  case (1 pos num i addr)
  show ?case
  proof (cases "i < num")
    case False
    with "1.prems" have "i = num" by simp
    then show ?thesis by (subst ba_mark_loop.simps) auto
  next
    case True
    note u = unat_pos_plus [OF "1.prems"(2) True]
    let ?n = "unat pos + unat i"
    have n: "?n < 8 * length addr" using True "1.prems" by (simp add: word_less_nat_alt)
    have st: "ext2fs_fast_set_bit64 (pos + ucast i) addr = Some (set_bit_list addr ?n)"
      using n u by (simp add: ext2fs_fast_set_bit64_eq)
    have le: "i + 1 \<le> num" using True by (simp add: word_le_nat_alt unat_inc Suc_le_eq word_less_nat_alt)
    from "1.IH" [OF True st] "1.prems" le obtain addr' where
      a: "ba_mark_loop pos num (i + 1) (set_bit_list addr ?n) = Some addr'" "length addr' = length addr"
      "\<And>k. bit_at addr' k \<longleftrightarrow> bit_at (set_bit_list addr ?n) k \<or> unat pos + Suc (unat i) \<le> k \<and> k < unat pos + unat num"
      using unat_inc [OF True] by auto
    have "bit_at addr' k \<longleftrightarrow> bit_at addr k \<or> ?n \<le> k \<and> k < unat pos + unat num" for k
      using a(3) [of k] n True by (auto simp: word_less_nat_alt)
    with a(1,2) True st show ?thesis by (subst ba_mark_loop.simps) simp
  qed
qed

lemma ba_unmark_loop_correct:
  assumes "unat pos + unat num \<le> 8 * length addr" "unat pos + unat num \<le> 18446744073709551616" "i \<le> num"
  shows "\<exists>addr'. ba_unmark_loop pos num i addr = Some addr' \<and> length addr' = length addr
    \<and> (\<forall>k. bit_at addr' k \<longleftrightarrow> bit_at addr k \<and> \<not> (unat pos + unat i \<le> k \<and> k < unat pos + unat num))"
  using assms
proof (induction pos num i addr rule: ba_unmark_loop.induct)
  case (1 pos num i addr)
  show ?case
  proof (cases "i < num")
    case False
    with "1.prems" have "i = num" by simp
    then show ?thesis by (subst ba_unmark_loop.simps) auto
  next
    case True
    note u = unat_pos_plus [OF "1.prems"(2) True]
    let ?n = "unat pos + unat i"
    have n: "?n < 8 * length addr" using True "1.prems" by (simp add: word_less_nat_alt)
    have st: "ext2fs_fast_clear_bit64 (pos + ucast i) addr = Some (clear_bit_list addr ?n)"
      using n u by (simp add: ext2fs_fast_clear_bit64_eq)
    have le: "i + 1 \<le> num" using True by (simp add: word_le_nat_alt unat_inc Suc_le_eq word_less_nat_alt)
    from "1.IH" [OF True st] "1.prems" le obtain addr' where
      a: "ba_unmark_loop pos num (i + 1) (clear_bit_list addr ?n) = Some addr'" "length addr' = length addr"
      "\<And>k. bit_at addr' k \<longleftrightarrow>
        bit_at (clear_bit_list addr ?n) k \<and> \<not> (unat pos + Suc (unat i) \<le> k \<and> k < unat pos + unat num)"
      using unat_inc [OF True] by auto
    have "bit_at addr' k \<longleftrightarrow> bit_at addr k \<and> \<not> (?n \<le> k \<and> k < unat pos + unat num)" for k
      using a(3) [of k] n True by (auto simp: word_less_nat_alt)
    with a(1,2) True st show ?thesis by (subst ba_unmark_loop.simps) simp
  qed
qed
text \<open>The bits a run of \<open>num\<close> numbers from \<open>k\<close> occupies, and the frame of an update of the array.\<close>

lemma ba_run_inside:
  assumes "ba_ok bm" "bm_start bm \<le> k" "unat k + unat (n :: u32) \<le> Suc (unat (bm_real_end bm))"
  shows "unat (k - bm_start bm) = unat k - unat (bm_start bm)"
    "unat (k - bm_start bm) + unat n \<le> 8 * length (bm_private bm)"
    "unat (k - bm_start bm) + unat n \<le> 18446744073709551616"
proof -
  show 1: "unat (k - bm_start bm) = unat k - unat (bm_start bm)"
    using assms by (simp add: unat_diff_le)
  have le: "bm_start bm \<le> bm_real_end bm" using assms(1) by (auto simp: ba_ok_def)
  have "unat (bm_start bm) \<le> unat k" using assms(2) by (simp add: word_le_nat_alt)
  then have "unat k - unat (bm_start bm) + unat n \<le> Suc (unat (bm_real_end bm) - unat (bm_start bm))"
    using assms(3) le by (simp add: word_le_nat_alt)
  with 1 show 2: "unat (k - bm_start bm) + unat n \<le> 8 * length (bm_private bm)"
    using assms(1) ba_size_eq [OF le] by (simp add: ba_ok_def)
  show "unat (k - bm_start bm) + unat n \<le> 18446744073709551616"
    using 1 assms(3) unat_u64_less [of "bm_real_end bm"] by linarith
qed

lemma ba_run_iff:
  assumes "bm_start bm \<le> k" "unat k + unat (n :: u32) \<le> Suc (unat (bm_real_end bm))"
  shows "unat k \<le> unat x \<and> unat x < unat k + unat n \<longleftrightarrow>
    bm_start bm \<le> x \<and> x \<le> bm_real_end bm
    \<and> unat k - unat (bm_start bm) \<le> unat x - unat (bm_start bm)
    \<and> unat x - unat (bm_start bm) < unat k - unat (bm_start bm) + unat n"
  using assms unfolding word_le_nat_alt by linarith

lemma ba_mark_bmap_extent_eq:
  assumes "ba_ok bm" "bm_start bm \<le> k" "unat k + unat n \<le> Suc (unat (bm_real_end bm))"
  shows "\<exists>bm'. ba_mark_bmap_extent bm k n = Some bm' \<and> ba_ok bm' \<and> bm_frame bm bm'
    \<and> ba_bits bm' = ba_bits bm \<union> {x. unat k \<le> unat x \<and> unat x < unat k + unat n}"
proof -
  note r = ba_run_inside [OF assms]
  from ba_mark_loop_correct [OF r(2,3), of 0] obtain arr where
    a: "ba_mark_loop (k - bm_start bm) n 0 (bm_private bm) = Some arr" "length arr = length (bm_private bm)"
    "\<And>j. bit_at arr j \<longleftrightarrow> bit_at (bm_private bm) j
       \<or> unat (k - bm_start bm) \<le> j \<and> j < unat (k - bm_start bm) + unat n"
    by auto
  have "ba_bits (bm\<lparr>bm_private := arr\<rparr>) = ba_bits bm \<union> {x. unat k \<le> unat x \<and> unat x < unat k + unat n}"
    unfolding ba_run_iff [OF assms(2,3)] using a(3) r(1) by (auto simp: ba_bits_def)
  with a assms(1) show ?thesis by (simp add: ba_mark_bmap_extent_def)
qed

lemma ba_unmark_bmap_extent_eq:
  assumes "ba_ok bm" "bm_start bm \<le> k" "unat k + unat n \<le> Suc (unat (bm_real_end bm))"
  shows "\<exists>bm'. ba_unmark_bmap_extent bm k n = Some bm' \<and> ba_ok bm' \<and> bm_frame bm bm'
    \<and> ba_bits bm' = ba_bits bm - {x. unat k \<le> unat x \<and> unat x < unat k + unat n}"
proof -
  note r = ba_run_inside [OF assms]
  from ba_unmark_loop_correct [OF r(2,3), of 0] obtain arr where
    a: "ba_unmark_loop (k - bm_start bm) n 0 (bm_private bm) = Some arr" "length arr = length (bm_private bm)"
    "\<And>j. bit_at arr j \<longleftrightarrow> bit_at (bm_private bm) j
       \<and> \<not> (unat (k - bm_start bm) \<le> j \<and> j < unat (k - bm_start bm) + unat n)"
    by auto
  have "ba_bits (bm\<lparr>bm_private := arr\<rparr>) = ba_bits bm - {x. unat k \<le> unat x \<and> unat x < unat k + unat n}"
    unfolding ba_run_iff [OF assms(2,3)] using a(3) r(1) by (auto simp: ba_bits_def)
  with a assms(1) show ?thesis by (simp add: ba_unmark_bmap_extent_def)
qed

lemma ba_test_clear_bmap_extent_eq:
  assumes "ba_ok bm" "bm_start bm \<le> k" "unat k + unat n \<le> Suc (unat (bm_real_end bm))"
  shows "\<exists>r. ba_test_clear_bmap_extent bm k n = Some r
    \<and> (r \<noteq> 0 \<longleftrightarrow> (\<forall>x. unat k \<le> unat x \<and> unat x < unat k + unat n \<longrightarrow> x \<notin> ba_bits bm))"
proof -
  note r = ba_run_inside [OF assms]
  have "(\<forall>j. unat (k - bm_start bm) \<le> j \<and> j < unat (k - bm_start bm) + unat n \<longrightarrow> \<not> bit_at (bm_private bm) j)
      \<longleftrightarrow> (\<forall>x. unat k \<le> unat x \<and> unat x < unat k + unat n \<longrightarrow> x \<notin> ba_bits bm)" (is "?a \<longleftrightarrow> ?b")
  proof
    assume ?a
    then show ?b unfolding ba_run_iff [OF assms(2,3)] r(1) by (auto simp: ba_bits_def)
  next
    assume b: ?b
    show ?a
    proof (intro allI impI)
      fix j assume j: "unat (k - bm_start bm) \<le> j \<and> j < unat (k - bm_start bm) + unat n"
      have kle: "unat (bm_start bm) \<le> unat k" using assms(2) by (simp add: word_le_nat_alt)
      have lt: "j + unat (bm_start bm) < 18446744073709551616"
        using j r(1) kle assms(3) unat_u64_less [of "bm_real_end bm"] by linarith
      have u: "unat (of_nat (j + unat (bm_start bm)) :: u64) = j + unat (bm_start bm)"
        by (rule unat_of_nat_u64 [OF lt])
      have "(of_nat (j + unat (bm_start bm)) :: u64) \<notin> ba_bits bm"
        by (rule b [rule_format]) (use u j r(1) kle in linarith)
      moreover have "bm_start bm \<le> of_nat (j + unat (bm_start bm))"
        "of_nat (j + unat (bm_start bm)) \<le> bm_real_end bm"
        unfolding word_le_nat_alt u using j r(1) kle assms(3) by linarith+
      ultimately show "\<not> bit_at (bm_private bm) j" by (simp add: ba_bits_iff u del: of_nat_add)
    qed
  qed
  with test_clear_run_eq [OF r(2)] show ?thesis by (simp add: ba_test_clear_bmap_extent_def)
qed

subsection \<open>Searching finds the least bit\<close>

text \<open>\<open>no_hit want addr a b\<close>: no bit from \<open>a\<close> up to but not including \<open>b\<close> has the wanted value.\<close>

definition no_hit :: "bool \<Rightarrow> u8 list \<Rightarrow> nat \<Rightarrow> nat \<Rightarrow> bool" where
  "no_hit want addr a b \<longleftrightarrow> (\<forall>j. a \<le> j \<and> j < b \<longrightarrow> bit_at addr j \<noteq> want)"

definition first_hit :: "bool \<Rightarrow> u8 list \<Rightarrow> nat \<Rightarrow> nat \<Rightarrow> nat \<Rightarrow> bool" where
  "first_hit want addr a b h \<longleftrightarrow> a \<le> h \<and> h < b \<and> bit_at addr h = want \<and> no_hit want addr a h"

lemma no_hit_empty [simp]: "no_hit want addr a a"
  by (auto simp: no_hit_def)

lemma no_hit_trans: "no_hit want addr a b \<Longrightarrow> no_hit want addr b c \<Longrightarrow> no_hit want addr a c"
  unfolding no_hit_def by (meson not_less)

lemma no_hit_one: "bit_at addr a \<noteq> want \<Longrightarrow> no_hit want addr a (a + 1)"
  unfolding no_hit_def by (metis Suc_eq_plus1 less_Suc_eq_le le_antisym)

lemma first_hit_extend:
  "no_hit want addr a b \<Longrightarrow> a \<le> b \<Longrightarrow> first_hit want addr b c h \<Longrightarrow> first_hit want addr a c h"
  unfolding first_hit_def using no_hit_trans by (metis le_trans)

lemma skip_byte_no_hit:
  assumes "i < length addr" "addr ! i = skip_byte want"
  shows "no_hit want addr (8 * i) (8 * i + 8)"
  unfolding no_hit_def
proof (intro allI impI)
  fix j assume j: "8 * i \<le> j \<and> j < 8 * i + 8"
  then have "j div 8 = i" by auto
  moreover have "bit (0xff :: u8) (j mod 8)"
  proof -
    have "(0xff :: u8) = mask 8" by (simp add: mask_eq_exp_minus_1)
    moreover have "bit (mask 8 :: u8) (j mod 8)" unfolding bit_mask_iff by simp
    ultimately show ?thesis by (simp only:)
  qed
  ultimately show "bit_at addr j \<noteq> want"
    using assms j by (auto simp: bit_at_def skip_byte_def)
qed

lemma ext2fs_test_bit64_of_nat:
  assumes "n < 8 * length addr" "n < 18446744073709551616"
  shows "ext2fs_test_bit64 (of_nat n) addr = Some (bit_val addr n)"
  using assms by (simp add: ext2fs_test_bit64_eq unat_of_nat_u64)

lemma ba_scan_head_correct:
  assumes "bitpos + count \<le> 8 * length addr" "bitpos + count < 18446744073709551616"
  shows "\<exists>r. ba_scan_head want addr bitpos count = Some r \<and>
    (case r of Inl h \<Rightarrow> first_hit want addr bitpos (bitpos + count) h
     | Inr (b, c) \<Rightarrow> bitpos \<le> b \<and> b + c = bitpos + count \<and> no_hit want addr bitpos b \<and> (c = 0 \<or> b mod 8 = 0))"
  using assms
proof (induction want addr bitpos count rule: ba_scan_head.induct)
  case (1 want addr bitpos count)
  show ?case
  proof (cases "bitpos mod 8 \<noteq> 0 \<and> count > 0")
    case False
    then show ?thesis by (subst ba_scan_head.simps) auto
  next
    case True
    have t: "ext2fs_test_bit64 (of_nat bitpos) addr = Some (bit_val addr bitpos)"
      using True "1.prems" by (intro ext2fs_test_bit64_of_nat) auto
    show ?thesis
    proof (cases "bit_at addr bitpos = want")
      case hit: True
      with True t show ?thesis by (subst ba_scan_head.simps) (simp add: first_hit_def)
    next
      case miss: False
      from True have s: "bitpos + 1 + (count - 1) = bitpos + count" by simp
      from "1.IH" [OF True t] "1.prems" miss obtain r where
        r: "ba_scan_head want addr (bitpos + 1) (count - 1) = Some r"
          "case r of Inl h \<Rightarrow> first_hit want addr (bitpos + 1) (bitpos + count) h
           | Inr (b, c) \<Rightarrow> bitpos + 1 \<le> b \<and> b + c = bitpos + count \<and> no_hit want addr (bitpos + 1) b
               \<and> (c = 0 \<or> b mod 8 = 0)"
        unfolding s by auto
      have "no_hit want addr bitpos (bitpos + 1)" using miss by (rule no_hit_one)
      then have "case r of Inl h \<Rightarrow> first_hit want addr bitpos (bitpos + count) h
           | Inr (b, c) \<Rightarrow> bitpos \<le> b \<and> b + c = bitpos + count \<and> no_hit want addr bitpos b
               \<and> (c = 0 \<or> b mod 8 = 0)"
        using r(2) by (auto split: sum.splits intro: first_hit_extend no_hit_trans)
      with r(1) True t miss show ?thesis by (subst ba_scan_head.simps) simp
    qed
  qed
qed

lemma ba_scan_align_correct:
  assumes "bitpos + count \<le> 8 * length addr" "bitpos mod 8 = 0"
  shows "\<exists>f b c. ba_scan_align want base addr bitpos count = Some (f, b, c) \<and> bitpos \<le> b
    \<and> b + c = bitpos + count \<and> b mod 8 = 0 \<and> no_hit want addr bitpos b"
  using assms
proof (induction want base addr bitpos count rule: ba_scan_align.induct)
  case (1 want base addr bitpos count)
  show ?case
  proof (cases "count \<ge> 8 \<and> (base + bitpos div 8) mod 8 \<noteq> 0")
    case False
    then show ?thesis using "1.prems" by (subst ba_scan_align.simps) auto
  next
    case True
    have i: "bitpos div 8 < length addr" using True "1.prems" by auto
    then have l: "c_load addr (bitpos div 8) = Some (addr ! (bitpos div 8))" by simp
    show ?thesis
    proof (cases "addr ! (bitpos div 8) = skip_byte want")
      case False
      with True l "1.prems" show ?thesis by (subst ba_scan_align.simps) auto
    next
      case skip: True
      have "8 * (bitpos div 8) = bitpos" using "1.prems" by auto
      with skip_byte_no_hit [OF i skip] have nh: "no_hit want addr bitpos (bitpos + 8)" by simp
      from "1.IH" [OF True l] skip "1.prems" True obtain f b c where
        a: "ba_scan_align want base addr (bitpos + 8) (count - 8) = Some (f, b, c)" "bitpos + 8 \<le> b"
        "b + c = bitpos + count" "b mod 8 = 0" "no_hit want addr (bitpos + 8) b"
        by auto
      with no_hit_trans [OF nh a(5)] True l skip show ?thesis by (subst ba_scan_align.simps) simp
    qed
  qed
qed

lemma ba_skip_bytes_correct:
  assumes "p + i \<le> length addr"
  shows "\<exists>i'. ba_skip_bytes want addr p i = Some i' \<and> i' \<le> i \<and> no_hit want addr (8 * p) (8 * p + 8 * (i - i'))"
  using assms
proof (induction want addr p i rule: ba_skip_bytes.induct)
  case (2 want addr p i)
  then have l: "c_load addr p = Some (addr ! p)" by simp
  show ?case
  proof (cases "addr ! p = skip_byte want")
    case True
    with 2 have nh: "no_hit want addr (8 * p) (8 * (p + 1))" using skip_byte_no_hit [of p addr want] by (simp add: add.commute)
    from 2 l True obtain i' where i': "ba_skip_bytes want addr (p + 1) i = Some i'" "i' \<le> i"
      "no_hit want addr (8 * (p + 1)) (8 * (p + 1) + 8 * (i - i'))"
      by auto
    have "8 * (p + 1) + 8 * (i - i') = 8 * p + 8 * (Suc i - i')" using i'(2) by (simp add: Suc_diff_le)
    with no_hit_trans [OF nh i'(3)] have "no_hit want addr (8 * p) (8 * p + 8 * (Suc i - i'))"
      by (simp only:)
    with l True i' show ?thesis by auto
  qed (use l in simp)
qed simp

lemma ba_skip_words_correct:
  assumes "p + 8 * i \<le> length addr"
  shows "\<exists>i'. ba_skip_words want addr p i = Some i' \<and> i' \<le> i \<and> no_hit want addr (8 * p) (8 * p + 64 * (i - i'))"
  using assms
proof (induction want addr p i rule: ba_skip_words.induct)
  case (2 want addr p i)
  then have l: "p + 8 \<le> length addr" by simp
  show ?case
  proof (cases "take 8 (drop p addr) = replicate 8 (skip_byte want)")
    case True
    have b: "addr ! (p + k) = skip_byte want" if "k < 8" for k
      using that l arg_cong [OF True, of "\<lambda>xs. xs ! k"] by simp
    have nh: "no_hit want addr (8 * p) (8 * p + 8 * n)" if "n \<le> 8" for n
      using that
    proof (induction n)
      case (Suc n)
      then have "no_hit want addr (8 * (p + n)) (8 * (p + n) + 8)"
        using b l by (intro skip_byte_no_hit) auto
      with Suc no_hit_trans [of want addr "8 * p" "8 * p + 8 * n"] show ?case by (simp add: algebra_simps)
    qed simp
    from 2 l True obtain i' where i': "ba_skip_words want addr (p + 8) i = Some i'" "i' \<le> i"
      "no_hit want addr (8 * (p + 8)) (8 * (p + 8) + 64 * (i - i'))"
      by auto
    have "no_hit want addr (8 * p) (8 * (p + 8) + 64 * (i - i'))"
      by (rule no_hit_trans [OF _ i'(3)]) (use nh [of 8] in \<open>simp add: algebra_simps\<close>)
    moreover have "8 * (p + 8) + 64 * (i - i') = 8 * p + 64 * (Suc i - i')" using i'(2) by (simp add: Suc_diff_le)
    ultimately have "no_hit want addr (8 * p) (8 * p + 64 * (Suc i - i'))" by (simp only:)
    with i' l True show ?thesis by auto
  qed (use l in simp)
qed simp

lemma ba_scan_tail_correct:
  assumes "bitpos + count \<le> 8 * length addr" "bitpos + count < 18446744073709551616"
  shows "\<exists>r. ba_scan_tail want addr bitpos count = Some r \<and>
    (case r of None \<Rightarrow> no_hit want addr bitpos (bitpos + count)
     | Some h \<Rightarrow> first_hit want addr bitpos (bitpos + count) h)"
  using assms
proof (induction want addr bitpos count rule: ba_scan_tail.induct)
  case (2 want addr bitpos count)
  have t: "ext2fs_test_bit64 (of_nat bitpos) addr = Some (bit_val addr bitpos)"
    using "2.prems" by (intro ext2fs_test_bit64_of_nat) auto
  show ?case
  proof (cases "bit_at addr bitpos = want")
    case True
    with t show ?thesis by (simp add: first_hit_def)
  next
    case False
    then have nh: "no_hit want addr bitpos (bitpos + 1)" by (rule no_hit_one)
    from 2 t False obtain r where r: "ba_scan_tail want addr (bitpos + 1) count = Some r"
      "case r of None \<Rightarrow> no_hit want addr (bitpos + 1) (bitpos + 1 + count)
       | Some h \<Rightarrow> first_hit want addr (bitpos + 1) (bitpos + 1 + count) h"
      by auto
    from r(2) nh have "case r of None \<Rightarrow> no_hit want addr bitpos (bitpos + Suc count)
       | Some h \<Rightarrow> first_hit want addr bitpos (bitpos + Suc count) h"
      by (auto split: option.splits intro: first_hit_extend no_hit_trans)
    with t False r(1) show ?thesis by simp
  qed
qed simp

lemma ba_scan_middle_correct:
  assumes "bitpos + count \<le> 8 * length addr" "bitpos mod 8 = 0"
  shows "\<exists>b c. ba_scan_middle want addr bitpos count = Some (b, c) \<and> bitpos \<le> b
    \<and> b + c = bitpos + count \<and> no_hit want addr bitpos b"
proof -
  have bp: "8 * (bitpos div 8) = bitpos" using assms(2) by auto
  have "bitpos div 8 + 8 * (count div 64) \<le> length addr"
    using assms(1) bp by linarith
  then obtain i where i: "ba_skip_words want addr (bitpos div 8) (count div 64) = Some i" "i \<le> count div 64"
    "no_hit want addr bitpos (bitpos + 64 * (count div 64 - i))"
    using ba_skip_words_correct [of "bitpos div 8" "count div 64" addr want] bp by auto
  define w where "w = count div 64 - i"
  have w: "64 * w \<le> count" unfolding w_def using div_times_less_eq_dividend [of count 64]
    by (simp add: diff_mult_distrib2 mult.commute)
  let ?count = "count - 64 * w" and ?p = "bitpos div 8 + 8 * w"
  have p: "8 * ?p = bitpos + 64 * w" using bp by simp
  have "8 * (?p + ?count div 8) \<le> bitpos + 64 * w + ?count"
    unfolding add_mult_distrib2 p by simp
  then have "?p + ?count div 8 \<le> length addr" using assms(1) w by simp
  then obtain i' where i': "ba_skip_bytes want addr ?p (?count div 8) = Some i'" "i' \<le> ?count div 8"
    "no_hit want addr (bitpos + 64 * w) (bitpos + 64 * w + 8 * (?count div 8 - i'))"
    using ba_skip_bytes_correct [of ?p "?count div 8" addr want] unfolding p by auto
  have "8 * (?count div 8 - i') \<le> ?count" by (simp add: diff_mult_distrib2)
  moreover have "no_hit want addr bitpos (bitpos + 64 * w + 8 * (?count div 8 - i'))"
    using i(3) i'(3) no_hit_trans unfolding w_def by blast
  moreover have "ba_scan_middle want addr bitpos count
      = Some (bitpos + 64 * w + 8 * (?count div 8 - i'), ?count - 8 * (?count div 8 - i'))"
    using i(1) i'(1) by (simp add: ba_scan_middle_def Let_def w_def)
  ultimately show ?thesis using w by simp
qed

text \<open>The two skipping phases together keep the invariant of the search.\<close>

lemma ba_scan_skip_correct:
  assumes len: "b + c \<le> 8 * length addr" and m: "b mod 8 = 0" and a: "a \<le> b" "no_hit want addr a b"
  shows "\<exists>f b1 c1. ba_scan_align want base addr b c = Some (f, b1, c1)
    \<and> (\<exists>b2 c2. (if f then Some (b1, c1) else ba_scan_middle want addr b1 c1) = Some (b2, c2)
        \<and> a \<le> b2 \<and> b2 + c2 = b + c \<and> no_hit want addr a b2)"
proof -
  from ba_scan_align_correct [OF len m, of want base] obtain f b1 c1 where
    al: "ba_scan_align want base addr b c = Some (f, b1, c1)" "b \<le> b1" "b1 + c1 = b + c" "b1 mod 8 = 0"
      "no_hit want addr b b1"
    by auto
  have nh: "no_hit want addr a b1" using a(2) al(5) by (rule no_hit_trans)
  have "b1 + c1 \<le> 8 * length addr" using al(3) len by simp
  from ba_scan_middle_correct [OF this al(4), of want] obtain b2 c2 where
    mi: "ba_scan_middle want addr b1 c1 = Some (b2, c2)" "b1 \<le> b2" "b2 + c2 = b1 + c1" "no_hit want addr b1 b2"
    by blast
  have "no_hit want addr a b2" using nh mi(4) by (rule no_hit_trans)
  with al mi nh a show ?thesis by (cases f) auto
qed

lemma ba_find_first_correct:
  assumes ok: "ba_ok bm" and s: "bm_start bm \<le> s" "s \<le> e" "e \<le> bm_real_end bm"
  shows "\<exists>r. ba_find_first want base bm s e = Some r \<and>
    (case r of
       Inl c \<Rightarrow> c = ENOENT \<and> no_hit want (bm_private bm) (unat s - unat (bm_start bm)) (Suc (unat e - unat (bm_start bm)))
     | Inr v \<Rightarrow> \<exists>h. v = of_nat h + bm_start bm
         \<and> first_hit want (bm_private bm) (unat s - unat (bm_start bm)) (Suc (unat e - unat (bm_start bm))) h)"
proof -
  let ?addr = "bm_private bm"
  define a n where "a = unat (s - bm_start bm)" and "n = unat (e - s + 1)"
  have a: "a = unat s - unat (bm_start bm)" using s by (simp add: a_def unat_diff_le)
  have nat: "unat (bm_start bm) \<le> unat s" "unat s \<le> unat e" "unat e \<le> unat (bm_real_end bm)"
    using s by (simp_all add: word_le_nat_alt)
  have "unat e - unat s < 18446744073709551615"
    using ok nat unfolding ba_ok_def by linarith
  then have n: "n = Suc (unat e - unat s)"
    using s(2) by (simp add: n_def unat_word_ariths unat_diff_le)
  have an: "a + n = Suc (unat e - unat (bm_start bm))" using a n nat by simp
  from s(1,2) have "bm_start bm \<le> e" by simp
  from ba_inside [OF ok this s(3)] have len: "a + n \<le> 8 * length ?addr" unfolding an by simp
  have lt: "a + n < 18446744073709551616" using ok nat unfolding an ba_ok_def by linarith
  from ba_scan_head_correct [OF len lt] obtain r where
    r: "ba_scan_head want ?addr a n = Some r"
      "case r of Inl h \<Rightarrow> first_hit want ?addr a (a + n) h
       | Inr (b, c) \<Rightarrow> a \<le> b \<and> b + c = a + n \<and> no_hit want ?addr a b \<and> (c = 0 \<or> b mod 8 = 0)"
    by blast
  show ?thesis
  proof (cases r)
    case (Inl h)
    with r show ?thesis
      by (auto simp: ba_find_first_def a_def [symmetric] n_def [symmetric] a [symmetric] an [symmetric])
  next
    case (Inr bc)
    then obtain b c where bc: "r = Inr (b, c)" by (cases bc) auto
    with r have h: "a \<le> b" "b + c = a + n" "no_hit want ?addr a b" "c = 0 \<or> b mod 8 = 0" by auto
    show ?thesis
    proof (cases "c = 0")
      case True
      with r bc h show ?thesis
        by (auto simp: ba_find_first_def a_def [symmetric] n_def [symmetric] a [symmetric] an [symmetric])
    next
      case False
      with h have m: "b mod 8 = 0" by simp
      from ba_scan_skip_correct [of b c ?addr a want base] h m len
      obtain f b1 c1 b2 c2 where al: "ba_scan_align want base ?addr b c = Some (f, b1, c1)"
        and mi: "(if f then Some (b1, c1) else ba_scan_middle want ?addr b1 c1) = Some (b2, c2)"
        and h2: "a \<le> b2" "b2 + c2 = a + n" "no_hit want ?addr a b2"
        by auto
      from ba_scan_tail_correct [of b2 c2 ?addr want, unfolded h2(2)] len lt obtain t where
        t: "ba_scan_tail want ?addr b2 c2 = Some t"
          "case t of None \<Rightarrow> no_hit want ?addr b2 (a + n) | Some h \<Rightarrow> first_hit want ?addr b2 (a + n) h"
        by auto
      have "ba_find_first want base bm s e =
          Some (case t of None \<Rightarrow> Inl ENOENT | Some hit \<Rightarrow> Inr (of_nat hit + bm_start bm))"
        using r(1) bc False al mi t(1)
        by (simp add: ba_find_first_def a_def [symmetric] n_def [symmetric])
      then show ?thesis
        unfolding an [symmetric] a [symmetric]
        using t(2) h2 by (auto split: option.splits intro: no_hit_trans first_hit_extend)
    qed
  qed
qed

text \<open>The same in terms of the marked numbers.\<close>

lemma ba_no_hit_iff:
  assumes "bm_start bm \<le> s" "bm_start bm \<le> e" "e \<le> bm_real_end bm"
  shows "no_hit want (bm_private bm) (unat s - unat (bm_start bm)) (Suc (unat e - unat (bm_start bm)))
    \<longleftrightarrow> (\<forall>x. s \<le> x \<and> x \<le> e \<longrightarrow> (x \<in> ba_bits bm) \<noteq> want)" (is "?a \<longleftrightarrow> ?b")
proof
  assume a: ?a
  show ?b
  proof (intro allI impI)
    fix x assume x: "s \<le> x \<and> x \<le> e"
    with assms have "bm_start bm \<le> x" "x \<le> bm_real_end bm" by auto
    with a x assms show "(x \<in> ba_bits bm) \<noteq> want"
      by (simp add: ba_bits_iff no_hit_def word_le_nat_alt diff_le_mono less_Suc_eq_le)
  qed
next
  assume b: ?b
  show ?a unfolding no_hit_def
  proof (intro allI impI)
    fix j assume j: "unat s - unat (bm_start bm) \<le> j \<and> j < Suc (unat e - unat (bm_start bm))"
    let ?x = "of_nat (j + unat (bm_start bm)) :: u64"
    have nat: "unat (bm_start bm) \<le> unat s" "unat (bm_start bm) \<le> unat e" "unat e \<le> unat (bm_real_end bm)"
      using assms by (simp_all add: word_le_nat_alt)
    have "j + unat (bm_start bm) < 18446744073709551616"
      using j nat unat_u64_less [of e] by linarith
    then have u: "unat ?x = j + unat (bm_start bm)" by (rule unat_of_nat_u64)
    have x: "s \<le> ?x" "?x \<le> e" "bm_start bm \<le> ?x" "?x \<le> bm_real_end bm"
      unfolding word_le_nat_alt u using j nat by linarith+
    with b have "(?x \<in> ba_bits bm) \<noteq> want" by blast
    then show "bit_at (bm_private bm) j \<noteq> want"
      unfolding ba_bits_iff [OF x(3,4)] u by simp
  qed
qed

lemma ba_find_first_is_first:
  assumes ok: "ba_ok bm" and s: "bm_start bm \<le> s" "s \<le> e" "e \<le> bm_real_end bm"
  shows "\<exists>r. ba_find_first want base bm s e = Some r \<and> is_first (\<lambda>x. (x \<in> ba_bits bm) = want) s e r"
proof -
  have se: "bm_start bm \<le> e" using s by simp
  from ba_find_first_correct [OF assms, of want base] obtain r where r: "ba_find_first want base bm s e = Some r"
    "case r of
       Inl c \<Rightarrow> c = ENOENT \<and> no_hit want (bm_private bm) (unat s - unat (bm_start bm)) (Suc (unat e - unat (bm_start bm)))
     | Inr v \<Rightarrow> \<exists>h. v = of_nat h + bm_start bm
         \<and> first_hit want (bm_private bm) (unat s - unat (bm_start bm)) (Suc (unat e - unat (bm_start bm))) h"
    by blast
  have "is_first (\<lambda>x. (x \<in> ba_bits bm) = want) s e r"
  proof (cases r)
    case (Inl c)
    with r(2) show ?thesis by (simp add: is_first_def ba_no_hit_iff [OF s(1) se s(3)])
  next
    case (Inr v)
    with r(2) obtain h where v: "v = of_nat h + bm_start bm" and h: "unat s - unat (bm_start bm) \<le> h"
      "h \<le> unat e - unat (bm_start bm)" "bit_at (bm_private bm) h = want"
      "no_hit want (bm_private bm) (unat s - unat (bm_start bm)) h"
      by (auto simp: first_hit_def)
    have nat: "unat (bm_start bm) \<le> unat s" "unat (bm_start bm) \<le> unat e" "unat e \<le> unat (bm_real_end bm)"
      using s se by (simp_all add: word_le_nat_alt)
    have "h + unat (bm_start bm) < 18446744073709551616"
      using h nat unat_u64_less [of e] by linarith
    then have u: "unat v = h + unat (bm_start bm)"
      unfolding v by (simp add: unat_word_ariths unat_of_nat)
    have x: "s \<le> v" "v \<le> e" "bm_start bm \<le> v" "v \<le> bm_real_end bm"
      unfolding word_le_nat_alt u using h nat by linarith+
    have "(x \<in> ba_bits bm) \<noteq> want" if "s \<le> x" "x < v" for x
    proof -
      have b: "bm_start bm \<le> x" "x \<le> bm_real_end bm" using that s(1) x(4) by auto
      have "unat s - unat (bm_start bm) \<le> unat x - unat (bm_start bm)" "unat x - unat (bm_start bm) < h"
        using that b nat(1) unfolding word_le_nat_alt word_less_nat_alt u by linarith+
      with h(4) show ?thesis unfolding ba_bits_iff [OF b] no_hit_def by blast
    qed
    with x h(3) Inr show ?thesis by (simp add: is_first_def ba_bits_iff u)
  qed
  with r(1) show ?thesis by blast
qed

subsection \<open>The bit array is a back end\<close>

lemma ba_clear_bmap_eq:
  assumes "ba_ok bm"
  shows "ba_ok (ba_clear_bmap bm)" "ba_bits (ba_clear_bmap bm) = {}" "bm_frame bm (ba_clear_bmap bm)"
  using assms by (auto simp: ba_clear_bmap_def ba_ok_def ba_size_def ba_bits_def bit_at_def)

interpretation ba: bitmap_search "ext2fs_blkmap64_bitarray ok1 ok2 junk base" ba_ok ba_bits
proof unfold_locales
  fix bm :: "u8 list bitmap64" and k :: u64
  assume ok: "ba_ok bm" and k: "bm_start bm \<le> k" "k \<le> bm_real_end bm"
  show "\<exists>r. test_bmap (ext2fs_blkmap64_bitarray ok1 ok2 junk base) bm k = Some r \<and> (r \<noteq> 0 \<longleftrightarrow> k \<in> ba_bits bm)"
    using ba_test_bmap_eq [OF ok k] k by (simp add: ext2fs_blkmap64_bitarray_def ba_bits_iff)
  show "\<exists>r bm'. mark_bmap (ext2fs_blkmap64_bitarray ok1 ok2 junk base) bm k = Some (r, bm')
      \<and> (r \<noteq> 0 \<longleftrightarrow> k \<in> ba_bits bm) \<and> ba_ok bm' \<and> bm_frame bm bm' \<and> ba_bits bm' = insert k (ba_bits bm)"
    using ba_mark_bmap_eq [OF ok k] k ok by (simp add: ext2fs_blkmap64_bitarray_def ba_bits_iff)
  show "\<exists>r bm'. unmark_bmap (ext2fs_blkmap64_bitarray ok1 ok2 junk base) bm k = Some (r, bm')
      \<and> (r \<noteq> 0 \<longleftrightarrow> k \<in> ba_bits bm) \<and> ba_ok bm' \<and> bm_frame bm bm' \<and> ba_bits bm' = ba_bits bm - {k}"
    using ba_unmark_bmap_eq [OF ok k] k ok by (simp add: ext2fs_blkmap64_bitarray_def ba_bits_iff)
qed (use ba_mark_bmap_extent_eq ba_unmark_bmap_extent_eq ba_test_clear_bmap_extent_eq ba_clear_bmap_eq
      ba_find_first_is_first [where want = True] ba_find_first_is_first [where want = False]
    in \<open>auto simp: ext2fs_blkmap64_bitarray_def ba_find_first_zero_def ba_find_first_set_def ba_ok_def\<close>)

subsection \<open>Allocation, copying and resizing\<close>

lemma ba_clear_down_correct:
  assumes "start \<le> end" "unat bitno - unat start < 8 * length addr"
  shows "\<exists>addr'. ba_clear_down start end bitno addr = Some addr' \<and> length addr' = length addr
    \<and> (\<forall>k. bit_at addr' k \<longleftrightarrow> bit_at addr k \<and> \<not> (unat end < k + unat start \<and> k + unat start \<le> unat bitno))"
  using assms
proof (induction start "end" bitno addr rule: ba_clear_down.induct)
  case (1 start "end" bitno addr)
  show ?case
  proof (cases "bitno > end")
    case False
    then show ?thesis by (subst ba_clear_down.simps) (auto simp: word_less_nat_alt)
  next
    case True
    let ?n = "unat bitno - unat start"
    have st: "start \<le> bitno" using True "1.prems"(1) by simp
    have nat: "unat start \<le> unat end" "unat end < unat bitno"
      using True "1.prems"(1) by (simp_all add: word_le_nat_alt word_less_nat_alt)
    have u: "unat (bitno - start) = ?n" using st by (rule unat_diff_le)
    have cl: "ext2fs_clear_bit64 (bitno - start) addr = Some (bit_val addr ?n, clear_bit_list addr ?n)"
      using "1.prems"(2) u by (simp add: ext2fs_clear_bit64_eq)
    have d: "unat (bitno - 1) = unat bitno - 1" using True by (rule unat_dec)
    have le: "unat (bitno - 1) - unat start < 8 * length (clear_bit_list addr ?n)"
      using "1.prems"(2) d by simp
    from "1.IH" [OF True cl refl "1.prems"(1) le] d obtain addr' where
      a: "ba_clear_down start end (bitno - 1) (clear_bit_list addr ?n) = Some addr'" "length addr' = length addr"
      "\<And>k. bit_at addr' k \<longleftrightarrow> bit_at (clear_bit_list addr ?n) k
         \<and> \<not> (unat end < k + unat start \<and> k + unat start \<le> unat bitno - 1)"
      by auto
    have "bit_at addr' k \<longleftrightarrow> bit_at addr k \<and> \<not> (unat end < k + unat start \<and> k + unat start \<le> unat bitno)" for k
    proof -
      have "bit_at addr' k \<longleftrightarrow> (k \<noteq> ?n \<and> bit_at addr k)
          \<and> \<not> (unat end < k + unat start \<and> k + unat start \<le> unat bitno - 1)"
        using a(3) [of k] "1.prems"(2) by simp
      also have "\<dots> \<longleftrightarrow> bit_at addr k \<and> \<not> (unat end < k + unat start \<and> k + unat start \<le> unat bitno)"
        using nat by (cases "k = ?n") auto
      finally show ?thesis .
    qed
    with a(1,2) True cl show ?thesis by (subst ba_clear_down.simps) simp
  qed
qed

text \<open>Bits of a resized array: those of the old cells, and zeros in the cells that were added.\<close>

lemma bit_at_resized:
  assumes "k < 8 * m"
  shows "bit_at (let a = c_realloc junk xs m in
      if m > length xs then take (length xs) a @ replicate (m - length xs) 0 else a) k \<longleftrightarrow> bit_at xs k"
  using assms by (auto simp: bit_at_def Let_def nth_append c_realloc_def)

lemma ba_size_update: "ba_size (bm\<lparr>bm_private := p\<rparr>) = ba_size bm"
  by (simp add: ba_size_def)

text \<open>The first step of a resize: the bits between the old end and the new one are cleared.\<close>

lemma ba_resize_clear:
  assumes ok: "ba_ok bm"
  shows "\<exists>arr. (if new_end > bm_end bm
       then ba_clear_down (bm_start bm) (bm_end bm)
              (if bm_real_end bm > new_end then new_end else bm_real_end bm) (bm_private bm)
       else Some (bm_private bm)) = Some arr \<and> length arr = length (bm_private bm)
     \<and> (\<forall>k. k + unat (bm_start bm) \<le> unat new_end \<longrightarrow> k + unat (bm_start bm) \<le> unat (bm_real_end bm) \<longrightarrow>
          bit_at arr k = (bit_at (bm_private bm) k \<and> k + unat (bm_start bm) \<le> unat (bm_end bm)))"
proof (cases "new_end > bm_end bm")
  case False
  then show ?thesis by (auto simp: word_less_nat_alt)
next
  case True
  let ?b = "if bm_real_end bm > new_end then new_end else bm_real_end bm"
  have se: "bm_start bm \<le> bm_end bm" "bm_end bm \<le> bm_real_end bm" using ok by (simp_all add: ba_ok_def)
  have "bm_start bm \<le> ?b" "?b \<le> bm_real_end bm" using se True by auto
  from ba_inside(2) [OF ok this] have "unat ?b - unat (bm_start bm) < 8 * length (bm_private bm)" .
  from ba_clear_down_correct [OF se(1) this] obtain arr where
    a: "ba_clear_down (bm_start bm) (bm_end bm) ?b (bm_private bm) = Some arr" "length arr = length (bm_private bm)"
      "\<And>k. bit_at arr k \<longleftrightarrow> bit_at (bm_private bm) k
         \<and> \<not> (unat (bm_end bm) < k + unat (bm_start bm) \<and> k + unat (bm_start bm) \<le> unat ?b)"
    by blast
  from a(3) have "bit_at arr k = (bit_at (bm_private bm) k \<and> k + unat (bm_start bm) \<le> unat (bm_end bm))"
    if "k + unat (bm_start bm) \<le> unat new_end" "k + unat (bm_start bm) \<le> unat (bm_real_end bm)" for k
    using that by (auto split: if_splits)
  with a(1,2) True show ?thesis by auto
qed

lemma ba_new_bmap_eq:
  assumes "bm_start bm \<le> bm_end bm" "bm_end bm \<le> bm_real_end bm"
    "unat (bm_real_end bm) - unat (bm_start bm) < 0xffffffffffffffff"
  shows "\<exists>bm'. ba_new_bmap True True junk bm = Some (E_OK, bm') \<and> ba_ok bm' \<and> bm_frame bm bm' \<and> ba_bits bm' = {}"
  using assms
  by (auto simp: ba_new_bmap_def ba_alloc_private_data_def ba_ok_def ba_size_def ba_bits_def bit_at_def)

lemma ba_copy_bmap_eq:
  assumes "ba_ok src" "bm_start dest = bm_start src" "bm_end dest = bm_end src"
    "bm_real_end dest = bm_real_end src"
  shows "ba_copy_bmap True True junk src dest = Some (E_OK, dest\<lparr>bm_private := bm_private src\<rparr>)"
  using assms by (simp add: ba_copy_bmap_def ba_alloc_private_data_def ba_ok_def ba_size_def)

text \<open>The allocations that fail leave the bitmap as it was.\<close>

lemma ba_alloc_fails:
  assumes "\<not> ok1 \<or> \<not> ok2"
  shows "ba_new_bmap ok1 ok2 junk bm = Some (EXT2_ET_NO_MEMORY, bm)"
    "ba_copy_bmap ok1 ok2 junk src bm = Some (EXT2_ET_NO_MEMORY, bm)"
  using assms by (auto simp: ba_new_bmap_def ba_copy_bmap_def ba_alloc_private_data_def)

text \<open>
  The second step: the array is reallocated when the number of bytes changes, and the bytes that were
  added are cleared. The array has \<open>m\<close> bytes afterwards and its bits are those it had before.
\<close>

lemma ba_resize_realloc:
  assumes ok: "ba_ok bm" and new: "bm_start bm \<le> new_end" "new_end \<le> new_real_end"
    and arr: "(if new_end > bm_end bm
       then ba_clear_down (bm_start bm) (bm_end bm)
              (if bm_real_end bm > new_end then new_end else bm_real_end bm) (bm_private bm)
       else Some (bm_private bm)) = Some arr" "length arr = length (bm_private bm)"
  defines "m \<equiv> (unat new_real_end - unat (bm_start bm)) div 8 + 1"
  shows "\<exists>arr'. ba_resize_bmap True junk bm new_end new_real_end
      = Some (E_OK, bm\<lparr>bm_private := arr', bm_end := new_end, bm_real_end := new_real_end\<rparr>)
    \<and> length arr' = m \<and> (\<forall>k < 8 * m. bit_at arr' k = bit_at arr k)"
proof -
  define bm1 where "bm1 = bm\<lparr>bm_private := arr\<rparr>"
  have size1: "ba_size bm1 = length arr" using ok arr(2) by (simp add: bm1_def ba_size_def ba_ok_def)
  have "bm_start bm \<le> new_real_end" using new by simp
  then have m: "unat ((new_real_end - bm_start bm) div 8 + 1) = m"
    using ba_size_eq [of "bm\<lparr>bm_real_end := new_real_end\<rparr>"] by (simp add: ba_size_def m_def)
  define arr2 where "arr2 = (if new_real_end = bm_real_end bm then arr else
      let b = c_realloc junk arr m in if m > length arr then take (length arr) b @ replicate (m - length arr) 0 else b)"
  have same: "c_realloc junk arr (length arr) = arr" by (auto simp: c_realloc_def intro!: nth_equalityI)
  have "ba_resize_bmap True junk bm new_end new_real_end
      = Some (E_OK, bm\<lparr>bm_private := arr2, bm_end := new_end, bm_real_end := new_real_end\<rparr>)"
    unfolding ba_resize_bmap_def arr(1) using size1 same
    by (auto simp: Let_def bm1_def [symmetric] m arr2_def) (simp_all add: bm1_def m)
  moreover have "length arr2 = m"
    using size1 m by (auto simp: arr2_def Let_def bm1_def ba_size_def)
  moreover have "\<forall>k < 8 * m. bit_at arr2 k = bit_at arr k"
    unfolding arr2_def using bit_at_resized [of _ m junk arr] by simp
  ultimately show ?thesis by blast
qed

lemma aligned_bytes: "d mod 8 = 7 \<Longrightarrow> 8 * (d div 8 + 1) = Suc d" for d :: nat
  by presburger

text \<open>
  Resizing a bit array that ends on a byte boundary keeps every number up
  to the old and the new end and leaves no stale mark above the old end, whatever the reallocated
  memory holds, whether the array grows, shrinks or keeps its size.
\<close>

theorem ba_resize_keeps_bits:
  assumes ok: "ba_ok bm" and aligned: "(unat (bm_real_end bm) - unat (bm_start bm)) mod 8 = 7"
    and new: "bm_start bm \<le> new_end" "new_end \<le> new_real_end"
    and fits: "unat new_real_end - unat (bm_start bm) < 0xffffffffffffffff"
  shows "\<exists>bm'. ba_resize_bmap True junk bm new_end new_real_end = Some (E_OK, bm') \<and> ba_ok bm'
    \<and> bm_start bm' = bm_start bm \<and> bm_end bm' = new_end \<and> bm_real_end bm' = new_real_end
    \<and> {x \<in> ba_bits bm'. x \<le> new_end} = {x \<in> ba_bits bm. x \<le> bm_end bm \<and> x \<le> new_end}"
proof -
  let ?s = "unat (bm_start bm)" and ?e = "unat (bm_end bm)" and ?re = "unat (bm_real_end bm)"
  from ba_resize_clear [OF ok, of new_end] obtain arr where
    a: "(if new_end > bm_end bm
       then ba_clear_down (bm_start bm) (bm_end bm)
              (if bm_real_end bm > new_end then new_end else bm_real_end bm) (bm_private bm)
       else Some (bm_private bm)) = Some arr" "length arr = length (bm_private bm)"
    "\<And>k. k + ?s \<le> unat new_end \<Longrightarrow> k + ?s \<le> ?re \<Longrightarrow> bit_at arr k = (bit_at (bm_private bm) k \<and> k + ?s \<le> ?e)"
    by blast
  have se: "?s \<le> ?e" "?e \<le> ?re" "bm_start bm \<le> bm_real_end bm" using ok by (auto simp: ba_ok_def word_le_nat_alt)
  have "length arr = (?re - ?s) div 8 + 1" using a(2) ok ba_size_eq [OF se(3)] by (simp add: ba_ok_def)
  with aligned_bytes [OF aligned] have len: "8 * length arr = Suc (?re - ?s)" by simp
  from ba_resize_realloc [OF ok new a(1,2), of junk] obtain arr' where
    r: "ba_resize_bmap True junk bm new_end new_real_end
      = Some (E_OK, bm\<lparr>bm_private := arr', bm_end := new_end, bm_real_end := new_real_end\<rparr>)"
    "length arr' = (unat new_real_end - ?s) div 8 + 1"
    "\<And>k. k < 8 * ((unat new_real_end - ?s) div 8 + 1) \<Longrightarrow> bit_at arr' k = bit_at arr k"
    by blast
  define bm2 where "bm2 = bm\<lparr>bm_private := arr', bm_end := new_end, bm_real_end := new_real_end\<rparr>"
  have "bm_start bm2 \<le> bm_real_end bm2" using new by (simp add: bm2_def)
  from ba_size_eq [OF this] have ok2: "ba_ok bm2" using new fits r(2) by (simp add: ba_ok_def bm2_def)
  have bits2: "bit_at arr' k \<longleftrightarrow> bit_at (bm_private bm) k \<and> k + ?s \<le> ?e" if k: "k + ?s \<le> unat new_end" for k
  proof -
    have "unat new_end \<le> unat new_real_end" using new by (simp add: word_le_nat_alt)
    then have "k < 8 * ((unat new_real_end - ?s) div 8 + 1)" using k by simp
    then have "bit_at arr' k = bit_at arr k" by (rule r(3))
    moreover have "\<not> bit_at arr k \<and> \<not> k + ?s \<le> ?e" if "\<not> k + ?s \<le> ?re"
      using that len se by (auto simp: bit_at_def)
    ultimately show ?thesis using a(3) [OF k] by blast
  qed
  have "x \<in> ba_bits bm2 \<and> x \<le> new_end \<longleftrightarrow> x \<in> ba_bits bm \<and> x \<le> bm_end bm \<and> x \<le> new_end" for x
    using bits2 [of "unat x - ?s"] new(2) se by (auto simp: ba_bits_def bm2_def word_le_nat_alt)
  with r(1) ok2 show ?thesis by (auto simp: bm2_def)
qed

text \<open>A bitmap of the numbers 1 to 16 with two bytes, in which 3 and 12 are marked.\<close>

definition ba_example :: "u8 list bitmap64" where
  "ba_example = \<lparr>bm_magic = EXT2_ET_MAGIC_BLOCK_BITMAP64, bm_start = 1, bm_end = 14, bm_real_end = 16,
     bm_cluster_bits = 0, bm_description = None, bm_private = [4, 8],
     bm_base_error_code = EXT2_ET_BAD_BLOCK_MARK\<rparr>"

lemma ba_example_ok: "ba_ok ba_example"
  by (simp add: ba_ok_def ba_example_def ba_size_def)

lemma ba_example_fields [simp]:
  "bm_start ba_example = 1" "bm_end ba_example = 14" "bm_real_end ba_example = 16"
  by (simp_all add: ba_example_def)

theorem ba_resize_keeps_bits_witness:
  "\<exists>bm'. ba_resize_bmap True (\<lambda>_. 0xaa) ba_example 30 32 = Some (E_OK, bm') \<and> ba_ok bm'
    \<and> bm_start bm' = 1 \<and> bm_end bm' = 30 \<and> bm_real_end bm' = 32
    \<and> {x \<in> ba_bits bm'. x \<le> 30} = {x \<in> ba_bits ba_example. x \<le> 14 \<and> x \<le> 30}"
  using ba_resize_keeps_bits [of ba_example 30 32 "\<lambda>_. 0xaa"] ba_example_ok by simp

text \<open>
  Searching a bit array for a clear or a set bit between two numbers of the
  bitmap returns the least such number, or the error ENOENT exactly when there is none, and reads only
  inside the array, for every alignment of the array in memory.
\<close>

theorem ba_find_first_least:
  assumes "ba_ok bm" "bm_start bm \<le> s" "s \<le> e" "e \<le> bm_real_end bm"
  shows "(\<exists>r. ba_find_first_zero base bm s e = Some r \<and> is_first (\<lambda>x. x \<notin> ba_bits bm) s e r)
    \<and> (\<exists>r. ba_find_first_set base bm s e = Some r \<and> is_first (\<lambda>x. x \<in> ba_bits bm) s e r)"
  using ba_find_first_is_first [OF assms, of False base] ba_find_first_is_first [OF assms, of True base]
  by (simp add: ba_find_first_zero_def ba_find_first_set_def)

theorem ba_find_first_least_witness:
  "(\<exists>r. ba_find_first_zero 5 ba_example 3 16 = Some r \<and> is_first (\<lambda>x. x \<notin> ba_bits ba_example) 3 16 r)
    \<and> (\<exists>r. ba_find_first_set 5 ba_example 4 16 = Some r \<and> is_first (\<lambda>x. x \<in> ba_bits ba_example) 4 16 r)"
  using ba_find_first_least [of ba_example 3 16 5] ba_find_first_least [of ba_example 4 16 5] ba_example_ok
  by simp

text \<open>
  The optimised test whether a run of numbers is clear, with its masks for the
  first and the last byte and its comparison of whole blocks of memory with zero, answers exactly
  whether no number of the run is marked, and reads only inside the array.
\<close>

theorem ba_test_clear_iff:
  assumes "ba_ok bm" "bm_start bm \<le> k" "unat k + unat n \<le> Suc (unat (bm_real_end bm))"
  shows "\<exists>r. ba_test_clear_bmap_extent bm k n = Some r
    \<and> (r \<noteq> 0 \<longleftrightarrow> (\<forall>x. unat k \<le> unat x \<and> unat x < unat k + unat n \<longrightarrow> x \<notin> ba_bits bm))"
  using assms by (rule ba_test_clear_bmap_extent_eq)

theorem ba_test_clear_iff_witness:
  "\<exists>r. ba_test_clear_bmap_extent ba_example 4 8 = Some r
    \<and> (r \<noteq> 0 \<longleftrightarrow> (\<forall>x. 4 \<le> unat x \<and> unat x < 12 \<longrightarrow> x \<notin> ba_bits ba_example))"
  using ba_test_clear_iff [of ba_example 4 8] ba_example_ok by simp

end
