(* ===== verification/Gen_Bitmap64.thy ===== *)
theory Gen_Bitmap64
  imports Gen_Bitmap32 Bitarray
begin

unbundle bit_operations_syntax

text \<open>
  The front end of all bitmaps, \<^verbatim>\<open>lib/ext2fs/gen_bitmap64.c\<close>. A bitmap pointer is null or points to a
  structure of the 32-bit or of the 64-bit layout; every function looks at the magic number first and
  hands old bitmaps to \<^verbatim>\<open>gen_bitmap.c\<close>. The back end of a 64-bit bitmap is the argument \<open>ops\<close>. A bitmap
  of clusters is addressed by block numbers: its numbers are block numbers shifted by \<open>bm_cluster_bits\<close>.
\<close>

subsection \<open>Bitmap pointers\<close>

datatype 'p gbitmap = NullBitmap | Bitmap32 bitmap32 | Bitmap64 "'p bitmap64"

text \<open>
  The common beginning of the functions: the value for a null pointer, the code for either layout and the
  value for an unknown magic number. A magic number that does not fit the layout has no meaning.
\<close>

definition gb_case ::
    "'p gbitmap \<Rightarrow> 'r ub \<Rightarrow> (bitmap32 \<Rightarrow> 'r ub) \<Rightarrow> ('p bitmap64 \<Rightarrow> 'r ub) \<Rightarrow> 'r ub \<Rightarrow> 'r ub" where
  "gb_case g null f32 f64 bad =
     (case g of
        NullBitmap \<Rightarrow> null
      | Bitmap32 b \<Rightarrow> if EXT2FS_IS_32_BITMAP (b32_magic b) then f32 b
                      else if EXT2FS_IS_64_BITMAP (b32_magic b) then None else bad
      | Bitmap64 b \<Rightarrow> if EXT2FS_IS_32_BITMAP (bm_magic b) then None
                      else if EXT2FS_IS_64_BITMAP (bm_magic b) then f64 b else bad)"

text \<open>Shifts of 64-bit numbers; shifting by 64 or more bits has no meaning.\<close>

definition c_shr :: "u64 \<Rightarrow> nat \<Rightarrow> u64 ub" where
  [c_defs]: "c_shr x n = (if n < 64 then Some (drop_bit n x) else None)"

definition c_shl :: "u64 \<Rightarrow> nat \<Rightarrow> u64 ub" where
  [c_defs]: "c_shl x n = (if n < 64 then Some (push_bit n x) else None)"

text \<open>\<^verbatim>\<open>arg & ~0xffffffffULL\<close>: the number does not fit into 32 bits.\<close>

definition high_bits :: "u64 \<Rightarrow> bool" where
  "high_bits arg \<longleftrightarrow> arg AND NOT 0xffffffff \<noteq> 0"

subsection \<open>Creation, copying, resizing\<close>

datatype backend = Bmap64_Bitarray | Bmap64_Rbtree

text \<open>
  The choice of the back end: the type number, the result of \<^verbatim>\<open>ext2fs_get_num_dirs\<close> and the number of
  inodes of the file system.
\<close>

definition bmap_backend_choice :: "nat \<Rightarrow> errcode + u32 \<Rightarrow> u32 \<Rightarrow> errcode + backend" where
  "bmap_backend_choice ty num_dirs s_inodes_count =
     (let ty = (if ty = 0 then 1 else ty) in
      if ty = 1 then Inr Bmap64_Bitarray
      else if ty = 2 then Inr Bmap64_Rbtree
      else if ty = 3 then
        (case num_dirs of
           Inl _ \<Rightarrow> Inr Bmap64_Bitarray
         | Inr n \<Rightarrow> if n > s_inodes_count div 320 then Inr Bmap64_Bitarray else Inr Bmap64_Rbtree)
      else Inl EINVAL)"

text \<open>\<open>null\<close> stands for the private data of a structure whose back end has not been set up yet.\<close>

definition ext2fs_alloc_generic_bmap ::
    "bool \<Rightarrow> bool \<Rightarrow> 'p bitmap_ops \<Rightarrow> 'p \<Rightarrow> nat \<Rightarrow> errcode \<Rightarrow> u64 \<Rightarrow> u64 \<Rightarrow> u64 \<Rightarrow> string option
      \<Rightarrow> (errcode + 'p gbitmap) ub" where
  "ext2fs_alloc_generic_bmap ok1 ok2 ops null cluster_ratio_bits magic start end real_end descr =
     (if \<not> ok1 then Some (Inl EXT2_ET_NO_MEMORY)
      else if descr \<noteq> None \<and> \<not> ok2 then Some (Inl EXT2_ET_NO_MEMORY)
      else do {
        let bitmap = \<lparr>bm_magic = magic, bm_start = start, bm_end = end, bm_real_end = real_end,
          bm_cluster_bits = (if magic = EXT2_ET_MAGIC_BLOCK_BITMAP64 then cluster_ratio_bits else 0),
          bm_description = descr, bm_private = null,
          bm_base_error_code =
            (if magic = EXT2_ET_MAGIC_INODE_BITMAP64 then EXT2_ET_BAD_INODE_MARK
             else if magic = EXT2_ET_MAGIC_BLOCK_BITMAP64 then EXT2_ET_BAD_BLOCK_MARK
             else EXT2_ET_BAD_GENERIC_MARK)\<rparr>;
        (retval, bitmap) \<leftarrow> new_bmap ops bitmap;
        if retval \<noteq> E_OK then Some (Inl retval) else Some (Inr (Bitmap64 bitmap))
      })"

definition ext2fs_copy_generic_bmap ::
    "bool \<Rightarrow> bool \<Rightarrow> bool \<Rightarrow> 'p bitmap_ops \<Rightarrow> 'p \<Rightarrow> 'p gbitmap \<Rightarrow> (errcode + 'p gbitmap) ub" where
  "ext2fs_copy_generic_bmap ok1 ok2 ok3 ops null gen_src =
     gb_case gen_src (Some (Inl EINVAL))
       (\<lambda>src. map_option (map_sum id Bitmap32) (ext2fs_copy_generic_bitmap ok1 ok2 ok3 src))
       (\<lambda>src.
          if \<not> ok1 then Some (Inl EXT2_ET_NO_MEMORY)
          else if bm_description src \<noteq> None \<and> \<not> ok2 then Some (Inl EXT2_ET_NO_MEMORY)
          else do {
            let new = src\<lparr>bm_private := null,
                          bm_description := map_option (\<lambda>d. ''copy of '' @ d) (bm_description src)\<rparr>;
            (retval, new) \<leftarrow> copy_bmap ops src new;
            if retval \<noteq> E_OK then Some (Inl retval) else Some (Inr (Bitmap64 new))
          })
       (Some (Inl EINVAL))"

text \<open>For a 32-bit bitmap the two ends are truncated by the call.\<close>

definition ext2fs_resize_generic_bmap ::
    "bool \<Rightarrow> (nat \<Rightarrow> u8) \<Rightarrow> 'p bitmap_ops \<Rightarrow> 'p gbitmap \<Rightarrow> u64 \<Rightarrow> u64 \<Rightarrow> (errcode \<times> 'p gbitmap) ub" where
  "ext2fs_resize_generic_bmap ok junk ops gen_bmap new_end new_real_end =
     gb_case gen_bmap (Some (EINVAL, gen_bmap))
       (\<lambda>b. do {
          (retval, b') \<leftarrow> ext2fs_resize_generic_bitmap ok junk (b32_magic b) (ucast new_end)
                           (ucast new_real_end) (Some b);
          Some (retval, case b' of None \<Rightarrow> NullBitmap | Some b' \<Rightarrow> Bitmap32 b')
        })
       (\<lambda>b. do {
          (retval, b') \<leftarrow> resize_bmap ops b new_end new_real_end;
          Some (retval, Bitmap64 b')
        })
       (Some (EINVAL, gen_bmap))"

text \<open>
  The second component is what is stored through \<^verbatim>\<open>oend\<close>: nothing, or a value. For a 32-bit bitmap the
  code stores \<^verbatim>\<open>tmp_oend\<close> even when it was never set; the indeterminate value is the argument \<open>junk\<close>.
\<close>

definition ext2fs_fudge_generic_bmap_end ::
    "u32 \<Rightarrow> 'p gbitmap \<Rightarrow> errcode \<Rightarrow> u64 \<Rightarrow> (errcode \<times> u64 option \<times> 'p gbitmap) ub" where
  "ext2fs_fudge_generic_bmap_end junk gen_bitmap neq end =
     gb_case gen_bitmap (Some (EINVAL, None, gen_bitmap))
       (\<lambda>b. let (retval, tmp_oend, b') = ext2fs_fudge_generic_bitmap_end b (b32_magic b) neq (ucast end)
            in Some (retval, Some (ucast (case tmp_oend of None \<Rightarrow> junk | Some v \<Rightarrow> v)), Bitmap32 b'))
       (\<lambda>b. if end > bm_real_end b then Some (neq, None, gen_bitmap)
            else Some (E_OK, Some (bm_end b), Bitmap64 (b\<lparr>bm_end := end\<rparr>)))
       (Some (EINVAL, None, gen_bitmap))"

text \<open>The two getters return an error code in place of the number where there is no bitmap.\<close>

definition ext2fs_get_generic_bmap_start :: "'p gbitmap \<Rightarrow> (errcode + u64) ub" where
  "ext2fs_get_generic_bmap_start gen_bitmap =
     gb_case gen_bitmap (Some (Inl EINVAL))
       (\<lambda>b. map_option (\<lambda>v. Inr (ucast v)) (ext2fs_get_generic_bitmap_start b))
       (\<lambda>b. Some (Inr (bm_start b))) (Some (Inl EINVAL))"

definition ext2fs_get_generic_bmap_end :: "'p gbitmap \<Rightarrow> (errcode + u64) ub" where
  "ext2fs_get_generic_bmap_end gen_bitmap =
     gb_case gen_bitmap (Some (Inl EINVAL))
       (\<lambda>b. map_option (\<lambda>v. Inr (ucast v)) (ext2fs_get_generic_bitmap_end b))
       (\<lambda>b. Some (Inr (bm_end b))) (Some (Inl EINVAL))"

text \<open>No check for null here, and no check of the magic number of a 64-bit bitmap.\<close>

definition ext2fs_clear_generic_bmap :: "'p bitmap_ops \<Rightarrow> 'p gbitmap \<Rightarrow> 'p gbitmap ub" where
  "ext2fs_clear_generic_bmap ops gen_bitmap =
     (case gen_bitmap of
        NullBitmap \<Rightarrow> None
      | Bitmap32 b \<Rightarrow> if EXT2FS_IS_32_BITMAP (b32_magic b)
                      then map_option Bitmap32 (ext2fs_clear_generic_bitmap b) else None
      | Bitmap64 b \<Rightarrow> if EXT2FS_IS_32_BITMAP (bm_magic b) then None
                      else Some (Bitmap64 (clear_bmap ops b)))"

subsection \<open>Single numbers\<close>

definition ext2fs_mark_generic_bmap ::
    "'p bitmap_ops \<Rightarrow> 'p gbitmap \<Rightarrow> u64 \<Rightarrow> (u32 \<times> 'p gbitmap) ub" where
  "ext2fs_mark_generic_bmap ops gen_bitmap arg =
     gb_case gen_bitmap (Some (0, gen_bitmap))
       (\<lambda>b. if high_bits arg then Some (0, gen_bitmap)
            else map_option (map_prod id Bitmap32) (ext2fs_mark_generic_bitmap b (ucast arg)))
       (\<lambda>b. do {
          arg \<leftarrow> c_shr arg (bm_cluster_bits b);
          if arg < bm_start b \<or> arg > bm_end b then Some (0, gen_bitmap)
          else map_option (map_prod id Bitmap64) (mark_bmap ops b arg)
        })
       (Some (0, gen_bitmap))"

definition ext2fs_unmark_generic_bmap ::
    "'p bitmap_ops \<Rightarrow> 'p gbitmap \<Rightarrow> u64 \<Rightarrow> (u32 \<times> 'p gbitmap) ub" where
  "ext2fs_unmark_generic_bmap ops gen_bitmap arg =
     gb_case gen_bitmap (Some (0, gen_bitmap))
       (\<lambda>b. if high_bits arg then Some (0, gen_bitmap)
            else map_option (map_prod id Bitmap32) (ext2fs_unmark_generic_bitmap b (ucast arg)))
       (\<lambda>b. do {
          arg \<leftarrow> c_shr arg (bm_cluster_bits b);
          if arg < bm_start b \<or> arg > bm_end b then Some (0, gen_bitmap)
          else map_option (map_prod id Bitmap64) (unmark_bmap ops b arg)
        })
       (Some (0, gen_bitmap))"

definition ext2fs_test_generic_bmap :: "'p bitmap_ops \<Rightarrow> 'p gbitmap \<Rightarrow> u64 \<Rightarrow> u32 ub" where
  "ext2fs_test_generic_bmap ops gen_bitmap arg =
     gb_case gen_bitmap (Some 0)
       (\<lambda>b. if high_bits arg then Some 0 else ext2fs_test_generic_bitmap b (ucast arg))
       (\<lambda>b. do {
          arg \<leftarrow> c_shr arg (bm_cluster_bits b);
          if arg < bm_start b \<or> arg > bm_end b then Some 0 else test_bmap ops b arg
        })
       (Some 0)"

subsection \<open>Ranges of bytes\<close>

definition ext2fs_set_generic_bmap_range ::
    "'p bitmap_ops \<Rightarrow> 'p gbitmap \<Rightarrow> u64 \<Rightarrow> u32 \<Rightarrow> u8 list \<Rightarrow> (errcode \<times> 'p gbitmap) ub" where
  "ext2fs_set_generic_bmap_range ops gen_bmap start num inb =
     gb_case gen_bmap (Some (EINVAL, gen_bmap))
       (\<lambda>b. if high_bits (start + ucast num - 1) then Some (EINVAL, gen_bmap)
            else do {
              (retval, b') \<leftarrow> ext2fs_set_generic_bitmap_range (Some b) (b32_magic b) (ucast start) num inb;
              Some (retval, case b' of None \<Rightarrow> NullBitmap | Some b' \<Rightarrow> Bitmap32 b')
            })
       (\<lambda>b. map_option (map_prod id Bitmap64) (set_bmap_range ops b start (unat num) inb))
       (Some (EINVAL, gen_bmap))"

definition ext2fs_get_generic_bmap_range ::
    "'p bitmap_ops \<Rightarrow> 'p gbitmap \<Rightarrow> u64 \<Rightarrow> u32 \<Rightarrow> u8 list \<Rightarrow> (errcode \<times> u8 list) ub" where
  "ext2fs_get_generic_bmap_range ops gen_bmap start num outb =
     gb_case gen_bmap (Some (EINVAL, outb))
       (\<lambda>b. if high_bits (start + ucast num - 1) then Some (EINVAL, outb)
            else ext2fs_get_generic_bitmap_range (Some b) (b32_magic b) (ucast start) num outb)
       (\<lambda>b. get_bmap_range ops b start (unat num) outb)
       (Some (EINVAL, outb))"

subsection \<open>Comparison and padding\<close>

partial_function (option) gb_compare_loop ::
    "'p bitmap_ops \<Rightarrow> 'q bitmap_ops \<Rightarrow> 'p gbitmap \<Rightarrow> 'q gbitmap \<Rightarrow> errcode \<Rightarrow> u64 \<Rightarrow> u64 \<Rightarrow> errcode ub" where
  [code]: "gb_compare_loop ops1 ops2 gen_bm1 gen_bm2 neq end i =
     (if i \<le> end then do {
        t1 \<leftarrow> ext2fs_test_generic_bmap ops1 gen_bm1 i;
        t2 \<leftarrow> ext2fs_test_generic_bmap ops2 gen_bm2 i;
        if t1 \<noteq> t2 then Some neq else gb_compare_loop ops1 ops2 gen_bm1 gen_bm2 neq end (i + 1)
      } else Some E_OK)"

text \<open>The two bitmaps may have different back ends. Same magic number, same layout.\<close>

definition ext2fs_compare_generic_bmap ::
    "'p bitmap_ops \<Rightarrow> 'q bitmap_ops \<Rightarrow> errcode \<Rightarrow> 'p gbitmap \<Rightarrow> 'q gbitmap \<Rightarrow> errcode ub" where
  "ext2fs_compare_generic_bmap ops1 ops2 neq gen_bm1 gen_bm2 =
     (case (gen_bm1, gen_bm2) of
        (NullBitmap, _) \<Rightarrow> Some EINVAL
      | (_, NullBitmap) \<Rightarrow> Some EINVAL
      | (Bitmap32 bm1, Bitmap32 bm2) \<Rightarrow>
          if b32_magic bm1 \<noteq> b32_magic bm2 then Some EINVAL
          else if EXT2FS_IS_32_BITMAP (b32_magic bm1)
          then ext2fs_compare_generic_bitmap (b32_magic bm1) neq (Some bm1) (Some bm2)
          else if EXT2FS_IS_64_BITMAP (b32_magic bm1) then None else Some EINVAL
      | (Bitmap64 bm1, Bitmap64 bm2) \<Rightarrow>
          if bm_magic bm1 \<noteq> bm_magic bm2 then Some EINVAL
          else if EXT2FS_IS_32_BITMAP (bm_magic bm1) then None
          else if \<not> EXT2FS_IS_64_BITMAP (bm_magic bm1) then Some EINVAL
          else if bm_start bm1 \<noteq> bm_start bm2 \<or> bm_end bm1 \<noteq> bm_end bm2 then Some neq
          else gb_compare_loop ops1 ops2 gen_bm1 gen_bm2 neq (bm_end bm1)
                 (bm_end bm1 - (bm_end bm1 - bm_start bm1) mod 8)
      | (Bitmap32 bm1, Bitmap64 bm2) \<Rightarrow> if b32_magic bm1 \<noteq> bm_magic bm2 then Some EINVAL else None
      | (Bitmap64 bm1, Bitmap32 bm2) \<Rightarrow> if bm_magic bm1 \<noteq> b32_magic bm2 then Some EINVAL else None)"

text \<open>The number of padding bits is a 64-bit number that the call truncates to 32 bits.\<close>

definition ext2fs_set_generic_bmap_padding :: "'p bitmap_ops \<Rightarrow> 'p gbitmap \<Rightarrow> 'p gbitmap ub" where
  "ext2fs_set_generic_bmap_padding ops gen_bmap =
     (case gen_bmap of
        NullBitmap \<Rightarrow> None
      | Bitmap32 b \<Rightarrow> if EXT2FS_IS_32_BITMAP (b32_magic b)
                      then map_option Bitmap32 (ext2fs_set_generic_bitmap_padding b) else None
      | Bitmap64 b \<Rightarrow> if EXT2FS_IS_32_BITMAP (bm_magic b) then None
                      else map_option Bitmap64
                             (mark_bmap_extent ops b (bm_end b + 1) (ucast (bm_real_end b - bm_end b))))"

subsection \<open>Runs of blocks\<close>

text \<open>
  The conversion of a run of blocks to a run of clusters: the first cluster and the number of clusters,
  or no meaning where \<^verbatim>\<open>1 << cluster_bits\<close> overflows an \<^verbatim>\<open>int\<close>.
\<close>

definition run_to_clusters :: "nat \<Rightarrow> u64 \<Rightarrow> u32 \<Rightarrow> (u64 \<times> u32) ub" where
  "run_to_clusters cluster_bits block num =
     (if cluster_bits < 31 then
        let end = block + ucast num;
            block = drop_bit cluster_bits block;
            end = drop_bit cluster_bits (end + (push_bit cluster_bits 1 - 1))
        in Some (block, ucast (end - block))
      else None)"

text \<open>\<open>Inl\<close> is an error code that is returned in place of the truth value.\<close>

definition ext2fs_test_block_bitmap_range2 ::
    "'p bitmap_ops \<Rightarrow> 'p gbitmap \<Rightarrow> u64 \<Rightarrow> u32 \<Rightarrow> (errcode + u32) ub" where
  "ext2fs_test_block_bitmap_range2 ops gen_bmap block num =
     (if gen_bmap = NullBitmap then Some (Inl EINVAL)
      else if num = 1 then map_option (\<lambda>t. Inr (if t = 0 then 1 else 0)) (ext2fs_test_generic_bmap ops gen_bmap block)
      else gb_case gen_bmap (Some (Inl EINVAL))
        (\<lambda>b. if high_bits block \<or> high_bits (block + ucast num - 1) then Some (Inl EINVAL)
             else ext2fs_test_block_bitmap_range b (ucast block) (sint num))
        (\<lambda>b. do {
           (block, num) \<leftarrow> run_to_clusters (bm_cluster_bits b) block num;
           if block < bm_start b \<or> block > bm_end b \<or> block + ucast num - 1 > bm_end b
           then Some (Inl EINVAL)
           else map_option Inr (test_clear_bmap_extent ops b block num)
         })
        (Some (Inl EINVAL)))"

definition ext2fs_mark_block_bitmap_range2 ::
    "'p bitmap_ops \<Rightarrow> 'p gbitmap \<Rightarrow> u64 \<Rightarrow> u32 \<Rightarrow> 'p gbitmap ub" where
  "ext2fs_mark_block_bitmap_range2 ops gen_bmap block num =
     gb_case gen_bmap (Some gen_bmap)
       (\<lambda>b. if high_bits block \<or> high_bits (block + ucast num - 1) then Some gen_bmap
            else map_option Bitmap32 (ext2fs_mark_block_bitmap_range b (ucast block) (sint num)))
       (\<lambda>b. do {
          (block, num) \<leftarrow> run_to_clusters (bm_cluster_bits b) block num;
          if block < bm_start b \<or> block > bm_end b \<or> block + ucast num - 1 > bm_end b
          then Some gen_bmap
          else map_option Bitmap64 (mark_bmap_extent ops b block num)
        })
       (Some gen_bmap)"

definition ext2fs_unmark_block_bitmap_range2 ::
    "'p bitmap_ops \<Rightarrow> 'p gbitmap \<Rightarrow> u64 \<Rightarrow> u32 \<Rightarrow> 'p gbitmap ub" where
  "ext2fs_unmark_block_bitmap_range2 ops gen_bmap block num =
     gb_case gen_bmap (Some gen_bmap)
       (\<lambda>b. if high_bits block \<or> high_bits (block + ucast num - 1) then Some gen_bmap
            else map_option Bitmap32 (ext2fs_unmark_block_bitmap_range b (ucast block) (sint num)))
       (\<lambda>b. do {
          (block, num) \<leftarrow> run_to_clusters (bm_cluster_bits b) block num;
          if block < bm_start b \<or> block > bm_end b \<or> block + ucast num - 1 > bm_end b
          then Some gen_bmap
          else map_option Bitmap64 (unmark_bmap_extent ops b block num)
        })
       (Some gen_bmap)"

subsection \<open>Searching\<close>

text \<open>The fallback loop for a back end without a search, \<^verbatim>\<open>for (cout = cstart; cout <= cend; cout++)\<close>.\<close>

partial_function (option) gb_find_loop ::
    "bool \<Rightarrow> 'p bitmap_ops \<Rightarrow> 'p bitmap64 \<Rightarrow> u64 \<Rightarrow> u64 \<Rightarrow> (errcode + u64) ub" where
  [code]: "gb_find_loop want ops b cout cend =
     (if cout \<le> cend then do {
        t \<leftarrow> test_bmap ops b cout;
        if (t \<noteq> 0) = want then Some (Inr cout) else gb_find_loop want ops b (cout + 1) cend
      } else Some (Inl ENOENT))"

text \<open>
  The searches for a clear and for a set number are the same code but for the value and the operation
  \<open>findop\<close> of the back end.
\<close>

definition gb_find_first ::
    "bool \<Rightarrow> (bitmap32 \<Rightarrow> u32 \<Rightarrow> u32 \<Rightarrow> (errcode + u32) ub)
      \<Rightarrow> ('p bitmap64 \<Rightarrow> u64 \<Rightarrow> u64 \<Rightarrow> (errcode + u64) ub) option
      \<Rightarrow> 'p bitmap_ops \<Rightarrow> 'p gbitmap \<Rightarrow> u64 \<Rightarrow> u64 \<Rightarrow> (errcode + u64) ub" where
  "gb_find_first want find32 findop ops bitmap start end =
     gb_case bitmap (Some (Inl EINVAL))
       (\<lambda>b. if high_bits start \<or> high_bits end then Some (Inl EINVAL)
            else map_option (map_sum id ucast) (find32 b (ucast start) (ucast end)))
       (\<lambda>b. do {
          cstart \<leftarrow> c_shr start (bm_cluster_bits b);
          cend \<leftarrow> c_shr end (bm_cluster_bits b);
          if cstart < bm_start b \<or> cend > bm_end b \<or> start > end then Some (Inl EINVAL)
          else do {
            r \<leftarrow> (case findop of Some f \<Rightarrow> f b cstart cend | None \<Rightarrow> gb_find_loop want ops b cstart cend);
            case r of
              Inl retval \<Rightarrow> Some (Inl retval)
            | Inr cout \<Rightarrow> do {
                cout \<leftarrow> c_shl cout (bm_cluster_bits b);
                Some (Inr (if cout \<ge> start then cout else start))
              }
          }
        })
       (Some (Inl EINVAL))"

definition ext2fs_find_first_zero_generic_bmap ::
    "'p bitmap_ops \<Rightarrow> 'p gbitmap \<Rightarrow> u64 \<Rightarrow> u64 \<Rightarrow> (errcode + u64) ub" where
  "ext2fs_find_first_zero_generic_bmap ops =
     gb_find_first False ext2fs_find_first_zero_generic_bitmap (find_first_zero ops) ops"

definition ext2fs_find_first_set_generic_bmap ::
    "'p bitmap_ops \<Rightarrow> 'p gbitmap \<Rightarrow> u64 \<Rightarrow> u64 \<Rightarrow> (errcode + u64) ub" where
  "ext2fs_find_first_set_generic_bmap ops =
     gb_find_first True ext2fs_find_first_set_generic_bitmap (find_first_set ops) ops"

text \<open>
  The loop of \<^verbatim>\<open>ext2fs_count_used_clusters\<close>: the error code and the number of blocks counted.
\<close>

partial_function (option) count_used_loop ::
    "'p bitmap_ops \<Rightarrow> 'p gbitmap \<Rightarrow> u64 \<Rightarrow> u64 \<Rightarrow> u64 \<Rightarrow> (errcode \<times> u64) ub" where
  [code]: "count_used_loop ops block_map start end tot_set =
     (if start < end then do {
        r \<leftarrow> ext2fs_find_first_set_generic_bmap ops block_map start end;
        case r of
          Inl retval \<Rightarrow> Some (if retval = ENOENT then E_OK else retval, tot_set)
        | Inr start \<Rightarrow> do {
            r \<leftarrow> ext2fs_find_first_zero_generic_bmap ops block_map start end;
            case r of
              Inr next \<Rightarrow> count_used_loop ops block_map (next + 1) end (tot_set + (next - start))
            | Inl retval \<Rightarrow>
                if retval = ENOENT then Some (E_OK, tot_set + (end - start + 1))
                else Some (retval, tot_set)
          }
      } else Some (E_OK, tot_set))"

definition EXT2FS_NUM_B2C :: "nat \<Rightarrow> u64 \<Rightarrow> u64 ub" where
  "EXT2FS_NUM_B2C cluster_ratio_bits blks =
     (if cluster_ratio_bits < 31
      then Some (drop_bit cluster_ratio_bits (blks + (push_bit cluster_ratio_bits 1 - 1))) else None)"

definition ext2fs_count_used_clusters ::
    "'p bitmap_ops \<Rightarrow> 'p gbitmap \<Rightarrow> nat \<Rightarrow> u64 \<Rightarrow> u64 \<Rightarrow> (errcode + u64) ub" where
  "ext2fs_count_used_clusters ops block_map cluster_ratio_bits start end = do {
     (retval, tot_set) \<leftarrow> count_used_loop ops block_map start end 0;
     if retval = E_OK then map_option Inr (EXT2FS_NUM_B2C cluster_ratio_bits tot_set)
     else Some (Inl retval)
   }"

text \<open>
  \<^verbatim>\<open>ext2fs_convert_subcluster_bitmap\<close>: the loop that marks in the new bitmap the cluster of every block
  marked in the old one, and the function around it, on the result \<open>new\<close> of the allocation of the new
  bitmap. The structures must be of the 64-bit layout, because the code accesses their fields.
\<close>

partial_function (option) convert_loop ::
    "'p bitmap_ops \<Rightarrow> 'q bitmap_ops \<Rightarrow> nat \<Rightarrow> 'p bitmap64 \<Rightarrow> u64 \<Rightarrow> 'q gbitmap \<Rightarrow> 'q gbitmap ub" where
  [code]: "convert_loop ops ops' bits bmap i gen_cmap =
     (if i < bm_real_end bmap then do {
        r \<leftarrow> ext2fs_find_first_set_generic_bmap ops (Bitmap64 bmap) i (bm_real_end bmap);
        case r of
          Inl _ \<Rightarrow> Some gen_cmap
        | Inr next \<Rightarrow> do {
            (_, gen_cmap) \<leftarrow> ext2fs_mark_generic_bmap ops' gen_cmap next;
            c \<leftarrow> c_shr next bits;
            i \<leftarrow> c_shl (c + 1) bits;
            convert_loop ops ops' bits bmap i gen_cmap
          }
      } else Some gen_cmap)"

definition ext2fs_get_bitmap_granularity :: "'p gbitmap \<Rightarrow> nat ub" where
  "ext2fs_get_bitmap_granularity bitmap =
     (case bitmap of
        NullBitmap \<Rightarrow> None
      | Bitmap32 b \<Rightarrow> if EXT2FS_IS_64_BITMAP (b32_magic b) then None else Some 0
      | Bitmap64 b \<Rightarrow> if EXT2FS_IS_64_BITMAP (bm_magic b) then Some (bm_cluster_bits b) else Some 0)"

definition ext2fs_convert_subcluster_bitmap ::
    "'p bitmap_ops \<Rightarrow> nat \<Rightarrow> errcode + 'p gbitmap \<Rightarrow> 'p gbitmap \<Rightarrow> (errcode \<times> 'p gbitmap) ub" where
  "ext2fs_convert_subcluster_bitmap ops cluster_ratio_bits new gen_bmap = do {
     g \<leftarrow> ext2fs_get_bitmap_granularity gen_bmap;
     if cluster_ratio_bits = g then Some (E_OK, gen_bmap)
     else case new of
       Inl retval \<Rightarrow> Some (retval, gen_bmap)
     | Inr gen_cmap \<Rightarrow>
         (case (gen_bmap, gen_cmap) of
            (Bitmap64 bmap, Bitmap64 cmap) \<Rightarrow> do {
              let bmap = bmap\<lparr>bm_end := bm_real_end bmap\<rparr>;
              g \<leftarrow> convert_loop ops ops cluster_ratio_bits bmap (bm_start bmap)
                    (Bitmap64 (cmap\<lparr>bm_end := bm_real_end cmap\<rparr>));
              case g of
                Bitmap64 cmap' \<Rightarrow> Some (E_OK, Bitmap64 (cmap'\<lparr>bm_end := bm_end cmap\<rparr>))
              | _ \<Rightarrow> None
            }
          | _ \<Rightarrow> None)
   }"

subsection \<open>The numbers a bitmap pointer stands for\<close>

lemma high_bits_iff: "high_bits arg \<longleftrightarrow> 4294967296 \<le> unat arg"
proof -
  have m: "(0xffffffff :: u64) = mask 32" by (simp add: mask_eq_exp_minus_1)
  have "\<not> high_bits arg \<longleftrightarrow> take_bit 32 arg = arg"
    unfolding high_bits_def m by (simp add: bit_eq_iff bit_simps) metis
  also have "\<dots> \<longleftrightarrow> unat arg < 4294967296"
  proof -
    have "unat (take_bit 32 arg) = unat arg mod 4294967296" by (simp add: take_bit_eq_mod unat_mod)
    then show ?thesis unfolding word_unat_eq_iff by (metis mod_less mod_less_divisor zero_less_numeral)
  qed
  finally show ?thesis by auto
qed

lemma unat_ucast_low: "\<not> high_bits arg \<Longrightarrow> unat (ucast arg :: u32) = unat arg"
  by (simp add: high_bits_iff unat_ucast_64_32)

lemma ucast_low_inj: "\<not> high_bits a \<Longrightarrow> \<not> high_bits b \<Longrightarrow> (ucast a :: u32) = ucast b \<longleftrightarrow> a = b"
  by (metis unat_ucast_low word_unat_eq_iff)

text \<open>
  \<open>gb_unit g k\<close> is the set of numbers that share the mark of \<open>k\<close> (its cluster), \<open>gb_univ g\<close> the numbers the
  bitmap covers and \<open>gb_bits bits g\<close> the marked ones, where \<open>bits\<close> is the reading of the back end.
\<close>

definition gb_shift :: "'p gbitmap \<Rightarrow> nat" where
  "gb_shift g = (case g of Bitmap64 b \<Rightarrow> bm_cluster_bits b | _ \<Rightarrow> 0)"

definition gb_unit :: "'p gbitmap \<Rightarrow> u64 \<Rightarrow> u64 set" where
  "gb_unit g k = {x. drop_bit (gb_shift g) x = drop_bit (gb_shift g) k}"

definition gb_univ :: "'p gbitmap \<Rightarrow> u64 set" where
  "gb_univ g = (case g of
     NullBitmap \<Rightarrow> {}
   | Bitmap32 b \<Rightarrow> {k. \<not> high_bits k \<and> b32_start b \<le> ucast k \<and> ucast k \<le> b32_end b}
   | Bitmap64 b \<Rightarrow> {k. bm_start b \<le> drop_bit (bm_cluster_bits b) k \<and> drop_bit (bm_cluster_bits b) k \<le> bm_end b})"

definition gb_bits :: "('p bitmap64 \<Rightarrow> u64 set) \<Rightarrow> 'p gbitmap \<Rightarrow> u64 set" where
  "gb_bits bits g = {k \<in> gb_univ g. case g of
     NullBitmap \<Rightarrow> False
   | Bitmap32 b \<Rightarrow> ucast k \<in> b32_bits b
   | Bitmap64 b \<Rightarrow> drop_bit (bm_cluster_bits b) k \<in> bits b}"

definition gb_ok :: "('p bitmap64 \<Rightarrow> bool) \<Rightarrow> 'p gbitmap \<Rightarrow> bool" where
  "gb_ok good g = (case g of
     NullBitmap \<Rightarrow> False
   | Bitmap32 b \<Rightarrow> b32_ok b
   | Bitmap64 b \<Rightarrow> good b \<and> EXT2FS_IS_64_BITMAP (bm_magic b) \<and> bm_cluster_bits b < 31)"

lemma gb_magic_disjoint [simp]: "EXT2FS_IS_64_BITMAP m \<Longrightarrow> \<not> EXT2FS_IS_32_BITMAP m"
  by (auto simp: EXT2FS_IS_64_BITMAP_def EXT2FS_IS_32_BITMAP_def)

text \<open>On a well-formed bitmap the dispatch takes the branch of its layout.\<close>

lemma gb_case_simps [simp]:
  "b32_ok b \<Longrightarrow> gb_case (Bitmap32 b) null f32 f64 bad = f32 b"
  "EXT2FS_IS_64_BITMAP (bm_magic b64) \<Longrightarrow> gb_case (Bitmap64 b64) null f32 f64 bad = f64 b64"
  by (simp_all add: gb_case_def b32_ok_def)

lemma gb_bits_subset: "gb_bits bits g \<subseteq> gb_univ g"
  by (auto simp: gb_bits_def)

lemma gb_outside_unit: "k \<notin> gb_univ g \<Longrightarrow> gb_unit g k \<inter> gb_univ g = {}"
  by (auto simp: gb_unit_def gb_univ_def gb_shift_def split: gbitmap.splits)

text \<open>The state transformers of a history of marks and unmarks.\<close>

definition gb_add :: "'p bitmap_ops \<Rightarrow> u64 \<Rightarrow> 'p gbitmap \<Rightarrow> 'p gbitmap ub" where
  "gb_add ops k g = map_option snd (ext2fs_mark_generic_bmap ops g k)"

definition gb_del :: "'p bitmap_ops \<Rightarrow> u64 \<Rightarrow> 'p gbitmap \<Rightarrow> 'p gbitmap ub" where
  "gb_del ops k g = map_option snd (ext2fs_unmark_generic_bmap ops g k)"

definition gb_test :: "'p bitmap_ops \<Rightarrow> 'p gbitmap \<Rightarrow> u64 \<Rightarrow> bool ub" where
  "gb_test ops g k = map_option (\<lambda>r. r \<noteq> 0) (ext2fs_test_generic_bmap ops g k)"

context bitmap_backend
begin

lemma gb_ok_range:
  assumes "gb_ok inv (Bitmap64 b)" "bm_start b \<le> c" "c \<le> bm_end b"
  shows "c \<le> bm_real_end b"
proof -
  have "bm_end b \<le> bm_real_end b" using assms(1) inv_range [of b] by (simp add: gb_ok_def)
  with assms(3) show ?thesis by simp
qed

lemma gb_test_all:
  assumes ok: "gb_ok inv g"
  shows "\<exists>r. ext2fs_test_generic_bmap ops g k = Some r \<and> (r \<noteq> 0 \<longleftrightarrow> k \<in> gb_bits bits g)"
proof (cases g)
  case NullBitmap
  with ok show ?thesis by (simp add: gb_ok_def)
next
  case (Bitmap32 b)
  with ok have b: "b32_ok b" by (simp add: gb_ok_def)
  show ?thesis
  proof (cases "k \<in> gb_univ g")
    case True
    with Bitmap32 have k: "\<not> high_bits k" "b32_start b \<le> ucast k" "ucast k \<le> b32_end b" by (simp_all add: gb_univ_def)
    from b32_test_eq [OF b k(2,3)] b32_bits_iff [OF k(2) b32_in_range [OF b k(2,3)]] Bitmap32 b k True show ?thesis
      by (simp add: ext2fs_test_generic_bmap_def gb_bits_def)
  next
    case False
    with Bitmap32 have "high_bits k \<or> ucast k < b32_start b \<or> b32_end b < ucast k" by (auto simp: gb_univ_def)
    with Bitmap32 b False b32_outside(1) [OF b] show ?thesis
      by (auto simp: ext2fs_test_generic_bmap_def gb_bits_def)
  qed
next
  case (Bitmap64 b)
  with ok have b: "inv b" "EXT2FS_IS_64_BITMAP (bm_magic b)" "bm_cluster_bits b < 31" by (simp_all add: gb_ok_def)
  let ?c = "drop_bit (bm_cluster_bits b) k"
  show ?thesis
  proof (cases "bm_start b \<le> ?c \<and> ?c \<le> bm_end b")
    case True
    then have r: "?c \<le> bm_real_end b" using gb_ok_range ok Bitmap64 by blast
    from test_law [OF b(1) _ r] True b Bitmap64 show ?thesis
      by (auto simp: ext2fs_test_generic_bmap_def gb_bits_def gb_univ_def c_shr_def)
  next
    case False
    with b Bitmap64 show ?thesis
      by (auto simp: ext2fs_test_generic_bmap_def gb_bits_def gb_univ_def c_shr_def)
  qed
qed


text \<open>A number outside the bitmap is reported (the warning is not modelled) and changes nothing.\<close>

lemma gb_outside_noop:
  assumes ok: "gb_ok inv g" and out: "k \<notin> gb_univ g"
  shows "ext2fs_mark_generic_bmap ops g k = Some (0, g)" "ext2fs_unmark_generic_bmap ops g k = Some (0, g)"
proof -
  have "ext2fs_mark_generic_bmap ops g k = Some (0, g) \<and> ext2fs_unmark_generic_bmap ops g k = Some (0, g)"
  proof (cases g)
    case NullBitmap
    with ok show ?thesis by (simp add: gb_ok_def)
  next
    case (Bitmap32 b)
    with ok have b: "b32_ok b" by (simp add: gb_ok_def)
    from out Bitmap32 have "high_bits k \<or> ucast k < b32_start b \<or> b32_end b < ucast k" by (auto simp: gb_univ_def)
    with Bitmap32 b show ?thesis using b32_outside(2,3) [OF b]
      by (auto simp: ext2fs_mark_generic_bmap_def ext2fs_unmark_generic_bmap_def)
  next
    case (Bitmap64 b)
    with ok out show ?thesis
      by (auto simp: ext2fs_mark_generic_bmap_def ext2fs_unmark_generic_bmap_def gb_ok_def gb_univ_def c_shr_def)
  qed
  then show "ext2fs_mark_generic_bmap ops g k = Some (0, g)" "ext2fs_unmark_generic_bmap ops g k = Some (0, g)" by simp_all
qed

lemma gb_mark_inside_32:
  assumes b: "b32_ok b" and inside: "k \<in> gb_univ (Bitmap32 b :: 'p gbitmap)" and g: "g = (Bitmap32 b :: 'p gbitmap)"
  shows "\<exists>r g'. ext2fs_mark_generic_bmap ops g k = Some (r, g') \<and> (r \<noteq> 0 \<longleftrightarrow> k \<in> gb_bits bits g)
    \<and> gb_ok inv g' \<and> gb_univ g' = gb_univ g \<and> gb_shift g' = gb_shift g \<and> gb_bits bits g' = gb_bits bits g \<union> (gb_unit g k \<inter> gb_univ g)"
proof -
  from inside have k: "\<not> high_bits k" "b32_start b \<le> ucast k" "ucast k \<le> b32_end b" by (simp_all add: gb_univ_def)
  let ?n = "unat (ucast k :: u32) - unat (b32_start b)"
  let ?b = "b\<lparr>b32_bitmap := set_bit_list (b32_bitmap b) ?n\<rparr>"
  note m = b32_mark_eq [OF b k(2,3)]
  have run: "ext2fs_mark_generic_bmap ops g k = Some (bit_val (b32_bitmap b) ?n, Bitmap32 ?b)"
    using g b k m(1) by (simp add: ext2fs_mark_generic_bmap_def)
  have "k \<in> gb_bits bits g \<longleftrightarrow> bit_at (b32_bitmap b) ?n"
    using g inside b32_bits_iff [OF k(2) b32_in_range [OF b k(2,3)]] by (simp add: gb_bits_def)
  moreover have "gb_univ (Bitmap32 ?b :: 'p gbitmap) = gb_univ g" using g by (simp add: gb_univ_def)
  moreover have "x \<in> gb_bits bits (Bitmap32 ?b) \<longleftrightarrow> x \<in> gb_bits bits g \<union> (gb_unit g k \<inter> gb_univ g)" for x
  proof (cases "high_bits x")
    case False
    from ucast_low_inj [OF this k(1)] False g m(2) show ?thesis
      by (auto simp: gb_bits_def gb_univ_def gb_unit_def gb_shift_def)
  qed (simp add: g gb_bits_def gb_univ_def)
  ultimately show ?thesis using run b g by (simp add: gb_ok_def gb_shift_def set_eq_iff)
qed

lemma gb_unmark_inside_32:
  assumes b: "b32_ok b" and inside: "k \<in> gb_univ (Bitmap32 b :: 'p gbitmap)" and g: "g = (Bitmap32 b :: 'p gbitmap)"
  shows "\<exists>r g'. ext2fs_unmark_generic_bmap ops g k = Some (r, g') \<and> (r \<noteq> 0 \<longleftrightarrow> k \<in> gb_bits bits g)
    \<and> gb_ok inv g' \<and> gb_univ g' = gb_univ g \<and> gb_shift g' = gb_shift g \<and> gb_bits bits g' = gb_bits bits g - gb_unit g k"
proof -
  from inside have k: "\<not> high_bits k" "b32_start b \<le> ucast k" "ucast k \<le> b32_end b" by (simp_all add: gb_univ_def)
  let ?n = "unat (ucast k :: u32) - unat (b32_start b)"
  let ?b = "b\<lparr>b32_bitmap := clear_bit_list (b32_bitmap b) ?n\<rparr>"
  note m = b32_unmark_eq [OF b k(2,3)]
  have run: "ext2fs_unmark_generic_bmap ops g k = Some (bit_val (b32_bitmap b) ?n, Bitmap32 ?b)"
    using g b k m(1) by (simp add: ext2fs_unmark_generic_bmap_def)
  have "k \<in> gb_bits bits g \<longleftrightarrow> bit_at (b32_bitmap b) ?n"
    using g inside b32_bits_iff [OF k(2) b32_in_range [OF b k(2,3)]] by (simp add: gb_bits_def)
  moreover have "gb_univ (Bitmap32 ?b :: 'p gbitmap) = gb_univ g" using g by (simp add: gb_univ_def)
  moreover have "x \<in> gb_bits bits (Bitmap32 ?b) \<longleftrightarrow> x \<in> gb_bits bits g - gb_unit g k" for x
  proof (cases "high_bits x")
    case False
    from ucast_low_inj [OF this k(1)] False g m(2) show ?thesis
      by (auto simp: gb_bits_def gb_univ_def gb_unit_def gb_shift_def)
  qed (simp add: g gb_bits_def gb_univ_def)
  ultimately show ?thesis using run b g by (simp add: gb_ok_def gb_shift_def set_eq_iff)
qed

lemma gb_mark_all:
  assumes ok: "gb_ok inv g"
  shows "\<exists>r g'. ext2fs_mark_generic_bmap ops g k = Some (r, g') \<and> (r \<noteq> 0 \<longleftrightarrow> k \<in> gb_bits bits g)
    \<and> gb_ok inv g' \<and> gb_univ g' = gb_univ g \<and> gb_shift g' = gb_shift g
    \<and> gb_bits bits g' = gb_bits bits g \<union> (gb_unit g k \<inter> gb_univ g)"
proof (cases "k \<in> gb_univ g")
  case False
  with gb_outside_noop [OF ok False] ok gb_outside_unit [OF False] gb_bits_subset [of bits g] show ?thesis by auto
next
  case inside: True
  show ?thesis
  proof (cases g)
    case NullBitmap
    with ok show ?thesis by (simp add: gb_ok_def)
  next
    case (Bitmap32 b)
    with ok inside show ?thesis by (intro gb_mark_inside_32 [of b]) (simp_all add: gb_ok_def)
  next
    case (Bitmap64 b)
    with ok have b: "inv b" "EXT2FS_IS_64_BITMAP (bm_magic b)" "bm_cluster_bits b < 31" by (simp_all add: gb_ok_def)
    let ?c = "drop_bit (bm_cluster_bits b) k"
    from inside Bitmap64 have c: "bm_start b \<le> ?c" "?c \<le> bm_end b" by (simp_all add: gb_univ_def)
    then have r: "?c \<le> bm_real_end b" using gb_ok_range ok Bitmap64 by blast
    from mark_law [OF b(1) c(1) r] obtain r b' where
      m: "mark_bmap ops b ?c = Some (r, b')" "r \<noteq> 0 \<longleftrightarrow> ?c \<in> bits b" "inv b'" "bm_frame b b'"
        "bits b' = insert ?c (bits b)" by auto
    note f = bm_frameD [OF m(4)]
    from b c Bitmap64 m(1) have "ext2fs_mark_generic_bmap ops g k = Some (r, Bitmap64 b')"
      by (auto simp: ext2fs_mark_generic_bmap_def c_shr_def)
    with b c Bitmap64 m f show ?thesis
      by (auto simp: gb_bits_def gb_ok_def gb_univ_def gb_unit_def gb_shift_def)
  qed
qed

lemma gb_unmark_all:
  assumes ok: "gb_ok inv g"
  shows "\<exists>r g'. ext2fs_unmark_generic_bmap ops g k = Some (r, g') \<and> (r \<noteq> 0 \<longleftrightarrow> k \<in> gb_bits bits g)
    \<and> gb_ok inv g' \<and> gb_univ g' = gb_univ g \<and> gb_shift g' = gb_shift g
    \<and> gb_bits bits g' = gb_bits bits g - gb_unit g k"
proof (cases "k \<in> gb_univ g")
  case False
  with gb_outside_noop [OF ok False] ok gb_outside_unit [OF False] gb_bits_subset [of bits g] show ?thesis by auto
next
  case inside: True
  show ?thesis
  proof (cases g)
    case NullBitmap
    with ok show ?thesis by (simp add: gb_ok_def)
  next
    case (Bitmap32 b)
    with ok inside show ?thesis by (intro gb_unmark_inside_32 [of b]) (simp_all add: gb_ok_def)
  next
    case (Bitmap64 b)
    with ok have b: "inv b" "EXT2FS_IS_64_BITMAP (bm_magic b)" "bm_cluster_bits b < 31" by (simp_all add: gb_ok_def)
    let ?c = "drop_bit (bm_cluster_bits b) k"
    from inside Bitmap64 have c: "bm_start b \<le> ?c" "?c \<le> bm_end b" by (simp_all add: gb_univ_def)
    then have r: "?c \<le> bm_real_end b" using gb_ok_range ok Bitmap64 by blast
    from unmark_law [OF b(1) c(1) r] obtain r b' where
      m: "unmark_bmap ops b ?c = Some (r, b')" "r \<noteq> 0 \<longleftrightarrow> ?c \<in> bits b" "inv b'" "bm_frame b b'"
        "bits b' = bits b - {?c}" by auto
    note f = bm_frameD [OF m(4)]
    from b c Bitmap64 m(1) have "ext2fs_unmark_generic_bmap ops g k = Some (r, Bitmap64 b')"
      by (auto simp: ext2fs_unmark_generic_bmap_def c_shr_def)
    with b c Bitmap64 m f show ?thesis
      by (auto simp: gb_bits_def gb_ok_def gb_univ_def gb_unit_def gb_shift_def)
  qed
qed

end

subsection \<open>A bitmap without clusters is a set of numbers\<close>

definition gb_plain :: "('p bitmap64 \<Rightarrow> bool) \<Rightarrow> 'p gbitmap \<Rightarrow> bool" where
  "gb_plain good g \<longleftrightarrow> gb_ok good g \<and> gb_shift g = 0"

lemma gb_unit_plain: "gb_shift g = 0 \<Longrightarrow> gb_unit g k = {k}"
  by (auto simp: gb_unit_def)

sublocale bitmap_backend \<subseteq> gs: set_store "gb_plain inv" "gb_bits bits" gb_univ "\<lambda>_ _. True"
  "gb_add ops" "gb_del ops" "gb_test ops"
proof unfold_locales
  fix g k assume g: "gb_plain inv g"
  then have ok: "gb_ok inv g" and u: "gb_unit g k = {k}" by (simp_all add: gb_plain_def gb_unit_plain)
  from gb_test_all [OF ok, of k] show "gb_test ops g k = Some (k \<in> gb_bits bits g)"
    by (auto simp: gb_test_def)
  assume k: "k \<in> gb_univ g"
  from gb_mark_all [OF ok, of k] g k u
  show "\<exists>s'. gb_add ops k g = Some s' \<and> gb_plain inv s' \<and> gb_bits bits s' = insert k (gb_bits bits g)
      \<and> gb_univ s' = gb_univ g \<and> True"
    by (auto simp: gb_add_def gb_plain_def)
  from gb_unmark_all [OF ok, of k] g u
  show "\<exists>s'. gb_del ops k g = Some s' \<and> gb_plain inv s' \<and> gb_bits bits s' = gb_bits bits g - {k}
      \<and> gb_univ s' = gb_univ g \<and> True"
    by (auto simp: gb_del_def gb_plain_def)
qed

subsection \<open>Runs of blocks and their clusters\<close>

text \<open>The blocks whose mark is shared by a block of the run.\<close>

definition gb_run :: "'p gbitmap \<Rightarrow> u64 \<Rightarrow> u32 \<Rightarrow> u64 set" where
  "gb_run g block num = {x. \<exists>y. unat block \<le> unat y \<and> unat y < unat block + unat num \<and> x \<in> gb_unit g y}"

lemma div_add_le: "0 < q \<Longrightarrow> (b + k) div q \<le> b div q + k" for b k q :: nat
proof (rule less_Suc_eq_le [THEN iffD1], rule less_mult_imp_div_less)
  assume "0 < q"
  then have "b < (b div q + 1) * q" using dividend_less_div_times [of q b] by (simp add: algebra_simps)
  moreover have "k \<le> k * q" using \<open>0 < q\<close> by simp
  moreover have "Suc (b div q + k) * q = (b div q + 1) * q + k * q" by (simp add: algebra_simps)
  ultimately show "b + k < Suc (b div q + k) * q" by linarith
qed

lemma run_to_clusters_eq:
  assumes cb: "cb < 31" and num: "0 < num" and fits: "unat block + unat num + 2 ^ cb \<le> 18446744073709551616"
  obtains n where "run_to_clusters cb block num = Some (drop_bit cb block, n)"
    "unat (drop_bit cb block) + unat n = (unat block + unat num - 1) div 2 ^ cb + 1" "0 < n"
proof -
  let ?q = "2 ^ cb :: nat" and ?b = "unat block" and ?m = "unat num"
  have m: "0 < ?m" using num by (simp add: word_less_nat_alt)
  have q: "0 < ?q" "?q < 18446744073709551616" using cb power_strict_increasing [of cb 64 "2::nat"] by simp_all
  have p: "unat (push_bit cb 1 :: u64) = ?q" using q by (subst unat_push_bit_u64) simp_all
  then have "(1 :: u64) \<le> push_bit cb 1" using q by (simp add: word_le_nat_alt Suc_leI)
  from unat_diff_le [OF this] have mask: "unat (push_bit cb 1 - 1 :: u64) = ?q - 1" unfolding p by simp
  define e where "e = drop_bit cb (block + ucast num + (push_bit cb 1 - 1))"
  have "?b + ?m < 18446744073709551616" using fits q by linarith
  then have "unat (block + ucast num) = ?b + ?m" by (simp add: unat_word_ariths)
  moreover have "?b + ?m + (?q - 1) < 18446744073709551616" using fits q by linarith
  ultimately have "unat (block + ucast num + (push_bit cb 1 - 1)) = ?b + ?m + (?q - 1)"
    using mask unat_add_u64 [of "block + ucast num" "push_bit cb 1 - 1"] by metis
  then have "unat e = (?b + ?m - 1 + ?q) div ?q" unfolding e_def unat_drop_bit_div using m q by simp
  then have e: "unat e = (?b + ?m - 1) div ?q + 1" using div_add_self2 [of ?q "?b + ?m - 1"] by simp
  have le: "?b div ?q \<le> (?b + ?m - 1) div ?q" using m by (simp add: div_le_mono)
  have up: "(?b + (?m - 1)) div ?q \<le> ?b div ?q + (?m - 1)" by (rule div_add_le [OF q(1)])
  have ce: "drop_bit cb block \<le> e" using le e by (simp add: word_le_nat_alt unat_drop_bit_div)
  have d: "unat (e - drop_bit cb block) = (?b + ?m - 1) div ?q + 1 - ?b div ?q"
    using ce e by (simp add: unat_diff_le unat_drop_bit_div)
  have bound: "(?b + ?m - 1) div ?q + 1 - ?b div ?q \<le> ?m" using up m by (simp add: add_diff_assoc)
  let ?n = "ucast (e - drop_bit cb block) :: u32"
  have n: "unat ?n = (?b + ?m - 1) div ?q + 1 - ?b div ?q"
    unfolding unat_ucast_64_32 d using bound unat_u32_less [of num] by (simp add: le_less_trans)
  show thesis
  proof (rule that)
    show "run_to_clusters cb block num = Some (drop_bit cb block, ?n)"
      using cb by (simp add: run_to_clusters_def e_def Let_def)
    show "unat (drop_bit cb block) + unat ?n = (?b + ?m - 1) div ?q + 1"
      using n le by (simp add: unat_drop_bit_div)
    show "0 < ?n" using n le by (simp add: word_less_nat_alt)
  qed
qed

text \<open>The clusters between the first and the last one are exactly those that a block of the run touches.\<close>

lemma cluster_touched_iff:
  assumes "0 < q" "0 < (m :: nat)"
  shows "b div q \<le> x div q \<and> x div q \<le> (b + m - 1) div q \<longleftrightarrow> (\<exists>y. b \<le> y \<and> y < b + m \<and> x div q = y div q)"
proof
  assume h: "b div q \<le> x div q \<and> x div q \<le> (b + m - 1) div q"
  show "\<exists>y. b \<le> y \<and> y < b + m \<and> x div q = y div q"
  proof (cases "b div q = x div q")
    case True
    with assms show ?thesis by (intro exI [of _ b]) simp
  next
    case False
    with h have lt: "b div q < x div q" by simp
    let ?y = "x div q * q"
    have "b < ?y" using lt assms(1) by (simp add: div_less_iff_less_mult)
    moreover have "?y \<le> (b + m - 1) div q * q" using h by simp
    then have "?y \<le> b + m - 1" by (meson div_times_less_eq_dividend le_trans)
    ultimately show ?thesis using assms by (intro exI [of _ ?y]) auto
  qed
next
  assume "\<exists>y. b \<le> y \<and> y < b + m \<and> x div q = y div q"
  then obtain y where "b \<le> y" "y \<le> b + m - 1" "x div q = y div q" by auto
  then show "b div q \<le> x div q \<and> x div q \<le> (b + m - 1) div q" by (simp add: div_le_mono)
qed

lemma last_cluster_word:
  fixes c z :: u64 and n :: u32
  assumes "0 < unat n" "unat z = unat c + unat n - 1"
  shows "c + ucast n - 1 = z"
proof -
  have e: "c + ucast n - 1 = c + (ucast n - 1)" by simp
  have "unat (ucast n - 1 :: u64) = unat n - 1"
    using assms(1) by (subst unat_diff_le) (simp_all add: word_le_nat_alt)
  moreover have "unat c + (unat n - 1) < 18446744073709551616"
    using assms unat_u64_less [of z] by linarith
  ultimately have "unat (c + ucast n - 1) = unat c + (unat n - 1)" unfolding e by (subst unat_add_u64) simp_all
  then show ?thesis using assms by (simp add: word_unat_eq_iff)
qed

lemma gb_run_iff:
  assumes "unat block + unat num \<le> 18446744073709551616"
  shows "x \<in> gb_run (Bitmap64 b) block num \<longleftrightarrow>
    (\<exists>y. unat block \<le> y \<and> y < unat block + unat num \<and> unat x div 2 ^ bm_cluster_bits b = y div 2 ^ bm_cluster_bits b)" (is "?run \<longleftrightarrow> ?touch")
proof
  assume ?touch
  then obtain y where y: "unat block \<le> y" "y < unat block + unat num" "unat x div 2 ^ bm_cluster_bits b = y div 2 ^ bm_cluster_bits b" by blast
  then have "unat (of_nat y :: u64) = y" using assms by (intro unat_of_nat_u64) simp
  with y show ?run
    unfolding gb_run_def gb_unit_def gb_shift_def
    by (auto simp: word_unat_eq_iff unat_drop_bit_div intro!: exI [of _ "of_nat y"])
next
  assume ?run
  then show ?touch
    unfolding gb_run_def gb_unit_def gb_shift_def
    by (auto simp: word_unat_eq_iff unat_drop_bit_div)
qed

context bitmap_backend
begin

text \<open>What a run of blocks inside a 64-bit bitmap becomes: a run of clusters that passes the guards.\<close>

lemma gb_run_clusters:
  assumes ok: "gb_ok inv (Bitmap64 b)" and num: "0 < num"
    and fits: "unat block + unat num + 2 ^ bm_cluster_bits b \<le> 18446744073709551616"
    and inside: "\<And>y. unat block \<le> unat y \<Longrightarrow> unat y < unat block + unat num \<Longrightarrow> y \<in> gb_univ (Bitmap64 b)"
  obtains c n where "run_to_clusters (bm_cluster_bits b) block num = Some (c, n)"
    "\<not> c < bm_start b" "\<not> bm_end b < c" "\<not> bm_end b < c + ucast n - 1"
    "unat c + unat n \<le> Suc (unat (bm_real_end b))"
    "\<And>x. unat c \<le> unat (drop_bit (bm_cluster_bits b) x) \<and> unat (drop_bit (bm_cluster_bits b) x) < unat c + unat n
       \<longleftrightarrow> x \<in> gb_run (Bitmap64 b) block num"
    "\<And>c'. unat c \<le> unat c' \<and> unat c' < unat c + unat n \<Longrightarrow> \<exists>x. drop_bit (bm_cluster_bits b) x = (c' :: u64)"
proof -
  let ?cb = "bm_cluster_bits b" and ?b = "unat block" and ?m = "unat num"
  have cb: "?cb < 31" using ok by (simp add: gb_ok_def)
  have m: "0 < ?m" using num by (simp add: word_less_nat_alt)
  from run_to_clusters_eq [OF cb num fits] obtain n where
    r: "run_to_clusters ?cb block num = Some (drop_bit ?cb block, n)"
      "unat (drop_bit ?cb block) + unat n = (?b + ?m - 1) div 2 ^ ?cb + 1" "0 < n" .
  let ?c = "drop_bit ?cb block"
  define z :: u64 where "z = of_nat (?b + ?m - 1)"
  have z: "unat z = ?b + ?m - 1" unfolding z_def using fits by (intro unat_of_nat_u64) simp
  have zin: "z \<in> gb_univ (Bitmap64 b)" using inside [of z] z m by simp
  have bin: "block \<in> gb_univ (Bitmap64 b)" using inside [of block] m by simp
  have zc: "unat (drop_bit ?cb z) = unat ?c + unat n - 1"
    using r(2) by (simp add: unat_drop_bit_div z)
  have zend: "drop_bit ?cb z \<le> bm_end b" using zin by (simp add: gb_univ_def)
  have n0: "0 < unat n" using r(3) by (simp add: word_less_nat_alt)
  have last: "?c + ucast n - 1 = drop_bit ?cb z" by (rule last_cluster_word [OF n0 zc])
  show thesis
  proof (rule that [OF r(1)])
    show "\<not> ?c < bm_start b" "\<not> bm_end b < ?c" using bin by (auto simp: gb_univ_def)
    show "\<not> bm_end b < ?c + ucast n - 1" unfolding last using zend by simp
    have "bm_end b \<le> bm_real_end b" using ok inv_range [of b] by (simp add: gb_ok_def)
    with zend have "unat (drop_bit ?cb z) \<le> unat (bm_real_end b)" by (simp add: word_le_nat_alt)
    with zc n0 show "unat ?c + unat n \<le> Suc (unat (bm_real_end b))" by linarith
    show "\<exists>x. drop_bit ?cb x = (c' :: u64)" if "unat ?c \<le> unat c' \<and> unat c' < unat ?c + unat n" for c'
    proof
      have "unat c' \<le> unat z div 2 ^ ?cb" using that zc unfolding unat_drop_bit_div by linarith
      then have "unat c' * 2 ^ ?cb \<le> unat z" by (simp add: less_eq_div_iff_mult_less_eq)
      then have "unat c' * 2 ^ ?cb < 18446744073709551616" using unat_u64_less [of z] by linarith
      from unat_push_bit_u64 [OF this] show "drop_bit ?cb (push_bit ?cb c') = c'"
        by (simp add: word_unat_eq_iff unat_drop_bit_div)
    qed
    fix x :: u64
    have "unat ?c \<le> unat (drop_bit ?cb x) \<and> unat (drop_bit ?cb x) < unat ?c + unat n \<longleftrightarrow>
        ?b div 2 ^ ?cb \<le> unat x div 2 ^ ?cb \<and> unat x div 2 ^ ?cb \<le> (?b + ?m - 1) div 2 ^ ?cb"
      unfolding r(2) by (simp add: unat_drop_bit_div less_Suc_eq_le)
    also have "\<dots> \<longleftrightarrow> (\<exists>y. ?b \<le> y \<and> y < ?b + ?m \<and> unat x div 2 ^ ?cb = y div 2 ^ ?cb)"
      by (rule cluster_touched_iff) (use m in simp_all)
    also have "\<dots> \<longleftrightarrow> x \<in> gb_run (Bitmap64 b) block num" by (subst gb_run_iff) (use fits in simp_all)
    finally show "unat ?c \<le> unat (drop_bit ?cb x) \<and> unat (drop_bit ?cb x) < unat ?c + unat n \<longleftrightarrow>
      x \<in> gb_run (Bitmap64 b) block num" .
  qed
qed

lemma gb_run_univ:
  assumes "\<And>y. unat block \<le> unat y \<Longrightarrow> unat y < unat block + unat num \<Longrightarrow> y \<in> gb_univ (Bitmap64 b)"
  shows "gb_run (Bitmap64 b) block num \<subseteq> gb_univ (Bitmap64 b)"
proof
  fix x assume "x \<in> gb_run (Bitmap64 b) block num"
  then obtain y where "unat block \<le> unat y" "unat y < unat block + unat num" "x \<in> gb_unit (Bitmap64 b) y"
    by (auto simp: gb_run_def)
  with assms [of y] show "x \<in> gb_univ (Bitmap64 b)" by (simp add: gb_unit_def gb_univ_def gb_shift_def)
qed

end

lemma gb_clear_clusters_iff:
  assumes run: "\<And>x. unat c \<le> unat (drop_bit (bm_cluster_bits b) x) \<and> unat (drop_bit (bm_cluster_bits b) x) < m
      \<longleftrightarrow> x \<in> R"
    and ex: "\<And>c'. unat c \<le> unat c' \<and> unat c' < m \<Longrightarrow> \<exists>x. drop_bit (bm_cluster_bits b) x = (c' :: u64)"
    and sub: "R \<subseteq> gb_univ (Bitmap64 b)"
  shows "(\<forall>x. unat c \<le> unat x \<and> unat x < m \<longrightarrow> x \<notin> bits b) \<longleftrightarrow> gb_bits bits (Bitmap64 b) \<inter> R = {}"
proof
  assume "\<forall>x. unat c \<le> unat x \<and> unat x < m \<longrightarrow> x \<notin> bits b"
  then show "gb_bits bits (Bitmap64 b) \<inter> R = {}" using run by (auto simp: gb_bits_def)
next
  assume d: "gb_bits bits (Bitmap64 b) \<inter> R = {}"
  show "\<forall>x. unat c \<le> unat x \<and> unat x < m \<longrightarrow> x \<notin> bits b"
  proof (intro allI impI)
    fix c' :: u64 assume c': "unat c \<le> unat c' \<and> unat c' < m"
    then obtain x where x: "drop_bit (bm_cluster_bits b) x = c'" using ex by blast
    with c' run have "x \<in> R" by metis
    with x d sub show "c' \<notin> bits b" by (auto simp: gb_bits_def)
  qed
qed

context bitmap_backend
begin

lemma gb_range2_64:
  assumes ok: "gb_ok inv (Bitmap64 b)" and num: "0 < num"
    and fits: "unat block + unat num + 2 ^ bm_cluster_bits b \<le> 18446744073709551616"
    and inside: "\<And>y. unat block \<le> unat y \<Longrightarrow> unat y < unat block + unat num \<Longrightarrow> y \<in> gb_univ (Bitmap64 b)"
  shows "\<exists>b'. ext2fs_mark_block_bitmap_range2 ops (Bitmap64 b) block num = Some (Bitmap64 b') \<and> gb_ok inv (Bitmap64 b')
      \<and> gb_bits bits (Bitmap64 b') = gb_bits bits (Bitmap64 b) \<union> gb_run (Bitmap64 b) block num"
    and "\<exists>b'. ext2fs_unmark_block_bitmap_range2 ops (Bitmap64 b) block num = Some (Bitmap64 b') \<and> gb_ok inv (Bitmap64 b')
      \<and> gb_bits bits (Bitmap64 b') = gb_bits bits (Bitmap64 b) - gb_run (Bitmap64 b) block num"
    and "\<exists>r. ext2fs_test_block_bitmap_range2 ops (Bitmap64 b) block num = Some (Inr r)
      \<and> (r \<noteq> 0 \<longleftrightarrow> gb_bits bits (Bitmap64 b) \<inter> gb_run (Bitmap64 b) block num = {})"
proof -
  from ok have b: "inv b" "EXT2FS_IS_64_BITMAP (bm_magic b)" "bm_cluster_bits b < 31" by (simp_all add: gb_ok_def)
  from gb_run_clusters [OF ok num fits inside] obtain c n where
    r: "run_to_clusters (bm_cluster_bits b) block num = Some (c, n)"
    and g: "\<not> c < bm_start b" "\<not> bm_end b < c" "\<not> bm_end b < c + ucast n - 1"
    and e: "unat c + unat n \<le> Suc (unat (bm_real_end b))"
    and run: "\<And>x. unat c \<le> unat (drop_bit (bm_cluster_bits b) x) \<and> unat (drop_bit (bm_cluster_bits b) x) < unat c + unat n
       \<longleftrightarrow> x \<in> gb_run (Bitmap64 b) block num"
    and ex: "\<And>c'. unat c \<le> unat c' \<and> unat c' < unat c + unat n \<Longrightarrow> \<exists>x. drop_bit (bm_cluster_bits b) x = (c' :: u64)"
    by blast
  note univ = gb_run_univ [OF inside, of block num]
  have c: "bm_start b \<le> c" using g(1) by simp
  from mark_extent_law [OF b(1) c e] obtain b' where
    m: "mark_bmap_extent ops b c n = Some b'" "inv b'" "bm_frame b b'"
      "bits b' = bits b \<union> {x. unat c \<le> unat x \<and> unat x < unat c + unat n}" by auto
  note f = bm_frameD [OF m(3)]
  have "gb_bits bits (Bitmap64 b') = gb_bits bits (Bitmap64 b) \<union> gb_run (Bitmap64 b) block num"
    using univ f m(4) run by (auto simp: gb_bits_def gb_univ_def)
  with m(1,2) f b r g show "\<exists>b'. ext2fs_mark_block_bitmap_range2 ops (Bitmap64 b) block num = Some (Bitmap64 b')
      \<and> gb_ok inv (Bitmap64 b') \<and> gb_bits bits (Bitmap64 b') = gb_bits bits (Bitmap64 b) \<union> gb_run (Bitmap64 b) block num"
    by (simp add: ext2fs_mark_block_bitmap_range2_def gb_ok_def)
  from unmark_extent_law [OF b(1) c e] obtain b' where
    m: "unmark_bmap_extent ops b c n = Some b'" "inv b'" "bm_frame b b'"
      "bits b' = bits b - {x. unat c \<le> unat x \<and> unat x < unat c + unat n}" by auto
  note f = bm_frameD [OF m(3)]
  have "gb_bits bits (Bitmap64 b') = gb_bits bits (Bitmap64 b) - gb_run (Bitmap64 b) block num"
    using f m(4) run by (auto simp: gb_bits_def gb_univ_def)
  with m(1,2) f b r g show "\<exists>b'. ext2fs_unmark_block_bitmap_range2 ops (Bitmap64 b) block num = Some (Bitmap64 b')
      \<and> gb_ok inv (Bitmap64 b') \<and> gb_bits bits (Bitmap64 b') = gb_bits bits (Bitmap64 b) - gb_run (Bitmap64 b) block num"
    by (simp add: ext2fs_unmark_block_bitmap_range2_def gb_ok_def)
  show "\<exists>r. ext2fs_test_block_bitmap_range2 ops (Bitmap64 b) block num = Some (Inr r)
      \<and> (r \<noteq> 0 \<longleftrightarrow> gb_bits bits (Bitmap64 b) \<inter> gb_run (Bitmap64 b) block num = {})"
  proof (cases "num = 1")
    case True
    have "unat block \<le> unat y \<and> unat y < unat block + unat num \<longleftrightarrow> y = block" for y :: u64
      using True by (auto simp: word_unat_eq_iff)
    then have "gb_run (Bitmap64 b) block num = gb_unit (Bitmap64 b) block"
      unfolding gb_run_def by (simp add: conj_assoc [symmetric])
    moreover have "gb_bits bits (Bitmap64 b) \<inter> gb_unit (Bitmap64 b) block = {} \<longleftrightarrow> block \<notin> gb_bits bits (Bitmap64 b)"
      by (auto simp: gb_bits_def gb_unit_def gb_univ_def gb_shift_def)
    ultimately show ?thesis using gb_test_all [OF ok, of block] True
      by (auto simp: ext2fs_test_block_bitmap_range2_def)
  next
    case False
    from test_clear_law [OF b(1) c e] obtain t where
      t: "test_clear_bmap_extent ops b c n = Some t"
        "t \<noteq> 0 \<longleftrightarrow> (\<forall>x. unat c \<le> unat x \<and> unat x < unat c + unat n \<longrightarrow> x \<notin> bits b)" by auto
    have "(\<forall>x. unat c \<le> unat x \<and> unat x < unat c + unat n \<longrightarrow> x \<notin> bits b) \<longleftrightarrow>
        gb_bits bits (Bitmap64 b) \<inter> gb_run (Bitmap64 b) block num = {}"
      using univ by (intro gb_clear_clusters_iff [OF run ex])
    with t r b g False show ?thesis by (simp add: ext2fs_test_block_bitmap_range2_def)
  qed
qed

end

subsection \<open>Searching\<close>

context bitmap_search
begin

lemma gb_find_loop_first:
  assumes "inv b" "bm_start b \<le> s" "e \<le> bm_real_end b" "e \<noteq> 0xffffffffffffffff"
  shows "\<exists>r. gb_find_loop want ops b s e = Some r \<and> is_first (\<lambda>x. (x \<in> bits b) = want) s e r"
  using assms(2)
proof (induction "Suc (unat e) - unat s" arbitrary: s)
  case 0
  then have "\<not> s \<le> e" by (simp add: word_le_nat_alt)
  moreover from this have "\<not> (s \<le> x \<and> x \<le> e)" for x by auto
  ultimately show ?case by (subst gb_find_loop.simps) (auto simp: is_first_def)
next
  case (Suc n)
  then have se: "s \<le> e" by (simp add: word_le_nat_alt)
  have "s \<le> bm_real_end b" using se assms(3) by simp
  from test_law [OF assms(1) Suc.prems this] obtain t where t: "test_bmap ops b s = Some t" "t \<noteq> 0 \<longleftrightarrow> s \<in> bits b"
    by auto
  show ?case
  proof (cases "(s \<in> bits b) = want")
    case True
    with se t show ?thesis by (subst gb_find_loop.simps) (auto simp: is_first_def)
  next
    case False
    have "e < 0xffffffffffffffff" using assms(4) by (rule u64_less_max)
    with se have "s < 0xffffffffffffffff" by simp
    then have u: "unat (s + 1) = Suc (unat s)" by (rule unat_inc)
    have "bm_start b \<le> s + 1" using Suc.prems u by (simp add: word_le_nat_alt)
    moreover have "n = Suc (unat e) - unat (s + 1)" using Suc.hyps(2) u by simp
    ultimately obtain r where r: "gb_find_loop want ops b (s + 1) e = Some r"
      "is_first (\<lambda>x. (x \<in> bits b) = want) (s + 1) e r"
      using Suc.hyps(1) by blast
    have step: "s \<le> x \<longleftrightarrow> x = s \<or> s + 1 \<le> x" for x
      using u by (auto simp: word_le_nat_alt word_unat_eq_iff)
    have "is_first (\<lambda>x. (x \<in> bits b) = want) s e r"
      using r(2) False by (cases r) (auto simp: is_first_def step)
    with r(1) se t False show ?thesis by (subst gb_find_loop.simps) auto
  qed
qed

text \<open>The first cluster with the wanted mark gives the first block with the wanted mark.\<close>

lemma first_cluster_block:
  assumes cb: "cb < 64" and se: "s \<le> e" and r: "is_first P (drop_bit cb s) (drop_bit cb e) r"
    and Q: "\<And>x. s \<le> x \<Longrightarrow> x \<le> e \<Longrightarrow> Q x = P (drop_bit cb x)"
  shows "\<exists>r'. (case r of Inl c \<Rightarrow> Some (Inl c)
      | Inr c \<Rightarrow> Option.bind (c_shl c cb) (\<lambda>c. Some (Inr (if s \<le> c then c else s)))) = Some r' \<and> is_first Q s e r'"
proof (cases r)
  case (Inl c)
  have mono: "drop_bit cb x \<le> drop_bit cb y" if "x \<le> y" for x y :: u64
    using that by (simp add: word_le_nat_alt unat_drop_bit_div div_le_mono)
  from Inl r have "c = ENOENT" "\<And>x. drop_bit cb s \<le> x \<Longrightarrow> x \<le> drop_bit cb e \<Longrightarrow> \<not> P x" by (auto simp: is_first_def)
  with Inl Q mono show ?thesis by (auto simp: is_first_def)
next
  case (Inr c)
  have mono: "drop_bit cb x \<le> drop_bit cb y" if "x \<le> y" for x y :: u64
    using that by (simp add: word_le_nat_alt unat_drop_bit_div div_le_mono)
  from Inr r have c: "drop_bit cb s \<le> c" "c \<le> drop_bit cb e" "P c" "\<And>x. drop_bit cb s \<le> x \<Longrightarrow> x < c \<Longrightarrow> \<not> P x"
    by (auto simp: is_first_def)
  let ?q = "2 ^ cb :: nat" and ?v = "if s \<le> push_bit cb c then push_bit cb c else s"
  have "unat c \<le> unat e div ?q" using c(2) by (simp add: word_le_nat_alt unat_drop_bit_div)
  then have ce: "unat c * ?q \<le> unat e" by (simp add: less_eq_div_iff_mult_less_eq)
  then have p: "unat (push_bit cb c) = unat c * ?q"
    using unat_u64_less [of e] by (intro unat_push_bit_u64) linarith
  have sc: "unat s div ?q \<le> unat c" using c(1) by (simp add: word_le_nat_alt unat_drop_bit_div)
  have v: "drop_bit cb ?v = c" "s \<le> ?v" "?v \<le> e"
  proof -
    show "drop_bit cb ?v = c"
    proof (cases "s \<le> push_bit cb c")
      case True
      then show ?thesis using p by (simp add: word_unat_eq_iff unat_drop_bit_div)
    next
      case False
      then have "unat c * ?q < unat s" using p by (simp add: word_le_nat_alt)
      then have "unat c \<le> unat s div ?q" by (simp add: less_eq_div_iff_mult_less_eq)
      with sc False show ?thesis by (simp add: word_unat_eq_iff unat_drop_bit_div)
    qed
    show "s \<le> ?v" "?v \<le> e" using se ce p by (auto simp: word_le_nat_alt)
  qed
  have "\<not> Q x" if x: "s \<le> x" "x < ?v" for x
  proof -
    have "drop_bit cb x \<noteq> c"
    proof
      assume "drop_bit cb x = c"
      then have "unat c * ?q \<le> unat x" by (metis div_times_less_eq_dividend unat_drop_bit_div)
      with x p show False by (auto simp: word_le_nat_alt word_less_nat_alt split: if_splits)
    qed
    moreover have "drop_bit cb x \<le> c" using mono [of x ?v] x v(1) by simp
    ultimately have "drop_bit cb x < c" by simp
    with c(4) mono [OF x(1)] Q [OF x(1)] x(2) v(3) show ?thesis by auto
  qed
  with v c(3) Q [OF v(2,3)] Inr cb show ?thesis by (auto simp: is_first_def c_shl_def)
qed

end

context bitmap_search
begin

lemma gb_find_first_64:
  assumes ok: "gb_ok inv (Bitmap64 b)" and se: "s \<le> e"
    and s: "bm_start b \<le> drop_bit (bm_cluster_bits b) s" and e: "drop_bit (bm_cluster_bits b) e \<le> bm_end b"
    and law: "\<And>cs ce. bm_start b \<le> cs \<Longrightarrow> cs \<le> ce \<Longrightarrow> ce \<le> bm_end b \<Longrightarrow>
      \<exists>r. (case findop of Some f \<Rightarrow> f b cs ce | None \<Rightarrow> gb_find_loop want ops b cs ce) = Some r
        \<and> is_first (\<lambda>x. (x \<in> bits b) = want) cs ce r"
  shows "\<exists>r. gb_find_first want find32 findop ops (Bitmap64 b) s e = Some r
    \<and> is_first (\<lambda>x. (x \<in> gb_bits bits (Bitmap64 b)) = want) s e r"
proof -
  let ?cb = "bm_cluster_bits b"
  from ok have b: "inv b" "EXT2FS_IS_64_BITMAP (bm_magic b)" "?cb < 31" by (simp_all add: gb_ok_def)
  have mono: "drop_bit ?cb x \<le> drop_bit ?cb y" if "x \<le> y" for x y :: u64
    using that by (simp add: word_le_nat_alt unat_drop_bit_div div_le_mono)
  from law [OF s mono [OF se] e] obtain r where
    r: "(case findop of Some f \<Rightarrow> f b (drop_bit ?cb s) (drop_bit ?cb e)
         | None \<Rightarrow> gb_find_loop want ops b (drop_bit ?cb s) (drop_bit ?cb e)) = Some r"
      "is_first (\<lambda>x. (x \<in> bits b) = want) (drop_bit ?cb s) (drop_bit ?cb e) r"
    by blast
  have Q: "((x \<in> gb_bits bits (Bitmap64 b)) = want) = ((drop_bit ?cb x \<in> bits b) = want)" if "s \<le> x" "x \<le> e" for x
  proof -
    have "bm_start b \<le> drop_bit ?cb x" "drop_bit ?cb x \<le> bm_end b"
      using s e mono [OF that(1)] mono [OF that(2)] by auto
    then show ?thesis by (simp add: gb_bits_def gb_univ_def)
  qed
  have cb64: "?cb < 64" using b(3) by simp
  have guard: "\<not> drop_bit ?cb s < bm_start b" "\<not> bm_end b < drop_bit ?cb e" "\<not> e < s" using s e se by auto
  from first_cluster_block [where P = "\<lambda>c. (c \<in> bits b) = want" and Q = "\<lambda>x. (x \<in> gb_bits bits (Bitmap64 b)) = want",
      OF cb64 se r(2) Q]
  show ?thesis using b(2) cb64 guard r(1) by (simp add: gb_find_first_def c_shr_def)
qed

lemma gb_find_first_zero_least:
  assumes ok: "gb_ok inv (Bitmap64 b)" and "s \<le> e"
    and "bm_start b \<le> drop_bit (bm_cluster_bits b) s" "drop_bit (bm_cluster_bits b) e \<le> bm_end b"
    and max: "find_first_zero ops = None \<longrightarrow> bm_end b \<noteq> 0xffffffffffffffff"
  shows "\<exists>r. ext2fs_find_first_zero_generic_bmap ops (Bitmap64 b) s e = Some r
    \<and> is_first (\<lambda>x. x \<notin> gb_bits bits (Bitmap64 b)) s e r"
proof -
  have b: "inv b" "bm_end b \<le> bm_real_end b" using ok inv_range [of b] by (simp_all add: gb_ok_def)
  have "\<exists>r. (case find_first_zero ops of Some f \<Rightarrow> f b cs ce | None \<Rightarrow> gb_find_loop False ops b cs ce) = Some r
      \<and> is_first (\<lambda>x. (x \<in> bits b) = False) cs ce r"
    if c: "bm_start b \<le> cs" "cs \<le> ce" "ce \<le> bm_end b" for cs ce
  proof (cases "find_first_zero ops")
    case None
    then have "ce \<noteq> 0xffffffffffffffff" using c(3) max u64_less_max [of "bm_end b"] by auto
    with gb_find_loop_first [OF b(1) c(1), of ce False] None c(3) b(2) show ?thesis by (simp add: order_trans)
  next
    case (Some f)
    with find_zero_law [OF b(1) c(1,2) _ Some] c(3) b(2) show ?thesis by auto
  qed
  from gb_find_first_64 [OF assms(1-4) this] show ?thesis
    by (simp add: ext2fs_find_first_zero_generic_bmap_def)
qed

lemma gb_find_first_set_least:
  assumes ok: "gb_ok inv (Bitmap64 b)" and "s \<le> e"
    and "bm_start b \<le> drop_bit (bm_cluster_bits b) s" "drop_bit (bm_cluster_bits b) e \<le> bm_end b"
    and max: "find_first_set ops = None \<longrightarrow> bm_end b \<noteq> 0xffffffffffffffff"
  shows "\<exists>r. ext2fs_find_first_set_generic_bmap ops (Bitmap64 b) s e = Some r
    \<and> is_first (\<lambda>x. x \<in> gb_bits bits (Bitmap64 b)) s e r"
proof -
  have b: "inv b" "bm_end b \<le> bm_real_end b" using ok inv_range [of b] by (simp_all add: gb_ok_def)
  have "\<exists>r. (case find_first_set ops of Some f \<Rightarrow> f b cs ce | None \<Rightarrow> gb_find_loop True ops b cs ce) = Some r
      \<and> is_first (\<lambda>x. (x \<in> bits b) = True) cs ce r"
    if c: "bm_start b \<le> cs" "cs \<le> ce" "ce \<le> bm_end b" for cs ce
  proof (cases "find_first_set ops")
    case None
    then have "ce \<noteq> 0xffffffffffffffff" using c(3) max u64_less_max [of "bm_end b"] by auto
    with gb_find_loop_first [OF b(1) c(1), of ce True] None c(3) b(2) show ?thesis by (simp add: order_trans)
  next
    case (Some f)
    with find_set_law [OF b(1) c(1,2) _ Some] c(3) b(2) show ?thesis by auto
  qed
  from gb_find_first_64 [OF assms(1-4) this] show ?thesis
    by (simp add: ext2fs_find_first_set_generic_bmap_def)
qed

end

subsection \<open>The front end over the bit array\<close>

text \<open>A bitmap of the clusters 1 to 14, of four blocks each, in which the clusters 3 and 12 are marked.\<close>

definition gb_example :: "u8 list gbitmap" where
  "gb_example = Bitmap64 (ba_example\<lparr>bm_cluster_bits := 2\<rparr>)"

lemma gb_example_ok: "gb_ok ba_ok gb_example" "gb_plain ba_ok (Bitmap64 ba_example)"
  using ba_example_ok by (simp_all add: gb_ok_def gb_plain_def gb_example_def ba_ok_def ba_size_def
      EXT2FS_IS_64_BITMAP_def ba_example_def gb_shift_def)

text \<open>
  (C9) Any history of marks and unmarks of numbers inside a bitmap, of either layout, the 64-bit one over
  the bit array, runs without error and leaves marked exactly the numbers the history says, and the
  test function answers membership for every 64-bit number.
\<close>

theorem gb_history:
  assumes "gb_plain ba_ok g" "op_key ` set hist \<subseteq> gb_univ g"
  shows "\<exists>g'. run_ops (gb_add (ext2fs_blkmap64_bitarray ok1 ok2 junk base))
        (gb_del (ext2fs_blkmap64_bitarray ok1 ok2 junk base)) hist g = Some g' \<and> gb_plain ba_ok g'
    \<and> gb_bits ba_bits g' = spec_ops hist (gb_bits ba_bits g)
    \<and> (\<forall>k. \<exists>r. ext2fs_test_generic_bmap (ext2fs_blkmap64_bitarray ok1 ok2 junk base) g' k = Some r
          \<and> (r \<noteq> 0 \<longleftrightarrow> k \<in> spec_ops hist (gb_bits ba_bits g)))"
proof -
  from ba.gs.run_ops_refines [OF assms, of ok1 ok2 junk base] obtain g' where
    g': "run_ops (gb_add (ext2fs_blkmap64_bitarray ok1 ok2 junk base))
        (gb_del (ext2fs_blkmap64_bitarray ok1 ok2 junk base)) hist g = Some g'"
      "gb_plain ba_ok g'" "gb_bits ba_bits g' = spec_ops hist (gb_bits ba_bits g)"
    by auto
  from g'(2) have "gb_ok ba_ok g'" by (simp add: gb_plain_def)
  from ba.gb_test_all [OF this, of ok1 ok2 junk base] g' show ?thesis by auto
qed

theorem gb_history_witness:
  "\<exists>g'. run_ops (gb_add (ext2fs_blkmap64_bitarray True True (\<lambda>_. 0) 0))
        (gb_del (ext2fs_blkmap64_bitarray True True (\<lambda>_. 0) 0)) [Mark 5, Unmark 3] (Bitmap64 ba_example) = Some g'
    \<and> gb_plain ba_ok g' \<and> gb_bits ba_bits g' = spec_ops [Mark 5, Unmark 3] (gb_bits ba_bits (Bitmap64 ba_example))
    \<and> (\<forall>k. \<exists>r. ext2fs_test_generic_bmap (ext2fs_blkmap64_bitarray True True (\<lambda>_. 0) 0) g' k = Some r
          \<and> (r \<noteq> 0 \<longleftrightarrow> k \<in> spec_ops [Mark 5, Unmark 3] (gb_bits ba_bits (Bitmap64 ba_example))))"
  by (rule gb_history [OF gb_example_ok(2)]) (simp add: gb_univ_def ba_example_def)

text \<open>
  (C24) On a bitmap of clusters, marking, unmarking and testing a run of blocks act on exactly the clusters
  that contain a block of the run: all blocks of those clusters are marked or unmarked, and the test answers
  whether none of them is marked.
\<close>

theorem gb_range2_clusters:
  fixes ok1 ok2 :: bool and junk :: "nat \<Rightarrow> u8" and base :: nat
  assumes "gb_ok ba_ok (Bitmap64 b)" "0 < num"
    and "unat block + unat num + 2 ^ bm_cluster_bits b \<le> 18446744073709551616"
    and "\<And>y. unat block \<le> unat y \<Longrightarrow> unat y < unat block + unat num \<Longrightarrow> y \<in> gb_univ (Bitmap64 b)"
  defines "ops \<equiv> ext2fs_blkmap64_bitarray ok1 ok2 junk base"
  shows "(\<exists>b'. ext2fs_mark_block_bitmap_range2 ops (Bitmap64 b) block num = Some (Bitmap64 b')
        \<and> gb_ok ba_ok (Bitmap64 b')
        \<and> gb_bits ba_bits (Bitmap64 b') = gb_bits ba_bits (Bitmap64 b) \<union> gb_run (Bitmap64 b) block num)
    \<and> (\<exists>b'. ext2fs_unmark_block_bitmap_range2 ops (Bitmap64 b) block num = Some (Bitmap64 b')
        \<and> gb_ok ba_ok (Bitmap64 b')
        \<and> gb_bits ba_bits (Bitmap64 b') = gb_bits ba_bits (Bitmap64 b) - gb_run (Bitmap64 b) block num)
    \<and> (\<exists>r. ext2fs_test_block_bitmap_range2 ops (Bitmap64 b) block num = Some (Inr r)
        \<and> (r \<noteq> 0 \<longleftrightarrow> gb_bits ba_bits (Bitmap64 b) \<inter> gb_run (Bitmap64 b) block num = {}))"
  unfolding ops_def using ba.gb_range2_64 [OF assms(1-4), of ok1 ok2 junk base] by blast

theorem gb_range2_clusters_witness:
  "\<exists>b'. ext2fs_mark_block_bitmap_range2 (ext2fs_blkmap64_bitarray True True (\<lambda>_. 0) 0) gb_example 21 6 = Some (Bitmap64 b')
    \<and> gb_ok ba_ok (Bitmap64 b') \<and> gb_bits ba_bits (Bitmap64 b') = gb_bits ba_bits gb_example \<union> gb_run gb_example 21 6"
proof -
  have "y \<in> gb_univ gb_example" if "21 \<le> unat y" "unat y < 27" for y
    using that by (auto simp: gb_univ_def gb_example_def word_le_nat_alt unat_drop_bit_div)
  then show ?thesis
    using gb_range2_clusters [of "ba_example\<lparr>bm_cluster_bits := 2\<rparr>" 6 21 True True "\<lambda>_. 0" 0] gb_example_ok(1)
    by (simp add: gb_example_def)
qed

text \<open>
  (C25) Searching a bitmap of clusters between two block numbers returns the least block number in that
  interval whose cluster is clear, respectively marked, or ENOENT exactly when there is none.
\<close>

theorem gb_find_first_least:
  fixes ok1 ok2 :: bool and junk :: "nat \<Rightarrow> u8" and base :: nat
  assumes "gb_ok ba_ok (Bitmap64 b)" "s \<le> e"
    and "bm_start b \<le> drop_bit (bm_cluster_bits b) s" "drop_bit (bm_cluster_bits b) e \<le> bm_end b"
  defines "ops \<equiv> ext2fs_blkmap64_bitarray ok1 ok2 junk base"
  shows "(\<exists>r. ext2fs_find_first_zero_generic_bmap ops (Bitmap64 b) s e = Some r
        \<and> is_first (\<lambda>x. x \<notin> gb_bits ba_bits (Bitmap64 b)) s e r)
    \<and> (\<exists>r. ext2fs_find_first_set_generic_bmap ops (Bitmap64 b) s e = Some r
        \<and> is_first (\<lambda>x. x \<in> gb_bits ba_bits (Bitmap64 b)) s e r)"
proof -
  have z: "find_first_zero (ext2fs_blkmap64_bitarray ok1 ok2 junk base) = None \<longrightarrow> bm_end b \<noteq> 0xffffffffffffffff"
    and t: "find_first_set (ext2fs_blkmap64_bitarray ok1 ok2 junk base) = None \<longrightarrow> bm_end b \<noteq> 0xffffffffffffffff"
    by (simp_all add: ext2fs_blkmap64_bitarray_def)
  show ?thesis
    unfolding ops_def using ba.gb_find_first_zero_least [OF assms(1-4) z]
      ba.gb_find_first_set_least [OF assms(1-4) t] by blast
qed

theorem gb_find_first_least_witness:
  "(\<exists>r. ext2fs_find_first_zero_generic_bmap (ext2fs_blkmap64_bitarray True True (\<lambda>_. 0) 0) gb_example 13 50 = Some r
        \<and> is_first (\<lambda>x. x \<notin> gb_bits ba_bits gb_example) 13 50 r)
    \<and> (\<exists>r. ext2fs_find_first_set_generic_bmap (ext2fs_blkmap64_bitarray True True (\<lambda>_. 0) 0) gb_example 13 50 = Some r
        \<and> is_first (\<lambda>x. x \<in> gb_bits ba_bits gb_example) 13 50 r)"
  using gb_find_first_least [of "ba_example\<lparr>bm_cluster_bits := 2\<rparr>" 13 50 True True "\<lambda>_. 0" 0] gb_example_ok(1)
  by (simp add: gb_example_def word_le_nat_alt unat_drop_bit_div)

subsection \<open>What the comparison of two 64-bit bitmaps looks at\<close>

lemma gb_compare_loop_eq:
  assumes "\<And>x. i \<le> x \<Longrightarrow> x \<le> e \<Longrightarrow> ext2fs_test_generic_bmap ops1 g1 x = Some (t1 x)"
    and "\<And>x. i \<le> x \<Longrightarrow> x \<le> e \<Longrightarrow> ext2fs_test_generic_bmap ops2 g2 x = Some (t2 x)"
    and "e \<noteq> 0xffffffffffffffff"
  shows "gb_compare_loop ops1 ops2 g1 g2 neq e i =
    Some (if \<forall>x. i \<le> x \<and> x \<le> e \<longrightarrow> t1 x = t2 x then E_OK else neq)"
  using assms(1,2)
proof (induction "Suc (unat e) - unat i" arbitrary: i)
  case 0
  then have "\<not> i \<le> e" by (simp add: word_le_nat_alt)
  moreover from this have "\<not> (i \<le> x \<and> x \<le> e)" for x by auto
  ultimately show ?case by (subst gb_compare_loop.simps) auto
next
  case (Suc n)
  then have ie: "i \<le> e" by (simp add: word_le_nat_alt)
  have "e < 0xffffffffffffffff" using assms(3) by (rule u64_less_max)
  with ie have "i < 0xffffffffffffffff" by simp
  then have u: "unat (i + 1) = Suc (unat i)" by (rule unat_inc)
  have step: "i \<le> x \<longleftrightarrow> x = i \<or> i + 1 \<le> x" for x
    using u by (auto simp: word_le_nat_alt word_unat_eq_iff)
  have "n = Suc (unat e) - unat (i + 1)" using Suc.hyps(2) u by simp
  then have ih: "gb_compare_loop ops1 ops2 g1 g2 neq e (i + 1) =
      Some (if \<forall>x. i + 1 \<le> x \<and> x \<le> e \<longrightarrow> t1 x = t2 x then E_OK else neq)"
    using Suc.hyps(1) Suc.prems by (simp add: step)
  have all: "(\<forall>x. i \<le> x \<and> x \<le> e \<longrightarrow> t1 x = t2 x) \<longleftrightarrow> t1 i = t2 i \<and> (\<forall>x. i + 1 \<le> x \<and> x \<le> e \<longrightarrow> t1 x = t2 x)"
    using ie by (metis step)
  show ?case using ie Suc.prems(1) [OF order_refl ie] Suc.prems(2) [OF order_refl ie] ih
    by (subst gb_compare_loop.simps) (simp add: all)
qed

lemma ba_test_generic:
  assumes "gb_plain ba_ok (Bitmap64 b)" "bm_start b \<le> x" "x \<le> bm_end b"
  shows "ext2fs_test_generic_bmap (ext2fs_blkmap64_bitarray ok1 ok2 junk base) (Bitmap64 b) x
    = Some (bit_val (bm_private b) (unat x - unat (bm_start b)))"
proof -
  have b: "ba_ok b" "EXT2FS_IS_64_BITMAP (bm_magic b)" "bm_cluster_bits b = 0"
    using assms(1) by (simp_all add: gb_plain_def gb_ok_def gb_shift_def)
  have "bm_end b \<le> bm_real_end b" using b(1) by (simp add: ba_ok_def)
  then have r: "x \<le> bm_real_end b" using assms(3) by simp
  have "\<not> x < bm_start b" "\<not> bm_end b < x" using assms(2,3) by auto
  with b ba_test_bmap_eq [OF b(1) assms(2) r] show ?thesis
    by (simp add: ext2fs_test_generic_bmap_def c_shr_def ext2fs_blkmap64_bitarray_def)
qed

text \<open>
  (C33) Comparing two 64-bit bitmaps over bit arrays is \<^verbatim>\<open>EINVAL\<close> for bitmaps of different kinds and says that they
  differ when their limits do. With equal limits it compares the last numbers only: those from
  \<open>end - (end - start) mod 8\<close> to \<open>end\<close>, at most eight of them. Unlike the 32-bit function, from which the loop was
  taken, it never looks at the others, and two bitmaps that differ there compare as equal.
\<close>

theorem gb_compare_looks_at_tail:
  fixes ok1 ok2 :: bool and junk :: "nat \<Rightarrow> u8" and base :: nat
  assumes g: "gb_plain ba_ok (Bitmap64 b1)" "gb_plain ba_ok (Bitmap64 b2)" and max: "bm_end b1 \<noteq> 0xffffffffffffffff"
  defines "ops \<equiv> ext2fs_blkmap64_bitarray ok1 ok2 junk base"
  shows "ext2fs_compare_generic_bmap ops ops neq (Bitmap64 b1) (Bitmap64 b2) = Some
    (if bm_magic b1 \<noteq> bm_magic b2 then EINVAL
     else if bm_start b1 \<noteq> bm_start b2 \<or> bm_end b1 \<noteq> bm_end b2 then neq
     else if \<forall>x. bm_end b1 - (bm_end b1 - bm_start b1) mod 8 \<le> x \<and> x \<le> bm_end b1
         \<longrightarrow> (x \<in> gb_bits ba_bits (Bitmap64 b1)) = (x \<in> gb_bits ba_bits (Bitmap64 b2)) then E_OK else neq)"
proof (cases "bm_magic b1 = bm_magic b2 \<and> bm_start b1 = bm_start b2 \<and> bm_end b1 = bm_end b2")
  case False
  have "EXT2FS_IS_64_BITMAP (bm_magic b1)" using g(1) by (simp add: gb_plain_def gb_ok_def)
  with False show ?thesis by (auto simp: ext2fs_compare_generic_bmap_def gb_magic_disjoint)
next
  case True
  then have mg: "bm_magic b1 = bm_magic b2" and same: "bm_start b1 = bm_start b2" "bm_end b1 = bm_end b2" by simp_all
  let ?s = "bm_start b1" and ?e = "bm_end b1"
  let ?i = "?e - (?e - ?s) mod 8"
  have b: "ba_ok b1" "EXT2FS_IS_64_BITMAP (bm_magic b1)" "ba_ok b2" "bm_cluster_bits b1 = 0" "bm_cluster_bits b2 = 0"
    using g by (simp_all add: gb_plain_def gb_ok_def gb_shift_def)
  have se: "?s \<le> ?e" "?e \<le> bm_real_end b1" "?e \<le> bm_real_end b2"
    using b(1,3) same by (simp_all add: ba_ok_def)
  have "unat ((?e - ?s) mod 8) \<le> unat (?e - ?s)" by (simp add: unat_mod)
  then have m: "(?e - ?s) mod 8 \<le> ?e - ?s" by (simp add: word_le_nat_alt)
  have "unat ((?e - ?s) mod 8) \<le> unat ?e - unat ?s" using m se(1) by (simp add: word_le_nat_alt unat_diff_le)
  then have si: "?s \<le> ?i" using se(1) by (subst word_le_nat_alt, subst unat_diff_le) (auto simp: word_le_nat_alt)
  define t1 t2 where "t1 x = bit_val (bm_private b1) (unat x - unat ?s)"
    and "t2 x = bit_val (bm_private b2) (unat x - unat ?s)" for x :: u64
  have tests: "ext2fs_test_generic_bmap ops (Bitmap64 b1) x = Some (t1 x)"
    "ext2fs_test_generic_bmap ops (Bitmap64 b2) x = Some (t2 x)"
    "t1 x = t2 x \<longleftrightarrow> (x \<in> gb_bits ba_bits (Bitmap64 b1)) = (x \<in> gb_bits ba_bits (Bitmap64 b2))"
    if x: "?i \<le> x" "x \<le> ?e" for x
  proof -
    have sx: "?s \<le> x" using si x(1) by simp
    show "ext2fs_test_generic_bmap ops (Bitmap64 b1) x = Some (t1 x)"
      "ext2fs_test_generic_bmap ops (Bitmap64 b2) x = Some (t2 x)"
      using ba_test_generic [OF g(1) sx x(2)] ba_test_generic [OF g(2)] sx x(2) same
      by (simp_all add: ops_def t1_def t2_def)
    have "x \<le> bm_real_end b1" "x \<le> bm_real_end b2" using x(2) se by auto
    then show "t1 x = t2 x \<longleftrightarrow> (x \<in> gb_bits ba_bits (Bitmap64 b1)) = (x \<in> gb_bits ba_bits (Bitmap64 b2))"
      using sx x(2) same b(4,5) by (simp add: t1_def t2_def bit_val_eq_iff gb_bits_def gb_univ_def ba_bits_def)
  qed
  have "ext2fs_compare_generic_bmap ops ops neq (Bitmap64 b1) (Bitmap64 b2)
      = gb_compare_loop ops ops (Bitmap64 b1) (Bitmap64 b2) neq ?e ?i"
    using b(2) mg same by (simp add: ext2fs_compare_generic_bmap_def)
  also have "\<dots> = Some (if \<forall>x. ?i \<le> x \<and> x \<le> ?e \<longrightarrow> t1 x = t2 x then E_OK else neq)"
    by (rule gb_compare_loop_eq [OF tests(1,2) max])
  finally show ?thesis using tests(3) mg same by auto
qed

text \<open>Two bitmaps of the numbers 0 to 15; the second one lacks the number 3.\<close>

definition compare_example :: "u8 \<Rightarrow> u8 list bitmap64" where
  "compare_example b = ba_example\<lparr>bm_start := 0, bm_end := 15, bm_real_end := 15, bm_private := [b, 8]\<rparr>"

lemma compare_example_ok: "gb_plain ba_ok (Bitmap64 (compare_example b))"
  by (simp add: gb_plain_def gb_ok_def gb_shift_def compare_example_def ba_ok_def ba_size_def ba_example_def
      EXT2FS_IS_64_BITMAP_def)

theorem gb_compare_looks_at_tail_witness:
  "ext2fs_compare_generic_bmap (ext2fs_blkmap64_bitarray True True (\<lambda>_. 0) 0) (ext2fs_blkmap64_bitarray True True (\<lambda>_. 0) 0) (E_OTHER 1)
        (Bitmap64 (compare_example 8)) (Bitmap64 (compare_example 0)) = Some E_OK
    \<and> 3 \<in> gb_bits ba_bits (Bitmap64 (compare_example 8)) \<and> 3 \<notin> gb_bits ba_bits (Bitmap64 (compare_example 0))"
proof -
  have e: "bm_magic (compare_example b) = bm_magic ba_example" "bm_start (compare_example b) = 0" "bm_end (compare_example b) = 15" for b
    by (simp_all add: compare_example_def)
  have tail: "(x \<in> gb_bits ba_bits (Bitmap64 (compare_example 8))) = (x \<in> gb_bits ba_bits (Bitmap64 (compare_example 0)))"
    if "8 \<le> x \<and> x \<le> 15" for x
  proof -
    have "unat x div 8 = 1" using that by (intro div_nat_eqI) (simp_all add: word_le_nat_alt)
    then show ?thesis by (simp add: gb_bits_def gb_univ_def compare_example_def ba_example_def ba_bits_def bit_at_def)
  qed
  have "bit (8 :: u8) 3" "\<not> bit (0 :: u8) 3" by simp_all
  then have three: "3 \<in> gb_bits ba_bits (Bitmap64 (compare_example 8))" "3 \<notin> gb_bits ba_bits (Bitmap64 (compare_example 0))"
    by (simp_all add: gb_bits_def gb_univ_def compare_example_def ba_example_def ba_bits_def bit_at_def)
  have "bm_end (compare_example 8) \<noteq> 0xffffffffffffffff" by (simp add: e)
  from gb_compare_looks_at_tail [OF compare_example_ok compare_example_ok this, of True True "\<lambda>_. 0" 0 "E_OTHER 1" 0] tail three
  show ?thesis unfolding e by simp
qed

text \<open>A bitmap of the numbers 0 to 7 in which 0 and 2 are marked.\<close>

definition count_example :: "u8 list bitmap64" where
  "count_example = ba_example\<lparr>bm_start := 0, bm_end := 7, bm_real_end := 7, bm_private := [5]\<rparr>"

text \<open>
  The count of used clusters between two blocks, which is meant to include both, misses the last block
  when the block before it is clear: of the marked blocks 0 and 2 between 0 and 2 it counts one.
\<close>

theorem count_used_misses_last:
  "ext2fs_count_used_clusters (ext2fs_blkmap64_bitarray True True (\<lambda>_. 0) 0) (Bitmap64 count_example) 0 0 2 = Some (Inr 1)
    \<and> {x \<in> gb_bits ba_bits (Bitmap64 count_example). x \<le> 2} = {0, 2}"
proof
  show "ext2fs_count_used_clusters (ext2fs_blkmap64_bitarray True True (\<lambda>_. 0) 0) (Bitmap64 count_example) 0 0 2 = Some (Inr 1)"
    by code_simp
  have bits: "bit (5 :: u8) 0" "\<not> bit (5 :: u8) 1" "bit (5 :: u8) 2" by simp_all
  have small: "x \<le> 2 \<longleftrightarrow> x = 0 \<or> x = 1 \<or> x = 2" for x :: u64
    by (auto simp: word_le_nat_alt word_unat_eq_iff)
  show "{x \<in> gb_bits ba_bits (Bitmap64 count_example). x \<le> 2} = {0, 2}"
    unfolding small using bits
    by (auto simp: gb_bits_def gb_univ_def count_example_def ba_example_def ba_bits_def bit_at_def)
qed

end
