(* ===== verification/Key_Table.thy ===== *)
theory Key_Table
  imports E2_Prelude
begin

text \<open>
  The sorted tables of \<^verbatim>\<open>lib/ext2fs/icount.c\<close> and \<^verbatim>\<open>e2fsck/ea_refcount.c\<close>: an array whose first \<open>count\<close> cells
  hold keys in strictly ascending order, each with a counter. Both files have the same binary search and
  the same insertion by \<^verbatim>\<open>memmove\<close>. The second half is the contract that both counting components
  promise to their clients, as the locale \<open>counter\<close>.
\<close>

subsection \<open>Search and insertion\<close>

text \<open>
  The search loop \<^verbatim>\<open>while (low <= high)\<close> on C integers: \<open>Inl\<close> the index of the key or \<open>Inr\<close> the final
  \<^verbatim>\<open>low\<close>. \<open>lim\<close> is the largest value that the sum \<^verbatim>\<open>low + high\<close> may take: \<^verbatim>\<open>icount.c\<close> adds unsigned and
  \<^verbatim>\<open>ea_refcount.c\<close> signed integers.
\<close>

function kt_search :: "int \<Rightarrow> ('k::linorder \<times> 'v) list \<Rightarrow> 'k \<Rightarrow> int \<Rightarrow> int \<Rightarrow> (nat + int) ub" where
  "kt_search lim list key low high =
     (if low \<le> high then
        if low + high > lim then None
        else do {
          let mid = (low + high) div 2;
          el \<leftarrow> c_load list (nat mid);
          if key = fst el then Some (Inl (nat mid))
          else if key < fst el then kt_search lim list key low (mid - 1)
          else kt_search lim list key (mid + 1) high
        }
      else Some (Inr low))"
  by pat_completeness auto
termination
  by (relation "measure (\<lambda>(lim, list, key, low, high). nat (high - low + 1))") auto

text \<open>
  The end of the two insertion functions: \<^verbatim>\<open>num = (int) count - pos\<close>, the check that it is not negative,
  the \<^verbatim>\<open>memmove\<close> when it is positive, and the new cell. \<open>None\<close> inside is the null pointer.
\<close>

definition kt_insert_at :: "('k \<times> 'v) list \<Rightarrow> nat \<Rightarrow> nat \<Rightarrow> 'k \<times> 'v \<Rightarrow> ('k \<times> 'v) list option ub" where
  "kt_insert_at list count pos el =
     (if count < pos then Some None
      else do {
        list \<leftarrow> (if count - pos \<noteq> 0 then c_memmove list (pos + 1) pos (count - pos) else Some list);
        list \<leftarrow> c_store list pos el;
        Some (Some list)
      })"

subsection \<open>The invariant and the lookup function\<close>

definition kt_ok :: "('k::linorder \<times> 'v) list \<Rightarrow> nat \<Rightarrow> bool" where
  "kt_ok list count \<longleftrightarrow> count \<le> length list \<and> sorted_wrt (<) (map fst (take count list))"

definition kt_get :: "('k \<times> 'v) list \<Rightarrow> nat \<Rightarrow> 'k \<Rightarrow> 'v option" where
  "kt_get list count k = map_of (take count list) k"

lemma kt_ok_less:
  assumes "kt_ok list count" "i < j" "j < count"
  shows "fst (list ! i) < fst (list ! j)"
  using assms sorted_wrt_nth_less [of "(<)" "map fst (take count list)" i j] by (simp add: kt_ok_def)

lemma option_eqI: "(\<And>w. a = Some w \<longleftrightarrow> b = Some w) \<Longrightarrow> a = b"
  by (metis not_None_eq)

lemma kt_get_iff:
  assumes "kt_ok list count"
  shows "kt_get list count k = Some v \<longleftrightarrow> (\<exists>i < count. list ! i = (k, v))"
proof -
  have "distinct (map fst (take count list))"
    using assms strict_sorted_iff by (auto simp: kt_ok_def)
  then have "kt_get list count k = Some v \<longleftrightarrow> (k, v) \<in> set (take count list)"
    unfolding kt_get_def by (rule map_of_eq_Some_iff)
  also have "\<dots> \<longleftrightarrow> (\<exists>i < count. list ! i = (k, v))"
    using assms unfolding kt_ok_def in_set_conv_nth by (metis length_take min.absorb2 nth_take)
  finally show ?thesis .
qed

lemma kt_get_nth:
  assumes "kt_ok list count" "i < count"
  shows "kt_get list count (fst (list ! i)) = Some (snd (list ! i))"
  using assms by (auto simp: kt_get_iff intro: exI [of _ i])

lemma kt_get_gap:
  assumes ok: "kt_ok list count"
    and "\<And>i. i < p \<Longrightarrow> fst (list ! i) < k" "\<And>i. p \<le> i \<Longrightarrow> i < count \<Longrightarrow> k < fst (list ! i)"
  shows "kt_get list count k = None"
proof -
  have "fst (list ! i) \<noteq> k" if "i < count" for i
    using assms(2) [of i] assms(3) [of i] that by (cases "i < p") auto
  then have "kt_get list count k \<noteq> Some v" for v
    using kt_get_iff [OF ok, of k v] by (metis fst_conv)
  then show ?thesis by (metis not_None_eq)
qed

declare kt_search.simps [simp del]

text \<open>The search interval always brackets the place of the key.\<close>

lemma kt_search_correct:
  assumes "kt_ok list count"
    and "0 \<le> low" "high < int count" "low \<le> high + 1" "2 * int count \<le> lim"
    and "\<And>i. i < nat low \<Longrightarrow> fst (list ! i) < key" "\<And>i. high < int i \<Longrightarrow> i < count \<Longrightarrow> key < fst (list ! i)"
  shows "\<exists>r. kt_search lim list key low high = Some r \<and>
    (case r of Inl m \<Rightarrow> m < count \<and> fst (list ! m) = key
     | Inr p \<Rightarrow> 0 \<le> p \<and> nat p \<le> count \<and> (\<forall>i < nat p. fst (list ! i) < key)
         \<and> (\<forall>i. nat p \<le> i \<and> i < count \<longrightarrow> key < fst (list ! i)))"
  using assms
proof (induction lim list key low high rule: kt_search.induct)
  case (1 lim list key low high)
  show ?case
  proof (cases "low \<le> high")
    case False
    with "1.prems"(2-4,6,7) show ?thesis by (subst kt_search.simps) (auto simp: not_le)
  next
    case True
    let ?mid = "(low + high) div 2"
    have mid: "low \<le> ?mid" "?mid \<le> high" using True by auto
    have lim: "\<not> low + high > lim" using True "1.prems"(3,5) by linarith
    have m: "nat ?mid < count" using mid "1.prems"(2,3) by linarith
    with "1.prems"(1) have ld: "c_load list (nat ?mid) = Some (list ! nat ?mid)" by (simp add: kt_ok_def)
    have step: "kt_search lim list key low high =
        (if key = fst (list ! nat ?mid) then Some (Inl (nat ?mid))
         else if key < fst (list ! nat ?mid) then kt_search lim list key low (?mid - 1)
         else kt_search lim list key (?mid + 1) high)"
      using True lim ld by (subst kt_search.simps) (simp only: Let_def if_True if_False Option.bind.simps)
    show ?thesis
    proof (cases key "fst (list ! nat ?mid)" rule: linorder_cases)
      case equal
      with m show ?thesis unfolding step by simp
    next
      case less
      have "key < fst (list ! i)" if "?mid - 1 < int i" "i < count" for i
        using kt_ok_less [OF "1.prems"(1), of "nat ?mid" i] less that
        by (cases "i = nat ?mid") (force simp: not_less)+
      from "1.IH"(1) [OF True lim refl ld _ less "1.prems"(1,2) _ _ "1.prems"(5,6) this] less mid "1.prems"(3)
      show ?thesis unfolding step by auto
    next
      case greater
      have "fst (list ! i) < key" if "i < nat (?mid + 1)" for i
        using kt_ok_less [OF "1.prems"(1), of i "nat ?mid"] greater that m
        by (cases "i = nat ?mid") force+
      from "1.IH"(2) [OF True lim refl ld _ _ "1.prems"(1) _ "1.prems"(3) _ "1.prems"(5) this "1.prems"(7)] greater mid "1.prems"(2)
      show ?thesis unfolding step by auto
    qed
  qed
qed

lemma kt_search_whole:
  assumes "kt_ok list count" "2 * int count \<le> lim"
  shows "\<exists>r. kt_search lim list key 0 (int count - 1) = Some r \<and>
    (case r of Inl m \<Rightarrow> m < count \<and> fst (list ! m) = key
     | Inr p \<Rightarrow> 0 \<le> p \<and> nat p \<le> count \<and> (\<forall>i < nat p. fst (list ! i) < key)
         \<and> (\<forall>i. nat p \<le> i \<and> i < count \<longrightarrow> key < fst (list ! i)))"
  by (rule kt_search_correct [OF assms(1)]) (use assms(2) in auto)

subsection \<open>Updates\<close>

text \<open>Overwriting the counter of a cell, and inserting a cell at the place of its key.\<close>

lemma kt_update_cell:
  assumes ok: "kt_ok list count" and i: "i < count" "fst (list ! i) = k"
  shows "kt_ok (list[i := (k, v)]) count"
    "kt_get (list[i := (k, v)]) count = (kt_get list count)(k \<mapsto> v)"
proof -
  have len: "i < length list" using ok i by (simp add: kt_ok_def)
  have keys: "map fst (take count (list[i := (k, v)])) = map fst (take count list)"
    using i len by (auto simp: list_eq_iff_nth_eq nth_list_update)
  then show ok': "kt_ok (list[i := (k, v)]) count" using ok by (simp add: kt_ok_def)
  have inj: "j = i \<longleftrightarrow> fst (list ! j) = k" if "j < count" for j
    using that i kt_ok_less [OF ok, of i j] kt_ok_less [OF ok, of j i] by (metis less_irrefl linorder_neqE_nat)
  show "kt_get (list[i := (k, v)]) count = (kt_get list count)(k \<mapsto> v)"
  proof (rule ext, rule option_eqI)
    fix x w
    show "kt_get (list[i := (k, v)]) count x = Some w \<longleftrightarrow> ((kt_get list count)(k \<mapsto> v)) x = Some w"
    proof (cases "x = k")
      case True
      have "(\<exists>j < count. list[i := (k, v)] ! j = (k, w)) \<longleftrightarrow> v = w"
        using i len inj by (metis fst_conv nth_list_update prod.inject)
      with True show ?thesis by (simp add: kt_get_iff [OF ok'])
    next
      case False
      have "(\<exists>j < count. list[i := (k, v)] ! j = (x, w)) \<longleftrightarrow> (\<exists>j < count. list ! j = (x, w))"
        using i len False by (metis fst_conv nth_list_update)
      with False show ?thesis by (simp add: kt_get_iff [OF ok'] kt_get_iff [OF ok])
    qed
  qed
qed

definition kt_spread :: "('k \<times> 'v) list \<Rightarrow> nat \<Rightarrow> nat \<Rightarrow> 'k \<times> 'v \<Rightarrow> ('k \<times> 'v) list" where
  "kt_spread list count p el = take p list @ el # take (count - p) (drop p list) @ drop (Suc count) list"

lemma kt_spread_run:
  assumes room: "count < length list" and p: "p \<le> count"
  shows "kt_insert_at list count p el = Some (Some (kt_spread list count p el))"
proof (cases "count = p")
  case True
  with room show ?thesis
    by (simp add: kt_insert_at_def kt_spread_def id_take_nth_drop upd_conv_take_nth_drop)
next
  case False
  have "p + 1 + (count - p) = Suc count" using p by simp
  then have "c_memmove list (p + 1) p (count - p)
      = Some (take (p + 1) list @ take (count - p) (drop p list) @ drop (Suc count) list)"
    using room p by (simp add: c_memmove_def)
  moreover have "(take (p + 1) list @ take (count - p) (drop p list) @ drop (Suc count) list)[p := el] = kt_spread list count p el"
    using room p by (simp add: kt_spread_def list_update_append take_Suc_conv_app_nth)
  ultimately show ?thesis using False p room by (simp add: kt_insert_at_def c_store_def)
qed

lemma kt_spread_nth:
  assumes "count < length list" "p \<le> count" "j \<le> count"
  shows "kt_spread list count p el ! j = (if j < p then list ! j else if j = p then el else list ! (j - 1))"
  using assms by (auto simp: kt_spread_def nth_append nth_Cons min_def split: nat.splits intro!: arg_cong [where f = "(!) list"])

lemma kt_spread_mem:
  assumes "count < length list" "p \<le> count"
  shows "(\<exists>j < Suc count. kt_spread list count p el ! j = y) \<longleftrightarrow> el = y \<or> (\<exists>j < count. list ! j = y)"
proof
  note nth' = kt_spread_nth [OF assms, where el = el]
  assume "\<exists>j < Suc count. kt_spread list count p el ! j = y"
  then obtain j where "j \<le> count" "kt_spread list count p el ! j = y" by (auto simp: less_Suc_eq_le)
  with nth' assms show "el = y \<or> (\<exists>j < count. list ! j = y)"
    by (cases "j < p"; cases "j = p") (auto intro: exI [of _ j] exI [of _ "j - 1"])
next
  note nth' = kt_spread_nth [OF assms, where el = el]
  assume "el = y \<or> (\<exists>j < count. list ! j = y)"
  then consider "el = y" | j where "j < count" "list ! j = y" by blast
  then show "\<exists>j < Suc count. kt_spread list count p el ! j = y"
  proof cases
    case 1
    with nth' [OF assms(2)] assms show ?thesis by (intro exI [of _ p]) simp
  next
    case 2
    then show ?thesis using nth' [of j] nth' [of "Suc j"]
      by (cases "j < p") (auto intro: exI [of _ j] exI [of _ "Suc j"])
  qed
qed

lemma kt_insert_at_eq:
  assumes ok: "kt_ok list count" and room: "count < length list" and p: "p \<le> count"
    and below: "\<And>i. i < p \<Longrightarrow> fst (list ! i) < k" and above: "\<And>i. p \<le> i \<Longrightarrow> i < count \<Longrightarrow> k < fst (list ! i)"
  shows "\<exists>list'. kt_insert_at list count p (k, v) = Some (Some list') \<and> length list' = length list
    \<and> kt_ok list' (Suc count) \<and> kt_get list' (Suc count) = (kt_get list count)(k \<mapsto> v) \<and> list' ! p = (k, v)"
proof -
  let ?l = "kt_spread list count p (k, v)"
  have len: "length ?l = length list" using room p by (simp add: kt_spread_def)
  note nth' = kt_spread_nth [OF room p, of _ "(k, v)"]
  have gap: "kt_get list count k = None" by (rule kt_get_gap [OF ok below above])
  have "fst (?l ! a) < fst (?l ! c)" if ac: "a < c" "c \<le> count" for a c
  proof -
    consider "c < p" | "a < p" "c = p" | "a < p" "p < c" | "a = p" "p < c" | "p < a" using ac by linarith
    then show ?thesis
      by cases (use ac p nth' below above kt_ok_less [OF ok, of a c] kt_ok_less [OF ok, of a "c - 1"]
        kt_ok_less [OF ok, of "a - 1" "c - 1"] in auto)
  qed
  then have ok': "kt_ok ?l (Suc count)"
    using len room by (auto simp: kt_ok_def sorted_wrt_iff_nth_less)
  have "kt_get ?l (Suc count) = (kt_get list count)(k \<mapsto> v)"
  proof (rule ext, rule option_eqI)
    fix x w
    from gap kt_spread_mem [OF room p, of "(k, v)" "(x, w)"]
    show "kt_get ?l (Suc count) x = Some w \<longleftrightarrow> ((kt_get list count)(k \<mapsto> v)) x = Some w"
      unfolding kt_get_iff [OF ok'] by (auto simp: kt_get_iff [OF ok, symmetric])
  qed
  moreover have "?l ! p = (k, v)" using nth' [OF p] by simp
  ultimately show ?thesis using kt_spread_run [OF room p, of "(k, v)"] len ok' by blast
qed

subsection \<open>The contract of a counting component\<close>

text \<open>
  A history of increments, decrements and stores, what it does to an abstract counter, and the error codes
  it returns: a decrement of a counter that is 0 is refused. \<open>run_count\<close> executes the history by a
  component's operations.
\<close>

datatype 'k count_op = Incr 'k | Decr 'k | Put 'k nat

primrec count_key :: "'k count_op \<Rightarrow> 'k" where
  "count_key (Incr k) = k"
| "count_key (Decr k) = k"
| "count_key (Put k v) = k"

primrec count_step :: "'k count_op \<Rightarrow> ('k \<Rightarrow> nat) \<Rightarrow> errcode \<times> ('k \<Rightarrow> nat)" where
  "count_step (Incr k) f = (E_OK, f(k := Suc (f k)))"
| "count_step (Decr k) f = (if f k = 0 then EXT2_ET_INVALID_ARGUMENT else E_OK, f(k := f k - 1))"
| "count_step (Put k v) f = (E_OK, f(k := v))"

fun spec_count :: "'k count_op list \<Rightarrow> ('k \<Rightarrow> nat) \<Rightarrow> errcode list \<times> ('k \<Rightarrow> nat)" where
  "spec_count [] f = ([], f)"
| "spec_count (op # ops) f =
     (let (e, f') = count_step op f; (es, f'') = spec_count ops f' in (e # es, f''))"

fun run_count ::
    "('k \<Rightarrow> 's \<Rightarrow> (errcode \<times> 's) ub) \<Rightarrow> ('k \<Rightarrow> 's \<Rightarrow> (errcode \<times> 's) ub)
      \<Rightarrow> ('k \<Rightarrow> nat \<Rightarrow> 's \<Rightarrow> (errcode \<times> 's) ub) \<Rightarrow> 'k count_op list \<Rightarrow> 's \<Rightarrow> (errcode list \<times> 's) ub" where
  "run_count incr decr put [] s = Some ([], s)"
| "run_count incr decr put (op # ops) s = do {
     (e, s) \<leftarrow> (case op of Incr k \<Rightarrow> incr k s | Decr k \<Rightarrow> decr k s | Put k v \<Rightarrow> put k v s);
     (es, s) \<leftarrow> run_count incr decr put ops s;
     Some (e # es, s)
   }"

text \<open>
  \<open>budget n s\<close> says that \<open>n\<close> more operations cannot overflow a counter or the table; a value that is
  stored must leave room for the increments to come. What a fetch reports of a counter is \<open>out\<close>.
\<close>

locale counter =
  fixes inv :: "'s \<Rightarrow> bool"
    and val :: "'s \<Rightarrow> 'k \<Rightarrow> nat"
    and keys :: "'s \<Rightarrow> 'k set"
    and budget :: "nat \<Rightarrow> 's \<Rightarrow> bool"
    and lim :: nat
    and incr :: "'k \<Rightarrow> 's \<Rightarrow> (errcode \<times> 's) ub"
    and decr :: "'k \<Rightarrow> 's \<Rightarrow> (errcode \<times> 's) ub"
    and put :: "'k \<Rightarrow> nat \<Rightarrow> 's \<Rightarrow> (errcode \<times> 's) ub"
    and fetch :: "'k \<Rightarrow> 's \<Rightarrow> (nat \<times> 's) ub"
    and out :: "nat \<Rightarrow> nat"
  assumes incr_law: "inv s \<Longrightarrow> k \<in> keys s \<Longrightarrow> budget (Suc n) s \<Longrightarrow>
      \<exists>s'. incr k s = Some (E_OK, s') \<and> inv s' \<and> keys s' = keys s \<and> budget n s'
        \<and> val s' = (val s)(k := Suc (val s k))"
    and decr_law: "inv s \<Longrightarrow> k \<in> keys s \<Longrightarrow> budget (Suc n) s \<Longrightarrow>
      \<exists>s'. decr k s = Some (if val s k = 0 then EXT2_ET_INVALID_ARGUMENT else E_OK, s') \<and> inv s'
        \<and> keys s' = keys s \<and> budget n s' \<and> val s' = (val s)(k := val s k - 1)"
    and put_law: "inv s \<Longrightarrow> k \<in> keys s \<Longrightarrow> budget (Suc n) s \<Longrightarrow> v + n \<le> lim \<Longrightarrow>
      \<exists>s'. put k v s = Some (E_OK, s') \<and> inv s' \<and> keys s' = keys s \<and> budget n s'
        \<and> val s' = (val s)(k := v)"
    and fetch_law: "inv s \<Longrightarrow> k \<in> keys s \<Longrightarrow>
      \<exists>s'. fetch k s = Some (out (val s k), s') \<and> inv s' \<and> keys s' = keys s \<and> val s' = val s"
begin

lemma run_count_refines:
  assumes "inv s" "count_key ` set ops \<subseteq> keys s" "budget (length ops) s"
    and "\<forall>k v. Put k v \<in> set ops \<longrightarrow> v + length ops \<le> lim"
  shows "\<exists>s'. run_count incr decr put ops s = Some (fst (spec_count ops (val s)), s') \<and> inv s'
    \<and> keys s' = keys s \<and> val s' = snd (spec_count ops (val s))"
  using assms
proof (induction ops arbitrary: s)
  case Nil
  then show ?case by simp
next
  case (Cons op ops)
  have room: "v + length ops \<le> lim" if "op = Put k v" for k v using Cons.prems(4) that by force
  have "\<exists>s1. (case op of Incr k \<Rightarrow> incr k s | Decr k \<Rightarrow> decr k s | Put k v \<Rightarrow> put k v s)
        = Some (fst (count_step op (val s)), s1) \<and> inv s1 \<and> keys s1 = keys s \<and> budget (length ops) s1
      \<and> val s1 = snd (count_step op (val s))"
    using Cons.prems(1-3) incr_law [of s _ "length ops"] decr_law [of s _ "length ops"] put_law [of s _ "length ops"] room
    by (cases op) auto
  then obtain s1 where s1: "(case op of Incr k \<Rightarrow> incr k s | Decr k \<Rightarrow> decr k s | Put k v \<Rightarrow> put k v s)
        = Some (fst (count_step op (val s)), s1)" "inv s1" "keys s1 = keys s" "budget (length ops) s1"
      "val s1 = snd (count_step op (val s))"
    by blast
  have "\<forall>k v. Put k v \<in> set ops \<longrightarrow> v + length ops \<le> lim" using Cons.prems(4) by force
  with Cons.IH [OF s1(2) _ s1(4)] Cons.prems(2) s1(3) obtain s2 where
    s2: "run_count incr decr put ops s1 = Some (fst (spec_count ops (val s1)), s2)" "inv s2"
      "keys s2 = keys s" "val s2 = snd (spec_count ops (val s1))"
    by auto
  with s1 show ?case by (auto simp: split_beta Let_def)
qed

lemma run_count_fetch:
  assumes "inv s" "count_key ` set ops \<subseteq> keys s" "budget (length ops) s"
    and "\<forall>k v. Put k v \<in> set ops \<longrightarrow> v + length ops \<le> lim" "k \<in> keys s"
  shows "\<exists>s' s''. run_count incr decr put ops s = Some (fst (spec_count ops (val s)), s')
    \<and> fetch k s' = Some (out (snd (spec_count ops (val s)) k), s'')"
proof -
  from run_count_refines [OF assms(1-4)] obtain s' where
    s': "run_count incr decr put ops s = Some (fst (spec_count ops (val s)), s')" "inv s'" "keys s' = keys s"
      "val s' = snd (spec_count ops (val s))" by blast
  from fetch_law [OF s'(2), of k] s' assms(5) show ?thesis by auto
qed

end

end
