(* ===== verification/Ea_Refcount.thy ===== *)
theory Ea_Refcount
  imports Key_Table
begin

text \<open>
  The reference counts of extended attribute blocks and inodes that e2fsck keeps,
  \<^verbatim>\<open>e2fsck/ea_refcount.c\<close>: a sorted table of keys and 64-bit counters. Entries whose counter has dropped
  to zero stay in the table until it is full, and are removed by \<^verbatim>\<open>refcount_collapse\<close> then. A null pointer
  to the structure behaves as a structure whose list is null.
\<close>

subsection \<open>The structure\<close>

record refcount =
  rc_count :: nat
  rc_size :: nat
  rc_cursor :: nat
  rc_list :: "(u64 \<times> u64) list option"

definition ea_refcount_create :: "bool \<Rightarrow> bool \<Rightarrow> nat \<Rightarrow> errcode + refcount" where
  "ea_refcount_create ok1 ok2 sz =
     (if \<not> ok1 \<or> \<not> ok2 then Inl EXT2_ET_NO_MEMORY
      else let sz = (if sz = 0 then 500 else sz)
           in Inr \<lparr>rc_count = 0, rc_size = sz, rc_cursor = 0, rc_list = Some (replicate sz (0, 0))\<rparr>)"

text \<open>The loop that moves the entries with a counter down over those without; the new list and count.\<close>

function rc_collapse_loop :: "(u64 \<times> u64) list \<Rightarrow> nat \<Rightarrow> nat \<Rightarrow> nat \<Rightarrow> ((u64 \<times> u64) list \<times> nat) ub" where
  "rc_collapse_loop list count i j =
     (if i < count then do {
        el \<leftarrow> c_load list i;
        if snd el \<noteq> 0 then do {
          list \<leftarrow> (if i \<noteq> j then c_store list j el else Some list);
          rc_collapse_loop list count (i + 1) (j + 1)
        }
        else rc_collapse_loop list count (i + 1) j
      } else Some (list, j))"
  by pat_completeness auto
termination
  by (relation "measure (\<lambda>(list, count, i, j). count - i)") auto

definition refcount_collapse :: "refcount \<Rightarrow> refcount ub" where
  "refcount_collapse refcount =
     (case rc_list refcount of
        None \<Rightarrow> if rc_count refcount = 0 then Some (refcount\<lparr>rc_count := 0\<rparr>) else None
      | Some list \<Rightarrow> do {
          (list, j) \<leftarrow> rc_collapse_loop list (rc_count refcount) 0 0;
          Some (refcount\<lparr>rc_list := Some list, rc_count := j\<rparr>)
        })"

text \<open>
  The result is the index of the element, or no element for the null pointer. The counts are converted to
  \<^verbatim>\<open>int\<close>; a table with more than \<open>INT_MAX\<close> entries is outside the model.
\<close>

definition insert_refcount_el ::
    "bool \<Rightarrow> (nat \<Rightarrow> u64 \<times> u64) \<Rightarrow> refcount \<Rightarrow> u64 \<Rightarrow> nat \<Rightarrow> (nat option \<times> refcount) ub" where
  "insert_refcount_el ok junk refcount ea_key pos =
     (case rc_list refcount of
        None \<Rightarrow> None
      | Some list \<Rightarrow>
          if rc_count refcount \<ge> rc_size refcount \<and> \<not> ok then Some (None, refcount)
          else do {
            let refcount = (if rc_count refcount \<ge> rc_size refcount
                            then refcount\<lparr>rc_size := rc_size refcount + 100,
                                          rc_list := Some (c_realloc junk list (rc_size refcount + 100))\<rparr>
                            else refcount);
            list \<leftarrow> rc_list refcount;
            if rc_count refcount > INT_MAX then None
            else do {
              r \<leftarrow> kt_insert_at list (rc_count refcount) pos (ea_key, 0);
              case r of
                None \<Rightarrow> Some (None, refcount)
              | Some list \<Rightarrow>
                  Some (Some pos, refcount\<lparr>rc_list := Some list, rc_count := rc_count refcount + 1\<rparr>)
            }
          })"

text \<open>
  \<^verbatim>\<open>get_refcount_el\<close> with its \<^verbatim>\<open>goto retry\<close>: it jumps back only after a collapse that has made room, so
  the number of entries decreases.
\<close>

function get_refcount_el ::
    "bool \<Rightarrow> (nat \<Rightarrow> u64 \<times> u64) \<Rightarrow> refcount \<Rightarrow> u64 \<Rightarrow> bool \<Rightarrow> (nat option \<times> refcount) ub" where
  "get_refcount_el ok junk refcount ea_key create =
     (case rc_list refcount of
        None \<Rightarrow> Some (None, refcount)
      | Some list \<Rightarrow>
          if rc_count refcount > INT_MAX then None
          else do {
            append \<leftarrow> (if create then
                        if rc_count refcount = 0 then Some True
                        else map_option (\<lambda>el. ea_key > fst el) (c_load list (rc_count refcount - 1))
                      else Some False);
            if append then do {
              refcount \<leftarrow> (if rc_count refcount \<ge> rc_size refcount
                           then refcount_collapse refcount else Some refcount);
              insert_refcount_el ok junk refcount ea_key (rc_count refcount)
            }
            else if rc_count refcount = 0 then Some (None, refcount)
            else do {
              let cursor = (if rc_cursor refcount \<ge> rc_count refcount then 0 else rc_cursor refcount);
              el \<leftarrow> c_load list cursor;
              if ea_key = fst el then Some (Some cursor, refcount\<lparr>rc_cursor := cursor + 1\<rparr>)
              else do {
                let refcount = refcount\<lparr>rc_cursor := cursor\<rparr>;
                r \<leftarrow> kt_search (int INT_MAX) list ea_key 0 (int (rc_count refcount) - 1);
                case r of
                  Inl mid \<Rightarrow> Some (Some mid, refcount\<lparr>rc_cursor := mid + 1\<rparr>)
                | Inr low \<Rightarrow>
                    if \<not> create then Some (None, refcount)
                    else if rc_count refcount \<ge> rc_size refcount then do {
                      (list', j) \<leftarrow> rc_collapse_loop list (rc_count refcount) 0 0;
                      if j < rc_size refcount
                      then get_refcount_el ok junk (refcount\<lparr>rc_list := Some list', rc_count := j\<rparr>) ea_key create
                      else insert_refcount_el ok junk (refcount\<lparr>rc_list := Some list', rc_count := j\<rparr>) ea_key (nat low)
                    }
                    else insert_refcount_el ok junk refcount ea_key (nat low)
              }
            }
          })"
  by pat_completeness auto
termination
  by (relation "measure (\<lambda>(ok, junk, refcount, ea_key, create). rc_count refcount)") auto

subsection \<open>The operations\<close>

text \<open>
  The increment and the decrement can also report the new counter through \<^verbatim>\<open>ret\<close>; the model is the call with
  a null \<^verbatim>\<open>ret\<close>, and a fetch returns the same value.
\<close>

definition ea_refcount_fetch :: "refcount \<Rightarrow> u64 \<Rightarrow> (u64 \<times> refcount) ub" where
  "ea_refcount_fetch refcount ea_key = do {
     (el, refcount) \<leftarrow> get_refcount_el True (\<lambda>_. (0, 0)) refcount ea_key False;
     case el of
       None \<Rightarrow> Some (0, refcount)
     | Some i \<Rightarrow> do {
         list \<leftarrow> rc_list refcount;
         e \<leftarrow> c_load list i;
         Some (snd e, refcount)
       }
   }"

text \<open>Writing the counter of an element.\<close>

definition rc_set_value :: "refcount \<Rightarrow> nat \<Rightarrow> (u64 \<Rightarrow> u64) \<Rightarrow> refcount ub" where
  "rc_set_value refcount i f = do {
     list \<leftarrow> rc_list refcount;
     e \<leftarrow> c_load list i;
     list \<leftarrow> c_store list i (fst e, f (snd e));
     Some (refcount\<lparr>rc_list := Some list\<rparr>)
   }"

definition ea_refcount_increment ::
    "bool \<Rightarrow> (nat \<Rightarrow> u64 \<times> u64) \<Rightarrow> refcount \<Rightarrow> u64 \<Rightarrow> (errcode \<times> refcount) ub" where
  "ea_refcount_increment ok junk refcount ea_key = do {
     (el, refcount) \<leftarrow> get_refcount_el ok junk refcount ea_key True;
     case el of
       None \<Rightarrow> Some (EXT2_ET_NO_MEMORY, refcount)
     | Some i \<Rightarrow> map_option (Pair E_OK) (rc_set_value refcount i (\<lambda>v. v + 1))
   }"

definition ea_refcount_decrement :: "refcount \<Rightarrow> u64 \<Rightarrow> (errcode \<times> refcount) ub" where
  "ea_refcount_decrement refcount ea_key = do {
     (el, refcount) \<leftarrow> get_refcount_el True (\<lambda>_. (0, 0)) refcount ea_key False;
     case el of
       None \<Rightarrow> Some (EXT2_ET_INVALID_ARGUMENT, refcount)
     | Some i \<Rightarrow> do {
         list \<leftarrow> rc_list refcount;
         e \<leftarrow> c_load list i;
         if snd e = 0 then Some (EXT2_ET_INVALID_ARGUMENT, refcount)
         else map_option (Pair E_OK) (rc_set_value refcount i (\<lambda>v. v - 1))
       }
   }"

definition ea_refcount_store ::
    "bool \<Rightarrow> (nat \<Rightarrow> u64 \<times> u64) \<Rightarrow> refcount \<Rightarrow> u64 \<Rightarrow> u64 \<Rightarrow> (errcode \<times> refcount) ub" where
  "ea_refcount_store ok junk refcount ea_key ea_value = do {
     (el, refcount) \<leftarrow> get_refcount_el ok junk refcount ea_key (ea_value \<noteq> 0);
     case el of
       None \<Rightarrow> Some (if ea_value \<noteq> 0 then EXT2_ET_NO_MEMORY else E_OK, refcount)
     | Some i \<Rightarrow> map_option (Pair E_OK) (rc_set_value refcount i (\<lambda>_. ea_value))
   }"

definition ea_refcount_intr_begin :: "refcount \<Rightarrow> refcount" where
  "ea_refcount_intr_begin refcount = refcount\<lparr>rc_cursor := 0\<rparr>"

text \<open>The next key and its counter; the key 0 at the end.\<close>

function ea_refcount_intr_next :: "refcount \<Rightarrow> (u64 \<times> u64 option \<times> refcount) ub" where
  "ea_refcount_intr_next refcount =
     (if rc_cursor refcount \<ge> rc_count refcount then Some (0, None, refcount)
      else do {
        list \<leftarrow> rc_list refcount;
        el \<leftarrow> c_load list (rc_cursor refcount);
        if snd el \<noteq> 0 then Some (fst el, Some (snd el), refcount\<lparr>rc_cursor := rc_cursor refcount + 1\<rparr>)
        else ea_refcount_intr_next (refcount\<lparr>rc_cursor := rc_cursor refcount + 1\<rparr>)
      })"
  by pat_completeness auto
termination
  by (relation "measure (\<lambda>refcount. rc_count refcount - rc_cursor refcount)") auto

subsection \<open>The invariant and the counters\<close>

declare rc_collapse_loop.simps [simp del] get_refcount_el.simps [simp del] ea_refcount_intr_next.simps [simp del]

definition rc_ok :: "refcount \<Rightarrow> bool" where
  "rc_ok rc \<longleftrightarrow> (\<exists>list. rc_list rc = Some list \<and> length list = rc_size rc \<and> kt_ok list (rc_count rc))
     \<and> rc_size rc \<le> 1073741823"

definition rc_val :: "refcount \<Rightarrow> u64 \<Rightarrow> nat" where
  "rc_val rc k = (case rc_list rc of None \<Rightarrow> 0
     | Some list \<Rightarrow> (case kt_get list (rc_count rc) k of None \<Rightarrow> 0 | Some v \<Rightarrow> unat v))"

lemma rc_okD:
  assumes "rc_ok rc"
  obtains list where "rc_list rc = Some list" "length list = rc_size rc" "kt_ok list (rc_count rc)"
    "rc_count rc \<le> rc_size rc" "rc_size rc \<le> 1073741823" "\<not> rc_count rc > INT_MAX"
proof -
  from assms obtain list where l: "rc_list rc = Some list" "length list = rc_size rc" "kt_ok list (rc_count rc)"
    "rc_size rc \<le> 1073741823" by (auto simp: rc_ok_def)
  then have "rc_count rc \<le> rc_size rc" by (simp add: kt_ok_def)
  with l that show thesis by simp
qed

lemma rc_ok_cursor [simp]: "rc_ok (rc\<lparr>rc_cursor := c\<rparr>) = rc_ok rc" "rc_val (rc\<lparr>rc_cursor := c\<rparr>) = rc_val rc"
  by (auto simp: rc_ok_def rc_val_def fun_eq_iff split: option.split)

text \<open>Collapsing keeps the entries with a counter, in their order.\<close>

lemma rc_collapse_loop_eq:
  assumes "j \<le> i" "i \<le> count" "count \<le> length list"
  shows "\<exists>list' j'. rc_collapse_loop list count i j = Some (list', j') \<and> length list' = length list
    \<and> j' \<le> j + (count - i)
    \<and> take j' list' = take j list @ filter (\<lambda>el. snd el \<noteq> 0) (drop i (take count list))"
  using assms
proof (induction list count i j rule: rc_collapse_loop.induct)
  case (1 list count i j)
  show ?case
  proof (cases "i < count")
    case False
    with "1.prems" show ?thesis by (subst rc_collapse_loop.simps) simp
  next
    case True
    then have il: "i < length list" using "1.prems" by simp
    then have ld: "c_load list i = Some (list ! i)" by simp
    have dr: "drop i (take count list) = list ! i # drop (Suc i) (take count list)"
      using True il by (simp add: Cons_nth_drop_Suc [symmetric])
    show ?thesis
    proof (cases "snd (list ! i) = 0")
      case z: True
      from "1.IH"(2) [OF True ld] z "1.prems" True show ?thesis
        by (subst rc_collapse_loop.simps) (fastforce simp: ld dr)
    next
      case nz: False
      define l where "l = (if i \<noteq> j then list[j := list ! i] else list)"
      have st: "(if i \<noteq> j then c_store list j (list ! i) else Some list) = Some l"
        using "1.prems" il by (simp add: l_def)
      have len: "length l = length list" by (simp add: l_def)
      have tk: "take (Suc j) l = take j list @ [list ! i]"
        using "1.prems"(1) il by (auto simp: l_def take_Suc_conv_app_nth)
      have same: "drop (Suc i) (take count l) = drop (Suc i) (take count list)"
        using "1.prems"(1) by (simp add: l_def drop_take)
      from "1.IH"(1) [OF True ld nz st] "1.prems" True len obtain list' j' where
        r: "rc_collapse_loop l count (i + 1) (j + 1) = Some (list', j')" "length list' = length list"
          "j' \<le> j + 1 + (count - (i + 1))"
          "take j' list' = take (Suc j) l @ filter (\<lambda>el. snd el \<noteq> 0) (drop (Suc i) (take count l))"
        by auto
      have "rc_collapse_loop list count i j = rc_collapse_loop l count (i + 1) (j + 1)"
        using True nz ld st by (subst rc_collapse_loop.simps) (simp only: if_True simp_thms Option.bind.simps)
      with r tk same dr nz True show ?thesis by simp
    qed
  qed
qed

lemma kt_ok_filter:
  assumes ok: "kt_ok list count" and t: "take j list' = filter (\<lambda>el. snd el \<noteq> 0) (take count list)" "j \<le> length list'"
  shows "kt_ok list' j"
    "(case kt_get list' j k of None \<Rightarrow> 0 | Some v \<Rightarrow> unat v) = (case kt_get list count k of None \<Rightarrow> 0 | Some v \<Rightarrow> unat (v :: u64))"
proof -
  have srt: "sorted_wrt (<) (map fst (take count list))" using ok by (simp add: kt_ok_def)
  then have "sorted_wrt (\<lambda>x y. fst x < fst y) (take count list)" by (simp add: sorted_wrt_map)
  then have "sorted_wrt (\<lambda>x y. fst x < fst y) (take j list')" unfolding t(1) by (rule sorted_wrt_filter)
  then show ok': "kt_ok list' j" using t(2) by (simp add: kt_ok_def sorted_wrt_map)
  have d: "distinct (map fst (take count list))" "distinct (map fst (take j list'))"
    using srt ok' strict_sorted_iff by (auto simp: kt_ok_def)
  have "kt_get list' j k = Some v \<longleftrightarrow> kt_get list count k = Some v \<and> v \<noteq> 0" for v
    unfolding kt_get_def map_of_eq_Some_iff [OF d(1)] map_of_eq_Some_iff [OF d(2)]
    unfolding t(1) by auto
  then have "kt_get list' j k = (case kt_get list count k of None \<Rightarrow> None | Some v \<Rightarrow> if v = 0 then None else Some v)"
    by (intro option_eqI) (auto split: option.splits)
  then show "(case kt_get list' j k of None \<Rightarrow> 0 | Some v \<Rightarrow> unat v) = (case kt_get list count k of None \<Rightarrow> 0 | Some v \<Rightarrow> unat (v :: u64))"
    by (simp split: option.split)
qed

text \<open>The whole collapse, on a well-formed table.\<close>

lemma rc_collapse_whole:
  assumes ok: "rc_ok rc" and l: "rc_list rc = Some list"
  obtains list' j where "rc_collapse_loop list (rc_count rc) 0 0 = Some (list', j)"
    "refcount_collapse rc = Some (rc\<lparr>rc_list := Some list', rc_count := j\<rparr>)"
    "rc_ok (rc\<lparr>rc_list := Some list', rc_count := j\<rparr>)" "rc_val (rc\<lparr>rc_list := Some list', rc_count := j\<rparr>) = rc_val rc"
    "j \<le> rc_count rc" "take j list' = filter (\<lambda>el. snd el \<noteq> 0) (take (rc_count rc) list)"
proof -
  from ok l have o: "length list = rc_size rc" "kt_ok list (rc_count rc)" "rc_count rc \<le> rc_size rc" "rc_size rc \<le> 1073741823"
    by (auto elim!: rc_okD)
  from rc_collapse_loop_eq [of 0 0 "rc_count rc" list] o obtain list' j where
    r: "rc_collapse_loop list (rc_count rc) 0 0 = Some (list', j)" "length list' = length list" "j \<le> rc_count rc"
      "take j list' = filter (\<lambda>el. snd el \<noteq> 0) (take (rc_count rc) list)"
    by auto
  have jl: "j \<le> length list'" using r o by simp
  note k = kt_ok_filter [OF o(2) r(4) jl]
  show thesis
  proof (rule that [OF r(1)])
    show "refcount_collapse rc = Some (rc\<lparr>rc_list := Some list', rc_count := j\<rparr>)"
      using l r(1) by (simp add: refcount_collapse_def)
    show "rc_ok (rc\<lparr>rc_list := Some list', rc_count := j\<rparr>)" using k(1) r(2) o by (simp add: rc_ok_def)
    show "rc_val (rc\<lparr>rc_list := Some list', rc_count := j\<rparr>) = rc_val rc"
      by (rule ext) (simp add: rc_val_def l k(2))
  qed (use r in simp_all)
qed

text \<open>
  What \<^verbatim>\<open>get_refcount_el\<close> promises when it may create an entry and memory is available: an element with
  the key, in a well-formed table whose counters are the old ones.
\<close>

definition rc_got :: "refcount \<Rightarrow> u64 \<Rightarrow> (nat option \<times> refcount) ub \<Rightarrow> bool" where
  "rc_got rc k r \<longleftrightarrow> (\<exists>i rc' list. r = Some (Some i, rc') \<and> rc_ok rc' \<and> rc_list rc' = Some list
     \<and> i < rc_count rc' \<and> fst (list ! i) = k \<and> rc_val rc' = rc_val rc \<and> rc_size rc' \<le> rc_size rc + 100)"

lemma rc_insert_got:
  assumes ok: "rc_ok rc" and l: "rc_list rc = Some list" and size: "rc_size rc + 100 \<le> 1073741823"
    and p: "p \<le> rc_count rc" "\<And>i. i < p \<Longrightarrow> fst (list ! i) < k"
      "\<And>i. p \<le> i \<Longrightarrow> i < rc_count rc \<Longrightarrow> k < fst (list ! i)"
  shows "rc_got rc k (insert_refcount_el True junk rc k p)"
proof -
  from ok l have o: "length list = rc_size rc" "kt_ok list (rc_count rc)" "rc_count rc \<le> rc_size rc"
    by (auto elim!: rc_okD)
  let ?full = "rc_count rc \<ge> rc_size rc"
  define n list1 where "n = (if ?full then rc_size rc + 100 else rc_size rc)"
    and "list1 = (if ?full then c_realloc junk list (rc_size rc + 100) else list)"
  have len1: "length list1 = n" using o by (simp add: n_def list1_def)
  have room: "rc_count rc < length list1" using o len1 by (auto simp: n_def)
  have same: "take (rc_count rc) list1 = take (rc_count rc) list"
    using o by (simp add: list1_def)
  then have nth1: "list1 ! i = list ! i" if "i < rc_count rc" for i
    using that by (metis nth_take)
  have ok1: "kt_ok list1 (rc_count rc)" using o(2) room same by (simp add: kt_ok_def)
  have b1: "fst (list1 ! i) < k" if "i < p" for i using p(1,2) nth1 that by simp
  have a1: "k < fst (list1 ! i)" if "p \<le> i" "i < rc_count rc" for i using p(3) nth1 that by simp
  from kt_insert_at_eq [OF ok1 room p(1) b1 a1, of "0 :: u64"] obtain list2 where
    ins: "kt_insert_at list1 (rc_count rc) p (k, 0) = Some (Some list2)" "length list2 = length list1"
      "kt_ok list2 (Suc (rc_count rc))" "kt_get list2 (Suc (rc_count rc)) = (kt_get list1 (rc_count rc))(k \<mapsto> 0)"
      "list2 ! p = (k, 0)"
    by blast
  have none: "kt_get list (rc_count rc) k = None" by (rule kt_get_gap [OF o(2) p(2,3)])
  have get1: "kt_get list1 (rc_count rc) = kt_get list (rc_count rc)" using same by (simp add: kt_get_def fun_eq_iff)
  define rc' where "rc' = rc\<lparr>rc_list := Some list2, rc_count := Suc (rc_count rc), rc_size := n\<rparr>"
  have cnt: "\<not> rc_count rc > INT_MAX" using o size by simp
  have "insert_refcount_el True junk rc k p = Some (Some p, rc')"
    using l ins(1) cnt by (cases ?full) (simp_all add: insert_refcount_el_def Let_def rc'_def n_def list1_def)
  moreover have "rc_ok rc'" using ins(2,3) len1 size o by (simp add: rc_ok_def rc'_def n_def)
  moreover have "rc_val rc' = rc_val rc"
    by (rule ext) (simp add: rc_val_def rc'_def l ins(4) get1 none)
  ultimately show ?thesis using ins(5) p(1) unfolding rc_got_def
    by (intro exI [of _ p] exI [of _ rc'] exI [of _ list2]) (simp add: rc'_def n_def)
qed

text \<open>Finding an existing entry, at the cursor or by the search, changes the cursor only.\<close>

lemma rc_got_existing:
  assumes "rc_ok rc" "rc_list rc = Some list" "i < rc_count rc" "fst (list ! i) = k"
  shows "rc_got rc k (Some (Some i, rc\<lparr>rc_cursor := c\<rparr>))"
  using assms unfolding rc_got_def
  by (intro exI [of _ i] exI [of _ "rc\<lparr>rc_cursor := c\<rparr>"] exI [of _ list]) simp

lemma rc_got_trans:
  assumes "rc_got rc' k r" "rc_val rc' = rc_val rc" "rc_size rc' = rc_size rc"
  shows "rc_got rc k r"
  using assms unfolding rc_got_def by auto

text \<open>The branches of \<^verbatim>\<open>get_refcount_el\<close> after the test for an entry behind the last one.\<close>

lemma get_refcount_el_branches:
  assumes ok: "rc_ok rc" and l: "rc_list rc = Some list" and n0: "rc_count rc \<noteq> 0"
    and nl: "create \<Longrightarrow> \<not> fst (list ! (rc_count rc - 1)) < k"
    and r: "kt_search (int INT_MAX) list k 0 (int (rc_count rc) - 1) = Some r"
    and c: "c = (if rc_cursor rc \<ge> rc_count rc then 0 else rc_cursor rc)"
  shows "k = fst (list ! c) \<Longrightarrow> get_refcount_el okb junk rc k create = Some (Some c, rc\<lparr>rc_cursor := c + 1\<rparr>)"
    and "k \<noteq> fst (list ! c) \<Longrightarrow> r = Inl m \<Longrightarrow>
      get_refcount_el okb junk rc k create = Some (Some m, rc\<lparr>rc_cursor := m + 1\<rparr>)"
    and "k \<noteq> fst (list ! c) \<Longrightarrow> r = Inr p \<Longrightarrow> \<not> create \<Longrightarrow>
      get_refcount_el okb junk rc k create = Some (None, rc\<lparr>rc_cursor := c\<rparr>)"
    and "k \<noteq> fst (list ! c) \<Longrightarrow> r = Inr p \<Longrightarrow> create \<Longrightarrow> rc_count rc < rc_size rc \<Longrightarrow>
      get_refcount_el okb junk rc k create = insert_refcount_el okb junk (rc\<lparr>rc_cursor := c\<rparr>) k (nat p)"
    and "k \<noteq> fst (list ! c) \<Longrightarrow> r = Inr p \<Longrightarrow> create \<Longrightarrow> rc_count rc \<ge> rc_size rc \<Longrightarrow>
      rc_collapse_loop list (rc_count rc) 0 0 = Some (list', j) \<Longrightarrow>
      get_refcount_el okb junk rc k create =
        (if j < rc_size rc
         then get_refcount_el okb junk (rc\<lparr>rc_cursor := c, rc_list := Some list', rc_count := j\<rparr>) k create
         else insert_refcount_el okb junk (rc\<lparr>rc_cursor := c, rc_list := Some list', rc_count := j\<rparr>) k (nat p))"
proof -
  from ok l have o: "length list = rc_size rc" "rc_count rc \<le> rc_size rc" "\<not> rc_count rc > INT_MAX"
    by (auto elim!: rc_okD)
  have cur: "c < rc_count rc" using n0 c by auto
  have app: "(if create then map_option (\<lambda>el. k > fst el) (c_load list (rc_count rc - 1)) else Some False) = Some False"
    using o n0 nl by simp
  have ld: "c_load list c = Some (list ! c)" using o cur by simp
  have r': "kt_search (int INT_MAX) list k 0 (int (rc_count (rc\<lparr>rc_cursor := c\<rparr>)) - 1) = Some r" using r by simp
  have base: "get_refcount_el okb junk rc k create =
      (if k = fst (list ! c) then Some (Some c, rc\<lparr>rc_cursor := c + 1\<rparr>)
       else case r of
         Inl mid \<Rightarrow> Some (Some mid, rc\<lparr>rc_cursor := c, rc_cursor := mid + 1\<rparr>)
       | Inr low \<Rightarrow>
           if \<not> create then Some (None, rc\<lparr>rc_cursor := c\<rparr>)
           else if rc_count (rc\<lparr>rc_cursor := c\<rparr>) \<ge> rc_size (rc\<lparr>rc_cursor := c\<rparr>) then do {
             (list', j) \<leftarrow> rc_collapse_loop list (rc_count (rc\<lparr>rc_cursor := c\<rparr>)) 0 0;
             if j < rc_size (rc\<lparr>rc_cursor := c\<rparr>)
             then get_refcount_el okb junk (rc\<lparr>rc_cursor := c, rc_list := Some list', rc_count := j\<rparr>) k create
             else insert_refcount_el okb junk (rc\<lparr>rc_cursor := c, rc_list := Some list', rc_count := j\<rparr>) k (nat low)
           }
           else insert_refcount_el okb junk (rc\<lparr>rc_cursor := c\<rparr>) k (nat low))"
    by (subst get_refcount_el.simps)
      (simp only: l option.case o(3) if_False app Option.bind.simps n0 Let_def c [symmetric] ld r')
  show "get_refcount_el okb junk rc k create = Some (Some c, rc\<lparr>rc_cursor := c + 1\<rparr>)" if "k = fst (list ! c)"
    using that base by simp
  show "get_refcount_el okb junk rc k create = Some (Some m, rc\<lparr>rc_cursor := m + 1\<rparr>)"
    if "k \<noteq> fst (list ! c)" "r = Inl m"
    using that base by simp
  show "get_refcount_el okb junk rc k create = Some (None, rc\<lparr>rc_cursor := c\<rparr>)"
    if "k \<noteq> fst (list ! c)" "r = Inr p" "\<not> create"
    using that base by simp
  show "get_refcount_el okb junk rc k create = insert_refcount_el okb junk (rc\<lparr>rc_cursor := c\<rparr>) k (nat p)"
    if "k \<noteq> fst (list ! c)" "r = Inr p" "create" "rc_count rc < rc_size rc"
    using that base by simp
  show "get_refcount_el okb junk rc k create =
        (if j < rc_size rc
         then get_refcount_el okb junk (rc\<lparr>rc_cursor := c, rc_list := Some list', rc_count := j\<rparr>) k create
         else insert_refcount_el okb junk (rc\<lparr>rc_cursor := c, rc_list := Some list', rc_count := j\<rparr>) k (nat p))"
    if "k \<noteq> fst (list ! c)" "r = Inr p" "create" "rc_count rc \<ge> rc_size rc"
      "rc_collapse_loop list (rc_count rc) 0 0 = Some (list', j)"
    using that base by simp
qed

lemma get_refcount_el_append:
  assumes ok: "rc_ok rc" and l: "rc_list rc = Some list" and size: "rc_size rc + 100 \<le> 1073741823"
    and app: "rc_count rc = 0 \<or> fst (list ! (rc_count rc - 1)) < k"
  shows "rc_got rc k (get_refcount_el True junk rc k True)"
proof -
  from ok l have o: "length list = rc_size rc" "kt_ok list (rc_count rc)" "rc_count rc \<le> rc_size rc" "\<not> rc_count rc > INT_MAX"
    by (auto elim!: rc_okD)
  let ?n = "rc_count rc"
  have top: "fst (list ! i) < k" if "i < ?n" for i
    using app that kt_ok_less [OF o(2), of i "?n - 1"] by (cases "i = ?n - 1") force+
  have last: "?n \<noteq> 0 \<Longrightarrow> c_load list (?n - 1) = Some (list ! (?n - 1))" using o by simp
  have run: "get_refcount_el True junk rc k True = do {
      rc' \<leftarrow> (if ?n \<ge> rc_size rc then refcount_collapse rc else Some rc);
      insert_refcount_el True junk rc' k (rc_count rc') }"
    using o l app last by (subst get_refcount_el.simps) (cases "?n = 0"; simp)
  show ?thesis
  proof (cases "?n \<ge> rc_size rc")
    case False
    with rc_insert_got [OF ok l size order_refl top] run show ?thesis by simp
  next
    case full: True
    from rc_collapse_whole [OF ok l] obtain list' j where
      c: "refcount_collapse rc = Some (rc\<lparr>rc_list := Some list', rc_count := j\<rparr>)"
        "rc_ok (rc\<lparr>rc_list := Some list', rc_count := j\<rparr>)" "rc_val (rc\<lparr>rc_list := Some list', rc_count := j\<rparr>) = rc_val rc"
        "j \<le> ?n" "take j list' = filter (\<lambda>el. snd el \<noteq> 0) (take ?n list)" by blast
    have "fst (list' ! i) < k" if "i < j" for i
    proof -
      have "j \<le> length list'" using c(2) by (auto simp: rc_ok_def kt_ok_def)
      then have "list' ! i \<in> set (take j list')" using that by (auto simp: in_set_conv_nth intro!: exI [of _ i])
      then have "list' ! i \<in> set (take ?n list)" unfolding c(5) by simp
      then obtain a where "a < ?n" "list ! a = list' ! i" by (auto simp: in_set_conv_nth)
      with top [of a] show ?thesis by simp
    qed
    with rc_insert_got [OF c(2), of list' j k junk] size have
      "rc_got (rc\<lparr>rc_list := Some list', rc_count := j\<rparr>) k (insert_refcount_el True junk (rc\<lparr>rc_list := Some list', rc_count := j\<rparr>) k j)"
      by simp
    from rc_got_trans [OF this c(3)] run full c(1) show ?thesis by simp
  qed
qed

text \<open>If a collapse of a full table makes no room then it has removed nothing.\<close>

lemma collapse_nothing:
  assumes "take j list' = filter P (take n list)" "n \<le> j" "n \<le> length list" "j \<le> length list'" "j \<le> n"
  shows "take n list' = take n list" "j = n"
proof -
  show "j = n" using assms by simp
  with assms have "length (filter P (take n list)) = length (take n list)" by (metis length_take min.absorb2)
  then have "filter P (take n list) = take n list" by (metis filter_id_conv length_filter_less less_irrefl)
  with assms \<open>j = n\<close> show "take n list' = take n list" by simp
qed

lemma rc_insert_uncollapsed:
  assumes ok: "rc_ok (rc\<lparr>rc_list := Some list', rc_count := j\<rparr>)"
    and kept: "take j list' = filter (\<lambda>el. snd el \<noteq> 0) (take (rc_count rc) list)" "j \<le> rc_count rc" and all: "rc_count rc \<le> j"
    and len: "rc_count rc \<le> length list" and p: "p \<le> rc_count rc" "rc_size rc + 100 \<le> 1073741823"
    and below: "\<And>i. i < p \<Longrightarrow> fst (list ! i) < k" and above: "\<And>i. p \<le> i \<Longrightarrow> i < rc_count rc \<Longrightarrow> k < fst (list ! i)"
  shows "rc_got (rc\<lparr>rc_list := Some list', rc_count := j\<rparr>) k
    (insert_refcount_el True junk (rc\<lparr>rc_list := Some list', rc_count := j\<rparr>) k p)"
proof -
  let ?n = "rc_count rc"
  have "j \<le> length list'" using ok by (auto simp: rc_ok_def kt_ok_def)
  from collapse_nothing [OF kept(1) all _ this kept(2)] len have same: "take ?n list' = take ?n list" "j = ?n" by simp_all
  then have nth: "list' ! i = list ! i" if "i < ?n" for i using that by (metis nth_take)
  have b1: "fst (list' ! i) < k" if "i < p" for i using p(1) below nth [of i] that by simp
  have a1: "k < fst (list' ! i)" if "p \<le> i" "i < ?n" for i using above nth [of i] that by simp
  show ?thesis by (rule rc_insert_got [OF ok]) (use same(2) p a1 b1 in simp_all)
qed

lemma get_refcount_el_gap:
  assumes ok: "rc_ok rc" "rc_size rc + 100 \<le> 1073741823" and l: "rc_list rc = Some list" and n0: "rc_count rc \<noteq> 0"
    and nl: "\<not> fst (list ! (rc_count rc - 1)) < k" and s: "kt_search (int INT_MAX) list k 0 (int (rc_count rc) - 1) = Some (Inr p)"
    and c: "c = (if rc_cursor rc \<ge> rc_count rc then 0 else rc_cursor rc)" and miss: "k \<noteq> fst (list ! c)"
    and p: "nat p \<le> rc_count rc" "\<And>i. i < nat p \<Longrightarrow> fst (list ! i) < k" "\<And>i. nat p \<le> i \<Longrightarrow> i < rc_count rc \<Longrightarrow> k < fst (list ! i)"
    and ih: "\<And>rc'. rc_count rc' < rc_count rc \<Longrightarrow> rc_ok rc' \<Longrightarrow> rc_size rc' + 100 \<le> 1073741823 \<Longrightarrow>
      rc_got rc' k (get_refcount_el True junk rc' k True)"
  shows "rc_got rc k (get_refcount_el True junk rc k True)"
proof -
  let ?n = "rc_count rc" and ?rc = "rc\<lparr>rc_cursor := c\<rparr>"
  from ok(1) obtain list0 where o: "rc_list rc = Some list0" "length list0 = rc_size rc" "?n \<le> rc_size rc" by (rule rc_okD)
  with l have len: "length list = rc_size rc" by simp
  note br = get_refcount_el_branches(4,5) [OF ok(1) l n0 nl s c, where create = True and okb = True and junk = junk, OF miss refl]
  have rc: "rc_ok ?rc" "rc_list ?rc = Some list" "rc_val ?rc = rc_val rc" using ok(1) l by simp_all
  show ?thesis
  proof (cases "?n < rc_size rc")
    case True
    from rc_insert_got [OF rc(1,2), of "nat p" k junk] p ok(2)
    have "rc_got ?rc k (insert_refcount_el True junk ?rc k (nat p))" by simp
    from rc_got_trans [OF this rc(3)] br(1) True show ?thesis by simp
  next
    case full: False
    obtain list' j where
      c': "rc_collapse_loop list ?n 0 0 = Some (list', j)"
        "rc_ok (?rc\<lparr>rc_list := Some list', rc_count := j\<rparr>)"
        "rc_val (?rc\<lparr>rc_list := Some list', rc_count := j\<rparr>) = rc_val ?rc"
        "j \<le> ?n" "take j list' = filter (\<lambda>el. snd el \<noteq> 0) (take ?n list)"
      by (rule rc_collapse_whole [OF rc(1,2)]) simp
    let ?rc2 = "?rc\<lparr>rc_list := Some list', rc_count := j\<rparr>"
    have "rc_got ?rc2 k (get_refcount_el True junk rc k True)"
    proof (cases "j < rc_size rc")
      case True
      have "rc_got ?rc2 k (get_refcount_el True junk ?rc2 k True)"
        by (rule ih) (use True full c'(2) ok(2) in simp_all)
      with True full br(2) [OF _ _ c'(1)] show ?thesis by simp
    next
      case False
      have "rc_got ?rc2 k (insert_refcount_el True junk ?rc2 k (nat p))"
        by (rule rc_insert_uncollapsed [OF c'(2), of list]) (use False full o(3) len c'(4,5) ok(2) p in simp_all)
      with False full br(2) [OF _ _ c'(1)] show ?thesis by simp
    qed
    from rc_got_trans [OF this] c'(3) rc(3) show ?thesis by simp
  qed
qed

lemma get_refcount_el_create:
  assumes "rc_ok rc" "rc_size rc + 100 \<le> 1073741823"
  shows "rc_got rc k (get_refcount_el True junk rc k True)"
  using assms
proof (induction "rc_count rc" arbitrary: rc rule: less_induct)
  case less
  from less.prems(1) obtain list where o: "rc_list rc = Some list" "length list = rc_size rc"
    "kt_ok list (rc_count rc)" "rc_count rc \<le> rc_size rc" "rc_size rc \<le> 1073741823" "\<not> rc_count rc > INT_MAX"
    by (rule rc_okD)
  let ?n = "rc_count rc"
  show ?case
  proof (cases "?n = 0 \<or> fst (list ! (?n - 1)) < k")
    case True
    with less.prems o show ?thesis by (intro get_refcount_el_append)
  next
    case False
    then have n0: "?n \<noteq> 0" and nl: "\<not> fst (list ! (?n - 1)) < k" by auto
    define c where "c = (if rc_cursor rc \<ge> ?n then 0 else rc_cursor rc)"
    have cur: "c < ?n" using n0 by (auto simp: c_def)
    from kt_search_whole [OF o(3), of "int INT_MAX" k] o(4,5) obtain r where
      r: "kt_search (int INT_MAX) list k 0 (int ?n - 1) = Some r"
        "case r of Inl m \<Rightarrow> m < ?n \<and> fst (list ! m) = k
         | Inr p \<Rightarrow> 0 \<le> p \<and> nat p \<le> ?n \<and> (\<forall>i < nat p. fst (list ! i) < k) \<and> (\<forall>i. nat p \<le> i \<and> i < ?n \<longrightarrow> k < fst (list ! i))"
      by auto
    note br = get_refcount_el_branches [OF less.prems(1) o(1) n0 nl r(1) c_def, where create = True and okb = True and junk = junk]
    show ?thesis
    proof (cases "k = fst (list ! c)")
      case True
      with rc_got_existing [OF less.prems(1) o(1) cur, of k "c + 1"] br(1) show ?thesis by simp
    next
      case miss: False
      show ?thesis
      proof (cases r)
        case (Inl m)
        with r(2) rc_got_existing [OF less.prems(1) o(1), of m k "m + 1"] br(2) miss show ?thesis by simp
      next
        case (Inr p)
        with r(2) have p: "nat p \<le> ?n" "\<And>i. i < nat p \<Longrightarrow> fst (list ! i) < k"
          "\<And>i. nat p \<le> i \<Longrightarrow> i < ?n \<Longrightarrow> k < fst (list ! i)" by auto
        show ?thesis
          by (rule get_refcount_el_gap [OF less.prems o(1) n0 nl r(1) [unfolded Inr] c_def miss p]) (auto intro: less.hyps)
      qed
    qed
  qed
qed

text \<open>Without the create flag: the entry if there is one, and only the cursor changes.\<close>

lemma get_refcount_el_lookup:
  assumes "rc_ok rc" "rc_list rc = Some list"
  shows "\<exists>r c. get_refcount_el okb junk rc k False = Some (r, rc\<lparr>rc_cursor := c\<rparr>) \<and>
    (case r of None \<Rightarrow> kt_get list (rc_count rc) k = None | Some i \<Rightarrow> i < rc_count rc \<and> fst (list ! i) = k)"
proof -
  let ?n = "rc_count rc"
  from assms have o: "length list = rc_size rc" "kt_ok list ?n" "?n \<le> rc_size rc" "rc_size rc \<le> 1073741823"
      "\<not> ?n > INT_MAX"
    by (auto elim!: rc_okD)
  show ?thesis
  proof (cases "?n = 0")
    case True
    then have "kt_get list ?n k = None" by (simp add: kt_get_def)
    with True assms(2) show ?thesis
      by (subst get_refcount_el.simps) (simp add: exI [of _ "rc_cursor rc"])
  next
    case n0: False
    define c where "c = (if rc_cursor rc \<ge> ?n then 0 else rc_cursor rc)"
    have cur: "c < ?n" using n0 by (auto simp: c_def)
    from kt_search_whole [OF o(2), of "int INT_MAX" k] o(3,4) obtain r where
      r: "kt_search (int INT_MAX) list k 0 (int ?n - 1) = Some r"
        "case r of Inl m \<Rightarrow> m < ?n \<and> fst (list ! m) = k
         | Inr p \<Rightarrow> 0 \<le> p \<and> nat p \<le> ?n \<and> (\<forall>i < nat p. fst (list ! i) < k) \<and> (\<forall>i. nat p \<le> i \<and> i < ?n \<longrightarrow> k < fst (list ! i))"
      by auto
    note br = get_refcount_el_branches [OF assms n0 _ r(1) c_def, where create = False and okb = okb and junk = junk]
    show ?thesis
    proof (cases "k = fst (list ! c)")
      case True
      with br(1) cur show ?thesis by (intro exI [of _ "Some c"] exI [of _ "c + 1"]) simp
    next
      case miss: False
      show ?thesis
      proof (cases r)
        case (Inl m)
        with r(2) br(2) miss show ?thesis by (intro exI [of _ "Some m"] exI [of _ "m + 1"]) simp
      next
        case (Inr p)
        with r(2) have "kt_get list ?n k = None" by (intro kt_get_gap [OF o(2), of "nat p"]) auto
        with Inr br(3) miss show ?thesis by (intro exI [of _ None] exI [of _ c]) simp
      qed
    qed
  qed
qed

subsection \<open>The table is a counter\<close>

lemma rc_set_value_eq:
  assumes ok: "rc_ok rc" and l: "rc_list rc = Some list" and i: "i < rc_count rc" "fst (list ! i) = k"
  shows "\<exists>rc'. rc_set_value rc i f = Some rc' \<and> rc_ok rc' \<and> rc_size rc' = rc_size rc
    \<and> rc_val rc' = (rc_val rc)(k := unat (f (snd (list ! i)))) \<and> rc_val rc k = unat (snd (list ! i))"
proof -
  from ok l have o: "length list = rc_size rc" "kt_ok list (rc_count rc)" "rc_count rc \<le> rc_size rc" "rc_size rc \<le> 1073741823"
    by (auto elim!: rc_okD)
  let ?rc = "rc\<lparr>rc_list := Some (list[i := (k, f (snd (list ! i)))])\<rparr>"
  note u = kt_update_cell [OF o(2) i, of "f (snd (list ! i))"]
  have "rc_set_value rc i f = Some ?rc" using l i o by (simp add: rc_set_value_def)
  moreover have "rc_ok ?rc" using u(1) o by (simp add: rc_ok_def)
  moreover have "rc_val ?rc = (rc_val rc)(k := unat (f (snd (list ! i))))"
    by (rule ext) (simp add: rc_val_def l u(2))
  moreover have "rc_val rc k = unat (snd (list ! i))"
    using kt_get_nth [OF o(2) i(1)] i(2) by (simp add: rc_val_def l)
  ultimately show ?thesis by simp
qed

definition rc_incr :: "(nat \<Rightarrow> u64 \<times> u64) \<Rightarrow> u64 \<Rightarrow> refcount \<Rightarrow> (errcode \<times> refcount) ub" where
  "rc_incr junk k rc = ea_refcount_increment True junk rc k"

definition rc_decr :: "u64 \<Rightarrow> refcount \<Rightarrow> (errcode \<times> refcount) ub" where
  "rc_decr k rc = ea_refcount_decrement rc k"

definition rc_put :: "(nat \<Rightarrow> u64 \<times> u64) \<Rightarrow> u64 \<Rightarrow> nat \<Rightarrow> refcount \<Rightarrow> (errcode \<times> refcount) ub" where
  "rc_put junk k v rc = ea_refcount_store True junk rc k (of_nat v)"

definition rc_fetch :: "u64 \<Rightarrow> refcount \<Rightarrow> (nat \<times> refcount) ub" where
  "rc_fetch k rc = map_option (map_prod unat id) (ea_refcount_fetch rc k)"

definition rc_budget :: "nat \<Rightarrow> refcount \<Rightarrow> bool" where
  "rc_budget n rc \<longleftrightarrow> rc_size rc + 100 * n \<le> 1073741823 \<and> (\<forall>k. rc_val rc k + n \<le> 18446744073709551615)"

text \<open>A change of one counter that fits into 64 bits keeps the rest of the budget.\<close>

lemma rc_budget_step:
  assumes "rc_budget (Suc n) rc" "rc_size rc' \<le> rc_size rc + 100" "rc_val rc' = (rc_val rc)(k := v)"
    "v + n \<le> 18446744073709551615"
  shows "rc_budget n rc'"
proof -
  have "rc_val rc' x + n \<le> 18446744073709551615" for x
  proof (cases "x = k")
    case False
    have "rc_val rc x + Suc n \<le> 18446744073709551615" using assms(1) by (simp add: rc_budget_def)
    with False assms(3) show ?thesis by simp
  qed (use assms(3,4) in simp)
  with assms(1,2) show ?thesis by (simp add: rc_budget_def)
qed

lemma rc_budget_less:
  assumes "rc_budget (Suc n) rc"
  shows "rc_budget n rc"
proof (rule rc_budget_step [OF assms, of rc 0 "rc_val rc 0"])
  have "rc_val rc 0 + Suc n \<le> 18446744073709551615" using assms by (simp add: rc_budget_def)
  then show "rc_val rc 0 + n \<le> 18446744073709551615" by simp
qed auto

lemma rc_increment_law:
  assumes ok: "rc_ok rc" and b: "rc_budget (Suc n) rc"
  shows "\<exists>rc'. rc_incr junk k rc = Some (E_OK, rc') \<and> rc_ok rc' \<and> rc_budget n rc'
    \<and> rc_val rc' = (rc_val rc)(k := Suc (rc_val rc k))"
proof -
  have "rc_size rc + 100 \<le> 1073741823" using b by (simp add: rc_budget_def)
  from get_refcount_el_create [OF ok this, of k junk] obtain i rc1 list where
    g: "get_refcount_el True junk rc k True = Some (Some i, rc1)" "rc_ok rc1" "rc_list rc1 = Some list"
      "i < rc_count rc1" "fst (list ! i) = k" "rc_val rc1 = rc_val rc" "rc_size rc1 \<le> rc_size rc + 100"
    by (auto simp: rc_got_def)
  from rc_set_value_eq [OF g(2-5), of "\<lambda>v. v + 1"] obtain rc2 where
    s: "rc_set_value rc1 i (\<lambda>v. v + 1) = Some rc2" "rc_ok rc2" "rc_size rc2 = rc_size rc1"
      "rc_val rc2 = (rc_val rc1)(k := unat (snd (list ! i) + 1))" "rc_val rc1 k = unat (snd (list ! i))"
    by blast
  have "rc_val rc k + Suc n \<le> 18446744073709551615" using b by (simp add: rc_budget_def)
  then have small: "rc_val rc k + n < 18446744073709551615" by simp
  then have "unat (snd (list ! i) + 1) = Suc (rc_val rc k)"
    using s(5) g(6) by (subst unat_add_u64) simp_all
  with s(4) g(6) have v: "rc_val rc2 = (rc_val rc)(k := Suc (rc_val rc k))" by simp
  have "rc_budget n rc2" by (rule rc_budget_step [OF b _ v]) (use s(3) g(7) small in simp_all)
  with g(1) s(1,2) v show ?thesis by (simp add: rc_incr_def ea_refcount_increment_def)
qed

lemma rc_store_law:
  assumes ok: "rc_ok rc" and b: "rc_budget (Suc n) rc" and fits: "v + n \<le> 18446744073709551615"
  shows "\<exists>rc'. rc_put junk k v rc = Some (E_OK, rc') \<and> rc_ok rc' \<and> rc_budget n rc' \<and> rc_val rc' = (rc_val rc)(k := v)"
proof -
  have u: "unat (of_nat v :: u64) = v" using fits by (intro unat_of_nat_u64) simp
  have z: "(of_nat v :: u64) = 0 \<longleftrightarrow> v = 0" unfolding word_unat_eq_iff u by simp
  show ?thesis
  proof (cases "v = 0")
    case False
    have "rc_size rc + 100 \<le> 1073741823" using b by (simp add: rc_budget_def)
    from get_refcount_el_create [OF ok this, of k junk] obtain i rc1 list where
      g: "get_refcount_el True junk rc k True = Some (Some i, rc1)" "rc_ok rc1" "rc_list rc1 = Some list"
        "i < rc_count rc1" "fst (list ! i) = k" "rc_val rc1 = rc_val rc" "rc_size rc1 \<le> rc_size rc + 100"
      by (auto simp: rc_got_def)
    from rc_set_value_eq [OF g(2-5), of "\<lambda>_. of_nat v"] obtain rc2 where
      s: "rc_set_value rc1 i (\<lambda>_. of_nat v) = Some rc2" "rc_ok rc2" "rc_size rc2 = rc_size rc1"
        "rc_val rc2 = (rc_val rc1)(k := unat (of_nat v :: u64))"
      by blast
    have v: "rc_val rc2 = (rc_val rc)(k := v)" using s(4) g(6) u by simp
    have "rc_budget n rc2" by (rule rc_budget_step [OF b _ v]) (use s(3) g(7) fits in simp_all)
    with g(1) s(1,2) v z False show ?thesis by (simp add: rc_put_def ea_refcount_store_def)
  next
    case True
    from ok obtain list where l: "rc_list rc = Some list" by (rule rc_okD)
    from get_refcount_el_lookup [OF ok l, of True junk k] obtain r c where
      g: "get_refcount_el True junk rc k False = Some (r, rc\<lparr>rc_cursor := c\<rparr>)"
        "case r of None \<Rightarrow> kt_get list (rc_count rc) k = None | Some i \<Rightarrow> i < rc_count rc \<and> fst (list ! i) = k"
      by blast
    show ?thesis
    proof (cases r)
      case None
      then have "rc_val rc = (rc_val rc)(k := 0)" using g(2) l by (auto simp: rc_val_def fun_eq_iff)
      moreover from this b have "rc_budget n (rc\<lparr>rc_cursor := c\<rparr>)"
        by (intro rc_budget_step [of n rc _ k 0]) (simp_all add: rc_budget_def)
      ultimately show ?thesis using g(1) None True ok by (simp add: rc_put_def ea_refcount_store_def)
    next
      case (Some i)
      let ?rc = "rc\<lparr>rc_cursor := c\<rparr>"
      from rc_set_value_eq [of ?rc list i k "\<lambda>_. 0"] ok l g(2) Some obtain rc2 where
        s: "rc_set_value ?rc i (\<lambda>_. 0) = Some rc2" "rc_ok rc2" "rc_size rc2 = rc_size rc" "rc_val rc2 = (rc_val rc)(k := 0)"
        by auto
      have "rc_budget n rc2" by (rule rc_budget_step [OF b _ s(4)]) (use s(3) fits in simp_all)
      with g(1) s True Some show ?thesis by (simp add: rc_put_def ea_refcount_store_def)
    qed
  qed
qed

lemma rc_decrement_law:
  assumes ok: "rc_ok rc" and b: "rc_budget (Suc n) rc"
  shows "\<exists>rc'. rc_decr k rc = Some (if rc_val rc k = 0 then EXT2_ET_INVALID_ARGUMENT else E_OK, rc') \<and> rc_ok rc'
    \<and> rc_budget n rc' \<and> rc_val rc' = (rc_val rc)(k := rc_val rc k - 1)"
proof -
  from ok obtain list where l: "rc_list rc = Some list" by (rule rc_okD)
  from get_refcount_el_lookup [OF ok l, of True "\<lambda>_. (0, 0)" k] obtain r c where
    g: "get_refcount_el True (\<lambda>_. (0, 0)) rc k False = Some (r, rc\<lparr>rc_cursor := c\<rparr>)"
      "case r of None \<Rightarrow> kt_get list (rc_count rc) k = None | Some i \<Rightarrow> i < rc_count rc \<and> fst (list ! i) = k"
    by blast
  let ?rc = "rc\<lparr>rc_cursor := c\<rparr>"
  have b0: "rc_budget n ?rc" using rc_budget_less [OF b] by (simp add: rc_budget_def)
  have less: "rc_val rc k - 1 + n \<le> 18446744073709551615"
  proof -
    have "rc_val rc k + Suc n \<le> 18446744073709551615" using b by (simp add: rc_budget_def)
    then show ?thesis by simp
  qed
  show ?thesis
  proof (cases r)
    case None
    then have z: "rc_val rc k = 0" using g(2) l by (simp add: rc_val_def)
    then have "(rc_val rc)(k := rc_val rc k - 1) = rc_val rc" by auto
    with g(1) None z ok b0 show ?thesis by (simp add: rc_decr_def ea_refcount_decrement_def)
  next
    case (Some i)
    with g(2) have i: "i < rc_count rc" "fst (list ! i) = k" by simp_all
    have ld: "c_load list i = Some (list ! i)" using i ok l by (auto elim!: rc_okD)
    from rc_set_value_eq [of ?rc list i k "\<lambda>v. v - 1"] ok l i obtain rc2 where
      s: "rc_set_value ?rc i (\<lambda>v. v - 1) = Some rc2" "rc_ok rc2" "rc_size rc2 = rc_size rc"
        "rc_val rc2 = (rc_val rc)(k := unat (snd (list ! i) - 1))" "rc_val rc k = unat (snd (list ! i))"
      by auto
    have z: "rc_val rc k = 0 \<longleftrightarrow> snd (list ! i) = 0" using s(5) by (simp add: unat_eq_0)
    show ?thesis
    proof (cases "rc_val rc k = 0")
      case True
      then have "(rc_val rc)(k := rc_val rc k - 1) = rc_val rc" by auto
      with g(1) Some z True ok b0 l ld show ?thesis by (simp add: rc_decr_def ea_refcount_decrement_def)
    next
      case False
      then have "unat (snd (list ! i) - 1) = rc_val rc k - 1" using z s(5) by (simp add: unat_minus_one)
      with s(4) have v: "rc_val rc2 = (rc_val rc)(k := rc_val rc k - 1)" by simp
      have "rc_budget n rc2" by (rule rc_budget_step [OF b _ v less]) (use s(3) in simp)
      with g(1) Some z False l ld s(1,2) v show ?thesis by (simp add: rc_decr_def ea_refcount_decrement_def)
    qed
  qed
qed

lemma rc_fetch_law:
  assumes ok: "rc_ok rc"
  shows "\<exists>rc'. rc_fetch k rc = Some (rc_val rc k, rc') \<and> rc_ok rc' \<and> rc_val rc' = rc_val rc"
proof -
  from ok obtain list where l: "rc_list rc = Some list" "kt_ok list (rc_count rc)" "length list = rc_size rc"
    "rc_count rc \<le> rc_size rc" by (rule rc_okD)
  from get_refcount_el_lookup [OF ok l(1), of True "\<lambda>_. (0, 0)" k] obtain r c where
    g: "get_refcount_el True (\<lambda>_. (0, 0)) rc k False = Some (r, rc\<lparr>rc_cursor := c\<rparr>)"
      "case r of None \<Rightarrow> kt_get list (rc_count rc) k = None | Some i \<Rightarrow> i < rc_count rc \<and> fst (list ! i) = k"
    by blast
  show ?thesis
  proof (cases r)
    case None
    with g l ok show ?thesis by (simp add: rc_fetch_def ea_refcount_fetch_def rc_val_def)
  next
    case (Some i)
    with g(2) have i: "i < rc_count rc" "fst (list ! i) = k" by simp_all
    have "rc_val rc k = unat (snd (list ! i))" using kt_get_nth [OF l(2) i(1)] i(2) l(1) by (simp add: rc_val_def)
    with g(1) Some i l ok show ?thesis by (simp add: rc_fetch_def ea_refcount_fetch_def)
  qed
qed

interpretation rc: counter rc_ok rc_val "\<lambda>_. UNIV" rc_budget 18446744073709551615
  "rc_incr junk" rc_decr "rc_put junk" rc_fetch id
  by unfold_locales (use rc_increment_law rc_decrement_law rc_store_law rc_fetch_law in auto)

text \<open>
  (C12) Any history of increments, decrements and stores of the reference counts, executed by the code on a
  well-formed table with memory available, returns the error codes and leaves the counters that the history
  describes: a decrement of a counter that is 0 is refused, and collapsing and growing the table loses
  nothing. A fetch afterwards reports the counter.
\<close>

theorem ea_refcount_history:
  assumes "rc_ok rc" "rc_budget (length ops) rc"
    and "\<forall>k v. Put k v \<in> set ops \<longrightarrow> v + length ops \<le> 18446744073709551615"
  shows "\<exists>rc'. run_count (rc_incr junk) rc_decr (rc_put junk) ops rc = Some (fst (spec_count ops (rc_val rc)), rc')
    \<and> rc_ok rc' \<and> rc_val rc' = snd (spec_count ops (rc_val rc))
    \<and> (\<forall>k. \<exists>rc''. rc_fetch k rc' = Some (snd (spec_count ops (rc_val rc)) k, rc''))"
proof -
  from rc.run_count_refines [OF assms(1) _ assms(2,3), of junk] obtain rc' where
    "run_count (rc_incr junk) rc_decr (rc_put junk) ops rc = Some (fst (spec_count ops (rc_val rc)), rc')"
    "rc_ok rc'" "rc_val rc' = snd (spec_count ops (rc_val rc))" by auto
  with rc_fetch_law [of rc'] show ?thesis by metis
qed

text \<open>A table for two entries with one entry in use.\<close>

definition rc_example :: refcount where
  "rc_example = \<lparr>rc_count = 1, rc_size = 2, rc_cursor = 0, rc_list = Some [(5, 1), (0, 0)]\<rparr>"

lemma rc_example_ok: "rc_ok rc_example"
  by (simp add: rc_ok_def rc_example_def kt_ok_def)

theorem ea_refcount_history_witness:
  "\<exists>rc'. run_count (rc_incr (\<lambda>_. (1, 1))) rc_decr (rc_put (\<lambda>_. (1, 1))) [Decr 5, Decr 5, Put 9 3, Incr 7] rc_example
      = Some (fst (spec_count [Decr 5, Decr 5, Put 9 3, Incr 7] (rc_val rc_example)), rc')
    \<and> rc_ok rc' \<and> rc_val rc' = snd (spec_count [Decr 5, Decr 5, Put 9 3, Incr 7] (rc_val rc_example))
    \<and> (\<forall>k. \<exists>rc''. rc_fetch k rc' = Some (snd (spec_count [Decr 5, Decr 5, Put 9 3, Incr 7] (rc_val rc_example)) k, rc''))"
proof (rule ea_refcount_history [OF rc_example_ok])
  have "rc_val rc_example k \<le> 1" for k
    by (simp add: rc_val_def rc_example_def kt_get_def)
  then have "rc_val rc_example k + 4 \<le> 18446744073709551615" for k
    by (rule order_trans [OF add_right_mono]) simp
  then show "rc_budget (length [Decr 5, Decr 5, Put 9 3, Incr 7]) rc_example"
    by (simp add: rc_budget_def rc_example_def)
qed auto

subsection \<open>Iteration\<close>

text \<open>
  A client's loop, as in pass 1 of e2fsck: it asks for the next key until the key 0 is returned, and
  collects the keys and counters. The first argument bounds the number of calls.
\<close>

fun rc_collect :: "nat \<Rightarrow> refcount \<Rightarrow> (u64 \<times> u64) list ub" where
  "rc_collect 0 rc = None"
| "rc_collect (Suc n) rc = do {
     (key, v, rc) \<leftarrow> ea_refcount_intr_next rc;
     case v of
       None \<Rightarrow> Some []
     | Some v \<Rightarrow> if key = 0 then Some [] else map_option ((#) (key, v)) (rc_collect n rc)
   }"

lemma intr_next_eq:
  assumes "rc_list rc = Some list" "rc_count rc \<le> length list"
  shows "ea_refcount_intr_next rc =
    (case filter (\<lambda>i. snd (list ! i) \<noteq> 0) [rc_cursor rc..<rc_count rc] of
       [] \<Rightarrow> Some (0, None, rc\<lparr>rc_cursor := max (rc_cursor rc) (rc_count rc)\<rparr>)
     | i # _ \<Rightarrow> Some (fst (list ! i), Some (snd (list ! i)), rc\<lparr>rc_cursor := i + 1\<rparr>))"
  using assms
proof (induction rc rule: ea_refcount_intr_next.induct)
  case (1 rc)
  show ?case
  proof (cases "rc_cursor rc \<ge> rc_count rc")
    case True
    then have "max (rc_cursor rc) (rc_count rc) = rc_cursor rc" by simp
    with True show ?thesis by (subst ea_refcount_intr_next.simps) simp
  next
    case False
    then have ld: "c_load list (rc_cursor rc) = Some (list ! rc_cursor rc)" using "1.prems" by simp
    have up: "[rc_cursor rc..<rc_count rc] = rc_cursor rc # [Suc (rc_cursor rc)..<rc_count rc]"
      using False by (simp add: upt_conv_Cons)
    show ?thesis
    proof (cases "snd (list ! rc_cursor rc) = 0")
      case nz: False
      with False "1.prems" ld up show ?thesis by (subst ea_refcount_intr_next.simps) simp
    next
      case z: True
      let ?rc = "rc\<lparr>rc_cursor := rc_cursor rc + 1\<rparr>"
      have "max (Suc (rc_cursor rc)) (rc_count rc) = max (rc_cursor rc) (rc_count rc)" using False by simp
      with "1.IH" [OF False "1.prems"(1) ld] z "1.prems" have
        "ea_refcount_intr_next ?rc = (case filter (\<lambda>i. snd (list ! i) \<noteq> 0) [Suc (rc_cursor rc)..<rc_count rc] of
           [] \<Rightarrow> Some (0, None, rc\<lparr>rc_cursor := max (rc_cursor rc) (rc_count rc)\<rparr>)
         | i # _ \<Rightarrow> Some (fst (list ! i), Some (snd (list ! i)), rc\<lparr>rc_cursor := i + 1\<rparr>))"
        by (simp split: list.split)
      with False z "1.prems" ld up show ?thesis by (subst ea_refcount_intr_next.simps) simp
    qed
  qed
qed

lemma filter_upt_Cons:
  assumes "filter P [a..<n] = i # is"
  shows "P i" "a \<le> i" "i < n" "filter P [Suc i..<n] = is"
proof -
  have "i \<in> set (filter P [a..<n])" using assms by simp
  then show i: "P i" "a \<le> i" "i < n" by auto
  have "[a..<n] = [a..<i] @ i # [Suc i..<n]"
    using i upt_add_eq_append [of a i "n - i"] upt_conv_Cons [of i n] by simp
  moreover have "filter P [a..<i] = []"
  proof (rule ccontr)
    assume "filter P [a..<i] \<noteq> []"
    with assms calculation have "i \<in> set (filter P [a..<i])" by (cases "filter P [a..<i]") auto
    then show False by simp
  qed
  ultimately show "filter P [Suc i..<n] = is" using assms i(1) by simp
qed

lemma rc_collect_eq:
  assumes "rc_list rc = Some list" "rc_count rc \<le> length list" "rc_count rc - rc_cursor rc < n"
    and "\<And>i. i < rc_count rc \<Longrightarrow> snd (list ! i) \<noteq> 0 \<Longrightarrow> fst (list ! i) \<noteq> 0"
  shows "rc_collect n rc = Some (map (\<lambda>i. list ! i) (filter (\<lambda>i. snd (list ! i) \<noteq> 0) [rc_cursor rc..<rc_count rc]))"
  using assms
proof (induction n arbitrary: rc)
  case (Suc n)
  note nx = intr_next_eq [OF Suc.prems(1,2)]
  show ?case
  proof (cases "filter (\<lambda>i. snd (list ! i) \<noteq> 0) [rc_cursor rc..<rc_count rc]")
    case Nil
    with nx show ?thesis by simp
  next
    case (Cons i "is")
    note f = filter_upt_Cons [OF Cons]
    have "rc_collect n (rc\<lparr>rc_cursor := i + 1\<rparr>) = Some (map (\<lambda>i. list ! i) is)"
      using Suc.IH [of "rc\<lparr>rc_cursor := i + 1\<rparr>"] Suc.prems f by simp
    with nx Cons f(1) Suc.prems(4) [OF f(3,1)] show ?thesis by simp
  qed
qed simp

text \<open>
  A client that starts an iteration over a well-formed table and asks for the next entry until it gets
  the key 0 sees every key whose counter is not zero, once each and in ascending order, with its counter,
  provided that the key 0 itself is not counted.
\<close>

theorem ea_refcount_iterate:
  assumes ok: "rc_ok rc" and zero: "rc_val rc 0 = 0" and fuel: "rc_count rc < n"
  shows "\<exists>xs. rc_collect n (ea_refcount_intr_begin rc) = Some xs \<and> sorted_wrt (<) (map fst xs)
    \<and> set xs = {(k, v). v \<noteq> 0 \<and> rc_val rc k = unat v}"
proof -
  from ok obtain list where l: "rc_list rc = Some list" "length list = rc_size rc" "kt_ok list (rc_count rc)"
    "rc_count rc \<le> rc_size rc" by (rule rc_okD)
  let ?n = "rc_count rc"
  have val: "rc_val rc k = unat v \<longleftrightarrow> (\<exists>i < ?n. list ! i = (k, v))" if "v \<noteq> 0" for k v
  proof -
    have "rc_val rc k = unat v \<longleftrightarrow> kt_get list ?n k = Some v"
      using that l(1) by (auto simp: rc_val_def word_unat_eq_iff split: option.split)
    then show ?thesis using kt_get_iff [OF l(3)] by simp
  qed
  have nz: "fst (list ! i) \<noteq> 0" if i: "i < ?n" "snd (list ! i) \<noteq> 0" for i
  proof
    assume "fst (list ! i) = 0"
    then have "rc_val rc 0 = unat (snd (list ! i))" using val [OF i(2), of 0] i(1) by (metis prod.collapse)
    with zero i(2) show False by (simp add: unat_eq_0)
  qed
  let ?xs = "map (\<lambda>i. list ! i) (filter (\<lambda>i. snd (list ! i) \<noteq> 0) [0..<?n])"
  have "rc_collect n (ea_refcount_intr_begin rc) = Some ?xs"
    using rc_collect_eq [of "ea_refcount_intr_begin rc" list n] l fuel nz by (simp add: ea_refcount_intr_begin_def)
  moreover have "sorted_wrt (<) (map fst ?xs)"
  proof -
    have "sorted_wrt (\<lambda>i j. fst (list ! i) < fst (list ! j)) [0..<?n]"
      by (auto simp: sorted_wrt_iff_nth_less intro: kt_ok_less [OF l(3)])
    then show ?thesis by (simp add: sorted_wrt_map sorted_wrt_filter)
  qed
  moreover have "set ?xs = {(k, v). v \<noteq> 0 \<and> rc_val rc k = unat v}"
  proof (rule set_eqI)
    fix kv :: "u64 \<times> u64"
    obtain k v where kv: "kv = (k, v)" by (cases kv)
    have "kv \<in> set ?xs \<longleftrightarrow> (\<exists>i < ?n. snd (list ! i) \<noteq> 0 \<and> list ! i = kv)" by (auto simp: image_iff)
    moreover have "(\<exists>i < ?n. snd (list ! i) \<noteq> 0 \<and> list ! i = kv) \<longleftrightarrow> v \<noteq> 0 \<and> (\<exists>i < ?n. list ! i = (k, v))"
      unfolding kv by (metis snd_conv)
    ultimately have "kv \<in> set ?xs \<longleftrightarrow> v \<noteq> 0 \<and> (\<exists>i < ?n. list ! i = (k, v))" by simp
    then show "kv \<in> set ?xs \<longleftrightarrow> kv \<in> {(k, v). v \<noteq> 0 \<and> rc_val rc k = unat v}" using val [of v k] kv by auto
  qed
  ultimately show ?thesis by blast
qed

theorem ea_refcount_iterate_witness:
  "\<exists>xs. rc_collect 3 (ea_refcount_intr_begin rc_example) = Some xs \<and> sorted_wrt (<) (map fst xs)
    \<and> set xs = {(k, v). v \<noteq> 0 \<and> rc_val rc_example k = unat v}"
  by (rule ea_refcount_iterate [OF rc_example_ok]) (simp_all add: rc_val_def rc_example_def kt_get_def)

end
