(* ===== verification/Filsys.thy ===== *)
theory Filsys
  imports E2_Prelude
begin

unbundle bit_operations_syntax

text \<open>
  The structures that most of the library works on: the superblock, a group descriptor and an inode of
  \<^verbatim>\<open>lib/ext2fs/ext2_fs.h\<close>, and \<^verbatim>\<open>struct struct_ext2_filsys\<close> of \<^verbatim>\<open>lib/ext2fs/ext2fs.h\<close>, each with the
  fields that the modelled code uses, at their widths. The macros and inline functions of the two headers
  that read them follow. The table of group descriptors is an array of records, of which \<open>bg_tail\<close> is the
  bytes of a descriptor behind the C structure; the byte offsets into the table are modelled.
\<close>

subsection \<open>The structures\<close>

record super_block =
  s_inodes_count :: u32
  s_blocks_count :: u32
  s_r_blocks_count :: u32
  s_free_blocks_count :: u32
  s_free_inodes_count :: u32
  s_first_data_block :: u32
  s_log_block_size :: u32
  s_log_cluster_size :: u32
  s_blocks_per_group :: u32
  s_clusters_per_group :: u32
  s_inodes_per_group :: u32
  s_rev_level :: u32
  s_first_ino :: u32
  s_inode_size :: u16
  s_feature_compat :: u32
  s_feature_incompat :: u32
  s_feature_ro_compat :: u32
  s_uuid :: "u8 list"
  s_reserved_gdt_blocks :: u16
  s_desc_size :: u16
  s_first_meta_bg :: u32
  s_blocks_count_hi :: u32
  s_r_blocks_count_hi :: u32
  s_free_blocks_hi :: u32
  s_backup_bgs_0 :: u32
  s_backup_bgs_1 :: u32
  s_checksum_type :: u8
  s_checksum_seed :: u32

record ext4_group_desc =
  bg_block_bitmap :: u32
  bg_inode_bitmap :: u32
  bg_inode_table :: u32
  bg_free_blocks_count :: u16
  bg_free_inodes_count :: u16
  bg_used_dirs_count :: u16
  bg_flags :: u16
  bg_exclude_bitmap_lo :: u32
  bg_block_bitmap_csum_lo :: u16
  bg_inode_bitmap_csum_lo :: u16
  bg_itable_unused :: u16
  bg_checksum :: u16
  bg_block_bitmap_hi :: u32
  bg_inode_bitmap_hi :: u32
  bg_inode_table_hi :: u32
  bg_free_blocks_count_hi :: u16
  bg_free_inodes_count_hi :: u16
  bg_used_dirs_count_hi :: u16
  bg_itable_unused_hi :: u16
  bg_exclude_bitmap_hi :: u32
  bg_block_bitmap_csum_hi :: u16
  bg_inode_bitmap_csum_hi :: u16
  bg_reserved :: u32
  bg_tail :: "u8 list"

record ext2_inode =
  i_mode :: u16
  i_size :: u32
  i_blocks :: u32
  i_flags :: u32
  i_file_acl :: u32
  i_size_high :: u32
  l_i_blocks_hi :: u16
  l_i_file_acl_high :: u16

record filsys =
  fs_magic :: errcode
  fs_flags :: u32
  fs_super :: super_block
  fs_blocksize :: u32
  fs_group_desc_count :: u32
  fs_desc_blocks :: u64
  fs_group_desc :: "ext4_group_desc list"
  fs_inode_blocks_per_group :: u32
  fs_cluster_ratio_bits :: nat
  fs_default_bitmap_type :: nat
  fs_csum_seed :: u32

subsection \<open>Features\<close>

definition ext2fs_has_feature_64bit :: "super_block \<Rightarrow> bool" where
  "ext2fs_has_feature_64bit sb \<longleftrightarrow> s_feature_incompat sb AND 0x0080 \<noteq> 0"

definition ext2fs_has_feature_meta_bg :: "super_block \<Rightarrow> bool" where
  "ext2fs_has_feature_meta_bg sb \<longleftrightarrow> s_feature_incompat sb AND 0x0010 \<noteq> 0"

definition ext2fs_has_feature_largedir :: "super_block \<Rightarrow> bool" where
  "ext2fs_has_feature_largedir sb \<longleftrightarrow> s_feature_incompat sb AND 0x4000 \<noteq> 0"

definition ext2fs_set_feature_largedir :: "super_block \<Rightarrow> super_block" where
  "ext2fs_set_feature_largedir sb = sb\<lparr>s_feature_incompat := s_feature_incompat sb OR 0x4000\<rparr>"

definition ext2fs_has_feature_sparse_super2 :: "super_block \<Rightarrow> bool" where
  "ext2fs_has_feature_sparse_super2 sb \<longleftrightarrow> s_feature_compat sb AND 0x0200 \<noteq> 0"

definition ext2fs_has_feature_sparse_super :: "super_block \<Rightarrow> bool" where
  "ext2fs_has_feature_sparse_super sb \<longleftrightarrow> s_feature_ro_compat sb AND 0x0001 \<noteq> 0"

definition ext2fs_has_feature_huge_file :: "super_block \<Rightarrow> bool" where
  "ext2fs_has_feature_huge_file sb \<longleftrightarrow> s_feature_ro_compat sb AND 0x0008 \<noteq> 0"

definition ext2fs_has_feature_large_file :: "super_block \<Rightarrow> bool" where
  "ext2fs_has_feature_large_file sb \<longleftrightarrow> s_feature_ro_compat sb AND 0x0002 \<noteq> 0"

definition ext2fs_has_feature_gdt_csum :: "super_block \<Rightarrow> bool" where
  "ext2fs_has_feature_gdt_csum sb \<longleftrightarrow> s_feature_ro_compat sb AND 0x0010 \<noteq> 0"

definition ext2fs_has_feature_metadata_csum :: "super_block \<Rightarrow> bool" where
  "ext2fs_has_feature_metadata_csum sb \<longleftrightarrow> s_feature_ro_compat sb AND 0x0400 \<noteq> 0"

definition ext2fs_has_feature_ea_inode :: "super_block \<Rightarrow> bool" where
  "ext2fs_has_feature_ea_inode sb \<longleftrightarrow> s_feature_incompat sb AND 0x0400 \<noteq> 0"

definition ext2fs_has_feature_csum_seed :: "super_block \<Rightarrow> bool" where
  "ext2fs_has_feature_csum_seed sb \<longleftrightarrow> s_feature_incompat sb AND 0x2000 \<noteq> 0"

definition ext2fs_has_group_desc_csum :: "filsys \<Rightarrow> bool" where
  "ext2fs_has_group_desc_csum fs \<longleftrightarrow>
     ext2fs_has_feature_metadata_csum (fs_super fs) \<or> ext2fs_has_feature_gdt_csum (fs_super fs)"

definition ext2fs_set_feature_large_file :: "super_block \<Rightarrow> super_block" where
  "ext2fs_set_feature_large_file sb = sb\<lparr>s_feature_ro_compat := s_feature_ro_compat sb OR 0x0002\<rparr>"

subsection \<open>Sizes\<close>

text \<open>
  \<^verbatim>\<open>EXT2_MIN_BLOCK_SIZE << n\<close> is a shift of a signed integer: it has a meaning while the result fits.
\<close>

definition EXT2_BLOCK_SIZE :: "super_block \<Rightarrow> nat ub" where
  "EXT2_BLOCK_SIZE sb = (if unat (s_log_block_size sb) \<le> 20 then Some (1024 * 2 ^ unat (s_log_block_size sb)) else None)"

definition EXT2_CLUSTER_SIZE :: "super_block \<Rightarrow> nat ub" where
  "EXT2_CLUSTER_SIZE sb = (if unat (s_log_cluster_size sb) \<le> 20 then Some (1024 * 2 ^ unat (s_log_cluster_size sb)) else None)"

definition EXT2_INODE_SIZE :: "super_block \<Rightarrow> nat" where
  "EXT2_INODE_SIZE sb = (if s_rev_level sb = 0 then 128 else unat (s_inode_size sb))"

definition EXT2_DESC_SIZE :: "super_block \<Rightarrow> nat" where
  "EXT2_DESC_SIZE sb = (if ext2fs_has_feature_64bit sb then unat (s_desc_size sb) else 32)"

definition EXT2_DESC_PER_BLOCK :: "super_block \<Rightarrow> nat ub" where
  "EXT2_DESC_PER_BLOCK sb = do {
     bs \<leftarrow> EXT2_BLOCK_SIZE sb;
     if EXT2_DESC_SIZE sb = 0 then None else Some (bs div EXT2_DESC_SIZE sb)
   }"

text \<open>\<^verbatim>\<open>1 << cluster_ratio_bits\<close>, again of a signed integer.\<close>

definition EXT2FS_CLUSTER_RATIO :: "filsys \<Rightarrow> nat ub" where
  "EXT2FS_CLUSTER_RATIO fs = (if fs_cluster_ratio_bits fs \<le> 30 then Some (2 ^ fs_cluster_ratio_bits fs) else None)"

definition EXT2FS_B2C :: "filsys \<Rightarrow> u64 \<Rightarrow> u64 ub" where
  "EXT2FS_B2C fs blk = (if fs_cluster_ratio_bits fs < 64 then Some (drop_bit (fs_cluster_ratio_bits fs) blk) else None)"

definition ext2fs_mark_super_dirty :: "filsys \<Rightarrow> filsys" where
  "ext2fs_mark_super_dirty fs = fs\<lparr>fs_flags := fs_flags fs OR 0x04 OR 0x02\<rparr>"

definition ext2fs_mark_ib_dirty :: "filsys \<Rightarrow> filsys" where
  "ext2fs_mark_ib_dirty fs = fs\<lparr>fs_flags := fs_flags fs OR 0x10 OR 0x02\<rparr>"

definition ext2fs_mark_bb_dirty :: "filsys \<Rightarrow> filsys" where
  "ext2fs_mark_bb_dirty fs = fs\<lparr>fs_flags := fs_flags fs OR 0x20 OR 0x02\<rparr>"

definition ext2fs_group_of_ino :: "filsys \<Rightarrow> u32 \<Rightarrow> u32 ub" where
  "ext2fs_group_of_ino fs ino =
     (if s_inodes_per_group (fs_super fs) = 0 then None else Some ((ino - 1) div s_inodes_per_group (fs_super fs)))"

definition ext2fs_update_dynamic_rev :: "filsys \<Rightarrow> filsys" where
  "ext2fs_update_dynamic_rev fs =
     (if s_rev_level (fs_super fs) > 0 then fs
      else fs\<lparr>fs_super := (fs_super fs)\<lparr>s_rev_level := 1, s_first_ino := 11, s_inode_size := 128\<rparr>\<rparr>)"

lemma feature_set [simp]:
  "ext2fs_has_feature_large_file (ext2fs_set_feature_large_file sb)"
  "ext2fs_has_feature_largedir (ext2fs_set_feature_largedir sb)"
  by (simp_all add: ext2fs_has_feature_large_file_def ext2fs_set_feature_large_file_def
      ext2fs_has_feature_largedir_def ext2fs_set_feature_largedir_def)

lemma update_dynamic_rev [simp]:
  "ext2fs_has_feature_large_file (fs_super (ext2fs_update_dynamic_rev fs)) = ext2fs_has_feature_large_file (fs_super fs)"
  "ext2fs_has_feature_largedir (fs_super (ext2fs_update_dynamic_rev fs)) = ext2fs_has_feature_largedir (fs_super fs)"
  "s_rev_level (fs_super (ext2fs_update_dynamic_rev fs)) \<noteq> 0"
  by (auto simp: ext2fs_update_dynamic_rev_def ext2fs_has_feature_large_file_def ext2fs_has_feature_largedir_def)

lemma mark_super_dirty [simp]:
  "fs_super (ext2fs_mark_super_dirty fs) = fs_super fs" "fs_flags (ext2fs_mark_super_dirty fs) AND 4 \<noteq> 0"
proof -
  show "fs_super (ext2fs_mark_super_dirty fs) = fs_super fs" by (simp add: ext2fs_mark_super_dirty_def)
  have "bit (fs_flags (ext2fs_mark_super_dirty fs) AND 4) 2"
    by (simp add: ext2fs_mark_super_dirty_def bit_and_iff bit_or_iff)
  then show "fs_flags (ext2fs_mark_super_dirty fs) AND 4 \<noteq> 0" by auto
qed

subsection \<open>Numbers in two halves\<close>

text \<open>Values that are stored as a low and a high half: 64 bits in two words, 32 bits in two half-words.\<close>

definition join64 :: "u32 \<Rightarrow> u32 \<Rightarrow> u64" where
  "join64 lo hi = ucast lo OR push_bit 32 (ucast hi)"

definition join32 :: "u16 \<Rightarrow> u16 \<Rightarrow> u32" where
  "join32 lo hi = ucast lo OR push_bit 16 (ucast hi)"

lemma join64_halves [simp]: "join64 (ucast blk) (ucast (drop_bit 32 blk)) = blk"
  unfolding join64_def
  by (rule bit_word_eqI) (auto simp: bit_or_iff bit_unsigned_iff bit_push_bit_iff bit_drop_bit_eq dest: bit_imp_le_length)

lemma join32_halves [simp]: "join32 (ucast n) (ucast (drop_bit 16 n)) = n"
  unfolding join32_def
  by (rule bit_word_eqI) (auto simp: bit_or_iff bit_unsigned_iff bit_push_bit_iff bit_drop_bit_eq dest: bit_imp_le_length)

lemma bit_join64: "bit (join64 lo hi) n \<longleftrightarrow> (if n < 32 then bit lo n else bit hi (n - 32))"
  by (auto simp: join64_def bit_or_iff bit_unsigned_iff bit_push_bit_iff dest: bit_imp_le_length)

lemma halves_join64 [simp]: "ucast (join64 lo hi) = lo" "ucast (drop_bit 32 (join64 lo hi)) = hi"
  by (rule bit_word_eqI, auto simp: bit_unsigned_iff bit_drop_bit_eq bit_join64)+

lemma unat_join64: "unat (join64 lo hi) = unat lo + 4294967296 * unat hi"
proof -
  have d: "(ucast lo :: u64) AND push_bit 32 (ucast hi) = 0"
    by (rule bit_word_eqI) (auto simp: bit_and_iff bit_unsigned_iff bit_push_bit_iff dest: bit_imp_le_length)
  have p: "unat (push_bit 32 (ucast hi) :: u64) = 4294967296 * unat hi"
    using unat_u32_less [of hi] by (subst unat_push_bit_u64) simp_all
  have "join64 lo hi = ucast lo + push_bit 32 (ucast hi)" unfolding join64_def using d by (simp add: disjunctive_add_eq_or)
  also have "unat \<dots> = unat lo + 4294967296 * unat hi"
  proof (subst unat_add_u64)
    have "unat lo < 4294967296" "unat hi < 4294967296" by simp_all
    then have "unat lo + 4294967296 * unat hi < 18446744073709551616" by linarith
    then show "unat (ucast lo :: u64) + unat (push_bit 32 (ucast hi) :: u64) < 18446744073709551616" by (simp add: p)
  qed (simp add: p)
  finally show ?thesis .
qed

end
