(* ===== verification/Blknum.thy ===== *)
theory Blknum
  imports Filsys
begin

unbundle bit_operations_syntax

text \<open>
  \<^verbatim>\<open>lib/ext2fs/blknum.c\<close>: the geometry of block groups, the block counts of the superblock, the fields of
  the group descriptors and the sizes of an inode, each of them stored in two halves whose high half
  counts only with the \<^verbatim>\<open>64bit\<close> or \<^verbatim>\<open>huge_file\<close> feature; \<^verbatim>\<open>lib/ext2fs/i_block.c\<close> and
  \<^verbatim>\<open>lib/ext2fs/get_num_dirs.c\<close>, which work on the same fields.
\<close>

subsection \<open>Block counts of the superblock\<close>

definition ext2fs_blocks_count :: "super_block \<Rightarrow> u64" where
  "ext2fs_blocks_count super =
     ucast (s_blocks_count super) OR
       (if ext2fs_has_feature_64bit super then push_bit 32 (ucast (s_blocks_count_hi super)) else 0)"

definition ext2fs_blocks_count_set :: "super_block \<Rightarrow> u64 \<Rightarrow> super_block" where
  "ext2fs_blocks_count_set super blk =
     (let super = super\<lparr>s_blocks_count := ucast blk\<rparr> in
      if ext2fs_has_feature_64bit super then super\<lparr>s_blocks_count_hi := ucast (drop_bit 32 blk)\<rparr> else super)"

definition ext2fs_blocks_count_add :: "super_block \<Rightarrow> u64 \<Rightarrow> super_block" where
  "ext2fs_blocks_count_add super blk = ext2fs_blocks_count_set super (ext2fs_blocks_count super + blk)"

definition ext2fs_r_blocks_count :: "super_block \<Rightarrow> u64" where
  "ext2fs_r_blocks_count super =
     ucast (s_r_blocks_count super) OR
       (if ext2fs_has_feature_64bit super then push_bit 32 (ucast (s_r_blocks_count_hi super)) else 0)"

definition ext2fs_r_blocks_count_set :: "super_block \<Rightarrow> u64 \<Rightarrow> super_block" where
  "ext2fs_r_blocks_count_set super blk =
     (let super = super\<lparr>s_r_blocks_count := ucast blk\<rparr> in
      if ext2fs_has_feature_64bit super then super\<lparr>s_r_blocks_count_hi := ucast (drop_bit 32 blk)\<rparr> else super)"

definition ext2fs_r_blocks_count_add :: "super_block \<Rightarrow> u64 \<Rightarrow> super_block" where
  "ext2fs_r_blocks_count_add super blk = ext2fs_r_blocks_count_set super (ext2fs_r_blocks_count super + blk)"

definition ext2fs_free_blocks_count :: "super_block \<Rightarrow> u64" where
  "ext2fs_free_blocks_count super =
     ucast (s_free_blocks_count super) OR
       (if ext2fs_has_feature_64bit super then push_bit 32 (ucast (s_free_blocks_hi super)) else 0)"

definition ext2fs_free_blocks_count_set :: "super_block \<Rightarrow> u64 \<Rightarrow> super_block" where
  "ext2fs_free_blocks_count_set super blk =
     (let super = super\<lparr>s_free_blocks_count := ucast blk\<rparr> in
      if ext2fs_has_feature_64bit super then super\<lparr>s_free_blocks_hi := ucast (drop_bit 32 blk)\<rparr> else super)"

definition ext2fs_free_blocks_count_add :: "super_block \<Rightarrow> u64 \<Rightarrow> super_block" where
  "ext2fs_free_blocks_count_add super blk = ext2fs_free_blocks_count_set super (ext2fs_free_blocks_count super + blk)"

subsection \<open>Geometry of the groups\<close>

text \<open>The quotient is computed with 64 bits and returned as a 32-bit group number.\<close>

definition ext2fs_group_of_blk2 :: "filsys \<Rightarrow> u64 \<Rightarrow> u32 ub" where
  "ext2fs_group_of_blk2 fs blk =
     (if s_blocks_per_group (fs_super fs) = 0 then None
      else Some (ucast ((blk - ucast (s_first_data_block (fs_super fs))) div ucast (s_blocks_per_group (fs_super fs)))))"

definition ext2fs_group_first_block2 :: "filsys \<Rightarrow> u32 \<Rightarrow> u64" where
  "ext2fs_group_first_block2 fs grp =
     ucast (s_first_data_block (fs_super fs)) + ucast (s_blocks_per_group (fs_super fs)) * ucast grp"

text \<open>\<^verbatim>\<open>s_blocks_per_group - 1\<close> is a 32-bit subtraction.\<close>

definition ext2fs_group_last_block2 :: "filsys \<Rightarrow> u32 \<Rightarrow> u64" where
  "ext2fs_group_last_block2 fs grp =
     (if grp = fs_group_desc_count fs - 1 then ext2fs_blocks_count (fs_super fs) - 1
      else ext2fs_group_first_block2 fs grp + ucast (s_blocks_per_group (fs_super fs) - 1))"

text \<open>The result is the bit pattern of the C integer.\<close>

definition ext2fs_group_blocks_count :: "filsys \<Rightarrow> u32 \<Rightarrow> u32 ub" where
  "ext2fs_group_blocks_count fs grp =
     (let bpg = s_blocks_per_group (fs_super fs) in
      if grp = fs_group_desc_count fs - 1 then
        if bpg = 0 then None
        else let num_blocks = ucast ((ext2fs_blocks_count (fs_super fs) - ucast (s_first_data_block (fs_super fs)))
                                     mod ucast bpg)
             in Some (if num_blocks = 0 then bpg else num_blocks)
      else Some bpg)"

subsection \<open>Group descriptors\<close>

text \<open>
  The pointer to a descriptor as an index into the table that was read when the file system was opened;
  no index is the null pointer. The product \<^verbatim>\<open>group * desc_size\<close> is computed with 32 bits. A file system
  whose table has not been read is outside the model, and so is a pointer into the middle of a descriptor.
\<close>

definition ext2fs_group_desc :: "filsys \<Rightarrow> u32 \<Rightarrow> nat option ub" where
  "ext2fs_group_desc fs grp =
     (let desc_size = EXT2_DESC_SIZE (fs_super fs) div 8 * 8;
          off = unat (grp * of_nat desc_size)
      in if EXT2_DESC_PER_BLOCK (fs_super fs) = None then None
         else if grp > fs_group_desc_count fs then Some None
         else if desc_size = 0 \<or> off mod desc_size \<noteq> 0 then None
         else Some (Some (off div desc_size)))"

text \<open>Reading and changing the descriptor behind the pointer; a null pointer must not be followed.\<close>

definition bg_read :: "filsys \<Rightarrow> u32 \<Rightarrow> (ext4_group_desc \<Rightarrow> 'v) \<Rightarrow> 'v ub" where
  "bg_read fs grp f = do {
     gdp \<leftarrow> ext2fs_group_desc fs grp;
     i \<leftarrow> gdp;
     d \<leftarrow> c_load (fs_group_desc fs) i;
     Some (f d)
   }"

definition bg_write :: "filsys \<Rightarrow> u32 \<Rightarrow> (ext4_group_desc \<Rightarrow> ext4_group_desc) \<Rightarrow> filsys ub" where
  "bg_write fs grp f = do {
     gdp \<leftarrow> ext2fs_group_desc fs grp;
     i \<leftarrow> gdp;
     d \<leftarrow> c_load (fs_group_desc fs) i;
     ds \<leftarrow> c_store (fs_group_desc fs) i (f d);
     Some (fs\<lparr>fs_group_desc := ds\<rparr>)
   }"

definition ext2fs_block_bitmap_checksum :: "filsys \<Rightarrow> u32 \<Rightarrow> u32 ub" where
  "ext2fs_block_bitmap_checksum fs grp =
     bg_read fs grp (\<lambda>gdp. ucast (bg_block_bitmap_csum_lo gdp) OR
       (if EXT2_DESC_SIZE (fs_super fs) \<ge> 58 then push_bit 16 (ucast (bg_block_bitmap_csum_hi gdp)) else 0))"

definition ext2fs_inode_bitmap_checksum :: "filsys \<Rightarrow> u32 \<Rightarrow> u32 ub" where
  "ext2fs_inode_bitmap_checksum fs grp =
     bg_read fs grp (\<lambda>gdp. ucast (bg_inode_bitmap_csum_lo gdp) OR
       (if EXT2_DESC_SIZE (fs_super fs) \<ge> 60 then push_bit 16 (ucast (bg_inode_bitmap_csum_hi gdp)) else 0))"

definition ext2fs_block_bitmap_loc :: "filsys \<Rightarrow> u32 \<Rightarrow> u64 ub" where
  "ext2fs_block_bitmap_loc fs grp =
     bg_read fs grp (\<lambda>gdp. ucast (bg_block_bitmap gdp) OR
       (if ext2fs_has_feature_64bit (fs_super fs) then push_bit 32 (ucast (bg_block_bitmap_hi gdp)) else 0))"

definition ext2fs_block_bitmap_loc_set :: "filsys \<Rightarrow> u32 \<Rightarrow> u64 \<Rightarrow> filsys ub" where
  "ext2fs_block_bitmap_loc_set fs grp blk =
     bg_write fs grp (\<lambda>gdp.
       let gdp = gdp\<lparr>bg_block_bitmap := ucast blk\<rparr> in
       if ext2fs_has_feature_64bit (fs_super fs) then gdp\<lparr>bg_block_bitmap_hi := ucast (drop_bit 32 blk)\<rparr> else gdp)"

definition ext2fs_inode_bitmap_loc :: "filsys \<Rightarrow> u32 \<Rightarrow> u64 ub" where
  "ext2fs_inode_bitmap_loc fs grp =
     bg_read fs grp (\<lambda>gdp. ucast (bg_inode_bitmap gdp) OR
       (if ext2fs_has_feature_64bit (fs_super fs) then push_bit 32 (ucast (bg_inode_bitmap_hi gdp)) else 0))"

definition ext2fs_inode_bitmap_loc_set :: "filsys \<Rightarrow> u32 \<Rightarrow> u64 \<Rightarrow> filsys ub" where
  "ext2fs_inode_bitmap_loc_set fs grp blk =
     bg_write fs grp (\<lambda>gdp.
       let gdp = gdp\<lparr>bg_inode_bitmap := ucast blk\<rparr> in
       if ext2fs_has_feature_64bit (fs_super fs) then gdp\<lparr>bg_inode_bitmap_hi := ucast (drop_bit 32 blk)\<rparr> else gdp)"

definition ext2fs_inode_table_loc :: "filsys \<Rightarrow> u32 \<Rightarrow> u64 ub" where
  "ext2fs_inode_table_loc fs grp =
     bg_read fs grp (\<lambda>gdp. ucast (bg_inode_table gdp) OR
       (if ext2fs_has_feature_64bit (fs_super fs) then push_bit 32 (ucast (bg_inode_table_hi gdp)) else 0))"

definition ext2fs_inode_table_loc_set :: "filsys \<Rightarrow> u32 \<Rightarrow> u64 \<Rightarrow> filsys ub" where
  "ext2fs_inode_table_loc_set fs grp blk =
     bg_write fs grp (\<lambda>gdp.
       let gdp = gdp\<lparr>bg_inode_table := ucast blk\<rparr> in
       if ext2fs_has_feature_64bit (fs_super fs) then gdp\<lparr>bg_inode_table_hi := ucast (drop_bit 32 blk)\<rparr> else gdp)"

definition ext2fs_bg_free_blocks_count :: "filsys \<Rightarrow> u32 \<Rightarrow> u32 ub" where
  "ext2fs_bg_free_blocks_count fs grp =
     bg_read fs grp (\<lambda>gdp. ucast (bg_free_blocks_count gdp) OR
       (if ext2fs_has_feature_64bit (fs_super fs) then push_bit 16 (ucast (bg_free_blocks_count_hi gdp)) else 0))"

definition ext2fs_bg_free_blocks_count_set :: "filsys \<Rightarrow> u32 \<Rightarrow> u32 \<Rightarrow> filsys ub" where
  "ext2fs_bg_free_blocks_count_set fs grp n =
     bg_write fs grp (\<lambda>gdp.
       let gdp = gdp\<lparr>bg_free_blocks_count := ucast n\<rparr> in
       if ext2fs_has_feature_64bit (fs_super fs) then gdp\<lparr>bg_free_blocks_count_hi := ucast (drop_bit 16 n)\<rparr> else gdp)"

definition ext2fs_bg_free_inodes_count :: "filsys \<Rightarrow> u32 \<Rightarrow> u32 ub" where
  "ext2fs_bg_free_inodes_count fs grp =
     bg_read fs grp (\<lambda>gdp. ucast (bg_free_inodes_count gdp) OR
       (if ext2fs_has_feature_64bit (fs_super fs) then push_bit 16 (ucast (bg_free_inodes_count_hi gdp)) else 0))"

definition ext2fs_bg_free_inodes_count_set :: "filsys \<Rightarrow> u32 \<Rightarrow> u32 \<Rightarrow> filsys ub" where
  "ext2fs_bg_free_inodes_count_set fs grp n =
     bg_write fs grp (\<lambda>gdp.
       let gdp = gdp\<lparr>bg_free_inodes_count := ucast n\<rparr> in
       if ext2fs_has_feature_64bit (fs_super fs) then gdp\<lparr>bg_free_inodes_count_hi := ucast (drop_bit 16 n)\<rparr> else gdp)"

definition ext2fs_bg_used_dirs_count :: "filsys \<Rightarrow> u32 \<Rightarrow> u32 ub" where
  "ext2fs_bg_used_dirs_count fs grp =
     bg_read fs grp (\<lambda>gdp. ucast (bg_used_dirs_count gdp) OR
       (if ext2fs_has_feature_64bit (fs_super fs) then push_bit 16 (ucast (bg_used_dirs_count_hi gdp)) else 0))"

definition ext2fs_bg_used_dirs_count_set :: "filsys \<Rightarrow> u32 \<Rightarrow> u32 \<Rightarrow> filsys ub" where
  "ext2fs_bg_used_dirs_count_set fs grp n =
     bg_write fs grp (\<lambda>gdp.
       let gdp = gdp\<lparr>bg_used_dirs_count := ucast n\<rparr> in
       if ext2fs_has_feature_64bit (fs_super fs) then gdp\<lparr>bg_used_dirs_count_hi := ucast (drop_bit 16 n)\<rparr> else gdp)"

definition ext2fs_bg_itable_unused :: "filsys \<Rightarrow> u32 \<Rightarrow> u32 ub" where
  "ext2fs_bg_itable_unused fs grp =
     bg_read fs grp (\<lambda>gdp. ucast (bg_itable_unused gdp) OR
       (if ext2fs_has_feature_64bit (fs_super fs) then push_bit 16 (ucast (bg_itable_unused_hi gdp)) else 0))"

definition ext2fs_bg_itable_unused_set :: "filsys \<Rightarrow> u32 \<Rightarrow> u32 \<Rightarrow> filsys ub" where
  "ext2fs_bg_itable_unused_set fs grp n =
     bg_write fs grp (\<lambda>gdp.
       let gdp = gdp\<lparr>bg_itable_unused := ucast n\<rparr> in
       if ext2fs_has_feature_64bit (fs_super fs) then gdp\<lparr>bg_itable_unused_hi := ucast (drop_bit 16 n)\<rparr> else gdp)"

definition ext2fs_bg_flags :: "filsys \<Rightarrow> u32 \<Rightarrow> u16 ub" where
  "ext2fs_bg_flags fs grp = bg_read fs grp bg_flags"

definition ext2fs_bg_flags_zap :: "filsys \<Rightarrow> u32 \<Rightarrow> filsys ub" where
  "ext2fs_bg_flags_zap fs grp = bg_write fs grp (\<lambda>gdp. gdp\<lparr>bg_flags := 0\<rparr>)"

definition ext2fs_bg_flags_test :: "filsys \<Rightarrow> u32 \<Rightarrow> u16 \<Rightarrow> u16 ub" where
  "ext2fs_bg_flags_test fs grp bg_flag = bg_read fs grp (\<lambda>gdp. bg_flags gdp AND bg_flag)"

definition ext2fs_bg_flags_set :: "filsys \<Rightarrow> u32 \<Rightarrow> u16 \<Rightarrow> filsys ub" where
  "ext2fs_bg_flags_set fs grp fl = bg_write fs grp (\<lambda>gdp. gdp\<lparr>bg_flags := bg_flags gdp OR fl\<rparr>)"

definition ext2fs_bg_flags_clear :: "filsys \<Rightarrow> u32 \<Rightarrow> u16 \<Rightarrow> filsys ub" where
  "ext2fs_bg_flags_clear fs grp fl = bg_write fs grp (\<lambda>gdp. gdp\<lparr>bg_flags := bg_flags gdp AND NOT fl\<rparr>)"

definition ext2fs_bg_checksum :: "filsys \<Rightarrow> u32 \<Rightarrow> u16 ub" where
  "ext2fs_bg_checksum fs grp = bg_read fs grp bg_checksum"

definition ext2fs_bg_checksum_set :: "filsys \<Rightarrow> u32 \<Rightarrow> u16 \<Rightarrow> filsys ub" where
  "ext2fs_bg_checksum_set fs grp checksum = bg_write fs grp (\<lambda>gdp. gdp\<lparr>bg_checksum := checksum\<rparr>)"

text \<open>\<^verbatim>\<open>lib/ext2fs/get_num_dirs.c\<close>: the loop over the groups, with the capped counts.\<close>

function num_dirs_loop :: "filsys \<Rightarrow> u32 \<Rightarrow> u32 \<Rightarrow> u32 ub" where
  "num_dirs_loop fs i num_dirs =
     (if i < fs_group_desc_count fs then do {
        n \<leftarrow> ext2fs_bg_used_dirs_count fs i;
        num_dirs_loop fs (i + 1)
          (num_dirs + (if n > s_inodes_per_group (fs_super fs) then s_inodes_per_group (fs_super fs) div 8 else n))
      } else Some num_dirs)"
  by pat_completeness auto
termination
proof (relation "measure (\<lambda>(fs, i, n). unat (fs_group_desc_count fs) - unat i)")
  fix fs :: filsys and i num_dirs n :: u32
  assume "i < fs_group_desc_count fs"
  then show "((fs, i + 1, num_dirs + (if n > s_inodes_per_group (fs_super fs) then s_inodes_per_group (fs_super fs) div 8 else n)),
      fs, i, num_dirs) \<in> measure (\<lambda>(fs, i, n). unat (fs_group_desc_count fs) - unat i)"
    using unat_inc [of i "fs_group_desc_count fs"] by (simp add: word_less_nat_alt)
qed simp

definition ext2fs_get_num_dirs :: "filsys \<Rightarrow> (errcode + u32) ub" where
  "ext2fs_get_num_dirs fs =
     (if fs_magic fs \<noteq> EXT2_ET_MAGIC_EXT2FS_FILSYS then Some (Inl EXT2_ET_MAGIC_EXT2FS_FILSYS)
      else do {
        num_dirs \<leftarrow> num_dirs_loop fs 0 0;
        Some (Inr (if num_dirs > s_inodes_count (fs_super fs) then s_inodes_count (fs_super fs) else num_dirs))
      })"

subsection \<open>Inodes\<close>

definition ext2fs_inode_i_blocks :: "filsys \<Rightarrow> ext2_inode \<Rightarrow> u64" where
  "ext2fs_inode_i_blocks fs inode =
     ucast (i_blocks inode) OR
       (if ext2fs_has_feature_huge_file (fs_super fs) then push_bit 32 (ucast (l_i_blocks_hi inode)) else 0)"

definition ext2fs_inode_data_blocks2 :: "filsys \<Rightarrow> ext2_inode \<Rightarrow> u64 ub" where
  "ext2fs_inode_data_blocks2 fs inode = do {
     acl \<leftarrow> (if i_file_acl inode \<noteq> 0 then map_option (\<lambda>cs. of_nat (cs div 512)) (EXT2_CLUSTER_SIZE (fs_super fs))
             else Some 0);
     Some ((ucast (i_blocks inode) OR
       (if ext2fs_has_feature_huge_file (fs_super fs) then push_bit 32 (ucast (l_i_blocks_hi inode)) else 0)) - acl)
   }"

definition EXT4_HUGE_FILE_FL :: u32 where
  "EXT4_HUGE_FILE_FL = 0x00040000"

definition ext2fs_get_stat_i_blocks :: "filsys \<Rightarrow> ext2_inode \<Rightarrow> u64" where
  "ext2fs_get_stat_i_blocks fs inode =
     (let ret = ucast (i_blocks inode) in
      if ext2fs_has_feature_huge_file (fs_super fs) then
        let ret = ret + push_bit 32 (ucast (l_i_blocks_hi inode)) in
        if i_flags inode AND EXT4_HUGE_FILE_FL \<noteq> 0 then ret * ucast (fs_blocksize fs div 512) else ret
      else ret)"

text \<open>The file system pointer may be null here.\<close>

definition ext2fs_file_acl_block :: "filsys option \<Rightarrow> ext2_inode \<Rightarrow> u64" where
  "ext2fs_file_acl_block fs inode =
     ucast (i_file_acl inode) OR
       (case fs of
          None \<Rightarrow> 0
        | Some fs \<Rightarrow> if ext2fs_has_feature_64bit (fs_super fs) then push_bit 32 (ucast (l_i_file_acl_high inode)) else 0)"

definition ext2fs_file_acl_block_set :: "filsys option \<Rightarrow> ext2_inode \<Rightarrow> u64 \<Rightarrow> ext2_inode" where
  "ext2fs_file_acl_block_set fs inode blk =
     (let inode = inode\<lparr>i_file_acl := ucast blk\<rparr> in
      case fs of
        None \<Rightarrow> inode
      | Some fs \<Rightarrow> if ext2fs_has_feature_64bit (fs_super fs)
                   then inode\<lparr>l_i_file_acl_high := ucast (drop_bit 32 blk)\<rparr> else inode)"

text \<open>The size is a signed 64-bit number.\<close>

definition ext2fs_inode_size_set :: "filsys \<Rightarrow> ext2_inode \<Rightarrow> int \<Rightarrow> errcode \<times> filsys \<times> ext2_inode" where
  "ext2fs_inode_size_set fs inode sz =
     (if sz < 0 then (EINVAL, fs, inode)
      else
        let isreg = (i_mode inode AND 0xF000 = 0x8000); isdir = (i_mode inode AND 0xF000 = 0x4000);
            super = fs_super fs; large = (sz \<ge> 0x80000000)
        in if large \<and> \<not> isreg \<and> \<not> isdir then (EXT2_ET_FILE_TOO_BIG, fs, inode)
           else
             let dirty_sb = (large \<and> (if isreg then \<not> ext2fs_has_feature_large_file super
                                       else \<not> ext2fs_has_feature_largedir super));
                 fs = (if dirty_sb
                       then fs\<lparr>fs_super := (if isreg then ext2fs_set_feature_large_file super
                                             else ext2fs_set_feature_largedir super)\<rparr>
                       else fs);
                 fs = (if dirty_sb \<and> s_rev_level (fs_super fs) = 0 then ext2fs_update_dynamic_rev fs else fs);
                 fs = (if dirty_sb then ext2fs_mark_super_dirty fs else fs);
                 w = (of_int sz :: u64)
             in (E_OK, fs, inode\<lparr>i_size := ucast (w AND 0xffffffff), i_size_high := ucast (drop_bit 32 w)\<rparr>))"

text \<open>\<^verbatim>\<open>lib/ext2fs/i_block.c\<close>: the number of 512-byte sectors, or of blocks for a huge file, that a file occupies.\<close>

definition iblk_unit :: "filsys \<Rightarrow> ext2_inode \<Rightarrow> u64 \<Rightarrow> u64 ub" where
  "iblk_unit fs inode num_blocks = do {
     ratio \<leftarrow> EXT2FS_CLUSTER_RATIO fs;
     Some ((if \<not> ext2fs_has_feature_huge_file (fs_super fs) \<or> i_flags inode AND EXT4_HUGE_FILE_FL = 0
            then num_blocks * ucast (fs_blocksize fs div 512) else num_blocks) * of_nat ratio)
   }"

definition iblk_value :: "filsys \<Rightarrow> ext2_inode \<Rightarrow> u64" where
  "iblk_value fs inode =
     ucast (i_blocks inode) +
       (if ext2fs_has_feature_huge_file (fs_super fs) then push_bit 32 (ucast (l_i_blocks_hi inode)) else 0)"

definition ext2fs_iblk_add_blocks :: "filsys \<Rightarrow> ext2_inode \<Rightarrow> u64 \<Rightarrow> (errcode \<times> ext2_inode) ub" where
  "ext2fs_iblk_add_blocks fs inode num_blocks = do {
     num_blocks \<leftarrow> iblk_unit fs inode num_blocks;
     let b = iblk_value fs inode + num_blocks;
     if ext2fs_has_feature_huge_file (fs_super fs)
     then Some (E_OK, inode\<lparr>l_i_blocks_hi := ucast (drop_bit 32 b), i_blocks := ucast (b AND 0xFFFFFFFF)\<rparr>)
     else if b > 0xFFFFFFFF then Some (EOVERFLOW, inode)
     else Some (E_OK, inode\<lparr>i_blocks := ucast (b AND 0xFFFFFFFF)\<rparr>)
   }"

definition ext2fs_iblk_sub_blocks :: "filsys \<Rightarrow> ext2_inode \<Rightarrow> u64 \<Rightarrow> (errcode \<times> ext2_inode) ub" where
  "ext2fs_iblk_sub_blocks fs inode num_blocks = do {
     num_blocks \<leftarrow> iblk_unit fs inode num_blocks;
     if num_blocks > iblk_value fs inode then Some (EOVERFLOW, inode)
     else do {
       let b = iblk_value fs inode - num_blocks;
       let inode = (if ext2fs_has_feature_huge_file (fs_super fs)
                    then inode\<lparr>l_i_blocks_hi := ucast (drop_bit 32 b)\<rparr> else inode);
       Some (E_OK, inode\<lparr>i_blocks := ucast (b AND 0xFFFFFFFF)\<rparr>)
     }
   }"

definition ext2fs_iblk_set :: "filsys \<Rightarrow> ext2_inode \<Rightarrow> u64 \<Rightarrow> (errcode \<times> ext2_inode) ub" where
  "ext2fs_iblk_set fs inode b = do {
     b \<leftarrow> iblk_unit fs inode b;
     let inode = inode\<lparr>i_blocks := ucast (b AND 0xFFFFFFFF)\<rparr>;
     if ext2fs_has_feature_huge_file (fs_super fs)
     then Some (E_OK, inode\<lparr>l_i_blocks_hi := ucast (drop_bit 32 b)\<rparr>)
     else if drop_bit 32 b \<noteq> 0 then Some (EOVERFLOW, inode)
     else Some (E_OK, inode)
   }"

subsection \<open>Counts in two halves\<close>

lemma two_halves: "(ucast lo OR (if w then push_bit 32 (ucast hi) else 0) :: u64) = (if w then join64 lo hi else ucast lo)"
  by (simp add: join64_def)

lemma two_halves_16: "(ucast lo OR (if w then push_bit 16 (ucast hi) else 0) :: u32) = (if w then join32 lo hi else ucast lo)"
  by (simp add: join32_def)

text \<open>What a 64-bit number becomes when the file system has no room for the high half.\<close>

definition cut64 :: "bool \<Rightarrow> u64 \<Rightarrow> u64" where
  "cut64 w blk = (if w then blk else ucast (ucast blk :: u32))"

definition cut32 :: "bool \<Rightarrow> u32 \<Rightarrow> u32" where
  "cut32 w n = (if w then n else ucast (ucast n :: u16))"

lemma unat_cut64: "unat (cut64 w blk) = (if w then unat blk else unat blk mod 4294967296)"
  by (simp add: cut64_def unat_ucast_64_32)

text \<open>
  The three block counts of the superblock are read back as they were set, modulo \<open>2\<^sup>3\<^sup>2\<close> without the
  64bit feature, \<^verbatim>\<open>add\<close> adds, and neither touches the other two counts.
\<close>

theorem blocks_counts_roundtrip:
  fixes sb blk defines "w \<equiv> ext2fs_has_feature_64bit sb"
  shows "ext2fs_blocks_count (ext2fs_blocks_count_set sb blk) = cut64 w blk
    \<and> ext2fs_r_blocks_count (ext2fs_blocks_count_set sb blk) = ext2fs_r_blocks_count sb
    \<and> ext2fs_free_blocks_count (ext2fs_blocks_count_set sb blk) = ext2fs_free_blocks_count sb
    \<and> ext2fs_blocks_count (ext2fs_blocks_count_add sb blk) = cut64 w (ext2fs_blocks_count sb + blk)
    \<and> ext2fs_r_blocks_count (ext2fs_r_blocks_count_set sb blk) = cut64 w blk
    \<and> ext2fs_blocks_count (ext2fs_r_blocks_count_set sb blk) = ext2fs_blocks_count sb
    \<and> ext2fs_free_blocks_count (ext2fs_r_blocks_count_set sb blk) = ext2fs_free_blocks_count sb
    \<and> ext2fs_r_blocks_count (ext2fs_r_blocks_count_add sb blk) = cut64 w (ext2fs_r_blocks_count sb + blk)
    \<and> ext2fs_free_blocks_count (ext2fs_free_blocks_count_set sb blk) = cut64 w blk
    \<and> ext2fs_blocks_count (ext2fs_free_blocks_count_set sb blk) = ext2fs_blocks_count sb
    \<and> ext2fs_r_blocks_count (ext2fs_free_blocks_count_set sb blk) = ext2fs_r_blocks_count sb
    \<and> ext2fs_free_blocks_count (ext2fs_free_blocks_count_add sb blk) = cut64 w (ext2fs_free_blocks_count sb + blk)"
proof -
  have w: "ext2fs_has_feature_64bit (s_blocks_count_update f sb) = w" "ext2fs_has_feature_64bit (s_r_blocks_count_update f sb) = w"
    "ext2fs_has_feature_64bit (s_free_blocks_count_update f sb) = w" "ext2fs_has_feature_64bit sb = w"
    "ext2fs_has_feature_64bit (s_blocks_count_hi_update f' (s_blocks_count_update f sb)) = w"
    "ext2fs_has_feature_64bit (s_r_blocks_count_hi_update f' (s_r_blocks_count_update f sb)) = w"
    "ext2fs_has_feature_64bit (s_free_blocks_hi_update f' (s_free_blocks_count_update f sb)) = w" for f f'
    by (simp_all add: ext2fs_has_feature_64bit_def w_def)
  note defs = ext2fs_blocks_count_def ext2fs_blocks_count_set_def ext2fs_blocks_count_add_def
    ext2fs_r_blocks_count_def ext2fs_r_blocks_count_set_def ext2fs_r_blocks_count_add_def
    ext2fs_free_blocks_count_def ext2fs_free_blocks_count_set_def ext2fs_free_blocks_count_add_def
  show ?thesis
    by (cases w) (simp_all add: defs w cut64_def Let_def join64_halves [unfolded join64_def])
qed

subsection \<open>The groups partition the blocks\<close>

text \<open>The group count is the number of blocks after the first data block, divided by the group size and rounded up.\<close>

definition fs_geometry_ok :: "filsys \<Rightarrow> bool" where
  "fs_geometry_ok fs \<longleftrightarrow>
     (let F = unat (s_first_data_block (fs_super fs)); B = unat (ext2fs_blocks_count (fs_super fs));
          p = unat (s_blocks_per_group (fs_super fs))
      in 0 < p \<and> F < B \<and> unat (fs_group_desc_count fs) = (B - F + p - 1) div p)"

lemma ceil_div_bounds:
  fixes F B p n :: nat
  assumes "0 < p" "F < B" "n = (B - F + p - 1) div p"
  shows "0 < n" "g < n \<Longrightarrow> F + p * g < B" "B \<le> F + p * n"
proof -
  show "0 < n" using assms by (simp add: div_greater_zero_iff)
  have 1: "p * n \<le> B - F + p - 1" using assms(3) by (metis div_times_less_eq_dividend mult.commute)
  have "B - F + p - 1 < p * n + p" using assms(1,3) dividend_less_times_div [of p "B - F + p - 1"] by simp
  then show "B \<le> F + p * n" using assms by linarith
  assume "g < n"
  then have "p * g + p \<le> p * n" using assms(1) by (metis Suc_leI mult_Suc_right add.commute mult_le_mono2)
  with 1 assms show "F + p * g < B" by linarith
qed

lemma fs_geometryD:
  assumes "fs_geometry_ok fs"
  defines "F \<equiv> unat (s_first_data_block (fs_super fs))" and "B \<equiv> unat (ext2fs_blocks_count (fs_super fs))"
    and "p \<equiv> unat (s_blocks_per_group (fs_super fs))" and "n \<equiv> unat (fs_group_desc_count fs)"
  shows "0 < p" "F < B" "0 < n" "B \<le> F + p * n" "g < n \<Longrightarrow> F + p * g < B" "unat (fs_group_desc_count fs - 1) = n - 1"
    "n = (B - F + p - 1) div p"
proof -
  have a: "0 < p" "F < B" "n = (B - F + p - 1) div p"
    using assms(1) unfolding fs_geometry_ok_def Let_def F_def B_def p_def n_def by auto
  note b = ceil_div_bounds [OF this]
  show "0 < p" "F < B" "0 < n" "B \<le> F + p * n" "g < n \<Longrightarrow> F + p * g < B" "n = (B - F + p - 1) div p"
    using a b by auto
  have "fs_group_desc_count fs \<noteq> 0" using b(1) by (auto simp: n_def)
  then show "unat (fs_group_desc_count fs - 1) = n - 1" by (simp add: n_def unat_minus_one)
qed

lemma group_first_last:
  assumes ok: "fs_geometry_ok fs" and g: "g < fs_group_desc_count fs"
  shows "unat (ext2fs_group_first_block2 fs g) = unat (s_first_data_block (fs_super fs)) + unat (s_blocks_per_group (fs_super fs)) * unat g"
    "unat (ext2fs_group_last_block2 fs g) = min (unat (ext2fs_blocks_count (fs_super fs)))
       (unat (s_first_data_block (fs_super fs)) + unat (s_blocks_per_group (fs_super fs)) * Suc (unat g)) - 1"
proof -
  let ?F = "unat (s_first_data_block (fs_super fs))" and ?B = "unat (ext2fs_blocks_count (fs_super fs))"
  let ?p = "unat (s_blocks_per_group (fs_super fs))" and ?n = "unat (fs_group_desc_count fs)"
  note geo = fs_geometryD [OF ok]
  have gn: "unat g < ?n" using g by (simp add: word_less_nat_alt)
  have B: "?B < 18446744073709551616" by simp
  have first: "?F + ?p * unat g < ?B" by (rule geo(5) [OF gn])
  have lt: "?F + ?p * unat g < 18446744073709551616" using first B by linarith
  have m: "unat (ucast (s_blocks_per_group (fs_super fs)) * ucast g :: u64) = ?p * unat g"
    using lt by (subst unat_word_ariths) simp
  show 1: "unat (ext2fs_group_first_block2 fs g) = ?F + ?p * unat g"
    unfolding ext2fs_group_first_block2_def by (subst unat_add_u64) (use lt m in simp_all)
  show "unat (ext2fs_group_last_block2 fs g) = min ?B (?F + ?p * Suc (unat g)) - 1"
  proof (cases "g = fs_group_desc_count fs - 1")
    case True
    then have "Suc (unat g) = ?n" using geo(3,6) by simp
    then have "min ?B (?F + ?p * Suc (unat g)) = ?B" using geo(4) by (simp only: min_def if_True)
    moreover have "ext2fs_blocks_count (fs_super fs) \<noteq> 0" using geo(2) by (auto simp: unat_eq_zero)
    ultimately show ?thesis using True by (simp add: ext2fs_group_last_block2_def unat_minus_one)
  next
    case False
    then have "unat g \<noteq> ?n - 1" using geo(6) by (metis word_unat_eq_iff)
    with gn have "Suc (unat g) < ?n" by simp
    from geo(5) [OF this] have nx: "?F + ?p * Suc (unat g) < ?B" .
    have p1: "unat (s_blocks_per_group (fs_super fs) - 1) = ?p - 1"
      using geo(1) by (intro unat_minus_one) (auto simp: unat_eq_zero)
    have "unat (ext2fs_group_first_block2 fs g + ucast (s_blocks_per_group (fs_super fs) - 1)) = ?F + ?p * unat g + (?p - 1)"
    proof (subst unat_add_u64)
      have "?F + ?p * unat g + (?p - 1) < 18446744073709551616"
        using nx B unfolding mult_Suc_right by linarith
      then show "unat (ext2fs_group_first_block2 fs g) + unat (ucast (s_blocks_per_group (fs_super fs) - 1) :: u64) < 18446744073709551616"
        using 1 p1 by simp
    qed (use 1 p1 in simp)
    then have "unat (ext2fs_group_last_block2 fs g) = ?F + ?p * unat g + (?p - 1)"
      using False by (simp add: ext2fs_group_last_block2_def)
    with nx geo(1) show ?thesis by (simp add: min_def)
  qed
qed

lemma group_of_blk_unique:
  assumes ok: "fs_geometry_ok fs"
    and b: "ucast (s_first_data_block (fs_super fs)) \<le> b" "b < ext2fs_blocks_count (fs_super fs)"
  shows "\<exists>g. ext2fs_group_of_blk2 fs b = Some g \<and> g < fs_group_desc_count fs
    \<and> (\<forall>h. h < fs_group_desc_count fs \<longrightarrow>
          (ext2fs_group_first_block2 fs h \<le> b \<and> b \<le> ext2fs_group_last_block2 fs h \<longleftrightarrow> h = g))"
proof -
  let ?F = "unat (s_first_data_block (fs_super fs))" and ?B = "unat (ext2fs_blocks_count (fs_super fs))"
  let ?p = "unat (s_blocks_per_group (fs_super fs))" and ?n = "unat (fs_group_desc_count fs)"
  note geo = fs_geometryD [OF ok]
  define q where "q = (unat b - ?F) div ?p"
  have Fb: "?F \<le> unat b" "unat b < ?B" using b by (simp_all add: word_le_nat_alt word_less_nat_alt)
  have qn: "q < ?n" using Fb geo(1,4) by (simp add: q_def div_less_iff_less_mult mult.commute)
  then have q32: "q < 4294967296" using unat_u32_less [of "fs_group_desc_count fs"] by linarith
  define g :: u32 where "g = of_nat q"
  have ug: "unat g = q" unfolding g_def by (rule unat_of_nat_u32 [OF q32])
  have "unat ((b - ucast (s_first_data_block (fs_super fs))) div ucast (s_blocks_per_group (fs_super fs))) = q"
    using b(1) by (simp add: unat_div q_def unat_diff_le)
  then have "(ucast ((b - ucast (s_first_data_block (fs_super fs))) div ucast (s_blocks_per_group (fs_super fs))) :: u32) = g"
    using q32 ug by (simp add: word_unat_eq_iff unat_ucast_64_32)
  then have "ext2fs_group_of_blk2 fs b = Some g" using geo(1) by (auto simp: ext2fs_group_of_blk2_def unat_eq_zero)
  moreover have "g < fs_group_desc_count fs" using ug qn by (simp add: word_less_nat_alt)
  moreover have "ext2fs_group_first_block2 fs h \<le> b \<and> b \<le> ext2fs_group_last_block2 fs h \<longleftrightarrow> h = g"
    if h: "h < fs_group_desc_count fs" for h
  proof -
    have "ext2fs_group_first_block2 fs h \<le> b \<and> b \<le> ext2fs_group_last_block2 fs h
        \<longleftrightarrow> ?p * unat h \<le> unat b - ?F \<and> unat b - ?F < ?p * Suc (unat h)"
      using Fb geo(1) by (auto simp: word_le_nat_alt group_first_last [OF ok h])
    also have "\<dots> \<longleftrightarrow> unat h = q" unfolding q_def using geo(1)
      by (metis div_nat_eqI dividend_less_times_div mult.commute mult_Suc_right times_div_less_eq_dividend add.commute)
    finally show ?thesis using ug by (simp add: word_unat_eq_iff)
  qed
  ultimately show ?thesis by blast
qed

text \<open>
  (C13) In a file system whose group count fits its block count, every block belongs to exactly one group,
  the one that \<^verbatim>\<open>ext2fs_group_of_blk2\<close> computes: it lies between the first and the last block of that group
  and of no other.
\<close>

theorem groups_partition_blocks:
  assumes ok: "fs_geometry_ok fs"
    and b: "ucast (s_first_data_block (fs_super fs)) \<le> b" "b < ext2fs_blocks_count (fs_super fs)"
  shows "\<exists>g. ext2fs_group_of_blk2 fs b = Some g \<and> g < fs_group_desc_count fs
    \<and> (\<forall>h. h < fs_group_desc_count fs \<longrightarrow>
          (ext2fs_group_first_block2 fs h \<le> b \<and> b \<le> ext2fs_group_last_block2 fs h \<longleftrightarrow> h = g))"
  using assms by (rule group_of_blk_unique)

text \<open>
  A file system of 40 blocks, the first of them block 1, in groups of 16; two groups are full and the last
  one has 7 blocks.
\<close>

definition fs_example :: filsys where
  "fs_example =
     \<lparr>fs_magic = EXT2_ET_MAGIC_EXT2FS_FILSYS, fs_flags = 0x20000,
      fs_super = \<lparr>s_inodes_count = 24, s_blocks_count = 40, s_r_blocks_count = 2, s_free_blocks_count = 10,
        s_free_inodes_count = 8, s_first_data_block = 1, s_log_block_size = 0, s_log_cluster_size = 0,
        s_blocks_per_group = 16, s_clusters_per_group = 16, s_inodes_per_group = 8, s_rev_level = 0,
        s_first_ino = 11, s_inode_size = 128, s_feature_compat = 0, s_feature_incompat = 0x80,
        s_feature_ro_compat = 0x01, s_uuid = replicate 16 7, s_reserved_gdt_blocks = 0, s_desc_size = 64, s_first_meta_bg = 0,
        s_blocks_count_hi = 0, s_r_blocks_count_hi = 0, s_free_blocks_hi = 0, s_backup_bgs_0 = 0, s_backup_bgs_1 = 0, s_checksum_type = 1,
        s_checksum_seed = 0\<rparr>,
      fs_blocksize = 1024, fs_group_desc_count = 3, fs_desc_blocks = 1,
      fs_group_desc = replicate 16
        \<lparr>bg_block_bitmap = 3, bg_inode_bitmap = 4, bg_inode_table = 5, bg_free_blocks_count = 1,
         bg_free_inodes_count = 2, bg_used_dirs_count = 1, bg_flags = 0, bg_exclude_bitmap_lo = 0, bg_block_bitmap_csum_lo = 0,
         bg_inode_bitmap_csum_lo = 0, bg_itable_unused = 0, bg_checksum = 0, bg_block_bitmap_hi = 0,
         bg_inode_bitmap_hi = 0, bg_inode_table_hi = 0, bg_free_blocks_count_hi = 0, bg_free_inodes_count_hi = 0,
         bg_used_dirs_count_hi = 0, bg_itable_unused_hi = 0, bg_exclude_bitmap_hi = 0, bg_block_bitmap_csum_hi = 0,
         bg_inode_bitmap_csum_hi = 0, bg_reserved = 0, bg_tail = []\<rparr>,
      fs_inode_blocks_per_group = 1, fs_cluster_ratio_bits = 0, fs_default_bitmap_type = 1, fs_csum_seed = 0\<rparr>"

lemma fs_example_geometry: "fs_geometry_ok fs_example"
  by code_simp

theorem groups_partition_blocks_witness:
  "\<exists>g. ext2fs_group_of_blk2 fs_example 39 = Some g \<and> g < fs_group_desc_count fs_example
    \<and> (\<forall>h. h < fs_group_desc_count fs_example \<longrightarrow>
          (ext2fs_group_first_block2 fs_example h \<le> 39 \<and> 39 \<le> ext2fs_group_last_block2 fs_example h \<longleftrightarrow> h = g))"
proof (rule groups_partition_blocks [OF fs_example_geometry])
  show "ucast (s_first_data_block (fs_super fs_example)) \<le> (39 :: u64)" by code_simp
  show "39 < ext2fs_blocks_count (fs_super fs_example)" by code_simp
qed

lemma tail_length:
  fixes p g D :: nat
  assumes "0 < p" "p * g < D" "D \<le> p * Suc g"
  shows "(if D mod p = 0 then p else D mod p) = D - p * g"
proof (cases "D = p * Suc g")
  case True
  then show ?thesis by simp
next
  case False
  have "D mod p = (D - p * g) mod p" using assms(2) by (metis le_add_diff_inverse less_imp_le mod_mult_self4)
  moreover have "D - p * g < p" using assms False unfolding mult_Suc_right by linarith
  ultimately show ?thesis using assms(2) by simp
qed

text \<open>
  The size that \<^verbatim>\<open>ext2fs_group_blocks_count\<close> reports for a group is the number of blocks between its
  first and its last block, also for the last group.
\<close>

theorem group_blocks_count_exact:
  assumes ok: "fs_geometry_ok fs" and g: "g < fs_group_desc_count fs"
  shows "\<exists>n. ext2fs_group_blocks_count fs g = Some n
    \<and> unat (ext2fs_group_first_block2 fs g) + unat n = unat (ext2fs_group_last_block2 fs g) + 1"
proof -
  let ?F = "unat (s_first_data_block (fs_super fs))" and ?B = "unat (ext2fs_blocks_count (fs_super fs))"
  let ?p = "unat (s_blocks_per_group (fs_super fs))" and ?n = "unat (fs_group_desc_count fs)"
  note geo = fs_geometryD [OF ok]
  note fl = group_first_last [OF ok g]
  have p0: "s_blocks_per_group (fs_super fs) \<noteq> 0" using geo(1) by auto
  have gn: "unat g < ?n" using g by (simp add: word_less_nat_alt)
  show ?thesis
  proof (cases "g = fs_group_desc_count fs - 1")
    case False
    then have "unat g \<noteq> ?n - 1" using geo(6) by (metis word_unat_eq_iff)
    with gn have "Suc (unat g) < ?n" by simp
    from geo(5) [OF this] False fl geo(1) show ?thesis
      by (simp add: ext2fs_group_blocks_count_def min_def)
  next
    case True
    let ?r = "(?B - ?F) mod ?p"
    have ug: "Suc (unat g) = ?n" using True geo(3,6) by simp
    have last: "unat (ext2fs_group_last_block2 fs g) = ?B - 1"
      using fl(2) geo(4) unfolding ug by (simp add: min_def)
    have le: "ucast (s_first_data_block (fs_super fs)) \<le> ext2fs_blocks_count (fs_super fs)"
      using geo(2) by (simp add: word_le_nat_alt)
    define w :: u32 where "w = ucast ((ext2fs_blocks_count (fs_super fs) - ucast (s_first_data_block (fs_super fs)))
        mod ucast (s_blocks_per_group (fs_super fs)))"
    have "?r < 4294967296" using geo(1) unat_u32_less [of "s_blocks_per_group (fs_super fs)"] mod_less_divisor [of ?p "?B - ?F"] by linarith
    then have w: "unat w = ?r"
      unfolding w_def by (simp add: unat_ucast_64_32 unat_mod unat_diff_le [OF le])
    have first: "?p * unat g < ?B - ?F" "?B - ?F \<le> ?p * Suc (unat g)"
      using geo(5) [OF gn] geo(2,4) unfolding ug by linarith+
    have "(if ?r = 0 then ?p else ?r) = ?B - ?F - ?p * unat g"
      using tail_length [OF geo(1) first] .
    moreover have "ext2fs_group_blocks_count fs g = Some (if w = 0 then s_blocks_per_group (fs_super fs) else w)"
      using True p0 by (simp add: ext2fs_group_blocks_count_def Let_def w_def)
    moreover have "w = 0 \<longleftrightarrow> ?r = 0" using w by (metis unat_eq_zero)
    ultimately show ?thesis using fl(1) last w first geo(2) by (auto simp: if_distrib)
  qed
qed

theorem group_blocks_count_exact_witness:
  "\<exists>n. ext2fs_group_blocks_count fs_example 2 = Some n
    \<and> unat (ext2fs_group_first_block2 fs_example 2) + unat n = unat (ext2fs_group_last_block2 fs_example 2) + 1"
  by (rule group_blocks_count_exact [OF fs_example_geometry]) code_simp

subsection \<open>The table of descriptors\<close>

text \<open>
  A table that was read completely, with descriptors of 32 bytes or, with the 64bit feature, of at least 64
  bytes, and small enough for the 32-bit byte offset.
\<close>

definition desc_table_ok :: "filsys \<Rightarrow> bool" where
  "desc_table_ok fs \<longleftrightarrow>
     unat (fs_group_desc_count fs) \<le> length (fs_group_desc fs)
     \<and> EXT2_BLOCK_SIZE (fs_super fs) \<noteq> None
     \<and> (ext2fs_has_feature_64bit (fs_super fs) \<longrightarrow> unat (s_desc_size (fs_super fs)) \<ge> 64)
     \<and> unat (fs_group_desc_count fs) * EXT2_DESC_SIZE (fs_super fs) \<le> 4294967296"

lemma desc_table_index:
  assumes ok: "desc_table_ok fs" and g: "g < fs_group_desc_count fs"
  shows "ext2fs_group_desc fs g = Some (Some (unat g))" "unat g < length (fs_group_desc fs)"
proof -
  define sz where "sz = EXT2_DESC_SIZE (fs_super fs)"
  define ds where "ds = sz div 8 * 8"
  have n: "unat g < unat (fs_group_desc_count fs)" using g by (simp add: word_less_nat_alt)
  with ok show "unat g < length (fs_group_desc fs)" by (simp add: desc_table_ok_def)
  have sz: "32 \<le> sz" using ok by (auto simp: desc_table_ok_def sz_def EXT2_DESC_SIZE_def)
  then have ds0: "0 < ds" "ds \<le> sz" by (auto simp: ds_def div_greater_zero_iff)
  have "unat g * ds \<le> unat g * sz" using ds0 by simp
  also have "\<dots> < unat (fs_group_desc_count fs) * sz" using n sz by simp
  also have "\<dots> \<le> 4294967296" using ok by (simp add: desc_table_ok_def sz_def)
  finally have lt: "unat g * ds < 4294967296" .
  have "sz < 65536" using unat_u16_less [of "s_desc_size (fs_super fs)"] by (simp add: sz_def EXT2_DESC_SIZE_def)
  then have "unat (of_nat ds :: u32) = ds" using ds0 by (intro unat_of_nat_u32) linarith
  then have off: "unat (g * of_nat ds) = unat g * ds" using lt by (simp add: unat_word_ariths)
  obtain bs where "EXT2_BLOCK_SIZE (fs_super fs) = Some bs" using ok by (auto simp: desc_table_ok_def)
  moreover have "sz \<noteq> 0" using sz by simp
  ultimately have "EXT2_DESC_PER_BLOCK (fs_super fs) \<noteq> None" by (simp add: EXT2_DESC_PER_BLOCK_def sz_def)
  moreover have "\<not> g > fs_group_desc_count fs" using g by simp
  ultimately show "ext2fs_group_desc fs g = Some (Some (unat g))"
    using off ds0 unfolding ext2fs_group_desc_def sz_def [symmetric] ds_def [symmetric] by (simp add: Let_def)
qed

text \<open>What a descriptor says, with the halves put together.\<close>

record desc_view =
  v_block_bitmap :: u64
  v_inode_bitmap :: u64
  v_inode_table :: u64
  v_free_blocks :: u32
  v_free_inodes :: u32
  v_used_dirs :: u32
  v_itable_unused :: u32
  v_flags :: u16
  v_checksum :: u16

definition desc_view_of :: "bool \<Rightarrow> ext4_group_desc \<Rightarrow> desc_view" where
  "desc_view_of w d =
     \<lparr>v_block_bitmap = (if w then join64 (bg_block_bitmap d) (bg_block_bitmap_hi d) else ucast (bg_block_bitmap d)),
      v_inode_bitmap = (if w then join64 (bg_inode_bitmap d) (bg_inode_bitmap_hi d) else ucast (bg_inode_bitmap d)),
      v_inode_table = (if w then join64 (bg_inode_table d) (bg_inode_table_hi d) else ucast (bg_inode_table d)),
      v_free_blocks = (if w then join32 (bg_free_blocks_count d) (bg_free_blocks_count_hi d) else ucast (bg_free_blocks_count d)),
      v_free_inodes = (if w then join32 (bg_free_inodes_count d) (bg_free_inodes_count_hi d) else ucast (bg_free_inodes_count d)),
      v_used_dirs = (if w then join32 (bg_used_dirs_count d) (bg_used_dirs_count_hi d) else ucast (bg_used_dirs_count d)),
      v_itable_unused = (if w then join32 (bg_itable_unused d) (bg_itable_unused_hi d) else ucast (bg_itable_unused d)),
      v_flags = bg_flags d, v_checksum = bg_checksum d\<rparr>"

abbreviation fs_wide :: "filsys \<Rightarrow> bool" where
  "fs_wide fs \<equiv> ext2fs_has_feature_64bit (fs_super fs)"

definition bg_views :: "filsys \<Rightarrow> desc_view list" where
  "bg_views fs = map (desc_view_of (fs_wide fs)) (fs_group_desc fs)"

text \<open>
  The contract of a field of the descriptors: the reader returns the component \<open>sel\<close> of the view of its
  group, the writer replaces it by what fits, and nothing else changes.
\<close>

locale desc_field =
  fixes rd :: "filsys \<Rightarrow> u32 \<Rightarrow> 'v ub"
    and wr :: "filsys \<Rightarrow> u32 \<Rightarrow> 'w \<Rightarrow> filsys ub"
    and sel :: "desc_view \<Rightarrow> 'v"
    and upd :: "bool \<Rightarrow> 'w \<Rightarrow> desc_view \<Rightarrow> desc_view"
    and code :: "bool \<Rightarrow> 'w \<Rightarrow> ext4_group_desc \<Rightarrow> ext4_group_desc"
  assumes rd_law: "rd fs g = bg_read fs g (\<lambda>d. sel (desc_view_of (fs_wide fs) d))"
    and wr_law: "wr fs g v = bg_write fs g (code (fs_wide fs) v)"
    and code_law: "desc_view_of w (code w v d) = upd w v (desc_view_of w d)"
begin

lemma field_read:
  assumes "desc_table_ok fs" "g < fs_group_desc_count fs"
  shows "rd fs g = Some (sel (bg_views fs ! unat g))"
  using desc_table_index [OF assms] by (simp add: rd_law bg_read_def bg_views_def)

lemma field_write:
  assumes "desc_table_ok fs" "g < fs_group_desc_count fs"
  shows "\<exists>fs'. wr fs g v = Some fs' \<and> fs' = fs\<lparr>fs_group_desc := fs_group_desc fs'\<rparr> \<and> desc_table_ok fs'
    \<and> bg_views fs' = (bg_views fs)[unat g := upd (fs_wide fs) v (bg_views fs ! unat g)]"
proof -
  note i = desc_table_index [OF assms]
  let ?d = "code (fs_wide fs) v (fs_group_desc fs ! unat g)"
  let ?fs = "fs\<lparr>fs_group_desc := (fs_group_desc fs)[unat g := ?d]\<rparr>"
  have "wr fs g v = Some ?fs" using i by (simp add: wr_law bg_write_def)
  moreover have "desc_table_ok ?fs" using assms(1) by (simp add: desc_table_ok_def)
  moreover have "bg_views ?fs = (bg_views fs)[unat g := upd (fs_wide fs) v (bg_views fs ! unat g)]"
    using i(2) by (simp add: bg_views_def map_update code_law)
  ultimately show ?thesis by simp
qed

end

lemmas desc_field_defs = two_halves two_halves_16 desc_view_of_def cut64_def cut32_def Let_def

interpretation bb: desc_field ext2fs_block_bitmap_loc ext2fs_block_bitmap_loc_set v_block_bitmap
  "\<lambda>w v. v_block_bitmap_update (\<lambda>_. cut64 w v)"
  "\<lambda>w blk gdp. let gdp = gdp\<lparr>bg_block_bitmap := ucast blk\<rparr>
     in if w then gdp\<lparr>bg_block_bitmap_hi := ucast (drop_bit 32 blk)\<rparr> else gdp"
  by unfold_locales (simp_all add: ext2fs_block_bitmap_loc_def ext2fs_block_bitmap_loc_set_def desc_field_defs)

interpretation ib: desc_field ext2fs_inode_bitmap_loc ext2fs_inode_bitmap_loc_set v_inode_bitmap
  "\<lambda>w v. v_inode_bitmap_update (\<lambda>_. cut64 w v)"
  "\<lambda>w blk gdp. let gdp = gdp\<lparr>bg_inode_bitmap := ucast blk\<rparr>
     in if w then gdp\<lparr>bg_inode_bitmap_hi := ucast (drop_bit 32 blk)\<rparr> else gdp"
  by unfold_locales (simp_all add: ext2fs_inode_bitmap_loc_def ext2fs_inode_bitmap_loc_set_def desc_field_defs)

interpretation itab: desc_field ext2fs_inode_table_loc ext2fs_inode_table_loc_set v_inode_table
  "\<lambda>w v. v_inode_table_update (\<lambda>_. cut64 w v)"
  "\<lambda>w blk gdp. let gdp = gdp\<lparr>bg_inode_table := ucast blk\<rparr>
     in if w then gdp\<lparr>bg_inode_table_hi := ucast (drop_bit 32 blk)\<rparr> else gdp"
  by unfold_locales (simp_all add: ext2fs_inode_table_loc_def ext2fs_inode_table_loc_set_def desc_field_defs)

interpretation fb: desc_field ext2fs_bg_free_blocks_count ext2fs_bg_free_blocks_count_set v_free_blocks
  "\<lambda>w v. v_free_blocks_update (\<lambda>_. cut32 w v)"
  "\<lambda>w n gdp. let gdp = gdp\<lparr>bg_free_blocks_count := ucast n\<rparr>
     in if w then gdp\<lparr>bg_free_blocks_count_hi := ucast (drop_bit 16 n)\<rparr> else gdp"
  by unfold_locales (simp_all add: ext2fs_bg_free_blocks_count_def ext2fs_bg_free_blocks_count_set_def desc_field_defs)

interpretation fi: desc_field ext2fs_bg_free_inodes_count ext2fs_bg_free_inodes_count_set v_free_inodes
  "\<lambda>w v. v_free_inodes_update (\<lambda>_. cut32 w v)"
  "\<lambda>w n gdp. let gdp = gdp\<lparr>bg_free_inodes_count := ucast n\<rparr>
     in if w then gdp\<lparr>bg_free_inodes_count_hi := ucast (drop_bit 16 n)\<rparr> else gdp"
  by unfold_locales (simp_all add: ext2fs_bg_free_inodes_count_def ext2fs_bg_free_inodes_count_set_def desc_field_defs)

interpretation ud: desc_field ext2fs_bg_used_dirs_count ext2fs_bg_used_dirs_count_set v_used_dirs
  "\<lambda>w v. v_used_dirs_update (\<lambda>_. cut32 w v)"
  "\<lambda>w n gdp. let gdp = gdp\<lparr>bg_used_dirs_count := ucast n\<rparr>
     in if w then gdp\<lparr>bg_used_dirs_count_hi := ucast (drop_bit 16 n)\<rparr> else gdp"
  by unfold_locales (simp_all add: ext2fs_bg_used_dirs_count_def ext2fs_bg_used_dirs_count_set_def desc_field_defs)

interpretation iu: desc_field ext2fs_bg_itable_unused ext2fs_bg_itable_unused_set v_itable_unused
  "\<lambda>w v. v_itable_unused_update (\<lambda>_. cut32 w v)"
  "\<lambda>w n gdp. let gdp = gdp\<lparr>bg_itable_unused := ucast n\<rparr>
     in if w then gdp\<lparr>bg_itable_unused_hi := ucast (drop_bit 16 n)\<rparr> else gdp"
  by unfold_locales (simp_all add: ext2fs_bg_itable_unused_def ext2fs_bg_itable_unused_set_def desc_field_defs)

interpretation bf: desc_field ext2fs_bg_flags ext2fs_bg_flags_set v_flags
  "\<lambda>w v. v_flags_update (\<lambda>f. f OR v)" "\<lambda>w v gdp. gdp\<lparr>bg_flags := bg_flags gdp OR v\<rparr>"
  by unfold_locales (simp_all add: ext2fs_bg_flags_def ext2fs_bg_flags_set_def desc_field_defs)

interpretation bc: desc_field ext2fs_bg_flags ext2fs_bg_flags_clear v_flags
  "\<lambda>w v. v_flags_update (\<lambda>f. f AND NOT v)" "\<lambda>w v gdp. gdp\<lparr>bg_flags := bg_flags gdp AND NOT v\<rparr>"
  by unfold_locales (simp_all add: ext2fs_bg_flags_def ext2fs_bg_flags_clear_def desc_field_defs)

interpretation cs: desc_field ext2fs_bg_checksum ext2fs_bg_checksum_set v_checksum
  "\<lambda>w v. v_checksum_update (\<lambda>_. v)" "\<lambda>w v gdp. gdp\<lparr>bg_checksum := v\<rparr>"
  by unfold_locales (simp_all add: ext2fs_bg_checksum_def ext2fs_bg_checksum_set_def desc_field_defs)

text \<open>
  (C23) In a file system with a well-formed descriptor table, setting the location of the block bitmap, the
  inode bitmap or the inode table of a group, or one of its four counters, changes exactly that component
  of the view of exactly that group, to the value given or, without the 64bit feature, to its low half; and
  the readers return the components of the view.
\<close>

theorem bg_fields_refine:
  assumes ok: "desc_table_ok fs" and g: "g < fs_group_desc_count fs"
  shows "(\<exists>fs'. ext2fs_block_bitmap_loc_set fs g blk = Some fs' \<and> desc_table_ok fs' \<and> fs_super fs' = fs_super fs
      \<and> bg_views fs' = (bg_views fs)[unat g := (bg_views fs ! unat g)\<lparr>v_block_bitmap := cut64 (fs_wide fs) blk\<rparr>])
    \<and> (\<exists>fs'. ext2fs_inode_bitmap_loc_set fs g blk = Some fs' \<and> desc_table_ok fs' \<and> fs_super fs' = fs_super fs
      \<and> bg_views fs' = (bg_views fs)[unat g := (bg_views fs ! unat g)\<lparr>v_inode_bitmap := cut64 (fs_wide fs) blk\<rparr>])
    \<and> (\<exists>fs'. ext2fs_inode_table_loc_set fs g blk = Some fs' \<and> desc_table_ok fs' \<and> fs_super fs' = fs_super fs
      \<and> bg_views fs' = (bg_views fs)[unat g := (bg_views fs ! unat g)\<lparr>v_inode_table := cut64 (fs_wide fs) blk\<rparr>])
    \<and> (\<exists>fs'. ext2fs_bg_free_blocks_count_set fs g n = Some fs' \<and> desc_table_ok fs' \<and> fs_super fs' = fs_super fs
      \<and> bg_views fs' = (bg_views fs)[unat g := (bg_views fs ! unat g)\<lparr>v_free_blocks := cut32 (fs_wide fs) n\<rparr>])
    \<and> (\<exists>fs'. ext2fs_bg_free_inodes_count_set fs g n = Some fs' \<and> desc_table_ok fs' \<and> fs_super fs' = fs_super fs
      \<and> bg_views fs' = (bg_views fs)[unat g := (bg_views fs ! unat g)\<lparr>v_free_inodes := cut32 (fs_wide fs) n\<rparr>])
    \<and> (\<exists>fs'. ext2fs_bg_used_dirs_count_set fs g n = Some fs' \<and> desc_table_ok fs' \<and> fs_super fs' = fs_super fs
      \<and> bg_views fs' = (bg_views fs)[unat g := (bg_views fs ! unat g)\<lparr>v_used_dirs := cut32 (fs_wide fs) n\<rparr>])
    \<and> (\<exists>fs'. ext2fs_bg_itable_unused_set fs g n = Some fs' \<and> desc_table_ok fs' \<and> fs_super fs' = fs_super fs
      \<and> bg_views fs' = (bg_views fs)[unat g := (bg_views fs ! unat g)\<lparr>v_itable_unused := cut32 (fs_wide fs) n\<rparr>])
    \<and> ext2fs_block_bitmap_loc fs g = Some (v_block_bitmap (bg_views fs ! unat g))
    \<and> ext2fs_inode_bitmap_loc fs g = Some (v_inode_bitmap (bg_views fs ! unat g))
    \<and> ext2fs_inode_table_loc fs g = Some (v_inode_table (bg_views fs ! unat g))
    \<and> ext2fs_bg_free_blocks_count fs g = Some (v_free_blocks (bg_views fs ! unat g))
    \<and> ext2fs_bg_free_inodes_count fs g = Some (v_free_inodes (bg_views fs ! unat g))
    \<and> ext2fs_bg_used_dirs_count fs g = Some (v_used_dirs (bg_views fs ! unat g))
    \<and> ext2fs_bg_itable_unused fs g = Some (v_itable_unused (bg_views fs ! unat g))"
proof -
  have super: "fs' = fs\<lparr>fs_group_desc := ds\<rparr> \<Longrightarrow> fs_super fs' = fs_super fs" for fs' ds by simp
  show ?thesis
    by (intro conjI; (rule bb.field_read [OF assms] ib.field_read [OF assms] itab.field_read [OF assms] fb.field_read [OF assms]
        fi.field_read [OF assms] ud.field_read [OF assms] iu.field_read [OF assms])?)
      (use bb.field_write [OF assms, of blk] ib.field_write [OF assms, of blk] itab.field_write [OF assms, of blk]
        fb.field_write [OF assms, of n] fi.field_write [OF assms, of n] ud.field_write [OF assms, of n]
        iu.field_write [OF assms, of n] super in blast)+
qed

lemma fs_example_table: "desc_table_ok fs_example"
  by (simp add: desc_table_ok_def fs_example_def EXT2_BLOCK_SIZE_def EXT2_DESC_SIZE_def ext2fs_has_feature_64bit_def)

theorem bg_fields_refine_witness:
  "desc_table_ok fs_example \<and> 2 < fs_group_desc_count fs_example
   \<and> (\<exists>fs'. ext2fs_inode_table_loc_set fs_example 2 0x500000007 = Some fs' \<and> desc_table_ok fs' \<and> fs_super fs' = fs_super fs_example
      \<and> bg_views fs' = (bg_views fs_example)[unat (2 :: u32) := (bg_views fs_example ! unat (2 :: u32))
          \<lparr>v_inode_table := cut64 (fs_wide fs_example) 0x500000007\<rparr>])
   \<and> ext2fs_bg_used_dirs_count fs_example 2 = Some (v_used_dirs (bg_views fs_example ! unat (2 :: u32)))"
proof -
  have g: "2 < fs_group_desc_count fs_example" by code_simp
  from bg_fields_refine [OF fs_example_table g, of "0x500000007" 0] fs_example_table g show ?thesis
    by (elim conjE) (intro conjI; assumption)
qed

text \<open>
  (C36) The pointer to a descriptor is computed with a 32-bit product: with descriptors of 64 bytes the
  descriptor of group \<open>2\<^sup>2\<^sup>6\<close> is that of group 0.
\<close>

theorem group_desc_wraps:
  assumes "fs_wide fs" "s_desc_size (fs_super fs) = 64" "EXT2_BLOCK_SIZE (fs_super fs) \<noteq> None"
    and "0x4000000 \<le> fs_group_desc_count fs"
  shows "ext2fs_group_desc fs 0x4000000 = ext2fs_group_desc fs 0"
proof -
  have "EXT2_DESC_SIZE (fs_super fs) = 64" using assms by (simp add: EXT2_DESC_SIZE_def)
  moreover have "EXT2_DESC_PER_BLOCK (fs_super fs) \<noteq> None" using assms(3) calculation by (auto simp: EXT2_DESC_PER_BLOCK_def)
  moreover have "\<not> 0x4000000 > fs_group_desc_count fs" using assms(4) by simp
  ultimately show ?thesis by (simp add: ext2fs_group_desc_def Let_def)
qed

theorem group_desc_wraps_witness:
  "ext2fs_group_desc (fs_example\<lparr>fs_group_desc_count := 0x8000000\<rparr>) 0x4000000
    = ext2fs_group_desc (fs_example\<lparr>fs_group_desc_count := 0x8000000\<rparr>) 0"
proof (rule group_desc_wraps)
  show "fs_wide (fs_example\<lparr>fs_group_desc_count := 0x8000000\<rparr>)" by code_simp
  show "s_desc_size (fs_super (fs_example\<lparr>fs_group_desc_count := 0x8000000\<rparr>)) = 64" by code_simp
  show "EXT2_BLOCK_SIZE (fs_super (fs_example\<lparr>fs_group_desc_count := 0x8000000\<rparr>)) \<noteq> None" by code_simp
  show "0x4000000 \<le> fs_group_desc_count (fs_example\<lparr>fs_group_desc_count := 0x8000000\<rparr>)" by code_simp
qed

subsection \<open>Counting directories\<close>

declare num_dirs_loop.simps [simp del]

lemma num_dirs_loop_sum:
  assumes ok: "desc_table_ok fs"
    and cap: "\<And>g. g < fs_group_desc_count fs \<Longrightarrow> v_used_dirs (bg_views fs ! unat g) \<le> s_inodes_per_group (fs_super fs)"
    and room: "unat acc + unat (s_inodes_per_group (fs_super fs)) * (unat (fs_group_desc_count fs) - unat i) < 4294967296"
    and "i \<le> fs_group_desc_count fs"
  shows "\<exists>n. num_dirs_loop fs i acc = Some n
    \<and> unat n = unat acc + (\<Sum>g\<in>{unat i..<unat (fs_group_desc_count fs)}. unat (v_used_dirs (bg_views fs ! g)))"
  using room assms(4)
proof (induction "unat (fs_group_desc_count fs) - unat i" arbitrary: i acc)
  case 0
  then have "i = fs_group_desc_count fs" by (simp add: word_le_nat_alt word_unat_eq_iff)
  then show ?case by (subst num_dirs_loop.simps) simp
next
  case (Suc k)
  let ?n = "unat (fs_group_desc_count fs)" and ?ipg = "unat (s_inodes_per_group (fs_super fs))"
  have lt: "i < fs_group_desc_count fs" using Suc.hyps(2) by (simp add: word_less_nat_alt)
  let ?u = "v_used_dirs (bg_views fs ! unat i)"
  note i1 = unat_inc [OF lt]
  have u: "unat ?u \<le> ?ipg" using cap [OF lt] by (simp add: word_le_nat_alt)
  have split: "?n - unat i = Suc (?n - unat (i + 1))" using lt i1 by (simp add: word_less_nat_alt)
  have "unat acc + (?ipg + ?ipg * (?n - unat (i + 1))) < 4294967296" using Suc.prems(1) unfolding split by simp
  then have b: "unat acc + unat ?u + ?ipg * (?n - unat (i + 1)) < 4294967296" using u by linarith
  then have acc: "unat (acc + ?u) = unat acc + unat ?u" by (intro unat_add_u32) linarith
  have "k = ?n - unat (i + 1)" using Suc.hyps(2) split by simp
  moreover have "i + 1 \<le> fs_group_desc_count fs" using lt i1 by (simp add: word_le_nat_alt word_less_nat_alt)
  ultimately obtain n where n: "num_dirs_loop fs (i + 1) (acc + ?u) = Some n"
      "unat n = unat acc + unat ?u + (\<Sum>g\<in>{unat (i + 1)..<?n}. unat (v_used_dirs (bg_views fs ! g)))"
    using Suc.hyps(1) [of "i + 1" "acc + ?u"] b acc by auto
  have "\<not> s_inodes_per_group (fs_super fs) < ?u" using cap [OF lt] by (rule leD)
  then have "num_dirs_loop fs i acc = Some n"
    using lt n(1) ud.field_read [OF ok lt] by (subst num_dirs_loop.simps) simp
  moreover have "(\<Sum>g\<in>{unat i..<?n}. unat (v_used_dirs (bg_views fs ! g)))
      = unat ?u + (\<Sum>g\<in>{unat (i + 1)..<?n}. unat (v_used_dirs (bg_views fs ! g)))"
    using lt i1 by (simp add: word_less_nat_alt sum.atLeast_Suc_lessThan)
  ultimately show ?case using n(2) by simp
qed

text \<open>
  When no group claims more directories than it has inodes and the inodes of all groups fit the inode
  count of the superblock, the number of directories is the sum over all groups.
\<close>

theorem get_num_dirs_sum:
  assumes ok: "desc_table_ok fs" and magic: "fs_magic fs = EXT2_ET_MAGIC_EXT2FS_FILSYS"
    and cap: "\<forall>g. g < fs_group_desc_count fs \<longrightarrow> v_used_dirs (bg_views fs ! unat g) \<le> s_inodes_per_group (fs_super fs)"
    and room: "unat (s_inodes_per_group (fs_super fs)) * unat (fs_group_desc_count fs) \<le> unat (s_inodes_count (fs_super fs))"
  shows "\<exists>n. ext2fs_get_num_dirs fs = Some (Inr n)
    \<and> unat n = (\<Sum>g < unat (fs_group_desc_count fs). unat (v_used_dirs (bg_views fs ! g)))"
proof -
  let ?n = "unat (fs_group_desc_count fs)" and ?ipg = "unat (s_inodes_per_group (fs_super fs))"
  have "?ipg * ?n < 4294967296" using room unat_u32_less [of "s_inodes_count (fs_super fs)"] by linarith
  with num_dirs_loop_sum [OF ok, of 0 0] cap obtain n where
    n: "num_dirs_loop fs 0 0 = Some n" "unat n = (\<Sum>g < ?n. unat (v_used_dirs (bg_views fs ! g)))"
    by (auto simp: lessThan_atLeast0)
  have "unat (v_used_dirs (bg_views fs ! g)) \<le> ?ipg" if "g < ?n" for g
  proof -
    have "g < 4294967296" using that unat_u32_less [of "fs_group_desc_count fs"] by linarith
    then have "unat (of_nat g :: u32) = g" by (rule unat_of_nat_u32)
    with cap [rule_format, of "of_nat g"] that show ?thesis by (simp add: word_less_nat_alt word_le_nat_alt)
  qed
  then have "unat n \<le> ?n * ?ipg" unfolding n(2) using sum_bounded_above [of "{..<?n}" _ ?ipg] by simp
  then have "\<not> n > s_inodes_count (fs_super fs)" using room by (simp add: word_less_nat_alt mult.commute)
  with n magic show ?thesis by (simp add: ext2fs_get_num_dirs_def)
qed

theorem get_num_dirs_sum_witness:
  "\<exists>n. ext2fs_get_num_dirs fs_example = Some (Inr n)
    \<and> unat n = (\<Sum>g < unat (fs_group_desc_count fs_example). unat (v_used_dirs (bg_views fs_example ! g)))"
proof (rule get_num_dirs_sum [OF fs_example_table])
  have "v_used_dirs (bg_views fs_example ! i) \<le> s_inodes_per_group (fs_super fs_example)" if "i < 3" for i
  proof -
    have "\<forall>i \<in> set [0..<3]. v_used_dirs (bg_views fs_example ! i) \<le> s_inodes_per_group (fs_super fs_example)" by code_simp
    with that show ?thesis by simp
  qed
  moreover have "unat (fs_group_desc_count fs_example) = 3" by code_simp
  ultimately show "\<forall>g. g < fs_group_desc_count fs_example \<longrightarrow>
      v_used_dirs (bg_views fs_example ! unat g) \<le> s_inodes_per_group (fs_super fs_example)"
    by (simp add: word_less_nat_alt)
qed code_simp+

subsection \<open>Inodes\<close>

lemma unat_ucast_64_16: "unat (ucast (i :: u64) :: u16) = unat i mod 65536"
  by (simp add: unsigned_ucast_eq unsigned_take_bit_eq take_bit_eq_mod)

lemma unat_ucast_16_64 [simp]: "unat (ucast (i :: u16) :: u64) = unat i"
  by (simp add: unsigned_ucast_eq take_bit_nat_eq_self less_trans [OF unat_u16_less])

lemma ucast_low_half: "(ucast (b AND 0xFFFFFFFF :: u64) :: u32) = ucast b"
proof -
  have m: "(0xFFFFFFFF :: u64) = mask 32" by (simp add: mask_eq_exp_minus_1)
  have "(ucast (b AND mask 32) :: u32) = ucast b"
    by (auto intro!: bit_word_eqI simp: bit_unsigned_iff bit_and_iff bit_mask_iff)
  then show ?thesis unfolding m .
qed

lemma unat_low_half: "unat (ucast (b AND 0xFFFFFFFF :: u64) :: u32) = unat b mod 4294967296"
  unfolding ucast_low_half by (rule unat_ucast_64_32)

lemma unat_iblk_value:
  "unat (iblk_value fs inode) = unat (i_blocks inode) +
     (if ext2fs_has_feature_huge_file (fs_super fs) then 4294967296 * unat (l_i_blocks_hi inode) else 0)"
proof -
  have "unat (i_blocks inode) < 4294967296" "unat (l_i_blocks_hi inode) < 65536" by simp_all
  then have lt: "unat (i_blocks inode) + 4294967296 * unat (l_i_blocks_hi inode) < 18446744073709551616" by linarith
  have p: "unat (push_bit 32 (ucast (l_i_blocks_hi inode)) :: u64) = 4294967296 * unat (l_i_blocks_hi inode)"
    using lt by (subst unat_push_bit_u64) simp_all
  show ?thesis using lt p unfolding iblk_value_def by (auto simp: unat_add_u64)
qed

text \<open>Storing a number of sectors in an inode, as all three functions do.\<close>

definition iblk_store :: "bool \<Rightarrow> ext2_inode \<Rightarrow> u64 \<Rightarrow> ext2_inode" where
  "iblk_store huge inode b =
     (let inode = (if huge then inode\<lparr>l_i_blocks_hi := ucast (drop_bit 32 b)\<rparr> else inode)
      in inode\<lparr>i_blocks := ucast (b AND 0xFFFFFFFF)\<rparr>)"

lemma iblk_value_store:
  assumes "unat b < (if ext2fs_has_feature_huge_file (fs_super fs) then 281474976710656 else 4294967296)"
  shows "iblk_value fs (iblk_store (ext2fs_has_feature_huge_file (fs_super fs)) inode b) = b"
proof -
  have "unat b mod 4294967296 + 4294967296 * (unat b div 4294967296 mod 65536) = unat b" if "unat b < 281474976710656"
  proof -
    have "unat b div 4294967296 < 65536" using that by (simp add: div_less_iff_less_mult)
    then show ?thesis using mod_mult_div_eq [of "unat b" 4294967296] by simp
  qed
  with assms show ?thesis
    by (cases "ext2fs_has_feature_huge_file (fs_super fs)")
      (simp_all add: word_unat_eq_iff unat_iblk_value iblk_store_def Let_def unat_low_half unat_ucast_64_16 unat_drop_bit_div)
qed

lemma iblk_store_value:
  "iblk_store (ext2fs_has_feature_huge_file (fs_super fs)) (iblk_store (ext2fs_has_feature_huge_file (fs_super fs)) inode b)
     (iblk_value fs inode) = inode"
proof -
  have lo: "unat (i_blocks inode) < 4294967296" and hi: "unat (l_i_blocks_hi inode) < 65536" by simp_all
  let ?v = "iblk_value fs inode"
  have "unat (ucast (?v AND 0xFFFFFFFF) :: u32) = unat (i_blocks inode)"
    unfolding unat_low_half unat_iblk_value using lo by simp
  then have 1: "ucast (?v AND 0xFFFFFFFF) = i_blocks inode" by (simp add: word_unat_eq_iff)
  have "unat (ucast (drop_bit 32 ?v) :: u16) = unat (l_i_blocks_hi inode)" if "ext2fs_has_feature_huge_file (fs_super fs)"
    unfolding unat_ucast_64_16 unat_drop_bit_div unat_iblk_value using that lo hi by simp
  then have 2: "ext2fs_has_feature_huge_file (fs_super fs) \<Longrightarrow> ucast (drop_bit 32 ?v) = l_i_blocks_hi inode"
    by (simp add: word_unat_eq_iff)
  show ?thesis using 1 2 by (simp add: iblk_store_def Let_def)
qed

lemma iblk_sub_store:
  "ext2fs_iblk_sub_blocks fs inode n = do {
     k \<leftarrow> iblk_unit fs inode n;
     if k > iblk_value fs inode then Some (EOVERFLOW, inode)
     else Some (E_OK, iblk_store (ext2fs_has_feature_huge_file (fs_super fs)) inode (iblk_value fs inode - k))
   }"
  by (cases "iblk_unit fs inode n") (simp_all add: ext2fs_iblk_sub_blocks_def iblk_store_def Let_def)

text \<open>
  Adding blocks to the count of an inode, as long as the sum stays below \<open>2\<^sup>4\<^sup>8\<close> sectors, adds their
  number of sectors (or of blocks for a huge file) to the stored count, and subtracting the same number
  again restores the inode; without the huge_file feature a sum that needs more than 32 bits is refused and
  leaves the inode alone.
\<close>

theorem iblk_add_sub:
  assumes unit: "iblk_unit fs inode n = Some k"
    and small: "unat (iblk_value fs inode) + unat k < 281474976710656"
  shows "\<exists>c inode'. ext2fs_iblk_add_blocks fs inode n = Some (c, inode') \<and>
    (if \<not> ext2fs_has_feature_huge_file (fs_super fs) \<and> unat (iblk_value fs inode) + unat k \<ge> 4294967296
     then c = EOVERFLOW \<and> inode' = inode
     else c = E_OK \<and> unat (iblk_value fs inode') = unat (iblk_value fs inode) + unat k
       \<and> ext2fs_iblk_sub_blocks fs inode' n = Some (E_OK, inode))"
proof -
  let ?h = "ext2fs_has_feature_huge_file (fs_super fs)" and ?v = "iblk_value fs inode"
  let ?b = "?v + k"
  have b: "unat ?b = unat ?v + unat k" using small by (intro unat_add_u64) linarith
  have gt: "?b > 0xFFFFFFFF \<longleftrightarrow> unat ?v + unat k \<ge> 4294967296" by (simp add: word_less_nat_alt b) linarith
  let ?i = "iblk_store ?h inode ?b"
  have add: "ext2fs_iblk_add_blocks fs inode n =
      (if \<not> ?h \<and> ?b > 0xFFFFFFFF then Some (EOVERFLOW, inode) else Some (E_OK, ?i))"
    unfolding ext2fs_iblk_add_blocks_def by (simp add: unit iblk_store_def Let_def)
  show ?thesis
  proof (cases "\<not> ?h \<and> unat ?v + unat k \<ge> 4294967296")
    case True
    with add gt show ?thesis by simp
  next
    case False
    have v: "iblk_value fs ?i = ?b" by (rule iblk_value_store) (use False b small in auto)
    have u: "iblk_unit fs ?i n = Some k" using unit by (simp add: iblk_unit_def iblk_store_def Let_def)
    have le: "\<not> k > ?b" using b by (simp add: word_less_nat_alt)
    have "ext2fs_iblk_sub_blocks fs ?i n = Some (E_OK, iblk_store ?h ?i (?b - k))"
      unfolding iblk_sub_store u Option.bind.simps v using le by simp
    also have "iblk_store ?h ?i (?b - k) = inode" using iblk_store_value [of fs inode ?b] by simp
    finally have "ext2fs_iblk_sub_blocks fs ?i n = Some (E_OK, inode)" .
    with add gt False b v show ?thesis by auto
  qed
qed

definition inode_example :: ext2_inode where
  "inode_example = \<lparr>i_mode = 0x81A4, i_size = 5, i_blocks = 8, i_flags = 0, i_file_acl = 0, i_size_high = 0,
     l_i_blocks_hi = 0, l_i_file_acl_high = 0\<rparr>"

theorem iblk_add_sub_witness:
  "\<exists>c inode'. ext2fs_iblk_add_blocks fs_example inode_example 3 = Some (c, inode') \<and>
    (if \<not> ext2fs_has_feature_huge_file (fs_super fs_example) \<and> unat (iblk_value fs_example inode_example) + unat (6 :: u64) \<ge> 4294967296
     then c = EOVERFLOW \<and> inode' = inode_example
     else c = E_OK \<and> unat (iblk_value fs_example inode') = unat (iblk_value fs_example inode_example) + unat (6 :: u64)
       \<and> ext2fs_iblk_sub_blocks fs_example inode' 3 = Some (E_OK, inode_example))"
proof (rule iblk_add_sub)
  show "iblk_unit fs_example inode_example 3 = Some 6"
    by (simp add: iblk_unit_def EXT2FS_CLUSTER_RATIO_def fs_example_def inode_example_def ext2fs_has_feature_huge_file_def)
  show "unat (iblk_value fs_example inode_example) + unat (6 :: u64) < 281474976710656"
    by (simp add: unat_iblk_value inode_example_def fs_example_def ext2fs_has_feature_huge_file_def)
qed

text \<open>
  Setting the size of an inode: a negative size is \<^verbatim>\<open>EINVAL\<close>, a size of 2 GiB or more of something that is
  neither a file nor a directory is \<^verbatim>\<open>EXT2_ET_FILE_TOO_BIG\<close>, both leaving everything alone. Otherwise the two
  halves hold the size; if it is 2 GiB or more then the large_file or largedir feature is set afterwards,
  and if it was not set before then the revision is at least 1 and the superblock is marked dirty.
\<close>

theorem inode_size_set_correct:
  assumes sz: "sz < 9223372036854775808"
    and r: "ext2fs_inode_size_set fs inode sz = (c, fs', inode')"
  shows "(sz < 0 \<longrightarrow> c = EINVAL \<and> fs' = fs \<and> inode' = inode)
    \<and> (sz \<ge> 2147483648 \<and> i_mode inode AND 0xF000 \<noteq> 0x8000 \<and> i_mode inode AND 0xF000 \<noteq> 0x4000 \<longrightarrow>
         c = EXT2_ET_FILE_TOO_BIG \<and> fs' = fs \<and> inode' = inode)
    \<and> (c = E_OK \<longleftrightarrow> 0 \<le> sz \<and> (sz < 2147483648 \<or> i_mode inode AND 0xF000 = 0x8000 \<or> i_mode inode AND 0xF000 = 0x4000))
    \<and> (c = E_OK \<longrightarrow> int (unat (join64 (i_size inode') (i_size_high inode'))) = sz
         \<and> (sz < 2147483648 \<longrightarrow> fs' = fs)
         \<and> (sz \<ge> 2147483648 \<and> i_mode inode AND 0xF000 = 0x8000 \<longrightarrow> ext2fs_has_feature_large_file (fs_super fs'))
         \<and> (sz \<ge> 2147483648 \<and> i_mode inode AND 0xF000 = 0x4000 \<longrightarrow> ext2fs_has_feature_largedir (fs_super fs'))
         \<and> (fs_super fs' \<noteq> fs_super fs \<longrightarrow> s_rev_level (fs_super fs') > 0 \<and> fs_flags fs' AND 0x04 \<noteq> 0))"
proof -
  let ?w = "of_int sz :: u64"
  let ?reg = "i_mode inode AND 0xF000 = 0x8000" and ?dir = "i_mode inode AND 0xF000 = 0x4000"
  define dirty where "dirty \<longleftrightarrow> sz \<ge> 0x80000000 \<and>
      (if ?reg then \<not> ext2fs_has_feature_large_file (fs_super fs) else \<not> ext2fs_has_feature_largedir (fs_super fs))"
  define fs1 where "fs1 = fs\<lparr>fs_super := (if ?reg then ext2fs_set_feature_large_file (fs_super fs)
      else ext2fs_set_feature_largedir (fs_super fs))\<rparr>"
  define fs2 where "fs2 = (if dirty then ext2fs_mark_super_dirty
      (if s_rev_level (fs_super fs1) = 0 then ext2fs_update_dynamic_rev fs1 else fs1) else fs)"
  have eq: "ext2fs_inode_size_set fs inode sz =
      (if sz < 0 then (EINVAL, fs, inode)
       else if sz \<ge> 0x80000000 \<and> \<not> ?reg \<and> \<not> ?dir then (EXT2_ET_FILE_TOO_BIG, fs, inode)
       else (E_OK, fs2, inode\<lparr>i_size := ucast (?w AND 0xffffffff), i_size_high := ucast (drop_bit 32 ?w)\<rparr>))"
    unfolding ext2fs_inode_size_set_def fs2_def fs1_def dirty_def Let_def by simp
  have halves: "int (unat (join64 (ucast (?w AND 0xffffffff)) (ucast (drop_bit 32 ?w)))) = sz" if "0 \<le> sz"
  proof -
    have "join64 (ucast (?w AND 0xffffffff)) (ucast (drop_bit 32 ?w)) = ?w"
      unfolding ucast_low_half by (rule join64_halves)
    moreover have "int (unat ?w) = sz" using that sz by (simp add: uint_nat [symmetric] of_nat_unat uint_word_of_int)
    ultimately show ?thesis by simp
  qed
  have same: "sz < 2147483648 \<Longrightarrow> fs2 = fs" by (simp add: fs2_def dirty_def)
  have feat: "sz \<ge> 2147483648 \<Longrightarrow> ?reg \<Longrightarrow> ext2fs_has_feature_large_file (fs_super fs2)"
      "sz \<ge> 2147483648 \<Longrightarrow> ?dir \<Longrightarrow> ext2fs_has_feature_largedir (fs_super fs2)"
    by (cases dirty; simp add: fs2_def fs1_def dirty_def)+
  have dirty: "fs_super fs2 \<noteq> fs_super fs \<longrightarrow> s_rev_level (fs_super fs2) > 0 \<and> fs_flags fs2 AND 0x04 \<noteq> 0"
    by (cases dirty) (simp_all add: fs2_def word_gt_0)
  show ?thesis
  proof (cases "sz < 0 \<or> sz \<ge> 0x80000000 \<and> \<not> ?reg \<and> \<not> ?dir")
    case True
    with r eq show ?thesis by (auto split: if_splits)
  next
    case False
    with r eq have "c = E_OK" "fs' = fs2"
      "inode' = inode\<lparr>i_size := ucast (?w AND 0xffffffff), i_size_high := ucast (drop_bit 32 ?w)\<rparr>" by auto
    with False halves same feat dirty show ?thesis by auto
  qed
qed

theorem inode_size_set_correct_witness:
  "\<exists>c fs' inode'. ext2fs_inode_size_set fs_example inode_example 6000000000 = (c, fs', inode')
    \<and> c = E_OK \<and> int (unat (join64 (i_size inode') (i_size_high inode'))) = 6000000000
    \<and> ext2fs_has_feature_large_file (fs_super fs')"
proof -
  obtain c fs' inode' where r: "ext2fs_inode_size_set fs_example inode_example 6000000000 = (c, fs', inode')"
    by (metis prod_cases3)
  have reg: "i_mode inode_example AND 0xF000 = 0x8000" by (simp add: inode_example_def)
  from inode_size_set_correct [OF _ r] reg r show ?thesis by simp
qed

end
