(* ===== verification/Bg_Layout.thy ===== *)
theory Bg_Layout
  imports Blknum
begin

unbundle bit_operations_syntax

text \<open>
  Where the copies of the superblock and of the group descriptors are: \<^verbatim>\<open>test_root\<close>,
  \<^verbatim>\<open>ext2fs_bg_has_super\<close> and \<^verbatim>\<open>ext2fs_super_and_bgd_loc2\<close> of \<^verbatim>\<open>lib/ext2fs/closefs.c\<close>, used when the metadata
  is written; \<^verbatim>\<open>ext2fs_descriptor_block_loc2\<close> of \<^verbatim>\<open>lib/ext2fs/openfs.c\<close>, used when it is read; and the
  enumeration of the groups with backups, \<^verbatim>\<open>list_backups\<close> of \<^verbatim>\<open>lib/ext2fs/res_gdt.c\<close>.
\<close>

subsection \<open>Groups with a superblock\<close>

text \<open>The loop \<^verbatim>\<open>while (1)\<close>: no result when it does not end or divides by zero.\<close>

partial_function (option) test_root :: "u32 \<Rightarrow> u32 \<Rightarrow> bool ub" where
  [code]: "test_root a b =
     (if a < b then Some False
      else if a = b then Some True
      else if b = 0 then None
      else if a mod b \<noteq> 0 then Some False
      else test_root (a div b) b)"

definition ext2fs_bg_has_super :: "filsys \<Rightarrow> u32 \<Rightarrow> bool ub" where
  "ext2fs_bg_has_super fs grp =
     (if grp = 0 then Some True
      else if ext2fs_has_feature_sparse_super2 (fs_super fs)
      then Some (grp = s_backup_bgs_0 (fs_super fs) \<or> grp = s_backup_bgs_1 (fs_super fs))
      else if grp \<le> 1 \<or> \<not> ext2fs_has_feature_sparse_super (fs_super fs) then Some True
      else if grp AND 1 = 0 then Some False
      else do {
        t3 \<leftarrow> test_root grp 3;
        if t3 then Some True
        else do {
          t5 \<leftarrow> test_root grp 5;
          if t5 then Some True else test_root grp 7
        }
      })"

subsection \<open>Locations of the metadata of a group\<close>

text \<open>The results: the superblock, the old and the new style descriptor block, and the number of blocks used.\<close>

definition ext2fs_super_and_bgd_loc2 :: "filsys \<Rightarrow> u32 \<Rightarrow> (u64 \<times> u64 \<times> u64 \<times> u32) ub" where
  "ext2fs_super_and_bgd_loc2 fs grp = do {
     let super = fs_super fs;
     let group_block = ext2fs_group_first_block2 fs grp;
     let group_block = (if group_block = 0 \<and> fs_blocksize fs = 1024 then 1 else group_block);
     let old_desc_blocks = (if ext2fs_has_feature_meta_bg super then ucast (s_first_meta_bg super)
                            else fs_desc_blocks fs + ucast (s_reserved_gdt_blocks super));
     has_super \<leftarrow> ext2fs_bg_has_super fs grp;
     let super_blk = (if has_super then group_block else 0);
     let numblocks = (if has_super then 1 else 0 :: u32);
     dpb \<leftarrow> EXT2_DESC_PER_BLOCK super;
     let meta_bg_size = (of_nat dpb :: u32);
     if meta_bg_size = 0 then None
     else do {
       let meta_bg = grp div meta_bg_size;
       if \<not> ext2fs_has_feature_meta_bg super \<or> meta_bg < s_first_meta_bg super then
         if has_super then Some (super_blk, group_block + 1, 0, numblocks + ucast old_desc_blocks)
         else Some (super_blk, 0, 0, numblocks)
       else if grp mod meta_bg_size = 0 \<or> grp mod meta_bg_size = 1 \<or> grp mod meta_bg_size = meta_bg_size - 1
       then Some (super_blk, 0, group_block + (if has_super then 1 else 0), numblocks + 1)
       else Some (super_blk, 0, 0, numblocks)
     }
   }"

text \<open>The older interface: the locations cut to 32 bits, the meta group, and the number of free blocks.\<close>

definition ext2fs_super_and_bgd_loc :: "filsys \<Rightarrow> u32 \<Rightarrow> (u32 \<times> u32 \<times> u32 \<times> u32 \<times> u32) ub" where
  "ext2fs_super_and_bgd_loc fs grp = do {
     (super_blk, old_desc_blk, new_desc_blk, used_blks) \<leftarrow> ext2fs_super_and_bgd_loc2 fs grp;
     numblocks \<leftarrow> ext2fs_group_blocks_count fs grp;
     dpb \<leftarrow> EXT2_DESC_PER_BLOCK (fs_super fs);
     Some (ucast super_blk, ucast old_desc_blk, ucast new_desc_blk, grp div of_nat dpb,
           numblocks - (2 + fs_inode_blocks_per_group fs + used_blks))
   }"

text \<open>\<^verbatim>\<open>bg\<close> is a signed integer: its successor has no meaning for the largest value.\<close>

definition ext2fs_descriptor_block_loc2 :: "filsys \<Rightarrow> u64 \<Rightarrow> u32 \<Rightarrow> u64 ub" where
  "ext2fs_descriptor_block_loc2 fs group_block i = do {
     let super = fs_super fs;
     adjust \<leftarrow> (if i = 0 \<and> fs_blocksize fs = 1024
                then map_option (\<lambda>ratio. if ratio > 1 then 1 else 0) (EXT2FS_CLUSTER_RATIO fs) else Some 0);
     if \<not> ext2fs_has_feature_meta_bg super \<or> i < s_first_meta_bg super
     then Some (group_block + ucast i + 1 + adjust)
     else do {
       dpb \<leftarrow> EXT2_DESC_PER_BLOCK super;
       let bg = of_nat dpb * i;
       hs \<leftarrow> ext2fs_bg_has_super fs bg;
       let has_super = (if hs then 1 else 0);
       let ret_blk = ext2fs_group_first_block2 fs bg;
       if group_block \<noteq> ucast (s_first_data_block super)
          \<and> ret_blk + has_super + ucast (s_blocks_per_group super) < ext2fs_blocks_count super
       then if bg = 0x7fffffff then None
         else do {
           hs \<leftarrow> ext2fs_bg_has_super fs (bg + 1);
           Some (ret_blk + ucast (s_blocks_per_group super) + (if hs then 1 else 0) + adjust)
         }
       else Some (ret_blk + has_super + adjust)
     }
   }"

definition ext2fs_descriptor_block_loc :: "filsys \<Rightarrow> u32 \<Rightarrow> u32 \<Rightarrow> u32 ub" where
  "ext2fs_descriptor_block_loc fs group_block i =
     map_option ucast (ext2fs_descriptor_block_loc2 fs (ucast group_block) i)"

subsection \<open>Enumeration of the groups with backups\<close>

text \<open>The counters \<^verbatim>\<open>three\<close>, \<^verbatim>\<open>five\<close> and \<^verbatim>\<open>seven\<close> are passed by reference: the group and the new counters.\<close>

definition list_backups :: "filsys \<Rightarrow> u32 \<times> u32 \<times> u32 \<Rightarrow> u32 \<times> u32 \<times> u32 \<times> u32" where
  "list_backups fs = (\<lambda>(three, five, seven).
     let super = fs_super fs in
     if ext2fs_has_feature_sparse_super2 super then
       let first = (three = 1); three = (if first then 2 else three) in
       if first \<and> s_backup_bgs_0 super \<noteq> 0 then (s_backup_bgs_0 super, three, five, seven)
       else
         let second = (three = 2); three = (if second then 3 else three) in
         if second \<and> s_backup_bgs_1 super \<noteq> 0 then (s_backup_bgs_1 super, three, five, seven)
         else (fs_group_desc_count fs, three, five, seven)
     else if \<not> ext2fs_has_feature_sparse_super super then (three, three + 1, five, seven)
     else
       if five < three
       then if seven < five then (seven, three, five, seven * 7) else (five, three, five * 5, seven)
       else if seven < three then (seven, three, five, seven * 7) else (three, three * 3, five, seven))"

text \<open>The groups that the loop \<^verbatim>\<open>while ((grp = list_backups(...)) < fs->group_desc_count)\<close> goes through.\<close>

partial_function (option) backup_groups :: "filsys \<Rightarrow> u32 \<times> u32 \<times> u32 \<Rightarrow> u32 list ub" where
  [code]: "backup_groups fs st =
     (let (grp, st') = list_backups fs st in
      if grp < fs_group_desc_count fs then do {
        grps \<leftarrow> backup_groups fs st';
        Some (grp # grps)
      } else Some [])"

subsection \<open>Powers\<close>

lemma test_root_powers:
  assumes "2 \<le> unat b"
  shows "test_root a b = Some (\<exists>k > 0. unat a = unat b ^ k)"
proof (induction "unat a" arbitrary: a rule: less_induct)
  case less
  let ?a = "unat a" and ?b = "unat b"
  have b0: "b \<noteq> 0" using assms by auto
  consider "?a < ?b" | "?a = ?b" | "?b < ?a" "?a mod ?b \<noteq> 0" | "?b < ?a" "?a mod ?b = 0" by linarith
  then show ?case
  proof cases
    case 1
    have "?a \<noteq> ?b ^ k" if "0 < k" for k using 1 self_le_power [of ?b k] assms that by linarith
    with 1 show ?thesis by (subst test_root.simps) (auto simp: word_less_nat_alt)
  next
    case 2
    then have "a = b" by (simp add: word_unat_eq_iff)
    then show ?thesis by (subst test_root.simps) (auto intro: exI [of _ 1])
  next
    case 3
    have "?a \<noteq> ?b ^ k" if "0 < k" for k using 3 that by (metis dvd_imp_mod_0 dvd_power)
    moreover have "a mod b \<noteq> 0" using 3 by (auto simp: word_unat_eq_iff unat_mod)
    ultimately show ?thesis using 3 b0 by (subst test_root.simps) (auto simp: word_less_nat_alt)
  next
    case 4
    have q: "unat (a div b) = ?a div ?b" by (simp add: unat_div)
    have "?a div ?b < ?a" using 4 assms by simp
    then have IH: "test_root (a div b) b = Some (\<exists>k > 0. ?a div ?b = ?b ^ k)" using less [of "a div b"] q by simp
    have m: "?a = ?b * (?a div ?b)" using 4(2) by (metis dvd_mult_div_cancel mod_eq_0_iff_dvd)
    have "(\<exists>k > 0. ?a div ?b = ?b ^ k) \<longleftrightarrow> (\<exists>k > 0. ?a = ?b ^ k)"
    proof
      assume "\<exists>k > 0. ?a div ?b = ?b ^ k"
      then show "\<exists>k > 0. ?a = ?b ^ k" using m by (metis power_Suc zero_less_Suc)
    next
      assume "\<exists>k > 0. ?a = ?b ^ k"
      then obtain k where k: "0 < k" "?a = ?b ^ k" by blast
      then obtain j where j: "k = Suc j" by (cases k) auto
      have "0 < j" using 4(1) k j by (cases j) auto
      moreover have "?a div ?b = ?b ^ j" using k j assms by simp
      ultimately show "\<exists>k > 0. ?a div ?b = ?b ^ k" by blast
    qed
    moreover have "a mod b = 0" using 4(2) by (simp add: word_unat_eq_iff unat_mod)
    moreover have "\<not> a < b" "a \<noteq> b" using 4(1) by (auto simp: word_less_nat_alt)
    ultimately show ?thesis using IH b0 by (subst test_root.simps) simp
  qed
qed

text \<open>The numbers that are a power of 3, 5 or 7.\<close>

definition root_groups :: "nat set" where
  "root_groups = {n. \<exists>k. n = 3 ^ k \<or> n = 5 ^ k \<or> n = 7 ^ k}"

lemma root_groups_odd: "n \<in> root_groups \<Longrightarrow> odd n"
  by (auto simp: root_groups_def)

lemma root_groups_cases: "n \<in> root_groups \<longleftrightarrow> n = 1 \<or> (\<exists>k > 0. n = 3 ^ k) \<or> (\<exists>k > 0. n = 5 ^ k) \<or> (\<exists>k > 0. n = 7 ^ k)"
proof
  assume "n \<in> root_groups"
  then obtain k where "n = 3 ^ k \<or> n = 5 ^ k \<or> n = 7 ^ k" by (auto simp: root_groups_def)
  then show "n = 1 \<or> (\<exists>k > 0. n = 3 ^ k) \<or> (\<exists>k > 0. n = 5 ^ k) \<or> (\<exists>k > 0. n = 7 ^ k)" by (cases "k = 0") auto
next
  assume "n = 1 \<or> (\<exists>k > 0. n = 3 ^ k) \<or> (\<exists>k > 0. n = 5 ^ k) \<or> (\<exists>k > 0. n = 7 ^ k)"
  then show "n \<in> root_groups" unfolding root_groups_def by (auto intro: exI [of _ 0])
qed

definition has_super_spec :: "filsys \<Rightarrow> u32 \<Rightarrow> bool" where
  "has_super_spec fs grp \<longleftrightarrow> grp = 0 \<or>
     (if ext2fs_has_feature_sparse_super2 (fs_super fs)
      then grp \<in> {s_backup_bgs_0 (fs_super fs), s_backup_bgs_1 (fs_super fs)}
      else ext2fs_has_feature_sparse_super (fs_super fs) \<longrightarrow> unat grp \<in> root_groups)"

lemma and_1_even: "(w :: u32) AND 1 = 0 \<longleftrightarrow> even (unat w)"
proof -
  have "odd w \<longleftrightarrow> bit w 0" by (simp only: bit_0)
  also have "\<dots> \<longleftrightarrow> bit (unat w) 0" by (simp only: bit_unsigned_iff) simp
  also have "\<dots> \<longleftrightarrow> odd (unat w)" by (simp only: bit_0)
  finally have "even w \<longleftrightarrow> even (unat w)" by blast
  moreover have "w AND 1 = 0 \<longleftrightarrow> even w" by (simp only: and_one_eq even_iff_mod_2_eq_zero)
  ultimately show ?thesis by simp
qed

lemma super_spec: "ext2fs_bg_has_super fs grp = Some (has_super_spec fs grp)"
proof -
  have le1: "grp \<le> 1 \<longleftrightarrow> unat grp = 0 \<or> unat grp = 1" by (auto simp: word_le_nat_alt)
  have z: "grp = 0 \<longleftrightarrow> unat grp = 0" by (simp add: unat_eq_zero)
  define P where "P b \<longleftrightarrow> (\<exists>k > 0. unat grp = b ^ k)" for b
  have t: "test_root grp 3 = Some (P 3)" "test_root grp 5 = Some (P 5)" "test_root grp 7 = Some (P 7)"
    unfolding P_def using test_root_powers [of 3 grp] test_root_powers [of 5 grp] test_root_powers [of 7 grp] by simp_all
  have odd: "even (unat grp) \<Longrightarrow> unat grp \<notin> root_groups" using root_groups_odd by auto
  have one: "1 \<in> root_groups" by (simp add: root_groups_cases)
  show ?thesis
  proof (cases "grp = 0 \<or> ext2fs_has_feature_sparse_super2 (fs_super fs) \<or> grp \<le> 1
      \<or> \<not> ext2fs_has_feature_sparse_super (fs_super fs) \<or> grp AND 1 = 0")
    case True
    then show ?thesis using le1 z one odd and_1_even [of grp]
      by (auto simp: ext2fs_bg_has_super_def has_super_spec_def)
  next
    case False
    then have "unat grp \<in> root_groups \<longleftrightarrow> P 3 \<or> P 5 \<or> P 7"
      using le1 root_groups_cases [of "unat grp"] by (simp add: P_def)
    with False t show ?thesis by (simp add: ext2fs_bg_has_super_def has_super_spec_def)
  qed
qed

text \<open>
  A group has a superblock exactly when it is group 0, or, with sparse_super2, one of the two recorded
  backup groups, or, with sparse_super, its number is a power of 3, 5 or 7 (1 included), or always without
  these features. The computation always ends.
\<close>

theorem bg_has_super_iff: "ext2fs_bg_has_super fs grp = Some (has_super_spec fs grp)"
  by (rule super_spec)

subsection \<open>The enumeration\<close>

text \<open>The powers that are still to come when the counters are at the given exponents.\<close>

definition roots_from :: "nat \<Rightarrow> nat \<Rightarrow> nat \<Rightarrow> nat set" where
  "roots_from i j k = {3 ^ x | x. i \<le> x} \<union> {5 ^ x | x. j \<le> x} \<union> {7 ^ x | x. k \<le> x}"

lemma powers_from_step: "{b ^ x | x. i \<le> x} = insert (b ^ i) {b ^ x | x. Suc i \<le> x}" for b :: nat
  using le_eq_less_or_eq by auto

lemma powers_above:
  assumes "2 \<le> (b :: nat)" "n \<in> {b ^ x | x. i \<le> x}"
  shows "b ^ i \<le> n"
  using assms by (auto intro: power_increasing)

lemma roots_from_above:
  assumes "n \<in> roots_from i j k" "m \<le> 3 ^ i" "m \<le> 5 ^ j" "m \<le> 7 ^ k"
  shows "m \<le> n"
proof -
  have "3 ^ i \<le> n \<or> 5 ^ j \<le> n \<or> 7 ^ k \<le> n"
    using assms(1) powers_above [of 3 n i] powers_above [of 5 n j] powers_above [of 7 n k] unfolding roots_from_def
    by (simp only: Un_iff) auto
  with assms(2-4) show ?thesis by linarith
qed

lemma coprime_powers_neq:
  assumes "coprime (a :: nat) b" "0 < j" "2 \<le> b"
  shows "a ^ i \<noteq> b ^ j"
proof
  assume "a ^ i = b ^ j"
  moreover have "coprime (a ^ i) (b ^ j)" using assms(1) by simp
  ultimately have "b ^ j = 1" by simp
  with assms(2,3) show False by simp
qed

lemma coprime_357: "coprime (3 :: nat) 5" "coprime (3 :: nat) 7" "coprime (5 :: nat) 7"
  by code_simp+

lemma root_powers_distinct:
  assumes "0 < j" "0 < k"
  shows "(3 :: nat) ^ i \<noteq> 5 ^ j" "(3 :: nat) ^ i \<noteq> 7 ^ k" "(5 :: nat) ^ j \<noteq> 7 ^ k"
  using coprime_powers_neq [OF coprime_357(1) assms(1)] coprime_powers_neq [OF coprime_357(2) assms(2)]
    coprime_powers_neq [OF coprime_357(3) assms(2)] by auto

lemma unat_mult_u32: "unat a * unat b < 4294967296 \<Longrightarrow> unat (a * b) = unat a * unat (b :: u32)"
  by (simp add: unat_word_ariths)

text \<open>
  One call: the least of the remaining powers is returned, and the counters move to the next power. The
  group must be small enough that the product does not wrap around.
\<close>

lemma list_backups_step:
  assumes fs: "\<not> ext2fs_has_feature_sparse_super2 (fs_super fs)" "ext2fs_has_feature_sparse_super (fs_super fs)"
    and st: "unat a = 3 ^ i" "unat b = 5 ^ j" "unat c = 7 ^ k" "0 < j" "0 < k"
    and r: "list_backups fs (a, b, c) = (grp, a', b', c')"
  shows "unat grp = min (3 ^ i) (min (5 ^ j) (7 ^ k))"
    and "unat grp \<le> 613566756 \<Longrightarrow> \<exists>i' j' k'. unat a' = 3 ^ i' \<and> unat b' = 5 ^ j' \<and> unat c' = 7 ^ k' \<and> 0 < j' \<and> 0 < k'
      \<and> roots_from i j k = insert (unat grp) (roots_from i' j' k') \<and> (\<forall>n \<in> roots_from i' j' k'. unat grp < n)"
proof -
  note d = root_powers_distinct(1,2) [OF st(4,5), of i] root_powers_distinct(3) [OF st(4,5)]
  have lt: "b < a \<longleftrightarrow> (5 :: nat) ^ j < 3 ^ i" "c < b \<longleftrightarrow> (7 :: nat) ^ k < 5 ^ j" "c < a \<longleftrightarrow> (7 :: nat) ^ k < 3 ^ i"
    using st by (simp_all add: word_less_nat_alt)
  have eq: "(grp, a', b', c') = (if b < a then if c < b then (c, a, b, c * 7) else (b, a, b * 5, c)
      else if c < a then (c, a, b, c * 7) else (a, a * 3, b, c))"
    using r fs by (simp add: list_backups_def)
  show "unat grp = min (3 ^ i) (min (5 ^ j) (7 ^ k))"
    using eq st lt by (auto simp: min_def split: if_splits)
  assume small: "unat grp \<le> 613566756"
  have gt: "\<forall>n \<in> roots_from i' j' k'. unat grp < n"
    if "unat grp < 3 ^ i'" "unat grp < 5 ^ j'" "unat grp < 7 ^ k'" for i' j' k'
    using roots_from_above [of _ i' j' k' "Suc (unat grp)"] that by (auto simp: Suc_le_eq)
  have lt2: "x ^ n < x ^ Suc n" if "2 \<le> x" for x n :: nat using that by simp
  consider "grp = a" "a' = a * 3" "b' = b" "c' = c" "(3 :: nat) ^ i < 5 ^ j" "(3 :: nat) ^ i < 7 ^ k"
    | "grp = b" "a' = a" "b' = b * 5" "c' = c" "(5 :: nat) ^ j < 3 ^ i" "(5 :: nat) ^ j < 7 ^ k"
    | "grp = c" "a' = a" "b' = b" "c' = c * 7" "(7 :: nat) ^ k < 3 ^ i" "(7 :: nat) ^ k < 5 ^ j"
    using eq lt d by (auto split: if_splits)
  then show "\<exists>i' j' k'. unat a' = 3 ^ i' \<and> unat b' = 5 ^ j' \<and> unat c' = 7 ^ k' \<and> 0 < j' \<and> 0 < k'
      \<and> roots_from i j k = insert (unat grp) (roots_from i' j' k') \<and> (\<forall>n \<in> roots_from i' j' k'. unat grp < n)"
  proof cases
    case 1
    have "unat a' = 3 ^ Suc i" using 1 small st by (simp add: unat_mult_u32)
    moreover have "roots_from i j k = insert (unat grp) (roots_from (Suc i) j k)"
      unfolding roots_from_def powers_from_step [of 3 i] using 1(1) st by simp
    moreover have "\<forall>n \<in> roots_from (Suc i) j k. unat grp < n"
      using 1 st lt2 [of 3 i] by (intro gt) simp_all
    ultimately show ?thesis using 1(2-4) st by blast
  next
    case 2
    have "unat b' = 5 ^ Suc j" using 2 small st by (simp add: unat_mult_u32)
    moreover have "roots_from i j k = insert (unat grp) (roots_from i (Suc j) k)"
      unfolding roots_from_def powers_from_step [of 5 j] using 2(1) st by simp
    moreover have "\<forall>n \<in> roots_from i (Suc j) k. unat grp < n"
      using 2 st lt2 [of 5 j] by (intro gt) simp_all
    ultimately show ?thesis using 2(2-4) st by blast
  next
    case 3
    have "unat c' = 7 ^ Suc k" using 3 small st by (simp add: unat_mult_u32)
    moreover have "roots_from i j k = insert (unat grp) (roots_from i j (Suc k))"
      unfolding roots_from_def powers_from_step [of 7 k] using 3(1) st by simp
    moreover have "\<forall>n \<in> roots_from i j (Suc k). unat grp < n"
      using 3 st lt2 [of 7 k] by (intro gt) simp_all
    ultimately show ?thesis using 3(2-4) st by blast
  qed
qed

lemma backup_groups_correct:
  assumes fs: "\<not> ext2fs_has_feature_sparse_super2 (fs_super fs)" "ext2fs_has_feature_sparse_super (fs_super fs)"
    and small: "unat (fs_group_desc_count fs) \<le> 613566756"
    and st: "unat a = 3 ^ i" "unat b = 5 ^ j" "unat c = 7 ^ k" "0 < j" "0 < k"
  shows "\<exists>xs. backup_groups fs (a, b, c) = Some xs \<and> sorted_wrt (<) xs
    \<and> unat ` set xs = {n \<in> roots_from i j k. n < unat (fs_group_desc_count fs)}"
  using st
proof (induction "card {n \<in> roots_from i j k. n < unat (fs_group_desc_count fs)}" arbitrary: a b c i j k rule: less_induct)
  case less
  let ?N = "unat (fs_group_desc_count fs)"
  obtain grp a' b' c' where r: "list_backups fs (a, b, c) = (grp, a', b', c')" by (metis prod_cases4)
  note step = list_backups_step [OF fs less.prems r]
  have m: "unat grp \<le> n" if "n \<in> roots_from i j k" for n
    using roots_from_above [OF that, of "unat grp"] step(1) by simp
  show ?case
  proof (cases "grp < fs_group_desc_count fs")
    case False
    then have "{n \<in> roots_from i j k. n < ?N} = {}" using m by (fastforce simp: word_less_nat_alt)
    moreover have "backup_groups fs (a, b, c) = Some []"
      using False by (subst backup_groups.simps) (simp add: r)
    ultimately show ?thesis by simp
  next
    case True
    then have gN: "unat grp < ?N" by (simp add: word_less_nat_alt)
    with step(2) small obtain i' j' k' where
      n: "unat a' = 3 ^ i'" "unat b' = 5 ^ j'" "unat c' = 7 ^ k'" "0 < j'" "0 < k'"
        "roots_from i j k = insert (unat grp) (roots_from i' j' k')" "\<forall>n \<in> roots_from i' j' k'. unat grp < n" by auto
    let ?S = "{n \<in> roots_from i j k. n < ?N}" and ?S' = "{n \<in> roots_from i' j' k'. n < ?N}"
    have S: "?S = insert (unat grp) ?S'" using n(6) gN by auto
    have "unat grp \<notin> ?S'" using n(7) by auto
    then have "card ?S' < card ?S" unfolding S by simp
    from less.hyps [OF this n(1-5)] obtain xs where
      xs: "backup_groups fs (a', b', c') = Some xs" "sorted_wrt (<) xs" "unat ` set xs = ?S'" by blast
    have "grp < x" if "x \<in> set xs" for x
    proof -
      have "unat x \<in> ?S'" using that xs(3) by blast
      then show ?thesis using n(7) by (simp add: word_less_nat_alt)
    qed
    moreover have "backup_groups fs (a, b, c) = Some (grp # xs)"
      using True xs(1) by (subst backup_groups.simps) (simp add: r)
    ultimately show ?thesis using xs(2,3) S by simp
  qed
qed

lemma roots_from_start: "roots_from 0 1 1 = root_groups"
proof (rule set_eqI)
  fix n :: nat
  have "(\<exists>x. n = 3 ^ x) \<longleftrightarrow> n = 1 \<or> (\<exists>x > 0. n = 3 ^ x)" by (metis gr0I power_0)
  then show "n \<in> roots_from 0 1 1 \<longleftrightarrow> n \<in> root_groups"
    by (auto simp: roots_from_def root_groups_cases Suc_le_eq)
qed

text \<open>
  (C35) With sparse_super and at most 613566756 groups, the loop over the backup groups, started with the
  counters 1, 5 and 7 as its comment demands, ends, and goes in ascending order through exactly those
  groups other than 0 that have a backup of the superblock.
\<close>

theorem backup_groups_enumerate:
  assumes fs: "\<not> ext2fs_has_feature_sparse_super2 (fs_super fs)" "ext2fs_has_feature_sparse_super (fs_super fs)"
    and small: "unat (fs_group_desc_count fs) \<le> 613566756"
  shows "\<exists>xs. backup_groups fs (1, 5, 7) = Some xs \<and> sorted_wrt (<) xs
    \<and> set xs = {g. g \<noteq> 0 \<and> g < fs_group_desc_count fs \<and> ext2fs_bg_has_super fs g = Some True}"
proof -
  from backup_groups_correct [OF fs small, of 1 0 5 1 7 1] obtain xs where
    xs: "backup_groups fs (1, 5, 7) = Some xs" "sorted_wrt (<) xs"
      "unat ` set xs = {n \<in> root_groups. n < unat (fs_group_desc_count fs)}"
    by (auto simp: roots_from_start [simplified])
  have "g \<in> set xs \<longleftrightarrow> unat g \<in> unat ` set xs" for g
  proof
    assume "unat g \<in> unat ` set xs"
    then obtain x where "x \<in> set xs" "unat g = unat x" by auto
    moreover from this have "g = x" by (simp add: word_unat_eq_iff)
    ultimately show "g \<in> set xs" by simp
  qed simp
  moreover have "0 \<notin> root_groups" using root_groups_odd by fastforce
  ultimately have "set xs = {g. g \<noteq> 0 \<and> g < fs_group_desc_count fs \<and> has_super_spec fs g}"
    using fs xs(3) by (auto simp: has_super_spec_def word_less_nat_alt)
  with xs(1,2) super_spec show ?thesis by auto
qed

theorem backup_groups_enumerate_witness:
  "\<exists>xs. backup_groups (fs_example\<lparr>fs_group_desc_count := 100\<rparr>) (1, 5, 7) = Some xs \<and> sorted_wrt (<) xs
    \<and> set xs = {g. g \<noteq> 0 \<and> g < fs_group_desc_count (fs_example\<lparr>fs_group_desc_count := 100\<rparr>)
        \<and> ext2fs_bg_has_super (fs_example\<lparr>fs_group_desc_count := 100\<rparr>) g = Some True}"
proof (rule backup_groups_enumerate)
  show "\<not> ext2fs_has_feature_sparse_super2 (fs_super (fs_example\<lparr>fs_group_desc_count := 100\<rparr>))" by code_simp
  show "ext2fs_has_feature_sparse_super (fs_super (fs_example\<lparr>fs_group_desc_count := 100\<rparr>))" by code_simp
  show "unat (fs_group_desc_count (fs_example\<lparr>fs_group_desc_count := 100\<rparr>)) \<le> 613566756" by simp
qed

subsection \<open>Readers and writers agree on the locations\<close>

text \<open>
  In a file system with meta block groups, the descriptor block with number \<open>i\<close> that the code which
  opens a file system reads, outside the old-style part, is the new-style descriptor block of the first
  group of meta group \<open>i\<close> that the code which writes a file system uses. The hypotheses say that the
  first group of the meta group exists, and that block 0 is reserved in a file system with blocks of 1024
  bytes: the first data block is 0 only with clusters.
\<close>

theorem meta_bg_locations_agree:
  assumes meta: "ext2fs_has_feature_meta_bg (fs_super fs)" "s_first_meta_bg (fs_super fs) \<le> i"
    and geo: "fs_geometry_ok fs"
    and dpb: "EXT2_DESC_PER_BLOCK (fs_super fs) = Some m" "2 \<le> m" "m * unat i < unat (fs_group_desc_count fs)"
    and boot: "fs_blocksize fs = 1024 \<Longrightarrow> s_first_data_block (fs_super fs) = 0 \<longleftrightarrow> fs_cluster_ratio_bits fs \<noteq> 0"
    and ratio: "fs_cluster_ratio_bits fs \<le> 30"
  shows "\<exists>super used loc. ext2fs_super_and_bgd_loc2 fs (of_nat m * i) = Some (super, 0, loc, used)
    \<and> ext2fs_descriptor_block_loc2 fs (ucast (s_first_data_block (fs_super fs))) i = Some loc"
proof -
  let ?g = "of_nat m * i :: u32" and ?F = "s_first_data_block (fs_super fs)"
  have i0: "m \<le> m * unat i" if "unat i \<noteq> 0" using that by simp
  have m32: "m < 4294967296"
  proof (cases "i = 0")
    case False
    then have "unat i \<noteq> 0" by (simp add: unat_eq_zero)
    from i0 [OF this] have "m \<le> m * unat i" .
    then show ?thesis using dpb(3) unat_u32_less [of "fs_group_desc_count fs"] by linarith
  next
    case True
    from dpb(1) obtain bs where "EXT2_BLOCK_SIZE (fs_super fs) = Some bs" "m = bs div EXT2_DESC_SIZE (fs_super fs)"
      by (auto simp: EXT2_DESC_PER_BLOCK_def split: bind_splits if_splits)
    moreover have "(2 :: nat) ^ x \<le> 2 ^ 20" if "x \<le> 20" for x by (rule power_increasing) (use that in simp_all)
    ultimately have "bs \<le> 1073741824"
      by (auto simp: EXT2_BLOCK_SIZE_def split: if_splits)
    with \<open>m = bs div EXT2_DESC_SIZE (fs_super fs)\<close>
    show ?thesis using div_le_dividend [of bs "EXT2_DESC_SIZE (fs_super fs)"] by linarith
  qed
  then have um: "unat (of_nat m :: u32) = m" by (rule unat_of_nat_u32)
  have "m * unat i < 4294967296" using dpb(3) unat_u32_less [of "fs_group_desc_count fs"] by linarith
  then have ug: "unat ?g = m * unat i" by (subst unat_mult_u32) (simp_all only: um)
  have m0: "(of_nat m :: u32) \<noteq> 0" using um dpb(2) by auto
  have q: "?g div of_nat m = i" "?g mod of_nat m = 0"
    using ug um dpb(2) by (simp_all add: word_unat_eq_iff unat_div unat_mod)
  have gN: "?g < fs_group_desc_count fs" using ug dpb(3) by (simp add: word_less_nat_alt)
  note first = group_first_last(1) [OF geo gN]
  have bpg: "0 < unat (s_blocks_per_group (fs_super fs))" by (rule fs_geometryD [OF geo])
  have zero: "ext2fs_group_first_block2 fs ?g = 0 \<longleftrightarrow> i = 0 \<and> ?F = 0"
    using first ug bpg dpb(2) by (auto simp: word_unat_eq_iff)
  define adj :: u64 where "adj = (if i = 0 \<and> fs_blocksize fs = 1024 \<and> fs_cluster_ratio_bits fs \<noteq> 0 then 1 else 0)"
  have adj: "(if i = 0 \<and> fs_blocksize fs = 1024 then map_option (\<lambda>ratio. if ratio > 1 then 1 else 0) (EXT2FS_CLUSTER_RATIO fs)
      else Some 0) = Some adj"
    using ratio one_less_power [of "2 :: nat" "fs_cluster_ratio_bits fs"] by (auto simp: adj_def EXT2FS_CLUSTER_RATIO_def)
  have gb: "(if ext2fs_group_first_block2 fs ?g = 0 \<and> fs_blocksize fs = 1024 then 1 else ext2fs_group_first_block2 fs ?g)
      = ext2fs_group_first_block2 fs ?g + adj"
    using zero boot by (auto simp: adj_def)
  have nm: "\<not> (\<not> ext2fs_has_feature_meta_bg (fs_super fs) \<or> i < s_first_meta_bg (fs_super fs))" using meta by auto
  let ?h = "if has_super_spec fs ?g then 1 else 0 :: u64"
  have "ext2fs_descriptor_block_loc2 fs (ucast ?F) i = Some (ext2fs_group_first_block2 fs ?g + ?h + adj)"
    unfolding ext2fs_descriptor_block_loc2_def Let_def adj using nm by (simp add: dpb(1) super_spec)
  moreover have "\<exists>super used. ext2fs_super_and_bgd_loc2 fs ?g
      = Some (super, 0, ext2fs_group_first_block2 fs ?g + adj + ?h, used)"
    unfolding ext2fs_super_and_bgd_loc2_def Let_def gb using nm m0 by (simp add: dpb(1) super_spec q)
  moreover have "ext2fs_group_first_block2 fs ?g + adj + ?h = ext2fs_group_first_block2 fs ?g + ?h + adj"
    by (simp only: add.assoc add.commute [of adj])
  ultimately show ?thesis by metis
qed

definition fs_meta_example :: filsys where
  "fs_meta_example = fs_example\<lparr>fs_super := (fs_super fs_example)\<lparr>s_feature_incompat := 0x90, s_desc_size := 512\<rparr>\<rparr>"

theorem meta_bg_locations_agree_witness:
  "\<exists>super used loc. ext2fs_super_and_bgd_loc2 fs_meta_example (of_nat 2 * 1) = Some (super, 0, loc, used)
    \<and> ext2fs_descriptor_block_loc2 fs_meta_example (ucast (s_first_data_block (fs_super fs_meta_example))) 1 = Some loc"
proof (rule meta_bg_locations_agree)
  show "ext2fs_has_feature_meta_bg (fs_super fs_meta_example)" by code_simp
  show "s_first_meta_bg (fs_super fs_meta_example) \<le> 1" by code_simp
  show "fs_geometry_ok fs_meta_example" by code_simp
  show "EXT2_DESC_PER_BLOCK (fs_super fs_meta_example) = Some 2"
    by (simp add: EXT2_DESC_PER_BLOCK_def EXT2_BLOCK_SIZE_def EXT2_DESC_SIZE_def fs_meta_example_def fs_example_def
        ext2fs_has_feature_64bit_def)
qed (simp_all add: fs_meta_example_def fs_example_def)

text \<open>
  In a file system with blocks of 1024 bytes, clusters and old-style descriptors,
  \<^verbatim>\<open>ext2fs_descriptor_block_loc2\<close> returns the same location for the descriptor blocks 0 and 1: the
  adjustment for the reserved block 0 is made for the first descriptor block only.
\<close>

theorem descriptor_locations_collide:
  assumes "fs_blocksize fs = 1024" "0 < fs_cluster_ratio_bits fs" "fs_cluster_ratio_bits fs \<le> 30"
    and "\<not> ext2fs_has_feature_meta_bg (fs_super fs)"
  shows "ext2fs_descriptor_block_loc2 fs group_block 0 = Some (group_block + 2)
    \<and> ext2fs_descriptor_block_loc2 fs group_block 1 = Some (group_block + 2)"
  using assms one_less_power [of "2 :: nat" "fs_cluster_ratio_bits fs"]
  by (simp add: ext2fs_descriptor_block_loc2_def EXT2FS_CLUSTER_RATIO_def Let_def)

theorem descriptor_locations_collide_witness:
  "ext2fs_descriptor_block_loc2 (fs_example\<lparr>fs_cluster_ratio_bits := 4\<rparr>) 0 0 = Some (0 + 2)
    \<and> ext2fs_descriptor_block_loc2 (fs_example\<lparr>fs_cluster_ratio_bits := 4\<rparr>) 0 1 = Some (0 + 2)"
  by (rule descriptor_locations_collide) (simp_all add: fs_example_def ext2fs_has_feature_meta_bg_def)

end
