(* ===== verification/Bitmaps.thy ===== *)
theory Bitmaps
  imports Gen_Bitmap64 Blknum
begin

unbundle bit_operations_syntax

text \<open>
  The inode and block bitmaps of a file system, \<^verbatim>\<open>lib/ext2fs/bitmaps.c\<close>: which numbers a new bitmap covers,
  and the wrappers that hand a bitmap to \<^verbatim>\<open>gen_bitmap64.c\<close>, or to \<^verbatim>\<open>gen_bitmap.c\<close> for the interfaces from
  before 64-bit block numbers. The assignment of the function pointer \<^verbatim>\<open>fs->write_bitmaps\<close> is left out.
\<close>

subsection \<open>Allocation\<close>

definition ext2fs_allocate_inode_bitmap ::
    "bool \<Rightarrow> bool \<Rightarrow> bool \<Rightarrow> 'p bitmap_ops \<Rightarrow> 'p \<Rightarrow> filsys \<Rightarrow> string option \<Rightarrow> (errcode + 'p gbitmap) ub" where
  "ext2fs_allocate_inode_bitmap ok1 ok2 ok3 ops null fs descr =
     (if fs_magic fs \<noteq> EXT2_ET_MAGIC_EXT2FS_FILSYS then Some (Inl EXT2_ET_MAGIC_EXT2FS_FILSYS)
      else
        let start = 1; end = ucast (s_inodes_count (fs_super fs));
            real_end = ucast (s_inodes_per_group (fs_super fs)) * ucast (fs_group_desc_count fs)
        in if fs_flags fs AND 0x20000 \<noteq> 0
           then ext2fs_alloc_generic_bmap ok1 ok2 ops null (fs_cluster_ratio_bits fs) EXT2_ET_MAGIC_INODE_BITMAP64
                  start end real_end descr
           else if end > 0xffffffff \<or> real_end > 0xffffffff then Some (Inl EXT2_ET_CANT_USE_LEGACY_BITMAPS)
           else map_option (map_sum id Bitmap32)
                  (ext2fs_make_generic_bitmap ok1 ok2 ok3 EXT2_ET_MAGIC_INODE_BITMAP (ucast start) (ucast end)
                     (ucast real_end) descr None))"

text \<open>The first data block is shifted as a 32-bit number.\<close>

definition ext2fs_allocate_block_bitmap ::
    "bool \<Rightarrow> bool \<Rightarrow> bool \<Rightarrow> 'p bitmap_ops \<Rightarrow> 'p \<Rightarrow> filsys \<Rightarrow> string option \<Rightarrow> (errcode + 'p gbitmap) ub" where
  "ext2fs_allocate_block_bitmap ok1 ok2 ok3 ops null fs descr =
     (if fs_magic fs \<noteq> EXT2_ET_MAGIC_EXT2FS_FILSYS then Some (Inl EXT2_ET_MAGIC_EXT2FS_FILSYS)
      else if fs_cluster_ratio_bits fs \<ge> 32 then None
      else
        let start = ucast (drop_bit (fs_cluster_ratio_bits fs) (s_first_data_block (fs_super fs)));
            end = drop_bit (fs_cluster_ratio_bits fs) (ext2fs_blocks_count (fs_super fs) - 1);
            real_end = ucast (s_clusters_per_group (fs_super fs)) * ucast (fs_group_desc_count fs) - 1 + start
        in if fs_flags fs AND 0x20000 \<noteq> 0
           then ext2fs_alloc_generic_bmap ok1 ok2 ops null (fs_cluster_ratio_bits fs) EXT2_ET_MAGIC_BLOCK_BITMAP64
                  start end real_end descr
           else if end > 0xffffffff \<or> real_end > 0xffffffff then Some (Inl EXT2_ET_CANT_USE_LEGACY_BITMAPS)
           else map_option (map_sum id Bitmap32)
                  (ext2fs_make_generic_bitmap ok1 ok2 ok3 EXT2_ET_MAGIC_BLOCK_BITMAP (ucast start) (ucast end)
                     (ucast real_end) descr None))"

text \<open>The bitmap that the allocator returns has the 64-bit layout; its cluster shift is reset.\<close>

definition ext2fs_allocate_subcluster_bitmap ::
    "bool \<Rightarrow> bool \<Rightarrow> bool \<Rightarrow> 'p bitmap_ops \<Rightarrow> 'p \<Rightarrow> filsys \<Rightarrow> string option \<Rightarrow> (errcode + 'p gbitmap) ub" where
  "ext2fs_allocate_subcluster_bitmap ok1 ok2 ok3 ops null fs descr =
     (if fs_magic fs \<noteq> EXT2_ET_MAGIC_EXT2FS_FILSYS then Some (Inl EXT2_ET_MAGIC_EXT2FS_FILSYS)
      else if fs_cluster_ratio_bits fs = 0 then ext2fs_allocate_block_bitmap ok1 ok2 ok3 ops null fs descr
      else if fs_flags fs AND 0x20000 = 0 then Some (Inl EXT2_ET_CANT_USE_LEGACY_BITMAPS)
      else do {
        let start = ucast (s_first_data_block (fs_super fs));
        let end = ext2fs_blocks_count (fs_super fs) - 1;
        let real_end = ucast (s_blocks_per_group (fs_super fs)) * ucast (fs_group_desc_count fs) - 1 + start;
        r \<leftarrow> ext2fs_alloc_generic_bmap ok1 ok2 ops null (fs_cluster_ratio_bits fs) EXT2_ET_MAGIC_BLOCK_BITMAP64
               start end real_end descr;
        case r of
          Inl retval \<Rightarrow> Some (Inl retval)
        | Inr (Bitmap64 bmap64) \<Rightarrow> Some (Inr (Bitmap64 (bmap64\<lparr>bm_cluster_bits := 0\<rparr>)))
        | Inr _ \<Rightarrow> None
      })"

subsection \<open>Wrappers\<close>

text \<open>Fudging with an inode number: the old end is cut to 32 bits; \<open>junk\<close> is the indeterminate value of an old end that was not stored.\<close>

definition ext2fs_fudge_inode_bitmap_end ::
    "u32 \<Rightarrow> u64 \<Rightarrow> 'p gbitmap \<Rightarrow> u32 \<Rightarrow> (errcode \<times> u32 \<times> 'p gbitmap) ub" where
  "ext2fs_fudge_inode_bitmap_end junk junk64 bitmap end = do {
     (retval, tmp_oend, bitmap) \<leftarrow>
       ext2fs_fudge_generic_bmap_end junk bitmap EXT2_ET_FUDGE_INODE_BITMAP_END (ucast end);
     Some (retval, ucast (case tmp_oend of None \<Rightarrow> junk64 | Some v \<Rightarrow> v), bitmap)
   }"

definition ext2fs_fudge_block_bitmap_end2 ::
    "u32 \<Rightarrow> 'p gbitmap \<Rightarrow> u64 \<Rightarrow> (errcode \<times> u64 option \<times> 'p gbitmap) ub" where
  "ext2fs_fudge_block_bitmap_end2 junk bitmap end =
     ext2fs_fudge_generic_bmap_end junk bitmap EXT2_ET_FUDGE_BLOCK_BITMAP_END end"

definition ext2fs_clear_inode_bitmap :: "'p bitmap_ops \<Rightarrow> 'p gbitmap \<Rightarrow> 'p gbitmap ub" where
  "ext2fs_clear_inode_bitmap ops bitmap = ext2fs_clear_generic_bmap ops bitmap"

definition ext2fs_clear_block_bitmap :: "'p bitmap_ops \<Rightarrow> 'p gbitmap \<Rightarrow> 'p gbitmap ub" where
  "ext2fs_clear_block_bitmap ops bitmap = ext2fs_clear_generic_bmap ops bitmap"

definition ext2fs_compare_block_bitmap :: "'p bitmap_ops \<Rightarrow> 'p bitmap_ops \<Rightarrow> 'p gbitmap \<Rightarrow> 'p gbitmap \<Rightarrow> errcode ub" where
  "ext2fs_compare_block_bitmap ops1 ops2 bm1 bm2 = ext2fs_compare_generic_bmap ops1 ops2 EXT2_ET_NEQ_BLOCK_BITMAP bm1 bm2"

definition ext2fs_compare_inode_bitmap :: "'p bitmap_ops \<Rightarrow> 'p bitmap_ops \<Rightarrow> 'p gbitmap \<Rightarrow> 'p gbitmap \<Rightarrow> errcode ub" where
  "ext2fs_compare_inode_bitmap ops1 ops2 bm1 bm2 = ext2fs_compare_generic_bmap ops1 ops2 EXT2_ET_NEQ_INODE_BITMAP bm1 bm2"

definition ext2fs_resize_inode_bitmap2 ::
    "bool \<Rightarrow> (nat \<Rightarrow> u8) \<Rightarrow> 'p bitmap_ops \<Rightarrow> u64 \<Rightarrow> u64 \<Rightarrow> 'p gbitmap \<Rightarrow> (errcode \<times> 'p gbitmap) ub" where
  "ext2fs_resize_inode_bitmap2 ok junk ops new_end new_real_end bmap =
     ext2fs_resize_generic_bmap ok junk ops bmap new_end new_real_end"

definition ext2fs_resize_block_bitmap2 ::
    "bool \<Rightarrow> (nat \<Rightarrow> u8) \<Rightarrow> 'p bitmap_ops \<Rightarrow> u64 \<Rightarrow> u64 \<Rightarrow> 'p gbitmap \<Rightarrow> (errcode \<times> 'p gbitmap) ub" where
  "ext2fs_resize_block_bitmap2 ok junk ops new_end new_real_end bmap =
     ext2fs_resize_generic_bmap ok junk ops bmap new_end new_real_end"

definition ext2fs_set_inode_bitmap_range2 ::
    "'p bitmap_ops \<Rightarrow> 'p gbitmap \<Rightarrow> u64 \<Rightarrow> u32 \<Rightarrow> u8 list \<Rightarrow> (errcode \<times> 'p gbitmap) ub" where
  "ext2fs_set_inode_bitmap_range2 ops bmap start num inb = ext2fs_set_generic_bmap_range ops bmap start num inb"

definition ext2fs_get_inode_bitmap_range2 ::
    "'p bitmap_ops \<Rightarrow> 'p gbitmap \<Rightarrow> u64 \<Rightarrow> u32 \<Rightarrow> u8 list \<Rightarrow> (errcode \<times> u8 list) ub" where
  "ext2fs_get_inode_bitmap_range2 ops bmap start num outb = ext2fs_get_generic_bmap_range ops bmap start num outb"

definition ext2fs_set_block_bitmap_range2 ::
    "'p bitmap_ops \<Rightarrow> 'p gbitmap \<Rightarrow> u64 \<Rightarrow> u32 \<Rightarrow> u8 list \<Rightarrow> (errcode \<times> 'p gbitmap) ub" where
  "ext2fs_set_block_bitmap_range2 ops bmap start num inb = ext2fs_set_generic_bmap_range ops bmap start num inb"

definition ext2fs_get_block_bitmap_range2 ::
    "'p bitmap_ops \<Rightarrow> 'p gbitmap \<Rightarrow> u64 \<Rightarrow> u32 \<Rightarrow> u8 list \<Rightarrow> (errcode \<times> u8 list) ub" where
  "ext2fs_get_block_bitmap_range2 ops bmap start num outb = ext2fs_get_generic_bmap_range ops bmap start num outb"

text \<open>
  The interfaces from before 64-bit bitmaps call \<^verbatim>\<open>gen_bitmap.c\<close> with the magic number of the 32-bit layout,
  which a bitmap of the 64-bit layout does not have: they return the number they expected as the error.
\<close>

definition legacy_bitmap :: "'p gbitmap \<Rightarrow> 'r \<Rightarrow> (bitmap32 option \<Rightarrow> 'r ub) \<Rightarrow> 'r ub" where
  "legacy_bitmap g other f =
     (case g of NullBitmap \<Rightarrow> f None | Bitmap32 b \<Rightarrow> f (Some b) | Bitmap64 b \<Rightarrow> Some other)"

definition back_to_bitmap :: "errcode \<times> bitmap32 option \<Rightarrow> errcode \<times> 'p gbitmap" where
  "back_to_bitmap r = (fst r, case snd r of None \<Rightarrow> NullBitmap | Some b \<Rightarrow> Bitmap32 b)"

definition ext2fs_fudge_block_bitmap_end ::
    "'p gbitmap \<Rightarrow> u32 \<Rightarrow> (errcode \<times> u32 option \<times> 'p gbitmap) ub" where
  "ext2fs_fudge_block_bitmap_end bitmap end =
     legacy_bitmap bitmap (EXT2_ET_MAGIC_BLOCK_BITMAP, None, bitmap)
       (\<lambda>b. do {
          b \<leftarrow> b;
          let (retval, oend, b) = ext2fs_fudge_generic_bitmap_end b EXT2_ET_MAGIC_BLOCK_BITMAP EXT2_ET_FUDGE_BLOCK_BITMAP_END end;
          Some (retval, oend, Bitmap32 b)
        })"

definition ext2fs_resize_inode_bitmap ::
    "bool \<Rightarrow> (nat \<Rightarrow> u8) \<Rightarrow> u32 \<Rightarrow> u32 \<Rightarrow> 'p gbitmap \<Rightarrow> (errcode \<times> 'p gbitmap) ub" where
  "ext2fs_resize_inode_bitmap ok junk new_end new_real_end bmap =
     legacy_bitmap bmap (EXT2_ET_MAGIC_INODE_BITMAP, bmap)
       (\<lambda>b. map_option back_to_bitmap (ext2fs_resize_generic_bitmap ok junk EXT2_ET_MAGIC_INODE_BITMAP new_end new_real_end b))"

definition ext2fs_resize_block_bitmap ::
    "bool \<Rightarrow> (nat \<Rightarrow> u8) \<Rightarrow> u32 \<Rightarrow> u32 \<Rightarrow> 'p gbitmap \<Rightarrow> (errcode \<times> 'p gbitmap) ub" where
  "ext2fs_resize_block_bitmap ok junk new_end new_real_end bmap =
     legacy_bitmap bmap (EXT2_ET_MAGIC_BLOCK_BITMAP, bmap)
       (\<lambda>b. map_option back_to_bitmap (ext2fs_resize_generic_bitmap ok junk EXT2_ET_MAGIC_BLOCK_BITMAP new_end new_real_end b))"

definition ext2fs_set_inode_bitmap_range ::
    "'p gbitmap \<Rightarrow> u32 \<Rightarrow> u32 \<Rightarrow> u8 list \<Rightarrow> (errcode \<times> 'p gbitmap) ub" where
  "ext2fs_set_inode_bitmap_range bmap start num inb =
     legacy_bitmap bmap (EXT2_ET_MAGIC_INODE_BITMAP, bmap)
       (\<lambda>b. map_option back_to_bitmap (ext2fs_set_generic_bitmap_range b EXT2_ET_MAGIC_INODE_BITMAP start num inb))"

definition ext2fs_set_block_bitmap_range ::
    "'p gbitmap \<Rightarrow> u32 \<Rightarrow> u32 \<Rightarrow> u8 list \<Rightarrow> (errcode \<times> 'p gbitmap) ub" where
  "ext2fs_set_block_bitmap_range bmap start num inb =
     legacy_bitmap bmap (EXT2_ET_MAGIC_BLOCK_BITMAP, bmap)
       (\<lambda>b. map_option back_to_bitmap (ext2fs_set_generic_bitmap_range b EXT2_ET_MAGIC_BLOCK_BITMAP start num inb))"

definition ext2fs_get_inode_bitmap_range ::
    "'p gbitmap \<Rightarrow> u32 \<Rightarrow> u32 \<Rightarrow> u8 list \<Rightarrow> (errcode \<times> u8 list) ub" where
  "ext2fs_get_inode_bitmap_range bmap start num outb =
     legacy_bitmap bmap (EXT2_ET_MAGIC_INODE_BITMAP, outb)
       (\<lambda>b. ext2fs_get_generic_bitmap_range b EXT2_ET_MAGIC_INODE_BITMAP start num outb)"

definition ext2fs_get_block_bitmap_range ::
    "'p gbitmap \<Rightarrow> u32 \<Rightarrow> u32 \<Rightarrow> u8 list \<Rightarrow> (errcode \<times> u8 list) ub" where
  "ext2fs_get_block_bitmap_range bmap start num outb =
     legacy_bitmap bmap (EXT2_ET_MAGIC_BLOCK_BITMAP, outb)
       (\<lambda>b. ext2fs_get_generic_bitmap_range b EXT2_ET_MAGIC_BLOCK_BITMAP start num outb)"

text \<open>\<^verbatim>\<open>ext2fs_test_inode_bitmap2\<close>, \<^verbatim>\<open>ext2fs_mark_inode_bitmap2\<close> and \<^verbatim>\<open>ext2fs_unmark_inode_bitmap2\<close> of \<^verbatim>\<open>bitops.h\<close>.\<close>

definition ext2fs_test_inode_bitmap2 :: "'p bitmap_ops \<Rightarrow> 'p gbitmap \<Rightarrow> u32 \<Rightarrow> u32 ub" where
  "ext2fs_test_inode_bitmap2 ops bitmap inode = ext2fs_test_generic_bmap ops bitmap (ucast inode)"

definition ext2fs_mark_inode_bitmap2 :: "'p bitmap_ops \<Rightarrow> 'p gbitmap \<Rightarrow> u32 \<Rightarrow> (u32 \<times> 'p gbitmap) ub" where
  "ext2fs_mark_inode_bitmap2 ops bitmap inode = ext2fs_mark_generic_bmap ops bitmap (ucast inode)"

definition ext2fs_unmark_inode_bitmap2 :: "'p bitmap_ops \<Rightarrow> 'p gbitmap \<Rightarrow> u32 \<Rightarrow> (u32 \<times> 'p gbitmap) ub" where
  "ext2fs_unmark_inode_bitmap2 ops bitmap inode = ext2fs_unmark_generic_bmap ops bitmap (ucast inode)"

subsection \<open>New bitmaps\<close>

lemma alloc_bmap_fresh:
  assumes "start \<le> end" "end \<le> real_end" "unat real_end - unat start < 0xffffffffffffffff"
  shows "\<exists>b. ext2fs_alloc_generic_bmap True True (ext2fs_blkmap64_bitarray True True junk base) null crb magic start end real_end descr
      = Some (Inr (Bitmap64 b)) \<and> ba_ok b \<and> ba_bits b = {} \<and> bm_magic b = magic \<and> bm_start b = start \<and> bm_end b = end
      \<and> bm_cluster_bits b = (if magic = EXT2_ET_MAGIC_BLOCK_BITMAP64 then crb else 0)"
proof -
  let ?b0 = "\<lparr>bm_magic = magic, bm_start = start, bm_end = end, bm_real_end = real_end,
          bm_cluster_bits = (if magic = EXT2_ET_MAGIC_BLOCK_BITMAP64 then crb else 0),
          bm_description = descr, bm_private = null,
          bm_base_error_code =
            (if magic = EXT2_ET_MAGIC_INODE_BITMAP64 then EXT2_ET_BAD_INODE_MARK
             else if magic = EXT2_ET_MAGIC_BLOCK_BITMAP64 then EXT2_ET_BAD_BLOCK_MARK
             else EXT2_ET_BAD_GENERIC_MARK)\<rparr>"
  from ba_new_bmap_eq [of ?b0 junk] assms obtain b where
    b: "ba_new_bmap True True junk ?b0 = Some (E_OK, b)" "ba_ok b" "bm_frame ?b0 b" "ba_bits b = {}" by auto
  from b bm_frameD [OF b(3)] show ?thesis
    by (simp add: ext2fs_alloc_generic_bmap_def ext2fs_blkmap64_bitarray_def)
qed

lemma make_bitmap_fresh:
  assumes "start \<le> end" "end \<le> real_end" "EXT2FS_IS_32_BITMAP magic"
  shows "\<exists>b. ext2fs_make_generic_bitmap True True True magic start end real_end descr None = Some (Inr b)
    \<and> b32_ok b \<and> b32_bits b = {} \<and> b32_start b = start \<and> b32_end b = end"
proof -
  have "b32_size start real_end \<le> b32_alloc_size start real_end" unfolding b32_alloc_size_def by presburger
  with assms show ?thesis
    by (auto simp: ext2fs_make_generic_bitmap_def b32_ok_def b32_bits_def bit_at_def)
qed

lemma fresh_inode_bitmap:
  assumes fs: "fs_magic fs = EXT2_ET_MAGIC_EXT2FS_FILSYS" "s_inodes_count (fs_super fs) \<noteq> 0"
    and groups: "unat (s_inodes_count (fs_super fs)) \<le> unat (s_inodes_per_group (fs_super fs)) * unat (fs_group_desc_count fs)"
    and layout: "fs_flags fs AND 0x20000 \<noteq> 0 \<or> unat (s_inodes_per_group (fs_super fs)) * unat (fs_group_desc_count fs) < 4294967296"
  shows "\<exists>g. ext2fs_allocate_inode_bitmap True True True (ext2fs_blkmap64_bitarray True True junk base) null fs descr = Some (Inr g)
    \<and> gb_plain ba_ok g \<and> gb_bits ba_bits g = {}
    \<and> gb_univ g = {k. 1 \<le> unat k \<and> unat k \<le> unat (s_inodes_count (fs_super fs))}"
proof -
  let ?e = "ucast (s_inodes_count (fs_super fs)) :: u64"
  let ?r = "ucast (s_inodes_per_group (fs_super fs)) * ucast (fs_group_desc_count fs) :: u64"
  have "unat (s_inodes_per_group (fs_super fs)) * unat (fs_group_desc_count fs) \<le> 4294967295 * 4294967295"
    by (rule mult_le_mono) (use unat_u32_less [of "s_inodes_per_group (fs_super fs)"] unat_u32_less [of "fs_group_desc_count fs"] in linarith)+
  then have r: "unat ?r = unat (s_inodes_per_group (fs_super fs)) * unat (fs_group_desc_count fs)"
    "unat ?r - unat (1 :: u64) < 0xffffffffffffffff"
    by (simp_all add: unat_word_ariths)
  have n0: "0 < unat (s_inodes_count (fs_super fs))" using fs(2) by (simp add: unat_gt_0)
  have ord: "1 \<le> ?e" "?e \<le> ?r" using n0 groups r(1) by (simp_all add: word_le_nat_alt)
  show ?thesis
  proof (cases "fs_flags fs AND 0x20000 = 0")
    case False
    from alloc_bmap_fresh [OF ord r(2), of junk base null "fs_cluster_ratio_bits fs" EXT2_ET_MAGIC_INODE_BITMAP64 descr] False fs(1)
    show ?thesis
      by (auto simp: ext2fs_allocate_inode_bitmap_def Let_def gb_plain_def gb_ok_def gb_shift_def gb_bits_def gb_univ_def
          EXT2FS_IS_64_BITMAP_def word_le_nat_alt)
  next
    case True
    have small: "\<not> ?e > 0xffffffff" "\<not> ?r > 0xffffffff"
      using layout True r(1) groups by (simp_all add: word_less_nat_alt)
    then have uc: "unat (ucast ?e :: u32) = unat (s_inodes_count (fs_super fs))" "unat (ucast ?r :: u32) = unat ?r"
      by (simp_all add: unat_ucast_64_32 word_less_nat_alt)
    have "(1 :: u32) \<le> ucast ?e" "(ucast ?e :: u32) \<le> ucast ?r"
      using uc n0 groups r(1) by (simp_all add: word_le_nat_alt)
    from make_bitmap_fresh [OF this, of EXT2_ET_MAGIC_INODE_BITMAP descr] obtain b where
      b: "ext2fs_make_generic_bitmap True True True EXT2_ET_MAGIC_INODE_BITMAP 1 (ucast ?e) (ucast ?r) descr None = Some (Inr b)"
        "b32_ok b" "b32_bits b = {}" "b32_start b = 1" "b32_end b = ucast ?e" by (auto simp: EXT2FS_IS_32_BITMAP_def)
    have univ: "\<not> high_bits k \<and> 1 \<le> (ucast k :: u32) \<and> ucast k \<le> (ucast ?e :: u32)
        \<longleftrightarrow> 1 \<le> unat k \<and> unat k \<le> unat (s_inodes_count (fs_super fs))" for k
    proof (cases "high_bits k")
      case h: True
      then have "unat (s_inodes_count (fs_super fs)) < unat k"
        using unat_u32_less [of "s_inodes_count (fs_super fs)"] by (simp only: high_bits_iff)
      with h show ?thesis by simp
    next
      case h: False
      with unat_ucast_low [OF h] uc(1) show ?thesis by (simp add: word_le_nat_alt)
    qed
    from b small True fs(1) univ show ?thesis
      by (simp add: ext2fs_allocate_inode_bitmap_def Let_def gb_plain_def gb_ok_def gb_shift_def gb_bits_def gb_univ_def)
  qed
qed

text \<open>
  A new inode bitmap is well formed, covers exactly the inode numbers from 1 to the inode count, and
  has no mark, in the 64-bit layout and, if the groups have less than \<open>2\<^sup>3\<^sup>2\<close> inodes in all, in the 32-bit
  layout.
\<close>

theorem allocate_inode_bitmap_fresh:
  assumes fs: "fs_magic fs = EXT2_ET_MAGIC_EXT2FS_FILSYS" "s_inodes_count (fs_super fs) \<noteq> 0"
    and groups: "unat (s_inodes_count (fs_super fs)) \<le> unat (s_inodes_per_group (fs_super fs)) * unat (fs_group_desc_count fs)"
    and layout: "fs_flags fs AND 0x20000 \<noteq> 0 \<or> unat (s_inodes_per_group (fs_super fs)) * unat (fs_group_desc_count fs) < 4294967296"
  shows "\<exists>g. ext2fs_allocate_inode_bitmap True True True (ext2fs_blkmap64_bitarray True True junk base) null fs descr = Some (Inr g)
    \<and> gb_plain ba_ok g \<and> gb_bits ba_bits g = {}
    \<and> gb_univ g = {k. 1 \<le> unat k \<and> unat k \<le> unat (s_inodes_count (fs_super fs))}"
  using assms by (rule fresh_inode_bitmap)

theorem allocate_inode_bitmap_fresh_witness:
  "\<exists>g. ext2fs_allocate_inode_bitmap True True True (ext2fs_blkmap64_bitarray True True (\<lambda>_. 1) 0) [] fs_example None = Some (Inr g)
    \<and> gb_plain ba_ok g \<and> gb_bits ba_bits g = {}
    \<and> gb_univ g = {k. 1 \<le> unat k \<and> unat k \<le> unat (s_inodes_count (fs_super fs_example))}"
  by (rule allocate_inode_bitmap_fresh) (simp_all add: fs_example_def)

text \<open>The geometry of a file system with clusters: whole clusters per group, and the first data block starts a cluster.\<close>

definition cluster_geometry_ok :: "filsys \<Rightarrow> bool" where
  "cluster_geometry_ok fs \<longleftrightarrow> fs_geometry_ok fs \<and> fs_cluster_ratio_bits fs < 31
     \<and> unat (s_blocks_per_group (fs_super fs)) = unat (s_clusters_per_group (fs_super fs)) * 2 ^ fs_cluster_ratio_bits fs
     \<and> 2 ^ fs_cluster_ratio_bits fs dvd unat (s_first_data_block (fs_super fs))
     \<and> unat (s_first_data_block (fs_super fs)) + unat (s_blocks_per_group (fs_super fs)) * unat (fs_group_desc_count fs) < 18446744073709551615"

lemma last_cluster_bound:
  fixes F B q c n :: nat
  assumes "0 < q" "q dvd F" "F < B" "B \<le> F + c * q * n"
  shows "F div q \<le> (B - 1) div q" "(B - 1) div q \<le> F div q + c * n - 1" "0 < c * n"
proof -
  from assms(2) obtain f where F: "F = q * f" by blast
  show pos: "0 < c * n" using assms(3,4) by (cases "c * n = 0") (auto simp: mult.commute mult.left_commute)
  show "F div q \<le> (B - 1) div q" using assms(3) by (intro div_le_mono) simp
  have "F + c * q * n = q * (f + c * n)" by (simp add: F algebra_simps)
  with assms(3,4) have "B - 1 < q * (f + c * n)" by simp
  then have "(B - 1) div q < f + c * n" using assms(1) by (simp add: div_less_iff_less_mult mult.commute)
  then show "(B - 1) div q \<le> F div q + c * n - 1" using F assms(1) by simp
qed

text \<open>The three numbers \<^const>\<open>ext2fs_allocate_block_bitmap\<close> computes, the first and last cluster and the last cluster of
the last whole group, in exact arithmetic, and the block numbers they delimit.\<close>

definition bb_start :: "filsys \<Rightarrow> u64" where
  "bb_start fs = ucast (drop_bit (fs_cluster_ratio_bits fs) (s_first_data_block (fs_super fs)))"

definition bb_last :: "filsys \<Rightarrow> u64" where
  "bb_last fs = drop_bit (fs_cluster_ratio_bits fs) (ext2fs_blocks_count (fs_super fs) - 1)"

definition bb_real :: "filsys \<Rightarrow> u64" where
  "bb_real fs = ucast (s_clusters_per_group (fs_super fs)) * ucast (fs_group_desc_count fs) - 1 + bb_start fs"

lemma block_bitmap_ends:
  fixes fs :: filsys
  defines "F \<equiv> unat (s_first_data_block (fs_super fs))" and "B \<equiv> unat (ext2fs_blocks_count (fs_super fs))"
    and "c \<equiv> unat (s_clusters_per_group (fs_super fs))" and "n \<equiv> unat (fs_group_desc_count fs)" and "q \<equiv> 2 ^ fs_cluster_ratio_bits fs :: nat"
  assumes geo: "cluster_geometry_ok fs"
  shows "unat (bb_start fs) = F div q" "unat (bb_last fs) = (B - 1) div q" "unat (bb_real fs) = F div q + c * n - 1"
    "bb_start fs \<le> bb_last fs" "bb_last fs \<le> bb_real fs" "unat (bb_real fs) - unat (bb_start fs) < 0xffffffffffffffff" "0 < c * n"
proof -
  let ?p = "unat (s_blocks_per_group (fs_super fs))" and ?m = "ucast (s_clusters_per_group (fs_super fs)) * ucast (fs_group_desc_count fs) :: u64"
  from geo have g: "fs_geometry_ok fs" "?p = c * q" "q dvd F" "F + ?p * n < 18446744073709551615"
    by (auto simp: cluster_geometry_ok_def F_def c_def n_def q_def)
  note gd = fs_geometryD [OF g(1), folded F_def B_def n_def]
  have lc: "F div q \<le> (B - 1) div q" "(B - 1) div q \<le> F div q + c * n - 1" "0 < c * n"
    using last_cluster_bound [of q F B c n] g(2,3) gd(2,4) by (simp_all add: q_def)
  show us: "unat (bb_start fs) = F div q" by (simp add: bb_start_def unat_drop_bit_div F_def q_def)
  have "ext2fs_blocks_count (fs_super fs) \<noteq> 0" using gd(2) by (auto simp: B_def)
  then show ue: "unat (bb_last fs) = (B - 1) div q" by (simp add: bb_last_def unat_drop_bit_div unat_minus_one B_def q_def)
  have "c * n \<le> ?p * n" unfolding g(2) by (simp add: q_def)
  moreover have "F div q \<le> F" by (rule div_le_dividend)
  ultimately have bound: "F div q + c * n < 18446744073709551615" using g(4) by linarith
  have um: "unat ?m = c * n" using bound by (subst unat_word_ariths) (simp add: c_def n_def)
  then have "?m \<noteq> 0" using lc(3) by (metis less_irrefl unat_0)
  then have "unat (?m - 1) = c * n - 1" unfolding um [symmetric] by (rule unat_minus_one)
  then show ur: "unat (bb_real fs) = F div q + c * n - 1"
    unfolding bb_real_def by (subst unat_add_u64) (use us bound lc(3) in simp_all)
  show "bb_start fs \<le> bb_last fs" "bb_last fs \<le> bb_real fs" using lc us ue ur by (simp_all add: word_le_nat_alt)
  show "unat (bb_real fs) - unat (bb_start fs) < 0xffffffffffffffff" using bound ur us by simp
  show "0 < c * n" by (rule lc(3))
qed

lemma allocate_block_bitmap_unfold:
  assumes "fs_magic fs = EXT2_ET_MAGIC_EXT2FS_FILSYS" "fs_cluster_ratio_bits fs < 31"
  shows "ext2fs_allocate_block_bitmap ok1 ok2 ok3 dops null fs descr =
    (if fs_flags fs AND 0x20000 \<noteq> 0 then
       ext2fs_alloc_generic_bmap ok1 ok2 dops null (fs_cluster_ratio_bits fs) EXT2_ET_MAGIC_BLOCK_BITMAP64 (bb_start fs) (bb_last fs) (bb_real fs) descr
     else if bb_last fs > 0xffffffff \<or> bb_real fs > 0xffffffff then Some (Inl EXT2_ET_CANT_USE_LEGACY_BITMAPS)
     else map_option (map_sum id Bitmap32)
       (ext2fs_make_generic_bitmap ok1 ok2 ok3 EXT2_ET_MAGIC_BLOCK_BITMAP (ucast (bb_start fs)) (ucast (bb_last fs)) (ucast (bb_real fs)) descr None))"
  using assms by (simp add: ext2fs_allocate_block_bitmap_def Let_def bb_start_def bb_last_def bb_real_def)

lemma narrow_interval_iff:
  fixes s e k :: u64
  assumes "unat s < 4294967296" "unat e < 4294967296"
  shows "\<not> high_bits k \<and> (ucast s :: u32) \<le> ucast k \<and> ucast k \<le> (ucast e :: u32) \<longleftrightarrow> unat s \<le> unat k \<and> unat k \<le> unat e"
proof (cases "high_bits k")
  case True
  then have "unat e < unat k" using assms(2) by (simp add: high_bits_iff)
  with True show ?thesis by simp
next
  case False
  with unat_ucast_low [OF False] assms show ?thesis by (simp add: word_le_nat_alt unat_ucast_64_32)
qed

text \<open>
  A new block bitmap is well formed and has no mark; it covers every block of the file system, and the
  numbers it covers are those whose cluster lies between the clusters of the first and of the last block.
  This holds for the 64-bit layout, and for the 32-bit layout without clusters if all groups together end
  below \<open>2\<^sup>3\<^sup>2\<close>.
\<close>

theorem allocate_block_bitmap_fresh:
  assumes magic: "fs_magic fs = EXT2_ET_MAGIC_EXT2FS_FILSYS" and geo: "cluster_geometry_ok fs"
    and layout: "fs_flags fs AND 0x20000 \<noteq> 0 \<or> fs_cluster_ratio_bits fs = 0
      \<and> unat (s_first_data_block (fs_super fs)) + unat (s_blocks_per_group (fs_super fs)) * unat (fs_group_desc_count fs) \<le> 4294967296"
  shows "\<exists>g. ext2fs_allocate_block_bitmap True True True (ext2fs_blkmap64_bitarray True True junk base) null fs descr = Some (Inr g)
    \<and> gb_ok ba_ok g \<and> gb_shift g = fs_cluster_ratio_bits fs \<and> gb_bits ba_bits g = {}
    \<and> gb_univ g = {k. unat (s_first_data_block (fs_super fs)) div 2 ^ fs_cluster_ratio_bits fs \<le> unat k div 2 ^ fs_cluster_ratio_bits fs
        \<and> unat k div 2 ^ fs_cluster_ratio_bits fs \<le> (unat (ext2fs_blocks_count (fs_super fs)) - 1) div 2 ^ fs_cluster_ratio_bits fs}"
proof -
  let ?b = "fs_cluster_ratio_bits fs"
  note ends = block_bitmap_ends [OF geo]
  from geo have g: "?b < 31" "unat (s_blocks_per_group (fs_super fs)) = unat (s_clusters_per_group (fs_super fs)) * 2 ^ ?b"
    by (auto simp: cluster_geometry_ok_def)
  note run = allocate_block_bitmap_unfold [OF magic g(1)]
  show ?thesis
  proof (cases "fs_flags fs AND 0x20000 = 0")
    case False
    from alloc_bmap_fresh [OF ends(4-6), of junk base null ?b EXT2_ET_MAGIC_BLOCK_BITMAP64 descr] obtain bm where
      bm: "ext2fs_alloc_generic_bmap True True (ext2fs_blkmap64_bitarray True True junk base) null ?b EXT2_ET_MAGIC_BLOCK_BITMAP64
          (bb_start fs) (bb_last fs) (bb_real fs) descr = Some (Inr (Bitmap64 bm))"
        "ba_ok bm" "ba_bits bm = {}" "bm_magic bm = EXT2_ET_MAGIC_BLOCK_BITMAP64"
        "bm_start bm = bb_start fs" "bm_end bm = bb_last fs" "bm_cluster_bits bm = ?b" by auto
    from bm(1) False have "ext2fs_allocate_block_bitmap True True True (ext2fs_blkmap64_bitarray True True junk base) null fs descr = Some (Inr (Bitmap64 bm))"
      by (simp add: run)
    with bm(2-7) g(1) show ?thesis
      by (simp add: gb_ok_def gb_shift_def gb_bits_def gb_univ_def EXT2FS_IS_64_BITMAP_def word_le_nat_alt ends(1,2) unat_drop_bit_div)
  next
    case True
    with layout have l: "?b = 0" "unat (s_first_data_block (fs_super fs)) + unat (s_blocks_per_group (fs_super fs)) * unat (fs_group_desc_count fs) \<le> 4294967296"
      by auto
    have lt: "unat (bb_real fs) < 4294967296" using ends(3,7) l g(2) by simp
    then have lt: "unat (bb_real fs) < 4294967296" "unat (bb_last fs) < 4294967296" "unat (bb_start fs) < 4294967296"
      using ends(4,5) by (simp_all add: word_le_nat_alt)
    have small: "\<not> bb_last fs > 0xffffffff" "\<not> bb_real fs > 0xffffffff" using lt by (simp_all add: word_less_nat_alt)
    have "(ucast (bb_start fs) :: u32) \<le> ucast (bb_last fs)" "(ucast (bb_last fs) :: u32) \<le> ucast (bb_real fs)"
      using ends(4,5) lt by (simp_all add: word_le_nat_alt unat_ucast_64_32)
    from make_bitmap_fresh [OF this, of EXT2_ET_MAGIC_BLOCK_BITMAP descr] obtain bm where
      bm: "ext2fs_make_generic_bitmap True True True EXT2_ET_MAGIC_BLOCK_BITMAP (ucast (bb_start fs)) (ucast (bb_last fs)) (ucast (bb_real fs)) descr None
          = Some (Inr bm)"
        "b32_ok bm" "b32_bits bm = {}" "b32_start bm = ucast (bb_start fs)" "b32_end bm = ucast (bb_last fs)" by (auto simp: EXT2FS_IS_32_BITMAP_def)
    from bm(1) True small have "ext2fs_allocate_block_bitmap True True True (ext2fs_blkmap64_bitarray True True junk base) null fs descr = Some (Inr (Bitmap32 bm))"
      by (simp add: run)
    then show ?thesis using bm(2-5) l(1) narrow_interval_iff [OF lt(3,2)] ends(1,2)
      by (simp add: gb_ok_def gb_shift_def gb_bits_def gb_univ_def)
  qed
qed

theorem allocate_block_bitmap_fresh_witness:
  "\<exists>g. ext2fs_allocate_block_bitmap True True True (ext2fs_blkmap64_bitarray True True (\<lambda>_. 1) 0) [] fs_example None = Some (Inr g)
    \<and> gb_ok ba_ok g \<and> gb_shift g = fs_cluster_ratio_bits fs_example \<and> gb_bits ba_bits g = {}
    \<and> gb_univ g = {k. unat (s_first_data_block (fs_super fs_example)) div 2 ^ fs_cluster_ratio_bits fs_example \<le> unat k div 2 ^ fs_cluster_ratio_bits fs_example
        \<and> unat k div 2 ^ fs_cluster_ratio_bits fs_example \<le> (unat (ext2fs_blocks_count (fs_super fs_example)) - 1) div 2 ^ fs_cluster_ratio_bits fs_example}"
proof (rule allocate_block_bitmap_fresh)
  show "cluster_geometry_ok fs_example"
    unfolding cluster_geometry_ok_def using fs_example_geometry by (simp add: fs_example_def)
qed (simp_all add: fs_example_def)

end
