(* ===== verification/Icount.thy ===== *)
theory Icount
  imports Bitmaps Key_Table
begin

unbundle bit_operations_syntax

text \<open>
  The inode counts of \<^verbatim>\<open>lib/ext2fs/icount.c\<close>: how many links each inode has, as e2fsck counts them. A count
  of 1 is a mark in the bitmap \<^verbatim>\<open>single\<close>; larger counts are entries of a sorted table; the optional bitmap
  \<^verbatim>\<open>multiple\<close> says for which inodes the table is to be believed. Instead of all this, an array with one
  16-bit counter per inode can be used, \<^verbatim>\<open>fullmap\<close>. The variant that keeps the counts in a TDB database is
  left out.
\<close>

subsection \<open>The structure\<close>

text \<open>\<open>ic_last_lookup\<close> is the index of the entry that \<^verbatim>\<open>last_lookup\<close> points to.\<close>

record 'p icount =
  ic_magic :: errcode
  ic_single :: "'p gbitmap"
  ic_multiple :: "'p gbitmap"
  ic_count :: nat
  ic_size :: nat
  ic_num_inodes :: u32
  ic_cursor :: nat
  ic_list :: "(u32 \<times> u32) list option"
  ic_last_lookup :: "nat option"
  ic_fullmap :: "u16 list option"

definition icount_16_xlate :: "u32 \<Rightarrow> u16" where
  "icount_16_xlate x = (if x > 65500 then 65500 else ucast x)"

text \<open>
  The allocations are the structure (\<open>ok1\<close>), the array of counters (\<open>ok2\<close>) and the bitmaps, whose three
  allocations each are \<open>ok3\<close> and \<open>ok4\<close>. The size of the array in bytes is computed with 32 bits.
\<close>

definition alloc_icount ::
    "bool \<Rightarrow> bool \<Rightarrow> bool \<Rightarrow> bool \<Rightarrow> 'p bitmap_ops \<Rightarrow> 'p \<Rightarrow> filsys \<Rightarrow> bool \<Rightarrow> bool \<Rightarrow> (errcode + 'p icount) ub" where
  "alloc_icount ok1 ok2 ok3 ok4 ops null fs opt_fullmap opt_increment =
     (if \<not> ok1 then Some (Inl EXT2_ET_NO_MEMORY)
      else
        let icount = \<lparr>ic_magic = EXT2_ET_MAGIC_ICOUNT, ic_single = NullBitmap, ic_multiple = NullBitmap, ic_count = 0,
              ic_size = 0, ic_num_inodes = s_inodes_count (fs_super fs), ic_cursor = 0, ic_list = None,
              ic_last_lookup = None, ic_fullmap = None\<rparr>
        in if opt_fullmap \<and> opt_increment \<and> ok2
           then Some (Inr (icount\<lparr>ic_fullmap := Some (replicate (unat (2 * ic_num_inodes icount) div 2) 0)\<rparr>))
           else do {
             r \<leftarrow> ext2fs_allocate_inode_bitmap ok3 ok3 ok3 ops null fs (Some ''icount'');
             case r of
               Inl retval \<Rightarrow> Some (Inl retval)
             | Inr single \<Rightarrow>
                 if opt_increment then do {
                   r \<leftarrow> ext2fs_allocate_inode_bitmap ok4 ok4 ok4 ops null fs (Some ''icount_inc'');
                   case r of
                     Inl retval \<Rightarrow> Some (Inl retval)
                   | Inr multiple \<Rightarrow> Some (Inr (icount\<lparr>ic_single := single, ic_multiple := multiple\<rparr>))
                 }
                 else Some (Inr (icount\<lparr>ic_single := single\<rparr>))
           })"

text \<open>The entries of the hint are copied without their counts.\<close>

function icount_copy_hint :: "(u32 \<times> u32) list \<Rightarrow> (u32 \<times> u32) list \<Rightarrow> nat \<Rightarrow> nat \<Rightarrow> (u32 \<times> u32) list ub" where
  "icount_copy_hint hint list count i =
     (if i < count then do {
        h \<leftarrow> c_load hint i;
        el \<leftarrow> c_load list i;
        list \<leftarrow> c_store list i (fst h, snd el);
        icount_copy_hint hint list count (i + 1)
      } else Some list)"
  by pat_completeness auto
termination
  by (relation "measure (\<lambda>(hint, list, count, i). count - i)") auto

text \<open>The size is a 32-bit number; the sum with the number of directories is computed with 32 bits.\<close>

definition ext2fs_create_icount2 ::
    "bool \<Rightarrow> bool \<Rightarrow> bool \<Rightarrow> bool \<Rightarrow> bool \<Rightarrow> 'p bitmap_ops \<Rightarrow> 'p \<Rightarrow> filsys \<Rightarrow> bool \<Rightarrow> bool \<Rightarrow> u32 \<Rightarrow> 'p icount option
      \<Rightarrow> (errcode + 'p icount) ub" where
  "ext2fs_create_icount2 ok1 ok2 ok3 ok4 ok5 ops null fs opt_fullmap opt_increment sz hint =
     (if (case hint of None \<Rightarrow> False | Some h \<Rightarrow> ic_magic h \<noteq> EXT2_ET_MAGIC_ICOUNT) then Some (Inl EXT2_ET_MAGIC_ICOUNT)
      else do {
        let sz = (case hint of None \<Rightarrow> unat sz | Some h \<Rightarrow> max (ic_size h) (unat sz));
        r \<leftarrow> alloc_icount ok1 ok2 ok3 ok4 ops null fs opt_fullmap opt_increment;
        case r of
          Inl retval \<Rightarrow> Some (Inl retval)
        | Inr icount \<Rightarrow>
            if ic_fullmap icount \<noteq> None then Some (Inr icount)
            else do {
              sz \<leftarrow> (if sz \<noteq> 0 then Some (Inr sz)
                     else map_option (map_sum id (\<lambda>n. unat (n + s_inodes_count (fs_super fs) div 50))) (ext2fs_get_num_dirs fs));
              case sz of
                Inl retval \<Rightarrow> Some (Inl retval)
              | Inr sz \<Rightarrow>
                  if \<not> ok5 then Some (Inl EXT2_ET_NO_MEMORY)
                  else do {
                    let icount = icount\<lparr>ic_size := sz, ic_count := 0, ic_cursor := 0\<rparr>;
                    let list = replicate sz (0, 0);
                    case hint of
                      None \<Rightarrow> Some (Inr (icount\<lparr>ic_list := Some list\<rparr>))
                    | Some h \<Rightarrow> do {
                        list \<leftarrow> (case ic_list h of
                                  None \<Rightarrow> if ic_count h = 0 then Some list else None
                                | Some hl \<Rightarrow> icount_copy_hint hl list (ic_count h) 0);
                        Some (Inr (icount\<lparr>ic_list := Some list, ic_count := ic_count h\<rparr>))
                      }
                  }
            }
      })"

definition ext2fs_create_icount ::
    "bool \<Rightarrow> bool \<Rightarrow> bool \<Rightarrow> bool \<Rightarrow> bool \<Rightarrow> 'p bitmap_ops \<Rightarrow> 'p \<Rightarrow> filsys \<Rightarrow> bool \<Rightarrow> bool \<Rightarrow> u32 \<Rightarrow> (errcode + 'p icount) ub" where
  "ext2fs_create_icount ok1 ok2 ok3 ok4 ok5 ops null fs opt_fullmap opt_increment sz =
     ext2fs_create_icount2 ok1 ok2 ok3 ok4 ok5 ops null fs opt_fullmap opt_increment sz None"

subsection \<open>The sorted table\<close>

text \<open>
  The result is the index of the entry, or none for the null pointer. \<open>grow\<close> is the value of the expression
  \<^verbatim>\<open>count * ((float) num_inodes / new_size)\<close>, a computation with floating point numbers that the model leaves
  open. A table with more than \<open>INT_MAX\<close> entries is outside the model.
\<close>

definition insert_icount_el ::
    "bool \<Rightarrow> (nat \<Rightarrow> u32 \<times> u32) \<Rightarrow> (nat \<Rightarrow> u32 \<Rightarrow> u32 \<Rightarrow> u32) \<Rightarrow> 'p icount \<Rightarrow> u32 \<Rightarrow> nat \<Rightarrow> (nat option \<times> 'p icount) ub" where
  "insert_icount_el ok junk grow icount ino pos =
     (case ic_list icount of
        None \<Rightarrow> None
      | Some list \<Rightarrow> do {
          hit \<leftarrow> (case ic_last_lookup icount of
                   None \<Rightarrow> Some False
                 | Some i \<Rightarrow> map_option (\<lambda>el. fst el = ino) (c_load list i));
          if hit then Some (ic_last_lookup icount, icount)
          else do {
            icount' \<leftarrow> (if ic_count icount \<ge> ic_size icount then do {
                new_size \<leftarrow> (if ic_count icount \<noteq> 0
                             then map_option (\<lambda>el. unat (grow (ic_count icount) (ic_num_inodes icount) (fst el)))
                                    (c_load list (ic_count icount - 1))
                             else Some 0);
                let least = (ic_size icount + 100) mod 4294967296;
                let new_size = (if new_size < least then least else new_size);
                if ok then Some (Some (icount\<lparr>ic_size := new_size, ic_list := Some (c_realloc junk list new_size)\<rparr>))
                else Some None
              } else Some (Some icount));
            case icount' of
              None \<Rightarrow> Some (None, icount)
            | Some icount \<Rightarrow>
                if ic_count icount > INT_MAX then None
                else do {
                  list \<leftarrow> ic_list icount;
                  r \<leftarrow> kt_insert_at list (ic_count icount) pos (ino, 0);
                  case r of
                    None \<Rightarrow> Some (None, icount)
                  | Some list \<Rightarrow>
                      Some (Some pos, icount\<lparr>ic_list := Some list, ic_count := ic_count icount + 1, ic_last_lookup := Some pos\<rparr>)
                }
          }
        })"

definition get_icount_el ::
    "bool \<Rightarrow> (nat \<Rightarrow> u32 \<times> u32) \<Rightarrow> (nat \<Rightarrow> u32 \<Rightarrow> u32 \<Rightarrow> u32) \<Rightarrow> 'p icount \<Rightarrow> u32 \<Rightarrow> bool \<Rightarrow> (nat option \<times> 'p icount) ub" where
  "get_icount_el ok junk grow icount ino create =
     (case ic_list icount of
        None \<Rightarrow> Some (None, icount)
      | Some list \<Rightarrow> do {
          append \<leftarrow> (if create then
                      if ic_count icount = 0 then Some True
                      else map_option (\<lambda>el. ino > fst el) (c_load list (ic_count icount - 1))
                    else Some False);
          if append then insert_icount_el ok junk grow icount ino (ic_count icount)
          else if ic_count icount = 0 then Some (None, icount)
          else do {
            let cursor = (if ic_cursor icount \<ge> ic_count icount then 0 else ic_cursor icount);
            el \<leftarrow> c_load list cursor;
            if ino = fst el then Some (Some cursor, icount\<lparr>ic_cursor := cursor + 1\<rparr>)
            else if ic_count icount > INT_MAX then None
            else do {
              let icount = icount\<lparr>ic_cursor := cursor\<rparr>;
              r \<leftarrow> kt_search 4294967295 list ino 0 (int (ic_count icount) - 1);
              case r of
                Inl mid \<Rightarrow> Some (Some mid, icount\<lparr>ic_cursor := mid + 1\<rparr>)
              | Inr low \<Rightarrow> if create then insert_icount_el ok junk grow icount ino (nat low) else Some (None, icount)
            }
          }
        })"

definition set_inode_count ::
    "bool \<Rightarrow> (nat \<Rightarrow> u32 \<times> u32) \<Rightarrow> (nat \<Rightarrow> u32 \<Rightarrow> u32 \<Rightarrow> u32) \<Rightarrow> 'p icount \<Rightarrow> u32 \<Rightarrow> u32 \<Rightarrow> (errcode \<times> 'p icount) ub" where
  "set_inode_count ok junk grow icount ino count =
     (case ic_fullmap icount of
        Some fullmap \<Rightarrow> do {
          fullmap \<leftarrow> c_store fullmap (unat ino) (icount_16_xlate count);
          Some (E_OK, icount\<lparr>ic_fullmap := Some fullmap\<rparr>)
        }
      | None \<Rightarrow> do {
          (el, icount) \<leftarrow> get_icount_el ok junk grow icount ino True;
          case el of
            None \<Rightarrow> Some (EXT2_ET_NO_MEMORY, icount)
          | Some i \<Rightarrow> do {
              list \<leftarrow> ic_list icount;
              e \<leftarrow> c_load list i;
              list \<leftarrow> c_store list i (fst e, count);
              Some (E_OK, icount\<lparr>ic_list := Some list\<rparr>)
            }
        })"

text \<open>The error code, the count that is stored through the pointer, and the structure, whose cursor may move.\<close>

definition get_inode_count :: "'p icount \<Rightarrow> u32 \<Rightarrow> (errcode \<times> u32 \<times> 'p icount) ub" where
  "get_inode_count icount ino =
     (case ic_fullmap icount of
        Some fullmap \<Rightarrow> do {
          v \<leftarrow> c_load fullmap (unat ino);
          Some (E_OK, ucast v, icount)
        }
      | None \<Rightarrow> do {
          (el, icount) \<leftarrow> get_icount_el True (\<lambda>_. (0, 0)) (\<lambda>_ _ _. 0) icount ino False;
          case el of
            None \<Rightarrow> Some (ENOENT, 0, icount)
          | Some i \<Rightarrow> do {
              list \<leftarrow> ic_list icount;
              e \<leftarrow> c_load list i;
              Some (E_OK, snd e, icount)
            }
        })"

subsection \<open>The operations\<close>

text \<open>Whether a neighbour is out of order; the messages are not modelled.\<close>

function icount_validate_loop :: "(u32 \<times> u32) list \<Rightarrow> nat \<Rightarrow> nat \<Rightarrow> errcode \<Rightarrow> errcode ub" where
  "icount_validate_loop list count i ret =
     (if i < count then do {
        a \<leftarrow> c_load list (i - 1);
        b \<leftarrow> c_load list i;
        icount_validate_loop list count (i + 1) (if fst a \<ge> fst b then EXT2_ET_INVALID_ARGUMENT else ret)
      } else Some ret)"
  by pat_completeness auto
termination
  by (relation "measure (\<lambda>(list, count, i, ret). count - i)") auto

definition ext2fs_icount_validate :: "'p icount \<Rightarrow> errcode ub" where
  "ext2fs_icount_validate icount =
     (if ic_magic icount \<noteq> EXT2_ET_MAGIC_ICOUNT then Some EXT2_ET_MAGIC_ICOUNT
      else if ic_count icount > ic_size icount then Some EXT2_ET_INVALID_ARGUMENT
      else case ic_list icount of
        None \<Rightarrow> if ic_count icount \<le> 1 then Some E_OK else None
      | Some list \<Rightarrow> icount_validate_loop list (ic_count icount) 1 E_OK)"

definition ino_out_of_range :: "'p icount \<Rightarrow> u32 \<Rightarrow> bool" where
  "ino_out_of_range icount ino \<longleftrightarrow> ino = 0 \<or> ino > ic_num_inodes icount"

definition ext2fs_icount_fetch :: "'p bitmap_ops \<Rightarrow> 'p icount \<Rightarrow> u32 \<Rightarrow> (errcode + u16 \<times> 'p icount) ub" where
  "ext2fs_icount_fetch ops icount ino =
     (if ic_magic icount \<noteq> EXT2_ET_MAGIC_ICOUNT then Some (Inl EXT2_ET_MAGIC_ICOUNT)
      else if ino_out_of_range icount ino then Some (Inl EXT2_ET_INVALID_ARGUMENT)
      else do {
        r \<leftarrow> (if ic_fullmap icount \<noteq> None then Some None
              else do {
                t \<leftarrow> ext2fs_test_inode_bitmap2 ops (ic_single icount) ino;
                if t \<noteq> 0 then Some (Some 1)
                else if ic_multiple icount = NullBitmap then Some None
                else do {
                  t \<leftarrow> ext2fs_test_inode_bitmap2 ops (ic_multiple icount) ino;
                  Some (if t = 0 then Some 0 else None)
                }
              });
        case r of
          Some v \<Rightarrow> Some (Inr (v, icount))
        | None \<Rightarrow> do {
            (_, val, icount) \<leftarrow> get_inode_count icount ino;
            Some (Inr (icount_16_xlate val, icount))
          }
      })"

text \<open>
  The increment and the decrement return the error code, the new count that is stored through \<^verbatim>\<open>ret\<close>, if any,
  and the structure. The increments of the counters of \<^verbatim>\<open>fullmap\<close> are computed with C integers.
\<close>

definition ext2fs_icount_increment ::
    "bool \<Rightarrow> (nat \<Rightarrow> u32 \<times> u32) \<Rightarrow> (nat \<Rightarrow> u32 \<Rightarrow> u32 \<Rightarrow> u32) \<Rightarrow> 'p bitmap_ops \<Rightarrow> 'p icount \<Rightarrow> u32
      \<Rightarrow> (errcode \<times> u16 option \<times> 'p icount) ub" where
  "ext2fs_icount_increment ok junk grow ops icount ino =
     (if ic_magic icount \<noteq> EXT2_ET_MAGIC_ICOUNT then Some (EXT2_ET_MAGIC_ICOUNT, None, icount)
      else if ino_out_of_range icount ino then Some (EXT2_ET_INVALID_ARGUMENT, None, icount)
      else case ic_fullmap icount of
        Some fullmap \<Rightarrow> do {
          v \<leftarrow> c_load fullmap (unat ino);
          let curr_value = icount_16_xlate (ucast v + 1);
          fullmap \<leftarrow> c_store fullmap (unat ino) curr_value;
          let icount = icount\<lparr>ic_fullmap := Some fullmap\<rparr>;
          (if ic_multiple icount = NullBitmap then Some (E_OK, Some (icount_16_xlate (ucast curr_value)), icount)
           else do {
             (_, m) \<leftarrow> ext2fs_mark_inode_bitmap2 ops (ic_multiple icount) ino;
             Some (E_OK, Some (icount_16_xlate (ucast curr_value)), icount\<lparr>ic_multiple := m\<rparr>)
           })
        }
      | None \<Rightarrow> do {
          single \<leftarrow> ext2fs_test_inode_bitmap2 ops (ic_single icount) ino;
          multiple \<leftarrow> (if single \<noteq> 0 \<or> ic_multiple icount = NullBitmap then Some 1
                       else ext2fs_test_inode_bitmap2 ops (ic_multiple icount) ino);
          if multiple = 0 then do {
            (_, s) \<leftarrow> ext2fs_mark_inode_bitmap2 ops (ic_single icount) ino;
            Some (E_OK, Some 1, icount\<lparr>ic_single := s\<rparr>)
          }
          else do {
            (curr_value, icount) \<leftarrow> (if single \<noteq> 0 then Some (2, icount)
              else do {
                (_, v, icount) \<leftarrow> get_inode_count icount ino;
                Some (v + 1, icount)
              });
            (retval, icount) \<leftarrow> set_inode_count ok junk grow icount ino curr_value;
            if retval \<noteq> E_OK then Some (EXT2_ET_NO_MEMORY, None, icount)
            else do {
              icount \<leftarrow> (if single \<noteq> 0 then do {
                  (_, s) \<leftarrow> ext2fs_unmark_inode_bitmap2 ops (ic_single icount) ino;
                  Some (icount\<lparr>ic_single := s\<rparr>)
                } else Some icount);
              icount \<leftarrow> (if ic_multiple icount = NullBitmap then Some icount else do {
                  (_, m) \<leftarrow> ext2fs_mark_inode_bitmap2 ops (ic_multiple icount) ino;
                  Some (icount\<lparr>ic_multiple := m\<rparr>)
                });
              Some (E_OK, Some (icount_16_xlate curr_value), icount)
            }
          }
        })"

text \<open>An unmark of \<^verbatim>\<open>multiple\<close>, if there is one.\<close>

definition ic_unmark_multiple :: "'p bitmap_ops \<Rightarrow> 'p icount \<Rightarrow> u32 \<Rightarrow> 'p icount ub" where
  "ic_unmark_multiple ops icount ino = do {
     (_, m) \<leftarrow> ext2fs_unmark_inode_bitmap2 ops (ic_multiple icount) ino;
     Some (icount\<lparr>ic_multiple := m\<rparr>)
   }"

definition ext2fs_icount_decrement ::
    "bool \<Rightarrow> (nat \<Rightarrow> u32 \<times> u32) \<Rightarrow> (nat \<Rightarrow> u32 \<Rightarrow> u32 \<Rightarrow> u32) \<Rightarrow> 'p bitmap_ops \<Rightarrow> 'p icount \<Rightarrow> u32
      \<Rightarrow> (errcode \<times> u16 option \<times> 'p icount) ub" where
  "ext2fs_icount_decrement ok junk grow ops icount ino =
     (if ino_out_of_range icount ino then Some (EXT2_ET_INVALID_ARGUMENT, None, icount)
      else if ic_magic icount \<noteq> EXT2_ET_MAGIC_ICOUNT then Some (EXT2_ET_MAGIC_ICOUNT, None, icount)
      else case ic_fullmap icount of
        Some fullmap \<Rightarrow> do {
          v \<leftarrow> c_load fullmap (unat ino);
          if v = 0 then Some (EXT2_ET_INVALID_ARGUMENT, None, icount)
          else do {
            fullmap \<leftarrow> c_store fullmap (unat ino) (v - 1);
            Some (E_OK, Some (icount_16_xlate (ucast (v - 1))), icount\<lparr>ic_fullmap := Some fullmap\<rparr>)
          }
        }
      | None \<Rightarrow> do {
          single \<leftarrow> ext2fs_test_inode_bitmap2 ops (ic_single icount) ino;
          if single \<noteq> 0 then do {
            (_, s) \<leftarrow> ext2fs_unmark_inode_bitmap2 ops (ic_single icount) ino;
            let icount = icount\<lparr>ic_single := s\<rparr>;
            icount \<leftarrow> (if ic_multiple icount \<noteq> NullBitmap then ic_unmark_multiple ops icount ino
                       else map_option snd (set_inode_count ok junk grow icount ino 0));
            Some (E_OK, Some 0, icount)
          }
          else do {
            multiple \<leftarrow> (if ic_multiple icount = NullBitmap then Some 1
                         else ext2fs_test_inode_bitmap2 ops (ic_multiple icount) ino);
            if multiple = 0 then Some (EXT2_ET_INVALID_ARGUMENT, None, icount)
            else do {
              (_, curr_value, icount) \<leftarrow> get_inode_count icount ino;
              if curr_value = 0 then Some (EXT2_ET_INVALID_ARGUMENT, None, icount)
              else do {
                let curr_value = curr_value - 1;
                (retval, icount) \<leftarrow> set_inode_count ok junk grow icount ino curr_value;
                if retval \<noteq> E_OK then Some (EXT2_ET_NO_MEMORY, None, icount)
                else do {
                  icount \<leftarrow> (if curr_value = 1 then do {
                      (_, s) \<leftarrow> ext2fs_mark_inode_bitmap2 ops (ic_single icount) ino;
                      Some (icount\<lparr>ic_single := s\<rparr>)
                    } else Some icount);
                  icount \<leftarrow> (if curr_value = 0 \<and> ic_multiple icount \<noteq> NullBitmap
                             then ic_unmark_multiple ops icount ino else Some icount);
                  Some (E_OK, Some (icount_16_xlate curr_value), icount)
                }
              }
            }
          }
        })"

definition ext2fs_icount_store ::
    "bool \<Rightarrow> (nat \<Rightarrow> u32 \<times> u32) \<Rightarrow> (nat \<Rightarrow> u32 \<Rightarrow> u32 \<Rightarrow> u32) \<Rightarrow> 'p bitmap_ops \<Rightarrow> 'p icount \<Rightarrow> u32 \<Rightarrow> u16
      \<Rightarrow> (errcode \<times> 'p icount) ub" where
  "ext2fs_icount_store ok junk grow ops icount ino count =
     (if ino_out_of_range icount ino then Some (EXT2_ET_INVALID_ARGUMENT, icount)
      else if ic_magic icount \<noteq> EXT2_ET_MAGIC_ICOUNT then Some (EXT2_ET_MAGIC_ICOUNT, icount)
      else if ic_fullmap icount \<noteq> None then set_inode_count ok junk grow icount ino (ucast count)
      else if count = 1 then do {
        (_, s) \<leftarrow> ext2fs_mark_inode_bitmap2 ops (ic_single icount) ino;
        let icount = icount\<lparr>ic_single := s\<rparr>;
        icount \<leftarrow> (if ic_multiple icount \<noteq> NullBitmap then ic_unmark_multiple ops icount ino else Some icount);
        Some (E_OK, icount)
      }
      else if count = 0 then do {
        (_, s) \<leftarrow> ext2fs_unmark_inode_bitmap2 ops (ic_single icount) ino;
        let icount = icount\<lparr>ic_single := s\<rparr>;
        icount \<leftarrow> (if ic_multiple icount \<noteq> NullBitmap then ic_unmark_multiple ops icount ino
                   else map_option snd (set_inode_count ok junk grow icount ino 0));
        Some (E_OK, icount)
      }
      else do {
        (retval, icount) \<leftarrow> set_inode_count ok junk grow icount ino (ucast count);
        if retval \<noteq> E_OK then Some (EXT2_ET_NO_MEMORY, icount)
        else do {
          (_, s) \<leftarrow> ext2fs_unmark_inode_bitmap2 ops (ic_single icount) ino;
          let icount = icount\<lparr>ic_single := s\<rparr>;
          icount \<leftarrow> (if ic_multiple icount = NullBitmap then Some icount else do {
              (_, m) \<leftarrow> ext2fs_mark_inode_bitmap2 ops (ic_multiple icount) ino;
              Some (icount\<lparr>ic_multiple := m\<rparr>)
            });
          Some (E_OK, icount)
        }
      })"

definition ext2fs_get_icount_size :: "'p icount option \<Rightarrow> nat" where
  "ext2fs_get_icount_size icount =
     (case icount of None \<Rightarrow> 0 | Some ic \<Rightarrow> if ic_magic ic \<noteq> EXT2_ET_MAGIC_ICOUNT then 0 else ic_size ic)"

subsection \<open>The table\<close>

declare icount_copy_hint.simps [simp del] icount_validate_loop.simps [simp del]

definition ic_table_ok :: "'p icount \<Rightarrow> bool" where
  "ic_table_ok ic \<longleftrightarrow> (\<exists>list. ic_list ic = Some list \<and> length list = ic_size ic \<and> kt_ok list (ic_count ic))
     \<and> ic_size ic < 4294967296 \<and> (\<forall>i. ic_last_lookup ic = Some i \<longrightarrow> i < ic_count ic)"

definition ic_entry :: "'p icount \<Rightarrow> u32 \<Rightarrow> nat" where
  "ic_entry ic k = (case ic_list ic of None \<Rightarrow> 0
     | Some list \<Rightarrow> (case kt_get list (ic_count ic) k of None \<Rightarrow> 0 | Some v \<Rightarrow> unat v))"

text \<open>Everything outside the table is unchanged.\<close>

definition ic_frame :: "'p icount \<Rightarrow> 'p icount \<Rightarrow> bool" where
  "ic_frame ic ic' \<longleftrightarrow> ic_magic ic' = ic_magic ic \<and> ic_single ic' = ic_single ic \<and> ic_multiple ic' = ic_multiple ic
     \<and> ic_num_inodes ic' = ic_num_inodes ic \<and> ic_fullmap ic' = ic_fullmap ic"

lemma ic_table_okD:
  assumes "ic_table_ok ic"
  obtains list where "ic_list ic = Some list" "length list = ic_size ic" "kt_ok list (ic_count ic)"
    "ic_count ic \<le> ic_size ic" "ic_size ic < 4294967296" "\<And>i. ic_last_lookup ic = Some i \<Longrightarrow> i < ic_count ic"
proof -
  from assms obtain list where "ic_list ic = Some list" "length list = ic_size ic" "kt_ok list (ic_count ic)"
    by (auto simp: ic_table_ok_def)
  moreover from this have "ic_count ic \<le> ic_size ic" by (simp add: kt_ok_def)
  ultimately show thesis using that assms by (auto simp: ic_table_ok_def)
qed

lemma ic_cursor_irrelevant [simp]:
  "ic_table_ok (ic\<lparr>ic_cursor := c\<rparr>) = ic_table_ok ic" "ic_entry (ic\<lparr>ic_cursor := c\<rparr>) = ic_entry ic"
  "ic_frame ic (ic'\<lparr>ic_cursor := c\<rparr>) = ic_frame ic ic'" "ic_frame (ic\<lparr>ic_cursor := c\<rparr>) ic' = ic_frame ic ic'"
  by (auto simp: ic_table_ok_def ic_entry_def ic_frame_def fun_eq_iff split: option.split)

lemma ic_frame_refl [simp]: "ic_frame ic ic"
  by (simp add: ic_frame_def)

text \<open>The result of looking for an entry that is created if it is missing.\<close>

definition ic_got :: "'p icount \<Rightarrow> u32 \<Rightarrow> (nat option \<times> 'p icount) ub \<Rightarrow> bool" where
  "ic_got ic k r \<longleftrightarrow> (\<exists>i ic' list. r = Some (Some i, ic') \<and> ic_table_ok ic' \<and> ic_frame ic ic' \<and> ic_list ic' = Some list
     \<and> i < ic_count ic' \<and> fst (list ! i) = k \<and> ic_entry ic' = ic_entry ic \<and> ic_count ic' \<le> ic_count ic + 1)"

lemma ic_got_cursor [simp]: "ic_got (ic\<lparr>ic_cursor := c\<rparr>) k r = ic_got ic k r"
  by (simp add: ic_got_def)

lemma ic_got_existing:
  assumes "ic_table_ok ic" "ic_list ic = Some list" "i < ic_count ic" "fst (list ! i) = k"
  shows "ic_got ic k (Some (Some i, ic\<lparr>ic_cursor := c\<rparr>))"
  using assms unfolding ic_got_def
  by (intro exI [of _ i] exI [of _ "ic\<lparr>ic_cursor := c\<rparr>"] exI [of _ list]) simp

text \<open>The table that insertion writes to: the old one while it has room, else one of at least a hundred more entries.\<close>

definition ic_grown :: "(nat \<Rightarrow> u32 \<times> u32) \<Rightarrow> (nat \<Rightarrow> u32 \<Rightarrow> u32 \<Rightarrow> u32) \<Rightarrow> 'p icount \<Rightarrow> (u32 \<times> u32) list \<Rightarrow> 'p icount" where
  "ic_grown junk grow ic list = (if ic_count ic \<ge> ic_size ic then
      let g = (if ic_count ic \<noteq> 0 then unat (grow (ic_count ic) (ic_num_inodes ic) (fst (list ! (ic_count ic - 1)))) else 0);
          m = max g (ic_size ic + 100)
      in ic\<lparr>ic_size := m, ic_list := Some (c_realloc junk list m)\<rparr> else ic)"

lemma ic_grown_room:
  assumes ok: "ic_table_ok ic" and l: "ic_list ic = Some list" and n: "ic_count ic < INT_MAX"
  obtains list1 where "ic_list (ic_grown junk grow ic list) = Some list1" "length list1 = ic_size (ic_grown junk grow ic list)"
    "ic_count ic < length list1" "take (ic_count ic) list1 = take (ic_count ic) list" "ic_size (ic_grown junk grow ic list) < 4294967296"
proof -
  let ?n = "ic_count ic"
  from ok l have o: "length list = ic_size ic" "?n \<le> ic_size ic" "ic_size ic < 4294967296" by (auto elim!: ic_table_okD)
  show thesis
  proof (cases "?n \<ge> ic_size ic")
    case False
    then show thesis using that [of list] o l by (simp add: ic_grown_def)
  next
    case True
    define m where "m = max (if ?n \<noteq> 0 then unat (grow ?n (ic_num_inodes ic) (fst (list ! (?n - 1)))) else 0) (ic_size ic + 100)"
    have ic1: "ic_grown junk grow ic list = ic\<lparr>ic_size := m, ic_list := Some (c_realloc junk list m)\<rparr>"
      using True by (simp add: ic_grown_def m_def Let_def)
    have "?n < m" using o(2) by (simp add: m_def less_max_iff_disj)
    moreover have "m < 4294967296"
      using True n unat_u32_less [of "grow ?n (ic_num_inodes ic) (fst (list ! (?n - 1)))"] by (simp add: m_def)
    ultimately show thesis using that [of "c_realloc junk list m"] True o ic1 by simp
  qed
qed

lemma insert_icount_el_miss:
  assumes ok: "ic_table_ok ic" and l: "ic_list ic = Some list" and n: "ic_count ic < INT_MAX"
    and ne: "\<And>i. i < ic_count ic \<Longrightarrow> fst (list ! i) \<noteq> k"
  shows "insert_icount_el True junk grow ic k p = do {
      list1 \<leftarrow> ic_list (ic_grown junk grow ic list);
      r \<leftarrow> kt_insert_at list1 (ic_count ic) p (k, 0);
      case r of None \<Rightarrow> Some (None, ic_grown junk grow ic list)
      | Some list1 \<Rightarrow> Some (Some p, (ic_grown junk grow ic list)\<lparr>ic_list := Some list1, ic_count := ic_count ic + 1, ic_last_lookup := Some p\<rparr>) }"
proof -
  from ok l have o: "length list = ic_size ic" "ic_count ic \<le> ic_size ic"
    "\<And>i. ic_last_lookup ic = Some i \<Longrightarrow> i < ic_count ic" by (auto elim!: ic_table_okD)
  let ?n = "ic_count ic"
  have hit: "(case ic_last_lookup ic of None \<Rightarrow> Some False
      | Some i \<Rightarrow> map_option (\<lambda>el. fst el = k) (c_load list i)) = Some False"
  proof (cases "ic_last_lookup ic")
    case (Some i)
    with o(3) have "i < ?n" by simp
    with ne [of i] o(1,2) Some show ?thesis by simp
  qed simp
  have mx: "(if a < b then b else a) = max a b" for a b :: nat by (simp add: max_def)
  show ?thesis
  proof (cases "?n \<ge> ic_size ic")
    case False
    then show ?thesis using n by (simp add: insert_icount_el_def l hit ic_grown_def)
  next
    case True
    then have "?n \<noteq> 0 \<Longrightarrow> c_load list (?n - 1) = Some (list ! (?n - 1))" "(ic_size ic + 100) mod 4294967296 = ic_size ic + 100"
      using o n by simp_all
    with True n show ?thesis
      by (cases "?n = 0") (simp_all add: insert_icount_el_def l hit ic_grown_def Let_def mx)
  qed
qed

lemma ic_insert_got:
  assumes ok: "ic_table_ok ic" and l: "ic_list ic = Some list" and n: "ic_count ic < INT_MAX" and p: "p \<le> ic_count ic"
    and below: "\<And>i. i < p \<Longrightarrow> fst (list ! i) < k" and above: "\<And>i. p \<le> i \<Longrightarrow> i < ic_count ic \<Longrightarrow> k < fst (list ! i)"
  shows "ic_got ic k (insert_icount_el True junk grow ic k p)"
proof -
  let ?n = "ic_count ic" and ?g = "ic_grown junk grow ic list"
  from ok l have o: "kt_ok list ?n" by (auto elim!: ic_table_okD)
  have ne: "fst (list ! i) \<noteq> k" if "i < ?n" for i using below [of i] above [of i] that by (cases "i < p") auto
  from ic_grown_room [OF ok l n] obtain list1 where l1: "ic_list ?g = Some list1" "length list1 = ic_size ?g" "?n < length list1"
    "take ?n list1 = take ?n list" "ic_size ?g < 4294967296" .
  have nth: "list1 ! i = list ! i" if "i < ?n" for i using l1(4) that by (metis nth_take)
  have ok1: "kt_ok list1 ?n" and get1: "kt_get list1 ?n = kt_get list ?n"
    using o l1(3,4) by (auto simp: kt_ok_def kt_get_def fun_eq_iff)
  from kt_insert_at_eq [OF ok1 l1(3) p, of k 0] below above nth p obtain list2 where
    l2: "kt_insert_at list1 ?n p (k, 0) = Some (Some list2)" "length list2 = length list1" "kt_ok list2 (Suc ?n)"
      "kt_get list2 (Suc ?n) = (kt_get list1 ?n)(k \<mapsto> 0)" "list2 ! p = (k, 0)" by auto
  let ?ic = "?g\<lparr>ic_list := Some list2, ic_count := ?n + 1, ic_last_lookup := Some p\<rparr>"
  have none: "kt_get list ?n k = None" by (rule kt_get_gap [OF o below above])
  have "ic_table_ok ?ic" using l2 l1 p by (simp add: ic_table_ok_def)
  moreover have "ic_entry ?ic = ic_entry ic"
    using l2(4) none get1 l by (auto simp: ic_entry_def fun_eq_iff)
  moreover have "ic_frame ic ?ic" by (simp add: ic_frame_def ic_grown_def Let_def)
  ultimately show ?thesis unfolding ic_got_def using insert_icount_el_miss [OF ok l n ne] l1(1) l2 p
    by (intro exI [of _ p] exI [of _ ?ic] exI [of _ list2]) simp
qed

text \<open>The two ways of looking for an entry.\<close>

lemma get_icount_el_branches:
  assumes ok: "ic_table_ok ic" and l: "ic_list ic = Some list" and n: "ic_count ic \<le> INT_MAX" "ic_count ic \<noteq> 0"
    and nl: "create \<Longrightarrow> \<not> fst (list ! (ic_count ic - 1)) < k"
  obtains (found) i c where "get_icount_el okb junk grow ic k create = Some (Some i, ic\<lparr>ic_cursor := c\<rparr>)"
      "i < ic_count ic" "fst (list ! i) = k"
    | (missing) p c where "get_icount_el okb junk grow ic k create =
        (if create then insert_icount_el okb junk grow (ic\<lparr>ic_cursor := c\<rparr>) k p else Some (None, ic\<lparr>ic_cursor := c\<rparr>))"
      "p \<le> ic_count ic" "\<And>i. i < p \<Longrightarrow> fst (list ! i) < k" "\<And>i. p \<le> i \<Longrightarrow> i < ic_count ic \<Longrightarrow> k < fst (list ! i)"
proof -
  from ok l have o: "length list = ic_size ic" "kt_ok list (ic_count ic)" "ic_count ic \<le> ic_size ic" by (auto elim!: ic_table_okD)
  let ?n = "ic_count ic"
  define c where "c = (if ic_cursor ic \<ge> ?n then 0 else ic_cursor ic)"
  have cur: "c < ?n" using n(2) by (auto simp: c_def)
  have ld: "c_load list c = Some (list ! c)" "c_load list (?n - 1) = Some (list ! (?n - 1))" using o cur n(2) by simp_all
  have app: "(if create then if ?n = 0 then Some True else map_option (\<lambda>el. k > fst el) (c_load list (?n - 1)) else Some False) = Some False"
    using n(2) nl ld(2) by simp
  from kt_search_whole [OF o(2), of 4294967295 k] n(1) obtain r where
    r: "kt_search 4294967295 list k 0 (int ?n - 1) = Some r"
      "case r of Inl m \<Rightarrow> m < ?n \<and> fst (list ! m) = k
       | Inr p \<Rightarrow> 0 \<le> p \<and> nat p \<le> ?n \<and> (\<forall>i < nat p. fst (list ! i) < k) \<and> (\<forall>i. nat p \<le> i \<and> i < ?n \<longrightarrow> k < fst (list ! i))"
    by auto
  have r1: "kt_search 4294967295 list k 0 (int (ic_count (ic\<lparr>ic_cursor := c\<rparr>)) - 1) = Some r" using r(1) by simp
  have nm: "\<not> ?n > INT_MAX" using n(1) by simp
  have base: "get_icount_el okb junk grow ic k create =
      (if k = fst (list ! c) then Some (Some c, ic\<lparr>ic_cursor := c + 1\<rparr>)
       else case r of
         Inl mid \<Rightarrow> Some (Some mid, ic\<lparr>ic_cursor := c, ic_cursor := mid + 1\<rparr>)
       | Inr low \<Rightarrow> if create then insert_icount_el okb junk grow (ic\<lparr>ic_cursor := c\<rparr>) k (nat low)
                    else Some (None, ic\<lparr>ic_cursor := c\<rparr>))"
    unfolding get_icount_el_def l option.case app Option.bind.simps if_False c_def [symmetric] Let_def ld(1)
    using n(2) nm r1 by (cases r) simp_all
  show thesis
  proof (cases "k = fst (list ! c)")
    case True
    with base cur show thesis by (intro found [of c "c + 1"]) simp_all
  next
    case miss: False
    show thesis
    proof (cases r)
      case (Inl m)
      with r(2) base miss show thesis by (intro found [of m "m + 1"]) simp_all
    next
      case (Inr p)
      with r(2) base miss show thesis by (intro missing [of c "nat p"]) simp_all
    qed
  qed
qed

lemma get_icount_el_create:
  assumes ok: "ic_table_ok ic" and n: "ic_count ic < INT_MAX"
  shows "ic_got ic k (get_icount_el True junk grow ic k True)"
proof -
  from ok obtain list where o: "ic_list ic = Some list" "length list = ic_size ic" "kt_ok list (ic_count ic)"
    "ic_count ic \<le> ic_size ic" by (rule ic_table_okD)
  let ?n = "ic_count ic"
  show ?thesis
  proof (cases "?n = 0 \<or> fst (list ! (?n - 1)) < k")
    case True
    have top: "fst (list ! i) < k" if "i < ?n" for i
      using True that kt_ok_less [OF o(3), of i "?n - 1"] by (cases "i = ?n - 1") force+
    have "?n \<noteq> 0 \<Longrightarrow> c_load list (?n - 1) = Some (list ! (?n - 1))" using o by simp
    then have "get_icount_el True junk grow ic k True = insert_icount_el True junk grow ic k ?n"
      using True o(1) by (auto simp: get_icount_el_def)
    with ic_insert_got [OF ok o(1) n order_refl top, of junk grow] show ?thesis by simp
  next
    case False
    then have n0: "?n \<noteq> 0" and nl: "\<not> fst (list ! (?n - 1)) < k" by auto
    from ok o(1) less_imp_le [OF n] n0 nl show ?thesis
    proof (rule get_icount_el_branches [where create = True and okb = True and junk = junk and grow = grow])
      fix i c
      assume "get_icount_el True junk grow ic k True = Some (Some i, ic\<lparr>ic_cursor := c\<rparr>)" "i < ?n" "fst (list ! i) = k"
      with ic_got_existing [OF ok o(1)] show ?thesis by metis
    next
      fix p c
      assume run: "get_icount_el True junk grow ic k True = (if True then insert_icount_el True junk grow (ic\<lparr>ic_cursor := c\<rparr>) k p
          else Some (None, ic\<lparr>ic_cursor := c\<rparr>))" and p: "p \<le> ?n"
        and b: "\<And>i. i < p \<Longrightarrow> fst (list ! i) < k" and a: "\<And>i. p \<le> i \<Longrightarrow> i < ?n \<Longrightarrow> k < fst (list ! i)"
      have "ic_got (ic\<lparr>ic_cursor := c\<rparr>) k (insert_icount_el True junk grow (ic\<lparr>ic_cursor := c\<rparr>) k p)"
        by (rule ic_insert_got) (use ok o(1) n p a b in simp_all)
      with run show ?thesis by simp
    qed
  qed
qed

lemma get_icount_el_lookup:
  assumes ok: "ic_table_ok ic" and l: "ic_list ic = Some list" and n: "ic_count ic \<le> INT_MAX"
  shows "\<exists>r c. get_icount_el okb junk grow ic k False = Some (r, ic\<lparr>ic_cursor := c\<rparr>) \<and>
    (case r of None \<Rightarrow> kt_get list (ic_count ic) k = None | Some i \<Rightarrow> i < ic_count ic \<and> fst (list ! i) = k)"
proof -
  from ok l have kt: "kt_ok list (ic_count ic)" by (auto elim!: ic_table_okD)
  show ?thesis
  proof (cases "ic_count ic = 0")
    case True
    then show ?thesis using l by (intro exI [of _ None] exI [of _ "ic_cursor ic"]) (simp add: get_icount_el_def kt_get_def)
  next
    case False
    from ok l n False show ?thesis
    proof (rule get_icount_el_branches [where create = False and okb = okb and junk = junk and grow = grow])
      fix i c
      assume "get_icount_el okb junk grow ic k False = Some (Some i, ic\<lparr>ic_cursor := c\<rparr>)" "i < ic_count ic" "fst (list ! i) = k"
      then show ?thesis by (intro exI [of _ "Some i"] exI [of _ c]) simp
    next
      fix p c
      assume "get_icount_el okb junk grow ic k False = (if False then insert_icount_el okb junk grow (ic\<lparr>ic_cursor := c\<rparr>) k p
          else Some (None, ic\<lparr>ic_cursor := c\<rparr>))" "\<And>i. i < p \<Longrightarrow> fst (list ! i) < k"
        "\<And>i. p \<le> i \<Longrightarrow> i < ic_count ic \<Longrightarrow> k < fst (list ! i)"
      then show ?thesis using kt_get_gap [OF kt, of p k] by (intro exI [of _ None] exI [of _ c]) simp
    qed simp
  qed
qed

lemma set_inode_count_table:
  assumes ok: "ic_table_ok ic" and fm: "ic_fullmap ic = None" and n: "ic_count ic < INT_MAX"
  shows "\<exists>ic'. set_inode_count True junk grow ic k v = Some (E_OK, ic') \<and> ic_table_ok ic' \<and> ic_frame ic ic'
    \<and> ic_count ic' \<le> ic_count ic + 1 \<and> ic_entry ic' = (ic_entry ic)(k := unat v)"
proof -
  from get_icount_el_create [OF ok n, of k junk grow] obtain i ic1 list where
    g: "get_icount_el True junk grow ic k True = Some (Some i, ic1)" "ic_table_ok ic1" "ic_frame ic ic1" "ic_list ic1 = Some list"
      "i < ic_count ic1" "fst (list ! i) = k" "ic_entry ic1 = ic_entry ic" "ic_count ic1 \<le> ic_count ic + 1"
    by (auto simp: ic_got_def)
  from g(2,4) have o: "length list = ic_size ic1" "kt_ok list (ic_count ic1)" "ic_count ic1 \<le> ic_size ic1" by (auto elim!: ic_table_okD)
  let ?ic = "ic1\<lparr>ic_list := Some (list[i := (k, v)])\<rparr>"
  note u = kt_update_cell [OF o(2) g(5,6), of v]
  have "set_inode_count True junk grow ic k v = Some (E_OK, ?ic)"
    using g(1,4,5,6) o fm by (simp add: set_inode_count_def)
  moreover have "ic_table_ok ?ic" using u(1) o g(2) by (simp add: ic_table_ok_def)
  moreover have "ic_entry ?ic = (ic_entry ic)(k := unat v)"
    using u(2) g(4,7) by (auto simp: ic_entry_def fun_eq_iff)
  moreover have "ic_frame ic ?ic" using g(3) by (simp add: ic_frame_def)
  ultimately show ?thesis using g(8) by simp
qed

lemma get_inode_count_table:
  assumes ok: "ic_table_ok ic" and fm: "ic_fullmap ic = None" and n: "ic_count ic \<le> INT_MAX"
  shows "\<exists>e w c. get_inode_count ic k = Some (e, w, ic\<lparr>ic_cursor := c\<rparr>) \<and> unat w = ic_entry ic k"
proof -
  from ok obtain list where o: "ic_list ic = Some list" "length list = ic_size ic" "kt_ok list (ic_count ic)" "ic_count ic \<le> ic_size ic"
    by (rule ic_table_okD)
  from get_icount_el_lookup [OF ok o(1) n, of True "\<lambda>_. (0, 0)" "\<lambda>_ _ _. 0" k] obtain r c where
    g: "get_icount_el True (\<lambda>_. (0, 0)) (\<lambda>_ _ _. 0) ic k False = Some (r, ic\<lparr>ic_cursor := c\<rparr>)"
      "case r of None \<Rightarrow> kt_get list (ic_count ic) k = None | Some i \<Rightarrow> i < ic_count ic \<and> fst (list ! i) = k" by blast
  show ?thesis
  proof (cases r)
    case None
    with g o fm show ?thesis
      by (intro exI [of _ ENOENT] exI [of _ 0] exI [of _ c]) (simp add: get_inode_count_def ic_entry_def)
  next
    case (Some i)
    with g(2) kt_get_nth [OF o(3), of i] have "ic_entry ic k = unat (snd (list ! i))" by (auto simp: ic_entry_def o(1))
    with Some g o fm show ?thesis
      by (intro exI [of _ E_OK] exI [of _ "snd (list ! i)"] exI [of _ c]) (simp add: get_inode_count_def)
  qed
qed

subsection \<open>The counts\<close>

definition ic_inodes :: "'p icount \<Rightarrow> u32 set" where
  "ic_inodes ic = {ino. \<not> ino_out_of_range ic ino}"

definition ib_ok :: "('p bitmap64 \<Rightarrow> bool) \<Rightarrow> u32 set \<Rightarrow> 'p gbitmap \<Rightarrow> bool" where
  "ib_ok good inos g \<longleftrightarrow> gb_plain good g \<and> ucast ` inos \<subseteq> gb_univ g"

text \<open>A well-formed structure with bitmaps and table, and one with an array of counters.\<close>

definition ic_bok :: "('p bitmap64 \<Rightarrow> bool) \<Rightarrow> 'p icount \<Rightarrow> bool" where
  "ic_bok good ic \<longleftrightarrow> ic_magic ic = EXT2_ET_MAGIC_ICOUNT \<and> ic_fullmap ic = None \<and> ib_ok good (ic_inodes ic) (ic_single ic)
     \<and> (ic_multiple ic = NullBitmap \<or> ib_ok good (ic_inodes ic) (ic_multiple ic)) \<and> ic_table_ok ic"

definition ic_fok :: "'p icount \<Rightarrow> bool" where
  "ic_fok ic \<longleftrightarrow> ic_magic ic = EXT2_ET_MAGIC_ICOUNT \<and> ic_multiple ic = NullBitmap
     \<and> (\<exists>fm. ic_fullmap ic = Some fm \<and> length fm = unat (ic_num_inodes ic) \<and> (\<forall>v \<in> set fm. unat v \<le> 65500))"

definition ic_ok :: "('p bitmap64 \<Rightarrow> bool) \<Rightarrow> 'p icount \<Rightarrow> bool" where
  "ic_ok good ic \<longleftrightarrow> ic_bok good ic \<and> ic_count ic \<le> INT_MAX \<or> ic_fok ic"

text \<open>The set of inodes marked in \<^verbatim>\<open>multiple\<close>, if there is one, and the count of an inode.\<close>

definition ic_multi :: "('p bitmap64 \<Rightarrow> u64 set) \<Rightarrow> 'p icount \<Rightarrow> u64 set option" where
  "ic_multi bits ic = (if ic_multiple ic = NullBitmap then None else Some (gb_bits bits (ic_multiple ic)))"

definition ic_view :: "u64 set \<Rightarrow> u64 set option \<Rightarrow> (u32 \<Rightarrow> nat) \<Rightarrow> u32 \<Rightarrow> nat" where
  "ic_view S M E k = (if ucast k \<in> S then 1 else if (case M of None \<Rightarrow> False | Some m \<Rightarrow> ucast k \<notin> m) then 0 else E k)"

definition ic_val :: "('p bitmap64 \<Rightarrow> u64 set) \<Rightarrow> 'p icount \<Rightarrow> u32 \<Rightarrow> nat" where
  "ic_val bits ic k =
     (case ic_fullmap ic of
        Some fm \<Rightarrow> unat (fm ! unat k)
      | None \<Rightarrow> ic_view (gb_bits bits (ic_single ic)) (ic_multi bits ic) (ic_entry ic) k)"

text \<open>The inodes that can be counted: with an array, the last one has no counter.\<close>

definition ic_keys :: "'p icount \<Rightarrow> u32 set" where
  "ic_keys ic = {k \<in> ic_inodes ic. ic_fullmap ic \<noteq> None \<longrightarrow> k < ic_num_inodes ic}"

definition ic_budget :: "('p bitmap64 \<Rightarrow> u64 set) \<Rightarrow> nat \<Rightarrow> 'p icount \<Rightarrow> bool" where
  "ic_budget bits n ic \<longleftrightarrow> (\<forall>k \<in> ic_keys ic. ic_val bits ic k + n \<le> (if ic_fullmap ic = None then 4294967295 else 65500))
     \<and> (ic_fullmap ic = None \<longrightarrow> ic_count ic + n \<le> INT_MAX)"

lemma ucast_32_64_inj [simp]: "(ucast (a :: u32) :: u64) = ucast b \<longleftrightarrow> a = b"
  by (metis unat_ucast_32_64 word_unat_eq_iff)

lemma ic_view_update:
  "ic_view (insert (ucast k) S) M E = (ic_view S M E)(k := 1)"
  "ic_view (S - {ucast k}) (map_option (insert (ucast k)) M) (E(k := v)) = (ic_view S M E)(k := v)"
  "ic_view (S - {ucast k}) (Some (m - {ucast k})) E = (ic_view S (Some m) E)(k := 0)"
  by (auto simp: ic_view_def fun_eq_iff split: option.split)

lemma ic_view_mono: "ic_view (insert (ucast k) S) M (E(k := v)) = (ic_view S M E)(k := 1)"
  by (auto simp: ic_view_def fun_eq_iff split: option.split)

lemma unat_xlate: "unat (icount_16_xlate w) = min (unat w) 65500"
proof (cases "w > 65500")
  case True
  then show ?thesis by (simp add: icount_16_xlate_def word_less_nat_alt)
next
  case False
  then have "unat w \<le> 65500" by (simp add: word_less_nat_alt)
  moreover have "unat (ucast w :: u16) = unat w mod 65536"
    by (simp add: unsigned_ucast_eq unsigned_take_bit_eq take_bit_eq_mod)
  ultimately show ?thesis using False by (simp add: icount_16_xlate_def)
qed

context bitmap_backend
begin

lemma ib_test:
  assumes "gb_plain inv g"
  shows "\<exists>r. ext2fs_test_inode_bitmap2 ops g k = Some r \<and> (r \<noteq> 0 \<longleftrightarrow> ucast k \<in> gb_bits bits g)"
  using assms gb_test_all [of g "ucast k"] by (simp add: ext2fs_test_inode_bitmap2_def gb_plain_def)

lemma ib_mark:
  assumes "ib_ok inv inos g" "k \<in> inos"
  shows "\<exists>r g'. ext2fs_mark_inode_bitmap2 ops g k = Some (r, g') \<and> ib_ok inv inos g' \<and> g' \<noteq> NullBitmap
    \<and> gb_bits bits g' = insert (ucast k) (gb_bits bits g)"
proof -
  from assms have g: "gb_ok inv g" "gb_shift g = 0" "ucast k \<in> gb_univ g" "ucast ` inos \<subseteq> gb_univ g"
    by (auto simp: ib_ok_def gb_plain_def)
  from gb_mark_all [OF g(1), of "ucast k"] obtain r g' where
    m: "ext2fs_mark_generic_bmap ops g (ucast k) = Some (r, g')" "gb_ok inv g'" "gb_univ g' = gb_univ g"
      "gb_shift g' = gb_shift g" "gb_bits bits g' = gb_bits bits g \<union> (gb_unit g (ucast k) \<inter> gb_univ g)" by auto
  moreover have "g' \<noteq> NullBitmap" using m(2) by (auto simp: gb_ok_def)
  ultimately show ?thesis using g gb_unit_plain [OF g(2)]
    by (auto simp: ext2fs_mark_inode_bitmap2_def ib_ok_def gb_plain_def)
qed

lemma ib_unmark:
  assumes "ib_ok inv inos g"
  shows "\<exists>r g'. ext2fs_unmark_inode_bitmap2 ops g k = Some (r, g') \<and> ib_ok inv inos g' \<and> g' \<noteq> NullBitmap
    \<and> gb_bits bits g' = gb_bits bits g - {ucast k}"
proof -
  from assms have g: "gb_ok inv g" "gb_shift g = 0" "ucast ` inos \<subseteq> gb_univ g"
    by (auto simp: ib_ok_def gb_plain_def)
  from gb_unmark_all [OF g(1), of "ucast k"] obtain r g' where
    m: "ext2fs_unmark_generic_bmap ops g (ucast k) = Some (r, g')" "gb_ok inv g'" "gb_univ g' = gb_univ g"
      "gb_shift g' = gb_shift g" "gb_bits bits g' = gb_bits bits g - gb_unit g (ucast k)" by auto
  moreover have "g' \<noteq> NullBitmap" using m(2) by (auto simp: gb_ok_def)
  ultimately show ?thesis using g gb_unit_plain [OF g(2)]
    by (auto simp: ext2fs_unmark_inode_bitmap2_def ib_ok_def gb_plain_def)
qed

text \<open>The changes of the bitmaps inside the structure.\<close>

lemma ic_mark_single:
  assumes "ic_bok inv ic" "k \<in> ic_inodes ic"
  shows "\<exists>r s. ext2fs_mark_inode_bitmap2 ops (ic_single ic) k = Some (r, s) \<and> ic_bok inv (ic\<lparr>ic_single := s\<rparr>)
    \<and> gb_bits bits s = insert (ucast k) (gb_bits bits (ic_single ic))"
  using assms ib_mark [of "ic_inodes ic" "ic_single ic" k]
  by (auto simp: ic_bok_def ic_inodes_def ino_out_of_range_def ic_table_ok_def)

lemma ic_unmark_single:
  assumes "ic_bok inv ic"
  shows "\<exists>r s. ext2fs_unmark_inode_bitmap2 ops (ic_single ic) k = Some (r, s) \<and> ic_bok inv (ic\<lparr>ic_single := s\<rparr>)
    \<and> gb_bits bits s = gb_bits bits (ic_single ic) - {ucast k}"
  using assms ib_unmark [of "ic_inodes ic" "ic_single ic" k]
  by (auto simp: ic_bok_def ic_inodes_def ino_out_of_range_def ic_table_ok_def)

lemma ic_mark_multiple:
  assumes "ic_bok inv ic" "k \<in> ic_inodes ic"
  shows "\<exists>m. (if ic_multiple ic = NullBitmap then Some ic else do {
        (_, m) \<leftarrow> ext2fs_mark_inode_bitmap2 ops (ic_multiple ic) k;
        Some (ic\<lparr>ic_multiple := m\<rparr>) }) = Some (ic\<lparr>ic_multiple := m\<rparr>)
    \<and> ic_bok inv (ic\<lparr>ic_multiple := m\<rparr>)
    \<and> ic_multi bits (ic\<lparr>ic_multiple := m\<rparr>) = map_option (insert (ucast k)) (ic_multi bits ic)"
proof (cases "ic_multiple ic = NullBitmap")
  case True
  then have e: "ic\<lparr>ic_multiple := NullBitmap\<rparr> = ic" by (cases ic) simp
  show ?thesis using True assms(1) by (intro exI [of _ NullBitmap]) (simp add: ic_multi_def e)
next
  case False
  with assms ib_mark [of "ic_inodes ic" "ic_multiple ic" k] obtain r m where
    m: "ext2fs_mark_inode_bitmap2 ops (ic_multiple ic) k = Some (r, m)" "ib_ok inv (ic_inodes ic) m" "m \<noteq> NullBitmap"
      "gb_bits bits m = insert (ucast k) (gb_bits bits (ic_multiple ic))" by (auto simp: ic_bok_def)
  with False assms(1) show ?thesis
    by (intro exI [of _ m]) (simp add: ic_bok_def ic_multi_def ic_inodes_def ino_out_of_range_def ic_table_ok_def)
qed

lemma ic_unmark_multiple_eq:
  assumes "ic_bok inv ic" "ic_multiple ic \<noteq> NullBitmap"
  shows "\<exists>m. ic_unmark_multiple ops ic k = Some (ic\<lparr>ic_multiple := m\<rparr>) \<and> ic_bok inv (ic\<lparr>ic_multiple := m\<rparr>)
    \<and> ic_multi bits (ic\<lparr>ic_multiple := m\<rparr>) = Some (gb_bits bits (ic_multiple ic) - {ucast k})"
proof -
  from assms ib_unmark [of "ic_inodes ic" "ic_multiple ic" k] obtain r m where
    m: "ext2fs_unmark_inode_bitmap2 ops (ic_multiple ic) k = Some (r, m)" "ib_ok inv (ic_inodes ic) m" "m \<noteq> NullBitmap"
      "gb_bits bits m = gb_bits bits (ic_multiple ic) - {ucast k}" by (auto simp: ic_bok_def)
  with assms show ?thesis
    by (intro exI [of _ m])
      (simp add: ic_unmark_multiple_def ic_bok_def ic_multi_def ic_inodes_def ino_out_of_range_def ic_table_ok_def)
qed

text \<open>Changing and reading the table inside the structure.\<close>

lemma ic_set_count:
  assumes ok: "ic_bok inv ic" and n: "ic_count ic < INT_MAX"
  shows "\<exists>ic'. set_inode_count True junk grow ic k v = Some (E_OK, ic') \<and> ic_bok inv ic' \<and> ic_frame ic ic'
    \<and> ic_count ic' \<le> ic_count ic + 1 \<and> ic_entry ic' = (ic_entry ic)(k := unat v)"
proof -
  from ok have t: "ic_table_ok ic" "ic_fullmap ic = None" by (simp_all add: ic_bok_def)
  from set_inode_count_table [OF t n, of junk grow k v] obtain ic' where
    s: "set_inode_count True junk grow ic k v = Some (E_OK, ic')" "ic_table_ok ic'" "ic_frame ic ic'"
      "ic_count ic' \<le> ic_count ic + 1" "ic_entry ic' = (ic_entry ic)(k := unat v)" by blast
  from s(3) have "ic_inodes ic' = ic_inodes ic" by (simp add: ic_frame_def ic_inodes_def ino_out_of_range_def)
  with ok s show ?thesis by (auto simp: ic_bok_def ic_frame_def)
qed

lemma ic_test_single:
  assumes "ic_bok inv ic"
  shows "\<exists>r. ext2fs_test_inode_bitmap2 ops (ic_single ic) k = Some r \<and> (r \<noteq> 0 \<longleftrightarrow> ucast k \<in> gb_bits bits (ic_single ic))"
  using assms ib_test [of "ic_single ic" k] by (simp add: ic_bok_def ib_ok_def)

lemma ic_test_multiple:
  assumes "ic_bok inv ic" "ic_multiple ic \<noteq> NullBitmap"
  shows "\<exists>r. ext2fs_test_inode_bitmap2 ops (ic_multiple ic) k = Some r \<and> (r \<noteq> 0 \<longleftrightarrow> ucast k \<in> gb_bits bits (ic_multiple ic))"
  using assms ib_test [of "ic_multiple ic" k] by (simp add: ic_bok_def ib_ok_def)

end

lemma ic_frame_val:
  assumes "ic_frame ic ic'"
  shows "ic_multi bits ic' = ic_multi bits ic" "ic_single ic' = ic_single ic" "ic_keys ic' = ic_keys ic" "ic_inodes ic' = ic_inodes ic"
  using assms by (auto simp: ic_frame_def ic_multi_def ic_keys_def ic_inodes_def ino_out_of_range_def)

lemma ic_val_bok: "ic_bok good ic \<Longrightarrow> ic_val bits ic = ic_view (gb_bits bits (ic_single ic)) (ic_multi bits ic) (ic_entry ic)"
  by (simp add: ic_bok_def ic_val_def fun_eq_iff)

lemma ic_bitmaps_irrelevant [simp]:
  "ic_entry (ic\<lparr>ic_single := s\<rparr>) = ic_entry ic" "ic_entry (ic\<lparr>ic_multiple := s\<rparr>) = ic_entry ic"
  "ic_multi bits (ic\<lparr>ic_single := s\<rparr>) = ic_multi bits ic" "ic_inodes (ic\<lparr>ic_single := s\<rparr>) = ic_inodes ic"
  "ic_inodes (ic\<lparr>ic_multiple := s\<rparr>) = ic_inodes ic" "ic_keys (ic\<lparr>ic_single := s\<rparr>) = ic_keys ic"
  "ic_keys (ic\<lparr>ic_multiple := s\<rparr>) = ic_keys ic"
  by (auto simp: ic_entry_def ic_multi_def ic_inodes_def ic_keys_def ino_out_of_range_def fun_eq_iff split: option.split)

lemma ic_budget_bitmap:
  assumes b: "ic_budget bits (Suc n) ic" and fm: "ic_fullmap ic = None" "ic_fullmap ic' = None"
    and c: "ic_count ic' \<le> ic_count ic + 1" "ic_keys ic' = ic_keys ic"
    and v: "ic_val bits ic' = (ic_val bits ic)(k := v)" "v + n \<le> 4294967295"
  shows "ic_budget bits n ic'"
proof -
  have "ic_val bits ic' x + n \<le> 4294967295" if "x \<in> ic_keys ic" for x
  proof (cases "x = k")
    case False
    have "ic_val bits ic x + Suc n \<le> 4294967295" using b fm that by (simp add: ic_budget_def)
    with False v(1) show ?thesis by simp
  qed (use v in simp)
  with b fm c show ?thesis by (simp add: ic_budget_def)
qed

text \<open>
  What an operation has to establish: a well-formed structure in which one count has changed. The counts of
  the others, the set of inodes and the budget follow.
\<close>

definition ic_step ::
    "('p bitmap64 \<Rightarrow> bool) \<Rightarrow> ('p bitmap64 \<Rightarrow> u64 set) \<Rightarrow> 'p icount \<Rightarrow> u32 \<Rightarrow> nat \<Rightarrow> 'p icount \<Rightarrow> bool" where
  "ic_step good bits ic k v ic' \<longleftrightarrow> ic_bok good ic' \<and> ic_keys ic' = ic_keys ic \<and> ic_count ic' \<le> ic_count ic + 1
     \<and> ic_val bits ic' = (ic_val bits ic)(k := v)"

text \<open>A change of the representation that keeps all counts.\<close>

definition ic_same :: "('p bitmap64 \<Rightarrow> bool) \<Rightarrow> ('p bitmap64 \<Rightarrow> u64 set) \<Rightarrow> 'p icount \<Rightarrow> 'p icount \<Rightarrow> bool" where
  "ic_same good bits ic ic' \<longleftrightarrow> ic_bok good ic' \<and> ic_keys ic' = ic_keys ic \<and> ic_count ic' = ic_count ic
     \<and> ic_val bits ic' = ic_val bits ic"

lemma ic_same_refl: "ic_bok good ic \<Longrightarrow> ic_same good bits ic ic"
  by (simp add: ic_same_def)

lemma ic_step_same: "ic_step good bits ic k v ic1 \<Longrightarrow> ic_same good bits ic1 ic2 \<Longrightarrow> ic_step good bits ic k v ic2"
  by (simp add: ic_step_def ic_same_def)

lemma ic_step_refl: "ic_same good bits ic ic' \<Longrightarrow> ic_val bits ic k = v \<Longrightarrow> ic_step good bits ic k v ic'"
  by (auto simp: ic_step_def ic_same_def)

lemma ic_same_cursor: "ic_bok good ic \<Longrightarrow> ic_same good bits ic (ic\<lparr>ic_cursor := c\<rparr>)"
  by (simp add: ic_same_def ic_bok_def ic_keys_def ic_inodes_def ino_out_of_range_def ic_val_def ic_multi_def fun_eq_iff)

lemma ic_multi_cursor [simp]: "ic_multi bits (ic\<lparr>ic_cursor := c\<rparr>) = ic_multi bits ic"
  by (simp add: ic_multi_def)

context bitmap_backend
begin

text \<open>A count that is written to the table: the mark in \<^verbatim>\<open>single\<close> goes, the one in \<^verbatim>\<open>multiple\<close> comes.\<close>

lemma ic_raise:
  assumes ok: "ic_bok inv ic" and k: "k \<in> ic_inodes ic" and n: "ic_count ic < INT_MAX"
    and b: "b \<or> ucast k \<notin> gb_bits bits (ic_single ic)"
  shows "\<exists>ic2 g mm. set_inode_count True junk grow ic k w = Some (E_OK, ic2)
    \<and> (if b then do { (_, g) \<leftarrow> ext2fs_unmark_inode_bitmap2 ops (ic_single ic2) k; Some (ic2\<lparr>ic_single := g\<rparr>) } else Some ic2)
      = Some (ic2\<lparr>ic_single := g\<rparr>)
    \<and> (if ic_multiple (ic2\<lparr>ic_single := g\<rparr>) = NullBitmap then Some (ic2\<lparr>ic_single := g\<rparr>) else do {
        (_, mm) \<leftarrow> ext2fs_mark_inode_bitmap2 ops (ic_multiple (ic2\<lparr>ic_single := g\<rparr>)) k; Some (ic2\<lparr>ic_single := g, ic_multiple := mm\<rparr>) })
      = Some (ic2\<lparr>ic_single := g, ic_multiple := mm\<rparr>)
    \<and> ic_step inv bits ic k (unat w) (ic2\<lparr>ic_single := g, ic_multiple := mm\<rparr>)"
proof -
  let ?S = "gb_bits bits (ic_single ic)"
  from ic_set_count [OF ok n, of junk grow k w] obtain ic2 where
    i2: "set_inode_count True junk grow ic k w = Some (E_OK, ic2)" "ic_bok inv ic2" "ic_frame ic ic2"
      "ic_count ic2 \<le> ic_count ic + 1" "ic_entry ic2 = (ic_entry ic)(k := unat w)" by auto
  note f = ic_frame_val [OF i2(3)]
  obtain g where g: "(if b then do { (_, g) \<leftarrow> ext2fs_unmark_inode_bitmap2 ops (ic_single ic2) k; Some (ic2\<lparr>ic_single := g\<rparr>) } else Some ic2)
      = Some (ic2\<lparr>ic_single := g\<rparr>)" "ic_bok inv (ic2\<lparr>ic_single := g\<rparr>)" "gb_bits bits g = ?S - {ucast k}"
  proof (cases b)
    case False
    have e: "ic2\<lparr>ic_single := ic_single ic\<rparr> = ic2" using f(2) by (cases ic2) simp
    show thesis by (rule that [of "ic_single ic"]) (use False i2(2) b in \<open>simp_all add: e\<close>)
  next
    case True
    from ic_unmark_single [OF i2(2), of k] f(2) obtain r g where "ext2fs_unmark_inode_bitmap2 ops (ic_single ic2) k = Some (r, g)"
      "ic_bok inv (ic2\<lparr>ic_single := g\<rparr>)" "gb_bits bits g = ?S - {ucast k}" by auto
    with True show thesis by (intro that [of g]) simp_all
  qed
  have "k \<in> ic_inodes (ic2\<lparr>ic_single := g\<rparr>)" using k f(4) by simp
  from ic_mark_multiple [OF g(2) this] obtain mm where
    mm: "(if ic_multiple (ic2\<lparr>ic_single := g\<rparr>) = NullBitmap then Some (ic2\<lparr>ic_single := g\<rparr>) else do {
        (_, mm) \<leftarrow> ext2fs_mark_inode_bitmap2 ops (ic_multiple (ic2\<lparr>ic_single := g\<rparr>)) k; Some (ic2\<lparr>ic_single := g, ic_multiple := mm\<rparr>) })
      = Some (ic2\<lparr>ic_single := g, ic_multiple := mm\<rparr>)" "ic_bok inv (ic2\<lparr>ic_single := g, ic_multiple := mm\<rparr>)"
      "ic_multi bits (ic2\<lparr>ic_single := g, ic_multiple := mm\<rparr>) = map_option (insert (ucast k)) (ic_multi bits (ic2\<lparr>ic_single := g\<rparr>))"
    by blast
  have "ic_val bits (ic2\<lparr>ic_single := g, ic_multiple := mm\<rparr>) = (ic_val bits ic)(k := unat w)"
    using i2(5) g(3) mm(3) f(1) [of bits] by (simp add: ic_val_bok [OF mm(2)] ic_val_bok [OF ok] ic_view_update(2))
  with mm(2) i2(4) f(3) have "ic_step inv bits ic k (unat w) (ic2\<lparr>ic_single := g, ic_multiple := mm\<rparr>)" by (simp add: ic_step_def)
  with i2(1) g(1) mm(1) show ?thesis by (intro exI [of _ ic2] exI [of _ g] exI [of _ mm]) (intro conjI; assumption)
qed

text \<open>The value that the increment computes.\<close>

lemma ic_next_value:
  assumes ok: "ic_bok inv ic" and n: "ic_count ic \<le> INT_MAX" and v: "ic_val bits ic k < 4294967295"
    and s: "s \<noteq> 0 \<longleftrightarrow> ucast k \<in> gb_bits bits (ic_single ic)"
    and t: "s = 0 \<Longrightarrow> \<not> (case ic_multi bits ic of None \<Rightarrow> False | Some mm \<Rightarrow> ucast k \<notin> mm)"
  shows "\<exists>w c. (if s \<noteq> 0 then Some (2, ic) else do { (_, w, ic) \<leftarrow> get_inode_count ic k; Some (w + 1, ic) })
      = Some (w, ic\<lparr>ic_cursor := c\<rparr>) \<and> unat w = Suc (ic_val bits ic k)"
proof (cases "s = 0")
  case True
  with t s have val: "ic_val bits ic k = ic_entry ic k" by (simp add: ic_val_bok [OF ok] ic_view_def)
  from ok have "ic_table_ok ic" "ic_fullmap ic = None" by (simp_all add: ic_bok_def)
  from get_inode_count_table [OF this n, of k] obtain e w c where
    w: "get_inode_count ic k = Some (e, w, ic\<lparr>ic_cursor := c\<rparr>)" "unat w = ic_entry ic k" by auto
  have "unat (w + 1) = Suc (ic_val bits ic k)" using w(2) v val by (subst unat_add_u32) simp_all
  with True w show ?thesis by (intro exI [of _ "w + 1"] exI [of _ c]) simp
next
  case False
  then have "ic_val bits ic k = 1" using s by (simp add: ic_val_bok [OF ok] ic_view_def)
  moreover have "ic\<lparr>ic_cursor := ic_cursor ic\<rparr> = ic" by (cases ic) simp
  ultimately show ?thesis using False by (intro exI [of _ 2] exI [of _ "ic_cursor ic"]) simp
qed

lemma ic_increment_bitmap:
  assumes ok: "ic_bok inv ic" and k: "k \<in> ic_inodes ic" and n: "ic_count ic < INT_MAX" and v: "ic_val bits ic k < 4294967295"
  shows "\<exists>w ic'. ext2fs_icount_increment True junk grow ops ic k = Some (E_OK, Some w, ic')
    \<and> unat w = min (Suc (ic_val bits ic k)) 65500 \<and> ic_step inv bits ic k (Suc (ic_val bits ic k)) ic'"
proof -
  let ?S = "gb_bits bits (ic_single ic)" and ?M = "ic_multi bits ic"
  note view = ic_val_bok [OF ok, of bits]
  from ok k have m: "ic_magic ic = EXT2_ET_MAGIC_ICOUNT" "\<not> ino_out_of_range ic k" "ic_fullmap ic = None"
    by (simp_all add: ic_bok_def ic_inodes_def)
  obtain s where s: "ext2fs_test_inode_bitmap2 ops (ic_single ic) k = Some s" "s \<noteq> 0 \<longleftrightarrow> ucast k \<in> ?S"
    using ic_test_single [OF ok] by blast
  obtain t where t: "(if s \<noteq> 0 \<or> ic_multiple ic = NullBitmap then Some 1 else ext2fs_test_inode_bitmap2 ops (ic_multiple ic) k) = Some t"
    "t = 0 \<longleftrightarrow> s = 0 \<and> (case ?M of None \<Rightarrow> False | Some mm \<Rightarrow> ucast k \<notin> mm)"
    using ic_test_multiple [OF ok, of k] by (cases "s \<noteq> 0 \<or> ic_multiple ic = NullBitmap") (auto simp: ic_multi_def)
  show ?thesis
  proof (cases "t = 0")
    case True
    from ic_mark_single [OF ok k] obtain r g where
      g: "ext2fs_mark_inode_bitmap2 ops (ic_single ic) k = Some (r, g)" "ic_bok inv (ic\<lparr>ic_single := g\<rparr>)"
        "gb_bits bits g = insert (ucast k) ?S" by blast
    have "ic_val bits ic k = 0" using True s(2) t(2) by (simp add: view ic_view_def)
    moreover have "ext2fs_icount_increment True junk grow ops ic k = Some (E_OK, Some 1, ic\<lparr>ic_single := g\<rparr>)"
      using True g(1) t s by (simp add: ext2fs_icount_increment_def m)
    moreover have "ic_val bits (ic\<lparr>ic_single := g\<rparr>) = (ic_val bits ic)(k := 1)"
      using g(3) by (simp add: ic_val_bok [OF g(2)] view ic_view_update(1))
    ultimately show ?thesis using g(2) by (simp add: ic_step_def)
  next
    case False
    with t(2) have t': "s = 0 \<Longrightarrow> \<not> (case ?M of None \<Rightarrow> False | Some mm \<Rightarrow> ucast k \<notin> mm)" by blast
    from ic_next_value [OF ok less_imp_le [OF n] v s(2) t'] obtain w c where
      w: "(if s \<noteq> 0 then Some (2, ic) else do { (_, w, ic) \<leftarrow> get_inode_count ic k; Some (w + 1, ic) })
        = Some (w, ic\<lparr>ic_cursor := c\<rparr>)" "unat w = Suc (ic_val bits ic k)" by blast
    let ?ic = "ic\<lparr>ic_cursor := c\<rparr>"
    have same: "ic_same inv bits ic ?ic" by (rule ic_same_cursor [OF ok])
    have "ic_bok inv ?ic" "k \<in> ic_inodes ?ic" "ic_count ?ic < INT_MAX" "s \<noteq> 0 \<or> ucast k \<notin> gb_bits bits (ic_single ?ic)"
      using same n k s(2) by (simp_all add: ic_same_def ic_inodes_def ino_out_of_range_def)
    from ic_raise [OF this, of junk grow w] obtain ic2 g mm where
      r: "set_inode_count True junk grow ?ic k w = Some (E_OK, ic2)"
        "(if s \<noteq> 0 then do { (_, g) \<leftarrow> ext2fs_unmark_inode_bitmap2 ops (ic_single ic2) k; Some (ic2\<lparr>ic_single := g\<rparr>) } else Some ic2)
          = Some (ic2\<lparr>ic_single := g\<rparr>)"
        "(if ic_multiple (ic2\<lparr>ic_single := g\<rparr>) = NullBitmap then Some (ic2\<lparr>ic_single := g\<rparr>) else do {
            (_, mm) \<leftarrow> ext2fs_mark_inode_bitmap2 ops (ic_multiple (ic2\<lparr>ic_single := g\<rparr>)) k; Some (ic2\<lparr>ic_single := g, ic_multiple := mm\<rparr>) })
          = Some (ic2\<lparr>ic_single := g, ic_multiple := mm\<rparr>)"
        "ic_step inv bits ?ic k (unat w) (ic2\<lparr>ic_single := g, ic_multiple := mm\<rparr>)" by blast
    have "ext2fs_icount_increment True junk grow ops ic k = Some (E_OK, Some (icount_16_xlate w), ic2\<lparr>ic_single := g, ic_multiple := mm\<rparr>)"
      by (simp only: ext2fs_icount_increment_def m s(1) option.case Option.bind.simps t(1) False w(1) r(1-3)
          if_False if_True simp_thms prod.case)
    with r(4) same w(2) show ?thesis by (simp add: ic_step_def ic_same_def unat_xlate)
  qed
qed

text \<open>When the table says 1 or 0 the bitmaps are brought in line.\<close>

lemma ic_note_one:
  assumes ok: "ic_bok inv ic" and k: "k \<in> ic_inodes ic" and v: "ic_val bits ic k = unat v"
  shows "\<exists>ic'. (if v = 1 then do { (_, g) \<leftarrow> ext2fs_mark_inode_bitmap2 ops (ic_single ic) k; Some (ic\<lparr>ic_single := g\<rparr>) } else Some ic)
    = Some ic' \<and> ic_same inv bits ic ic'"
proof (cases "v = 1")
  case True
  from ic_mark_single [OF ok k] obtain r g where
    g: "ext2fs_mark_inode_bitmap2 ops (ic_single ic) k = Some (r, g)" "ic_bok inv (ic\<lparr>ic_single := g\<rparr>)"
      "gb_bits bits g = insert (ucast k) (gb_bits bits (ic_single ic))" by blast
  have "ic_val bits (ic\<lparr>ic_single := g\<rparr>) = (ic_val bits ic)(k := 1)"
    using g(3) by (simp add: ic_val_bok [OF g(2)] ic_val_bok [OF ok] ic_view_update(1))
  moreover have "ic_val bits ic k = 1" using v True by simp
  ultimately have "ic_val bits (ic\<lparr>ic_single := g\<rparr>) = ic_val bits ic" by (metis fun_upd_triv)
  with True g show ?thesis by (simp add: ic_same_def)
qed (use ok ic_same_refl in simp)

lemma ic_note_zero:
  assumes ok: "ic_bok inv ic" and v: "ic_val bits ic k = unat v"
  shows "\<exists>ic'. (if v = 0 \<and> ic_multiple ic \<noteq> NullBitmap then ic_unmark_multiple ops ic k else Some ic) = Some ic' \<and> ic_same inv bits ic ic'"
proof (cases "v = 0 \<and> ic_multiple ic \<noteq> NullBitmap")
  case True
  then have nn: "ic_multiple ic \<noteq> NullBitmap" by simp
  from ic_unmark_multiple_eq [OF ok nn, of k] obtain mm where
    mm: "ic_unmark_multiple ops ic k = Some (ic\<lparr>ic_multiple := mm\<rparr>)" "ic_bok inv (ic\<lparr>ic_multiple := mm\<rparr>)"
      "ic_multi bits (ic\<lparr>ic_multiple := mm\<rparr>) = Some (gb_bits bits (ic_multiple ic) - {ucast k})" by blast
  have z: "ic_val bits ic k = 0" using v True by simp
  then have kS: "ucast k \<notin> gb_bits bits (ic_single ic)" by (simp add: ic_val_bok [OF ok] ic_view_def split: if_splits)
  have "ic_multi bits ic = Some (gb_bits bits (ic_multiple ic))" using nn by (simp add: ic_multi_def)
  then have "ic_val bits (ic\<lparr>ic_multiple := mm\<rparr>) = (ic_val bits ic)(k := 0)"
    using mm(3) kS by (auto simp: ic_val_bok [OF mm(2)] ic_val_bok [OF ok] ic_view_def fun_eq_iff)
  with z have "ic_val bits (ic\<lparr>ic_multiple := mm\<rparr>) = ic_val bits ic" by (metis fun_upd_triv)
  with True mm show ?thesis by (intro exI [of _ "ic\<lparr>ic_multiple := mm\<rparr>"]) (simp add: ic_same_def)
next
  case False
  then show ?thesis using ic_same_refl [OF ok, of bits] by (intro exI [of _ ic]) auto
qed

end

text \<open>Clearing a count may go through the table or the bitmap.\<close>

context bitmap_backend
begin

lemma ic_clear:
  assumes ok: "ic_bok inv ic" and n: "ic_count ic < INT_MAX" and s: "ucast k \<notin> gb_bits bits (ic_single ic)"
  shows "\<exists>ic'. (if ic_multiple ic \<noteq> NullBitmap then ic_unmark_multiple ops ic k
      else map_option snd (set_inode_count True junk grow ic k 0)) = Some ic' \<and> ic_step inv bits ic k 0 ic'"
proof (cases "ic_multiple ic = NullBitmap")
  case True
  from ic_set_count [OF ok n, of junk grow k 0] obtain ic' where
    i: "set_inode_count True junk grow ic k 0 = Some (E_OK, ic')" "ic_bok inv ic'" "ic_frame ic ic'"
      "ic_count ic' \<le> ic_count ic + 1" "ic_entry ic' = (ic_entry ic)(k := 0)" by auto
  have "ic_multi bits ic = None" using True by (simp add: ic_multi_def)
  then have "ic_val bits ic' = (ic_val bits ic)(k := 0)"
    using s i(5) ic_frame_val(1,2) [OF i(3)] by (auto simp: ic_val_bok [OF i(2)] ic_val_bok [OF ok] ic_view_def fun_eq_iff)
  with True i ic_frame_val(3) [OF i(3)] show ?thesis by (intro exI [of _ ic']) (simp add: ic_step_def)
next
  case False
  from ic_unmark_multiple_eq [OF ok False, of k] obtain m where
    m: "ic_unmark_multiple ops ic k = Some (ic\<lparr>ic_multiple := m\<rparr>)" "ic_bok inv (ic\<lparr>ic_multiple := m\<rparr>)"
      "ic_multi bits (ic\<lparr>ic_multiple := m\<rparr>) = Some (gb_bits bits (ic_multiple ic) - {ucast k})" by blast
  have mu: "ic_multi bits ic = Some (gb_bits bits (ic_multiple ic))" using False by (simp add: ic_multi_def)
  have "gb_bits bits (ic_single ic) = gb_bits bits (ic_single ic) - {ucast k}" using s by blast
  then have "ic_val bits (ic\<lparr>ic_multiple := m\<rparr>) = (ic_val bits ic)(k := 0)"
    using m(3) mu ic_view_update(3) [of "gb_bits bits (ic_single ic)" k "gb_bits bits (ic_multiple ic)" "ic_entry ic"]
    by (simp add: ic_val_bok [OF m(2)] ic_val_bok [OF ok])
  with False m show ?thesis by (intro exI [of _ "ic\<lparr>ic_multiple := m\<rparr>"]) (simp add: ic_step_def)
qed

text \<open>The mark in \<^verbatim>\<open>single\<close> is removed first: then the count is what the rest says, and is cleared.\<close>

lemma ic_clear_all:
  assumes ok: "ic_bok inv ic" and n: "ic_count ic < INT_MAX"
  shows "\<exists>r s ic'. ext2fs_unmark_inode_bitmap2 ops (ic_single ic) k = Some (r, s)
    \<and> (if ic_multiple (ic\<lparr>ic_single := s\<rparr>) \<noteq> NullBitmap then ic_unmark_multiple ops (ic\<lparr>ic_single := s\<rparr>) k
       else map_option snd (set_inode_count True junk grow (ic\<lparr>ic_single := s\<rparr>) k 0)) = Some ic' \<and> ic_step inv bits ic k 0 ic'"
proof -
  from ic_unmark_single [OF ok, of k] obtain r s where
    s: "ext2fs_unmark_inode_bitmap2 ops (ic_single ic) k = Some (r, s)" "ic_bok inv (ic\<lparr>ic_single := s\<rparr>)"
      "gb_bits bits s = gb_bits bits (ic_single ic) - {ucast k}" by blast
  have "ic_count (ic\<lparr>ic_single := s\<rparr>) < INT_MAX" "ucast k \<notin> gb_bits bits (ic_single (ic\<lparr>ic_single := s\<rparr>))"
    using n s(3) by simp_all
  from ic_clear [OF s(2) this, of junk grow] obtain ic' where
    c: "(if ic_multiple (ic\<lparr>ic_single := s\<rparr>) \<noteq> NullBitmap then ic_unmark_multiple ops (ic\<lparr>ic_single := s\<rparr>) k
       else map_option snd (set_inode_count True junk grow (ic\<lparr>ic_single := s\<rparr>) k 0)) = Some ic'"
      "ic_step inv bits (ic\<lparr>ic_single := s\<rparr>) k 0 ic'" by blast
  have "(ic_val bits (ic\<lparr>ic_single := s\<rparr>))(k := 0) = (ic_val bits ic)(k := 0)"
    using s(3) by (auto simp: ic_val_bok [OF s(2)] ic_val_bok [OF ok] ic_view_def fun_eq_iff)
  with c(2) have "ic_step inv bits ic k 0 ic'" by (simp add: ic_step_def)
  with s(1) c(1) show ?thesis by blast
qed

lemma ic_lower:
  assumes ok: "ic_bok inv ic" and k: "k \<in> ic_inodes ic" and n: "ic_count ic < INT_MAX"
    and kS: "ucast k \<notin> gb_bits bits (ic_single ic)" and M: "\<not> (case ic_multi bits ic of None \<Rightarrow> False | Some mm \<Rightarrow> ucast k \<notin> mm)"
  shows "\<exists>ic2 ic3 ic4. set_inode_count True junk grow ic k w = Some (E_OK, ic2)
    \<and> (if w = 1 then do { (_, g) \<leftarrow> ext2fs_mark_inode_bitmap2 ops (ic_single ic2) k; Some (ic2\<lparr>ic_single := g\<rparr>) } else Some ic2) = Some ic3
    \<and> (if w = 0 \<and> ic_multiple ic3 \<noteq> NullBitmap then ic_unmark_multiple ops ic3 k else Some ic3) = Some ic4
    \<and> ic_step inv bits ic k (unat w) ic4"
proof -
  from ic_set_count [OF ok n, of junk grow k w] obtain ic2 where
    i2: "set_inode_count True junk grow ic k w = Some (E_OK, ic2)" "ic_bok inv ic2" "ic_frame ic ic2"
      "ic_count ic2 \<le> ic_count ic + 1" "ic_entry ic2 = (ic_entry ic)(k := unat w)" by auto
  note f = ic_frame_val [OF i2(3)]
  have val2: "ic_val bits ic2 = (ic_val bits ic)(k := unat w)"
    using i2(5) f(1,2) kS M by (auto simp: ic_val_bok [OF i2(2)] ic_val_bok [OF ok] ic_view_def fun_eq_iff)
  have s2: "ic_step inv bits ic k (unat w) ic2" using i2 f(3) val2 by (simp add: ic_step_def)
  have "k \<in> ic_inodes ic2" "ic_val bits ic2 k = unat w" using k f(4) val2 by simp_all
  from ic_note_one [OF i2(2) this] obtain ic3 where
    i3: "(if w = 1 then do { (_, g) \<leftarrow> ext2fs_mark_inode_bitmap2 ops (ic_single ic2) k; Some (ic2\<lparr>ic_single := g\<rparr>) } else Some ic2) = Some ic3"
      "ic_same inv bits ic2 ic3" by blast
  have "ic_bok inv ic3" "ic_val bits ic3 k = unat w" using i3(2) val2 by (simp_all add: ic_same_def)
  from ic_note_zero [OF this] obtain ic4 where
    i4: "(if w = 0 \<and> ic_multiple ic3 \<noteq> NullBitmap then ic_unmark_multiple ops ic3 k else Some ic3) = Some ic4" "ic_same inv bits ic3 ic4"
    by blast
  have "ic_step inv bits ic k (unat w) ic4" by (rule ic_step_same [OF ic_step_same [OF s2 i3(2)] i4(2)])
  with i2(1) i3(1) i4(1) show ?thesis by (intro exI [of _ ic2] exI [of _ ic3] exI [of _ ic4]) (intro conjI; assumption)
qed

lemma ic_decrement_table:
  assumes ok: "ic_bok inv ic" and k: "k \<in> ic_inodes ic" and n: "ic_count ic < INT_MAX"
    and s: "ext2fs_test_inode_bitmap2 ops (ic_single ic) k = Some 0" "ucast k \<notin> gb_bits bits (ic_single ic)"
    and t: "(if ic_multiple ic = NullBitmap then Some 1 else ext2fs_test_inode_bitmap2 ops (ic_multiple ic) k) = Some t" "t \<noteq> 0"
      "\<not> (case ic_multi bits ic of None \<Rightarrow> False | Some mm \<Rightarrow> ucast k \<notin> mm)"
  shows "\<exists>w ic'. ext2fs_icount_decrement True junk grow ops ic k
      = Some (if ic_val bits ic k = 0 then EXT2_ET_INVALID_ARGUMENT else E_OK, w, ic')
    \<and> ic_step inv bits ic k (ic_val bits ic k - 1) ic'"
proof -
  from ok k have m: "ic_magic ic = EXT2_ET_MAGIC_ICOUNT" "\<not> ino_out_of_range ic k" "ic_fullmap ic = None" "ic_table_ok ic"
    by (simp_all add: ic_bok_def ic_inodes_def)
  from s(2) t(3) have val: "ic_val bits ic k = ic_entry ic k" by (simp add: ic_val_bok [OF ok] ic_view_def)
  from get_inode_count_table [OF m(4,3), of k] n obtain e w c where
    w: "get_inode_count ic k = Some (e, w, ic\<lparr>ic_cursor := c\<rparr>)" "unat w = ic_entry ic k" by auto
  let ?ic = "ic\<lparr>ic_cursor := c\<rparr>"
  have same: "ic_same inv bits ic ?ic" by (rule ic_same_cursor [OF ok])
  show ?thesis
  proof (cases "w = 0")
    case True
    have "ext2fs_icount_decrement True junk grow ops ic k = Some (EXT2_ET_INVALID_ARGUMENT, None, ?ic)"
      by (simp only: ext2fs_icount_decrement_def m s(1) option.case Option.bind.simps t(1) t(2) w(1) True
          if_False if_True simp_thms prod.case)
    moreover have z: "ic_val bits ic k = 0" using True w(2) val by simp
    ultimately show ?thesis using ic_step_refl [OF same z] by simp
  next
    case False
    have "ic_bok inv ?ic" "k \<in> ic_inodes ?ic" "ic_count ?ic < INT_MAX" "ucast k \<notin> gb_bits bits (ic_single ?ic)"
      "\<not> (case ic_multi bits ?ic of None \<Rightarrow> False | Some mm \<Rightarrow> ucast k \<notin> mm)"
      using same n k s(2) t(3) by (simp_all add: ic_same_def ic_inodes_def ino_out_of_range_def)
    from ic_lower [OF this, of junk grow "w - 1"] obtain ic2 ic3 ic4 where
      r: "set_inode_count True junk grow ?ic k (w - 1) = Some (E_OK, ic2)"
        "(if w - 1 = 1 then do { (_, g) \<leftarrow> ext2fs_mark_inode_bitmap2 ops (ic_single ic2) k; Some (ic2\<lparr>ic_single := g\<rparr>) } else Some ic2) = Some ic3"
        "(if w - 1 = 0 \<and> ic_multiple ic3 \<noteq> NullBitmap then ic_unmark_multiple ops ic3 k else Some ic3) = Some ic4"
        "ic_step inv bits ?ic k (unat (w - 1)) ic4" by blast
    have "ext2fs_icount_decrement True junk grow ops ic k = Some (E_OK, Some (icount_16_xlate (w - 1)), ic4)"
      by (simp only: ext2fs_icount_decrement_def m s(1) option.case Option.bind.simps t(1) t(2) w(1) False r(1-3) Let_def
          if_False if_True simp_thms prod.case)
    moreover have "ic_val bits ic k \<noteq> 0" using False w(2) val by (metis unat_eq_0)
    moreover have "unat (w - 1) = ic_val bits ic k - 1" using False w(2) val by (simp add: unat_minus_one)
    ultimately show ?thesis using r(4) same by (simp add: ic_step_def ic_same_def)
  qed
qed

lemma ic_decrement_bitmap:
  assumes ok: "ic_bok inv ic" and k: "k \<in> ic_inodes ic" and n: "ic_count ic < INT_MAX"
  shows "\<exists>w ic'. ext2fs_icount_decrement True junk grow ops ic k
      = Some (if ic_val bits ic k = 0 then EXT2_ET_INVALID_ARGUMENT else E_OK, w, ic')
    \<and> ic_step inv bits ic k (ic_val bits ic k - 1) ic'"
proof -
  let ?S = "gb_bits bits (ic_single ic)" and ?M = "ic_multi bits ic"
  from ok k have m: "ic_magic ic = EXT2_ET_MAGIC_ICOUNT" "\<not> ino_out_of_range ic k" "ic_fullmap ic = None"
    by (simp_all add: ic_bok_def ic_inodes_def)
  obtain s where s: "ext2fs_test_inode_bitmap2 ops (ic_single ic) k = Some s" "s \<noteq> 0 \<longleftrightarrow> ucast k \<in> ?S"
    using ic_test_single [OF ok] by blast
  show ?thesis
  proof (cases "s = 0")
    case False
    from ic_clear_all [OF ok n, of k junk grow] obtain r g ic' where
      g: "ext2fs_unmark_inode_bitmap2 ops (ic_single ic) k = Some (r, g)"
        "(if ic_multiple (ic\<lparr>ic_single := g\<rparr>) \<noteq> NullBitmap then ic_unmark_multiple ops (ic\<lparr>ic_single := g\<rparr>) k
         else map_option snd (set_inode_count True junk grow (ic\<lparr>ic_single := g\<rparr>) k 0)) = Some ic'"
        "ic_step inv bits ic k 0 ic'" by blast
    have "ext2fs_icount_decrement True junk grow ops ic k = Some (E_OK, Some 0, ic')"
      by (simp only: ext2fs_icount_decrement_def m s(1) option.case Option.bind.simps False g(1,2) Let_def
          if_False if_True simp_thms prod.case)
    moreover have "ic_val bits ic k = 1" using False s(2) by (simp add: ic_val_bok [OF ok] ic_view_def)
    ultimately show ?thesis using g(3) by simp
  next
    case s0: True
    obtain t where t: "(if ic_multiple ic = NullBitmap then Some 1 else ext2fs_test_inode_bitmap2 ops (ic_multiple ic) k) = Some t"
      "t = 0 \<longleftrightarrow> (case ?M of None \<Rightarrow> False | Some mm \<Rightarrow> ucast k \<notin> mm)"
      using ic_test_multiple [OF ok, of k] by (cases "ic_multiple ic = NullBitmap") (auto simp: ic_multi_def)
    show ?thesis
    proof (cases "t = 0")
      case True
      have z: "ic_val bits ic k = 0" using True s0 s(2) t(2) by (simp add: ic_val_bok [OF ok] ic_view_def)
      moreover have "ext2fs_icount_decrement True junk grow ops ic k = Some (EXT2_ET_INVALID_ARGUMENT, None, ic)"
        by (simp only: ext2fs_icount_decrement_def m s(1) option.case Option.bind.simps s0 t(1) True
            if_False if_True simp_thms prod.case)
      ultimately show ?thesis using ic_step_refl [OF ic_same_refl [OF ok] z] by simp
    next
      case False
      with t(2) have M: "\<not> (case ?M of None \<Rightarrow> False | Some mm \<Rightarrow> ucast k \<notin> mm)" by blast
      have S: "ucast k \<notin> ?S" "ext2fs_test_inode_bitmap2 ops (ic_single ic) k = Some 0" using s s0 by simp_all
      from ic_decrement_table [OF ok k n S(2,1) t(1) False M] show ?thesis .
    qed
  qed
qed

lemma ic_single_only:
  assumes ok: "ic_bok inv ic" and g: "ic_bok inv (ic\<lparr>ic_single := g\<rparr>)"
    and bits: "gb_bits bits g = insert (ucast k) (gb_bits bits (ic_single ic))"
  shows "\<exists>ic'. (if ic_multiple (ic\<lparr>ic_single := g\<rparr>) \<noteq> NullBitmap then ic_unmark_multiple ops (ic\<lparr>ic_single := g\<rparr>) k else Some (ic\<lparr>ic_single := g\<rparr>))
      = Some ic' \<and> ic_step inv bits ic k 1 ic'"
proof (cases "ic_multiple (ic\<lparr>ic_single := g\<rparr>) = NullBitmap")
  case True
  have "ic_val bits (ic\<lparr>ic_single := g\<rparr>) = (ic_val bits ic)(k := 1)"
    using bits by (simp add: ic_val_bok [OF g] ic_val_bok [OF ok] ic_view_update(1))
  with True g show ?thesis by (simp add: ic_step_def)
next
  case False
  let ?ic = "ic\<lparr>ic_single := g\<rparr>"
  from ic_unmark_multiple_eq [OF g False, of k] obtain mm where
    mm: "ic_unmark_multiple ops ?ic k = Some (?ic\<lparr>ic_multiple := mm\<rparr>)" "ic_bok inv (?ic\<lparr>ic_multiple := mm\<rparr>)"
      "ic_multi bits (?ic\<lparr>ic_multiple := mm\<rparr>) = Some (gb_bits bits (ic_multiple ?ic) - {ucast k})" by blast
  have "ic_multi bits ic = Some (gb_bits bits (ic_multiple ic))" using False by (simp add: ic_multi_def)
  then have "ic_val bits (?ic\<lparr>ic_multiple := mm\<rparr>) = (ic_val bits ic)(k := 1)"
    using mm(3) bits by (auto simp: ic_val_bok [OF mm(2)] ic_val_bok [OF ok] ic_view_def fun_eq_iff)
  with False mm show ?thesis by (simp add: ic_step_def)
qed

lemma ic_store_bitmap:
  assumes ok: "ic_bok inv ic" and k: "k \<in> ic_inodes ic" and n: "ic_count ic < INT_MAX"
  shows "\<exists>ic'. ext2fs_icount_store True junk grow ops ic k w = Some (E_OK, ic') \<and> ic_step inv bits ic k (unat w) ic'"
proof -
  from ok k have m: "ic_magic ic = EXT2_ET_MAGIC_ICOUNT" "\<not> ino_out_of_range ic k" "ic_fullmap ic = None"
    by (simp_all add: ic_bok_def ic_inodes_def)
  consider "w = 1" | "w = 0" | "w \<noteq> 1" "w \<noteq> 0" by blast
  then show ?thesis
  proof cases
    case 1
    from ic_mark_single [OF ok k] obtain r g where
      g: "ext2fs_mark_inode_bitmap2 ops (ic_single ic) k = Some (r, g)" "ic_bok inv (ic\<lparr>ic_single := g\<rparr>)"
        "gb_bits bits g = insert (ucast k) (gb_bits bits (ic_single ic))" by blast
    let ?ic = "ic\<lparr>ic_single := g\<rparr>"
    from ic_single_only [OF ok g(2,3)] obtain ic' where
      u: "(if ic_multiple ?ic \<noteq> NullBitmap then ic_unmark_multiple ops ?ic k else Some ?ic) = Some ic'" "ic_step inv bits ic k 1 ic'" by blast
    have "ext2fs_icount_store True junk grow ops ic k w = Some (E_OK, ic')"
      by (simp only: ext2fs_icount_store_def m 1 g(1) u(1) Let_def option.case Option.bind.simps if_False if_True simp_thms prod.case)
    with u(2) 1 show ?thesis by simp
  next
    case 2
    from ic_clear_all [OF ok n, of k junk grow] obtain r g ic' where
      g: "ext2fs_unmark_inode_bitmap2 ops (ic_single ic) k = Some (r, g)"
        "(if ic_multiple (ic\<lparr>ic_single := g\<rparr>) \<noteq> NullBitmap then ic_unmark_multiple ops (ic\<lparr>ic_single := g\<rparr>) k
         else map_option snd (set_inode_count True junk grow (ic\<lparr>ic_single := g\<rparr>) k 0)) = Some ic'"
        "ic_step inv bits ic k 0 ic'" by blast
    have "0 \<noteq> (1 :: u16)" by simp
    then have "ext2fs_icount_store True junk grow ops ic k w = Some (E_OK, ic')"
      by (simp only: ext2fs_icount_store_def m 2 g(1,2) Let_def option.case Option.bind.simps if_False if_True simp_thms prod.case)
    with g(3) 2 show ?thesis by simp
  next
    case 3
    from ic_raise [OF ok k n, of True junk grow "ucast w"] obtain ic2 g mm where
      r: "set_inode_count True junk grow ic k (ucast w) = Some (E_OK, ic2)"
        "do { (_, g) \<leftarrow> ext2fs_unmark_inode_bitmap2 ops (ic_single ic2) k; Some (ic2\<lparr>ic_single := g\<rparr>) } = Some (ic2\<lparr>ic_single := g\<rparr>)"
        "(if ic_multiple (ic2\<lparr>ic_single := g\<rparr>) = NullBitmap then Some (ic2\<lparr>ic_single := g\<rparr>) else do {
            (_, mm) \<leftarrow> ext2fs_mark_inode_bitmap2 ops (ic_multiple (ic2\<lparr>ic_single := g\<rparr>)) k; Some (ic2\<lparr>ic_single := g, ic_multiple := mm\<rparr>) })
          = Some (ic2\<lparr>ic_single := g, ic_multiple := mm\<rparr>)"
        "ic_step inv bits ic k (unat (ucast w :: u32)) (ic2\<lparr>ic_single := g, ic_multiple := mm\<rparr>)" by auto
    from r(2) obtain e g' where u: "ext2fs_unmark_inode_bitmap2 ops (ic_single ic2) k = Some (e, g')" "ic2\<lparr>ic_single := g'\<rparr> = ic2\<lparr>ic_single := g\<rparr>"
      by (auto simp: bind_eq_Some_conv)
    have "ext2fs_icount_store True junk grow ops ic k w = Some (E_OK, ic2\<lparr>ic_single := g, ic_multiple := mm\<rparr>)"
      by (simp only: ext2fs_icount_store_def m 3 r(1) u r(3) Let_def option.case Option.bind.simps if_False if_True simp_thms prod.case)
    with r(4) show ?thesis by (simp add: unat_ucast_16_32)
  qed
qed

lemma ic_fetch_bitmap:
  assumes ok: "ic_bok inv ic" and k: "k \<in> ic_inodes ic" and n: "ic_count ic \<le> INT_MAX"
  shows "\<exists>w ic'. ext2fs_icount_fetch ops ic k = Some (Inr (w, ic')) \<and> unat w = min (ic_val bits ic k) 65500
    \<and> ic_same inv bits ic ic'"
proof -
  let ?S = "gb_bits bits (ic_single ic)" and ?M = "ic_multi bits ic"
  note view = ic_val_bok [OF ok, of bits]
  from ok k have m: "ic_magic ic = EXT2_ET_MAGIC_ICOUNT" "\<not> ino_out_of_range ic k" "ic_fullmap ic = None" "ic_table_ok ic"
    by (simp_all add: ic_bok_def ic_inodes_def)
  obtain s where s: "ext2fs_test_inode_bitmap2 ops (ic_single ic) k = Some s" "s \<noteq> 0 \<longleftrightarrow> ucast k \<in> ?S"
    using ic_test_single [OF ok] by blast
  obtain t where t: "ic_multiple ic \<noteq> NullBitmap \<Longrightarrow> ext2fs_test_inode_bitmap2 ops (ic_multiple ic) k = Some t"
    "ic_multiple ic \<noteq> NullBitmap \<Longrightarrow> t \<noteq> 0 \<longleftrightarrow> ucast k \<in> gb_bits bits (ic_multiple ic)"
    using ic_test_multiple [OF ok, of k] by blast
  from get_inode_count_table [OF m(4,3) n, of k] obtain e w c where
    w: "get_inode_count ic k = Some (e, w, ic\<lparr>ic_cursor := c\<rparr>)" "unat w = ic_entry ic k" by auto
  consider "s \<noteq> 0" | "s = 0" "ic_multiple ic \<noteq> NullBitmap" "t = 0" | "s = 0" "ic_multiple ic = NullBitmap \<or> t \<noteq> 0" by blast
  then show ?thesis
  proof cases
    case 1
    have "ic_val bits ic k = 1" using 1 s(2) by (simp add: view ic_view_def)
    with 1 s(1) m ic_same_refl [OF ok, of bits] show ?thesis by (simp add: ext2fs_icount_fetch_def)
  next
    case 2
    have "ic_val bits ic k = 0" using 2 s(2) t(2) by (simp add: view ic_view_def ic_multi_def)
    with 2 s(1) t(1) m ic_same_refl [OF ok, of bits] show ?thesis by (simp add: ext2fs_icount_fetch_def)
  next
    case 3
    have "ic_val bits ic k = ic_entry ic k" using 3 s(2) t(2) by (auto simp: view ic_view_def ic_multi_def)
    with 3 s(1) t(1) m w ic_same_cursor [OF ok, of bits c] show ?thesis
      by (cases "ic_multiple ic = NullBitmap") (simp_all add: ext2fs_icount_fetch_def unat_xlate)
  qed
qed

end

subsection \<open>The array of counters\<close>

lemma ic_fok_update:
  assumes ok: "ic_fok ic" and fm: "ic_fullmap ic = Some fm" and k: "k \<in> ic_keys ic" and w: "unat w \<le> 65500"
  shows "ic_fok (ic\<lparr>ic_fullmap := Some (fm[unat k := w])\<rparr>)" "ic_keys (ic\<lparr>ic_fullmap := Some (fm[unat k := w])\<rparr>) = ic_keys ic"
    "ic_val bits (ic\<lparr>ic_fullmap := Some (fm[unat k := w])\<rparr>) = (ic_val bits ic)(k := unat w)"
proof -
  have len: "length fm = unat (ic_num_inodes ic)" "\<forall>v \<in> set fm. unat v \<le> 65500" using ok fm by (simp_all add: ic_fok_def)
  have "set (fm[unat k := w]) \<subseteq> insert w (set fm)" by (rule set_update_subset_insert)
  with len w ok show "ic_fok (ic\<lparr>ic_fullmap := Some (fm[unat k := w])\<rparr>)" by (auto simp: ic_fok_def)
  show "ic_keys (ic\<lparr>ic_fullmap := Some (fm[unat k := w])\<rparr>) = ic_keys ic"
    using fm by (auto simp: ic_keys_def ic_inodes_def ino_out_of_range_def)
  have "unat k < length fm" using k fm len by (simp add: ic_keys_def word_less_nat_alt)
  with fm show "ic_val bits (ic\<lparr>ic_fullmap := Some (fm[unat k := w])\<rparr>) = (ic_val bits ic)(k := unat w)"
    by (auto simp: ic_val_def fun_eq_iff nth_list_update word_unat_eq_iff)
qed

definition ic_fstep :: "('p bitmap64 \<Rightarrow> u64 set) \<Rightarrow> 'p icount \<Rightarrow> u32 \<Rightarrow> nat \<Rightarrow> 'p icount \<Rightarrow> bool" where
  "ic_fstep bits ic k v ic' \<longleftrightarrow> ic_fok ic' \<and> ic_keys ic' = ic_keys ic \<and> ic_val bits ic' = (ic_val bits ic)(k := v)"

lemma ic_fokD:
  assumes ok: "ic_fok ic" and k: "k \<in> ic_keys ic"
  obtains fm v where "ic_fullmap ic = Some fm" "ic_magic ic = EXT2_ET_MAGIC_ICOUNT" "\<not> ino_out_of_range ic k" "ic_multiple ic = NullBitmap"
    "c_load fm (unat k) = Some v" "c_store fm (unat k) = (\<lambda>w. Some (fm[unat k := w]))" "ic_val bits ic k = unat v" "unat v \<le> 65500"
proof -
  from ok obtain fm where fm: "ic_fullmap ic = Some fm" "length fm = unat (ic_num_inodes ic)" "\<forall>v \<in> set fm. unat v \<le> 65500"
    by (auto simp: ic_fok_def)
  with k have "unat k < length fm" by (simp add: ic_keys_def word_less_nat_alt)
  with fm ok k show thesis
    by (intro that [of fm "fm ! unat k"]) (simp_all add: ic_fok_def ic_keys_def ic_inodes_def ic_val_def c_store_def fun_eq_iff)
qed

lemma ic_increment_fullmap:
  assumes ok: "ic_fok ic" and k: "k \<in> ic_keys ic" and v: "ic_val bits ic k < 65500"
  shows "\<exists>w ic'. ext2fs_icount_increment okb junk grow ops ic k = Some (E_OK, Some w, ic')
    \<and> unat w = Suc (ic_val bits ic k) \<and> ic_fstep bits ic k (Suc (ic_val bits ic k)) ic'"
proof -
  from ok k obtain fm x where
    m: "ic_fullmap ic = Some fm" "ic_magic ic = EXT2_ET_MAGIC_ICOUNT" "\<not> ino_out_of_range ic k" "ic_multiple ic = NullBitmap"
      "c_load fm (unat k) = Some x" "c_store fm (unat k) = (\<lambda>w. Some (fm[unat k := w]))" "ic_val bits ic k = unat x" "unat x \<le> 65500"
    by (rule ic_fokD [where bits = bits])
  let ?w = "icount_16_xlate (ucast x + 1)"
  have "unat (ucast x + 1 :: u32) = Suc (unat x)" using v m(7) by (subst unat_add_u32) simp_all
  then have w: "unat ?w = Suc (unat x)" using v m(7) by (simp add: unat_xlate)
  then have w2: "unat (icount_16_xlate (ucast ?w)) = Suc (unat x)" using v m(7) by (simp add: unat_xlate)
  have "unat ?w \<le> 65500" using w v m(7) by simp
  note u = ic_fok_update [OF ok m(1) k this]
  have "ext2fs_icount_increment okb junk grow ops ic k
      = Some (E_OK, Some (icount_16_xlate (ucast ?w)), ic\<lparr>ic_fullmap := Some (fm[unat k := ?w])\<rparr>)"
    using m by (simp add: ext2fs_icount_increment_def Let_def)
  with u w w2 m(7) show ?thesis by (simp add: ic_fstep_def)
qed

lemma ic_decrement_fullmap:
  assumes ok: "ic_fok ic" and k: "k \<in> ic_keys ic"
  shows "\<exists>w ic'. ext2fs_icount_decrement okb junk grow ops ic k
      = Some (if ic_val bits ic k = 0 then EXT2_ET_INVALID_ARGUMENT else E_OK, w, ic')
    \<and> ic_fstep bits ic k (ic_val bits ic k - 1) ic'"
proof -
  from ok k obtain fm x where
    m: "ic_fullmap ic = Some fm" "ic_magic ic = EXT2_ET_MAGIC_ICOUNT" "\<not> ino_out_of_range ic k" "ic_multiple ic = NullBitmap"
      "c_load fm (unat k) = Some x" "c_store fm (unat k) = (\<lambda>w. Some (fm[unat k := w]))" "ic_val bits ic k = unat x" "unat x \<le> 65500"
    by (rule ic_fokD [where bits = bits])
  show ?thesis
  proof (cases "x = 0")
    case True
    then have z: "ic_val bits ic k = 0" using m(7) by simp
    moreover have "ic_fstep bits ic k 0 ic" using ok fun_upd_triv [of "ic_val bits ic" k] z by (simp add: ic_fstep_def)
    moreover have "ext2fs_icount_decrement okb junk grow ops ic k = Some (EXT2_ET_INVALID_ARGUMENT, None, ic)"
      using m True by (simp add: ext2fs_icount_decrement_def)
    ultimately show ?thesis by simp
  next
    case False
    then have un: "unat (x - 1) = unat x - 1" and nz: "unat x \<noteq> 0" by (simp_all add: unat_minus_one unat_eq_0)
    have "unat (x - 1) \<le> 65500" using un m(8) by simp
    note u = ic_fok_update [OF ok m(1) k this]
    have "ext2fs_icount_decrement okb junk grow ops ic k
        = Some (E_OK, Some (icount_16_xlate (ucast (x - 1))), ic\<lparr>ic_fullmap := Some (fm[unat k := x - 1])\<rparr>)"
      using m False by (simp add: ext2fs_icount_decrement_def)
    with u un nz m(7) show ?thesis by (simp add: ic_fstep_def)
  qed
qed

lemma ic_store_fullmap:
  assumes ok: "ic_fok ic" and k: "k \<in> ic_keys ic" and w: "unat w \<le> 65500"
  shows "\<exists>ic'. ext2fs_icount_store okb junk grow ops ic k w = Some (E_OK, ic') \<and> ic_fstep bits ic k (unat w) ic'"
proof -
  from ok k obtain fm x where
    m: "ic_fullmap ic = Some fm" "ic_magic ic = EXT2_ET_MAGIC_ICOUNT" "\<not> ino_out_of_range ic k" "ic_multiple ic = NullBitmap"
      "c_load fm (unat k) = Some x" "c_store fm (unat k) = (\<lambda>w. Some (fm[unat k := w]))" "ic_val bits ic k = unat x" "unat x \<le> 65500"
    by (rule ic_fokD [where bits = bits])
  have x: "unat (icount_16_xlate (ucast w)) = unat w" using w by (simp add: unat_xlate)
  then have "unat (icount_16_xlate (ucast w)) \<le> 65500" using w by simp
  from ic_fok_update [OF ok m(1) k this] m x show ?thesis
    by (simp add: ext2fs_icount_store_def set_inode_count_def ic_fstep_def)
qed

lemma ic_fetch_fullmap:
  assumes ok: "ic_fok ic" and k: "k \<in> ic_keys ic"
  shows "\<exists>w. ext2fs_icount_fetch ops ic k = Some (Inr (w, ic)) \<and> unat w = min (ic_val bits ic k) 65500"
proof -
  from ok k obtain fm x where
    m: "ic_fullmap ic = Some fm" "ic_magic ic = EXT2_ET_MAGIC_ICOUNT" "\<not> ino_out_of_range ic k" "ic_multiple ic = NullBitmap"
      "c_load fm (unat k) = Some x" "c_store fm (unat k) = (\<lambda>w. Some (fm[unat k := w]))" "ic_val bits ic k = unat x" "unat x \<le> 65500"
    by (rule ic_fokD [where bits = bits])
  then show ?thesis by (simp add: ext2fs_icount_fetch_def get_inode_count_def unat_xlate)
qed

subsection \<open>The contract\<close>

text \<open>The operations with memory available, as the contract has them.\<close>

definition ic_incr where
  "ic_incr junk grow ops k ic = map_option (\<lambda>(e, w, ic). (e, ic)) (ext2fs_icount_increment True junk grow ops ic k)"

definition ic_decr where
  "ic_decr junk grow ops k ic = map_option (\<lambda>(e, w, ic). (e, ic)) (ext2fs_icount_decrement True junk grow ops ic k)"

definition ic_put where
  "ic_put junk grow ops k v ic = ext2fs_icount_store True junk grow ops ic k (of_nat v)"

definition ic_fetch where
  "ic_fetch ops k ic = do {
     r \<leftarrow> ext2fs_icount_fetch ops ic k;
     case r of Inl e \<Rightarrow> None | Inr (w, ic) \<Rightarrow> Some (unat w, ic)
   }"

lemma ic_step_budget:
  assumes st: "ic_step good bits ic k v ic'" and ok: "ic_bok good ic" and b: "ic_budget bits (Suc n) ic" and v: "v + n \<le> 4294967295"
  shows "ic_ok good ic' \<and> ic_keys ic' = ic_keys ic \<and> ic_budget bits n ic' \<and> ic_val bits ic' = (ic_val bits ic)(k := v)"
proof -
  have fm: "ic_fullmap ic = None" "ic_fullmap ic' = None" using ok st by (simp_all add: ic_bok_def ic_step_def)
  have c: "ic_count ic' \<le> ic_count ic + 1" "ic_keys ic' = ic_keys ic" "ic_val bits ic' = (ic_val bits ic)(k := v)" using st by (simp_all add: ic_step_def)
  from ic_budget_bitmap [OF b fm c v] have "ic_budget bits n ic'" .
  moreover from this fm have "ic_count ic' \<le> INT_MAX" by (simp add: ic_budget_def)
  ultimately show ?thesis using st by (simp add: ic_step_def ic_ok_def)
qed

lemma ic_fstep_budget:
  assumes st: "ic_fstep bits ic k v ic'" and ok: "ic_fok ic" and b: "ic_budget bits (Suc n) ic" and v: "v + n \<le> 65500"
  shows "ic_ok good ic' \<and> ic_keys ic' = ic_keys ic \<and> ic_budget bits n ic' \<and> ic_val bits ic' = (ic_val bits ic)(k := v)"
  using assms by (fastforce simp: ic_fstep_def ic_ok_def ic_budget_def ic_fok_def)

sublocale bitmap_backend \<subseteq> ic: counter "ic_ok inv" "ic_val bits" ic_keys "ic_budget bits" 65500
  "ic_incr cells nsize ops" "ic_decr cells nsize ops" "ic_put cells nsize ops" "ic_fetch ops" "\<lambda>v. min v 65500"
  for cells nsize
proof
  fix s :: "'p icount" and k n v
  assume s: "ic_ok inv s" and k: "k \<in> ic_keys s"
  have k1: "k \<in> ic_inodes s" using k by (simp add: ic_keys_def)
  from s consider (b) "ic_bok inv s" "ic_count s \<le> INT_MAX" | (f) "ic_fok s" by (auto simp: ic_ok_def)
  note cs = this
  show "\<exists>s'. ic_fetch ops k s = Some (min (ic_val bits s k) 65500, s') \<and> ic_ok inv s' \<and> ic_keys s' = ic_keys s \<and> ic_val bits s' = ic_val bits s"
  proof (cases rule: cs)
    case b
    from ic_fetch_bitmap [OF b(1) k1 b(2)] b(2) show ?thesis by (auto simp: ic_fetch_def ic_same_def ic_ok_def)
  next
    case f
    from ic_fetch_fullmap [OF f k, of ops bits] s show ?thesis by (auto simp: ic_fetch_def)
  qed
  assume bud: "ic_budget bits (Suc n) s"
  have room: "ic_fullmap s = None \<Longrightarrow> ic_count s < INT_MAX \<and> ic_val bits s k + Suc n \<le> 4294967295"
    "ic_fullmap s \<noteq> None \<Longrightarrow> ic_val bits s k + Suc n \<le> 65500"
    using bud k by (auto simp: ic_budget_def split: option.splits)
  show "\<exists>s'. ic_incr cells nsize ops k s = Some (E_OK, s') \<and> ic_ok inv s' \<and> ic_keys s' = ic_keys s \<and> ic_budget bits n s'
      \<and> ic_val bits s' = (ic_val bits s)(k := Suc (ic_val bits s k))"
  proof (cases rule: cs)
    case b
    then have r: "ic_count s < INT_MAX" "ic_val bits s k < 4294967295" "Suc (ic_val bits s k) + n \<le> 4294967295"
      using room(1) by (auto simp: ic_bok_def)
    from ic_increment_bitmap [OF b(1) k1 r(1,2), of cells nsize] ic_step_budget [OF _ b(1) bud r(3)]
    show ?thesis by (fastforce simp: ic_incr_def)
  next
    case f
    then have r: "ic_val bits s k < 65500" "Suc (ic_val bits s k) + n \<le> 65500" using room(2) by (auto simp: ic_fok_def)
    from ic_increment_fullmap [OF f k r(1), of True cells nsize ops] ic_fstep_budget [OF _ f bud r(2)]
    show ?thesis by (fastforce simp: ic_incr_def)
  qed
  show "\<exists>s'. ic_decr cells nsize ops k s = Some (if ic_val bits s k = 0 then EXT2_ET_INVALID_ARGUMENT else E_OK, s') \<and> ic_ok inv s'
      \<and> ic_keys s' = ic_keys s \<and> ic_budget bits n s' \<and> ic_val bits s' = (ic_val bits s)(k := ic_val bits s k - 1)"
  proof (cases rule: cs)
    case b
    then have r: "ic_count s < INT_MAX" "ic_val bits s k - 1 + n \<le> 4294967295" using room(1) by (auto simp: ic_bok_def)
    from ic_decrement_bitmap [OF b(1) k1 r(1), of cells nsize] obtain w s' where
      e: "ext2fs_icount_decrement True cells nsize ops s k = Some (if ic_val bits s k = 0 then EXT2_ET_INVALID_ARGUMENT else E_OK, w, s')"
        "ic_step inv bits s k (ic_val bits s k - 1) s'" by blast
    from e(1) ic_step_budget [OF e(2) b(1) bud r(2)] show ?thesis by (intro exI [of _ s']) (simp add: ic_decr_def)
  next
    case f
    then have r: "ic_val bits s k - 1 + n \<le> 65500" using room(2) by (auto simp: ic_fok_def)
    from ic_decrement_fullmap [OF f k, of True cells nsize ops bits] obtain w s' where
      e: "ext2fs_icount_decrement True cells nsize ops s k = Some (if ic_val bits s k = 0 then EXT2_ET_INVALID_ARGUMENT else E_OK, w, s')"
        "ic_fstep bits s k (ic_val bits s k - 1) s'" by blast
    from e(1) ic_fstep_budget [OF e(2) f bud r] show ?thesis by (intro exI [of _ s']) (simp add: ic_decr_def)
  qed
  assume v: "v + n \<le> 65500"
  then have w: "unat (of_nat v :: u16) = v" by (simp add: unat_of_nat)
  show "\<exists>s'. ic_put cells nsize ops k v s = Some (E_OK, s') \<and> ic_ok inv s' \<and> ic_keys s' = ic_keys s \<and> ic_budget bits n s'
      \<and> ic_val bits s' = (ic_val bits s)(k := v)"
  proof (cases rule: cs)
    case b
    then have r: "ic_count s < INT_MAX" "v + n \<le> 4294967295" using room(1) v by (auto simp: ic_bok_def)
    from ic_store_bitmap [OF b(1) k1 r(1), of cells nsize "of_nat v"] ic_step_budget [OF _ b(1) bud r(2)]
    show ?thesis by (fastforce simp: ic_put_def w)
  next
    case f
    have "unat (of_nat v :: u16) \<le> 65500" using v w by simp
    from ic_store_fullmap [OF f k this, of True cells nsize ops bits] ic_fstep_budget [OF _ f bud v]
    show ?thesis by (fastforce simp: ic_put_def w)
  qed
qed

subsection \<open>New structures\<close>

lemma icount_copy_hint_eq:
  assumes "count \<le> length hint" "count \<le> n" "i \<le> count"
  shows "icount_copy_hint hint (map (\<lambda>x. (fst x, 0)) (take i hint) @ replicate (n - i) (0, 0)) count i
    = Some (map (\<lambda>x. (fst x, 0)) (take count hint) @ replicate (n - count) (0, 0))"
  using assms(3)
proof (induction i rule: inc_induct)
  case base
  show ?case by (subst icount_copy_hint.simps) simp
next
  case (step i)
  have "n - i = Suc (n - Suc i)" using step.hyps assms by simp
  then have "(map (\<lambda>x. (fst x, 0)) (take i hint) @ replicate (n - i) (0, 0))[i := (fst (hint ! i), 0)]
      = map (\<lambda>x. (fst x, 0)) (take (Suc i) hint) @ replicate (n - Suc i) (0 :: u32, 0 :: u32)"
    using step.hyps assms by (simp add: list_update_append take_Suc_conv_app_nth)
  with step assms show ?case
    by (subst icount_copy_hint.simps) (simp add: c_store_def nth_append)
qed

lemma hint_table:
  assumes "kt_ok hl count" "count \<le> n"
  shows "kt_ok (map (\<lambda>x. (fst x, 0 :: u32)) (take count hl) @ replicate (n - count) (0, 0)) count"
    "kt_get (map (\<lambda>x. (fst x, 0 :: u32)) (take count hl) @ replicate (n - count) (0, 0)) count k \<in> {None, Some 0}"
proof -
  let ?l = "map (\<lambda>x. (fst x, 0 :: u32)) (take count hl)"
  have len: "length ?l = count" using assms(1) by (simp add: kt_ok_def)
  have "map fst ?l = map fst (take count hl)" by simp
  with assms len show "kt_ok (?l @ replicate (n - count) (0, 0)) count" unfolding kt_ok_def by (simp add: comp_def)
  have "map_of ?l k \<in> {None, Some 0}" by (cases "map_of ?l k") (auto dest: map_of_SomeD)
  with len show "kt_get (?l @ replicate (n - count) (0, 0)) count k \<in> {None, Some 0}" unfolding kt_get_def by simp
qed

text \<open>The hint that a structure is created from: none, or one with a well-formed table.\<close>

definition hint_ok :: "'p icount option \<Rightarrow> bool" where
  "hint_ok hint \<longleftrightarrow> (case hint of None \<Rightarrow> True
     | Some h \<Rightarrow> ic_magic h = EXT2_ET_MAGIC_ICOUNT \<and> ic_table_ok h \<and> ic_count h \<le> INT_MAX)"

lemma create_icount_run:
  assumes alloc: "alloc_icount ok1 ok2 ok3 ok4 ops null fs fullmap incr = Some (Inr ic)" "ic_last_lookup ic = None"
    and sz: "sz \<noteq> 0" and hint: "hint_ok hint"
  shows "\<exists>ic'. ext2fs_create_icount2 ok1 ok2 ok3 ok4 True ops null fs fullmap incr sz hint = Some (Inr ic')
    \<and> (if ic_fullmap ic \<noteq> None then ic' = ic
       else ic_table_ok ic' \<and> ic_frame ic ic' \<and> ic_entry ic' = (\<lambda>_. 0) \<and> ic_count ic' \<le> INT_MAX
         \<and> unat sz \<le> ic_size ic' \<and> ic_count ic' = (case hint of None \<Rightarrow> 0 | Some h \<Rightarrow> ic_count h))"
proof -
  have sz0: "unat sz \<noteq> 0" using sz by (simp add: unat_eq_0)
  show ?thesis
  proof (cases "ic_fullmap ic \<noteq> None")
    case True
    with hint alloc show ?thesis by (auto simp: ext2fs_create_icount2_def hint_ok_def Let_def split: option.splits)
  next
    case fm: False
    show ?thesis
    proof (cases hint)
      case None
      with fm alloc sz0 have "ext2fs_create_icount2 ok1 ok2 ok3 ok4 True ops null fs fullmap incr sz hint
          = Some (Inr (ic\<lparr>ic_size := unat sz, ic_count := 0, ic_cursor := 0, ic_list := Some (replicate (unat sz) (0, 0))\<rparr>))"
        by (simp add: ext2fs_create_icount2_def Let_def)
      with fm None alloc(2) show ?thesis
        by (simp add: ic_table_ok_def ic_frame_def ic_entry_def kt_ok_def kt_get_def fun_eq_iff)
    next
      case (Some h)
      with hint have h: "ic_magic h = EXT2_ET_MAGIC_ICOUNT" "ic_table_ok h" "ic_count h \<le> INT_MAX" by (simp_all add: hint_ok_def)
      from h(2) obtain hl where hl: "ic_list h = Some hl" "length hl = ic_size h" "kt_ok hl (ic_count h)" "ic_count h \<le> ic_size h"
        "ic_size h < 4294967296" by (rule ic_table_okD)
      define n where "n = max (ic_size h) (unat sz)"
      define list where "list = map (\<lambda>x. (fst x, 0 :: u32)) (take (ic_count h) hl) @ replicate (n - ic_count h) (0, 0)"
      have n: "ic_count h \<le> n" "n \<noteq> 0" "n < 4294967296" "unat sz \<le> n"
        using hl sz0 unat_u32_less [of sz] by (simp_all add: n_def)
      have "icount_copy_hint hl (replicate n (0, 0)) (ic_count h) 0 = Some list"
        using icount_copy_hint_eq [of "ic_count h" hl n 0] hl n by (simp add: list_def)
      with fm Some alloc h(1) hl(1) n(2) have run: "ext2fs_create_icount2 ok1 ok2 ok3 ok4 True ops null fs fullmap incr sz hint
          = Some (Inr (ic\<lparr>ic_size := n, ic_count := ic_count h, ic_cursor := 0, ic_list := Some list\<rparr>))"
        by (simp add: ext2fs_create_icount2_def Let_def n_def [symmetric])
      note t = hint_table [OF hl(3) n(1), folded list_def]
      have "length list = n" using hl n(1) by (simp add: list_def)
      moreover have "(case kt_get list (ic_count h) k of None \<Rightarrow> 0 | Some v \<Rightarrow> unat v) = 0" for k using t(2) [of k] by auto
      ultimately show ?thesis using run fm Some alloc(2) t(1) n h(3)
        by (simp add: ic_table_ok_def ic_frame_def ic_entry_def fun_eq_iff)
    qed
  qed
qed

lemma inode_bitmap_covers:
  assumes "gb_plain good g" "gb_univ g = {k. 1 \<le> unat k \<and> unat k \<le> unat (ic_num_inodes ic)}"
  shows "ib_ok good (ic_inodes ic) g"
proof -
  have "unat (k :: u32) \<noteq> 0 \<and> unat k \<le> unat (ic_num_inodes ic)" if "k \<in> ic_inodes ic" for k
    using that by (simp add: ic_inodes_def ino_out_of_range_def word_less_nat_alt unat_eq_0 not_less)
  with assms show ?thesis by (fastforce simp: ib_ok_def)
qed

lemma alloc_icount_fresh:
  assumes fs: "fs_magic fs = EXT2_ET_MAGIC_EXT2FS_FILSYS" "s_inodes_count (fs_super fs) \<noteq> 0"
    and groups: "unat (s_inodes_count (fs_super fs)) \<le> unat (s_inodes_per_group (fs_super fs)) * unat (fs_group_desc_count fs)"
    and layout: "fs_flags fs AND 0x20000 \<noteq> 0 \<or> unat (s_inodes_per_group (fs_super fs)) * unat (fs_group_desc_count fs) < 4294967296"
    and small: "unat (s_inodes_count (fs_super fs)) < 2147483648"
  shows "\<exists>ic. alloc_icount True ok2 True True (ext2fs_blkmap64_bitarray True True mem base) null fs fullmap incr = Some (Inr ic)
    \<and> ic_magic ic = EXT2_ET_MAGIC_ICOUNT \<and> ic_last_lookup ic = None \<and> ic_num_inodes ic = s_inodes_count (fs_super fs) \<and> ic_count ic = 0
    \<and> (if fullmap \<and> incr \<and> ok2 then ic_fok ic \<and> (\<forall>k \<in> ic_keys ic. ic_val ba_bits ic k = 0)
       else ic_fullmap ic = None \<and> ib_ok ba_ok (ic_inodes ic) (ic_single ic) \<and> gb_bits ba_bits (ic_single ic) = {}
         \<and> (ic_multiple ic \<noteq> NullBitmap \<longleftrightarrow> incr)
         \<and> (incr \<longrightarrow> ib_ok ba_ok (ic_inodes ic) (ic_multiple ic) \<and> gb_bits ba_bits (ic_multiple ic) = {}))"
proof (cases "fullmap \<and> incr \<and> ok2")
  case True
  let ?n = "s_inodes_count (fs_super fs)"
  have two: "unat (2 * ?n) div 2 = unat ?n" using small by (simp add: unat_word_ariths)
  have "replicate (unat ?n) (0 :: u16) ! unat k = 0" if "k < ?n" for k using that by (simp add: word_less_nat_alt)
  with True two show ?thesis
    by (auto simp: alloc_icount_def Let_def ic_fok_def ic_keys_def ic_val_def)
next
  case False
  let ?ops = "ext2fs_blkmap64_bitarray True True mem base"
  from fresh_inode_bitmap [OF fs groups layout, of mem base null "Some ''icount''"] obtain g1 where
    g1: "ext2fs_allocate_inode_bitmap True True True ?ops null fs (Some ''icount'') = Some (Inr g1)" "gb_plain ba_ok g1"
      "gb_bits ba_bits g1 = {}" "gb_univ g1 = {k. 1 \<le> unat k \<and> unat k \<le> unat (s_inodes_count (fs_super fs))}" by blast
  from fresh_inode_bitmap [OF fs groups layout, of mem base null "Some ''icount_inc''"] obtain g2 where
    g2: "ext2fs_allocate_inode_bitmap True True True ?ops null fs (Some ''icount_inc'') = Some (Inr g2)" "gb_plain ba_ok g2"
      "gb_bits ba_bits g2 = {}" "gb_univ g2 = {k. 1 \<le> unat k \<and> unat k \<le> unat (s_inodes_count (fs_super fs))}" by blast
  have "g2 \<noteq> NullBitmap" using g2(2) by (auto simp: gb_plain_def gb_ok_def)
  with False g1 g2 show ?thesis by (cases incr) (auto simp: alloc_icount_def Let_def intro: inode_bitmap_covers)
qed

lemma create_icount_ok:
  assumes fs: "fs_magic fs = EXT2_ET_MAGIC_EXT2FS_FILSYS" "s_inodes_count (fs_super fs) \<noteq> 0"
    and groups: "unat (s_inodes_count (fs_super fs)) \<le> unat (s_inodes_per_group (fs_super fs)) * unat (fs_group_desc_count fs)"
    and layout: "fs_flags fs AND 0x20000 \<noteq> 0 \<or> unat (s_inodes_per_group (fs_super fs)) * unat (fs_group_desc_count fs) < 4294967296"
    and small: "unat (s_inodes_count (fs_super fs)) < 2147483648"
    and arg: "sz \<noteq> 0" "hint_ok hint"
  shows "\<exists>ic. ext2fs_create_icount2 True ok2 True True True (ext2fs_blkmap64_bitarray True True mem base) null fs fullmap incr sz hint = Some (Inr ic)
    \<and> ic_ok ba_ok ic \<and> ic_count ic \<le> (case hint of None \<Rightarrow> 0 | Some h \<Rightarrow> ic_count h) \<and> (\<forall>k \<in> ic_keys ic. ic_val ba_bits ic k = 0)
    \<and> ic_keys ic = {k. k \<noteq> 0 \<and> k \<le> s_inodes_count (fs_super fs) \<and> (fullmap \<and> incr \<and> ok2 \<longrightarrow> k < s_inodes_count (fs_super fs))}"
proof -
  let ?ops = "ext2fs_blkmap64_bitarray True True mem base"
  from alloc_icount_fresh [OF fs groups layout small, of ok2 mem base null fullmap incr] obtain ic where
    a: "alloc_icount True ok2 True True ?ops null fs fullmap incr = Some (Inr ic)" "ic_magic ic = EXT2_ET_MAGIC_ICOUNT"
      "ic_last_lookup ic = None" "ic_num_inodes ic = s_inodes_count (fs_super fs)"
      "if fullmap \<and> incr \<and> ok2 then ic_fok ic \<and> (\<forall>k \<in> ic_keys ic. ic_val ba_bits ic k = 0)
       else ic_fullmap ic = None \<and> ib_ok ba_ok (ic_inodes ic) (ic_single ic) \<and> gb_bits ba_bits (ic_single ic) = {}
         \<and> (ic_multiple ic \<noteq> NullBitmap \<longleftrightarrow> incr)
         \<and> (incr \<longrightarrow> ib_ok ba_ok (ic_inodes ic) (ic_multiple ic) \<and> gb_bits ba_bits (ic_multiple ic) = {})" "ic_count ic = 0" by blast
  from create_icount_run [OF a(1,3) arg] obtain ic' where
    c: "ext2fs_create_icount2 True ok2 True True True ?ops null fs fullmap incr sz hint = Some (Inr ic')"
      "if ic_fullmap ic \<noteq> None then ic' = ic
       else ic_table_ok ic' \<and> ic_frame ic ic' \<and> ic_entry ic' = (\<lambda>_. 0) \<and> ic_count ic' \<le> INT_MAX
         \<and> unat sz \<le> ic_size ic' \<and> ic_count ic' = (case hint of None \<Rightarrow> 0 | Some h \<Rightarrow> ic_count h)" by blast
  show ?thesis
  proof (cases "fullmap \<and> incr \<and> ok2")
    case True
    then have f: "ic_fok ic" "\<forall>k \<in> ic_keys ic. ic_val ba_bits ic k = 0" using a(5) by simp_all
    then have fm: "ic_fullmap ic \<noteq> None" by (auto simp: ic_fok_def)
    with c(2) have e: "ic' = ic" by simp
    have "ic_keys ic = {k. k \<noteq> 0 \<and> k \<le> s_inodes_count (fs_super fs) \<and> (fullmap \<and> incr \<and> ok2 \<longrightarrow> k < s_inodes_count (fs_super fs))}"
      using True fm a(4) by (auto simp: ic_keys_def ic_inodes_def ino_out_of_range_def)
    with c(1) e f a(6) show ?thesis by (simp add: ic_ok_def)
  next
    case False
    with a(5) have b: "ic_fullmap ic = None" "ib_ok ba_ok (ic_inodes ic) (ic_single ic)" "gb_bits ba_bits (ic_single ic) = {}"
      "ic_multiple ic \<noteq> NullBitmap \<longleftrightarrow> incr" "incr \<Longrightarrow> ib_ok ba_ok (ic_inodes ic) (ic_multiple ic)"
      "incr \<Longrightarrow> gb_bits ba_bits (ic_multiple ic) = {}" by auto
    with c(2) have t: "ic_table_ok ic'" "ic_frame ic ic'" "ic_entry ic' = (\<lambda>_. 0)" "ic_count ic' \<le> INT_MAX"
      "ic_count ic' = (case hint of None \<Rightarrow> 0 | Some h \<Rightarrow> ic_count h)" by simp_all
    note f = ic_frame_val [OF t(2)]
    have fr: "ic_magic ic' = EXT2_ET_MAGIC_ICOUNT" "ic_fullmap ic' = None" "ic_multiple ic' = ic_multiple ic" "ic_num_inodes ic' = ic_num_inodes ic"
      using t(2) a(2) b(1) by (simp_all add: ic_frame_def)
    have ok: "ic_bok ba_ok ic'" unfolding ic_bok_def using fr f(2,4) b t(1) by (cases incr) simp_all
    have "ic_val ba_bits ic' k = 0" for k using t(3) f(1,2) b(3) by (simp add: ic_val_bok [OF ok] ic_view_def)
    moreover have "ic_keys ic' = {k. k \<noteq> 0 \<and> k \<le> s_inodes_count (fs_super fs) \<and> (fullmap \<and> incr \<and> ok2 \<longrightarrow> k < s_inodes_count (fs_super fs))}"
      using False fr a(4) by (auto simp: ic_keys_def ic_inodes_def ino_out_of_range_def)
    ultimately show ?thesis using c(1) ok t(4,5) by (simp add: ic_ok_def)
  qed
qed

text \<open>
  Creating a structure for the inode counts, with memory available for its table and bitmaps and with
  a size other than zero, whatever the options and the hint are: the result is well formed, counts every
  inode of the file system (but the last one when the array of counters is used) and all counts are zero.
  The entries of a hint only reserve places in the table.
\<close>

theorem create_icount_fresh:
  assumes fs: "fs_magic fs = EXT2_ET_MAGIC_EXT2FS_FILSYS" "s_inodes_count (fs_super fs) \<noteq> 0"
    and groups: "unat (s_inodes_count (fs_super fs)) \<le> unat (s_inodes_per_group (fs_super fs)) * unat (fs_group_desc_count fs)"
    and layout: "fs_flags fs AND 0x20000 \<noteq> 0 \<or> unat (s_inodes_per_group (fs_super fs)) * unat (fs_group_desc_count fs) < 4294967296"
    and small: "unat (s_inodes_count (fs_super fs)) < 2147483648"
    and arg: "sz \<noteq> 0" "hint_ok hint"
  shows "\<exists>ic. ext2fs_create_icount2 True ok2 True True True (ext2fs_blkmap64_bitarray True True mem base) null fs fullmap incr sz hint = Some (Inr ic)
    \<and> ic_ok ba_ok ic \<and> ic_count ic \<le> (case hint of None \<Rightarrow> 0 | Some h \<Rightarrow> ic_count h) \<and> (\<forall>k \<in> ic_keys ic. ic_val ba_bits ic k = 0)
    \<and> ic_keys ic = {k. k \<noteq> 0 \<and> k \<le> s_inodes_count (fs_super fs) \<and> (fullmap \<and> incr \<and> ok2 \<longrightarrow> k < s_inodes_count (fs_super fs))}"
  using assms by (rule create_icount_ok)

theorem create_icount_fresh_witness:
  "\<exists>ic. ext2fs_create_icount2 True True True True True (ext2fs_blkmap64_bitarray True True (\<lambda>_. 1) 0) [] fs_example False True 8 None = Some (Inr ic)
    \<and> ic_ok ba_ok ic \<and> ic_count ic \<le> (case None :: u8 list icount option of None \<Rightarrow> 0 | Some h \<Rightarrow> ic_count h) \<and> (\<forall>k \<in> ic_keys ic. ic_val ba_bits ic k = 0)
    \<and> ic_keys ic = {k. k \<noteq> 0 \<and> k \<le> s_inodes_count (fs_super fs_example) \<and> (False \<and> True \<and> True \<longrightarrow> k < s_inodes_count (fs_super fs_example))}"
  by (rule create_icount_fresh) (simp_all add: fs_example_def hint_ok_def)

text \<open>
  (C11) Any history of increments, decrements and stores of inode counts, executed by the code with memory
  available on a well-formed structure with the bit array back end, in any of its three representations
  (one bitmap and a table, two bitmaps and a table, an array of counters), returns the error codes and
  leaves the counts that the history describes, and a fetch afterwards reports the count, capped at 65500.
\<close>

theorem icount_history:
  assumes "ic_ok ba_ok ic" "count_key ` set h \<subseteq> ic_keys ic" "ic_budget ba_bits (length h) ic"
    and "\<forall>k v. Put k v \<in> set h \<longrightarrow> v + length h \<le> 65500"
  shows "\<exists>ic'. run_count (ic_incr junk grow (ext2fs_blkmap64_bitarray ok1 ok2 mem base)) (ic_decr junk grow (ext2fs_blkmap64_bitarray ok1 ok2 mem base))
        (ic_put junk grow (ext2fs_blkmap64_bitarray ok1 ok2 mem base)) h ic = Some (fst (spec_count h (ic_val ba_bits ic)), ic')
    \<and> ic_ok ba_ok ic' \<and> ic_keys ic' = ic_keys ic \<and> ic_val ba_bits ic' = snd (spec_count h (ic_val ba_bits ic))
    \<and> (\<forall>k \<in> ic_keys ic. \<exists>ic''. ic_fetch (ext2fs_blkmap64_bitarray ok1 ok2 mem base) k ic'
         = Some (min (snd (spec_count h (ic_val ba_bits ic)) k) 65500, ic''))"
proof -
  let ?ops = "ext2fs_blkmap64_bitarray ok1 ok2 mem base"
  from ba.ic.run_count_refines [OF assms, of junk grow ok1 ok2 mem base] obtain ic' where
    r: "run_count (ic_incr junk grow ?ops) (ic_decr junk grow ?ops) (ic_put junk grow ?ops) h ic = Some (fst (spec_count h (ic_val ba_bits ic)), ic')"
      "ic_ok ba_ok ic'" "ic_keys ic' = ic_keys ic" "ic_val ba_bits ic' = snd (spec_count h (ic_val ba_bits ic))" by blast
  have "\<exists>ic''. ic_fetch ?ops k ic' = Some (min (snd (spec_count h (ic_val ba_bits ic)) k) 65500, ic'')" if "k \<in> ic_keys ic" for k
    using ba.ic.fetch_law [OF r(2), of k ok1 ok2 mem base] that unfolding r(3,4) by blast
  with r show ?thesis by blast
qed


text \<open>Counting links in a new structure.\<close>

theorem icount_history_witness:
  "\<exists>ic ic'. ext2fs_create_icount2 True True True True True (ext2fs_blkmap64_bitarray True True (\<lambda>_. 1) 0) [] fs_example False True 8 None = Some (Inr ic)
    \<and> run_count (ic_incr (\<lambda>_. (0, 0)) (\<lambda>_ _ _. 0) (ext2fs_blkmap64_bitarray True True (\<lambda>_. 1) 0)) (ic_decr (\<lambda>_. (0, 0)) (\<lambda>_ _ _. 0) (ext2fs_blkmap64_bitarray True True (\<lambda>_. 1) 0))
        (ic_put (\<lambda>_. (0, 0)) (\<lambda>_ _ _. 0) (ext2fs_blkmap64_bitarray True True (\<lambda>_. 1) 0)) [Incr 2, Incr 2, Decr 3, Put 4 3] ic
      = Some ([E_OK, E_OK, EXT2_ET_INVALID_ARGUMENT, E_OK], ic')"
proof -
  let ?ops = "ext2fs_blkmap64_bitarray True True (\<lambda>_. 1) 0" and ?h = "[Incr 2, Incr 2, Decr 3, Put 4 3] :: u32 count_op list"
  obtain ic where c: "ext2fs_create_icount2 True True True True True ?ops [] fs_example False True 8 None = Some (Inr ic)"
    "ic_ok ba_ok ic" "ic_count ic \<le> (case None :: u8 list icount option of None \<Rightarrow> 0 | Some h \<Rightarrow> ic_count h)"
    "\<forall>k \<in> ic_keys ic. ic_val ba_bits ic k = 0"
    "ic_keys ic = {k. k \<noteq> 0 \<and> k \<le> s_inodes_count (fs_super fs_example) \<and> (False \<and> True \<and> True \<longrightarrow> k < s_inodes_count (fs_super fs_example))}"
    using create_icount_ok [of fs_example 8 "None :: u8 list icount option" True "\<lambda>_. 1" 0 "[]" False True]
    by (auto simp: fs_example_def hint_ok_def)
  have k: "count_key ` set ?h \<subseteq> ic_keys ic" by (simp add: c(5) fs_example_def)
  have "ic_budget ba_bits (length ?h) ic" using c(3,4) by (simp add: ic_budget_def)
  with icount_history [OF c(2) k, of "\<lambda>_. (0, 0)" "\<lambda>_ _ _. 0" True True "\<lambda>_. 1" 0] obtain ic' where
    "run_count (ic_incr (\<lambda>_. (0, 0)) (\<lambda>_ _ _. 0) ?ops) (ic_decr (\<lambda>_. (0, 0)) (\<lambda>_ _ _. 0) ?ops) (ic_put (\<lambda>_. (0, 0)) (\<lambda>_ _ _. 0) ?ops) ?h ic
      = Some (fst (spec_count ?h (ic_val ba_bits ic)), ic')" by auto
  moreover have "ic_val ba_bits ic 3 = 0" using c(4) k by simp
  ultimately show ?thesis using c(1) by (auto simp: Let_def split_beta)
qed

subsection \<open>Validation and the end of the array\<close>

lemma icount_validate_loop_eq:
  assumes "count \<le> length list"
  shows "icount_validate_loop list count (Suc m) ret
    = Some (if \<forall>j. m \<le> j \<and> Suc j < count \<longrightarrow> fst (list ! j) < fst (list ! Suc j) then ret else EXT2_ET_INVALID_ARGUMENT)"
proof (induction "count - m" arbitrary: m ret)
  case 0
  then show ?case by (subst icount_validate_loop.simps) auto
next
  case (Suc n)
  show ?case
  proof (cases "Suc m < count")
    case False
    then show ?thesis by (subst icount_validate_loop.simps) auto
  next
    case True
    have split: "(\<forall>j. m \<le> j \<and> Suc j < count \<longrightarrow> P j) \<longleftrightarrow> P m \<and> (\<forall>j. Suc m \<le> j \<and> Suc j < count \<longrightarrow> P j)" for P
      using True by (metis Suc_leD Suc_le_eq le_less)
    have ih: "icount_validate_loop list count (Suc (Suc m)) ret' = Some (if \<forall>j. Suc m \<le> j \<and> Suc j < count \<longrightarrow> fst (list ! j) < fst (list ! Suc j)
        then ret' else EXT2_ET_INVALID_ARGUMENT)" for ret' using Suc by (intro Suc.hyps(1)) simp
    have "icount_validate_loop list count (Suc m) ret
        = icount_validate_loop list count (Suc (Suc m)) (if fst (list ! m) \<ge> fst (list ! Suc m) then EXT2_ET_INVALID_ARGUMENT else ret)"
      using True assms by (subst icount_validate_loop.simps) simp
    then show ?thesis unfolding ih split [of "\<lambda>j. fst (list ! j) < fst (list ! Suc j)"] by auto
  qed
qed

text \<open>
  The validation of a structure whose table has the size that it says reports no error exactly when
  the entries in use fit in the table and their inode numbers are in strictly ascending order.
\<close>

theorem icount_validate_iff_sorted:
  assumes "ic_magic ic = EXT2_ET_MAGIC_ICOUNT" "ic_list ic = Some list" "length list = ic_size ic"
  shows "ext2fs_icount_validate ic = Some (if kt_ok list (ic_count ic) then E_OK else EXT2_ET_INVALID_ARGUMENT)"
proof (cases "ic_count ic \<le> ic_size ic")
  case True
  have "transp ((<) :: u32 \<Rightarrow> u32 \<Rightarrow> bool)" by (auto intro: transpI)
  with True assms(3) have "kt_ok list (ic_count ic) \<longleftrightarrow> (\<forall>j. Suc j < ic_count ic \<longrightarrow> fst (list ! j) < fst (list ! Suc j))"
    by (simp add: kt_ok_def sorted_wrt_iff_nth_Suc_transp)
  with True assms icount_validate_loop_eq [of "ic_count ic" list 0 E_OK] show ?thesis by (simp add: ext2fs_icount_validate_def)
qed (use assms in \<open>simp add: ext2fs_icount_validate_def kt_ok_def\<close>)

definition ic_unsorted :: "u8 list icount" where
  "ic_unsorted = \<lparr>ic_magic = EXT2_ET_MAGIC_ICOUNT, ic_single = NullBitmap, ic_multiple = NullBitmap, ic_count = 2, ic_size = 3,
     ic_num_inodes = 10, ic_cursor = 0, ic_list = Some [(5, 2), (4, 2), (0, 0)], ic_last_lookup = None, ic_fullmap = None\<rparr>"

theorem icount_validate_iff_sorted_witness:
  "ext2fs_icount_validate ic_unsorted = Some (if kt_ok [(5 :: u32, 2 :: u32), (4, 2), (0, 0)] (ic_count ic_unsorted) then E_OK else EXT2_ET_INVALID_ARGUMENT)"
  by (rule icount_validate_iff_sorted) (simp_all add: ic_unsorted_def)

text \<open>
  (C37) The array of counters that is allocated has no place for the last inode, although every operation
  accepts that inode number: fetching, incrementing, decrementing and storing its count access memory behind
  the array.
\<close>

theorem icount_fullmap_overrun:
  assumes "alloc_icount True True ok3 ok4 ops null fs True True = Some (Inr ic)" "s_inodes_count (fs_super fs) \<noteq> 0"
  shows "\<not> ino_out_of_range ic (s_inodes_count (fs_super fs))
    \<and> ext2fs_icount_fetch ops ic (s_inodes_count (fs_super fs)) = None
    \<and> ext2fs_icount_increment okb junk grow ops ic (s_inodes_count (fs_super fs)) = None
    \<and> ext2fs_icount_decrement okb junk grow ops ic (s_inodes_count (fs_super fs)) = None
    \<and> ext2fs_icount_store okb junk grow ops ic (s_inodes_count (fs_super fs)) v = None"
proof -
  let ?n = "s_inodes_count (fs_super fs)"
  from assms(1) have ic: "ic_magic ic = EXT2_ET_MAGIC_ICOUNT" "ic_num_inodes ic = ?n" "ic_fullmap ic = Some (replicate (unat (2 * ?n) div 2) 0)"
    by (auto simp: alloc_icount_def Let_def)
  have "unat (2 * ?n) \<le> 2 * unat ?n" by (simp add: unat_word_ariths)
  then have "unat (2 * ?n) div 2 \<le> unat ?n" by simp
  then have "c_load (replicate (unat (2 * ?n) div 2) (0 :: u16)) (unat ?n) = None" "c_store (replicate (unat (2 * ?n) div 2) (0 :: u16)) (unat ?n) w = None" for w
    by (simp_all add: c_load_def c_store_def)
  with ic assms(2) show ?thesis
    by (simp add: ino_out_of_range_def ext2fs_icount_fetch_def ext2fs_icount_increment_def ext2fs_icount_decrement_def
        ext2fs_icount_store_def get_inode_count_def set_inode_count_def)
qed

theorem icount_fullmap_overrun_witness:
  "\<exists>ic. alloc_icount True True True True (ext2fs_blkmap64_bitarray True True (\<lambda>_. 1) 0) [] fs_example True True = Some (Inr ic)
    \<and> ext2fs_icount_fetch (ext2fs_blkmap64_bitarray True True (\<lambda>_. 1) 0) ic (s_inodes_count (fs_super fs_example)) = None"
proof -
  obtain ic where a: "alloc_icount True True True True (ext2fs_blkmap64_bitarray True True (\<lambda>_. 1) 0) [] fs_example True True = Some (Inr ic)"
    by (auto simp: alloc_icount_def)
  moreover have "s_inodes_count (fs_super fs_example) \<noteq> 0" by (simp add: fs_example_def)
  note icount_fullmap_overrun [OF a this, of True "\<lambda>_. (0, 0)" "\<lambda>_ _ _. 0" 1]
  ultimately show ?thesis by blast
qed

end
