(* ===== verification/Crc.thy ===== *)
theory Crc
  imports E2_Prelude
begin

unbundle bit_operations_syntax

text \<open>
  The checksums of \<^verbatim>\<open>lib/ext2fs/crc16.c\<close> and \<^verbatim>\<open>lib/ext2fs/crc32c.c\<close>, with the lookup tables of the latter as
  \<^verbatim>\<open>lib/ext2fs/gen_crc32ctable.c\<close> computes them when the library is built. The configured variant of the
  32-bit checksums processes eight bytes at a time with eight tables (\<^verbatim>\<open>CRC_LE_BITS\<close> and \<^verbatim>\<open>CRC_BE_BITS\<close> are
  64) on a little-endian machine; the bit-at-a-time variants, which the source has under \<^verbatim>\<open>#if\<close>, are the
  reference. The locale \<open>crc_slicing\<close> is what makes slicing right: a linear step and tables of its powers.
\<close>

subsection \<open>Sixteen bits\<close>

definition crc16_table :: "u16 list" where
  "crc16_table = [
     0x0000, 0xC0C1, 0xC181, 0x0140, 0xC301, 0x03C0, 0x0280, 0xC241,
     0xC601, 0x06C0, 0x0780, 0xC741, 0x0500, 0xC5C1, 0xC481, 0x0440,
     0xCC01, 0x0CC0, 0x0D80, 0xCD41, 0x0F00, 0xCFC1, 0xCE81, 0x0E40,
     0x0A00, 0xCAC1, 0xCB81, 0x0B40, 0xC901, 0x09C0, 0x0880, 0xC841,
     0xD801, 0x18C0, 0x1980, 0xD941, 0x1B00, 0xDBC1, 0xDA81, 0x1A40,
     0x1E00, 0xDEC1, 0xDF81, 0x1F40, 0xDD01, 0x1DC0, 0x1C80, 0xDC41,
     0x1400, 0xD4C1, 0xD581, 0x1540, 0xD701, 0x17C0, 0x1680, 0xD641,
     0xD201, 0x12C0, 0x1380, 0xD341, 0x1100, 0xD1C1, 0xD081, 0x1040,
     0xF001, 0x30C0, 0x3180, 0xF141, 0x3300, 0xF3C1, 0xF281, 0x3240,
     0x3600, 0xF6C1, 0xF781, 0x3740, 0xF501, 0x35C0, 0x3480, 0xF441,
     0x3C00, 0xFCC1, 0xFD81, 0x3D40, 0xFF01, 0x3FC0, 0x3E80, 0xFE41,
     0xFA01, 0x3AC0, 0x3B80, 0xFB41, 0x3900, 0xF9C1, 0xF881, 0x3840,
     0x2800, 0xE8C1, 0xE981, 0x2940, 0xEB01, 0x2BC0, 0x2A80, 0xEA41,
     0xEE01, 0x2EC0, 0x2F80, 0xEF41, 0x2D00, 0xEDC1, 0xEC81, 0x2C40,
     0xE401, 0x24C0, 0x2580, 0xE541, 0x2700, 0xE7C1, 0xE681, 0x2640,
     0x2200, 0xE2C1, 0xE381, 0x2340, 0xE101, 0x21C0, 0x2080, 0xE041,
     0xA001, 0x60C0, 0x6180, 0xA141, 0x6300, 0xA3C1, 0xA281, 0x6240,
     0x6600, 0xA6C1, 0xA781, 0x6740, 0xA501, 0x65C0, 0x6480, 0xA441,
     0x6C00, 0xACC1, 0xAD81, 0x6D40, 0xAF01, 0x6FC0, 0x6E80, 0xAE41,
     0xAA01, 0x6AC0, 0x6B80, 0xAB41, 0x6900, 0xA9C1, 0xA881, 0x6840,
     0x7800, 0xB8C1, 0xB981, 0x7940, 0xBB01, 0x7BC0, 0x7A80, 0xBA41,
     0xBE01, 0x7EC0, 0x7F80, 0xBF41, 0x7D00, 0xBDC1, 0xBC81, 0x7C40,
     0xB401, 0x74C0, 0x7580, 0xB541, 0x7700, 0xB7C1, 0xB681, 0x7640,
     0x7200, 0xB2C1, 0xB381, 0x7340, 0xB101, 0x71C0, 0x7080, 0xB041,
     0x5000, 0x90C1, 0x9181, 0x5140, 0x9301, 0x53C0, 0x5280, 0x9241,
     0x9601, 0x56C0, 0x5780, 0x9741, 0x5500, 0x95C1, 0x9481, 0x5440,
     0x9C01, 0x5CC0, 0x5D80, 0x9D41, 0x5F00, 0x9FC1, 0x9E81, 0x5E40,
     0x5A00, 0x9AC1, 0x9B81, 0x5B40, 0x9901, 0x59C0, 0x5880, 0x9841,
     0x8801, 0x48C0, 0x4980, 0x8941, 0x4B00, 0x8BC1, 0x8A81, 0x4A40,
     0x4E00, 0x8EC1, 0x8F81, 0x4F40, 0x8D01, 0x4DC0, 0x4C80, 0x8C41,
     0x4400, 0x84C1, 0x8581, 0x4540, 0x8701, 0x47C0, 0x4680, 0x8641,
     0x8201, 0x42C0, 0x4380, 0x8341, 0x4100, 0x81C1, 0x8081, 0x4040]"

text \<open>
  A buffer is a list of bytes and \<open>len\<close> the number of bytes to process. The table index is masked with 255,
  so that the lookup is inside the table.
\<close>

fun ext2fs_crc16 :: "u32 \<Rightarrow> u8 list \<Rightarrow> nat \<Rightarrow> nat \<Rightarrow> u32 ub" where
  "ext2fs_crc16 crc buffer cp 0 = Some crc"
| "ext2fs_crc16 crc buffer cp (Suc len) = do {
     x \<leftarrow> c_load buffer cp;
     t \<leftarrow> c_load crc16_table (unat ((crc XOR ucast x) AND 0xff));
     ext2fs_crc16 (((drop_bit 8 crc AND 0xff) XOR ucast t) AND 0x0000ffff) buffer (Suc cp) len
   }"

subsection \<open>One bit at a time\<close>

definition crc_bit_le :: "u32 \<Rightarrow> u32 \<Rightarrow> u32" where
  "crc_bit_le polynomial crc = drop_bit 1 crc XOR (if crc AND 1 \<noteq> 0 then polynomial else 0)"

definition crc_bit_be :: "u32 \<Rightarrow> u32 \<Rightarrow> u32" where
  "crc_bit_be polynomial crc = push_bit 1 crc XOR (if crc AND 0x80000000 \<noteq> 0 then polynomial else 0)"

fun crc32_le_bits :: "u32 \<Rightarrow> u32 \<Rightarrow> u8 list \<Rightarrow> u32" where
  "crc32_le_bits polynomial crc [] = crc"
| "crc32_le_bits polynomial crc (x # p) = crc32_le_bits polynomial ((crc_bit_le polynomial ^^ 8) (crc XOR ucast x)) p"

fun crc32_be_bits :: "u32 \<Rightarrow> u32 \<Rightarrow> u8 list \<Rightarrow> u32" where
  "crc32_be_bits polynomial crc [] = crc"
| "crc32_be_bits polynomial crc (x # p) = crc32_be_bits polynomial ((crc_bit_be polynomial ^^ 8) (crc XOR push_bit 24 (ucast x))) p"

definition CRC32C_POLY_LE :: u32 where
  "CRC32C_POLY_LE = 0x82F63B78"

definition CRCPOLY_BE :: u32 where
  "CRCPOLY_BE = 0x04c11db7"

subsection \<open>The tables\<close>

text \<open>
  \<^verbatim>\<open>crc32cinit_le\<close>: the loop over \<open>j\<close> fills in the entries with bit \<open>i\<close> set, and \<open>i\<close> runs through the powers
  of 2 from 128 down; it is not 0 inside the loop.
\<close>

function le_fill :: "nat \<Rightarrow> u32 \<Rightarrow> nat \<Rightarrow> u32 list \<Rightarrow> u32 list ub" where
  "le_fill i crc j row =
     (if j < 256 \<and> i \<noteq> 0 then do {
        x \<leftarrow> c_load row j;
        row \<leftarrow> c_store row (i + j) (crc XOR x);
        le_fill i crc (j + 2 * i) row
      } else Some row)"
  by pat_completeness auto
termination
  by (relation "measure (\<lambda>(i, crc, j, row). 256 - j)") auto

function le_first_row :: "nat \<Rightarrow> u32 \<Rightarrow> u32 list \<Rightarrow> u32 list ub" where
  "le_first_row i crc row =
     (if i \<noteq> 0 then do {
        let crc = crc_bit_le CRC32C_POLY_LE crc;
        row \<leftarrow> le_fill i crc 0 row;
        le_first_row (i div 2) crc row
      } else Some row)"
  by pat_completeness auto
termination
  by (relation "measure (\<lambda>(i, crc, row). i)") auto

function be_fill :: "nat \<Rightarrow> u32 \<Rightarrow> nat \<Rightarrow> u32 list \<Rightarrow> u32 list ub" where
  "be_fill i crc j row =
     (if j < i then do {
        x \<leftarrow> c_load row j;
        row \<leftarrow> c_store row (i + j) (crc XOR x);
        be_fill i crc (j + 1) row
      } else Some row)"
  by pat_completeness auto
termination
  by (relation "measure (\<lambda>(i, crc, j, row). i - j)") auto

text \<open>Here \<open>i\<close> is doubled, starting with 1.\<close>

function be_first_row :: "nat \<Rightarrow> u32 \<Rightarrow> u32 list \<Rightarrow> u32 list ub" where
  "be_first_row i crc row =
     (if i < 256 \<and> i \<noteq> 0 then do {
        let crc = crc_bit_be CRCPOLY_BE crc;
        row \<leftarrow> be_fill i crc 0 row;
        be_first_row (2 * i) crc row
      } else Some row)"
  by pat_completeness auto
termination
  by (relation "measure (\<lambda>(i, crc, row). 256 - i)") auto

text \<open>
  The second half of both functions: the rows 1 to 7, entry by entry. \<open>nxt\<close> computes the next value from
  the first row and the current value.
\<close>

definition le_next :: "u32 list \<Rightarrow> u32 \<Rightarrow> u32 ub" where
  "le_next row crc = do { x \<leftarrow> c_load row (unat (crc AND 0xff)); Some (x XOR drop_bit 8 crc) }"

definition be_next :: "u32 list \<Rightarrow> u32 \<Rightarrow> u32 ub" where
  "be_next row crc = do { x \<leftarrow> c_load row (unat (drop_bit 24 crc AND 0xff)); Some (x XOR push_bit 8 crc) }"

function row_entries :: "(u32 list \<Rightarrow> u32 \<Rightarrow> u32 ub) \<Rightarrow> nat \<Rightarrow> nat \<Rightarrow> u32 \<Rightarrow> u32 list list \<Rightarrow> u32 list list ub" where
  "row_entries nxt i j crc tab =
     (if j < 8 then do {
        row0 \<leftarrow> c_load tab 0;
        crc \<leftarrow> nxt row0 crc;
        row \<leftarrow> c_load tab j;
        row \<leftarrow> c_store row i crc;
        tab \<leftarrow> c_store tab j row;
        row_entries nxt i (j + 1) crc tab
      } else Some tab)"
  by pat_completeness auto
termination
  by (relation "measure (\<lambda>(nxt, i, j, crc, tab). 8 - j)") auto

function other_rows :: "(u32 list \<Rightarrow> u32 \<Rightarrow> u32 ub) \<Rightarrow> nat \<Rightarrow> u32 list list \<Rightarrow> u32 list list ub" where
  "other_rows nxt i tab =
     (if i < 256 then do {
        row0 \<leftarrow> c_load tab 0;
        crc \<leftarrow> c_load row0 i;
        tab \<leftarrow> row_entries nxt i 1 crc tab;
        other_rows nxt (i + 1) tab
      } else Some tab)"
  by pat_completeness auto
termination
  by (relation "measure (\<lambda>(nxt, i, tab). 256 - i)") auto

text \<open>The static arrays are zero at first, and so is the entry 0 of the first row.\<close>

definition crc32cinit_le :: "u32 list list ub" where
  "crc32cinit_le = do {
     row \<leftarrow> le_first_row 128 1 (replicate 256 0);
     other_rows le_next 0 (row # replicate 7 (replicate 256 0))
   }"

definition crc32init_be :: "u32 list list ub" where
  "crc32init_be = do {
     row \<leftarrow> be_first_row 1 0x80000000 (replicate 256 0);
     other_rows be_next 0 (row # replicate 7 (replicate 256 0))
   }"

text \<open>The tables of \<^verbatim>\<open>crc32c_table.h\<close>: \<^verbatim>\<open>tole\<close> does nothing on a little-endian machine, \<^verbatim>\<open>tobe\<close> swaps the bytes.\<close>

definition swab32 :: "u32 \<Rightarrow> u32" where
  "swab32 x = push_bit 24 (x AND 0x000000ff) OR push_bit 8 (x AND 0x0000ff00)
     OR drop_bit 8 (x AND 0x00ff0000) OR drop_bit 24 (x AND 0xff000000)"

definition crc32ctable_le :: "u32 list list ub" where
  "crc32ctable_le = crc32cinit_le"

definition crc32table_be :: "u32 list list ub" where
  "crc32table_be = map_option (map (map swab32)) crc32init_be"

subsection \<open>Eight bytes at a time\<close>

text \<open>A table lookup; the index is below 256 and every table has eight rows of 256 entries.\<close>

definition crc_at :: "u32 list list \<Rightarrow> nat \<Rightarrow> u32 \<Rightarrow> u32" where
  "crc_at tab k q = tab ! k ! unat (q AND 255)"

definition DO_CRC :: "u32 list list \<Rightarrow> u32 \<Rightarrow> u8 \<Rightarrow> u32" where
  "DO_CRC tab crc x = crc_at tab 0 (crc XOR ucast x) XOR drop_bit 8 crc"

definition DO_CRC4 :: "u32 list list \<Rightarrow> u32 \<Rightarrow> u32" where
  "DO_CRC4 tab q = crc_at tab 3 q XOR crc_at tab 2 (drop_bit 8 q) XOR crc_at tab 1 (drop_bit 16 q) XOR crc_at tab 0 (drop_bit 24 q)"

definition DO_CRC8 :: "u32 list list \<Rightarrow> u32 \<Rightarrow> u32" where
  "DO_CRC8 tab q = crc_at tab 7 q XOR crc_at tab 6 (drop_bit 8 q) XOR crc_at tab 5 (drop_bit 16 q) XOR crc_at tab 4 (drop_bit 24 q)"

text \<open>A 32-bit word in memory.\<close>

definition c_load_word :: "u8 list \<Rightarrow> nat \<Rightarrow> u32 ub" where
  "c_load_word buf i = do {
     b0 \<leftarrow> c_load buf i; b1 \<leftarrow> c_load buf (i + 1); b2 \<leftarrow> c_load buf (i + 2); b3 \<leftarrow> c_load buf (i + 3);
     Some (ucast b0 OR push_bit 8 (ucast b1) OR push_bit 16 (ucast b2) OR push_bit 24 (ucast b3))
   }"

text \<open>
  The buffer starts at the address \<open>base\<close>, which decides how many bytes are processed before the address is
  a multiple of 4. The loop is entered with at least one byte.
\<close>

function crc_align :: "u32 list list \<Rightarrow> nat \<Rightarrow> u8 list \<Rightarrow> u32 \<Rightarrow> nat \<Rightarrow> nat \<Rightarrow> (u32 \<times> nat \<times> nat) ub" where
  "crc_align tab base buf crc pos len = do {
     x \<leftarrow> c_load buf pos;
     let crc = DO_CRC tab crc x;
     if len - 1 \<noteq> 0 \<and> (base + pos + 1) mod 4 \<noteq> 0 then crc_align tab base buf crc (pos + 1) (len - 1)
     else Some (crc, pos + 1, len - 1)
   }"
  by pat_completeness auto
termination
  by (relation "measure (\<lambda>(tab, base, buf, crc, pos, len). len)") auto

fun crc_words :: "u32 list list \<Rightarrow> u8 list \<Rightarrow> u32 \<Rightarrow> nat \<Rightarrow> nat \<Rightarrow> (u32 \<times> nat) ub" where
  "crc_words tab buf crc pos 0 = Some (crc, pos)"
| "crc_words tab buf crc pos (Suc len) = do {
     w \<leftarrow> c_load_word buf pos;
     let crc = DO_CRC8 tab (crc XOR w);
     w \<leftarrow> c_load_word buf (pos + 4);
     crc_words tab buf (crc XOR DO_CRC4 tab w) (pos + 8) len
   }"

fun crc_tail :: "u32 list list \<Rightarrow> u8 list \<Rightarrow> u32 \<Rightarrow> nat \<Rightarrow> nat \<Rightarrow> u32 ub" where
  "crc_tail tab buf crc pos 0 = Some crc"
| "crc_tail tab buf crc pos (Suc len) = do {
     x \<leftarrow> c_load buf pos;
     crc_tail tab buf (DO_CRC tab crc x) (pos + 1) len
   }"

definition crc32_body :: "nat \<Rightarrow> u32 \<Rightarrow> u8 list \<Rightarrow> nat \<Rightarrow> u32 list list \<Rightarrow> u32 ub" where
  "crc32_body base crc buf len tab = do {
     (crc, pos, len) \<leftarrow> (if base mod 4 \<noteq> 0 \<and> len \<noteq> 0 then crc_align tab base buf crc 0 len else Some (crc, 0, len));
     (crc, pos) \<leftarrow> crc_words tab buf crc pos (len div 8);
     crc_tail tab buf crc pos (len mod 8)
   }"

definition ext2fs_crc32c_le :: "nat \<Rightarrow> u32 \<Rightarrow> u8 list \<Rightarrow> nat \<Rightarrow> u32 ub" where
  "ext2fs_crc32c_le base crc p len = do {
     tab \<leftarrow> crc32ctable_le;
     crc32_body base crc p len tab
   }"

definition ext2fs_crc32_be :: "nat \<Rightarrow> u32 \<Rightarrow> u8 list \<Rightarrow> nat \<Rightarrow> u32 ub" where
  "ext2fs_crc32_be base crc p len = do {
     tab \<leftarrow> crc32table_be;
     map_option swab32 (crc32_body base (swab32 crc) p len tab)
   }"

subsection \<open>Slicing\<close>

declare le_fill.simps [simp del] le_first_row.simps [simp del] be_fill.simps [simp del] be_first_row.simps [simp del]
  row_entries.simps [simp del] other_rows.simps [simp del] crc_align.simps [simp del]

lemma and_255: "q AND 255 = take_bit 8 q" for q :: u32
  using take_bit_eq_mask [of 8 q] by (simp add: mask_eq_exp_minus_1)

lemma xor_byte_split: "c = (c AND 255) XOR push_bit 8 (drop_bit 8 c)" for c :: u32
  unfolding and_255
  by (rule bit_word_eqI) (auto simp: bit_take_bit_iff bit_xor_iff bit_push_bit_iff bit_drop_bit_eq)

lemma drop_24_of_drop_8 [simp]: "drop_bit 24 (drop_bit 8 c) = 0" for c :: u32
  by (rule bit_word_eqI) (auto simp: bit_drop_bit_eq dest: bit_imp_le_length)

lemma drop_8_byte [simp]: "drop_bit 8 (ucast x :: u32) = 0" for x :: u8
  by (rule bit_word_eqI) (auto simp: bit_drop_bit_eq bit_unsigned_iff dest: bit_imp_le_length)

lemma unat_and_255: "unat (q AND 255) < 256" for q :: u32
  using take_bit_nat_less_exp [of 8 "unat q"] by (simp only: and_255 unsigned_take_bit_eq) simp

text \<open>
  The byte step \<open>S\<close> of a checksum register is linear and moves the upper bytes down unchanged; the row \<open>k\<close> of
  the tables holds the effect of a byte after \<open>k\<close> more bytes.
\<close>

locale crc_step =
  fixes S :: "u32 \<Rightarrow> u32"
  assumes S_xor: "S (a XOR b) = S a XOR S b"
    and S_shift: "drop_bit 24 d = 0 \<Longrightarrow> S (push_bit 8 d) = d"
begin

lemma Sn_xor: "(S ^^ n) (a XOR b) = (S ^^ n) a XOR (S ^^ n) b"
  by (induction n) (simp_all add: S_xor)

lemma S_split: "S c = S (c AND 255) XOR drop_bit 8 c"
  using S_shift [of "drop_bit 8 c"] S_xor [of "c AND 255" "push_bit 8 (drop_bit 8 c)"] xor_byte_split [of c] by simp

lemma Sn_split: "0 < n \<Longrightarrow> (S ^^ n) c = (S ^^ n) (c AND 255) XOR (S ^^ (n - 1)) (drop_bit 8 c)"
proof (cases n)
  case (Suc m)
  have "(S ^^ Suc m) x = (S ^^ m) (S x)" for x by (simp add: funpow_swap1)
  with Suc S_split [of c] Sn_xor show ?thesis by simp
qed simp

end

locale crc_slicing = crc_step S for S :: "u32 \<Rightarrow> u32" +
  fixes tab :: "u32 list list"
  assumes tab_entry: "k < 8 \<Longrightarrow> i < 256 \<Longrightarrow> tab ! k ! i = (S ^^ Suc k) (of_nat i)"
begin

lemma crc_at_eq: "k < 8 \<Longrightarrow> crc_at tab k q = (S ^^ (k + 1)) (q AND 255)"
  using tab_entry [of k "unat (q AND 255)"] unat_and_255 [of q] by (simp add: crc_at_def)

lemma S_twice: "(S ^^ 2) x = S (S x)"
  by (simp add: numeral_2_eq_2)

lemma do_crc_eq: "DO_CRC tab crc x = S (crc XOR ucast x)"
  using S_split [of "crc XOR ucast x"] by (simp add: DO_CRC_def crc_at_eq)

lemma do_crc4_eq: "DO_CRC4 tab q = (S ^^ 4) q"
  using Sn_split [of 4 q] Sn_split [of 3 "drop_bit 8 q"] Sn_split [of 2 "drop_bit 16 q"] S_split [of "drop_bit 24 q"]
  by (simp add: DO_CRC4_def crc_at_eq xor.assoc S_twice)

lemma do_crc8_eq: "DO_CRC8 tab q = (S ^^ 8) q"
proof -
  have add: "(S ^^ 4) ((S ^^ m) x) = (S ^^ (4 + m)) x" for m x by (simp add: funpow_add)
  have "(S ^^ 8) q = (S ^^ 4) (DO_CRC4 tab q)" using add [of 4 q] by (simp add: do_crc4_eq)
  also have "\<dots> = DO_CRC8 tab q"
    using add [of 1] add [of 2] by (simp add: DO_CRC4_def DO_CRC8_def crc_at_eq Sn_xor S_twice add)
  finally show ?thesis by simp
qed

end

text \<open>Processing bytes one after the other.\<close>

fun crc_bytes :: "(u32 \<Rightarrow> u32) \<Rightarrow> u32 \<Rightarrow> u8 list \<Rightarrow> u32" where
  "crc_bytes S crc [] = crc"
| "crc_bytes S crc (x # p) = crc_bytes S (S (crc XOR ucast x)) p"

lemma crc_bytes_append: "crc_bytes S crc (p @ q) = crc_bytes S (crc_bytes S crc p) q"
  by (induction p arbitrary: crc) simp_all

definition word_of_bytes :: "u8 \<Rightarrow> u8 \<Rightarrow> u8 \<Rightarrow> u8 \<Rightarrow> u32" where
  "word_of_bytes b0 b1 b2 b3 = ucast b0 XOR push_bit 8 (ucast b1) XOR push_bit 16 (ucast b2) XOR push_bit 24 (ucast b3)"

lemma word_of_bytes_or:
  "ucast b0 OR push_bit 8 (ucast b1) OR push_bit 16 (ucast b2) OR push_bit 24 (ucast b3) = word_of_bytes b0 b1 b2 b3"
  unfolding word_of_bytes_def
  by (rule bit_word_eqI) (auto simp: bit_or_iff bit_xor_iff bit_push_bit_iff bit_unsigned_iff dest: bit_imp_le_length)

lemma take_drop_step: "pos < length buf \<Longrightarrow> take (Suc n) (drop pos buf) = buf ! pos # take n (drop (Suc pos) buf)"
  by (simp add: Cons_nth_drop_Suc [symmetric])

context crc_slicing
begin

lemma S_absorb: "drop_bit 24 d = 0 \<Longrightarrow> S (c XOR push_bit 8 d) = S c XOR d"
  by (simp add: S_xor S_shift)

lemma four_bytes: "crc_bytes S c [b0, b1, b2, b3] = (S ^^ 4) (c XOR word_of_bytes b0 b1 b2 b3)"
proof -
  have z: "drop_bit 24 (push_bit k (ucast (b :: u8)) :: u32) = 0" if "k \<le> 16" for k b
    using that by (intro bit_word_eqI) (auto simp: bit_drop_bit_eq bit_push_bit_iff bit_unsigned_iff dest: bit_imp_le_length)
  have p: "push_bit 16 b = push_bit 8 (push_bit 8 b)" "push_bit 24 b = push_bit 8 (push_bit 16 b)" for b :: u32 by simp_all
  have z0: "drop_bit 24 (ucast (b :: u8) :: u32) = 0" for b using z [of 0 b] by simp
  have e: "(S ^^ 4) x = S (S (S (S x)))" for x by (simp add: eval_nat_numeral)
  have s1: "S (x XOR push_bit 8 (ucast (b :: u8))) = S x XOR ucast b" for x b by (rule S_absorb [OF z0])
  have s2: "S (x XOR push_bit 16 (ucast (b :: u8))) = S x XOR push_bit 8 (ucast b)" for x b
    unfolding p(1) by (rule S_absorb [OF z]) simp
  have s3: "S (x XOR push_bit 24 (ucast (b :: u8))) = S x XOR push_bit 16 (ucast b)" for x b
    unfolding p(2) by (rule S_absorb [OF z]) simp
  have 1: "S (c XOR ucast b0) XOR ucast b1 = S (c XOR ucast b0 XOR push_bit 8 (ucast b1))" by (simp add: S_xor S_shift z0 xor.assoc)
  have 2: "S (S x) XOR ucast b2 = S (S (x XOR push_bit 16 (ucast b2)))" for x by (simp only: s1 s2)
  have 3: "S (S (S x)) XOR ucast b3 = S (S (S (x XOR push_bit 24 (ucast b3))))" for x by (simp only: s1 s2 s3)
  show ?thesis by (simp add: 1 2 3 e word_of_bytes_def xor.assoc)
qed

lemma crc_words_eq:
  assumes "pos + 8 * n \<le> length buf"
  shows "crc_words tab buf crc pos n = Some (crc_bytes S crc (take (8 * n) (drop pos buf)), pos + 8 * n)"
  using assms
proof (induction n arbitrary: crc pos)
  case (Suc n)
  let ?b = "\<lambda>i. buf ! (pos + i)"
  have bytes: "take (8 * Suc n) (drop pos buf)
      = [?b 0, ?b 1, ?b 2, ?b 3] @ [?b 4, ?b 5, ?b 6, ?b 7] @ take (8 * n) (drop (pos + 8) buf)"
    using Suc.prems by (simp add: take_drop_step eval_nat_numeral)
  have w: "c_load_word buf pos = Some (word_of_bytes (?b 0) (?b 1) (?b 2) (?b 3))"
    "c_load_word buf (pos + 4) = Some (word_of_bytes (?b 4) (?b 5) (?b 6) (?b 7))"
    using Suc.prems by (simp_all add: c_load_word_def word_of_bytes_or add.commute [of _ pos])
  have "(S ^^ 8) x = (S ^^ 4) ((S ^^ 4) x)" for x by (simp flip: funpow_add [THEN fun_cong, unfolded comp_def])
  then have step: "DO_CRC8 tab (crc XOR word_of_bytes (?b 0) (?b 1) (?b 2) (?b 3)) XOR DO_CRC4 tab (word_of_bytes (?b 4) (?b 5) (?b 6) (?b 7))
      = crc_bytes S (crc_bytes S crc [?b 0, ?b 1, ?b 2, ?b 3]) [?b 4, ?b 5, ?b 6, ?b 7]"
    by (simp only: do_crc8_eq do_crc4_eq four_bytes Sn_xor)
  have "crc_words tab buf crc pos (Suc n) = crc_words tab buf (crc_bytes S (crc_bytes S crc [?b 0, ?b 1, ?b 2, ?b 3]) [?b 4, ?b 5, ?b 6, ?b 7]) (pos + 8) n"
    unfolding crc_words.simps w Option.bind.simps Let_def step by simp
  with Suc.IH [of "pos + 8"] Suc.prems show ?case unfolding bytes crc_bytes_append by simp
qed simp

lemma crc_tail_eq:
  assumes "pos + n \<le> length buf"
  shows "crc_tail tab buf crc pos n = Some (crc_bytes S crc (take n (drop pos buf)))"
  using assms by (induction n arbitrary: crc pos) (simp_all add: take_drop_step do_crc_eq)

lemma crc_align_eq:
  assumes "pos + len \<le> length buf" "0 < len"
  shows "\<exists>n. 0 < n \<and> n \<le> len \<and> crc_align tab base buf crc pos len = Some (crc_bytes S crc (take n (drop pos buf)), pos + n, len - n)"
  using assms
proof (induction len arbitrary: crc pos)
  case (Suc m)
  have x: "c_load buf pos = Some (buf ! pos)" using Suc.prems by simp
  show ?case
  proof (cases "m \<noteq> 0 \<and> (base + pos + 1) mod 4 \<noteq> 0")
    case True
    from Suc.IH [of "pos + 1" "S (crc XOR ucast (buf ! pos))"] True Suc.prems obtain n where
      n: "0 < n" "n \<le> m" "crc_align tab base buf (S (crc XOR ucast (buf ! pos))) (pos + 1) m
        = Some (crc_bytes S (S (crc XOR ucast (buf ! pos))) (take n (drop (pos + 1) buf)), pos + 1 + n, m - n)" by auto
    have "crc_align tab base buf crc pos (Suc m) = crc_align tab base buf (S (crc XOR ucast (buf ! pos))) (pos + 1) m"
      using True x by (subst crc_align.simps) (simp add: do_crc_eq)
    with n Suc.prems show ?thesis by (intro exI [of _ "Suc n"]) (simp add: take_drop_step)
  next
    case False
    then have "crc_align tab base buf crc pos (Suc m) = Some (S (crc XOR ucast (buf ! pos)), pos + 1, m)"
      using x by (subst crc_align.simps) (auto simp: do_crc_eq)
    with Suc.prems show ?thesis by (intro exI [of _ 1]) (simp add: take_drop_step [of _ _ 0, simplified])
  qed
qed simp

text \<open>The whole computation, whatever the address of the buffer is.\<close>

lemma crc32_body_eq:
  assumes "len \<le> length buf"
  shows "crc32_body base crc buf len tab = Some (crc_bytes S crc (take len buf))"
proof -
  obtain n where n: "n \<le> len"
    "(if base mod 4 \<noteq> 0 \<and> len \<noteq> 0 then crc_align tab base buf crc 0 len else Some (crc, 0, len)) = Some (crc_bytes S crc (take n buf), n, len - n)"
  proof (cases "base mod 4 \<noteq> 0 \<and> len \<noteq> 0")
    case True
    with crc_align_eq [of 0 len buf base crc] assms that show thesis by auto
  next
    case False
    then show thesis by (intro that [of 0]) auto
  qed
  have w: "crc_words tab buf (crc_bytes S crc (take n buf)) n ((len - n) div 8)
      = Some (crc_bytes S (crc_bytes S crc (take n buf)) (take (8 * ((len - n) div 8)) (drop n buf)), n + 8 * ((len - n) div 8))"
    by (rule crc_words_eq) (use n(1) assms in linarith)
  let ?k = "n + 8 * ((len - n) div 8)"
  have k: "?k + (len - n) mod 8 = len" using n(1) by simp
  have t: "crc_tail tab buf c ?k ((len - n) mod 8) = Some (crc_bytes S c (take ((len - n) mod 8) (drop ?k buf)))" for c
    by (rule crc_tail_eq) (use k assms in simp)
  have "take len buf = take n buf @ take (8 * ((len - n) div 8)) (drop n buf) @ take ((len - n) mod 8) (drop ?k buf)"
    using k by (metis append.assoc take_add)
  then show ?thesis unfolding crc32_body_def n(2) Option.bind.simps prod.case w t by (simp add: crc_bytes_append)
qed

end

subsection \<open>The contents of the tables\<close>

lemma funpow_xor:
  fixes f :: "u32 \<Rightarrow> u32"
  assumes "\<And>a b. f (a XOR b) = f a XOR f b"
  shows "(f ^^ n) (a XOR b) = (f ^^ n) a XOR (f ^^ n) b"
  by (induction n) (simp_all add: assms)

lemma crc_bit_le_odd: "crc_bit_le p c = drop_bit 1 c XOR (if odd c then p else 0)"
  by (simp add: crc_bit_le_def and_one_eq mod_2_eq_odd)

lemma crc_bit_be_top: "crc_bit_be p c = push_bit 1 c XOR (if bit c 31 then p else 0)"
proof -
  have "c AND 0x80000000 \<noteq> 0 \<longleftrightarrow> bit c 31" using and_exp_eq_0_iff_not_bit [of c 31] by simp
  then show ?thesis by (simp add: crc_bit_be_def)
qed

lemma crc_bit_le_xor: "crc_bit_le p (a XOR b) = crc_bit_le p a XOR crc_bit_le p b"
  by (simp add: crc_bit_le_odd drop_bit_xor even_xor_iff xor.assoc xor.left_commute)

lemma crc_bit_be_xor: "crc_bit_be p (a XOR b) = crc_bit_be p a XOR crc_bit_be p b"
  by (simp add: crc_bit_be_top push_bit_xor bit_xor_iff xor.assoc xor.left_commute)

text \<open>A register whose low or high bits are clear only moves.\<close>

lemma crc_bit_le_moves:
  assumes "n \<le> 32" "drop_bit (32 - n) d = 0"
  shows "(crc_bit_le p ^^ n) (push_bit n d) = d"
  using assms
proof (induction n)
  case (Suc n)
  have top: "\<not> bit d m" if "32 - Suc n \<le> m" for m
  proof -
    have "\<not> bit (drop_bit (32 - Suc n) d) (m - (32 - Suc n))" using Suc.prems(2) by simp
    with that show ?thesis by (simp add: bit_drop_bit_eq)
  qed
  have "drop_bit 1 (push_bit (Suc n) d) = push_bit n d"
  proof (rule bit_word_eqI)
    fix m
    assume "m < LENGTH(32)"
    then show "bit (drop_bit 1 (push_bit (Suc n) d)) m = bit (push_bit n d) m"
      using top [of "m - n"] Suc.prems(1)
      by (cases "m = 31") (auto simp: bit_drop_bit_eq bit_push_bit_iff simp del: push_bit_Suc)
  qed
  then have "crc_bit_le p (push_bit (Suc n) d) = push_bit n d" by (simp add: crc_bit_le_odd push_bit_Suc)
  moreover have "drop_bit (32 - n) d = 0"
    using top by (intro bit_word_eqI) (auto simp: bit_drop_bit_eq)
  ultimately show ?case using Suc by (simp add: funpow_swap1 del: push_bit_Suc)
qed simp

lemma crc_bit_be_moves:
  assumes "\<And>m. 32 - n \<le> m \<Longrightarrow> \<not> bit d m" "n \<le> 32"
  shows "(crc_bit_be p ^^ n) d = push_bit n d"
  using assms
proof (induction n)
  case (Suc n)
  have "(crc_bit_be p ^^ n) d = push_bit n d" using Suc.prems by (intro Suc.IH) simp_all
  moreover have "\<not> bit (push_bit n d) 31" using Suc.prems(1) [of "31 - n"] Suc.prems(2) by (auto simp: bit_push_bit_iff)
  moreover from this have "crc_bit_be p (push_bit n d) = push_bit (Suc n) d" unfolding crc_bit_be_top by (simp add: push_bit_push_bit)
  ultimately show ?case by simp
qed simp

lemma crc_step_le: "crc_step (crc_bit_le p ^^ 8)"
proof
  show "(crc_bit_le p ^^ 8) (push_bit 8 d) = d" if "drop_bit 24 d = 0" for d
    using crc_bit_le_moves [of 8 d] that by simp
qed (rule funpow_xor [OF crc_bit_le_xor])

interpretation le: crc_step "crc_bit_le p ^^ 8"
  by (rule crc_step_le)

text \<open>The first row of the little-endian table.\<close>

definition le_entry :: "nat \<Rightarrow> u32" where
  "le_entry i = (crc_bit_le CRC32C_POLY_LE ^^ 8) (of_nat i)"

lemma le_entry_power:
  assumes "k \<le> 7"
  shows "le_entry (2 ^ k) = (crc_bit_le CRC32C_POLY_LE ^^ (8 - k)) 1"
proof -
  have "drop_bit (32 - k) (1 :: u32) = 0"
    using assms by (intro bit_word_eqI) (auto simp: bit_drop_bit_eq bit_1_iff)
  then have "(crc_bit_le CRC32C_POLY_LE ^^ k) (push_bit k 1) = 1" using assms by (intro crc_bit_le_moves) simp_all
  moreover have "of_nat (2 ^ k) = (push_bit k 1 :: u32)" by (simp add: push_bit_eq_mult)
  moreover have "(crc_bit_le CRC32C_POLY_LE ^^ 8) x = (crc_bit_le CRC32C_POLY_LE ^^ (8 - k)) ((crc_bit_le CRC32C_POLY_LE ^^ k) x)" for x
    using funpow_add [of "8 - k" k "crc_bit_le CRC32C_POLY_LE"] assms by simp
  ultimately show ?thesis by (simp add: le_entry_def)
qed

lemma disjoint_add:
  assumes "2 * 2 ^ k dvd j"
  shows "(of_nat (2 ^ k + j) :: u32) = of_nat (2 ^ k) XOR of_nat j"
proof -
  from assms obtain q where "j = 2 ^ Suc k * q" by (auto elim: dvdE)
  then have j: "(of_nat j :: u32) = push_bit (Suc k) (of_nat q)" by (simp add: push_bit_eq_mult mult.commute)
  have k: "(of_nat (2 ^ k) :: u32) = push_bit k 1" by (simp add: push_bit_eq_mult)
  have "(push_bit k 1 :: u32) AND push_bit (Suc k) (of_nat q) = 0"
    by (rule bit_word_eqI) (auto simp: bit_and_iff bit_push_bit_iff bit_1_iff bit_exp_iff simp del: push_bit_Suc)
  then show ?thesis unfolding of_nat_add k j by (simp add: disjunctive_add_eq_xor del: push_bit_Suc)
qed

lemma le_entry_add: "2 * 2 ^ k dvd j \<Longrightarrow> le_entry (2 ^ k + j) = le_entry (2 ^ k) XOR le_entry j"
  unfolding le_entry_def disjoint_add by (rule le.S_xor)

lemma le_fill_eq:
  assumes "length row = 256" "k \<le> 7" "2 * 2 ^ k dvd j"
    and "\<And>m. m < 256 \<Longrightarrow> 2 * 2 ^ k dvd m \<Longrightarrow> row ! m = le_entry m" "\<And>m. m < 256 \<Longrightarrow> 2 ^ k dvd m \<Longrightarrow> m < j \<Longrightarrow> row ! m = le_entry m"
  shows "\<exists>row'. le_fill (2 ^ k) (le_entry (2 ^ k)) j row = Some row' \<and> length row' = 256
    \<and> (\<forall>m < 256. 2 ^ k dvd m \<longrightarrow> row' ! m = le_entry m)"
  using assms
proof (induction "256 - j" arbitrary: j row rule: less_induct)
  case less
  let ?i = "2 ^ k :: nat"
  show ?case
  proof (cases "j < 256")
    case False
    with less.prems show ?thesis by (subst le_fill.simps) auto
  next
    case True
    have dv: "(2 * ?i) dvd 256"
    proof -
      have "(256 :: nat) = 2 * ?i * 2 ^ (7 - k)" using less.prems(2) by (simp flip: power_add)
      then show ?thesis by (metis dvd_triv_left)
    qed
    from dv less.prems(3) obtain b c where bc: "j = 2 * ?i * b" "256 = 2 * ?i * c" by (metis dvd_def)
    have pos: "0 < ?i" by simp
    have "2 * ?i * b < 2 * ?i * c" using True bc by simp
    then have "Suc b \<le> c" by simp
    then have "2 * ?i * Suc b \<le> 2 * ?i * c" by (rule mult_le_mono2)
    then have "j + 2 * ?i \<le> 256" unfolding bc(1) bc(2) [symmetric] by simp
    then have ij: "?i + j < 256" using pos by linarith
    let ?row = "row[?i + j := le_entry (?i + j)]"
    have ne: "m \<noteq> ?i + j" if "2 * ?i dvd m" for m
    proof
      assume e: "m = ?i + j"
      from that obtain a where "m = 2 * ?i * a" by (metis dvd_def)
      with e bc(1) have "?i * (2 * a) = ?i * (2 * b + 1)" by (simp add: algebra_simps)
      with pos have "2 * a = 2 * b + 1" by (metis mult_cancel1 less_numeral_extra(3))
      then show False by presburger
    qed
    have "le_fill ?i (le_entry ?i) j row = le_fill ?i (le_entry ?i) (j + 2 * ?i) ?row"
      using True ij less.prems(1,3,4) by (subst le_fill.simps) (simp add: le_entry_add)
    moreover have "\<exists>row'. le_fill ?i (le_entry ?i) (j + 2 * ?i) ?row = Some row' \<and> length row' = 256
        \<and> (\<forall>m < 256. ?i dvd m \<longrightarrow> row' ! m = le_entry m)"
    proof (rule less.hyps)
      fix m assume m: "m < 256" "?i dvd m" "m < j + 2 * ?i"
      from m(2) less.prems(3) obtain a b where ab: "m = ?i * a" "j = ?i * b" by (metis dvd_def dvd_mult_right mult.commute)
      with m(3) have "?i * a < ?i * (b + 2)" by (simp add: algebra_simps)
      then have "a < b + 2" by (simp only: mult_less_cancel1)
      then consider "a < b" | "a = b" | "a = Suc b" by linarith
      then consider "m < j" | "m = j" | "m = ?i + j" using ab by cases simp_all
      then show "?row ! m = le_entry m" using m less.prems ij by cases (auto simp: nth_list_update)
    next
      show "256 - (j + 2 * ?i) < 256 - j" using True pos by linarith
    next
      fix m assume "m < 256" "2 * ?i dvd m"
      with ne [of m] less.prems(4) [of m] show "?row ! m = le_entry m" by (metis nth_list_update_neq)
    qed (use less.prems in simp_all)
    ultimately show ?thesis by simp
  qed
qed

lemma le_first_row_eq:
  assumes "length row = 256" "k \<le> 7" "\<And>m. m < 256 \<Longrightarrow> 2 * 2 ^ k dvd m \<Longrightarrow> row ! m = le_entry m"
  shows "le_first_row (2 ^ k) ((crc_bit_le CRC32C_POLY_LE ^^ (7 - k)) 1) row = Some (map le_entry [0..<256])"
  using assms
proof (induction k arbitrary: row)
  case 0
  have c: "crc_bit_le CRC32C_POLY_LE ((crc_bit_le CRC32C_POLY_LE ^^ 7) 1) = le_entry 1"
    using le_entry_power [of 0] funpow.simps(2) [of 7 "crc_bit_le CRC32C_POLY_LE"] by (simp del: funpow.simps)
  from le_fill_eq [of row 0 0] "0.prems" obtain row' where
    r: "le_fill 1 (le_entry 1) 0 row = Some row'" "length row' = 256" "\<forall>m < 256. row' ! m = le_entry m" by auto
  then have "row' = map le_entry [0..<256]" by (intro nth_equalityI) simp_all
  moreover have "le_first_row 0 x row' = Some row'" for x by (subst le_first_row.simps) simp
  ultimately show ?case using r(1) c by (subst le_first_row.simps) simp
next
  case (Suc k)
  have c: "crc_bit_le CRC32C_POLY_LE ((crc_bit_le CRC32C_POLY_LE ^^ (7 - Suc k)) 1) = le_entry (2 ^ Suc k)"
    using le_entry_power [of "Suc k"] Suc.prems(2) Suc_diff_le [of "Suc k" 7] by (simp add: Suc_diff_le)
  from le_fill_eq [of row "Suc k" 0] Suc.prems obtain row' where
    r: "le_fill (2 ^ Suc k) (le_entry (2 ^ Suc k)) 0 row = Some row'" "length row' = 256"
      "\<forall>m < 256. 2 ^ Suc k dvd m \<longrightarrow> row' ! m = le_entry m" by auto
  have n: "le_entry (2 ^ Suc k) = (crc_bit_le CRC32C_POLY_LE ^^ (7 - k)) 1" using le_entry_power [of "Suc k"] Suc.prems(2) by simp
  have d: "2 ^ Suc k div 2 = (2 ^ k :: nat)" "2 ^ Suc k \<noteq> (0 :: nat)" by simp_all
  have "le_first_row (2 ^ Suc k) ((crc_bit_le CRC32C_POLY_LE ^^ (7 - Suc k)) 1) row
      = le_first_row (2 ^ k) (le_entry (2 ^ Suc k)) row'"
    by (subst le_first_row.simps) (simp only: d c r(1) Let_def Option.bind.simps if_True simp_thms)
  moreover have "le_first_row (2 ^ k) ((crc_bit_le CRC32C_POLY_LE ^^ (7 - k)) 1) row' = Some (map le_entry [0..<256])"
    using r Suc.prems(2) by (intro Suc.IH) simp_all
  ultimately show ?case unfolding n by simp
qed

text \<open>The first row of the big-endian table.\<close>

definition be_entry :: "nat \<Rightarrow> u32" where
  "be_entry i = (crc_bit_be CRCPOLY_BE ^^ 8) (push_bit 24 (of_nat i))"

lemma be_entry_power:
  assumes "k \<le> 7"
  shows "be_entry (2 ^ k) = (crc_bit_be CRCPOLY_BE ^^ Suc k) 0x80000000"
proof -
  have "(crc_bit_be CRCPOLY_BE ^^ (7 - k)) (push_bit (24 + k) 1) = push_bit (7 - k) (push_bit (24 + k) (1 :: u32))"
    using assms by (intro crc_bit_be_moves) (auto simp: bit_push_bit_iff bit_1_iff bit_exp_iff)
  also have "\<dots> = push_bit 31 1" using assms by (simp only: push_bit_push_bit) simp
  also have "\<dots> = (0x80000000 :: u32)" by simp
  finally have "(crc_bit_be CRCPOLY_BE ^^ (7 - k)) (push_bit (24 + k) 1) = 0x80000000" .
  moreover have "push_bit 24 (of_nat (2 ^ k)) = (push_bit (24 + k) 1 :: u32)" by (simp add: push_bit_eq_mult power_add)
  moreover have "(crc_bit_be CRCPOLY_BE ^^ 8) x = (crc_bit_be CRCPOLY_BE ^^ Suc k) ((crc_bit_be CRCPOLY_BE ^^ (7 - k)) x)" for x
    using funpow_add [of "Suc k" "7 - k" "crc_bit_be CRCPOLY_BE"] assms by (simp del: funpow.simps)
  ultimately show ?thesis by (simp add: be_entry_def del: funpow.simps)
qed

lemma be_entry_add:
  assumes "j < 2 ^ k"
  shows "be_entry (2 ^ k + j) = be_entry (2 ^ k) XOR be_entry j"
proof -
  have "(of_nat (2 ^ k) :: u32) AND of_nat j = 0"
  proof (rule bit_word_eqI)
    fix n
    assume "n < LENGTH(32)"
    have "\<not> bit j k" using assms by (simp add: bit_iff_odd)
    then show "bit ((of_nat (2 ^ k) :: u32) AND of_nat j) n = bit (0 :: u32) n"
      by (auto simp: bit_and_iff bit_of_nat_iff bit_exp_iff)
  qed
  then have "(of_nat (2 ^ k + j) :: u32) = of_nat (2 ^ k) XOR of_nat j" by (simp add: disjunctive_add_eq_xor)
  then show ?thesis unfolding be_entry_def by (simp only: push_bit_xor funpow_xor [OF crc_bit_be_xor])
qed

lemma be_fill_eq:
  assumes "length row = 256" "k \<le> 7" "j \<le> 2 ^ k" "\<And>m. m < 2 ^ k + j \<Longrightarrow> row ! m = be_entry m"
  shows "\<exists>row'. be_fill (2 ^ k) (be_entry (2 ^ k)) j row = Some row' \<and> length row' = 256 \<and> (\<forall>m < 2 * 2 ^ k. row' ! m = be_entry m)"
  using assms
proof (induction "2 ^ k - j" arbitrary: j row)
  case 0
  then show ?case by (subst be_fill.simps) auto
next
  case (Suc n)
  let ?i = "2 ^ k :: nat"
  have "?i \<le> 2 ^ 7" using Suc.prems(2) by (intro power_increasing) simp_all
  then have j: "j < ?i" "?i + j < 256" using Suc.hyps(2) by simp_all
  have "be_fill ?i (be_entry ?i) j row = be_fill ?i (be_entry ?i) (j + 1) (row[?i + j := be_entry (?i + j)])"
    using j Suc.prems(1,4) by (subst be_fill.simps) (simp add: be_entry_add)
  moreover have "\<exists>row'. be_fill ?i (be_entry ?i) (j + 1) (row[?i + j := be_entry (?i + j)]) = Some row' \<and> length row' = 256
      \<and> (\<forall>m < 2 * ?i. row' ! m = be_entry m)"
    using j Suc by (intro Suc.hyps(1)) (auto simp: nth_list_update)
  ultimately show ?case by simp
qed

lemma be_first_row_eq:
  assumes "length row = 256" "k \<le> 8" "\<And>m. m < 2 ^ k \<Longrightarrow> row ! m = be_entry m"
  shows "be_first_row (2 ^ k) ((crc_bit_be CRCPOLY_BE ^^ k) 0x80000000) row = Some (map be_entry [0..<256])"
  using assms
proof (induction "8 - k" arbitrary: k row)
  case 0
  then have "row = map be_entry [0..<256]" by (intro nth_equalityI) simp_all
  with 0 show ?case by (subst be_first_row.simps) simp
next
  case (Suc n)
  then have k: "k \<le> 7" by simp
  have "(2 :: nat) ^ k \<le> 2 ^ 7" using k by (intro power_increasing) simp_all
  then have i: "(2 :: nat) ^ k < 256" by simp
  have c: "crc_bit_be CRCPOLY_BE ((crc_bit_be CRCPOLY_BE ^^ k) 0x80000000) = be_entry (2 ^ k)"
    using be_entry_power [OF k] by simp
  from be_fill_eq [of row k 0] k Suc.prems obtain row' where
    r: "be_fill (2 ^ k) (be_entry (2 ^ k)) 0 row = Some row'" "length row' = 256" "\<forall>m < 2 * 2 ^ k. row' ! m = be_entry m" by auto
  have "be_first_row (2 ^ k) ((crc_bit_be CRCPOLY_BE ^^ k) 0x80000000) row = be_first_row (2 ^ Suc k) (be_entry (2 ^ k)) row'"
    using i c r(1) by (subst be_first_row.simps) simp
  moreover have "be_first_row (2 ^ Suc k) ((crc_bit_be CRCPOLY_BE ^^ Suc k) 0x80000000) row' = Some (map be_entry [0..<256])"
    using Suc r k by (intro Suc.hyps(1)) simp_all
  ultimately show ?case using c by simp
qed

text \<open>The other rows: each is the image of the one before under the byte step.\<close>

definition rows_ok :: "(u32 \<Rightarrow> u32) \<Rightarrow> (nat \<Rightarrow> u32) \<Rightarrow> (nat \<Rightarrow> nat \<Rightarrow> bool) \<Rightarrow> u32 list list \<Rightarrow> bool" where
  "rows_ok N e done tab \<longleftrightarrow> length tab = 8 \<and> (\<forall>j < 8. length (tab ! j) = 256 \<and> (\<forall>i < 256. done j i \<longrightarrow> tab ! j ! i = (N ^^ j) (e i)))"

lemma rows_ok_first:
  assumes "rows_ok N e done tab" "\<And>i. done 0 i"
  shows "length tab = 8" "length (tab ! 0) = 256" "\<forall>i < 256. tab ! 0 ! i = e i"
proof -
  have "\<forall>j < 8. length (tab ! j) = 256 \<and> (\<forall>i < 256. done j i \<longrightarrow> tab ! j ! i = (N ^^ j) (e i))" "length tab = 8"
    using assms(1) by (simp_all add: rows_ok_def)
  from this(1) [rule_format, of 0] this(2) assms(2)
  show "length tab = 8" "length (tab ! 0) = 256" "\<forall>i < 256. tab ! 0 ! i = e i" by simp_all
qed

lemma row_entries_eq:
  assumes nxt: "\<And>row c. length row = 256 \<Longrightarrow> (\<forall>i < 256. row ! i = e i) \<Longrightarrow> nxt row c = Some (N c)"
    and "rows_ok N e (\<lambda>j' i'. j' = 0 \<or> i' < i \<or> i' = i \<and> j' < j) tab" "i < 256" "0 < j" "j \<le> 8"
  shows "\<exists>tab'. row_entries nxt i j ((N ^^ (j - 1)) (e i)) tab = Some tab' \<and> rows_ok N e (\<lambda>j' i'. j' = 0 \<or> i' < Suc i) tab'"
  using assms(2-)
proof (induction "8 - j" arbitrary: j tab)
  case 0
  then have "j = 8" by simp
  with 0 show ?case by (subst row_entries.simps) (auto simp: rows_ok_def less_Suc_eq)
next
  case (Suc n)
  then have j: "j < 8" by simp
  let ?c = "(N ^^ j) (e i)"
  let ?tab = "tab[j := (tab ! j)[i := ?c]]"
  have t: "length tab = 8" "length (tab ! 0) = 256" "length (tab ! j) = 256" "\<forall>i < 256. tab ! 0 ! i = e i"
    using rows_ok_first [OF Suc.prems(1)] Suc.prems(1) j by (simp_all add: rows_ok_def)
  have c: "N ((N ^^ (j - 1)) (e i)) = ?c" using Suc.prems(3) by (cases j) simp_all
  have "row_entries nxt i j ((N ^^ (j - 1)) (e i)) tab = row_entries nxt i (j + 1) ?c ?tab"
    using j t Suc.prems(2) nxt [OF t(2,4)] c by (subst row_entries.simps) simp
  moreover have "rows_ok N e (\<lambda>j' i'. j' = 0 \<or> i' < i \<or> i' = i \<and> j' < j + 1) ?tab"
    using Suc.prems t j by (auto simp: rows_ok_def nth_list_update less_Suc_eq)
  then have "\<exists>tab'. row_entries nxt i (j + 1) ((N ^^ (j + 1 - 1)) (e i)) ?tab = Some tab' \<and> rows_ok N e (\<lambda>j' i'. j' = 0 \<or> i' < Suc i) tab'"
    using Suc j by (intro Suc.hyps(1)) simp_all
  ultimately show ?case by simp
qed

lemma other_rows_eq:
  assumes nxt: "\<And>row c. length row = 256 \<Longrightarrow> (\<forall>i < 256. row ! i = e i) \<Longrightarrow> nxt row c = Some (N c)"
    and "rows_ok N e (\<lambda>j' i'. j' = 0 \<or> i' < i) tab" "i \<le> 256"
  shows "\<exists>tab'. other_rows nxt i tab = Some tab' \<and> rows_ok N e (\<lambda>_ _. True) tab'"
  using assms(2-)
proof (induction "256 - i" arbitrary: i tab)
  case 0
  then show ?case by (subst other_rows.simps) (auto simp: rows_ok_def)
next
  case (Suc n)
  then have i: "i < 256" by simp
  have t: "length tab = 8" "length (tab ! 0) = 256" "tab ! 0 ! i = e i" using rows_ok_first [OF Suc.prems(1)] i by simp_all
  have "rows_ok N e (\<lambda>j' i'. j' = 0 \<or> i' < i \<or> i' = i \<and> j' < 1) tab" using Suc.prems(1) by (auto simp: rows_ok_def)
  with i have "\<exists>tab'. row_entries nxt i 1 ((N ^^ (1 - 1)) (e i)) tab = Some tab' \<and> rows_ok N e (\<lambda>j' i'. j' = 0 \<or> i' < Suc i) tab'"
    by (intro row_entries_eq nxt) simp_all
  then obtain tab1 where
    r: "row_entries nxt i 1 (e i) tab = Some tab1" "rows_ok N e (\<lambda>j' i'. j' = 0 \<or> i' < Suc i) tab1" by auto
  have "other_rows nxt i tab = other_rows nxt (i + 1) tab1" using i t r(1) by (subst other_rows.simps) simp
  moreover have "\<exists>tab'. other_rows nxt (i + 1) tab1 = Some tab' \<and> rows_ok N e (\<lambda>_ _. True) tab'"
    using Suc r(2) by (intro Suc.hyps(1)) simp_all
  ultimately show ?case by simp
qed

lemma first_row_ok: "rows_ok N e (\<lambda>j i. j = 0 \<or> i < 0) (map e [0..<256] # replicate 7 (replicate 256 0))"
  by (auto simp: rows_ok_def nth_Cons split: nat.split)

lemma le_next_eq:
  assumes "length row = 256" "\<forall>i < 256. row ! i = le_entry i"
  shows "le_next row c = Some ((crc_bit_le CRC32C_POLY_LE ^^ 8) c)"
  using assms unat_and_255 [of c] le.S_split [of _ c] by (simp add: le_next_def le_entry_def)

lemma crc32ctable_le_eq: "\<exists>tab. crc32ctable_le = Some tab \<and> crc_slicing (crc_bit_le CRC32C_POLY_LE ^^ 8) tab"
proof -
  let ?S = "crc_bit_le CRC32C_POLY_LE ^^ 8"
  have "le_first_row 128 1 (replicate 256 0) = Some (map le_entry [0..<256])"
  proof -
    have "(crc_bit_le CRC32C_POLY_LE ^^ n) 0 = 0" for n by (induction n) (simp_all add: crc_bit_le_def)
    then have "replicate 256 0 ! m = le_entry m" if "m < 256" "2 * 2 ^ 7 dvd m" for m
      using that by (cases "m = 0") (auto simp: le_entry_def dest!: dvd_imp_le)
    from le_first_row_eq [of "replicate 256 0" 7, OF _ _ this] show ?thesis by simp
  qed
  moreover obtain tab where
    t: "other_rows le_next 0 (map le_entry [0..<256] # replicate 7 (replicate 256 0)) = Some tab" "rows_ok ?S le_entry (\<lambda>_ _. True) tab"
    using other_rows_eq [of le_entry le_next ?S 0, OF le_next_eq first_row_ok] by auto
  moreover have "crc_slicing ?S tab"
  proof (intro crc_slicing.intro crc_step_le crc_slicing_axioms.intro)
    fix k i :: nat
    assume "k < 8" "i < 256"
    then show "tab ! k ! i = (?S ^^ Suc k) (of_nat i)"
      using t(2) funpow_swap1 [of ?S k "of_nat i"] by (simp add: rows_ok_def le_entry_def)
  qed
  ultimately show ?thesis by (simp add: crc32ctable_le_def crc32cinit_le_def)
qed

lemma crc32_le_bits_eq: "crc32_le_bits poly crc p = crc_bytes (crc_bit_le poly ^^ 8) crc p"
  by (induction p arbitrary: crc) simp_all

lemma crc32c_le_run:
  assumes "len \<le> length p"
  shows "ext2fs_crc32c_le base crc p len = Some (crc32_le_bits CRC32C_POLY_LE crc (take len p))"
proof -
  obtain tab where t: "crc32ctable_le = Some tab" "crc_slicing (crc_bit_le CRC32C_POLY_LE ^^ 8) tab"
    using crc32ctable_le_eq by blast
  show ?thesis
    unfolding ext2fs_crc32c_le_def t(1) Option.bind.simps crc_slicing.crc32_body_eq [OF t(2) assms] crc32_le_bits_eq by (rule refl)
qed

text \<open>
  (C20) The CRC-32C of the library, which works on eight bytes at a time with the tables that the generator
  computes, is the bit-at-a-time CRC-32C of the bytes, for every seed, every length inside the buffer and
  every alignment of the buffer in memory.
\<close>

theorem crc32c_le_correct:
  assumes "len \<le> length p"
  shows "ext2fs_crc32c_le base crc p len = Some (crc32_le_bits CRC32C_POLY_LE crc (take len p))"
  using assms by (rule crc32c_le_run)

theorem crc32c_le_correct_witness:
  "ext2fs_crc32c_le 3 0xffffffff [1, 2, 3, 4, 5, 6, 7, 8, 9, 10, 11, 12, 13] 13
    = Some (crc32_le_bits CRC32C_POLY_LE 0xffffffff (take 13 [1, 2, 3, 4, 5, 6, 7, 8, 9, 10, 11, 12, 13]))"
  by (rule crc32c_le_correct) simp

subsection \<open>The big-endian variant\<close>

lemma swab32_bit:
  "bit (swab32 x) n \<longleftrightarrow> (if n < 8 then bit x (24 + n) else if n < 16 then bit x (8 + n) else if n < 24 then bit x (n - 8) else n < 32 \<and> bit x (n - 24))"
proof -
  have m: "(0x000000ff :: u32) = mask 8" "(0x0000ff00 :: u32) = push_bit 8 (mask 8)" "(0x00ff0000 :: u32) = push_bit 16 (mask 8)"
    "(0xff000000 :: u32) = push_bit 24 (mask 8)" by (simp_all add: mask_eq_exp_minus_1)
  show ?thesis unfolding swab32_def m
    by (auto simp: bit_or_iff bit_and_iff bit_push_bit_iff bit_drop_bit_eq bit_mask_iff simp del: push_bit_numeral push_bit_of_1)
qed

lemma swab32_swab32 [simp]: "swab32 (swab32 x) = x"
  by (rule bit_word_eqI) (auto simp: swab32_bit)

lemma swab32_xor: "swab32 (x XOR y) = swab32 x XOR swab32 y"
  by (rule bit_word_eqI) (auto simp: swab32_bit bit_xor_iff)

lemma swab32_byte: "drop_bit 8 x = 0 \<Longrightarrow> swab32 x = push_bit 24 x"
proof (rule bit_word_eqI)
  fix n
  assume x: "drop_bit 8 x = 0" and n: "n < LENGTH(32)"
  have "\<not> bit x m" if "8 \<le> m" for m
  proof -
    have "\<not> bit (drop_bit 8 x) (m - 8)" using x by simp
    with that show ?thesis by (simp add: bit_drop_bit_eq)
  qed
  then show "bit (swab32 x) n = bit (push_bit 24 x) n"
    using n by (auto simp: swab32_bit bit_push_bit_iff)
qed

definition be_step :: "u32 \<Rightarrow> u32" where
  "be_step c = swab32 ((crc_bit_be CRCPOLY_BE ^^ 8) (swab32 c))"

lemma be_step_funpow: "(be_step ^^ n) c = swab32 (((crc_bit_be CRCPOLY_BE ^^ 8) ^^ n) (swab32 c))"
  by (induction n) (simp_all add: be_step_def)

lemma crc32be_step: "crc_step be_step"
proof
  show "be_step (a XOR b) = be_step a XOR be_step b" for a b
    by (simp add: be_step_def swab32_xor funpow_xor [OF crc_bit_be_xor])
  fix d :: u32
  assume "drop_bit 24 d = 0"
  then have high: "\<not> bit d m" if "24 \<le> m" for m
  proof -
    have "\<not> bit (drop_bit 24 d) (m - 24)" using \<open>drop_bit 24 d = 0\<close> by simp
    with that show ?thesis by (simp add: bit_drop_bit_eq)
  qed
  have "(crc_bit_be CRCPOLY_BE ^^ 8) (swab32 (push_bit 8 d)) = push_bit 8 (swab32 (push_bit 8 d))"
    by (rule crc_bit_be_moves) (auto simp: swab32_bit bit_push_bit_iff)
  also have "\<dots> = swab32 d"
    using high by (intro bit_word_eqI) (auto simp: swab32_bit bit_push_bit_iff)
  finally show "be_step (push_bit 8 d) = d" by (simp add: be_step_def)
qed

interpretation be: crc_step be_step
  by (rule crc32be_step)

lemma be_next_eq:
  assumes "length row = 256" "\<forall>i < 256. row ! i = be_entry i"
  shows "be_next row c = Some ((crc_bit_be CRCPOLY_BE ^^ 8) c)"
proof -
  have c: "c = push_bit 24 (drop_bit 24 c) XOR take_bit 24 c"
    by (rule bit_word_eqI) (auto simp: bit_xor_iff bit_push_bit_iff bit_drop_bit_eq bit_take_bit_iff)
  have lo: "(crc_bit_be CRCPOLY_BE ^^ 8) (take_bit 24 c) = push_bit 8 (take_bit 24 c)"
    by (rule crc_bit_be_moves) (auto simp: bit_take_bit_iff)
  have "push_bit 8 (take_bit 24 c) = push_bit 8 c"
    by (rule bit_word_eqI) (auto simp: bit_push_bit_iff bit_take_bit_iff)
  with lo have S: "(crc_bit_be CRCPOLY_BE ^^ 8) c = (crc_bit_be CRCPOLY_BE ^^ 8) (push_bit 24 (drop_bit 24 c)) XOR push_bit 8 c"
    by (subst c) (simp only: funpow_xor [OF crc_bit_be_xor])
  have "drop_bit 24 c AND 255 = drop_bit 24 c"
    unfolding and_255 by (rule bit_word_eqI) (auto simp: bit_take_bit_iff bit_drop_bit_eq dest: bit_imp_le_length)
  moreover from this have "unat (drop_bit 24 c) < 256" using unat_and_255 [of "drop_bit 24 c"] by simp
  ultimately show ?thesis using assms S by (simp add: be_next_def be_entry_def)
qed

lemma crc32table_be_eq: "\<exists>tab. crc32table_be = Some tab \<and> crc_slicing be_step tab"
proof -
  let ?S = "crc_bit_be CRCPOLY_BE ^^ 8"
  have "be_entry 0 = 0"
  proof -
    have "(crc_bit_be CRCPOLY_BE ^^ n) 0 = 0" for n by (induction n) (simp_all add: crc_bit_be_def)
    then show ?thesis by (simp add: be_entry_def)
  qed
  then have "be_first_row 1 0x80000000 (replicate 256 0) = Some (map be_entry [0..<256])"
    using be_first_row_eq [of "replicate 256 0" 0] by simp
  moreover obtain tab where
    t: "other_rows be_next 0 (map be_entry [0..<256] # replicate 7 (replicate 256 0)) = Some tab" "rows_ok ?S be_entry (\<lambda>_ _. True) tab"
    using other_rows_eq [of be_entry be_next ?S 0, OF be_next_eq first_row_ok] by auto
  moreover have "crc_slicing be_step (map (map swab32) tab)"
  proof (intro crc_slicing.intro crc32be_step crc_slicing_axioms.intro)
    fix k i :: nat
    assume k: "k < 8" and i: "i < 256"
    have "drop_bit 8 (of_nat i :: u32) = 0"
    proof -
      have "unat (of_nat i :: u32) div 256 = 0" using i by (simp add: unat_of_nat)
      then show ?thesis by (simp add: word_unat_eq_iff unat_drop_bit_div)
    qed
    then have "swab32 (of_nat i) = push_bit 24 (of_nat i)" by (rule swab32_byte)
    moreover have "map (map swab32) tab ! k ! i = swab32 ((?S ^^ k) (be_entry i))" using t(2) k i by (simp add: rows_ok_def)
    ultimately show "map (map swab32) tab ! k ! i = (be_step ^^ Suc k) (of_nat i)"
      using funpow_swap1 [of ?S k] by (simp add: be_step_funpow be_entry_def del: funpow.simps) (simp add: funpow_swap1)
  qed
  ultimately show ?thesis by (simp add: crc32table_be_def crc32init_be_def)
qed

lemma crc32_be_bits_eq: "crc32_be_bits CRCPOLY_BE crc p = swab32 (crc_bytes be_step (swab32 crc) p)"
proof (induction p arbitrary: crc)
  case (Cons x p)
  have "swab32 (be_step (swab32 crc XOR ucast x)) = (crc_bit_be CRCPOLY_BE ^^ 8) (crc XOR push_bit 24 (ucast x))"
    by (simp add: be_step_def swab32_xor swab32_byte)
  then have "be_step (swab32 crc XOR ucast x) = swab32 ((crc_bit_be CRCPOLY_BE ^^ 8) (crc XOR push_bit 24 (ucast x)))"
    by (metis swab32_swab32)
  with Cons show ?case by (simp del: funpow.simps)
qed simp

text \<open>
  The big-endian CRC-32, which runs the same eight-bytes-at-a-time loop on a register and tables with
  swapped bytes, is the bit-at-a-time CRC-32 with the most significant bit first.
\<close>

theorem crc32_be_correct:
  assumes "len \<le> length p"
  shows "ext2fs_crc32_be base crc p len = Some (crc32_be_bits CRCPOLY_BE crc (take len p))"
proof -
  obtain tab where t: "crc32table_be = Some tab" "crc_slicing be_step tab" using crc32table_be_eq by blast
  show ?thesis
    unfolding ext2fs_crc32_be_def t(1) Option.bind.simps crc_slicing.crc32_body_eq [OF t(2) assms] crc32_be_bits_eq by simp
qed

theorem crc32_be_correct_witness:
  "ext2fs_crc32_be 1 0 [1, 2, 3, 4, 5, 6, 7, 8, 9, 10, 11, 12] 12
    = Some (crc32_be_bits CRCPOLY_BE 0 (take 12 [1, 2, 3, 4, 5, 6, 7, 8, 9, 10, 11, 12]))"
  by (rule crc32_be_correct) simp

subsection \<open>The sixteen-bit checksum\<close>

lemma crc_bit_le_numeral:
  "crc_bit_le p 0 = 0" "crc_bit_le p 1 = p"
  "crc_bit_le p (numeral (num.Bit0 n)) = drop_bit 1 (numeral (num.Bit0 n))"
  "crc_bit_le p (numeral (num.Bit1 n)) = drop_bit 1 (numeral (num.Bit1 n)) XOR p"
  unfolding crc_bit_le_odd
  by (simp_all only: even_numeral odd_numeral if_True if_False simp_thms xor.right_neutral odd_one even_zero drop_bit_of_0 drop_bit_of_1) simp

lemma eight_times: "(f ^^ 8) x = f (f (f (f (f (f (f (f x)))))))"
  by (simp add: eval_nat_numeral)

lemma crc16_table_entries: "map (\<lambda>i. (crc_bit_le 0xA001 ^^ 8) (of_nat i)) [0..<256] = map ucast crc16_table"
proof -
  have "[0..<256] = 0 # 1 # [2..<256]" by (simp add: upt_conv_Cons)
  then show ?thesis by (simp add: eight_times upt_rec_numeral crc16_table_def crc_bit_le_numeral)
qed

lemma crc16_next:
  fixes crc :: u32 and x :: u8
  shows "\<exists>t. c_load crc16_table (unat ((crc XOR ucast x) AND 0xff)) = Some t
    \<and> ((drop_bit 8 crc AND 0xff) XOR ucast t) AND 0x0000ffff = (crc_bit_le 0xA001 ^^ 8) ((crc AND 0xffff) XOR ucast x)"
proof -
  let ?S = "crc_bit_le 0xA001 ^^ 8" and ?i = "unat ((crc XOR ucast x) AND 0xff)"
  have len: "length crc16_table = 256" using arg_cong [OF crc16_table_entries, of length] by simp
  have i: "?i < 256" by (rule unat_and_255)
  have "map ucast crc16_table ! ?i = ?S (of_nat ?i)" unfolding crc16_table_entries [symmetric] using i by simp
  then have t: "ucast (crc16_table ! ?i) = ?S ((crc XOR ucast x) AND 255)" using i len by simp
  have m: "(0xffff :: u32) = mask 16" by (simp add: mask_eq_exp_minus_1)
  have a: "((crc AND 0xffff) XOR ucast x) AND 255 = (crc XOR ucast x) AND 255"
    unfolding m and_255 by (rule bit_word_eqI) (auto simp: bit_take_bit_iff bit_and_iff bit_xor_iff bit_mask_iff)
  have d: "drop_bit 8 ((crc AND 0xffff) XOR ucast x) = drop_bit 8 crc AND 0xff"
    unfolding m and_255
    by (rule bit_word_eqI) (auto simp: bit_take_bit_iff bit_and_iff bit_xor_iff bit_mask_iff bit_drop_bit_eq bit_unsigned_iff dest: bit_imp_le_length)
  have h: "((drop_bit 8 crc AND 0xff) XOR ucast (crc16_table ! ?i)) AND 0x0000ffff = (drop_bit 8 crc AND 0xff) XOR ucast (crc16_table ! ?i)"
    unfolding m and_255
    by (rule bit_word_eqI) (auto simp: bit_take_bit_iff bit_and_iff bit_xor_iff bit_mask_iff bit_unsigned_iff dest: bit_imp_le_length)
  have "?S ((crc AND 0xffff) XOR ucast x) = (drop_bit 8 crc AND 0xff) XOR ucast (crc16_table ! ?i)"
    by (subst le.S_split) (simp only: a d t, rule xor.commute)
  with h i len show ?thesis by simp
qed

lemma crc16_run:
  assumes "cp + len \<le> length buffer"
  shows "\<exists>r. ext2fs_crc16 crc buffer cp len = Some r \<and> r AND 0xffff = crc32_le_bits 0xA001 (crc AND 0xffff) (take len (drop cp buffer))"
  using assms
proof (induction len arbitrary: crc cp)
  case (Suc len)
  obtain t where t: "c_load crc16_table (unat ((crc XOR ucast (buffer ! cp)) AND 0xff)) = Some t"
    "((drop_bit 8 crc AND 0xff) XOR ucast t) AND 0x0000ffff = (crc_bit_le 0xA001 ^^ 8) ((crc AND 0xffff) XOR ucast (buffer ! cp))"
    using crc16_next by blast
  let ?c = "((drop_bit 8 crc AND 0xff) XOR ucast t) AND 0x0000ffff"
  have "?c AND 0xffff = ?c" by (simp add: and.assoc)
  with Suc.IH [of "Suc cp" ?c] Suc.prems obtain r where
    "ext2fs_crc16 ?c buffer (Suc cp) len = Some r" "r AND 0xffff = crc32_le_bits 0xA001 ?c (take len (drop (Suc cp) buffer))" by auto
  moreover have "c_load buffer cp = Some (buffer ! cp)" using Suc.prems by simp
  ultimately show ?case using t Suc.prems by (simp add: take_drop_step del: funpow.simps)
qed simp

text \<open>
  The table-driven 16-bit checksum is the bit-at-a-time CRC-16 with the polynomial 0x8005 in reflected
  form, of which only the low 16 bits of the seed count: the table of 256 constants is right.
\<close>

theorem crc16_correct:
  assumes "cp + len \<le> length buffer"
  shows "\<exists>r. ext2fs_crc16 crc buffer cp len = Some r \<and> r AND 0xffff = crc32_le_bits 0xA001 (crc AND 0xffff) (take len (drop cp buffer))"
  using assms by (rule crc16_run)

theorem crc16_correct_witness:
  "\<exists>r. ext2fs_crc16 0xffffffff [0x31, 0x32, 0x33] 0 3 = Some r
    \<and> r AND 0xffff = crc32_le_bits 0xA001 (0xffffffff AND 0xffff) (take 3 (drop 0 [0x31, 0x32, 0x33]))"
  by (rule crc16_correct) simp

end
