(* ===== verification/Le_Bytes.thy ===== *)
theory Le_Bytes
  imports E2_Prelude
begin

unbundle bit_operations_syntax

text \<open>
  Structures as they lie in memory or on disk: little-endian numbers inside arrays of bytes. \<open>c_get\<close> and
  \<open>c_put\<close> read and write several bytes at once and are undefined outside the array.
\<close>

definition c_get :: "'a list \<Rightarrow> nat \<Rightarrow> nat \<Rightarrow> 'a list ub" where
  "c_get buf i n = (if i + n \<le> length buf then Some (take n (drop i buf)) else None)"

definition c_put :: "'a list \<Rightarrow> nat \<Rightarrow> 'a list \<Rightarrow> 'a list ub" where
  "c_put buf i xs = (if i + length xs \<le> length buf then Some (take i buf @ xs @ drop (i + length xs) buf) else None)"

definition le16 :: "u16 \<Rightarrow> u8 list" where
  "le16 w = [ucast w, ucast (drop_bit 8 w)]"

definition le32 :: "u32 \<Rightarrow> u8 list" where
  "le32 w = [ucast w, ucast (drop_bit 8 w), ucast (drop_bit 16 w), ucast (drop_bit 24 w)]"

definition le64 :: "u64 \<Rightarrow> u8 list" where
  "le64 w = le32 (ucast w) @ le32 (ucast (drop_bit 32 w))"

definition of_le16 :: "u8 list \<Rightarrow> u16" where
  "of_le16 bs = ucast (bs ! 0) OR push_bit 8 (ucast (bs ! 1))"

definition of_le32 :: "u8 list \<Rightarrow> u32" where
  "of_le32 bs = ucast (bs ! 0) OR push_bit 8 (ucast (bs ! 1)) OR push_bit 16 (ucast (bs ! 2)) OR push_bit 24 (ucast (bs ! 3))"

definition get16 :: "u8 list \<Rightarrow> nat \<Rightarrow> u16 ub" where
  "get16 buf i = map_option of_le16 (c_get buf i 2)"

definition get32 :: "u8 list \<Rightarrow> nat \<Rightarrow> u32 ub" where
  "get32 buf i = map_option of_le32 (c_get buf i 4)"

definition put16 :: "u8 list \<Rightarrow> nat \<Rightarrow> u16 \<Rightarrow> u8 list ub" where
  "put16 buf i w = c_put buf i (le16 w)"

definition put32 :: "u8 list \<Rightarrow> nat \<Rightarrow> u32 \<Rightarrow> u8 list ub" where
  "put32 buf i w = c_put buf i (le32 w)"

lemma length_le [simp]: "length (le16 a) = 2" "length (le32 b) = 4" "length (le64 c) = 8"
  by (simp_all add: le16_def le32_def le64_def)

lemma of_le16_le16 [simp]: "of_le16 (le16 w) = w"
  unfolding of_le16_def le16_def
  by (rule bit_word_eqI) (auto simp: bit_or_iff bit_push_bit_iff bit_unsigned_iff bit_drop_bit_eq dest: bit_imp_le_length)

lemma of_le32_le32 [simp]: "of_le32 (le32 w) = w"
proof (rule bit_word_eqI)
  fix n
  assume n: "n < LENGTH(32)"
  then consider "n < 8" | "8 \<le> n" "n < 16" | "16 \<le> n" "n < 24" | "24 \<le> n" "n < 32" by fastforce
  then show "bit (of_le32 (le32 w)) n = bit w n"
    by cases (auto simp: of_le32_def le32_def bit_or_iff bit_push_bit_iff bit_unsigned_iff bit_drop_bit_eq)
qed

lemma list_two: "length bs = 2 \<Longrightarrow> bs = [bs ! 0, bs ! 1]"
  by (auto simp: numeral_2_eq_2 length_Suc_conv)

lemma list_four: "length bs = 4 \<Longrightarrow> bs = [bs ! 0, bs ! 1, bs ! 2, bs ! 3]"
  by (auto simp: numeral_eq_Suc length_Suc_conv)

lemma le16_of_le16 [simp]: "length bs = 2 \<Longrightarrow> le16 (of_le16 bs) = bs"
proof -
  assume "length bs = 2"
  moreover have "ucast (of_le16 bs) = bs ! 0" "ucast (drop_bit 8 (of_le16 bs)) = bs ! 1"
    unfolding of_le16_def
    by (rule bit_word_eqI, auto simp: bit_or_iff bit_push_bit_iff bit_unsigned_iff bit_drop_bit_eq dest: bit_imp_le_length)+
  ultimately show ?thesis using list_two [of bs] by (simp add: le16_def)
qed

lemma le32_of_le32 [simp]: "length bs = 4 \<Longrightarrow> le32 (of_le32 bs) = bs"
proof -
  assume "length bs = 4"
  moreover have "ucast (of_le32 bs) = bs ! 0" "ucast (drop_bit 8 (of_le32 bs)) = bs ! 1"
    "ucast (drop_bit 16 (of_le32 bs)) = bs ! 2" "ucast (drop_bit 24 (of_le32 bs)) = bs ! 3"
    unfolding of_le32_def
    by (rule bit_word_eqI, auto simp: bit_or_iff bit_push_bit_iff bit_unsigned_iff bit_drop_bit_eq dest: bit_imp_le_length)+
  ultimately show ?thesis using list_four [of bs] by (simp add: le32_def)
qed

text \<open>Reading what was written, next to it, and writing the old value back.\<close>

lemma c_put_inside: "i + length xs \<le> length buf \<Longrightarrow> c_put buf i xs = Some (take i buf @ xs @ drop (i + length xs) buf)"
  by (simp add: c_put_def)

lemma c_put_SomeD:
  assumes "c_put buf i xs = Some buf'"
  shows "i + length xs \<le> length buf" "buf' = take i buf @ xs @ drop (i + length xs) buf" "length buf' = length buf"
proof -
  show "i + length xs \<le> length buf" "buf' = take i buf @ xs @ drop (i + length xs) buf"
    using assms by (simp_all add: c_put_def split: if_splits)
  then show "length buf' = length buf" by simp
qed

lemma c_get_put_same: "c_put buf i xs = Some buf' \<Longrightarrow> c_get buf' i (length xs) = Some xs"
  by (auto simp: c_get_def c_put_def split: if_splits)

lemma c_get_put_other:
  assumes "c_put buf i xs = Some buf'" "j + n \<le> i \<or> i + length xs \<le> j"
  shows "c_get buf' j n = c_get buf j n"
proof -
  note p = c_put_SomeD [OF assms(1)]
  have "take n (drop j buf') = take n (drop j buf)"
    using assms(2)
  proof
    assume "j + n \<le> i"
    with p(1) have "n \<le> i - j" "i - j \<le> length buf - j" by simp_all
    with p(1) show ?thesis by (auto simp: p(2) drop_take min_def)
  next
    assume "i + length xs \<le> j"
    with p(1) show ?thesis by (simp add: p(2))
  qed
  with p(3) show ?thesis by (simp add: c_get_def)
qed

lemma c_put_back:
  assumes "c_put buf i xs = Some buf'" "c_get buf i (length xs) = Some old"
  shows "c_put buf' i old = Some buf"
proof -
  note p = c_put_SomeD [OF assms(1)]
  have old: "old = take (length xs) (drop i buf)" "length old = length xs" using assms(2) p(1) by (auto simp: c_get_def split: if_splits)
  have "take i buf @ take (length xs) (drop i buf) @ drop (i + length xs) buf = buf"
    by (metis append.assoc append_take_drop_id take_add)
  with p old show ?thesis by (simp add: c_put_def)
qed

lemma c_put_put: "c_put buf i xs = Some buf' \<Longrightarrow> length ys = length xs \<Longrightarrow> c_put buf' i ys = c_put buf i ys"
  by (auto simp: c_put_def split: if_splits)

lemma take_c_put: "c_put buf i xs = Some buf' \<Longrightarrow> n \<le> i \<Longrightarrow> take n buf' = take n buf"
  by (auto simp: c_put_def split: if_splits)

lemma get16_put16: "put16 buf i w = Some buf' \<Longrightarrow> get16 buf' i = Some w"
  using c_get_put_same [of buf i "le16 w" buf'] by (simp add: put16_def get16_def)

lemma get32_put32: "put32 buf i w = Some buf' \<Longrightarrow> get32 buf' i = Some w"
  using c_get_put_same [of buf i "le32 w" buf'] by (simp add: put32_def get32_def)

lemma put_inside:
  "i + 2 \<le> length buf \<Longrightarrow> \<exists>buf'. put16 buf i v = Some buf' \<and> length buf' = length buf"
  "i + 4 \<le> length buf \<Longrightarrow> \<exists>buf'. put32 buf i w = Some buf' \<and> length buf' = length buf"
  by (simp_all add: put16_def put32_def c_put_def)

lemma get_inside:
  "i + 2 \<le> length buf \<Longrightarrow> \<exists>v. get16 buf i = Some v" "i + 4 \<le> length buf \<Longrightarrow> \<exists>w. get32 buf i = Some w"
  by (simp_all add: get16_def get32_def c_get_def)

lemma put16_back: "put16 buf i v = Some buf' \<Longrightarrow> get16 buf i = Some old \<Longrightarrow> put16 buf' i old = Some buf"
  using c_put_back [of buf i "le16 v" buf'] by (auto simp: put16_def get16_def c_get_def split: if_splits)

lemma put32_back: "put32 buf i v = Some buf' \<Longrightarrow> get32 buf i = Some old \<Longrightarrow> put32 buf' i old = Some buf"
  using c_put_back [of buf i "le32 v" buf'] by (auto simp: put32_def get32_def c_get_def split: if_splits)

subsection \<open>Strings\<close>

text \<open>A string is an array of bytes; its length is the number of bytes before the first zero.\<close>

definition c_strlen :: "u8 list \<Rightarrow> nat ub" where
  "c_strlen s = (if 0 \<in> set s then Some (length (takeWhile (\<lambda>c. c \<noteq> 0) s)) else None)"

lemma c_strlen_string:
  assumes "0 \<notin> set nm"
  shows "c_strlen (nm @ [0]) = Some (length nm)"
proof -
  have "takeWhile (\<lambda>c. c \<noteq> 0) (nm @ [0]) = nm" using assms by (subst takeWhile_append2) auto
  then show ?thesis by (simp add: c_strlen_def)
qed

end
