(* ===== verification/Csum.thy ===== *)
theory Csum
  imports Bitmaps Crc Le_Bytes
begin

unbundle bit_operations_syntax

text \<open>
  \<^verbatim>\<open>lib/ext2fs/csum.c\<close>: the checksums of the metadata, on a little-endian machine. A structure that is
  checksummed in its on-disk form is the list of its bytes, and its fields are read and written at their
  offsets; the group descriptors are the records of the file system, laid out in bytes for the checksum.
  \<open>adr\<close> is the address at which the buffers start; the result does not depend on it. Reading the inode
  whose generation number enters some of the checksums is an argument \<open>read_inode\<close>: the error code or the
  generation number.
\<close>

definition ext2fs_init_csum_seed :: "nat \<Rightarrow> filsys \<Rightarrow> filsys ub" where
  "ext2fs_init_csum_seed adr fs =
     (if ext2fs_has_feature_csum_seed (fs_super fs) then Some (fs\<lparr>fs_csum_seed := s_checksum_seed (fs_super fs)\<rparr>)
      else if ext2fs_has_feature_metadata_csum (fs_super fs) \<or> ext2fs_has_feature_ea_inode (fs_super fs) then do {
        crc \<leftarrow> ext2fs_crc32c_le adr 0xffffffff (s_uuid (fs_super fs)) 16;
        Some (fs\<lparr>fs_csum_seed := crc\<rparr>)
      }
      else Some fs)"

subsection \<open>Multi-mount protection block and superblock\<close>

definition ext2fs_mmp_csum :: "nat \<Rightarrow> filsys \<Rightarrow> u8 list \<Rightarrow> u32 ub" where
  "ext2fs_mmp_csum adr fs mmp = ext2fs_crc32c_le adr (fs_csum_seed fs) mmp 1020"

definition ext2fs_mmp_csum_verify :: "nat \<Rightarrow> filsys \<Rightarrow> u8 list \<Rightarrow> bool ub" where
  "ext2fs_mmp_csum_verify adr fs mmp =
     (if \<not> ext2fs_has_feature_metadata_csum (fs_super fs) then Some True
      else do {
        calculated \<leftarrow> ext2fs_mmp_csum adr fs mmp;
        c \<leftarrow> get32 mmp 1020;
        Some (c = calculated)
      })"

definition ext2fs_mmp_csum_set :: "nat \<Rightarrow> filsys \<Rightarrow> u8 list \<Rightarrow> (errcode \<times> u8 list) ub" where
  "ext2fs_mmp_csum_set adr fs mmp =
     (if \<not> ext2fs_has_feature_metadata_csum (fs_super fs) then Some (E_OK, mmp)
      else do {
        crc \<leftarrow> ext2fs_mmp_csum adr fs mmp;
        mmp \<leftarrow> put32 mmp 1020 crc;
        Some (E_OK, mmp)
      })"

definition ext2fs_verify_csum_type :: "filsys \<Rightarrow> super_block \<Rightarrow> bool" where
  "ext2fs_verify_csum_type fs sb \<longleftrightarrow> \<not> ext2fs_has_feature_metadata_csum (fs_super fs) \<or> s_checksum_type sb = 1"

text \<open>The superblock as it is on disk; the flag is the same whether the bytes were swapped or not.\<close>

definition ext2fs_superblock_csum :: "nat \<Rightarrow> u8 list \<Rightarrow> u32 ub" where
  "ext2fs_superblock_csum adr sb = ext2fs_crc32c_le adr 0xffffffff sb 1020"

definition ext2fs_superblock_csum_verify :: "nat \<Rightarrow> filsys \<Rightarrow> u8 list \<Rightarrow> bool ub" where
  "ext2fs_superblock_csum_verify adr fs sb =
     (if s_feature_ro_compat (fs_super fs) AND 0x0400 = 0 then Some True
      else do {
        calculated \<leftarrow> ext2fs_superblock_csum adr sb;
        c \<leftarrow> get32 sb 1020;
        Some (c = calculated)
      })"

definition ext2fs_superblock_csum_set :: "nat \<Rightarrow> filsys \<Rightarrow> u8 list \<Rightarrow> (errcode \<times> u8 list) ub" where
  "ext2fs_superblock_csum_set adr fs sb =
     (if s_feature_ro_compat (fs_super fs) AND 0x0400 = 0 then Some (E_OK, sb)
      else do {
        crc \<leftarrow> ext2fs_superblock_csum adr sb;
        sb \<leftarrow> put32 sb 1020 crc;
        Some (E_OK, sb)
      })"

subsection \<open>Extended attribute blocks\<close>

text \<open>The field is cleared while the checksum is computed, and then restored.\<close>

definition ext2fs_ext_attr_block_csum :: "nat \<Rightarrow> filsys \<Rightarrow> u64 \<Rightarrow> u8 list \<Rightarrow> (u32 \<times> u8 list) ub" where
  "ext2fs_ext_attr_block_csum adr fs block hdr = do {
     old_crc \<leftarrow> get32 hdr 16;
     hdr \<leftarrow> put32 hdr 16 0;
     crc \<leftarrow> ext2fs_crc32c_le adr (fs_csum_seed fs) (le64 block) 8;
     crc \<leftarrow> ext2fs_crc32c_le adr crc hdr (unat (fs_blocksize fs));
     hdr \<leftarrow> put32 hdr 16 old_crc;
     Some (crc, hdr)
   }"

definition ext2fs_ext_attr_block_csum_verify :: "nat \<Rightarrow> filsys \<Rightarrow> u64 \<Rightarrow> u8 list \<Rightarrow> (bool \<times> u8 list) ub" where
  "ext2fs_ext_attr_block_csum_verify adr fs block hdr =
     (if \<not> ext2fs_has_feature_metadata_csum (fs_super fs) then Some (True, hdr)
      else do {
        (calculated, hdr) \<leftarrow> ext2fs_ext_attr_block_csum adr fs block hdr;
        c \<leftarrow> get32 hdr 16;
        Some (c = calculated, hdr)
      })"

definition ext2fs_ext_attr_block_csum_set :: "nat \<Rightarrow> filsys \<Rightarrow> u64 \<Rightarrow> u8 list \<Rightarrow> (errcode \<times> u8 list) ub" where
  "ext2fs_ext_attr_block_csum_set adr fs block hdr =
     (if \<not> ext2fs_has_feature_metadata_csum (fs_super fs) then Some (E_OK, hdr)
      else do {
        (crc, hdr) \<leftarrow> ext2fs_ext_attr_block_csum adr fs block hdr;
        hdr \<leftarrow> put32 hdr 16 crc;
        Some (E_OK, hdr)
      })"

subsection \<open>Directory blocks\<close>

text \<open>
  The offset of the count and limit of an index block; \<^verbatim>\<open>fs->blocksize - count_offset\<close> is computed with
  32 bits.
\<close>

definition dx_count_offset :: "filsys \<Rightarrow> u8 list \<Rightarrow> (errcode + nat) ub" where
  "dx_count_offset fs dirent = do {
     rec_len \<leftarrow> get16 dirent 4;
     name_len \<leftarrow> get16 dirent 6;
     if unat rec_len = unat (fs_blocksize fs) \<and> name_len = 0 then Some (Inr 8)
     else if rec_len = 12 then do {
       rec_len \<leftarrow> get16 dirent 16;
       if unat rec_len \<noteq> unat (fs_blocksize fs - 12) then Some (Inl EXT2_ET_DB_NOT_FOUND)
       else do {
         reserved_zero \<leftarrow> get32 dirent 24;
         info_length \<leftarrow> c_load dirent 29;
         Some (if reserved_zero \<noteq> 0 \<or> info_length \<noteq> 8 then Inl EXT2_ET_DB_NOT_FOUND else Inr 32)
       }
     }
     else Some (Inl EXT2_ET_DB_NOT_FOUND)
   }"

definition get_dx_countlimit :: "filsys \<Rightarrow> u8 list \<Rightarrow> (errcode + nat) ub" where
  "get_dx_countlimit fs dirent = do {
     r \<leftarrow> dx_count_offset fs dirent;
     case r of
       Inl e \<Rightarrow> Some (Inl e)
     | Inr count_offset \<Rightarrow> do {
         limit \<leftarrow> get16 dirent count_offset;
         count \<leftarrow> get16 dirent (count_offset + 2);
         let max_sane_entries = unat (fs_blocksize fs - of_nat count_offset) div 8;
         Some (if unat limit > max_sane_entries \<or> unat count > max_sane_entries then Inl EXT2_ET_DIR_NO_SPACE_FOR_CSUM
               else Inr count_offset)
       }
   }"

text \<open>
  The walk over the directory entries from the offset \<open>d\<close>: an error for a bad record length, or the offset
  where it ends.
\<close>

function dirent_walk :: "u8 list \<Rightarrow> nat \<Rightarrow> nat \<Rightarrow> (errcode + nat) ub" where
  "dirent_walk dirent tail d =
     (if d < tail then do {
        rec_len \<leftarrow> get16 dirent (d + 4);
        if unat rec_len < 8 \<or> rec_len AND 3 \<noteq> 0 then Some (Inl EXT2_ET_DIR_CORRUPTED)
        else dirent_walk dirent tail (d + unat rec_len)
      } else Some (Inr d))"
  by pat_completeness auto
termination
  by (relation "measure (\<lambda>(dirent, tail, d). tail - d)") auto

definition get_dirent_tail :: "filsys \<Rightarrow> u8 list \<Rightarrow> (errcode + nat) ub" where
  "get_dirent_tail fs dirent =
     (let bs = unat (fs_blocksize fs) in
      if bs < 1024 then Some (Inl EXT2_FILSYS_CORRUPTED)
      else do {
        r \<leftarrow> dirent_walk dirent (bs - 12) 0;
        case r of
          Inl e \<Rightarrow> Some (Inl e)
        | Inr d \<Rightarrow>
            if d > bs then Some (Inl EXT2_ET_DIR_CORRUPTED)
            else if d \<noteq> bs - 12 then Some (Inl EXT2_ET_DIR_NO_SPACE_FOR_CSUM)
            else do {
              z \<leftarrow> get32 dirent d;
              rec_len \<leftarrow> get16 dirent (d + 4);
              name_len \<leftarrow> get16 dirent (d + 6);
              Some (if z \<noteq> 0 \<or> rec_len \<noteq> 12 \<or> name_len \<noteq> 0xDE00 then Inl EXT2_ET_DIR_NO_SPACE_FOR_CSUM else Inr d)
            }
      })"

definition ext2fs_dirent_has_tail :: "filsys \<Rightarrow> u8 list \<Rightarrow> bool ub" where
  "ext2fs_dirent_has_tail fs dirent = map_option (\<lambda>r. r \<noteq> Inl EXT2_ET_DIR_NO_SPACE_FOR_CSUM) (get_dirent_tail fs dirent)"

text \<open>The start of three checksums: the inode number and the generation number.\<close>

definition inode_csum_seed :: "nat \<Rightarrow> filsys \<Rightarrow> u32 \<Rightarrow> u32 \<Rightarrow> u32 ub" where
  "inode_csum_seed adr fs inum gen = do {
     crc \<leftarrow> ext2fs_crc32c_le adr (fs_csum_seed fs) (le32 inum) 4;
     ext2fs_crc32c_le adr crc (le32 gen) 4
   }"

definition ext2fs_dirent_csum ::
    "nat \<Rightarrow> (u32 \<Rightarrow> errcode + u32) \<Rightarrow> filsys \<Rightarrow> u32 \<Rightarrow> u8 list \<Rightarrow> nat \<Rightarrow> (errcode + u32) ub" where
  "ext2fs_dirent_csum adr read_inode fs inum dirent sz =
     (case read_inode inum of
        Inl retval \<Rightarrow> Some (Inl retval)
      | Inr gen \<Rightarrow> do {
          crc \<leftarrow> inode_csum_seed adr fs inum gen;
          crc \<leftarrow> ext2fs_crc32c_le adr crc dirent sz;
          Some (Inr crc)
        })"

definition ext2fs_dirent_csum_verify ::
    "nat \<Rightarrow> (u32 \<Rightarrow> errcode + u32) \<Rightarrow> filsys \<Rightarrow> u32 \<Rightarrow> u8 list \<Rightarrow> bool ub" where
  "ext2fs_dirent_csum_verify adr read_inode fs inum dirent = do {
     t \<leftarrow> get_dirent_tail fs dirent;
     case t of
       Inl _ \<Rightarrow> Some True
     | Inr t \<Rightarrow> do {
         r \<leftarrow> ext2fs_dirent_csum adr read_inode fs inum dirent t;
         case r of
           Inl _ \<Rightarrow> Some False
         | Inr calculated \<Rightarrow> do {
             c \<leftarrow> get32 dirent (t + 8);
             Some (c = calculated)
           }
       }
   }"

definition ext2fs_dirent_csum_set ::
    "nat \<Rightarrow> (u32 \<Rightarrow> errcode + u32) \<Rightarrow> filsys \<Rightarrow> u32 \<Rightarrow> u8 list \<Rightarrow> (errcode \<times> u8 list) ub" where
  "ext2fs_dirent_csum_set adr read_inode fs inum dirent = do {
     t \<leftarrow> get_dirent_tail fs dirent;
     case t of
       Inl e \<Rightarrow> Some (e, dirent)
     | Inr t \<Rightarrow> do {
         r \<leftarrow> ext2fs_dirent_csum adr read_inode fs inum dirent t;
         case r of
           Inl e \<Rightarrow> Some (e, dirent)
         | Inr crc \<Rightarrow> do {
             dirent \<leftarrow> put32 dirent (t + 8) crc;
             Some (E_OK, dirent)
           }
       }
   }"

text \<open>The checksum of an index block, and the offset of its tail.\<close>

definition ext2fs_dx_csum ::
    "nat \<Rightarrow> (u32 \<Rightarrow> errcode + u32) \<Rightarrow> filsys \<Rightarrow> u32 \<Rightarrow> u8 list \<Rightarrow> (errcode + u32 \<times> nat) ub" where
  "ext2fs_dx_csum adr read_inode fs inum dirent = do {
     r \<leftarrow> get_dx_countlimit fs dirent;
     case r of
       Inl e \<Rightarrow> Some (Inl e)
     | Inr count_offset \<Rightarrow> do {
         limit \<leftarrow> get16 dirent count_offset;
         count \<leftarrow> get16 dirent (count_offset + 2);
         if count_offset + unat limit * 8 > unat (ucast (fs_blocksize fs) - 8 :: u64) then Some (Inl EXT2_ET_DIR_NO_SPACE_FOR_CSUM)
         else do {
           let t = count_offset + 8 * unat limit;
           let sz = count_offset + unat count * 8;
           case read_inode inum of
             Inl retval \<Rightarrow> Some (Inl retval)
           | Inr gen \<Rightarrow> do {
               crc \<leftarrow> inode_csum_seed adr fs inum gen;
               crc \<leftarrow> ext2fs_crc32c_le adr crc dirent sz;
               tail \<leftarrow> c_get dirent t 4;
               crc \<leftarrow> ext2fs_crc32c_le adr crc tail 4;
               crc \<leftarrow> ext2fs_crc32c_le adr crc (le32 0) 4;
               Some (Inr (crc, t))
             }
         }
       }
   }"

definition ext2fs_dx_csum_verify ::
    "nat \<Rightarrow> (u32 \<Rightarrow> errcode + u32) \<Rightarrow> filsys \<Rightarrow> u32 \<Rightarrow> u8 list \<Rightarrow> bool ub" where
  "ext2fs_dx_csum_verify adr read_inode fs inum dirent = do {
     r \<leftarrow> ext2fs_dx_csum adr read_inode fs inum dirent;
     case r of
       Inl _ \<Rightarrow> Some False
     | Inr (calculated, t) \<Rightarrow> do {
         c \<leftarrow> get32 dirent (t + 4);
         Some (c = calculated)
       }
   }"

definition ext2fs_dx_csum_set ::
    "nat \<Rightarrow> (u32 \<Rightarrow> errcode + u32) \<Rightarrow> filsys \<Rightarrow> u32 \<Rightarrow> u8 list \<Rightarrow> (errcode \<times> u8 list) ub" where
  "ext2fs_dx_csum_set adr read_inode fs inum dirent = do {
     r \<leftarrow> ext2fs_dx_csum adr read_inode fs inum dirent;
     case r of
       Inl e \<Rightarrow> Some (e, dirent)
     | Inr (crc, t) \<Rightarrow> do {
         dirent \<leftarrow> put32 dirent (t + 4) crc;
         Some (E_OK, dirent)
       }
   }"

definition ext2fs_dir_block_csum_verify ::
    "nat \<Rightarrow> (u32 \<Rightarrow> errcode + u32) \<Rightarrow> filsys \<Rightarrow> u32 \<Rightarrow> u8 list \<Rightarrow> bool ub" where
  "ext2fs_dir_block_csum_verify adr read_inode fs inum dirent =
     (if \<not> ext2fs_has_feature_metadata_csum (fs_super fs) then Some True
      else do {
        t \<leftarrow> get_dirent_tail fs dirent;
        case t of
          Inr _ \<Rightarrow> ext2fs_dirent_csum_verify adr read_inode fs inum dirent
        | Inl _ \<Rightarrow> do {
            r \<leftarrow> get_dx_countlimit fs dirent;
            case r of
              Inr _ \<Rightarrow> ext2fs_dx_csum_verify adr read_inode fs inum dirent
            | Inl _ \<Rightarrow> Some False
          }
      })"

definition ext2fs_dir_block_csum_set ::
    "nat \<Rightarrow> (u32 \<Rightarrow> errcode + u32) \<Rightarrow> filsys \<Rightarrow> u32 \<Rightarrow> u8 list \<Rightarrow> (errcode \<times> u8 list) ub" where
  "ext2fs_dir_block_csum_set adr read_inode fs inum dirent =
     (if \<not> ext2fs_has_feature_metadata_csum (fs_super fs) then Some (E_OK, dirent)
      else do {
        t \<leftarrow> get_dirent_tail fs dirent;
        case t of
          Inr _ \<Rightarrow> ext2fs_dirent_csum_set adr read_inode fs inum dirent
        | Inl _ \<Rightarrow> do {
            r \<leftarrow> get_dx_countlimit fs dirent;
            case r of
              Inr _ \<Rightarrow> ext2fs_dx_csum_set adr read_inode fs inum dirent
            | Inl _ \<Rightarrow> Some (if fs_flags fs AND 0x200000 \<noteq> 0 then E_OK else EXT2_ET_DIR_NO_SPACE_FOR_CSUM, dirent)
          }
      })"

subsection \<open>Extent blocks\<close>

definition EXT3_EXTENT_TAIL_OFFSET :: "u8 list \<Rightarrow> nat ub" where
  "EXT3_EXTENT_TAIL_OFFSET hdr = map_option (\<lambda>eh_max. 12 + 12 * unat eh_max) (get16 hdr 4)"

definition ext2fs_extent_block_csum ::
    "nat \<Rightarrow> (u32 \<Rightarrow> errcode + u32) \<Rightarrow> filsys \<Rightarrow> u32 \<Rightarrow> u8 list \<Rightarrow> (errcode + u32) ub" where
  "ext2fs_extent_block_csum adr read_inode fs inum eh = do {
     sz \<leftarrow> EXT3_EXTENT_TAIL_OFFSET eh;
     case read_inode inum of
       Inl retval \<Rightarrow> Some (Inl retval)
     | Inr gen \<Rightarrow> do {
         crc \<leftarrow> inode_csum_seed adr fs inum gen;
         crc \<leftarrow> ext2fs_crc32c_le adr crc eh sz;
         Some (Inr crc)
       }
   }"

definition ext2fs_extent_block_csum_verify ::
    "nat \<Rightarrow> (u32 \<Rightarrow> errcode + u32) \<Rightarrow> filsys \<Rightarrow> u32 \<Rightarrow> u8 list \<Rightarrow> bool ub" where
  "ext2fs_extent_block_csum_verify adr read_inode fs inum eh = do {
     t \<leftarrow> EXT3_EXTENT_TAIL_OFFSET eh;
     if \<not> ext2fs_has_feature_metadata_csum (fs_super fs) then Some True
     else do {
       provided \<leftarrow> get32 eh t;
       r \<leftarrow> ext2fs_extent_block_csum adr read_inode fs inum eh;
       Some (case r of Inl _ \<Rightarrow> False | Inr calculated \<Rightarrow> provided = calculated)
     }
   }"

definition ext2fs_extent_block_csum_set ::
    "nat \<Rightarrow> (u32 \<Rightarrow> errcode + u32) \<Rightarrow> filsys \<Rightarrow> u32 \<Rightarrow> u8 list \<Rightarrow> (errcode \<times> u8 list) ub" where
  "ext2fs_extent_block_csum_set adr read_inode fs inum eh = do {
     t \<leftarrow> EXT3_EXTENT_TAIL_OFFSET eh;
     if \<not> ext2fs_has_feature_metadata_csum (fs_super fs) then Some (E_OK, eh)
     else do {
       r \<leftarrow> ext2fs_extent_block_csum adr read_inode fs inum eh;
       case r of
         Inl retval \<Rightarrow> Some (retval, eh)
       | Inr crc \<Rightarrow> do {
           eh \<leftarrow> put32 eh t crc;
           Some (E_OK, eh)
         }
     }
   }"

subsection \<open>Bitmaps\<close>

text \<open>The two halves of the checksum of a bitmap are in the descriptor of its group.\<close>

definition ext2fs_inode_bitmap_csum_verify :: "nat \<Rightarrow> filsys \<Rightarrow> u32 \<Rightarrow> u8 list \<Rightarrow> nat \<Rightarrow> bool ub" where
  "ext2fs_inode_bitmap_csum_verify adr fs grp bitmap sz =
     (if \<not> ext2fs_has_feature_metadata_csum (fs_super fs) then Some True
      else do {
        lo \<leftarrow> bg_read fs grp bg_inode_bitmap_csum_lo;
        calculated \<leftarrow> ext2fs_crc32c_le adr (fs_csum_seed fs) bitmap sz;
        if EXT2_DESC_SIZE (fs_super fs) \<ge> 60 then do {
          hi \<leftarrow> bg_read fs grp bg_inode_bitmap_csum_hi;
          Some ((ucast lo OR push_bit 16 (ucast hi)) = calculated)
        }
        else Some (ucast lo = calculated AND 0xFFFF)
      })"

definition ext2fs_inode_bitmap_csum_set :: "nat \<Rightarrow> filsys \<Rightarrow> u32 \<Rightarrow> u8 list \<Rightarrow> nat \<Rightarrow> (errcode \<times> filsys) ub" where
  "ext2fs_inode_bitmap_csum_set adr fs grp bitmap sz =
     (if \<not> ext2fs_has_feature_metadata_csum (fs_super fs) then Some (E_OK, fs)
      else do {
        crc \<leftarrow> ext2fs_crc32c_le adr (fs_csum_seed fs) bitmap sz;
        fs \<leftarrow> bg_write fs grp (\<lambda>gdp. gdp\<lparr>bg_inode_bitmap_csum_lo := ucast (crc AND 0xFFFF)\<rparr>);
        if EXT2_DESC_SIZE (fs_super fs) \<ge> 60 then do {
          fs \<leftarrow> bg_write fs grp (\<lambda>gdp. gdp\<lparr>bg_inode_bitmap_csum_hi := ucast (drop_bit 16 crc)\<rparr>);
          Some (E_OK, fs)
        }
        else Some (E_OK, fs)
      })"

definition ext2fs_block_bitmap_csum_verify :: "nat \<Rightarrow> filsys \<Rightarrow> u32 \<Rightarrow> u8 list \<Rightarrow> nat \<Rightarrow> bool ub" where
  "ext2fs_block_bitmap_csum_verify adr fs grp bitmap sz =
     (if \<not> ext2fs_has_feature_metadata_csum (fs_super fs) then Some True
      else do {
        lo \<leftarrow> bg_read fs grp bg_block_bitmap_csum_lo;
        calculated \<leftarrow> ext2fs_crc32c_le adr (fs_csum_seed fs) bitmap sz;
        if EXT2_DESC_SIZE (fs_super fs) \<ge> 58 then do {
          hi \<leftarrow> bg_read fs grp bg_block_bitmap_csum_hi;
          Some ((ucast lo OR push_bit 16 (ucast hi)) = calculated)
        }
        else Some (ucast lo = calculated AND 0xFFFF)
      })"

definition ext2fs_block_bitmap_csum_set :: "nat \<Rightarrow> filsys \<Rightarrow> u32 \<Rightarrow> u8 list \<Rightarrow> nat \<Rightarrow> (errcode \<times> filsys) ub" where
  "ext2fs_block_bitmap_csum_set adr fs grp bitmap sz =
     (if \<not> ext2fs_has_feature_metadata_csum (fs_super fs) then Some (E_OK, fs)
      else do {
        crc \<leftarrow> ext2fs_crc32c_le adr (fs_csum_seed fs) bitmap sz;
        fs \<leftarrow> bg_write fs grp (\<lambda>gdp. gdp\<lparr>bg_block_bitmap_csum_lo := ucast (crc AND 0xFFFF)\<rparr>);
        if EXT2_DESC_SIZE (fs_super fs) \<ge> 58 then do {
          fs \<leftarrow> bg_write fs grp (\<lambda>gdp. gdp\<lparr>bg_block_bitmap_csum_hi := ucast (drop_bit 16 crc)\<rparr>);
          Some (E_OK, fs)
        }
        else Some (E_OK, fs)
      })"

subsection \<open>Inodes\<close>

text \<open>
  The inode in its on-disk form: the generation number is at offset 100, the low half of the checksum at
  124, the size of the extra fields at 128 and the high half of the checksum at 130.
\<close>

definition inode_has_hi :: "filsys \<Rightarrow> u8 list \<Rightarrow> bool ub" where
  "inode_has_hi fs inode =
     (if EXT2_INODE_SIZE (fs_super fs) > 128 then map_option (\<lambda>extra. unat extra \<ge> 4) (get16 inode 128) else Some False)"

definition ext2fs_inode_csum :: "nat \<Rightarrow> filsys \<Rightarrow> u32 \<Rightarrow> u8 list \<Rightarrow> bool \<Rightarrow> (u32 \<times> u8 list) ub" where
  "ext2fs_inode_csum adr fs inum inode has_hi = do {
     old_lo \<leftarrow> get16 inode 124;
     inode \<leftarrow> put16 inode 124 0;
     (old_hi, inode) \<leftarrow> (if has_hi then do {
         old_hi \<leftarrow> get16 inode 130;
         inode \<leftarrow> put16 inode 130 0;
         Some (old_hi, inode)
       } else Some (0, inode));
     gen \<leftarrow> get32 inode 100;
     crc \<leftarrow> inode_csum_seed adr fs inum gen;
     crc \<leftarrow> ext2fs_crc32c_le adr crc inode (EXT2_INODE_SIZE (fs_super fs));
     inode \<leftarrow> put16 inode 124 old_lo;
     inode \<leftarrow> (if has_hi then put16 inode 130 old_hi else Some inode);
     Some (crc, inode)
   }"

text \<open>The loop over the bytes of the base inode.\<close>

definition inode_all_zero :: "u8 list \<Rightarrow> bool ub" where
  "inode_all_zero inode = map_option (\<lambda>bs. \<forall>b \<in> set bs. b = 0) (c_get inode 0 128)"

definition ext2fs_inode_csum_verify :: "nat \<Rightarrow> filsys \<Rightarrow> u32 \<Rightarrow> u8 list \<Rightarrow> (bool \<times> u8 list) ub" where
  "ext2fs_inode_csum_verify adr fs inum inode =
     (if \<not> ext2fs_has_feature_metadata_csum (fs_super fs) then Some (True, inode)
      else do {
        has_hi \<leftarrow> inode_has_hi fs inode;
        lo \<leftarrow> get16 inode 124;
        (calculated, inode) \<leftarrow> ext2fs_inode_csum adr fs inum inode has_hi;
        ok \<leftarrow> (if has_hi then do {
            hi \<leftarrow> get16 inode 130;
            Some ((ucast lo OR push_bit 16 (ucast hi)) = calculated)
          } else Some (ucast lo = calculated AND 0xFFFF));
        if ok then Some (True, inode)
        else do {
          z \<leftarrow> inode_all_zero inode;
          Some (z, inode)
        }
      })"

definition ext2fs_inode_csum_set :: "nat \<Rightarrow> filsys \<Rightarrow> u32 \<Rightarrow> u8 list \<Rightarrow> (errcode \<times> u8 list) ub" where
  "ext2fs_inode_csum_set adr fs inum inode =
     (if \<not> ext2fs_has_feature_metadata_csum (fs_super fs) then Some (E_OK, inode)
      else do {
        has_hi \<leftarrow> inode_has_hi fs inode;
        (crc, inode) \<leftarrow> ext2fs_inode_csum adr fs inum inode has_hi;
        inode \<leftarrow> put16 inode 124 (ucast (crc AND 0xFFFF));
        inode \<leftarrow> (if has_hi then put16 inode 130 (ucast (drop_bit 16 crc)) else Some inode);
        Some (E_OK, inode)
      })"

subsection \<open>Group descriptors\<close>

text \<open>The 64 bytes of the structure and the bytes behind it; the checksum is at offset 30.\<close>

definition desc_bytes :: "ext4_group_desc \<Rightarrow> u8 list" where
  "desc_bytes d = le32 (bg_block_bitmap d) @ le32 (bg_inode_bitmap d) @ le32 (bg_inode_table d)
     @ le16 (bg_free_blocks_count d) @ le16 (bg_free_inodes_count d) @ le16 (bg_used_dirs_count d) @ le16 (bg_flags d)
     @ le32 (bg_exclude_bitmap_lo d) @ le16 (bg_block_bitmap_csum_lo d) @ le16 (bg_inode_bitmap_csum_lo d)
     @ le16 (bg_itable_unused d) @ le16 (bg_checksum d)
     @ le32 (bg_block_bitmap_hi d) @ le32 (bg_inode_bitmap_hi d) @ le32 (bg_inode_table_hi d)
     @ le16 (bg_free_blocks_count_hi d) @ le16 (bg_free_inodes_count_hi d) @ le16 (bg_used_dirs_count_hi d)
     @ le16 (bg_itable_unused_hi d) @ le32 (bg_exclude_bitmap_hi d) @ le16 (bg_block_bitmap_csum_hi d)
     @ le16 (bg_inode_bitmap_csum_hi d) @ le32 (bg_reserved d) @ bg_tail d"

text \<open>The checksum is computed on a descriptor whose checksum field is 0 for a moment, or without that field.\<close>

definition ext2fs_group_desc_csum :: "nat \<Rightarrow> filsys \<Rightarrow> u32 \<Rightarrow> u16 ub" where
  "ext2fs_group_desc_csum adr fs grp = do {
     desc \<leftarrow> bg_read fs grp id;
     let sz = EXT2_DESC_SIZE (fs_super fs);
     if ext2fs_has_feature_metadata_csum (fs_super fs) then do {
       crc32 \<leftarrow> ext2fs_crc32c_le adr (fs_csum_seed fs) (le32 grp) 4;
       crc32 \<leftarrow> ext2fs_crc32c_le adr crc32 (desc_bytes (desc\<lparr>bg_checksum := 0\<rparr>)) sz;
       Some (ucast (crc32 AND 0xFFFF))
     }
     else do {
       crc \<leftarrow> ext2fs_crc16 0xffffffff (s_uuid (fs_super fs)) 0 16;
       crc \<leftarrow> ext2fs_crc16 (ucast (ucast crc :: u16)) (le32 grp) 0 4;
       crc \<leftarrow> ext2fs_crc16 (ucast (ucast crc :: u16)) (desc_bytes desc) 0 30;
       crc \<leftarrow> (if 32 < sz then ext2fs_crc16 (ucast (ucast crc :: u16)) (desc_bytes desc) 32 (sz - 32) else Some crc);
       Some (ucast crc)
     }
   }"

definition ext2fs_group_desc_csum_verify :: "nat \<Rightarrow> filsys \<Rightarrow> u32 \<Rightarrow> bool ub" where
  "ext2fs_group_desc_csum_verify adr fs grp =
     (if ext2fs_has_group_desc_csum fs then do {
        c \<leftarrow> ext2fs_bg_checksum fs grp;
        crc \<leftarrow> ext2fs_group_desc_csum adr fs grp;
        Some (c = crc)
      } else Some True)"

definition ext2fs_group_desc_csum_set :: "nat \<Rightarrow> filsys \<Rightarrow> u32 \<Rightarrow> filsys ub" where
  "ext2fs_group_desc_csum_set adr fs grp =
     (if \<not> ext2fs_has_group_desc_csum fs then Some fs
      else do {
        crc \<leftarrow> ext2fs_group_desc_csum adr fs grp;
        ext2fs_bg_checksum_set fs grp crc
      })"

text \<open>
  The search for the last inode in use runs downwards with 32-bit numbers; with a group that starts at the
  number 0 it would not end.
\<close>

partial_function (option) find_last_loop :: "'p bitmap_ops \<Rightarrow> 'p gbitmap \<Rightarrow> u32 \<Rightarrow> u32 \<Rightarrow> u32 \<Rightarrow> u32 ub" where
  [code]: "find_last_loop ops bitmap inodes_per_grp start_ino i =
     (if i \<ge> start_ino then do {
        t \<leftarrow> ext2fs_test_inode_bitmap2 ops bitmap i;
        if t \<noteq> 0 then Some (i - start_ino + 1) else find_last_loop ops bitmap inodes_per_grp start_ino (i - 1)
      } else Some inodes_per_grp)"

definition find_last_inode_ingrp :: "'p bitmap_ops \<Rightarrow> 'p gbitmap \<Rightarrow> u32 \<Rightarrow> u32 \<Rightarrow> u32 ub" where
  "find_last_inode_ingrp ops bitmap inodes_per_grp grp_no =
     (let start_ino = grp_no * inodes_per_grp + 1; end_ino = start_ino + inodes_per_grp - 1
      in find_last_loop ops bitmap inodes_per_grp start_ino end_ino)"

text \<open>The body of the loop over the groups: the new file system and whether the group has changed.\<close>

definition gdt_csum_group :: "nat \<Rightarrow> 'p bitmap_ops \<Rightarrow> 'p gbitmap \<Rightarrow> filsys \<Rightarrow> u32 \<Rightarrow> (filsys \<times> bool) ub" where
  "gdt_csum_group adr ops inode_map fs i = do {
     old_csum \<leftarrow> ext2fs_bg_checksum fs i;
     old_unused \<leftarrow> ext2fs_bg_itable_unused fs i;
     old_flags \<leftarrow> ext2fs_bg_flags fs i;
     old_free_inodes_count \<leftarrow> ext2fs_bg_free_inodes_count fs i;
     old_free_blocks_count \<leftarrow> ext2fs_bg_free_blocks_count fs i;
     let sb = fs_super fs;
     fs \<leftarrow> (if old_free_blocks_count = s_blocks_per_group sb \<and> i \<noteq> fs_group_desc_count fs - 1
            then ext2fs_bg_flags_set fs i 0x0002 else Some fs);
     fs \<leftarrow> (if old_free_inodes_count = s_inodes_per_group sb then do {
              fs \<leftarrow> ext2fs_bg_flags_set fs i 0x0001;
              ext2fs_bg_itable_unused_set fs i (s_inodes_per_group sb)
            }
            else do {
              n \<leftarrow> find_last_inode_ingrp ops inode_map (s_inodes_per_group sb) i;
              fs \<leftarrow> ext2fs_bg_flags_clear fs i 0x0001;
              ext2fs_bg_itable_unused_set fs i (s_inodes_per_group sb - n)
            });
     fs \<leftarrow> ext2fs_group_desc_csum_set adr fs i;
     flags \<leftarrow> ext2fs_bg_flags fs i;
     unused \<leftarrow> ext2fs_bg_itable_unused fs i;
     csum \<leftarrow> ext2fs_bg_checksum fs i;
     Some (fs, old_flags \<noteq> flags \<or> old_unused \<noteq> unused \<or> old_csum \<noteq> csum)
   }"

function gdt_csum_loop :: "nat \<Rightarrow> 'p bitmap_ops \<Rightarrow> 'p gbitmap \<Rightarrow> u32 \<Rightarrow> filsys \<Rightarrow> u32 \<Rightarrow> bool \<Rightarrow> (filsys \<times> bool) ub" where
  "gdt_csum_loop adr ops inode_map n fs i dirty =
     (if i < n then do {
        (fs, d) \<leftarrow> gdt_csum_group adr ops inode_map fs i;
        gdt_csum_loop adr ops inode_map n fs (i + 1) (dirty \<or> d)
      } else Some (fs, dirty))"
  by pat_completeness auto
termination
proof (relation "measure (\<lambda>(adr, ops, inode_map, n, fs, i, dirty). unat n - unat i)")
  fix adr :: nat and ops :: "'p bitmap_ops" and inode_map :: "'p gbitmap" and n i :: u32 and fs fs' :: filsys and dirty d :: bool and x
  assume "i < n"
  then show "((adr, ops, inode_map, n, fs', i + 1, dirty \<or> d), adr, ops, inode_map, n, fs, i, dirty)
      \<in> measure (\<lambda>(adr, ops, inode_map, n, fs, i, dirty). unat n - unat i)"
    using unat_inc [of i n] by (simp add: word_less_nat_alt)
qed simp

definition ext2fs_set_gdt_csum :: "nat \<Rightarrow> 'p bitmap_ops \<Rightarrow> 'p gbitmap \<Rightarrow> filsys \<Rightarrow> (errcode \<times> filsys) ub" where
  "ext2fs_set_gdt_csum adr ops inode_map fs =
     (if inode_map = NullBitmap then Some (EXT2_ET_NO_INODE_BITMAP, fs)
      else if \<not> ext2fs_has_group_desc_csum fs then Some (E_OK, fs)
      else do {
        (fs, dirty) \<leftarrow> gdt_csum_loop adr ops inode_map (fs_group_desc_count fs) fs 0 False;
        Some (E_OK, if dirty then ext2fs_mark_super_dirty fs else fs)
      })"

subsection \<open>What is set verifies\<close>

declare dirent_walk.simps [simp del] gdt_csum_loop.simps [simp del] ext2fs_crc16.simps [simp del]

lemma crc32c_total: "len \<le> length p \<Longrightarrow> \<exists>c. ext2fs_crc32c_le adr crc p len = Some c"
  by (simp add: crc32c_le_run)

text \<open>The checksum depends on the bytes that it is computed over and on nothing else.\<close>

lemma crc32c_cong:
  "len \<le> length p \<Longrightarrow> len \<le> length q \<Longrightarrow> take len p = take len q \<Longrightarrow> ext2fs_crc32c_le adr crc p len = ext2fs_crc32c_le adr crc q len"
  by (simp add: crc32c_le_run)

lemma inode_csum_seed_total: "\<exists>c. inode_csum_seed adr fs inum gen = Some c"
  by (simp add: inode_csum_seed_def crc32c_le_run)

lemma put32_facts:
  assumes "i + 4 \<le> length buf"
  shows "\<exists>buf'. put32 buf i w = Some buf' \<and> length buf' = length buf \<and> get32 buf' i = Some w \<and> (\<forall>n \<le> i. take n buf' = take n buf)
    \<and> (\<forall>j. j + 2 \<le> i \<longrightarrow> get16 buf' j = get16 buf j) \<and> (\<forall>j. j + 4 \<le> i \<longrightarrow> get32 buf' j = get32 buf j)"
proof -
  from put_inside(2) [OF assms, of w] obtain buf' where b: "put32 buf i w = Some buf'" "length buf' = length buf" by blast
  then have p: "c_put buf i (le32 w) = Some buf'" by (simp add: put32_def)
  from b get32_put32 [OF b(1)] take_c_put [OF p] c_get_put_other [OF p] show ?thesis
    by (intro exI [of _ buf']) (simp add: get16_def get32_def)
qed

lemma mmp_csum_roundtrip:
  assumes "length mmp = 1024"
  shows "\<exists>mmp'. ext2fs_mmp_csum_set adr fs mmp = Some (E_OK, mmp') \<and> ext2fs_mmp_csum_verify adr fs mmp' = Some True"
proof (cases "ext2fs_has_feature_metadata_csum (fs_super fs)")
  case True
  obtain c where c: "ext2fs_mmp_csum adr fs mmp = Some c"
    using crc32c_total [of 1020 mmp] assms by (auto simp: ext2fs_mmp_csum_def)
  obtain mmp' where m: "put32 mmp 1020 c = Some mmp'" "length mmp' = length mmp" "get32 mmp' 1020 = Some c" "take 1020 mmp' = take 1020 mmp"
    using put32_facts [of 1020 mmp c] assms by auto
  have "ext2fs_mmp_csum adr fs mmp' = Some c"
    using c crc32c_cong [of 1020 mmp' mmp] assms m by (simp add: ext2fs_mmp_csum_def)
  with True c m show ?thesis by (simp add: ext2fs_mmp_csum_set_def ext2fs_mmp_csum_verify_def)
qed (simp add: ext2fs_mmp_csum_set_def ext2fs_mmp_csum_verify_def)

lemma superblock_csum_roundtrip:
  assumes "length sb = 1024"
  shows "\<exists>sb'. ext2fs_superblock_csum_set adr fs sb = Some (E_OK, sb') \<and> ext2fs_superblock_csum_verify adr fs sb' = Some True"
proof (cases "s_feature_ro_compat (fs_super fs) AND 0x0400 = 0")
  case False
  obtain c where c: "ext2fs_superblock_csum adr sb = Some c"
    using crc32c_total [of 1020 sb] assms by (auto simp: ext2fs_superblock_csum_def)
  obtain sb' where m: "put32 sb 1020 c = Some sb'" "length sb' = length sb" "get32 sb' 1020 = Some c" "take 1020 sb' = take 1020 sb"
    using put32_facts [of 1020 sb c] assms by auto
  have "ext2fs_superblock_csum adr sb' = Some c"
    using c crc32c_cong [of 1020 sb' sb] assms m by (simp add: ext2fs_superblock_csum_def)
  with False c m show ?thesis by (simp add: ext2fs_superblock_csum_set_def ext2fs_superblock_csum_verify_def)
qed (simp add: ext2fs_superblock_csum_set_def ext2fs_superblock_csum_verify_def)

text \<open>The field is restored, and the checksum does not depend on it.\<close>

lemma ext_attr_block_csum_run:
  assumes "20 \<le> length hdr" "unat (fs_blocksize fs) \<le> length hdr"
  shows "\<exists>c. ext2fs_ext_attr_block_csum adr fs block hdr = Some (c, hdr)
    \<and> (\<forall>w hdr'. put32 hdr 16 w = Some hdr' \<longrightarrow> ext2fs_ext_attr_block_csum adr fs block hdr' = Some (c, hdr'))"
proof -
  obtain h0 where h0: "put32 hdr 16 0 = Some h0" "length h0 = length hdr" using put_inside(2) [of 16 hdr 0] assms(1) by auto
  obtain c0 where c0: "ext2fs_crc32c_le adr (fs_csum_seed fs) (le64 block) 8 = Some c0" using crc32c_total [of 8 "le64 block"] by auto
  obtain c where c: "ext2fs_crc32c_le adr c0 h0 (unat (fs_blocksize fs)) = Some c"
    using crc32c_total [of "unat (fs_blocksize fs)" h0] assms(2) h0(2) by auto
  have run: "ext2fs_ext_attr_block_csum adr fs block h = Some (c, h)" if h: "put32 h 16 0 = Some h0" "20 \<le> length h" for h
  proof -
    obtain old where old: "get32 h 16 = Some old" using get_inside(2) [of 16 h] h(2) by auto
    show ?thesis using h(1) old put32_back [OF h(1) old] c0 c by (simp add: ext2fs_ext_attr_block_csum_def)
  qed
  show ?thesis
  proof (intro exI [of _ c] conjI allI impI)
    show "ext2fs_ext_attr_block_csum adr fs block hdr = Some (c, hdr)" by (rule run [OF h0(1) assms(1)])
    fix w hdr'
    assume p: "put32 hdr 16 w = Some hdr'"
    then have "c_put hdr 16 (le32 w) = Some hdr'" by (simp add: put32_def)
    from c_put_put [OF this, of "le32 0"] c_put_SomeD(3) [OF this] h0(1) assms(1)
    have "put32 hdr' 16 0 = Some h0" "20 \<le> length hdr'" by (simp_all add: put32_def)
    then show "ext2fs_ext_attr_block_csum adr fs block hdr' = Some (c, hdr')" by (rule run)
  qed
qed

lemma ext_attr_block_csum_roundtrip:
  assumes "20 \<le> length hdr" "unat (fs_blocksize fs) \<le> length hdr"
  shows "\<exists>hdr'. ext2fs_ext_attr_block_csum_set adr fs block hdr = Some (E_OK, hdr')
    \<and> ext2fs_ext_attr_block_csum_verify adr fs block hdr' = Some (True, hdr')"
proof (cases "ext2fs_has_feature_metadata_csum (fs_super fs)")
  case True
  from ext_attr_block_csum_run [OF assms, of adr block] obtain c where c: "ext2fs_ext_attr_block_csum adr fs block hdr = Some (c, hdr)"
    "\<And>w hdr'. put32 hdr 16 w = Some hdr' \<Longrightarrow> ext2fs_ext_attr_block_csum adr fs block hdr' = Some (c, hdr')" by auto
  obtain hdr' where h: "put32 hdr 16 c = Some hdr'" using put_inside(2) [of 16 hdr c] assms(1) by auto
  from True c h c(2) [OF h] get32_put32 [OF h] show ?thesis
    by (simp add: ext2fs_ext_attr_block_csum_set_def ext2fs_ext_attr_block_csum_verify_def)
qed (simp add: ext2fs_ext_attr_block_csum_set_def ext2fs_ext_attr_block_csum_verify_def)

lemma extent_block_csum_roundtrip:
  assumes "get16 eh 4 = Some eh_max" "16 + 12 * unat eh_max \<le> length eh" "read_inode inum = Inr gen"
  shows "\<exists>eh'. ext2fs_extent_block_csum_set adr read_inode fs inum eh = Some (E_OK, eh')
    \<and> ext2fs_extent_block_csum_verify adr read_inode fs inum eh' = Some True"
proof -
  let ?t = "12 + 12 * unat eh_max"
  have t: "EXT3_EXTENT_TAIL_OFFSET eh = Some ?t" using assms(1) by (simp add: EXT3_EXTENT_TAIL_OFFSET_def)
  show ?thesis
  proof (cases "ext2fs_has_feature_metadata_csum (fs_super fs)")
    case True
    obtain s where s: "inode_csum_seed adr fs inum gen = Some s" using inode_csum_seed_total by blast
    obtain c where c: "ext2fs_crc32c_le adr s eh ?t = Some c" using crc32c_total [of ?t eh] assms(2) by auto
    have "?t + 4 \<le> length eh" using assms(2) by simp
    from put32_facts [OF this, of c] obtain eh' where
      p: "put32 eh ?t c = Some eh'" "length eh' = length eh" "get32 eh' ?t = Some c" "take ?t eh' = take ?t eh" "get16 eh' 4 = get16 eh 4"
      by auto
    have t': "EXT3_EXTENT_TAIL_OFFSET eh' = Some ?t" using assms(1) p(5) by (simp add: EXT3_EXTENT_TAIL_OFFSET_def)
    have "ext2fs_crc32c_le adr s eh' ?t = Some c" using c crc32c_cong [of ?t eh' eh] p(2,4) assms(2) by simp
    with True t t' s c p(1,3) assms(3) show ?thesis
      by (simp add: ext2fs_extent_block_csum_set_def ext2fs_extent_block_csum_verify_def ext2fs_extent_block_csum_def)
  qed (simp add: ext2fs_extent_block_csum_set_def ext2fs_extent_block_csum_verify_def t)
qed

text \<open>
  A checksum that the library stores in a multi-mount protection block, a superblock, an extended
  attribute block or an extent block verifies afterwards, and nothing outside the buffer is touched;
  without the feature the functions do nothing and succeed.
\<close>

theorem metadata_csum_roundtrip:
  assumes "length mmp = 1024" "length sb = 1024" "20 \<le> length hdr" "unat (fs_blocksize fs) \<le> length hdr"
    and "get16 eh 4 = Some eh_max" "16 + 12 * unat eh_max \<le> length eh" "read_inode inum = Inr gen"
  shows "(\<exists>mmp'. ext2fs_mmp_csum_set adr fs mmp = Some (E_OK, mmp') \<and> ext2fs_mmp_csum_verify adr fs mmp' = Some True)
    \<and> (\<exists>sb'. ext2fs_superblock_csum_set adr fs sb = Some (E_OK, sb') \<and> ext2fs_superblock_csum_verify adr fs sb' = Some True)
    \<and> (\<exists>hdr'. ext2fs_ext_attr_block_csum_set adr fs block hdr = Some (E_OK, hdr')
        \<and> ext2fs_ext_attr_block_csum_verify adr fs block hdr' = Some (True, hdr'))
    \<and> (\<exists>eh'. ext2fs_extent_block_csum_set adr read_inode fs inum eh = Some (E_OK, eh')
        \<and> ext2fs_extent_block_csum_verify adr read_inode fs inum eh' = Some True)"
  using mmp_csum_roundtrip [OF assms(1)] superblock_csum_roundtrip [OF assms(2)] ext_attr_block_csum_roundtrip [OF assms(3,4)]
    extent_block_csum_roundtrip [where read_inode = read_inode, OF assms(5-7)] by simp

text \<open>The example file system with checksums.\<close>

definition fs_csum_example :: filsys where
  "fs_csum_example = fs_example\<lparr>fs_super := (fs_super fs_example)\<lparr>s_feature_ro_compat := 0x0401\<rparr>\<rparr>"

theorem metadata_csum_roundtrip_witness:
  "(\<exists>mmp'. ext2fs_mmp_csum_set 1 fs_csum_example (replicate 1024 5) = Some (E_OK, mmp') \<and> ext2fs_mmp_csum_verify 1 fs_csum_example mmp' = Some True)
    \<and> (\<exists>sb'. ext2fs_superblock_csum_set 1 fs_csum_example (replicate 1024 6) = Some (E_OK, sb') \<and> ext2fs_superblock_csum_verify 1 fs_csum_example sb' = Some True)
    \<and> (\<exists>hdr'. ext2fs_ext_attr_block_csum_set 1 fs_csum_example 9 (replicate 1024 7) = Some (E_OK, hdr')
        \<and> ext2fs_ext_attr_block_csum_verify 1 fs_csum_example 9 hdr' = Some (True, hdr'))
    \<and> (\<exists>eh'. ext2fs_extent_block_csum_set 1 (\<lambda>_. Inr 3) fs_csum_example 12 (replicate 16 0) = Some (E_OK, eh')
        \<and> ext2fs_extent_block_csum_verify 1 (\<lambda>_. Inr 3) fs_csum_example 12 eh' = Some True)"
proof (rule metadata_csum_roundtrip)
  show "get16 (replicate 16 0) 4 = Some 0" by code_simp
qed (simp_all add: fs_csum_example_def fs_example_def)

text \<open>A write of two bytes changes two cells.\<close>

lemma put16_upd:
  assumes "i + 2 \<le> length buf"
  shows "put16 buf i w = Some (buf[i := ucast w, Suc i := ucast (drop_bit 8 w)])"
proof -
  have "take i buf @ le16 w @ drop (i + 2) buf = buf[i := ucast w, Suc i := ucast (drop_bit 8 w)]"
    using assms by (intro nth_equalityI) (auto simp: le16_def nth_append nth_list_update nth_Cons split: nat.split intro!: arg_cong [where f = "(!) buf"])
  with assms show ?thesis by (simp add: put16_def c_put_def)
qed

lemma get16_nth: "i + 2 \<le> length buf \<Longrightarrow> get16 buf i = Some (of_le16 [buf ! i, buf ! Suc i])"
  by (simp add: get16_def c_get_def of_le16_def)

lemma get32_nth: "i + 4 \<le> length buf \<Longrightarrow> get32 buf i = Some (of_le32 [buf ! i, buf ! (i + 1), buf ! (i + 2), buf ! (i + 3)])"
  by (simp add: get32_def c_get_def of_le32_def)

lemma of_le16_halves [simp]: "ucast (of_le16 [a, b]) = a" "ucast (drop_bit 8 (of_le16 [a, b])) = b"
  using le16_of_le16 [of "[a, b]"] by (simp_all add: le16_def)

text \<open>Updates of the same cell: the last one counts.\<close>

lemma nth_upd: "j < length xs \<Longrightarrow> xs[i := x] ! j = (if i = j then x else xs ! j)"
  by simp

lemma upd2_again: "i \<noteq> j \<Longrightarrow> xs[i := a, j := b, i := a', j := b'] = xs[i := a', j := b']"
  by (intro nth_equalityI) (simp_all add: nth_upd)

lemma upd4_again:
  assumes "distinct [i, j, k, l]"
  shows "xs[i := a, j := b, k := c, l := d, i := a', j := b', k := c', l := d'] = xs[i := a', j := b', k := c', l := d']"
  using assms by (intro nth_equalityI) (simp_all add: nth_upd)

definition inode_blank :: "bool \<Rightarrow> u8 list \<Rightarrow> u8 list" where
  "inode_blank has_hi inode = (if has_hi then inode[124 := 0, 125 := 0, 130 := 0, 131 := 0] else inode[124 := 0, 125 := 0])"

lemma length_inode_blank: "length (inode_blank has_hi inode) = length inode"
  by (simp add: inode_blank_def)

lemma inode_csum_run:
  assumes len: "128 \<le> length inode" "has_hi \<Longrightarrow> 132 \<le> length inode" "EXT2_INODE_SIZE (fs_super fs) \<le> length inode"
    and gen: "get32 inode 100 = Some gen" and s: "inode_csum_seed adr fs inum gen = Some s"
    and c: "ext2fs_crc32c_le adr s (inode_blank has_hi inode) (EXT2_INODE_SIZE (fs_super fs)) = Some c"
  shows "ext2fs_inode_csum adr fs inum inode has_hi = Some (c, inode)"
proof -
  have g: "get32 (inode_blank has_hi inode) 100 = Some gen"
    using gen len(1) by (simp add: inode_blank_def get32_nth)
  show ?thesis
  proof (cases has_hi)
    case False
    have "inode[124 := 0, 125 := 0, 124 := inode ! 124, 125 := inode ! 125] = inode"
      by (simp add: upd2_again)
    with False len g s c show ?thesis
      by (simp add: ext2fs_inode_csum_def put16_upd get16_nth inode_blank_def)
  next
    case True
    have "inode[124 := 0, 125 := 0, 130 := 0, 131 := 0, 124 := inode ! 124, 125 := inode ! 125, 130 := inode ! 130, 131 := inode ! 131] = inode"
      by (simp add: upd4_again)
    with True len g s c show ?thesis
      by (simp add: ext2fs_inode_csum_def put16_upd get16_nth inode_blank_def)
  qed
qed

lemma inode_blank_blank: "inode_blank hi (inode[124 := a, 125 := b]) = inode_blank hi inode"
  "inode_blank True (inode[124 := a, 125 := b, 130 := c, 131 := d]) = inode_blank True inode"
  by (simp_all add: inode_blank_def upd2_again upd4_again)

lemma low_half: "ucast (ucast (crc AND 0xFFFF) :: u16) = crc AND (0xFFFF :: u32)"
proof -
  have m: "(0xFFFF :: u32) = mask 16" by (simp add: mask_eq_exp_minus_1)
  show ?thesis unfolding m by (rule bit_word_eqI) (auto simp: bit_and_iff bit_unsigned_iff bit_mask_iff)
qed

lemma both_halves: "crc AND 0xFFFF OR push_bit 16 (ucast (ucast (drop_bit 16 crc) :: u16)) = (crc :: u32)"
proof -
  have m: "(0xFFFF :: u32) = mask 16" by (simp add: mask_eq_exp_minus_1)
  show ?thesis unfolding m
    by (rule bit_word_eqI) (auto simp: bit_or_iff bit_push_bit_iff bit_drop_bit_eq bit_and_iff bit_unsigned_iff bit_mask_iff)
qed

text \<open>
  The checksum that is stored in an inode verifies, for inodes with and without the high half of the
  checksum, and storing it changes no byte of the inode outside the two fields.
\<close>

theorem inode_csum_roundtrip:
  assumes len: "length inode = EXT2_INODE_SIZE (fs_super fs)" "128 \<le> length inode" "length inode = 128 \<or> 132 \<le> length inode"
  shows "\<exists>inode'. ext2fs_inode_csum_set adr fs inum inode = Some (E_OK, inode')
    \<and> ext2fs_inode_csum_verify adr fs inum inode' = Some (True, inode')
    \<and> length inode' = length inode \<and> (\<forall>i. i \<notin> {124, 125, 130, 131} \<longrightarrow> inode' ! i = inode ! i)"
proof (cases "ext2fs_has_feature_metadata_csum (fs_super fs)")
  case True
  have "\<exists>hi. inode_has_hi fs inode = Some hi \<and> (hi \<longrightarrow> 132 \<le> length inode)"
    using len by (cases "length inode = 128") (auto simp: inode_has_hi_def get16_nth)
  then obtain hi where hi: "inode_has_hi fs inode = Some hi" "hi \<Longrightarrow> 132 \<le> length inode" by blast
  have g: "get32 inode 100 = Some (of_le32 [inode ! 100, inode ! 101, inode ! 102, inode ! 103])" using len by (simp add: get32_nth)
  obtain s where s: "inode_csum_seed adr fs inum (of_le32 [inode ! 100, inode ! 101, inode ! 102, inode ! 103]) = Some s"
    using inode_csum_seed_total by blast
  obtain c where c: "ext2fs_crc32c_le adr s (inode_blank hi inode) (EXT2_INODE_SIZE (fs_super fs)) = Some c"
    using crc32c_total [of "EXT2_INODE_SIZE (fs_super fs)" "inode_blank hi inode"] len by (auto simp: length_inode_blank)
  have run: "ext2fs_inode_csum adr fs inum inode hi = Some (c, inode)"
    by (rule inode_csum_run [OF len(2) hi(2) _ g s c]) (use len in simp_all)
  let ?lo = "ucast (c AND 0xFFFF) :: u16" and ?hi = "ucast (drop_bit 16 c) :: u16"
  define inode' where "inode' = (if hi then inode[124 := ucast ?lo, 125 := ucast (drop_bit 8 ?lo), 130 := ucast ?hi, 131 := ucast (drop_bit 8 ?hi)]
    else inode[124 := ucast ?lo, 125 := ucast (drop_bit 8 ?lo)])"
  have len': "length inode' = length inode" by (simp add: inode'_def)
  have set: "ext2fs_inode_csum_set adr fs inum inode = Some (E_OK, inode')"
    using True hi run len by (cases hi) (simp_all add: ext2fs_inode_csum_set_def put16_upd inode'_def)
  have hi': "inode_has_hi fs inode' = Some hi"
    using hi(1) len by (auto simp: inode_has_hi_def get16_nth inode'_def)
  have g': "get32 inode' 100 = Some (of_le32 [inode ! 100, inode ! 101, inode ! 102, inode ! 103])"
    using len by (simp add: get32_nth inode'_def)
  have "inode_blank hi inode' = inode_blank hi inode" by (cases hi) (simp_all add: inode'_def inode_blank_blank)
  with c have c': "ext2fs_crc32c_le adr s (inode_blank hi inode') (EXT2_INODE_SIZE (fs_super fs)) = Some c" by simp
  have run': "ext2fs_inode_csum adr fs inum inode' hi = Some (c, inode')"
    by (rule inode_csum_run [OF _ _ _ g' s c']) (use len len' hi(2) in simp_all)
  have lo': "get16 inode' 124 = Some ?lo"
    using len of_le16_le16 [of ?lo] by (simp add: get16_nth inode'_def le16_def)
  have hh: "hi \<Longrightarrow> get16 inode' 130 = Some ?hi"
    using hi(2) of_le16_le16 [of ?hi] by (simp add: get16_nth inode'_def le16_def)
  have "ext2fs_inode_csum_verify adr fs inum inode' = Some (True, inode')"
    using True hi' lo' run' hh by (cases hi) (simp_all add: ext2fs_inode_csum_verify_def low_half both_halves)
  moreover have "\<forall>i. i \<notin> {124, 125, 130, 131} \<longrightarrow> inode' ! i = inode ! i" by (simp add: inode'_def)
  ultimately show ?thesis using set len' by blast
qed (simp add: ext2fs_inode_csum_set_def ext2fs_inode_csum_verify_def)

theorem inode_csum_roundtrip_witness:
  "\<exists>inode'. ext2fs_inode_csum_set 0 fs_csum_example 12 (replicate 128 3) = Some (E_OK, inode')
    \<and> ext2fs_inode_csum_verify 0 fs_csum_example 12 inode' = Some (True, inode')
    \<and> length inode' = length (replicate 128 (3 :: u8)) \<and> (\<forall>i. i \<notin> {124, 125, 130, 131} \<longrightarrow> inode' ! i = replicate 128 3 ! i)"
  by (rule inode_csum_roundtrip) (simp_all add: fs_csum_example_def fs_example_def EXT2_INODE_SIZE_def)

subsection \<open>Checksums of group descriptors\<close>

lemma bg_read_eq: "desc_table_ok fs \<Longrightarrow> g < fs_group_desc_count fs \<Longrightarrow> bg_read fs g f = Some (f (fs_group_desc fs ! unat g))"
  using desc_table_index [of fs g] by (simp add: bg_read_def)

lemma bg_write_eq: "desc_table_ok fs \<Longrightarrow> g < fs_group_desc_count fs \<Longrightarrow>
    bg_write fs g f = Some (fs\<lparr>fs_group_desc := (fs_group_desc fs)[unat g := f (fs_group_desc fs ! unat g)]\<rparr>)"
  using desc_table_index [of fs g] by (simp add: bg_write_def)

lemma desc_table_upd [simp]: "desc_table_ok (fs\<lparr>fs_group_desc := (fs_group_desc fs)[i := d]\<rparr>) = desc_table_ok fs"
  by (simp add: desc_table_ok_def)

lemma length_desc_bytes [simp]: "length (desc_bytes d) = 64 + length (bg_tail d)"
  by (simp add: desc_bytes_def)

lemma desc_bytes_checksum:
  "take 30 (desc_bytes (d\<lparr>bg_checksum := x\<rparr>)) = take 30 (desc_bytes d)"
  "drop 32 (desc_bytes (d\<lparr>bg_checksum := x\<rparr>)) = drop 32 (desc_bytes d)"
  by (simp_all add: desc_bytes_def)

lemma crc16_cong:
  assumes "cp + len \<le> length p" "cp + len \<le> length q" "take len (drop cp p) = take len (drop cp q)"
  shows "ext2fs_crc16 crc p cp len = ext2fs_crc16 crc q cp len"
  using assms
proof (induction len arbitrary: crc cp)
  case (Suc len)
  have "drop cp p = p ! cp # drop (Suc cp) p" "drop cp q = q ! cp # drop (Suc cp) q"
    using Suc.prems by (simp_all add: Cons_nth_drop_Suc)
  with Suc.prems(3) have "p ! cp = q ! cp" "take len (drop (Suc cp) p) = take len (drop (Suc cp) q)" by simp_all
  with Suc.prems Suc.IH [of "Suc cp"] show ?case by (simp add: ext2fs_crc16.simps)
qed (simp add: ext2fs_crc16.simps)

text \<open>
  The checksum of a descriptor can be computed if the table holds the whole descriptor; it depends on the
  descriptor, but not on its checksum field.
\<close>

definition desc_whole :: "filsys \<Rightarrow> u32 \<Rightarrow> bool" where
  "desc_whole fs g \<longleftrightarrow> EXT2_DESC_SIZE (fs_super fs) \<le> 64 + length (bg_tail (fs_group_desc fs ! unat g))"

lemma group_desc_csum_run:
  assumes ok: "desc_table_ok fs" "g < fs_group_desc_count fs" "length (s_uuid (fs_super fs)) = 16" "desc_whole fs g"
  shows "\<exists>c. ext2fs_group_desc_csum adr fs g = Some c"
proof -
  let ?d = "fs_group_desc fs ! unat g"
  have tot: "\<exists>r. ext2fs_crc16 crc buf cp len = Some r" if "cp + len \<le> length buf" for crc buf cp len
    using crc16_run [OF that] by blast
  show ?thesis
  proof (cases "ext2fs_has_feature_metadata_csum (fs_super fs)")
    case True
    with ok show ?thesis by (simp add: ext2fs_group_desc_csum_def bg_read_eq Let_def crc32c_le_run desc_whole_def)
  next
    case False
    obtain c1 where c1: "ext2fs_crc16 0xffffffff (s_uuid (fs_super fs)) 0 16 = Some c1" using tot [of 0 16] ok(3) by fastforce
    obtain c2 where c2: "ext2fs_crc16 (ucast (ucast c1 :: u16)) (le32 g) 0 4 = Some c2" using tot [of 0 4] by fastforce
    obtain c3 where c3: "ext2fs_crc16 (ucast (ucast c2 :: u16)) (desc_bytes ?d) 0 30 = Some c3" using tot [of 0 30] by fastforce
    obtain c4 where c4: "(if 32 < EXT2_DESC_SIZE (fs_super fs)
        then ext2fs_crc16 (ucast (ucast c3 :: u16)) (desc_bytes ?d) 32 (EXT2_DESC_SIZE (fs_super fs) - 32) else Some c3) = Some c4"
      using tot [of 32 "EXT2_DESC_SIZE (fs_super fs) - 32"] ok(4) by (fastforce simp: desc_whole_def)
    from False ok c1 c2 c3 c4 show ?thesis by (simp add: ext2fs_group_desc_csum_def bg_read_eq Let_def)
  qed
qed

text \<open>The parts of the file system that the checksums of the descriptors depend on.\<close>

definition csum_same :: "filsys \<Rightarrow> filsys \<Rightarrow> bool" where
  "csum_same fs fs' \<longleftrightarrow> s_uuid (fs_super fs') = s_uuid (fs_super fs) \<and> EXT2_DESC_SIZE (fs_super fs') = EXT2_DESC_SIZE (fs_super fs)
     \<and> ext2fs_has_feature_metadata_csum (fs_super fs') = ext2fs_has_feature_metadata_csum (fs_super fs)
     \<and> ext2fs_has_feature_gdt_csum (fs_super fs') = ext2fs_has_feature_gdt_csum (fs_super fs)"

lemma csum_same_super: "fs_super fs' = fs_super fs \<Longrightarrow> csum_same fs fs'"
  by (simp add: csum_same_def)

lemma group_desc_csum_cong:
  assumes ok: "desc_table_ok fs" "desc_table_ok fs'" "g < fs_group_desc_count fs" "desc_whole fs g"
    and same: "csum_same fs fs'" "fs_csum_seed fs' = fs_csum_seed fs" "fs_group_desc_count fs' = fs_group_desc_count fs"
      "fs_group_desc fs' ! unat g = (fs_group_desc fs ! unat g)\<lparr>bg_checksum := x\<rparr>"
  shows "ext2fs_group_desc_csum adr fs' g = ext2fs_group_desc_csum adr fs g"
proof -
  let ?d = "fs_group_desc fs ! unat g" and ?sz = "EXT2_DESC_SIZE (fs_super fs)"
  have a: "ext2fs_crc16 c (desc_bytes (?d\<lparr>bg_checksum := x\<rparr>)) 0 30 = ext2fs_crc16 c (desc_bytes ?d) 0 30" for c
    by (rule crc16_cong) (simp_all add: desc_bytes_checksum)
  have b: "ext2fs_crc16 c (desc_bytes (?d\<lparr>bg_checksum := x\<rparr>)) 32 (?sz - 32) = ext2fs_crc16 c (desc_bytes ?d) 32 (?sz - 32)"
    if "32 < ?sz" for c
    by (rule crc16_cong) (use ok(4) that in \<open>simp_all add: desc_bytes_checksum desc_whole_def\<close>)
  from ok same show ?thesis by (simp add: ext2fs_group_desc_csum_def csum_same_def bg_read_eq Let_def a b cong: if_cong)
qed

text \<open>Storing the checksum changes that field only, and the descriptor verifies.\<close>

lemma group_desc_csum_set_run:
  assumes ok: "desc_table_ok fs" "g < fs_group_desc_count fs" "length (s_uuid (fs_super fs)) = 16" "desc_whole fs g"
    and on: "ext2fs_has_group_desc_csum fs"
  shows "\<exists>c. ext2fs_group_desc_csum_set adr fs g
      = Some (fs\<lparr>fs_group_desc := (fs_group_desc fs)[unat g := (fs_group_desc fs ! unat g)\<lparr>bg_checksum := c\<rparr>]\<rparr>)
    \<and> ext2fs_group_desc_csum_verify adr (fs\<lparr>fs_group_desc := (fs_group_desc fs)[unat g := (fs_group_desc fs ! unat g)\<lparr>bg_checksum := c\<rparr>]\<rparr>) g = Some True"
proof -
  obtain c where c: "ext2fs_group_desc_csum adr fs g = Some c" using group_desc_csum_run [OF ok] by blast
  let ?fs = "fs\<lparr>fs_group_desc := (fs_group_desc fs)[unat g := (fs_group_desc fs ! unat g)\<lparr>bg_checksum := c\<rparr>]\<rparr>"
  have i: "unat g < length (fs_group_desc fs)" using desc_table_index [OF ok(1,2)] by simp
  have "ext2fs_group_desc_csum adr ?fs g = Some c"
    by (subst group_desc_csum_cong [OF ok(1) _ ok(2,4), of _ c]) (use ok c i in \<open>simp_all add: csum_same_super\<close>)
  moreover have "ext2fs_has_group_desc_csum ?fs" using on by (simp add: ext2fs_has_group_desc_csum_def)
  ultimately have "ext2fs_group_desc_csum_verify adr ?fs g = Some True"
    using ok i by (simp add: ext2fs_group_desc_csum_verify_def ext2fs_bg_checksum_def bg_read_eq)
  with c on ok show ?thesis
    by (intro exI [of _ c]) (simp add: ext2fs_group_desc_csum_set_def ext2fs_bg_checksum_set_def bg_write_eq)
qed

lemma group_desc_csum_verify_cong:
  assumes ok: "desc_table_ok fs" "desc_table_ok fs'" "g < fs_group_desc_count fs" "desc_whole fs g"
    and same: "csum_same fs fs'" "fs_csum_seed fs' = fs_csum_seed fs" "fs_group_desc_count fs' = fs_group_desc_count fs"
      "fs_group_desc fs' ! unat g = fs_group_desc fs ! unat g"
  shows "ext2fs_group_desc_csum_verify adr fs' g = ext2fs_group_desc_csum_verify adr fs g"
proof -
  have "ext2fs_group_desc_csum adr fs' g = ext2fs_group_desc_csum adr fs g"
    by (rule group_desc_csum_cong [OF ok same(1-3), where x = "bg_checksum (fs_group_desc fs ! unat g)"]) (use same(4) in simp)
  with ok same show ?thesis
    by (simp add: ext2fs_group_desc_csum_verify_def ext2fs_bg_checksum_def bg_read_eq ext2fs_has_group_desc_csum_def csum_same_def)
qed

subsection \<open>Initialisation of the group checksums\<close>

text \<open>The last inode in use: the numbers above it are clear, or no number is in use.\<close>

context bitmap_backend
begin

lemma find_last_loop_run:
  assumes ok: "gb_ok inv g" and start: "1 \<le> start"
  shows "\<exists>r. find_last_loop ops g n start i = Some r
    \<and> ((\<forall>k. start \<le> k \<and> k \<le> i \<longrightarrow> ucast k \<notin> gb_bits bits g) \<and> r = n
      \<or> (\<exists>k. start \<le> k \<and> k \<le> i \<and> ucast k \<in> gb_bits bits g \<and> (\<forall>j. k < j \<and> j \<le> i \<longrightarrow> ucast j \<notin> gb_bits bits g) \<and> r = k - start + 1))"
proof (induction "unat i" arbitrary: i rule: less_induct)
  case less
  show ?case
  proof (cases "start \<le> i")
    case False
    then show ?thesis by (subst find_last_loop.simps) auto
  next
    case True
    obtain t where t: "ext2fs_test_inode_bitmap2 ops g i = Some t" "t \<noteq> 0 \<longleftrightarrow> ucast i \<in> gb_bits bits g"
      using gb_test_all [OF ok, of "ucast i"] by (auto simp: ext2fs_test_inode_bitmap2_def)
    show ?thesis
    proof (cases "t = 0")
      case False
      with True t show ?thesis by (subst find_last_loop.simps) (auto intro!: exI [of _ i])
    next
      case z: True
      have i0: "i \<noteq> 0" using start True by (auto simp: word_le_nat_alt)
      then have u: "unat (i - 1) = unat i - 1" "0 < unat i" by (simp_all add: unat_minus_one unat_gt_0)
      have step: "k \<le> i \<longleftrightarrow> k \<le> i - 1 \<or> k = i" for k
        using u by (auto simp: word_le_nat_alt word_unat_eq_iff)
      have run: "find_last_loop ops g n start i = find_last_loop ops g n start (i - 1)"
        using True t z by (subst find_last_loop.simps) simp
      from less.hyps [of "i - 1"] u obtain r where r: "find_last_loop ops g n start (i - 1) = Some r"
        "(\<forall>k. start \<le> k \<and> k \<le> i - 1 \<longrightarrow> ucast k \<notin> gb_bits bits g) \<and> r = n
          \<or> (\<exists>k. start \<le> k \<and> k \<le> i - 1 \<and> ucast k \<in> gb_bits bits g \<and> (\<forall>j. k < j \<and> j \<le> i - 1 \<longrightarrow> ucast j \<notin> gb_bits bits g)
            \<and> r = k - start + 1)" by auto
      with run t z show ?thesis by (auto simp: step)
    qed
  qed
qed

text \<open>
  The number of inodes behind the last one in use, of a group whose inode numbers fit in 32 bits: those
  inodes are clear, and the one in front of them is in use; for a group without inodes in use it is as if the last one
  were in use.
\<close>

lemma find_last_inode_run:
  assumes ok: "gb_ok inv g" and fit: "(unat grp + 1) * unat ipg < 4294967296"
  shows "\<exists>n. find_last_inode_ingrp ops g ipg grp = Some n \<and> unat n \<le> unat ipg
    \<and> (\<forall>k. unat n \<le> k \<and> k < unat ipg \<longrightarrow> of_nat (unat grp * unat ipg + 1 + k) \<notin> gb_bits bits g)
    \<and> (of_nat (unat grp * unat ipg + unat n) \<in> gb_bits bits g
       \<or> unat n = unat ipg \<and> (\<forall>k < unat ipg. of_nat (unat grp * unat ipg + 1 + k) \<notin> gb_bits bits g))"
proof -
  let ?a = "unat grp * unat ipg" and ?start = "grp * ipg + 1"
  let ?fin = "?start + ipg - 1"
  have fit': "?a + unat ipg < 4294967296" using fit by simp
  have a: "unat (grp * ipg) = ?a" using fit' by (simp add: unat_word_ariths)
  have a1: "?a + 1 < 4294967296" using fit' by (cases "unat ipg = 0") simp_all
  have e: "unat ?fin = ?a + unat ipg"
    using fit' a by (simp add: unat_word_ariths)
  have s: "unat ?start = ?a + 1" using a a1 by (simp add: unat_word_ariths)
  have cast: "ucast (of_nat m :: u32) = (of_nat m :: u64)" if "m < 4294967296" for m
    using that by (simp add: word_unat_eq_iff unat_of_nat_u32 unat_of_nat_u64)
  from find_last_loop_run [OF ok, of ?start ipg ?fin] s obtain r where r: "find_last_loop ops g ipg ?start ?fin = Some r"
    "(\<forall>k. ?start \<le> k \<and> k \<le> ?fin \<longrightarrow> ucast k \<notin> gb_bits bits g) \<and> r = ipg
      \<or> (\<exists>k. ?start \<le> k \<and> k \<le> ?fin \<and> ucast k \<in> gb_bits bits g \<and> (\<forall>j. k < j \<and> j \<le> ?fin \<longrightarrow> ucast j \<notin> gb_bits bits g)
        \<and> r = k - ?start + 1)" by (auto simp: word_le_nat_alt)
  from r(2) show ?thesis
  proof
    assume none: "(\<forall>k. ?start \<le> k \<and> k \<le> ?fin \<longrightarrow> ucast k \<notin> gb_bits bits g) \<and> r = ipg"
    have "of_nat (?a + 1 + m) \<notin> gb_bits bits g" if m: "m < unat ipg" for m
    proof -
      have mu: "unat (of_nat (?a + 1 + m) :: u32) = ?a + 1 + m" using m fit' by (intro unat_of_nat_u32) linarith
      have "?start \<le> of_nat (?a + 1 + m)" "of_nat (?a + 1 + m) \<le> ?fin" unfolding word_le_nat_alt mu e s using m by linarith+
      with none have "ucast (of_nat (?a + 1 + m) :: u32) \<notin> gb_bits bits g" by blast
      moreover have "?a + 1 + m < 4294967296" using m fit' by linarith
      ultimately show ?thesis using cast [of "?a + 1 + m"] by simp
    qed
    with r(1) none show ?thesis by (intro exI [of _ ipg]) (simp add: find_last_inode_ingrp_def Let_def)
  next
    assume "\<exists>k. ?start \<le> k \<and> k \<le> ?fin \<and> ucast k \<in> gb_bits bits g \<and> (\<forall>j. k < j \<and> j \<le> ?fin \<longrightarrow> ucast j \<notin> gb_bits bits g)
        \<and> r = k - ?start + 1"
    then obtain k where k: "?start \<le> k" "k \<le> ?fin" "ucast k \<in> gb_bits bits g" "\<And>j. k < j \<Longrightarrow> j \<le> ?fin \<Longrightarrow> ucast j \<notin> gb_bits bits g"
      "r = k - ?start + 1" by blast
    have ku: "?a + 1 \<le> unat k" "unat k \<le> ?a + unat ipg" using k(1,2) s e by (simp_all add: word_le_nat_alt)
    have "grp * ipg \<le> k" using ku(1) by (simp add: word_le_nat_alt a)
    then have ru: "unat r = unat k - ?a" by (simp add: k(5) unat_sub a)
    have "of_nat (?a + 1 + m) \<notin> gb_bits bits g" if m: "unat r \<le> m" "m < unat ipg" for m
    proof -
      have mu: "unat (of_nat (?a + 1 + m) :: u32) = ?a + 1 + m" using m fit' by (intro unat_of_nat_u32) linarith
      have "k < of_nat (?a + 1 + m)" "of_nat (?a + 1 + m) \<le> ?fin"
        unfolding word_less_nat_alt word_le_nat_alt mu e using m ru ku by linarith+
      from k(4) [OF this] show ?thesis using cast [of "?a + 1 + m"] m fit' by simp
    qed
    moreover have "of_nat (?a + unat r) = (ucast k :: u64)" using ru ku by (simp add: word_unat_eq_iff)
    moreover have "unat r \<le> unat ipg" using ru ku by linarith
    ultimately show ?thesis using r(1) k(3)
      by (intro exI [of _ r]) (simp add: find_last_inode_ingrp_def Let_def del: of_nat_add of_nat_mult)
  qed
qed

end

text \<open>
  What the initialisation promises of the description of a group, \<open>used\<close> being the inodes in use. When the counter of a
  group says that all its inodes are free, the bitmap is not looked at.
\<close>

definition inodes_clear :: "u64 set \<Rightarrow> filsys \<Rightarrow> u32 \<Rightarrow> nat \<Rightarrow> bool" where
  "inodes_clear used fs g n \<longleftrightarrow>
     (let ipg = unat (s_inodes_per_group (fs_super fs)) in \<forall>k. n \<le> k \<and> k < ipg \<longrightarrow> of_nat (unat g * ipg + 1 + k) \<notin> used)"

definition gdt_post :: "u64 set \<Rightarrow> filsys \<Rightarrow> u32 \<Rightarrow> desc_view \<Rightarrow> desc_view \<Rightarrow> bool" where
  "gdt_post used fs g v v' \<longleftrightarrow>
     (let ipg = s_inodes_per_group (fs_super fs);
          fl = (if v_free_blocks v = s_blocks_per_group (fs_super fs) \<and> g \<noteq> fs_group_desc_count fs - 1 then v_flags v OR 2 else v_flags v);
          unused = unat (v_itable_unused v')
      in v' = v\<lparr>v_flags := (if v_free_inodes v = ipg then fl OR 1 else fl AND NOT 1), v_itable_unused := v_itable_unused v',
               v_checksum := v_checksum v'\<rparr>
         \<and> (if v_free_inodes v = ipg then v_itable_unused v' = ipg
            else unused \<le> unat ipg
              \<and> inodes_clear used fs g (unat ipg - unused)
              \<and> (of_nat (unat g * unat ipg + (unat ipg - unused)) \<in> used \<or> unused = 0 \<and> inodes_clear used fs g 0)))"

lemma gdt_post_clear:
  assumes "gdt_post used fs g v v'" "v_free_inodes v = s_inodes_per_group (fs_super fs) \<longrightarrow> inodes_clear used fs g 0"
  shows "inodes_clear used fs g (unat (s_inodes_per_group (fs_super fs)) - unat (v_itable_unused v'))"
  using assms by (cases "v_free_inodes v = s_inodes_per_group (fs_super fs)") (simp_all add: gdt_post_def Let_def)

text \<open>The descriptor before its checksum is stored, \<open>n\<close> being the number of inodes up to the last one in use.\<close>

definition set_unused :: "bool \<Rightarrow> u32 \<Rightarrow> ext4_group_desc \<Rightarrow> ext4_group_desc" where
  "set_unused w n d = (let d = d\<lparr>bg_itable_unused := ucast n\<rparr>
     in if w then d\<lparr>bg_itable_unused_hi := ucast (drop_bit 16 n)\<rparr> else d)"

definition gdt_desc :: "filsys \<Rightarrow> u32 \<Rightarrow> u32 \<Rightarrow> ext4_group_desc" where
  "gdt_desc fs g n =
     (let d = fs_group_desc fs ! unat g; v = desc_view_of (fs_wide fs) d; ipg = s_inodes_per_group (fs_super fs);
          d1 = (if v_free_blocks v = s_blocks_per_group (fs_super fs) \<and> g \<noteq> fs_group_desc_count fs - 1
                then d\<lparr>bg_flags := bg_flags d OR 2\<rparr> else d)
      in if v_free_inodes v = ipg then set_unused (fs_wide fs) ipg (d1\<lparr>bg_flags := bg_flags d1 OR 1\<rparr>)
         else set_unused (fs_wide fs) (ipg - n) (d1\<lparr>bg_flags := bg_flags d1 AND NOT 1\<rparr>))"

lemma set_unused_view: "desc_view_of w (set_unused w n d) = (desc_view_of w d)\<lparr>v_itable_unused := cut32 w n\<rparr>"
  "bg_tail (set_unused w n d) = bg_tail d"
  by (simp_all add: set_unused_def desc_field_defs)

lemma gdt_desc_view:
  "desc_view_of (fs_wide fs) (gdt_desc fs g n\<lparr>bg_checksum := c\<rparr>) =
     (let v = desc_view_of (fs_wide fs) (fs_group_desc fs ! unat g); ipg = s_inodes_per_group (fs_super fs);
          fl = (if v_free_blocks v = s_blocks_per_group (fs_super fs) \<and> g \<noteq> fs_group_desc_count fs - 1 then v_flags v OR 2 else v_flags v)
      in v\<lparr>v_flags := (if v_free_inodes v = ipg then fl OR 1 else fl AND NOT 1),
           v_itable_unused := cut32 (fs_wide fs) (if v_free_inodes v = ipg then ipg else ipg - n), v_checksum := c\<rparr>)"
  "bg_tail (gdt_desc fs g n) = bg_tail (fs_group_desc fs ! unat g)"
proof -
  have c: "desc_view_of w (d\<lparr>bg_checksum := c\<rparr>) = (desc_view_of w d)\<lparr>v_checksum := c\<rparr>" for w d
    by (simp add: desc_view_of_def)
  have f: "desc_view_of w (d\<lparr>bg_flags := x\<rparr>) = (desc_view_of w d)\<lparr>v_flags := x\<rparr>" for w d x
    by (simp add: desc_view_of_def)
  have b: "bg_flags d = v_flags (desc_view_of w d)" for w d by (simp add: desc_view_of_def)
  show "desc_view_of (fs_wide fs) (gdt_desc fs g n\<lparr>bg_checksum := c\<rparr>) =
     (let v = desc_view_of (fs_wide fs) (fs_group_desc fs ! unat g); ipg = s_inodes_per_group (fs_super fs);
          fl = (if v_free_blocks v = s_blocks_per_group (fs_super fs) \<and> g \<noteq> fs_group_desc_count fs - 1 then v_flags v OR 2 else v_flags v)
      in v\<lparr>v_flags := (if v_free_inodes v = ipg then fl OR 1 else fl AND NOT 1),
           v_itable_unused := cut32 (fs_wide fs) (if v_free_inodes v = ipg then ipg else ipg - n), v_checksum := c\<rparr>)"
    by (simp add: gdt_desc_def Let_def c f set_unused_view b [of _ "fs_wide fs"])
  show "bg_tail (gdt_desc fs g n) = bg_tail (fs_group_desc fs ! unat g)"
    by (simp add: gdt_desc_def Let_def set_unused_view)
qed

text \<open>What stays the same in the loop: everything but the descriptors, and the bytes behind the structures.\<close>

definition gdt_frame :: "filsys \<Rightarrow> filsys \<Rightarrow> bool" where
  "gdt_frame fs fs' \<longleftrightarrow> fs' = fs\<lparr>fs_group_desc := fs_group_desc fs'\<rparr> \<and> length (fs_group_desc fs') = length (fs_group_desc fs)
     \<and> (\<forall>i. bg_tail (fs_group_desc fs' ! i) = bg_tail (fs_group_desc fs ! i))"

lemma gdt_frame_facts:
  assumes "gdt_frame fs fs'"
  shows "fs_super fs' = fs_super fs" "fs_csum_seed fs' = fs_csum_seed fs" "fs_group_desc_count fs' = fs_group_desc_count fs"
    "fs_flags fs' = fs_flags fs" "desc_table_ok fs' = desc_table_ok fs" "desc_whole fs' g = desc_whole fs g" "length (bg_views fs') = length (bg_views fs)"
proof -
  from assms obtain ds where ds: "fs' = fs\<lparr>fs_group_desc := ds\<rparr>" "length ds = length (fs_group_desc fs)"
    "\<And>i. bg_tail (ds ! i) = bg_tail (fs_group_desc fs ! i)" unfolding gdt_frame_def by metis
  then show "fs_super fs' = fs_super fs" "fs_csum_seed fs' = fs_csum_seed fs" "fs_group_desc_count fs' = fs_group_desc_count fs"
    "fs_flags fs' = fs_flags fs" "desc_table_ok fs' = desc_table_ok fs" "desc_whole fs' g = desc_whole fs g" "length (bg_views fs') = length (bg_views fs)"
    by (simp_all add: desc_table_ok_def desc_whole_def bg_views_def)
qed

lemma gdt_frame_trans: "gdt_frame fs fs' \<Longrightarrow> gdt_frame fs' fs'' \<Longrightarrow> gdt_frame fs fs''"
  unfolding gdt_frame_def by (metis filsys.update_convs(7) filsys.surjective)

lemmas bg_code = ext2fs_bg_checksum_def ext2fs_bg_itable_unused_def ext2fs_bg_flags_def ext2fs_bg_free_inodes_count_def
  ext2fs_bg_free_blocks_count_def ext2fs_bg_flags_set_def ext2fs_bg_flags_clear_def ext2fs_bg_itable_unused_set_def

text \<open>The group as the model reads it: the descriptor is rewritten, and its checksum is stored.\<close>

lemma desc_view_update_eq:
  "(v\<lparr>v_flags := a, v_itable_unused := b, v_checksum := c\<rparr> = v) \<longleftrightarrow> v_flags v = a \<and> v_itable_unused v = b \<and> v_checksum v = c"
  by (cases v) auto

text \<open>The fields of one descriptor that the checksum pass reads and writes.\<close>

lemma desc_access:
  assumes ok: "desc_table_ok fs" "g < fs_group_desc_count fs"
  defines "st \<equiv> \<lambda>d. fs\<lparr>fs_group_desc := (fs_group_desc fs)[unat g := d]\<rparr>"
  shows "bg_read (st d) g bg_flags = Some (v_flags (desc_view_of (fs_wide fs) d))"
    "bg_read (st d) g bg_checksum = Some (v_checksum (desc_view_of (fs_wide fs) d))"
    "ext2fs_bg_itable_unused (st d) g = Some (v_itable_unused (desc_view_of (fs_wide fs) d))"
    "ext2fs_bg_free_inodes_count (st d) g = Some (v_free_inodes (desc_view_of (fs_wide fs) d))"
    "ext2fs_bg_free_blocks_count (st d) g = Some (v_free_blocks (desc_view_of (fs_wide fs) d))"
    "ext2fs_bg_flags_set (st d) g y = Some (st (d\<lparr>bg_flags := bg_flags d OR y\<rparr>))"
    "ext2fs_bg_flags_clear (st d) g y = Some (st (d\<lparr>bg_flags := bg_flags d AND NOT y\<rparr>))"
    "ext2fs_bg_itable_unused_set (st d) g m = Some (st (set_unused (fs_wide fs) m d))"
  using ok desc_table_index [OF ok]
  by (simp_all add: st_def bg_code bg_read_eq desc_field_defs bg_write_eq set_unused_def Let_def)

lemma gdt_desc_write:
  fixes fs :: filsys and g :: u32
  defines "v \<equiv> desc_view_of (fs_wide fs) (fs_group_desc fs ! unat g)"
  assumes ok: "desc_table_ok fs" "g < fs_group_desc_count fs"
    and n: "find_last_inode_ingrp ops inode_map (s_inodes_per_group (fs_super fs)) g = Some n"
  shows "do {
        fs' \<leftarrow> (if v_free_blocks v = s_blocks_per_group (fs_super fs) \<and> g \<noteq> fs_group_desc_count fs - 1 then ext2fs_bg_flags_set fs g 0x0002 else Some fs);
        if v_free_inodes v = s_inodes_per_group (fs_super fs) then do {
              fs' \<leftarrow> ext2fs_bg_flags_set fs' g 0x0001;
              ext2fs_bg_itable_unused_set fs' g (s_inodes_per_group (fs_super fs))
            }
            else do {
              n \<leftarrow> find_last_inode_ingrp ops inode_map (s_inodes_per_group (fs_super fs)) g;
              fs' \<leftarrow> ext2fs_bg_flags_clear fs' g 0x0001;
              ext2fs_bg_itable_unused_set fs' g (s_inodes_per_group (fs_super fs) - n)
            } } = Some (fs\<lparr>fs_group_desc := (fs_group_desc fs)[unat g := gdt_desc fs g n]\<rparr>)"
proof -
  note wr = desc_access(6-8) [OF ok]
  note wr0 = wr [of "fs_group_desc fs ! unat g", simplified]
  let ?A = "v_free_blocks v = s_blocks_per_group (fs_super fs) \<and> g \<noteq> fs_group_desc_count fs - 1"
  let ?B = "v_free_inodes v = s_inodes_per_group (fs_super fs)"
  show ?thesis
    unfolding gdt_desc_def Let_def if_distrib [of Some, symmetric] Option.bind.simps v_def [symmetric]
    by (cases ?A; cases ?B; simp only: wr wr0 n if_True if_False simp_thms Option.bind.simps)
qed

lemma gdt_csum_group_run:
  assumes ok: "desc_table_ok fs" "g < fs_group_desc_count fs" "length (s_uuid (fs_super fs)) = 16" "desc_whole fs g"
    and on: "ext2fs_has_group_desc_csum fs"
    and n: "find_last_inode_ingrp ops inode_map (s_inodes_per_group (fs_super fs)) g = Some n"
  shows "\<exists>c. gdt_csum_group adr ops inode_map fs g =
      Some (fs\<lparr>fs_group_desc := (fs_group_desc fs)[unat g := gdt_desc fs g n\<lparr>bg_checksum := c\<rparr>]\<rparr>,
        desc_view_of (fs_wide fs) (gdt_desc fs g n\<lparr>bg_checksum := c\<rparr>) \<noteq> bg_views fs ! unat g)
    \<and> ext2fs_group_desc_csum_verify adr (fs\<lparr>fs_group_desc := (fs_group_desc fs)[unat g := gdt_desc fs g n\<lparr>bg_checksum := c\<rparr>]\<rparr>) g = Some True"
proof -
  let ?fs = "fs\<lparr>fs_group_desc := (fs_group_desc fs)[unat g := gdt_desc fs g n]\<rparr>"
  have i: "unat g < length (fs_group_desc fs)" using desc_table_index [OF ok(1,2)] by simp
  have "desc_whole ?fs g" using ok(4) i by (simp add: desc_whole_def gdt_desc_view)
  moreover have "ext2fs_has_group_desc_csum ?fs" using on by (simp add: ext2fs_has_group_desc_csum_def)
  ultimately obtain c where c: "ext2fs_group_desc_csum_set adr ?fs g =
      Some (fs\<lparr>fs_group_desc := (fs_group_desc fs)[unat g := gdt_desc fs g n\<lparr>bg_checksum := c\<rparr>]\<rparr>)"
    "ext2fs_group_desc_csum_verify adr (fs\<lparr>fs_group_desc := (fs_group_desc fs)[unat g := gdt_desc fs g n\<lparr>bg_checksum := c\<rparr>]\<rparr>) g = Some True"
    using group_desc_csum_set_run [of ?fs g adr] ok i by auto
  have view: "bg_views fs ! unat g = desc_view_of (fs_wide fs) (fs_group_desc fs ! unat g)" using i by (simp add: bg_views_def)
  let ?v = "desc_view_of (fs_wide fs) (fs_group_desc fs ! unat g)"
  define x where "x = gdt_desc fs g n\<lparr>bg_checksum := c\<rparr>"
  let ?fin = "fs\<lparr>fs_group_desc := (fs_group_desc fs)[unat g := x]\<rparr>"
  note rd = desc_access(1-5) [OF ok(1,2)]
  note rd0 = rd [of "fs_group_desc fs ! unat g", simplified]
  have "gdt_csum_group adr ops inode_map fs g = do {
      fs' \<leftarrow> Some ?fs; fs' \<leftarrow> ext2fs_group_desc_csum_set adr fs' g;
      flags \<leftarrow> ext2fs_bg_flags fs' g; unused \<leftarrow> ext2fs_bg_itable_unused fs' g; csum \<leftarrow> ext2fs_bg_checksum fs' g;
      Some (fs', v_flags ?v \<noteq> flags \<or> v_itable_unused ?v \<noteq> unused \<or> v_checksum ?v \<noteq> csum) }"
    unfolding gdt_desc_write [OF ok(1,2) n, symmetric] by (simp add: gdt_csum_group_def ext2fs_bg_flags_def ext2fs_bg_checksum_def rd0 Let_def)
  also have "\<dots> = Some (?fin, v_flags ?v \<noteq> v_flags (desc_view_of (fs_wide fs) x) \<or> v_itable_unused ?v \<noteq> v_itable_unused (desc_view_of (fs_wide fs) x)
      \<or> v_checksum ?v \<noteq> v_checksum (desc_view_of (fs_wide fs) x))"
    using c(1) unfolding x_def [symmetric] by (simp add: ext2fs_bg_flags_def ext2fs_bg_checksum_def rd)
  also have "\<dots> = Some (?fin, desc_view_of (fs_wide fs) x \<noteq> ?v)"
    unfolding x_def gdt_desc_view(1) Let_def desc_view_update_eq by simp
  finally show ?thesis using c(2) unfolding x_def view by blast
qed

text \<open>The loop from group \<open>i\<close> on: the groups from \<open>i\<close> are initialised, the others are as they were.\<close>

definition gdt_ready :: "filsys \<Rightarrow> bool" where
  "gdt_ready fs \<longleftrightarrow> desc_table_ok fs \<and> length (s_uuid (fs_super fs)) = 16 \<and> ext2fs_has_group_desc_csum fs
     \<and> (\<forall>g < fs_group_desc_count fs. desc_whole fs g)
     \<and> unat (fs_group_desc_count fs) * unat (s_inodes_per_group (fs_super fs)) < 4294967296
     \<and> (fs_wide fs \<or> unat (s_inodes_per_group (fs_super fs)) < 65536)"

lemma gdt_ready_frame: "gdt_frame fs fs' \<Longrightarrow> gdt_ready fs' = gdt_ready fs"
  using gdt_frame_facts [of fs fs'] by (simp add: gdt_ready_def ext2fs_has_group_desc_csum_def)

lemma gdt_post_frame: "gdt_frame fs fs' \<Longrightarrow> gdt_post used fs' = gdt_post used fs"
  using gdt_frame_facts [of fs fs'] by (intro ext) (simp add: gdt_post_def inodes_clear_def)

context bitmap_backend
begin

lemma gdt_csum_group_post:
  assumes ready: "gdt_ready fs" and g: "g < fs_group_desc_count fs" and map: "gb_ok inv inode_map"
  shows "\<exists>fs' d. gdt_csum_group adr ops inode_map fs g = Some (fs', d) \<and> gdt_frame fs fs'
    \<and> (\<forall>i. i \<noteq> unat g \<longrightarrow> fs_group_desc fs' ! i = fs_group_desc fs ! i)
    \<and> ext2fs_group_desc_csum_verify adr fs' g = Some True
    \<and> gdt_post (gb_bits bits inode_map) fs g (bg_views fs ! unat g) (bg_views fs' ! unat g)
    \<and> (d \<longleftrightarrow> bg_views fs' ! unat g \<noteq> bg_views fs ! unat g)"
proof -
  let ?ipg = "s_inodes_per_group (fs_super fs)"
  have ok: "desc_table_ok fs" "length (s_uuid (fs_super fs)) = 16" "desc_whole fs g" "ext2fs_has_group_desc_csum fs"
    using ready g by (simp_all add: gdt_ready_def)
  have i: "unat g < length (fs_group_desc fs)" using desc_table_index [OF ok(1) g] by simp
  have "(unat g + 1) * unat ?ipg \<le> unat (fs_group_desc_count fs) * unat ?ipg"
    using g by (intro mult_le_mono1) (simp add: word_less_nat_alt)
  then have fit: "(unat g + 1) * unat ?ipg < 4294967296" using ready unfolding gdt_ready_def by linarith
  have cut: "cut32 (fs_wide fs) m = m" if "unat m \<le> unat ?ipg" for m
  proof (cases "fs_wide fs")
    case False
    then have "unat m < 65536" using ready that unfolding gdt_ready_def by linarith
    with False show ?thesis by (simp add: cut32_def word_unat_eq_iff unsigned_ucast_eq unsigned_take_bit_eq take_bit_nat_eq_self)
  qed (simp add: cut32_def)
  from find_last_inode_run [OF map fit] obtain n where n: "find_last_inode_ingrp ops inode_map ?ipg g = Some n" "unat n \<le> unat ?ipg"
    "\<forall>k. unat n \<le> k \<and> k < unat ?ipg \<longrightarrow> of_nat (unat g * unat ?ipg + 1 + k) \<notin> gb_bits bits inode_map"
    "of_nat (unat g * unat ?ipg + unat n) \<in> gb_bits bits inode_map
      \<or> unat n = unat ?ipg \<and> (\<forall>k < unat ?ipg. of_nat (unat g * unat ?ipg + 1 + k) \<notin> gb_bits bits inode_map)" by blast
  have sub: "unat (?ipg - n) = unat ?ipg - unat n" using n(2) by (simp add: unat_sub word_le_nat_alt)
  from gdt_csum_group_run [OF ok(1) g ok(2-4) n(1), of adr] obtain c where
    c: "gdt_csum_group adr ops inode_map fs g =
      Some (fs\<lparr>fs_group_desc := (fs_group_desc fs)[unat g := gdt_desc fs g n\<lparr>bg_checksum := c\<rparr>]\<rparr>,
        desc_view_of (fs_wide fs) (gdt_desc fs g n\<lparr>bg_checksum := c\<rparr>) \<noteq> bg_views fs ! unat g)"
      "ext2fs_group_desc_csum_verify adr (fs\<lparr>fs_group_desc := (fs_group_desc fs)[unat g := gdt_desc fs g n\<lparr>bg_checksum := c\<rparr>]\<rparr>) g = Some True"
    by blast
  define x where "x = gdt_desc fs g n\<lparr>bg_checksum := c\<rparr>"
  let ?fs = "fs\<lparr>fs_group_desc := (fs_group_desc fs)[unat g := x]\<rparr>"
  have frame: "gdt_frame fs ?fs"
    using i by (simp add: gdt_frame_def x_def nth_list_update gdt_desc_view(2))
  have view: "bg_views ?fs ! unat g = desc_view_of (fs_wide fs) x" "bg_views fs ! unat g = desc_view_of (fs_wide fs) (fs_group_desc fs ! unat g)"
    using i by (simp_all add: bg_views_def)
  have "gdt_post (gb_bits bits inode_map) fs g (bg_views fs ! unat g) (bg_views ?fs ! unat g)"
    unfolding view unfolding x_def gdt_desc_view(1) gdt_post_def inodes_clear_def Let_def
    using n sub cut [of ?ipg] cut [of "?ipg - n"] by auto
  with c frame view(1) show ?thesis unfolding x_def [symmetric]
    by (intro exI [of _ ?fs]) simp
qed

end

lemma gdt_frame_refl: "gdt_frame fs fs"
  by (simp add: gdt_frame_def)

lemma bg_views_nth: "gdt_frame fs fs' \<Longrightarrow> fs_group_desc fs' ! i = fs_group_desc fs ! i \<Longrightarrow> i < length (fs_group_desc fs)
    \<Longrightarrow> bg_views fs' ! i = bg_views fs ! i"
  using gdt_frame_facts(1) [of fs fs'] by (simp add: bg_views_def gdt_frame_def)

context bitmap_backend
begin

lemma gdt_csum_loop_run:
  assumes "gdt_ready fs" "gb_ok inv inode_map" "n = fs_group_desc_count fs"
  shows "\<exists>fs' d. gdt_csum_loop adr ops inode_map n fs i dirty = Some (fs', d) \<and> gdt_frame fs fs'
    \<and> (\<forall>j. j < unat i \<or> unat n \<le> j \<longrightarrow> fs_group_desc fs' ! j = fs_group_desc fs ! j)
    \<and> (\<forall>g. i \<le> g \<and> g < n \<longrightarrow> ext2fs_group_desc_csum_verify adr fs' g = Some True
        \<and> gdt_post (gb_bits bits inode_map) fs g (bg_views fs ! unat g) (bg_views fs' ! unat g))
    \<and> (d \<longleftrightarrow> dirty \<or> (\<exists>g. i \<le> g \<and> g < n \<and> bg_views fs' ! unat g \<noteq> bg_views fs ! unat g))"
  using assms
proof (induction "unat n - unat i" arbitrary: i fs dirty rule: less_induct)
  case less
  show ?case
  proof (cases "i < n")
    case False
    then show ?thesis by (subst gdt_csum_loop.simps) (auto simp: gdt_frame_refl)
  next
    case True
    have i1: "unat (i + 1) = Suc (unat i)" using unat_inc [OF True] by simp
    have iu: "unat i < unat n" using True by (simp add: word_less_nat_alt)
    from gdt_csum_group_post [OF less.prems(1) _ less.prems(2), of i adr] True less.prems(3) obtain fs1 d1 where
      s1: "gdt_csum_group adr ops inode_map fs i = Some (fs1, d1)" "gdt_frame fs fs1"
        "\<And>j. j \<noteq> unat i \<Longrightarrow> fs_group_desc fs1 ! j = fs_group_desc fs ! j" "ext2fs_group_desc_csum_verify adr fs1 i = Some True"
        "gdt_post (gb_bits bits inode_map) fs i (bg_views fs ! unat i) (bg_views fs1 ! unat i)"
        "d1 \<longleftrightarrow> bg_views fs1 ! unat i \<noteq> bg_views fs ! unat i" by auto
    note f1 = gdt_frame_facts [OF s1(2)]
    have prem: "unat n - unat (i + 1) < unat n - unat i" "gdt_ready fs1" "n = fs_group_desc_count fs1"
      using less.prems i1 iu f1(3) gdt_ready_frame [OF s1(2)] by simp_all
    from less.hyps [OF prem(1,2) less.prems(2) prem(3), of "dirty \<or> d1"] obtain fs' d where
      s2: "gdt_csum_loop adr ops inode_map n fs1 (i + 1) (dirty \<or> d1) = Some (fs', d)" "gdt_frame fs1 fs'"
        "\<And>j. j < unat (i + 1) \<or> unat n \<le> j \<Longrightarrow> fs_group_desc fs' ! j = fs_group_desc fs1 ! j"
        "\<And>g. i + 1 \<le> g \<Longrightarrow> g < n \<Longrightarrow> ext2fs_group_desc_csum_verify adr fs' g = Some True
          \<and> gdt_post (gb_bits bits inode_map) fs1 g (bg_views fs1 ! unat g) (bg_views fs' ! unat g)"
        "d \<longleftrightarrow> (dirty \<or> d1) \<or> (\<exists>g. i + 1 \<le> g \<and> g < n \<and> bg_views fs' ! unat g \<noteq> bg_views fs1 ! unat g)" by blast
    have len: "unat n \<le> length (fs_group_desc fs)" "length (fs_group_desc fs1) = length (fs_group_desc fs)"
      using less.prems s1(2) by (simp_all add: gdt_ready_def desc_table_ok_def gdt_frame_def)
    have old: "bg_views fs1 ! unat g = bg_views fs ! unat g" if "g \<noteq> i" "g < n" for g
      by (rule bg_views_nth [OF s1(2) s1(3)]) (use that len in \<open>auto simp: word_less_nat_alt word_unat_eq_iff\<close>)
    have vi: "bg_views fs' ! unat i = bg_views fs1 ! unat i"
      by (rule bg_views_nth [OF s2(2) s2(3)]) (use i1 iu len in auto)
    have split: "i \<le> g \<longleftrightarrow> g = i \<or> i + 1 \<le> g" for g using i1 by (auto simp: word_le_nat_alt word_unat_eq_iff)
    have ok: "desc_table_ok fs1" "desc_whole fs1 i" "desc_table_ok fs'" using less.prems(1,3) True f1 gdt_frame_facts(5) [OF s2(2)]
      by (simp_all add: gdt_ready_def)
    have "ext2fs_group_desc_csum_verify adr fs' i = Some True"
      by (subst group_desc_csum_verify_cong [OF ok(1,3) _ ok(2)])
        (use s1(4) True less.prems(3) f1(3) s2(3) i1 gdt_frame_facts [OF s2(2)] in \<open>simp_all add: csum_same_super\<close>)
    with s1(5) s2(4) vi old gdt_post_frame [OF s1(2)]
    have groups: "ext2fs_group_desc_csum_verify adr fs' g = Some True
        \<and> gdt_post (gb_bits bits inode_map) fs g (bg_views fs ! unat g) (bg_views fs' ! unat g)" if g: "i \<le> g" "g < n" for g
    proof (cases "g = i")
      case False
      with g(1) have "i + 1 \<le> g" by (simp add: split)
      from s2(4) [OF this g(2)] old [OF False g(2)] gdt_post_frame [OF s1(2)] show ?thesis by simp
    qed simp
    have dirty: "d \<longleftrightarrow> dirty \<or> (\<exists>g. i \<le> g \<and> g < n \<and> bg_views fs' ! unat g \<noteq> bg_views fs ! unat g)"
      using s2(5) s1(6) vi old True i1 split by (metis (no_types, lifting) order_refl)
    have run: "gdt_csum_loop adr ops inode_map n fs i dirty = Some (fs', d)"
      using True s1(1) s2(1) by (subst gdt_csum_loop.simps) simp
    have rest: "fs_group_desc fs' ! j = fs_group_desc fs ! j" if "j < unat i \<or> unat n \<le> j" for j
      using s2(3) [of j] s1(3) [of j] that i1 iu by auto
    from run gdt_frame_trans [OF s1(2) s2(2)] groups dirty rest show ?thesis by blast
  qed
qed

lemma set_gdt_csum_run:
  assumes "gdt_ready fs" "gb_ok inv inode_map"
  shows "\<exists>fs'. ext2fs_set_gdt_csum adr ops inode_map fs = Some (E_OK, fs')
    \<and> (\<forall>g < fs_group_desc_count fs. ext2fs_group_desc_csum_verify adr fs' g = Some True
        \<and> gdt_post (gb_bits bits inode_map) fs g (bg_views fs ! unat g) (bg_views fs' ! unat g))
    \<and> fs_super fs' = fs_super fs
    \<and> fs_flags fs' = (if \<exists>g < fs_group_desc_count fs. bg_views fs' ! unat g \<noteq> bg_views fs ! unat g then fs_flags fs OR 0x06 else fs_flags fs)"
proof -
  from gdt_csum_loop_run [OF assms refl, of adr 0 False] obtain fs1 d where
    l: "gdt_csum_loop adr ops inode_map (fs_group_desc_count fs) fs 0 False = Some (fs1, d)" "gdt_frame fs fs1"
      "\<And>g. g < fs_group_desc_count fs \<Longrightarrow> ext2fs_group_desc_csum_verify adr fs1 g = Some True
        \<and> gdt_post (gb_bits bits inode_map) fs g (bg_views fs ! unat g) (bg_views fs1 ! unat g)"
      "d \<longleftrightarrow> (\<exists>g < fs_group_desc_count fs. bg_views fs1 ! unat g \<noteq> bg_views fs ! unat g)" by auto
  note f = gdt_frame_facts [OF l(2)]
  let ?fs = "if d then ext2fs_mark_super_dirty fs1 else fs1"
  have same: "fs_group_desc ?fs = fs_group_desc fs1" "fs_super ?fs = fs_super fs1" "fs_csum_seed ?fs = fs_csum_seed fs1"
    "fs_group_desc_count ?fs = fs_group_desc_count fs1" "bg_views ?fs = bg_views fs1" "desc_table_ok ?fs = desc_table_ok fs1"
    by (simp_all add: ext2fs_mark_super_dirty_def bg_views_def desc_table_ok_def)
  have ready: "desc_table_ok fs1" "\<And>g. g < fs_group_desc_count fs \<Longrightarrow> desc_whole fs1 g"
    using assms(1) f by (simp_all add: gdt_ready_def)
  have ver: "ext2fs_group_desc_csum_verify adr ?fs g = Some True" if g: "g < fs_group_desc_count fs" for g
    by (subst group_desc_csum_verify_cong [OF ready(1) _ _ ready(2) [OF g]]) (use ready(1) same f(3) g l(3) in \<open>simp_all add: csum_same_super\<close>)
  have "ext2fs_set_gdt_csum adr ops inode_map fs = Some (E_OK, ?fs)"
    using assms l(1) by (auto simp: ext2fs_set_gdt_csum_def gb_ok_def gdt_ready_def)
  moreover have "fs_flags ?fs = (if d then fs_flags fs OR 0x06 else fs_flags fs)"
    using f(4) by (simp add: ext2fs_mark_super_dirty_def or.assoc)
  ultimately show ?thesis using ver l(3,4) same f(1) by auto
qed

end

text \<open>
  (C10) Initialising the group checksums succeeds on every file system with a complete descriptor table, and
  afterwards the descriptor of every group verifies; the flags that say that the tables of a group are not initialised
  follow the counters; a group whose counter says that all its inodes are free gets all of them recorded as unused, without a look
  at the bitmap; for every other group the number of unused inodes is the number behind the last one in use, or zero if none
  is in use. So this number never reaches down to an inode in use, provided that a counter which says that
  all inodes of a group are free agrees with the bitmap. The superblock is marked dirty exactly if some description has
  changed, and not changed itself.
\<close>

theorem set_gdt_csum_correct:
  assumes "gdt_ready fs" "gb_ok ba_ok inode_map"
  shows "\<exists>fs'. ext2fs_set_gdt_csum adr (ext2fs_blkmap64_bitarray ok1 ok2 junk base) inode_map fs = Some (E_OK, fs')
    \<and> (\<forall>g < fs_group_desc_count fs. ext2fs_group_desc_csum_verify adr fs' g = Some True
        \<and> gdt_post (gb_bits ba_bits inode_map) fs g (bg_views fs ! unat g) (bg_views fs' ! unat g)
        \<and> ((v_free_inodes (bg_views fs ! unat g) = s_inodes_per_group (fs_super fs) \<longrightarrow> inodes_clear (gb_bits ba_bits inode_map) fs g 0)
            \<longrightarrow> inodes_clear (gb_bits ba_bits inode_map) fs g
                  (unat (s_inodes_per_group (fs_super fs)) - unat (v_itable_unused (bg_views fs' ! unat g)))))
    \<and> fs_super fs' = fs_super fs
    \<and> fs_flags fs' = (if \<exists>g < fs_group_desc_count fs. bg_views fs' ! unat g \<noteq> bg_views fs ! unat g then fs_flags fs OR 0x06 else fs_flags fs)"
proof -
  from ba.set_gdt_csum_run [OF assms, where adr = adr] obtain fs' where
    r: "ext2fs_set_gdt_csum adr (ext2fs_blkmap64_bitarray ok1 ok2 junk base) inode_map fs = Some (E_OK, fs')"
      "\<forall>g < fs_group_desc_count fs. ext2fs_group_desc_csum_verify adr fs' g = Some True
        \<and> gdt_post (gb_bits ba_bits inode_map) fs g (bg_views fs ! unat g) (bg_views fs' ! unat g)" "fs_super fs' = fs_super fs"
      "fs_flags fs' = (if \<exists>g < fs_group_desc_count fs. bg_views fs' ! unat g \<noteq> bg_views fs ! unat g then fs_flags fs OR 0x06 else fs_flags fs)" by blast
  show ?thesis using r(2) gdt_post_clear by (intro exI [of _ fs'] conjI r(1,3,4)) blast
qed

theorem set_gdt_csum_correct_witness:
  "\<exists>fs'. ext2fs_set_gdt_csum 0 (ext2fs_blkmap64_bitarray True True (\<lambda>_. 0) 0) (Bitmap64 ba_example) fs_csum_example = Some (E_OK, fs')
    \<and> (\<forall>g < fs_group_desc_count fs_csum_example. ext2fs_group_desc_csum_verify 0 fs' g = Some True
        \<and> gdt_post (gb_bits ba_bits (Bitmap64 ba_example)) fs_csum_example g (bg_views fs_csum_example ! unat g) (bg_views fs' ! unat g)
        \<and> ((v_free_inodes (bg_views fs_csum_example ! unat g) = s_inodes_per_group (fs_super fs_csum_example) \<longrightarrow> inodes_clear (gb_bits ba_bits (Bitmap64 ba_example)) fs_csum_example g 0)
            \<longrightarrow> inodes_clear (gb_bits ba_bits (Bitmap64 ba_example)) fs_csum_example g
                  (unat (s_inodes_per_group (fs_super fs_csum_example)) - unat (v_itable_unused (bg_views fs' ! unat g)))))
    \<and> fs_super fs' = fs_super fs_csum_example
    \<and> fs_flags fs' = (if \<exists>g < fs_group_desc_count fs_csum_example. bg_views fs' ! unat g \<noteq> bg_views fs_csum_example ! unat g
        then fs_flags fs_csum_example OR 0x06 else fs_flags fs_csum_example)"
proof (rule set_gdt_csum_correct)
  have "desc_whole fs_csum_example g" if "g < 3" for g
  proof -
    have "unat g < 16" using that by (simp add: word_less_nat_alt)
    then show ?thesis by (simp add: desc_whole_def fs_csum_example_def fs_example_def EXT2_DESC_SIZE_def ext2fs_has_feature_64bit_def)
  qed
  moreover have "desc_table_ok fs_csum_example"
    by (simp add: desc_table_ok_def fs_csum_example_def fs_example_def EXT2_BLOCK_SIZE_def EXT2_DESC_SIZE_def ext2fs_has_feature_64bit_def)
  moreover have "ext2fs_has_group_desc_csum fs_csum_example"
    by (simp add: ext2fs_has_group_desc_csum_def fs_csum_example_def ext2fs_has_feature_metadata_csum_def)
  moreover have "fs_group_desc_count fs_csum_example = 3" "length (s_uuid (fs_super fs_csum_example)) = 16"
    "unat (s_inodes_per_group (fs_super fs_csum_example)) = 8" by (simp_all add: fs_csum_example_def fs_example_def)
  ultimately show "gdt_ready fs_csum_example" by (simp add: gdt_ready_def)
  show "gb_ok ba_ok (Bitmap64 ba_example)" using gb_example_ok(2) by (simp add: gb_plain_def)
qed

subsection \<open>Directory blocks verify\<close>

text \<open>The walk ends inside the block and stays the same if the bytes it reads stay the same.\<close>

lemma dirent_walk_total:
  assumes "tail + 12 \<le> length dirent"
  shows "\<exists>r. dirent_walk dirent tail d = Some r"
proof (induction "tail - d" arbitrary: d rule: less_induct)
  case less
  show ?case
  proof (cases "d < tail")
    case True
    obtain w where w: "get16 dirent (d + 4) = Some w" using get_inside(1) [of "d + 4" dirent] True assms by auto
    show ?thesis
    proof (cases "unat w < 8 \<or> w AND 3 \<noteq> 0")
      case False
      then have "0 < unat w" by linarith
      then have "tail - (d + unat w) < tail - d" using True by linarith
      from less.hyps [OF this] obtain r where "dirent_walk dirent tail (d + unat w) = Some r" by blast
      with True w False show ?thesis by (subst dirent_walk.simps) simp
    qed (subst dirent_walk.simps, use True w in auto)
  qed (subst dirent_walk.simps, simp)
qed

lemma dirent_walk_cong:
  assumes "\<And>j. j + 2 \<le> tail + 8 \<Longrightarrow> get16 dirent' j = get16 dirent j"
  shows "dirent_walk dirent' tail d = dirent_walk dirent tail d"
proof (induction "tail - d" arbitrary: d rule: less_induct)
  case less
  show ?case
  proof (cases "d < tail")
    case True
    then have "get16 dirent' (d + 4) = get16 dirent (d + 4)" by (intro assms) simp
    moreover have "dirent_walk dirent' tail (d + unat w) = dirent_walk dirent tail (d + unat w)" if "\<not> unat w < 8" for w :: u16
      by (rule less.hyps) (use True that in simp)
    ultimately show ?thesis by (cases "get16 dirent (d + 4)"; subst (1 2) dirent_walk.simps) auto
  qed (subst (1 2) dirent_walk.simps, simp)
qed

definition dir_block_ok :: "filsys \<Rightarrow> u8 list \<Rightarrow> bool" where
  "dir_block_ok fs dirent \<longleftrightarrow> length dirent = unat (fs_blocksize fs) \<and> 1024 \<le> length dirent"

lemma dirent_tail_total:
  assumes "dir_block_ok fs dirent"
  shows "\<exists>r. get_dirent_tail fs dirent = Some r \<and> (\<forall>t. r = Inr t \<longrightarrow> t + 12 = length dirent)"
proof -
  let ?t = "length dirent - 12"
  obtain r where r: "dirent_walk dirent ?t 0 = Some r" using dirent_walk_total [of ?t dirent 0] assms by (auto simp: dir_block_ok_def)
  obtain a b c where "get32 dirent ?t = Some a" "get16 dirent (?t + 4) = Some b" "get16 dirent (?t + 6) = Some c"
    using get_inside(2) [of ?t dirent] get_inside(1) [of "?t + 4" dirent] get_inside(1) [of "?t + 6" dirent] assms
    by (auto simp: dir_block_ok_def)
  with r assms show ?thesis
    by (cases r) (auto simp: get_dirent_tail_def dir_block_ok_def Let_def)
qed

lemma dirent_tail_cong:
  assumes ok: "dir_block_ok fs dirent" "dir_block_ok fs dirent'"
    and same: "\<And>j. j + 2 \<le> length dirent - 4 \<Longrightarrow> get16 dirent' j = get16 dirent j" "\<And>j. j + 4 \<le> length dirent - 4 \<Longrightarrow> get32 dirent' j = get32 dirent j"
  shows "get_dirent_tail fs dirent' = get_dirent_tail fs dirent"
proof -
  have bs: "unat (fs_blocksize fs) = length dirent" "1024 \<le> length dirent" using ok(1) by (simp_all add: dir_block_ok_def)
  have "dirent_walk dirent' (length dirent - 12) 0 = dirent_walk dirent (length dirent - 12) 0"
    by (rule dirent_walk_cong) (use same(1) bs in simp)
  moreover have "get32 dirent' (length dirent - 12) = get32 dirent (length dirent - 12)"
    "get16 dirent' (length dirent - 12 + 4) = get16 dirent (length dirent - 12 + 4)"
    "get16 dirent' (length dirent - 12 + 6) = get16 dirent (length dirent - 12 + 6)"
    using same(1) [of "length dirent - 12 + 4"] same(1) [of "length dirent - 12 + 6"] same(2) [of "length dirent - 12"] bs(2) by simp_all
  ultimately show ?thesis
    unfolding get_dirent_tail_def Let_def bs(1)
    by (cases "dirent_walk dirent (length dirent - 12) 0") (auto split: sum.split)
qed

lemma dirent_csum_roundtrip:
  assumes ok: "dir_block_ok fs dirent" and gen: "read_inode inum = Inr gen" and t: "get_dirent_tail fs dirent = Some (Inr t)"
  shows "\<exists>dirent'. ext2fs_dirent_csum_set adr read_inode fs inum dirent = Some (E_OK, dirent') \<and> length dirent' = length dirent
    \<and> get_dirent_tail fs dirent' = Some (Inr t) \<and> ext2fs_dirent_csum_verify adr read_inode fs inum dirent' = Some True"
proof -
  have tl: "t + 12 = length dirent" using dirent_tail_total [OF ok] t by auto
  obtain s where s: "inode_csum_seed adr fs inum gen = Some s" using inode_csum_seed_total by blast
  obtain c where c: "ext2fs_crc32c_le adr s dirent t = Some c" using crc32c_total [of t dirent] tl by auto
  have "t + 8 + 4 \<le> length dirent" using tl by simp
  from put32_facts [OF this, of c] obtain d' where d': "put32 dirent (t + 8) c = Some d'" "length d' = length dirent"
    "get32 d' (t + 8) = Some c" "take t d' = take t dirent" "\<forall>j. j + 2 \<le> t + 8 \<longrightarrow> get16 d' j = get16 dirent j"
    "\<forall>j. j + 4 \<le> t + 8 \<longrightarrow> get32 d' j = get32 dirent j" by auto
  have "ext2fs_crc32c_le adr s d' t = Some c" using c crc32c_cong [of t d' dirent] d'(2,4) tl by simp
  moreover have "length dirent - 4 = t + 8" using tl by simp
  then have t': "get_dirent_tail fs d' = Some (Inr t)"
    using dirent_tail_cong [OF ok, of d'] d' ok t by (simp add: dir_block_ok_def)
  ultimately show ?thesis using t s c gen d'(1-3)
    by (intro exI [of _ d']) (simp add: ext2fs_dirent_csum_set_def ext2fs_dirent_csum_verify_def ext2fs_dirent_csum_def)
qed

lemma dx_countlimitD:
  assumes "get_dx_countlimit fs dirent = Some (Inr off)"
  shows "dx_count_offset fs dirent = Some (Inr off)" "\<exists>limit. get16 dirent off = Some limit" "\<exists>count. get16 dirent (off + 2) = Some count"
proof -
  from assms obtain r where r: "dx_count_offset fs dirent = Some r" by (cases "dx_count_offset fs dirent") (auto simp: get_dx_countlimit_def)
  with assms obtain off' where o: "r = Inr off'" by (cases r) (auto simp: get_dx_countlimit_def)
  with assms r obtain limit count where lc: "get16 dirent off' = Some limit" "get16 dirent (off' + 2) = Some count"
    by (cases "get16 dirent off'"; cases "get16 dirent (off' + 2)") (auto simp: get_dx_countlimit_def)
  with assms r o have "off' = off" by (simp add: get_dx_countlimit_def Let_def split: if_splits)
  with r o lc show "dx_count_offset fs dirent = Some (Inr off)" "\<exists>limit. get16 dirent off = Some limit" "\<exists>count. get16 dirent (off + 2) = Some count"
    by simp_all
qed

text \<open>The two forms of an index block.\<close>

lemma dx_count_offset_cases:
  assumes "dx_count_offset fs dirent = Some (Inr off)"
  shows "(\<exists>rl. off = 8 \<and> get16 dirent 4 = Some rl \<and> unat rl = unat (fs_blocksize fs) \<and> get16 dirent 6 = Some 0)
    \<or> (\<exists>rl nl. off = 32 \<and> get16 dirent 4 = Some 12 \<and> get16 dirent 6 = Some nl \<and> \<not> (unat (fs_blocksize fs) = 12 \<and> nl = 0) \<and> get16 dirent 16 = Some rl \<and> unat rl = unat (fs_blocksize fs - 12)
        \<and> get32 dirent 24 = Some 0 \<and> c_load dirent 29 = Some 8)"
proof -
  from assms obtain rl nl where g: "get16 dirent 4 = Some rl" "get16 dirent 6 = Some nl"
    by (cases "get16 dirent 4"; cases "get16 dirent 6") (auto simp: dx_count_offset_def)
  show ?thesis
  proof (cases "unat rl = unat (fs_blocksize fs) \<and> nl = 0")
    case True
    with assms g show ?thesis by (simp add: dx_count_offset_def)
  next
    case False
    with assms g have rl: "rl = 12" by (simp add: dx_count_offset_def split: if_splits)
    with assms g False obtain r2 where r2: "get16 dirent 16 = Some r2" "unat r2 = unat (fs_blocksize fs - 12)"
      by (cases "get16 dirent 16") (auto simp: dx_count_offset_def split: if_splits)
    with assms g False rl show ?thesis
      by (cases "get32 dirent 24"; cases "c_load dirent 29") (auto simp: dx_count_offset_def split: if_splits)
  qed
qed

text \<open>An index block has no tail of its own: its entries span the block.\<close>

lemma dx_no_tail:
  assumes dx: "get_dx_countlimit fs dirent = Some (Inr off)"
  shows "\<exists>e. get_dirent_tail fs dirent = Some (Inl e)"
proof (cases "unat (fs_blocksize fs) < 1024")
  case False
  let ?bs = "unat (fs_blocksize fs)"
  have ends: "\<exists>e. get_dirent_tail fs dirent = Some (Inl e)"
    if "dirent_walk dirent (?bs - 12) 0 = Some (Inl EXT2_ET_DIR_CORRUPTED) \<or> dirent_walk dirent (?bs - 12) 0 = Some (Inr ?bs)"
    using that False by (auto simp: get_dirent_tail_def Let_def)
  have last: "dirent_walk dirent (?bs - 12) ?bs = Some (Inr ?bs)"
  proof -
    have "\<not> ?bs < ?bs - 12" by linarith
    then show ?thesis by (subst dirent_walk.simps) simp
  qed
  from dx_count_offset_cases [OF dx_countlimitD(1) [OF dx]] show ?thesis
  proof (elim disjE exE conjE)
    fix rl
    assume "get16 dirent 4 = Some rl" "unat rl = ?bs"
    with False last show ?thesis by (intro ends) (subst (1 2) dirent_walk.simps, auto)
  next
    fix rl :: u16
    assume g: "get16 dirent 4 = Some 12" and r: "get16 dirent 16 = Some rl" "unat rl = unat (fs_blocksize fs - 12)"
    have "unat (fs_blocksize fs - 12) = ?bs - 12" using False by (subst unat_sub) (simp_all add: word_le_nat_alt)
    with r False last have "dirent_walk dirent (?bs - 12) 12 = Some (Inl EXT2_ET_DIR_CORRUPTED)
        \<or> dirent_walk dirent (?bs - 12) 12 = Some (Inr ?bs)"
      by (subst (1 2) dirent_walk.simps) auto
    moreover have "dirent_walk dirent (?bs - 12) 0 = dirent_walk dirent (?bs - 12) 12"
      using False g by (subst dirent_walk.simps) simp
    ultimately show ?thesis by (intro ends) simp
  qed
qed (simp add: get_dirent_tail_def)

text \<open>Reads depend on the bytes up to where they end.\<close>

lemma same_prefix_get:
  assumes "take n buf' = take n buf" "length buf' = length buf" "j + m \<le> n"
  shows "c_get buf' j m = c_get buf j m"
proof -
  have "take m (drop j b) = take m (drop j (take n b))" for b :: "'a list" using assms(3) by (simp add: drop_take min_def)
  with assms show ?thesis unfolding c_get_def by metis
qed

lemma same_prefix:
  assumes "take n buf' = take n buf" "length buf' = length buf"
  shows "j + 2 \<le> n \<Longrightarrow> get16 buf' j = get16 buf j" "j + 4 \<le> n \<Longrightarrow> get32 buf' j = get32 buf j" "j < n \<Longrightarrow> c_load buf' j = c_load buf j"
proof -
  show "j + 2 \<le> n \<Longrightarrow> get16 buf' j = get16 buf j" "j + 4 \<le> n \<Longrightarrow> get32 buf' j = get32 buf j"
    using same_prefix_get [OF assms] by (simp_all add: get16_def get32_def)
  assume "j < n"
  then have "take n buf' ! j = buf' ! j" "take n buf ! j = buf ! j" by simp_all
  with assms show "c_load buf' j = c_load buf j" by (simp add: c_load_def)
qed

lemma dx_countlimit_cong:
  assumes dx: "get_dx_countlimit fs dirent = Some (Inr off)"
    and same: "take (off + 4) dirent' = take (off + 4) dirent" "length dirent' = length dirent"
  shows "get_dx_countlimit fs dirent' = Some (Inr off)"
proof -
  note p = same_prefix [OF same] and c = dx_countlimitD [OF dx]
  from dx_count_offset_cases [OF c(1)] have "dx_count_offset fs dirent' = Some (Inr off)"
    by (elim disjE exE conjE) (simp_all add: dx_count_offset_def p)
  with dx c p show ?thesis by (auto simp: get_dx_countlimit_def)
qed

lemma dx_countlimit_total:
  assumes "dir_block_ok fs dirent"
  shows "\<exists>r. get_dx_countlimit fs dirent = Some r"
proof -
  have g: "\<exists>v. get16 dirent i = Some v" "\<exists>v. get32 dirent i = Some v" "\<exists>v. c_load dirent i = Some v" if "i \<le> 34" for i
    using that assms by (auto simp: dir_block_ok_def get16_def get32_def c_get_def c_load_def)
  have "\<exists>r. dx_count_offset fs dirent = Some r"
    using g(1) [of 4] g(1) [of 6] g(1) [of 16] g(2) [of 24] g(3) [of 29] by (auto simp: dx_count_offset_def)
  then obtain r where r: "dx_count_offset fs dirent = Some r" by blast
  show ?thesis
  proof (cases r)
    case (Inr off)
    with dx_count_offset_cases [of fs dirent off] r have "off = 8 \<or> off = 32" by auto
    then obtain a b where "get16 dirent off = Some a" "get16 dirent (off + 2) = Some b" using g(1) [of off] g(1) [of "off + 2"] by auto
    with r Inr show ?thesis by (simp add: get_dx_countlimit_def Let_def)
  qed (simp add: get_dx_countlimit_def r)
qed

text \<open>The index block that has no more entries than its limit.\<close>

definition dx_entries_ok :: "filsys \<Rightarrow> u8 list \<Rightarrow> bool" where
  "dx_entries_ok fs dirent \<longleftrightarrow>
     (\<forall>off limit count. get_dx_countlimit fs dirent = Some (Inr off) \<and> get16 dirent off = Some limit
        \<and> get16 dirent (off + 2) = Some count \<longrightarrow> count \<le> limit)"

lemma dx_csum_roundtrip:
  assumes ok: "dir_block_ok fs dirent" and gen: "read_inode inum = Inr gen" and dx: "get_dx_countlimit fs dirent = Some (Inr off)"
    and entries: "dx_entries_ok fs dirent"
  shows "\<exists>e dirent'. ext2fs_dx_csum_set adr read_inode fs inum dirent = Some (e, dirent') \<and> length dirent' = length dirent
    \<and> (if e = E_OK then get_dx_countlimit fs dirent' = Some (Inr off) \<and> ext2fs_dx_csum_verify adr read_inode fs inum dirent' = Some True
       else dirent' = dirent)"
proof -
  obtain limit count where lc: "get16 dirent off = Some limit" "get16 dirent (off + 2) = Some count" using dx_countlimitD [OF dx] by blast
  have le: "unat count \<le> unat limit" using entries dx lc by (auto simp: dx_entries_ok_def word_le_nat_alt)
  have bs: "unat (fs_blocksize fs) = length dirent" "1024 \<le> length dirent" using ok by (simp_all add: dir_block_ok_def)
  have bs8: "unat (ucast (fs_blocksize fs) - 8 :: u64) = length dirent - 8"
    using bs by (subst unat_sub) (simp_all add: word_le_nat_alt)
  let ?t = "off + 8 * unat limit" and ?sz = "off + unat count * 8"
  show ?thesis
  proof (cases "off + unat limit * 8 > length dirent - 8")
    case True
    with dx lc bs8 show ?thesis by (simp add: ext2fs_dx_csum_set_def ext2fs_dx_csum_def)
  next
    case False
    then have fit: "?t + 8 \<le> length dirent" using bs(2) by simp
    have "?sz \<le> ?t" using le by simp
    obtain s where s: "inode_csum_seed adr fs inum gen = Some s" using inode_csum_seed_total by blast
    obtain c1 where c1: "ext2fs_crc32c_le adr s dirent ?sz = Some c1" using crc32c_total [of ?sz dirent] fit \<open>?sz \<le> ?t\<close> by auto
    obtain tl where tl: "c_get dirent ?t 4 = Some tl" "length tl = 4" using fit by (simp add: c_get_def)
    obtain c2 where c2: "ext2fs_crc32c_le adr c1 tl 4 = Some c2" using crc32c_total [of 4 tl] tl by auto
    obtain c where c: "ext2fs_crc32c_le adr c2 (le32 0) 4 = Some c" using crc32c_total [of 4 "le32 0"] by auto
    have "?t + 4 + 4 \<le> length dirent" using fit by simp
    from put32_facts [OF this, of c] obtain d' where d': "put32 dirent (?t + 4) c = Some d'" "length d' = length dirent"
      "get32 d' (?t + 4) = Some c" "\<forall>n \<le> ?t + 4. take n d' = take n dirent" by auto
    have dx': "get_dx_countlimit fs d' = Some (Inr off)"
      by (rule dx_countlimit_cong [OF dx _ d'(2)]) (use d'(4) in simp)
    have "take (?t + 4) d' = take (?t + 4) dirent" using d'(4) by simp
    from same_prefix [OF this d'(2)] same_prefix_get [OF this d'(2), of ?t 4]
    have lc': "get16 d' off = Some limit" "get16 d' (off + 2) = Some count" "c_get d' ?t 4 = Some tl"
      using lc tl by (cases "unat limit = 0"; simp)+
    have "ext2fs_crc32c_le adr s d' ?sz = Some c1"
      using c1 crc32c_cong [of ?sz d' dirent] d'(2,4) fit \<open>?sz \<le> ?t\<close> by simp
    with False dx dx' lc lc' bs8 gen s c1 tl(1) c2 c d'(1-3) show ?thesis
      by (simp add: ext2fs_dx_csum_set_def ext2fs_dx_csum_verify_def ext2fs_dx_csum_def Let_def)
  qed
qed

text \<open>The checksum of an index block with any count: the entries that the count claims lie in the block.\<close>

lemma dx_csum_total:
  assumes ok: "dir_block_ok fs dirent" and dx: "get_dx_countlimit fs dirent = Some (Inr off)"
  shows "\<exists>e dirent'. ext2fs_dx_csum_set adr read_inode fs inum dirent = Some (e, dirent') \<and> length dirent' = length dirent \<and> (e \<noteq> E_OK \<longrightarrow> dirent' = dirent)
    \<and> (\<forall>limit gen. get16 dirent off = Some limit \<and> off + 8 * unat limit + 8 \<le> length dirent \<and> read_inode inum = Inr gen \<longrightarrow> e = E_OK)
    \<and> (\<forall>e'. read_inode inum = Inl e' \<and> e' \<noteq> E_OK \<longrightarrow> e \<noteq> E_OK)"
proof -
  obtain limit count where lc: "get16 dirent off = Some limit" "get16 dirent (off + 2) = Some count" using dx_countlimitD [OF dx] by blast
  have bs: "unat (fs_blocksize fs) = length dirent" "1024 \<le> length dirent" using ok by (simp_all add: dir_block_ok_def)
  have bs8: "unat (ucast (fs_blocksize fs) - 8 :: u64) = length dirent - 8"
    using bs by (subst unat_sub) (simp_all add: word_le_nat_alt)
  have off: "off \<le> 32" using dx_count_offset_cases [OF dx_countlimitD(1) [OF dx]] by auto
  then have "unat (of_nat off :: u32) = off" by (intro unat_of_nat_u32) simp
  then have "unat (fs_blocksize fs - of_nat off) = length dirent - off" using off bs by (subst unat_sub) (simp_all add: word_le_nat_alt)
  moreover have "unat count \<le> unat (fs_blocksize fs - of_nat off) div 8"
    using dx lc dx_countlimitD(1) [OF dx] by (simp add: get_dx_countlimit_def Let_def split: if_splits)
  ultimately have "unat count \<le> (length dirent - off) div 8" by simp
  then have sz: "off + unat count * 8 \<le> length dirent" using off bs(2) by linarith
  let ?t = "off + 8 * unat limit"
  show ?thesis
  proof (cases "off + unat limit * 8 > length dirent - 8")
    case True
    then have "\<not> off + 8 * unat limit + 8 \<le> length dirent" using bs(2) by linarith
    with True dx lc bs8 show ?thesis by (simp add: ext2fs_dx_csum_set_def ext2fs_dx_csum_def)
  next
    case False
    then have fit: "?t + 8 \<le> length dirent" using bs(2) by simp
    show ?thesis
    proof (cases "read_inode inum")
      case (Inl e')
      with False dx lc bs8 show ?thesis by (simp add: ext2fs_dx_csum_set_def ext2fs_dx_csum_def Let_def)
    next
      case (Inr gen)
      obtain s where s: "inode_csum_seed adr fs inum gen = Some s" using inode_csum_seed_total by blast
      obtain c1 where c1: "ext2fs_crc32c_le adr s dirent (off + unat count * 8) = Some c1" using crc32c_total [OF sz] by blast
      obtain tl where tl: "c_get dirent ?t 4 = Some tl" "length tl = 4" using fit by (simp add: c_get_def)
      obtain c2 where c2: "ext2fs_crc32c_le adr c1 tl 4 = Some c2" using crc32c_total [of 4 tl] tl by auto
      obtain c where c: "ext2fs_crc32c_le adr c2 (le32 0) 4 = Some c" using crc32c_total [of 4 "le32 0"] by auto
      have "?t + 4 + 4 \<le> length dirent" using fit by simp
      from put32_facts [OF this, of c] obtain d' where "put32 dirent (?t + 4) c = Some d'" "length d' = length dirent" by auto
      with False dx lc bs8 Inr s c1 tl(1) c2 c show ?thesis by (simp add: ext2fs_dx_csum_set_def ext2fs_dx_csum_def Let_def)
    qed
  qed
qed

text \<open>
  (C38) Setting the checksum of a directory block, whether a block of entries or an index block, never leaves
  the block, whatever the block holds. When it reports an error (that of reading the inode, or that there is no room for a
  checksum) the block is unchanged. When it reports success the block verifies, unless errors are ignored on request
  or the block is an index block whose count of entries is greater than its limit: then the checksum covers the field it is stored
  in.
\<close>

theorem dir_block_csum_roundtrip:
  assumes ok: "dir_block_ok fs dirent" and io: "read_inode inum \<noteq> Inl E_OK"
  shows "\<exists>e dirent'. ext2fs_dir_block_csum_set adr read_inode fs inum dirent = Some (e, dirent') \<and> length dirent' = length dirent
    \<and> (e \<noteq> E_OK \<longrightarrow> dirent' = dirent)
    \<and> (e = E_OK \<and> fs_flags fs AND 0x200000 = 0 \<and> dx_entries_ok fs dirent \<longrightarrow> ext2fs_dir_block_csum_verify adr read_inode fs inum dirent' = Some True)"
proof (cases "ext2fs_has_feature_metadata_csum (fs_super fs)")
  case True
  obtain r where r: "get_dirent_tail fs dirent = Some r" using dirent_tail_total [OF ok] by blast
  show ?thesis
  proof (cases r)
    case t: (Inr t)
    show ?thesis
    proof (cases "read_inode inum")
      case (Inr gen)
      from dirent_csum_roundtrip [where read_inode = read_inode and inum = inum and adr = adr, OF ok Inr] r t obtain d' where
        "ext2fs_dirent_csum_set adr read_inode fs inum dirent = Some (E_OK, d')" "length d' = length dirent"
        "get_dirent_tail fs d' = Some (Inr t)" "ext2fs_dirent_csum_verify adr read_inode fs inum d' = Some True" by auto
      with True r t show ?thesis by (simp add: ext2fs_dir_block_csum_set_def ext2fs_dir_block_csum_verify_def)
    next
      case (Inl e)
      with True r t io show ?thesis by (simp add: ext2fs_dir_block_csum_set_def ext2fs_dirent_csum_set_def ext2fs_dirent_csum_def)
    qed
  next
    case (Inl e)
    obtain q where q: "get_dx_countlimit fs dirent = Some q" using dx_countlimit_total [OF ok] by blast
    show ?thesis
    proof (cases q)
      case off: (Inr off)
      from dx_csum_total [OF ok, of off adr read_inode inum] q off obtain e' d' where
        d': "ext2fs_dx_csum_set adr read_inode fs inum dirent = Some (e', d')" "length d' = length dirent" "e' \<noteq> E_OK \<longrightarrow> d' = dirent"
          "\<forall>e. read_inode inum = Inl e \<and> e \<noteq> E_OK \<longrightarrow> e' \<noteq> E_OK" by blast
      have "ext2fs_dir_block_csum_verify adr read_inode fs inum d' = Some True" if "e' = E_OK" "dx_entries_ok fs dirent"
      proof -
        from that(1) d'(4) io obtain gen where gen: "read_inode inum = Inr gen" by (cases "read_inode inum") auto
        from dx_csum_roundtrip [where read_inode = read_inode and inum = inum and adr = adr, OF ok gen _ that(2)] q off d'(1) that(1) have
          v: "get_dx_countlimit fs d' = Some (Inr off)" "ext2fs_dx_csum_verify adr read_inode fs inum d' = Some True" by auto
        with dx_no_tail [OF v(1)] True show ?thesis by (auto simp: ext2fs_dir_block_csum_verify_def)
      qed
      with d'(1-3) True r Inl q off show ?thesis by (auto simp: ext2fs_dir_block_csum_set_def)
    next
      case (Inl e')
      with True r \<open>r = Inl e\<close> q show ?thesis by (simp add: ext2fs_dir_block_csum_set_def)
    qed
  qed
qed (simp add: ext2fs_dir_block_csum_set_def ext2fs_dir_block_csum_verify_def)

text \<open>A block with one entry that is not in use and a tail, and an index block with one entry.\<close>

definition tail_block :: "u8 list" where
  "tail_block = le32 0 @ le16 1012 @ replicate 1006 0 @ le32 0 @ [12, 0, 0, 0xDE] @ le32 0"

definition index_block :: "u8 list" where
  "index_block = le32 0 @ le16 1024 @ le16 0 @ le16 126 @ le16 1 @ replicate 1012 0"

lemma csum_example_fs: "fs_blocksize fs_csum_example = 1024" "ext2fs_has_feature_metadata_csum (fs_super fs_csum_example)"
  "fs_flags fs_csum_example AND 0x200000 = 0"
  by (simp_all add: fs_csum_example_def fs_example_def ext2fs_has_feature_metadata_csum_def)

lemma tail_block_facts: "dir_block_ok fs_csum_example tail_block" "get_dirent_tail fs_csum_example tail_block = Some (Inr 1012)"
  "dx_entries_ok fs_csum_example tail_block"
proof -
  show "dir_block_ok fs_csum_example tail_block" by (simp add: dir_block_ok_def csum_example_fs tail_block_def)
  have "get16 tail_block 4 = Some 1012" "get32 tail_block 1012 = Some 0" "get16 tail_block 1016 = Some 12" "get16 tail_block 1018 = Some 0xDE00"
    by (simp_all add: get16_nth get32_nth tail_block_def le32_def le16_def nth_append of_le16_def of_le32_def)
  note g = this
  have "dirent_walk tail_block 1012 0 = Some (Inr 1012)" using g(1) by (subst dirent_walk.simps) (simp add: dirent_walk.simps)
  with g(2-4) show t: "get_dirent_tail fs_csum_example tail_block = Some (Inr 1012)" by (simp add: get_dirent_tail_def csum_example_fs)
  show "dx_entries_ok fs_csum_example tail_block" unfolding dx_entries_ok_def using dx_no_tail [of fs_csum_example tail_block] t by auto
qed

lemma index_block_facts: "dir_block_ok fs_csum_example index_block" "get_dx_countlimit fs_csum_example index_block = Some (Inr 8)"
  "dx_entries_ok fs_csum_example index_block" "get16 index_block 8 = Some 126"
proof -
  show "dir_block_ok fs_csum_example index_block" by (simp add: dir_block_ok_def csum_example_fs index_block_def)
  have "get16 index_block 4 = Some 1024" "get16 index_block 6 = Some 0" "get16 index_block 8 = Some 126" "get16 index_block 10 = Some 1"
    by (simp_all add: get16_nth index_block_def le32_def le16_def nth_append of_le16_def)
  note g = this
  show "get16 index_block 8 = Some 126" by (rule g)
  show "get_dx_countlimit fs_csum_example index_block = Some (Inr 8)" using g by (simp add: get_dx_countlimit_def dx_count_offset_def csum_example_fs)
  with g show "dx_entries_ok fs_csum_example index_block" by (auto simp: dx_entries_ok_def)
qed

theorem dir_block_csum_roundtrip_witness:
  "(\<exists>d. ext2fs_dir_block_csum_set 0 (\<lambda>_. Inr 3) fs_csum_example 12 tail_block = Some (E_OK, d)
      \<and> ext2fs_dir_block_csum_verify 0 (\<lambda>_. Inr 3) fs_csum_example 12 d = Some True)
    \<and> (\<exists>d. ext2fs_dir_block_csum_set 0 (\<lambda>_. Inr 3) fs_csum_example 12 index_block = Some (E_OK, d)
      \<and> ext2fs_dir_block_csum_verify 0 (\<lambda>_. Inr 3) fs_csum_example 12 d = Some True)"
proof -
  have io: "(\<lambda>_ :: u32. Inr 3 :: errcode + u32) 12 \<noteq> Inl E_OK" "(\<lambda>_ :: u32. Inr 3 :: errcode + u32) 12 = Inr 3" by simp_all
  from dirent_csum_roundtrip [where read_inode = "\<lambda>_. Inr 3" and inum = 12 and adr = 0, OF tail_block_facts(1) io(2) tail_block_facts(2)] obtain a where
    "ext2fs_dir_block_csum_set 0 (\<lambda>_. Inr 3) fs_csum_example 12 tail_block = Some (E_OK, a)"
    by (auto simp: ext2fs_dir_block_csum_set_def csum_example_fs tail_block_facts(2))
  moreover obtain e d where ed: "ext2fs_dx_csum_set 0 (\<lambda>_. Inr 3) fs_csum_example 12 index_block = Some (e, d)" "e = E_OK"
    using dx_csum_total [OF index_block_facts(1,2), of 0 "\<lambda>_. Inr 3" 12] index_block_facts(4) by (auto simp: index_block_def)
  moreover obtain e' where "get_dirent_tail fs_csum_example index_block = Some (Inl e')" using dx_no_tail [OF index_block_facts(2)] by blast
  ultimately have "ext2fs_dir_block_csum_set 0 (\<lambda>_. Inr 3) fs_csum_example 12 tail_block = Some (E_OK, a)"
    "ext2fs_dir_block_csum_set 0 (\<lambda>_. Inr 3) fs_csum_example 12 index_block = Some (E_OK, d)"
    using index_block_facts(2) by (simp_all add: ext2fs_dir_block_csum_set_def csum_example_fs)
  moreover note dir_block_csum_roundtrip [where read_inode = "\<lambda>_. Inr 3" and inum = 12 and adr = 0, OF tail_block_facts(1) io(1)]
    dir_block_csum_roundtrip [where read_inode = "\<lambda>_. Inr 3" and inum = 12 and adr = 0, OF index_block_facts(1) io(1)]
  ultimately show ?thesis using csum_example_fs(3) tail_block_facts(3) index_block_facts(3) by auto
qed

subsection \<open>Checksums of bitmaps verify\<close>

text \<open>
  The checksum of an inode bitmap or a block bitmap that is stored in the descriptor of its group
  verifies for that bitmap, in descriptors with and without room for the high half, and the descriptions of
  all groups (locations, counters, flags) stay as they were.
\<close>

theorem bitmap_csum_roundtrip:
  assumes ok: "desc_table_ok fs" "g < fs_group_desc_count fs" and len: "sz \<le> length bitmap"
  shows "(\<exists>fs'. ext2fs_inode_bitmap_csum_set adr fs g bitmap sz = Some (E_OK, fs')
        \<and> ext2fs_inode_bitmap_csum_verify adr fs' g bitmap sz = Some True \<and> bg_views fs' = bg_views fs \<and> fs_super fs' = fs_super fs)
    \<and> (\<exists>fs'. ext2fs_block_bitmap_csum_set adr fs g bitmap sz = Some (E_OK, fs')
        \<and> ext2fs_block_bitmap_csum_verify adr fs' g bitmap sz = Some True \<and> bg_views fs' = bg_views fs \<and> fs_super fs' = fs_super fs)"
proof (cases "ext2fs_has_feature_metadata_csum (fs_super fs)")
  case True
  have i: "unat g < length (fs_group_desc fs)" using desc_table_index [OF ok] by simp
  obtain c where c: "ext2fs_crc32c_le adr (fs_csum_seed fs) bitmap sz = Some c" using crc32c_total [OF len] by blast
  let ?d = "fs_group_desc fs ! unat g"
  let ?st = "\<lambda>d. fs\<lparr>fs_group_desc := (fs_group_desc fs)[unat g := d]\<rparr>"
  have view: "bg_views (?st d) = bg_views fs" if "desc_view_of (fs_wide fs) d = desc_view_of (fs_wide fs) ?d" for d
    using i that by (simp add: bg_views_def map_update list_update_same_conv)
  have rd: "bg_read (?st d) g f = Some (f d)" for d and f :: "ext4_group_desc \<Rightarrow> u16" using ok i by (simp add: bg_read_eq)
  have wr: "bg_write (?st d) g f = Some (?st (f d))" for d f using ok i by (simp add: bg_write_eq)
  have wr0: "bg_write fs g f = Some (?st (f ?d))" for f using ok by (simp add: bg_write_eq)
  define d1 where "d1 = (let d = ?d\<lparr>bg_inode_bitmap_csum_lo := ucast (c AND 0xFFFF)\<rparr>
    in if EXT2_DESC_SIZE (fs_super fs) \<ge> 60 then d\<lparr>bg_inode_bitmap_csum_hi := ucast (drop_bit 16 c)\<rparr> else d)"
  define d2 where "d2 = (let d = ?d\<lparr>bg_block_bitmap_csum_lo := ucast (c AND 0xFFFF)\<rparr>
    in if EXT2_DESC_SIZE (fs_super fs) \<ge> 58 then d\<lparr>bg_block_bitmap_csum_hi := ucast (drop_bit 16 c)\<rparr> else d)"
  have s1: "ext2fs_inode_bitmap_csum_set adr fs g bitmap sz = Some (E_OK, ?st d1)"
    using True c by (simp add: ext2fs_inode_bitmap_csum_set_def wr0 wr d1_def Let_def)
  have s2: "ext2fs_block_bitmap_csum_set adr fs g bitmap sz = Some (E_OK, ?st d2)"
    using True c by (simp add: ext2fs_block_bitmap_csum_set_def wr0 wr d2_def Let_def)
  have v1: "ext2fs_inode_bitmap_csum_verify adr (?st d1) g bitmap sz = Some True"
    using True c by (simp add: ext2fs_inode_bitmap_csum_verify_def rd d1_def Let_def low_half both_halves)
  have v2: "ext2fs_block_bitmap_csum_verify adr (?st d2) g bitmap sz = Some True"
    using True c by (simp add: ext2fs_block_bitmap_csum_verify_def rd d2_def Let_def low_half both_halves)
  have "bg_views (?st d1) = bg_views fs" "bg_views (?st d2) = bg_views fs"
    by (rule view, simp add: d1_def d2_def Let_def desc_view_of_def)+
  with s1 s2 v1 v2 show ?thesis by auto
qed (simp add: ext2fs_inode_bitmap_csum_set_def ext2fs_inode_bitmap_csum_verify_def ext2fs_block_bitmap_csum_set_def
    ext2fs_block_bitmap_csum_verify_def)

theorem bitmap_csum_roundtrip_witness:
  "(\<exists>fs'. ext2fs_inode_bitmap_csum_set 0 fs_csum_example 1 [7, 0] 1 = Some (E_OK, fs')
        \<and> ext2fs_inode_bitmap_csum_verify 0 fs' 1 [7, 0] 1 = Some True \<and> bg_views fs' = bg_views fs_csum_example
        \<and> fs_super fs' = fs_super fs_csum_example)
    \<and> (\<exists>fs'. ext2fs_block_bitmap_csum_set 0 fs_csum_example 1 [7, 0] 1 = Some (E_OK, fs')
        \<and> ext2fs_block_bitmap_csum_verify 0 fs' 1 [7, 0] 1 = Some True \<and> bg_views fs' = bg_views fs_csum_example
        \<and> fs_super fs' = fs_super fs_csum_example)"
  by (rule bitmap_csum_roundtrip)
    (simp_all add: desc_table_ok_def fs_csum_example_def fs_example_def EXT2_BLOCK_SIZE_def EXT2_DESC_SIZE_def ext2fs_has_feature_64bit_def)

end
