(* ===== verification/Alloc_Stats.thy ===== *)
theory Alloc_Stats
  imports Csum
begin

unbundle bit_operations_syntax

text \<open>
  \<^verbatim>\<open>lib/ext2fs/alloc_stats.c\<close>: the accounting of allocations. Marking an inode or a block in use changes the
  bitmap, the counters of its group and of the superblock, the flags and the checksum of the group, and the
  dirty marks. \<open>inuse\<close> is a C integer. The functions that a client can install to be told of allocations are
  names in the state, and what they do is an argument of the operations; the diagnostics on the terminal
  are left out. \<open>al_gab\<close>, \<open>al_gab2\<close> and \<open>al_new_range\<close> stand for the functions that a client can install to
  allocate in its place.
\<close>

record ('p, 'f) alloc_state =
  al_fs :: filsys
  al_block_map :: "'p gbitmap"
  al_inode_map :: "'p gbitmap"
  al_block_cb :: "'f option"
  al_range_cb :: "'f option"
  al_gab :: "'f option"
  al_gab2 :: "'f option"
  al_new_range :: "'f option"

definition ext2fs_mark_block_bitmap2 :: "'p bitmap_ops \<Rightarrow> 'p gbitmap \<Rightarrow> u64 \<Rightarrow> (u32 \<times> 'p gbitmap) ub" where
  "ext2fs_mark_block_bitmap2 ops bitmap block = ext2fs_mark_generic_bmap ops bitmap block"

definition ext2fs_unmark_block_bitmap2 :: "'p bitmap_ops \<Rightarrow> 'p gbitmap \<Rightarrow> u64 \<Rightarrow> (u32 \<times> 'p gbitmap) ub" where
  "ext2fs_unmark_block_bitmap2 ops bitmap block = ext2fs_unmark_generic_bmap ops bitmap block"

text \<open>The update of a group descriptor when an inode changes hands.\<close>

definition inode_group_update :: "nat \<Rightarrow> filsys \<Rightarrow> u32 \<Rightarrow> u32 \<Rightarrow> int \<Rightarrow> bool \<Rightarrow> filsys ub" where
  "inode_group_update adr fs grp ino inuse isdir = do {
     n \<leftarrow> ext2fs_bg_free_inodes_count fs grp;
     fs \<leftarrow> ext2fs_bg_free_inodes_count_set fs grp (n - of_int inuse);
     fs \<leftarrow> (if isdir then do {
              d \<leftarrow> ext2fs_bg_used_dirs_count fs grp;
              ext2fs_bg_used_dirs_count_set fs grp (d + of_int inuse)
            } else Some fs);
     fs \<leftarrow> ext2fs_bg_flags_clear fs grp 0x0001;
     if ext2fs_has_group_desc_csum fs then do {
       let ipg = s_inodes_per_group (fs_super fs);
       unused \<leftarrow> ext2fs_bg_itable_unused fs grp;
       let first_unused_inode = ipg - unused + grp * ipg + 1;
       fs \<leftarrow> (if ino \<ge> first_unused_inode then ext2fs_bg_itable_unused_set fs grp (grp * ipg + ipg - ino) else Some fs);
       ext2fs_group_desc_csum_set adr fs grp
     }
     else Some fs
   }"

definition ext2fs_inode_alloc_stats2 ::
    "nat \<Rightarrow> 'p bitmap_ops \<Rightarrow> ('p, 'f) alloc_state \<Rightarrow> u32 \<Rightarrow> int \<Rightarrow> bool \<Rightarrow> ('p, 'f) alloc_state ub" where
  "ext2fs_inode_alloc_stats2 adr ops st ino inuse isdir = do {
     grp \<leftarrow> ext2fs_group_of_ino (al_fs st) ino;
     if ino > s_inodes_count (fs_super (al_fs st)) then Some st
     else do {
       (_, im) \<leftarrow> (if inuse > 0 then ext2fs_mark_inode_bitmap2 ops (al_inode_map st) ino
                  else ext2fs_unmark_inode_bitmap2 ops (al_inode_map st) ino);
       fs \<leftarrow> inode_group_update adr (al_fs st) grp ino inuse isdir;
       let fs = fs\<lparr>fs_super := (fs_super fs)\<lparr>s_free_inodes_count := s_free_inodes_count (fs_super fs) - of_int inuse\<rparr>\<rparr>;
       Some (st\<lparr>al_fs := ext2fs_mark_ib_dirty (ext2fs_mark_super_dirty fs), al_inode_map := im\<rparr>)
     }
   }"

definition ext2fs_inode_alloc_stats ::
    "nat \<Rightarrow> 'p bitmap_ops \<Rightarrow> ('p, 'f) alloc_state \<Rightarrow> u32 \<Rightarrow> int \<Rightarrow> ('p, 'f) alloc_state ub" where
  "ext2fs_inode_alloc_stats adr ops st ino inuse = ext2fs_inode_alloc_stats2 adr ops st ino inuse False"

text \<open>The update of a group descriptor when blocks change hands: the counter of free clusters goes down by \<open>delta\<close>.\<close>

definition block_group_update :: "nat \<Rightarrow> filsys \<Rightarrow> u32 \<Rightarrow> u64 \<Rightarrow> filsys ub" where
  "block_group_update adr fs grp delta = do {
     n \<leftarrow> ext2fs_bg_free_blocks_count fs grp;
     fs \<leftarrow> ext2fs_bg_free_blocks_count_set fs grp (ucast (ucast n - delta));
     fs \<leftarrow> ext2fs_bg_flags_clear fs grp 0x0002;
     ext2fs_group_desc_csum_set adr fs grp
   }"

definition fs_add_free :: "filsys \<Rightarrow> u64 \<Rightarrow> filsys" where
  "fs_add_free fs n = fs\<lparr>fs_super := ext2fs_free_blocks_count_add (fs_super fs) n\<rparr>"

text \<open>\<^verbatim>\<open>-inuse\<close> has no value for the least integer.\<close>

definition ext2fs_block_alloc_stats2 ::
    "nat \<Rightarrow> 'p bitmap_ops \<Rightarrow> ('f \<Rightarrow> u64 \<Rightarrow> int \<Rightarrow> ('p, 'f) alloc_state \<Rightarrow> ('p, 'f) alloc_state ub)
      \<Rightarrow> ('p, 'f) alloc_state \<Rightarrow> u64 \<Rightarrow> int \<Rightarrow> ('p, 'f) alloc_state ub" where
  "ext2fs_block_alloc_stats2 adr ops call st blk inuse = do {
     grp \<leftarrow> ext2fs_group_of_blk2 (al_fs st) blk;
     if blk \<ge> ext2fs_blocks_count (fs_super (al_fs st)) then Some st
     else do {
       (_, bm) \<leftarrow> (if inuse > 0 then ext2fs_mark_block_bitmap2 ops (al_block_map st) blk
                  else ext2fs_unmark_block_bitmap2 ops (al_block_map st) blk);
       fs \<leftarrow> block_group_update adr (al_fs st) grp (of_int inuse);
       ratio \<leftarrow> EXT2FS_CLUSTER_RATIO fs;
       if inuse = -2147483648 then None
       else do {
         let fs = fs_add_free fs (of_int (- inuse) * of_nat ratio);
         let st = st\<lparr>al_fs := ext2fs_mark_bb_dirty (ext2fs_mark_super_dirty fs), al_block_map := bm\<rparr>;
         case al_block_cb st of None \<Rightarrow> Some st | Some f \<Rightarrow> call f blk inuse st
       }
     }
   }"

definition ext2fs_block_alloc_stats ::
    "nat \<Rightarrow> 'p bitmap_ops \<Rightarrow> ('f \<Rightarrow> u64 \<Rightarrow> int \<Rightarrow> ('p, 'f) alloc_state \<Rightarrow> ('p, 'f) alloc_state ub)
      \<Rightarrow> ('p, 'f) alloc_state \<Rightarrow> u32 \<Rightarrow> int \<Rightarrow> ('p, 'f) alloc_state ub" where
  "ext2fs_block_alloc_stats adr ops call st blk inuse = ext2fs_block_alloc_stats2 adr ops call st (ucast blk) inuse"

text \<open>Installing a callback returns the one that was there.\<close>

definition ext2fs_set_block_alloc_stats_callback :: "('p, 'f) alloc_state \<Rightarrow> 'f option \<Rightarrow> 'f option option \<times> ('p, 'f) alloc_state" where
  "ext2fs_set_block_alloc_stats_callback st func =
     (if fs_magic (al_fs st) \<noteq> EXT2_ET_MAGIC_EXT2FS_FILSYS then (None, st)
      else (Some (al_block_cb st), st\<lparr>al_block_cb := func\<rparr>))"

definition ext2fs_set_block_alloc_stats_range_callback :: "('p, 'f) alloc_state \<Rightarrow> 'f option \<Rightarrow> 'f option option \<times> ('p, 'f) alloc_state" where
  "ext2fs_set_block_alloc_stats_range_callback st func =
     (if fs_magic (al_fs st) \<noteq> EXT2_ET_MAGIC_EXT2FS_FILSYS then (None, st)
      else (Some (al_range_cb st), st\<lparr>al_range_cb := func\<rparr>))"

text \<open>
  The loop over the groups of a run; it returns the last values of \<open>blk\<close> and \<open>num\<close>. The product
  \<^verbatim>\<open>inuse*n\<close> and the quotient are computed with 64 bits.
\<close>

partial_function (option) range_loop :: "nat \<Rightarrow> filsys \<Rightarrow> u64 \<Rightarrow> u32 \<Rightarrow> int \<Rightarrow> (filsys \<times> u64 \<times> u32) ub" where
  [code]: "range_loop adr fs blk num inuse =
     (if num = 0 then Some (fs, blk, num)
      else do {
        grp \<leftarrow> ext2fs_group_of_blk2 fs blk;
        let last_blk = ext2fs_group_last_block2 fs grp;
        let n = (if blk + ucast num > last_blk then last_blk - blk + 1 else ucast num);
        ratio \<leftarrow> EXT2FS_CLUSTER_RATIO fs;
        fs \<leftarrow> block_group_update adr fs grp (of_int inuse * n div of_nat ratio);
        let fs = fs_add_free fs (of_int (- inuse) * n);
        range_loop adr fs (blk + n) (ucast (ucast num - n)) inuse
      })"

definition ext2fs_block_alloc_stats_range ::
    "nat \<Rightarrow> 'p bitmap_ops \<Rightarrow> ('f \<Rightarrow> u64 \<Rightarrow> u32 \<Rightarrow> int \<Rightarrow> ('p, 'f) alloc_state \<Rightarrow> ('p, 'f) alloc_state ub)
      \<Rightarrow> ('p, 'f) alloc_state \<Rightarrow> u64 \<Rightarrow> u32 \<Rightarrow> int \<Rightarrow> ('p, 'f) alloc_state ub" where
  "ext2fs_block_alloc_stats_range adr ops call st blk num inuse =
     (if blk + ucast num > ext2fs_blocks_count (fs_super (al_fs st)) then Some st
      else if inuse = 0 then Some st
      else do {
        bm \<leftarrow> (if inuse > 0 then ext2fs_mark_block_bitmap_range2 ops (al_block_map st) blk num
               else ext2fs_unmark_block_bitmap_range2 ops (al_block_map st) blk num);
        let inuse = (if inuse > 0 then 1 else -1);
        (fs, blk, num) \<leftarrow> range_loop adr (al_fs st) blk num inuse;
        let st = st\<lparr>al_fs := ext2fs_mark_bb_dirty (ext2fs_mark_super_dirty fs), al_block_map := bm\<rparr>;
        case al_range_cb st of None \<Rightarrow> Some st | Some f \<Rightarrow> call f blk num inuse st
      })"

subsection \<open>Updates of one descriptor\<close>

text \<open>Reading and writing a field of a group whose descriptor has just become \<open>d\<close>.\<close>

abbreviation with_desc :: "filsys \<Rightarrow> u32 \<Rightarrow> ext4_group_desc \<Rightarrow> filsys" where
  "with_desc fs g d \<equiv> fs\<lparr>fs_group_desc := (fs_group_desc fs)[unat g := d]\<rparr>"

abbreviation desc_of :: "filsys \<Rightarrow> u32 \<Rightarrow> ext4_group_desc" where
  "desc_of fs g \<equiv> fs_group_desc fs ! unat g"

context desc_field
begin

lemma step_read:
  assumes "desc_table_ok fs" "g < fs_group_desc_count fs"
  shows "rd (with_desc fs g d) g = Some (sel (desc_view_of (fs_wide fs) d))"
  using assms desc_table_index [OF assms] by (simp add: rd_law bg_read_eq)

lemma step_write:
  assumes "desc_table_ok fs" "g < fs_group_desc_count fs"
  shows "wr (with_desc fs g d) g v = Some (with_desc fs g (code (fs_wide fs) v d))"
  using assms desc_table_index [OF assms] by (simp add: wr_law bg_write_eq)

lemmas start_read = step_read [of _ _ "desc_of _ _", unfolded list_update_id]
lemmas start_write = step_write [of _ _ "desc_of _ _", unfolded list_update_id]

end

text \<open>What all group operations need of the table: complete descriptors, and the bytes of the identifier.\<close>

definition alloc_table_ok :: "filsys \<Rightarrow> bool" where
  "alloc_table_ok fs \<longleftrightarrow> desc_table_ok fs \<and> length (s_uuid (fs_super fs)) = 16 \<and> (\<forall>g < fs_group_desc_count fs. desc_whole fs g)"

text \<open>The last step of every update: the checksum of the descriptor \<open>d\<close> is stored if there are checksums.\<close>

lemma csum_step:
  assumes ok: "alloc_table_ok fs" "g < fs_group_desc_count fs" and tail: "bg_tail d = bg_tail (desc_of fs g)"
  shows "\<exists>x. ext2fs_group_desc_csum_set adr (with_desc fs g d) g = Some (with_desc fs g x) \<and> bg_tail x = bg_tail d
    \<and> desc_view_of w x = (desc_view_of w d)\<lparr>v_checksum := v_checksum (desc_view_of w x)\<rparr>
    \<and> ext2fs_group_desc_csum_verify adr (with_desc fs g x) g = Some True"
proof (cases "ext2fs_has_group_desc_csum fs")
  case True
  have t: "desc_table_ok fs" "length (s_uuid (fs_super fs)) = 16" "desc_whole fs g" using ok by (simp_all add: alloc_table_ok_def)
  have i: "unat g < length (fs_group_desc fs)" using desc_table_index [OF t(1) ok(2)] by simp
  have "desc_whole (with_desc fs g d) g" using t(3) tail i by (simp add: desc_whole_def)
  moreover have "ext2fs_has_group_desc_csum (with_desc fs g d)" using True by (simp add: ext2fs_has_group_desc_csum_def)
  ultimately obtain c where "ext2fs_group_desc_csum_set adr (with_desc fs g d) g = Some (with_desc fs g (d\<lparr>bg_checksum := c\<rparr>))"
    "ext2fs_group_desc_csum_verify adr (with_desc fs g (d\<lparr>bg_checksum := c\<rparr>)) g = Some True"
    using group_desc_csum_set_run [of "with_desc fs g d" g adr] t ok(2) i by auto
  moreover have "desc_view_of w (d\<lparr>bg_checksum := c\<rparr>) = (desc_view_of w d)\<lparr>v_checksum := v_checksum (desc_view_of w (d\<lparr>bg_checksum := c\<rparr>))\<rparr>"
    by (simp add: desc_view_of_def)
  ultimately show ?thesis by (intro exI [of _ "d\<lparr>bg_checksum := c\<rparr>"]) simp
next
  case False
  then show ?thesis
    by (intro exI [of _ d]) (simp add: ext2fs_group_desc_csum_set_def ext2fs_group_desc_csum_verify_def ext2fs_has_group_desc_csum_def)
qed

text \<open>The counters of a descriptor.\<close>

definition set_free_inodes :: "bool \<Rightarrow> u32 \<Rightarrow> ext4_group_desc \<Rightarrow> ext4_group_desc" where
  "set_free_inodes w n gdp = (let gdp = gdp\<lparr>bg_free_inodes_count := ucast n\<rparr>
     in if w then gdp\<lparr>bg_free_inodes_count_hi := ucast (drop_bit 16 n)\<rparr> else gdp)"

definition set_used_dirs :: "bool \<Rightarrow> u32 \<Rightarrow> ext4_group_desc \<Rightarrow> ext4_group_desc" where
  "set_used_dirs w n gdp = (let gdp = gdp\<lparr>bg_used_dirs_count := ucast n\<rparr>
     in if w then gdp\<lparr>bg_used_dirs_count_hi := ucast (drop_bit 16 n)\<rparr> else gdp)"

definition set_free_blocks :: "bool \<Rightarrow> u32 \<Rightarrow> ext4_group_desc \<Rightarrow> ext4_group_desc" where
  "set_free_blocks w n gdp = (let gdp = gdp\<lparr>bg_free_blocks_count := ucast n\<rparr>
     in if w then gdp\<lparr>bg_free_blocks_count_hi := ucast (drop_bit 16 n)\<rparr> else gdp)"

definition clear_flags :: "u16 \<Rightarrow> ext4_group_desc \<Rightarrow> ext4_group_desc" where
  "clear_flags f d = d\<lparr>bg_flags := bg_flags d AND NOT f\<rparr>"

lemma set_views:
  "desc_view_of w (set_free_inodes w n d) = (desc_view_of w d)\<lparr>v_free_inodes := cut32 w n\<rparr>"
  "desc_view_of w (set_used_dirs w n d) = (desc_view_of w d)\<lparr>v_used_dirs := cut32 w n\<rparr>"
  "desc_view_of w (set_free_blocks w n d) = (desc_view_of w d)\<lparr>v_free_blocks := cut32 w n\<rparr>"
  "desc_view_of w (clear_flags f d) = (desc_view_of w d)\<lparr>v_flags := v_flags (desc_view_of w d) AND NOT f\<rparr>"
  "bg_tail (set_free_inodes w n d) = bg_tail d" "bg_tail (set_used_dirs w n d) = bg_tail d" "bg_tail (set_free_blocks w n d) = bg_tail d"
  "bg_tail (clear_flags f d) = bg_tail d"
  by (simp_all add: clear_flags_def set_free_inodes_def set_used_dirs_def set_free_blocks_def desc_field_defs)

lemma group_steps:
  assumes "desc_table_ok fs" "g < fs_group_desc_count fs"
  shows "ext2fs_bg_free_inodes_count_set (with_desc fs g d) g n = Some (with_desc fs g (set_free_inodes (fs_wide fs) n d))"
    "ext2fs_bg_used_dirs_count_set (with_desc fs g d) g n = Some (with_desc fs g (set_used_dirs (fs_wide fs) n d))"
    "ext2fs_bg_free_blocks_count_set (with_desc fs g d) g n = Some (with_desc fs g (set_free_blocks (fs_wide fs) n d))"
    "ext2fs_bg_itable_unused_set (with_desc fs g d) g n = Some (with_desc fs g (set_unused (fs_wide fs) n d))"
    "ext2fs_bg_flags_clear (with_desc fs g d) g f = Some (with_desc fs g (clear_flags f d))"
    "ext2fs_bg_free_inodes_count (with_desc fs g d) g = Some (v_free_inodes (desc_view_of (fs_wide fs) d))"
    "ext2fs_bg_used_dirs_count (with_desc fs g d) g = Some (v_used_dirs (desc_view_of (fs_wide fs) d))"
    "ext2fs_bg_free_blocks_count (with_desc fs g d) g = Some (v_free_blocks (desc_view_of (fs_wide fs) d))"
    "ext2fs_bg_itable_unused (with_desc fs g d) g = Some (v_itable_unused (desc_view_of (fs_wide fs) d))"
  using fi.step_write [OF assms] ud.step_write [OF assms] fb.step_write [OF assms] iu.step_write [OF assms] bc.step_write [OF assms]
    fi.step_read [OF assms] ud.step_read [OF assms] fb.step_read [OF assms] iu.step_read [OF assms]
  by (simp_all add: set_free_inodes_def set_used_dirs_def set_free_blocks_def set_unused_def clear_flags_def)

lemma inode_group_update_run:
  fixes fs :: filsys and g ino :: u32 and inuse :: int
  defines "w \<equiv> fs_wide fs" and "ipg \<equiv> s_inodes_per_group (fs_super fs)" and "v \<equiv> desc_view_of (fs_wide fs) (desc_of fs g)"
  assumes ok: "alloc_table_ok fs" "g < fs_group_desc_count fs"
  shows "\<exists>x. inode_group_update adr fs g ino inuse isdir = Some (with_desc fs g x) \<and> bg_tail x = bg_tail (desc_of fs g)
    \<and> desc_view_of w x = v\<lparr>v_free_inodes := cut32 w (v_free_inodes v - of_int inuse),
        v_used_dirs := (if isdir then cut32 w (v_used_dirs v + of_int inuse) else v_used_dirs v),
        v_flags := v_flags v AND NOT 1,
        v_itable_unused := (if ext2fs_has_group_desc_csum fs \<and> ino \<ge> ipg - v_itable_unused v + g * ipg + 1
          then cut32 w (g * ipg + ipg - ino) else v_itable_unused v),
        v_checksum := v_checksum (desc_view_of w x)\<rparr>
    \<and> ext2fs_group_desc_csum_verify adr (with_desc fs g x) g = Some True"
proof -
  have t: "desc_table_ok fs" using ok by (simp add: alloc_table_ok_def)
  note st = group_steps [OF t ok(2)]
  define d1 where "d1 = set_free_inodes w (v_free_inodes v - of_int inuse) (desc_of fs g)"
  define d2 where "d2 = (if isdir then set_used_dirs w (v_used_dirs v + of_int inuse) d1 else d1)"
  define d3 where "d3 = clear_flags 1 d2"
  define d4 where "d4 = (if ext2fs_has_group_desc_csum fs \<and> ino \<ge> ipg - v_itable_unused v + g * ipg + 1
      then set_unused w (g * ipg + ipg - ino) d3 else d3)"
  have v1: "desc_view_of w d1 = v\<lparr>v_free_inodes := cut32 w (v_free_inodes v - of_int inuse)\<rparr>"
    by (simp add: d1_def set_views v_def w_def)
  have v3: "desc_view_of w d3 = v\<lparr>v_free_inodes := cut32 w (v_free_inodes v - of_int inuse),
      v_used_dirs := (if isdir then cut32 w (v_used_dirs v + of_int inuse) else v_used_dirs v), v_flags := v_flags v AND NOT 1\<rparr>"
    by (simp add: d3_def d2_def set_views v1)
  have v4: "desc_view_of w d4 = v\<lparr>v_free_inodes := cut32 w (v_free_inodes v - of_int inuse),
      v_used_dirs := (if isdir then cut32 w (v_used_dirs v + of_int inuse) else v_used_dirs v), v_flags := v_flags v AND NOT 1,
      v_itable_unused := (if ext2fs_has_group_desc_csum fs \<and> ino \<ge> ipg - v_itable_unused v + g * ipg + 1
          then cut32 w (g * ipg + ipg - ino) else v_itable_unused v)\<rparr>"
    by (simp add: d4_def set_unused_view v3)
  have tail: "bg_tail d4 = bg_tail (desc_of fs g)" by (simp add: d4_def d3_def d2_def d1_def set_views set_unused_view)
  have csum: "ext2fs_has_group_desc_csum (with_desc fs g d) = ext2fs_has_group_desc_csum fs" for d
    by (simp add: ext2fs_has_group_desc_csum_def)
  obtain x where x: "ext2fs_group_desc_csum_set adr (with_desc fs g d4) g = Some (with_desc fs g x)" "bg_tail x = bg_tail d4"
    "desc_view_of w x = (desc_view_of w d4)\<lparr>v_checksum := v_checksum (desc_view_of w x)\<rparr>"
    "ext2fs_group_desc_csum_verify adr (with_desc fs g x) g = Some True" using csum_step [OF ok tail] by blast
  have "inode_group_update adr (with_desc fs g (desc_of fs g)) g ino inuse isdir = Some (with_desc fs g x)"
  proof -
    have s0: "ext2fs_bg_free_inodes_count (with_desc fs g (desc_of fs g)) g = Some (v_free_inodes v)" unfolding st v_def ..
    have s1: "ext2fs_bg_free_inodes_count_set (with_desc fs g (desc_of fs g)) g (v_free_inodes v - of_int inuse) = Some (with_desc fs g d1)"
      unfolding st d1_def w_def ..
    have s2: "(if isdir then do {
          d \<leftarrow> ext2fs_bg_used_dirs_count (with_desc fs g d1) g;
          ext2fs_bg_used_dirs_count_set (with_desc fs g d1) g (d + of_int inuse)
        } else Some (with_desc fs g d1)) = Some (with_desc fs g d2)"
      unfolding st w_def [symmetric] v1 d2_def by simp
    have s3: "ext2fs_bg_flags_clear (with_desc fs g d2) g 1 = Some (with_desc fs g d3)" unfolding st d3_def ..
    have s4: "ext2fs_bg_itable_unused (with_desc fs g d3) g = Some (v_itable_unused v)" unfolding st w_def [symmetric] v3 by simp
    have s5: "ext2fs_has_group_desc_csum fs \<Longrightarrow> (if ino \<ge> ipg - v_itable_unused v + g * ipg + 1
        then ext2fs_bg_itable_unused_set (with_desc fs g d3) g (g * ipg + ipg - ino) else Some (with_desc fs g d3)) = Some (with_desc fs g d4)"
      unfolding st d4_def w_def by simp
    have sup: "s_inodes_per_group (fs_super (with_desc fs g d3)) = ipg" by (simp add: ipg_def)
    have "inode_group_update adr (with_desc fs g (desc_of fs g)) g ino inuse isdir = (if ext2fs_has_group_desc_csum fs
        then ext2fs_group_desc_csum_set adr (with_desc fs g d4) g else Some (with_desc fs g d3))"
      unfolding inode_group_update_def s0 s1 s2 s3 s4 csum sup Option.bind.simps Let_def using s5 by (cases "ext2fs_has_group_desc_csum fs") simp_all
    moreover have "\<not> ext2fs_has_group_desc_csum fs \<Longrightarrow> d4 = d3" by (simp add: d4_def)
    ultimately show ?thesis using x(1) by (simp add: ext2fs_group_desc_csum_set_def csum split: if_splits)
  qed
  with x tail v4 show ?thesis by (intro exI [of _ x]) simp
qed

lemma inode_group_update_fields:
  fixes fs :: filsys and g ino :: u32
  defines "w \<equiv> fs_wide fs" and "ipg \<equiv> s_inodes_per_group (fs_super fs)" and "v \<equiv> desc_view_of (fs_wide fs) (desc_of fs g)"
  assumes ok: "alloc_table_ok fs" "g < fs_group_desc_count fs"
  shows "\<exists>x. inode_group_update adr fs g ino inuse isdir = Some (with_desc fs g x) \<and> bg_tail x = bg_tail (desc_of fs g)
    \<and> v_free_inodes (desc_view_of w x) = cut32 w (v_free_inodes v - of_int inuse)
    \<and> v_itable_unused (desc_view_of w x) = (if ext2fs_has_group_desc_csum fs \<and> ino \<ge> ipg - v_itable_unused v + g * ipg + 1
          then cut32 w (g * ipg + ipg - ino) else v_itable_unused v)
    \<and> ext2fs_group_desc_csum_verify adr (with_desc fs g x) g = Some True"
  using inode_group_update_run [OF ok, of adr ino inuse isdir, folded w_def ipg_def v_def]
  apply (elim exE conjE)
  subgoal premises p for x
    by (rule exI [of _ x], intro conjI p(1,2,4); subst p(3); simp add: v_def w_def)
  done

lemma block_group_update_run:
  fixes fs :: filsys and g :: u32
  defines "w \<equiv> fs_wide fs" and "v \<equiv> desc_view_of (fs_wide fs) (desc_of fs g)"
  assumes ok: "alloc_table_ok fs" "g < fs_group_desc_count fs"
  shows "\<exists>x. block_group_update adr fs g delta = Some (with_desc fs g x) \<and> bg_tail x = bg_tail (desc_of fs g)
    \<and> desc_view_of w x = v\<lparr>v_free_blocks := cut32 w (ucast (ucast (v_free_blocks v) - delta)), v_flags := v_flags v AND NOT 2,
        v_checksum := v_checksum (desc_view_of w x)\<rparr>
    \<and> ext2fs_group_desc_csum_verify adr (with_desc fs g x) g = Some True"
proof -
  have t: "desc_table_ok fs" using ok by (simp add: alloc_table_ok_def)
  note st = group_steps [OF t ok(2)]
  define d1 where "d1 = set_free_blocks w (ucast (ucast (v_free_blocks v) - delta)) (desc_of fs g)"
  define d2 where "d2 = clear_flags 2 d1"
  have v2: "desc_view_of w d2 = v\<lparr>v_free_blocks := cut32 w (ucast (ucast (v_free_blocks v) - delta)), v_flags := v_flags v AND NOT 2\<rparr>"
    by (simp add: d1_def d2_def set_views v_def w_def)
  have tail: "bg_tail d2 = bg_tail (desc_of fs g)" by (simp add: d2_def d1_def set_views)
  obtain x where x: "ext2fs_group_desc_csum_set adr (with_desc fs g d2) g = Some (with_desc fs g x)" "bg_tail x = bg_tail d2"
    "desc_view_of w x = (desc_view_of w d2)\<lparr>v_checksum := v_checksum (desc_view_of w x)\<rparr>"
    "ext2fs_group_desc_csum_verify adr (with_desc fs g x) g = Some True" using csum_step [OF ok tail] by blast
  have s0: "ext2fs_bg_free_blocks_count (with_desc fs g (desc_of fs g)) g = Some (v_free_blocks v)" unfolding st v_def ..
  have s1: "ext2fs_bg_free_blocks_count_set (with_desc fs g (desc_of fs g)) g (ucast (ucast (v_free_blocks v) - delta)) = Some (with_desc fs g d1)"
    unfolding st d1_def w_def ..
  have s2: "ext2fs_bg_flags_clear (with_desc fs g d1) g 2 = Some (with_desc fs g d2)" unfolding st d2_def ..
  have "block_group_update adr (with_desc fs g (desc_of fs g)) g delta = Some (with_desc fs g x)"
    unfolding block_group_update_def s0 s1 s2 x(1) Option.bind.simps ..
  with x tail v2 show ?thesis by (intro exI [of _ x]) simp
qed

subsection \<open>The books of the inodes\<close>

text \<open>
  The inodes of a group, and what the counters should say: every group and the superblock count the inodes
  that are not in use, and, with checksums, the inodes behind the recorded end of the inode table of a group
  are not in use.
\<close>

definition group_inodes :: "filsys \<Rightarrow> nat \<Rightarrow> nat set" where
  "group_inodes fs g = {i. g * unat (s_inodes_per_group (fs_super fs)) < i \<and> i \<le> (g + 1) * unat (s_inodes_per_group (fs_super fs))}"

definition count_free :: "u64 set \<Rightarrow> nat set \<Rightarrow> nat" where
  "count_free used S = card {i \<in> S. of_nat i \<notin> used}"

definition inode_geometry :: "filsys \<Rightarrow> bool" where
  "inode_geometry fs \<longleftrightarrow> alloc_table_ok fs \<and> 0 < unat (s_inodes_per_group (fs_super fs))
     \<and> unat (s_inodes_count (fs_super fs)) = unat (fs_group_desc_count fs) * unat (s_inodes_per_group (fs_super fs))
     \<and> unat (s_inodes_count (fs_super fs)) < 4294967295
     \<and> (fs_wide fs \<or> unat (s_inodes_per_group (fs_super fs)) < 65536)"

definition itable_end_ok :: "u64 set \<Rightarrow> nat \<Rightarrow> nat \<Rightarrow> nat \<Rightarrow> bool" where
  "itable_end_ok used ipg g unused \<longleftrightarrow> unused \<le> ipg \<and> (\<forall>k. ipg - unused \<le> k \<and> k < ipg \<longrightarrow> of_nat (g * ipg + 1 + k) \<notin> used)"

definition inode_books :: "u64 set \<Rightarrow> filsys \<Rightarrow> bool" where
  "inode_books used fs \<longleftrightarrow>
     (\<forall>g < unat (fs_group_desc_count fs). unat (v_free_inodes (bg_views fs ! g)) = count_free used (group_inodes fs g)
        \<and> (ext2fs_has_group_desc_csum fs \<longrightarrow>
             itable_end_ok used (unat (s_inodes_per_group (fs_super fs))) g (unat (v_itable_unused (bg_views fs ! g)))))
     \<and> unat (s_free_inodes_count (fs_super fs)) = count_free used {1..unat (s_inodes_count (fs_super fs))}"

text \<open>An element that changes sides changes the count by one.\<close>

definition toggle :: "'a \<Rightarrow> 'a set \<Rightarrow> 'a set" where
  "toggle x S = (if x \<in> S then S - {x} else insert x S)"

lemma count_free_toggle:
  assumes "finite S" "\<And>i. i \<in> S \<Longrightarrow> i < 18446744073709551616" "j < 18446744073709551616"
  shows "int (count_free (toggle (of_nat j) used) S) =
    int (count_free used S) - (if j \<in> S then if of_nat j \<in> used then -1 else 1 else 0)"
proof -
  have inj: "(of_nat i :: u64) = of_nat j \<longleftrightarrow> i = j" if "i \<in> S" for i
    using assms(2) [OF that] assms(3) by (metis unat_of_nat_u64)
  let ?F = "\<lambda>U. {i \<in> S. of_nat i \<notin> U}"
  show ?thesis
  proof (cases "j \<in> S")
    case False
    with inj have "?F (toggle (of_nat j) used) = ?F used" by (auto simp: toggle_def)
    with False show ?thesis by (simp add: count_free_def)
  next
    case j: True
    show ?thesis
    proof (cases "(of_nat j :: u64) \<in> used")
      case True
      with inj j have "?F (toggle (of_nat j) used) = insert j (?F used)" by (auto simp: toggle_def)
      with assms(1) j True show ?thesis by (simp add: count_free_def)
    next
      case False
      with inj j have f: "?F used = insert j (?F (toggle (of_nat j) used))" "j \<notin> ?F (toggle (of_nat j) used)" by (auto simp: toggle_def)
      from assms(1) j False show ?thesis unfolding count_free_def f(1) using f(2) by (subst card_insert_disjoint) auto
    qed
  qed
qed

lemma count_free_le: "finite S \<Longrightarrow> count_free used S \<le> card S"
  unfolding count_free_def by (rule card_mono) auto

text \<open>A counter that is a machine word follows the count as long as the count fits.\<close>

lemma counter_step:
  assumes "int n = int (unat c) - d" "n < 4294967296"
  shows "unat ((c :: u32) - of_int d) = n"
proof -
  have "(of_nat n :: u32) = of_int (int n)" by simp
  also have "\<dots> = c - of_int d" unfolding assms(1) of_int_diff by simp
  finally show ?thesis using unat_of_nat_u32 [OF assms(2)] by simp
qed

lemma cut32_id: "w \<or> unat m < 65536 \<Longrightarrow> cut32 w m = m"
  by (auto simp: cut32_def word_unat_eq_iff unsigned_ucast_eq unsigned_take_bit_eq take_bit_nat_eq_self)

lemma group_of_ino_facts:
  assumes geo: "inode_geometry fs" and ino: "1 \<le> ino" "ino \<le> s_inodes_count (fs_super fs)"
  shows "\<exists>g. ext2fs_group_of_ino fs ino = Some g \<and> g < fs_group_desc_count fs \<and> unat ino \<in> group_inodes fs (unat g)
    \<and> (\<forall>g'. unat ino \<in> group_inodes fs g' \<longrightarrow> g' = unat g)"
proof -
  let ?ipg = "s_inodes_per_group (fs_super fs)"
  define g where "g = (ino - 1) div ?ipg"
  have p: "0 < unat ?ipg" "unat (s_inodes_count (fs_super fs)) = unat (fs_group_desc_count fs) * unat ?ipg" using geo by (simp_all add: inode_geometry_def)
  then have nz: "?ipg \<noteq> 0" by auto
  have i: "1 \<le> unat ino" "unat ino \<le> unat (fs_group_desc_count fs) * unat ?ipg" using ino p(2) by (simp_all add: word_le_nat_alt)
  then have "unat (ino - 1) = unat ino - 1" by (simp add: unat_sub word_le_nat_alt)
  then have u: "unat g = (unat ino - 1) div unat ?ipg" by (simp add: g_def unat_div)
  have "unat ino - 1 < unat (fs_group_desc_count fs) * unat ?ipg" using i by linarith
  then have lt: "unat g < unat (fs_group_desc_count fs)" unfolding u by (simp add: less_mult_imp_div_less)
  have mem: "unat ino \<in> group_inodes fs g' \<longleftrightarrow> g' = unat g" for g'
  proof
    assume "unat ino \<in> group_inodes fs g'"
    then have "g' * unat ?ipg \<le> unat ino - 1" "unat ino - 1 < (g' + 1) * unat ?ipg" by (auto simp: group_inodes_def)
    then show "g' = unat g" unfolding u by (intro div_nat_eqI [symmetric]) (simp_all add: mult.commute)
  next
    assume "g' = unat g"
    have "unat g * unat ?ipg \<le> unat ino - 1" unfolding u by simp
    then have lo: "unat g * unat ?ipg < unat ino" using i(1) by linarith
    have "unat ino - 1 < (unat g + 1) * unat ?ipg" unfolding u using p(1) by (simp add: dividend_less_div_times)
    then have "unat ino \<le> (unat g + 1) * unat ?ipg" by linarith
    with lo \<open>g' = unat g\<close> show "unat ino \<in> group_inodes fs g'" by (simp add: group_inodes_def)
  qed
  from nz lt mem show ?thesis
    by (intro exI [of _ g]) (simp add: ext2fs_group_of_ino_def g_def word_less_nat_alt)
qed

lemma itable_end_step:
  assumes ok: "itable_end_ok used ipg g unused" and i: "g * ipg < i" "i \<le> (g + 1) * ipg" and fit: "(g + 1) * ipg < 18446744073709551616"
    and used': "used' \<subseteq> insert (of_nat i) used"
  shows "itable_end_ok used' ipg g (if i \<ge> ipg - unused + g * ipg + 1 then (g + 1) * ipg - i else unused)"
proof -
  have old: "unused \<le> ipg" "\<And>k. ipg - unused \<le> k \<Longrightarrow> k < ipg \<Longrightarrow> of_nat (g * ipg + 1 + k) \<notin> used"
    using ok by (auto simp: itable_end_ok_def)
  have new: "of_nat (g * ipg + 1 + k) \<notin> used'" if k: "ipg - unused \<le> k" "k < ipg" "g * ipg + 1 + k \<noteq> i" for k
  proof -
    have "g * ipg + 1 + k < 18446744073709551616" "i < 18446744073709551616" using k(2) i(2) fit by simp_all
    then have "(of_nat (g * ipg + 1 + k) :: u64) \<noteq> of_nat i" using k(3) by (metis unat_of_nat_u64)
    with old(2) [OF k(1,2)] used' show ?thesis by blast
  qed
  show ?thesis
  proof (cases "i \<ge> ipg - unused + g * ipg + 1")
    case True
    have "of_nat (g * ipg + 1 + k) \<notin> used'" if "ipg - ((g + 1) * ipg - i) \<le> k" "k < ipg" for k
      by (rule new) (use that True i old(1) in \<open>simp_all add: algebra_simps\<close>)
    with True i show ?thesis by (simp add: itable_end_ok_def)
  next
    case False
    have "of_nat (g * ipg + 1 + k) \<notin> used'" if "ipg - unused \<le> k" "k < ipg" for k
      by (rule new) (use that False in simp_all)
    with False old(1) show ?thesis by (simp add: itable_end_ok_def)
  qed
qed

lemma finite_group_inodes: "finite (group_inodes fs g)" "card (group_inodes fs g) = unat (s_inodes_per_group (fs_super fs))"
proof -
  have "group_inodes fs g = {g * unat (s_inodes_per_group (fs_super fs)) <.. (g + 1) * unat (s_inodes_per_group (fs_super fs))}"
    by (auto simp: group_inodes_def)
  then show "finite (group_inodes fs g)" "card (group_inodes fs g) = unat (s_inodes_per_group (fs_super fs))" by simp_all
qed

lemma group_inodes_bound:
  assumes "inode_geometry fs" "g < unat (fs_group_desc_count fs)"
  shows "(g + 1) * unat (s_inodes_per_group (fs_super fs)) < 4294967295"
proof -
  have "(g + 1) * unat (s_inodes_per_group (fs_super fs)) \<le> unat (fs_group_desc_count fs) * unat (s_inodes_per_group (fs_super fs))"
    using assms(2) by (intro mult_le_mono1) simp
  then show ?thesis using assms(1) unfolding inode_geometry_def by linarith
qed

text \<open>The counters of the group of the inode after the update.\<close>

lemma books_group:
  fixes fs :: filsys and g ino :: u32 and used :: "u64 set"
  defines "ipg \<equiv> s_inodes_per_group (fs_super fs)" and "v \<equiv> bg_views fs ! unat g" and "w \<equiv> fs_wide fs"
    and "inuse \<equiv> (if ucast ino \<in> used then -1 else 1 :: int)" and "used' \<equiv> toggle (ucast ino) used"
  assumes geo: "inode_geometry fs" and books: "inode_books used fs" and g: "g < fs_group_desc_count fs"
    and ino: "unat ino \<in> group_inodes fs (unat g)"
  shows "unat (cut32 w (v_free_inodes v - of_int inuse)) = count_free used' (group_inodes fs (unat g))"
    and "ext2fs_has_group_desc_csum fs \<Longrightarrow> itable_end_ok used' (unat ipg) (unat g)
      (unat (if ext2fs_has_group_desc_csum fs \<and> ino \<ge> ipg - v_itable_unused v + g * ipg + 1
             then cut32 w (g * ipg + ipg - ino) else v_itable_unused v))"
proof -
  let ?S = "group_inodes fs (unat g)"
  have gu: "unat g < unat (fs_group_desc_count fs)" using g by (simp add: word_less_nat_alt)
  have fit: "(unat g + 1) * unat ipg < 4294967295" unfolding ipg_def by (rule group_inodes_bound [OF geo gu])
  have i: "unat g * unat ipg < unat ino" "unat ino \<le> (unat g + 1) * unat ipg" using ino by (simp_all add: group_inodes_def ipg_def)
  have narrow: "w \<or> unat ipg < 65536" using geo by (simp add: inode_geometry_def w_def ipg_def)
  have cast: "(ucast ino :: u64) = of_nat (unat ino)" by (simp add: word_unat_eq_iff)
  have S: "j < 18446744073709551616" if "j \<in> ?S" for j
    using that fit unfolding group_inodes_def ipg_def by auto
  have ib: "unat ino < 18446744073709551616" using unat_u32_less [of ino] by linarith
  have b: "unat (v_free_inodes v) = count_free used ?S"
    "ext2fs_has_group_desc_csum fs \<Longrightarrow> itable_end_ok used (unat ipg) (unat g) (unat (v_itable_unused v))"
    using books gu by (simp_all add: inode_books_def v_def ipg_def)
  have "int (count_free used' ?S) = int (unat (v_free_inodes v)) - inuse"
    using count_free_toggle [OF finite_group_inodes(1) S ib, where used = used] ino unfolding b(1) used'_def inuse_def cast by simp
  moreover have le: "count_free used' ?S \<le> unat ipg" using count_free_le [OF finite_group_inodes(1)] finite_group_inodes(2) unfolding ipg_def by metis
  moreover have "unat ipg < 4294967296" by simp
  ultimately have u: "unat (v_free_inodes v - of_int inuse) = count_free used' ?S" by (intro counter_step) linarith+
  with le narrow cut32_id show "unat (cut32 w (v_free_inodes v - of_int inuse)) = count_free used' ?S" by (metis le_less_trans)
  assume cs: "ext2fs_has_group_desc_csum fs"
  have un: "unat (v_itable_unused v) \<le> unat ipg" using b(2) [OF cs] by (simp add: itable_end_ok_def)
  have gi: "unat (g * ipg) = unat g * unat ipg" using fit by (simp add: unat_word_ariths)
  have m: "unat (ipg - v_itable_unused v) = unat ipg - unat (v_itable_unused v)" using un by (simp add: unat_sub word_le_nat_alt)
  have f1: "unat (ipg - v_itable_unused v + g * ipg) = unat ipg - unat (v_itable_unused v) + unat g * unat ipg"
    using fit un m gi by (subst unat_add_u32) (simp_all add: algebra_simps)
  have first: "unat (ipg - v_itable_unused v + g * ipg + 1) = unat ipg - unat (v_itable_unused v) + unat g * unat ipg + 1"
    using fit un f1 by (subst unat_add_u32) (simp_all add: algebra_simps)
  have gg: "unat (g * ipg + ipg) = (unat g + 1) * unat ipg" using fit gi by (subst unat_add_u32) (simp_all add: algebra_simps)
  then have e: "unat (g * ipg + ipg - ino) = (unat g + 1) * unat ipg - unat ino" using i(2) by (simp add: unat_sub word_le_nat_alt)
  have "unat (g * ipg + ipg - ino) \<le> unat ipg" unfolding e using i(1) by (simp add: algebra_simps)
  then have c: "cut32 w (g * ipg + ipg - ino) = g * ipg + ipg - ino" using narrow by (metis cut32_id le_less_trans)
  have sub: "used' \<subseteq> insert (of_nat (unat ino)) used" unfolding used'_def toggle_def cast by auto
  have "(unat g + 1) * unat ipg < 18446744073709551616" using fit by linarith
  from itable_end_step [OF b(2) [OF cs] i this sub]
  show "itable_end_ok used' (unat ipg) (unat g) (unat (if ext2fs_has_group_desc_csum fs \<and> ino \<ge> ipg - v_itable_unused v + g * ipg + 1
             then cut32 w (g * ipg + ipg - ino) else v_itable_unused v))"
    using cs unfolding c word_le_nat_alt first by (simp add: e split: if_splits)
qed

text \<open>The state of the allocator: its table, its inode bitmap and its books agree.\<close>

definition inodes_in_order :: "('p bitmap64 \<Rightarrow> bool) \<Rightarrow> ('p bitmap64 \<Rightarrow> u64 set) \<Rightarrow> ('p, 'f) alloc_state \<Rightarrow> bool" where
  "inodes_in_order good bits st \<longleftrightarrow>
     inode_geometry (al_fs st) \<and> gb_plain good (al_inode_map st)
     \<and> gb_univ (al_inode_map st) = {k. 1 \<le> unat k \<and> unat k \<le> unat (s_inodes_count (fs_super (al_fs st)))}
     \<and> inode_books (gb_bits bits (al_inode_map st)) (al_fs st)"

text \<open>The file system after the update of the descriptor \<open>x\<close> of group \<open>g\<close> and of the superblock.\<close>

definition inode_stats_fs :: "filsys \<Rightarrow> u32 \<Rightarrow> ext4_group_desc \<Rightarrow> int \<Rightarrow> filsys" where
  "inode_stats_fs fs g x inuse =
     (let fs = with_desc fs g x
      in ext2fs_mark_ib_dirty (ext2fs_mark_super_dirty
           (fs\<lparr>fs_super := (fs_super fs)\<lparr>s_free_inodes_count := s_free_inodes_count (fs_super fs) - of_int inuse\<rparr>\<rparr>)))"

lemma inode_stats_fs_facts:
  "fs_group_desc_count (inode_stats_fs fs g x inuse) = fs_group_desc_count fs"
  "fs_wide (inode_stats_fs fs g x inuse) = fs_wide fs"
  "s_inodes_per_group (fs_super (inode_stats_fs fs g x inuse)) = s_inodes_per_group (fs_super fs)"
  "s_inodes_count (fs_super (inode_stats_fs fs g x inuse)) = s_inodes_count (fs_super fs)"
  "s_free_inodes_count (fs_super (inode_stats_fs fs g x inuse)) = s_free_inodes_count (fs_super fs) - of_int inuse"
  "ext2fs_has_group_desc_csum (inode_stats_fs fs g x inuse) = ext2fs_has_group_desc_csum fs"
  "fs_group_desc (inode_stats_fs fs g x inuse) = (fs_group_desc fs)[unat g := x]"
  "s_uuid (fs_super (inode_stats_fs fs g x inuse)) = s_uuid (fs_super fs)"
  "EXT2_DESC_SIZE (fs_super (inode_stats_fs fs g x inuse)) = EXT2_DESC_SIZE (fs_super fs)"
  "desc_table_ok (inode_stats_fs fs g x inuse) = desc_table_ok fs"
  "csum_same (with_desc fs g x) (inode_stats_fs fs g x inuse)"
  "fs_csum_seed (inode_stats_fs fs g x inuse) = fs_csum_seed fs"
  by (simp_all add: csum_same_def inode_stats_fs_def Let_def ext2fs_mark_ib_dirty_def ext2fs_mark_super_dirty_def ext2fs_has_group_desc_csum_def
      ext2fs_has_feature_64bit_def ext2fs_has_feature_metadata_csum_def ext2fs_has_feature_gdt_csum_def EXT2_DESC_SIZE_def
      desc_table_ok_def EXT2_BLOCK_SIZE_def)

lemma inode_stats_fs_geometry:
  assumes "inode_geometry fs" "bg_tail x = bg_tail (desc_of fs g)"
  shows "inode_geometry (inode_stats_fs fs g x inuse)"
proof -
  have "bg_tail ((fs_group_desc fs)[unat g := x] ! i) = bg_tail (fs_group_desc fs ! i)" for i
    using assms(2) by (cases "unat g = i"; cases "i < length (fs_group_desc fs)") (simp_all add: list_update_beyond)
  with assms(1) show ?thesis
    by (simp add: inode_geometry_def alloc_table_ok_def desc_whole_def inode_stats_fs_facts)
qed

lemma books_after:
  fixes fs :: filsys and g ino :: u32 and used :: "u64 set"
  defines "ipg \<equiv> s_inodes_per_group (fs_super fs)" and "v \<equiv> bg_views fs ! unat g" and "w \<equiv> fs_wide fs"
    and "inuse \<equiv> (if ucast ino \<in> used then -1 else 1 :: int)" and "used' \<equiv> toggle (ucast ino) used"
  assumes geo: "inode_geometry fs" and books: "inode_books used fs" and g: "g < fs_group_desc_count fs"
    and ino: "unat ino \<in> group_inodes fs (unat g)" "\<And>g'. unat ino \<in> group_inodes fs g' \<Longrightarrow> g' = unat g"
      "1 \<le> ino" "ino \<le> s_inodes_count (fs_super fs)"
    and x: "v_free_inodes (desc_view_of w x) = cut32 w (v_free_inodes v - of_int inuse)"
      "v_itable_unused (desc_view_of w x) = (if ext2fs_has_group_desc_csum fs \<and> ino \<ge> ipg - v_itable_unused v + g * ipg + 1
             then cut32 w (g * ipg + ipg - ino) else v_itable_unused v)"
  shows "inode_books used' (inode_stats_fs fs g x inuse)"
proof -
  let ?fs' = "inode_stats_fs fs g x inuse"
  note own = books_group [OF geo books g ino(1), folded ipg_def v_def w_def inuse_def used'_def]
  have cast: "(ucast ino :: u64) = of_nat (unat ino)" by (simp add: word_unat_eq_iff)
  have ib: "unat ino < 18446744073709551616" using unat_u32_less [of ino] by linarith
  have len: "unat (fs_group_desc_count fs) \<le> length (fs_group_desc fs)"
    using geo by (simp add: inode_geometry_def alloc_table_ok_def desc_table_ok_def)
  have groups: "group_inodes ?fs' g' = group_inodes fs g'" for g' by (simp add: group_inodes_def inode_stats_fs_facts)
  have view: "bg_views ?fs' ! g' = (if g' = unat g then desc_view_of w x else bg_views fs ! g')" if "g' < unat (fs_group_desc_count fs)" for g'
    using that len by (simp add: bg_views_def inode_stats_fs_facts w_def)
  have other: "unat (v_free_inodes (bg_views fs ! g')) = count_free used' (group_inodes fs g')
      \<and> (ext2fs_has_group_desc_csum fs \<longrightarrow> itable_end_ok used' (unat ipg) g' (unat (v_itable_unused (bg_views fs ! g'))))"
    if g': "g' < unat (fs_group_desc_count fs)" "g' \<noteq> unat g" for g'
  proof -
    note fit = group_inodes_bound [OF geo g'(1)]
    have out: "unat ino \<notin> group_inodes fs g'" using ino(2) g'(2) by blast
    have S: "j < 18446744073709551616" if "j \<in> group_inodes fs g'" for j using that fit unfolding group_inodes_def by auto
    have ne: "(of_nat (g' * unat ipg + 1 + k) :: u64) \<noteq> of_nat (unat ino)" if "k < unat ipg" for k
    proof -
      have "g' * unat ipg + 1 + k \<in> group_inodes fs g'" using that by (simp add: group_inodes_def ipg_def)
      with out S ib show ?thesis by (metis unat_of_nat_u64)
    qed
    have b: "unat (v_free_inodes (bg_views fs ! g')) = count_free used (group_inodes fs g')"
      "ext2fs_has_group_desc_csum fs \<Longrightarrow> itable_end_ok used (unat ipg) g' (unat (v_itable_unused (bg_views fs ! g')))"
      using books g'(1) by (simp_all add: inode_books_def ipg_def)
    have "count_free used' (group_inodes fs g') = count_free used (group_inodes fs g')"
      using count_free_toggle [where S = "group_inodes fs g'" and used = used, OF finite_group_inodes(1) S ib] out unfolding used'_def cast by simp
    moreover have "itable_end_ok used' (unat ipg) g' n" if "itable_end_ok used (unat ipg) g' n" for n
      using that ne unfolding itable_end_ok_def used'_def toggle_def cast by auto
    ultimately show ?thesis using b by simp
  qed
  have "int (count_free used' {1..unat (s_inodes_count (fs_super fs))}) = int (unat (s_free_inodes_count (fs_super fs))) - inuse"
  proof -
    have S: "j < 18446744073709551616" if "j \<in> {1..unat (s_inodes_count (fs_super fs))}" for j
      using that unat_u32_less [of "s_inodes_count (fs_super fs)"] by (simp only: atLeastAtMost_iff) linarith
    have "unat ino \<in> {1..unat (s_inodes_count (fs_super fs))}" using ino(3,4) by (simp add: word_le_nat_alt)
    with count_free_toggle [where S = "{1..unat (s_inodes_count (fs_super fs))}" and used = used, OF finite_atLeastAtMost S ib] books show ?thesis
      unfolding used'_def inuse_def cast by (simp add: inode_books_def)
  qed
  moreover have "count_free used' {1..unat (s_inodes_count (fs_super fs))} < 4294967296"
  proof -
    have "count_free used' {1..unat (s_inodes_count (fs_super fs))} \<le> unat (s_inodes_count (fs_super fs))"
      using count_free_le [of "{1..unat (s_inodes_count (fs_super fs))}" used'] by simp
    also have "\<dots> < 4294967296" by (rule unat_u32_less)
    finally show ?thesis .
  qed
  ultimately have "unat (s_free_inodes_count (fs_super fs) - of_int inuse) = count_free used' {1..unat (s_inodes_count (fs_super fs))}"
    by (intro counter_step)
  with own x other view show ?thesis
    unfolding inode_books_def by (auto simp: inode_stats_fs_facts groups ipg_def [symmetric])
qed

context bitmap_backend
begin

text \<open>
  One step of the books: an inode that is not in use is allocated, or one in use is freed. The operation is
  defined, the inode changes sides, the descriptor of its group verifies, and all books still agree.
\<close>

lemma inode_stats_step:
  fixes st :: "('p, 'f) alloc_state"
  assumes order: "inodes_in_order inv bits st" and ino: "1 \<le> ino" "ino \<le> s_inodes_count (fs_super (al_fs st))"
    and inuse: "inuse = (if ucast ino \<in> gb_bits bits (al_inode_map st) then -1 else 1)"
  shows "\<exists>st'. ext2fs_inode_alloc_stats2 adr ops st ino inuse isdir = Some st' \<and> inodes_in_order inv bits st'
    \<and> gb_bits bits (al_inode_map st') = toggle (ucast ino) (gb_bits bits (al_inode_map st))
    \<and> (\<exists>g. ext2fs_group_of_ino (al_fs st') ino = Some g \<and> ext2fs_group_desc_csum_verify adr (al_fs st') g = Some True)"
proof -
  let ?fs = "al_fs st" and ?im = "al_inode_map st" and ?used = "gb_bits bits (al_inode_map st)"
  have o: "inode_geometry ?fs" "gb_plain inv ?im" "inode_books ?used ?fs"
    "gb_univ ?im = {k. 1 \<le> unat k \<and> unat k \<le> unat (s_inodes_count (fs_super ?fs))}"
    using order by (simp_all add: inodes_in_order_def)
  from o(1) have tab: "alloc_table_ok ?fs" and dt: "desc_table_ok ?fs" by (simp_all add: inode_geometry_def alloc_table_ok_def)
  have plain: "gb_ok inv ?im" "gb_unit ?im (ucast ino) = {ucast ino}" "gb_shift ?im = 0" using o(2) by (simp_all add: gb_plain_def gb_unit_plain)
  have inside: "ucast ino \<in> gb_univ ?im" using ino by (simp add: o(4) word_le_nat_alt)
  obtain g where g: "ext2fs_group_of_ino ?fs ino = Some g" "g < fs_group_desc_count ?fs" "unat ino \<in> group_inodes ?fs (unat g)"
    "\<And>g'. unat ino \<in> group_inodes ?fs g' \<Longrightarrow> g' = unat g" using group_of_ino_facts [OF o(1) ino] by blast
  have map: "\<exists>r im. (if inuse > 0 then ext2fs_mark_inode_bitmap2 ops ?im ino else ext2fs_unmark_inode_bitmap2 ops ?im ino) = Some (r, im)
      \<and> gb_plain inv im \<and> gb_univ im = gb_univ ?im \<and> gb_bits bits im = toggle (ucast ino) ?used"
  proof (cases "ucast ino \<in> ?used")
    case True
    with gb_unmark_all [OF plain(1), of "ucast ino"] inside plain show ?thesis
      by (auto simp: inuse toggle_def ext2fs_unmark_inode_bitmap2_def gb_plain_def)
  next
    case False
    with gb_mark_all [OF plain(1), of "ucast ino"] inside plain show ?thesis
      by (auto simp: inuse toggle_def ext2fs_mark_inode_bitmap2_def gb_plain_def)
  qed
  then obtain r im where m: "(if inuse > 0 then ext2fs_mark_inode_bitmap2 ops ?im ino else ext2fs_unmark_inode_bitmap2 ops ?im ino) = Some (r, im)"
    "gb_plain inv im" "gb_univ im = gb_univ ?im" "gb_bits bits im = toggle (ucast ino) ?used" by blast
  from inode_group_update_fields [OF tab g(2), of adr ino inuse isdir] obtain x where
    x: "inode_group_update adr ?fs g ino inuse isdir = Some (with_desc ?fs g x)" "bg_tail x = bg_tail (desc_of ?fs g)"
    "v_free_inodes (desc_view_of (fs_wide ?fs) x) =
        cut32 (fs_wide ?fs) (v_free_inodes (desc_view_of (fs_wide ?fs) (desc_of ?fs g)) - of_int inuse)"
    "v_itable_unused (desc_view_of (fs_wide ?fs) x) = (if ext2fs_has_group_desc_csum ?fs
          \<and> ino \<ge> s_inodes_per_group (fs_super ?fs) - v_itable_unused (desc_view_of (fs_wide ?fs) (desc_of ?fs g)) + g * s_inodes_per_group (fs_super ?fs) + 1
        then cut32 (fs_wide ?fs) (g * s_inodes_per_group (fs_super ?fs) + s_inodes_per_group (fs_super ?fs) - ino)
        else v_itable_unused (desc_view_of (fs_wide ?fs) (desc_of ?fs g)))"
    "ext2fs_group_desc_csum_verify adr (with_desc ?fs g x) g = Some True"
    by blast
  let ?st = "st\<lparr>al_fs := inode_stats_fs ?fs g x inuse, al_inode_map := im\<rparr>"
  have v: "bg_views ?fs ! unat g = desc_view_of (fs_wide ?fs) (desc_of ?fs g)"
    using desc_table_index [OF dt g(2)] by (simp add: bg_views_def)
  have "\<not> ino > s_inodes_count (fs_super ?fs)" using ino(2) by simp
  then have "ext2fs_inode_alloc_stats2 adr ops st ino inuse isdir = Some ?st"
    unfolding ext2fs_inode_alloc_stats2_def g(1) m(1) by (simp add: x(1) inode_stats_fs_def Let_def)
  moreover have "inode_books (toggle (ucast ino) ?used) (inode_stats_fs ?fs g x inuse)"
    unfolding inuse by (rule books_after [OF o(1,3) g(2-4) ino]) (use x(3,4) in \<open>simp_all add: v inuse\<close>)
  moreover have "ext2fs_group_desc_csum_verify adr (inode_stats_fs ?fs g x inuse) g = Some True"
    using tab g(2) x(2) by (subst group_desc_csum_verify_cong [of "with_desc ?fs g x"])
      (auto simp: inode_stats_fs_facts dt x(5) alloc_table_ok_def desc_whole_def desc_table_index(2) [OF dt g(2)])
  moreover have "ext2fs_group_of_ino (inode_stats_fs ?fs g x inuse) ino = Some g"
    using g(1) by (simp add: ext2fs_group_of_ino_def inode_stats_fs_facts split: if_splits)
  ultimately show ?thesis
    using m inode_stats_fs_geometry [OF o(1) x(2)] o(4) by (simp add: inodes_in_order_def inode_stats_fs_facts)
qed

end

subsection \<open>Histories of allocations\<close>

text \<open>
  A client allocates an inode that the bitmap says is free, or frees one that is in use, and reports it with
  the right sign.
\<close>

inductive inode_step :: "nat \<Rightarrow> 'p bitmap_ops \<Rightarrow> ('p, 'f) alloc_state \<Rightarrow> ('p, 'f) alloc_state \<Rightarrow> bool"
  for adr :: nat and ops :: "'p bitmap_ops" where
  Allocate: "1 \<le> ino \<Longrightarrow> ino \<le> s_inodes_count (fs_super (al_fs st)) \<Longrightarrow> ext2fs_test_inode_bitmap2 ops (al_inode_map st) ino = Some 0
    \<Longrightarrow> ext2fs_inode_alloc_stats2 adr ops st ino 1 isdir = Some st' \<Longrightarrow> inode_step adr ops st st'"
| Release: "1 \<le> ino \<Longrightarrow> ino \<le> s_inodes_count (fs_super (al_fs st)) \<Longrightarrow> ext2fs_test_inode_bitmap2 ops (al_inode_map st) ino = Some t \<Longrightarrow> t \<noteq> 0
    \<Longrightarrow> ext2fs_inode_alloc_stats2 adr ops st ino (-1) isdir = Some st' \<Longrightarrow> inode_step adr ops st st'"

inductive inode_reach :: "nat \<Rightarrow> 'p bitmap_ops \<Rightarrow> ('p, 'f) alloc_state \<Rightarrow> ('p, 'f) alloc_state \<Rightarrow> bool"
  for adr :: nat and ops :: "'p bitmap_ops" and st :: "('p, 'f) alloc_state" where
  Start: "inode_reach adr ops st st"
| Step: "inode_reach adr ops st st' \<Longrightarrow> inode_step adr ops st' st'' \<Longrightarrow> inode_reach adr ops st st''"

context bitmap_backend
begin

lemma test_inode_iff:
  assumes "inodes_in_order inv bits st"
  shows "\<exists>t. ext2fs_test_inode_bitmap2 ops (al_inode_map st) ino = Some t \<and> (t \<noteq> 0 \<longleftrightarrow> ucast ino \<in> gb_bits bits (al_inode_map st))"
  using gb_test_all [of "al_inode_map st" "ucast ino"] assms
  by (auto simp: inodes_in_order_def gb_plain_def ext2fs_test_inode_bitmap2_def)

lemma inode_step_order:
  assumes "inode_step adr ops st st'" "inodes_in_order inv bits st"
  shows "inodes_in_order inv bits st'"
  using assms(1)
proof cases
  case (Allocate ino isdir)
  from test_inode_iff [OF assms(2), of ino] Allocate(3) have "ucast ino \<notin> gb_bits bits (al_inode_map st)" by auto
  with inode_stats_step [OF assms(2) Allocate(1,2) refl, of adr isdir] Allocate(4) show ?thesis by auto
next
  case (Release ino t isdir)
  from test_inode_iff [OF assms(2), of ino] Release(3,4) have "ucast ino \<in> gb_bits bits (al_inode_map st)" by auto
  with inode_stats_step [OF assms(2) Release(1,2) refl, of adr isdir] Release(5) show ?thesis by auto
qed

lemma inode_reach_order:
  "inode_reach adr ops st st' \<Longrightarrow> inodes_in_order inv bits st \<Longrightarrow> inodes_in_order inv bits st'"
  by (induction rule: inode_reach.induct) (auto intro: inode_step_order)

lemma inode_step_ready:
  assumes "inodes_in_order inv bits st" "1 \<le> ino" "ino \<le> s_inodes_count (fs_super (al_fs st))"
  shows "\<exists>st'. inode_step adr ops st st' \<and> gb_bits bits (al_inode_map st') = toggle (ucast ino) (gb_bits bits (al_inode_map st))
    \<and> (\<exists>g. ext2fs_group_of_ino (al_fs st') ino = Some g \<and> ext2fs_group_desc_csum_verify adr (al_fs st') g = Some True)"
proof -
  obtain t where t: "ext2fs_test_inode_bitmap2 ops (al_inode_map st) ino = Some t" "t \<noteq> 0 \<longleftrightarrow> ucast ino \<in> gb_bits bits (al_inode_map st)"
    using test_inode_iff [OF assms(1)] by blast
  from inode_stats_step [OF assms refl, of adr False] t obtain st' where
    "ext2fs_inode_alloc_stats2 adr ops st ino (if t \<noteq> 0 then -1 else 1) False = Some st'"
    "gb_bits bits (al_inode_map st') = toggle (ucast ino) (gb_bits bits (al_inode_map st))
      \<and> (\<exists>g. ext2fs_group_of_ino (al_fs st') ino = Some g \<and> ext2fs_group_desc_csum_verify adr (al_fs st') g = Some True)" by auto
  moreover from this(1) t assms(2,3) have "inode_step adr ops st st'" by (cases "t = 0") (auto intro: inode_step.intros)
  ultimately show ?thesis by blast
qed

end

text \<open>
  (C1) Along every history of inode allocations and releases, the books agree with the bitmap: each group
  and the superblock count exactly the inodes that are not marked, and with checksums no marked inode lies
  behind the recorded end of an inode table. No history gets stuck: every inode can change hands next, and
  this changes the mark of that inode only and leaves a descriptor of its group that verifies.
\<close>

theorem inode_alloc_history:
  fixes st st' :: "(u8 list, 'f) alloc_state"
  assumes "inodes_in_order ba_ok ba_bits st" "inode_reach adr (ext2fs_blkmap64_bitarray ok1 ok2 junk base) st st'"
  shows "inode_books (gb_bits ba_bits (al_inode_map st')) (al_fs st')
    \<and> (\<forall>ino. 1 \<le> ino \<and> ino \<le> s_inodes_count (fs_super (al_fs st')) \<longrightarrow>
        (\<exists>st''. inode_step adr (ext2fs_blkmap64_bitarray ok1 ok2 junk base) st' st''
          \<and> gb_bits ba_bits (al_inode_map st'') = toggle (ucast ino) (gb_bits ba_bits (al_inode_map st'))
          \<and> (\<exists>g. ext2fs_group_of_ino (al_fs st'') ino = Some g \<and> ext2fs_group_desc_csum_verify adr (al_fs st'') g = Some True)))"
proof (intro conjI allI impI)
  note order = ba.inode_reach_order [OF assms(2,1)]
  from order show "inode_books (gb_bits ba_bits (al_inode_map st')) (al_fs st')" by (simp add: inodes_in_order_def)
  fix ino
  assume "1 \<le> ino \<and> ino \<le> s_inodes_count (fs_super (al_fs st'))"
  then show "\<exists>st''. inode_step adr (ext2fs_blkmap64_bitarray ok1 ok2 junk base) st' st''
      \<and> gb_bits ba_bits (al_inode_map st'') = toggle (ucast ino) (gb_bits ba_bits (al_inode_map st'))
      \<and> (\<exists>g. ext2fs_group_of_ino (al_fs st'') ino = Some g \<and> ext2fs_group_desc_csum_verify adr (al_fs st'') g = Some True)"
    by (intro ba.inode_step_ready [OF order]) simp_all
qed

text \<open>An empty file system: 24 inodes in three groups, none of them in use.\<close>

definition empty_map_example :: "u8 list gbitmap" where
  "empty_map_example = Bitmap64 (ba_example\<lparr>bm_magic := EXT2_ET_MAGIC_INODE_BITMAP64, bm_start := 1, bm_end := 24, bm_real_end := 24,
     bm_private := replicate 3 0\<rparr>)"

definition fs_empty_example :: filsys where
  "fs_empty_example = fs_csum_example\<lparr>
     fs_super := (fs_super fs_csum_example)\<lparr>s_free_inodes_count := 24\<rparr>,
     fs_group_desc := map (\<lambda>d. d\<lparr>bg_free_inodes_count := 8, bg_itable_unused := 8\<rparr>) (fs_group_desc fs_csum_example)\<rparr>"

definition alloc_example :: "(u8 list, unit) alloc_state" where
  "alloc_example = \<lparr>al_fs = fs_empty_example, al_block_map = NullBitmap, al_inode_map = empty_map_example, al_block_cb = None, al_range_cb = None,
     al_gab = None, al_gab2 = None, al_new_range = None\<rparr>"

lemma empty_map_example_ok: "gb_plain ba_ok empty_map_example" "gb_bits ba_bits empty_map_example = {}"
  "gb_univ empty_map_example = {k. 1 \<le> unat k \<and> unat k \<le> 24}"
  using ba_example_ok
  by (simp_all add: empty_map_example_def gb_plain_def gb_ok_def gb_shift_def gb_bits_def gb_univ_def ba_ok_def ba_size_def
      EXT2FS_IS_64_BITMAP_def ba_example_def ba_bits_def bit_at_def word_le_nat_alt)

lemma alloc_example_order: "inodes_in_order ba_ok ba_bits alloc_example"
proof -
  have sz: "EXT2_DESC_SIZE (fs_super fs_empty_example) = 64" "fs_wide fs_empty_example"
    by (simp_all add: fs_empty_example_def fs_csum_example_def fs_example_def EXT2_DESC_SIZE_def ext2fs_has_feature_64bit_def)
  have vals: "fs_group_desc_count fs_empty_example = 3" "s_inodes_per_group (fs_super fs_empty_example) = 8"
    "s_inodes_count (fs_super fs_empty_example) = 24" "s_free_inodes_count (fs_super fs_empty_example) = 24"
    "length (s_uuid (fs_super fs_empty_example)) = 16" "length (fs_group_desc fs_empty_example) = 16"
    by (simp_all add: fs_empty_example_def fs_csum_example_def fs_example_def)
  have tab: "desc_table_ok fs_empty_example" using sz vals
    by (simp add: desc_table_ok_def) (simp add: fs_empty_example_def fs_csum_example_def fs_example_def EXT2_BLOCK_SIZE_def)
  have "desc_whole fs_empty_example g" for g using sz by (simp add: desc_whole_def)
  with tab vals sz have geo: "inode_geometry fs_empty_example" by (simp add: inode_geometry_def alloc_table_ok_def)
  have view: "v_free_inodes (bg_views fs_empty_example ! g) = 8" "v_itable_unused (bg_views fs_empty_example ! g) = 8" if "g < 3" for g
    using that vals(6) sz(2)
    by (simp_all add: bg_views_def desc_view_of_def fs_empty_example_def fs_csum_example_def fs_example_def join32_def)
  have "{i. Suc 0 \<le> i \<and> i \<le> 24} = {1..24}" by auto
  then have "card {i. Suc 0 \<le> i \<and> i \<le> 24} = 24" by simp
  then have "inode_books {} fs_empty_example"
    unfolding inode_books_def vals using view finite_group_inodes(2) [of fs_empty_example] vals
    by (simp add: count_free_def itable_end_ok_def)
  with geo empty_map_example_ok vals show ?thesis by (simp add: inodes_in_order_def alloc_example_def)
qed

theorem inode_alloc_history_witness:
  "inode_books (gb_bits ba_bits (al_inode_map alloc_example)) (al_fs alloc_example)
    \<and> (\<exists>st''. inode_step 0 (ext2fs_blkmap64_bitarray True True (\<lambda>_. 0) 0) alloc_example st''
          \<and> gb_bits ba_bits (al_inode_map st'') = toggle (ucast (13 :: u32)) (gb_bits ba_bits (al_inode_map alloc_example))
          \<and> (\<exists>g. ext2fs_group_of_ino (al_fs st'') 13 = Some g \<and> ext2fs_group_desc_csum_verify 0 (al_fs st'') g = Some True))"
proof -
  have "s_inodes_count (fs_super (al_fs alloc_example)) = 24"
    by (simp add: alloc_example_def fs_empty_example_def fs_csum_example_def fs_example_def)
  then have "1 \<le> (13 :: u32) \<and> 13 \<le> s_inodes_count (fs_super (al_fs alloc_example))" by simp
  with inode_alloc_history [OF alloc_example_order inode_reach.Start, of 0 True True "\<lambda>_. 0" 0] show ?thesis by blast
qed

subsection \<open>Runs of blocks\<close>

text \<open>The number of blocks of a run that lie in a group.\<close>

definition run_in_group :: "filsys \<Rightarrow> nat \<Rightarrow> nat \<Rightarrow> u32 \<Rightarrow> nat" where
  "run_in_group fs blk num g =
     card {k. blk \<le> k \<and> k < blk + num \<and> unat (ext2fs_group_first_block2 fs g) \<le> k \<and> k \<le> unat (ext2fs_group_last_block2 fs g)}"

lemma run_in_group_eq:
  "run_in_group fs blk num g = min (blk + num) (Suc (unat (ext2fs_group_last_block2 fs g))) - max blk (unat (ext2fs_group_first_block2 fs g))"
proof -
  have "{k. blk \<le> k \<and> k < blk + num \<and> unat (ext2fs_group_first_block2 fs g) \<le> k \<and> k \<le> unat (ext2fs_group_last_block2 fs g)}
      = {max blk (unat (ext2fs_group_first_block2 fs g))..<min (blk + num) (Suc (unat (ext2fs_group_last_block2 fs g)))}" by auto
  then show ?thesis by (simp add: run_in_group_def)
qed

text \<open>Where the first piece of a run ends: at the end of its group, or of the run.\<close>

lemma run_first_piece:
  assumes ok: "fs_geometry_ok fs" and num: "0 < num" and blk: "unat (s_first_data_block (fs_super fs)) \<le> blk" "blk + num \<le> unat (ext2fs_blocks_count (fs_super fs))"
  shows "\<exists>g. ext2fs_group_of_blk2 fs (of_nat blk) = Some g \<and> g < fs_group_desc_count fs
    \<and> unat (ext2fs_group_first_block2 fs g) \<le> blk \<and> blk \<le> unat (ext2fs_group_last_block2 fs g)
    \<and> (\<forall>h < fs_group_desc_count fs. h \<noteq> g \<longrightarrow>
          unat (ext2fs_group_last_block2 fs h) < unat (ext2fs_group_first_block2 fs g) \<or> unat (ext2fs_group_last_block2 fs g) < unat (ext2fs_group_first_block2 fs h))"
proof -
  have u: "unat (of_nat blk :: u64) = blk"
    using blk(2) unat_u64_less [of "ext2fs_blocks_count (fs_super fs)"] by (intro unat_of_nat_u64) linarith
  have "ucast (s_first_data_block (fs_super fs)) \<le> (of_nat blk :: u64)" "(of_nat blk :: u64) < ext2fs_blocks_count (fs_super fs)"
    using blk num by (simp_all add: word_le_nat_alt word_less_nat_alt u)
  from group_of_blk_unique [OF ok this] obtain g where g: "ext2fs_group_of_blk2 fs (of_nat blk) = Some g" "g < fs_group_desc_count fs"
    "ext2fs_group_first_block2 fs g \<le> of_nat blk" "of_nat blk \<le> ext2fs_group_last_block2 fs g" by blast
  have p: "0 < unat (s_blocks_per_group (fs_super fs))" using fs_geometryD(1) [OF ok] .
  have order: "unat (ext2fs_group_last_block2 fs h) < unat (ext2fs_group_first_block2 fs k)"
    if hk: "h < fs_group_desc_count fs" "k < fs_group_desc_count fs" "unat h < unat k" for h k
  proof -
    have "unat (s_blocks_per_group (fs_super fs)) * Suc (unat h) \<le> unat (s_blocks_per_group (fs_super fs)) * unat k"
      using hk(3) by (intro mult_le_mono2) simp
    moreover have "unat (ext2fs_group_last_block2 fs h) < unat (s_first_data_block (fs_super fs)) + unat (s_blocks_per_group (fs_super fs)) * Suc (unat h)"
      unfolding group_first_last(2) [OF ok hk(1)] using p by (simp add: min_def) linarith
    ultimately show ?thesis unfolding group_first_last(1) [OF ok hk(2)] by linarith
  qed
  have "unat (ext2fs_group_last_block2 fs h) < unat (ext2fs_group_first_block2 fs g) \<or> unat (ext2fs_group_last_block2 fs g) < unat (ext2fs_group_first_block2 fs h)"
    if h: "h < fs_group_desc_count fs" "h \<noteq> g" for h
  proof -
    from h(2) have "unat h < unat g \<or> unat g < unat h" by (metis linorder_neqE_nat word_unat_eq_iff)
    with order [OF h(1) g(2)] order [OF g(2) h(1)] show ?thesis by blast
  qed
  with g show ?thesis by (intro exI [of _ g]) (auto simp: word_le_nat_alt u)
qed

lemma run_in_group_split:
  assumes "unat (ext2fs_group_first_block2 fs g) \<le> blk" "blk \<le> unat (ext2fs_group_last_block2 fs g)"
    and n: "n = min num (Suc (unat (ext2fs_group_last_block2 fs g)) - blk)"
    and apart: "h \<noteq> g \<Longrightarrow> unat (ext2fs_group_last_block2 fs h) < unat (ext2fs_group_first_block2 fs g)
      \<or> unat (ext2fs_group_last_block2 fs g) < unat (ext2fs_group_first_block2 fs h)"
  shows "run_in_group fs blk num h = (if h = g then n else run_in_group fs (blk + n) (num - n) h)"
    "run_in_group fs (blk + n) (num - n) g = 0"
proof -
  show "run_in_group fs (blk + n) (num - n) g = 0" unfolding run_in_group_eq n by simp
  show "run_in_group fs blk num h = (if h = g then n else run_in_group fs (blk + n) (num - n) h)"
  proof (cases "h = g")
    case True
    with assms(1,2) n show ?thesis by (auto simp: run_in_group_eq min_def max_def)
  next
    case False
    from apart [OF False] show ?thesis
      using assms(1,2) n False unfolding run_in_group_eq by (auto simp: min_def max_def)
  qed
qed

text \<open>What the loop leaves alone: all but the descriptors and the count of free blocks.\<close>

definition blocks_frame :: "filsys \<Rightarrow> filsys \<Rightarrow> bool" where
  "blocks_frame fs fs' \<longleftrightarrow>
     fs' = fs\<lparr>fs_group_desc := fs_group_desc fs',
       fs_super := (fs_super fs)\<lparr>s_free_blocks_count := s_free_blocks_count (fs_super fs'), s_free_blocks_hi := s_free_blocks_hi (fs_super fs')\<rparr>\<rparr>
     \<and> length (fs_group_desc fs') = length (fs_group_desc fs) \<and> (\<forall>i. bg_tail (fs_group_desc fs' ! i) = bg_tail (fs_group_desc fs ! i))"

lemma blocks_frame_facts:
  assumes "blocks_frame fs fs'"
  shows "fs_group_desc_count fs' = fs_group_desc_count fs" "fs_wide fs' = fs_wide fs" "csum_same fs fs'" "fs_csum_seed fs' = fs_csum_seed fs"
    "desc_table_ok fs' = desc_table_ok fs" "alloc_table_ok fs' = alloc_table_ok fs" "fs_geometry_ok fs' = fs_geometry_ok fs"
    "ext2fs_group_of_blk2 fs' = ext2fs_group_of_blk2 fs" "ext2fs_group_first_block2 fs' = ext2fs_group_first_block2 fs"
    "ext2fs_group_last_block2 fs' = ext2fs_group_last_block2 fs" "EXT2FS_CLUSTER_RATIO fs' = EXT2FS_CLUSTER_RATIO fs"
    "s_first_data_block (fs_super fs') = s_first_data_block (fs_super fs)" "ext2fs_blocks_count (fs_super fs') = ext2fs_blocks_count (fs_super fs)"
    "length (fs_group_desc fs') = length (fs_group_desc fs)" "desc_whole fs' g = desc_whole fs g" "fs_flags fs' = fs_flags fs"
proof -
  from assms obtain ds a b where ds: "fs' = fs\<lparr>fs_group_desc := ds, fs_super := (fs_super fs)\<lparr>s_free_blocks_count := a, s_free_blocks_hi := b\<rparr>\<rparr>"
    "length ds = length (fs_group_desc fs)" "\<And>i. bg_tail (ds ! i) = bg_tail (fs_group_desc fs ! i)" unfolding blocks_frame_def by blast
  note defs = csum_same_def desc_table_ok_def alloc_table_ok_def fs_geometry_ok_def ext2fs_group_of_blk2_def ext2fs_group_first_block2_def
    ext2fs_group_last_block2_def EXT2FS_CLUSTER_RATIO_def ext2fs_blocks_count_def desc_whole_def ext2fs_has_feature_64bit_def
    ext2fs_has_feature_metadata_csum_def ext2fs_has_feature_gdt_csum_def EXT2_DESC_SIZE_def EXT2_BLOCK_SIZE_def
  show "fs_group_desc_count fs' = fs_group_desc_count fs" "fs_wide fs' = fs_wide fs" "csum_same fs fs'" "fs_csum_seed fs' = fs_csum_seed fs"
    "desc_table_ok fs' = desc_table_ok fs" "alloc_table_ok fs' = alloc_table_ok fs" "fs_geometry_ok fs' = fs_geometry_ok fs"
    "ext2fs_group_of_blk2 fs' = ext2fs_group_of_blk2 fs" "ext2fs_group_first_block2 fs' = ext2fs_group_first_block2 fs"
    "ext2fs_group_last_block2 fs' = ext2fs_group_last_block2 fs" "EXT2FS_CLUSTER_RATIO fs' = EXT2FS_CLUSTER_RATIO fs"
    "s_first_data_block (fs_super fs') = s_first_data_block (fs_super fs)" "ext2fs_blocks_count (fs_super fs') = ext2fs_blocks_count (fs_super fs)"
    "length (fs_group_desc fs') = length (fs_group_desc fs)" "desc_whole fs' g = desc_whole fs g" "fs_flags fs' = fs_flags fs"
    using ds(2,3) by (simp_all add: ds(1) defs fun_eq_iff)
qed

lemma blocks_frame_refl: "blocks_frame fs fs"
  by (simp add: blocks_frame_def)

lemma blocks_frame_trans:
  assumes "blocks_frame fs fs'" "blocks_frame fs' fs''"
  shows "blocks_frame fs fs''"
proof -
  from assms(1) obtain ds a b where 1: "fs' = fs\<lparr>fs_group_desc := ds, fs_super := (fs_super fs)\<lparr>s_free_blocks_count := a, s_free_blocks_hi := b\<rparr>\<rparr>"
    unfolding blocks_frame_def by blast
  from assms(2) obtain ds' a' b' where 2: "fs'' = fs'\<lparr>fs_group_desc := ds', fs_super := (fs_super fs')\<lparr>s_free_blocks_count := a', s_free_blocks_hi := b'\<rparr>\<rparr>"
    unfolding blocks_frame_def by blast
  from assms 1 2 show ?thesis by (simp add: blocks_frame_def)
qed

lemma blocks_frame_step: "bg_tail x = bg_tail (desc_of fs g) \<Longrightarrow> blocks_frame fs (fs_add_free (with_desc fs g x) n)"
proof -
  assume t: "bg_tail x = bg_tail (desc_of fs g)"
  have "bg_tail ((fs_group_desc fs)[unat g := x] ! i) = bg_tail (fs_group_desc fs ! i)" for i
    using t by (cases "unat g = i"; cases "i < length (fs_group_desc fs)") (simp_all add: list_update_beyond)
  then show ?thesis
    by (simp add: blocks_frame_def fs_add_free_def ext2fs_free_blocks_count_add_def ext2fs_free_blocks_count_set_def Let_def)
qed

lemma free_count_add: "ext2fs_free_blocks_count (ext2fs_free_blocks_count_add sb n) = cut64 (ext2fs_has_feature_64bit sb) (ext2fs_free_blocks_count sb + n)"
  by (cases "ext2fs_has_feature_64bit sb")
    (simp_all add: ext2fs_free_blocks_count_add_def ext2fs_free_blocks_count_def ext2fs_free_blocks_count_set_def cut64_def Let_def
      ext2fs_has_feature_64bit_def join64_halves [unfolded join64_def])

lemma cut64_add: "cut64 w (cut64 w a + b) = cut64 w (a + b)"
proof (cases w)
  case False
  have "(unat a mod 4294967296 + unat b) mod 18446744073709551616 mod 4294967296 = (unat a + unat b) mod 18446744073709551616 mod 4294967296"
    by (simp add: mod_mod_cancel mod_add_left_eq)
  with False show ?thesis by (simp add: word_unat_eq_iff unat_cut64 unat_word_ariths)
qed (simp add: cut64_def)

lemma cut64_free: "cut64 (ext2fs_has_feature_64bit sb) (ext2fs_free_blocks_count sb) = ext2fs_free_blocks_count sb"
  by (simp add: word_unat_eq_iff unat_cut64) (simp add: ext2fs_free_blocks_count_def)

text \<open>What happens to a group that holds \<open>n\<close> blocks of the run.\<close>

definition range_post :: "nat \<Rightarrow> int \<Rightarrow> nat \<Rightarrow> filsys \<Rightarrow> filsys \<Rightarrow> u32 \<Rightarrow> nat \<Rightarrow> bool" where
  "range_post adr inuse ratio fs fs' g n \<longleftrightarrow>
     (if n = 0 then desc_of fs' g = desc_of fs g
      else ext2fs_group_desc_csum_verify adr fs' g = Some True
        \<and> bg_views fs' ! unat g = (bg_views fs ! unat g)
            \<lparr>v_free_blocks := cut32 (fs_wide fs) (ucast (ucast (v_free_blocks (bg_views fs ! unat g)) - of_int inuse * of_nat n div of_nat ratio :: u64)),
             v_flags := v_flags (bg_views fs ! unat g) AND NOT 2, v_checksum := v_checksum (bg_views fs' ! unat g)\<rparr>)"

text \<open>One round of the loop, in numbers: \<open>n\<close> blocks of group \<open>g\<close>.\<close>

lemma range_loop_round:
  assumes ok: "alloc_table_ok fs" "fs_geometry_ok fs" and ratio: "EXT2FS_CLUSTER_RATIO fs = Some ratio"
    and num: "0 < num" "num < 4294967296"
    and blk: "unat (s_first_data_block (fs_super fs)) \<le> blk" "blk + num \<le> unat (ext2fs_blocks_count (fs_super fs))"
    and g: "ext2fs_group_of_blk2 fs (of_nat blk) = Some g" "g < fs_group_desc_count fs" "blk \<le> unat (ext2fs_group_last_block2 fs g)"
  defines "n \<equiv> min num (Suc (unat (ext2fs_group_last_block2 fs g)) - blk)"
  shows "\<exists>x. range_loop adr fs (of_nat blk) (of_nat num) inuse
      = range_loop adr (fs_add_free (with_desc fs g x) (of_int (- inuse) * of_nat n)) (of_nat (blk + n)) (of_nat (num - n)) inuse
    \<and> bg_tail x = bg_tail (desc_of fs g) \<and> ext2fs_group_desc_csum_verify adr (with_desc fs g x) g = Some True
    \<and> desc_view_of (fs_wide fs) x = (bg_views fs ! unat g)
        \<lparr>v_free_blocks := cut32 (fs_wide fs) (ucast (ucast (v_free_blocks (bg_views fs ! unat g)) - of_int inuse * of_nat n div of_nat ratio :: u64)),
         v_flags := v_flags (bg_views fs ! unat g) AND NOT 2, v_checksum := v_checksum (desc_view_of (fs_wide fs) x)\<rparr>"
proof -
  let ?last = "ext2fs_group_last_block2 fs g" and ?blk = "of_nat blk :: u64" and ?num = "of_nat num :: u32"
  have B: "blk + num < 18446744073709551616" using blk(2) unat_u64_less [of "ext2fs_blocks_count (fs_super fs)"] by linarith
  have ub: "unat ?blk = blk" using B by (intro unat_of_nat_u64) linarith
  have un: "unat ?num = num" by (rule unat_of_nat_u32 [OF num(2)])
  have sum: "unat (?blk + ucast ?num) = blk + num" using B ub un by (subst unat_add_u64) simp_all
  define n' where "n' = (if ?blk + ucast ?num > ?last then ?last - ?blk + 1 else ucast ?num)"
  have d: "unat (?last - ?blk) = unat ?last - blk" using g(3) ub by (simp add: unat_sub word_le_nat_alt)
  have lastB: "unat ?last < 18446744073709551615"
    unfolding group_first_last(2) [OF ok(2) g(2)] using unat_u64_less [of "ext2fs_blocks_count (fs_super fs)"] by linarith
  have "unat n' = n"
  proof (cases "blk + num > unat ?last")
    case True
    have "unat (?last - ?blk + 1) = unat ?last - blk + 1" using d lastB by (subst unat_add_u64) simp_all
    with True g(3) show ?thesis by (auto simp: n'_def n_def word_less_nat_alt sum)
  next
    case False
    with g(3) un show ?thesis by (auto simp: n'_def n_def word_less_nat_alt sum)
  qed
  then have n': "n' = of_nat n" by auto
  have nn: "n \<le> num" "n < 4294967296" using num by (simp_all add: n_def)
  have nx: "?blk + n' = of_nat (blk + n)" by (simp add: n')
  have "ucast ?num = (of_nat num :: u64)" using un num(2) by (simp add: word_unat_eq_iff unat_of_nat_u64)
  then have "ucast ?num - n' = (of_nat (num - n) :: u64)" by (simp only: n' of_nat_diff [OF nn(1)])
  moreover have "ucast (of_nat (num - n) :: u64) = (of_nat (num - n) :: u32)"
    using num(2) by (simp add: word_unat_eq_iff unat_ucast_64_32 unat_of_nat_u64 unat_of_nat_u32 del: of_nat_diff)
  ultimately have nm: "ucast (ucast ?num - n' :: u64) = (of_nat (num - n) :: u32)" by simp
  from block_group_update_run [OF ok(1) g(2), of adr "of_int inuse * n' div of_nat ratio"] obtain x where
    x: "block_group_update adr fs g (of_int inuse * n' div of_nat ratio) = Some (with_desc fs g x)" "bg_tail x = bg_tail (desc_of fs g)"
      "ext2fs_group_desc_csum_verify adr (with_desc fs g x) g = Some True"
      "desc_view_of (fs_wide fs) x = (desc_view_of (fs_wide fs) (desc_of fs g))
        \<lparr>v_free_blocks := cut32 (fs_wide fs) (ucast (ucast (v_free_blocks (desc_view_of (fs_wide fs) (desc_of fs g))) - of_int inuse * n' div of_nat ratio)),
         v_flags := v_flags (desc_view_of (fs_wide fs) (desc_of fs g)) AND NOT 2, v_checksum := v_checksum (desc_view_of (fs_wide fs) x)\<rparr>" by blast
  have v: "bg_views fs ! unat g = desc_view_of (fs_wide fs) (desc_of fs g)"
    using ok(1) desc_table_index [OF _ g(2)] by (simp add: bg_views_def alloc_table_ok_def)
  have "?num \<noteq> 0" using num(1) un by auto
  then have "range_loop adr fs ?blk ?num inuse = range_loop adr (fs_add_free (with_desc fs g x) (of_int (- inuse) * of_nat n)) (of_nat (blk + n)) (of_nat (num - n)) inuse"
    by (subst range_loop.simps) (simp only: g(1) ratio x(1) n'_def [symmetric] Option.bind.simps Let_def if_False nx [unfolded n'] nm [unfolded n'] x(1) [unfolded n'] n' simp_thms)
  with x v show ?thesis unfolding n' by (intro exI [of _ x]) simp
qed

text \<open>One round of the loop writes the descriptor of one group; the later rounds leave it, and its checksum stays valid.\<close>

lemma range_piece_kept:
  assumes ok: "alloc_table_ok fs" and g: "g < fs_group_desc_count fs" and fr: "blocks_frame fs fs'" and d: "desc_of fs' g = x"
    and x: "bg_tail x = bg_tail (desc_of fs g)" "ext2fs_group_desc_csum_verify adr (with_desc fs g x) g = Some True"
  shows "bg_views fs' ! unat g = desc_view_of (fs_wide fs) x" "ext2fs_group_desc_csum_verify adr fs' g = Some True"
proof -
  have i: "unat g < length (fs_group_desc fs)" using desc_table_index(2) [OF _ g] ok by (simp add: alloc_table_ok_def)
  note f' = blocks_frame_facts [OF fr]
  show "bg_views fs' ! unat g = desc_view_of (fs_wide fs) x" using d i f' by (simp add: bg_views_def)
  show "ext2fs_group_desc_csum_verify adr fs' g = Some True"
    using x(2) by (subst group_desc_csum_verify_cong [of "with_desc fs g x"])
      (use ok g x(1) i d f' in \<open>auto simp: alloc_table_ok_def desc_whole_def csum_same_def\<close>)
qed

lemma range_post_other:
  assumes ok: "alloc_table_ok fs" and h: "h < fs_group_desc_count fs" "h \<noteq> g"
    and w: "fs_wide (fs_add_free (with_desc fs g x) n) = fs_wide fs"
  shows "range_post adr inuse ratio fs fs' h m = range_post adr inuse ratio (fs_add_free (with_desc fs g x) n) fs' h m"
proof -
  have hg: "unat h \<noteq> unat g" using h(2) by (simp add: word_unat_eq_iff)
  have "unat h < length (fs_group_desc fs)" using desc_table_index(2) [OF _ h(1)] ok by (simp add: alloc_table_ok_def)
  then have "desc_of (fs_add_free (with_desc fs g x) n) h = desc_of fs h" "bg_views (fs_add_free (with_desc fs g x) n) ! unat h = bg_views fs ! unat h"
    using hg w by (simp_all add: fs_add_free_def bg_views_def)
  with w show ?thesis unfolding range_post_def by (simp only:)
qed

lemma free_count_pieces:
  assumes "n \<le> num"
  shows "cut64 (fs_wide fs) (ext2fs_free_blocks_count (fs_super (fs_add_free (with_desc fs g x) (of_int (- inuse) * of_nat n))) - of_int inuse * of_nat (num - n))
    = cut64 (fs_wide fs) (ext2fs_free_blocks_count (fs_super fs) - of_int inuse * of_nat num)"
proof -
  have "(of_nat num :: u64) = of_nat n + of_nat (num - n)" using assms by (metis le_add_diff_inverse of_nat_add)
  then show ?thesis
    using cut64_add [of "fs_wide fs" "ext2fs_free_blocks_count (fs_super fs) - of_int inuse * of_nat n" "- (of_int inuse * of_nat (num - n))"]
    by (simp add: fs_add_free_def free_count_add algebra_simps)
qed

lemma range_loop_run:
  assumes "alloc_table_ok fs" "fs_geometry_ok fs" "EXT2FS_CLUSTER_RATIO fs = Some ratio" "num < 4294967296"
    "unat (s_first_data_block (fs_super fs)) \<le> blk" "blk + num \<le> unat (ext2fs_blocks_count (fs_super fs))"
  shows "\<exists>fs'. range_loop adr fs (of_nat blk) (of_nat num) inuse = Some (fs', of_nat (blk + num), 0) \<and> blocks_frame fs fs'
    \<and> (\<forall>g < fs_group_desc_count fs. range_post adr inuse ratio fs fs' g (run_in_group fs blk num g))
    \<and> ext2fs_free_blocks_count (fs_super fs') = cut64 (fs_wide fs) (ext2fs_free_blocks_count (fs_super fs) - of_int inuse * of_nat num)"
  using assms
proof (induction num arbitrary: fs blk rule: less_induct)
  case (less num)
  show ?case
  proof (cases "num = 0")
    case True
    then show ?thesis
      by (subst range_loop.simps) (simp add: blocks_frame_refl run_in_group_def range_post_def cut64_free)
  next
    case False
    then have num: "0 < num" by simp
    obtain g where g: "ext2fs_group_of_blk2 fs (of_nat blk) = Some g" "g < fs_group_desc_count fs"
      "unat (ext2fs_group_first_block2 fs g) \<le> blk" "blk \<le> unat (ext2fs_group_last_block2 fs g)"
      "\<And>h. h < fs_group_desc_count fs \<Longrightarrow> h \<noteq> g \<Longrightarrow> unat (ext2fs_group_last_block2 fs h) < unat (ext2fs_group_first_block2 fs g)
        \<or> unat (ext2fs_group_last_block2 fs g) < unat (ext2fs_group_first_block2 fs h)"
      using run_first_piece [OF less.prems(2) num less.prems(5,6)] by blast
    define n where "n = min num (Suc (unat (ext2fs_group_last_block2 fs g)) - blk)"
    have n: "0 < n" "n \<le> num" using num g(4) by (simp_all add: n_def)
    from range_loop_round [OF less.prems(1-3) num less.prems(4-6) g(1,2,4), of adr inuse, folded n_def] obtain x where
      x: "range_loop adr fs (of_nat blk) (of_nat num) inuse
          = range_loop adr (fs_add_free (with_desc fs g x) (of_int (- inuse) * of_nat n)) (of_nat (blk + n)) (of_nat (num - n)) inuse"
        "bg_tail x = bg_tail (desc_of fs g)" "ext2fs_group_desc_csum_verify adr (with_desc fs g x) g = Some True"
        "desc_view_of (fs_wide fs) x = (bg_views fs ! unat g)
          \<lparr>v_free_blocks := cut32 (fs_wide fs) (ucast (ucast (v_free_blocks (bg_views fs ! unat g)) - of_int inuse * of_nat n div of_nat ratio :: u64)),
           v_flags := v_flags (bg_views fs ! unat g) AND NOT 2, v_checksum := v_checksum (desc_view_of (fs_wide fs) x)\<rparr>" by blast
    let ?fs1 = "fs_add_free (with_desc fs g x) (of_int (- inuse) * of_nat n)"
    have fr: "blocks_frame fs ?fs1" by (rule blocks_frame_step [OF x(2)])
    note f = blocks_frame_facts [OF fr]
    have "\<exists>fs'. range_loop adr ?fs1 (of_nat (blk + n)) (of_nat (num - n)) inuse = Some (fs', of_nat (blk + n + (num - n)), 0) \<and> blocks_frame ?fs1 fs'
      \<and> (\<forall>h < fs_group_desc_count ?fs1. range_post adr inuse ratio ?fs1 fs' h (run_in_group ?fs1 (blk + n) (num - n) h))
      \<and> ext2fs_free_blocks_count (fs_super fs') = cut64 (fs_wide ?fs1) (ext2fs_free_blocks_count (fs_super ?fs1) - of_int inuse * of_nat (num - n))"
      by (rule less.IH) (use n less.prems f in simp_all)
    then obtain fs' where fs': "range_loop adr ?fs1 (of_nat (blk + n)) (of_nat (num - n)) inuse = Some (fs', of_nat (blk + num), 0)"
      "blocks_frame ?fs1 fs'" "\<And>h. h < fs_group_desc_count fs \<Longrightarrow> range_post adr inuse ratio ?fs1 fs' h (run_in_group fs (blk + n) (num - n) h)"
      "ext2fs_free_blocks_count (fs_super fs') = cut64 (fs_wide fs) (ext2fs_free_blocks_count (fs_super ?fs1) - of_int inuse * of_nat (num - n))"
      using n(2) f by (auto simp: run_in_group_def)
    note split = run_in_group_split [OF g(3,4) n_def]
    have i: "unat g < length (fs_group_desc fs)" using desc_table_index(2) [OF _ g(2)] less.prems(1) by (simp add: alloc_table_ok_def)
    note f' = blocks_frame_facts [OF blocks_frame_trans [OF fr fs'(2)]]
    have "range_post adr inuse ratio fs fs' h (run_in_group fs blk num h)" if h: "h < fs_group_desc_count fs" for h
    proof (cases "h = g")
      case True
      have r: "run_in_group fs blk num g = n" "run_in_group fs (blk + n) (num - n) g = 0" using split [of g] by simp_all
      have d: "desc_of fs' g = x" using fs'(3) [OF g(2)] i unfolding r(2) by (simp add: range_post_def fs_add_free_def)
      note post = range_piece_kept [OF less.prems(1) g(2) blocks_frame_trans [OF fr fs'(2)] d x(2,3)]
      show ?thesis using post n(1) x(4) unfolding True r(1) by (simp add: range_post_def)
    next
      case False
      from range_post_other [OF less.prems(1) h this f(2)] fs'(3) [OF h] split(1) [of h] g(5) [OF h False] False show ?thesis by simp
    qed
    moreover have "ext2fs_free_blocks_count (fs_super fs') = cut64 (fs_wide fs) (ext2fs_free_blocks_count (fs_super fs) - of_int inuse * of_nat num)"
      unfolding fs'(4) by (rule free_count_pieces [OF n(2)])
    ultimately show ?thesis using x(1) fs'(1) blocks_frame_trans [OF fr fs'(2)] by auto
  qed
qed

text \<open>
  (C22) Reporting a run of blocks, of any number of groups, ends and changes exactly what it should: the marks
  of the clusters of the run; in every group that holds blocks of the run the count of free clusters, by the
  number of its blocks divided by the cluster size, the flag that its bitmap is not initialised and the
  checksum, which verifies; no other group; and the count of free blocks of the superblock, by the length of
  the run. But an installed callback is not told of the run: it gets the block behind the run and the length 0.
\<close>

theorem block_alloc_stats_range_correct:
  fixes st :: "(u8 list, 'f) alloc_state" and inuse :: int
  defines "fs \<equiv> al_fs st" and "s \<equiv> (if inuse > 0 then 1 else -1 :: int)"
  assumes ok: "alloc_table_ok fs" "fs_geometry_ok fs" "EXT2FS_CLUSTER_RATIO fs = Some ratio"
    and map: "al_block_map st = Bitmap64 b" "gb_ok ba_ok (Bitmap64 b)" "unat blk + unat num + 2 ^ bm_cluster_bits b \<le> 18446744073709551616"
      "\<And>y. unat blk \<le> unat y \<Longrightarrow> unat y < unat blk + unat num \<Longrightarrow> y \<in> gb_univ (Bitmap64 b)"
    and run: "0 < num" "unat (s_first_data_block (fs_super fs)) \<le> unat blk" "unat blk + unat num \<le> unat (ext2fs_blocks_count (fs_super fs))"
    and inuse: "inuse \<noteq> 0"
  shows "\<exists>b' fs'. ext2fs_block_alloc_stats_range adr (ext2fs_blkmap64_bitarray ok1 ok2 junk base) call st blk num inuse
      = (let st' = st\<lparr>al_fs := ext2fs_mark_bb_dirty (ext2fs_mark_super_dirty fs'), al_block_map := Bitmap64 b'\<rparr>
         in case al_range_cb st of None \<Rightarrow> Some st' | Some f \<Rightarrow> call f (blk + ucast num) 0 s st')
    \<and> gb_ok ba_ok (Bitmap64 b')
    \<and> gb_bits ba_bits (Bitmap64 b') = (if inuse > 0 then gb_bits ba_bits (Bitmap64 b) \<union> gb_run (Bitmap64 b) blk num
        else gb_bits ba_bits (Bitmap64 b) - gb_run (Bitmap64 b) blk num)
    \<and> blocks_frame fs fs'
    \<and> (\<forall>g < fs_group_desc_count fs. range_post adr s ratio fs fs' g (run_in_group fs (unat blk) (unat num) g))
    \<and> ext2fs_free_blocks_count (fs_super fs') = cut64 (fs_wide fs) (ext2fs_free_blocks_count (fs_super fs) - of_int s * ucast num)"
proof -
  have "unat (blk + ucast num) = unat blk + unat num"
    using run(3) unat_u64_less [of "ext2fs_blocks_count (fs_super fs)"] by (subst unat_add_u64) (simp_all del: unat_u64_less)
  then have guard: "\<not> blk + ucast num > ext2fs_blocks_count (fs_super (al_fs st))" using run(3) by (simp add: word_less_nat_alt fs_def)
  let ?ops = "ext2fs_blkmap64_bitarray ok1 ok2 junk base"
  have m: "\<exists>b'. ext2fs_mark_block_bitmap_range2 ?ops (Bitmap64 b) blk num = Some (Bitmap64 b') \<and> gb_ok ba_ok (Bitmap64 b')
      \<and> gb_bits ba_bits (Bitmap64 b') = gb_bits ba_bits (Bitmap64 b) \<union> gb_run (Bitmap64 b) blk num"
    by (rule ba.gb_range2_64(1) [OF map(2) run(1) map(3)]) (rule map(4))
  have u: "\<exists>b'. ext2fs_unmark_block_bitmap_range2 ?ops (Bitmap64 b) blk num = Some (Bitmap64 b') \<and> gb_ok ba_ok (Bitmap64 b')
      \<and> gb_bits ba_bits (Bitmap64 b') = gb_bits ba_bits (Bitmap64 b) - gb_run (Bitmap64 b) blk num"
    by (rule ba.gb_range2_64(2) [OF map(2) run(1) map(3)]) (rule map(4))
  obtain b' where b': "(if inuse > 0 then ext2fs_mark_block_bitmap_range2 (ext2fs_blkmap64_bitarray ok1 ok2 junk base) (al_block_map st) blk num
        else ext2fs_unmark_block_bitmap_range2 (ext2fs_blkmap64_bitarray ok1 ok2 junk base) (al_block_map st) blk num) = Some (Bitmap64 b')"
    "gb_ok ba_ok (Bitmap64 b')" "gb_bits ba_bits (Bitmap64 b') = (if inuse > 0 then gb_bits ba_bits (Bitmap64 b) \<union> gb_run (Bitmap64 b) blk num
        else gb_bits ba_bits (Bitmap64 b) - gb_run (Bitmap64 b) blk num)"
    using m u unfolding map(1) by (cases "inuse > 0") auto
  have "unat num < 4294967296" by simp
  from range_loop_run [OF ok this run(2,3), of adr s] obtain fs' where
    fs': "range_loop adr fs blk num s = Some (fs', blk + ucast num, 0)" "blocks_frame fs fs'"
      "\<forall>g < fs_group_desc_count fs. range_post adr s ratio fs fs' g (run_in_group fs (unat blk) (unat num) g)"
      "ext2fs_free_blocks_count (fs_super fs') = cut64 (fs_wide fs) (ext2fs_free_blocks_count (fs_super fs) - of_int s * ucast num)"
    by auto
  have "ext2fs_block_alloc_stats_range adr (ext2fs_blkmap64_bitarray ok1 ok2 junk base) call st blk num inuse
      = (let st' = st\<lparr>al_fs := ext2fs_mark_bb_dirty (ext2fs_mark_super_dirty fs'), al_block_map := Bitmap64 b'\<rparr>
         in case al_range_cb st of None \<Rightarrow> Some st' | Some f \<Rightarrow> call f (blk + ucast num) 0 s st')"
    unfolding ext2fs_block_alloc_stats_range_def b'(1) using guard inuse fs'(1)
    by (simp add: Let_def s_def [symmetric] fs_def)
  with b'(2,3) fs'(2-4) show ?thesis by blast
qed

text \<open>Blocks 4 to 9 of a file system with a bitmap from 1 to 14, in one group.\<close>

definition block_example :: "(u8 list, nat) alloc_state" where
  "block_example = \<lparr>al_fs = fs_csum_example, al_block_map = Bitmap64 ba_example, al_inode_map = NullBitmap, al_block_cb = None, al_range_cb = Some 7,
     al_gab = None, al_gab2 = None, al_new_range = None\<rparr>"

lemma block_example_ok: "alloc_table_ok (al_fs block_example)" "fs_geometry_ok (al_fs block_example)"
  "ext2fs_blocks_count (fs_super (al_fs block_example)) = 40" "gb_ok ba_ok (Bitmap64 ba_example)"
proof -
  have e: "al_fs block_example = fs_csum_example" by (simp add: block_example_def)
  have sz: "EXT2_DESC_SIZE (fs_super fs_csum_example) = 64"
    by (simp add: fs_csum_example_def fs_example_def EXT2_DESC_SIZE_def ext2fs_has_feature_64bit_def)
  have "desc_table_ok fs_csum_example"
    by (simp add: desc_table_ok_def fs_csum_example_def fs_example_def EXT2_BLOCK_SIZE_def EXT2_DESC_SIZE_def ext2fs_has_feature_64bit_def)
  then show "alloc_table_ok (al_fs block_example)"
    by (simp add: e alloc_table_ok_def desc_whole_def sz) (simp add: fs_csum_example_def fs_example_def)
  show c: "ext2fs_blocks_count (fs_super (al_fs block_example)) = 40"
    by (simp add: e ext2fs_blocks_count_def fs_csum_example_def fs_example_def ext2fs_has_feature_64bit_def)
  show "fs_geometry_ok (al_fs block_example)" unfolding fs_geometry_ok_def c by (simp add: e fs_csum_example_def fs_example_def)
  show "gb_ok ba_ok (Bitmap64 ba_example)" using gb_example_ok(2) by (simp add: gb_plain_def)
qed

theorem block_alloc_stats_range_correct_witness:
  "\<exists>b' fs'. ext2fs_block_alloc_stats_range 0 (ext2fs_blkmap64_bitarray True True (\<lambda>_. 0) 0) (\<lambda>_ _ _ _. Some) block_example 4 6 1
      = Some (block_example\<lparr>al_fs := ext2fs_mark_bb_dirty (ext2fs_mark_super_dirty fs'), al_block_map := Bitmap64 b'\<rparr>)
    \<and> gb_ok ba_ok (Bitmap64 b')
    \<and> gb_bits ba_bits (Bitmap64 b') = gb_bits ba_bits (Bitmap64 ba_example) \<union> gb_run (Bitmap64 ba_example) 4 6
    \<and> blocks_frame (al_fs block_example) fs'
    \<and> range_post 0 1 1 (al_fs block_example) fs' 0 (run_in_group (al_fs block_example) 4 6 0)
    \<and> ext2fs_free_blocks_count (fs_super fs') = cut64 (fs_wide (al_fs block_example))
        (ext2fs_free_blocks_count (fs_super (al_fs block_example)) - 6)"
proof -
  note inst = block_alloc_stats_range_correct [where st = block_example and blk = 4 and num = 6 and inuse = 1 and b = ba_example and ratio = 1
      and call = "\<lambda>_ _ _ _. Some" and adr = 0 and ?ok1.0 = True and ?ok2.0 = True and junk = "\<lambda>_. 0" and base = 0]
  have g: "(0 :: u32) < fs_group_desc_count (al_fs block_example)" "al_range_cb block_example = Some 7"
    by (simp_all add: block_example_def fs_csum_example_def fs_example_def)
  from inst [OF block_example_ok(1,2) _ _ block_example_ok(4)] obtain b' fs' where r:
    "ext2fs_block_alloc_stats_range 0 (ext2fs_blkmap64_bitarray True True (\<lambda>_. 0) 0) (\<lambda>_ _ _ _. Some) block_example 4 6 1
      = Some (block_example\<lparr>al_fs := ext2fs_mark_bb_dirty (ext2fs_mark_super_dirty fs'), al_block_map := Bitmap64 b'\<rparr>)"
    "gb_ok ba_ok (Bitmap64 b')" "gb_bits ba_bits (Bitmap64 b') = gb_bits ba_bits (Bitmap64 ba_example) \<union> gb_run (Bitmap64 ba_example) 4 6"
    "blocks_frame (al_fs block_example) fs'"
    "\<forall>g < fs_group_desc_count (al_fs block_example). range_post 0 1 1 (al_fs block_example) fs' g (run_in_group (al_fs block_example) 4 6 g)"
    "ext2fs_free_blocks_count (fs_super fs') = cut64 (fs_wide (al_fs block_example)) (ext2fs_free_blocks_count (fs_super (al_fs block_example)) - 6)"
    unfolding block_example_ok(3)
    by (auto simp add: g block_example_def gb_univ_def EXT2FS_CLUSTER_RATIO_def fs_csum_example_def fs_example_def word_le_nat_alt ba_example_def Let_def)
  from r(5) g(1) have "range_post 0 1 1 (al_fs block_example) fs' 0 (run_in_group (al_fs block_example) 4 6 0)" by blast
  with r(1-4,6) show ?thesis by blast
qed

end
