(* ===== verification/Alloc.thy ===== *)
theory Alloc
  imports Alloc_Stats
begin

unbundle bit_operations_syntax

text \<open>
  \<^verbatim>\<open>lib/ext2fs/alloc.c\<close>: the initialisation of groups and the search for a free inode, here; the search for and
  the allocation of blocks follow in \<open>Alloc_Blocks\<close> and \<open>Alloc_Range\<close>. A bitmap argument that is \<open>NullBitmap\<close> stands for the
  null pointer, with which the bitmap of the file system is used; the searches return the state of the file
  system and the bitmap that was searched. The functions that a client can install, reading the block bitmap
  from the device and writing zeroes to the device are arguments, collected in a record. \<open>None\<close> is a loop that
  does not end or an operation without a meaning in C.
\<close>

record ('p, 'f, 'c) alloc_env =
  env_gab :: "'f \<Rightarrow> u64 \<Rightarrow> ('p, 'f) alloc_state \<Rightarrow> ((errcode + u64) \<times> ('p, 'f) alloc_state) ub"
  env_gab2 :: "'f \<Rightarrow> u64 \<Rightarrow> 'c option \<Rightarrow> ('p, 'f) alloc_state \<Rightarrow> ((errcode + u64) \<times> ('p, 'f) alloc_state) ub"
  env_new_range :: "'f \<Rightarrow> u32 \<Rightarrow> u64 \<Rightarrow> u64 \<Rightarrow> ('p, 'f) alloc_state \<Rightarrow> ((errcode + u64 \<times> u64) \<times> ('p, 'f) alloc_state) ub"
  env_block_cb :: "'f \<Rightarrow> u64 \<Rightarrow> int \<Rightarrow> ('p, 'f) alloc_state \<Rightarrow> ('p, 'f) alloc_state ub"
  env_range_cb :: "'f \<Rightarrow> u64 \<Rightarrow> u32 \<Rightarrow> int \<Rightarrow> ('p, 'f) alloc_state \<Rightarrow> ('p, 'f) alloc_state ub"
  env_read_block_bitmap :: "('p, 'f) alloc_state \<Rightarrow> (errcode \<times> ('p, 'f) alloc_state) ub"
  env_zero_blocks :: "('p, 'f) alloc_state \<Rightarrow> u64 \<Rightarrow> u32 \<Rightarrow> (errcode \<times> ('p, 'f) alloc_state) ub"

subsection \<open>The wrappers of the searches and the macros\<close>

definition ext2fs_find_first_zero_block_bitmap2 :: "'p bitmap_ops \<Rightarrow> 'p gbitmap \<Rightarrow> u64 \<Rightarrow> u64 \<Rightarrow> (errcode + u64) ub" where
  "ext2fs_find_first_zero_block_bitmap2 ops bitmap start end = ext2fs_find_first_zero_generic_bmap ops bitmap start end"

definition ext2fs_find_first_zero_inode_bitmap2 :: "'p bitmap_ops \<Rightarrow> 'p gbitmap \<Rightarrow> u32 \<Rightarrow> u32 \<Rightarrow> (errcode + u32) ub" where
  "ext2fs_find_first_zero_inode_bitmap2 ops bitmap start end =
     map_option (map_sum id ucast) (ext2fs_find_first_zero_generic_bmap ops bitmap (ucast start) (ucast end))"

definition ext2fs_find_first_set_block_bitmap2 :: "'p bitmap_ops \<Rightarrow> 'p gbitmap \<Rightarrow> u64 \<Rightarrow> u64 \<Rightarrow> (errcode + u64) ub" where
  "ext2fs_find_first_set_block_bitmap2 ops bitmap start end = ext2fs_find_first_set_generic_bmap ops bitmap start end"

definition ext2fs_fast_unmark_inode_bitmap2 :: "'p bitmap_ops \<Rightarrow> 'p gbitmap \<Rightarrow> u32 \<Rightarrow> (u32 \<times> 'p gbitmap) ub" where
  "ext2fs_fast_unmark_inode_bitmap2 ops bitmap inode = ext2fs_unmark_generic_bmap ops bitmap (ucast inode)"

definition ext2fs_fast_test_block_bitmap_range2 :: "'p bitmap_ops \<Rightarrow> 'p gbitmap \<Rightarrow> u64 \<Rightarrow> u32 \<Rightarrow> (errcode + u32) ub" where
  "ext2fs_fast_test_block_bitmap_range2 ops bitmap block num = ext2fs_test_block_bitmap_range2 ops bitmap block num"

definition EXT2_FIRST_INODE :: "super_block \<Rightarrow> u32" where
  "EXT2_FIRST_INODE s = (if s_rev_level s = 0 then 11 else s_first_ino s)"

definition EXT2FS_CLUSTER_MASK :: "filsys \<Rightarrow> nat ub" where
  "EXT2FS_CLUSTER_MASK fs = map_option (\<lambda>ratio. ratio - 1) (EXT2FS_CLUSTER_RATIO fs)"

subsection \<open>Groups that are not initialised\<close>

definition ext2fs_clear_block_uninit :: "nat \<Rightarrow> filsys \<Rightarrow> u32 \<Rightarrow> filsys ub" where
  "ext2fs_clear_block_uninit adr fs grp =
     (if grp \<ge> fs_group_desc_count fs \<or> \<not> ext2fs_has_group_desc_csum fs then Some fs
      else do {
        t \<leftarrow> ext2fs_bg_flags_test fs grp 0x0002;
        if t = 0 then Some fs
        else do {
          fs \<leftarrow> ext2fs_bg_flags_clear fs grp 0x0002;
          fs \<leftarrow> ext2fs_group_desc_csum_set adr fs grp;
          Some (ext2fs_mark_bb_dirty (ext2fs_mark_super_dirty fs))
        }
      })"

text \<open>The loop of \<^verbatim>\<open>check_inode_uninit\<close>, with \<open>n\<close> rounds left.\<close>

fun uninit_loop :: "'p bitmap_ops \<Rightarrow> 'p gbitmap \<Rightarrow> nat \<Rightarrow> u32 \<Rightarrow> 'p gbitmap ub" where
  "uninit_loop ops m 0 ino = Some m"
| "uninit_loop ops m (Suc n) ino = do {
     (_, m) \<leftarrow> ext2fs_fast_unmark_inode_bitmap2 ops m ino;
     uninit_loop ops m n (ino + 1)
   }"

definition check_inode_uninit :: "nat \<Rightarrow> 'p bitmap_ops \<Rightarrow> filsys \<Rightarrow> 'p gbitmap \<Rightarrow> u32 \<Rightarrow> (filsys \<times> 'p gbitmap) ub" where
  "check_inode_uninit adr ops fs m grp =
     (if grp \<ge> fs_group_desc_count fs \<or> \<not> ext2fs_has_group_desc_csum fs then Some (fs, m)
      else do {
        t \<leftarrow> ext2fs_bg_flags_test fs grp 0x0001;
        if t = 0 then Some (fs, m)
        else do {
          m \<leftarrow> uninit_loop ops m (unat (s_inodes_per_group (fs_super fs))) (grp * s_inodes_per_group (fs_super fs) + 1);
          fs \<leftarrow> ext2fs_bg_flags_clear fs grp 0x0001;
          fs \<leftarrow> ext2fs_bg_flags_clear fs grp 0x0002;
          fs \<leftarrow> ext2fs_group_desc_csum_set adr fs grp;
          Some (ext2fs_mark_super_dirty (ext2fs_mark_ib_dirty fs), m)
        }
      })"

subsection \<open>A free inode\<close>

text \<open>
  The loop of \<^verbatim>\<open>ext2fs_new_inode\<close>: the inode at which it stops, or the error it returns. The number of inodes
  per group is a divisor.
\<close>

partial_function (option) new_inode_loop ::
    "nat \<Rightarrow> 'p bitmap_ops \<Rightarrow> u32 \<Rightarrow> filsys \<Rightarrow> 'p gbitmap \<Rightarrow> u32 \<Rightarrow> ((errcode + u32) \<times> filsys \<times> 'p gbitmap) ub" where
  [code]: "new_inode_loop adr ops start_inode fs m i =
     (let ipg = s_inodes_per_group (fs_super fs); ninodes = s_inodes_count (fs_super fs) in
      if ipg = 0 then None
      else do {
        (fs, m) \<leftarrow> check_inode_uninit adr ops fs m ((i - 1) div ipg);
        let upto = i + (ipg - (i - 1) mod ipg);
        let upto = (if i < start_inode \<and> upto \<ge> start_inode then start_inode - 1 else upto);
        let upto = (if upto > ninodes then ninodes else upto);
        r \<leftarrow> ext2fs_find_first_zero_inode_bitmap2 ops m i upto;
        case r of
          Inr first_zero \<Rightarrow> Some (Inr first_zero, fs, m)
        | Inl retval \<Rightarrow>
            if retval \<noteq> ENOENT then Some (Inl EXT2_ET_INODE_ALLOC_FAIL, fs, m)
            else do {
              let i = (if upto + 1 > ninodes then EXT2_FIRST_INODE (fs_super fs) else upto + 1);
              if i \<noteq> start_inode then new_inode_loop adr ops start_inode fs m i else Some (Inr i, fs, m)
            }
      })"

text \<open>The third component is the bitmap that was searched; with \<open>NullBitmap\<close> it is also the new one of the file system.\<close>

definition ext2fs_new_inode ::
    "nat \<Rightarrow> 'p bitmap_ops \<Rightarrow> ('p, 'f) alloc_state \<Rightarrow> u32 \<Rightarrow> 'p gbitmap \<Rightarrow> ((errcode + u32) \<times> ('p, 'f) alloc_state \<times> 'p gbitmap) ub" where
  "ext2fs_new_inode adr ops st dir mp =
     (let fs = al_fs st; ipg = s_inodes_per_group (fs_super fs); m = (if mp = NullBitmap then al_inode_map st else mp) in
      if fs_magic fs \<noteq> EXT2_ET_MAGIC_EXT2FS_FILSYS then Some (Inl EXT2_ET_MAGIC_EXT2FS_FILSYS, st, mp)
      else if m = NullBitmap then Some (Inl EXT2_ET_NO_INODE_BITMAP, st, mp)
      else do {
        start_inode \<leftarrow> (if dir > 0 then (if ipg = 0 then None else Some ((dir - 1) div ipg * ipg + 1)) else Some 0);
        let start_inode = (if start_inode < EXT2_FIRST_INODE (fs_super fs) then EXT2_FIRST_INODE (fs_super fs) else start_inode);
        if start_inode > s_inodes_count (fs_super fs) then Some (Inl EXT2_ET_INODE_ALLOC_FAIL, st, mp)
        else do {
          (r, fs, m) \<leftarrow> new_inode_loop adr ops start_inode fs m start_inode;
          let st = (if mp = NullBitmap then st\<lparr>al_fs := fs, al_inode_map := m\<rparr> else st\<lparr>al_fs := fs\<rparr>);
          case r of
            Inl e \<Rightarrow> Some (Inl e, st, m)
          | Inr i \<Rightarrow> do {
              t \<leftarrow> ext2fs_test_inode_bitmap2 ops m i;
              Some (if t \<noteq> 0 then Inl EXT2_ET_INODE_ALLOC_FAIL else Inr i, st, m)
            }
        }
      })"

subsection \<open>Clearing the flags of a group\<close>

text \<open>A group whose bitmap is flagged as not initialised, and the file system after the flags \<open>f\<close> of the group were cleared.\<close>

definition group_uninit :: "u16 \<Rightarrow> filsys \<Rightarrow> u32 \<Rightarrow> bool" where
  "group_uninit f fs g \<longleftrightarrow> g < fs_group_desc_count fs \<and> ext2fs_has_group_desc_csum fs \<and> bg_flags (desc_of fs g) AND f \<noteq> 0"

definition flags_cleared :: "nat \<Rightarrow> u16 \<Rightarrow> filsys \<Rightarrow> u32 \<Rightarrow> filsys \<Rightarrow> bool" where
  "flags_cleared adr f fs g fs' \<longleftrightarrow>
     (\<exists>x. fs' = (with_desc fs g x)\<lparr>fs_flags := fs_flags fs'\<rparr> \<and> bg_tail x = bg_tail (desc_of fs g)
        \<and> desc_view_of (fs_wide fs) x = (desc_view_of (fs_wide fs) (desc_of fs g))
            \<lparr>v_flags := bg_flags (desc_of fs g) AND NOT f, v_checksum := v_checksum (desc_view_of (fs_wide fs) x)\<rparr>
        \<and> ext2fs_group_desc_csum_verify adr fs' g = Some True)"

lemma view_flags [simp]: "v_flags (desc_view_of w d) = bg_flags d"
  by (simp add: desc_view_of_def)

lemma flags_cleared_facts:
  assumes "flags_cleared adr f fs g fs'"
  shows "fs_super fs' = fs_super fs" "fs_group_desc_count fs' = fs_group_desc_count fs" "alloc_table_ok fs' = alloc_table_ok fs"
    "fs_geometry_ok fs' = fs_geometry_ok fs" "fs_magic fs' = fs_magic fs" "fs_cluster_ratio_bits fs' = fs_cluster_ratio_bits fs"
proof -
  from assms obtain x fl where fs': "fs' = (with_desc fs g x)\<lparr>fs_flags := fl\<rparr>" and t: "bg_tail x = bg_tail (desc_of fs g)"
    unfolding flags_cleared_def by blast
  have "bg_tail ((fs_group_desc fs)[unat g := x] ! i) = bg_tail (fs_group_desc fs ! i)" for i
    using t by (cases "unat g = i"; cases "i < length (fs_group_desc fs)") (simp_all add: list_update_beyond)
  then show "alloc_table_ok fs' = alloc_table_ok fs" by (simp add: fs' alloc_table_ok_def desc_table_ok_def desc_whole_def)
  show "fs_super fs' = fs_super fs" "fs_group_desc_count fs' = fs_group_desc_count fs" "fs_geometry_ok fs' = fs_geometry_ok fs" "fs_magic fs' = fs_magic fs"
    "fs_cluster_ratio_bits fs' = fs_cluster_ratio_bits fs" by (simp_all add: fs' fs_geometry_ok_def)
qed

lemma flags_cleared_csum:
  assumes ok: "alloc_table_ok fs" "g < fs_group_desc_count fs" and d: "bg_tail d = bg_tail (desc_of fs g)"
    "desc_view_of (fs_wide fs) d = (desc_view_of (fs_wide fs) (desc_of fs g))\<lparr>v_flags := bg_flags (desc_of fs g) AND NOT f\<rparr>"
  shows "\<exists>fs1. ext2fs_group_desc_csum_set adr (with_desc fs g d) g = Some fs1 \<and> fs_flags fs1 = fs_flags fs \<and> (\<forall>fl. flags_cleared adr f fs g (fs1\<lparr>fs_flags := fl\<rparr>))"
proof -
  obtain x where x: "ext2fs_group_desc_csum_set adr (with_desc fs g d) g = Some (with_desc fs g x)" "bg_tail x = bg_tail d"
    "desc_view_of (fs_wide fs) x = (desc_view_of (fs_wide fs) d)\<lparr>v_checksum := v_checksum (desc_view_of (fs_wide fs) x)\<rparr>"
    "ext2fs_group_desc_csum_verify adr (with_desc fs g x) g = Some True" using csum_step [OF ok d(1)] by blast
  have t: "desc_table_ok fs" "length (s_uuid (fs_super fs)) = 16" "desc_whole fs g" using ok by (simp_all add: alloc_table_ok_def)
  have i: "unat g < length (fs_group_desc fs)" using desc_table_index [OF t(1) ok(2)] by simp
  have "ext2fs_group_desc_csum_verify adr ((with_desc fs g x)\<lparr>fs_flags := fl\<rparr>) g = ext2fs_group_desc_csum_verify adr (with_desc fs g x) g" for fl
    by (rule group_desc_csum_verify_cong) (use t ok(2) i x(2) d(1) in \<open>simp_all add: csum_same_super desc_whole_def desc_table_ok_def\<close>)
  moreover have "desc_view_of (fs_wide fs) x = (desc_view_of (fs_wide fs) (desc_of fs g))
      \<lparr>v_flags := bg_flags (desc_of fs g) AND NOT f, v_checksum := v_checksum (desc_view_of (fs_wide fs) x)\<rparr>" using x(3) unfolding d(2) .
  ultimately have "flags_cleared adr f fs g ((with_desc fs g x)\<lparr>fs_flags := fl\<rparr>)" for fl
    unfolding flags_cleared_def using x(2,4) d(1) by (intro exI [of _ x]) simp
  with x(1) show ?thesis by (intro exI [of _ "with_desc fs g x"]) simp
qed

lemma flags_test_eq:
  assumes "alloc_table_ok fs" "g < fs_group_desc_count fs"
  shows "ext2fs_bg_flags_test fs g f = Some (bg_flags (desc_of fs g) AND f)"
  using assms desc_table_index [of fs g] by (simp add: ext2fs_bg_flags_test_def bg_read_eq alloc_table_ok_def)

lemma clear_block_uninit_run:
  assumes ok: "alloc_table_ok fs"
  shows "\<exists>fs'. ext2fs_clear_block_uninit adr fs g = Some fs' \<and> (if group_uninit 2 fs g then flags_cleared adr 2 fs g fs' else fs' = fs)
    \<and> fs_flags fs' OR 38 = fs_flags fs OR 38"
proof (cases "group_uninit 2 fs g")
  case True
  then have g: "g < fs_group_desc_count fs" "ext2fs_has_group_desc_csum fs" "bg_flags (desc_of fs g) AND 2 \<noteq> 0" by (simp_all add: group_uninit_def)
  let ?d = "clear_flags 2 (desc_of fs g)"
  have t: "desc_table_ok fs" using ok by (simp add: alloc_table_ok_def)
  have s: "ext2fs_bg_flags_clear fs g 2 = Some (with_desc fs g ?d)" using group_steps(5) [OF t g(1), of "desc_of fs g" 2] by simp
  obtain fs1 where fs1: "ext2fs_group_desc_csum_set adr (with_desc fs g ?d) g = Some fs1" "fs_flags fs1 = fs_flags fs"
    "flags_cleared adr 2 fs g (fs1\<lparr>fs_flags := fs_flags (ext2fs_mark_bb_dirty (ext2fs_mark_super_dirty fs1))\<rparr>)"
    using flags_cleared_csum [OF ok g(1), of ?d 2 adr] by (auto simp: set_views)
  have "ext2fs_clear_block_uninit adr fs g = Some (ext2fs_mark_bb_dirty (ext2fs_mark_super_dirty fs1))"
    using g by (simp add: ext2fs_clear_block_uninit_def flags_test_eq [OF ok g(1)] s fs1(1))
  with True fs1(2,3) show ?thesis by (simp add: ext2fs_mark_bb_dirty_def ext2fs_mark_super_dirty_def or.assoc)
next
  case False
  then show ?thesis
    by (cases "g < fs_group_desc_count fs") (auto simp: ext2fs_clear_block_uninit_def group_uninit_def flags_test_eq [OF ok])
qed

subsection \<open>The search for an inode\<close>

text \<open>An inode bitmap over the numbers 1 to \<open>n\<close>, and its marks.\<close>

definition inode_map_ok :: "('p bitmap64 \<Rightarrow> bool) \<Rightarrow> 'p bitmap64 \<Rightarrow> u32 \<Rightarrow> bool" where
  "inode_map_ok good b n \<longleftrightarrow> gb_plain good (Bitmap64 b) \<and> gb_univ (Bitmap64 b) = {k. 1 \<le> unat k \<and> unat k \<le> unat n}"

definition used_inodes :: "('p bitmap64 \<Rightarrow> u64 set) \<Rightarrow> 'p bitmap64 \<Rightarrow> nat set" where
  "used_inodes bits b = unat ` gb_bits bits (Bitmap64 b)"

lemma used_inodes_iff: "i < 18446744073709551616 \<Longrightarrow> i \<in> used_inodes bits b \<longleftrightarrow> of_nat i \<in> gb_bits bits (Bitmap64 b)"
  by (auto simp: used_inodes_def image_iff) (metis unat_of_nat_u64)

lemma used_inodes_word: "unat (i :: u32) \<in> used_inodes bits b \<longleftrightarrow> ucast i \<in> gb_bits bits (Bitmap64 b)"
proof -
  have "unat i < 18446744073709551616" using unat_u32_less [of i] by linarith
  moreover have "(of_nat (unat i) :: u64) = ucast i" by (simp add: word_unat_eq_iff)
  ultimately show ?thesis by (simp add: used_inodes_iff)
qed

context bitmap_search
begin

lemma find_zero_inode:
  assumes ok: "inode_map_ok inv b n" and i: "1 \<le> i" "i \<le> lim" "lim \<le> n"
  shows "\<exists>r. ext2fs_find_first_zero_inode_bitmap2 ops (Bitmap64 b) i lim = Some r
    \<and> (case r of
         Inl c \<Rightarrow> c = ENOENT \<and> {unat i..unat lim} \<subseteq> used_inodes bits b
       | Inr v \<Rightarrow> i \<le> v \<and> v \<le> lim \<and> unat v \<notin> used_inodes bits b \<and> {unat i..<unat v} \<subseteq> used_inodes bits b)"
proof -
  have plain: "gb_ok inv (Bitmap64 b)" "bm_cluster_bits b = 0" "inv b"
    using ok by (simp_all add: inode_map_ok_def gb_plain_def gb_ok_def gb_shift_def)
  have univ: "gb_univ (Bitmap64 b) = {k. 1 \<le> unat k \<and> unat k \<le> unat n}" using ok by (simp add: inode_map_ok_def)
  then have mem: "bm_start b \<le> k \<and> k \<le> bm_end b \<longleftrightarrow> 1 \<le> unat k \<and> unat k \<le> unat n" for k
    using plain(2) by (auto simp: gb_univ_def set_eq_iff)
  have "unat (bm_end b) \<le> unat n" using mem [of "bm_end b"] inv_range [OF plain(3)] by simp
  then have "unat (bm_end b) < 4294967296" by (rule le_less_trans [OF _ unat_u32_less])
  then have fin: "bm_end b \<noteq> 0xffffffffffffffff" by auto
  have ie: "bm_start b \<le> ucast i" "ucast lim \<le> bm_end b" "(ucast i :: u64) \<le> ucast lim"
    using mem [of "ucast i"] mem [of "ucast lim"] i by (auto simp: word_le_nat_alt)
  from gb_find_first_zero_least [of b "ucast i" "ucast lim"] plain ie fin obtain r where
    r: "ext2fs_find_first_zero_generic_bmap ops (Bitmap64 b) (ucast i) (ucast lim) = Some r"
      "is_first (\<lambda>x. x \<notin> gb_bits bits (Bitmap64 b)) (ucast i) (ucast lim) r" by auto
  have low: "of_nat k \<in> gb_bits bits (Bitmap64 b) \<longleftrightarrow> k \<in> used_inodes bits b" "unat (of_nat k :: u64) = k" if "k < 4294967296" for k
    using that by (simp_all add: used_inodes_iff unat_of_nat_u64)
  show ?thesis
  proof (cases r)
    case (Inl c)
    have "k \<in> used_inodes bits b" if "k \<in> {unat i..unat lim}" for k
    proof -
      have "k \<le> unat lim" using that by simp
      then have k: "k < 4294967296" by (rule le_less_trans [OF _ unat_u32_less])
      with that r(2) Inl low [OF k] show ?thesis
        by (simp add: is_first_def word_le_nat_alt)
    qed
    with r Inl show ?thesis by (auto simp: ext2fs_find_first_zero_inode_bitmap2_def is_first_def)
  next
    case (Inr v)
    with r(2) have v: "ucast i \<le> v" "v \<le> ucast lim" "v \<notin> gb_bits bits (Bitmap64 b)" "\<And>x. ucast i \<le> x \<Longrightarrow> x < v \<Longrightarrow> x \<in> gb_bits bits (Bitmap64 b)"
      by (auto simp: is_first_def)
    have "unat v \<le> unat lim" using v(2) by (simp add: word_le_nat_alt)
    then have uv: "unat v < 4294967296" by (rule le_less_trans [OF _ unat_u32_less])
    then have cv: "unat (ucast v :: u32) = unat v" by (simp add: unat_ucast_64_32)
    have "k \<in> used_inodes bits b" if "k \<in> {unat i..<unat v}" for k
    proof -
      have k: "k < 4294967296" using that uv by simp
      have "of_nat k \<in> gb_bits bits (Bitmap64 b)" by (rule v(4)) (use that low(2) [OF k] in \<open>simp_all add: word_le_nat_alt word_less_nat_alt\<close>)
      then show ?thesis using low(1) [OF k] by simp
    qed
    moreover have "unat v \<notin> used_inodes bits b" using v(3) low(1) [OF uv] by simp
    ultimately show ?thesis using r(1) Inr v(1,2)
      by (intro exI [of _ "Inr (ucast v)"]) (auto simp: ext2fs_find_first_zero_inode_bitmap2_def word_le_nat_alt cv)
  qed
qed

lemma unmark_bitmap64:
  assumes "inode_map_ok inv b n"
  shows "\<exists>r b'. ext2fs_fast_unmark_inode_bitmap2 ops (Bitmap64 b) k = Some (r, Bitmap64 b') \<and> inode_map_ok inv b' n
    \<and> used_inodes bits b' = used_inodes bits b - {unat k}"
proof -
  have plain: "gb_ok inv (Bitmap64 b)" "gb_shift (Bitmap64 b) = 0" "EXT2FS_IS_64_BITMAP (bm_magic b)"
    using assms by (simp_all add: inode_map_ok_def gb_plain_def gb_ok_def)
  from gb_unmark_all [OF plain(1), of "ucast k"] obtain r m' where
    m: "ext2fs_unmark_generic_bmap ops (Bitmap64 b) (ucast k) = Some (r, m')" "gb_ok inv m'" "gb_univ m' = gb_univ (Bitmap64 b)"
      "gb_shift m' = gb_shift (Bitmap64 b)" "gb_bits bits m' = gb_bits bits (Bitmap64 b) - gb_unit (Bitmap64 b) (ucast k)" by blast
  then obtain b' where b': "m' = Bitmap64 b'"
    using plain(3) by (auto simp: ext2fs_unmark_generic_bmap_def gb_case_def bind_eq_Some_conv split: if_splits)
  have "gb_unit (Bitmap64 b) (ucast k) = {ucast k}" using plain(2) by (simp add: gb_unit_plain)
  then have "gb_bits bits (Bitmap64 b') = gb_bits bits (Bitmap64 b) - {ucast k}" using m(5) unfolding b' by simp
  moreover have "inj unat" by (rule injI) (simp add: word_unat_eq_iff)
  ultimately have "used_inodes bits b' = used_inodes bits b - {unat k}"
    unfolding used_inodes_def by (simp add: image_set_diff [of unat])
  moreover have "inode_map_ok inv b' n" using assms m(2-4) plain(2) unfolding b' by (simp add: inode_map_ok_def gb_plain_def)
  ultimately show ?thesis using m(1) unfolding b' by (intro exI [of _ r] exI [of _ b']) (simp add: ext2fs_fast_unmark_inode_bitmap2_def)
qed

lemma uninit_loop_run:
  assumes "inode_map_ok inv b n" "unat ino + k < 4294967296"
  shows "\<exists>b'. uninit_loop ops (Bitmap64 b) k ino = Some (Bitmap64 b') \<and> inode_map_ok inv b' n
    \<and> used_inodes bits b' = used_inodes bits b - {unat ino..<unat ino + k}"
  using assms
proof (induction k arbitrary: b ino)
  case (Suc k)
  from unmark_bitmap64 [OF Suc.prems(1), of ino] obtain r b1 where
    b1: "ext2fs_fast_unmark_inode_bitmap2 ops (Bitmap64 b) ino = Some (r, Bitmap64 b1)" "inode_map_ok inv b1 n"
      "used_inodes bits b1 = used_inodes bits b - {unat ino}" by blast
  have s: "unat (ino + 1) = Suc (unat ino)" using Suc.prems(2) by (subst unat_add_u32) simp_all
  from Suc.IH [OF b1(2), of "ino + 1"] Suc.prems(2) s obtain b' where
    b': "uninit_loop ops (Bitmap64 b1) k (ino + 1) = Some (Bitmap64 b')" "inode_map_ok inv b' n"
      "used_inodes bits b' = used_inodes bits b1 - {Suc (unat ino)..<Suc (unat ino) + k}" by auto
  have "used_inodes bits b' = used_inodes bits b - {unat ino..<unat ino + Suc k}" unfolding b'(3) b1(3) by auto
  with b1(1) b'(1,2) show ?case by simp
qed simp

end

context bitmap_search
begin

lemma check_inode_uninit_run:
  assumes geo: "inode_geometry fs" and ok: "inode_map_ok inv b (s_inodes_count (fs_super fs))" and g: "g < fs_group_desc_count fs"
  shows "\<exists>fs' b'. check_inode_uninit adr ops fs (Bitmap64 b) g = Some (fs', Bitmap64 b') \<and> inode_map_ok inv b' (s_inodes_count (fs_super fs))
    \<and> (if group_uninit 1 fs g then flags_cleared adr 3 fs g fs' \<and> used_inodes bits b' = used_inodes bits b - group_inodes fs (unat g)
       else fs' = fs \<and> b' = b)"
proof (cases "group_uninit 1 fs g")
  case True
  let ?ipg = "s_inodes_per_group (fs_super fs)" and ?d1 = "clear_flags 1 (desc_of fs g)"
  let ?d2 = "clear_flags 2 ?d1"
  have tab: "alloc_table_ok fs" "desc_table_ok fs" using geo by (simp_all add: inode_geometry_def alloc_table_ok_def)
  have c: "ext2fs_has_group_desc_csum fs" "bg_flags (desc_of fs g) AND 1 \<noteq> 0" using True by (simp_all add: group_uninit_def)
  have gu: "unat g < unat (fs_group_desc_count fs)" using g by (simp add: word_less_nat_alt)
  have fit: "(unat g + 1) * unat ?ipg < 4294967295" by (rule group_inodes_bound [OF geo gu])
  have gi: "unat (g * ?ipg) = unat g * unat ?ipg" using fit by (simp add: unat_word_ariths)
  have first: "unat (g * ?ipg + 1) = unat g * unat ?ipg + 1" using fit gi by (subst unat_add_u32) (simp_all add: algebra_simps)
  have grp: "{unat (g * ?ipg + 1)..<unat (g * ?ipg + 1) + unat ?ipg} = group_inodes fs (unat g)"
    unfolding first by (auto simp: group_inodes_def algebra_simps)
  have "unat (g * ?ipg + 1) + unat ?ipg < 4294967296" unfolding first using fit by (simp add: algebra_simps)
  from uninit_loop_run [OF ok this] obtain b' where
    b': "uninit_loop ops (Bitmap64 b) (unat ?ipg) (g * ?ipg + 1) = Some (Bitmap64 b')" "inode_map_ok inv b' (s_inodes_count (fs_super fs))"
      "used_inodes bits b' = used_inodes bits b - group_inodes fs (unat g)" unfolding grp by blast
  have s1: "ext2fs_bg_flags_clear fs g 1 = Some (with_desc fs g ?d1)" using group_steps(5) [OF tab(2) g, of "desc_of fs g" 1] by simp
  have s2: "ext2fs_bg_flags_clear (with_desc fs g ?d1) g 2 = Some (with_desc fs g ?d2)" by (rule group_steps(5) [OF tab(2) g])
  have three: "(3 :: u16) = 1 OR 2" by simp
  have "(bg_flags (desc_of fs g) AND NOT 1) AND NOT 2 = bg_flags (desc_of fs g) AND NOT 3"
    by (simp only: three bit.de_Morgan_disj and.assoc)
  then have "\<exists>fs1. ext2fs_group_desc_csum_set adr (with_desc fs g ?d2) g = Some fs1 \<and> fs_flags fs1 = fs_flags fs \<and> (\<forall>fl. flags_cleared adr 3 fs g (fs1\<lparr>fs_flags := fl\<rparr>))"
    by (intro flags_cleared_csum [OF tab(1) g]) (simp_all add: set_views clear_flags_def desc_view_of_def)
  then obtain fs1 where fs1: "ext2fs_group_desc_csum_set adr (with_desc fs g ?d2) g = Some fs1" "\<And>fl. flags_cleared adr 3 fs g (fs1\<lparr>fs_flags := fl\<rparr>)" by blast
  have "check_inode_uninit adr ops fs (Bitmap64 b) g = Some (ext2fs_mark_super_dirty (ext2fs_mark_ib_dirty fs1), Bitmap64 b')"
    unfolding check_inode_uninit_def using c g by (simp add: flags_test_eq [OF tab(1) g] b'(1) s1 s2 fs1(1))
  moreover have "flags_cleared adr 3 fs g (ext2fs_mark_super_dirty (ext2fs_mark_ib_dirty fs1))"
    using fs1(2) by (simp add: ext2fs_mark_ib_dirty_def ext2fs_mark_super_dirty_def)
  ultimately show ?thesis using True b' by auto
next
  case False
  have "alloc_table_ok fs" using geo by (simp add: inode_geometry_def)
  with False g ok show ?thesis by (auto simp: check_inode_uninit_def group_uninit_def flags_test_eq)
qed

end

text \<open>
  What a successful search leaves: the inode \<open>v\<close> is not in use, and either nothing has changed or the group of
  \<open>v\<close> was flagged as not initialised, its flags are cleared and its inodes are unmarked.
\<close>

definition inode_found ::
    "nat \<Rightarrow> ('p bitmap64 \<Rightarrow> bool) \<Rightarrow> ('p bitmap64 \<Rightarrow> u64 set) \<Rightarrow> filsys \<Rightarrow> 'p bitmap64 \<Rightarrow> u32 \<Rightarrow> filsys \<Rightarrow> 'p bitmap64 \<Rightarrow> bool" where
  "inode_found adr good bits fs b v fs' b' \<longleftrightarrow>
     unat v \<notin> used_inodes bits b' \<and> inode_map_ok good b' (s_inodes_count (fs_super fs))
     \<and> (fs' = fs \<and> b' = b
        \<or> (\<exists>g. ext2fs_group_of_ino fs v = Some g \<and> group_uninit 1 fs g \<and> flags_cleared adr 3 fs g fs'
             \<and> used_inodes bits b' = used_inodes bits b - group_inodes fs (unat g)))"

text \<open>The inodes from \<open>s\<close> up to but not including \<open>i\<close>, around the end \<open>n\<close> to the first inode \<open>f\<close>.\<close>

definition cyc_before :: "nat \<Rightarrow> nat \<Rightarrow> nat \<Rightarrow> nat \<Rightarrow> nat set" where
  "cyc_before f n s i = (if s \<le> i then {s..<i} else {s..n} \<union> {f..<i})"

text \<open>The last number that one round of the search looks at: the first inode of the next group, unless the start or the end comes first.\<close>

definition round_end :: "nat \<Rightarrow> nat \<Rightarrow> nat \<Rightarrow> nat \<Rightarrow> nat" where
  "round_end p n s i = (let u = ((i - 1) div p + 1) * p + 1 in min n (if i < s \<and> s \<le> u then s - 1 else u))"

lemma round_end_bounds:
  assumes "0 < p" "1 \<le> i" "i \<le> n"
  shows "i \<le> round_end p n s i" "round_end p n s i \<le> n" "i < s \<Longrightarrow> round_end p n s i < s \<or> s \<le> i"
proof -
  have "i - 1 < ((i - 1) div p + 1) * p" using assms(1) by (simp add: dividend_less_div_times)
  with assms(2,3) show "i \<le> round_end p n s i" by (auto simp: round_end_def Let_def)
  show "round_end p n s i \<le> n" by (simp add: round_end_def Let_def)
  show "i < s \<Longrightarrow> round_end p n s i < s \<or> s \<le> i" by (auto simp: round_end_def Let_def min_def)
qed

lemma round_end_word:
  fixes fs :: filsys and i start :: u32
  defines "ipg \<equiv> s_inodes_per_group (fs_super fs)" and "n \<equiv> s_inodes_count (fs_super fs)"
  assumes geo: "inode_geometry fs" and i: "1 \<le> i" "i \<le> n" and s: "1 \<le> start"
  shows "unat (let lim = i + (ipg - (i - 1) mod ipg); lim = (if i < start \<and> lim \<ge> start then start - 1 else lim) in if lim > n then n else lim)
    = round_end (unat ipg) (unat n) (unat start) (unat i)"
    and "(i - 1) div ipg < fs_group_desc_count fs" and "unat i \<in> group_inodes fs (unat ((i - 1) div ipg))"
    and "ext2fs_group_of_ino fs i = Some ((i - 1) div ipg)"
proof -
  have p: "0 < unat ipg" "unat n < 4294967295" using geo by (simp_all add: inode_geometry_def ipg_def n_def)
  then have nz: "ipg \<noteq> 0" by auto
  obtain g where g: "ext2fs_group_of_ino fs i = Some g" "g < fs_group_desc_count fs" "unat i \<in> group_inodes fs (unat g)"
    using group_of_ino_facts [OF geo i(1)] i(2) by (auto simp: n_def)
  with nz have geq: "g = (i - 1) div ipg" by (simp add: ext2fs_group_of_ino_def ipg_def)
  then show "(i - 1) div ipg < fs_group_desc_count fs" "unat i \<in> group_inodes fs (unat ((i - 1) div ipg))"
    "ext2fs_group_of_ino fs i = Some ((i - 1) div ipg)" using g by simp_all
  have m: "unat (i - 1) = unat i - 1" using i(1) by (simp add: unat_sub word_le_nat_alt)
  define q where "q = (unat i - 1) div unat ipg"
  have qg: "unat g = q" by (simp add: geq q_def unat_div m)
  have fit: "(q + 1) * unat ipg < 4294967295"
    using group_inodes_bound [OF geo, of q] g(2) qg by (simp add: word_less_nat_alt ipg_def)
  have md: "unat ((i - 1) mod ipg) = (unat i - 1) mod unat ipg" by (simp add: unat_mod m)
  have le: "(unat i - 1) mod unat ipg < unat ipg" using p(1) by simp
  have r: "unat (ipg - (i - 1) mod ipg) = unat ipg - (unat i - 1) mod unat ipg" using le md by (simp add: unat_sub word_le_nat_alt)
  have split: "unat i - 1 = q * unat ipg + (unat i - 1) mod unat ipg" by (simp add: q_def)
  then have sum: "unat i + (unat ipg - (unat i - 1) mod unat ipg) = (q + 1) * unat ipg + 1"
    using le i(1) unfolding distrib_right word_le_nat_alt by simp
  have u: "unat (i + (ipg - (i - 1) mod ipg)) = (q + 1) * unat ipg + 1"
    using fit sum r by (subst unat_add_u32) simp_all
  have st: "unat (start - 1) = unat start - 1" using s by (simp add: unat_sub word_le_nat_alt)
  show "unat (let lim = i + (ipg - (i - 1) mod ipg); lim = (if i < start \<and> lim \<ge> start then start - 1 else lim) in if lim > n then n else lim)
      = round_end (unat ipg) (unat n) (unat start) (unat i)"
    unfolding round_end_def q_def [symmetric] Let_def by (auto simp: word_le_nat_alt word_less_nat_alt u st min_def)
qed

context bitmap_search
begin

lemma next_inode_word:
  fixes w n first :: u32
  assumes "unat w + 1 < 4294967296" "lim = unat w"
  shows "(if w + 1 > n then first else w + 1) = (if lim + 1 > unat n then first else of_nat (lim + 1))"
proof -
  have w1: "unat (w + 1) = lim + 1" using assms by (subst unat_add_u32) simp_all
  have "w + 1 = of_nat (unat (w + 1))" by simp
  then have "w + 1 = of_nat (lim + 1)" unfolding w1 .
  then show ?thesis using w1 by (simp add: word_less_nat_alt)
qed

text \<open>A free number found in a round is what the function returns: when the group was uninitialized its first inode is free.\<close>

lemma new_inode_hit:
  assumes map: "inode_map_ok inv b1 (s_inodes_count (fs_super fs))"
    and c: "if group_uninit 1 fs g then flags_cleared adr 3 fs g fs1 \<and> used_inodes bits b1 = used_inodes bits b - group_inodes fs (unat g)
       else fs1 = fs \<and> b1 = b"
    and g: "ext2fs_group_of_ino fs i = Some g" and own: "group_uninit 1 fs g \<Longrightarrow> unat i \<notin> used_inodes bits b1"
    and v: "i \<le> v" "unat v \<notin> used_inodes bits b1" "{unat i..<unat v} \<subseteq> used_inodes bits b1"
  shows "{unat i..<unat v} \<subseteq> used_inodes bits b \<and> inode_found adr inv bits fs b v fs1 b1"
proof (cases "group_uninit 1 fs g")
  case True
  from own [OF True] v(1,3) have "unat v = unat i" by (auto simp: word_le_nat_alt subset_eq)
  then have "v = i" by (simp add: word_unat_eq_iff)
  with True map c g v(2) show ?thesis by (auto simp: inode_found_def)
next
  case False
  with map c v show ?thesis by (auto simp: inode_found_def)
qed

lemma new_inode_round:
  fixes fs :: filsys and i start :: u32 and b :: "'p bitmap64"
  defines "n \<equiv> s_inodes_count (fs_super fs)" and "first \<equiv> EXT2_FIRST_INODE (fs_super fs)"
    and "lim \<equiv> round_end (unat (s_inodes_per_group (fs_super fs))) (unat (s_inodes_count (fs_super fs))) (unat start) (unat i)"
  assumes geo: "inode_geometry fs" and ok: "inode_map_ok inv b n" and i: "1 \<le> i" "i \<le> n" and s: "1 \<le> start"
  shows "(\<exists>v fs' b'. new_inode_loop adr ops start fs (Bitmap64 b) i = Some (Inr v, fs', Bitmap64 b') \<and> i \<le> v \<and> v \<le> n
        \<and> (unat i < unat start \<longrightarrow> unat v < unat start) \<and> {unat i..<unat v} \<subseteq> used_inodes bits b \<and> inode_found adr inv bits fs b v fs' b')
    \<or> {unat i..lim} \<subseteq> used_inodes bits b \<and> new_inode_loop adr ops start fs (Bitmap64 b) i =
        (let i' = (if lim + 1 > unat n then first else of_nat (lim + 1))
         in if i' \<noteq> start then new_inode_loop adr ops start fs (Bitmap64 b) i' else Some (Inr i', fs, Bitmap64 b))"
proof -
  let ?ipg = "s_inodes_per_group (fs_super fs)" and ?loop = "new_inode_loop adr ops start fs (Bitmap64 b) i"
  let ?g = "(i - 1) div ?ipg"
  define w where "w = (let lim = i + (?ipg - (i - 1) mod ?ipg); lim = (if i < start \<and> lim \<ge> start then start - 1 else lim) in if lim > n then n else lim)"
  have p: "0 < unat ?ipg" "unat n < 4294967295" using geo by (simp_all add: inode_geometry_def n_def)
  then have nz: "?ipg \<noteq> 0" by auto
  note re = round_end_word [OF geo i [unfolded n_def] s, folded n_def]
  have uw: "unat w = lim" using re(1) by (simp add: w_def lim_def n_def)
  have iu: "1 \<le> unat i" "unat i \<le> unat n" using i by (simp_all add: word_le_nat_alt)
  note bounds = round_end_bounds [OF p(1) iu, of "unat start", folded lim_def n_def]
  have lim: "unat i \<le> lim" "lim \<le> unat n" "unat i < unat start \<Longrightarrow> lim < unat start"
    using bounds by (auto simp: lim_def n_def)
  have lb: "lim + 1 < 4294967296" using lim(2) p(2) by linarith
  from check_inode_uninit_run [OF geo ok [unfolded n_def] re(2), of adr] obtain fs1 b1 where
    c: "check_inode_uninit adr ops fs (Bitmap64 b) ?g = Some (fs1, Bitmap64 b1)" "inode_map_ok inv b1 n"
      "if group_uninit 1 fs ?g then flags_cleared adr 3 fs ?g fs1 \<and> used_inodes bits b1 = used_inodes bits b - group_inodes fs (unat ?g)
       else fs1 = fs \<and> b1 = b" by (auto simp: n_def)
  have sup: "fs_super fs1 = fs_super fs" using c(3) flags_cleared_facts(1) by (auto split: if_splits)
  have wi: "i \<le> w" "w \<le> n" using lim(1,2) uw by (simp_all add: word_le_nat_alt)
  from find_zero_inode [OF c(2) i(1) wi] obtain r where
    r: "ext2fs_find_first_zero_inode_bitmap2 ops (Bitmap64 b1) i w = Some r"
      "case r of Inl c \<Rightarrow> c = ENOENT \<and> {unat i..unat w} \<subseteq> used_inodes bits b1
       | Inr v \<Rightarrow> i \<le> v \<and> v \<le> w \<and> unat v \<notin> used_inodes bits b1 \<and> {unat i..<unat v} \<subseteq> used_inodes bits b1" by blast
  have unfold: "?loop = (case r of
      Inr v \<Rightarrow> Some (Inr v, fs1, Bitmap64 b1)
    | Inl retval \<Rightarrow> if retval \<noteq> ENOENT then Some (Inl EXT2_ET_INODE_ALLOC_FAIL, fs1, Bitmap64 b1)
        else let i' = (if w + 1 > n then first else w + 1)
          in if i' \<noteq> start then new_inode_loop adr ops start fs1 (Bitmap64 b1) i' else Some (Inr i', fs1, Bitmap64 b1))"
    by (subst new_inode_loop.simps)
      (simp only: Let_def nz if_False c(1) Option.bind.simps prod.case sup r(1) n_def [symmetric] first_def [symmetric] w_def [symmetric, unfolded Let_def])
  have own: "unat i \<notin> used_inodes bits b1" if "group_uninit 1 fs ?g" using that c(3) re(3) by auto
  show ?thesis
  proof (cases r)
    case (Inl e)
    with r(2) uw have e: "e = ENOENT" "{unat i..lim} \<subseteq> used_inodes bits b1" by simp_all
    with lim(1) own have "\<not> group_uninit 1 fs ?g" by auto
    with c(3) have same: "fs1 = fs" "b1 = b" by simp_all
    have nx: "(if w + 1 > n then first else w + 1) = (if lim + 1 > unat n then first else of_nat (lim + 1))"
      using next_inode_word [OF _ uw [symmetric]] lb uw by simp
    have "?loop = (let i' = (if lim + 1 > unat n then first else of_nat (lim + 1))
         in if i' \<noteq> start then new_inode_loop adr ops start fs (Bitmap64 b) i' else Some (Inr i', fs, Bitmap64 b))"
      using unfold unfolding Inl e(1) same nx by (simp only: sum.case simp_thms if_False)
    with e(2) same show ?thesis by blast
  next
    case (Inr v)
    with r(2) have v: "i \<le> v" "v \<le> w" "unat v \<notin> used_inodes bits b1" "{unat i..<unat v} \<subseteq> used_inodes bits b1" by simp_all
    have vn: "v \<le> n" "unat i < unat start \<longrightarrow> unat v < unat start" using v(2) wi(2) lim(3) uw by (auto simp: word_le_nat_alt)
    have "{unat i..<unat v} \<subseteq> used_inodes bits b \<and> inode_found adr inv bits fs b v fs1 b1"
      by (rule new_inode_hit [OF c(2) [unfolded n_def] c(3) re(4) own v(1,3,4)])
    with unfold Inr v(1) vn show ?thesis by auto
  qed
qed

text \<open>The whole loop, from any point that it can reach with the numbers before it in use.\<close>

lemma new_inode_loop_run:
  fixes fs :: filsys and i start :: u32 and b :: "'p bitmap64"
  defines "n \<equiv> s_inodes_count (fs_super fs)" and "first \<equiv> EXT2_FIRST_INODE (fs_super fs)"
  assumes geo: "inode_geometry fs" and ok: "inode_map_ok inv b n" and f: "1 \<le> first" and s: "first \<le> start" "start \<le> n"
    and "first \<le> i" "i \<le> n" "cyc_before (unat first) (unat n) (unat start) (unat i) \<subseteq> used_inodes bits b"
  shows "\<exists>v fs' b'. new_inode_loop adr ops start fs (Bitmap64 b) i = Some (Inr v, fs', Bitmap64 b') \<and> first \<le> v \<and> v \<le> n
    \<and> (cyc_before (unat first) (unat n) (unat start) (unat v) \<subseteq> used_inodes bits b \<and> inode_found adr inv bits fs b v fs' b'
       \<or> fs' = fs \<and> b' = b \<and> {unat first..unat n} \<subseteq> used_inodes bits b)"
  using assms(8-)
proof (induction "if start \<le> i then unat n + 1 - unat i + unat start else unat start - unat i" arbitrary: i rule: less_induct)
  case less
  define lim where "lim = round_end (unat (s_inodes_per_group (fs_super fs))) (unat (s_inodes_count (fs_super fs))) (unat start) (unat i)"
  have fs1: "1 \<le> unat first" "unat first \<le> unat start" "unat start \<le> unat n" "unat first \<le> unat i" "unat i \<le> unat n"
    using f s less.prems by (simp_all add: word_le_nat_alt)
  then have i1: "1 \<le> i" "1 \<le> start" by (simp_all add: word_le_nat_alt)
  have p: "0 < unat (s_inodes_per_group (fs_super fs))" "unat n < 4294967295" using geo by (simp_all add: inode_geometry_def n_def)
  have le: "i \<le> s_inodes_count (fs_super fs)" using less.prems(2) by (simp add: n_def)
  have "1 \<le> unat i" "unat i \<le> unat (s_inodes_count (fs_super fs))" using fs1 by (simp_all add: n_def)
  note bounds = round_end_bounds [OF p(1) this, of "unat start", folded lim_def n_def]
  from new_inode_round [OF geo ok [unfolded n_def] i1(1) le i1(2), of adr, folded n_def first_def lim_def]
  consider v fs' b' where "new_inode_loop adr ops start fs (Bitmap64 b) i = Some (Inr v, fs', Bitmap64 b')" "i \<le> v" "v \<le> n"
      "unat i < unat start \<longrightarrow> unat v < unat start" "{unat i..<unat v} \<subseteq> used_inodes bits b" "inode_found adr inv bits fs b v fs' b'"
    | "{unat i..lim} \<subseteq> used_inodes bits b" "new_inode_loop adr ops start fs (Bitmap64 b) i =
        (let i' = (if lim + 1 > unat n then first else of_nat (lim + 1))
         in if i' \<noteq> start then new_inode_loop adr ops start fs (Bitmap64 b) i' else Some (Inr i', fs, Bitmap64 b))" by auto
  then show ?case
  proof cases
    case 1
    have "cyc_before (unat first) (unat n) (unat start) (unat v) \<subseteq> cyc_before (unat first) (unat n) (unat start) (unat i) \<union> {unat i..<unat v}"
      using 1(2,4) by (auto simp: cyc_before_def word_le_nat_alt)
    with less.prems(3) 1(5) have "cyc_before (unat first) (unat n) (unat start) (unat v) \<subseteq> used_inodes bits b" by blast
    moreover have "first \<le> v" using less.prems(1) 1(2) by simp
    ultimately show ?thesis using 1 by blast
  next
    case 2
    define i' where "i' = (if lim + 1 > unat n then first else of_nat (lim + 1))"
    note step = 2(2) [unfolded Let_def, folded i'_def]
    have ui: "unat i' = (if lim + 1 > unat n then unat first else lim + 1)" using p(2) by (simp add: i'_def unat_of_nat_u32 del: of_nat_Suc)
    have next1: "first \<le> i'" "i' \<le> n" using ui fs1 bounds(1) by (auto simp: word_le_nat_alt)
    have cyc: "(if i' = start then {unat first..unat n} else cyc_before (unat first) (unat n) (unat start) (unat i'))
        \<subseteq> cyc_before (unat first) (unat n) (unat start) (unat i) \<union> {unat i..lim}"
      using ui fs1 bounds by (auto simp: cyc_before_def word_unat_eq_iff split: if_splits)
    show ?thesis
    proof (cases "i' = start")
      case True
      with cyc less.prems(3) 2(1) have "{unat first..unat n} \<subseteq> used_inodes bits b" by auto
      with True step next1 show ?thesis by simp
    next
      case False
      then have c': "cyc_before (unat first) (unat n) (unat start) (unat i') \<subseteq> used_inodes bits b" using cyc less.prems(3) 2(1) by auto
      have "unat i' \<noteq> unat start" using False by (simp add: word_unat_eq_iff)
      then have "(if start \<le> i' then unat n + 1 - unat i' + unat start else unat start - unat i')
          < (if start \<le> i then unat n + 1 - unat i + unat start else unat start - unat i)"
        using ui fs1 bounds by (auto simp: word_le_nat_alt split: if_splits)
      from less.hyps [OF this next1 c'] False step show ?thesis by simp
    qed
  qed
qed

end

text \<open>Where the search starts: at the first inode of the group of the directory, but not before the first inode that is not reserved.\<close>

definition search_start :: "filsys \<Rightarrow> u32 \<Rightarrow> nat" where
  "search_start fs dir = max (unat (EXT2_FIRST_INODE (fs_super fs)))
     (if dir = 0 then 0 else (unat dir - 1) div unat (s_inodes_per_group (fs_super fs)) * unat (s_inodes_per_group (fs_super fs)) + 1)"

lemma search_start_word:
  fixes fs :: filsys and dir :: u32
  defines "ipg \<equiv> s_inodes_per_group (fs_super fs)"
  assumes geo: "inode_geometry fs" and dir: "dir \<le> s_inodes_count (fs_super fs)" and f: "EXT2_FIRST_INODE (fs_super fs) \<le> s_inodes_count (fs_super fs)"
  shows "\<exists>s. (do {
      s \<leftarrow> (if dir > 0 then (if ipg = 0 then None else Some ((dir - 1) div ipg * ipg + 1)) else Some 0);
      Some (if s < EXT2_FIRST_INODE (fs_super fs) then EXT2_FIRST_INODE (fs_super fs) else s) }) = Some s
    \<and> unat s = search_start fs dir \<and> s \<le> s_inodes_count (fs_super fs)"
proof -
  have p: "0 < unat ipg" "unat (s_inodes_count (fs_super fs)) < 4294967295" using geo by (simp_all add: inode_geometry_def ipg_def)
  then have nz: "ipg \<noteq> 0" by auto
  let ?s = "if dir > 0 then (dir - 1) div ipg * ipg + 1 else 0"
  have "unat ?s = (if dir = 0 then 0 else (unat dir - 1) div unat ipg * unat ipg + 1)"
  proof (cases "dir = 0")
    case False
    then have "1 \<le> dir" by (simp add: word_le_nat_alt unat_gt_0 Suc_le_eq)
    then have m: "unat (dir - 1) = unat dir - 1" by (simp add: unat_sub word_le_nat_alt)
    have le: "(unat dir - 1) div unat ipg * unat ipg \<le> unat dir - 1" by simp
    have d: "unat dir < 4294967295" using dir p(2) unfolding word_le_nat_alt by linarith
    have "unat ((dir - 1) div ipg) = (unat dir - 1) div unat ipg" by (simp add: unat_div m)
    then have "unat ((dir - 1) div ipg * ipg) = (unat dir - 1) div unat ipg * unat ipg mod 4294967296" by (simp add: unat_word_ariths(2))
    also have "\<dots> = (unat dir - 1) div unat ipg * unat ipg" using le d by (intro mod_less) linarith
    finally have "unat ((dir - 1) div ipg * ipg) = (unat dir - 1) div unat ipg * unat ipg" .
    moreover have "(unat dir - 1) div unat ipg * unat ipg < 4294967295" using le d by linarith
    ultimately have "unat ((dir - 1) div ipg * ipg + 1) = (unat dir - 1) div unat ipg * unat ipg + 1"
      by (subst unat_add_u32) simp_all
    with False \<open>1 \<le> dir\<close> show ?thesis by (auto simp: word_less_nat_alt word_le_nat_alt)
  qed simp
  then have u: "unat (if ?s < EXT2_FIRST_INODE (fs_super fs) then EXT2_FIRST_INODE (fs_super fs) else ?s) = search_start fs dir"
    unfolding search_start_def ipg_def [symmetric] by (auto simp: word_less_nat_alt max_def)
  have "search_start fs dir \<le> unat (s_inodes_count (fs_super fs))"
  proof -
    have "(unat dir - 1) div unat ipg * unat ipg + 1 \<le> unat dir" if "dir \<noteq> 0"
    proof -
      have "0 < unat dir" using that by (simp add: unat_gt_0)
      moreover have "(unat dir - 1) div unat ipg * unat ipg \<le> unat dir - 1" by simp
      ultimately show ?thesis by linarith
    qed
    with f dir show ?thesis unfolding search_start_def ipg_def [symmetric] word_le_nat_alt by auto
  qed
  with u nz show ?thesis by (intro exI [of _ "if ?s < EXT2_FIRST_INODE (fs_super fs) then EXT2_FIRST_INODE (fs_super fs) else ?s"])
      (simp add: word_le_nat_alt)
qed

context bitmap_search
begin

lemma new_inode_run:
  fixes st :: "('p, 'f) alloc_state" and dir :: u32
  defines "fs \<equiv> al_fs st"
  defines "n \<equiv> s_inodes_count (fs_super fs)" and "first \<equiv> EXT2_FIRST_INODE (fs_super fs)"
  assumes magic: "fs_magic fs = EXT2_ET_MAGIC_EXT2FS_FILSYS" and geo: "inode_geometry fs"
    and map: "al_inode_map st = Bitmap64 b" "inode_map_ok inv b n" and f: "1 \<le> first" "first \<le> n" and dir: "dir \<le> n"
  shows "\<exists>r st' b'. ext2fs_new_inode adr ops st dir NullBitmap = Some (r, st', Bitmap64 b')
    \<and> st' = st\<lparr>al_fs := al_fs st', al_inode_map := Bitmap64 b'\<rparr>
    \<and> (case r of
         Inr ino \<Rightarrow> first \<le> ino \<and> ino \<le> n \<and> cyc_before (unat first) (unat n) (search_start fs dir) (unat ino) \<subseteq> used_inodes bits b
           \<and> inode_found adr inv bits fs b ino (al_fs st') b'
       | Inl e \<Rightarrow> e = EXT2_ET_INODE_ALLOC_FAIL \<and> st' = st \<and> {unat first..unat n} \<subseteq> used_inodes bits b)"
proof -
  let ?ipg = "s_inodes_per_group (fs_super fs)"
  from search_start_word [OF geo dir [unfolded n_def] f(2) [unfolded n_def first_def], folded n_def first_def] obtain start where
    start: "(do {
      s \<leftarrow> (if dir > 0 then (if ?ipg = 0 then None else Some ((dir - 1) div ?ipg * ?ipg + 1)) else Some 0);
      Some (if s < first then first else s) }) = Some start" "unat start = search_start fs dir" "start \<le> n"
    by blast
  have fst: "first \<le> start" using start(2) by (simp add: word_le_nat_alt search_start_def first_def)
  have "cyc_before (unat first) (unat n) (unat start) (unat start) \<subseteq> used_inodes bits b" by (simp add: cyc_before_def)
  from new_inode_loop_run [OF geo map(2) [unfolded n_def] f(1) [unfolded first_def], folded n_def first_def, OF fst start(3) fst start(3) this, of adr]
  obtain v fs' b' where v: "new_inode_loop adr ops start fs (Bitmap64 b) start = Some (Inr v, fs', Bitmap64 b')" "first \<le> v" "v \<le> n"
    "cyc_before (unat first) (unat n) (unat start) (unat v) \<subseteq> used_inodes bits b \<and> inode_found adr inv bits fs b v fs' b'
       \<or> fs' = fs \<and> b' = b \<and> {unat first..unat n} \<subseteq> used_inodes bits b" by blast
  have b': "gb_ok inv (Bitmap64 b')" using v(4) map(2) by (auto simp: inode_found_def inode_map_ok_def gb_plain_def)
  obtain t where t: "ext2fs_test_inode_bitmap2 ops (Bitmap64 b') v = Some t" "t \<noteq> 0 \<longleftrightarrow> unat v \<in> used_inodes bits b'"
    using gb_test_all [OF b', of "ucast v"] unfolding used_inodes_word by (auto simp: ext2fs_test_inode_bitmap2_def)
  have ng: "\<not> n < start" using start(3) by simp
  have run: "ext2fs_new_inode adr ops st dir NullBitmap =
      Some (if t \<noteq> 0 then Inl EXT2_ET_INODE_ALLOC_FAIL else Inr v, st\<lparr>al_fs := fs', al_inode_map := Bitmap64 b'\<rparr>, Bitmap64 b')"
  proof -
    obtain s where s: "(if dir > 0 then (if ?ipg = 0 then None else Some ((dir - 1) div ?ipg * ?ipg + 1)) else Some 0) = Some s"
      "(if s < first then first else s) = start" using start(1) by (auto simp: bind_eq_Some_conv)
    show ?thesis unfolding ext2fs_new_inode_def fs_def [symmetric] Let_def map(1)
      by (simp only: if_True simp_thms magic gbitmap.distinct if_False s Option.bind.simps
          n_def [symmetric] first_def [symmetric] ng v(1) prod.case sum.case t(1))
  qed
  show ?thesis
  proof (cases "t = 0")
    case True
    with t(2) v have "\<not> {unat first..unat n} \<subseteq> used_inodes bits b'" by (auto simp: word_le_nat_alt)
    with v(4) have "cyc_before (unat first) (unat n) (unat start) (unat v) \<subseteq> used_inodes bits b" "inode_found adr inv bits fs b v fs' b'" by auto
    with run True v(2,3) start(2) show ?thesis by (intro exI [of _ "Inr v"] exI [of _ "st\<lparr>al_fs := fs', al_inode_map := Bitmap64 b'\<rparr>"] exI [of _ b']) simp
  next
    case False
    with t(2) v(4) have "fs' = fs" "b' = b" "{unat first..unat n} \<subseteq> used_inodes bits b" by (auto simp: inode_found_def)
    with run False map(1) show ?thesis by (intro exI [of _ "Inl EXT2_ET_INODE_ALLOC_FAIL"] exI [of _ st] exI [of _ b]) (simp add: fs_def)
  qed
qed

end

text \<open>
  (C7) The search for a free inode ends. It returns an inode that is neither reserved nor in use, and every inode
  between the start of the search and the one returned, around the end of the table, is in use; it fails, and changes
  nothing, exactly when all inodes that are not reserved are in use. A group that is flagged as not initialised is
  initialised when the search stops in it: its inodes are unmarked, the flags cleared, and its descriptor verifies.
\<close>

theorem new_inode_correct:
  fixes st :: "(u8 list, 'f) alloc_state" and dir :: u32
  defines "fs \<equiv> al_fs st"
  defines "n \<equiv> s_inodes_count (fs_super fs)" and "first \<equiv> EXT2_FIRST_INODE (fs_super fs)"
  assumes "fs_magic fs = EXT2_ET_MAGIC_EXT2FS_FILSYS" "inode_geometry fs"
    and "al_inode_map st = Bitmap64 b" "inode_map_ok ba_ok b n" and "1 \<le> first" "first \<le> n" and "dir \<le> n"
  shows "\<exists>r st' b'. ext2fs_new_inode adr (ext2fs_blkmap64_bitarray ok1 ok2 junk base) st dir NullBitmap = Some (r, st', Bitmap64 b')
    \<and> st' = st\<lparr>al_fs := al_fs st', al_inode_map := Bitmap64 b'\<rparr>
    \<and> (case r of
         Inr ino \<Rightarrow> first \<le> ino \<and> ino \<le> n \<and> cyc_before (unat first) (unat n) (search_start fs dir) (unat ino) \<subseteq> used_inodes ba_bits b
           \<and> inode_found adr ba_ok ba_bits fs b ino (al_fs st') b'
       | Inl e \<Rightarrow> e = EXT2_ET_INODE_ALLOC_FAIL \<and> st' = st \<and> {unat first..unat n} \<subseteq> used_inodes ba_bits b)"
  using assms unfolding fs_def n_def first_def by (intro ba.new_inode_run)

definition inode_bits_example :: "u8 list bitmap64" where
  "inode_bits_example = ba_example\<lparr>bm_magic := EXT2_ET_MAGIC_INODE_BITMAP64, bm_start := 1, bm_end := 24, bm_real_end := 24,
     bm_private := replicate 3 0\<rparr>"

lemma alloc_example_facts:
  "al_inode_map alloc_example = Bitmap64 inode_bits_example"
  "fs_magic (al_fs alloc_example) = EXT2_ET_MAGIC_EXT2FS_FILSYS" "inode_geometry (al_fs alloc_example)"
  "s_inodes_count (fs_super (al_fs alloc_example)) = 24" "EXT2_FIRST_INODE (fs_super (al_fs alloc_example)) = 11"
  "inode_map_ok ba_ok inode_bits_example 24"
proof -
  show "s_inodes_count (fs_super (al_fs alloc_example)) = 24" "fs_magic (al_fs alloc_example) = EXT2_ET_MAGIC_EXT2FS_FILSYS"
    by (simp_all add: alloc_example_def fs_empty_example_def fs_csum_example_def fs_example_def)
  show "EXT2_FIRST_INODE (fs_super (al_fs alloc_example)) = 11"
    by (simp add: alloc_example_def fs_empty_example_def fs_csum_example_def fs_example_def EXT2_FIRST_INODE_def)
  show "inode_geometry (al_fs alloc_example)" using alloc_example_order by (simp add: inodes_in_order_def)
  show "al_inode_map alloc_example = Bitmap64 inode_bits_example" by (simp add: alloc_example_def empty_map_example_def inode_bits_example_def)
  show "inode_map_ok ba_ok inode_bits_example 24"
    using empty_map_example_ok by (simp add: inode_map_ok_def empty_map_example_def inode_bits_example_def)
qed

theorem new_inode_correct_witness:
  "\<exists>r st' b'. ext2fs_new_inode 0 (ext2fs_blkmap64_bitarray True True (\<lambda>_. 0) 0) alloc_example 18 NullBitmap = Some (r, st', Bitmap64 b')
    \<and> st' = alloc_example\<lparr>al_fs := al_fs st', al_inode_map := Bitmap64 b'\<rparr>
    \<and> (case r of
         Inr ino \<Rightarrow> 11 \<le> ino \<and> ino \<le> 24 \<and> cyc_before 11 24 (search_start (al_fs alloc_example) 18) (unat ino) \<subseteq> used_inodes ba_bits inode_bits_example
           \<and> inode_found 0 ba_ok ba_bits (al_fs alloc_example) inode_bits_example ino (al_fs st') b'
       | Inl e \<Rightarrow> e = EXT2_ET_INODE_ALLOC_FAIL \<and> st' = alloc_example \<and> {11..24} \<subseteq> used_inodes ba_bits inode_bits_example)"
proof -
  have u: "unat (11 :: u32) = 11" "unat (24 :: u32) = 24" by simp_all
  have "inode_map_ok ba_ok inode_bits_example (s_inodes_count (fs_super (al_fs alloc_example)))"
    "1 \<le> EXT2_FIRST_INODE (fs_super (al_fs alloc_example))" "EXT2_FIRST_INODE (fs_super (al_fs alloc_example)) \<le> s_inodes_count (fs_super (al_fs alloc_example))"
    "18 \<le> s_inodes_count (fs_super (al_fs alloc_example))" unfolding alloc_example_facts(4,5) using alloc_example_facts(6) by simp_all
  from new_inode_correct [OF alloc_example_facts(2,3,1) this, of 0 True True "\<lambda>_. 0" 0] show ?thesis
    unfolding alloc_example_facts(4,5) u .
qed

subsection \<open>Allocating an inode\<close>

text \<open>Inodes of groups that are flagged as not initialised are not in use.\<close>

definition uninit_clean :: "('p bitmap64 \<Rightarrow> u64 set) \<Rightarrow> ('p, 'f) alloc_state \<Rightarrow> 'p bitmap64 \<Rightarrow> bool" where
  "uninit_clean bits st b \<longleftrightarrow>
     (\<forall>g < fs_group_desc_count (al_fs st). group_uninit 1 (al_fs st) g \<longrightarrow> group_inodes (al_fs st) (unat g) \<inter> used_inodes bits b = {})"

lemma flags_cleared_books:
  assumes geo: "inode_geometry fs" and g: "g < fs_group_desc_count fs" and cl: "flags_cleared adr f fs g fs'"
  shows "inode_geometry fs'" "inode_books used fs' = inode_books used fs"
proof -
  from cl obtain x where x: "fs' = (with_desc fs g x)\<lparr>fs_flags := fs_flags fs'\<rparr>"
    "desc_view_of (fs_wide fs) x = (desc_view_of (fs_wide fs) (desc_of fs g))
            \<lparr>v_flags := bg_flags (desc_of fs g) AND NOT f, v_checksum := v_checksum (desc_view_of (fs_wide fs) x)\<rparr>"
    unfolding flags_cleared_def by blast
  note f = flags_cleared_facts [OF cl]
  show "inode_geometry fs'" using geo f by (simp add: inode_geometry_def)
  have len: "unat (fs_group_desc_count fs) \<le> length (fs_group_desc fs)" using geo by (simp add: inode_geometry_def alloc_table_ok_def desc_table_ok_def)
  have ds: "fs_group_desc fs' = (fs_group_desc fs)[unat g := x]" by (subst x(1)) simp
  have sel: "v_free_inodes (desc_view_of (fs_wide fs) x) = v_free_inodes (desc_view_of (fs_wide fs) (desc_of fs g))"
    "v_itable_unused (desc_view_of (fs_wide fs) x) = v_itable_unused (desc_view_of (fs_wide fs) (desc_of fs g))" by (subst x(2), simp)+
  have "v_free_inodes (bg_views fs' ! h) = v_free_inodes (bg_views fs ! h)" "v_itable_unused (bg_views fs' ! h) = v_itable_unused (bg_views fs ! h)"
    if "h < unat (fs_group_desc_count fs)" for h
    using that len sel by (cases "h = unat g"; simp add: bg_views_def ds f)+
  then show "inode_books used fs' = inode_books used fs"
    using f by (simp add: inode_books_def group_inodes_def ext2fs_has_group_desc_csum_def)
qed

context bitmap_search
begin

lemma new_inode_order:
  fixes st :: "('p, 'f) alloc_state"
  assumes order: "inodes_in_order inv bits st" and map: "al_inode_map st = Bitmap64 b" and clean: "uninit_clean bits st b"
    and found: "inode_found adr inv bits (al_fs st) b ino fs' b'"
  shows "inodes_in_order inv bits (st\<lparr>al_fs := fs', al_inode_map := Bitmap64 b'\<rparr>)" "used_inodes bits b' = used_inodes bits b"
    "fs_super fs' = fs_super (al_fs st)"
proof -
  let ?fs = "al_fs st"
  have o: "inode_geometry ?fs" "gb_univ (Bitmap64 b) = {k. 1 \<le> unat k \<and> unat k \<le> unat (s_inodes_count (fs_super ?fs))}"
    "inode_books (gb_bits bits (Bitmap64 b)) ?fs" using order map by (simp_all add: inodes_in_order_def)
  have b': "inode_map_ok inv b' (s_inodes_count (fs_super ?fs))" using found by (simp add: inode_found_def)
  have "inode_geometry fs' \<and> inode_books (gb_bits bits (Bitmap64 b)) fs' \<and> used_inodes bits b' = used_inodes bits b \<and> fs_super fs' = fs_super ?fs"
  proof (cases "fs' = ?fs \<and> b' = b")
    case False
    with found obtain g where g: "group_uninit 1 ?fs g" "flags_cleared adr 3 ?fs g fs'"
      "used_inodes bits b' = used_inodes bits b - group_inodes ?fs (unat g)" unfolding inode_found_def by blast
    from g(1) have gl: "g < fs_group_desc_count ?fs" by (simp add: group_uninit_def)
    with clean g(1,3) have "used_inodes bits b' = used_inodes bits b" unfolding uninit_clean_def by blast
    with flags_cleared_books [OF o(1) gl g(2)] o(3) flags_cleared_facts(1) [OF g(2)] show ?thesis by simp
  qed (use o in simp)
  moreover have "gb_bits bits (Bitmap64 b') = gb_bits bits (Bitmap64 b)" if "used_inodes bits b' = used_inodes bits b"
    using that unfolding used_inodes_def by (simp add: inj_image_eq_iff [OF injI] word_unat_eq_iff)
  ultimately show "inodes_in_order inv bits (st\<lparr>al_fs := fs', al_inode_map := Bitmap64 b'\<rparr>)" "used_inodes bits b' = used_inodes bits b"
    "fs_super fs' = fs_super ?fs" using b' by (simp_all add: inodes_in_order_def inode_map_ok_def)
qed

lemma allocate_inode_run:
  fixes st :: "('p, 'f) alloc_state" and dir :: u32
  defines "n \<equiv> s_inodes_count (fs_super (al_fs st))" and "first \<equiv> EXT2_FIRST_INODE (fs_super (al_fs st))"
  assumes magic: "fs_magic (al_fs st) = EXT2_ET_MAGIC_EXT2FS_FILSYS" and order: "inodes_in_order inv bits st"
    and map: "al_inode_map st = Bitmap64 b" and clean: "uninit_clean bits st b" and f: "1 \<le> first" "first \<le> n" and dir: "dir \<le> n"
  shows "(\<exists>m'. ext2fs_new_inode adr ops st dir NullBitmap = Some (Inl EXT2_ET_INODE_ALLOC_FAIL, st, m') \<and> {unat first..unat n} \<subseteq> used_inodes bits b)
    \<or> (\<exists>ino st1 m' st2. ext2fs_new_inode adr ops st dir NullBitmap = Some (Inr ino, st1, m')
        \<and> ext2fs_inode_alloc_stats2 adr ops st1 ino 1 isdir = Some st2 \<and> inodes_in_order inv bits st2
        \<and> first \<le> ino \<and> ino \<le> n \<and> unat ino \<notin> used_inodes bits b
        \<and> gb_bits bits (al_inode_map st2) = insert (ucast ino) (gb_bits bits (al_inode_map st)))"
proof -
  have geo: "inode_geometry (al_fs st)" and ok: "inode_map_ok inv b n"
    using order map by (simp_all add: inodes_in_order_def inode_map_ok_def n_def)
  from new_inode_run [OF magic geo map ok [unfolded n_def] f [unfolded n_def first_def] dir [unfolded n_def], folded n_def first_def, of adr]
  obtain r st1 b' where r: "ext2fs_new_inode adr ops st dir NullBitmap = Some (r, st1, Bitmap64 b')"
    "st1 = st\<lparr>al_fs := al_fs st1, al_inode_map := Bitmap64 b'\<rparr>"
    "case r of
         Inr ino \<Rightarrow> first \<le> ino \<and> ino \<le> n \<and> cyc_before (unat first) (unat n) (search_start (al_fs st) dir) (unat ino) \<subseteq> used_inodes bits b
           \<and> inode_found adr inv bits (al_fs st) b ino (al_fs st1) b'
       | Inl e \<Rightarrow> e = EXT2_ET_INODE_ALLOC_FAIL \<and> st1 = st \<and> {unat first..unat n} \<subseteq> used_inodes bits b" by blast
  show ?thesis
  proof (cases r)
    case (Inl e)
    with r show ?thesis by auto
  next
    case (Inr ino)
    with r(3) have i: "first \<le> ino" "ino \<le> n" "inode_found adr inv bits (al_fs st) b ino (al_fs st1) b'" by simp_all
    note o = new_inode_order [OF order map clean i(3), folded r(2)]
    have m1: "al_inode_map st1 = Bitmap64 b'" by (subst r(2)) simp
    have free: "unat ino \<notin> used_inodes bits b'" using i(3) by (simp add: inode_found_def)
    have same: "gb_bits bits (Bitmap64 b') = gb_bits bits (Bitmap64 b)"
      using o(2) unfolding used_inodes_def by (simp add: inj_image_eq_iff [OF injI] word_unat_eq_iff)
    have "1 \<le> ino" using f(1) i(1) by simp
    from inode_stats_step [OF o(1) this, of 1 adr isdir] i(2) free o(3) obtain st2 where
      "ext2fs_inode_alloc_stats2 adr ops st1 ino 1 isdir = Some st2" "inodes_in_order inv bits st2"
      "gb_bits bits (al_inode_map st2) = toggle (ucast ino) (gb_bits bits (al_inode_map st1))"
      by (auto simp: m1 used_inodes_word n_def)
    with r(1) Inr i free o(2) show ?thesis by (auto simp: toggle_def m1 map same used_inodes_word)
  qed
qed

end

text \<open>
  (C8) Allocating an inode is the search followed by the accounting. In a file system whose books agree and whose
  groups that are not initialised hold no inode in use, either every inode that is not reserved is in use and nothing
  changes, or an inode that was free and is not reserved is now in use, no other mark has changed, and the
  counters of the groups and of the superblock agree with the bitmap again.
\<close>

theorem allocate_inode_correct:
  fixes st :: "(u8 list, 'f) alloc_state" and dir :: u32 and ok1 ok2 :: bool and junk :: "nat \<Rightarrow> u8" and base :: nat
  defines "n \<equiv> s_inodes_count (fs_super (al_fs st))" and "first \<equiv> EXT2_FIRST_INODE (fs_super (al_fs st))"
    and "ops \<equiv> ext2fs_blkmap64_bitarray ok1 ok2 junk base"
  assumes "fs_magic (al_fs st) = EXT2_ET_MAGIC_EXT2FS_FILSYS" "inodes_in_order ba_ok ba_bits st"
    and "al_inode_map st = Bitmap64 b" "uninit_clean ba_bits st b" "1 \<le> first" "first \<le> n" "dir \<le> n"
  shows "(\<exists>m'. ext2fs_new_inode adr ops st dir NullBitmap = Some (Inl EXT2_ET_INODE_ALLOC_FAIL, st, m')
        \<and> {unat first..unat n} \<subseteq> used_inodes ba_bits b)
    \<or> (\<exists>ino st1 m' st2. ext2fs_new_inode adr ops st dir NullBitmap = Some (Inr ino, st1, m')
        \<and> ext2fs_inode_alloc_stats2 adr ops st1 ino 1 isdir = Some st2 \<and> inodes_in_order ba_ok ba_bits st2
        \<and> first \<le> ino \<and> ino \<le> n \<and> unat ino \<notin> used_inodes ba_bits b
        \<and> gb_bits ba_bits (al_inode_map st2) = insert (ucast ino) (gb_bits ba_bits (al_inode_map st)))"
  using assms unfolding n_def first_def ops_def by (intro ba.allocate_inode_run)

theorem allocate_inode_correct_witness:
  "\<exists>ino st1 m' st2. ext2fs_new_inode 0 (ext2fs_blkmap64_bitarray True True (\<lambda>_. 0) 0) alloc_example 18 NullBitmap = Some (Inr ino, st1, m')
        \<and> ext2fs_inode_alloc_stats2 0 (ext2fs_blkmap64_bitarray True True (\<lambda>_. 0) 0) st1 ino 1 True = Some st2 \<and> inodes_in_order ba_ok ba_bits st2
        \<and> 11 \<le> ino \<and> ino \<le> 24 \<and> gb_bits ba_bits (al_inode_map st2) = {ucast ino}"
proof -
  have e: "used_inodes ba_bits inode_bits_example = {}" "gb_bits ba_bits (al_inode_map alloc_example) = {}"
    using empty_map_example_ok(2) by (simp_all add: used_inodes_def inode_bits_example_def empty_map_example_def alloc_example_def)
  have b: "uninit_clean ba_bits alloc_example inode_bits_example" "1 \<le> EXT2_FIRST_INODE (fs_super (al_fs alloc_example))"
    "EXT2_FIRST_INODE (fs_super (al_fs alloc_example)) \<le> s_inodes_count (fs_super (al_fs alloc_example))"
    "18 \<le> s_inodes_count (fs_super (al_fs alloc_example))" unfolding alloc_example_facts(4,5) by (simp_all add: uninit_clean_def e)
  have "\<not> {11..24} \<subseteq> ({} :: nat set)" by simp
  with allocate_inode_correct [OF alloc_example_facts(2) alloc_example_order alloc_example_facts(1) b, of 0 True True "\<lambda>_. 0" 0 True]
  show ?thesis unfolding alloc_example_facts(4,5) e by auto
qed


end
