(* ===== verification/Alloc_Blocks.thy ===== *)
theory Alloc_Blocks
  imports Alloc
begin

unbundle bit_operations_syntax

text \<open>
  \<^verbatim>\<open>lib/ext2fs/alloc.c\<close>: the search for a free block and for a number of free blocks in a row at a cluster
  boundary, and the allocation of a block with its accounting.
\<close>

subsection \<open>A free block\<close>

text \<open>The label \<^verbatim>\<open>allocated\<close> of \<^verbatim>\<open>ext2fs_new_block3\<close>.\<close>

definition new_block_allocated ::
    "nat \<Rightarrow> ('p, 'f) alloc_state \<Rightarrow> errcode + u64 \<Rightarrow> ((errcode + u64) \<times> ('p, 'f) alloc_state) ub" where
  "new_block_allocated adr st r =
     (case r of
        Inl retval \<Rightarrow> Some (Inl (if retval = ENOENT then EXT2_ET_BLOCK_ALLOC_FAIL else retval), st)
      | Inr b \<Rightarrow> do {
          grp \<leftarrow> ext2fs_group_of_blk2 (al_fs st) b;
          fs \<leftarrow> ext2fs_clear_block_uninit adr (al_fs st) grp;
          Some (Inr b, st\<lparr>al_fs := fs\<rparr>)
        })"

text \<open>The search for a free block of the bitmap \<open>m\<close>, from the goal to the end and then from the start to the goal.\<close>

definition new_block_search :: "'p bitmap_ops \<Rightarrow> filsys \<Rightarrow> 'p gbitmap \<Rightarrow> u64 \<Rightarrow> (errcode + u64) ub" where
  "new_block_search ops fs m goal = do {
     let first = ucast (s_first_data_block (fs_super fs));
     let goal = (if goal = 0 \<or> goal \<ge> ext2fs_blocks_count (fs_super fs) then first else goal);
     mask \<leftarrow> EXT2FS_CLUSTER_MASK fs;
     let goal = goal AND NOT (of_nat mask);
     r \<leftarrow> ext2fs_find_first_zero_block_bitmap2 ops m goal (ext2fs_blocks_count (fs_super fs) - 1);
     if r = Inl ENOENT \<and> goal \<noteq> first then ext2fs_find_first_zero_block_bitmap2 ops m first (goal - 1) else Some r
   }"

definition ext2fs_new_block3 ::
    "nat \<Rightarrow> 'p bitmap_ops \<Rightarrow> ('p, 'f, 'c) alloc_env \<Rightarrow> ('p, 'f) alloc_state \<Rightarrow> u64 \<Rightarrow> 'p gbitmap \<Rightarrow> 'c option
      \<Rightarrow> ((errcode + u64) \<times> ('p, 'f) alloc_state) ub" where
  "ext2fs_new_block3 adr ops env st goal mp ctx =
     (if fs_magic (al_fs st) \<noteq> EXT2_ET_MAGIC_EXT2FS_FILSYS then Some (Inl EXT2_ET_MAGIC_EXT2FS_FILSYS, st)
      else case (mp = NullBitmap, al_gab2 st, al_gab st) of
        (True, Some gab2, _) \<Rightarrow> do {
          (r, st) \<leftarrow> env_gab2 env gab2 goal ctx (st\<lparr>al_gab2 := None\<rparr>);
          new_block_allocated adr (st\<lparr>al_gab2 := Some gab2\<rparr>) r
        }
      | (True, None, Some gab) \<Rightarrow> do {
          (r, st) \<leftarrow> env_gab env gab goal (st\<lparr>al_gab := None\<rparr>);
          new_block_allocated adr (st\<lparr>al_gab := Some gab\<rparr>) r
        }
      | _ \<Rightarrow>
          let m = (if mp = NullBitmap then al_block_map st else mp) in
          if m = NullBitmap then Some (Inl EXT2_ET_NO_BLOCK_BITMAP, st)
          else do {
            r \<leftarrow> new_block_search ops (al_fs st) m goal;
            new_block_allocated adr st r
          })"

definition ext2fs_new_block2 ::
    "nat \<Rightarrow> 'p bitmap_ops \<Rightarrow> ('p, 'f, 'c) alloc_env \<Rightarrow> ('p, 'f) alloc_state \<Rightarrow> u64 \<Rightarrow> 'p gbitmap
      \<Rightarrow> ((errcode + u64) \<times> ('p, 'f) alloc_state) ub" where
  "ext2fs_new_block2 adr ops env st goal mp = ext2fs_new_block3 adr ops env st goal mp None"

definition ext2fs_new_block ::
    "nat \<Rightarrow> 'p bitmap_ops \<Rightarrow> ('p, 'f, 'c) alloc_env \<Rightarrow> ('p, 'f) alloc_state \<Rightarrow> u32 \<Rightarrow> 'p gbitmap
      \<Rightarrow> ((errcode + u32) \<times> ('p, 'f) alloc_state) ub" where
  "ext2fs_new_block adr ops env st goal mp =
     map_option (\<lambda>(r, st). (map_sum id ucast r, st)) (ext2fs_new_block2 adr ops env st (ucast goal) mp)"

text \<open>
  Allocation with accounting. Whether the caller passes a buffer makes no difference to the model: either way
  the block is written with zeroes.
\<close>

definition ext2fs_alloc_block3 ::
    "nat \<Rightarrow> 'p bitmap_ops \<Rightarrow> ('p, 'f, 'c) alloc_env \<Rightarrow> ('p, 'f) alloc_state \<Rightarrow> u64 \<Rightarrow> 'c option
      \<Rightarrow> ((errcode + u64) \<times> ('p, 'f) alloc_state) ub" where
  "ext2fs_alloc_block3 adr ops env st goal ctx = do {
     (r, st) \<leftarrow> (case (al_gab2 st, al_gab st) of
         (Some gab2, _) \<Rightarrow> env_gab2 env gab2 goal ctx st
       | (None, Some gab) \<Rightarrow> env_gab env gab goal st
       | (None, None) \<Rightarrow> do {
           (retval, st) \<leftarrow> (if al_block_map st = NullBitmap then env_read_block_bitmap env st else Some (E_OK, st));
           if retval \<noteq> E_OK then Some (Inl retval, st) else ext2fs_new_block3 adr ops env st goal NullBitmap ctx
         });
     case r of
       Inl retval \<Rightarrow> Some (Inl retval, st)
     | Inr block \<Rightarrow> do {
         (retval, st) \<leftarrow> env_zero_blocks env st block 1;
         if retval \<noteq> E_OK then Some (Inl retval, st)
         else do {
           st \<leftarrow> ext2fs_block_alloc_stats2 adr ops (env_block_cb env) st block 1;
           Some (Inr block, st)
         }
       }
   }"

definition ext2fs_alloc_block2 ::
    "nat \<Rightarrow> 'p bitmap_ops \<Rightarrow> ('p, 'f, 'c) alloc_env \<Rightarrow> ('p, 'f) alloc_state \<Rightarrow> u64 \<Rightarrow> ((errcode + u64) \<times> ('p, 'f) alloc_state) ub" where
  "ext2fs_alloc_block2 adr ops env st goal = ext2fs_alloc_block3 adr ops env st goal None"

definition ext2fs_alloc_block ::
    "nat \<Rightarrow> 'p bitmap_ops \<Rightarrow> ('p, 'f, 'c) alloc_env \<Rightarrow> ('p, 'f) alloc_state \<Rightarrow> u32 \<Rightarrow> ((errcode + u32) \<times> ('p, 'f) alloc_state) ub" where
  "ext2fs_alloc_block adr ops env st goal =
     map_option (\<lambda>(r, st). (map_sum id ucast r, st)) (ext2fs_alloc_block3 adr ops env st (ucast goal) None)"

subsection \<open>A number of free blocks\<close>

text \<open>
  The loop of \<^verbatim>\<open>ext2fs_get_free_blocks2\<close>. \<open>num\<close> is a C integer, extended to 64 bits in the sum and cut to 32 bits
  in the call; an error code of the test counts as true.
\<close>

partial_function (option) free_blocks_loop ::
    "'p bitmap_ops \<Rightarrow> filsys \<Rightarrow> 'p gbitmap \<Rightarrow> nat \<Rightarrow> u64 \<Rightarrow> u64 \<Rightarrow> int \<Rightarrow> u64 \<Rightarrow> (errcode + u64) ub" where
  [code]: "free_blocks_loop ops fs m c_ratio start finish num b =
     (let over = b + of_int num - 1 \<ge> ext2fs_blocks_count (fs_super fs) in
      if over \<and> finish > start then Some (Inl EXT2_ET_BLOCK_ALLOC_FAIL)
      else do {
        let b = (if over then ucast (s_first_data_block (fs_super fs)) else b);
        t \<leftarrow> ext2fs_fast_test_block_bitmap_range2 ops m b (of_int num);
        if t \<noteq> Inr 0 \<and> t \<noteq> Inl E_OK then Some (Inr b)
        else if b + of_nat c_ratio \<noteq> finish then free_blocks_loop ops fs m c_ratio start finish num (b + of_nat c_ratio)
        else Some (Inl EXT2_ET_BLOCK_ALLOC_FAIL)
      })"

definition ext2fs_get_free_blocks2 ::
    "'p bitmap_ops \<Rightarrow> ('p, 'f) alloc_state \<Rightarrow> u64 \<Rightarrow> u64 \<Rightarrow> int \<Rightarrow> 'p gbitmap \<Rightarrow> (errcode + u64) ub" where
  "ext2fs_get_free_blocks2 ops st start finish num mp =
     (let fs = al_fs st; m = (if mp = NullBitmap then al_block_map st else mp) in
      if fs_magic fs \<noteq> EXT2_ET_MAGIC_EXT2FS_FILSYS then Some (Inl EXT2_ET_MAGIC_EXT2FS_FILSYS)
      else if m = NullBitmap then Some (Inl EXT2_ET_NO_BLOCK_BITMAP)
      else do {
        let b = (if start = 0 then ucast (s_first_data_block (fs_super fs)) else start);
        let finish = (if finish = 0 then start else finish);
        let num = (if num = 0 then 1 else num);
        bits \<leftarrow> ext2fs_get_bitmap_granularity m;
        if bits > 30 then None
        else do {
          let c_ratio = 2 ^ bits;
          let mask = NOT (of_nat (c_ratio - 1));
          free_blocks_loop ops fs m c_ratio start (finish AND mask) num (b AND mask)
        }
      })"

definition ext2fs_get_free_blocks ::
    "'p bitmap_ops \<Rightarrow> ('p, 'f) alloc_state \<Rightarrow> u32 \<Rightarrow> u32 \<Rightarrow> int \<Rightarrow> 'p gbitmap \<Rightarrow> (errcode + u32) ub" where
  "ext2fs_get_free_blocks ops st start finish num mp =
     map_option (map_sum id ucast) (ext2fs_get_free_blocks2 ops st (ucast start) (ucast finish) num mp)"

definition ext2fs_set_alloc_block_callback :: "('p, 'f) alloc_state \<Rightarrow> 'f option \<Rightarrow> 'f option option \<times> ('p, 'f) alloc_state" where
  "ext2fs_set_alloc_block_callback st func =
     (if fs_magic (al_fs st) \<noteq> EXT2_ET_MAGIC_EXT2FS_FILSYS then (None, st)
      else (Some (al_gab st), st\<lparr>al_gab := func\<rparr>))"

subsection \<open>The search for a block\<close>

text \<open>A block bitmap that holds all blocks of the file system.\<close>

definition block_map_ok :: "('p bitmap64 \<Rightarrow> bool) \<Rightarrow> 'p bitmap64 \<Rightarrow> filsys \<Rightarrow> bool" where
  "block_map_ok good b fs \<longleftrightarrow> gb_ok good (Bitmap64 b)
     \<and> (\<forall>x. ucast (s_first_data_block (fs_super fs)) \<le> x \<and> x < ext2fs_blocks_count (fs_super fs) \<longrightarrow> x \<in> gb_univ (Bitmap64 b))"

text \<open>The first number with the property \<open>P\<close> from \<open>goal\<close> up to the end \<open>hi\<close> and on from the start \<open>lo\<close>.\<close>

definition cyc_first :: "(u64 \<Rightarrow> bool) \<Rightarrow> u64 \<Rightarrow> u64 \<Rightarrow> u64 \<Rightarrow> errcode + u64 \<Rightarrow> bool" where
  "cyc_first P lo hi goal r \<longleftrightarrow>
     (case r of
        Inl c \<Rightarrow> c = ENOENT \<and> (\<forall>x. lo \<le> x \<and> x < hi \<longrightarrow> \<not> P x)
      | Inr v \<Rightarrow> lo \<le> v \<and> v < hi \<and> P v
          \<and> (\<forall>x. (if goal \<le> v then goal \<le> x \<and> x < v else goal \<le> x \<and> x < hi \<or> lo \<le> x \<and> x < v) \<longrightarrow> \<not> P x))"

lemma cyc_first_join:
  assumes "lo \<le> goal" "goal < hi" "is_first P goal (hi - 1) r" "r = Inl ENOENT \<Longrightarrow> goal \<noteq> lo \<Longrightarrow> is_first P lo (goal - 1) r'"
  shows "cyc_first P lo hi goal (if r = Inl ENOENT \<and> goal \<noteq> lo then r' else r)"
proof -
  have "1 \<le> hi" using assms(2) by (simp add: word_le_nat_alt word_less_nat_alt)
  then have hi: "x \<le> hi - 1 \<longleftrightarrow> x < hi" for x by (auto simp: word_le_nat_alt word_less_nat_alt unat_sub)
  have gl: "x \<le> goal - 1 \<longleftrightarrow> x < goal" if "goal \<noteq> lo" for x
  proof -
    have "1 \<le> goal" using that assms(1) by (metis order_antisym_conv word_coorder.extremum_unique word_le_nat_alt word_zero_le linorder_le_less_linear word_less_1)
    then show ?thesis by (auto simp: word_le_nat_alt word_less_nat_alt unat_sub)
  qed
  show ?thesis
  proof (cases "r = Inl ENOENT \<and> goal \<noteq> lo")
    case True
    then have "is_first P lo (goal - 1) r'" "goal \<noteq> lo" using assms(4) by auto
    with True assms(1-3) show ?thesis by (cases r') (auto simp: cyc_first_def is_first_def hi gl not_le [symmetric])
  next
    case False
    with assms(1-3) show ?thesis by (cases r) (auto simp: cyc_first_def is_first_def hi)
  qed
qed

lemma and_not_low_bits:
  assumes "k < 64"
  shows "unat (x AND NOT (of_nat (2 ^ k - 1)) :: u64) = unat x div 2 ^ k * 2 ^ k"
proof -
  have "(of_nat (2 ^ k - 1) :: u64) = mask k" by (simp add: mask_eq_exp_minus_1 of_nat_diff)
  then have "x AND NOT (of_nat (2 ^ k - 1)) = push_bit k (drop_bit k x)"
    by (intro bit_word_eqI) (auto simp: bit_and_iff bit_not_iff bit_push_bit_iff bit_drop_bit_eq bit_mask_iff)
  moreover have "unat (drop_bit k x) * 2 ^ k < 18446744073709551616"
    using unat_u64_less [of x] div_times_less_eq_dividend [of "unat x" "2 ^ k"] unfolding unat_drop_bit_div by linarith
  ultimately show ?thesis by (simp only: unat_push_bit_u64 unat_drop_bit_div)
qed

text \<open>The block at which the search starts: the goal, or the first block, rounded down to a cluster.\<close>

definition block_goal :: "filsys \<Rightarrow> u64 \<Rightarrow> u64" where
  "block_goal fs goal =
     (if goal = 0 \<or> goal \<ge> ext2fs_blocks_count (fs_super fs) then ucast (s_first_data_block (fs_super fs)) else goal)
       AND NOT (of_nat (2 ^ fs_cluster_ratio_bits fs - 1))"

lemma block_goal_bounds:
  assumes ok: "fs_geometry_ok fs" "fs_cluster_ratio_bits fs \<le> 30" "2 ^ fs_cluster_ratio_bits fs dvd unat (s_first_data_block (fs_super fs))"
    and goal: "goal = 0 \<or> ucast (s_first_data_block (fs_super fs)) \<le> goal"
  shows "ucast (s_first_data_block (fs_super fs)) \<le> block_goal fs goal" "block_goal fs goal < ext2fs_blocks_count (fs_super fs)"
proof -
  let ?f = "ucast (s_first_data_block (fs_super fs)) :: u64" and ?r = "2 ^ fs_cluster_ratio_bits fs :: nat"
  let ?g = "if goal = 0 \<or> goal \<ge> ext2fs_blocks_count (fs_super fs) then ?f else goal"
  have F: "unat ?f < unat (ext2fs_blocks_count (fs_super fs))" using ok(1) by (simp add: fs_geometry_ok_def Let_def)
  have g: "unat ?f \<le> unat ?g" "unat ?g < unat (ext2fs_blocks_count (fs_super fs))" using goal F by (auto simp: word_le_nat_alt)
  have "fs_cluster_ratio_bits fs < 64" using ok(2) by simp
  then have u: "unat (block_goal fs goal) = unat ?g div ?r * ?r" unfolding block_goal_def by (rule and_not_low_bits)
  have "unat ?f = unat ?f div ?r * ?r" using ok(3) by simp
  also have "\<dots> \<le> unat ?g div ?r * ?r" by (intro mult_le_mono1 div_le_mono g(1))
  finally show "?f \<le> block_goal fs goal" by (simp add: word_le_nat_alt u)
  have "unat ?g div ?r * ?r \<le> unat ?g" by simp
  with g(2) have "unat (block_goal fs goal) < unat (ext2fs_blocks_count (fs_super fs))" unfolding u by linarith
  then show "block_goal fs goal < ext2fs_blocks_count (fs_super fs)" by (simp add: word_less_nat_alt)
qed

context bitmap_search
begin

lemma find_zero_block:
  assumes ok: "block_map_ok inv b fs" and max: "find_first_zero ops = None \<longrightarrow> bm_end b \<noteq> 0xffffffffffffffff"
    and se: "s \<le> e" and s: "ucast (s_first_data_block (fs_super fs)) \<le> s" and e: "e < ext2fs_blocks_count (fs_super fs)"
  shows "\<exists>r. ext2fs_find_first_zero_block_bitmap2 ops (Bitmap64 b) s e = Some r \<and> is_first (\<lambda>x. x \<notin> gb_bits bits (Bitmap64 b)) s e r"
proof -
  have "s \<in> gb_univ (Bitmap64 b)" "e \<in> gb_univ (Bitmap64 b)" using ok se s e unfolding block_map_ok_def by (auto intro: le_less_trans)
  then have "bm_start b \<le> drop_bit (bm_cluster_bits b) s" "drop_bit (bm_cluster_bits b) e \<le> bm_end b" by (simp_all add: gb_univ_def)
  from gb_find_first_zero_least [OF _ se this max] ok show ?thesis by (simp add: ext2fs_find_first_zero_block_bitmap2_def block_map_ok_def)
qed

lemma find_set_block:
  assumes ok: "block_map_ok inv b fs" and max: "find_first_set ops = None \<longrightarrow> bm_end b \<noteq> 0xffffffffffffffff"
    and se: "s \<le> e" and s: "ucast (s_first_data_block (fs_super fs)) \<le> s" and e: "e < ext2fs_blocks_count (fs_super fs)"
  shows "\<exists>r. ext2fs_find_first_set_block_bitmap2 ops (Bitmap64 b) s e = Some r \<and> is_first (\<lambda>x. x \<in> gb_bits bits (Bitmap64 b)) s e r"
proof -
  have "s \<in> gb_univ (Bitmap64 b)" "e \<in> gb_univ (Bitmap64 b)" using ok se s e unfolding block_map_ok_def by (auto intro: le_less_trans)
  then have "bm_start b \<le> drop_bit (bm_cluster_bits b) s" "drop_bit (bm_cluster_bits b) e \<le> bm_end b" by (simp_all add: gb_univ_def)
  from gb_find_first_set_least [OF _ se this max] ok show ?thesis by (simp add: ext2fs_find_first_set_block_bitmap2_def block_map_ok_def)
qed

lemma new_block_search_run:
  assumes ok: "block_map_ok inv b fs" and max: "find_first_zero ops = None \<longrightarrow> bm_end b \<noteq> 0xffffffffffffffff"
    and geo: "fs_geometry_ok fs" "fs_cluster_ratio_bits fs \<le> 30" "2 ^ fs_cluster_ratio_bits fs dvd unat (s_first_data_block (fs_super fs))"
    and goal: "goal = 0 \<or> ucast (s_first_data_block (fs_super fs)) \<le> goal"
  shows "\<exists>r. new_block_search ops fs (Bitmap64 b) goal = Some r
    \<and> cyc_first (\<lambda>x. x \<notin> gb_bits bits (Bitmap64 b)) (ucast (s_first_data_block (fs_super fs))) (ext2fs_blocks_count (fs_super fs)) (block_goal fs goal) r"
proof -
  let ?f = "ucast (s_first_data_block (fs_super fs)) :: u64" and ?c = "ext2fs_blocks_count (fs_super fs)" and ?g = "block_goal fs goal"
  note g = block_goal_bounds [OF geo goal]
  have "1 \<le> ?c" using g(2) by (simp add: word_le_nat_alt word_less_nat_alt)
  then have "?c - 1 < ?c" "?g \<le> ?c - 1" using g(2) by (simp_all add: word_le_nat_alt word_less_nat_alt unat_sub)
  from find_zero_block [OF ok max this(2) g(1) this(1)] obtain r where
    r: "ext2fs_find_first_zero_block_bitmap2 ops (Bitmap64 b) ?g (?c - 1) = Some r" "is_first (\<lambda>x. x \<notin> gb_bits bits (Bitmap64 b)) ?g (?c - 1) r" by blast
  have "\<exists>r'. ext2fs_find_first_zero_block_bitmap2 ops (Bitmap64 b) ?f (?g - 1) = Some r' \<and> is_first (\<lambda>x. x \<notin> gb_bits bits (Bitmap64 b)) ?f (?g - 1) r'"
    if "?g \<noteq> ?f"
  proof -
    have "?f < ?g" using that g(1) by simp
    then have "1 \<le> ?g" "?f \<le> ?g - 1" "?g - 1 < ?c" using g(2) by (auto simp: word_le_nat_alt word_less_nat_alt unat_sub)
    with find_zero_block [OF ok max this(2) _ this(3)] show ?thesis by simp
  qed
  then obtain r' where r': "?g \<noteq> ?f \<Longrightarrow> ext2fs_find_first_zero_block_bitmap2 ops (Bitmap64 b) ?f (?g - 1) = Some r'"
    "?g \<noteq> ?f \<Longrightarrow> is_first (\<lambda>x. x \<notin> gb_bits bits (Bitmap64 b)) ?f (?g - 1) r'" by blast
  have mask: "EXT2FS_CLUSTER_MASK fs = Some (2 ^ fs_cluster_ratio_bits fs - 1)" using geo(2) by (simp add: EXT2FS_CLUSTER_MASK_def EXT2FS_CLUSTER_RATIO_def)
  have "new_block_search ops fs (Bitmap64 b) goal = Some (if r = Inl ENOENT \<and> ?g \<noteq> ?f then r' else r)"
    unfolding new_block_search_def Let_def mask Option.bind.simps block_goal_def [symmetric] r(1) using r'(1) by simp
  moreover have "cyc_first (\<lambda>x. x \<notin> gb_bits bits (Bitmap64 b)) ?f ?c ?g (if r = Inl ENOENT \<and> ?g \<noteq> ?f then r' else r)"
    using r'(2) by (intro cyc_first_join [OF g r(2)])
  ultimately show ?thesis by blast
qed

end

text \<open>A file system that is ready for the allocation of blocks, without functions of a client in its place.\<close>

definition blocks_ready :: "('p bitmap64 \<Rightarrow> bool) \<Rightarrow> ('p, 'f) alloc_state \<Rightarrow> 'p bitmap64 \<Rightarrow> bool" where
  "blocks_ready good st b \<longleftrightarrow>
     fs_magic (al_fs st) = EXT2_ET_MAGIC_EXT2FS_FILSYS \<and> alloc_table_ok (al_fs st) \<and> fs_geometry_ok (al_fs st)
     \<and> fs_cluster_ratio_bits (al_fs st) \<le> 30 \<and> 2 ^ fs_cluster_ratio_bits (al_fs st) dvd unat (s_first_data_block (fs_super (al_fs st)))
     \<and> al_block_map st = Bitmap64 b \<and> block_map_ok good b (al_fs st)
     \<and> al_gab st = None \<and> al_gab2 st = None \<and> al_block_cb st = None"

text \<open>
  The effect of taking (\<open>inuse = 1\<close>) or releasing (\<open>inuse = -1\<close>) a cluster of group \<open>g\<close> on the books: nothing else of
  the file system changes but its flags, where the superblock and the block bitmap become dirty (the bits 2, 4 and
  32).
\<close>

definition block_accounted :: "nat \<Rightarrow> int \<Rightarrow> filsys \<Rightarrow> filsys \<Rightarrow> u32 \<Rightarrow> bool" where
  "block_accounted adr inuse fs fs' g \<longleftrightarrow>
     (\<forall>h < fs_group_desc_count fs. h \<noteq> g \<longrightarrow> desc_of fs' h = desc_of fs h)
     \<and> bg_views fs' ! unat g = (bg_views fs ! unat g)
         \<lparr>v_free_blocks := cut32 (fs_wide fs) (v_free_blocks (bg_views fs ! unat g) - of_int inuse),
          v_flags := v_flags (bg_views fs ! unat g) AND NOT 2, v_checksum := v_checksum (bg_views fs' ! unat g)\<rparr>
     \<and> ext2fs_group_desc_csum_verify adr fs' g = Some True
     \<and> ext2fs_free_blocks_count (fs_super fs') =
         cut64 (fs_wide fs) (ext2fs_free_blocks_count (fs_super fs) - of_int inuse * 2 ^ fs_cluster_ratio_bits fs)
     \<and> blocks_frame (fs\<lparr>fs_flags := fs_flags fs OR 38\<rparr>) fs'"

lemma blocks_frame_flags: "blocks_frame fs fs' \<Longrightarrow> blocks_frame (fs\<lparr>fs_flags := v\<rparr>) (fs'\<lparr>fs_flags := v\<rparr>)"
proof -
  assume "blocks_frame fs fs'"
  then obtain ds a b where "fs' = fs\<lparr>fs_group_desc := ds, fs_super := (fs_super fs)\<lparr>s_free_blocks_count := a, s_free_blocks_hi := b\<rparr>\<rparr>"
    "length ds = length (fs_group_desc fs)" "\<forall>i. bg_tail (ds ! i) = bg_tail (fs_group_desc fs ! i)" unfolding blocks_frame_def by blast
  then show ?thesis by (simp add: blocks_frame_def)
qed

lemma ucast_sub_32: "(ucast (ucast (a :: u32) - of_int i :: u64) :: u32) = a - of_int i"
  by transfer (simp add: take_bit_eq_mod mod_mod_cancel mod_diff_left_eq mod_diff_right_eq)

lemma word_neq_unat: "g \<noteq> h \<Longrightarrow> unat g \<noteq> unat h"
  by (simp add: word_unat_eq_iff)

context bitmap_backend
begin

lemma block_alloc_stats2_run:
  fixes st :: "('p, 'f) alloc_state" and inuse :: int
  defines "fs \<equiv> al_fs st"
  assumes ok: "alloc_table_ok fs" "fs_geometry_ok fs" "fs_cluster_ratio_bits fs \<le> 30" and map: "gb_ok inv (al_block_map st)"
    and cb: "al_block_cb st = None" and inuse: "inuse = 1 \<or> inuse = -1"
    and blk: "ucast (s_first_data_block (fs_super fs)) \<le> blk" "blk < ext2fs_blocks_count (fs_super fs)"
  shows "\<exists>g fs' bm. ext2fs_group_of_blk2 fs blk = Some g \<and> g < fs_group_desc_count fs
    \<and> ext2fs_block_alloc_stats2 adr ops call st blk inuse = Some (st\<lparr>al_fs := fs', al_block_map := bm\<rparr>)
    \<and> block_accounted adr inuse fs fs' g \<and> gb_ok inv bm \<and> gb_univ bm = gb_univ (al_block_map st)
    \<and> gb_bits bits bm = (if inuse = 1 then gb_bits bits (al_block_map st) \<union> (gb_unit (al_block_map st) blk \<inter> gb_univ (al_block_map st))
        else gb_bits bits (al_block_map st) - gb_unit (al_block_map st) blk)"
proof -
  let ?w = "fs_wide fs" and ?v = "desc_view_of (fs_wide fs) (desc_of fs g)"
  obtain g where g: "ext2fs_group_of_blk2 fs blk = Some g" "g < fs_group_desc_count fs" using group_of_blk_unique [OF ok(2) blk] by blast
  have t: "desc_table_ok fs" "length (s_uuid (fs_super fs)) = 16" "desc_whole fs g" using ok(1) g(2) by (simp_all add: alloc_table_ok_def)
  have i: "unat g < length (fs_group_desc fs)" using desc_table_index [OF t(1) g(2)] by simp
  have "\<exists>r bm. (if inuse > 0 then ext2fs_mark_block_bitmap2 ops (al_block_map st) blk else ext2fs_unmark_block_bitmap2 ops (al_block_map st) blk) = Some (r, bm)
      \<and> gb_ok inv bm \<and> gb_univ bm = gb_univ (al_block_map st)
      \<and> gb_bits bits bm = (if inuse = 1 then gb_bits bits (al_block_map st) \<union> (gb_unit (al_block_map st) blk \<inter> gb_univ (al_block_map st))
        else gb_bits bits (al_block_map st) - gb_unit (al_block_map st) blk)"
    using gb_mark_all [OF map, of blk] gb_unmark_all [OF map, of blk] inuse
    by (auto simp: ext2fs_mark_block_bitmap2_def ext2fs_unmark_block_bitmap2_def)
  then obtain r bm where bm: "(if inuse > 0 then ext2fs_mark_block_bitmap2 ops (al_block_map st) blk else ext2fs_unmark_block_bitmap2 ops (al_block_map st) blk) = Some (r, bm)"
    "gb_ok inv bm" "gb_univ bm = gb_univ (al_block_map st)"
    "gb_bits bits bm = (if inuse = 1 then gb_bits bits (al_block_map st) \<union> (gb_unit (al_block_map st) blk \<inter> gb_univ (al_block_map st))
        else gb_bits bits (al_block_map st) - gb_unit (al_block_map st) blk)" by blast
  from block_group_update_run [OF ok(1) g(2), of adr "of_int inuse"] obtain x where
    x: "block_group_update adr fs g (of_int inuse) = Some (with_desc fs g x)" "bg_tail x = bg_tail (desc_of fs g)"
      "desc_view_of ?w x = (desc_view_of ?w (desc_of fs g))
        \<lparr>v_free_blocks := cut32 ?w (v_free_blocks (desc_view_of ?w (desc_of fs g)) - of_int inuse),
         v_flags := v_flags (desc_view_of ?w (desc_of fs g)) AND NOT 2, v_checksum := v_checksum (desc_view_of ?w x)\<rparr>"
      "ext2fs_group_desc_csum_verify adr (with_desc fs g x) g = Some True" unfolding ucast_sub_32 by blast
  let ?fs' = "ext2fs_mark_bb_dirty (ext2fs_mark_super_dirty (fs_add_free (with_desc fs g x) (of_int (- inuse) * of_nat (2 ^ fs_cluster_ratio_bits fs))))"
  have fr: "blocks_frame fs (fs_add_free (with_desc fs g x) n)" for n by (rule blocks_frame_step [OF x(2)])
  have ds: "fs_group_desc ?fs' = (fs_group_desc fs)[unat g := x]" "fs_csum_seed ?fs' = fs_csum_seed fs" "fs_group_desc_count ?fs' = fs_group_desc_count fs"
    "s_uuid (fs_super ?fs') = s_uuid (fs_super fs)" "fs_wide ?fs' = fs_wide fs" "csum_same (with_desc fs g x) ?fs'" "desc_table_ok ?fs' = desc_table_ok fs"
    by (simp_all add: ext2fs_mark_bb_dirty_def ext2fs_mark_super_dirty_def fs_add_free_def ext2fs_free_blocks_count_add_def
        ext2fs_free_blocks_count_set_def Let_def csum_same_def desc_table_ok_def EXT2_BLOCK_SIZE_def ext2fs_has_feature_64bit_def
        EXT2_DESC_SIZE_def ext2fs_has_feature_metadata_csum_def ext2fs_has_feature_gdt_csum_def)
  have run: "ext2fs_block_alloc_stats2 adr ops call st blk inuse = Some (st\<lparr>al_fs := ?fs', al_block_map := bm\<rparr>)"
  proof -
    have nle: "\<not> ext2fs_blocks_count (fs_super fs) \<le> blk" "inuse \<noteq> -2147483648" using blk(2) inuse by auto
    have ratio: "EXT2FS_CLUSTER_RATIO (with_desc fs g x) = Some (2 ^ fs_cluster_ratio_bits fs)" using ok(3) by (simp add: EXT2FS_CLUSTER_RATIO_def)
    have nocb: "al_block_cb (st\<lparr>al_fs := a, al_block_map := c\<rparr>) = None" for a c using cb by simp
    show ?thesis
      unfolding ext2fs_block_alloc_stats2_def fs_def [symmetric] g(1) Option.bind.simps bm(1) prod.case x(1) ratio Let_def nocb option.case
      by (simp only: nle if_False)
  qed
  have "ext2fs_group_desc_csum_verify adr ?fs' g = Some True"
    unfolding x(4) [symmetric]
    by (rule group_desc_csum_verify_cong) (use t g(2) i x(2) ds in \<open>simp_all add: desc_whole_def\<close>)
  moreover have "bg_views ?fs' ! unat g = desc_view_of ?w x" "bg_views fs ! unat g = desc_view_of ?w (desc_of fs g)"
    unfolding bg_views_def ds using i by simp_all
  moreover have "desc_of ?fs' h = desc_of fs h" if "h \<noteq> g" for h
    unfolding ds using word_neq_unat [OF that] by simp
  moreover have "ext2fs_free_blocks_count (fs_super ?fs') = cut64 ?w (ext2fs_free_blocks_count (fs_super fs) - of_int inuse * 2 ^ fs_cluster_ratio_bits fs)"
    by (simp add: ext2fs_mark_bb_dirty_def ext2fs_mark_super_dirty_def fs_add_free_def free_count_add)
  moreover have "blocks_frame (fs\<lparr>fs_flags := fs_flags fs OR 38\<rparr>) ?fs'"
    using blocks_frame_flags [OF fr, of "fs_flags fs OR 38" "of_int (- inuse) * of_nat (2 ^ fs_cluster_ratio_bits fs)"]
      blocks_frame_facts(16) [OF fr, of "of_int (- inuse) * of_nat (2 ^ fs_cluster_ratio_bits fs)"]
    by (simp add: ext2fs_mark_bb_dirty_def ext2fs_mark_super_dirty_def or.assoc)
  ultimately have "block_accounted adr inuse fs ?fs' g"
    unfolding block_accounted_def using x(3) by metis
  with g run bm show ?thesis by blast
qed

end

lemma cleared_then_accounted:
  assumes ok: "alloc_table_ok fs" "g < fs_group_desc_count fs" and cl: "flags_cleared adr 2 fs g fs1" and fl: "fs_flags fs1 OR 38 = fs_flags fs OR 38"
    and acc: "block_accounted adr inuse fs1 fs' g"
  shows "block_accounted adr inuse fs fs' g"
proof -
  from cl obtain x where x: "fs1 = (with_desc fs g x)\<lparr>fs_flags := fs_flags fs1\<rparr>"
    "desc_view_of (fs_wide fs) x = (desc_view_of (fs_wide fs) (desc_of fs g))
      \<lparr>v_flags := bg_flags (desc_of fs g) AND NOT 2, v_checksum := v_checksum (desc_view_of (fs_wide fs) x)\<rparr>"
    "bg_tail x = bg_tail (desc_of fs g)" unfolding flags_cleared_def by blast
  have f: "fs_group_desc fs1 = (fs_group_desc fs)[unat g := x]" "fs_cluster_ratio_bits fs1 = fs_cluster_ratio_bits fs" by (subst x(1), simp)+
  note s = flags_cleared_facts [OF cl]
  have i: "unat g < length (fs_group_desc fs)" using desc_table_index [OF _ ok(2)] ok(1) by (simp add: alloc_table_ok_def)
  have "desc_of fs1 h = desc_of fs h" if "h \<noteq> g" for h using word_neq_unat [OF that] by (simp add: f)
  moreover have "bg_views fs ! unat g = desc_view_of (fs_wide fs) (desc_of fs g)" using i by (simp add: bg_views_def)
  moreover have "bg_views fs1 ! unat g = (bg_views fs ! unat g)\<lparr>v_flags := bg_flags (desc_of fs g) AND NOT 2, v_checksum := v_checksum (desc_view_of (fs_wide fs) x)\<rparr>"
  proof -
    have "bg_views fs1 ! unat g = desc_view_of (fs_wide fs) x" using i by (simp add: bg_views_def f s)
    with calculation(2) x(2) show ?thesis by metis
  qed
  moreover have "(bg_flags (desc_of fs g) AND NOT 2) AND NOT 2 = bg_flags (desc_of fs g) AND NOT 2" by (simp only: and.assoc and.idem)
  moreover have "blocks_frame (fs\<lparr>fs_flags := fs_flags fs OR 38\<rparr>) fs'"
  proof -
    have "bg_tail ((fs_group_desc fs)[unat g := x] ! i) = bg_tail (fs_group_desc fs ! i)" for i
      using x(3) by (cases "unat g = i"; cases "i < length (fs_group_desc fs)") (simp_all add: list_update_beyond)
    moreover have "fs1\<lparr>fs_flags := fs_flags fs1 OR 38\<rparr> = (with_desc fs g x)\<lparr>fs_flags := fs_flags fs OR 38\<rparr>"
      by (subst x(1)) (simp add: fl)
    ultimately have "blocks_frame (fs\<lparr>fs_flags := fs_flags fs OR 38\<rparr>) (fs1\<lparr>fs_flags := fs_flags fs1 OR 38\<rparr>)" by (simp add: blocks_frame_def)
    with acc show ?thesis unfolding block_accounted_def by (blast intro: blocks_frame_trans)
  qed
  ultimately show ?thesis using acc unfolding block_accounted_def s f by (simp add: and.assoc)
qed

context bitmap_search
begin

lemma new_block3_run:
  fixes st :: "('p, 'f) alloc_state"
  defines "fs \<equiv> al_fs st"
  defines "first \<equiv> ucast (s_first_data_block (fs_super fs))" and "count \<equiv> ext2fs_blocks_count (fs_super fs)"
  assumes ready: "blocks_ready inv st b" and max: "find_first_zero ops = None \<longrightarrow> bm_end b \<noteq> 0xffffffffffffffff" and goal: "goal = 0 \<or> first \<le> goal"
  shows "\<exists>r fs'. ext2fs_new_block3 adr ops env st goal NullBitmap ctx = Some (r, st\<lparr>al_fs := fs'\<rparr>)
    \<and> (case r of
         Inr blk \<Rightarrow> cyc_first (\<lambda>x. x \<notin> gb_bits bits (Bitmap64 b)) first count (block_goal fs goal) (Inr blk)
           \<and> (\<exists>g. ext2fs_group_of_blk2 fs blk = Some g \<and> (if group_uninit 2 fs g then flags_cleared adr 2 fs g fs' else fs' = fs)
                \<and> fs_flags fs' OR 38 = fs_flags fs OR 38)
       | Inl e \<Rightarrow> e = EXT2_ET_BLOCK_ALLOC_FAIL \<and> fs' = fs \<and> (\<forall>x. first \<le> x \<and> x < count \<longrightarrow> x \<in> gb_bits bits (Bitmap64 b)))"
proof -
  have rd: "fs_magic fs = EXT2_ET_MAGIC_EXT2FS_FILSYS" "alloc_table_ok fs" "fs_geometry_ok fs" "fs_cluster_ratio_bits fs \<le> 30"
    "2 ^ fs_cluster_ratio_bits fs dvd unat (s_first_data_block (fs_super fs))" "al_block_map st = Bitmap64 b" "block_map_ok inv b fs"
    "al_gab st = None" "al_gab2 st = None" using ready by (simp_all add: blocks_ready_def fs_def)
  from new_block_search_run [OF rd(7) max rd(3-5) goal [unfolded first_def], folded first_def count_def] obtain r where
    r: "new_block_search ops fs (Bitmap64 b) goal = Some r" "cyc_first (\<lambda>x. x \<notin> gb_bits bits (Bitmap64 b)) first count (block_goal fs goal) r" by blast
  have run: "ext2fs_new_block3 adr ops env st goal NullBitmap ctx = new_block_allocated adr st r"
    using rd(1) r(1) unfolding fs_def by (simp add: ext2fs_new_block3_def rd(6,8,9))
  show ?thesis
  proof (cases r)
    case (Inl e)
    with r(2) have "e = ENOENT" "\<forall>x. first \<le> x \<and> x < count \<longrightarrow> x \<in> gb_bits bits (Bitmap64 b)" by (auto simp: cyc_first_def)
    with run Inl show ?thesis
      by (intro exI [of _ "Inl EXT2_ET_BLOCK_ALLOC_FAIL"] exI [of _ fs]) (simp add: new_block_allocated_def fs_def)
  next
    case (Inr blk)
    with r(2) have "first \<le> blk" "blk < count" by (simp_all add: cyc_first_def)
    then obtain g where g: "ext2fs_group_of_blk2 fs blk = Some g" using group_of_blk_unique [OF rd(3)] by (auto simp: first_def count_def)
    obtain fs' where fs': "ext2fs_clear_block_uninit adr fs g = Some fs'" "if group_uninit 2 fs g then flags_cleared adr 2 fs g fs' else fs' = fs"
      "fs_flags fs' OR 38 = fs_flags fs OR 38" using clear_block_uninit_run [OF rd(2)] by blast
    with run Inr g have "ext2fs_new_block3 adr ops env st goal NullBitmap ctx = Some (Inr blk, st\<lparr>al_fs := fs'\<rparr>)"
      by (simp add: new_block_allocated_def fs_def)
    with r(2) Inr g fs'(2,3) show ?thesis by (intro exI [of _ "Inr blk"] exI [of _ fs']) auto
  qed
qed

lemma alloc_block3_run:
  fixes st :: "('p, 'f) alloc_state"
  defines "fs \<equiv> al_fs st"
  defines "first \<equiv> ucast (s_first_data_block (fs_super fs))" and "count \<equiv> ext2fs_blocks_count (fs_super fs)"
  assumes ready: "blocks_ready inv st b" and max: "find_first_zero ops = None \<longrightarrow> bm_end b \<noteq> 0xffffffffffffffff" and goal: "goal = 0 \<or> first \<le> goal"
    and io: "\<And>s blk. env_zero_blocks env s blk 1 = Some (zero blk, s)"
  shows "\<exists>r st'. ext2fs_alloc_block3 adr ops env st goal ctx = Some (r, st')
    \<and> (case r of
         Inr blk \<Rightarrow> zero blk = E_OK \<and> cyc_first (\<lambda>x. x \<notin> gb_bits bits (Bitmap64 b)) first count (block_goal fs goal) (Inr blk)
           \<and> gb_bits bits (al_block_map st') = gb_bits bits (Bitmap64 b) \<union> (gb_unit (Bitmap64 b) blk \<inter> gb_univ (Bitmap64 b))
           \<and> (\<exists>g. ext2fs_group_of_blk2 fs blk = Some g \<and> block_accounted adr 1 fs (al_fs st') g)
           \<and> st' = st\<lparr>al_fs := al_fs st', al_block_map := al_block_map st'\<rparr>
       | Inl e \<Rightarrow> st' = st\<lparr>al_fs := al_fs st'\<rparr>
           \<and> (e = EXT2_ET_BLOCK_ALLOC_FAIL \<and> st' = st \<and> (\<forall>x. first \<le> x \<and> x < count \<longrightarrow> x \<in> gb_bits bits (Bitmap64 b))
              \<or> (\<exists>blk. cyc_first (\<lambda>x. x \<notin> gb_bits bits (Bitmap64 b)) first count (block_goal fs goal) (Inr blk) \<and> e = zero blk \<and> e \<noteq> E_OK
                  \<and> (al_fs st' = fs \<or> (\<exists>g. ext2fs_group_of_blk2 fs blk = Some g \<and> flags_cleared adr 2 fs g (al_fs st'))))))"
proof -
  have rd: "alloc_table_ok fs" "fs_geometry_ok fs" "fs_cluster_ratio_bits fs \<le> 30" "al_block_map st = Bitmap64 b" "block_map_ok inv b fs"
    "al_gab st = None" "al_gab2 st = None" "al_block_cb st = None" using ready by (simp_all add: blocks_ready_def fs_def)
  from new_block3_run [OF ready max goal [unfolded first_def fs_def], folded fs_def, folded first_def count_def, of adr env ctx] obtain r fs1 where
    r: "ext2fs_new_block3 adr ops env st goal NullBitmap ctx = Some (r, st\<lparr>al_fs := fs1\<rparr>)"
      "case r of
         Inr blk \<Rightarrow> cyc_first (\<lambda>x. x \<notin> gb_bits bits (Bitmap64 b)) first count (block_goal fs goal) (Inr blk)
           \<and> (\<exists>g. ext2fs_group_of_blk2 fs blk = Some g \<and> (if group_uninit 2 fs g then flags_cleared adr 2 fs g fs1 else fs1 = fs)
                \<and> fs_flags fs1 OR 38 = fs_flags fs OR 38)
       | Inl e \<Rightarrow> e = EXT2_ET_BLOCK_ALLOC_FAIL \<and> fs1 = fs \<and> (\<forall>x. first \<le> x \<and> x < count \<longrightarrow> x \<in> gb_bits bits (Bitmap64 b))" by blast
  have run: "ext2fs_alloc_block3 adr ops env st goal ctx = (case r of
      Inl retval \<Rightarrow> Some (Inl retval, st\<lparr>al_fs := fs1\<rparr>)
    | Inr block \<Rightarrow> if zero block \<noteq> E_OK then Some (Inl (zero block), st\<lparr>al_fs := fs1\<rparr>)
        else do { st \<leftarrow> ext2fs_block_alloc_stats2 adr ops (env_block_cb env) (st\<lparr>al_fs := fs1\<rparr>) block 1; Some (Inr block, st) })"
    unfolding ext2fs_alloc_block3_def rd(6,7) by (cases r) (simp_all add: rd(4) r(1) io)
  show ?thesis
  proof (cases r)
    case (Inl e)
    with r(2) have "e = EXT2_ET_BLOCK_ALLOC_FAIL" "fs1 = fs" "\<forall>x. first \<le> x \<and> x < count \<longrightarrow> x \<in> gb_bits bits (Bitmap64 b)" by simp_all
    with run Inl rd(4) show ?thesis
      by (intro exI [of _ "Inl EXT2_ET_BLOCK_ALLOC_FAIL"] exI [of _ st]) (simp add: fs_def)
  next
    case (Inr blk)
    with r(2) obtain g where g: "cyc_first (\<lambda>x. x \<notin> gb_bits bits (Bitmap64 b)) first count (block_goal fs goal) (Inr blk)"
      "ext2fs_group_of_blk2 fs blk = Some g" "if group_uninit 2 fs g then flags_cleared adr 2 fs g fs1 else fs1 = fs"
      "fs_flags fs1 OR 38 = fs_flags fs OR 38" by auto
    then have lim: "first \<le> blk" "blk < count" by (simp_all add: cyc_first_def)
    show ?thesis
    proof (cases "zero blk = E_OK")
      case False
      with run Inr g(1-3) show ?thesis by (intro exI [of _ "Inl (zero blk)"] exI [of _ "st\<lparr>al_fs := fs1\<rparr>"]) (auto split: if_splits)
    next
      case True
      have same: "fs_super fs1 = fs_super fs" "alloc_table_ok fs1" "fs_geometry_ok fs1" "fs_cluster_ratio_bits fs1 = fs_cluster_ratio_bits fs"
        "fs_group_desc_count fs1 = fs_group_desc_count fs"
        using g(3) rd(1,2) flags_cleared_facts [of adr 2 fs g fs1] by (simp_all split: if_splits)
      have "ext2fs_group_of_blk2 fs1 blk = Some g" using g(2) unfolding ext2fs_group_of_blk2_def same(1) .
      moreover from block_alloc_stats2_run [of "st\<lparr>al_fs := fs1\<rparr>" 1 blk adr "env_block_cb env"] same rd lim obtain g' fs' bm where
        s: "ext2fs_group_of_blk2 fs1 blk = Some g'" "g' < fs_group_desc_count fs1"
          "ext2fs_block_alloc_stats2 adr ops (env_block_cb env) (st\<lparr>al_fs := fs1\<rparr>) blk 1 = Some (st\<lparr>al_fs := fs', al_block_map := bm\<rparr>)"
          "block_accounted adr 1 fs1 fs' g'"
          "gb_bits bits bm = gb_bits bits (Bitmap64 b) \<union> (gb_unit (Bitmap64 b) blk \<inter> gb_univ (Bitmap64 b))"
        by (auto simp: first_def count_def block_map_ok_def)
      ultimately have "block_accounted adr 1 fs fs' g" using g(3,4) cleared_then_accounted [OF rd(1)] same(5) by (auto split: if_splits)
      moreover have "ext2fs_alloc_block3 adr ops env st goal ctx = Some (Inr blk, st\<lparr>al_fs := fs', al_block_map := bm\<rparr>)"
        using run Inr True s(3) by simp
      ultimately show ?thesis using True g(1,2) s(5)
        by (intro exI [of _ "Inr blk"] exI [of _ "st\<lparr>al_fs := fs', al_block_map := bm\<rparr>"]) auto
    qed
  qed
qed

end

text \<open>
  (C4) Allocating a block returns the first free block from the goal on, rounded down to a cluster, and around the end of
  the file system; all blocks of its cluster are then marked, and no others; its group counts one free cluster less, is
  no longer flagged as not initialised and has a checksum that verifies; the superblock counts the blocks of one cluster
  less. Nothing else changes: no other group, no other field of the superblock, neither the inode bitmap nor what the
  client has installed; superblock and block bitmap are flagged as dirty. It fails with nothing changed exactly
  when every block is in use. When the device refuses to write the zeroes, its error is returned and nothing has changed, save
  that the group may have lost its flag. No function of a client is installed in place of the search, and the device is
  supposed to leave the structures in memory alone.
\<close>

theorem alloc_block_correct:
  fixes st :: "(u8 list, 'f) alloc_state" and ok1 ok2 :: bool and junk :: "nat \<Rightarrow> u8" and base :: nat
  defines "fs \<equiv> al_fs st" and "ops \<equiv> ext2fs_blkmap64_bitarray ok1 ok2 junk base"
  defines "first \<equiv> ucast (s_first_data_block (fs_super fs))" and "count \<equiv> ext2fs_blocks_count (fs_super fs)"
  assumes "blocks_ready ba_ok st b" "goal = 0 \<or> first \<le> goal" and "\<And>s blk. env_zero_blocks env s blk 1 = Some (zero blk, s)"
  shows "\<exists>r st'. ext2fs_alloc_block3 adr ops env st goal ctx = Some (r, st')
    \<and> (case r of
         Inr blk \<Rightarrow> zero blk = E_OK \<and> cyc_first (\<lambda>x. x \<notin> gb_bits ba_bits (Bitmap64 b)) first count (block_goal fs goal) (Inr blk)
           \<and> gb_bits ba_bits (al_block_map st') = gb_bits ba_bits (Bitmap64 b) \<union> (gb_unit (Bitmap64 b) blk \<inter> gb_univ (Bitmap64 b))
           \<and> (\<exists>g. ext2fs_group_of_blk2 fs blk = Some g \<and> block_accounted adr 1 fs (al_fs st') g)
           \<and> st' = st\<lparr>al_fs := al_fs st', al_block_map := al_block_map st'\<rparr>
       | Inl e \<Rightarrow> st' = st\<lparr>al_fs := al_fs st'\<rparr>
           \<and> (e = EXT2_ET_BLOCK_ALLOC_FAIL \<and> st' = st \<and> (\<forall>x. first \<le> x \<and> x < count \<longrightarrow> x \<in> gb_bits ba_bits (Bitmap64 b))
              \<or> (\<exists>blk. cyc_first (\<lambda>x. x \<notin> gb_bits ba_bits (Bitmap64 b)) first count (block_goal fs goal) (Inr blk) \<and> e = zero blk \<and> e \<noteq> E_OK
                  \<and> (al_fs st' = fs \<or> (\<exists>g. ext2fs_group_of_blk2 fs blk = Some g \<and> flags_cleared adr 2 fs g (al_fs st'))))))"
  using assms unfolding fs_def first_def count_def ops_def
  by (intro ba.alloc_block3_run) (simp_all add: ext2fs_blkmap64_bitarray_def)

text \<open>A file system of 15 blocks in one group, of which the blocks 3 and 12 are in use, and a device that accepts all writes.\<close>

definition fs_small_example :: filsys where
  "fs_small_example = fs_csum_example\<lparr>fs_super := (fs_super fs_csum_example)\<lparr>s_blocks_count := 15\<rparr>, fs_group_desc_count := 1\<rparr>"

definition small_example :: "(u8 list, nat) alloc_state" where
  "small_example = block_example\<lparr>al_fs := fs_small_example\<rparr>"

definition env_example :: "(u8 list, nat, unit) alloc_env" where
  "env_example = \<lparr>env_gab = \<lambda>_ _ _. None, env_gab2 = \<lambda>_ _ _ _. None, env_new_range = \<lambda>_ _ _ _ _. None, env_block_cb = \<lambda>_ _ _ _. None,
     env_range_cb = \<lambda>_ _ _ _ _. None, env_read_block_bitmap = \<lambda>_. None, env_zero_blocks = \<lambda>s _ _. Some (E_OK, s)\<rparr>"

lemma small_example_ready: "blocks_ready ba_ok small_example ba_example" "ext2fs_blocks_count (fs_super (al_fs small_example)) = 15"
  "s_first_data_block (fs_super (al_fs small_example)) = 1"
proof -
  show c: "ext2fs_blocks_count (fs_super (al_fs small_example)) = 15" "s_first_data_block (fs_super (al_fs small_example)) = 1"
    by (simp_all add: small_example_def fs_small_example_def ext2fs_blocks_count_def fs_csum_example_def fs_example_def ext2fs_has_feature_64bit_def)
  have "alloc_table_ok fs_csum_example" using block_example_ok(1) by (simp add: block_example_def)
  then have "alloc_table_ok fs_small_example"
    by (simp add: alloc_table_ok_def desc_table_ok_def desc_whole_def fs_small_example_def fs_csum_example_def fs_example_def
        EXT2_BLOCK_SIZE_def ext2fs_has_feature_64bit_def EXT2_DESC_SIZE_def)
  moreover have "fs_geometry_ok (al_fs small_example)" unfolding fs_geometry_ok_def c Let_def
    by (simp add: small_example_def fs_small_example_def fs_csum_example_def fs_example_def)
  moreover have "x \<in> gb_univ (Bitmap64 ba_example)" if "1 \<le> x" "x < 15" for x
    using that by (simp add: gb_univ_def ba_example_def word_le_nat_alt word_less_nat_alt)
  then have "block_map_ok ba_ok ba_example (al_fs small_example)" unfolding block_map_ok_def c using block_example_ok(4) by simp
  ultimately show "blocks_ready ba_ok small_example ba_example"
    by (simp add: blocks_ready_def small_example_def block_example_def) (simp add: fs_small_example_def fs_csum_example_def fs_example_def)
qed

theorem alloc_block_correct_witness:
  "\<exists>r st'. ext2fs_alloc_block3 0 (ext2fs_blkmap64_bitarray True True (\<lambda>_. 0) 0) env_example small_example 12 None = Some (r, st')
    \<and> (case r of
         Inr blk \<Rightarrow> cyc_first (\<lambda>x. x \<notin> gb_bits ba_bits (Bitmap64 ba_example)) 1 15 (block_goal (al_fs small_example) 12) (Inr blk)
           \<and> gb_bits ba_bits (al_block_map st') = gb_bits ba_bits (Bitmap64 ba_example) \<union> (gb_unit (Bitmap64 ba_example) blk \<inter> gb_univ (Bitmap64 ba_example))
           \<and> (\<exists>g. ext2fs_group_of_blk2 (al_fs small_example) blk = Some g \<and> block_accounted 0 1 (al_fs small_example) (al_fs st') g)
           \<and> al_inode_map st' = al_inode_map small_example
       | Inl e \<Rightarrow> e = EXT2_ET_BLOCK_ALLOC_FAIL \<and> st' = small_example)"
proof -
  have z: "\<And>s blk. env_zero_blocks env_example s blk 1 = Some ((\<lambda>_. E_OK) blk, s)" by (simp add: env_example_def)
  have "12 = 0 \<or> ucast (s_first_data_block (fs_super (al_fs small_example))) \<le> (12 :: u64)" by (simp add: small_example_ready)
  from alloc_block_correct [OF small_example_ready(1) this z, of 0 True True "\<lambda>_. 0" 0 None] show ?thesis
    unfolding small_example_ready(2,3)
    apply (elim exE conjE)
    subgoal for r st' by (rule exI [of _ r], rule exI [of _ st'], cases r) (auto dest: arg_cong [of _ _ al_inode_map])
    done
qed

subsection \<open>The search for a number of blocks\<close>

text \<open>The parameters of the search, in numbers: \<open>p\<close> blocks, in steps of \<open>2 ^ k\<close>.\<close>

definition search_bounds :: "'p bitmap64 \<Rightarrow> filsys \<Rightarrow> nat \<Rightarrow> bool" where
  "search_bounds b fs p \<longleftrightarrow> 0 < p \<and> p < 2147483648 \<and> unat (s_first_data_block (fs_super fs)) + p \<le> unat (ext2fs_blocks_count (fs_super fs))
     \<and> unat (ext2fs_blocks_count (fs_super fs)) \<le> 2 ^ 62 \<and> 2 ^ bm_cluster_bits b dvd unat (s_first_data_block (fs_super fs))"

definition run_free :: "('p bitmap64 \<Rightarrow> u64 set) \<Rightarrow> 'p bitmap64 \<Rightarrow> nat \<Rightarrow> nat \<Rightarrow> bool" where
  "run_free bits b p x \<longleftrightarrow> gb_bits bits (Bitmap64 b) \<inter> gb_run (Bitmap64 b) (of_nat x) (of_nat p) = {}"

lemma search_bounds_pow: "gb_ok good (Bitmap64 b) \<Longrightarrow> (2 :: nat) ^ bm_cluster_bits b \<le> 1073741824"
proof -
  assume "gb_ok good (Bitmap64 b)"
  then have "bm_cluster_bits b \<le> 30" by (simp add: gb_ok_def)
  then have "(2 :: nat) ^ bm_cluster_bits b \<le> 2 ^ 30" by (intro power_increasing) simp_all
  then show ?thesis by simp
qed

context bitmap_backend
begin

lemma free_blocks_over:
  fixes fs :: filsys and b :: "'p bitmap64" and y p :: nat
  assumes g: "gb_ok inv (Bitmap64 b)" and par: "search_bounds b fs p" and y: "y \<le> unat (ext2fs_blocks_count (fs_super fs)) + 2 ^ bm_cluster_bits b"
  shows "(of_nat y + of_int (int p) - 1 :: u64) \<ge> ext2fs_blocks_count (fs_super fs) \<longleftrightarrow> unat (ext2fs_blocks_count (fs_super fs)) < y + p"
proof -
  let ?C = "unat (ext2fs_blocks_count (fs_super fs))"
  have p: "0 < p" "p < 2147483648" "?C \<le> 4611686018427387904" using par by (simp_all add: search_bounds_def)
  have lt: "y + p < 18446744073709551616" using y p search_bounds_pow [OF g] by linarith
  have "(of_nat y + of_int (int p) - 1 :: u64) = of_nat (y + p - 1)" using p(1) by (simp add: of_nat_diff)
  moreover have "unat (of_nat (y + p - 1) :: u64) = y + p - 1" using lt by (intro unat_of_nat_u64) linarith
  ultimately have "(of_nat y + of_int (int p) - 1 :: u64) \<ge> ext2fs_blocks_count (fs_super fs) \<longleftrightarrow> ?C \<le> y + p - 1"
    unfolding word_le_nat_alt by simp
  then show ?thesis using p(1) by linarith
qed

lemma free_blocks_test:
  fixes fs :: filsys and b :: "'p bitmap64" and y p :: nat
  assumes ok: "block_map_ok inv b fs" and par: "search_bounds b fs p"
    and y: "unat (s_first_data_block (fs_super fs)) \<le> y" "y + p \<le> unat (ext2fs_blocks_count (fs_super fs))"
  shows "\<exists>t. ext2fs_fast_test_block_bitmap_range2 ops (Bitmap64 b) (of_nat y) (of_int (int p)) = Some (Inr t) \<and> (t \<noteq> 0 \<longleftrightarrow> run_free bits b p y)"
proof -
  have p: "0 < p" "p < 2147483648" "unat (ext2fs_blocks_count (fs_super fs)) \<le> 4611686018427387904" using par by (simp_all add: search_bounds_def)
  have g: "gb_ok inv (Bitmap64 b)" using ok by (simp add: block_map_ok_def)
  have uy: "unat (of_nat y :: u64) = y" "unat (of_nat p :: u32) = p" using y p by (simp_all add: unat_of_nat_u64 unat_of_nat_u32)
  have "z \<in> gb_univ (Bitmap64 b)" if "unat (of_nat y :: u64) \<le> unat z" "unat z < unat (of_nat y :: u64) + unat (of_nat p :: u32)" for z
    using ok that y unfolding uy block_map_ok_def by (simp add: word_le_nat_alt word_less_nat_alt)
  moreover have "unat (of_nat y :: u64) + unat (of_nat p :: u32) + 2 ^ bm_cluster_bits b \<le> 18446744073709551616"
    unfolding uy using y(2) p(3) search_bounds_pow [OF g] by linarith
  moreover have "0 < (of_nat p :: u32)" using uy p(1) by (simp add: word_less_nat_alt)
  ultimately show ?thesis using gb_range2_64(3) [OF g] by (simp add: ext2fs_fast_test_block_bitmap_range2_def run_free_def)
qed

lemma free_blocks_step:
  fixes fs :: filsys and b :: "'p bitmap64" and x p :: nat
  defines "F \<equiv> unat (s_first_data_block (fs_super fs))" and "C \<equiv> unat (ext2fs_blocks_count (fs_super fs))" and "R \<equiv> 2 ^ bm_cluster_bits b :: nat"
  assumes ok: "block_map_ok inv b fs" and par: "search_bounds b fs p" and x: "F \<le> x"
  shows "x + p \<le> C \<Longrightarrow> free_blocks_loop ops fs (Bitmap64 b) R start finish (int p) (of_nat x) =
      (if run_free bits b p x then Some (Inr (of_nat x))
       else if of_nat (x + R) \<noteq> finish then free_blocks_loop ops fs (Bitmap64 b) R start finish (int p) (of_nat (x + R))
       else Some (Inl EXT2_ET_BLOCK_ALLOC_FAIL))"
    and "C < x + p \<Longrightarrow> x \<le> C + R \<Longrightarrow> free_blocks_loop ops fs (Bitmap64 b) R start finish (int p) (of_nat x) =
      (if finish > start then Some (Inl EXT2_ET_BLOCK_ALLOC_FAIL)
       else free_blocks_loop ops fs (Bitmap64 b) R start finish (int p) (of_nat F))"
proof -
  let ?loop = "free_blocks_loop ops fs (Bitmap64 b) R start finish (int p)"
  have p: "0 < p" "F + p \<le> C" using par by (simp_all add: search_bounds_def F_def C_def)
  have g: "gb_ok inv (Bitmap64 b)" using ok by (simp add: block_map_ok_def)
  note over = free_blocks_over [OF g par, folded C_def R_def]
  note test = free_blocks_test [OF ok par, folded F_def C_def]
  have step: "?loop (of_nat y) = (if run_free bits b p y then Some (Inr (of_nat y))
       else if of_nat (y + R) \<noteq> finish then ?loop (of_nat (y + R)) else Some (Inl EXT2_ET_BLOCK_ALLOC_FAIL))" if y: "F \<le> y" "y + p \<le> C" for y
  proof -
    from test [OF y] obtain t where t: "ext2fs_fast_test_block_bitmap_range2 ops (Bitmap64 b) (of_nat y) (of_int (int p)) = Some (Inr t)"
      "t \<noteq> 0 \<longleftrightarrow> run_free bits b p y" by blast
    have "\<not> (of_nat y + of_int (int p) - 1 :: u64) \<ge> ext2fs_blocks_count (fs_super fs)" using over [of y] y by simp
    then show ?thesis by (subst free_blocks_loop.simps) (use t in \<open>simp add: Let_def\<close>)
  qed
  then show "x + p \<le> C \<Longrightarrow> ?loop (of_nat x) = (if run_free bits b p x then Some (Inr (of_nat x))
       else if of_nat (x + R) \<noteq> finish then ?loop (of_nat (x + R)) else Some (Inl EXT2_ET_BLOCK_ALLOC_FAIL))" using x by blast
  assume o: "C < x + p" "x \<le> C + R"
  from test [OF order_refl p(2)] obtain t where t: "ext2fs_fast_test_block_bitmap_range2 ops (Bitmap64 b) (of_nat F) (of_int (int p)) = Some (Inr t)"
    "t \<noteq> 0 \<longleftrightarrow> run_free bits b p F" by blast
  have first: "ucast (s_first_data_block (fs_super fs)) = (of_nat F :: u64)" by (simp add: F_def word_unat_eq_iff)
  have "(of_nat x + of_int (int p) - 1 :: u64) \<ge> ext2fs_blocks_count (fs_super fs)" using over [OF o(2)] o(1) by simp
  then have "?loop (of_nat x) = (if finish > start then Some (Inl EXT2_ET_BLOCK_ALLOC_FAIL)
      else if run_free bits b p F then Some (Inr (of_nat F))
       else if of_nat (F + R) \<noteq> finish then ?loop (of_nat (F + R)) else Some (Inl EXT2_ET_BLOCK_ALLOC_FAIL))"
    by (subst free_blocks_loop.simps) (use t in \<open>simp add: Let_def first\<close>)
  then show "?loop (of_nat x) = (if finish > start then Some (Inl EXT2_ET_BLOCK_ALLOC_FAIL) else ?loop (of_nat F))"
    using step [OF order_refl p(2)] by simp
qed

end

text \<open>The outcome of a search among the multiples of \<open>R\<close> from \<open>lo\<close> up to but not including \<open>hi\<close>.\<close>

definition scan_result :: "('p bitmap64 \<Rightarrow> u64 set) \<Rightarrow> 'p bitmap64 \<Rightarrow> nat \<Rightarrow> nat \<Rightarrow> nat \<Rightarrow> nat \<Rightarrow> errcode + u64 \<Rightarrow> bool" where
  "scan_result bits b p C lo hi r \<longleftrightarrow>
     (case r of
        Inr v \<Rightarrow> lo \<le> unat v \<and> unat v < hi \<and> 2 ^ bm_cluster_bits b dvd unat v \<and> unat v + p \<le> C \<and> run_free bits b p (unat v)
      | Inl e \<Rightarrow> e = EXT2_ET_BLOCK_ALLOC_FAIL
          \<and> (\<forall>x. lo \<le> x \<and> x < hi \<and> 2 ^ bm_cluster_bits b dvd x \<and> x + p \<le> C \<longrightarrow> \<not> run_free bits b p x))"

text \<open>The outcome of a search among a set of places, where a place is a multiple of the cluster size.\<close>

definition place_free :: "('p bitmap64 \<Rightarrow> u64 set) \<Rightarrow> 'p bitmap64 \<Rightarrow> nat \<Rightarrow> nat \<Rightarrow> nat \<Rightarrow> bool" where
  "place_free bits b p C x \<longleftrightarrow> 2 ^ bm_cluster_bits b dvd x \<and> x + p \<le> C \<and> run_free bits b p x"

definition scan_in :: "('p bitmap64 \<Rightarrow> u64 set) \<Rightarrow> 'p bitmap64 \<Rightarrow> nat \<Rightarrow> nat \<Rightarrow> nat set \<Rightarrow> errcode + u64 \<Rightarrow> bool" where
  "scan_in bits b p C S r \<longleftrightarrow>
     (case r of Inr v \<Rightarrow> unat v \<in> S \<and> place_free bits b p C (unat v) | Inl e \<Rightarrow> e = EXT2_ET_BLOCK_ALLOC_FAIL \<and> (\<forall>x \<in> S. \<not> place_free bits b p C x))"

lemma scan_result_in: "scan_result bits b p C lo hi r = scan_in bits b p C {lo..<hi} r"
  by (cases r) (auto simp: scan_result_def scan_in_def place_free_def)

lemma next_multiple:
  fixes x y R :: nat
  assumes "R dvd x" "R dvd y" "x < y"
  shows "x + R \<le> y"
proof -
  have "R dvd y - x" using assms(1,2) by (rule dvd_diff_nat [rotated])
  with assms(3) have "R \<le> y - x" by (intro dvd_imp_le) simp_all
  then show ?thesis using assms(3) by linarith
qed

context bitmap_backend
begin

lemma scan_to_finish:
  fixes fs :: filsys and b :: "'p bitmap64" and p :: nat
  defines "F \<equiv> unat (s_first_data_block (fs_super fs))" and "C \<equiv> unat (ext2fs_blocks_count (fs_super fs))" and "R \<equiv> 2 ^ bm_cluster_bits b :: nat"
  assumes ok: "block_map_ok inv b fs" and par: "search_bounds b fs p" and E: "R dvd unat finish" "start < finish \<or> unat finish + p \<le> C + R"
    and "F \<le> x" "x < unat finish" "R dvd x" "x \<le> C + R"
  shows "\<exists>r. free_blocks_loop ops fs (Bitmap64 b) R start finish (int p) (of_nat x) = Some r \<and> scan_result bits b p C x (unat finish) r"
  using assms(8-)
proof (induction "unat finish - x" arbitrary: x rule: less_induct)
  case less
  note step = free_blocks_step [OF ok par, folded F_def C_def R_def, OF less.prems(1), where start = start and finish = finish]
  have p: "0 < p" "C \<le> 4611686018427387904" using par by (simp_all add: search_bounds_def C_def)
  have g: "gb_ok inv (Bitmap64 b)" using ok by (simp add: block_map_ok_def)
  have Rb: "0 < R" "R \<le> 1073741824" unfolding R_def using search_bounds_pow [OF g] by simp_all
  have xr: "x + R \<le> unat finish" by (rule next_multiple [OF less.prems(3) E(1) less.prems(2)])
  have u: "unat (of_nat x :: u64) = x" "unat (of_nat (x + R) :: u64) = x + R"
    using less.prems(4) p(2) Rb by (simp_all add: unat_of_nat_u64 del: of_nat_add)
  show ?case
  proof (cases "x + p \<le> C")
    case False
    with xr E(2) have "start < finish" by linarith
    with False step(2) less.prems(4) have "free_blocks_loop ops fs (Bitmap64 b) R start finish (int p) (of_nat x) = Some (Inl EXT2_ET_BLOCK_ALLOC_FAIL)" by simp
    with False show ?thesis by (auto simp: scan_result_def)
  next
    case True
    show ?thesis
    proof (cases "run_free bits b p x")
      case free: True
      have "scan_result bits b p C x (unat finish) (Inr (of_nat x))" using free True less.prems by (simp add: scan_result_def u R_def)
      with step(1) True free show ?thesis by simp
    next
      case used: False
      have skip: "v = x \<or> x + R \<le> v" if "x \<le> v" "R dvd v" for v using next_multiple [OF less.prems(3) that(2)] that(1) by (cases "v = x") simp_all
      show ?thesis
      proof (cases "x + R = unat finish")
        case fin: True
        then have "of_nat (x + R) = finish" by simp
        then have "free_blocks_loop ops fs (Bitmap64 b) R start finish (int p) (of_nat x) = Some (Inl EXT2_ET_BLOCK_ALLOC_FAIL)"
          using step(1) True used by simp
        moreover have "scan_result bits b p C x (unat finish) (Inl EXT2_ET_BLOCK_ALLOC_FAIL)"
          using skip used fin by (simp add: scan_result_def R_def [symmetric]) (metis not_le)
        ultimately show ?thesis by blast
      next
        case False
        then have ne: "of_nat (x + R) \<noteq> finish" using u(2) by auto
        have "F \<le> x + R" "x + R < unat finish" "R dvd x + R" "x + R \<le> C + R" "unat finish - (x + R) < unat finish - x"
          using less.prems False xr True Rb(1) by simp_all
        from less.hyps [OF this(5,1-4)] obtain r where
          r: "free_blocks_loop ops fs (Bitmap64 b) R start finish (int p) (of_nat (x + R)) = Some r" "scan_result bits b p C (x + R) (unat finish) r" by blast
        have "scan_result bits b p C x (unat finish) r"
          using r(2) skip used by (cases r) (auto simp: scan_result_def R_def [symmetric])
        with step(1) True used ne r(1) show ?thesis by simp
      qed
    qed
  qed
qed

lemma scan_to_end:
  fixes fs :: filsys and b :: "'p bitmap64" and p :: nat
  defines "F \<equiv> unat (s_first_data_block (fs_super fs))" and "C \<equiv> unat (ext2fs_blocks_count (fs_super fs))" and "R \<equiv> 2 ^ bm_cluster_bits b :: nat"
  assumes ok: "block_map_ok inv b fs" and par: "search_bounds b fs p" and E: "\<not> start < finish"
    and "F \<le> x" "unat finish \<le> x \<or> C + R < unat finish + p" "R dvd x" "x \<le> C + R"
  shows "(\<exists>v. free_blocks_loop ops fs (Bitmap64 b) R start finish (int p) (of_nat x) = Some (Inr v) \<and> scan_result bits b p C x C (Inr v))
    \<or> free_blocks_loop ops fs (Bitmap64 b) R start finish (int p) (of_nat x) = free_blocks_loop ops fs (Bitmap64 b) R start finish (int p) (of_nat F)
        \<and> scan_result bits b p C x C (Inl EXT2_ET_BLOCK_ALLOC_FAIL)"
  using assms(7-)
proof (induction "C + R - x" arbitrary: x rule: less_induct)
  case less
  note step = free_blocks_step [OF ok par, folded F_def C_def R_def, OF less.prems(1), where start = start and finish = finish]
  have p: "0 < p" "C \<le> 4611686018427387904" using par by (simp_all add: search_bounds_def C_def)
  have g: "gb_ok inv (Bitmap64 b)" using ok by (simp add: block_map_ok_def)
  have Rb: "0 < R" "R \<le> 1073741824" unfolding R_def using search_bounds_pow [OF g] by simp_all
  have u: "unat (of_nat x :: u64) = x" "unat (of_nat (x + R) :: u64) = x + R"
    using less.prems(4) p(2) Rb by (simp_all add: unat_of_nat_u64 del: of_nat_add)
  show ?case
  proof (cases "x + p \<le> C")
    case False
    with step(2) less.prems(4) E have "free_blocks_loop ops fs (Bitmap64 b) R start finish (int p) (of_nat x)
        = free_blocks_loop ops fs (Bitmap64 b) R start finish (int p) (of_nat F)" by simp
    moreover have "scan_result bits b p C x C (Inl EXT2_ET_BLOCK_ALLOC_FAIL)" using False by (auto simp: scan_result_def)
    ultimately show ?thesis by blast
  next
    case True
    show ?thesis
    proof (cases "run_free bits b p x")
      case free: True
      have "scan_result bits b p C x C (Inr (of_nat x))" using free True less.prems p(1) by (simp add: scan_result_def u R_def)
      with step(1) True free show ?thesis by auto
    next
      case used: False
      have skip: "v = x \<or> x + R \<le> v" if "x \<le> v" "R dvd v" for v using next_multiple [OF less.prems(3) that(2)] that(1) by (cases "v = x") simp_all
      have "unat (of_nat (x + R) :: u64) \<noteq> unat finish" unfolding u(2) using less.prems(2) True Rb(1) by linarith
      then have ne: "of_nat (x + R) \<noteq> finish" by auto
      have "F \<le> x + R" "unat finish \<le> x + R \<or> C + R < unat finish + p" "R dvd x + R" "x + R \<le> C + R" "C + R - (x + R) < C + R - x"
        using less.prems True Rb(1) p(1) by auto
      from less.hyps [OF this(5,1-4)] have "(\<exists>v. free_blocks_loop ops fs (Bitmap64 b) R start finish (int p) (of_nat (x + R)) = Some (Inr v)
            \<and> scan_result bits b p C (x + R) C (Inr v))
        \<or> free_blocks_loop ops fs (Bitmap64 b) R start finish (int p) (of_nat (x + R)) = free_blocks_loop ops fs (Bitmap64 b) R start finish (int p) (of_nat F)
          \<and> scan_result bits b p C (x + R) C (Inl EXT2_ET_BLOCK_ALLOC_FAIL)" .
      moreover have "scan_result bits b p C x C r" if "scan_result bits b p C (x + R) C r" for r
        using that skip used by (cases r) (auto simp: scan_result_def R_def [symmetric])
      moreover have "free_blocks_loop ops fs (Bitmap64 b) R start finish (int p) (of_nat x) = free_blocks_loop ops fs (Bitmap64 b) R start finish (int p) (of_nat (x + R))"
        using step(1) True used ne by simp
      ultimately show ?thesis by auto
    qed
  qed
qed

end

text \<open>The search goes round for ever when it starts and should finish where it never comes by.\<close>

context bitmap_backend
begin

lemma free_blocks_no_result:
  fixes fs :: filsys and b :: "'p bitmap64" and p :: nat
  defines "F \<equiv> unat (s_first_data_block (fs_super fs))" and "C \<equiv> unat (ext2fs_blocks_count (fs_super fs))" and "R \<equiv> 2 ^ bm_cluster_bits b :: nat"
  assumes ok: "block_map_ok inv b fs" and par: "search_bounds b fs p" and order: "\<not> start < finish"
    and out: "unat finish \<le> F \<or> C + R < unat finish + p"
    and full: "\<And>y. F \<le> y \<Longrightarrow> R dvd y \<Longrightarrow> y + p \<le> C \<Longrightarrow> \<not> run_free bits b p y"
    and x: "F \<le> x" "R dvd x" "x \<le> C + R"
  shows "free_blocks_loop ops fs (Bitmap64 b) R start finish (int p) (of_nat x) = None"
proof -
  have p: "0 < p" "F + p \<le> C" "C \<le> 4611686018427387904" "R dvd F" using par by (simp_all add: search_bounds_def C_def F_def R_def)
  have g: "gb_ok inv (Bitmap64 b)" using ok by (simp add: block_map_ok_def)
  have Rb: "0 < R" "R \<le> 1073741824" unfolding R_def using search_bounds_pow [OF g] by simp_all
  note over = free_blocks_over [OF g par, folded C_def R_def]
  have first: "ucast (s_first_data_block (fs_super fs)) = (of_nat F :: u64)" by (simp add: F_def word_unat_eq_iff)
  let ?at = "\<lambda>bb :: u64. \<exists>y. bb = of_nat y \<and> F \<le> y \<and> R dvd y \<and> y \<le> C + R"
  let ?P = "\<lambda>ops' fs' m' R' start' finish' num' bb r.
    ops' = ops \<and> fs' = fs \<and> m' = Bitmap64 b \<and> R' = R \<and> start' = start \<and> finish' = finish \<and> num' = int p \<longrightarrow> \<not> ?at bb"
  have never: "\<not> ?at bb" if some: "free_blocks_loop ops fs (Bitmap64 b) R start finish (int p) bb = Some r" for bb r
  proof -
    have "?P ops fs (Bitmap64 b) R start finish (int p) bb r"
    proof (rule free_blocks_loop.raw_induct [where P = ?P, OF _ some], intro impI notI)
      fix f ops' fs' m' R' start' finish' num' bb r
      assume IH: "\<And>ops' fs' m' R' start' finish' num' bb r. f ops' fs' m' R' start' finish' num' bb = Some r \<Longrightarrow> ?P ops' fs' m' R' start' finish' num' bb r"
        and par: "ops' = ops \<and> fs' = fs \<and> m' = Bitmap64 b \<and> R' = R \<and> start' = start \<and> finish' = finish \<and> num' = int p"
        and at: "?at bb"
        and body: "(let over = ext2fs_blocks_count (fs_super fs') \<le> bb + of_int num' - 1 in
          if over \<and> start' < finish' then Some (Inl EXT2_ET_BLOCK_ALLOC_FAIL)
          else let b = if over then ucast (s_first_data_block (fs_super fs')) else bb in
            ext2fs_fast_test_block_bitmap_range2 ops' m' b (of_int num') \<bind>
            (\<lambda>t. if t \<noteq> Inr 0 \<and> t \<noteq> Inl E_OK then Some (Inr b)
              else if b + of_nat R' \<noteq> finish' then f ops' fs' m' R' start' finish' num' (b + of_nat R')
              else Some (Inl EXT2_ET_BLOCK_ALLOC_FAIL))) = Some r"
      from at obtain y where y: "bb = of_nat y" "F \<le> y" "R dvd y" "y \<le> C + R" by blast
      define z where "z = (if C < y + p then F else y)"
      have z: "F \<le> z" "R dvd z" "z + p \<le> C" using y p by (auto simp: z_def)
      obtain t where t: "ext2fs_fast_test_block_bitmap_range2 ops (Bitmap64 b) (of_nat z) (of_int (int p)) = Some (Inr t)" "t = 0"
        using free_blocks_test [OF ok assms(5), folded F_def C_def, OF z(1,3)] full [OF z] by auto
      have uz: "unat (of_nat (z + R) :: u64) = z + R" using z(3) p(3) Rb by (simp add: unat_of_nat_u64 del: of_nat_add)
      have "unat (of_nat (z + R) :: u64) \<noteq> unat finish" unfolding uz using out z(1,3) Rb(1) by linarith
      then have ne: "of_nat z + of_nat R \<noteq> finish" by auto
      have bz: "(if ext2fs_blocks_count (fs_super fs) \<le> of_nat y + of_int (int p) - 1 then of_nat F else of_nat y) = (of_nat z :: u64)"
        using over [OF y(4)] by (simp add: z_def)
      have "f ops fs (Bitmap64 b) R start finish (int p) (of_nat z + of_nat R) = Some r"
        using body [unfolded Let_def] order par unfolding y(1) by (simp only: first bz simp_thms if_False t Option.bind.simps ne split: if_splits)
      from IH [OF this] have "\<not> ?at (of_nat z + of_nat R)" by blast
      moreover have "?at (of_nat z + of_nat R)" using z by (intro exI [of _ "z + R"]) simp
      ultimately show False by blast
    qed
    then show ?thesis by blast
  qed
  show ?thesis
  proof (rule ccontr)
    assume "free_blocks_loop ops fs (Bitmap64 b) R start finish (int p) (of_nat x) \<noteq> None"
    then obtain r where "free_blocks_loop ops fs (Bitmap64 b) R start finish (int p) (of_nat x) = Some r" by blast
    from never [OF this] x show False by blast
  qed
qed

end

lemma word_eq_of_nat: "unat (x :: 'a::len word) = n \<Longrightarrow> x = of_nat n"
  by auto

lemma get_free_blocks2_unfold:
  fixes st :: "('p, 'f) alloc_state" and b :: "'p bitmap64" and x :: u64
  defines "R \<equiv> 2 ^ bm_cluster_bits b :: nat"
  assumes "fs_magic (al_fs st) = EXT2_ET_MAGIC_EXT2FS_FILSYS" "al_block_map st = Bitmap64 b" "gb_ok good (Bitmap64 b)" "0 < p"
  shows "ext2fs_get_free_blocks2 ops st start finish (int p) NullBitmap =
      free_blocks_loop ops (al_fs st) (Bitmap64 b) R start ((if finish = 0 then start else finish) AND NOT (of_nat (R - 1))) (int p)
        ((if start = 0 then ucast (s_first_data_block (fs_super (al_fs st))) else start) AND NOT (of_nat (R - 1)))"
    and "unat (x AND NOT (of_nat (R - 1))) = unat x div R * R"
proof -
  have b: "EXT2FS_IS_64_BITMAP (bm_magic b)" "\<not> 30 < bm_cluster_bits b" using assms(4) by (simp_all add: gb_ok_def)
  then show "ext2fs_get_free_blocks2 ops st start finish (int p) NullBitmap =
      free_blocks_loop ops (al_fs st) (Bitmap64 b) R start ((if finish = 0 then start else finish) AND NOT (of_nat (R - 1))) (int p)
        ((if start = 0 then ucast (s_first_data_block (fs_super (al_fs st))) else start) AND NOT (of_nat (R - 1)))"
    using assms(2,3,5) unfolding ext2fs_get_free_blocks2_def ext2fs_get_bitmap_granularity_def R_def Let_def by simp
  show "unat (x AND NOT (of_nat (R - 1))) = unat x div R * R" unfolding R_def using b(2) by (intro and_not_low_bits) simp
qed

lemma align_bounds:
  fixes R F x :: nat
  assumes "R dvd F" "F \<le> x"
  shows "F \<le> x div R * R" "R dvd x div R * R" "x div R * R \<le> x"
proof -
  have "F = F div R * R" using assms(1) by simp
  also have "\<dots> \<le> x div R * R" by (intro mult_le_mono1 div_le_mono assms(2))
  finally show "F \<le> x div R * R" .
qed simp_all

context bitmap_backend
begin

lemma get_free_blocks2_run:
  fixes st :: "('p, 'f) alloc_state" and b :: "'p bitmap64" and p :: nat and start finish :: u64
  defines "F \<equiv> unat (s_first_data_block (fs_super (al_fs st)))" and "C \<equiv> unat (ext2fs_blocks_count (fs_super (al_fs st)))"
    and "R \<equiv> 2 ^ bm_cluster_bits b :: nat"
  defines "a \<equiv> (if start = 0 then F else unat start div R * R)" and "e \<equiv> unat (if finish = 0 then start else finish) div R * R"
  assumes st: "fs_magic (al_fs st) = EXT2_ET_MAGIC_EXT2FS_FILSYS" "al_block_map st = Bitmap64 b"
    and ok: "block_map_ok inv b (al_fs st)" and par: "search_bounds b (al_fs st) p" and s: "start = 0 \<or> F \<le> unat start \<and> unat start < C"
  shows "unat start < e \<Longrightarrow> a < e \<Longrightarrow>
      \<exists>r. ext2fs_get_free_blocks2 ops st start finish (int p) NullBitmap = Some r \<and> scan_in bits b p C {a..<e} r"
    and "e \<le> unat start \<Longrightarrow> F < e \<Longrightarrow> e + p \<le> C + R \<Longrightarrow>
      \<exists>r. ext2fs_get_free_blocks2 ops st start finish (int p) NullBitmap = Some r \<and> scan_in bits b p C ({a..<C} \<union> {F..<e}) r"
    and "e \<le> unat start \<Longrightarrow> e \<le> F \<or> C + R < e + p \<Longrightarrow>
      (\<exists>v. ext2fs_get_free_blocks2 ops st start finish (int p) NullBitmap = Some (Inr v) \<and> scan_in bits b p C {F..<C} (Inr v))
      \<or> ext2fs_get_free_blocks2 ops st start finish (int p) NullBitmap = None \<and> scan_in bits b p C {F..<C} (Inl EXT2_ET_BLOCK_ALLOC_FAIL)"
proof -
  have p: "0 < p" "F + p \<le> C" "R dvd F" "C \<le> 4611686018427387904" using par by (simp_all add: search_bounds_def C_def F_def R_def)
  have g: "gb_ok inv (Bitmap64 b)" using ok by (simp add: block_map_ok_def)
  note run1 = get_free_blocks2_unfold(1) [OF st g p(1), folded R_def, of ops start]
  note low = get_free_blocks2_unfold(2) [OF st g p(1), folded R_def]
  let ?b = "if start = 0 then ucast (s_first_data_block (fs_super (al_fs st))) else start"
  define f where "f = (if finish = 0 then start else finish) AND NOT (of_nat (R - 1))"
  define loop where "loop x = free_blocks_loop ops (al_fs st) (Bitmap64 b) R start f (int p) (of_nat x)" for x :: nat
  have ub: "F \<le> unat ?b" "unat ?b \<le> C" using s p(2) by (auto simp: F_def)
  have ab: "a = unat ?b div R * R" using p(3) by (simp add: a_def F_def)
  note al = align_bounds [OF p(3) ub(1), folded ab]
  have aC: "a \<le> C + R" using al(3) ub(2) by linarith
  have "?b AND NOT (of_nat (R - 1)) = of_nat a" unfolding ab by (rule word_eq_of_nat, rule low)
  then have run: "ext2fs_get_free_blocks2 ops st start finish (int p) NullBitmap = loop a" unfolding run1 loop_def f_def by simp
  have uf: "unat f = e" unfolding f_def e_def by (rule low)
  have ed: "R dvd unat f" unfolding uf e_def by simp
  note fin = scan_to_finish [OF ok par, of f start, folded F_def C_def R_def, folded loop_def, unfolded scan_result_in]
  note lst = scan_to_end [OF ok par, of start f, folded F_def C_def R_def, folded loop_def, unfolded scan_result_in uf]
  show "\<exists>r. ext2fs_get_free_blocks2 ops st start finish (int p) NullBitmap = Some r \<and> scan_in bits b p C {a..<e} r" if "unat start < e" "a < e"
    unfolding run using fin [OF ed _ al(1) _ al(2) aC] that by (simp add: uf word_less_nat_alt)
  assume le: "e \<le> unat start"
  have nlt: "\<not> start < f" using le by (simp add: word_less_nat_alt uf)
  have ea: "e \<le> a"
  proof (cases "start = 0")
    case False
    have "e = e div R * R" by (simp add: e_def)
    also have "\<dots> \<le> unat start div R * R" by (intro mult_le_mono1 div_le_mono le)
    finally show ?thesis using False by (simp add: a_def)
  qed (use le in simp)
  have first: "(\<exists>v. loop a = Some (Inr v) \<and> scan_in bits b p C {a..<C} (Inr v)) \<or> loop a = loop F \<and> scan_in bits b p C {a..<C} (Inl EXT2_ET_BLOCK_ALLOC_FAIL)"
    using lst [OF nlt al(1) _ al(2) aC] ea by blast
  show "\<exists>r. ext2fs_get_free_blocks2 ops st start finish (int p) NullBitmap = Some r \<and> scan_in bits b p C ({a..<C} \<union> {F..<e}) r" if e: "F < e" "e + p \<le> C + R"
  proof -
    from fin [OF ed _ order_refl _ p(3)] e p(2) obtain r where r: "loop F = Some r" "scan_in bits b p C {F..<e} r" by (auto simp: uf)
    from first show ?thesis
    proof
      assume "loop a = loop F \<and> scan_in bits b p C {a..<C} (Inl EXT2_ET_BLOCK_ALLOC_FAIL)"
      with r show ?thesis unfolding run by (intro exI [of _ r]) (auto simp: scan_in_def split: sum.splits)
    qed (auto simp: scan_in_def run)
  qed
  show "(\<exists>v. ext2fs_get_free_blocks2 ops st start finish (int p) NullBitmap = Some (Inr v) \<and> scan_in bits b p C {F..<C} (Inr v))
      \<or> ext2fs_get_free_blocks2 ops st start finish (int p) NullBitmap = None \<and> scan_in bits b p C {F..<C} (Inl EXT2_ET_BLOCK_ALLOC_FAIL)"
    if e: "e \<le> F \<or> C + R < e + p"
  proof -
    have "(\<exists>v. loop F = Some (Inr v) \<and> scan_in bits b p C {F..<C} (Inr v)) \<or> scan_in bits b p C {F..<C} (Inl EXT2_ET_BLOCK_ALLOC_FAIL)"
      using lst [OF nlt order_refl _ p(3)] e p(2) by auto
    moreover have "loop a = None" if full: "scan_in bits b p C {F..<C} (Inl EXT2_ET_BLOCK_ALLOC_FAIL)"
    proof -
      have "\<not> run_free bits b p y" if "F \<le> y" "R dvd y" "y + p \<le> C" for y
        using full that p(1) unfolding scan_in_def place_free_def R_def by auto
      then show ?thesis unfolding loop_def
        using free_blocks_no_result [OF ok par nlt, folded F_def C_def R_def, unfolded uf] e al(1,2) aC by blast
    qed
    ultimately show ?thesis unfolding run using first al(1) by (auto simp: scan_in_def)
  qed
qed

lemma get_free_blocks2_no_result:
  fixes st :: "('p, 'f) alloc_state" and b :: "'p bitmap64" and p :: nat
  defines "F \<equiv> unat (s_first_data_block (fs_super (al_fs st)))" and "C \<equiv> unat (ext2fs_blocks_count (fs_super (al_fs st)))"
    and "R \<equiv> 2 ^ bm_cluster_bits b :: nat"
  assumes st: "fs_magic (al_fs st) = EXT2_ET_MAGIC_EXT2FS_FILSYS" "al_block_map st = Bitmap64 b"
    and ok: "block_map_ok inv b (al_fs st)" and par: "search_bounds b (al_fs st) p"
    and s: "start = 0 \<or> F \<le> unat start \<and> unat start < C" "finish = 0 \<or> finish = start"
    and out: "unat start div R * R \<le> F \<or> C + R < unat start div R * R + p" and full: "scan_result bits b p C F C (Inl EXT2_ET_BLOCK_ALLOC_FAIL)"
  shows "ext2fs_get_free_blocks2 ops st start finish (int p) NullBitmap = None"
proof -
  have p: "0 < p" "F + p \<le> C" "R dvd F" using par by (simp_all add: search_bounds_def C_def F_def R_def)
  have g: "gb_ok inv (Bitmap64 b)" using ok by (simp add: block_map_ok_def)
  note run1 = get_free_blocks2_unfold(1) [OF st g p(1), folded R_def, of ops start]
  note low = get_free_blocks2_unfold(2) [OF st g p(1), folded R_def]
  let ?b = "if start = 0 then ucast (s_first_data_block (fs_super (al_fs st))) else start"
  have ub: "F \<le> unat ?b" "unat ?b \<le> C" using s(1) p(2) by (auto simp: F_def)
  note a = align_bounds [OF p(3) ub(1)]
  have "unat (?b AND NOT (of_nat (R - 1))) = unat ?b div R * R" by (rule low)
  then have wa: "?b AND NOT (of_nat (R - 1)) = of_nat (unat ?b div R * R)" by (rule word_eq_of_nat)
  have uf: "unat (start AND NOT (of_nat (R - 1))) = unat start div R * R" by (rule low)
  have nlt: "\<not> start < start AND NOT (of_nat (R - 1))" unfolding word_less_nat_alt uf by (simp add: not_less)
  have used: "\<not> run_free bits b p y" if "F \<le> y" "R dvd y" "y + p \<le> C" for y
    using full that p(1) unfolding scan_result_def R_def by auto
  have "unat (start AND NOT (of_nat (R - 1))) \<le> F \<or> C + R < unat (start AND NOT (of_nat (R - 1))) + p" using out unfolding uf .
  moreover have "unat ?b div R * R \<le> C + R" using a(3) ub(2) by linarith
  ultimately have "free_blocks_loop ops (al_fs st) (Bitmap64 b) R start (start AND NOT (of_nat (R - 1))) (int p) (of_nat (unat ?b div R * R)) = None"
    using free_blocks_no_result [OF ok par nlt, folded F_def C_def R_def] used a(1,2) by blast
  moreover have "(if finish = 0 then start else finish) = start" using s(2) by auto
  ultimately show ?thesis unfolding run1 wa by simp
qed

end


lemma small_example_search:
  "fs_magic (al_fs small_example) = EXT2_ET_MAGIC_EXT2FS_FILSYS" "al_block_map small_example = Bitmap64 ba_example"
  "block_map_ok ba_ok ba_example (al_fs small_example)" "search_bounds ba_example (al_fs small_example) 4" "bm_cluster_bits ba_example = 0"
  using small_example_ready(1) unfolding blocks_ready_def by (simp_all add: search_bounds_def small_example_ready ba_example_def)



text \<open>The same file system with all blocks in use.\<close>

definition full_map_example :: "u8 list bitmap64" where
  "full_map_example = ba_example\<lparr>bm_private := replicate 2 (- 1)\<rparr>"

definition full_example :: "(u8 list, nat) alloc_state" where
  "full_example = small_example\<lparr>al_block_map := Bitmap64 full_map_example\<rparr>"

lemma full_map_example_facts:
  "gb_ok ba_ok (Bitmap64 full_map_example)" "gb_univ (Bitmap64 full_map_example) = gb_univ (Bitmap64 ba_example)"
  "\<And>x. 1 \<le> x \<Longrightarrow> x \<le> 14 \<Longrightarrow> x \<in> gb_bits ba_bits (Bitmap64 full_map_example)"
proof -
  show "gb_ok ba_ok (Bitmap64 full_map_example)"
    using block_example_ok(4) by (simp add: gb_ok_def full_map_example_def ba_ok_def ba_size_def ba_example_def)
  show u: "gb_univ (Bitmap64 full_map_example) = gb_univ (Bitmap64 ba_example)" by (simp add: gb_univ_def full_map_example_def)
  fix x :: u64
  assume x: "1 \<le> x" "x \<le> 14"
  have "bit_at (replicate 2 (- 1)) n" if "n < 16" for n
  proof -
    have "n div 8 < 2" "n mod 8 < 8" using that by (simp_all add: less_mult_imp_div_less)
    with that show ?thesis by (simp add: bit_at_def)
  qed
  moreover have "unat x - 1 < 16" using x by (simp add: word_le_nat_alt)
  ultimately show "x \<in> gb_bits ba_bits (Bitmap64 full_map_example)"
    using x by (simp add: gb_bits_def gb_univ_def full_map_example_def ba_example_def ba_bits_def word_le_nat_alt)
qed

lemma full_example_search:
  "fs_magic (al_fs full_example) = EXT2_ET_MAGIC_EXT2FS_FILSYS" "al_block_map full_example = Bitmap64 full_map_example"
  "block_map_ok ba_ok full_map_example (al_fs full_example)" "search_bounds full_map_example (al_fs full_example) 4"
  "bm_cluster_bits full_map_example = 0" "al_fs full_example = al_fs small_example"
proof -
  show e: "al_fs full_example = al_fs small_example" "al_block_map full_example = Bitmap64 full_map_example" by (simp_all add: full_example_def)
  show c: "bm_cluster_bits full_map_example = 0" by (simp add: full_map_example_def ba_example_def)
  show "fs_magic (al_fs full_example) = EXT2_ET_MAGIC_EXT2FS_FILSYS" unfolding e by (rule small_example_search(1))
  show "block_map_ok ba_ok full_map_example (al_fs full_example)"
    using small_example_search(3) full_map_example_facts(1,2) unfolding e by (simp add: block_map_ok_def)
  show "search_bounds full_map_example (al_fs full_example) 4"
    using small_example_search(4) unfolding e by (simp add: search_bounds_def c)
qed


text \<open>
  A request for more blocks than the file system has succeeds: the test of the run of 100 blocks from the first block
  of a file system of 15 blocks returns an error code, which the search takes for \<open>free\<close>.
\<close>

theorem get_free_blocks_too_many:
  "ext2fs_get_free_blocks2 (ext2fs_blkmap64_bitarray True True (\<lambda>_. 0) 0) full_example 5 0 100 NullBitmap = Some (Inr 1)"
proof -
  have t: "ext2fs_fast_test_block_bitmap_range2 (ext2fs_blkmap64_bitarray True True (\<lambda>_. 0) 0) (Bitmap64 full_map_example) 1 100 = Some (Inl EINVAL)"
    by code_simp
  have g: "ext2fs_get_bitmap_granularity (Bitmap64 full_map_example) = Some 0" by code_simp
  have "ext2fs_get_free_blocks2 (ext2fs_blkmap64_bitarray True True (\<lambda>_. 0) 0) full_example 5 0 100 NullBitmap
      = free_blocks_loop (ext2fs_blkmap64_bitarray True True (\<lambda>_. 0) 0) (al_fs full_example) (Bitmap64 full_map_example) 1 5 5 100 5"
    unfolding ext2fs_get_free_blocks2_def Let_def full_example_search(1,2) by (simp add: g)
  then show ?thesis by (subst (asm) free_blocks_loop.simps) (simp add: full_example_search(6) small_example_ready t)
qed


end
