(* ===== verification/Alloc_Range.thy ===== *)
theory Alloc_Range
  imports Alloc_Blocks
begin

unbundle bit_operations_syntax

text \<open>
  \<^verbatim>\<open>lib/ext2fs/alloc.c\<close>: the search for a run of free blocks near a goal, and the allocation of a run.
\<close>

subsection \<open>A run of free blocks\<close>

text \<open>Where the run of free blocks from \<open>s\<close> ends that one round of \<^verbatim>\<open>ext2fs_new_range\<close> looks at.\<close>

definition range_end :: "'p bitmap_ops \<Rightarrow> 'p gbitmap \<Rightarrow> u64 \<Rightarrow> u64 \<Rightarrow> u64 \<Rightarrow> (errcode + u64) ub" where
  "range_end ops m c len s = (let b = (if s + len - 1 < c - 1 then s + len - 1 else c - 1) in
     map_option (\<lambda>r. case r of Inl retval \<Rightarrow> if retval = ENOENT then Inr (b + 1) else Inl retval | Inr e \<Rightarrow> Inr e)
       (ext2fs_find_first_set_block_bitmap2 ops m s b))"

text \<open>
  The loop of \<^verbatim>\<open>ext2fs_new_range\<close>: an error code, or the first block of the run and the block behind it.
  \<open>fixed\<close> and \<open>min_len\<close> are the flags \<^verbatim>\<open>EXT2_NEWRANGE_FIXED_GOAL\<close> and \<^verbatim>\<open>EXT2_NEWRANGE_MIN_LENGTH\<close>.
\<close>

partial_function (option) new_range_loop ::
    "'p bitmap_ops \<Rightarrow> filsys \<Rightarrow> 'p gbitmap \<Rightarrow> bool \<Rightarrow> bool \<Rightarrow> u64 \<Rightarrow> u64 \<Rightarrow> bool \<Rightarrow> u64 \<Rightarrow> (errcode + u64 \<times> u64) ub" where
  [code]: "new_range_loop ops fs m fixed min_len goal len looped start =
     (let max_blocks = ext2fs_blocks_count (fs_super fs); first = ucast (s_first_data_block (fs_super fs)) in
      if \<not> (\<not> looped \<or> start \<le> goal) then Some (Inl EXT2_ET_BLOCK_ALLOC_FAIL)
      else do {
        r \<leftarrow> ext2fs_find_first_zero_block_bitmap2 ops m start (max_blocks - 1);
        case r of
          Inl retval \<Rightarrow>
            if retval = ENOENT then
              (if fixed \<or> start = first then Some (Inl EXT2_ET_BLOCK_ALLOC_FAIL)
               else new_range_loop ops fs m fixed min_len goal len looped first)
            else Some (Inl retval)
        | Inr start \<Rightarrow>
            if fixed \<and> start \<noteq> goal then Some (Inl EXT2_ET_BLOCK_ALLOC_FAIL)
            else do {
              r \<leftarrow> range_end ops m max_blocks len start;
              case r of
                Inl retval \<Rightarrow> Some (Inl retval)
              | Inr e \<Rightarrow>
                  if \<not> min_len \<or> e - start \<ge> len then Some (Inr (start, e))
                  else if fixed then Some (Inl EXT2_ET_BLOCK_ALLOC_FAIL)
                  else if e \<ge> max_blocks then
                    (if looped then Some (Inl EXT2_ET_BLOCK_ALLOC_FAIL)
                     else new_range_loop ops fs m fixed min_len goal len True first)
                  else new_range_loop ops fs m fixed min_len goal len looped e
            }
      })"

text \<open>The loop behind the label \<^verbatim>\<open>allocated\<close>.\<close>

partial_function (option) clear_uninit_loop :: "nat \<Rightarrow> u64 \<Rightarrow> filsys \<Rightarrow> u64 \<Rightarrow> filsys ub" where
  [code]: "clear_uninit_loop adr e fs b =
     (if b < e then do {
        grp \<leftarrow> ext2fs_group_of_blk2 fs b;
        fs \<leftarrow> ext2fs_clear_block_uninit adr fs grp;
        clear_uninit_loop adr e fs (b + ucast (s_blocks_per_group (fs_super fs)))
      } else Some fs)"

definition new_range_allocated ::
    "nat \<Rightarrow> ('p, 'f) alloc_state \<Rightarrow> u64 \<Rightarrow> u64 \<Rightarrow> ((errcode + u64 \<times> u64) \<times> ('p, 'f) alloc_state) ub" where
  "new_range_allocated adr st start e = do {
     fs \<leftarrow> clear_uninit_loop adr e (al_fs st) start;
     Some (Inr (start, e - start), st\<lparr>al_fs := fs\<rparr>)
   }"

definition ext2fs_new_range ::
    "nat \<Rightarrow> 'p bitmap_ops \<Rightarrow> ('p, 'f, 'c) alloc_env \<Rightarrow> ('p, 'f) alloc_state \<Rightarrow> u32 \<Rightarrow> u64 \<Rightarrow> u64 \<Rightarrow> 'p gbitmap
      \<Rightarrow> ((errcode + u64 \<times> u64) \<times> ('p, 'f) alloc_state) ub" where
  "ext2fs_new_range adr ops env st flags goal len mp =
     (let fs = al_fs st in
      if fs_magic fs \<noteq> EXT2_ET_MAGIC_EXT2FS_FILSYS then Some (Inl EXT2_ET_MAGIC_EXT2FS_FILSYS, st)
      else if len = 0 \<or> flags AND NOT 3 \<noteq> 0 then Some (Inl EXT2_ET_INVALID_ARGUMENT, st)
      else case (mp = NullBitmap, al_new_range st) of
        (True, Some nrf) \<Rightarrow> do {
          (r, st) \<leftarrow> env_new_range env nrf flags goal len (st\<lparr>al_new_range := None\<rparr>);
          let st = st\<lparr>al_new_range := Some nrf\<rparr>;
          case r of Inl retval \<Rightarrow> Some (Inl retval, st) | Inr (pblk, plen) \<Rightarrow> new_range_allocated adr st pblk (pblk + plen)
        }
      | _ \<Rightarrow>
          let m = (if mp = NullBitmap then al_block_map st else mp) in
          if m = NullBitmap then Some (Inl EXT2_ET_NO_BLOCK_BITMAP, st)
          else do {
            let goal = (if goal = 0 \<or> goal \<ge> ext2fs_blocks_count (fs_super fs) then ucast (s_first_data_block (fs_super fs)) else goal);
            r \<leftarrow> new_range_loop ops fs m (flags AND 1 \<noteq> 0) (flags AND 2 \<noteq> 0) goal len False goal;
            case r of Inl retval \<Rightarrow> Some (Inl retval, st) | Inr (start, e) \<Rightarrow> new_range_allocated adr st start e
          })"

definition ext2fs_set_new_range_callback :: "('p, 'f) alloc_state \<Rightarrow> 'f option \<Rightarrow> 'f option option \<times> ('p, 'f) alloc_state" where
  "ext2fs_set_new_range_callback st func =
     (if fs_magic (al_fs st) \<noteq> EXT2_ET_MAGIC_EXT2FS_FILSYS then (None, st)
      else (Some (al_new_range st), st\<lparr>al_new_range := func\<rparr>))"

definition ext2fs_alloc_range ::
    "nat \<Rightarrow> 'p bitmap_ops \<Rightarrow> ('p, 'f, 'c) alloc_env \<Rightarrow> ('p, 'f) alloc_state \<Rightarrow> u32 \<Rightarrow> u64 \<Rightarrow> u32
      \<Rightarrow> ((errcode + u64) \<times> ('p, 'f) alloc_state) ub" where
  "ext2fs_alloc_range adr ops env st flags goal len =
     (if fs_magic (al_fs st) \<noteq> EXT2_ET_MAGIC_EXT2FS_FILSYS then Some (Inl EXT2_ET_MAGIC_EXT2FS_FILSYS, st)
      else if len = 0 \<or> flags AND NOT 3 \<noteq> 0 then Some (Inl EXT2_ET_INVALID_ARGUMENT, st)
      else do {
        let newr_flags = (if flags AND 1 \<noteq> 0 then 2 OR 1 else 2);
        (r, st) \<leftarrow> ext2fs_new_range adr ops env st newr_flags goal (ucast len) NullBitmap;
        case r of
          Inl retval \<Rightarrow> Some (Inl retval, st)
        | Inr (pblk, plen) \<Rightarrow>
            if plen < ucast len then Some (Inl EXT2_ET_BLOCK_ALLOC_FAIL, st)
            else do {
              (retval, st) \<leftarrow> (if flags AND 2 \<noteq> 0 then env_zero_blocks env st pblk len else Some (E_OK, st));
              if retval \<noteq> E_OK then Some (Inl retval, st)
              else do {
                st \<leftarrow> ext2fs_block_alloc_stats_range adr ops (env_range_cb env) st pblk len 1;
                Some (Inr pblk, st)
              }
            }
      })"

subsection \<open>The search for a run\<close>

text \<open>
  The blocks from \<open>s\<close> up to but not including \<open>e\<close> are free, and there are no more of them only because there are
  \<open>len\<close> of them, the file system ends or the next one is in use.
\<close>

definition is_run :: "u64 set \<Rightarrow> u64 \<Rightarrow> u64 \<Rightarrow> u64 \<Rightarrow> u64 \<Rightarrow> u64 \<Rightarrow> bool" where
  "is_run used f c len s e \<longleftrightarrow> f \<le> s \<and> s < e \<and> e \<le> c \<and> unat e \<le> unat s + unat len \<and> (\<forall>x. s \<le> x \<and> x < e \<longrightarrow> x \<notin> used)
     \<and> (unat e = unat s + unat len \<or> e = c \<or> e \<in> used)"

definition range_bounds :: "filsys \<Rightarrow> u64 \<Rightarrow> bool" where
  "range_bounds fs len \<longleftrightarrow> 0 < len \<and> ucast (s_first_data_block (fs_super fs)) < ext2fs_blocks_count (fs_super fs)
     \<and> unat (ext2fs_blocks_count (fs_super fs)) \<le> 2 ^ 62 \<and> unat (ext2fs_blocks_count (fs_super fs)) + unat len \<le> 18446744073709551616"

context bitmap_search
begin

lemma range_end_run:
  fixes fs :: filsys and b :: "'p bitmap64" and s len :: u64
  defines "f \<equiv> ucast (s_first_data_block (fs_super fs))" and "c \<equiv> ext2fs_blocks_count (fs_super fs)"
  assumes ok: "block_map_ok inv b fs" and max: "find_first_set ops = None \<longrightarrow> bm_end b \<noteq> 0xffffffffffffffff" and par: "range_bounds fs len"
    and s: "f \<le> s" "s < c" "s \<notin> gb_bits bits (Bitmap64 b)"
  shows "\<exists>e. range_end ops (Bitmap64 b) c len s = Some (Inr e) \<and> is_run (gb_bits bits (Bitmap64 b)) f c len s e"
proof -
  let ?used = "gb_bits bits (Bitmap64 b)"
  define t where "t = (if s + len - 1 < c - 1 then s + len - 1 else c - 1)"
  have n: "0 < unat len" "unat c + unat len \<le> 18446744073709551616" "unat s < unat c"
    using par s(2) by (simp_all add: range_bounds_def c_def word_less_nat_alt)
  have a: "unat (s + len - 1) = unat s + unat len - 1"
  proof -
    have sl: "unat (s + len) = unat s + unat len" using n by (subst unat_add_u64) simp_all
    have "1 \<le> s + len" using n(1) by (simp add: word_le_nat_alt sl)
    then show ?thesis by (simp add: unat_sub word_le_nat_alt sl)
  qed
  have c1: "unat (c - 1) = unat c - 1" using n(3) by (simp add: unat_sub word_le_nat_alt)
  have ut: "unat t = min (unat s + unat len - 1) (unat c - 1)" by (simp add: t_def word_less_nat_alt a c1 min_def)
  have st: "s \<le> t" "t < c" using n by (auto simp: word_le_nat_alt word_less_nat_alt ut)
  from find_set_block [OF ok max st(1) s(1) [unfolded f_def] st(2) [unfolded c_def]] obtain r where
    r: "ext2fs_find_first_set_block_bitmap2 ops (Bitmap64 b) s t = Some r" "is_first (\<lambda>x. x \<in> ?used) s t r" by blast
  have run: "range_end ops (Bitmap64 b) c len s = Some (case r of Inl retval \<Rightarrow> if retval = ENOENT then Inr (t + 1) else Inl retval | Inr e \<Rightarrow> Inr e)"
    unfolding range_end_def t_def [symmetric] Let_def r(1) by simp
  show ?thesis
  proof (cases r)
    case (Inl e)
    with r(2) have e: "e = ENOENT" "\<And>x. s \<le> x \<Longrightarrow> x \<le> t \<Longrightarrow> x \<notin> ?used" by (auto simp: is_first_def)
    have "unat t < 18446744073709551615" using st(2) unat_u64_less [of c] unfolding word_less_nat_alt by linarith
    then have t1: "unat (t + 1) = unat t + 1" by (subst unat_add_u64) simp_all
    have le: "x < t + 1 \<longleftrightarrow> x \<le> t" for x by (auto simp: word_less_nat_alt word_le_nat_alt t1)
    have "unat t + 1 = unat s + unat len \<or> unat t + 1 = unat c" using ut n by (auto simp: min_def)
    then have "unat (t + 1) = unat s + unat len \<or> t + 1 = c" unfolding t1 [symmetric] by (auto simp: word_unat_eq_iff)
    moreover have "s < t + 1" "t + 1 \<le> c" "unat (t + 1) \<le> unat s + unat len"
      using st ut n by (auto simp: le) (auto simp: word_le_nat_alt word_less_nat_alt t1)
    ultimately have "is_run ?used f c len s (t + 1)" using s(1) e(2) by (auto simp: is_run_def le)
    with run Inl e(1) show ?thesis by simp
  next
    case (Inr e)
    with r(2) have e: "s \<le> e" "e \<le> t" "e \<in> ?used" "\<And>x. s \<le> x \<Longrightarrow> x < e \<Longrightarrow> x \<notin> ?used" by (auto simp: is_first_def)
    then have "s < e" using s(3) by (metis order_le_imp_less_or_eq)
    moreover have "e \<le> c" "unat e \<le> unat s + unat len" using e(2) st(2) ut n by (auto simp: word_le_nat_alt word_less_nat_alt)
    ultimately have "is_run ?used f c len s e" using s(1) e(3,4) by (auto simp: is_run_def)
    with run Inr show ?thesis by simp
  qed
qed

text \<open>What the first search of a round finds, and with it the run at that place.\<close>

lemma range_find:
  fixes fs :: filsys and b :: "'p bitmap64" and start len :: u64
  defines "f \<equiv> ucast (s_first_data_block (fs_super fs))" and "c \<equiv> ext2fs_blocks_count (fs_super fs)" and "used \<equiv> gb_bits bits (Bitmap64 b)"
  assumes ok: "block_map_ok inv b fs" and par: "range_bounds fs len"
    and max: "find_first_zero ops = None \<longrightarrow> bm_end b \<noteq> 0xffffffffffffffff" "find_first_set ops = None \<longrightarrow> bm_end b \<noteq> 0xffffffffffffffff"
    and s: "f \<le> start" "start < c"
  obtains (Full) "ext2fs_find_first_zero_block_bitmap2 ops (Bitmap64 b) start (c - 1) = Some (Inl ENOENT)" "\<And>x. start \<le> x \<Longrightarrow> x < c \<Longrightarrow> x \<in> used"
  | (Run) s e where "ext2fs_find_first_zero_block_bitmap2 ops (Bitmap64 b) start (c - 1) = Some (Inr s)" "range_end ops (Bitmap64 b) c len s = Some (Inr e)"
      "start \<le> s" "\<And>x. start \<le> x \<Longrightarrow> x < s \<Longrightarrow> x \<in> used" "is_run used f c len s e"
proof -
  have "1 \<le> c" using s(2) by (simp add: word_le_nat_alt word_less_nat_alt)
  then have hi: "x \<le> c - 1 \<longleftrightarrow> x < c" for x by (auto simp: word_le_nat_alt word_less_nat_alt unat_sub)
  have "start \<le> c - 1" using s(2) hi by blast
  moreover have "c - 1 < c" using hi [of "c - 1"] by simp
  ultimately have lim: "start \<le> c - 1" "c - 1 < c" by blast+
  from find_zero_block [OF ok max(1), folded f_def c_def used_def, OF lim(1) s(1) lim(2)] obtain r where
    r: "ext2fs_find_first_zero_block_bitmap2 ops (Bitmap64 b) start (c - 1) = Some r" "is_first (\<lambda>x. x \<notin> used) start (c - 1) r"
    by blast
  show thesis
  proof (cases r)
    case (Inl e)
    with r show thesis by (intro Full) (auto simp: is_first_def hi)
  next
    case (Inr v)
    with r(2) have v: "start \<le> v" "v < c" "v \<notin> used" "\<And>x. start \<le> x \<Longrightarrow> x < v \<Longrightarrow> x \<in> used" by (auto simp: is_first_def hi)
    have "f \<le> v" using s(1) v(1) by simp
    with range_end_run [OF ok max(2) par, of v, folded f_def c_def used_def] v obtain e where
      "range_end ops (Bitmap64 b) c len v = Some (Inr e)" "is_run used f c len v e" by blast
    with r(1) v show thesis unfolding Inr by (intro Run)
  qed
qed

end

text \<open>A place for \<open>len\<close> free blocks.\<close>

definition room :: "u64 set \<Rightarrow> u64 \<Rightarrow> u64 \<Rightarrow> u64 \<Rightarrow> u64 \<Rightarrow> bool" where
  "room used f c len y \<longleftrightarrow> f \<le> y \<and> unat y + unat len \<le> unat c \<and> (\<forall>x. y \<le> x \<and> unat x < unat y + unat len \<longrightarrow> x \<notin> used)"

lemma run_long_iff:
  assumes "is_run used f c len s e"
  shows "len \<le> e - s \<longleftrightarrow> unat e = unat s + unat len" "len \<le> e - s \<longleftrightarrow> room used f c len s"
proof -
  have r: "s < e" "e \<le> c" "unat e \<le> unat s + unat len" "f \<le> s" "\<And>x. s \<le> x \<Longrightarrow> x < e \<Longrightarrow> x \<notin> used"
    "unat e = unat s + unat len \<or> e = c \<or> e \<in> used" using assms by (auto simp: is_run_def)
  have "unat (e - s) = unat e - unat s" using r(1) by (simp add: unat_sub word_less_nat_alt word_le_nat_alt)
  then show long: "len \<le> e - s \<longleftrightarrow> unat e = unat s + unat len" using r(1,3) by (auto simp: word_le_nat_alt word_less_nat_alt)
  show "len \<le> e - s \<longleftrightarrow> room used f c len s" unfolding long
  proof
    assume "unat e = unat s + unat len"
    with r show "room used f c len s" by (auto simp: room_def word_le_nat_alt word_less_nat_alt)
  next
    assume room: "room used f c len s"
    show "unat e = unat s + unat len"
    proof (rule ccontr)
      assume ne: "unat e \<noteq> unat s + unat len"
      with r(3,6) have "unat e < unat s + unat len" "e = c \<or> e \<in> used" by auto
      with room r(1) show False by (auto simp: room_def word_le_nat_alt word_less_nat_alt)
    qed
  qed
qed

lemma room_behind_run:
  assumes run: "is_run used f c len s e" "\<not> len \<le> e - s" and before: "\<And>x. start \<le> x \<Longrightarrow> x < s \<Longrightarrow> x \<in> used"
    and y: "room used f c len y" "start \<le> y" and len: "0 < len"
  shows "e \<le> y" "e < c"
proof -
  have r: "s < e" "e \<le> c" "unat e \<le> unat s + unat len" "unat e = unat s + unat len \<or> e = c \<or> e \<in> used" using run(1) by (auto simp: is_run_def)
  have short: "unat e < unat s + unat len" "e = c \<or> e \<in> used" using run_long_iff(1) [OF run(1)] run(2) r(3,4) by auto
  have yn: "y \<notin> used" "unat y + unat len \<le> unat c" "\<And>x. y \<le> x \<Longrightarrow> unat x < unat y + unat len \<Longrightarrow> x \<notin> used" "0 < unat len"
    using y(1) len by (auto simp: room_def word_less_nat_alt)
  have sy: "unat s \<le> unat y"
  proof (rule ccontr)
    assume "\<not> unat s \<le> unat y"
    then have "y < s" by (simp add: word_less_nat_alt)
    with before [OF y(2)] yn(1) show False by blast
  qed
  have "unat e \<le> unat y"
  proof (rule ccontr)
    assume c: "\<not> unat e \<le> unat y"
    with short(1) sy have "unat e < unat y + unat len" by linarith
    moreover from this yn(2) short(2) have "e \<in> used" by auto
    ultimately show False using yn(3) [of e] c by (simp add: word_le_nat_alt)
  qed
  then show "e \<le> y" by (simp add: word_le_nat_alt)
  with yn(2,4) show "e < c" by (simp add: word_less_nat_alt word_le_nat_alt)
qed

context bitmap_search
begin

text \<open>One round of the loop.\<close>

lemma new_range_step:
  fixes fs :: filsys and b :: "'p bitmap64" and start len :: u64
  defines "f \<equiv> ucast (s_first_data_block (fs_super fs))" and "c \<equiv> ext2fs_blocks_count (fs_super fs)" and "used \<equiv> gb_bits bits (Bitmap64 b)"
    and "loop \<equiv> new_range_loop ops fs (Bitmap64 b)"
  assumes ok: "block_map_ok inv b fs" and par: "range_bounds fs len"
    and max: "find_first_zero ops = None \<longrightarrow> bm_end b \<noteq> 0xffffffffffffffff" "find_first_set ops = None \<longrightarrow> bm_end b \<noteq> 0xffffffffffffffff"
    and s: "f \<le> start" "start < c" "\<not> looped \<or> start \<le> goal"
  obtains (Full) "\<And>x. start \<le> x \<Longrightarrow> x < c \<Longrightarrow> x \<in> used"
      "loop fixed min_len goal len looped start = (if fixed \<or> start = f then Some (Inl EXT2_ET_BLOCK_ALLOC_FAIL) else loop fixed min_len goal len looped f)"
  | (Run) s e where "start \<le> s" "\<And>x. start \<le> x \<Longrightarrow> x < s \<Longrightarrow> x \<in> used" "is_run used f c len s e"
      "loop fixed min_len goal len looped start =
        (if fixed \<and> s \<noteq> goal then Some (Inl EXT2_ET_BLOCK_ALLOC_FAIL)
         else if \<not> min_len \<or> len \<le> e - s then Some (Inr (s, e))
         else if fixed then Some (Inl EXT2_ET_BLOCK_ALLOC_FAIL)
         else if c \<le> e then (if looped then Some (Inl EXT2_ET_BLOCK_ALLOC_FAIL) else loop fixed min_len goal len True f)
         else loop fixed min_len goal len looped e)"
proof -
  have guard: "(\<not> looped \<or> start \<le> goal) = True" using s(3) by simp
  show thesis
  proof (cases rule: range_find [OF ok par max, folded f_def c_def used_def, OF s(1,2)])
    case 1
    show thesis
    proof (rule Full)
      show "loop fixed min_len goal len looped start = (if fixed \<or> start = f then Some (Inl EXT2_ET_BLOCK_ALLOC_FAIL) else loop fixed min_len goal len looped f)"
        unfolding loop_def by (subst new_range_loop.simps) (simp only: Let_def f_def [symmetric] c_def [symmetric] 1(1) Option.bind.simps sum.case guard if_True simp_thms if_False)
    qed (rule 1(2))
  next
    case (2 v e)
    show thesis
    proof (rule Run)
      show "loop fixed min_len goal len looped start =
          (if fixed \<and> v \<noteq> goal then Some (Inl EXT2_ET_BLOCK_ALLOC_FAIL)
           else if \<not> min_len \<or> len \<le> e - v then Some (Inr (v, e))
           else if fixed then Some (Inl EXT2_ET_BLOCK_ALLOC_FAIL)
           else if c \<le> e then (if looped then Some (Inl EXT2_ET_BLOCK_ALLOC_FAIL) else loop fixed min_len goal len True f)
           else loop fixed min_len goal len looped e)"
        unfolding loop_def by (subst new_range_loop.simps) (simp only: Let_def f_def [symmetric] c_def [symmetric] 2(1,2) Option.bind.simps sum.case guard if_True simp_thms if_False)
    qed (rule 2(3), rule 2(4), assumption+, rule 2(5))
  qed
qed

end

context bitmap_search
begin

text \<open>Without a minimal length: the first free block from the goal on, and the run from there.\<close>

lemma new_range_first_fit:
  fixes fs :: filsys and b :: "'p bitmap64" and goal len :: u64
  defines "f \<equiv> ucast (s_first_data_block (fs_super fs))" and "c \<equiv> ext2fs_blocks_count (fs_super fs)" and "used \<equiv> gb_bits bits (Bitmap64 b)"
    and "loop \<equiv> new_range_loop ops fs (Bitmap64 b)"
  assumes ok: "block_map_ok inv b fs" and par: "range_bounds fs len"
    and max: "find_first_zero ops = None \<longrightarrow> bm_end b \<noteq> 0xffffffffffffffff" "find_first_set ops = None \<longrightarrow> bm_end b \<noteq> 0xffffffffffffffff"
    and goal: "f \<le> goal" "goal < c"
  shows "\<exists>r. loop fixed False goal len False goal = Some r
    \<and> (case r of
         Inr (s, e) \<Rightarrow> is_run used f c len s e \<and> cyc_first (\<lambda>x. x \<notin> used) f c goal (Inr s) \<and> (fixed \<longrightarrow> s = goal)
       | Inl e \<Rightarrow> e = EXT2_ET_BLOCK_ALLOC_FAIL \<and> (if fixed then goal \<in> used else \<forall>x. f \<le> x \<and> x < c \<longrightarrow> x \<in> used))"
proof -
  note step = new_range_step [OF ok par max, folded f_def c_def used_def loop_def, where looped = False and goal = goal and min_len = False and fixed = fixed]
  have cyc: "cyc_first (\<lambda>x. x \<notin> used) f c goal (Inr s)"
    if "goal \<le> s" "\<And>x. goal \<le> x \<Longrightarrow> x < s \<Longrightarrow> x \<in> used" "is_run used f c len s e" for s e
    using that by (auto simp: cyc_first_def is_run_def intro: less_le_trans)
  show ?thesis
  proof (cases rule: step [OF goal])
    case 2
    show ?thesis
    proof (cases "fixed \<or> goal = f")
      case True
      with 2 goal show ?thesis by (intro exI [of _ "Inl EXT2_ET_BLOCK_ALLOC_FAIL"]) auto
    next
      case False
      have fc: "f \<le> f" "f < c" using goal by simp_all
      have eq: "loop fixed False goal len False goal = loop fixed False goal len False f" using 2(2) False by simp
      show ?thesis
      proof (cases rule: step [OF fc])
        case again: 2
        with eq False show ?thesis by (intro exI [of _ "Inl EXT2_ET_BLOCK_ALLOC_FAIL"]) auto
      next
        case (3 s e)
        have sf: "s \<notin> used" "s < c" using 3(3) by (auto simp: is_run_def intro: less_le_trans)
        have "s < goal" using 2(1) [of s] sf by (cases "goal \<le> s") auto
        then have "cyc_first (\<lambda>x. x \<notin> used) f c goal (Inr s)"
          using 3(2,3) 2(1) by (auto simp: cyc_first_def is_run_def not_le [symmetric])
        with eq 3(3,4) False show ?thesis by (intro exI [of _ "Inr (s, e)"]) auto
      qed simp
    qed
  next
    case (3 s e)
    show ?thesis
    proof (cases "fixed \<and> s \<noteq> goal")
      case True
      with 3(1) have "goal < s" by auto
      with True 3(2) [of goal] 3(4) show ?thesis by (intro exI [of _ "Inl EXT2_ET_BLOCK_ALLOC_FAIL"]) auto
    next
      case False
      with 3 cyc [OF 3(1-3)] show ?thesis by (intro exI [of _ "Inr (s, e)"]) auto
    qed
  qed simp
qed

text \<open>With a minimal length: a pass over the blocks from \<open>start\<close> on that meets a place that is large enough.\<close>

lemma new_range_pass_found:
  fixes fs :: filsys and b :: "'p bitmap64" and goal len :: u64
  defines "f \<equiv> ucast (s_first_data_block (fs_super fs))" and "c \<equiv> ext2fs_blocks_count (fs_super fs)" and "used \<equiv> gb_bits bits (Bitmap64 b)"
    and "loop \<equiv> new_range_loop ops fs (Bitmap64 b)"
  assumes ok: "block_map_ok inv b fs" and par: "range_bounds fs len"
    and max: "find_first_zero ops = None \<longrightarrow> bm_end b \<noteq> 0xffffffffffffffff" "find_first_set ops = None \<longrightarrow> bm_end b \<noteq> 0xffffffffffffffff"
    and y: "room used f c len y" "\<not> looped \<or> y \<le> goal" and "f \<le> start" "start \<le> y"
  shows "\<exists>s e. loop False True goal len looped start = Some (Inr (s, e)) \<and> is_run used f c len s e \<and> unat e = unat s + unat len"
  using assms(11-)
proof (induction "unat y - unat start" arbitrary: start rule: less_induct)
  case less
  have len: "0 < len" using par by (simp add: range_bounds_def)
  have yc: "y < c" "y \<notin> used" using y(1) len by (auto simp: room_def word_less_nat_alt)
  have sc: "start < c" "\<not> looped \<or> start \<le> goal" using less.prems(2) yc(1) y(2) by auto
  show ?case
  proof (cases rule: new_range_step [OF ok par max, folded f_def c_def used_def loop_def, OF less.prems(1) sc, where fixed = False and min_len = True])
    case 1
    with less.prems(2) yc show ?thesis by blast
  next
    case (2 s e)
    show ?thesis
    proof (cases "len \<le> e - s")
      case True
      with 2(3,4) run_long_iff(1) [OF 2(3)] show ?thesis by auto
    next
      case False
      note b = room_behind_run [OF 2(3) False 2(2) y(1) less.prems(2) len]
      have se: "s < e" "f \<le> s" using 2(3) by (simp_all add: is_run_def)
      have "unat y - unat e < unat y - unat start" "f \<le> e" using b(1) 2(1) se by (auto simp: word_le_nat_alt word_less_nat_alt)
      from less.hyps [OF this b(1)] 2(4) False b(2) show ?thesis by auto
    qed
  qed
qed

text \<open>A pass that meets no such place, with the last block free: the loop goes on from the first block, but only once.\<close>

lemma new_range_pass_free_end:
  fixes fs :: filsys and b :: "'p bitmap64" and goal len :: u64
  defines "f \<equiv> ucast (s_first_data_block (fs_super fs))" and "c \<equiv> ext2fs_blocks_count (fs_super fs)" and "used \<equiv> gb_bits bits (Bitmap64 b)"
    and "loop \<equiv> new_range_loop ops fs (Bitmap64 b)"
  assumes ok: "block_map_ok inv b fs" and par: "range_bounds fs len"
    and max: "find_first_zero ops = None \<longrightarrow> bm_end b \<noteq> 0xffffffffffffffff" "find_first_set ops = None \<longrightarrow> bm_end b \<noteq> 0xffffffffffffffff"
    and last_free: "c - 1 \<notin> used" and "f \<le> start" "start < c" "\<And>y. start \<le> y \<Longrightarrow> \<not> room used f c len y"
  shows "loop False True goal len looped start = (if looped then Some (Inl EXT2_ET_BLOCK_ALLOC_FAIL) else loop False True goal len True f)"
  using assms(10-)
proof (induction "unat c - unat start" arbitrary: start rule: less_induct)
  case less
  have c1: "start \<le> c - 1" "c - 1 < c" using less.prems(2) by (auto simp: word_le_nat_alt word_less_nat_alt unat_sub)
  show ?case
  proof (cases "\<not> looped \<or> start \<le> goal")
    case False
    then show ?thesis unfolding loop_def by (subst new_range_loop.simps) (simp add: Let_def)
  next
    case True
    show ?thesis
    proof (cases rule: new_range_step [OF ok par max, folded f_def c_def used_def loop_def, OF less.prems(1,2) True, where fixed = False and min_len = True])
      case 1
      with c1 last_free show ?thesis by blast
    next
      case (2 s e)
      have se: "s < e" "f \<le> s" using 2(3) by (simp_all add: is_run_def)
      have short: "\<not> len \<le> e - s" using less.prems(3) [OF 2(1)] run_long_iff(2) [OF 2(3)] by blast
      show ?thesis
      proof (cases "c \<le> e")
        case True
        with 2(4) short show ?thesis by simp
      next
        case False
        have "unat c - unat e < unat c - unat start" "f \<le> e" "e < c" "start \<le> e"
          using False 2(1) se by (auto simp: word_le_nat_alt word_less_nat_alt)
        moreover from this(4) have "\<not> room used f c len y" if "e \<le> y" for y using less.prems(3) that by (meson order_trans)
        ultimately have "loop False True goal len looped e = (if looped then Some (Inl EXT2_ET_BLOCK_ALLOC_FAIL) else loop False True goal len True f)"
          using less.hyps by blast
        with 2(4) short False show ?thesis by simp
      qed
    qed
  qed
qed

end

lemma run_before_end:
  assumes "is_run used f c len s e" "c - 1 \<in> used"
  shows "e < c"
proof (rule ccontr)
  assume "\<not> e < c"
  with assms(1) have e: "e = c" "s < c" "\<And>x. s \<le> x \<Longrightarrow> x < c \<Longrightarrow> x \<notin> used" by (auto simp: is_run_def)
  have "s \<le> c - 1" "c - 1 < c" using e(2) by (auto simp: word_le_nat_alt word_less_nat_alt unat_sub)
  with e(3) assms(2) show False by blast
qed

context bitmap_search
begin

text \<open>A pass that meets no place that is large enough, with the last block in use: the loop starts afresh from the first block.\<close>

lemma new_range_pass_used_end:
  fixes fs :: filsys and b :: "'p bitmap64" and goal len :: u64
  defines "f \<equiv> ucast (s_first_data_block (fs_super fs))" and "c \<equiv> ext2fs_blocks_count (fs_super fs)" and "used \<equiv> gb_bits bits (Bitmap64 b)"
    and "loop \<equiv> new_range_loop ops fs (Bitmap64 b)"
  assumes ok: "block_map_ok inv b fs" and par: "range_bounds fs len"
    and max: "find_first_zero ops = None \<longrightarrow> bm_end b \<noteq> 0xffffffffffffffff" "find_first_set ops = None \<longrightarrow> bm_end b \<noteq> 0xffffffffffffffff"
    and last_used: "c - 1 \<in> used" and "f < start" "start < c" "\<And>y. start \<le> y \<Longrightarrow> \<not> room used f c len y"
  shows "loop False True goal len False start = loop False True goal len False f"
  using assms(10-)
proof (induction "unat c - unat start" arbitrary: start rule: less_induct)
  case less
  have fs: "f \<le> start" "start \<noteq> f" using less.prems(1) by auto
  show ?case
  proof (cases rule: new_range_step [OF ok par max, folded f_def c_def used_def loop_def, OF fs(1) less.prems(2),
        where fixed = False and min_len = True and looped = False and goal = goal])
    case 2
    with fs(2) show ?thesis by simp
  next
    case (3 s e)
    have se: "s < e" "f \<le> s" using 3(3) by (simp_all add: is_run_def)
    have short: "\<not> len \<le> e - s" using less.prems(3) [OF 3(1)] run_long_iff(2) [OF 3(3)] by blast
    have ec: "e < c" by (rule run_before_end [OF 3(3) last_used])
    have "unat c - unat e < unat c - unat start" "f < e" "start \<le> e" using ec 3(1) se by (auto simp: word_le_nat_alt word_less_nat_alt)
    moreover from this(3) have "\<not> room used f c len y" if "e \<le> y" for y using less.prems(3) that by (meson order_trans)
    ultimately have "loop False True goal len False e = loop False True goal len False f" using less.hyps ec by blast
    with 3(4) short ec show ?thesis by (simp add: not_le [symmetric])
  qed simp
qed

lemma new_range_no_result:
  fixes fs :: filsys and b :: "'p bitmap64" and goal len :: u64
  defines "f \<equiv> ucast (s_first_data_block (fs_super fs))" and "c \<equiv> ext2fs_blocks_count (fs_super fs)" and "used \<equiv> gb_bits bits (Bitmap64 b)"
  assumes ok: "block_map_ok inv b fs" and par: "range_bounds fs len"
    and max: "find_first_zero ops = None \<longrightarrow> bm_end b \<noteq> 0xffffffffffffffff" "find_first_set ops = None \<longrightarrow> bm_end b \<noteq> 0xffffffffffffffff"
    and last_used: "c - 1 \<in> used" and some_free: "f \<le> z" "z < c" "z \<notin> used" and no_room: "\<And>y. \<not> room used f c len y"
    and start: "f \<le> start" "start < c"
  shows "new_range_loop ops fs (Bitmap64 b) False True goal len False start = None"
proof -
  let ?at = "\<lambda>x :: u64. f \<le> x \<and> x < c"
  let ?P = "\<lambda>ops' fs' m' fixed' min' goal' len' looped' bb r.
    ops' = ops \<and> fs' = fs \<and> m' = Bitmap64 b \<and> \<not> fixed' \<and> min' \<and> len' = len \<and> \<not> looped' \<longrightarrow> \<not> ?at bb"
  have never: "\<not> ?at bb" if some: "new_range_loop ops fs (Bitmap64 b) False True goal len False bb = Some r" for bb r
  proof -
    have "?P ops fs (Bitmap64 b) False True goal len False bb r"
    proof (rule new_range_loop.raw_induct [where P = ?P, OF _ some], intro impI notI)
      fix F ops' fs' m' fixed' min' goal' len' looped' bb r
      assume IH: "\<And>ops' fs' m' fixed' min' goal' len' looped' bb r. F ops' fs' m' fixed' min' goal' len' looped' bb = Some r
          \<Longrightarrow> ?P ops' fs' m' fixed' min' goal' len' looped' bb r"
        and pars: "ops' = ops \<and> fs' = fs \<and> m' = Bitmap64 b \<and> \<not> fixed' \<and> min' \<and> len' = len \<and> \<not> looped'" and at: "?at bb"
        and body: "(let max_blocks = ext2fs_blocks_count (fs_super fs'); first = ucast (s_first_data_block (fs_super fs'))
          in if \<not> (\<not> looped' \<or> bb \<le> goal') then Some (Inl EXT2_ET_BLOCK_ALLOC_FAIL)
             else ext2fs_find_first_zero_block_bitmap2 ops' m' bb (max_blocks - 1) \<bind>
                  (\<lambda>r. case r of
                     Inl retval \<Rightarrow> if retval = ENOENT then if fixed' \<or> bb = first then Some (Inl EXT2_ET_BLOCK_ALLOC_FAIL)
                         else F ops' fs' m' fixed' min' goal' len' looped' first else Some (Inl retval)
                   | Inr start \<Rightarrow> if fixed' \<and> start \<noteq> goal' then Some (Inl EXT2_ET_BLOCK_ALLOC_FAIL)
                       else range_end ops' m' max_blocks len' start \<bind>
                         (\<lambda>r. case r of Inl retval \<Rightarrow> Some (Inl retval)
                          | Inr e \<Rightarrow> if \<not> min' \<or> len' \<le> e - start then Some (Inr (start, e))
                              else if fixed' then Some (Inl EXT2_ET_BLOCK_ALLOC_FAIL)
                              else if max_blocks \<le> e
                                then if looped' then Some (Inl EXT2_ET_BLOCK_ALLOC_FAIL) else F ops' fs' m' fixed' min' goal' len' True first
                                else F ops' fs' m' fixed' min' goal' len' looped' e))) = Some r"
      have at': "f \<le> bb" "bb < c" using at by blast+
      show False
      proof (cases rule: range_find [OF ok par max, folded f_def c_def used_def, OF at'])
        case 1
        with some_free have "bb \<noteq> f" by blast
        then have "F ops fs (Bitmap64 b) fixed' min' goal' len looped' f = Some r"
          using body [unfolded Let_def] pars 1(1) by (simp add: f_def c_def)
        from IH [OF this] pars at' show False by auto
      next
        case (2 s e)
        have ec: "e < c" by (rule run_before_end [OF 2(5) last_used])
        have short: "\<not> len \<le> e - s" using no_room run_long_iff(2) [OF 2(5)] by blast
        have "F ops fs (Bitmap64 b) fixed' min' goal' len looped' e = Some r"
          using body [unfolded Let_def] pars 2(1,2) short ec by (simp add: f_def c_def not_le [symmetric])
        from IH [OF this] pars ec 2(5) show False by (auto simp: is_run_def)
      qed
    qed
    then show ?thesis by blast
  qed
  show ?thesis
  proof (rule ccontr)
    assume "new_range_loop ops fs (Bitmap64 b) False True goal len False start \<noteq> None"
    then obtain r where "new_range_loop ops fs (Bitmap64 b) False True goal len False start = Some r" by blast
    from never [OF this] start show False by blast
  qed
qed

end

context bitmap_search
begin

text \<open>The outcome of the search with a minimal length, in all cases.\<close>

lemma new_range_min_length:
  fixes fs :: filsys and b :: "'p bitmap64" and goal len :: u64
  defines "f \<equiv> ucast (s_first_data_block (fs_super fs))" and "c \<equiv> ext2fs_blocks_count (fs_super fs)" and "used \<equiv> gb_bits bits (Bitmap64 b)"
    and "loop \<equiv> new_range_loop ops fs (Bitmap64 b)"
  assumes ok: "block_map_ok inv b fs" and par: "range_bounds fs len"
    and max: "find_first_zero ops = None \<longrightarrow> bm_end b \<noteq> 0xffffffffffffffff" "find_first_set ops = None \<longrightarrow> bm_end b \<noteq> 0xffffffffffffffff"
    and goal: "f \<le> goal" "goal < c"
  shows "room used f c len y \<Longrightarrow>
      \<exists>s e. loop False True goal len False goal = Some (Inr (s, e)) \<and> is_run used f c len s e \<and> unat e = unat s + unat len"
    and "(\<And>y. \<not> room used f c len y) \<Longrightarrow> c - 1 \<notin> used \<or> (\<forall>x. f \<le> x \<and> x < c \<longrightarrow> x \<in> used) \<Longrightarrow>
      loop False True goal len False goal = Some (Inl EXT2_ET_BLOCK_ALLOC_FAIL)"
    and "(\<And>y. \<not> room used f c len y) \<Longrightarrow> c - 1 \<in> used \<Longrightarrow> f \<le> z \<Longrightarrow> z < c \<Longrightarrow> z \<notin> used \<Longrightarrow> loop False True goal len False goal = None"
proof -
  note found = new_range_pass_found [OF ok par max, folded f_def c_def used_def loop_def]
  note free_end = new_range_pass_free_end [OF ok par max, folded f_def c_def used_def loop_def]
  note used_end = new_range_pass_used_end [OF ok par max, folded f_def c_def used_def loop_def]
  have fc: "f \<le> f" "f < c" using goal by simp_all
  show "\<exists>s e. loop False True goal len False goal = Some (Inr (s, e)) \<and> is_run used f c len s e \<and> unat e = unat s + unat len"
    if y: "room used f c len y"
  proof (cases "\<exists>y. goal \<le> y \<and> room used f c len y")
    case True
    then show ?thesis using found [of _ False goal goal] goal(1) by blast
  next
    case False
    with y have lt: "y < goal" by (auto simp: not_le)
    have fy: "f \<le> y" using y by (simp add: room_def)
    show ?thesis
    proof (cases "c - 1 \<in> used")
      case True
      have "loop False True goal len False goal = loop False True goal len False f"
        by (rule used_end [OF True _ goal(2)]) (use False lt fy in auto)
      then show ?thesis using found [OF y _ fc(1) fy, of False goal] by simp
    next
      case c1: False
      have "loop False True goal len False goal = loop False True goal len True f"
        using free_end [OF c1 goal, where looped = False and goal = goal] False by auto
      then show ?thesis using found [OF y _ fc(1) fy, of True goal] lt by simp
    qed
  qed
  show "loop False True goal len False goal = Some (Inl EXT2_ET_BLOCK_ALLOC_FAIL)"
    if no: "\<And>y. \<not> room used f c len y" and e: "c - 1 \<notin> used \<or> (\<forall>x. f \<le> x \<and> x < c \<longrightarrow> x \<in> used)"
  proof (cases "c - 1 \<in> used")
    case False
    have "loop False True goal len False goal = loop False True goal len True f"
      using free_end [OF False goal no, where looped = False and goal = goal] by simp
    also have "\<dots> = Some (Inl EXT2_ET_BLOCK_ALLOC_FAIL)"
      using free_end [OF False fc no, where looped = True and goal = goal] by simp
    finally show ?thesis .
  next
    case True
    with e have all: "\<And>x. f \<le> x \<Longrightarrow> x < c \<Longrightarrow> x \<in> used" by blast
    have ff: "loop False True goal len False f = Some (Inl EXT2_ET_BLOCK_ALLOC_FAIL)"
    proof (cases rule: new_range_step [OF ok par max, folded f_def c_def used_def loop_def, OF fc,
          where fixed = False and min_len = True and looped = False and goal = goal])
      case (3 s e)
      then have "f \<le> s" "s < c" "s \<notin> used" by (auto simp: is_run_def intro: less_le_trans)
      with all show ?thesis by blast
    qed simp_all
    show ?thesis
    proof (cases "goal = f")
      case False
      with goal(1) have "f < goal" by simp
      with used_end [OF True this goal(2) no] ff show ?thesis by simp
    qed (use ff in simp)
  qed
  show "loop False True goal len False goal = None"
    if no: "\<And>y. \<not> room used f c len y" and c1: "c - 1 \<in> used" and z: "f \<le> z" "z < c" "z \<notin> used"
    unfolding loop_def using new_range_no_result [OF ok par max, folded f_def c_def used_def, OF c1 z no goal] .
qed

end

text \<open>
  The loop over the groups of a run clears flags only. The groups that it visits need not be all groups of the run: it
  steps by the size of a group from the first block, and can step over the group of the last block.
\<close>

definition flags_cleared_only :: "nat \<Rightarrow> filsys \<Rightarrow> filsys \<Rightarrow> bool" where
  "flags_cleared_only adr = (\<lambda>fs fs'. \<exists>g. flags_cleared adr 2 fs g fs')\<^sup>*\<^sup>*"

lemma flags_cleared_only_facts:
  assumes "flags_cleared_only adr fs fs'"
  shows "fs_super fs' = fs_super fs" "fs_group_desc_count fs' = fs_group_desc_count fs" "alloc_table_ok fs' = alloc_table_ok fs"
    "fs_geometry_ok fs' = fs_geometry_ok fs" "fs_magic fs' = fs_magic fs" "fs_cluster_ratio_bits fs' = fs_cluster_ratio_bits fs"
  using assms unfolding flags_cleared_only_def by (induction rule: rtranclp_induct) (auto dest: flags_cleared_facts)

lemma clear_uninit_loop_run:
  assumes ok: "alloc_table_ok fs" "0 < unat (s_blocks_per_group (fs_super fs))" and e: "unat e \<le> 2 ^ 62"
  shows "\<exists>fs'. clear_uninit_loop adr e fs x = Some fs' \<and> flags_cleared_only adr fs fs'"
  using ok
proof (induction "unat e - unat x" arbitrary: x fs rule: less_induct)
  case less
  show ?case
  proof (cases "x < e")
    case False
    then show ?thesis by (subst clear_uninit_loop.simps) (simp add: flags_cleared_only_def)
  next
    case True
    let ?p = "s_blocks_per_group (fs_super fs)"
    have "?p \<noteq> 0" using less.prems(2) by auto
    then obtain g where g: "ext2fs_group_of_blk2 fs x = Some g" by (simp add: ext2fs_group_of_blk2_def)
    obtain fs1 where fs1: "ext2fs_clear_block_uninit adr fs g = Some fs1" "if group_uninit 2 fs g then flags_cleared adr 2 fs g fs1 else fs1 = fs"
      using clear_block_uninit_run [OF less.prems(1)] by blast
    then have only: "flags_cleared_only adr fs fs1" unfolding flags_cleared_only_def by (auto split: if_splits)
    note f = flags_cleared_only_facts [OF only]
    have xe: "unat x < 4611686018427387904" using True e by (simp add: word_less_nat_alt)
    have pb: "unat ?p < 4294967296" by (rule unat_u32_less)
    have u: "unat (x + ucast ?p) = unat x + unat ?p" using xe pb by (subst unat_add_u64) (simp_all del: unat_u32_less)
    have "unat e - unat (x + ucast ?p) < unat e - unat x" using True less.prems(2) u by (simp add: word_less_nat_alt)
    from less.hyps [OF this, of fs1] less.prems f obtain fs' where
      fs': "clear_uninit_loop adr e fs1 (x + ucast ?p) = Some fs'" "flags_cleared_only adr fs1 fs'" by auto
    have "flags_cleared_only adr fs fs'" using only fs'(2) unfolding flags_cleared_only_def by (rule rtranclp_trans)
    moreover have "clear_uninit_loop adr e fs x = Some fs'"
      by (subst clear_uninit_loop.simps) (simp add: True g fs1(1) f(1) fs'(1))
    ultimately show ?thesis by blast
  qed
qed

definition range_goal :: "filsys \<Rightarrow> u64 \<Rightarrow> u64" where
  "range_goal fs goal = (if goal = 0 \<or> goal \<ge> ext2fs_blocks_count (fs_super fs) then ucast (s_first_data_block (fs_super fs)) else goal)"

lemma range_goal_bounds:
  assumes "fs_geometry_ok fs" "goal = 0 \<or> ucast (s_first_data_block (fs_super fs)) \<le> goal"
  shows "ucast (s_first_data_block (fs_super fs)) \<le> range_goal fs goal" "range_goal fs goal < ext2fs_blocks_count (fs_super fs)"
  using assms by (auto simp: range_goal_def fs_geometry_ok_def Let_def word_less_nat_alt word_le_nat_alt)

lemma new_range_unfold:
  assumes "fs_magic (al_fs st) = EXT2_ET_MAGIC_EXT2FS_FILSYS" "len \<noteq> 0" "flags AND NOT 3 = 0" "al_new_range st = None" "al_block_map st = Bitmap64 b"
  shows "ext2fs_new_range adr ops env st flags goal len NullBitmap = do {
      r \<leftarrow> new_range_loop ops (al_fs st) (Bitmap64 b) (flags AND 1 \<noteq> 0) (flags AND 2 \<noteq> 0) (range_goal (al_fs st) goal) len False (range_goal (al_fs st) goal);
      case r of Inl retval \<Rightarrow> Some (Inl retval, st) | Inr (start, e) \<Rightarrow> new_range_allocated adr st start e
    }"
proof -
  have g: "flags AND NOT 3 \<noteq> 0 \<longleftrightarrow> False" using assms(3) by blast
  show ?thesis unfolding ext2fs_new_range_def Let_def g assms(1,4,5) range_goal_def [symmetric] by (simp add: assms(2))
qed

lemma new_range_allocated_run:
  assumes ok: "alloc_table_ok (al_fs st)" "fs_geometry_ok (al_fs st)" "unat (ext2fs_blocks_count (fs_super (al_fs st))) \<le> 2 ^ 62"
    and run: "is_run used f (ext2fs_blocks_count (fs_super (al_fs st))) len s e"
  shows "\<exists>fs'. new_range_allocated adr st s e = Some (Inr (s, e - s), st\<lparr>al_fs := fs'\<rparr>) \<and> flags_cleared_only adr (al_fs st) fs'"
proof -
  have "unat e \<le> 2 ^ 62" using run ok(3) unfolding is_run_def word_le_nat_alt by linarith
  from clear_uninit_loop_run [OF ok(1) fs_geometryD(1) [OF ok(2)] this, of adr s] show ?thesis by (auto simp: new_range_allocated_def)
qed

text \<open>
  (C28) Without a minimal length the search for a run of at most \<open>len\<close> blocks ends. It returns the first free block from the
  goal on, around the end of the file system, and the free blocks behind it, up to \<open>len\<close> of them and never more; or it
  fails, and changes nothing, exactly when no block is free. With the flag for a fixed goal it returns a run at the goal or
  fails exactly when that block is in use. Nothing but flags and checksums of groups changes.
\<close>

theorem new_range_correct:
  fixes st :: "(u8 list, 'f) alloc_state" and b :: "u8 list bitmap64" and goal len :: u64 and fixed :: bool and ok1 ok2 :: bool and junk :: "nat \<Rightarrow> u8" and base :: nat
  defines "fs \<equiv> al_fs st" and "ops \<equiv> ext2fs_blkmap64_bitarray ok1 ok2 junk base" and "used \<equiv> gb_bits ba_bits (Bitmap64 b)"
  defines "f \<equiv> ucast (s_first_data_block (fs_super fs))" and "c \<equiv> ext2fs_blocks_count (fs_super fs)" and "g \<equiv> range_goal fs goal"
  assumes ready: "blocks_ready ba_ok st b" and hook: "al_new_range st = None" and par: "range_bounds fs len" and goal: "goal = 0 \<or> f \<le> goal"
  shows "\<exists>r st'. ext2fs_new_range adr ops env st (if fixed then 1 else 0) goal len NullBitmap = Some (r, st')
    \<and> (case r of
         Inr (p, n) \<Rightarrow> is_run used f c len p (p + n) \<and> cyc_first (\<lambda>x. x \<notin> used) f c g (Inr p) \<and> (p = g \<or> \<not> fixed)
           \<and> (\<exists>fs'. st' = st\<lparr>al_fs := fs'\<rparr> \<and> flags_cleared_only adr fs fs')
       | Inl e \<Rightarrow> e = EXT2_ET_BLOCK_ALLOC_FAIL \<and> st' = st \<and> (if fixed then g \<in> used else \<forall>x. f \<le> x \<and> x < c \<longrightarrow> x \<in> used))"
proof -
  have rd: "fs_magic fs = EXT2_ET_MAGIC_EXT2FS_FILSYS" "alloc_table_ok fs" "fs_geometry_ok fs" "al_block_map st = Bitmap64 b" "block_map_ok ba_ok b fs"
    using ready by (simp_all add: blocks_ready_def fs_def)
  note gb = range_goal_bounds [OF rd(3) goal [unfolded f_def], folded f_def c_def g_def]
  have max: "find_first_zero ops = None \<longrightarrow> bm_end b \<noteq> 0xffffffffffffffff" "find_first_set ops = None \<longrightarrow> bm_end b \<noteq> 0xffffffffffffffff"
    by (simp_all add: ops_def ext2fs_blkmap64_bitarray_def)
  from ba.new_range_first_fit [OF rd(5) par max [unfolded ops_def], folded ops_def, folded f_def c_def used_def, OF gb, of fixed] obtain r where
    r: "new_range_loop ops fs (Bitmap64 b) fixed False g len False g = Some r"
      "case r of
         Inr (s, e) \<Rightarrow> is_run used f c len s e \<and> cyc_first (\<lambda>x. x \<notin> used) f c g (Inr s) \<and> (fixed \<longrightarrow> s = g)
       | Inl e \<Rightarrow> e = EXT2_ET_BLOCK_ALLOC_FAIL \<and> (if fixed then g \<in> used else \<forall>x. f \<le> x \<and> x < c \<longrightarrow> x \<in> used)" by blast
  have len: "len \<noteq> 0" "unat c \<le> 2 ^ 62" using par by (auto simp: range_bounds_def c_def)
  have fl: "(if fixed then 1 else 0 :: u32) AND NOT 3 = 0" "((if fixed then 1 else 0 :: u32) AND 1 \<noteq> 0) = fixed" "(if fixed then 1 else 0 :: u32) AND 2 = 0"
    by simp_all
  have run: "ext2fs_new_range adr ops env st (if fixed then 1 else 0) goal len NullBitmap =
      (case r of Inl retval \<Rightarrow> Some (Inl retval, st) | Inr (start, e) \<Rightarrow> new_range_allocated adr st start e)"
    using new_range_unfold [OF rd(1) [unfolded fs_def] len(1) fl(1) hook rd(4), of adr ops env goal, folded fs_def, folded g_def] r(1) unfolding fl(2,3) by simp
  show ?thesis
  proof (cases r)
    case (Inl e)
    with r(2) run show ?thesis by (intro exI [of _ "Inl e"] exI [of _ st]) simp
  next
    case (Inr p)
    then obtain s e where se: "r = Inr (s, e)" by (cases p) auto
    with r(2) have s: "is_run used f c len s e" "cyc_first (\<lambda>x. x \<notin> used) f c g (Inr s)" "fixed \<longrightarrow> s = g" by auto
    from new_range_allocated_run [OF rd(2,3) [unfolded fs_def] len(2) [unfolded c_def fs_def] s(1) [unfolded c_def fs_def], of adr] obtain fs' where
      "new_range_allocated adr st s e = Some (Inr (s, e - s), st\<lparr>al_fs := fs'\<rparr>)" "flags_cleared_only adr fs fs'" by (auto simp: fs_def)
    with run se s show ?thesis by (intro exI [of _ "Inr (s, e - s)"] exI [of _ "st\<lparr>al_fs := fs'\<rparr>"]) auto
  qed
qed

theorem new_range_correct_witness:
  "\<exists>r st'. ext2fs_new_range 0 (ext2fs_blkmap64_bitarray True True (\<lambda>_. 0) 0) env_example small_example 0 3 5 NullBitmap = Some (r, st')
    \<and> (case r of
         Inr (p, n) \<Rightarrow> is_run (gb_bits ba_bits (Bitmap64 ba_example)) 1 15 5 p (p + n)
           \<and> cyc_first (\<lambda>x. x \<notin> gb_bits ba_bits (Bitmap64 ba_example)) 1 15 (range_goal (al_fs small_example) 3) (Inr p)
       | Inl e \<Rightarrow> e = EXT2_ET_BLOCK_ALLOC_FAIL \<and> st' = small_example)"
proof -
  have "al_new_range small_example = None" "range_bounds (al_fs small_example) 5"
    "3 = 0 \<or> ucast (s_first_data_block (fs_super (al_fs small_example))) \<le> (3 :: u64)"
    by (simp_all add: range_bounds_def small_example_ready) (simp add: small_example_def block_example_def)
  from new_range_correct [OF small_example_ready(1) this, of 0 True True "\<lambda>_. 0" 0 env_example False] show ?thesis
    unfolding small_example_ready(2,3)
    apply (elim exE conjE)
    subgoal for r st' by (rule exI [of _ r], rule exI [of _ st'], cases r) auto
    done
qed

text \<open>
  (C3) With a minimal length \<open>len\<close> the search returns exactly \<open>len\<close> free blocks whenever there are so many in one run.
  When there are not, the outcome depends on the last block: the search fails, with nothing changed, when the last block
  is free or when no block is free at all; otherwise it does not end, because only a run at the end of the file system
  makes the loop note that it has come around.
\<close>

theorem new_range_min_length_exact:
  fixes st :: "(u8 list, 'f) alloc_state" and b :: "u8 list bitmap64" and goal len :: u64 and ok1 ok2 :: bool and junk :: "nat \<Rightarrow> u8" and base :: nat
  defines "fs \<equiv> al_fs st" and "ops \<equiv> ext2fs_blkmap64_bitarray ok1 ok2 junk base" and "used \<equiv> gb_bits ba_bits (Bitmap64 b)"
  defines "f \<equiv> ucast (s_first_data_block (fs_super fs))" and "c \<equiv> ext2fs_blocks_count (fs_super fs)"
  assumes ready: "blocks_ready ba_ok st b" and hook: "al_new_range st = None" and par: "range_bounds fs len" and goal: "goal = 0 \<or> f \<le> goal"
  shows "if \<exists>y. room used f c len y
    then \<exists>p fs'. ext2fs_new_range adr ops env st 2 goal len NullBitmap = Some (Inr (p, len), st\<lparr>al_fs := fs'\<rparr>) \<and> room used f c len p
      \<and> flags_cleared_only adr fs fs'
    else ext2fs_new_range adr ops env st 2 goal len NullBitmap =
      (if c - 1 \<notin> used \<or> (\<forall>x. f \<le> x \<and> x < c \<longrightarrow> x \<in> used) then Some (Inl EXT2_ET_BLOCK_ALLOC_FAIL, st) else None)"
proof -
  have rd: "fs_magic fs = EXT2_ET_MAGIC_EXT2FS_FILSYS" "alloc_table_ok fs" "fs_geometry_ok fs" "al_block_map st = Bitmap64 b" "block_map_ok ba_ok b fs"
    using ready by (simp_all add: blocks_ready_def fs_def)
  let ?g = "range_goal fs goal"
  note gb = range_goal_bounds [OF rd(3) goal [unfolded f_def], folded f_def c_def]
  have max: "find_first_zero ops = None \<longrightarrow> bm_end b \<noteq> 0xffffffffffffffff" "find_first_set ops = None \<longrightarrow> bm_end b \<noteq> 0xffffffffffffffff"
    by (simp_all add: ops_def ext2fs_blkmap64_bitarray_def)
  note out = ba.new_range_min_length [OF rd(5) par max [unfolded ops_def], folded ops_def, folded f_def c_def used_def, OF gb]
  have len: "len \<noteq> 0" "unat c \<le> 2 ^ 62" using par by (auto simp: range_bounds_def c_def)
  have fl: "(2 :: u32) AND NOT 3 = 0" by simp
  have run: "ext2fs_new_range adr ops env st 2 goal len NullBitmap = do {
      r \<leftarrow> new_range_loop ops fs (Bitmap64 b) False True ?g len False ?g;
      case r of Inl retval \<Rightarrow> Some (Inl retval, st) | Inr (start, e) \<Rightarrow> new_range_allocated adr st start e }"
    using new_range_unfold [OF rd(1) [unfolded fs_def] len(1) fl hook rd(4), of adr ops env goal, folded fs_def] by simp
  show ?thesis
  proof (cases "\<exists>y. room used f c len y")
    case True
    then obtain y where "room used f c len y" by blast
    from out(1) [OF this] obtain s e where se: "new_range_loop ops fs (Bitmap64 b) False True ?g len False ?g = Some (Inr (s, e))"
      "is_run used f c len s e" "unat e = unat s + unat len" by blast
    from new_range_allocated_run [OF rd(2,3) [unfolded fs_def] len(2) [unfolded c_def fs_def] se(2) [unfolded c_def fs_def], of adr] obtain fs' where
      fs': "new_range_allocated adr st s e = Some (Inr (s, e - s), st\<lparr>al_fs := fs'\<rparr>)" "flags_cleared_only adr fs fs'" by (auto simp: fs_def)
    have "s \<le> e" using se(2) by (auto simp: is_run_def)
    then have "unat (e - s) = unat len" using se(3) by (simp add: unat_sub)
    then have "e - s = len" by (simp add: word_unat_eq_iff)
    moreover have "room used f c len s" using run_long_iff [OF se(2)] se(3) by blast
    ultimately show ?thesis using True run se(1) fs' by auto
  next
    case False
    then have no: "\<And>y. \<not> room used f c len y" by blast
    show ?thesis
    proof (cases "c - 1 \<notin> used \<or> (\<forall>x. f \<le> x \<and> x < c \<longrightarrow> x \<in> used)")
      case True
      with out(2) [OF no] run False show ?thesis by simp
    next
      case c1: False
      then obtain z where "c - 1 \<in> used" "f \<le> z" "z < c" "z \<notin> used" by blast
      from out(3) [OF no this] run False c1 show ?thesis by simp
    qed
  qed
qed

text \<open>A run of nine blocks in a file system of 15 blocks, of which 3, 12 and the last one are in use.\<close>

definition holes_map_example :: "u8 list bitmap64" where
  "holes_map_example = ba_example\<lparr>bm_private := [4, 40]\<rparr>"

definition holes_example :: "(u8 list, nat) alloc_state" where
  "holes_example = small_example\<lparr>al_block_map := Bitmap64 holes_map_example\<rparr>"

lemma holes_example_facts:
  "blocks_ready ba_ok holes_example holes_map_example" "al_new_range holes_example = None" "range_bounds (al_fs holes_example) 9"
  "ext2fs_blocks_count (fs_super (al_fs holes_example)) = 15" "s_first_data_block (fs_super (al_fs holes_example)) = 1"
  "3 \<in> gb_bits ba_bits (Bitmap64 holes_map_example)" "12 \<in> gb_bits ba_bits (Bitmap64 holes_map_example)"
  "14 \<in> gb_bits ba_bits (Bitmap64 holes_map_example)" "5 \<notin> gb_bits ba_bits (Bitmap64 holes_map_example)"
proof -
  have e: "al_fs holes_example = al_fs small_example" by (simp add: holes_example_def)
  show c: "ext2fs_blocks_count (fs_super (al_fs holes_example)) = 15" "s_first_data_block (fs_super (al_fs holes_example)) = 1"
    by (simp_all add: e small_example_ready)
  show "al_new_range holes_example = None" by (simp add: holes_example_def small_example_def block_example_def)
  show "range_bounds (al_fs holes_example) 9" by (simp add: range_bounds_def c)
  have "ba_ok holes_map_example" by (simp add: holes_map_example_def ba_ok_def ba_size_def ba_example_def)
  moreover have "gb_univ (Bitmap64 holes_map_example) = gb_univ (Bitmap64 ba_example)" by (simp add: gb_univ_def holes_map_example_def)
  ultimately have "block_map_ok ba_ok holes_map_example (al_fs small_example)"
    using small_example_search(3) by (simp add: block_map_ok_def gb_ok_def) (simp add: holes_map_example_def)
  then show "blocks_ready ba_ok holes_example holes_map_example"
    using small_example_ready(1) by (simp add: blocks_ready_def e) (simp add: holes_example_def)
  show "3 \<in> gb_bits ba_bits (Bitmap64 holes_map_example)" "12 \<in> gb_bits ba_bits (Bitmap64 holes_map_example)"
    "14 \<in> gb_bits ba_bits (Bitmap64 holes_map_example)" "5 \<notin> gb_bits ba_bits (Bitmap64 holes_map_example)"
    by (simp_all add: gb_bits_def gb_univ_def holes_map_example_def ba_example_def ba_bits_def bit_at_def)
qed

theorem new_range_min_length_exact_witness:
  "ext2fs_new_range 0 (ext2fs_blkmap64_bitarray True True (\<lambda>_. 0) 0) env_example holes_example 2 4 9 NullBitmap = None"
proof -
  have goal: "4 = 0 \<or> ucast (s_first_data_block (fs_super (al_fs holes_example))) \<le> (4 :: u64)" by (simp add: holes_example_facts)
  have no: "\<not> room (gb_bits ba_bits (Bitmap64 holes_map_example)) 1 15 9 y" for y
  proof
    assume "room (gb_bits ba_bits (Bitmap64 holes_map_example)) 1 15 9 y"
    then have y: "unat y + 9 \<le> 15" "\<And>x. y \<le> x \<Longrightarrow> unat x < unat y + 9 \<Longrightarrow> x \<notin> gb_bits ba_bits (Bitmap64 holes_map_example)"
      "1 \<le> unat y" by (auto simp: room_def word_le_nat_alt)
    show False
    proof (cases "unat y \<le> 3")
      case True
      then show False using y(2) [of 3] holes_example_facts(6) by (simp add: word_le_nat_alt)
    next
      case False
      then show False using y(1) y(2) [of 12] holes_example_facts(7) by (simp add: word_le_nat_alt)
    qed
  qed
  have some: "\<not> (\<forall>x. 1 \<le> x \<and> x < 15 \<longrightarrow> x \<in> gb_bits ba_bits (Bitmap64 holes_map_example))"
    using holes_example_facts(9) by (auto intro!: exI [of _ 5])
  from new_range_min_length_exact [OF holes_example_facts(1-3) goal, of 0 True True "\<lambda>_. 0" 0 env_example] no some show ?thesis
    by (simp add: holes_example_facts(4,5,8))
qed


end
