(* ===== verification/Dir_Block.thy ===== *)
theory Dir_Block
  imports Csum
begin

unbundle bit_operations_syntax

text \<open>
  Directory blocks: \<^verbatim>\<open>lib/ext2fs/dir_iterate.c\<close>, \<^verbatim>\<open>dirblock.c\<close>, \<^verbatim>\<open>newdir.c\<close>, \<^verbatim>\<open>lookup.c\<close>, \<^verbatim>\<open>unlink.c\<close> and the
  part of \<^verbatim>\<open>link.c\<close> that inserts a name into one block.

  A block is the list of its bytes and a pointer to a \<^verbatim>\<open>struct ext2_dir_entry\<close> inside it is the offset of
  the entry: \<^verbatim>\<open>inode\<close> at 0, \<^verbatim>\<open>rec_len\<close> at 4, \<^verbatim>\<open>name_len\<close> (the low byte is the length of the name, the high
  byte the type of the file) at 6 and the name from 8 on. Offsets and lengths are natural numbers, and the
  32-bit sums and differences that the code forms are written out. A callback of the iteration gets the
  directory, the kind of the entry, its offset, the size of the block, the block and its private data; it
  returns its flags, the block and the private data.
\<close>

subsection \<open>Fields of a directory entry\<close>

definition ext2fs_has_feature_filetype :: "super_block \<Rightarrow> bool" where
  "ext2fs_has_feature_filetype sb \<longleftrightarrow> s_feature_incompat sb AND 0x0002 \<noteq> 0"

definition u32_add :: "nat \<Rightarrow> nat \<Rightarrow> nat" where
  "u32_add a b = (a + b) mod 4294967296"

definition u32_sub :: "nat \<Rightarrow> nat \<Rightarrow> nat" where
  "u32_sub a b = (a + (4294967296 - b mod 4294967296)) mod 4294967296"

text \<open>An \<^verbatim>\<open>unsigned int\<close> converted to \<^verbatim>\<open>int\<close>.\<close>

definition as_int :: "nat \<Rightarrow> int" where
  "as_int n = (if n \<le> INT_MAX then int n else int n - 4294967296)"

definition ext2fs_get_rec_len :: "filsys \<Rightarrow> u8 list \<Rightarrow> nat \<Rightarrow> (errcode + nat) ub" where
  "ext2fs_get_rec_len fs buf dirent = do {
     rec_len \<leftarrow> get16 buf (dirent + 4);
     let len = unat rec_len;
     if unat (fs_blocksize fs) < 65536 then Some (Inr len)
     else if len = 65535 \<or> len = 0 then Some (Inr (unat (fs_blocksize fs)))
     else Some (Inr ((len AND 65532) OR push_bit 16 (len AND 3)))
   }"

definition ext2fs_set_rec_len :: "filsys \<Rightarrow> nat \<Rightarrow> u8 list \<Rightarrow> nat \<Rightarrow> (errcode \<times> u8 list) ub" where
  "ext2fs_set_rec_len fs len buf dirent =
     (if len > unat (fs_blocksize fs) \<or> unat (fs_blocksize fs) > 262144 \<or> len AND 3 \<noteq> 0 then Some (EINVAL, buf)
      else if len < 65536 then map_option (Pair E_OK) (put16 buf (dirent + 4) (of_nat len))
      else if len = unat (fs_blocksize fs)
      then map_option (Pair E_OK) (put16 buf (dirent + 4) (if unat (fs_blocksize fs) = 65536 then 65535 else 0))
      else map_option (Pair E_OK) (put16 buf (dirent + 4) (of_nat ((len AND 65532) OR (drop_bit 16 len AND 3)))))"

definition ext2fs_dirent_name_len :: "u8 list \<Rightarrow> nat \<Rightarrow> nat ub" where
  "ext2fs_dirent_name_len buf entry = map_option (\<lambda>nl. unat (nl AND 0xff)) (get16 buf (entry + 6))"

definition ext2fs_dirent_set_name_len :: "u8 list \<Rightarrow> nat \<Rightarrow> nat \<Rightarrow> u8 list ub" where
  "ext2fs_dirent_set_name_len buf entry len = do {
     nl \<leftarrow> get16 buf (entry + 6);
     put16 buf (entry + 6) ((nl AND 0xff00) OR (of_nat len AND 0xff))
   }"

definition ext2fs_dirent_file_type :: "u8 list \<Rightarrow> nat \<Rightarrow> nat ub" where
  "ext2fs_dirent_file_type buf entry = map_option (\<lambda>nl. unat (drop_bit 8 nl)) (get16 buf (entry + 6))"

definition ext2fs_dirent_set_file_type :: "u8 list \<Rightarrow> nat \<Rightarrow> nat \<Rightarrow> u8 list ub" where
  "ext2fs_dirent_set_file_type buf entry type = do {
     nl \<leftarrow> get16 buf (entry + 6);
     put16 buf (entry + 6) ((nl AND 0xff) OR push_bit 8 (of_nat type))
   }"

text \<open>The parameter of \<^verbatim>\<open>ext2fs_dir_rec_len\<close> is a byte: longer lengths are cut.\<close>

definition EXT2_DIR_REC_LEN :: "nat \<Rightarrow> nat" where
  "EXT2_DIR_REC_LEN name_len = (name_len mod 256 + 8 + 3) div 4 * 4"

subsection \<open>Iteration over a block\<close>

partial_function (option) ext2fs_validate_entry :: "filsys \<Rightarrow> u8 list \<Rightarrow> nat \<Rightarrow> nat \<Rightarrow> bool ub" where
  [code]: "ext2fs_validate_entry fs buf offset final_offset =
     (if offset < final_offset \<and> offset \<le> u32_sub (unat (fs_blocksize fs)) 12 then do {
        r \<leftarrow> ext2fs_get_rec_len fs buf offset;
        case r of
          Inl _ \<Rightarrow> Some False
        | Inr rec_len \<Rightarrow> do {
            nl \<leftarrow> ext2fs_dirent_name_len buf offset;
            if rec_len < 8 \<or> rec_len mod 4 \<noteq> 0 \<or> int nl + 8 > as_int rec_len then Some False
            else ext2fs_validate_entry fs buf (u32_add offset rec_len) final_offset
          }
      }
      else Some (offset = final_offset))"

partial_function (option) skip_invalid :: "filsys \<Rightarrow> u8 list \<Rightarrow> nat \<Rightarrow> nat \<Rightarrow> nat ub" where
  [code]: "skip_invalid fs buf offset final_offset =
     (if offset < final_offset then do {
        valid \<leftarrow> ext2fs_validate_entry fs buf offset final_offset;
        if valid then Some offset else skip_invalid fs buf (u32_add offset 4) final_offset
      }
      else Some offset)"

text \<open>The end of a round: the offset of the next entry, with deleted entries or without them.\<close>

definition next_offset :: "filsys \<Rightarrow> u32 \<Rightarrow> u8 list \<Rightarrow> nat \<Rightarrow> nat \<Rightarrow> nat ub" where
  "next_offset fs flags buf offset rec_len =
     (if flags AND 2 \<noteq> 0 then do {
        nl \<leftarrow> ext2fs_dirent_name_len buf offset;
        let sz = (nl + 11) div 4 * 4;
        if rec_len \<noteq> sz then skip_invalid fs buf (u32_add offset sz) (u32_add offset rec_len)
        else Some (u32_add offset rec_len)
      }
      else Some (u32_add offset rec_len))"

type_synonym 's dir_func = "u32 \<Rightarrow> nat \<Rightarrow> nat \<Rightarrow> nat \<Rightarrow> u8 list \<Rightarrow> 's \<Rightarrow> (u32 \<times> u8 list \<times> 's) ub"

text \<open>How the loop over the entries ends: behind the last entry, on request of the callback, at a corrupted
entry, or because a record length could not be read.\<close>

datatype loop_end = Block_End | Block_Stop | Block_Corrupted | Block_Unread

partial_function (option) dir_block_loop ::
    "filsys \<Rightarrow> 's dir_func \<Rightarrow> u32 \<Rightarrow> u32 \<Rightarrow> nat \<Rightarrow> nat \<Rightarrow> u8 list \<Rightarrow> 's \<Rightarrow> nat \<Rightarrow> nat \<Rightarrow> nat \<Rightarrow> bool
     \<Rightarrow> (loop_end \<times> bool \<times> u8 list \<times> 's) ub" where
  [code]: "dir_block_loop fs func dir flags buflen csum_size buf priv entry next_real_entry offset changed =
     (if offset < u32_sub buflen 8 then do {
        r \<leftarrow> ext2fs_get_rec_len fs buf offset;
        case r of
          Inl _ \<Rightarrow> Some (Block_Unread, changed, buf, priv)
        | Inr rec_len \<Rightarrow> do {
            nl \<leftarrow> ext2fs_dirent_name_len buf offset;
            if u32_add offset rec_len > buflen \<or> rec_len < 8 \<or> rec_len mod 4 \<noteq> 0 \<or> int nl + 8 > as_int rec_len
            then Some (Block_Corrupted, changed, buf, priv)
            else do {
              inode \<leftarrow> get32 buf offset;
              raw_rec_len \<leftarrow> get16 buf (offset + 4);
              raw_name_len \<leftarrow> get16 buf (offset + 6);
              let tail = (flags AND 8 = 0 \<and> offset = u32_sub buflen csum_size \<and> unat raw_rec_len = csum_size \<and> raw_name_len = 0xDE00);
              if inode = 0 \<and> (if tail then flags AND 4 = 0 else flags AND 1 = 0) then do {
                offset' \<leftarrow> next_offset fs flags buf offset rec_len;
                dir_block_loop fs func dir flags buflen csum_size buf priv entry
                  (if next_real_entry = offset then u32_add next_real_entry rec_len else next_real_entry) offset' changed
              }
              else do {
                let entry = (if inode = 0 \<and> tail then 5 else entry);
                (ret, buf, priv) \<leftarrow> func dir (if next_real_entry > offset then 4 else entry) offset buflen buf priv;
                let entry = (if entry < 3 then entry + 1 else entry);
                r \<leftarrow> (if ret AND 1 \<noteq> 0 then ext2fs_get_rec_len fs buf offset else Some (Inr rec_len));
                case r of
                  Inl _ \<Rightarrow> Some (Block_Unread, changed, buf, priv)
                | Inr rec_len \<Rightarrow>
                    let changed = (changed \<or> ret AND 1 \<noteq> 0)
                    in if ret AND 2 \<noteq> 0 then Some (Block_Stop, changed, buf, priv)
                       else do {
                         offset' \<leftarrow> next_offset fs flags buf offset rec_len;
                         dir_block_loop fs func dir flags buflen csum_size buf priv entry
                           (if next_real_entry = offset then u32_add next_real_entry rec_len else next_real_entry) offset' changed
                       }
              }
            }
          }
      }
      else Some (Block_End, changed, buf, priv))"

subsection \<open>Reading and writing a block\<close>

text \<open>
  The device is a state with a read and a write operation, both given as arguments; the code they stand for
  is reached through the function table of the channel. \<open>read_inode\<close> and \<open>adr\<close> are as in the checksums.
\<close>

definition ext2fs_read_dir_block4 ::
    "nat \<Rightarrow> (u32 \<Rightarrow> errcode + u32) \<Rightarrow> ('d \<Rightarrow> u64 \<Rightarrow> errcode \<times> u8 list) \<Rightarrow> filsys \<Rightarrow> 'd \<Rightarrow> u64 \<Rightarrow> u32 \<Rightarrow> (errcode \<times> u8 list) ub" where
  "ext2fs_read_dir_block4 adr read_inode io_read fs dev block ino =
     (case io_read dev block of (retval, buf) \<Rightarrow>
        if retval \<noteq> E_OK then Some (retval, buf)
        else if fs_flags fs AND 0x200000 \<noteq> 0 then Some (E_OK, buf)
        else do {
          valid \<leftarrow> ext2fs_dir_block_csum_verify adr read_inode fs ino buf;
          Some (if valid then E_OK else EXT2_ET_DIR_CSUM_INVALID, buf)
        })"

definition ext2fs_write_dir_block4 ::
    "nat \<Rightarrow> (u32 \<Rightarrow> errcode + u32) \<Rightarrow> ('d \<Rightarrow> u64 \<Rightarrow> u8 list \<Rightarrow> errcode \<times> 'd) \<Rightarrow> filsys \<Rightarrow> 'd \<Rightarrow> u64 \<Rightarrow> u8 list \<Rightarrow> u32
     \<Rightarrow> (errcode \<times> u8 list \<times> 'd) ub" where
  "ext2fs_write_dir_block4 adr read_inode io_write fs dev block buf ino = do {
     (retval, buf) \<leftarrow> ext2fs_dir_block_csum_set adr read_inode fs ino buf;
     if retval \<noteq> E_OK then Some (retval, buf, dev)
     else case io_write dev block buf of (retval, dev) \<Rightarrow> Some (retval, buf, dev)
   }"

record 's dir_context =
  ctx_dir :: u32
  ctx_flags :: u32
  ctx_buf :: "u8 list"
  ctx_buflen :: u32
  ctx_priv :: 's
  ctx_errcode :: errcode

text \<open>The result is the flags for the caller's iteration over the blocks: 2 is \<^verbatim>\<open>BLOCK_ABORT\<close>, 8 is
\<^verbatim>\<open>BLOCK_INLINE_DATA_CHANGED\<close>.\<close>

definition ext2fs_process_dir_block ::
    "nat \<Rightarrow> (u32 \<Rightarrow> errcode + u32) \<Rightarrow> ('d \<Rightarrow> u64 \<Rightarrow> errcode \<times> u8 list) \<Rightarrow> ('d \<Rightarrow> u64 \<Rightarrow> u8 list \<Rightarrow> errcode \<times> 'd) \<Rightarrow> filsys
     \<Rightarrow> 's dir_func \<Rightarrow> 'd \<Rightarrow> u64 \<Rightarrow> int \<Rightarrow> 's dir_context \<Rightarrow> (u32 \<times> 's dir_context \<times> 'd) ub" where
  "ext2fs_process_dir_block adr read_inode io_read io_write fs func dev blocknr blockcnt ctx =
     (if blockcnt < 0 then Some (0, ctx, dev)
      else do {
        let entry = (if blockcnt \<noteq> 0 then 3 else 1);
        let inline_data = (ctx_flags ctx AND 8 \<noteq> 0);
        (errcode, buf) \<leftarrow> (if inline_data then Some (ctx_errcode ctx, ctx_buf ctx)
                          else ext2fs_read_dir_block4 adr read_inode io_read fs dev blocknr (ctx_dir ctx));
        let ctx = ctx\<lparr>ctx_errcode := errcode, ctx_buf := buf\<rparr>;
        if \<not> inline_data \<and> errcode \<noteq> E_OK then Some (2, ctx, dev)
        else do {
          let buflen = unat (if inline_data then ctx_buflen ctx else fs_blocksize fs);
          let csum_size = (if ext2fs_has_feature_metadata_csum (fs_super fs) then 12 else 0);
          (how, changed, buf, priv) \<leftarrow> dir_block_loop fs func (ctx_dir ctx) (ctx_flags ctx) buflen csum_size buf (ctx_priv ctx) entry 0 0 False;
          let ctx = ctx\<lparr>ctx_buf := buf, ctx_priv := priv\<rparr>;
          case how of
            Block_Unread \<Rightarrow> Some (2, ctx, dev)
          | Block_Corrupted \<Rightarrow> Some (2, ctx\<lparr>ctx_errcode := EXT2_ET_DIR_CORRUPTED\<rparr>, dev)
          | _ \<Rightarrow>
              let abort = (if how = Block_Stop then 2 else 0)
              in if changed \<and> \<not> inline_data then do {
                   (errcode, buf, dev) \<leftarrow> ext2fs_write_dir_block4 adr read_inode io_write fs dev blocknr buf (ctx_dir ctx);
                   let ctx = ctx\<lparr>ctx_errcode := errcode, ctx_buf := buf\<rparr>;
                   if errcode \<noteq> E_OK then Some (2, ctx, dev) else Some (abort, ctx, dev)
                 }
                 else if changed then Some (8 OR abort, ctx, dev)
                 else Some (abort, ctx, dev)
        }
      })"

subsection \<open>A new block\<close>

definition ext2fs_initialize_dirent_tail :: "filsys \<Rightarrow> u8 list \<Rightarrow> nat \<Rightarrow> u8 list ub" where
  "ext2fs_initialize_dirent_tail fs buf t = do {
     buf \<leftarrow> c_put buf t (replicate 12 0);
     (_, buf) \<leftarrow> ext2fs_set_rec_len fs 12 buf t;
     put16 buf (t + 6) 0xDE00
   }"

definition ext2fs_new_dir_block :: "bool \<Rightarrow> filsys \<Rightarrow> u32 \<Rightarrow> u32 \<Rightarrow> (errcode + u8 list) ub" where
  "ext2fs_new_dir_block ok fs dir_ino parent_ino =
     (if fs_magic fs \<noteq> EXT2_ET_MAGIC_EXT2FS_FILSYS then Some (Inl EXT2_ET_MAGIC_EXT2FS_FILSYS)
      else if \<not> ok then Some (Inl EXT2_ET_NO_MEMORY)
      else do {
        let bs = unat (fs_blocksize fs);
        let csum_size = (if ext2fs_has_feature_metadata_csum (fs_super fs) then 12 else 0);
        (retval, buf) \<leftarrow> ext2fs_set_rec_len fs (u32_sub bs csum_size) (replicate bs 0) 0;
        if retval \<noteq> E_OK then Some (Inl retval)
        else do {
          r \<leftarrow> (if dir_ino \<noteq> 0 then do {
              let filetype = (if ext2fs_has_feature_filetype (fs_super fs) then 2 else 0);
              buf \<leftarrow> put32 buf 0 dir_ino;
              buf \<leftarrow> ext2fs_dirent_set_name_len buf 0 1;
              buf \<leftarrow> ext2fs_dirent_set_file_type buf 0 filetype;
              buf \<leftarrow> c_store buf 8 0x2e;
              let rec_len = u32_sub (u32_sub bs csum_size) (EXT2_DIR_REC_LEN 1);
              buf \<leftarrow> put16 buf 4 (of_nat (EXT2_DIR_REC_LEN 1));
              d \<leftarrow> get16 buf 4;
              let dir = unat d;
              (retval, buf) \<leftarrow> ext2fs_set_rec_len fs rec_len buf dir;
              if retval \<noteq> E_OK then Some (Inl retval)
              else do {
                buf \<leftarrow> put32 buf dir parent_ino;
                buf \<leftarrow> ext2fs_dirent_set_name_len buf dir 2;
                buf \<leftarrow> ext2fs_dirent_set_file_type buf dir filetype;
                buf \<leftarrow> c_store buf (dir + 8) 0x2e;
                buf \<leftarrow> c_store buf (dir + 9) 0x2e;
                Some (Inr buf)
              }
            }
            else Some (Inr buf));
          case r of
            Inl retval \<Rightarrow> Some (Inl retval)
          | Inr buf \<Rightarrow>
              if csum_size \<noteq> 0 then map_option Inr (ext2fs_initialize_dirent_tail fs buf (bs - 12))
              else Some (Inr buf)
        }
      })"

subsection \<open>Searching, removing and inserting a name\<close>

text \<open>\<^verbatim>\<open>strncmp (a + i, b + j, n) == 0\<close> and \<^verbatim>\<open>strncpy (buf + d, name + i, n)\<close>.\<close>

primrec c_strneq :: "u8 list \<Rightarrow> nat \<Rightarrow> u8 list \<Rightarrow> nat \<Rightarrow> nat \<Rightarrow> bool ub" where
  "c_strneq a i b j 0 = Some True"
| "c_strneq a i b j (Suc n) = do {
     x \<leftarrow> c_load a i;
     y \<leftarrow> c_load b j;
     if x \<noteq> y then Some False
     else if x = 0 then Some True
     else c_strneq a (Suc i) b (Suc j) n
   }"

primrec c_strncpy :: "u8 list \<Rightarrow> nat \<Rightarrow> u8 list \<Rightarrow> nat \<Rightarrow> nat \<Rightarrow> u8 list ub" where
  "c_strncpy buf d name i 0 = Some buf"
| "c_strncpy buf d name i (Suc n) = do {
     x \<leftarrow> c_load name i;
     if x = 0 then c_put buf d (replicate (Suc n) 0)
     else do {
       buf \<leftarrow> c_store buf d x;
       c_strncpy buf (Suc d) name (Suc i) n
     }
   }"

record lookup_struct =
  lk_name :: "u8 list"
  lk_len :: nat
  lk_inode :: u32
  lk_found :: nat

definition lookup_proc :: "lookup_struct dir_func" where
  "lookup_proc dir entry offset blocksize buf ls = do {
     nl \<leftarrow> ext2fs_dirent_name_len buf offset;
     if lk_len ls \<noteq> nl then Some (0, buf, ls)
     else do {
       eq \<leftarrow> c_strneq (lk_name ls) 0 buf (offset + 8) nl;
       if \<not> eq then Some (0, buf, ls)
       else do {
         inode \<leftarrow> get32 buf offset;
         Some (2, buf, ls\<lparr>lk_inode := inode, lk_found := lk_found ls + 1\<rparr>)
       }
     }
   }"

record unlink_struct =
  ul_name :: "u8 list option"
  ul_namelen :: nat
  ul_inode :: u32
  ul_flags :: u32
  ul_prev :: "nat option"
  ul_done :: nat

definition unlink_proc :: "unlink_struct dir_func" where
  "unlink_proc dir entry offset blocksize buf ls = do {
     let prev = ul_prev ls;
     let ls = ls\<lparr>ul_prev := Some offset\<rparr>;
     differs \<leftarrow> (case ul_name ls of
         None \<Rightarrow> Some False
       | Some name \<Rightarrow> do {
           nl \<leftarrow> ext2fs_dirent_name_len buf offset;
           if nl \<noteq> ul_namelen ls then Some True
           else map_option Not (c_strneq name 0 buf (offset + 8) nl)
         });
     if differs then Some (0, buf, ls)
     else do {
       inode \<leftarrow> get32 buf offset;
       if (if ul_flags ls AND 1 = 0 \<and> ul_inode ls \<noteq> 0 then inode \<noteq> ul_inode ls else inode = 0) then Some (0, buf, ls)
       else do {
         buf \<leftarrow> (if offset \<noteq> 0 then do {
             p \<leftarrow> prev;
             a \<leftarrow> get16 buf (p + 4);
             b \<leftarrow> get16 buf (offset + 4);
             put16 buf (p + 4) (a + b)
           }
           else put32 buf offset 0);
         Some (3, buf, ls\<lparr>ul_done := ul_done ls + 1\<rparr>)
       }
     }
   }"

record link_struct =
  ls_name :: "u8 list"
  ls_namelen :: nat
  ls_inode :: u32
  ls_flags :: u32
  ls_done :: nat
  ls_err :: errcode

text \<open>
  One visit of \<^verbatim>\<open>link_proc\<close>, whose \<^verbatim>\<open>ls->fs\<close> is the first argument. The sums of the guard are \<^verbatim>\<open>int\<close>s. The
  three stages are the absorption of a following unused entry (an error code, the flags, the block and the
  length), the split of a used entry and the new name in an unused one.
\<close>

definition link_absorb :: "filsys \<Rightarrow> nat \<Rightarrow> nat \<Rightarrow> u8 list \<Rightarrow> nat \<Rightarrow> (errcode \<times> u32 \<times> u8 list \<times> nat) ub" where
  "link_absorb fs offset blocksize buf curr_rec_len = do {
     let csum_size = (if ext2fs_has_feature_metadata_csum (fs_super fs) then 12 else 0);
     if offset + curr_rec_len > INT_MAX then None
     else if int (offset + curr_rec_len) < as_int blocksize - (8 + csum_size) then do {
       next \<leftarrow> get32 buf (offset + curr_rec_len);
       next_len \<leftarrow> get16 buf (offset + curr_rec_len + 4);
       if next \<noteq> 0 then Some (E_OK, 0, buf, curr_rec_len)
       else if offset + curr_rec_len + unat next_len > INT_MAX then None
       else if int (offset + curr_rec_len + unat next_len) \<le> as_int blocksize then do {
         (err, buf) \<leftarrow> ext2fs_set_rec_len fs (curr_rec_len + unat next_len) buf offset;
         Some (err, 1, buf, curr_rec_len + unat next_len)
       }
       else Some (E_OK, 0, buf, curr_rec_len)
     }
     else Some (E_OK, 0, buf, curr_rec_len)
   }"

definition link_split :: "filsys \<Rightarrow> nat \<Rightarrow> u8 list \<Rightarrow> nat \<Rightarrow> nat \<Rightarrow> (errcode \<times> u8 list) ub" where
  "link_split fs offset buf min_rec_len rec_len = do {
     (err, buf) \<leftarrow> ext2fs_set_rec_len fs min_rec_len buf offset;
     if err \<noteq> E_OK then Some (err, buf)
     else do {
       l \<leftarrow> get16 buf (offset + 4);
       let next = offset + unat l;
       buf \<leftarrow> put32 buf next 0;
       buf \<leftarrow> ext2fs_dirent_set_name_len buf next 0;
       buf \<leftarrow> ext2fs_dirent_set_file_type buf next 0;
       ext2fs_set_rec_len fs rec_len buf next
     }
   }"

definition link_fill :: "filsys \<Rightarrow> nat \<Rightarrow> u8 list \<Rightarrow> link_struct \<Rightarrow> u8 list ub" where
  "link_fill fs offset buf ls = do {
     buf \<leftarrow> put32 buf offset (ls_inode ls);
     buf \<leftarrow> ext2fs_dirent_set_name_len buf offset (ls_namelen ls);
     buf \<leftarrow> c_strncpy buf (offset + 8) (ls_name ls) 0 (ls_namelen ls);
     if ext2fs_has_feature_filetype (fs_super fs) then ext2fs_dirent_set_file_type buf offset (unat (ls_flags ls AND 7)) else Some buf
   }"

definition link_proc :: "filsys \<Rightarrow> link_struct dir_func" where
  "link_proc fs dir entry offset blocksize buf ls =
     (if ls_done ls \<noteq> 0 then Some (2, buf, ls)
      else do {
        let rec_len = EXT2_DIR_REC_LEN (ls_namelen ls);
        r \<leftarrow> ext2fs_get_rec_len fs buf offset;
        case r of
          Inl err \<Rightarrow> Some (2, buf, ls\<lparr>ls_err := err\<rparr>)
        | Inr curr_rec_len \<Rightarrow> do {
            (err, ret, buf, curr_rec_len) \<leftarrow> link_absorb fs offset blocksize buf curr_rec_len;
            let ls = ls\<lparr>ls_err := err\<rparr>;
            if err \<noteq> E_OK then Some (2, buf, ls)
            else do {
              inode \<leftarrow> get32 buf offset;
              if inode \<noteq> 0 then do {
                nl \<leftarrow> ext2fs_dirent_name_len buf offset;
                let min_rec_len = EXT2_DIR_REC_LEN nl;
                if curr_rec_len < min_rec_len + rec_len then Some (ret, buf, ls)
                else do {
                  (err, buf) \<leftarrow> link_split fs offset buf min_rec_len (curr_rec_len - min_rec_len);
                  Some (if err \<noteq> E_OK then 2 else 1, buf, ls\<lparr>ls_err := err\<rparr>)
                }
              }
              else if curr_rec_len < rec_len then Some (ret, buf, ls)
              else do {
                buf \<leftarrow> link_fill fs offset buf ls;
                Some (3, buf, ls\<lparr>ls_done := ls_done ls + 1\<rparr>)
              }
            }
          }
      })"

text \<open>\<^verbatim>\<open>load_logical_dir_block\<close> with the map from logical to physical blocks as an argument: an error code, the
physical block, and whether it is uninitialized.\<close>

definition load_logical_dir_block ::
    "nat \<Rightarrow> (u32 \<Rightarrow> errcode + u32) \<Rightarrow> ('d \<Rightarrow> u64 \<Rightarrow> errcode \<times> u8 list) \<Rightarrow> (u32 \<Rightarrow> u64 \<Rightarrow> errcode \<times> u64 \<times> bool) \<Rightarrow> filsys
     \<Rightarrow> 'd \<Rightarrow> u32 \<Rightarrow> u64 \<Rightarrow> u8 list \<Rightarrow> (errcode \<times> u64 \<times> u8 list) ub" where
  "load_logical_dir_block adr read_inode io_read bmap fs dev dir block buf =
     (case bmap dir block of (errcode, pblk, uninit) \<Rightarrow>
        if errcode \<noteq> E_OK then Some (errcode, pblk, buf)
        else if uninit then Some (EXT2_ET_DIR_CORRUPTED, pblk, buf)
        else do {
          (errcode, buf) \<leftarrow> ext2fs_read_dir_block4 adr read_inode io_read fs dev pblk dir;
          Some (errcode, pblk, buf)
        })"

definition add_dirent_to_buf ::
    "nat \<Rightarrow> (u32 \<Rightarrow> errcode + u32) \<Rightarrow> ('d \<Rightarrow> u64 \<Rightarrow> errcode \<times> u8 list) \<Rightarrow> ('d \<Rightarrow> u64 \<Rightarrow> u8 list \<Rightarrow> errcode \<times> 'd)
     \<Rightarrow> (u32 \<Rightarrow> u64 \<Rightarrow> errcode \<times> u64 \<times> bool) \<Rightarrow> filsys \<Rightarrow> 'd \<Rightarrow> int \<Rightarrow> u8 list \<Rightarrow> u32 \<Rightarrow> u8 list \<Rightarrow> u32 \<Rightarrow> u32
     \<Rightarrow> (errcode \<times> u8 list \<times> 'd) ub" where
  "add_dirent_to_buf adr read_inode io_read io_write bmap fs dev blockcnt buf dir name ino flags = do {
     (retval, pblk, buf) \<leftarrow> load_logical_dir_block adr read_inode io_read bmap fs dev dir (of_int blockcnt) buf;
     if retval \<noteq> E_OK then Some (retval, buf, dev)
     else do {
       namelen \<leftarrow> c_strlen name;
       (_, ctx, dev) \<leftarrow> ext2fs_process_dir_block adr read_inode io_read io_write fs (link_proc fs) dev pblk blockcnt
         \<lparr>ctx_dir = dir, ctx_flags = 1, ctx_buf = buf, ctx_buflen = 0, ctx_priv =
           \<lparr>ls_name = name, ls_namelen = namelen, ls_inode = ino, ls_flags = flags, ls_done = 0, ls_err = E_OK\<rparr>, ctx_errcode = E_OK\<rparr>;
       Some (if ctx_errcode ctx \<noteq> E_OK then ctx_errcode ctx
             else if ls_err (ctx_priv ctx) \<noteq> E_OK then ls_err (ctx_priv ctx)
             else if ls_done (ctx_priv ctx) = 0 then EXT2_ET_DIR_NO_SPACE
             else E_OK, ctx_buf ctx, dev)
     }
   }"

end
