(* ===== verification/Dir_Ops.thy ===== *)
theory Dir_Ops
  imports Dir_Block
begin

unbundle bit_operations_syntax

text \<open>
  What the operations on a directory block do: a block is a chain of entries that fills it exactly, searching
  for a name finds the first entry in use with that name, inserting and removing a name changes the entries
  in use by exactly that name, whatever happens to the unused space.
\<close>

subsection \<open>Record lengths\<close>

lemma bit_65532: "bit (65532 :: nat) n \<longleftrightarrow> 2 \<le> n \<and> n < 16"
proof -
  have "(65532 :: nat) = push_bit 2 (mask 14)" by (simp add: push_bit_eq_mult mask_eq_exp_minus_1)
  then show ?thesis by (simp only: bit_push_bit_iff bit_mask_iff) auto
qed

lemma bit_3: "bit (3 :: nat) n \<longleftrightarrow> n < 2"
proof -
  have "(3 :: nat) = mask 2" by (simp add: mask_eq_exp_minus_1)
  then show ?thesis by (simp only: bit_mask_iff) auto
qed

lemma and_3_nat: "(n :: nat) AND 3 = n mod 4"
proof -
  have "n AND 3 = take_bit 2 n" by (simp add: take_bit_eq_mask mask_eq_exp_minus_1)
  then show ?thesis by (simp add: take_bit_eq_mod)
qed

lemma bit_nat_less: "n < 2 ^ m \<Longrightarrow> bit (n :: nat) i \<Longrightarrow> i < m"
  by (metis bit_take_bit_iff take_bit_nat_eq_self)

lemma low_bits_clear: "n mod 4 = 0 \<Longrightarrow> bit (n :: nat) i \<Longrightarrow> 2 \<le> i"
  using and_3_nat [of n] by (metis bit_3 bit_and_iff bit_0_eq bot_apply bot_bool_def not_le)

lemma and_65532: "n mod 4 = 0 \<Longrightarrow> n < 65536 \<Longrightarrow> (n :: nat) AND 65532 = n"
proof (rule bit_eqI)
  fix i assume "n mod 4 = 0" "n < 65536"
  then show "bit (n AND 65532) i = bit n i"
    using low_bits_clear [of n i] bit_nat_less [of n 16 i] by (auto simp: bit_and_iff bit_65532)
qed

text \<open>How a stored record length is read, and how a length is stored.\<close>

definition rec_dec :: "nat \<Rightarrow> u16 \<Rightarrow> nat" where
  "rec_dec bs raw = (if bs < 65536 then unat raw else if unat raw = 65535 \<or> unat raw = 0 then bs
     else (unat raw AND 65532) OR push_bit 16 (unat raw AND 3))"

definition rec_enc :: "nat \<Rightarrow> nat \<Rightarrow> u16" where
  "rec_enc bs len = (if len < 65536 then of_nat len else if len = bs then (if bs = 65536 then 65535 else 0)
     else of_nat ((len AND 65532) OR (drop_bit 16 len AND 3)))"

lemma get_rec_len_eq: "ext2fs_get_rec_len fs buf d = map_option (\<lambda>raw. Inr (rec_dec (unat (fs_blocksize fs)) raw)) (get16 buf (d + 4))"
  by (cases "get16 buf (d + 4)") (simp_all add: ext2fs_get_rec_len_def rec_dec_def Let_def)

lemma set_rec_len_eq:
  "ext2fs_set_rec_len fs len buf d =
    (if len \<le> unat (fs_blocksize fs) \<and> unat (fs_blocksize fs) \<le> 262144 \<and> len mod 4 = 0
     then map_option (Pair E_OK) (put16 buf (d + 4) (rec_enc (unat (fs_blocksize fs)) len)) else Some (EINVAL, buf))"
  by (auto simp: ext2fs_set_rec_len_def rec_enc_def and_3_nat)

lemma rec_large:
  fixes len :: nat
  assumes "65536 \<le> len" "len < 262144" "len mod 4 = 0"
  defines "raw \<equiv> (len AND 65532) OR (drop_bit 16 len AND 3)"
  shows "raw < 65536" "(raw AND 65532) OR push_bit 16 (raw AND 3) = len" "raw \<noteq> 0" "raw = 65535 \<longleftrightarrow> len = 262140"
proof -
  have b: "bit raw i \<longleftrightarrow> 2 \<le> i \<and> i < 16 \<and> bit len i \<or> i < 2 \<and> bit len (16 + i)" for i
    unfolding raw_def by (auto simp: bit_or_iff bit_and_iff bit_65532 bit_3 bit_drop_bit_eq)
  have l: "bit len i \<Longrightarrow> 2 \<le> i \<and> i < 18" for i
    using low_bits_clear [OF assms(3), of i] bit_nat_less [of len 18 i] assms(2) by simp
  have "take_bit 16 raw = raw" by (rule bit_eqI) (auto simp: bit_take_bit_iff b)
  then show "raw < 65536" using take_bit_nat_less_exp [of 16 raw] by simp
  show whole: "(raw AND 65532) OR push_bit 16 (raw AND 3) = len"
  proof (rule bit_eqI)
    fix i :: nat
    have "bit len (16 + (i - 16)) = bit len i" if "16 \<le> i" using that by simp
    then show "bit ((raw AND 65532) OR push_bit 16 (raw AND 3)) i = bit len i"
      using l [of i] unfolding bit_or_iff bit_and_iff bit_push_bit_iff bit_65532 bit_3 b possible_bit_def by (cases "16 \<le> i") auto
  qed
  show "raw \<noteq> 0"
  proof
    assume "raw = 0"
    with whole have "len = 0" by simp
    with assms(1) show False by simp
  qed
  show "raw = 65535 \<longleftrightarrow> len = 262140"
  proof
    assume "raw = 65535"
    then show "len = 262140" using whole by (simp add: push_bit_eq_mult)
  next
    assume "len = 262140"
    then show "raw = 65535" by (simp add: raw_def drop_bit_eq_div)
  qed
qed


lemma rec_enc_dec:
  assumes len: "len \<le> bs" "len mod 4 = 0" "bs \<le> 262144"
  shows "rec_dec bs (rec_enc bs len) = len \<longleftrightarrow> \<not> (len = 0 \<and> 65536 \<le> bs) \<and> \<not> (len = 262140 \<and> 262140 < bs)"
proof (cases "len < 65536")
  case True
  then have u: "unat (of_nat len :: u16) = len" by (simp add: unat_of_nat take_bit_nat_eq_self)
  have "len \<noteq> 65535" using len(2) by auto
  with True u len and_65532 [OF len(2) True] show ?thesis
    by (auto simp: rec_enc_def rec_dec_def and_3_nat)
next
  case big: False
  show ?thesis
  proof (cases "len = bs")
    case True
    with big show ?thesis by (auto simp: rec_enc_def rec_dec_def)
  next
    case False
    with len have lt: "len < 262144" by simp
    define raw where "raw = (len AND 65532) OR (drop_bit 16 len AND 3)"
    have ge: "65536 \<le> len" using big by simp
    note l = rec_large [OF ge lt len(2), folded raw_def]
    have bs: "\<not> bs < 65536" "len < bs" using big len(1) False by simp_all
    have enc: "rec_enc bs len = of_nat raw" using big False by (simp add: rec_enc_def raw_def)
    have u: "unat (of_nat raw :: u16) = raw" using l(1) by (simp add: unat_of_nat take_bit_nat_eq_self)
    show ?thesis unfolding enc rec_dec_def u if_not_P [OF bs(1)] l(2) using l(3,4) bs ge by auto
  qed
qed

text \<open>
  (C29) A record length is stored exactly when it is a multiple of four that does not exceed the block (of at
  most 256 KiB), and is then read back as it was, with two exceptions: length 0 in a block of 64 KiB or more,
  and length 262140 in a larger block, which both read as the size of the block. Otherwise the code is
  \<^verbatim>\<open>EINVAL\<close> and the entry is unchanged.
\<close>

theorem rec_len_roundtrip:
  fixes fs :: filsys and len :: nat
  defines "bs \<equiv> unat (fs_blocksize fs)"
  assumes "d + 6 \<le> length buf"
  shows "\<exists>e buf'. ext2fs_set_rec_len fs len buf d = Some (e, buf') \<and> length buf' = length buf
    \<and> (e = E_OK \<longleftrightarrow> len \<le> bs \<and> bs \<le> 262144 \<and> len mod 4 = 0)
    \<and> (e = E_OK \<longrightarrow> (ext2fs_get_rec_len fs buf' d = Some (Inr len) \<longleftrightarrow> \<not> (len = 0 \<and> 65536 \<le> bs) \<and> \<not> (len = 262140 \<and> 262140 < bs)))
    \<and> (e \<noteq> E_OK \<longrightarrow> e = EINVAL \<and> buf' = buf)"
proof (cases "len \<le> bs \<and> bs \<le> 262144 \<and> len mod 4 = 0")
  case True
  have "d + 4 + 2 \<le> length buf" using assms by simp
  then obtain buf' where b: "put16 buf (d + 4) (rec_enc bs len) = Some buf'" "length buf' = length buf"
    using put_inside(1) [of "d + 4" buf "rec_enc bs len"] c_put_SomeD by (auto simp: put16_def)
  have "get16 buf' (d + 4) = Some (rec_enc bs len)" by (rule get16_put16 [OF b(1)])
  with True b rec_enc_dec [of len bs] show ?thesis
    by (simp add: set_rec_len_eq get_rec_len_eq bs_def)
next
  case False
  then show ?thesis by (auto simp: set_rec_len_eq bs_def)
qed

theorem rec_len_roundtrip_witness:
  "\<exists>e buf'. ext2fs_set_rec_len (fs_example\<lparr>fs_blocksize := 65536\<rparr>) 65536 (replicate 65536 0) 12 = Some (e, buf')
    \<and> ext2fs_get_rec_len (fs_example\<lparr>fs_blocksize := 65536\<rparr>) buf' 12 = Some (Inr 65536)"
proof -
  have len: "12 + 6 \<le> length (replicate 65536 (0 :: u8))" by simp
  from rec_len_roundtrip [OF len, of "fs_example\<lparr>fs_blocksize := 65536\<rparr>" 65536] show ?thesis by auto
qed

subsection \<open>Blocks as chains of entries\<close>

record dent =
  d_ino :: u32
  d_raw :: u16
  d_nl :: u16
  d_body :: "u8 list"

definition ent_bytes :: "dent \<Rightarrow> u8 list" where
  "ent_bytes e = le32 (d_ino e) @ le16 (d_raw e) @ le16 (d_nl e) @ d_body e"

definition d_rec :: "dent \<Rightarrow> nat" where
  "d_rec e = 8 + length (d_body e)"

definition d_len :: "dent \<Rightarrow> nat" where
  "d_len e = unat (d_nl e AND 0xff)"

definition d_name :: "dent \<Rightarrow> u8 list" where
  "d_name e = take (d_len e) (d_body e)"

definition block_of :: "dent list \<Rightarrow> u8 list" where
  "block_of es = concat (map ent_bytes es)"

text \<open>An entry is well formed if its stored length is its length, it has room for its name, and it has a name when
it is in use. A block of 1 to 64 KiB is the chain of its entries; with metadata checksums the last is the tail.\<close>

definition ent_ok :: "nat \<Rightarrow> dent \<Rightarrow> bool" where
  "ent_ok bs e \<longleftrightarrow> rec_dec bs (d_raw e) = d_rec e \<and> 12 \<le> d_rec e \<and> d_rec e mod 4 = 0 \<and> d_len e + 8 \<le> d_rec e \<and> (d_ino e \<noteq> 0 \<longrightarrow> 0 < d_len e)"

definition is_tail :: "dent \<Rightarrow> bool" where
  "is_tail e \<longleftrightarrow> d_ino e = 0 \<and> d_nl e = 0xDE00 \<and> d_rec e = 12"

definition dir_ok :: "filsys \<Rightarrow> dent list \<Rightarrow> bool" where
  "dir_ok fs es \<longleftrightarrow> 1024 \<le> unat (fs_blocksize fs) \<and> unat (fs_blocksize fs) \<le> 65536 \<and> (\<forall>e \<in> set es. ent_ok (unat (fs_blocksize fs)) e)
     \<and> sum_list (map d_rec es) = unat (fs_blocksize fs)
     \<and> (ext2fs_has_feature_metadata_csum (fs_super fs) \<longrightarrow> es \<noteq> [] \<and> is_tail (last es))"

text \<open>The entries in use: inode, name and type of file.\<close>

definition live :: "dent list \<Rightarrow> (u32 \<times> u8 list \<times> u16) list" where
  "live es = map (\<lambda>e. (d_ino e, d_name e, drop_bit 8 (d_nl e))) (filter (\<lambda>e. d_ino e \<noteq> 0) es)"

lemma length_ent_bytes [simp]: "length (ent_bytes e) = d_rec e"
  by (simp add: ent_bytes_def d_rec_def)

lemma block_of_simps [simp]: "block_of [] = []" "block_of (e # es) = ent_bytes e @ block_of es" "block_of (es @ fs) = block_of es @ block_of fs"
  by (simp_all add: block_of_def)

lemma length_block_of [simp]: "length (block_of es) = sum_list (map d_rec es)"
  by (induction es) simp_all

lemma live_simps [simp]: "live [] = []" "live (e # es) = (if d_ino e \<noteq> 0 then (d_ino e, d_name e, drop_bit 8 (d_nl e)) # live es else live es)"
    "live (es @ fs) = live es @ live fs"
  by (simp_all add: live_def)

lemma d_rec_update [simp]: "d_rec (e\<lparr>d_ino := i\<rparr>) = d_rec e" "d_rec (e\<lparr>d_raw := r\<rparr>) = d_rec e" "d_rec (e\<lparr>d_nl := n\<rparr>) = d_rec e"
    "d_rec (e\<lparr>d_body := b\<rparr>) = 8 + length b"
  by (simp_all add: d_rec_def)

lemma c_get_mid: "length A = n \<Longrightarrow> c_get (P @ A @ R) (length P) n = Some A"
  by (simp add: c_get_def)

lemma c_put_mid: "length A = length B \<Longrightarrow> c_put (P @ A @ R) (length P) B = Some (P @ B @ R)"
  by (simp add: c_put_def)

lemma c_mid:
  assumes "i < length A"
  shows "c_load (P @ A @ R) (length P + i) = Some (A ! i)" "c_store (P @ A @ R) (length P + i) x = Some (P @ A[i := x] @ R)"
  using assms by (simp_all add: nth_append list_update_append)

lemma ent_get:
  "get32 (P @ ent_bytes e @ Q) (length P) = Some (d_ino e)"
  "get16 (P @ ent_bytes e @ Q) (length P + 4) = Some (d_raw e)"
  "get16 (P @ ent_bytes e @ Q) (length P + 6) = Some (d_nl e)"
  using c_get_mid [of "le32 (d_ino e)" 4 P] c_get_mid [of "le16 (d_raw e)" 2 "P @ le32 (d_ino e)"]
    c_get_mid [of "le16 (d_nl e)" 2 "P @ le32 (d_ino e) @ le16 (d_raw e)"]
  by (simp_all add: ent_bytes_def get32_def get16_def)

lemma ent_put:
  "put32 (P @ ent_bytes e @ Q) (length P) i = Some (P @ ent_bytes (e\<lparr>d_ino := i\<rparr>) @ Q)"
  "put16 (P @ ent_bytes e @ Q) (length P + 4) r = Some (P @ ent_bytes (e\<lparr>d_raw := r\<rparr>) @ Q)"
  "put16 (P @ ent_bytes e @ Q) (length P + 6) n = Some (P @ ent_bytes (e\<lparr>d_nl := n\<rparr>) @ Q)"
  using c_put_mid [of "le32 (d_ino e)" "le32 i" P] c_put_mid [of "le16 (d_raw e)" "le16 r" "P @ le32 (d_ino e)"]
    c_put_mid [of "le16 (d_nl e)" "le16 n" "P @ le32 (d_ino e) @ le16 (d_raw e)"]
  by (simp_all add: ent_bytes_def put32_def put16_def)

lemma ent_load:
  assumes "i < length (d_body e)"
  shows "c_load (P @ ent_bytes e @ Q) (length P + 8 + i) = Some (d_body e ! i)"
    "c_store (P @ ent_bytes e @ Q) (length P + 8 + i) x = Some (P @ ent_bytes (e\<lparr>d_body := (d_body e)[i := x]\<rparr>) @ Q)"
proof -
  let ?H = "P @ le32 (d_ino e) @ le16 (d_raw e) @ le16 (d_nl e)"
  show "c_load (P @ ent_bytes e @ Q) (length P + 8 + i) = Some (d_body e ! i)"
    using c_mid(1) [OF assms, of ?H Q] by (simp add: ent_bytes_def)
  show "c_store (P @ ent_bytes e @ Q) (length P + 8 + i) x = Some (P @ ent_bytes (e\<lparr>d_body := (d_body e)[i := x]\<rparr>) @ Q)"
    using c_mid(2) [OF assms, of ?H Q x] by (simp add: ent_bytes_def)
qed

subsection \<open>A round of the iteration\<close>

lemma u32_ops:
  "a + b < 4294967296 \<Longrightarrow> u32_add a b = a + b" "b \<le> a \<Longrightarrow> a < 4294967296 \<Longrightarrow> u32_sub a b = a - b" "n \<le> INT_MAX \<Longrightarrow> as_int n = int n"
proof -
  show "u32_add a b = a + b" if "a + b < 4294967296" using that by (simp add: u32_add_def)
  show "u32_sub a b = a - b" if "b \<le> a" "a < 4294967296"
  proof -
    have "a + (4294967296 - b) = (a - b) + 4294967296" using that by simp
    then have "(a + (4294967296 - b)) mod 4294967296 = (a - b) mod 4294967296" by simp
    with that show ?thesis by (simp add: u32_sub_def)
  qed
  show "as_int n = int n" if "n \<le> INT_MAX" using that by (simp add: as_int_def)
qed

lemma rec_raw:
  assumes "ent_ok bs e" "bs \<le> 65536" "d_rec e < 65536"
  shows "unat (d_raw e) = d_rec e"
proof (cases "bs < 65536")
  case True
  with assms show ?thesis by (simp add: ent_ok_def rec_dec_def)
next
  case False
  with assms have r: "unat (d_raw e) \<noteq> 65535" "unat (d_raw e) \<noteq> 0"
    "(unat (d_raw e) AND 65532) OR push_bit 16 (unat (d_raw e) AND 3) = d_rec e"
    by (auto simp: ent_ok_def rec_dec_def split: if_splits)
  have lo: "bit (unat (d_raw e)) i \<Longrightarrow> i < 16" for i
    using bit_nat_less [of "unat (d_raw e)" 16 i] unat_u16_less [of "d_raw e"] by (simp only: power_numeral_reduce) simp
  have hi: "bit (d_rec e) i \<Longrightarrow> 2 \<le> i \<and> i < 16" for i
    using low_bits_clear [of "d_rec e" i] bit_nat_less [of "d_rec e" 16 i] assms by (simp add: ent_ok_def)
  have b: "bit (d_rec e) i \<longleftrightarrow> 2 \<le> i \<and> i < 16 \<and> bit (unat (d_raw e)) i \<or> 16 \<le> i \<and> i < 18 \<and> bit (unat (d_raw e)) (i - 16)" for i
    unfolding r(3) [symmetric] bit_or_iff bit_and_iff bit_push_bit_iff bit_65532 bit_3 possible_bit_def by auto
  have "\<not> bit (unat (d_raw e)) i" if "i < 2" for i using b [of "16 + i"] hi [of "16 + i"] that by auto
  then show ?thesis by (intro bit_eqI) (metis b hi lo not_le)
qed

text \<open>The situation at an entry: the iteration has reached the end of \<open>P\<close>.\<close>

definition at_entry :: "filsys \<Rightarrow> u8 list \<Rightarrow> dent \<Rightarrow> u8 list \<Rightarrow> bool" where
  "at_entry fs P e Q \<longleftrightarrow> unat (fs_blocksize fs) \<le> 65536 \<and> ent_ok (unat (fs_blocksize fs)) e
     \<and> length P + d_rec e + length Q = unat (fs_blocksize fs)"

definition csum_bytes :: "filsys \<Rightarrow> nat" where
  "csum_bytes fs = (if ext2fs_has_feature_metadata_csum (fs_super fs) then 12 else 0)"

definition tail_at :: "filsys \<Rightarrow> u8 list \<Rightarrow> dent \<Rightarrow> bool" where
  "tail_at fs P e \<longleftrightarrow> ext2fs_has_feature_metadata_csum (fs_super fs) \<and> length P + 12 = unat (fs_blocksize fs) \<and> d_nl e = 0xDE00"

lemma tail_test:
  assumes "at_entry fs P e Q"
  shows "(length P = u32_sub (unat (fs_blocksize fs)) (csum_bytes fs) \<and> unat (d_raw e) = csum_bytes fs \<and> d_nl e = 0xDE00) \<longleftrightarrow> tail_at fs P e"
proof -
  have bs: "unat (fs_blocksize fs) \<le> 65536" and e: "ent_ok (unat (fs_blocksize fs)) e" "12 \<le> d_rec e"
    and len: "length P + d_rec e + length Q = unat (fs_blocksize fs)" using assms by (auto simp: at_entry_def ent_ok_def)
  have sub: "u32_sub (unat (fs_blocksize fs)) (csum_bytes fs) = unat (fs_blocksize fs) - csum_bytes fs"
    using e(2) len by (intro u32_ops(2)) (simp_all add: csum_bytes_def)
  show ?thesis
  proof
    assume "length P = u32_sub (unat (fs_blocksize fs)) (csum_bytes fs) \<and> unat (d_raw e) = csum_bytes fs \<and> d_nl e = 0xDE00"
    with sub e(2) len show "tail_at fs P e" by (auto simp: tail_at_def csum_bytes_def split: if_splits)
  next
    assume t: "tail_at fs P e"
    then have "d_rec e = 12" using e(2) len by (simp add: tail_at_def)
    with rec_raw [OF e(1) bs] have "unat (d_raw e) = 12" by simp
    with t sub show "length P = u32_sub (unat (fs_blocksize fs)) (csum_bytes fs) \<and> unat (d_raw e) = csum_bytes fs \<and> d_nl e = 0xDE00"
      by (auto simp: tail_at_def csum_bytes_def)
  qed
qed

lemma dir_loop_step:
  fixes func :: "'s dir_func" and dir flags :: u32 and P Q :: "u8 list" and e :: dent
  assumes at: "at_entry fs P e Q" and fl: "flags AND 8 = 0" "flags AND 2 = 0"
  defines "loop \<equiv> dir_block_loop fs func dir flags (unat (fs_blocksize fs)) (csum_bytes fs)" and "buf \<equiv> P @ ent_bytes e @ Q"
  shows "loop buf priv entry (length P) (length P) changed =
    (if d_ino e = 0 \<and> (if tail_at fs P e then flags AND 4 = 0 else flags AND 1 = 0)
     then loop buf priv entry (length P + d_rec e) (length P + d_rec e) changed
     else do {
       let entry = (if d_ino e = 0 \<and> tail_at fs P e then 5 else entry);
       (ret, buf, priv) \<leftarrow> func dir entry (length P) (unat (fs_blocksize fs)) buf priv;
       let entry = (if entry < 3 then entry + 1 else entry);
       r \<leftarrow> (if ret AND 1 \<noteq> 0 then ext2fs_get_rec_len fs buf (length P) else Some (Inr (d_rec e)));
       case r of
         Inl _ \<Rightarrow> Some (Block_Unread, changed, buf, priv)
       | Inr rec_len \<Rightarrow>
           let changed = (changed \<or> ret AND 1 \<noteq> 0)
           in if ret AND 2 \<noteq> 0 then Some (Block_Stop, changed, buf, priv)
              else loop buf priv entry (u32_add (length P) rec_len) (u32_add (length P) rec_len) changed })"
proof -
  have bs: "unat (fs_blocksize fs) \<le> 65536" and e: "rec_dec (unat (fs_blocksize fs)) (d_raw e) = d_rec e" "12 \<le> d_rec e" "d_rec e mod 4 = 0" "d_len e + 8 \<le> d_rec e"
    and len: "length P + d_rec e + length Q = unat (fs_blocksize fs)" using at by (auto simp: at_entry_def ent_ok_def)
  have n: "u32_sub (unat (fs_blocksize fs)) 8 = unat (fs_blocksize fs) - 8" "u32_add (length P) (d_rec e) = length P + d_rec e" "as_int (d_rec e) = int (d_rec e)"
    using bs e(2) len by (auto intro!: u32_ops)
  have inside: "length P < unat (fs_blocksize fs) - 8" using e(2) len by simp
  have g: "ext2fs_get_rec_len fs buf (length P) = Some (Inr (d_rec e))" "ext2fs_dirent_name_len buf (length P) = Some (d_len e)"
    "get32 buf (length P) = Some (d_ino e)" "get16 buf (length P + 4) = Some (d_raw e)" "get16 buf (length P + 6) = Some (d_nl e)"
    by (simp_all add: buf_def get_rec_len_eq ent_get e(1) ext2fs_dirent_name_len_def d_len_def)
  have nx: "next_offset fs flags b o' r = Some (u32_add o' r)" for b o' r using fl(2) by (simp add: next_offset_def)
  have good: "\<not> (length P + d_rec e > unat (fs_blocksize fs) \<or> d_rec e < 8 \<or> d_rec e mod 4 \<noteq> 0 \<or> int (d_len e) + 8 > int (d_rec e))"
    using e len by simp
  show ?thesis
    unfolding loop_def
    by (subst dir_block_loop.simps)
      (simp only: n inside g nx good tail_test [OF at] fl(1) Let_def if_True if_False simp_thms Option.bind.simps sum.case less_irrefl prod.case)
qed

subsection \<open>Searching\<close>

lemma c_strneq_eq:
  "i + n \<le> length a \<Longrightarrow> j + n \<le> length b \<Longrightarrow> 0 \<notin> set (take n (drop i a)) \<Longrightarrow>
    c_strneq a i b j n = Some (take n (drop i a) = take n (drop j b))"
proof (induction n arbitrary: i j)
  case (Suc n)
  then have c: "take (Suc n) (drop i a) = a ! i # take n (drop (Suc i) a)" "take (Suc n) (drop j b) = b ! j # take n (drop (Suc j) b)"
    by (simp_all add: Cons_nth_drop_Suc [symmetric])
  with Suc show ?case by simp
qed simp

lemma ent_name:
  assumes "d_len e + 8 \<le> d_rec e"
  shows "take (d_len e) (drop (length P + 8) (P @ ent_bytes e @ Q)) = d_name e" "length (d_name e) = d_len e"
  using assms by (simp_all add: ent_bytes_def d_name_def d_rec_def)

text \<open>Comparing a name with the name of an entry.\<close>

lemma name_compare:
  assumes "ent_ok bs e" "0 \<notin> set nm"
  shows "(if length nm \<noteq> d_len e then Some False else c_strneq (nm @ z) 0 (P @ ent_bytes e @ Q) (length P + 8) (d_len e)) = Some (nm = d_name e)"
proof (cases "length nm = d_len e")
  case True
  have l: "d_len e + 8 \<le> d_rec e" using assms(1) by (simp add: ent_ok_def)
  have "c_strneq (nm @ z) 0 (P @ ent_bytes e @ Q) (length P + 8) (d_len e)
      = Some (take (d_len e) (drop 0 (nm @ z)) = take (d_len e) (drop (length P + 8) (P @ ent_bytes e @ Q)))"
    by (rule c_strneq_eq) (use True l assms(2) in simp_all)
  with True ent_name [OF l] show ?thesis by simp
next
  case False
  then have "nm \<noteq> d_name e" using ent_name(2) [of e] assms(1) by (auto simp: ent_ok_def)
  with False show ?thesis by simp
qed

definition dir_map :: "dent list \<Rightarrow> u8 list \<Rightarrow> u32 option" where
  "dir_map es = map_of (map (\<lambda>(i, n, t). (n, i)) (live es))"

lemma dir_map_simps [simp]: "dir_map [] nm = None"
    "dir_map (e # es) nm = (if d_ino e \<noteq> 0 \<and> d_name e = nm then Some (d_ino e) else dir_map es nm)"
  by (simp_all add: dir_map_def)

definition chain_from :: "filsys \<Rightarrow> u8 list \<Rightarrow> dent list \<Rightarrow> bool" where
  "chain_from fs P es \<longleftrightarrow> 12 \<le> unat (fs_blocksize fs) \<and> unat (fs_blocksize fs) \<le> 65536 \<and> (\<forall>e \<in> set es. ent_ok (unat (fs_blocksize fs)) e)
     \<and> length P + sum_list (map d_rec es) = unat (fs_blocksize fs)"

lemma chain_from_Cons: "chain_from fs P (e # es) \<longleftrightarrow> at_entry fs P e (block_of es) \<and> chain_from fs (P @ ent_bytes e) es"
  by (auto simp: chain_from_def at_entry_def ent_ok_def)

lemma dir_loop_end:
  assumes "chain_from fs P []"
  shows "dir_block_loop fs func dir flags (unat (fs_blocksize fs)) c buf priv entry n (length P) changed = Some (Block_End, changed, buf, priv)"
proof -
  have "u32_sub (unat (fs_blocksize fs)) 8 = unat (fs_blocksize fs) - 8" using assms by (intro u32_ops) (simp_all add: chain_from_def)
  with assms have "\<not> length P < u32_sub (unat (fs_blocksize fs)) 8" by (simp add: chain_from_def)
  then show ?thesis by (subst dir_block_loop.simps) (simp only: if_False)
qed

lemma lookup_proc_eq:
  assumes at: "at_entry fs P e Q" and nm: "0 \<notin> set nm" "lk_name ls = nm @ z" "lk_len ls = length nm"
  shows "lookup_proc dir k (length P) b (P @ ent_bytes e @ Q) ls =
    Some (if d_name e = nm then (2, P @ ent_bytes e @ Q, ls\<lparr>lk_inode := d_ino e, lk_found := lk_found ls + 1\<rparr>) else (0, P @ ent_bytes e @ Q, ls))"
proof -
  have e: "ent_ok (unat (fs_blocksize fs)) e" using at by (simp add: at_entry_def)
  have l: "ext2fs_dirent_name_len (P @ ent_bytes e @ Q) (length P) = Some (d_len e)" by (simp add: ext2fs_dirent_name_len_def ent_get d_len_def)
  from name_compare [OF e nm(1), of z P Q] show ?thesis
    by (auto simp: lookup_proc_def l nm(2,3) ent_get split: if_splits)
qed

lemma lookup_loop:
  assumes nm: "0 \<notin> set nm" "lk_name ls = nm @ z" "lk_len ls = length nm" and ch: "chain_from fs P es"
  shows "dir_block_loop fs lookup_proc dir 0 (unat (fs_blocksize fs)) (csum_bytes fs) (P @ block_of es) ls entry (length P) (length P) changed =
    Some (case dir_map es nm of None \<Rightarrow> (Block_End, changed, P @ block_of es, ls)
      | Some i \<Rightarrow> (Block_Stop, changed, P @ block_of es, ls\<lparr>lk_inode := i, lk_found := lk_found ls + 1\<rparr>))"
  using ch
proof (induction es arbitrary: P entry)
  case Nil
  then show ?case using dir_loop_end [OF Nil] by simp
next
  case (Cons e es)
  then have at: "at_entry fs P e (block_of es)" and ch: "chain_from fs (P @ ent_bytes e) es" by (simp_all add: chain_from_Cons)
  have add: "u32_add (length P) (d_rec e) = length P + d_rec e" using at by (intro u32_ops) (simp add: at_entry_def)
  note IH = Cons.IH [OF ch, simplified]
  from dir_loop_step [OF at, of 0 lookup_proc] show ?case
    by (simp add: lookup_proc_eq [OF at nm] IH add split: option.split)
qed

subsection \<open>Removing\<close>

text \<open>Two neighbouring entries become one when the first is lengthened.\<close>

definition d_join :: "u16 \<Rightarrow> dent \<Rightarrow> dent \<Rightarrow> dent" where
  "d_join raw e f = e\<lparr>d_raw := raw, d_body := d_body e @ ent_bytes f\<rparr>"

lemma d_join_bytes: "ent_bytes (d_join raw e f) = ent_bytes (e\<lparr>d_raw := raw\<rparr>) @ ent_bytes f"
  by (simp add: d_join_def ent_bytes_def)

lemma d_join_simps [simp]: "d_rec (d_join raw e f) = d_rec e + d_rec f" "d_ino (d_join raw e f) = d_ino e" "d_nl (d_join raw e f) = d_nl e"
    "d_raw (d_join raw e f) = raw" "d_len (d_join raw e f) = d_len e"
  by (simp_all add: d_join_def d_rec_def d_len_def)

lemma d_join_name: "ent_ok bs e \<Longrightarrow> d_name (d_join raw e f) = d_name e"
  by (simp add: d_join_def d_name_def ent_ok_def d_rec_def d_len_def)

lemma mod4_add: "a mod 4 = 0 \<Longrightarrow> b mod 4 = 0 \<Longrightarrow> (a + b) mod 4 = (0 :: nat)"
  by presburger

lemma d_join_ok:
  assumes "ent_ok bs e" "ent_ok bs f" "rec_dec bs raw = d_rec e + d_rec f"
  shows "ent_ok bs (d_join raw e f)"
  using assms by (auto simp: ent_ok_def mod4_add)

lemma raw_sum_dec:
  assumes ok: "ent_ok bs e" "ent_ok bs f" and bs: "bs \<le> 65536" and fit: "d_rec e + d_rec f \<le> bs"
  shows "rec_dec bs (d_raw e + d_raw f) = d_rec e + d_rec f"
proof -
  let ?s = "d_rec e + d_rec f"
  have r: "12 \<le> d_rec e" "12 \<le> d_rec f" "?s mod 4 = 0" using ok by (auto simp: ent_ok_def mod4_add)
  have raw: "unat (d_raw e) = d_rec e" "unat (d_raw f) = d_rec f" using rec_raw ok bs fit r by simp_all
  have u: "unat (d_raw e + d_raw f) = ?s mod 65536" by (simp add: unat_word_ariths raw)
  show ?thesis
  proof (cases "?s = 65536")
    case True
    with u fit bs show ?thesis by (simp add: rec_dec_def)
  next
    case False
    with fit bs have lt: "?s < 65536" by simp
    have "?s \<noteq> 65535" "?s \<noteq> 0" using r by auto
    with lt u r(3) and_65532 [OF r(3) lt] show ?thesis by (auto simp: rec_dec_def and_3_nat)
  qed
qed

definition ul_match :: "unlink_struct \<Rightarrow> dent \<Rightarrow> bool" where
  "ul_match ls e \<longleftrightarrow> (case ul_name ls of None \<Rightarrow> True | Some n \<Rightarrow> d_name e = take (ul_namelen ls) n)
     \<and> (if ul_flags ls AND 1 = 0 \<and> ul_inode ls \<noteq> 0 then d_ino e = ul_inode ls else d_ino e \<noteq> 0)"

text \<open>The name that is searched: a string of the given length without a terminating zero inside.\<close>

definition ul_ok :: "unlink_struct \<Rightarrow> bool" where
  "ul_ok ls \<longleftrightarrow> (case ul_name ls of None \<Rightarrow> True | Some n \<Rightarrow> ul_namelen ls \<le> length n \<and> 0 \<notin> set (take (ul_namelen ls) n))"

lemma ul_prev_update [simp]: "ul_ok (ls\<lparr>ul_prev := x\<rparr>) = ul_ok ls" "ul_match (ls\<lparr>ul_prev := x\<rparr>) = ul_match ls"
  by (cases "ul_name ls"; auto simp: ul_ok_def ul_match_def fun_eq_iff)+

lemma unlink_proc_eq:
  assumes at: "at_entry fs P e Q" and ls: "ul_ok ls"
  defines "buf \<equiv> P @ ent_bytes e @ Q" and "ls' \<equiv> ls\<lparr>ul_prev := Some (length P)\<rparr>"
  shows "\<not> ul_match ls e \<Longrightarrow> unlink_proc dir k (length P) b buf ls = Some (0, buf, ls')"
    and "ul_match ls e \<Longrightarrow> P = [] \<Longrightarrow> unlink_proc dir k (length P) b buf ls = Some (3, ent_bytes (e\<lparr>d_ino := 0\<rparr>) @ Q, ls'\<lparr>ul_done := ul_done ls + 1\<rparr>)"
    and "ul_match ls e \<Longrightarrow> P = P0 @ ent_bytes p \<Longrightarrow> ul_prev ls = Some (length P0) \<Longrightarrow>
      unlink_proc dir k (length P) b buf ls = Some (3, P0 @ ent_bytes (d_join (d_raw p + d_raw e) p e) @ Q, ls'\<lparr>ul_done := ul_done ls + 1\<rparr>)"
proof -
  have e: "ent_ok (unat (fs_blocksize fs)) e" using at by (simp add: at_entry_def)
  have l: "ext2fs_dirent_name_len buf (length P) = Some (d_len e)" by (simp add: buf_def ext2fs_dirent_name_len_def ent_get d_len_def)
  have g: "get32 buf (length P) = Some (d_ino e)" by (simp add: buf_def ent_get)
  have d: "(case ul_name ls of None \<Rightarrow> Some False
      | Some name \<Rightarrow> do {
          nl \<leftarrow> ext2fs_dirent_name_len buf (length P);
          if nl \<noteq> ul_namelen ls then Some True else map_option Not (c_strneq name 0 buf (length P + 8) nl) })
    = Some (\<not> (case ul_name ls of None \<Rightarrow> True | Some n \<Rightarrow> d_name e = take (ul_namelen ls) n))"
  proof (cases "ul_name ls")
    case (Some n)
    let ?m = "take (ul_namelen ls) n"
    have m: "0 \<notin> set ?m" "length ?m = ul_namelen ls" using ls Some by (auto simp: ul_ok_def)
    from name_compare [OF e m(1), of "drop (ul_namelen ls) n" P Q] m(2) Some show ?thesis
      by (auto simp: l buf_def [symmetric])
  qed simp
  have sel: "ul_name ls' = ul_name ls" "ul_namelen ls' = ul_namelen ls" "ul_flags ls' = ul_flags ls" "ul_inode ls' = ul_inode ls" "ul_done ls' = ul_done ls"
    by (simp_all add: ls'_def)
  have run: "unlink_proc dir k (length P) b buf ls = (if \<not> ul_match ls e then Some (0, buf, ls') else do {
      buf \<leftarrow> (if length P \<noteq> 0 then do { p \<leftarrow> ul_prev ls; x \<leftarrow> get16 buf (p + 4); y \<leftarrow> get16 buf (length P + 4); put16 buf (p + 4) (x + y) }
        else put32 buf (length P) 0);
      Some (3, buf, ls'\<lparr>ul_done := ul_done ls + 1\<rparr>) })"
    unfolding unlink_proc_def Let_def ls'_def [symmetric] sel d Option.bind.simps g ul_match_def by auto
  show "unlink_proc dir k (length P) b buf ls = Some (0, buf, ls')" if "\<not> ul_match ls e"
    using that by (simp add: run)
  show "unlink_proc dir k (length P) b buf ls = Some (3, ent_bytes (e\<lparr>d_ino := 0\<rparr>) @ Q, ls'\<lparr>ul_done := ul_done ls + 1\<rparr>)" if "ul_match ls e" "P = []"
    using that ent_put(1) [of "[]" e Q 0] unfolding run by (simp add: buf_def)
  show "unlink_proc dir k (length P) b buf ls = Some (3, P0 @ ent_bytes (d_join (d_raw p + d_raw e) p e) @ Q, ls'\<lparr>ul_done := ul_done ls + 1\<rparr>)"
    if m: "ul_match ls e" and P: "P = P0 @ ent_bytes p" "ul_prev ls = Some (length P0)"
  proof -
    have b0: "buf = P0 @ ent_bytes p @ ent_bytes e @ Q" using P(1) by (simp add: buf_def)
    have r: "get16 buf (length P0 + 4) = Some (d_raw p)" "get16 buf (length P + 4) = Some (d_raw e)"
      using ent_get(2) [of P0 p "ent_bytes e @ Q"] ent_get(2) [of P e Q] by (simp_all add: b0 P(1))
    have w: "put16 buf (length P0 + 4) x = Some (P0 @ ent_bytes (d_join x p e) @ Q)" for x
      using ent_put(2) [of P0 p "ent_bytes e @ Q" x] by (simp add: b0 d_join_bytes)
    have "length P \<noteq> 0" using P(1) by (simp add: d_rec_def)
    with m P(2) r w show ?thesis by (simp add: run)
  qed
qed

primrec unlink_from :: "(dent \<Rightarrow> bool) \<Rightarrow> dent \<Rightarrow> dent list \<Rightarrow> dent list" where
  "unlink_from hit p [] = [p]"
| "unlink_from hit p (e # es) = (if hit e then d_join (d_raw p + d_raw e) p e # es else p # unlink_from hit e es)"

primrec unlink_first :: "(dent \<Rightarrow> bool) \<Rightarrow> dent list \<Rightarrow> dent list" where
  "unlink_first hit [] = []"
| "unlink_first hit (e # es) = (if hit e then e\<lparr>d_ino := 0\<rparr> # es else unlink_from hit e es)"

text \<open>How an iteration that visits unused entries (flag 1) goes on.\<close>

lemma visit_step:
  fixes func :: "'s dir_func" and dir :: u32 and P Q :: "u8 list" and e :: dent
  assumes at: "at_entry fs P e Q" and vis: "\<not> (d_ino e = 0 \<and> tail_at fs P e)"
  defines "loop \<equiv> dir_block_loop fs func dir 1 (unat (fs_blocksize fs)) (csum_bytes fs)" and "buf \<equiv> P @ ent_bytes e @ Q"
  assumes f: "func dir entry (length P) (unat (fs_blocksize fs)) buf priv = Some (ret, buf', priv')"
    and r: "ret AND 1 \<noteq> 0 \<Longrightarrow> ext2fs_get_rec_len fs buf' (length P) = Some (Inr rec_len)" "ret AND 1 = 0 \<Longrightarrow> rec_len = d_rec e"
  shows "ret AND 2 \<noteq> 0 \<Longrightarrow> loop buf priv entry (length P) (length P) changed = Some (Block_Stop, changed \<or> ret AND 1 \<noteq> 0, buf', priv')"
    and "ret AND 2 = 0 \<Longrightarrow> length P + rec_len < 4294967296 \<Longrightarrow> loop buf priv entry (length P) (length P) changed =
      loop buf' priv' (if entry < 3 then entry + 1 else entry) (length P + rec_len) (length P + rec_len) (changed \<or> ret AND 1 \<noteq> 0)"
proof -
  have rl: "(if ret AND 1 \<noteq> 0 then ext2fs_get_rec_len fs buf' (length P) else Some (Inr (d_rec e))) = Some (Inr rec_len)" using r by simp
  have sk: "(d_ino e = 0 \<and> (if tail_at fs P e then (1 :: u32) AND 4 = 0 else (1 :: u32) AND 1 = 0)) = False" using vis by simp
  note run = dir_loop_step [OF at, of 1 func dir priv entry changed, folded loop_def buf_def]
  have go: "loop buf priv entry (length P) (length P) changed = (if ret AND 2 \<noteq> 0 then Some (Block_Stop, changed \<or> ret AND 1 \<noteq> 0, buf', priv')
      else loop buf' priv' (if entry < 3 then entry + 1 else entry) (u32_add (length P) rec_len) (u32_add (length P) rec_len) (changed \<or> ret AND 1 \<noteq> 0))"
    using vis by (subst run) (simp_all only: sk if_False f rl Let_def Option.bind.simps prod.case sum.case, simp_all)
  show "ret AND 2 \<noteq> 0 \<Longrightarrow> loop buf priv entry (length P) (length P) changed = Some (Block_Stop, changed \<or> ret AND 1 \<noteq> 0, buf', priv')"
    by (simp add: go)
  show "ret AND 2 = 0 \<Longrightarrow> length P + rec_len < 4294967296 \<Longrightarrow> loop buf priv entry (length P) (length P) changed =
      loop buf' priv' (if entry < 3 then entry + 1 else entry) (length P + rec_len) (length P + rec_len) (changed \<or> ret AND 1 \<noteq> 0)"
    by (simp add: go u32_ops(1))
qed

lemma skip_tail:
  fixes func :: "'s dir_func" and dir :: u32
  assumes at: "at_entry fs P e (block_of es)" and ch: "chain_from fs (P @ ent_bytes e) es" and tl: "d_ino e = 0" "tail_at fs P e"
  shows "es = []" "dir_block_loop fs func dir 1 (unat (fs_blocksize fs)) (csum_bytes fs) (P @ block_of (e # es)) priv entry (length P) (length P) changed
    = Some (Block_End, changed, P @ block_of (e # es), priv)"
proof -
  have "length P + d_rec e + sum_list (map d_rec es) = unat (fs_blocksize fs)" "12 \<le> d_rec e" "length P + 12 = unat (fs_blocksize fs)"
    using tl(2) at by (simp_all add: at_entry_def tail_at_def ent_ok_def)
  then have "sum_list (map d_rec es) = 0" by linarith
  then show es: "es = []" using ch by (cases es) (auto simp: chain_from_def ent_ok_def)
  from dir_loop_step [OF at, of 1 func dir priv entry changed] tl dir_loop_end [of fs "P @ ent_bytes e", simplified] ch es
  show "dir_block_loop fs func dir 1 (unat (fs_blocksize fs)) (csum_bytes fs) (P @ block_of (e # es)) priv entry (length P) (length P) changed
    = Some (Block_End, changed, P @ block_of (e # es), priv)" by simp
qed

lemma unlink_loop_from:
  assumes "chain_from fs (P @ ent_bytes p) es" "ul_ok ls" "ul_prev ls = Some (length P)"
  shows "\<exists>ls'. dir_block_loop fs unlink_proc dir 1 (unat (fs_blocksize fs)) (csum_bytes fs) (P @ block_of (p # es)) ls entry
        (length P + d_rec p) (length P + d_rec p) changed =
      Some (if \<exists>m \<in> set es. ul_match ls m then (Block_Stop, True, P @ block_of (unlink_from (ul_match ls) p es), ls')
            else (Block_End, changed, P @ block_of (p # es), ls'))
    \<and> ul_done ls' = ul_done ls + (if \<exists>m \<in> set es. ul_match ls m then 1 else 0)"
  using assms
proof (induction es arbitrary: P p ls entry)
  case Nil
  then show ?case by (simp add: dir_loop_end [OF Nil(1), simplified])
next
  case (Cons e es)
  let ?P = "P @ ent_bytes p"
  from Cons.prems have at: "at_entry fs ?P e (block_of es)" and ch: "chain_from fs (?P @ ent_bytes e) es" by (simp_all add: chain_from_Cons)
  note proc = unlink_proc_eq [OF at Cons.prems(2)]
  have small: "length ?P + d_rec e < 4294967296" using at by (simp add: at_entry_def)
  consider "d_ino e = 0" "tail_at fs ?P e" | "\<not> (d_ino e = 0 \<and> tail_at fs ?P e)" "ul_match ls e"
    | "\<not> (d_ino e = 0 \<and> tail_at fs ?P e)" "\<not> ul_match ls e" by blast
  then show ?case
  proof cases
    case 1
    then have "\<not> ul_match ls e" by (auto simp: ul_match_def split: if_splits)
    with skip_tail(1) [OF at ch 1] skip_tail(2) [OF at ch 1, of unlink_proc dir ls entry changed] show ?thesis by simp
  next
    case 2
    have rd: "ext2fs_get_rec_len fs (P @ ent_bytes (d_join (d_raw p + d_raw e) p e) @ block_of es) (length ?P)
        = Some (Inr (rec_dec (unat (fs_blocksize fs)) (d_raw e)))"
      using ent_get(2) [of "P @ ent_bytes (p\<lparr>d_raw := d_raw p + d_raw e\<rparr>)" e "block_of es"] by (simp add: get_rec_len_eq d_join_bytes)
    from visit_step(1) [OF at 2(1), where func = unlink_proc and changed = changed and entry = entry and dir = dir,
        OF proc(3) [OF 2(2) refl Cons.prems(3)] rd] 2(2) show ?thesis by simp
  next
    case 3
    let ?ls = "ls\<lparr>ul_prev := Some (length ?P)\<rparr>"
    have ok: "ul_ok ?ls" "ul_match ?ls = ul_match ls" using Cons.prems(2) by simp_all
    let ?entry = "if entry < 3 then entry + 1 else entry" and ?loop = "dir_block_loop fs unlink_proc dir 1 (unat (fs_blocksize fs)) (csum_bytes fs)"
    have p': "ul_prev ?ls = Some (length ?P)" by simp
    from Cons.IH [OF ch ok(1) p', of ?entry, unfolded ok(2)] obtain ls' where
      L: "?loop (?P @ block_of (e # es)) ?ls ?entry (length ?P + d_rec e) (length ?P + d_rec e) changed =
        Some (if \<exists>m \<in> set es. ul_match ls m then (Block_Stop, True, ?P @ block_of (unlink_from (ul_match ls) e es), ls')
              else (Block_End, changed, ?P @ block_of (e # es), ls'))"
        "ul_done ls' = ul_done ls + (if \<exists>m \<in> set es. ul_match ls m then 1 else 0)" by auto
    have "?loop (?P @ ent_bytes e @ block_of es) ls entry (length ?P) (length ?P) changed =
        ?loop (?P @ ent_bytes e @ block_of es) ?ls ?entry (length ?P + d_rec e) (length ?P + d_rec e) (changed \<or> (0 :: u32) AND 1 \<noteq> 0)"
      by (rule visit_step(2) [OF at 3(1), where func = unlink_proc, OF proc(1) [OF 3(2)]]) (use small in simp_all)
    with L 3(2) show ?thesis by (intro exI [of _ ls']) simp
  qed
qed

subsection \<open>Inserting\<close>

lemma c_strncpy_eq:
  "i + n \<le> length name \<Longrightarrow> d + n \<le> length buf \<Longrightarrow> 0 \<notin> set (take n (drop i name)) \<Longrightarrow>
    c_strncpy buf d name i n = c_put buf d (take n (drop i name))"
proof (induction n arbitrary: buf d i)
  case (Suc n)
  then have c: "take (Suc n) (drop i name) = name ! i # take n (drop (Suc i) name)"
    by (simp add: Cons_nth_drop_Suc [symmetric])
  have l: "length (take n (drop (Suc i) name)) = n" using Suc.prems by simp
  have "take (Suc d) (buf[d := name ! i]) = take d buf @ [name ! i]" using Suc.prems by (simp add: take_Suc_conv_app_nth)
  moreover have "drop (Suc (d + n)) (buf[d := name ! i]) = drop (Suc (d + n)) buf" by simp
  ultimately have "c_put (buf[d := name ! i]) (Suc d) (take n (drop (Suc i) name)) = c_put buf d (name ! i # take n (drop (Suc i) name))"
    using Suc.prems l by (simp add: c_put_def)
  with Suc c show ?case by auto
qed (simp add: c_put_def)

lemma bytes_ent:
  assumes "8 \<le> length xs"
  obtains e where "xs = ent_bytes e" "d_body e = drop 8 xs"
proof
  let ?e = "\<lparr>d_ino = of_le32 (take 4 xs), d_raw = of_le16 (take 2 (drop 4 xs)), d_nl = of_le16 (take 2 (drop 6 xs)), d_body = drop 8 xs\<rparr>"
  have "drop 4 xs = take 2 (drop 4 xs) @ drop 6 xs" "drop 6 xs = take 2 (drop 6 xs) @ drop 8 xs"
    using append_take_drop_id [of 2 "drop 4 xs"] append_take_drop_id [of 2 "drop 6 xs"] by simp_all
  then have "xs = take 4 xs @ take 2 (drop 4 xs) @ take 2 (drop 6 xs) @ drop 8 xs" by (metis append_take_drop_id)
  with assms show "xs = ent_bytes ?e" by (simp add: ent_bytes_def)
  show "d_body ?e = drop 8 xs" by simp
qed

lemma byte_masks: "(0xff :: u16) = mask 8" "(0xff00 :: u16) = NOT (mask 8)"
  by (simp_all add: mask_eq_exp_minus_1 not_eq_complement)

lemma name_len_words:
  "(((x :: u16) AND 0xff00) OR (of_nat 0 AND 0xff)) AND 0xff OR push_bit 8 (of_nat 0) = 0"
  "n < 256 \<Longrightarrow> unat ((((x :: u16) AND 0xff00) OR (of_nat n AND 0xff)) AND 0xff) = n"
  "(((y :: u16) AND 0xff) OR push_bit 8 (of_nat t)) AND 0xff = y AND 0xff"
  "t < 256 \<Longrightarrow> drop_bit 8 (((y :: u16) AND 0xff) OR push_bit 8 (of_nat t)) = of_nat t"
proof -
  have m: "(((x :: u16) AND NOT (mask 8)) OR (w AND mask 8)) AND mask 8 = take_bit 8 w" for w
    by (rule bit_word_eqI) (auto simp: bit_simps)
  show "(((x :: u16) AND 0xff00) OR (of_nat 0 AND 0xff)) AND 0xff OR push_bit 8 (of_nat 0) = 0"
    unfolding byte_masks m by simp
  show "unat ((((x :: u16) AND 0xff00) OR (of_nat n AND 0xff)) AND 0xff) = n" if "n < 256"
    unfolding byte_masks m using that by (simp add: take_bit_of_nat unat_of_nat take_bit_nat_eq_self)
  show "(((y :: u16) AND 0xff) OR push_bit 8 (of_nat t)) AND 0xff = y AND 0xff"
    unfolding byte_masks by (rule bit_word_eqI) (auto simp: bit_simps)
  show "drop_bit 8 (((y :: u16) AND 0xff) OR push_bit 8 (of_nat t)) = of_nat t" if "t < 256"
  proof (rule bit_word_eqI)
    fix i assume "i < LENGTH(16)"
    moreover have "bit t i \<Longrightarrow> i < 8" using bit_nat_less [of t 8 i] that by simp
    ultimately show "bit (drop_bit 8 (((y :: u16) AND 0xff) OR push_bit 8 (of_nat t))) i = bit (of_nat t :: u16) i"
      unfolding byte_masks by (auto simp: bit_simps)
  qed
qed

lemma rec_enc_small: "n < 65536 \<Longrightarrow> unat (rec_enc bs n) = n"
  by (simp add: rec_enc_def unat_of_nat take_bit_nat_eq_self)

lemma rec_enc_inv: "0 < n \<Longrightarrow> n \<le> bs \<Longrightarrow> bs \<le> 65536 \<Longrightarrow> n mod 4 = 0 \<Longrightarrow> rec_dec bs (rec_enc bs n) = n"
  using rec_enc_dec [of n bs] by simp

lemma set_rec_len_entry:
  assumes "unat (fs_blocksize fs) \<le> 65536" "n \<le> unat (fs_blocksize fs)" "n mod 4 = 0"
  shows "ext2fs_set_rec_len fs n (P @ ent_bytes e @ Q) (length P) = Some (E_OK, P @ ent_bytes (e\<lparr>d_raw := rec_enc (unat (fs_blocksize fs)) n\<rparr>) @ Q)"
  using assms by (simp add: set_rec_len_eq ent_put)

text \<open>A following unused entry is absorbed, except the tail.\<close>

fun d_absorb :: "filsys \<Rightarrow> dent \<Rightarrow> dent list \<Rightarrow> dent \<times> dent list" where
  "d_absorb fs e [] = (e, [])"
| "d_absorb fs e (n # es) = (if d_ino n = 0 \<and> \<not> (ext2fs_has_feature_metadata_csum (fs_super fs) \<and> es = [])
     then (d_join (rec_enc (unat (fs_blocksize fs)) (d_rec e + d_rec n)) e n, es) else (e, n # es))"

definition tail_last :: "filsys \<Rightarrow> dent list \<Rightarrow> bool" where
  "tail_last fs es \<longleftrightarrow> (ext2fs_has_feature_metadata_csum (fs_super fs) \<longrightarrow> es \<noteq> [] \<and> is_tail (last es))"

lemma link_absorb_eq:
  assumes at: "at_entry fs P e (block_of es)" and ch: "chain_from fs (P @ ent_bytes e) es" and tl: "tail_last fs (e # es)"
    and ab: "d_absorb fs e es = (e', es')"
  shows "link_absorb fs (length P) (unat (fs_blocksize fs)) (P @ block_of (e # es)) (d_rec e)
    = Some (E_OK, if es' = es then 0 else 1, P @ block_of (e' # es'), d_rec e')"
proof (cases es)
  case Nil
  have "length P + d_rec e = unat (fs_blocksize fs)" "unat (fs_blocksize fs) \<le> 65536" using at Nil by (simp_all add: at_entry_def)
  with Nil ab show ?thesis by (simp add: link_absorb_def as_int_def Let_def)
next
  case (Cons n r)
  define B where "B = unat (fs_blocksize fs)"
  have bs: "B \<le> 65536" "ent_ok B n" "length P + d_rec e + d_rec n + sum_list (map d_rec r) = B" "d_rec e mod 4 = 0" "12 \<le> d_rec e"
    using at ch Cons by (auto simp: at_entry_def chain_from_def ent_ok_def B_def)
  have n: "12 \<le> d_rec n" "d_rec n mod 4 = 0" using bs(2) by (simp_all add: ent_ok_def)
  have raw: "unat (d_raw n) = d_rec n" using rec_raw [OF bs(2,1)] bs(1,3,5) by simp
  define c where "c = (if ext2fs_has_feature_metadata_csum (fs_super fs) then 12 else 0 :: nat)"
  have guard: "length P + d_rec e + 8 + c < B \<longleftrightarrow> \<not> (ext2fs_has_feature_metadata_csum (fs_super fs) \<and> r = [])"
  proof (cases "r = []")
    case True
    with tl Cons bs(3) n(1) show ?thesis by (auto simp: tail_last_def is_tail_def c_def)
  next
    case False
    then obtain x s where x: "r = x # s" by (cases r) auto
    then have "12 \<le> d_rec x" using ch Cons by (simp add: chain_from_def ent_ok_def)
    with x False bs(3) n(1) show ?thesis by (auto simp: c_def)
  qed
  have g: "get32 (P @ block_of (e # es)) (length P + d_rec e) = Some (d_ino n)" "get16 (P @ block_of (e # es)) (length P + d_rec e + 4) = Some (d_raw n)"
    using ent_get(1,2) [of "P @ ent_bytes e" n "block_of r"] by (simp_all add: Cons)
  have w: "ext2fs_set_rec_len fs (d_rec e + d_rec n) (P @ block_of (e # es)) (length P)
      = Some (E_OK, P @ block_of (d_join (rec_enc B (d_rec e + d_rec n)) e n # r))"
    using set_rec_len_entry [of fs "d_rec e + d_rec n" P e "block_of es", folded B_def] bs n by (simp add: Cons d_join_bytes mod4_add)
  have i: "\<not> length P + d_rec e > INT_MAX" "\<not> length P + d_rec e + d_rec n > INT_MAX" "as_int B = int B"
    "int (length P + d_rec e) < int B - (8 + (if ext2fs_has_feature_metadata_csum (fs_super fs) then 12 else 0)) \<longleftrightarrow> length P + d_rec e + 8 + c < B"
    "int (length P + d_rec e + d_rec n) \<le> int B"
    using bs by (auto simp: as_int_def c_def)
  have run: "link_absorb fs (length P) B (P @ block_of (e # es)) (d_rec e) =
      (if length P + d_rec e + 8 + c < B \<and> d_ino n = 0
       then Some (E_OK, 1, P @ block_of (d_join (rec_enc B (d_rec e + d_rec n)) e n # r), d_rec e + d_rec n)
       else Some (E_OK, 0, P @ block_of (e # es), d_rec e))"
    unfolding link_absorb_def Let_def using i(5) by (simp only: i if_False g Option.bind.simps raw w prod.case if_True) simp
  show ?thesis
  proof (cases "d_ino n = 0 \<and> \<not> (ext2fs_has_feature_metadata_csum (fs_super fs) \<and> r = [])")
    case True
    with ab Cons run guard show ?thesis unfolding B_def [symmetric] by (auto simp: B_def)
  next
    case False
    with ab Cons run guard show ?thesis unfolding B_def [symmetric] by auto
  qed
qed

definition d_trim :: "nat \<Rightarrow> nat \<Rightarrow> dent \<Rightarrow> dent" where
  "d_trim bs m e = e\<lparr>d_raw := rec_enc bs m, d_body := take (m - 8) (d_body e)\<rparr>"

definition d_rest :: "nat \<Rightarrow> nat \<Rightarrow> dent \<Rightarrow> dent" where
  "d_rest bs m e = \<lparr>d_ino = 0, d_raw = rec_enc bs (d_rec e - m), d_nl = 0, d_body = drop m (d_body e)\<rparr>"

lemma d_split_rec: "8 \<le> m \<Longrightarrow> m + 8 \<le> d_rec e \<Longrightarrow> d_rec (d_trim bs m e) = m \<and> d_rec (d_rest bs m e) = d_rec e - m"
  by (simp add: d_trim_def d_rest_def d_rec_def)

lemma link_split_eq:
  assumes bs: "unat (fs_blocksize fs) \<le> 65536" "d_rec e \<le> unat (fs_blocksize fs)"
    and m: "8 \<le> m" "m + 8 \<le> d_rec e" "m mod 4 = 0" "d_rec e mod 4 = 0"
  shows "link_split fs (length P) (P @ ent_bytes e @ Q) m (d_rec e - m) =
    Some (E_OK, P @ ent_bytes (d_trim (unat (fs_blocksize fs)) m e) @ ent_bytes (d_rest (unat (fs_blocksize fs)) m e) @ Q)"
proof -
  let ?bs = "unat (fs_blocksize fs)" and ?t = "d_trim (unat (fs_blocksize fs)) m e"
  have "8 \<le> length (drop (m - 8) (d_body e))" using m by (simp add: d_rec_def)
  then obtain x where x: "drop (m - 8) (d_body e) = ent_bytes x" "d_body x = drop 8 (drop (m - 8) (d_body e))" by (rule bytes_ent)
  have body: "d_body x = drop m (d_body e)" using x(2) m by simp
  have split: "ent_bytes (e\<lparr>d_raw := rec_enc ?bs m\<rparr>) = ent_bytes ?t @ ent_bytes x"
    unfolding x(1) [symmetric] by (simp add: ent_bytes_def d_trim_def)
  have m': "m \<le> ?bs" "m < 65536" "(d_rec e - m) mod 4 = 0" using bs m by (auto simp: mod_0_imp_dvd dvd_imp_mod_0 dvd_diff_nat)
  let ?P = "P @ ent_bytes ?t"
  have l: "length ?P = length P + m" using d_split_rec [of m e ?bs] m by simp
  have s1: "ext2fs_set_rec_len fs m (P @ ent_bytes e @ Q) (length P) = Some (E_OK, ?P @ ent_bytes x @ Q)"
    using set_rec_len_entry [OF bs(1) m'(1) m(3)] by (simp add: split)
  have r1: "get16 (?P @ ent_bytes x @ Q) (length P + 4) = Some (rec_enc ?bs m)"
    using ent_get(2) [of P ?t "ent_bytes x @ Q"] by (simp add: d_trim_def)
  note p = ent_put [where P = ?P and Q = Q, unfolded l] and g = ent_get [where P = ?P and Q = Q, unfolded l]
  have s2: "ext2fs_dirent_set_name_len (?P @ ent_bytes y @ Q) (length P + m) k = Some (?P @ ent_bytes (y\<lparr>d_nl := (d_nl y AND 0xff00) OR (of_nat k AND 0xff)\<rparr>) @ Q)" for y k
    using p g by (simp add: ext2fs_dirent_set_name_len_def)
  have s3: "ext2fs_dirent_set_file_type (?P @ ent_bytes y @ Q) (length P + m) k = Some (?P @ ent_bytes (y\<lparr>d_nl := (d_nl y AND 0xff) OR push_bit 8 (of_nat k)\<rparr>) @ Q)" for y k
    using p g by (simp add: ext2fs_dirent_set_file_type_def)
  have s4: "ext2fs_set_rec_len fs (d_rec e - m) (?P @ ent_bytes y @ Q) (length P + m) = Some (E_OK, ?P @ ent_bytes (y\<lparr>d_raw := rec_enc ?bs (d_rec e - m)\<rparr>) @ Q)" for y
    using set_rec_len_entry [OF bs(1) _ m'(3), of ?P y Q] bs(2) l by simp
  have rest: "x\<lparr>d_ino := 0, d_nl := 0, d_raw := rec_enc ?bs (d_rec e - m)\<rparr> = d_rest ?bs m e" by (simp add: d_rest_def body)
  show ?thesis
    unfolding link_split_def s1 Option.bind.simps prod.case Let_def r1 rec_enc_small [OF m'(2)] p s2 s3 s4 name_len_words(1)
    using rest name_len_words(1) by simp
qed

definition d_fill :: "filsys \<Rightarrow> link_struct \<Rightarrow> dent \<Rightarrow> dent" where
  "d_fill fs ls e = (let nl = (d_nl e AND 0xff00) OR (of_nat (ls_namelen ls) AND 0xff);
     nl = (if ext2fs_has_feature_filetype (fs_super fs) then (nl AND 0xff) OR push_bit 8 (of_nat (unat (ls_flags ls AND 7))) else nl)
   in e\<lparr>d_ino := ls_inode ls, d_nl := nl, d_body := take (ls_namelen ls) (ls_name ls) @ drop (ls_namelen ls) (d_body e)\<rparr>)"

text \<open>The request at the start: a string of 1 to 255 characters and an inode.\<close>

definition ls_ok :: "link_struct \<Rightarrow> bool" where
  "ls_ok ls \<longleftrightarrow> ls_inode ls \<noteq> 0 \<and> ls_done ls = 0 \<and> ls_err ls = E_OK \<and> 0 < ls_namelen ls \<and> ls_namelen ls < 256 \<and> ls_namelen ls \<le> length (ls_name ls) \<and> 0 \<notin> set (take (ls_namelen ls) (ls_name ls))"

lemma link_fill_eq:
  assumes ls: "ls_namelen ls \<le> length (ls_name ls)" "0 \<notin> set (take (ls_namelen ls) (ls_name ls))" and room: "ls_namelen ls + 8 \<le> d_rec e"
  shows "link_fill fs (length P) (P @ ent_bytes e @ Q) ls = Some (P @ ent_bytes (d_fill fs ls e) @ Q)"
proof -
  let ?n = "ls_namelen ls" and ?nm = "take (ls_namelen ls) (ls_name ls)"
  have copy: "c_strncpy (P @ ent_bytes y @ Q) (length P + 8) (ls_name ls) 0 ?n = Some (P @ ent_bytes (y\<lparr>d_body := ?nm @ drop ?n (d_body y)\<rparr>) @ Q)"
    if "d_rec y = d_rec e" for y
  proof -
    have "?n \<le> length (d_body y)" using room that by (simp add: d_rec_def)
    then have b: "d_body y = take ?n (d_body y) @ drop ?n (d_body y)" "length (take ?n (d_body y)) = length ?nm" using ls by simp_all
    have "c_strncpy (P @ ent_bytes y @ Q) (length P + 8) (ls_name ls) 0 ?n = c_put (P @ ent_bytes y @ Q) (length P + 8) (take ?n (drop 0 (ls_name ls)))"
      by (rule c_strncpy_eq) (use ls room that in simp_all)
    also have "\<dots> = Some (P @ ent_bytes (y\<lparr>d_body := ?nm @ drop ?n (d_body y)\<rparr>) @ Q)"
      using c_put_mid [OF b(2), of "P @ le32 (d_ino y) @ le16 (d_raw y) @ le16 (d_nl y)" "drop ?n (d_body y) @ Q"] b(1)
      by (simp add: ent_bytes_def del: append_take_drop_id) (metis append.assoc append_take_drop_id)
    finally show ?thesis .
  qed
  show ?thesis
    by (simp add: link_fill_def ent_put ent_get ext2fs_dirent_set_name_len_def copy ext2fs_dirent_set_file_type_def d_fill_def Let_def)
      (simp add: ent_bytes_def)
qed

lemma min_rec_len:
  fixes n :: nat
  assumes "n < 256"
  shows "EXT2_DIR_REC_LEN n mod 4 = 0" "n + 8 \<le> EXT2_DIR_REC_LEN n" "0 < n \<Longrightarrow> 12 \<le> EXT2_DIR_REC_LEN n" "EXT2_DIR_REC_LEN n < n + 12"
proof -
  have e: "EXT2_DIR_REC_LEN n = (n + 11) div 4 * 4" using assms by (simp add: EXT2_DIR_REC_LEN_def)
  have d: "n + 11 = (n + 11) div 4 * 4 + (n + 11) mod 4" "(n + 11) mod 4 < 4" by simp_all
  show "EXT2_DIR_REC_LEN n mod 4 = 0" by (simp add: e)
  show "n + 8 \<le> EXT2_DIR_REC_LEN n" "EXT2_DIR_REC_LEN n < n + 12" unfolding e using d by linarith+
  show "12 \<le> EXT2_DIR_REC_LEN n" if "0 < n"
  proof -
    have "12 \<le> n + 11" using that by simp
    then have "12 div 4 \<le> (n + 11) div 4" by (rule div_le_mono)
    then show ?thesis unfolding e by simp
  qed
qed

lemma d_len_less: "d_len e < 256"
proof -
  have "d_len e \<le> unat (0xff :: u16)" unfolding d_len_def by (metis word_and_le1 word_le_nat_alt)
  then show ?thesis by simp
qed

text \<open>What is left to visit.\<close>

definition rem_ok :: "filsys \<Rightarrow> u8 list \<Rightarrow> dent list \<Rightarrow> bool" where
  "rem_ok fs P es \<longleftrightarrow> chain_from fs P es \<and> (es = [] \<or> tail_last fs es)"

lemma absorb_facts:
  assumes ok: "rem_ok fs P (e # es)" and ab: "d_absorb fs e es = (e', es')"
  shows "rem_ok fs P (e' # es')" "live (e' # es') = live (e # es)" "d_ino e' = d_ino e" "d_len e' = d_len e" "d_rec e \<le> d_rec e'"
    "length es' \<le> length es" "es' = es \<Longrightarrow> e' = e" "ext2fs_has_feature_metadata_csum (fs_super fs) \<Longrightarrow> es' = [] \<Longrightarrow> es = []"
proof -
  have "rem_ok fs P (e' # es') \<and> live (e' # es') = live (e # es) \<and> d_ino e' = d_ino e \<and> d_len e' = d_len e \<and> d_rec e \<le> d_rec e'
    \<and> length es' \<le> length es \<and> (es' = es \<longrightarrow> e' = e) \<and> (ext2fs_has_feature_metadata_csum (fs_super fs) \<longrightarrow> es' = [] \<longrightarrow> es = [])"
  proof (cases es)
    case Nil
    with ok ab show ?thesis by auto
  next
    case (Cons n r)
    show ?thesis
    proof (cases "d_ino n = 0 \<and> \<not> (ext2fs_has_feature_metadata_csum (fs_super fs) \<and> r = [])")
      case True
      let ?bs = "unat (fs_blocksize fs)"
      have o: "ent_ok ?bs e" "ent_ok ?bs n" "?bs \<le> 65536" "length P + d_rec e + d_rec n + sum_list (map d_rec r) = ?bs"
        using ok Cons by (auto simp: rem_ok_def chain_from_def)
      have "(d_rec e + d_rec n) mod 4 = 0" "0 < d_rec e" using o(1,2) by (simp_all add: ent_ok_def mod4_add)
      then have "rec_dec ?bs (rec_enc ?bs (d_rec e + d_rec n)) = d_rec e + d_rec n" using o(3,4) by (intro rec_enc_inv) simp_all
      from d_join_ok [OF o(1,2) this] have j: "ent_ok ?bs (d_join (rec_enc ?bs (d_rec e + d_rec n)) e n)" .
      with True ok ab Cons d_join_name [OF o(1)] show ?thesis
        by (auto simp: rem_ok_def chain_from_def tail_last_def)
    next
      case False
      with ok ab Cons show ?thesis by auto
    qed
  qed
  then show "rem_ok fs P (e' # es')" "live (e' # es') = live (e # es)" "d_ino e' = d_ino e" "d_len e' = d_len e" "d_rec e \<le> d_rec e'"
    "length es' \<le> length es" "es' = es \<Longrightarrow> e' = e" "ext2fs_has_feature_metadata_csum (fs_super fs) \<Longrightarrow> es' = [] \<Longrightarrow> es = []" by auto
qed

lemma link_proc_eq:
  fixes ls :: link_struct
  defines "need \<equiv> EXT2_DIR_REC_LEN (ls_namelen ls)"
  assumes ok: "rem_ok fs P (e # es)" and ls: "ls_ok ls" and ab: "d_absorb fs e es = (e', es')"
  defines "m \<equiv> EXT2_DIR_REC_LEN (d_len e')" and "bs \<equiv> unat (fs_blocksize fs)"
  shows "link_proc fs dir k (length P) bs (P @ block_of (e # es)) ls =
    Some (if d_ino e' \<noteq> 0 then if d_rec e' < m + need then (if es' = es then 0 else 1, P @ block_of (e' # es'), ls)
              else (1, P @ block_of (d_trim bs m e' # d_rest bs m e' # es'), ls)
          else if d_rec e' < need then (if es' = es then 0 else 1, P @ block_of (e' # es'), ls)
          else (3, P @ block_of (d_fill fs ls e' # es'), ls\<lparr>ls_done := 1\<rparr>))"
proof -
  have at: "at_entry fs P e (block_of es)" and ch: "chain_from fs (P @ ent_bytes e) es" and tl: "tail_last fs (e # es)"
    using ok by (simp_all add: rem_ok_def chain_from_Cons)
  have o: "ent_ok bs e'" "bs \<le> 65536" "d_rec e' \<le> bs" using absorb_facts(1) [OF ok ab] by (simp_all add: rem_ok_def chain_from_def bs_def)
  have n: "ls_namelen ls < 256" "0 < ls_namelen ls" "ls_done ls = 0" "ls_err ls = E_OK" using ls by (simp_all add: ls_ok_def)
  have rd: "ext2fs_get_rec_len fs (P @ block_of (e # es)) (length P) = Some (Inr (d_rec e))"
    using at by (simp add: get_rec_len_eq ent_get at_entry_def ent_ok_def)
  have g: "get32 (P @ block_of (e' # es')) (length P) = Some (d_ino e')" "ext2fs_dirent_name_len (P @ block_of (e' # es')) (length P) = Some (d_len e')"
    by (simp_all add: ent_get ext2fs_dirent_name_len_def d_len_def)
  note r = min_rec_len [OF d_len_less [of e'], folded m_def] and q = min_rec_len [OF n(1), folded need_def]
  have sp: "link_split fs (length P) (P @ block_of (e' # es')) m (d_rec e' - m) = Some (E_OK, P @ block_of (d_trim bs m e' # d_rest bs m e' # es'))"
    if "\<not> d_rec e' < m + need"
    using link_split_eq [of fs e' m P "block_of es'", folded bs_def] o r q that by (simp add: ent_ok_def)
  have fl: "link_fill fs (length P) (P @ block_of (e' # es')) ls = Some (P @ block_of (d_fill fs ls e' # es'))" if "\<not> d_rec e' < need"
    using link_fill_eq [of ls e' fs P "block_of es'"] ls q(2) that by (simp add: ls_ok_def)
  have id: "ls\<lparr>ls_err := E_OK\<rparr> = ls" using n(4) by simp
  note ab' = link_absorb_eq [OF at ch tl ab, folded bs_def]
  show ?thesis
    unfolding link_proc_def Let_def rd ab' g need_def [symmetric] m_def [symmetric] n(3) Option.bind.simps prod.case sum.case id
    using sp fl id n(3) by (auto simp del: block_of_simps)
qed

lemma split_facts:
  fixes e :: dent
  defines "m \<equiv> EXT2_DIR_REC_LEN (d_len e)"
  assumes ok: "rem_ok fs P (e # es)" and used: "d_ino e \<noteq> 0" and room: "m + 12 \<le> d_rec e"
  defines "bs \<equiv> unat (fs_blocksize fs)"
  shows "rem_ok fs P (d_trim bs m e # d_rest bs m e # es)" "live (d_trim bs m e # d_rest bs m e # es) = live (e # es)"
    "d_rec (d_trim bs m e) = m" "d_rec (d_rest bs m e) = d_rec e - m"
proof -
  have o: "ent_ok bs e" "bs \<le> 65536" "d_rec e \<le> bs" using ok by (simp_all add: rem_ok_def chain_from_def bs_def)
  note r = min_rec_len [OF d_len_less [of e], folded m_def]
  have l: "0 < d_len e" using o(1) used by (simp add: ent_ok_def)
  show s: "d_rec (d_trim bs m e) = m" "d_rec (d_rest bs m e) = d_rec e - m" using d_split_rec [of m e bs] r(3) l room by simp_all
  have m4: "(d_rec e - m) mod 4 = 0" using o(1) r(1) by (auto simp: ent_ok_def mod_0_imp_dvd dvd_imp_mod_0 dvd_diff_nat)
  have n: "d_len (d_trim bs m e) = d_len e" "d_len (d_rest bs m e) = 0" "d_ino (d_trim bs m e) = d_ino e" "d_ino (d_rest bs m e) = 0" "d_nl (d_trim bs m e) = d_nl e"
    by (simp_all add: d_len_def d_trim_def d_rest_def)
  have nm: "d_name (d_trim bs m e) = d_name e" using r(2) unfolding d_name_def n by (auto simp: d_trim_def min_def)
  have raw: "d_raw (d_trim bs m e) = rec_enc bs m" "d_raw (d_rest bs m e) = rec_enc bs (d_rec e - m)" by (simp_all add: d_trim_def d_rest_def)
  have q: "12 \<le> d_rec e - m" "d_rec e - m \<le> bs" "m \<le> bs" using room o(3) by linarith+
  have t: "ent_ok bs (d_trim bs m e)" "ent_ok bs (d_rest bs m e)"
    using r l q m4 rec_enc_inv [of m bs] rec_enc_inv [of "d_rec e - m" bs] o(2) unfolding ent_ok_def raw s n by simp_all
  have last: "tail_last fs (e # es) \<Longrightarrow> tail_last fs (d_trim bs m e # d_rest bs m e # es)"
    using used by (cases es) (auto simp: tail_last_def is_tail_def)
  show "rem_ok fs P (d_trim bs m e # d_rest bs m e # es)"
    using ok t s room last by (auto simp: rem_ok_def chain_from_def bs_def)
  show "live (d_trim bs m e # d_rest bs m e # es) = live (e # es)" using used n nm by simp
qed

definition inserted :: "filsys \<Rightarrow> link_struct \<Rightarrow> dent list \<Rightarrow> dent list \<Rightarrow> bool" where
  "inserted fs ls es es' \<longleftrightarrow> (\<exists>a b t. live es = a @ b \<and> live es' = a @ (ls_inode ls, take (ls_namelen ls) (ls_name ls), t) # b
     \<and> (ext2fs_has_feature_filetype (fs_super fs) \<longrightarrow> t = of_nat (unat (ls_flags ls AND 7))))"

lemma fill_facts:
  assumes ok: "rem_ok fs P (e # es)" and ls: "ls_ok ls" and free: "d_ino e = 0" and room: "EXT2_DIR_REC_LEN (ls_namelen ls) \<le> d_rec e"
    and nt: "\<not> (ext2fs_has_feature_metadata_csum (fs_super fs) \<and> es = [])"
  shows "rem_ok fs P (d_fill fs ls e # es)" "inserted fs ls (e # es) (d_fill fs ls e # es)" "d_rec (d_fill fs ls e) = d_rec e" "d_raw (d_fill fs ls e) = d_raw e"
proof -
  let ?f = "d_fill fs ls e" and ?n = "ls_namelen ls" and ?nm = "take (ls_namelen ls) (ls_name ls)"
  have n: "?n < 256" "0 < ?n" "ls_inode ls \<noteq> 0" "length ?nm = ?n" using ls by (auto simp: ls_ok_def)
  note q = min_rec_len [OF n(1)]
  show r: "d_rec ?f = d_rec e" "d_raw ?f = d_raw e" using n(4) q(2) room by (simp_all add: d_fill_def Let_def d_rec_def)
  have l: "d_len ?f = ?n" using name_len_words(2) [OF n(1), of "d_nl e"] name_len_words(3)
    by (simp add: d_len_def d_fill_def Let_def del: of_nat_unat unat_of_nat)
  have f: "d_ino ?f = ls_inode ls" "d_name ?f = ?nm" using n(4) by (simp_all add: d_fill_def Let_def d_name_def l [unfolded d_fill_def Let_def])
  have "unat (ls_flags ls AND 7) \<le> unat (7 :: u32)" by (metis word_and_le1 word_le_nat_alt)
  then have "unat (ls_flags ls AND 7) < 256" by simp
  from name_len_words(4) [OF this] have t: "ext2fs_has_feature_filetype (fs_super fs) \<Longrightarrow> drop_bit 8 (d_nl ?f) = of_nat (unat (ls_flags ls AND 7))"
    by (simp only: d_fill_def Let_def if_True dent.simps) simp
  have "ent_ok (unat (fs_blocksize fs)) ?f" using ok r l q(2) room n by (auto simp: rem_ok_def chain_from_def ent_ok_def f)
  with ok nt r show "rem_ok fs P (?f # es)" by (auto simp: rem_ok_def chain_from_def tail_last_def)
  show "inserted fs ls (e # es) (?f # es)" unfolding inserted_def
    by (rule exI [of _ "[]"], rule exI [of _ "live es"], rule exI [of _ "drop_bit 8 (d_nl ?f)"]) (use free f n(3) t in simp)
qed

lemma inserted_Cons:
  assumes "inserted fs ls es es'"
  shows "inserted fs ls (e # es) (e # es')"
proof -
  from assms obtain a b t where "live es = a @ b" "live es' = a @ (ls_inode ls, take (ls_namelen ls) (ls_name ls), t) # b"
    "ext2fs_has_feature_filetype (fs_super fs) \<longrightarrow> t = of_nat (unat (ls_flags ls AND 7))" by (auto simp: inserted_def)
  then show ?thesis unfolding inserted_def by (intro exI [of _ "live [e] @ a"] exI [of _ b] exI [of _ t]) simp
qed

lemma rem_okD:
  assumes "rem_ok fs P (e # es)"
  shows "at_entry fs P e (block_of es)" "chain_from fs (P @ ent_bytes e) es" "rem_ok fs (P @ ent_bytes e) es"
    "get16 (P @ block_of (e # es)) (length P + 4) = Some (d_raw e)"
    "ext2fs_get_rec_len fs (P @ block_of (e # es)) (length P) = Some (Inr (d_rec e))" "length P + d_rec e < 4294967296"
proof -
  show at: "at_entry fs P e (block_of es)" and "chain_from fs (P @ ent_bytes e) es" "rem_ok fs (P @ ent_bytes e) es"
    using assms by (auto simp: rem_ok_def chain_from_Cons tail_last_def)
  show "get16 (P @ block_of (e # es)) (length P + 4) = Some (d_raw e)" by (simp add: ent_get)
  show "ext2fs_get_rec_len fs (P @ block_of (e # es)) (length P) = Some (Inr (d_rec e))"
    using at by (simp add: get_rec_len_eq ent_get at_entry_def ent_ok_def)
  show "length P + d_rec e < 4294967296" using at by (simp add: at_entry_def)
qed

lemma rem_ok_Cons:
  assumes "rem_ok fs P (e # r)" "rem_ok fs (P @ ent_bytes e) s"
  shows "rem_ok fs P (e # s)"
proof (cases "s = []")
  case True
  have "length P + d_rec e + sum_list (map d_rec r) = unat (fs_blocksize fs)" using assms(1) by (simp add: rem_ok_def chain_from_def)
  moreover have "length P + d_rec e = unat (fs_blocksize fs)" using assms(2) True by (simp add: rem_ok_def chain_from_def)
  ultimately have "sum_list (map d_rec r) = 0" by linarith
  then have "r = []" using assms(1) by (cases r) (auto simp: rem_ok_def chain_from_def ent_ok_def)
  with True assms(1) show ?thesis by simp
next
  case False
  with assms show ?thesis by (auto simp: rem_ok_def chain_from_def tail_last_def)
qed

abbreviation link_loop :: "filsys \<Rightarrow> u32 \<Rightarrow> u8 list \<Rightarrow> link_struct \<Rightarrow> nat \<Rightarrow> nat \<Rightarrow> bool \<Rightarrow> (loop_end \<times> bool \<times> u8 list \<times> link_struct) ub" where
  "link_loop fs dir buf ls entry off changed \<equiv> dir_block_loop fs (link_proc fs) dir 1 (unat (fs_blocksize fs)) (csum_bytes fs) buf ls entry off off changed"

text \<open>A visit to an unused entry that is large enough, with what it absorbs.\<close>

lemma link_visit_free:
  assumes ok: "rem_ok fs P (e # es)" and ls: "ls_ok ls" and ab: "d_absorb fs e es = (e', es')" and free: "d_ino e = 0" "\<not> tail_at fs P e"
    and room: "\<not> d_rec e' < EXT2_DIR_REC_LEN (ls_namelen ls)"
  shows "link_loop fs dir (P @ block_of (e # es)) ls entry (length P) changed
      = Some (Block_Stop, True, P @ block_of (d_fill fs ls e' # es'), ls\<lparr>ls_done := 1\<rparr>)"
    "rem_ok fs P (d_fill fs ls e' # es')" "inserted fs ls (e # es) (d_fill fs ls e' # es')"
proof -
  note a = absorb_facts [OF ok ab]
  have nt: "\<not> (ext2fs_has_feature_metadata_csum (fs_super fs) \<and> es' = [])"
  proof
    assume c: "ext2fs_has_feature_metadata_csum (fs_super fs) \<and> es' = []"
    with a(8) have "es = []" by blast
    with c ok free(2) show False by (auto simp: rem_ok_def tail_last_def is_tail_def tail_at_def chain_from_def)
  qed
  have fe: "d_ino e' = 0" using a(3) free(1) by simp
  have r: "EXT2_DIR_REC_LEN (ls_namelen ls) \<le> d_rec e'" using room by simp
  note f = fill_facts [OF a(1) ls fe r nt]
  show "rem_ok fs P (d_fill fs ls e' # es')" by (rule f(1))
  show "inserted fs ls (e # es) (d_fill fs ls e' # es')" using f(2) a(2) by (simp add: inserted_def)
  have run: "link_proc fs dir entry (length P) (unat (fs_blocksize fs)) (P @ ent_bytes e @ block_of es) ls
      = Some (3, P @ block_of (d_fill fs ls e' # es'), ls\<lparr>ls_done := 1\<rparr>)"
    using link_proc_eq [OF ok ls ab, of dir entry] fe room by simp
  have vis: "\<not> (d_ino e = 0 \<and> tail_at fs P e)" using free(2) by simp
  from visit_step(1) [OF rem_okD(1) [OF ok] vis, where func = "link_proc fs", OF run rem_okD(5) [OF f(1)]]
  show "link_loop fs dir (P @ block_of (e # es)) ls entry (length P) changed
      = Some (Block_Stop, True, P @ block_of (d_fill fs ls e' # es'), ls\<lparr>ls_done := 1\<rparr>)" by simp
qed

text \<open>A visit to an entry without room, and one to an entry in use that is split to make room.\<close>

lemma link_visit_pass:
  assumes ok: "rem_ok fs P (e # r)" and ls: "ls_ok ls" and ab: "d_absorb fs e r = (e', r')" and vis: "\<not> (d_ino e = 0 \<and> tail_at fs P e)"
    and no: "if d_ino e' \<noteq> 0 then d_rec e' < EXT2_DIR_REC_LEN (d_len e') + EXT2_DIR_REC_LEN (ls_namelen ls) else d_rec e' < EXT2_DIR_REC_LEN (ls_namelen ls)"
  shows "link_loop fs dir (P @ block_of (e # r)) ls entry (length P) changed
    = link_loop fs dir ((P @ ent_bytes e') @ block_of r') ls (if entry < 3 then entry + 1 else entry) (length (P @ ent_bytes e')) (changed \<or> r' \<noteq> r)"
proof -
  let ?ret = "if r' = r then 0 else 1 :: u32" and ?entry = "if entry < 3 then entry + 1 else entry"
  note a = absorb_facts [OF ok ab]
  have run: "link_proc fs dir entry (length P) (unat (fs_blocksize fs)) (P @ ent_bytes e @ block_of r) ls = Some (?ret, P @ block_of (e' # r'), ls)"
    using link_proc_eq [OF ok ls ab, of dir entry] no by (auto split: if_splits)
  have "link_loop fs dir (P @ ent_bytes e @ block_of r) ls entry (length P) changed
      = link_loop fs dir (P @ block_of (e' # r')) ls ?entry (length P + d_rec e') (changed \<or> ?ret AND 1 \<noteq> 0)"
    by (rule visit_step(2) [OF rem_okD(1) [OF ok] vis, where func = "link_proc fs", OF run])
      (use rem_okD(5,6) [OF a(1)] a(7) in \<open>auto split: if_splits\<close>)
  then show ?thesis by simp
qed

lemma link_visit_split:
  assumes ok: "rem_ok fs P (e # r)" and ls: "ls_ok ls" and ab: "d_absorb fs e r = (e', r')" and used: "d_ino e \<noteq> 0"
    and room: "\<not> d_rec e' < EXT2_DIR_REC_LEN (d_len e') + EXT2_DIR_REC_LEN (ls_namelen ls)"
  shows "\<exists>es'. link_loop fs dir (P @ block_of (e # r)) ls entry (length P) changed = Some (Block_Stop, True, P @ block_of es', ls\<lparr>ls_done := 1\<rparr>)
    \<and> rem_ok fs P es' \<and> inserted fs ls (e # r) es'"
proof -
  let ?need = "EXT2_DIR_REC_LEN (ls_namelen ls)" and ?m = "EXT2_DIR_REC_LEN (d_len e')" and ?bs = "unat (fs_blocksize fs)"
  note a = absorb_facts [OF ok ab]
  let ?t = "d_trim ?bs ?m e'" and ?r = "d_rest ?bs ?m e'" and ?entry = "if entry < 3 then entry + 1 else entry"
  have u: "d_ino e' \<noteq> 0" using used a(3) by simp
  have n: "12 \<le> ?need" using min_rec_len(3) [of "ls_namelen ls"] ls by (simp add: ls_ok_def)
  with room have fit: "?m + 12 \<le> d_rec e'" by simp
  note sp = split_facts [OF a(1) u fit]
  note st = rem_okD [OF sp(1)]
  have run: "link_proc fs dir entry (length P) ?bs (P @ ent_bytes e @ block_of r) ls = Some (1, P @ block_of (?t # ?r # r'), ls)"
    using link_proc_eq [OF ok ls ab, of dir entry] room u by simp
  have vis: "\<not> (d_ino e = 0 \<and> tail_at fs P e)" using used by simp
  have go: "link_loop fs dir (P @ ent_bytes e @ block_of r) ls entry (length P) changed
      = link_loop fs dir (P @ block_of (?t # ?r # r')) ls ?entry (length P + d_rec ?t) (changed \<or> (1 :: u32) AND 1 \<noteq> 0)"
    by (rule visit_step(2) [OF rem_okD(1) [OF ok] vis, where func = "link_proc fs", OF run]) (use st(5,6) in simp_all)
  obtain e2 r2 where ab2: "d_absorb fs ?r r' = (e2, r2)" by fastforce
  have free: "d_ino ?r = 0" "\<not> tail_at fs (P @ ent_bytes ?t) ?r" by (simp_all add: d_rest_def tail_at_def)
  have big: "\<not> d_rec e2 < ?need" using absorb_facts(5) [OF st(3) ab2] sp(4) room by linarith
  note v = link_visit_free [OF st(3) ls ab2 free big]
  have "rem_ok fs P (?t # d_fill fs ls e2 # r2)" by (rule rem_ok_Cons [OF sp(1) v(2)])
  moreover have "inserted fs ls (e # r) (?t # d_fill fs ls e2 # r2)"
    using inserted_Cons [OF v(3), of ?t] sp(2) a(2) by (simp only: inserted_def)
  ultimately show ?thesis using v(1) [of dir ?entry True] go by (intro exI [of _ "?t # d_fill fs ls e2 # r2"]) simp
qed

definition d_slack :: "dent \<Rightarrow> nat" where
  "d_slack e = d_rec e - (if d_ino e \<noteq> 0 then EXT2_DIR_REC_LEN (d_len e) else 0)"

text \<open>No entry has room, the tail apart.\<close>

definition crowded :: "filsys \<Rightarrow> nat \<Rightarrow> dent list \<Rightarrow> bool" where
  "crowded fs need es \<longleftrightarrow> (\<forall>e \<in> set (if ext2fs_has_feature_metadata_csum (fs_super fs) then butlast es else es). d_slack e < need)"

definition link_result :: "filsys \<Rightarrow> link_struct \<Rightarrow> dent list \<Rightarrow> bool \<Rightarrow> loop_end \<Rightarrow> bool \<Rightarrow> dent list \<Rightarrow> link_struct \<Rightarrow> bool" where
  "link_result fs ls es changed how ch es' ls' \<longleftrightarrow>
     how = Block_Stop \<and> ch \<and> ls' = ls\<lparr>ls_done := 1\<rparr> \<and> inserted fs ls es es'
   \<or> how = Block_End \<and> ls' = ls \<and> live es' = live es \<and> crowded fs (EXT2_DIR_REC_LEN (ls_namelen ls)) es'
     \<and> (changed \<longrightarrow> ch) \<and> (\<not> ch \<longrightarrow> es' = es)"

lemma link_result_Cons:
  assumes "link_result fs ls es' (changed \<or> es' \<noteq> es) how ch r ls'" "live (e' # es') = live (e # es)" "es' = es \<Longrightarrow> e' = e"
    and "d_slack e' < EXT2_DIR_REC_LEN (ls_namelen ls)"
  shows "link_result fs ls (e # es) changed how ch (e' # r) ls'"
proof -
  have "inserted fs ls (e # es) (e' # r)" if "inserted fs ls es' r"
    using inserted_Cons [OF that, of e'] assms(2) by (simp only: inserted_def)
  moreover have "live (e' # r) = live (e # es)" if "live r = live es'" using that assms(2) by (simp split: if_splits)
  moreover have "crowded fs n (e' # r)" if "crowded fs n r" "d_slack e' < n" for n using that by (auto simp: crowded_def)
  ultimately show ?thesis using assms(1,3,4) unfolding link_result_def by auto
qed

lemma link_loop_run:
  assumes "rem_ok fs P es" "ls_ok ls"
  shows "\<exists>how ch es' ls'. link_loop fs dir (P @ block_of es) ls entry (length P) changed = Some (how, ch, P @ block_of es', ls')
    \<and> rem_ok fs P es' \<and> link_result fs ls es changed how ch es' ls'"
  using assms
proof (induction "length es" arbitrary: P es entry changed rule: less_induct)
  case less
  show ?case
  proof (cases es)
    case Nil
    with less.prems have "chain_from fs P []" by (simp add: rem_ok_def)
    with Nil less.prems show ?thesis
      by (intro exI [of _ Block_End] exI [of _ changed] exI [of _ "[]"] exI [of _ ls]) (auto simp: dir_loop_end link_result_def crowded_def)
  next
    case (Cons e r)
    note ok = less.prems(1) [unfolded Cons] and ls = less.prems(2)
    obtain e' r' where ab: "d_absorb fs e r = (e', r')" by fastforce
    note a = absorb_facts [OF ok ab]
    note d = rem_okD [OF ok] and d' = rem_okD [OF a(1)]
    let ?need = "EXT2_DIR_REC_LEN (ls_namelen ls)" and ?m = "EXT2_DIR_REC_LEN (d_len e')" and ?bs = "unat (fs_blocksize fs)"
    have "0 < ?need" using min_rec_len(2) [of "ls_namelen ls"] ls by (simp add: ls_ok_def)
    then have slack: "d_slack e' < ?need \<longleftrightarrow> (if d_ino e' \<noteq> 0 then d_rec e' < ?m + ?need else d_rec e' < ?need)"
      by (auto simp: d_slack_def)
    consider "d_ino e = 0" "tail_at fs P e" | "d_ino e = 0" "\<not> tail_at fs P e" "\<not> d_rec e' < ?need"
      | "\<not> (d_ino e = 0 \<and> tail_at fs P e)" "d_slack e' < ?need"
      | "d_ino e \<noteq> 0" "\<not> d_rec e' < ?m + ?need"
      using a(3) slack by (cases "d_ino e = 0") auto
    then show ?thesis
    proof cases
      case 1
      with skip_tail [OF d(1,2) 1] less.prems Cons show ?thesis
        by (intro exI [of _ Block_End] exI [of _ changed] exI [of _ es] exI [of _ ls]) (auto simp: link_result_def crowded_def tail_at_def)
    next
      case 2
      from link_visit_free [OF ok ls ab 2] Cons show ?thesis
        by (intro exI [of _ Block_Stop] exI [of _ True] exI [of _ "d_fill fs ls e' # r'"] exI [of _ "ls\<lparr>ls_done := 1\<rparr>"]) (simp add: link_result_def)
    next
      case 3
      let ?entry = "if entry < 3 then entry + 1 else entry"
      have "length r' < length es" using a(6) Cons by simp
      from less.hyps [OF this d'(3) ls, of ?entry "changed \<or> r' \<noteq> r"] obtain how ch s ls' where
        s: "link_loop fs dir ((P @ ent_bytes e') @ block_of r') ls ?entry (length (P @ ent_bytes e')) (changed \<or> r' \<noteq> r) = Some (how, ch, (P @ ent_bytes e') @ block_of s, ls')"
          "rem_ok fs (P @ ent_bytes e') s" "link_result fs ls r' (changed \<or> r' \<noteq> r) how ch s ls'" by blast
      have "rem_ok fs P (e' # s)" by (rule rem_ok_Cons [OF a(1) s(2)])
      with s link_visit_pass [OF ok ls ab 3(1), of dir entry changed] slack link_result_Cons [OF s(3) a(2,7) 3(2)] 3(2) Cons show ?thesis
        by (intro exI [of _ how] exI [of _ ch] exI [of _ "e' # s"] exI [of _ ls']) auto
    next
      case 4
      from link_visit_split [OF ok ls ab 4, of dir entry changed] obtain s where
        s: "link_loop fs dir (P @ block_of (e # r)) ls entry (length P) changed = Some (Block_Stop, True, P @ block_of s, ls\<lparr>ls_done := 1\<rparr>)"
          "rem_ok fs P s" "inserted fs ls (e # r) s" by blast
      with Cons show ?thesis
        by (intro exI [of _ Block_Stop] exI [of _ True] exI [of _ s] exI [of _ "ls\<lparr>ls_done := 1\<rparr>"]) (simp add: link_result_def)
    qed
  qed
qed

subsection \<open>Checksums of blocks of entries\<close>

lemma dir_ok_iff: "dir_ok fs es \<longleftrightarrow> 1024 \<le> unat (fs_blocksize fs) \<and> rem_ok fs [] es"
  by (auto simp: dir_ok_def rem_ok_def chain_from_def tail_last_def)

lemma and_3_u16: "(w :: u16) AND 3 = 0 \<longleftrightarrow> unat w mod 4 = 0"
proof -
  have "w AND 3 = take_bit 2 w" by (simp add: take_bit_eq_mask mask_eq_exp_minus_1)
  also have "\<dots> = w mod 4" by (simp add: take_bit_eq_mod)
  finally show ?thesis by (simp add: word_unat_eq_iff unat_mod)
qed

lemma dirent_walk_chain:
  assumes "chain_from fs P (es @ [t])" "d_rec t = 12"
  shows "dirent_walk (P @ block_of (es @ [t])) (unat (fs_blocksize fs) - 12) (length P) = Some (Inr (unat (fs_blocksize fs) - 12))"
  using assms
proof (induction es arbitrary: P)
  case Nil
  then have "\<not> length P < unat (fs_blocksize fs) - 12" "length P = unat (fs_blocksize fs) - 12" by (auto simp: chain_from_def)
  then show ?case by (subst dirent_walk.simps) simp
next
  case (Cons e es)
  let ?bs = "unat (fs_blocksize fs)"
  have o: "ent_ok ?bs e" "?bs \<le> 65536" "length P + d_rec e + sum_list (map d_rec es) + 12 = ?bs" using Cons.prems by (auto simp: chain_from_def)
  then have r: "unat (d_raw e) = d_rec e" using rec_raw [OF o(1,2)] by simp
  have ih: "dirent_walk ((P @ ent_bytes e) @ block_of (es @ [t])) (?bs - 12) (length (P @ ent_bytes e)) = Some (Inr (?bs - 12))"
    by (rule Cons.IH) (use Cons.prems in \<open>auto simp: chain_from_def\<close>)
  have "length P < ?bs - 12" "\<not> (unat (d_raw e) < 8 \<or> d_raw e AND 3 \<noteq> 0)" using o r by (auto simp: ent_ok_def and_3_u16)
  with ih r show ?case by (subst dirent_walk.simps) (simp add: ent_get)
qed

lemma tail_found:
  assumes ok: "dir_ok fs es" and csum: "ext2fs_has_feature_metadata_csum (fs_super fs)"
  obtains xs t where "es = xs @ [t]" "is_tail t" "length (block_of xs) + 12 = unat (fs_blocksize fs)"
    "get_dirent_tail fs (block_of es) = Some (Inr (unat (fs_blocksize fs) - 12))"
proof -
  from ok csum obtain xs t where es: "es = xs @ [t]" "is_tail t" by (metis append_butlast_last_id dir_ok_def)
  have ch: "chain_from fs [] (xs @ [t])" "1024 \<le> unat (fs_blocksize fs)" using ok es by (auto simp: dir_ok_iff rem_ok_def)
  have t: "d_rec t = 12" "d_ino t = 0" "d_nl t = 0xDE00" "ent_ok (unat (fs_blocksize fs)) t" "unat (fs_blocksize fs) \<le> 65536"
    using es(2) ch by (auto simp: is_tail_def chain_from_def)
  have len: "length (block_of xs) + 12 = unat (fs_blocksize fs)" using ch t(1) by (simp add: chain_from_def)
  have "unat (d_raw t) = 12" using rec_raw [OF t(4,5)] t(1) by simp
  then have raw: "d_raw t = 12" by (simp add: word_unat_eq_iff)
  have off: "unat (fs_blocksize fs) - 12 = length (block_of xs)" using len by simp
  have g: "get32 (block_of es) (length (block_of xs)) = Some (d_ino t)" "get16 (block_of es) (length (block_of xs) + 4) = Some (d_raw t)"
    "get16 (block_of es) (length (block_of xs) + 6) = Some (d_nl t)" using ent_get [of "block_of xs" t "[]"] es(1) by simp_all
  have "get_dirent_tail fs (block_of es) = Some (Inr (unat (fs_blocksize fs) - 12))"
    using dirent_walk_chain [OF ch(1) t(1)] ch(2) g t raw off es(1) unfolding get_dirent_tail_def Let_def by simp
  with es len that show thesis by blast
qed

text \<open>Storing the checksum of a well-formed block succeeds, makes it valid and changes nothing but the tail.\<close>

lemma dir_csum_set:
  assumes ok: "dir_ok fs es" and gen: "read_inode ino = Inr gen"
  obtains es' where "ext2fs_dir_block_csum_set adr read_inode fs ino (block_of es) = Some (E_OK, block_of es')" "dir_ok fs es'" "live es' = live es"
    "crowded fs n es' = crowded fs n es" "ext2fs_dir_block_csum_verify adr read_inode fs ino (block_of es') = Some True"
proof (cases "ext2fs_has_feature_metadata_csum (fs_super fs)")
  case False
  with ok that [of es] show thesis by (simp add: ext2fs_dir_block_csum_set_def ext2fs_dir_block_csum_verify_def)
next
  case True
  from tail_found [OF ok True] obtain xs t where x: "es = xs @ [t]" "is_tail t" "length (block_of xs) + 12 = unat (fs_blocksize fs)"
    "get_dirent_tail fs (block_of es) = Some (Inr (unat (fs_blocksize fs) - 12))" .
  have dok: "dir_block_ok fs (block_of es)" using ok by (simp add: dir_block_ok_def dir_ok_def)
  from dirent_csum_roundtrip [where read_inode = read_inode and inum = ino and adr = adr, OF dok gen x(4)] obtain d where
    d: "ext2fs_dirent_csum_set adr read_inode fs ino (block_of es) = Some (E_OK, d)" "get_dirent_tail fs d = Some (Inr (unat (fs_blocksize fs) - 12))"
      "ext2fs_dirent_csum_verify adr read_inode fs ino d = Some True" by blast
  have off: "unat (fs_blocksize fs) - 12 + 8 = length (block_of xs) + 8" using x(3) by simp
  from d(1) x(4) obtain c where c: "put32 (block_of es) (length (block_of xs) + 8) c = Some d"
    unfolding off [symmetric] by (auto simp: ext2fs_dirent_csum_set_def ext2fs_dirent_csum_def gen bind_eq_Some_conv)
  let ?t = "t\<lparr>d_body := le32 c\<rparr>"
  have "length (d_body t) = 4" using x(2) by (simp add: is_tail_def d_rec_def)
  then have "put32 (block_of es) (length (block_of xs) + 8) c = Some (block_of (xs @ [?t]))"
    using c_put_mid [of "d_body t" "le32 c" "block_of xs @ le32 (d_ino t) @ le16 (d_raw t) @ le16 (d_nl t)" "[]"]
    by (simp add: x(1) put32_def ent_bytes_def)
  with c have db: "d = block_of (xs @ [?t])" by simp
  show thesis
  proof (rule that [of "xs @ [?t]"])
    show "ext2fs_dir_block_csum_set adr read_inode fs ino (block_of es) = Some (E_OK, block_of (xs @ [?t]))"
      "ext2fs_dir_block_csum_verify adr read_inode fs ino (block_of (xs @ [?t])) = Some True"
      using True x(4) d db by (simp_all add: ext2fs_dir_block_csum_set_def ext2fs_dir_block_csum_verify_def)
    show "dir_ok fs (xs @ [?t])" using ok x(1,2) by (auto simp: dir_ok_def is_tail_def ent_ok_def d_len_def d_rec_def)
    show "live (xs @ [?t]) = live es" "crowded fs n (xs @ [?t]) = crowded fs n es" using x True by (simp_all add: is_tail_def crowded_def)
  qed
qed

subsection \<open>Removing from a whole block\<close>

lemma unlink_loop_run:
  assumes ok: "rem_ok fs [] es" and ls: "ul_ok ls" and ne: "es \<noteq> []"
  shows "\<exists>ls'. dir_block_loop fs unlink_proc dir 1 (unat (fs_blocksize fs)) (csum_bytes fs) (block_of es) ls entry 0 0 changed =
      Some (if \<exists>m \<in> set es. ul_match ls m then (Block_Stop, True, block_of (unlink_first (ul_match ls) es), ls')
            else (Block_End, changed, block_of es, ls'))
    \<and> ul_done ls' = ul_done ls + (if \<exists>m \<in> set es. ul_match ls m then 1 else 0)"
proof -
  let ?loop = "dir_block_loop fs unlink_proc dir 1 (unat (fs_blocksize fs)) (csum_bytes fs)"
  obtain e r where es: "es = e # r" using ne by (cases es) auto
  note d = rem_okD [OF ok [unfolded es]]
  note proc = unlink_proc_eq [OF d(1) ls]
  show ?thesis
  proof (cases "d_ino e = 0 \<and> tail_at fs [] e")
    case True
    then have "\<not> ul_match ls e" by (auto simp: ul_match_def split: if_splits)
    with skip_tail(1) [OF d(1,2)] skip_tail(2) [OF d(1,2), of unlink_proc dir ls entry changed] True es show ?thesis by simp
  next
    case vis: False
    show ?thesis
    proof (cases "ul_match ls e")
      case True
      have "ext2fs_get_rec_len fs (ent_bytes (e\<lparr>d_ino := 0\<rparr>) @ block_of r) (length ([] :: u8 list)) = Some (Inr (rec_dec (unat (fs_blocksize fs)) (d_raw e)))"
        using ent_get(2) [of "[]" "e\<lparr>d_ino := 0\<rparr>" "block_of r"] by (simp add: get_rec_len_eq)
      from visit_step(1) [OF d(1) vis, where func = unlink_proc and changed = changed and entry = entry and dir = dir, OF proc(2) [OF True refl] this]
        True es show ?thesis by simp
    next
      case False
      let ?ls = "ls\<lparr>ul_prev := Some 0\<rparr>" and ?entry = "if entry < 3 then entry + 1 else entry"
      have "?loop ([] @ ent_bytes e @ block_of r) ls entry (length ([] :: u8 list)) (length ([] :: u8 list)) changed =
          ?loop ([] @ ent_bytes e @ block_of r) (ls\<lparr>ul_prev := Some (length ([] :: u8 list))\<rparr>) ?entry (length ([] :: u8 list) + d_rec e) (length ([] :: u8 list) + d_rec e) (changed \<or> (0 :: u32) AND 1 \<noteq> 0)"
        by (rule visit_step(2) [OF d(1) vis, where func = unlink_proc, OF proc(1) [OF False]]) (use d(6) in simp_all)
      then have go: "?loop (block_of es) ls entry 0 0 changed = ?loop ([] @ block_of (e # r)) ?ls ?entry (length ([] :: u8 list) + d_rec e) (length ([] :: u8 list) + d_rec e) changed"
        by (simp add: es)
      have "chain_from fs ([] @ ent_bytes e) r" "ul_ok ?ls" "ul_prev ?ls = Some (length ([] :: u8 list))" using d(2) ls by simp_all
      from unlink_loop_from [OF this, of dir ?entry changed, unfolded ul_prev_update] obtain ls' where
        L: "?loop ([] @ block_of (e # r)) ?ls ?entry (length ([] :: u8 list) + d_rec e) (length ([] :: u8 list) + d_rec e) changed =
          Some (if \<exists>m \<in> set r. ul_match ls m then (Block_Stop, True, [] @ block_of (unlink_from (ul_match ls) e r), ls')
            else (Block_End, changed, [] @ block_of (e # r), ls'))"
          "ul_done ls' = ul_done ?ls + (if \<exists>m \<in> set r. ul_match ls m then 1 else 0)" by blast
      show ?thesis unfolding go L(1) using L(2) False by (intro exI [of _ ls']) (simp add: es)
    qed
  qed
qed

lemma unlink_from_facts:
  assumes "rem_ok fs P (p # es)" "\<And>e. hit e \<Longrightarrow> d_ino e \<noteq> 0" "es = a @ m # b" "hit m" "\<forall>x \<in> set a. \<not> hit x"
  shows "rem_ok fs P (unlink_from hit p es) \<and> live (unlink_from hit p es) = live (p # a) @ live b"
  using assms
proof (induction a arbitrary: P p es)
  case Nil
  let ?bs = "unat (fs_blocksize fs)" and ?j = "d_join (d_raw p + d_raw m) p m"
  have o: "ent_ok ?bs p" "ent_ok ?bs m" "?bs \<le> 65536" "d_rec p + d_rec m \<le> ?bs" using Nil.prems(1,3) by (auto simp: rem_ok_def chain_from_def)
  note j = d_join_ok [OF o(1,2) raw_sum_dec [OF o]]
  have last: "tail_last fs (?j # b)" if "tail_last fs (p # m # b)" using that Nil.prems(2,4) by (cases b) (auto simp: tail_last_def is_tail_def)
  with j Nil.prems show ?case by (auto simp: rem_ok_def chain_from_def d_join_name [OF o(1)])
next
  case (Cons x a)
  note d = rem_okD [OF Cons.prems(1)]
  have es: "es = x # (a @ m # b)" "\<not> hit x" using Cons.prems by auto
  have "rem_ok fs (P @ ent_bytes p) (unlink_from hit x (a @ m # b)) \<and> live (unlink_from hit x (a @ m # b)) = live (x # a) @ live b"
    by (rule Cons.IH [OF d(3) [unfolded es(1)]]) (use Cons.prems in auto)
  with rem_ok_Cons [OF Cons.prems(1)] es show ?case by auto
qed

lemma unlink_first_facts:
  assumes ok: "rem_ok fs [] es" and used: "\<And>e. hit e \<Longrightarrow> d_ino e \<noteq> 0" and some: "\<exists>m \<in> set es. hit m"
  obtains a m b where "es = a @ m # b" "hit m" "\<forall>x \<in> set a. \<not> hit x" "rem_ok fs [] (unlink_first hit es)" "live (unlink_first hit es) = live a @ live b"
proof -
  from some obtain a m b where s: "es = a @ m # b" "hit m" "\<forall>x \<in> set a. \<not> hit x" by (metis split_list_first_prop)
  have "rem_ok fs [] (unlink_first hit es) \<and> live (unlink_first hit es) = live a @ live b"
  proof (cases a)
    case Nil
    have "ent_ok bs (m\<lparr>d_ino := 0\<rparr>)" if "ent_ok bs m" for bs using that by (auto simp: ent_ok_def d_len_def)
    with Nil s ok used [OF s(2)] show ?thesis by (auto simp: rem_ok_def chain_from_def tail_last_def is_tail_def)
  next
    case (Cons p r)
    with s ok unlink_from_facts [of fs "[]" p "r @ m # b" hit r m b] used show ?thesis by simp
  qed
  with s that show thesis by blast
qed

end
