(* ===== verification/Dir_Store.thy ===== *)
theory Dir_Store
  imports Dir_Ops "HOL-Library.Multiset"
begin

unbundle bit_operations_syntax

text \<open>
  Directory blocks on a device. A well-formed block with a valid checksum is searched, extended and shortened
  through \<^verbatim>\<open>ext2fs_process_dir_block\<close>, which reads it, visits its entries and writes it back with a new
  checksum. The device is assumed to return what was written; any number of operations then acts on the names
  of the block as on a collection of names.
\<close>

definition device_ok :: "('d \<Rightarrow> u64 \<Rightarrow> errcode \<times> u8 list) \<Rightarrow> ('d \<Rightarrow> u64 \<Rightarrow> u8 list \<Rightarrow> errcode \<times> 'd) \<Rightarrow> u64 \<Rightarrow> bool" where
  "device_ok io_read io_write blk \<longleftrightarrow> (\<forall>dev buf. fst (io_write dev blk buf) = E_OK \<and> io_read (snd (io_write dev blk buf)) blk = (E_OK, buf))"

definition block_stored ::
    "nat \<Rightarrow> (u32 \<Rightarrow> errcode + u32) \<Rightarrow> ('d \<Rightarrow> u64 \<Rightarrow> errcode \<times> u8 list) \<Rightarrow> filsys \<Rightarrow> 'd \<Rightarrow> u64 \<Rightarrow> u32 \<Rightarrow> dent list \<Rightarrow> bool" where
  "block_stored adr read_inode io_read fs dev blk dir es \<longleftrightarrow> dir_ok fs es \<and> io_read dev blk = (E_OK, block_of es)
     \<and> ext2fs_dir_block_csum_verify adr read_inode fs dir (block_of es) = Some True"

lemma read_stored:
  assumes "block_stored adr read_inode io_read fs dev blk dir es"
  shows "ext2fs_read_dir_block4 adr read_inode io_read fs dev blk dir = Some (E_OK, block_of es)"
  using assms by (simp add: ext2fs_read_dir_block4_def block_stored_def)

lemma write_stored:
  assumes "dir_ok fs es" "device_ok io_read io_write blk" "read_inode dir = Inr gen"
  obtains es' dev' where "ext2fs_write_dir_block4 adr read_inode io_write fs dev blk (block_of es) dir = Some (E_OK, block_of es', dev')"
    "block_stored adr read_inode io_read fs dev' blk dir es'" "live es' = live es" "crowded fs n es' = crowded fs n es"
proof -
  from dir_csum_set [where read_inode = read_inode and adr = adr, OF assms(1,3)] obtain es' where
    e: "ext2fs_dir_block_csum_set adr read_inode fs dir (block_of es) = Some (E_OK, block_of es')" "dir_ok fs es'" "live es' = live es"
      "crowded fs n es' = crowded fs n es" "ext2fs_dir_block_csum_verify adr read_inode fs dir (block_of es') = Some True" by blast
  obtain r d where w: "io_write dev blk (block_of es') = (r, d)" by fastforce
  then have "r = E_OK" "io_read d blk = (E_OK, block_of es')" using assms(2) unfolding device_ok_def by (metis fst_conv, metis snd_conv)
  with e w that show thesis by (auto simp: ext2fs_write_dir_block4_def block_stored_def)
qed

text \<open>The whole handler around a loop over the entries that ends well.\<close>

lemma process_stored:
  fixes ctx :: "'s dir_context"
  assumes st: "block_stored adr read_inode io_read fs dev blk (ctx_dir ctx) es" and dv: "device_ok io_read io_write blk"
    and gen: "read_inode (ctx_dir ctx) = Inr gen" and bc: "0 \<le> blockcnt" and fl: "ctx_flags ctx AND 8 = 0"
    and loop: "dir_block_loop fs func (ctx_dir ctx) (ctx_flags ctx) (unat (fs_blocksize fs)) (csum_bytes fs) (block_of es) (ctx_priv ctx)
        (if blockcnt \<noteq> 0 then 3 else 1) 0 0 False = Some (how, ch, block_of es', priv')"
    and how: "how = Block_End \<or> how = Block_Stop" and ok: "dir_ok fs es'" and same: "\<not> ch \<Longrightarrow> es' = es"
  shows "\<exists>ctx' dev' es2. ext2fs_process_dir_block adr read_inode io_read io_write fs func dev blk blockcnt ctx
      = Some (if how = Block_Stop then 2 else 0, ctx', dev') \<and> ctx_priv ctx' = priv' \<and> ctx_errcode ctx' = E_OK
    \<and> block_stored adr read_inode io_read fs dev' blk (ctx_dir ctx) es2 \<and> live es2 = live es' \<and> crowded fs n es2 = crowded fs n es'
    \<and> (\<not> ch \<longrightarrow> dev' = dev) \<and> ctx_buf ctx' = block_of es2"
proof -
  note rd = read_stored [OF st]
  show ?thesis
  proof (cases ch)
    case True
    from write_stored [where read_inode = read_inode and adr = adr and dev = dev, OF ok dv gen] obtain es2 dev' where
      w: "ext2fs_write_dir_block4 adr read_inode io_write fs dev blk (block_of es') (ctx_dir ctx) = Some (E_OK, block_of es2, dev')"
        "block_stored adr read_inode io_read fs dev' blk (ctx_dir ctx) es2" "live es2 = live es'" "crowded fs n es2 = crowded fs n es'" by blast
    show ?thesis
      by (intro exI [of _ "ctx\<lparr>ctx_errcode := E_OK, ctx_buf := block_of es2, ctx_priv := priv'\<rparr>"] exI [of _ dev'] exI [of _ es2])
        (use bc fl rd loop how w True in \<open>auto simp: ext2fs_process_dir_block_def csum_bytes_def Let_def\<close>)
  next
    case False
    show ?thesis
      by (intro exI [of _ "ctx\<lparr>ctx_errcode := E_OK, ctx_buf := block_of es, ctx_priv := priv'\<rparr>"] exI [of _ dev] exI [of _ es])
        (use bc fl rd loop how st same [OF False] False in \<open>auto simp: ext2fs_process_dir_block_def csum_bytes_def Let_def\<close>)
  qed
qed

subsection \<open>One operation\<close>

text \<open>
  (C17) Searching a directory block for a name: the first entry in use with that name is found, with its inode,
  and without one the search reports that nothing was found; the device is not written.
\<close>

theorem lookup_in_block:
  assumes st: "block_stored adr read_inode io_read fs dev blk dir es" and dv: "device_ok io_read io_write blk" and gen: "read_inode dir = Inr gen"
    and bc: "0 \<le> blockcnt" and nm: "0 \<notin> set nm"
  shows "\<exists>ret ctx'. ext2fs_process_dir_block adr read_inode io_read io_write fs lookup_proc dev blk blockcnt
      \<lparr>ctx_dir = dir, ctx_flags = 0, ctx_buf = buf, ctx_buflen = 0, ctx_priv =
         \<lparr>lk_name = nm @ z, lk_len = length nm, lk_inode = i, lk_found = 0\<rparr>, ctx_errcode = E_OK\<rparr> = Some (ret, ctx', dev)
    \<and> ctx_errcode ctx' = E_OK
    \<and> (case dir_map es nm of
         None \<Rightarrow> ret = 0 \<and> lk_found (ctx_priv ctx') = 0 \<and> lk_inode (ctx_priv ctx') = i
       | Some j \<Rightarrow> ret = 2 \<and> lk_found (ctx_priv ctx') = 1 \<and> lk_inode (ctx_priv ctx') = j)"
proof -
  let ?ls = "\<lparr>lk_name = nm @ z, lk_len = length nm, lk_inode = i, lk_found = 0\<rparr>"
  let ?ctx = "\<lparr>ctx_dir = dir, ctx_flags = 0, ctx_buf = buf, ctx_buflen = 0, ctx_priv = ?ls, ctx_errcode = E_OK\<rparr>"
  have ok: "dir_ok fs es" and ch: "chain_from fs [] es" using st by (auto simp: block_stored_def dir_ok_iff rem_ok_def)
  have n: "lk_name ?ls = nm @ z" "lk_len ?ls = length nm" by simp_all
  define how where "how = (if dir_map es nm = None then Block_End else Block_Stop)"
  define ls' where "ls' = (case dir_map es nm of None \<Rightarrow> ?ls | Some j \<Rightarrow> ?ls\<lparr>lk_inode := j, lk_found := 1\<rparr>)"
  have loop: "dir_block_loop fs lookup_proc (ctx_dir ?ctx) (ctx_flags ?ctx) (unat (fs_blocksize fs)) (csum_bytes fs) (block_of es) (ctx_priv ?ctx)
      (if blockcnt \<noteq> 0 then 3 else 1) 0 0 False = Some (how, False, block_of es, ls')"
    using lookup_loop [OF nm n ch, of dir "if blockcnt \<noteq> 0 then 3 else 1" False] by (simp add: how_def ls'_def split: option.splits)
  have c: "block_stored adr read_inode io_read fs dev blk (ctx_dir ?ctx) es" "read_inode (ctx_dir ?ctx) = Inr gen" "ctx_flags ?ctx AND 8 = 0"
    using st gen by simp_all
  have hw: "how = Block_End \<or> how = Block_Stop" by (simp add: how_def)
  obtain ctx' where "ext2fs_process_dir_block adr read_inode io_read io_write fs lookup_proc dev blk blockcnt ?ctx = Some (if how = Block_Stop then 2 else 0, ctx', dev)"
    "ctx_priv ctx' = ls'" "ctx_errcode ctx' = E_OK"
    using process_stored [OF c(1) dv c(2) bc c(3) loop hw ok] by auto
  then show ?thesis by (auto simp: how_def ls'_def split: option.splits)
qed

text \<open>The request that \<^verbatim>\<open>ext2fs_unlink\<close> makes for a name without an inode.\<close>

definition unlink_request :: "u8 list \<Rightarrow> unlink_struct" where
  "unlink_request nm = \<lparr>ul_name = Some (nm @ [0]), ul_namelen = length nm, ul_inode = 0, ul_flags = 0, ul_prev = None, ul_done = 0\<rparr>"

lemma unlink_request_ok:
  assumes "0 \<notin> set nm"
  shows "ul_ok (unlink_request nm)" "ul_match (unlink_request nm) e \<longleftrightarrow> d_ino e \<noteq> 0 \<and> d_name e = nm"
  using assms by (auto simp: unlink_request_def ul_ok_def ul_match_def)

lemma unlink_run:
  assumes st: "block_stored adr read_inode io_read fs dev blk dir es" and dv: "device_ok io_read io_write blk" and gen: "read_inode dir = Inr gen"
    and bc: "0 \<le> blockcnt" and nm: "0 \<notin> set nm"
  shows "\<exists>ret ctx' dev' es'. ext2fs_process_dir_block adr read_inode io_read io_write fs unlink_proc dev blk blockcnt
      \<lparr>ctx_dir = dir, ctx_flags = 1, ctx_buf = buf, ctx_buflen = 0, ctx_priv = unlink_request nm, ctx_errcode = E_OK\<rparr> = Some (ret, ctx', dev')
    \<and> ctx_errcode ctx' = E_OK \<and> block_stored adr read_inode io_read fs dev' blk dir es'
    \<and> (if nm \<in> (\<lambda>(i, n, t). n) ` set (live es)
       then ret = 2 \<and> ul_done (ctx_priv ctx') = 1 \<and> (\<exists>a i t b. live es = a @ (i, nm, t) # b \<and> nm \<notin> (\<lambda>(i, n, t). n) ` set a \<and> live es' = a @ b)
       else ret = 0 \<and> ul_done (ctx_priv ctx') = 0 \<and> dev' = dev \<and> live es' = live es)"
proof -
  let ?ls = "unlink_request nm"
  let ?ctx = "\<lparr>ctx_dir = dir, ctx_flags = 1, ctx_buf = buf, ctx_buflen = 0, ctx_priv = ?ls, ctx_errcode = E_OK\<rparr>"
  have ok: "dir_ok fs es" and rm: "rem_ok fs [] es" using st by (auto simp: block_stored_def dir_ok_iff)
  have ne: "es \<noteq> []" using ok by (auto simp: dir_ok_def)
  note m = unlink_request_ok [OF nm]
  define hit where "hit \<longleftrightarrow> (\<exists>m \<in> set es. ul_match ?ls m)"
  have hit: "hit \<longleftrightarrow> nm \<in> (\<lambda>(i, n, t). n) ` set (live es)" unfolding hit_def m(2) by (auto simp: live_def image_iff)
  from unlink_loop_run [OF rm m(1) ne, of dir "if blockcnt \<noteq> 0 then 3 else 1" False, folded hit_def] obtain ls' where
    L: "dir_block_loop fs unlink_proc dir 1 (unat (fs_blocksize fs)) (csum_bytes fs) (block_of es) ?ls (if blockcnt \<noteq> 0 then 3 else 1) 0 0 False =
      Some (if hit then (Block_Stop, True, block_of (unlink_first (ul_match ?ls) es), ls') else (Block_End, False, block_of es, ls'))"
      "ul_done ls' = (if hit then 1 else 0)" by (auto simp: unlink_request_def)
  define es1 where "es1 = (if hit then unlink_first (ul_match ?ls) es else es)"
  have loop: "dir_block_loop fs unlink_proc (ctx_dir ?ctx) (ctx_flags ?ctx) (unat (fs_blocksize fs)) (csum_bytes fs) (block_of es) (ctx_priv ?ctx)
      (if blockcnt \<noteq> 0 then 3 else 1) 0 0 False = Some (if hit then Block_Stop else Block_End, hit, block_of es1, ls')"
    using L(1) by (simp add: es1_def)
  have r: "dir_ok fs es1 \<and> (if hit then \<exists>a i t b. live es = a @ (i, nm, t) # b \<and> nm \<notin> (\<lambda>(i, n, t). n) ` set a \<and> live es1 = a @ b else es1 = es)"
  proof (cases hit)
    case True
    have u: "d_ino e \<noteq> 0" if "ul_match ?ls e" for e using that m(2) by simp
    from unlink_first_facts [OF rm u True [unfolded hit_def]] obtain a x b where
      f: "es = a @ x # b" "ul_match ?ls x" "\<forall>y \<in> set a. \<not> ul_match ?ls y" "rem_ok fs [] (unlink_first (ul_match ?ls) es)"
        "live (unlink_first (ul_match ?ls) es) = live a @ live b" by metis
    have "live es = live a @ (d_ino x, nm, drop_bit 8 (d_nl x)) # live b" "nm \<notin> (\<lambda>(i, n, t). n) ` set (live a)"
      using f(1-3) m(2) by (auto simp: live_def)
    with True f(4,5) ok show ?thesis unfolding es1_def by (auto simp: dir_ok_iff)
  qed (use ok in \<open>simp add: es1_def\<close>)
  have c: "block_stored adr read_inode io_read fs dev blk (ctx_dir ?ctx) es" "read_inode (ctx_dir ?ctx) = Inr gen" "ctx_flags ?ctx AND 8 = 0"
    using st gen by simp_all
  have "es1 = es" if "\<not> hit" using r that by simp
  moreover have "(if hit then Block_Stop else Block_End) = Block_End \<or> (if hit then Block_Stop else Block_End) = Block_Stop"
    and st: "((if hit then Block_Stop else Block_End) = Block_Stop) = hit" by simp_all
  ultimately obtain ctx' dev' es2 where p:
    "ext2fs_process_dir_block adr read_inode io_read io_write fs unlink_proc dev blk blockcnt ?ctx = Some (if hit then 2 else 0, ctx', dev')"
    "ctx_priv ctx' = ls'" "ctx_errcode ctx' = E_OK" "block_stored adr read_inode io_read fs dev' blk dir es2" "live es2 = live es1" "\<not> hit \<Longrightarrow> dev' = dev"
    using process_stored [OF c(1) dv c(2) bc c(3) loop _ conjunct1 [OF r], unfolded st, of 0] by (simp only: dir_context.simps) blast
  with L(2) r show ?thesis unfolding hit [symmetric]
    by (intro exI [of _ "if hit then 2 else 0"] exI [of _ ctx'] exI [of _ dev'] exI [of _ es2]) auto
qed

text \<open>
  (C14) Removing a name from a directory block: the first entry in use with that name disappears and every other
  entry in use stays, in its order; the block on the device is well formed with a valid checksum. Without such
  an entry nothing is written.
\<close>

theorem unlink_in_block:
  assumes st: "block_stored adr read_inode io_read fs dev blk dir es" and dv: "device_ok io_read io_write blk" and gen: "read_inode dir = Inr gen"
    and bc: "0 \<le> blockcnt" and nm: "0 \<notin> set nm"
  shows "\<exists>ret ctx' dev' es'. ext2fs_process_dir_block adr read_inode io_read io_write fs unlink_proc dev blk blockcnt
      \<lparr>ctx_dir = dir, ctx_flags = 1, ctx_buf = buf, ctx_buflen = 0, ctx_priv = unlink_request nm, ctx_errcode = E_OK\<rparr> = Some (ret, ctx', dev')
    \<and> ctx_errcode ctx' = E_OK \<and> block_stored adr read_inode io_read fs dev' blk dir es'
    \<and> (if nm \<in> (\<lambda>(i, n, t). n) ` set (live es)
       then ret = 2 \<and> ul_done (ctx_priv ctx') = 1 \<and> (\<exists>a i t b. live es = a @ (i, nm, t) # b \<and> nm \<notin> (\<lambda>(i, n, t). n) ` set a \<and> live es' = a @ b)
       else ret = 0 \<and> ul_done (ctx_priv ctx') = 0 \<and> dev' = dev \<and> live es' = live es)"
  by (rule unlink_run [where dir = dir and read_inode = read_inode, OF assms])

lemma add_dirent_run:
  assumes st: "block_stored adr read_inode io_read fs dev blk dir es" and dv: "device_ok io_read io_write blk" and gen: "read_inode dir = Inr gen"
    and bc: "0 \<le> blockcnt" and bm: "bmap dir (of_int blockcnt) = (E_OK, blk, False)"
    and nm: "0 \<notin> set nm" "0 < length nm" "length nm < 256" and ino: "ino \<noteq> 0"
  shows "\<exists>code buf' dev' es'. add_dirent_to_buf adr read_inode io_read io_write bmap fs dev blockcnt buf dir (nm @ [0]) ino flags = Some (code, buf', dev')
    \<and> block_stored adr read_inode io_read fs dev' blk dir es' \<and> buf' = block_of es'
    \<and> (code = E_OK \<and> (\<exists>a b t. live es = a @ b \<and> live es' = a @ (ino, nm, t) # b
          \<and> (ext2fs_has_feature_filetype (fs_super fs) \<longrightarrow> t = of_nat (unat (flags AND 7))))
      \<or> code = EXT2_ET_DIR_NO_SPACE \<and> live es' = live es \<and> crowded fs (EXT2_DIR_REC_LEN (length nm)) es')"
proof -
  let ?ls = "\<lparr>ls_name = nm @ [0], ls_namelen = length nm, ls_inode = ino, ls_flags = flags, ls_done = 0, ls_err = E_OK\<rparr>"
  let ?ctx = "\<lparr>ctx_dir = dir, ctx_flags = 1, ctx_buf = block_of es, ctx_buflen = 0, ctx_priv = ?ls, ctx_errcode = E_OK\<rparr>"
  have ok: "dir_ok fs es" and rm: "rem_ok fs [] es" using st by (auto simp: block_stored_def dir_ok_iff)
  have ls: "ls_ok ?ls" using nm ino by (simp add: ls_ok_def)
  have len: "c_strlen (nm @ [0]) = Some (length nm)" by (rule c_strlen_string [OF nm(1)])
  from link_loop_run [OF rm ls, of dir "if blockcnt \<noteq> 0 then 3 else 1" False] obtain how ch es1 ls' where
    L: "link_loop fs dir (block_of es) ?ls (if blockcnt \<noteq> 0 then 3 else 1) 0 False = Some (how, ch, block_of es1, ls')"
      "rem_ok fs [] es1" "link_result fs ?ls es False how ch es1 ls'" by auto
  have c: "block_stored adr read_inode io_read fs dev blk (ctx_dir ?ctx) es" "read_inode (ctx_dir ?ctx) = Inr gen" "ctx_flags ?ctx AND 8 = 0"
    "how = Block_End \<or> how = Block_Stop" "dir_ok fs es1" "\<not> ch \<Longrightarrow> es1 = es"
    using st gen ok L(2,3) by (auto simp: link_result_def dir_ok_iff)
  have loop: "dir_block_loop fs (link_proc fs) (ctx_dir ?ctx) (ctx_flags ?ctx) (unat (fs_blocksize fs)) (csum_bytes fs) (block_of es) (ctx_priv ?ctx)
      (if blockcnt \<noteq> 0 then 3 else 1) 0 0 False = Some (how, ch, block_of es1, ls')" using L(1) by simp
  from process_stored [OF c(1) dv c(2) bc c(3) loop c(4-6), of "EXT2_DIR_REC_LEN (length nm)"] obtain ctx' dev' es2 where
    p: "ext2fs_process_dir_block adr read_inode io_read io_write fs (link_proc fs) dev blk blockcnt ?ctx = Some (if how = Block_Stop then 2 else 0, ctx', dev')"
      "ctx_priv ctx' = ls'" "ctx_errcode ctx' = E_OK" "block_stored adr read_inode io_read fs dev' blk dir es2" "live es2 = live es1"
      "crowded fs (EXT2_DIR_REC_LEN (length nm)) es2 = crowded fs (EXT2_DIR_REC_LEN (length nm)) es1" "ctx_buf ctx' = block_of es2" by (simp only: dir_context.simps) blast
  have "add_dirent_to_buf adr read_inode io_read io_write bmap fs dev blockcnt buf dir (nm @ [0]) ino flags
      = Some (if ls_err ls' \<noteq> E_OK then ls_err ls' else if ls_done ls' = 0 then EXT2_ET_DIR_NO_SPACE else E_OK, block_of es2, dev')"
    using p(1-3,7) len bm read_stored [OF st] by (simp add: add_dirent_to_buf_def load_logical_dir_block_def)
  with L(3) p(4-6) show ?thesis
    by (intro exI [of _ "if ls_err ls' \<noteq> E_OK then ls_err ls' else if ls_done ls' = 0 then EXT2_ET_DIR_NO_SPACE else E_OK"] exI [of _ "block_of es2"] exI [of _ dev'] exI [of _ es2])
      (auto simp: link_result_def inserted_def)
qed

text \<open>
  (C5) Inserting a name of 1 to 255 characters into a directory block of 1 to 64 KiB: either the name with its inode
  (and the type of the file, where the file system records it) becomes one entry in use among the others, which
  keep their order, and the block on the device is well formed with a valid checksum; or the code is that there
  is no space, the entries in use are as before and no entry of the block has room for the name. No other code
  is possible.
\<close>

theorem add_dirent_correct:
  assumes st: "block_stored adr read_inode io_read fs dev blk dir es" and dv: "device_ok io_read io_write blk" and gen: "read_inode dir = Inr gen"
    and bc: "0 \<le> blockcnt" and bm: "bmap dir (of_int blockcnt) = (E_OK, blk, False)"
    and nm: "0 \<notin> set nm" "0 < length nm" "length nm < 256" and ino: "ino \<noteq> 0"
  shows "\<exists>code buf' dev' es'. add_dirent_to_buf adr read_inode io_read io_write bmap fs dev blockcnt buf dir (nm @ [0]) ino flags = Some (code, buf', dev')
    \<and> block_stored adr read_inode io_read fs dev' blk dir es' \<and> buf' = block_of es'
    \<and> (code = E_OK \<and> (\<exists>a b t. live es = a @ b \<and> live es' = a @ (ino, nm, t) # b
          \<and> (ext2fs_has_feature_filetype (fs_super fs) \<longrightarrow> t = of_nat (unat (flags AND 7))))
      \<or> code = EXT2_ET_DIR_NO_SPACE \<and> live es' = live es \<and> crowded fs (EXT2_DIR_REC_LEN (length nm)) es')"
  by (rule add_dirent_run [where bmap = bmap and dir = dir and read_inode = read_inode, OF assms])

subsection \<open>Any number of operations\<close>

datatype dir_op = Dir_Add "u8 list" u32 u32 | Dir_Remove "u8 list"

fun op_ok :: "dir_op \<Rightarrow> bool" where
  "op_ok (Dir_Add nm ino flags) \<longleftrightarrow> 0 \<notin> set nm \<and> 0 < length nm \<and> length nm < 256 \<and> ino \<noteq> 0"
| "op_ok (Dir_Remove nm) \<longleftrightarrow> 0 \<notin> set nm"

text \<open>The operations on one block; removing reports its result as \<^verbatim>\<open>ext2fs_unlink\<close> does.\<close>

fun dir_step ::
    "nat \<Rightarrow> (u32 \<Rightarrow> errcode + u32) \<Rightarrow> ('d \<Rightarrow> u64 \<Rightarrow> errcode \<times> u8 list) \<Rightarrow> ('d \<Rightarrow> u64 \<Rightarrow> u8 list \<Rightarrow> errcode \<times> 'd)
     \<Rightarrow> (u32 \<Rightarrow> u64 \<Rightarrow> errcode \<times> u64 \<times> bool) \<Rightarrow> filsys \<Rightarrow> u64 \<Rightarrow> u32 \<Rightarrow> 'd \<Rightarrow> dir_op \<Rightarrow> (errcode \<times> 'd) ub" where
  "dir_step adr read_inode io_read io_write bmap fs blk dir dev (Dir_Add nm ino flags) = do {
     (code, _, dev) \<leftarrow> add_dirent_to_buf adr read_inode io_read io_write bmap fs dev 0 [] dir (nm @ [0]) ino flags;
     Some (code, dev)
   }"
| "dir_step adr read_inode io_read io_write bmap fs blk dir dev (Dir_Remove nm) = do {
     (_, ctx, dev) \<leftarrow> ext2fs_process_dir_block adr read_inode io_read io_write fs unlink_proc dev blk 0
       \<lparr>ctx_dir = dir, ctx_flags = 1, ctx_buf = [], ctx_buflen = 0, ctx_priv = unlink_request nm, ctx_errcode = E_OK\<rparr>;
     Some (if ctx_errcode ctx \<noteq> E_OK then ctx_errcode ctx else if ul_done (ctx_priv ctx) = 0 then EXT2_ET_DIR_NO_SPACE else E_OK, dev)
   }"

primrec dir_run ::
    "nat \<Rightarrow> (u32 \<Rightarrow> errcode + u32) \<Rightarrow> ('d \<Rightarrow> u64 \<Rightarrow> errcode \<times> u8 list) \<Rightarrow> ('d \<Rightarrow> u64 \<Rightarrow> u8 list \<Rightarrow> errcode \<times> 'd)
     \<Rightarrow> (u32 \<Rightarrow> u64 \<Rightarrow> errcode \<times> u64 \<times> bool) \<Rightarrow> filsys \<Rightarrow> u64 \<Rightarrow> u32 \<Rightarrow> dir_op list \<Rightarrow> 'd \<Rightarrow> (errcode list \<times> 'd) ub" where
  "dir_run adr read_inode io_read io_write bmap fs blk dir [] dev = Some ([], dev)"
| "dir_run adr read_inode io_read io_write bmap fs blk dir (op # ops) dev = do {
     (c, dev) \<leftarrow> dir_step adr read_inode io_read io_write bmap fs blk dir dev op;
     (cs, dev) \<leftarrow> dir_run adr read_inode io_read io_write bmap fs blk dir ops dev;
     Some (c # cs, dev)
   }"

text \<open>The contract: a collection of names with their inodes.\<close>

inductive dir_trace :: "(u8 list \<times> u32) multiset \<Rightarrow> dir_op list \<Rightarrow> errcode list \<Rightarrow> (u8 list \<times> u32) multiset \<Rightarrow> bool" where
  trace_end: "dir_trace M [] [] M"
| trace_add: "dir_trace (add_mset (nm, ino) M) ops cs M' \<Longrightarrow> dir_trace M (Dir_Add nm ino flags # ops) (E_OK # cs) M'"
| trace_full: "dir_trace M ops cs M' \<Longrightarrow> dir_trace M (Dir_Add nm ino flags # ops) (EXT2_ET_DIR_NO_SPACE # cs) M'"
| trace_remove: "(nm, ino) \<in># M \<Longrightarrow> dir_trace (M - {#(nm, ino)#}) ops cs M' \<Longrightarrow> dir_trace M (Dir_Remove nm # ops) (E_OK # cs) M'"
| trace_absent: "nm \<notin> fst ` set_mset M \<Longrightarrow> dir_trace M ops cs M' \<Longrightarrow> dir_trace M (Dir_Remove nm # ops) (EXT2_ET_DIR_NO_SPACE # cs) M'"

inductive_cases dir_trace_ConsE: "dir_trace M (op # ops) cs M'"

definition dir_names :: "dent list \<Rightarrow> (u8 list \<times> u32) multiset" where
  "dir_names es = mset (map (\<lambda>(i, n, t). (n, i)) (live es))"

lemma dir_step_simulates:
  assumes st: "block_stored adr read_inode io_read fs dev blk dir es" and dv: "device_ok io_read io_write blk" and gen: "read_inode dir = Inr gen"
    and bm: "bmap dir 0 = (E_OK, blk, False)" and op: "op_ok op"
  shows "\<exists>c dev' es'. dir_step adr read_inode io_read io_write bmap fs blk dir dev op = Some (c, dev')
    \<and> block_stored adr read_inode io_read fs dev' blk dir es' \<and> (\<forall>ops cs M. dir_trace (dir_names es') ops cs M \<longrightarrow> dir_trace (dir_names es) (op # ops) (c # cs) M)"
proof (cases op)
  case (Dir_Add nm ino flags)
  with op have n: "0 \<notin> set nm" "0 < length nm" "length nm < 256" "ino \<noteq> 0" by simp_all
  have bm0: "bmap dir (of_int 0) = (E_OK, blk, False)" using bm by simp
  from add_dirent_run [where bmap = bmap and dir = dir and read_inode = read_inode and blockcnt = 0, OF st dv gen order_refl bm0 n, of "[]" flags] obtain code buf' dev' es' where
    r: "add_dirent_to_buf adr read_inode io_read io_write bmap fs dev 0 [] dir (nm @ [0]) ino flags = Some (code, buf', dev')"
      "block_stored adr read_inode io_read fs dev' blk dir es'"
      "code = E_OK \<and> (\<exists>a b t. live es = a @ b \<and> live es' = a @ (ino, nm, t) # b) \<or> code = EXT2_ET_DIR_NO_SPACE \<and> live es' = live es" by blast
  from r(3) have "code = E_OK \<and> dir_names es' = add_mset (nm, ino) (dir_names es) \<or> code = EXT2_ET_DIR_NO_SPACE \<and> dir_names es' = dir_names es"
    by (auto simp: dir_names_def)
  with r(1,2) Dir_Add show ?thesis by (intro exI [of _ code] exI [of _ dev'] exI [of _ es']) (auto intro: dir_trace.intros)
next
  case (Dir_Remove nm)
  with op have n: "0 \<notin> set nm" by simp
  from unlink_run [where dir = dir and read_inode = read_inode and blockcnt = 0, OF st dv gen order_refl n, of "[]"] obtain ret ctx' dev' es' where
    r: "ext2fs_process_dir_block adr read_inode io_read io_write fs unlink_proc dev blk 0
      \<lparr>ctx_dir = dir, ctx_flags = 1, ctx_buf = [], ctx_buflen = 0, ctx_priv = unlink_request nm, ctx_errcode = E_OK\<rparr> = Some (ret, ctx', dev')"
      "ctx_errcode ctx' = E_OK" "block_stored adr read_inode io_read fs dev' blk dir es'"
      "if nm \<in> (\<lambda>(i, n, t). n) ` set (live es)
       then ret = 2 \<and> ul_done (ctx_priv ctx') = 1 \<and> (\<exists>a i t b. live es = a @ (i, nm, t) # b \<and> nm \<notin> (\<lambda>(i, n, t). n) ` set a \<and> live es' = a @ b)
       else ret = 0 \<and> ul_done (ctx_priv ctx') = 0 \<and> dev' = dev \<and> live es' = live es" by blast
  show ?thesis
  proof (cases "nm \<in> (\<lambda>(i, n, t). n) ` set (live es)")
    case True
    with r(4) obtain a i t b where l: "live es = a @ (i, nm, t) # b" "live es' = a @ b" "ul_done (ctx_priv ctx') = 1" by auto
    then have "(nm, i) \<in># dir_names es" "dir_names es' = dir_names es - {#(nm, i)#}" by (auto simp: dir_names_def)
    with r(1-3) l(3) Dir_Remove show ?thesis by (intro exI [of _ E_OK] exI [of _ dev'] exI [of _ es']) (auto intro: dir_trace.intros)
  next
    case False
    with r(4) have "nm \<notin> fst ` set_mset (dir_names es)" "dir_names es' = dir_names es" "ul_done (ctx_priv ctx') = 0"
      by (auto simp: dir_names_def image_image case_prod_beta)
    with r(1-3) Dir_Remove show ?thesis by (intro exI [of _ EXT2_ET_DIR_NO_SPACE] exI [of _ dev'] exI [of _ es']) (auto intro: dir_trace.intros)
  qed
qed

text \<open>
  (C2) Any history of insertions and removals of names in a directory block runs without an undefined access,
  returns the codes and leaves the names that a collection of names prescribes (an insertion may be refused for
  lack of space), and the block on the device stays well formed with a valid checksum.
\<close>

theorem dir_history:
  assumes st: "block_stored adr read_inode io_read fs dev blk dir es" and dv: "device_ok io_read io_write blk" and gen: "read_inode dir = Inr gen"
    and bm: "bmap dir 0 = (E_OK, blk, False)" and ops: "list_all op_ok ops"
  shows "\<exists>cs dev' es'. dir_run adr read_inode io_read io_write bmap fs blk dir ops dev = Some (cs, dev')
    \<and> block_stored adr read_inode io_read fs dev' blk dir es' \<and> dir_trace (dir_names es) ops cs (dir_names es')"
  using st ops
proof (induction ops arbitrary: dev es)
  case Nil
  then show ?case by (auto intro: trace_end)
next
  case (Cons op ops)
  from dir_step_simulates [where adr = adr and bmap = bmap and dir = dir and read_inode = read_inode, OF Cons.prems(1) dv gen bm, of op] Cons.prems(2) obtain c dev1 es1 where
    s: "dir_step adr read_inode io_read io_write bmap fs blk dir dev op = Some (c, dev1)" "block_stored adr read_inode io_read fs dev1 blk dir es1"
      "\<And>ops cs M. dir_trace (dir_names es1) ops cs M \<Longrightarrow> dir_trace (dir_names es) (op # ops) (c # cs) M" by auto
  from Cons.IH [OF s(2)] Cons.prems(2) obtain cs dev2 es2 where
    "dir_run adr read_inode io_read io_write bmap fs blk dir ops dev1 = Some (cs, dev2)" "block_stored adr read_inode io_read fs dev2 blk dir es2"
    "dir_trace (dir_names es1) ops cs (dir_names es2)" by auto
  with s show ?case by auto
qed

subsection \<open>A new block\<close>

definition d_zero :: "nat \<Rightarrow> dent" where
  "d_zero n = \<lparr>d_ino = 0, d_raw = 0, d_nl = 0, d_body = replicate n 0\<rparr>"

lemma d_zero_bytes: "ent_bytes (d_zero n) = replicate (8 + n) 0" "d_rec (d_zero n) = 8 + n"
proof -
  have e: "le32 0 = replicate 4 0" "le16 0 = replicate 2 0" by (simp_all add: le32_def le16_def numeral_eq_Suc)
  show "ent_bytes (d_zero n) = replicate (8 + n) 0" unfolding d_zero_def ent_bytes_def e dent.simps e replicate_add [symmetric] by simp
  show "d_rec (d_zero n) = 8 + n" by (simp add: d_zero_def d_rec_def)
qed

text \<open>The setters on an entry that starts behind \<open>P\<close>.\<close>

lemma ent_set:
  assumes "length P = off"
  shows "put32 (P @ ent_bytes e @ Q) off i = Some (P @ ent_bytes (e\<lparr>d_ino := i\<rparr>) @ Q)"
    "put16 (P @ ent_bytes e @ Q) (off + 4) r = Some (P @ ent_bytes (e\<lparr>d_raw := r\<rparr>) @ Q)"
    "put16 (P @ ent_bytes e @ Q) (off + 6) w = Some (P @ ent_bytes (e\<lparr>d_nl := w\<rparr>) @ Q)"
    "get16 (P @ ent_bytes e @ Q) (off + 4) = Some (d_raw e)"
    "ext2fs_dirent_set_name_len (P @ ent_bytes e @ Q) off n = Some (P @ ent_bytes (e\<lparr>d_nl := (d_nl e AND 0xff00) OR (of_nat n AND 0xff)\<rparr>) @ Q)"
    "ext2fs_dirent_set_file_type (P @ ent_bytes e @ Q) off n = Some (P @ ent_bytes (e\<lparr>d_nl := (d_nl e AND 0xff) OR push_bit 8 (of_nat n)\<rparr>) @ Q)"
    "k < length (d_body e) \<Longrightarrow> c_store (P @ ent_bytes e @ Q) (off + 8 + k) x = Some (P @ ent_bytes (e\<lparr>d_body := (d_body e)[k := x]\<rparr>) @ Q)"
    "unat (fs_blocksize fs) \<le> 65536 \<Longrightarrow> m \<le> unat (fs_blocksize fs) \<Longrightarrow> m mod 4 = 0 \<Longrightarrow>
      ext2fs_set_rec_len fs m (P @ ent_bytes e @ Q) off = Some (E_OK, P @ ent_bytes (e\<lparr>d_raw := rec_enc (unat (fs_blocksize fs)) m\<rparr>) @ Q)"
  using assms ent_put [of P] ent_get [of P] ent_load(2) [of k e P Q x] set_rec_len_entry [of fs m P e Q]
  by (auto simp: ext2fs_dirent_set_name_len_def ext2fs_dirent_set_file_type_def)

definition d_tail :: "nat \<Rightarrow> dent" where
  "d_tail bs = (d_zero 4)\<lparr>d_raw := rec_enc bs 12, d_nl := 0xDE00\<rparr>"

lemma new_tail:
  assumes "1024 \<le> unat (fs_blocksize fs)" "unat (fs_blocksize fs) \<le> 65536" "length P = t"
  shows "ext2fs_initialize_dirent_tail fs (P @ ent_bytes (d_zero 4)) t = Some (P @ ent_bytes (d_tail (unat (fs_blocksize fs))))"
proof -
  have "c_put (P @ ent_bytes (d_zero 4)) t (replicate 12 0) = Some (P @ ent_bytes (d_zero 4))"
    using c_put_mid [of "replicate 12 0" "replicate 12 0" P "[]"] assms(3) by (simp add: d_zero_bytes)
  with ent_set(8) [where m = 12 and e = "d_zero 4" and Q = "[]", OF assms(3) assms(2)] ent_set(3) [where e = "(d_zero 4)\<lparr>d_raw := rec_enc (unat (fs_blocksize fs)) 12\<rparr>" and Q = "[]" and w = "0xDE00", OF assms(3)] assms
  show ?thesis by (simp add: ext2fs_initialize_dirent_tail_def d_tail_def)
qed

lemma d_tail_ok: "1024 \<le> bs \<Longrightarrow> bs \<le> 65536 \<Longrightarrow> ent_ok bs (d_tail bs)" "is_tail (d_tail bs)" "d_ino (d_tail bs) = 0" "d_rec (d_tail bs) = 12"
  using rec_enc_inv [of 12 bs] by (simp_all add: d_tail_def d_zero_def ent_ok_def is_tail_def d_rec_def d_len_def)

text \<open>An entry with \<open>k\<close> dots as its name.\<close>

definition dots_nl :: "nat \<Rightarrow> nat \<Rightarrow> u16" where
  "dots_nl k t = (((0 AND 0xff00) OR (of_nat k AND 0xff)) AND 0xff) OR push_bit 8 (of_nat t)"

definition d_dots :: "u32 \<Rightarrow> u16 \<Rightarrow> nat \<Rightarrow> nat \<Rightarrow> nat \<Rightarrow> dent" where
  "d_dots i r k t n = \<lparr>d_ino = i, d_raw = r, d_nl = dots_nl k t, d_body = replicate k 0x2e @ replicate (n - k) 0\<rparr>"

lemma dots_nl:
  assumes "k < 256" "t < 256"
  shows "unat (dots_nl k t AND 0xff) = k" "drop_bit 8 (dots_nl k t) = of_nat t"
  using name_len_words(2) [OF assms(1), of 0] name_len_words(3) [of "(0 AND 0xff00) OR (of_nat k AND 0xff)" t]
    name_len_words(4) [OF assms(2), of "(0 AND 0xff00) OR (of_nat k AND 0xff)"]
  unfolding dots_nl_def by simp_all

lemma d_dots_facts:
  assumes "k < 256" "t < 256" "k \<le> n"
  shows "d_rec (d_dots i r k t n) = 8 + n" "d_len (d_dots i r k t n) = k" "d_name (d_dots i r k t n) = replicate k 0x2e"
    "d_ino (d_dots i r k t n) = i" "drop_bit 8 (d_nl (d_dots i r k t n)) = of_nat t"
  using assms dots_nl [OF assms(1,2)] by (simp_all add: d_dots_def d_rec_def d_len_def d_name_def)

lemma d_dots_ok:
  assumes "0 < k" "k < 256" "t < 256" "k \<le> n" "4 \<le> n" "n mod 4 = 0" "8 + n \<le> bs" "bs \<le> 65536"
  shows "ent_ok bs (d_dots i (rec_enc bs (8 + n)) k t n)"
proof -
  have "(8 + n) mod 4 = 0" using mod4_add [of 8 n] assms(6) by simp
  then show ?thesis using d_dots_facts [OF assms(2-4)] rec_enc_inv [of "8 + n" bs] assms by (simp add: ent_ok_def) (simp add: d_dots_def)
qed

lemma d_zero_ok:
  assumes "4 \<le> n" "n mod 4 = 0" "8 + n \<le> bs" "bs \<le> 65536"
  shows "ent_ok bs ((d_zero n)\<lparr>d_raw := rec_enc bs (8 + n)\<rparr>)"
proof -
  have "(8 + n) mod 4 = 0" using mod4_add [of 8 n] assms(2) by simp
  then show ?thesis using rec_enc_inv [of "8 + n" bs] assms by (simp add: ent_ok_def d_zero_bytes) (simp add: d_zero_def d_len_def)
qed

text \<open>The part of the routine that writes the two entries, as it is in the code.\<close>

lemma new_dots:
  fixes fs :: filsys and n :: nat
  defines "bs \<equiv> unat (fs_blocksize fs)"
  assumes bs: "bs \<le> 65536" "20 + n \<le> bs" "4 \<le> n" "n mod 4 = 0" and t: "t < 256"
  shows "(do {
      buf \<leftarrow> put32 (ent_bytes ((d_zero 4)\<lparr>d_raw := r\<rparr>) @ ent_bytes (d_zero n) @ Q) 0 i;
      buf \<leftarrow> ext2fs_dirent_set_name_len buf 0 1;
      buf \<leftarrow> ext2fs_dirent_set_file_type buf 0 t;
      buf \<leftarrow> c_store buf 8 0x2e;
      buf \<leftarrow> put16 buf 4 12;
      k buf
    }) = k (ent_bytes (d_dots i 12 1 t 4) @ ent_bytes (d_zero n) @ Q)"
    "(do {
      y \<leftarrow> ext2fs_set_rec_len fs (8 + n) (ent_bytes (d_dots i 12 1 t 4) @ ent_bytes (d_zero n) @ Q) 12;
      (case y of (retval, buf) \<Rightarrow> if retval \<noteq> E_OK then Some (Inl retval)
      else do {
        buf \<leftarrow> put32 buf (unat (12 :: u16)) p;
        buf \<leftarrow> ext2fs_dirent_set_name_len buf (unat (12 :: u16)) 2;
        buf \<leftarrow> ext2fs_dirent_set_file_type buf (unat (12 :: u16)) t;
        buf \<leftarrow> c_store buf (unat (12 :: u16) + 8) 0x2e;
        buf \<leftarrow> c_store buf (unat (12 :: u16) + 9) 0x2e;
        Some (Inr buf)
      }) \<bind> k'
    }) = k' (Inr (ent_bytes (d_dots i 12 1 t 4) @ ent_bytes (d_dots p (rec_enc bs (8 + n)) 2 t n) @ Q))"
proof -
  note fst_set = ent_set [where P = "[]" and off = 0, simplified]
  show "(do {
      buf \<leftarrow> put32 (ent_bytes ((d_zero 4)\<lparr>d_raw := r\<rparr>) @ ent_bytes (d_zero n) @ Q) 0 i;
      buf \<leftarrow> ext2fs_dirent_set_name_len buf 0 1;
      buf \<leftarrow> ext2fs_dirent_set_file_type buf 0 t;
      buf \<leftarrow> c_store buf 8 0x2e;
      buf \<leftarrow> put16 buf 4 12;
      k buf
    }) = k (ent_bytes (d_dots i 12 1 t 4) @ ent_bytes (d_zero n) @ Q)"
    by (simp add: fst_set fst_set(7) [where k = 0, simplified] d_zero_def del: c_store_inside) (simp add: d_dots_def dots_nl_def numeral_eq_Suc)
  have l: "length (ent_bytes (d_dots i 12 1 t 4)) = 12" using t by (simp add: d_dots_facts)
  note snd_set = ent_set [OF l, simplified]
  have "(8 + n) mod 4 = 0" using mod4_add [of 8 n] bs(4) by simp
  moreover have "(replicate n 0)[0 := x, Suc 0 := x] = x # x # replicate (n - 2) 0" for x :: u8
  proof -
    have "n = Suc (Suc (n - 2))" using bs(3) by simp
    then obtain m where "n = Suc (Suc m)" by blast
    then show ?thesis by simp
  qed
  ultimately show "(do {
      y \<leftarrow> ext2fs_set_rec_len fs (8 + n) (ent_bytes (d_dots i 12 1 t 4) @ ent_bytes (d_zero n) @ Q) 12;
      (case y of (retval, buf) \<Rightarrow> if retval \<noteq> E_OK then Some (Inl retval)
      else do {
        buf \<leftarrow> put32 buf (unat (12 :: u16)) p;
        buf \<leftarrow> ext2fs_dirent_set_name_len buf (unat (12 :: u16)) 2;
        buf \<leftarrow> ext2fs_dirent_set_file_type buf (unat (12 :: u16)) t;
        buf \<leftarrow> c_store buf (unat (12 :: u16) + 8) 0x2e;
        buf \<leftarrow> c_store buf (unat (12 :: u16) + 9) 0x2e;
        Some (Inr buf)
      }) \<bind> k'
    }) = k' (Inr (ent_bytes (d_dots i 12 1 t 4) @ ent_bytes (d_dots p (rec_enc bs (8 + n)) 2 t n) @ Q))"
    using bs by (simp add: snd_set snd_set(7) [where k = 0, simplified] snd_set(7) [where k = 1, simplified] d_zero_def bs_def [symmetric] del: c_store_inside) (simp add: d_dots_def dots_nl_def numeral_2_eq_2)
qed

lemma zero_split: "replicate (a + b) (0 :: u8) = replicate a 0 @ replicate b 0"
  by (rule replicate_add)

text \<open>The entries of a new block.\<close>

definition new_entries :: "filsys \<Rightarrow> u32 \<Rightarrow> u32 \<Rightarrow> dent list" where
  "new_entries fs i p = (let bs = unat (fs_blocksize fs); m = bs - csum_bytes fs; t = (if ext2fs_has_feature_filetype (fs_super fs) then 2 else 0) in
     (if i \<noteq> 0 then [d_dots i 12 1 t 4, d_dots p (rec_enc bs (m - 12)) 2 t (m - 20)] else [(d_zero (m - 8))\<lparr>d_raw := rec_enc bs m\<rparr>])
     @ (if ext2fs_has_feature_metadata_csum (fs_super fs) then [d_tail bs] else []))"

lemma new_entries_ok:
  assumes bs: "1024 \<le> unat (fs_blocksize fs)" "unat (fs_blocksize fs) \<le> 65536" "unat (fs_blocksize fs) mod 4 = 0"
  shows "dir_ok fs (new_entries fs i p)"
proof -
  define b m where "b = unat (fs_blocksize fs)" and "m = b - csum_bytes fs"
  have m: "1012 \<le> m" "m \<le> b" "m + csum_bytes fs = b" and m4: "m mod 4 = 0" "csum_bytes fs mod 4 = 0"
    using bs by (auto simp: m_def b_def csum_bytes_def mod_diff_eq [symmetric])
  have s: "8 + (m - 20) = m - 12" "8 + (m - 8) = m" "(m - 20) mod 4 = 0" "(m - 8) mod 4 = 0" using m m4 by presburger+
  have e12: "(12 :: u16) = rec_enc b (8 + 4)" by (simp add: rec_enc_def)
  have "ent_ok b (d_dots i 12 1 t 4)" "ent_ok b (d_dots p (rec_enc b (m - 12)) 2 t (m - 20))" if "t < 256" for t
    using d_dots_ok [of 1 t 4 b i] d_dots_ok [of 2 t "m - 20" b p] that m s bs unfolding e12 b_def [symmetric] by simp_all
  moreover have "ent_ok b ((d_zero (m - 8))\<lparr>d_raw := rec_enc b m\<rparr>)" using d_zero_ok [of "m - 8" b] m s bs unfolding b_def [symmetric] by simp
  ultimately show ?thesis using bs m unfolding dir_ok_def new_entries_def Let_def b_def [symmetric] m_def [symmetric]
    by (auto simp: d_tail_ok d_dots_facts d_zero_bytes csum_bytes_def b_def)
qed

lemma new_dir_block_run:
  assumes mg: "fs_magic fs = EXT2_ET_MAGIC_EXT2FS_FILSYS"
    and bs: "1024 \<le> unat (fs_blocksize fs)" "unat (fs_blocksize fs) \<le> 65536" "unat (fs_blocksize fs) mod 4 = 0"
  shows "ext2fs_new_dir_block True fs i p = Some (Inr (block_of (new_entries fs i p)))"
proof -
  define b m t Q where "b = unat (fs_blocksize fs)" and "m = b - csum_bytes fs" and "t = (if ext2fs_has_feature_filetype (fs_super fs) then 2 else 0 :: nat)"
    and "Q = replicate (csum_bytes fs) (0 :: u8)"
  have b: "1024 \<le> b" "b \<le> 65536" "b mod 4 = 0" using bs by (simp_all add: b_def)
  have m: "1012 \<le> m" "m \<le> b" "m + csum_bytes fs = b" and m4: "m mod 4 = 0"
    using b by (auto simp: m_def csum_bytes_def mod_diff_eq [symmetric])
  have s: "8 + (m - 20) = m - 12" "8 + (m - 8) = m" "(m - 20) mod 4 = 0" "12 + (8 + (m - 20)) = m" using m m4 by presburger+
  have sub: "u32_sub b (if ext2fs_has_feature_metadata_csum (fs_super fs) then 12 else 0) = m" "u32_sub m 12 = m - 12" "EXT2_DIR_REC_LEN 1 = 12"
    using u32_ops(2) [of 12 b] u32_ops(2) [of 0 b] u32_ops(2) [of 12 m] b m by (simp_all add: m_def csum_bytes_def EXT2_DIR_REC_LEN_def)
  have z1: "replicate b 0 = ent_bytes (d_zero (m - 8)) @ Q" unfolding d_zero_bytes s(2) Q_def zero_split [symmetric] m(3) ..
  have z2: "replicate b 0 = ent_bytes (d_zero 4) @ ent_bytes (d_zero (m - 20)) @ Q"
    using z1 s(2,4) unfolding d_zero_bytes Q_def append_assoc [symmetric] zero_split [symmetric] by simp
  have tl: "ext2fs_initialize_dirent_tail fs (P @ Q) (b - 12) = Some (P @ ent_bytes (d_tail b))" if "ext2fs_has_feature_metadata_csum (fs_super fs)" "length P = m" for P
    using new_tail [of fs P m] that bs unfolding d_zero_bytes by (simp add: Q_def m_def csum_bytes_def b_def)
  show ?thesis
  proof (cases "i = 0")
    case True
    have "ext2fs_set_rec_len fs m (ent_bytes (d_zero (m - 8)) @ Q) 0 = Some (E_OK, ent_bytes ((d_zero (m - 8))\<lparr>d_raw := rec_enc b m\<rparr>) @ Q)"
      using ent_set(8) [where P = "[]" and off = 0 and m = m and e = "d_zero (m - 8)" and Q = Q and fs = fs] m m4 b by (simp add: b_def)
    with True mg tl sub s(2) show ?thesis
      unfolding ext2fs_new_dir_block_def new_entries_def Let_def b_def [symmetric] m_def [symmetric] z1 by (simp add: d_zero_bytes Q_def csum_bytes_def)
  next
    case False
    have 1: "ext2fs_set_rec_len fs m (ent_bytes (d_zero 4) @ ent_bytes (d_zero (m - 20)) @ Q) 0
        = Some (E_OK, ent_bytes ((d_zero 4)\<lparr>d_raw := rec_enc b m\<rparr>) @ ent_bytes (d_zero (m - 20)) @ Q)"
      using ent_set(8) [where P = "[]" and off = 0 and m = m and e = "d_zero 4" and Q = "ent_bytes (d_zero (m - 20)) @ Q" and fs = fs] m m4 b by (simp add: b_def)
    have "t < 256" "4 \<le> m - 20" "20 + (m - 20) \<le> b" using m by (simp_all add: t_def)
    note dots = new_dots [of fs "m - 20" t, folded b_def, OF b(2) this(3,2) s(3) this(1)]
    have get: "get16 (ent_bytes (d_dots i 12 1 t 4) @ R) 4 = Some 12" for R using ent_get(2) [of "[]" "d_dots i 12 1 t 4" R] by (simp add: d_dots_def)
    have "length (ent_bytes (d_dots i 12 1 t 4) @ ent_bytes (d_dots p (rec_enc b (m - 12)) 2 t (m - 20))) = m"
      using m by (simp add: d_dots_facts t_def)
    moreover have "\<not> ext2fs_has_feature_metadata_csum (fs_super fs) \<Longrightarrow> Q = []" by (simp add: Q_def csum_bytes_def)
    ultimately show ?thesis using tl [of "ent_bytes (d_dots i 12 1 t 4) @ ent_bytes (d_dots p (rec_enc b (m - 12)) 2 t (m - 20))"] mg False
      unfolding ext2fs_new_dir_block_def new_entries_def Let_def b_def [symmetric] m_def [symmetric] t_def [symmetric] z2 sub 
      by (simp add: 1 dots(1) dots(2) [unfolded s(1)] get split: if_splits del: c_store_inside One_nat_def)
  qed
qed

text \<open>
  (C18) A new directory block is written without an undefined access for every block of 1 to 64 KiB whose size is
  a multiple of four, with or without checksums: the result is a well-formed block whose entries in use are
  exactly \<^verbatim>\<open>.\<close> and \<^verbatim>\<open>..\<close> with the given inodes, or none when no inode is given. It fails
  only for a file system of another type or when memory runs out.
\<close>

theorem new_dir_block_correct:
  fixes fs :: filsys and i p :: u32
  defines "t \<equiv> (if ext2fs_has_feature_filetype (fs_super fs) then 2 else 0 :: u16)"
  assumes bs: "1024 \<le> unat (fs_blocksize fs)" "unat (fs_blocksize fs) \<le> 65536" "unat (fs_blocksize fs) mod 4 = 0"
  shows "if fs_magic fs \<noteq> EXT2_ET_MAGIC_EXT2FS_FILSYS then ext2fs_new_dir_block ok fs i p = Some (Inl EXT2_ET_MAGIC_EXT2FS_FILSYS)
    else if \<not> ok then ext2fs_new_dir_block ok fs i p = Some (Inl EXT2_ET_NO_MEMORY)
    else \<exists>es. ext2fs_new_dir_block ok fs i p = Some (Inr (block_of es)) \<and> dir_ok fs es
      \<and> live es = (if i = 0 then [] else (i, [0x2e], t) # (if p = 0 then [] else [(p, [0x2e, 0x2e], t)]))"
proof (cases "fs_magic fs = EXT2_ET_MAGIC_EXT2FS_FILSYS \<and> ok")
  case False
  then show ?thesis by (simp add: ext2fs_new_dir_block_def)
next
  case True
  have "live (new_entries fs i p) = (if i = 0 then [] else (i, [0x2e], t) # (if p = 0 then [] else [(p, [0x2e, 0x2e], t)]))"
    using bs by (simp add: new_entries_def Let_def t_def d_dots_facts d_tail_ok csum_bytes_def) (simp add: d_zero_def numeral_2_eq_2)
  with True new_dir_block_run [OF _ bs, of i p] new_entries_ok [OF bs, of i p] show ?thesis by auto
qed

subsection \<open>Names of more than 255 characters\<close>

text \<open>
  (C30) The length of a name is cut to a byte when the room for it is computed, but all its characters are copied.
  At an unused entry that is followed by an entry in use and has room for the length modulo 256 but not for the
  name, the visit reports success and the characters of the name are in the block from the name of the entry
  on, over the entries behind it.
\<close>

theorem long_name_overruns:
  fixes fs :: filsys and P :: "u8 list" and ls :: link_struct
  defines "n \<equiv> ls_namelen ls"
  assumes at: "at_entry fs P e (block_of (f # es))" and ch: "chain_from fs (P @ ent_bytes e) (f # es)" and tl: "tail_last fs (f # es)"
    and free: "d_ino e = 0" "d_ino f \<noteq> 0" "ls_done ls = 0"
    and nm: "256 \<le> n" "n \<le> length (ls_name ls)" "0 \<notin> set (take n (ls_name ls))"
    and room: "EXT2_DIR_REC_LEN n \<le> d_rec e" "d_rec e < n + 8" "length P + 8 + n \<le> unat (fs_blocksize fs)"
  shows "\<exists>buf' ls'. link_proc fs dir entry (length P) (unat (fs_blocksize fs)) (P @ block_of (e # f # es)) ls = Some (3, buf', ls')
    \<and> ls_done ls' = 1 \<and> ls_err ls' = E_OK \<and> take n (drop (length P + 8) buf') = take n (ls_name ls)
    \<and> length buf' = unat (fs_blocksize fs)"
proof -
  define B where "B = unat (fs_blocksize fs)"
  let ?nm = "take n (ls_name ls)" and ?ls = "ls\<lparr>ls_err := E_OK\<rparr>"
  have tl': "tail_last fs (e # f # es)" using tl by (simp add: tail_last_def)
  have ok: "ent_ok B e" "B \<le> 65536" "length P + d_rec e + length (block_of (f # es)) = B" using at by (simp_all add: at_entry_def B_def)
  have ab: "link_absorb fs (length P) B (P @ block_of (e # f # es)) (d_rec e) = Some (E_OK, 0, P @ block_of (e # f # es), d_rec e)"
    using link_absorb_eq [OF at ch tl', of e "f # es"] free by (simp add: B_def)
  have len: "ext2fs_get_rec_len fs (P @ block_of (e # f # es)) (length P) = Some (Inr (d_rec e))"
    using ok(1) by (simp add: get_rec_len_eq ent_get ent_ok_def B_def)
  obtain buf' where fill: "link_fill fs (length P) (P @ block_of (e # f # es)) ?ls = Some buf'"
    "take n (drop (length P + 8) buf') = ?nm" "length buf' = B"
  proof -
    have l: "8 + n \<le> length (block_of (e # f # es))" using room(3) ok(3) by (simp add: B_def)
    then have "8 \<le> length (block_of (e # f # es))" by linarith
    then obtain y where y: "block_of (e # f # es) = ent_bytes y" "d_body y = drop 8 (block_of (e # f # es))" by (rule bytes_ent)
    have "n \<le> length (d_body y)" unfolding y(2) length_drop using l by linarith
    note room' = this
    have "link_fill fs (length P) (P @ ent_bytes y @ []) ?ls = Some (P @ ent_bytes (d_fill fs ?ls y) @ [])"
      using nm room' by (intro link_fill_eq) (simp_all add: n_def d_rec_def)
    moreover have "length (P @ ent_bytes (d_fill fs ?ls y)) = B"
    proof -
      have "d_rec y = d_rec e + length (block_of (f # es))" using arg_cong [OF y(1), of length] by simp
      moreover have "d_rec (d_fill fs ?ls y) = d_rec y" using nm(2) room' by (simp add: d_fill_def Let_def d_rec_def n_def)
      ultimately show ?thesis using ok(3) by simp
    qed
    moreover have "take n (drop (length P + 8) (P @ ent_bytes (d_fill fs ?ls y))) = ?nm" using nm(2)
      by (simp add: d_fill_def Let_def ent_bytes_def n_def)
    ultimately show thesis using that y(1) by simp
  qed
  have ino: "get32 (P @ block_of (e # f # es)) (length P) = Some 0" using ent_get(1) [of P e "block_of (f # es)"] free by simp
  have "link_proc fs dir entry (length P) B (P @ block_of (e # f # es)) ls = Some (3, buf', ?ls\<lparr>ls_done := ls_done ?ls + 1\<rparr>)"
    unfolding link_proc_def Let_def using free(3) room(1) by (simp add: len ab ino fill n_def del: block_of_simps)
  with fill free(3) show ?thesis unfolding B_def by auto
qed

subsection \<open>A device that keeps its blocks\<close>

definition dev_read :: "(u64 \<Rightarrow> u8 list) \<Rightarrow> u64 \<Rightarrow> errcode \<times> u8 list" where
  "dev_read dev blk = (E_OK, dev blk)"

definition dev_write :: "(u64 \<Rightarrow> u8 list) \<Rightarrow> u64 \<Rightarrow> u8 list \<Rightarrow> errcode \<times> (u64 \<Rightarrow> u8 list)" where
  "dev_write dev blk buf = (E_OK, dev(blk := buf))"

definition dir_example :: "dent list" where
  "dir_example = new_entries fs_example 11 2"

lemma fs_example_dir:
  "unat (fs_blocksize fs_example) = 1024" "fs_magic fs_example = EXT2_ET_MAGIC_EXT2FS_FILSYS"
  "\<not> ext2fs_has_feature_metadata_csum (fs_super fs_example)" "\<not> ext2fs_has_feature_filetype (fs_super fs_example)"
  by code_simp+

lemma dev_keeps: "device_ok dev_read dev_write blk"
  by (simp add: device_ok_def dev_read_def dev_write_def)

lemma dir_example_stored: "block_stored 0 (\<lambda>_. Inr 0) dev_read fs_example (\<lambda>_. block_of dir_example) blk 11 dir_example"
  using new_entries_ok [of fs_example 11 2] fs_example_dir
  by (simp add: block_stored_def dev_read_def dir_example_def ext2fs_dir_block_csum_verify_def)

lemma dir_example_names: "live dir_example = [(11, [0x2e], 0), (2, [0x2e, 0x2e], 0)]"
proof -
  have "replicate 2 (0x2e :: u8) = [0x2e, 0x2e]" by (simp add: numeral_2_eq_2)
  with fs_example_dir show ?thesis by (simp add: dir_example_def new_entries_def Let_def d_dots_facts csum_bytes_def)
qed

lemma dir_example_map: "dir_map dir_example [0x2e, 0x2e] = Some 2"
  using dir_example_names by (simp add: dir_map_def)

theorem lookup_in_block_witness:
  "\<exists>ret ctx'. ext2fs_process_dir_block 0 (\<lambda>_. Inr 0) dev_read dev_write fs_example lookup_proc (\<lambda>_. block_of dir_example) 5 0
      \<lparr>ctx_dir = 11, ctx_flags = 0, ctx_buf = [], ctx_buflen = 0, ctx_priv =
         \<lparr>lk_name = [0x2e, 0x2e, 0], lk_len = 2, lk_inode = 0, lk_found = 0\<rparr>, ctx_errcode = E_OK\<rparr> = Some (ret, ctx', \<lambda>_. block_of dir_example)
    \<and> ret = 2 \<and> lk_found (ctx_priv ctx') = 1 \<and> lk_inode (ctx_priv ctx') = 2"
proof -
  have h: "(\<lambda>_. Inr 0 :: errcode + u32) (11 :: u32) = Inr 0" "(0 :: int) \<le> 0" "(0 :: u8) \<notin> set [0x2e, 0x2e]" by simp_all
  have l: "length [0x2e, 0x2e :: u8] = 2" by simp
  show ?thesis
    using lookup_in_block [where z = "[0]" and i = 0 and buf = "[]", OF dir_example_stored [of 5] dev_keeps [of 5] h, unfolded l dir_example_map append_Cons append_Nil option.case]
    by blast
qed

theorem unlink_in_block_witness:
  "\<exists>ret ctx' dev' es'. ext2fs_process_dir_block 0 (\<lambda>_. Inr 0) dev_read dev_write fs_example unlink_proc (\<lambda>_. block_of dir_example) 5 0
      \<lparr>ctx_dir = 11, ctx_flags = 1, ctx_buf = [], ctx_buflen = 0, ctx_priv = unlink_request [0x2e, 0x2e], ctx_errcode = E_OK\<rparr> = Some (ret, ctx', dev')
    \<and> ret = 2 \<and> block_stored 0 (\<lambda>_. Inr 0) dev_read fs_example dev' 5 11 es' \<and> live es' = [(11, [0x2e], 0)]"
proof -
  have h: "(\<lambda>_. Inr 0 :: errcode + u32) (11 :: u32) = Inr 0" "(0 :: int) \<le> 0" "(0 :: u8) \<notin> set [0x2e, 0x2e]" by simp_all
  show ?thesis
    using unlink_in_block [where buf = "[]", OF dir_example_stored [of 5] dev_keeps [of 5] h] dir_example_names
    by (auto simp: Cons_eq_append_conv append_eq_Cons_conv)
qed

theorem add_dirent_correct_witness:
  "\<exists>code buf' dev' es'. add_dirent_to_buf 0 (\<lambda>_. Inr 0) dev_read dev_write (\<lambda>_ _. (E_OK, 5, False)) fs_example (\<lambda>_. block_of dir_example)
      0 [] 11 ([0x61] @ [0]) 12 0 = Some (code, buf', dev')
    \<and> block_stored 0 (\<lambda>_. Inr 0) dev_read fs_example dev' 5 11 es' \<and> code \<in> {E_OK, EXT2_ET_DIR_NO_SPACE}"
proof -
  have h: "(\<lambda>_. Inr 0 :: errcode + u32) (11 :: u32) = Inr 0" "(0 :: int) \<le> 0" "(\<lambda>_ _. (E_OK, 5, False)) (11 :: u32) (of_int 0 :: u64) = (E_OK, 5 :: u64, False)"
    "(0 :: u8) \<notin> set [0x61]" "0 < length [0x61 :: u8]" "length [0x61 :: u8] < 256" "(12 :: u32) \<noteq> 0" by simp_all
  show ?thesis
    using add_dirent_correct [where buf = "[]" and flags = 0, OF dir_example_stored [of 5] dev_keeps [of 5] h] by blast
qed

theorem dir_history_witness:
  "\<exists>cs dev' es'. dir_run 0 (\<lambda>_. Inr 0) dev_read dev_write (\<lambda>_ _. (E_OK, 5, False)) fs_example 5 11 [Dir_Remove [0x62], Dir_Add [0x61] 12 0] (\<lambda>_. block_of dir_example) = Some (cs, dev')
    \<and> block_stored 0 (\<lambda>_. Inr 0) dev_read fs_example dev' 5 11 es'
    \<and> dir_trace {#([0x2e], 11), ([0x2e, 0x2e], 2)#} [Dir_Remove [0x62], Dir_Add [0x61] 12 0] cs (dir_names es')"
proof -
  have h: "(\<lambda>_. Inr 0 :: errcode + u32) (11 :: u32) = Inr 0" "(\<lambda>_ _. (E_OK, 5, False)) (11 :: u32) (0 :: u64) = (E_OK, 5 :: u64, False)"
    "list_all op_ok [Dir_Remove [0x62], Dir_Add [0x61] 12 0]" by simp_all
  have "dir_names dir_example = {#([0x2e], 11), ([0x2e, 0x2e], 2)#}" by (simp add: dir_names_def dir_example_names)
  with dir_history [OF dir_example_stored [of 5] dev_keeps [of 5] h] show ?thesis by simp
qed

theorem new_dir_block_correct_witness:
  "\<exists>es. ext2fs_new_dir_block True fs_example 11 2 = Some (Inr (block_of es)) \<and> dir_ok fs_example es \<and> live es = [(11, [0x2e], 0), (2, [0x2e, 0x2e], 0)]"
  using new_dir_block_correct [of fs_example True 11 2] fs_example_dir by simp

theorem long_name_overruns_witness:
  "\<exists>buf' ls'. link_proc fs_example 11 0 0 1024
      (block_of [(d_zero 4)\<lparr>d_raw := 12\<rparr>, d_dots 7 1012 1 0 1004])
      \<lparr>ls_name = replicate 256 0x61 @ [0], ls_namelen = 256, ls_inode = 12, ls_flags = 0, ls_done = 0, ls_err = E_OK\<rparr> = Some (3, buf', ls')
    \<and> ls_done ls' = 1 \<and> take 256 (drop 8 buf') = replicate 256 0x61"
proof -
  let ?e = "(d_zero 4)\<lparr>d_raw := 12\<rparr>" and ?f = "d_dots 7 1012 1 0 1004"
  let ?ls = "\<lparr>ls_name = replicate 256 0x61 @ [0], ls_namelen = 256, ls_inode = 12, ls_flags = 0, ls_done = 0, ls_err = E_OK\<rparr>"
  have ok: "ent_ok 1024 ?e" "ent_ok 1024 ?f" using d_zero_ok [of 4 1024] d_dots_ok [of 1 0 1004 1024 7] by (simp_all add: rec_enc_def)
  have at: "at_entry fs_example [] ?e (block_of [?f])" and ch: "chain_from fs_example ([] @ ent_bytes ?e) [?f]" and tl: "tail_last fs_example [?f]"
    using ok fs_example_dir by (simp_all add: at_entry_def chain_from_def tail_last_def d_zero_bytes d_dots_facts)
  have h: "d_ino ?e = 0" "d_ino ?f \<noteq> 0" "ls_done ?ls = 0" "256 \<le> ls_namelen ?ls" "ls_namelen ?ls \<le> length (ls_name ?ls)"
    "0 \<notin> set (take (ls_namelen ?ls) (ls_name ?ls))" "EXT2_DIR_REC_LEN (ls_namelen ?ls) \<le> d_rec ?e" "d_rec ?e < ls_namelen ?ls + 8"
    "length [] + 8 + ls_namelen ?ls \<le> unat (fs_blocksize fs_example)"
    using fs_example_dir by (simp_all add: d_zero_bytes d_dots_facts EXT2_DIR_REC_LEN_def) (simp add: d_zero_def)
  show ?thesis using long_name_overruns [OF at ch tl h, of 11 0] unfolding fs_example_dir(1) by (auto simp del: block_of_simps)
qed


end
