(* ===== verification/Dirhash.thy ===== *)
theory Dirhash
  imports Le_Bytes
begin

unbundle bit_operations_syntax

text \<open>
  Hashes of names: \<^verbatim>\<open>lib/ext2fs/dirhash.c\<close>, the keys of the index of a large directory. There are three functions,
  each for signed and for unsigned characters, because the type of \<^verbatim>\<open>char\<close> of the machine that made the index decides
  how its bytes are widened. \<^verbatim>\<open>casefold\<close>, reached through the table of an encoding, is an argument.
  The length of a name is an \<^verbatim>\<open>int\<close> in the code and a natural number here: negative lengths are left out.
\<close>

definition TEA_round :: "u32 list \<Rightarrow> u32 \<times> u32 \<times> u32 \<Rightarrow> u32 \<times> u32 \<times> u32" where
  "TEA_round inp = (\<lambda>(s, b0, b1).
     let s = s + 0x9E3779B9;
         b0 = b0 + ((push_bit 4 b1 + inp ! 0) XOR (b1 + s) XOR (drop_bit 5 b1 + inp ! 1));
         b1 = b1 + ((push_bit 4 b0 + inp ! 2) XOR (b0 + s) XOR (drop_bit 5 b0 + inp ! 3))
     in (s, b0, b1))"

definition TEA_transform :: "u32 list \<Rightarrow> u32 list \<Rightarrow> u32 list" where
  "TEA_transform buf inp = (case (TEA_round inp ^^ 16) (0, buf ! 0, buf ! 1) of (_, b0, b1) \<Rightarrow> [buf ! 0 + b0, buf ! 1 + b1, buf ! 2, buf ! 3])"

definition md4_F :: "u32 \<Rightarrow> u32 \<Rightarrow> u32 \<Rightarrow> u32" where
  "md4_F x y z = z XOR (x AND (y XOR z))"

definition md4_G :: "u32 \<Rightarrow> u32 \<Rightarrow> u32 \<Rightarrow> u32" where
  "md4_G x y z = (x AND y) + ((x XOR y) AND z)"

definition md4_H :: "u32 \<Rightarrow> u32 \<Rightarrow> u32 \<Rightarrow> u32" where
  "md4_H x y z = x XOR y XOR z"

definition ROUND :: "(u32 \<Rightarrow> u32 \<Rightarrow> u32 \<Rightarrow> u32) \<Rightarrow> u32 \<Rightarrow> u32 \<Rightarrow> u32 \<Rightarrow> u32 \<Rightarrow> u32 \<Rightarrow> nat \<Rightarrow> u32" where
  "ROUND f a b c d x s = (let a = a + (f b c d + x) in push_bit s a OR drop_bit (32 - s) a)"

definition halfMD4Transform :: "u32 list \<Rightarrow> u32 list \<Rightarrow> u32 list" where
  "halfMD4Transform buf inp =
    (let a = buf ! 0; b = buf ! 1; c = buf ! 2; d = buf ! 3; K1 = 0; K2 = 0x5A827999; K3 = 0x6ED9EBA1;
         a = ROUND md4_F a b c d (inp ! 0 + K1) 3;
         d = ROUND md4_F d a b c (inp ! 1 + K1) 7;
         c = ROUND md4_F c d a b (inp ! 2 + K1) 11;
         b = ROUND md4_F b c d a (inp ! 3 + K1) 19;
         a = ROUND md4_F a b c d (inp ! 4 + K1) 3;
         d = ROUND md4_F d a b c (inp ! 5 + K1) 7;
         c = ROUND md4_F c d a b (inp ! 6 + K1) 11;
         b = ROUND md4_F b c d a (inp ! 7 + K1) 19;
         a = ROUND md4_G a b c d (inp ! 1 + K2) 3;
         d = ROUND md4_G d a b c (inp ! 3 + K2) 5;
         c = ROUND md4_G c d a b (inp ! 5 + K2) 9;
         b = ROUND md4_G b c d a (inp ! 7 + K2) 13;
         a = ROUND md4_G a b c d (inp ! 0 + K2) 3;
         d = ROUND md4_G d a b c (inp ! 2 + K2) 5;
         c = ROUND md4_G c d a b (inp ! 4 + K2) 9;
         b = ROUND md4_G b c d a (inp ! 6 + K2) 13;
         a = ROUND md4_H a b c d (inp ! 3 + K3) 3;
         d = ROUND md4_H d a b c (inp ! 7 + K3) 9;
         c = ROUND md4_H c d a b (inp ! 2 + K3) 11;
         b = ROUND md4_H b c d a (inp ! 6 + K3) 15;
         a = ROUND md4_H a b c d (inp ! 1 + K3) 3;
         d = ROUND md4_H d a b c (inp ! 5 + K3) 9;
         c = ROUND md4_H c d a b (inp ! 0 + K3) 11;
         b = ROUND md4_H b c d a (inp ! 4 + K3) 15
     in [buf ! 0 + a, buf ! 1 + b, buf ! 2 + c, buf ! 3 + d])"

text \<open>A character as an \<^verbatim>\<open>int\<close>, modulo \<open>2\<^sup>32\<close>.\<close>

definition as_char :: "bool \<Rightarrow> u8 \<Rightarrow> u32" where
  "as_char unsigned_flag c = (if unsigned_flag then ucast c else scast c)"

primrec hack_loop :: "bool \<Rightarrow> u8 list \<Rightarrow> nat \<Rightarrow> nat \<Rightarrow> u32 \<Rightarrow> u32 \<Rightarrow> u32 ub" where
  "hack_loop uf name 0 i hash0 hash1 = Some hash0"
| "hack_loop uf name (Suc len) i hash0 hash1 = do {
     ch \<leftarrow> c_load name i;
     let hash = hash1 + (hash0 XOR (as_char uf ch * 7152373));
     let hash = (if hash AND 0x80000000 \<noteq> 0 then hash - 0x7fffffff else hash);
     hack_loop uf name len (Suc i) hash hash0
   }"

definition dx_hack_hash :: "u8 list \<Rightarrow> nat \<Rightarrow> bool \<Rightarrow> u32 ub" where
  "dx_hack_hash name len uf = map_option (push_bit 1) (hack_loop uf name len 0 0x12a3fe2d 0x37abe8f9)"

text \<open>The words written so far, the word in progress and the number of words left.\<close>

primrec hashbuf_loop :: "bool \<Rightarrow> u8 list \<Rightarrow> u32 \<Rightarrow> nat \<Rightarrow> nat \<Rightarrow> u32 list \<Rightarrow> u32 \<Rightarrow> nat \<Rightarrow> (u32 list \<times> u32 \<times> nat) ub" where
  "hashbuf_loop uf msg pad 0 i buf val num = Some (buf, val, num)"
| "hashbuf_loop uf msg pad (Suc k) i buf val num = do {
     ch \<leftarrow> c_load msg i;
     let val = as_char uf ch + push_bit 8 val;
     if i mod 4 = 3 then hashbuf_loop uf msg pad k (Suc i) (buf @ [val]) pad (num - 1)
     else hashbuf_loop uf msg pad k (Suc i) buf val num
   }"

definition hash_pad :: "nat \<Rightarrow> u32" where
  "hash_pad len = (let pad = of_nat len OR push_bit 8 (of_nat len) in pad OR push_bit 16 pad)"

definition str2hashbuf :: "u8 list \<Rightarrow> nat \<Rightarrow> nat \<Rightarrow> bool \<Rightarrow> u32 list ub" where
  "str2hashbuf msg len num uf = do {
     let pad = hash_pad len;
     (buf, val, num) \<leftarrow> hashbuf_loop uf msg pad (if len > num * 4 then num * 4 else len) 0 [] pad num;
     Some (if num \<ge> 1 then buf @ [val] @ replicate (num - 1) pad else buf)
   }"

fun hash_chunks :: "(u32 list \<Rightarrow> u32 list \<Rightarrow> u32 list) \<Rightarrow> nat \<Rightarrow> bool \<Rightarrow> u8 list \<Rightarrow> nat \<Rightarrow> u32 list \<Rightarrow> u32 list ub" where
  "hash_chunks transform num uf p len buf =
     (if len = 0 \<or> num = 0 then Some buf
      else do {
        inp \<leftarrow> str2hashbuf p len num uf;
        hash_chunks transform num uf (drop (num * 4) p) (len - num * 4) (transform buf inp)
      })"

declare hash_chunks.simps [simp del]

text \<open>The result is the code, the hash and the minor hash, or none where they are not written; \<open>seed\<close> is none for a null
pointer.\<close>

definition ext2fs_dirhash :: "nat \<Rightarrow> u8 list \<Rightarrow> nat \<Rightarrow> u32 list option \<Rightarrow> (errcode \<times> u32 option \<times> u32 option) ub" where
  "ext2fs_dirhash version name len seed = do {
     let buf0 = [0x67452301, 0xefcdab89, 0x98badcfe, 0x10325476];
     buf \<leftarrow> (case seed of
         None \<Rightarrow> Some buf0
       | Some s \<Rightarrow> map_option (\<lambda>s. if \<exists>x \<in> set s. x \<noteq> 0 then s else buf0) (c_get s 0 4));
     if version = 3 \<or> version = 0 then do {
       hash \<leftarrow> dx_hack_hash name len (version = 3);
       Some (E_OK, Some (hash AND NOT 1), Some 0)
     }
     else if version = 4 \<or> version = 1 then do {
       buf \<leftarrow> hash_chunks halfMD4Transform 8 (version = 4) name len buf;
       Some (E_OK, Some (buf ! 1 AND NOT 1), Some (buf ! 2))
     }
     else if version = 5 \<or> version = 2 then do {
       buf \<leftarrow> hash_chunks TEA_transform 4 (version = 5) name len buf;
       Some (E_OK, Some (buf ! 0 AND NOT 1), Some (buf ! 1))
     }
     else Some (EXT2_ET_DIRHASH_UNSUPP, Some 0, None)
   }"

text \<open>\<open>charset\<close> is the function \<^verbatim>\<open>casefold\<close> of an encoding: a length or a negative code, and the buffer.\<close>

definition ext2fs_dirhash2 ::
    "nat \<Rightarrow> u8 list \<Rightarrow> nat \<Rightarrow> (u8 list \<Rightarrow> nat \<Rightarrow> int \<times> u8 list) option \<Rightarrow> u32 \<Rightarrow> u32 list option \<Rightarrow> (errcode \<times> u32 option \<times> u32 option) ub" where
  "ext2fs_dirhash2 version name len charset hash_flags seed = (case charset of
       Some casefold \<Rightarrow>
         if len \<noteq> 0 \<and> hash_flags AND 0x40000000 \<noteq> 0 then
           (case casefold name len of (dlen, buff) \<Rightarrow>
              if dlen < 0 then (if dlen = -22 then ext2fs_dirhash version name len seed else Some (E_OTHER (nat (- dlen)), None, None))
              else ext2fs_dirhash version buff (nat dlen) seed)
         else ext2fs_dirhash version name len seed
     | None \<Rightarrow> ext2fs_dirhash version name len seed)"

subsection \<open>Words of a name\<close>

text \<open>The reference: the \<open>j\<close>-th word is the padding, shifted by the characters of the \<open>j\<close>-th group of four.\<close>

definition hash_word :: "bool \<Rightarrow> u32 \<Rightarrow> u8 list \<Rightarrow> u32" where
  "hash_word uf pad cs = foldl (\<lambda>val c. as_char uf c + push_bit 8 val) pad cs"

definition group4 :: "nat \<Rightarrow> 'a list \<Rightarrow> 'a list" where
  "group4 j m = take 4 (drop (4 * j) m)"

lemma hashbuf_loop_eq:
  assumes "i + k \<le> length msg" "num = n - i div 4" "i + k \<le> 4 * n"
    "buf = map (\<lambda>j. hash_word uf pad (group4 j (take i msg))) [0..<i div 4]" "val = hash_word uf pad (drop (4 * (i div 4)) (take i msg))"
  shows "hashbuf_loop uf msg pad k i buf val num = Some (map (\<lambda>j. hash_word uf pad (group4 j (take (i + k) msg))) [0..<(i + k) div 4],
      hash_word uf pad (drop (4 * ((i + k) div 4)) (take (i + k) msg)), n - (i + k) div 4)"
  using assms
proof (induction k arbitrary: i buf val num)
  case (Suc k)
  define q where "q = i div 4"
  have il: "i < length msg" using Suc.prems(1) by simp
  have t: "take (Suc i) msg = take i msg @ [msg ! i]" using il by (rule take_Suc_conv_app_nth)
  have v: "as_char uf (msg ! i) + push_bit 8 val = hash_word uf pad (drop (4 * q) (take (Suc i) msg))"
    using Suc.prems(5) il unfolding t q_def by (simp add: hash_word_def drop_append)
  have g: "group4 j (take (Suc i) msg) = group4 j (take i msg)" if "j < q" for j
    using that il unfolding t group4_def q_def by (simp add: min_def)
  show ?case
  proof (cases "i mod 4 = 3")
    case True
    then have d: "Suc i div 4 = Suc q" "Suc i = 4 * Suc q" unfolding q_def by presburger+
    have "group4 q (take (Suc i) msg) = drop (4 * q) (take (Suc i) msg)" using d(2) by (simp add: group4_def)
    then have b: "buf @ [as_char uf (msg ! i) + push_bit 8 val] = map (\<lambda>j. hash_word uf pad (group4 j (take (Suc i) msg))) [0..<Suc i div 4]"
      using Suc.prems(4) g v unfolding d(1) by (simp add: q_def)
    have p: "pad = hash_word uf pad (drop (4 * (Suc i div 4)) (take (Suc i) msg))" using d by (simp add: hash_word_def)
    have n: "num - 1 = n - Suc i div 4" using Suc.prems(2) d(1) by (simp add: q_def)
    from Suc.IH [OF _ n _ b p] Suc.prems(1,3) True il show ?thesis by simp
  next
    case False
    then have d: "Suc i div 4 = q" unfolding q_def by presburger
    have b: "buf = map (\<lambda>j. hash_word uf pad (group4 j (take (Suc i) msg))) [0..<Suc i div 4]" using Suc.prems(4) g unfolding d q_def by simp
    have n: "num = n - Suc i div 4" using Suc.prems(2) d by (simp add: q_def)
    from Suc.IH [OF _ n _ b v [folded d]] Suc.prems(1,3) False il show ?thesis by (simp add: d)
  qed
qed simp

lemma str2hashbuf_eq:
  assumes "len \<le> length msg" "0 < num"
  shows "str2hashbuf msg len num uf = Some (map (\<lambda>j. hash_word uf (hash_pad len) (group4 j (take len msg))) [0..<num])"
proof -
  define k pad where "k = min len (num * 4)" and "pad = hash_pad len"
  define q where "q = k div 4"
  let ?w = "\<lambda>j. hash_word uf pad (group4 j (take k msg))"
  have kl: "k \<le> length msg" "k \<le> 4 * num" "(if len > num * 4 then num * 4 else len) = k" using assms by (auto simp: k_def)
  have q: "q \<le> num" "4 * q \<le> k" "k < 4 * q + 4" using kl(2) unfolding q_def by linarith+
  have loop: "hashbuf_loop uf msg pad k 0 [] pad num = Some (map ?w [0..<q], hash_word uf pad (drop (4 * q) (take k msg)), num - q)"
    using hashbuf_loop_eq [of 0 k msg num num "[]" uf pad pad] kl by (simp add: hash_word_def q_def)
  have last: "hash_word uf pad (drop (4 * q) (take k msg)) = ?w q" using q by (simp add: group4_def)
  have rest: "?w j = pad" if "q < j" for j using that q(3) by (simp add: group4_def hash_word_def)
  have words: "map ?w [0..<num] = (if num - q \<ge> 1 then map ?w [0..<q] @ [?w q] @ replicate (num - q - 1) pad else map ?w [0..<q])"
  proof (cases "q < num")
    case True
    then have "[0..<num] = [0..<q] @ [q] @ [Suc q..<num]" using q(1) by (metis append_Cons append_Nil le_add_diff_inverse le0 upt_add_eq_append upt_conv_Cons)
    moreover have "map ?w [Suc q..<num] = replicate (num - q - 1) pad" using rest by (intro replicate_eqI) auto
    ultimately show ?thesis using True by simp
  next
    case False
    with q(1) show ?thesis by simp
  qed
  have same: "group4 j (take k msg) = group4 j (take len msg)" if "j < num" for j
    using that unfolding group4_def k_def by (cases "len \<le> num * 4") (simp_all add: min_def drop_take)
  have "str2hashbuf msg len num uf = Some (map ?w [0..<num])"
    unfolding str2hashbuf_def Let_def pad_def [symmetric] kl(3) loop last words by simp
  with same show ?thesis unfolding pad_def by (simp cong: map_cong)
qed

subsection \<open>The hashes as functions of the characters\<close>

primrec hack_fold :: "u32 list \<Rightarrow> u32 \<Rightarrow> u32 \<Rightarrow> u32" where
  "hack_fold [] hash0 hash1 = hash0"
| "hack_fold (c # cs) hash0 hash1 =
     (let hash = hash1 + (hash0 XOR (c * 7152373)) in hack_fold cs (if hash AND 0x80000000 \<noteq> 0 then hash - 0x7fffffff else hash) hash0)"

fun chunk_fold :: "(u32 list \<Rightarrow> u32 list \<Rightarrow> u32 list) \<Rightarrow> nat \<Rightarrow> u32 list \<Rightarrow> u32 list \<Rightarrow> u32 list" where
  "chunk_fold transform num cs buf =
     (if cs = [] \<or> num = 0 then buf
      else chunk_fold transform num (drop (num * 4) cs)
        (transform buf (map (\<lambda>j. foldl (\<lambda>val c. c + push_bit 8 val) (hash_pad (length cs)) (group4 j cs)) [0..<num])))"

declare chunk_fold.simps [simp del]

definition dirhash_ref :: "nat \<Rightarrow> u32 list \<Rightarrow> u32 list \<Rightarrow> u32 \<times> u32" where
  "dirhash_ref version cs buf =
     (if version mod 3 = 0 then (push_bit 1 (hack_fold cs 0x12a3fe2d 0x37abe8f9) AND NOT 1, 0)
      else if version mod 3 = 1 then (let r = chunk_fold halfMD4Transform 8 cs buf in (r ! 1 AND NOT 1, r ! 2))
      else (let r = chunk_fold TEA_transform 4 cs buf in (r ! 0 AND NOT 1, r ! 1)))"

definition seed_words :: "u32 list option \<Rightarrow> u32 list" where
  "seed_words seed = (case seed of
       Some s \<Rightarrow> if \<exists>x \<in> set (take 4 s). x \<noteq> 0 then take 4 s else [0x67452301, 0xefcdab89, 0x98badcfe, 0x10325476]
     | None \<Rightarrow> [0x67452301, 0xefcdab89, 0x98badcfe, 0x10325476])"

definition seed_ok :: "u32 list option \<Rightarrow> bool" where
  "seed_ok seed \<longleftrightarrow> (case seed of Some s \<Rightarrow> 4 \<le> length s | None \<Rightarrow> True)"

lemma hack_loop_eq:
  "i + len \<le> length name \<Longrightarrow> hack_loop uf name len i h0 h1 = Some (hack_fold (map (as_char uf) (take len (drop i name))) h0 h1)"
proof (induction len arbitrary: i h0 h1)
  case (Suc len)
  have "take (Suc len) (drop i name) = name ! i # take len (drop (Suc i) name)" using Suc.prems by (simp add: Cons_nth_drop_Suc [symmetric])
  with Suc show ?case by (simp add: Let_def)
qed simp

lemma hash_word_map: "hash_word uf pad cs = foldl (\<lambda>val c. c + push_bit 8 val) pad (map (as_char uf) cs)"
  by (simp add: hash_word_def foldl_map)

lemma hash_chunks_eq:
  "len \<le> length p \<Longrightarrow> 0 < num \<Longrightarrow> hash_chunks transform num uf p len buf = Some (chunk_fold transform num (map (as_char uf) (take len p)) buf)"
proof (induction len arbitrary: p buf rule: less_induct)
  case (less len)
  show ?case
  proof (cases "len = 0")
    case True
    then show ?thesis by (simp add: hash_chunks.simps chunk_fold.simps)
  next
    case False
    have g: "map (as_char uf) (group4 j (take len p)) = group4 j (map (as_char uf) (take len p))" for j by (simp add: group4_def take_map drop_map)
    have "hash_chunks transform num uf (drop (num * 4) p) (len - num * 4) b = Some (chunk_fold transform num (map (as_char uf) (take (len - num * 4) (drop (num * 4) p))) b)" for b
      using less.IH [of "len - num * 4" "drop (num * 4) p"] less.prems False by simp
    moreover have "take (len - num * 4) (drop (num * 4) p) = drop (num * 4) (take len p)" by (simp add: drop_take)
    moreover have "p \<noteq> []" using False less.prems(1) by auto
    ultimately show ?thesis using False less.prems
      by (subst hash_chunks.simps, subst chunk_fold.simps) (simp add: str2hashbuf_eq hash_word_map g drop_map)
  qed
qed

lemma dirhash_eq:
  assumes "len \<le> length name" "seed_ok seed"
  shows "ext2fs_dirhash version name len seed = Some (if version < 6
    then (let r = dirhash_ref version (map (as_char (3 \<le> version)) (take len name)) (seed_words seed) in (E_OK, Some (fst r), Some (snd r)))
    else (EXT2_ET_DIRHASH_UNSUPP, Some 0, None))"
proof -
  have seed: "(case seed of None \<Rightarrow> Some [0x67452301, 0xefcdab89, 0x98badcfe, 0x10325476]
       | Some s \<Rightarrow> map_option (\<lambda>s. if \<exists>x \<in> set s. x \<noteq> 0 then s else [0x67452301, 0xefcdab89, 0x98badcfe, 0x10325476]) (c_get s 0 4)) = Some (seed_words seed)"
    using assms(2) by (cases seed) (simp_all add: seed_ok_def seed_words_def c_get_def)
  consider "version = 0" | "version = 1" | "version = 2" | "version = 3" | "version = 4" | "version = 5" | "6 \<le> version" by linarith
  then show ?thesis unfolding ext2fs_dirhash_def Let_def seed
    by cases (use assms(1) in \<open>simp_all add: dx_hack_hash_def hack_loop_eq hash_chunks_eq dirhash_ref_def Let_def\<close>)
qed

text \<open>
  (C32) The hash of a name is computed without an access outside the name, from its first \<open>len\<close> characters only, and
  equals a reference over the list of the widened characters: chunks of 32 or 16 characters, each turned into words of
  four characters over the padding, are folded into the seed. A version that does not exist is refused with hash 0.
\<close>

theorem dirhash_correct:
  assumes "len \<le> length name" "seed_ok seed"
  shows "ext2fs_dirhash version name len seed = Some (if version < 6
    then (let r = dirhash_ref version (map (as_char (3 \<le> version)) (take len name)) (seed_words seed) in (E_OK, Some (fst r), Some (snd r)))
    else (EXT2_ET_DIRHASH_UNSUPP, Some 0, None))"
  by (rule dirhash_eq [OF assms])

lemma as_char_ascii: "c < 128 \<Longrightarrow> as_char True c = as_char False c"
proof -
  assume "c < 128"
  then have "unat c < 128" by (simp add: word_less_nat_alt)
  have "scast c = (ucast c :: u32)"
  proof (rule bit_word_eqI)
    fix n assume "n < LENGTH(32)"
    have "take_bit 7 (unat c) = unat c" using \<open>unat c < 128\<close> by (simp add: take_bit_nat_eq_self)
    then have "\<not> bit (unat c) 7" by (metis bit_take_bit_iff less_irrefl)
    then have no: "\<not> bit c 7" by (simp add: bit_unsigned_iff)
    have "m < 7" if "bit c m" for m
    proof -
      have "m < 8" using bit_imp_le_length [OF that] by simp
      with that no show ?thesis by (cases "m = 7") auto
    qed
    note no this
    then show "bit (scast c :: u32) n = bit (ucast c :: u32) n" by (auto simp: bit_simps min_def not_less dest: leD)
  qed
  then show ?thesis by (simp add: as_char_def)
qed

text \<open>
  For names of ASCII characters the signed and the unsigned version of every hash agree; every hash is even.
\<close>

theorem dirhash_ascii:
  assumes "len \<le> length name" "seed_ok seed" "version < 3" "\<forall>c \<in> set (take len name). c < 128"
  shows "ext2fs_dirhash (version + 3) name len seed = ext2fs_dirhash version name len seed
    \<and> (\<exists>h m. ext2fs_dirhash version name len seed = Some (E_OK, Some h, Some m) \<and> even h)"
proof -
  have m: "map (as_char True) (take len name) = map (as_char False) (take len name)" using assms(4) as_char_ascii by auto
  have v: "dirhash_ref (version + 3) cs buf = dirhash_ref version cs buf" for cs buf by (simp add: dirhash_ref_def)
  have "even (fst (dirhash_ref version cs buf))" for cs buf by (simp add: dirhash_ref_def Let_def even_and_iff)
  with assms v show ?thesis by (simp add: dirhash_eq Let_def m)
qed

theorem dirhash_correct_witness:
  "ext2fs_dirhash 1 (replicate 40 0x61) 40 None = Some (let r = dirhash_ref 1 (map (as_char False) (replicate 40 0x61)) (seed_words None) in (E_OK, Some (fst r), Some (snd r)))"
  using dirhash_correct [of 40 "replicate 40 0x61" None 1] by (simp add: seed_ok_def)

theorem dirhash_ascii_witness:
  "ext2fs_dirhash (2 + 3) (replicate 20 0x61) 20 (Some [1, 2, 3, 4]) = ext2fs_dirhash 2 (replicate 20 0x61) 20 (Some [1, 2, 3, 4])"
  using dirhash_ascii [of 20 "replicate 20 0x61" "Some [1, 2, 3, 4]" 2] by (simp add: seed_ok_def)

end
