(* ===== verification/C_Std.thy ===== *)
theory C_Std
  imports E2_Prelude "HOL-Library.Multiset"
begin

text \<open>
  What several components use of C and its library: conversions to \<^verbatim>\<open>int\<close>, arithmetic on \<^verbatim>\<open>int\<close> with its
  bounds, and \<^verbatim>\<open>qsort\<close> with the comparison as an argument.
\<close>

subsection \<open>Numbers\<close>

text \<open>A number converted to \<^verbatim>\<open>int\<close>, modulo \<open>2\<^sup>32\<close>.\<close>

definition to_int :: "int \<Rightarrow> int" where
  "to_int z = (z + 2147483648) mod 4294967296 - 2147483648"

text \<open>The result of an operation on \<^verbatim>\<open>int\<close>: an overflow is undefined.\<close>

definition c_int :: "int \<Rightarrow> int ub" where
  "c_int z = (if -2147483648 \<le> z \<and> z < 2147483648 then Some z else None)"

lemma c_int_inside [simp]: "-2147483648 \<le> z \<Longrightarrow> z < 2147483648 \<Longrightarrow> c_int z = Some z"
  by (simp add: c_int_def)

lemma to_int_small: "-2147483648 \<le> z \<Longrightarrow> z < 2147483648 \<Longrightarrow> to_int z = z"
  by (simp add: to_int_def)

lemma to_int_mod: "to_int (z mod 4294967296) = to_int z" "to_int (z mod 18446744073709551616) = to_int z"
proof -
  show "to_int (z mod 4294967296) = to_int z" by (simp add: to_int_def mod_add_left_eq)
  have "(z mod 18446744073709551616 + 2147483648) mod 4294967296 = (z mod 18446744073709551616 mod 4294967296 + 2147483648) mod 4294967296" by (simp only: mod_add_left_eq)
  also have "z mod 18446744073709551616 mod 4294967296 = z mod 4294967296" by (rule mod_mod_cancel) simp
  finally show "to_int (z mod 18446744073709551616) = to_int z" by (simp add: to_int_def mod_add_left_eq)
qed

lemma to_int_diff:
  "to_int (uint ((x :: u64) - y)) = to_int (uint x - uint y)" "to_int (uint ((v :: u32) - w)) = to_int (uint v - uint w)"
  using to_int_mod(2) [of "uint x - uint y"] to_int_mod(1) [of "uint v - uint w"] by (simp_all add: uint_word_ariths)

subsection \<open>Sorting\<close>

text \<open>
  \<^verbatim>\<open>qsort\<close>: defined when the comparison is defined and consistent on the elements, that is, a total order of
  classes of equal elements; the model keeps the order of equal elements.
\<close>

type_synonym 'a compar = "'a \<Rightarrow> 'a \<Rightarrow> int ub"

definition cmp_le :: "'a compar \<Rightarrow> 'a \<Rightarrow> 'a \<Rightarrow> bool" where
  "cmp_le cmp x y \<longleftrightarrow> (case cmp x y of Some c \<Rightarrow> c \<le> 0 | None \<Rightarrow> False)"

definition consistent :: "'a compar \<Rightarrow> 'a list \<Rightarrow> bool" where
  "consistent cmp xs \<longleftrightarrow> (\<forall>x \<in> set xs. \<forall>y \<in> set xs. cmp x y \<noteq> None \<and> (cmp_le cmp x y \<or> cmp_le cmp y x)
     \<and> (cmp x y = Some 0 \<longleftrightarrow> cmp y x = Some 0) \<and> (cmp_le cmp x y \<and> cmp_le cmp y x \<longrightarrow> cmp x y = Some 0)
     \<and> (\<forall>z \<in> set xs. cmp_le cmp x y \<and> cmp_le cmp y z \<longrightarrow> cmp_le cmp x z))"

fun insert_by :: "('a \<Rightarrow> 'a \<Rightarrow> bool) \<Rightarrow> 'a \<Rightarrow> 'a list \<Rightarrow> 'a list" where
  "insert_by le x [] = [x]"
| "insert_by le x (y # ys) = (if le x y then x # y # ys else y # insert_by le x ys)"

definition c_qsort :: "'a compar \<Rightarrow> 'a list \<Rightarrow> 'a list ub" where
  "c_qsort cmp xs = (if consistent cmp xs then Some (foldr (insert_by (cmp_le cmp)) xs []) else None)"

lemma insert_by_mset [simp]: "mset (insert_by le x xs) = add_mset x (mset xs)"
  by (induction xs) auto

lemma set_insert_by [simp]: "set (insert_by le x xs) = insert x (set xs)"
  by (induction xs) auto

lemma insert_by_sorted:
  assumes "\<And>y. y \<in> set xs \<Longrightarrow> le x y \<or> le y x" "\<And>y z. y \<in> set xs \<Longrightarrow> z \<in> set xs \<Longrightarrow> le x y \<Longrightarrow> le y z \<Longrightarrow> le x z" "sorted_wrt le xs"
  shows "sorted_wrt le (insert_by le x xs)"
  using assms by (induction xs) auto

lemma c_qsort_sorts:
  assumes "consistent cmp xs"
  shows "\<exists>ys. c_qsort cmp xs = Some ys \<and> mset ys = mset xs \<and> sorted_wrt (cmp_le cmp) ys"
proof -
  have "mset (foldr (insert_by (cmp_le cmp)) zs []) = mset zs \<and> sorted_wrt (cmp_le cmp) (foldr (insert_by (cmp_le cmp)) zs [])" if "set zs \<subseteq> set xs" for zs
    using that
  proof (induction zs)
    case (Cons z zs)
    let ?r = "foldr (insert_by (cmp_le cmp)) zs []"
    have IH: "mset ?r = mset zs" "sorted_wrt (cmp_le cmp) ?r" using Cons by simp_all
    then have "set ?r \<subseteq> set xs" "z \<in> set xs" using Cons.prems mset_eq_setD by fastforce+
    then have "sorted_wrt (cmp_le cmp) (insert_by (cmp_le cmp) z ?r)"
      using assms by (intro insert_by_sorted IH(2)) (unfold consistent_def, blast+)
    with IH show ?case by simp
  qed simp
  with assms show ?thesis by (simp add: c_qsort_def)
qed

text \<open>A comparison that has the sign of a comparison of keys is consistent.\<close>

lemma consistent_keys:
  fixes k :: "'a \<Rightarrow> 'b :: linorder"
  assumes "\<And>x y. x \<in> set xs \<Longrightarrow> y \<in> set xs \<Longrightarrow> \<exists>c. cmp x y = Some c \<and> (c \<le> 0 \<longleftrightarrow> k x \<le> k y) \<and> (c = 0 \<longleftrightarrow> k x = k y)"
  shows "consistent cmp xs" "x \<in> set xs \<Longrightarrow> y \<in> set xs \<Longrightarrow> cmp_le cmp x y \<longleftrightarrow> k x \<le> k y"
proof -
  have c: "cmp x y \<noteq> None" "cmp_le cmp x y \<longleftrightarrow> k x \<le> k y" "cmp x y = Some 0 \<longleftrightarrow> k x = k y" if "x \<in> set xs" "y \<in> set xs" for x y
    using assms [OF that] by (auto simp: cmp_le_def)
  show "consistent cmp xs" unfolding consistent_def by (intro ballI conjI impI) (auto simp: c)
  show "x \<in> set xs \<Longrightarrow> y \<in> set xs \<Longrightarrow> cmp_le cmp x y \<longleftrightarrow> k x \<le> k y" by (rule c)
qed

end
