(* ===== verification/Dblist.thy ===== *)
theory Dblist
  imports Blknum C_Std
begin

unbundle bit_operations_syntax

text \<open>
  The list of directory blocks: \<^verbatim>\<open>lib/ext2fs/dblist.c\<close>. \<^verbatim>\<open>e2fsck\<close> collects the blocks of all directories in a growing
  array, sorts it, and visits the blocks in the order of the disk. The file system that a list belongs to is an
  argument where it is used; a callback is a function on an entry and a state, with its flags as the first result.
\<close>

record db_entry2 =
  db_ino :: u32
  db_blk :: u64
  db_blockcnt :: int

record ext2_dblist =
  dl_magic :: errcode
  dl_size :: u64
  dl_count :: u64
  dl_sorted :: bool
  dl_list :: "db_entry2 list"

text \<open>\<open>ok1\<close> and \<open>ok2\<close> are the two allocations. The pointer for the result is never null in this file.\<close>

definition make_dblist :: "bool \<Rightarrow> bool \<Rightarrow> filsys \<Rightarrow> u32 \<Rightarrow> u32 \<Rightarrow> db_entry2 list option \<Rightarrow> (errcode + ext2_dblist) ub" where
  "make_dblist ok1 ok2 fs sz cnt list =
     (if fs_magic fs \<noteq> EXT2_ET_MAGIC_EXT2FS_FILSYS then Some (Inl EXT2_ET_MAGIC_EXT2FS_FILSYS)
      else if \<not> ok1 then Some (Inl EXT2_ET_NO_MEMORY)
      else do {
        r \<leftarrow> (if sz \<noteq> 0 then Some (Inr sz) else map_option (map_sum id (\<lambda>n. n * 2 + 12)) (ext2fs_get_num_dirs fs));
        case r of
          Inl retval \<Rightarrow> Some (Inl retval)
        | Inr sz \<Rightarrow>
            if \<not> ok2 then Some (Inl EXT2_ET_NO_MEMORY)
            else do {
              l \<leftarrow> (case list of
                  Some l \<Rightarrow> (if unat sz \<le> length l then Some (take (unat sz) l) else None)
                | None \<Rightarrow> Some (replicate (unat sz) \<lparr>db_ino = 0, db_blk = 0, db_blockcnt = 0\<rparr>));
              Some (Inr \<lparr>dl_magic = EXT2_ET_MAGIC_DBLIST, dl_size = ucast sz, dl_count = ucast cnt, dl_sorted = False, dl_list = l\<rparr>)
            }
      })"

definition ext2fs_init_dblist :: "bool \<Rightarrow> bool \<Rightarrow> filsys \<Rightarrow> (errcode + ext2_dblist) ub" where
  "ext2fs_init_dblist ok1 ok2 fs = map_option (map_sum id (\<lambda>dblist. dblist\<lparr>dl_sorted := True\<rparr>)) (make_dblist ok1 ok2 fs 0 0 None)"

definition ext2fs_copy_dblist :: "bool \<Rightarrow> bool \<Rightarrow> filsys \<Rightarrow> ext2_dblist \<Rightarrow> (errcode + ext2_dblist) ub" where
  "ext2fs_copy_dblist ok1 ok2 fs src =
     map_option (map_sum id (\<lambda>dblist. dblist\<lparr>dl_sorted := dl_sorted src\<rparr>))
       (make_dblist ok1 ok2 fs (ucast (dl_size src)) (ucast (dl_count src)) (Some (dl_list src)))"

text \<open>\<open>junk\<close> is what the new cells of a larger array hold. An entry has 24 bytes.\<close>

definition ext2fs_add_dir_block2 :: "bool \<Rightarrow> (nat \<Rightarrow> db_entry2) \<Rightarrow> ext2_dblist \<Rightarrow> u32 \<Rightarrow> u64 \<Rightarrow> int \<Rightarrow> (errcode \<times> ext2_dblist) ub" where
  "ext2fs_add_dir_block2 ok junk dblist ino blk blockcnt =
     (if dl_magic dblist \<noteq> EXT2_ET_MAGIC_DBLIST then Some (EXT2_ET_MAGIC_DBLIST, dblist)
      else do {
        let old_size = dl_size dblist * 24;
        let new_size = dl_size dblist + (if dl_size dblist > 200 then dl_size dblist div 2 else 100);
        let (retval, dblist) = (if dl_count dblist \<ge> dl_size dblist
          then (if ok then (E_OK, dblist\<lparr>dl_size := new_size, dl_list := c_realloc junk (dl_list dblist) (unat (new_size * 24) div 24)\<rparr>)
                else (EXT2_ET_NO_MEMORY, dblist\<lparr>dl_size := old_size div 24\<rparr>))
          else (E_OK, dblist));
        if retval \<noteq> E_OK then Some (retval, dblist)
        else do {
          l \<leftarrow> c_store (dl_list dblist) (unat (dl_count dblist)) \<lparr>db_ino = ino, db_blk = blk, db_blockcnt = blockcnt\<rparr>;
          Some (E_OK, dblist\<lparr>dl_list := l, dl_count := dl_count dblist + 1, dl_sorted := False\<rparr>)
        }
      })"

text \<open>The counter of the loop has 32 bits.\<close>

partial_function (option) set_dir_loop :: "ext2_dblist \<Rightarrow> u32 \<Rightarrow> u64 \<Rightarrow> int \<Rightarrow> u32 \<Rightarrow> (errcode \<times> ext2_dblist) ub" where
  [code]: "set_dir_loop dblist ino blk blockcnt i =
     (if ucast i < dl_count dblist then do {
        e \<leftarrow> c_load (dl_list dblist) (unat i);
        if db_ino e \<noteq> ino \<or> db_blockcnt e \<noteq> blockcnt then set_dir_loop dblist ino blk blockcnt (i + 1)
        else do {
          l \<leftarrow> c_store (dl_list dblist) (unat i) (e\<lparr>db_blk := blk\<rparr>);
          Some (E_OK, dblist\<lparr>dl_list := l, dl_sorted := False\<rparr>)
        }
      }
      else Some (EXT2_ET_DB_NOT_FOUND, dblist))"

definition ext2fs_set_dir_block2 :: "ext2_dblist \<Rightarrow> u32 \<Rightarrow> u64 \<Rightarrow> int \<Rightarrow> (errcode \<times> ext2_dblist) ub" where
  "ext2fs_set_dir_block2 dblist ino blk blockcnt =
     (if dl_magic dblist \<noteq> EXT2_ET_MAGIC_DBLIST then Some (EXT2_ET_MAGIC_DBLIST, dblist)
      else set_dir_loop dblist ino blk blockcnt 0)"

definition ext2fs_dblist_count2 :: "ext2_dblist \<Rightarrow> u64" where
  "ext2fs_dblist_count2 dblist = dl_count dblist"

definition ext2fs_dblist_get_last2 :: "ext2_dblist \<Rightarrow> (errcode + db_entry2) ub" where
  "ext2fs_dblist_get_last2 dblist =
     (if dl_magic dblist \<noteq> EXT2_ET_MAGIC_DBLIST then Some (Inl EXT2_ET_MAGIC_DBLIST)
      else if dl_count dblist = 0 then Some (Inl EXT2_ET_DBLIST_EMPTY)
      else map_option Inr (c_load (dl_list dblist) (unat (dl_count dblist - 1))))"

definition ext2fs_dblist_drop_last :: "ext2_dblist \<Rightarrow> errcode \<times> ext2_dblist" where
  "ext2fs_dblist_drop_last dblist =
     (if dl_magic dblist \<noteq> EXT2_ET_MAGIC_DBLIST then (EXT2_ET_MAGIC_DBLIST, dblist)
      else if dl_count dblist = 0 then (EXT2_ET_DBLIST_EMPTY, dblist)
      else (E_OK, dblist\<lparr>dl_count := dl_count dblist - 1\<rparr>))"

subsection \<open>Sorting\<close>

definition dir_block_cmp2 :: "db_entry2 compar" where
  "dir_block_cmp2 a b =
     (if db_blk a \<noteq> db_blk b then Some (to_int (uint (db_blk a - db_blk b)))
      else if db_ino a \<noteq> db_ino b then Some (to_int (uint (db_ino a - db_ino b)))
      else let d = db_blockcnt a - db_blockcnt b
           in if d < -9223372036854775808 \<or> d > 9223372036854775807 then None else Some (to_int d))"

definition ext2fs_dblist_sort2 :: "ext2_dblist \<Rightarrow> db_entry2 compar option \<Rightarrow> ext2_dblist ub" where
  "ext2fs_dblist_sort2 dblist sortfunc = do {
     let cmp = (case sortfunc of None \<Rightarrow> dir_block_cmp2 | Some f \<Rightarrow> f);
     let n = unat (dl_count dblist);
     if n > length (dl_list dblist) then None
     else do {
       l \<leftarrow> c_qsort cmp (take n (dl_list dblist));
       Some (dblist\<lparr>dl_list := l @ drop n (dl_list dblist), dl_sorted := True\<rparr>)
     }
   }"

subsection \<open>Iteration\<close>

type_synonym 's db_func = "db_entry2 \<Rightarrow> 's \<Rightarrow> (u32 \<times> db_entry2 \<times> 's) ub"

partial_function (option) dblist_loop :: "'s db_func \<Rightarrow> u64 \<Rightarrow> u64 \<Rightarrow> ext2_dblist \<Rightarrow> 's \<Rightarrow> (ext2_dblist \<times> 's) ub" where
  [code]: "dblist_loop func stop i dblist priv =
     (if i < stop then do {
        e \<leftarrow> c_load (dl_list dblist) (unat i);
        (ret, e, priv) \<leftarrow> func e priv;
        l \<leftarrow> c_store (dl_list dblist) (unat i) e;
        let dblist = dblist\<lparr>dl_list := l\<rparr>;
        if ret AND 1 \<noteq> 0 then Some (dblist, priv) else dblist_loop func stop (i + 1) dblist priv
      }
      else Some (dblist, priv))"

definition ext2fs_dblist_iterate3 :: "'s db_func \<Rightarrow> u64 \<Rightarrow> u64 \<Rightarrow> ext2_dblist \<Rightarrow> 's \<Rightarrow> (errcode \<times> ext2_dblist \<times> 's) ub" where
  "ext2fs_dblist_iterate3 func start cnt dblist priv =
     (if dl_magic dblist \<noteq> EXT2_ET_MAGIC_DBLIST then Some (EXT2_ET_MAGIC_DBLIST, dblist, priv)
      else do {
        let stop = start + cnt;
        dblist \<leftarrow> (if dl_sorted dblist then Some dblist else ext2fs_dblist_sort2 dblist None);
        let stop = (if stop > dl_count dblist then dl_count dblist else stop);
        (dblist, priv) \<leftarrow> dblist_loop func stop start dblist priv;
        Some (E_OK, dblist, priv)
      })"

definition ext2fs_dblist_iterate2 :: "'s db_func \<Rightarrow> ext2_dblist \<Rightarrow> 's \<Rightarrow> (errcode \<times> ext2_dblist \<times> 's) ub" where
  "ext2fs_dblist_iterate2 func dblist priv = ext2fs_dblist_iterate3 func 0 (dl_count dblist) dblist priv"

subsection \<open>The 32-bit interface\<close>

record db_entry =
  db32_ino :: u32
  db32_blk :: u32
  db32_blockcnt :: int

definition to_entry32 :: "db_entry2 \<Rightarrow> db_entry" where
  "to_entry32 e = \<lparr>db32_ino = db_ino e, db32_blk = ucast (db_blk e), db32_blockcnt = to_int (db_blockcnt e)\<rparr>"

definition ext2fs_add_dir_block :: "bool \<Rightarrow> (nat \<Rightarrow> db_entry2) \<Rightarrow> ext2_dblist \<Rightarrow> u32 \<Rightarrow> u32 \<Rightarrow> int \<Rightarrow> (errcode \<times> ext2_dblist) ub" where
  "ext2fs_add_dir_block ok junk dblist ino blk blockcnt = ext2fs_add_dir_block2 ok junk dblist ino (ucast blk) blockcnt"

definition ext2fs_set_dir_block :: "ext2_dblist \<Rightarrow> u32 \<Rightarrow> u32 \<Rightarrow> int \<Rightarrow> (errcode \<times> ext2_dblist) ub" where
  "ext2fs_set_dir_block dblist ino blk blockcnt = ext2fs_set_dir_block2 dblist ino (ucast blk) blockcnt"

definition dir_block_cmp :: "db_entry compar \<Rightarrow> db_entry2 compar" where
  "dir_block_cmp sortfunc32 a b = sortfunc32 (to_entry32 a) (to_entry32 b)"

definition ext2fs_dblist_sort :: "ext2_dblist \<Rightarrow> db_entry compar option \<Rightarrow> ext2_dblist ub" where
  "ext2fs_dblist_sort dblist sortfunc = ext2fs_dblist_sort2 dblist (map_option dir_block_cmp sortfunc)"

definition passthrough_func :: "(db_entry \<Rightarrow> 's \<Rightarrow> (u32 \<times> db_entry \<times> 's) ub) \<Rightarrow> 's db_func" where
  "passthrough_func func e priv = do {
     (ret, db, priv) \<leftarrow> func (to_entry32 e) priv;
     Some (ret, \<lparr>db_ino = db32_ino db, db_blk = ucast (db32_blk db), db_blockcnt = db32_blockcnt db\<rparr>, priv)
   }"

definition ext2fs_dblist_iterate :: "(db_entry \<Rightarrow> 's \<Rightarrow> (u32 \<times> db_entry \<times> 's) ub) \<Rightarrow> ext2_dblist \<Rightarrow> 's \<Rightarrow> (errcode \<times> ext2_dblist \<times> 's) ub" where
  "ext2fs_dblist_iterate func dblist priv =
     (if dl_magic dblist \<noteq> EXT2_ET_MAGIC_DBLIST then Some (EXT2_ET_MAGIC_DBLIST, dblist, priv)
      else ext2fs_dblist_iterate2 (passthrough_func func) dblist priv)"

definition ext2fs_dblist_count :: "ext2_dblist \<Rightarrow> int" where
  "ext2fs_dblist_count dblist = to_int (uint (dl_count dblist))"

definition ext2fs_dblist_get_last :: "ext2_dblist \<Rightarrow> (errcode + db_entry) ub" where
  "ext2fs_dblist_get_last dblist =
     (if dl_magic dblist \<noteq> EXT2_ET_MAGIC_DBLIST then Some (Inl EXT2_ET_MAGIC_DBLIST)
      else if dl_count dblist = 0 then Some (Inl EXT2_ET_DBLIST_EMPTY)
      else map_option (\<lambda>e. Inr (to_entry32 e)) (c_load (dl_list dblist) (unat (dl_count dblist - 1))))"

subsection \<open>A growing list\<close>

definition db_entries :: "ext2_dblist \<Rightarrow> db_entry2 list" where
  "db_entries dl = take (unat (dl_count dl)) (dl_list dl)"

text \<open>
  A list in good order: the array has as many cells as the size says, and the entries fit. The size stays so
  small that none of the products with the size of an entry overflows.
\<close>

definition dl_ok :: "ext2_dblist \<Rightarrow> bool" where
  "dl_ok dl \<longleftrightarrow> dl_magic dl = EXT2_ET_MAGIC_DBLIST \<and> dl_count dl \<le> dl_size dl \<and> length (dl_list dl) = unat (dl_size dl) \<and> unat (dl_size dl) \<le> 2 ^ 33"

lemma dl_okD:
  assumes "dl_ok dl"
  shows "dl_magic dl = EXT2_ET_MAGIC_DBLIST" "unat (dl_count dl) \<le> length (dl_list dl)" "length (db_entries dl) = unat (dl_count dl)"
    "length (dl_list dl) = unat (dl_size dl)" "unat (dl_size dl) \<le> 2 ^ 33"
  using assms by (auto simp: dl_ok_def db_entries_def word_le_nat_alt)

lemma add_dir_block_ok:
  assumes ok: "dl_ok dl" and room: "length (db_entries dl) < 2 ^ 32"
  shows "\<exists>code dl'. ext2fs_add_dir_block2 mem junk dl ino blk cnt = Some (code, dl') \<and> dl_ok dl'
    \<and> (code = E_OK \<and> db_entries dl' = db_entries dl @ [\<lparr>db_ino = ino, db_blk = blk, db_blockcnt = cnt\<rparr>]
       \<or> code = EXT2_ET_NO_MEMORY \<and> \<not> mem \<and> db_entries dl' = db_entries dl)"
proof -
  note d = dl_okD [OF ok]
  define c where "c = unat (dl_count dl)"
  have c: "c < 2 ^ 32" "unat (dl_count dl + 1) = c + 1" using room d(3) by (simp_all add: c_def unat_word_ariths)
  define new where "new = dl_size dl + (if dl_size dl > 200 then dl_size dl div 2 else 100)"
  have u: "unat new = unat (dl_size dl) + (if unat (dl_size dl) > 200 then unat (dl_size dl) div 2 else 100)"
    using d(5) by (auto simp: new_def unat_word_ariths word_less_nat_alt unat_div)
  have n24: "unat (new * 24) div 24 = unat new" using u d(5) by (simp add: unat_word_ariths)
  have s24: "dl_size dl * 24 div 24 = dl_size dl"
  proof -
    have "unat (dl_size dl * 24) = unat (dl_size dl) * 24" using d(5) by (simp add: unat_word_ariths)
    then have "unat (dl_size dl * 24 div 24) = unat (dl_size dl)" by (simp add: unat_div)
    then show ?thesis by (simp add: word_unat_eq_iff)
  qed
  have app: "take (c + 1) (l[c := v]) = db_entries dl @ [v]" if "take c l = db_entries dl" "c < length l" for l v
    using that by (simp add: take_Suc_conv_app_nth)
  have same: "take c (dl_list dl) = db_entries dl" by (simp add: db_entries_def c_def)
  show ?thesis
  proof (cases "dl_count dl \<ge> dl_size dl")
    case False
    with c app [OF same] d s24 ok show ?thesis
      by (auto simp: ext2fs_add_dir_block2_def Let_def dl_ok_def c_def [symmetric] db_entries_def word_le_nat_alt)
  next
    case True
    then have sz: "unat (dl_size dl) = c" using d(2,4) by (simp add: c_def word_le_nat_alt)
    have new: "c < unat new" "unat new \<le> 2 ^ 33" using u sz c(1) by auto
    have "take c (c_realloc junk (dl_list dl) (unat new)) = db_entries dl" using same sz d(4) new by (simp add: db_entries_def c_def)
    from app [OF this] True c d new s24 n24 ok sz show ?thesis
      by (cases mem) (auto simp: ext2fs_add_dir_block2_def Let_def dl_ok_def c_def [symmetric] new_def [symmetric] db_entries_def word_le_nat_alt)
  qed
qed

text \<open>The first entry of an inode at a position gets another block.\<close>

primrec set_first :: "u32 \<Rightarrow> u64 \<Rightarrow> int \<Rightarrow> db_entry2 list \<Rightarrow> db_entry2 list option" where
  "set_first ino blk cnt [] = None"
| "set_first ino blk cnt (e # es) =
     (if db_ino e = ino \<and> db_blockcnt e = cnt then Some (e\<lparr>db_blk := blk\<rparr> # es) else map_option ((#) e) (set_first ino blk cnt es))"

lemma set_dir_loop_eq:
  assumes ok: "dl_ok dl" and room: "length (db_entries dl) < 2 ^ 32" and e: "db_entries dl = P @ es" "length P = unat i"
  shows "\<exists>code dl'. set_dir_loop dl ino blk cnt i = Some (code, dl') \<and> dl_ok dl'
    \<and> (case set_first ino blk cnt es of None \<Rightarrow> code = EXT2_ET_DB_NOT_FOUND \<and> dl' = dl | Some es' \<Rightarrow> code = E_OK \<and> db_entries dl' = P @ es')"
  using e
proof (induction es arbitrary: P i)
  case Nil
  then have "\<not> ucast i < dl_count dl" using dl_okD(3) [OF ok] by (simp add: word_less_nat_alt unat_ucast_32_64)
  with ok show ?case by (subst set_dir_loop.simps) simp
next
  case (Cons e es)
  note d = dl_okD [OF ok]
  have i: "unat i < unat (dl_count dl)" "unat i < length (dl_list dl)" using Cons.prems d(2,3) by simp_all
  have "db_entries dl ! unat i = e" using Cons.prems by (simp add: nth_append)
  with i(1) have "dl_list dl ! unat i = e" by (simp add: db_entries_def)
  note i = i this
  from i(1) have lt: "ucast i < dl_count dl" by (simp add: word_less_nat_alt unat_ucast_32_64)
  show ?case
  proof (cases "db_ino e = ino \<and> db_blockcnt e = cnt")
    case True
    have "take (unat (dl_count dl)) ((dl_list dl)[unat i := v]) = P @ v # es" for v
      using arg_cong [OF Cons.prems(1), of "\<lambda>l. l[unat i := v]"] Cons.prems(2) by (simp add: db_entries_def take_update_swap list_update_append)
    with True lt i ok show ?thesis by (subst set_dir_loop.simps) (auto simp: dl_ok_def db_entries_def)
  next
    case False
    have "unat (i + 1) = unat i + 1" using i(1) room d(3) by (simp add: unat_word_ariths)
    then have "length (P @ [e]) = unat (i + 1)" using Cons.prems(2) by simp
    from Cons.IH [of "P @ [e]", OF _ this, unfolded append_assoc append_Cons append_Nil] Cons.prems(1) have "\<exists>code dl'. set_dir_loop dl ino blk cnt (i + 1) = Some (code, dl') \<and> dl_ok dl'
        \<and> (case set_first ino blk cnt es of None \<Rightarrow> code = EXT2_ET_DB_NOT_FOUND \<and> dl' = dl | Some es' \<Rightarrow> code = E_OK \<and> db_entries dl' = P @ e # es')" by simp
    moreover have "set_dir_loop dl ino blk cnt i = set_dir_loop dl ino blk cnt (i + 1)" using False lt i by (subst set_dir_loop.simps) auto
    ultimately show ?thesis using False by (auto split: option.splits)
  qed
qed

lemma drop_last_ok:
  assumes "dl_ok dl"
  shows "ext2fs_dblist_drop_last dl = (if db_entries dl = [] then (EXT2_ET_DBLIST_EMPTY, dl) else (E_OK, dl\<lparr>dl_count := dl_count dl - 1\<rparr>))"
    "db_entries dl \<noteq> [] \<Longrightarrow> dl_ok (dl\<lparr>dl_count := dl_count dl - 1\<rparr>) \<and> db_entries (dl\<lparr>dl_count := dl_count dl - 1\<rparr>) = butlast (db_entries dl)"
proof -
  note d = dl_okD [OF assms]
  have z: "db_entries dl = [] \<longleftrightarrow> dl_count dl = 0" using d(3) by (metis length_0_conv unat_eq_zero)
  then show "ext2fs_dblist_drop_last dl = (if db_entries dl = [] then (EXT2_ET_DBLIST_EMPTY, dl) else (E_OK, dl\<lparr>dl_count := dl_count dl - 1\<rparr>))"
    using d(1) by (simp add: ext2fs_dblist_drop_last_def)
  assume "db_entries dl \<noteq> []"
  then have "unat (dl_count dl - 1) = unat (dl_count dl) - 1" using z by (simp add: unat_minus_one)
  then show "dl_ok (dl\<lparr>dl_count := dl_count dl - 1\<rparr>) \<and> db_entries (dl\<lparr>dl_count := dl_count dl - 1\<rparr>) = butlast (db_entries dl)"
    using assms d(2) by (auto simp: dl_ok_def db_entries_def word_le_nat_alt butlast_take)
qed

subsection \<open>Any number of changes\<close>

datatype db_op = Db_Add bool u32 u64 int | Db_Set u32 u64 int | Db_Drop

primrec db_step :: "(nat \<Rightarrow> db_entry2) \<Rightarrow> db_op \<Rightarrow> ext2_dblist \<Rightarrow> (errcode \<times> ext2_dblist) ub" where
  "db_step junk (Db_Add mem ino blk cnt) dl = ext2fs_add_dir_block2 mem junk dl ino blk cnt"
| "db_step junk (Db_Set ino blk cnt) dl = ext2fs_set_dir_block2 dl ino blk cnt"
| "db_step junk Db_Drop dl = Some (ext2fs_dblist_drop_last dl)"

primrec db_run :: "(nat \<Rightarrow> db_entry2) \<Rightarrow> db_op list \<Rightarrow> ext2_dblist \<Rightarrow> (errcode list \<times> ext2_dblist) ub" where
  "db_run junk [] dl = Some ([], dl)"
| "db_run junk (op # ops) dl = do {
     (c, dl) \<leftarrow> db_step junk op dl;
     (cs, dl) \<leftarrow> db_run junk ops dl;
     Some (c # cs, dl)
   }"

text \<open>The contract: a list that grows at its end.\<close>

inductive db_trace :: "db_entry2 list \<Rightarrow> db_op list \<Rightarrow> errcode list \<Rightarrow> db_entry2 list \<Rightarrow> bool" where
  db_end: "db_trace es [] [] es"
| db_add: "db_trace (es @ [\<lparr>db_ino = ino, db_blk = blk, db_blockcnt = cnt\<rparr>]) ops cs es' \<Longrightarrow> db_trace es (Db_Add mem ino blk cnt # ops) (E_OK # cs) es'"
| db_no_memory: "db_trace es ops cs es' \<Longrightarrow> db_trace es (Db_Add False ino blk cnt # ops) (EXT2_ET_NO_MEMORY # cs) es'"
| db_set: "set_first ino blk cnt es = Some es1 \<Longrightarrow> db_trace es1 ops cs es' \<Longrightarrow> db_trace es (Db_Set ino blk cnt # ops) (E_OK # cs) es'"
| db_unset: "set_first ino blk cnt es = None \<Longrightarrow> db_trace es ops cs es' \<Longrightarrow> db_trace es (Db_Set ino blk cnt # ops) (EXT2_ET_DB_NOT_FOUND # cs) es'"
| db_drop: "es \<noteq> [] \<Longrightarrow> db_trace (butlast es) ops cs es' \<Longrightarrow> db_trace es (Db_Drop # ops) (E_OK # cs) es'"
| db_drop_empty: "db_trace [] ops cs es' \<Longrightarrow> db_trace [] (Db_Drop # ops) (EXT2_ET_DBLIST_EMPTY # cs) es'"

lemma set_first_length: "set_first ino blk cnt es = Some es' \<Longrightarrow> length es' = length es"
  by (induction es arbitrary: es') (auto split: if_splits)

lemma db_step_simulates:
  assumes ok: "dl_ok dl" and room: "length (db_entries dl) < 2 ^ 32"
  shows "\<exists>c dl'. db_step junk op dl = Some (c, dl') \<and> dl_ok dl' \<and> length (db_entries dl') \<le> length (db_entries dl) + 1
    \<and> (\<forall>ops cs es. db_trace (db_entries dl') ops cs es \<longrightarrow> db_trace (db_entries dl) (op # ops) (c # cs) es)"
proof (cases op)
  case (Db_Add mem ino blk cnt)
  from add_dir_block_ok [OF ok room, of mem junk ino blk cnt] show ?thesis unfolding Db_Add by (cases mem) (auto intro: db_trace.intros)
next
  case (Db_Set ino blk cnt)
  from set_dir_loop_eq [OF ok room, of "[]" "db_entries dl" 0 ino blk cnt, unfolded append_Nil] obtain code dl' where
    s: "set_dir_loop dl ino blk cnt 0 = Some (code, dl')" "dl_ok dl'"
      "case set_first ino blk cnt (db_entries dl) of None \<Rightarrow> code = EXT2_ET_DB_NOT_FOUND \<and> dl' = dl | Some es' \<Rightarrow> code = E_OK \<and> db_entries dl' = es'" by fastforce
  then show ?thesis unfolding Db_Set using dl_okD(1) [OF ok] set_first_length [of ino blk cnt "db_entries dl"]
    by (cases "set_first ino blk cnt (db_entries dl)") (auto simp: ext2fs_set_dir_block2_def intro: db_trace.intros)
next
  case Db_Drop
  show ?thesis
  proof (cases "db_entries dl = []")
    case True
    then show ?thesis using drop_last_ok(1) [OF ok] ok by (auto simp: Db_Drop intro: db_trace.intros)
  next
    case False
    then show ?thesis using drop_last_ok [OF ok] by (auto simp: Db_Drop intro: db_trace.intros)
  qed
qed

text \<open>
  (C16) Any history of additions, changes and removals of the last entry runs without an undefined access and without
  end-less loops, returns the codes and leaves the entries that a list which grows at its end prescribes, as long
  as there are fewer than \<open>2\<^sup>32\<close> entries; an addition may be refused for lack of memory.
\<close>

theorem dblist_history:
  assumes "dl_ok dl" "length (db_entries dl) + length ops \<le> 2 ^ 32"
  shows "\<exists>cs dl'. db_run junk ops dl = Some (cs, dl') \<and> dl_ok dl' \<and> db_trace (db_entries dl) ops cs (db_entries dl')"
  using assms
proof (induction ops arbitrary: dl)
  case Nil
  then show ?case by (auto intro: db_end)
next
  case (Cons op ops)
  then have "length (db_entries dl) < 2 ^ 32" by simp
  from db_step_simulates [OF Cons.prems(1) this, of junk op] obtain c dl1 where
    s: "db_step junk op dl = Some (c, dl1)" "dl_ok dl1" "length (db_entries dl1) \<le> length (db_entries dl) + 1"
      "\<And>ops cs es. db_trace (db_entries dl1) ops cs es \<Longrightarrow> db_trace (db_entries dl) (op # ops) (c # cs) es" by blast
  from s(3) Cons.prems(2) have "length (db_entries dl1) + length ops \<le> 2 ^ 32" by simp
  from Cons.IH [OF s(2) this] s(1,4) show ?case by auto
qed

subsection \<open>The order of the visits\<close>

definition db_le :: "db_entry2 \<Rightarrow> db_entry2 \<Rightarrow> bool" where
  "db_le a b \<longleftrightarrow> db_blk a < db_blk b \<or> db_blk a = db_blk b \<and> (db_ino a < db_ino b \<or> db_ino a = db_ino b \<and> db_blockcnt a \<le> db_blockcnt b)"

definition db_small :: "db_entry2 \<Rightarrow> bool" where
  "db_small e \<longleftrightarrow> db_blk e < 2147483648 \<and> db_ino e < 2147483648 \<and> -1073741824 \<le> db_blockcnt e \<and> db_blockcnt e < 1073741824"

lemma cmp2_small:
  assumes "db_small a" "db_small b"
  shows "\<exists>c. dir_block_cmp2 a b = Some c \<and> (c \<le> 0 \<longleftrightarrow> db_le a b) \<and> (c = 0 \<longleftrightarrow> a = b)"
proof -
  have u: "uint (db_blk a) < 2147483648" "uint (db_blk b) < 2147483648" "uint (db_ino a) < 2147483648" "uint (db_ino b) < 2147483648"
    using assms by (simp_all add: db_small_def word_less_def)
  have p: "0 \<le> uint (db_blk a)" "0 \<le> uint (db_blk b)" "0 \<le> uint (db_ino a)" "0 \<le> uint (db_ino b)" by simp_all
  have b: "to_int (uint (db_blk a - db_blk b)) = uint (db_blk a) - uint (db_blk b)" "to_int (uint (db_ino a - db_ino b)) = uint (db_ino a) - uint (db_ino b)"
    unfolding to_int_diff using u p by (intro to_int_small; linarith)+
  have c: "to_int (db_blockcnt a - db_blockcnt b) = db_blockcnt a - db_blockcnt b" "\<not> (db_blockcnt a - db_blockcnt b < -9223372036854775808 \<or> db_blockcnt a - db_blockcnt b > 9223372036854775807)"
    using assms by (auto simp: db_small_def intro!: to_int_small)
  show ?thesis unfolding dir_block_cmp2_def b Let_def c(1) if_not_P [OF c(2)] db_le_def word_less_def
    by (auto simp: word_uint_eq_iff intro: db_entry2.equality)
qed

lemma cmp2_consistent:
  assumes "\<forall>e \<in> set es. db_small e"
  shows "consistent dir_block_cmp2 es" "x \<in> set es \<Longrightarrow> y \<in> set es \<Longrightarrow> cmp_le dir_block_cmp2 x y = db_le x y"
proof -
  have le: "cmp_le dir_block_cmp2 x y = db_le x y" "dir_block_cmp2 x y \<noteq> None" "dir_block_cmp2 x y = Some 0 \<longleftrightarrow> x = y" if "x \<in> set es" "y \<in> set es" for x y
    using cmp2_small [of x y] assms that by (auto simp: cmp_le_def)
  then show "x \<in> set es \<Longrightarrow> y \<in> set es \<Longrightarrow> cmp_le dir_block_cmp2 x y = db_le x y" by blast
  have o: "db_le x y \<or> db_le y x" "db_le x y \<Longrightarrow> db_le y x \<Longrightarrow> x = y" "db_le x y \<Longrightarrow> db_le y z \<Longrightarrow> db_le x z" for x y z
    by (auto simp: db_le_def intro: db_entry2.equality)
  show "consistent dir_block_cmp2 es" unfolding consistent_def
  proof (intro ballI conjI impI)
    fix x y assume xy: "x \<in> set es" "y \<in> set es"
    show "dir_block_cmp2 x y \<noteq> None" by (rule le(2) [OF xy])
    show "cmp_le dir_block_cmp2 x y \<or> cmp_le dir_block_cmp2 y x" using le(1) xy o(1) by simp
    show "dir_block_cmp2 x y = Some 0 \<longleftrightarrow> dir_block_cmp2 y x = Some 0" using le(3) xy by auto
    show "dir_block_cmp2 x y = Some 0" if "cmp_le dir_block_cmp2 x y \<and> cmp_le dir_block_cmp2 y x" using that le xy o(2) by auto
    show "cmp_le dir_block_cmp2 x z" if "z \<in> set es" "cmp_le dir_block_cmp2 x y \<and> cmp_le dir_block_cmp2 y z" for z using that le(1) xy o(3) by auto
  qed
qed

primrec db_visit :: "'s db_func \<Rightarrow> db_entry2 list \<Rightarrow> 's \<Rightarrow> (db_entry2 list \<times> 's) ub" where
  "db_visit func [] s = Some ([], s)"
| "db_visit func (e # es) s = do {
     (ret, e, s) \<leftarrow> func e s;
     if ret AND 1 \<noteq> 0 then Some (e # es, s)
     else do {
       (es, s) \<leftarrow> db_visit func es s;
       Some (e # es, s)
     }
   }"

lemma dblist_loop_eq:
  "dl_list dl = P @ es @ R \<Longrightarrow> length P = unat i \<Longrightarrow> length (P @ es) = unat stop \<Longrightarrow>
    dblist_loop func stop i dl s = map_option (\<lambda>(es', s'). (dl\<lparr>dl_list := P @ es' @ R\<rparr>, s')) (db_visit func es s)"
proof (induction es arbitrary: P i dl s)
  case Nil
  then have "\<not> i < stop" "dl\<lparr>dl_list := P @ R\<rparr> = dl" by (simp_all add: word_less_nat_alt)
  then show ?case by (subst dblist_loop.simps) simp
next
  case (Cons e es)
  have lt: "i < stop" using Cons.prems by (simp add: word_less_nat_alt)
  then have "unat i + 1 < 18446744073709551616" using unat_u64_less [of stop] unfolding word_less_nat_alt by linarith
  then have i: "unat (i + 1) = unat i + 1" by (simp add: unat_word_ariths)
  have at: "c_load (dl_list dl) (unat i) = Some e" "c_store (dl_list dl) (unat i) v = Some (P @ v # es @ R)" for v
    using Cons.prems(1,2) by (simp_all add: c_load_def c_store_def nth_append list_update_append)
  show ?case
  proof (cases "func e s")
    case None
    with lt at show ?thesis by (subst dblist_loop.simps) simp
  next
    case (Some r)
    obtain ret e' s' where r: "r = (ret, e', s')" by (cases r)
    have "dblist_loop func stop (i + 1) (dl\<lparr>dl_list := P @ e' # es @ R\<rparr>) s'
        = map_option (\<lambda>(es', s'). (dl\<lparr>dl_list := P @ e' # es' @ R\<rparr>, s')) (db_visit func es s')"
      using Cons.IH [of "dl\<lparr>dl_list := P @ e' # es @ R\<rparr>" "P @ [e']" "i + 1" s'] Cons.prems i by simp
    with lt at Some r show ?thesis by (cases "db_visit func es s'"; subst dblist_loop.simps) (auto simp: case_prod_beta)
  qed
qed

text \<open>
  (C15) An iteration over an unsorted list of directory blocks calls the function once for each entry, in ascending
  order of the blocks (and of inode and position for equal blocks), until it asks to stop, provided that block and
  inode numbers are below \<open>2\<^sup>31\<close> and the positions are small. It changes nothing in the list but its order
  and what the function changes.
\<close>

theorem dblist_iterate_order:
  assumes ok: "dl_ok dl" and un: "\<not> dl_sorted dl" and small: "\<forall>e \<in> set (db_entries dl). db_small e"
  shows "\<exists>es. mset es = mset (db_entries dl) \<and> sorted_wrt db_le es
    \<and> ext2fs_dblist_iterate2 func dl s = map_option (\<lambda>(es', s'). (E_OK, dl\<lparr>dl_list := es' @ drop (unat (dl_count dl)) (dl_list dl), dl_sorted := True\<rparr>, s')) (db_visit func es s)"
proof -
  note d = dl_okD [OF ok]
  let ?n = "unat (dl_count dl)"
  from c_qsort_sorts [OF cmp2_consistent(1) [OF small]] obtain es where
    q: "c_qsort dir_block_cmp2 (db_entries dl) = Some es" "mset es = mset (db_entries dl)" "sorted_wrt (cmp_le dir_block_cmp2) es" by blast
  have st: "set es = set (db_entries dl)" using q(2) by (rule mset_eq_setD)
  have srt: "sorted_wrt db_le es" using q(3) by (rule sorted_wrt_mono_rel [rotated]) (use cmp2_consistent(2) [OF small] st in blast)
  have len: "length es = ?n" using q(2) d(3) by (metis mset_eq_length)
  let ?dl = "dl\<lparr>dl_list := es @ drop ?n (dl_list dl), dl_sorted := True\<rparr>"
  have "ext2fs_dblist_sort2 dl None = Some ?dl" using q(1) d(2) by (simp add: ext2fs_dblist_sort2_def Let_def db_entries_def)
  moreover have "dblist_loop func (dl_count dl) 0 ?dl s = map_option (\<lambda>(es', s'). (?dl\<lparr>dl_list := es' @ drop ?n (dl_list dl)\<rparr>, s')) (db_visit func es s)"
    using dblist_loop_eq [of ?dl "[]" es "drop ?n (dl_list dl)" 0 "dl_count dl" func s] len by simp
  ultimately have "ext2fs_dblist_iterate2 func dl s = map_option (\<lambda>(es', s'). (E_OK, dl\<lparr>dl_list := es' @ drop ?n (dl_list dl), dl_sorted := True\<rparr>, s')) (db_visit func es s)"
    using un d(1) by (cases "db_visit func es s") (auto simp: ext2fs_dblist_iterate2_def ext2fs_dblist_iterate3_def Let_def)
  with q(2) srt show ?thesis by blast
qed

text \<open>
  (C31) The comparison takes the difference of two 64-bit block numbers for an \<^verbatim>\<open>int\<close>: for three blocks that are
  \<open>0x60000000\<close> apart it goes around in a circle, so sorting a list that has them, and with it every iteration, is
  undefined.
\<close>

theorem dblist_sort_undefined:
  assumes abc: "{a, b, c} \<subseteq> set (db_entries dl)" "db_blk b = db_blk a + 0x60000000" "db_blk c = db_blk a + 0xC0000000"
    and dl: "\<not> dl_sorted dl" "dl_magic dl = EXT2_ET_MAGIC_DBLIST"
  shows "ext2fs_dblist_sort2 dl None = None \<and> ext2fs_dblist_iterate2 func dl s = None"
proof -
  have d: "db_blk a - db_blk b = - 0x60000000" "db_blk b - db_blk c = - 0x60000000" "db_blk a - db_blk c = - 0xC0000000"
    "db_blk a \<noteq> db_blk b" "db_blk b \<noteq> db_blk c" "db_blk a \<noteq> db_blk c" using abc(2,3) by simp_all
  have "to_int (uint (- 0x60000000 :: u64)) = -1610612736" "to_int (uint (- 0xC0000000 :: u64)) = 1073741824" by (simp_all add: to_int_def)
  with d have "cmp_le dir_block_cmp2 a b" "cmp_le dir_block_cmp2 b c" "\<not> cmp_le dir_block_cmp2 a c" by (simp_all add: cmp_le_def dir_block_cmp2_def)
  with abc(1) have "\<not> consistent dir_block_cmp2 (db_entries dl)" unfolding consistent_def by blast
  then have "ext2fs_dblist_sort2 dl None = None" by (simp add: ext2fs_dblist_sort2_def c_qsort_def Let_def db_entries_def)
  with dl show ?thesis by (simp add: ext2fs_dblist_iterate2_def ext2fs_dblist_iterate3_def Let_def)
qed

subsection \<open>Creation\<close>

lemma init_dblist_ok:
  assumes "fs_magic fs = EXT2_ET_MAGIC_EXT2FS_FILSYS" "ext2fs_get_num_dirs fs = Some (Inr n)"
  shows "\<exists>dl. ext2fs_init_dblist True True fs = Some (Inr dl) \<and> dl_ok dl \<and> db_entries dl = []"
proof -
  have "unat (n * 2 + 12) \<le> 2 ^ 33" by (rule order_trans [OF less_imp_le [OF unat_u32_less]]) simp
  with assms show ?thesis
    by (auto simp: ext2fs_init_dblist_def make_dblist_def dl_ok_def db_entries_def)
qed

lemma copy_dblist_ok:
  assumes ok: "dl_ok dl" and sz: "0 < unat (dl_size dl)" "unat (dl_size dl) < 2 ^ 32" and fs: "fs_magic fs = EXT2_ET_MAGIC_EXT2FS_FILSYS"
  shows "ext2fs_copy_dblist True True fs dl = Some (Inr dl)"
proof -
  note d = dl_okD [OF ok]
  have u: "unat (ucast (dl_size dl) :: u32) = unat (dl_size dl)" "unat (ucast (dl_count dl) :: u32) = unat (dl_count dl)"
    using sz d(2,4) by (simp_all add: unat_ucast_64_32)
  then have b: "ucast (ucast (dl_size dl) :: u32) = dl_size dl" "ucast (ucast (dl_count dl) :: u32) = dl_count dl" by (simp_all add: word_unat_eq_iff)
  have "ucast (dl_size dl) \<noteq> (0 :: u32)" using u(1) sz(1) by (metis unat_0 less_irrefl)
  with fs u b d show ?thesis by (simp add: ext2fs_copy_dblist_def make_dblist_def)
qed

subsection \<open>A concrete list\<close>

definition dl_example :: ext2_dblist where
  "dl_example = \<lparr>dl_magic = EXT2_ET_MAGIC_DBLIST, dl_size = 3, dl_count = 2, dl_sorted = False,
     dl_list = [\<lparr>db_ino = 2, db_blk = 9, db_blockcnt = 0\<rparr>, \<lparr>db_ino = 11, db_blk = 5, db_blockcnt = 0\<rparr>, \<lparr>db_ino = 0, db_blk = 0, db_blockcnt = 0\<rparr>]\<rparr>"

lemma dl_example_ok: "dl_ok dl_example" "db_entries dl_example = [\<lparr>db_ino = 2, db_blk = 9, db_blockcnt = 0\<rparr>, \<lparr>db_ino = 11, db_blk = 5, db_blockcnt = 0\<rparr>]"
  by (simp_all add: dl_ok_def dl_example_def db_entries_def)

theorem dblist_history_witness:
  "\<exists>cs dl'. db_run (\<lambda>_. \<lparr>db_ino = 0, db_blk = 0, db_blockcnt = 0\<rparr>) [Db_Set 2 7 0, Db_Drop, Db_Add True 12 100 0] dl_example = Some (cs, dl') \<and> dl_ok dl'
    \<and> db_trace (db_entries dl_example) [Db_Set 2 7 0, Db_Drop, Db_Add True 12 100 0] cs (db_entries dl')"
  by (rule dblist_history [OF dl_example_ok(1)]) (simp add: dl_example_ok)

theorem dblist_iterate_order_witness:
  "\<exists>es. mset es = mset (db_entries dl_example) \<and> sorted_wrt db_le es
    \<and> ext2fs_dblist_iterate2 (\<lambda>e s. Some (0, e, e # s)) dl_example []
      = map_option (\<lambda>(es', s'). (E_OK, dl_example\<lparr>dl_list := es' @ drop (unat (dl_count dl_example)) (dl_list dl_example), dl_sorted := True\<rparr>, s')) (db_visit (\<lambda>e s. Some (0, e, e # s)) es [])"
  by (rule dblist_iterate_order [OF dl_example_ok(1)]) (simp_all add: dl_example_ok db_small_def, simp add: dl_example_def)

theorem dblist_sort_undefined_witness:
  "ext2fs_dblist_sort2 (dl_example\<lparr>dl_count := 3, dl_list := [\<lparr>db_ino = 2, db_blk = 9, db_blockcnt = 0\<rparr>, \<lparr>db_ino = 2, db_blk = 0x60000009, db_blockcnt = 1\<rparr>, \<lparr>db_ino = 2, db_blk = 0xC0000009, db_blockcnt = 2\<rparr>]\<rparr>) None = None"
proof -
  let ?l = "[\<lparr>db_ino = 2, db_blk = 9, db_blockcnt = 0\<rparr>, \<lparr>db_ino = 2, db_blk = 0x60000009, db_blockcnt = 1\<rparr>, \<lparr>db_ino = 2, db_blk = 0xC0000009, db_blockcnt = 2\<rparr>]"
  have h: "{?l ! 0, ?l ! 1, ?l ! 2} \<subseteq> set (db_entries (dl_example\<lparr>dl_count := 3, dl_list := ?l\<rparr>))" "db_blk (?l ! 1) = db_blk (?l ! 0) + 0x60000000"
    "db_blk (?l ! 2) = db_blk (?l ! 0) + 0xC0000000" "\<not> dl_sorted (dl_example\<lparr>dl_count := 3, dl_list := ?l\<rparr>)"
    "dl_magic (dl_example\<lparr>dl_count := 3, dl_list := ?l\<rparr>) = EXT2_ET_MAGIC_DBLIST"
    by (simp_all add: db_entries_def dl_example_def)
  show ?thesis using dblist_sort_undefined [OF h, of "\<lambda>e s. Some (0, e, s)" "()"] by blast
qed

end
