(* ===== verification/Digest.thy ===== *)
theory Digest
  imports C_Std
begin

unbundle bit_operations_syntax

text \<open>
  Digests as names of files: \<^verbatim>\<open>lib/ext2fs/digest_encode.c\<close>. Six bits of a digest become one character of a table
  of 64. The buffers are lists of their bytes; the result of a call is the \<^verbatim>\<open>int\<close> it returns and the buffer of
  the destination.
\<close>

definition lookup_table :: "u8 list" where
  "lookup_table = map of_char ''ABCDEFGHIJKLMNOPQRSTUVWXYZabcdefghijklmnopqrstuvwxyz0123456789+,''"

text \<open>The inner loop of the encoder: one character for each six bits that have been collected.\<close>

partial_function (option) encode_bits :: "u8 list \<Rightarrow> nat \<Rightarrow> int \<Rightarrow> int \<Rightarrow> (u8 list \<times> nat \<times> int \<times> int) ub" where
  [code]: "encode_bits dst cp ac bits = do {
     c \<leftarrow> c_load lookup_table (nat (ac AND 0x3f));
     dst \<leftarrow> c_store dst cp c;
     let ac = drop_bit 6 ac;
     let bits = bits - 6;
     if bits \<ge> 6 then encode_bits dst (cp + 1) ac bits else Some (dst, cp + 1, ac, bits)
   }"

partial_function (option) encode_loop :: "u8 list \<Rightarrow> int \<Rightarrow> nat \<Rightarrow> u8 list \<Rightarrow> nat \<Rightarrow> int \<Rightarrow> int \<Rightarrow> (u8 list \<times> nat \<times> int \<times> int) ub" where
  [code]: "encode_loop src len i dst cp ac bits =
     (if int i < len then do {
        b \<leftarrow> c_load src i;
        v \<leftarrow> c_int (push_bit (nat bits) (uint b));
        ac \<leftarrow> c_int (ac + v);
        (dst, cp, ac, bits) \<leftarrow> encode_bits dst cp ac (bits + 8);
        encode_loop src len (i + 1) dst cp ac bits
      }
      else Some (dst, cp, ac, bits))"

definition ext2fs_digest_encode :: "u8 list \<Rightarrow> int \<Rightarrow> u8 list \<Rightarrow> (int \<times> u8 list) ub" where
  "ext2fs_digest_encode src len dst = do {
     (dst, cp, ac, bits) \<leftarrow> encode_loop src len 0 dst 0 0 0;
     if bits \<noteq> 0 then do {
       c \<leftarrow> c_load lookup_table (nat (ac AND 0x3f));
       dst \<leftarrow> c_store dst cp c;
       Some (int (cp + 1), dst)
     }
     else Some (int cp, dst)
   }"

text \<open>
  \<^verbatim>\<open>strchr\<close> on a string given without its final zero: the position of the first such character. A search for zero
  finds the end of the string.
\<close>

primrec index_of :: "'a \<Rightarrow> 'a list \<Rightarrow> nat option" where
  "index_of c [] = None"
| "index_of c (x # xs) = (if x = c then Some 0 else map_option Suc (index_of c xs))"

definition c_strchr :: "u8 list \<Rightarrow> u8 \<Rightarrow> nat option" where
  "c_strchr s c = index_of c (s @ [0])"

text \<open>\<open>Inl\<close> is the return of -1 from the body of the loop.\<close>

partial_function (option) decode_loop :: "u8 list \<Rightarrow> int \<Rightarrow> nat \<Rightarrow> u8 list \<Rightarrow> nat \<Rightarrow> int \<Rightarrow> int \<Rightarrow> (u8 list + u8 list \<times> nat \<times> int) ub" where
  [code]: "decode_loop src len i dst cp ac bits =
     (if int i < len then do {
        c \<leftarrow> c_load src i;
        case c_strchr lookup_table c of
          None \<Rightarrow> Some (Inl dst)
        | Some p \<Rightarrow>
            if c = 0 then Some (Inl dst)
            else do {
              let ac = to_int (ac + push_bit (nat bits) (int p));
              let bits = bits + 6;
              if bits \<ge> 8 then do {
                dst \<leftarrow> c_store dst cp (word_of_int (ac AND 0xff));
                decode_loop src len (i + 1) dst (cp + 1) (drop_bit 8 ac) (bits - 8)
              }
              else decode_loop src len (i + 1) dst cp ac bits
            }
      }
      else Some (Inr (dst, cp, ac)))"

definition ext2fs_digest_decode :: "u8 list \<Rightarrow> int \<Rightarrow> u8 list \<Rightarrow> (int \<times> u8 list) ub" where
  "ext2fs_digest_decode src len dst = do {
     r \<leftarrow> decode_loop src len 0 dst 0 0 0;
     case r of
       Inl dst \<Rightarrow> Some (-1, dst)
     | Inr (dst, cp, ac) \<Rightarrow> Some (if ac \<noteq> 0 then -1 else int cp, dst)
   }"

subsection \<open>Numbers in a base\<close>

text \<open>
  Digest and name are the same number, to the bases 256 and 64, with the lowest digit first.
\<close>

primrec num_of :: "nat \<Rightarrow> nat list \<Rightarrow> nat" where
  "num_of B [] = 0"
| "num_of B (d # ds) = d + B * num_of B ds"

primrec digits :: "nat \<Rightarrow> nat \<Rightarrow> nat \<Rightarrow> nat list" where
  "digits B 0 v = []"
| "digits B (Suc n) v = v mod B # digits B n (v div B)"

lemma length_digits [simp]: "length (digits B n v) = n"
  by (induction n arbitrary: v) auto

lemma digits_less: "0 < B \<Longrightarrow> d \<in> set (digits B n v) \<Longrightarrow> d < B"
  by (induction n arbitrary: v) auto

lemma num_of_digits: "num_of B (digits B n v) = v mod B ^ n"
proof (induction n arbitrary: v)
  case (Suc n)
  then show ?case by (simp add: mod_mult2_eq ac_simps)
qed simp

lemma digits_num_of: "\<forall>d \<in> set ds. d < B \<Longrightarrow> digits B (length ds) (num_of B ds) = ds"
  by (induction ds) auto

lemma num_of_less:
  assumes "\<forall>d \<in> set ds. d < B"
  shows "num_of B ds < B ^ length ds"
  using assms
proof (induction ds)
  case (Cons d ds)
  then have "num_of B ds + 1 \<le> B ^ length ds" "d < B" by simp_all
  then have "B * (num_of B ds + 1) \<le> B * B ^ length ds" by (intro mult_le_mono2)
  with \<open>d < B\<close> show ?case by simp
qed simp

definition enc_len :: "nat \<Rightarrow> nat" where
  "enc_len n = (8 * n + 5) div 6"

definition dec_len :: "nat \<Rightarrow> nat" where
  "dec_len n = 6 * n div 8"

definition bytes_num :: "u8 list \<Rightarrow> nat" where
  "bytes_num bs = num_of 256 (map unat bs)"

definition num_chars :: "nat \<Rightarrow> nat \<Rightarrow> u8 list" where
  "num_chars n v = map ((!) lookup_table) (digits 64 n v)"

definition num_bytes :: "nat \<Rightarrow> nat \<Rightarrow> u8 list" where
  "num_bytes n v = map of_nat (digits 256 n v)"

lemma digits_add: "digits B (m + n) v = digits B m v @ digits B n (v div B ^ m)"
  by (induction m arbitrary: v) (auto simp: div_mult2_eq)

lemma digits_cong: "0 < B \<Longrightarrow> digits B m (v + B ^ m * k) = digits B m v"
proof (induction m arbitrary: v)
  case (Suc m)
  then have "(v + B ^ Suc m * k) div B = v div B + B ^ m * k" by (simp add: mult.assoc)
  with Suc show ?case by (simp add: mult.assoc add.commute [of "B ^ m * k"])
qed simp

lemma num_chars_simps [simp]: "length (num_chars n v) = n" "num_chars 0 v = []"
  by (simp_all add: num_chars_def)

lemma num_chars_Suc: "num_chars (Suc n) v = lookup_table ! (v mod 64) # num_chars n (v div 64)"
  by (simp add: num_chars_def)

lemma num_chars_add: "num_chars (m + n) v = num_chars m v @ num_chars n (v div 64 ^ m)"
  by (simp add: num_chars_def digits_add)

lemma num_bytes_simps [simp]: "length (num_bytes n v) = n" "num_bytes 0 v = []"
  by (simp_all add: num_bytes_def)

lemma num_bytes_add: "num_bytes (m + n) v = num_bytes m v @ num_bytes n (v div 256 ^ m)"
  by (simp add: num_bytes_def digits_add)

lemma lookup_table_facts: "length lookup_table = 64" "distinct lookup_table" "0 \<notin> set lookup_table"
  by (simp_all add: lookup_table_def)

lemma int_low_bits: "int a AND 63 = int (a mod 64)" "int a AND 255 = int (a mod 256)" "drop_bit n (int a) = int (a div 2 ^ n)"
  using take_bit_eq_mask [of 6 "int a"] take_bit_eq_mask [of 8 "int a"]
  by (simp_all add: take_bit_eq_mod zmod_int mask_eq_exp_minus_1 drop_bit_eq_div zdiv_int)

subsection \<open>The encoder\<close>

text \<open>A cell behind a prefix is written.\<close>

lemma store_next: "R \<noteq> [] \<Longrightarrow> c_store (P @ R) (length P) c = Some ((P @ [c]) @ tl R)"
  by (cases R) (simp_all add: c_store_def)

lemma load_digit: "c_load lookup_table (nat (int a AND 63)) = Some (lookup_table ! (a mod 64))"
  by (simp add: int_low_bits lookup_table_facts)

lemma encode_bits_run:
  assumes "Suc (n div 6) \<le> length R"
  shows "encode_bits (P @ R) (length P) (int a) (int (n + 6))
    = Some (P @ num_chars (Suc (n div 6)) a @ drop (Suc (n div 6)) R, length P + Suc (n div 6), int (a div 64 ^ Suc (n div 6)), int (n mod 6))"
  using assms
proof (induction n arbitrary: P R a rule: less_induct)
  case (less n)
  define c where "c = lookup_table ! (a mod 64)"
  have st: "c_store (P @ R) (length P) c = Some ((P @ [c]) @ tl R)" using less.prems by (intro store_next) auto
  have run: "encode_bits (P @ R) (length P) (int a) (int (n + 6))
    = (if 6 \<le> n then encode_bits ((P @ [c]) @ tl R) (length (P @ [c])) (int (a div 64)) (int n)
       else Some ((P @ [c]) @ tl R, length (P @ [c]), int (a div 64), int n))"
    by (subst encode_bits.simps) (simp add: int_low_bits lookup_table_facts c_def [symmetric] st [simplified])
  show ?case
  proof (cases "6 \<le> n")
    case True
    then obtain k where k: "n = k + 6" by (metis le_add_diff_inverse2)
    have kd: "(k + 6) div 6 = Suc (k div 6)" by simp
    have "encode_bits ((P @ [c]) @ tl R) (length (P @ [c])) (int (a div 64)) (int (k + 6))
      = Some ((P @ [c]) @ num_chars (Suc (k div 6)) (a div 64) @ drop (Suc (k div 6)) (tl R),
          length (P @ [c]) + Suc (k div 6), int (a div 64 div 64 ^ Suc (k div 6)), int (k mod 6))"
      using less.prems k by (intro less.IH) auto
    with True run show ?thesis by (simp add: k c_def num_chars_Suc div_mult2_eq drop_Suc kd div_mult2_eq [of a 64 64, simplified])
  next
    case False
    with run show ?thesis by (simp add: num_chars_Suc drop_Suc c_def)
  qed
qed

lemma digit_split:
  assumes "a < 2 ^ b"
  shows "a + 2 ^ b * d + 2 ^ b * 2 ^ k * r = a + 2 ^ b * (d + 2 ^ k * r)" "d < 2 ^ k \<Longrightarrow> a + 2 ^ b * d < (2 :: nat) ^ (b + k)"
proof -
  show "a + 2 ^ b * d + 2 ^ b * 2 ^ k * r = a + 2 ^ b * (d + 2 ^ k * r)" by (simp add: algebra_simps)
  assume "d < 2 ^ k"
  then have "2 ^ b * (d + 1) \<le> (2 :: nat) ^ b * 2 ^ k" by (intro mult_le_mono2) simp
  with assms show "a + 2 ^ b * d < (2 :: nat) ^ (b + k)" by (simp add: power_add)
qed

lemma emit_facts:
  fixes A c m t r :: nat
  assumes "A < 2 ^ c" "c = s * m + t"
  shows "A div (2 ^ s) ^ m < 2 ^ t" "digits (2 ^ s) m (A + 2 ^ c * r) = digits (2 ^ s) m A"
    "(A + 2 ^ c * r) div (2 ^ s) ^ m = A div (2 ^ s) ^ m + 2 ^ t * r"
proof -
  have c: "(2 :: nat) ^ c = (2 ^ s) ^ m * 2 ^ t" using assms(2) by (simp add: power_add power_mult)
  show "A div (2 ^ s) ^ m < 2 ^ t" using assms(1) unfolding c by (simp add: less_mult_imp_div_less mult.commute)
  show "digits (2 ^ s) m (A + 2 ^ c * r) = digits (2 ^ s) m A" unfolding c mult.assoc by (rule digits_cong) simp
  show "(A + 2 ^ c * r) div (2 ^ s) ^ m = A div (2 ^ s) ^ m + 2 ^ t * r" unfolding c mult.assoc by simp
qed

lemma encode_loop_run:
  assumes "i + length rest \<le> length src" "take (length rest) (drop i src) = rest" "a < 2 ^ b" "b < 6" "(b + 8 * length rest) div 6 \<le> length R"
  shows "encode_loop src (int (i + length rest)) i (P @ R) (length P) (int a) (int b)
    = (let t = b + 8 * length rest; v = a + 2 ^ b * bytes_num rest
       in Some (P @ num_chars (t div 6) v @ drop (t div 6) R, length P + t div 6, int (v div 64 ^ (t div 6)), int (t mod 6)))"
  using assms
proof (induction rest arbitrary: i a b P R)
  case Nil
  then show ?case by (subst encode_loop.simps) (simp add: bytes_num_def)
next
  case (Cons x rest)
  define A where "A = a + 2 ^ b * unat x"
  define m where "m = Suc ((b + 2) div 6)"
  define t where "t = (b + 2) mod 6"
  have x: "src ! i = x" "i < length src" "take (length rest) (drop (Suc i) src) = rest"
    using Cons.prems(1,2) by (simp_all add: take_Suc_conv_app_nth drop_Suc [symmetric] tl_drop [symmetric] Cons_nth_drop_Suc [symmetric])
  have A: "A < 2 ^ (b + 8)" using digit_split(2) [OF Cons.prems(3), of "unat x" 8] unsigned_less [of x] by (simp add: A_def)
  have "(2 :: nat) ^ (b + 8) \<le> 2 ^ 14" using Cons.prems(4) by (intro power_increasing) auto
  with A have big: "A < 16384" by simp
  define D where "D = 2 ^ b * unat x"
  have "push_bit b (uint x) = int D" by (simp add: D_def push_bit_eq_mult mult.commute)
  moreover have "c_int (int D) = Some (int D)" "c_int (int a + int D) = Some (int A)" using big by (simp_all add: A_def D_def [symmetric])
  ultimately have v: "push_bit b (uint x) = int D" "c_int (int D) = Some (int D)" "c_int (int a + int D) = Some (int A)" by blast+
  have e: "b + 8 = 6 * m + t" using div_mult_mod_eq [of "b + 2" 6] by (simp add: m_def t_def)
  have "(b + 8 * length (x # rest)) div 6 = m + (t + 8 * length rest) div 6" "(b + 8 * length (x # rest)) mod 6 = (t + 8 * length rest) mod 6"
    using arg_cong [OF e, of "\<lambda>z. (z + 8 * length rest) div 6"] arg_cong [OF e, of "\<lambda>z. (z + 8 * length rest) mod 6"] by (simp_all add: add.assoc)
  note n = this
  have "encode_bits (P @ R) (length P) (int A) (int (b + 2 + 6)) = Some (P @ num_chars m A @ drop m R, length P + m, int (A div 64 ^ m), int t)"
    unfolding m_def t_def using Cons.prems(5) n(1) by (intro encode_bits_run) (simp add: m_def)
  then have "encode_loop src (int (i + length (x # rest))) i (P @ R) (length P) (int a) (int b)
      = encode_loop src (int (Suc i + length rest)) (Suc i) ((P @ num_chars m A) @ drop m R) (length (P @ num_chars m A)) (int (A div 64 ^ m)) (int t)"
    using x by (subst encode_loop.simps) (simp add: v v(3) [simplified add.commute [of "int a"]] ac_simps)
  also have "\<dots> = (let u = t + 8 * length rest; w = A div 64 ^ m + 2 ^ t * bytes_num rest
       in Some ((P @ num_chars m A) @ num_chars (u div 6) w @ drop (u div 6) (drop m R), length (P @ num_chars m A) + u div 6, int (w div 64 ^ (u div 6)), int (u mod 6)))"
    using Cons.prems(1,5) x(3) n(1) emit_facts(1) [OF A e] by (intro Cons.IH) (auto simp: t_def)
  finally show ?case unfolding Let_def n
    using emit_facts(2,3) [OF A e, of "bytes_num rest"] digit_split(1) [OF Cons.prems(3), of "unat x" 8 "bytes_num rest"]
    by (simp add: bytes_num_def A_def num_chars_add power_add div_mult2_eq num_chars_def digits_add ac_simps)
qed

lemma enc_len_split: "enc_len n = 8 * n div 6 + (if 8 * n mod 6 = 0 then 0 else 1)"
proof -
  define q r where "q = 8 * n div 6" and "r = 8 * n mod 6"
  have "8 * n = q * 6 + r" "r < 6" unfolding q_def r_def by (simp_all only: div_mult_mod_eq mod_less_divisor zero_less_numeral)
  moreover have "(q * 6 + r + 5) div 6 = q + (if r = 0 then 0 else 1)" if "r < 6" by (intro div_nat_eqI) (use that in auto)
  ultimately show ?thesis unfolding enc_len_def q_def [symmetric] r_def [symmetric] by simp
qed

lemma digest_encode_run:
  assumes "enc_len (length src) \<le> length dst"
  shows "ext2fs_digest_encode src (int (length src)) dst
    = Some (int (enc_len (length src)), num_chars (enc_len (length src)) (bytes_num src) @ drop (enc_len (length src)) dst)"
proof -
  define t where "t = 8 * length src"
  define m where "m = t div 6"
  define v where "v = bytes_num src"
  have t: "enc_len (length src) = m + (if t mod 6 = 0 then 0 else 1)" by (simp add: enc_len_split t_def m_def)
  have run: "encode_loop src (int (length src)) 0 dst 0 0 0 = Some (num_chars m v @ drop m dst, m, int (v div 64 ^ m), int (t mod 6))"
    using encode_loop_run [of 0 src src 0 0 dst "[]"] assms t by (simp add: t_def m_def v_def Let_def)
  show ?thesis
  proof (cases "t mod 6 = 0")
    case True
    with run t show ?thesis by (simp add: ext2fs_digest_encode_def v_def)
  next
    case False
    define c where "c = lookup_table ! (v div 64 ^ m mod 64)"
    have "drop m dst \<noteq> []" using assms t False by simp
    from store_next [OF this, of "num_chars m v" c] have "c_store (num_chars m v @ drop m dst) m c = Some (num_chars m v @ c # drop (Suc m) dst)"
      by (simp add: drop_Suc tl_drop)
    with run t False show ?thesis
      by (simp add: ext2fs_digest_encode_def v_def [symmetric] int_low_bits lookup_table_facts c_def [symmetric])
        (use num_chars_add [of m 1 v] in \<open>simp add: num_chars_Suc c_def\<close>)
  qed
qed

subsection \<open>The decoder\<close>

lemma index_of_None: "index_of c xs = None \<longleftrightarrow> c \<notin> set xs"
  by (induction xs) auto

lemma index_of_nth: "distinct xs \<Longrightarrow> p < length xs \<Longrightarrow> index_of (xs ! p) (xs @ ys) = Some p"
  by (induction xs arbitrary: p) (auto simp: nth_Cons split: nat.splits)

lemma strchr_table: "p < 64 \<Longrightarrow> c_strchr lookup_table (lookup_table ! p) = Some p \<and> lookup_table ! p \<noteq> 0"
proof -
  assume p: "p < 64"
  then have "lookup_table ! p \<in> set lookup_table" by (intro nth_mem) (simp add: lookup_table_facts)
  then have "lookup_table ! p \<noteq> 0" using lookup_table_facts(3) by metis
  with p index_of_nth [OF lookup_table_facts(2), of p "[0]"] show ?thesis by (simp add: c_strchr_def lookup_table_facts(1))
qed

lemma strchr_other: "c \<notin> set lookup_table \<Longrightarrow> c \<noteq> 0 \<Longrightarrow> c_strchr lookup_table c = None"
  by (simp add: c_strchr_def index_of_None)

text \<open>The digits that the characters of a name stand for.\<close>

definition chars_num :: "u8 list \<Rightarrow> nat" where
  "chars_num cs = num_of 64 (map (\<lambda>c. the (index_of c lookup_table)) cs)"

lemma table_digit:
  assumes "c \<in> set lookup_table"
  shows "\<exists>p < 64. c = lookup_table ! p \<and> the (index_of c lookup_table) = p"
  using assms index_of_nth [OF lookup_table_facts(2), of _ "[]"] lookup_table_facts(1) by (fastforce simp: in_set_conv_nth)

lemma byte_of: "(word_of_int (int a AND 255) :: u8) = of_nat (a mod 256)"
  by (simp add: int_low_bits)

lemma decode_step:
  assumes x: "i < length src" "src ! i = lookup_table ! p" "int i < len" and p: "p < 64" and a: "a < 2 ^ b" and b: "b < 8" and R: "(b + 6) div 8 \<le> length R"
    and m: "m = (b + 6) div 8" and A: "A = a + 2 ^ b * p"
  shows "decode_loop src len i (P @ R) (length P) (int a) (int b)
    = decode_loop src len (Suc i) ((P @ num_bytes m A) @ drop m R) (length (P @ num_bytes m A)) (int (A div 256 ^ m)) (int ((b + 6) mod 8))"
    and "A < 2 ^ (b + 6)" and "A div 256 ^ m < 2 ^ ((b + 6) mod 8)"
proof -
  show le: "A < 2 ^ (b + 6)" using digit_split(2) [OF a, of p 6] p by (simp add: A)
  show "A div 256 ^ m < 2 ^ ((b + 6) mod 8)" using emit_facts(1) [OF le, of 8 m "(b + 6) mod 8"] by (simp add: m)
  have "(2 :: nat) ^ (b + 6) \<le> 2 ^ 13" using b by (intro power_increasing) auto
  with le have big: "A < 8192" by simp
  have "int a + push_bit b (int p) = int A" by (simp add: push_bit_eq_mult A mult.commute)
  then have v: "to_int (int a + push_bit b (int p)) = int A" using big by (simp add: to_int_small)
  note st = x p strchr_table [OF p] v
  show "decode_loop src len i (P @ R) (length P) (int a) (int b)
    = decode_loop src len (Suc i) ((P @ num_bytes m A) @ drop m R) (length (P @ num_bytes m A)) (int (A div 256 ^ m)) (int ((b + 6) mod 8))"
  proof (cases "b + 6 < 8")
    case True
    then have "m = 0" "(b + 6) mod 8 = b + 6" by (simp_all add: m)
    with True st show ?thesis by (subst decode_loop.simps) (simp add: ac_simps)
  next
    case False
    then have mt: "m = 1" "(b + 6) mod 8 = b - 2" using b by (simp_all add: m le_div_geq le_mod_geq)
    then have "R \<noteq> []" using R m by auto
    from store_next [OF this, of P "of_nat (A mod 256)"] False st mt show ?thesis
      by (subst decode_loop.simps) (simp add: num_bytes_def byte_of int_low_bits drop_Suc of_nat_diff ac_simps)
  qed
qed

lemma next_char:
  assumes "take (length (x # rest)) (drop i src) = x # rest" "i + length (x # rest) \<le> length src"
  shows "i < length src" "src ! i = x" "take (length rest) (drop (Suc i) src) = rest"
  using assms by (simp_all add: take_Suc_conv_app_nth drop_Suc [symmetric] tl_drop [symmetric] Cons_nth_drop_Suc [symmetric])

lemma div_room: "(b + k * length (x # rest)) div j = (b + k) div j + ((b + k) mod j + k * length rest) div j" if "0 < j" for b k j :: nat
proof -
  have "b + k * length (x # rest) = ((b + k) mod j + k * length rest) + j * ((b + k) div j)" by simp
  then show ?thesis using that by (metis div_mult_self2 add.commute less_not_refl2)
qed

lemma decode_loop_run:
  assumes "i + length rest \<le> length src" "take (length rest) (drop i src) = rest" "a < 2 ^ b" "b < 8" "(b + 6 * length rest) div 8 \<le> length R"
    "set rest \<subseteq> set lookup_table"
  shows "decode_loop src (int (i + length rest)) i (P @ R) (length P) (int a) (int b)
    = (let t = b + 6 * length rest; v = a + 2 ^ b * chars_num rest
       in Some (Inr (P @ num_bytes (t div 8) v @ drop (t div 8) R, length P + t div 8, int (v div 256 ^ (t div 8)))))"
  using assms
proof (induction rest arbitrary: i a b P R)
  case Nil
  then show ?case by (subst decode_loop.simps) (simp add: chars_num_def)
next
  case (Cons x rest)
  from Cons.prems(6) obtain p where p: "p < 64" "x = lookup_table ! p" "the (index_of x lookup_table) = p" using table_digit [of x] by auto
  note x = next_char [OF Cons.prems(2,1)] and n = div_room [of 8 b 6 x rest, OF zero_less_numeral]
  define A where "A = a + 2 ^ b * p"
  define m where "m = (b + 6) div 8"
  define t where "t = (b + 6) mod 8"
  have room: "(b + 6) div 8 \<le> length R" "((b + 6) mod 8 + 6 * length rest) div 8 \<le> length (drop ((b + 6) div 8) R)"
    using Cons.prems(5) unfolding n length_drop by linarith+
  have len: "int i < int (i + length (x # rest))" by simp
  note step = decode_step [OF x(1) x(2) [unfolded p(2)] len p(1) Cons.prems(3,4) room(1) m_def A_def, folded t_def]
  have e: "b + 6 = 8 * m + t" by (simp add: m_def t_def)
  have "decode_loop src (int (i + length (x # rest))) i (P @ R) (length P) (int a) (int b)
      = decode_loop src (int (Suc i + length rest)) (Suc i) ((P @ num_bytes m A) @ drop m R) (length (P @ num_bytes m A)) (int (A div 256 ^ m)) (int t)"
    using step(1) by simp
  also have "\<dots> = (let u = t + 6 * length rest; w = A div 256 ^ m + 2 ^ t * chars_num rest
       in Some (Inr ((P @ num_bytes m A) @ num_bytes (u div 8) w @ drop (u div 8) (drop m R), length (P @ num_bytes m A) + u div 8, int (w div 256 ^ (u div 8)))))"
    using Cons.prems(1,6) x(3) room(2) step(3) by (intro Cons.IH) (simp_all add: t_def m_def)
  finally show ?case unfolding Let_def n
    using emit_facts(2,3) [OF step(2) e, of "chars_num rest"] digit_split(1) [OF Cons.prems(3), of p 6 "chars_num rest"] p(3)
    by (simp add: chars_num_def A_def t_def [symmetric] m_def [symmetric] power_add div_mult2_eq num_bytes_def digits_add ac_simps)
qed

lemma decode_loop_rejects:
  assumes "i + length rest \<le> length src" "take (length rest) (drop i src) = rest" "a < 2 ^ b" "b < 8" "(b + 6 * length rest) div 8 \<le> length R"
    "\<not> set rest \<subseteq> set lookup_table"
  shows "\<exists>dst. decode_loop src (int (i + length rest)) i (P @ R) (length P) (int a) (int b) = Some (Inl dst)"
  using assms
proof (induction rest arbitrary: i a b P R)
  case (Cons x rest)
  note x = next_char [OF Cons.prems(2,1)] and n = div_room [of 8 b 6 x rest, OF zero_less_numeral]
  show ?case
  proof (cases "x \<in> set lookup_table")
    case False
    with x strchr_other [of x] show ?thesis by (subst decode_loop.simps) (auto split: option.splits)
  next
    case True
    from table_digit [OF True] obtain p where p: "p < 64" "x = lookup_table ! p" by auto
    have room: "(b + 6) div 8 \<le> length R" "((b + 6) mod 8 + 6 * length rest) div 8 \<le> length (drop ((b + 6) div 8) R)"
    using Cons.prems(5) unfolding n length_drop by linarith+
    have len: "int i < int (i + length (x # rest))" by simp
    note step = decode_step [OF x(1) x(2) [unfolded p(2)] len p(1) Cons.prems(3,4) room(1) refl refl]
    have "decode_loop src (int (i + length (x # rest))) i (P @ R) (length P) (int a) (int b)
        = decode_loop src (int (Suc i + length rest)) (Suc i) ((P @ num_bytes ((b + 6) div 8) (a + 2 ^ b * p)) @ drop ((b + 6) div 8) R)
            (length (P @ num_bytes ((b + 6) div 8) (a + 2 ^ b * p))) (int ((a + 2 ^ b * p) div 256 ^ ((b + 6) div 8))) (int ((b + 6) mod 8))"
      using step(1) by simp
    moreover have "\<exists>dst. \<dots> = Some (Inl dst)" using Cons.prems(1,6) True x(3) room(2) step(3) by (intro Cons.IH) auto
    ultimately show ?thesis by simp
  qed
qed simp

lemma digest_decode_run:
  assumes room: "dec_len n \<le> length dst" and n: "n \<le> length src"
  shows "set (take n src) \<subseteq> set lookup_table \<Longrightarrow> ext2fs_digest_decode src (int n) dst
      = Some (if chars_num (take n src) < 256 ^ dec_len n then int (dec_len n) else -1, num_bytes (dec_len n) (chars_num (take n src)) @ drop (dec_len n) dst)"
    and "\<not> set (take n src) \<subseteq> set lookup_table \<Longrightarrow> \<exists>d. ext2fs_digest_decode src (int n) dst = Some (-1, d)"
proof -
  have h: "0 + length (take n src) \<le> length src" "take (length (take n src)) (drop 0 src) = take n src" "0 + length (take n src) = n"
    "(0 + 6 * length (take n src)) div 8 \<le> length dst" using n room by (simp_all add: min_absorb2 dec_len_def)
  note a = decode_loop_run [OF h(1,2) _ _ h(4), of 0 "[]", unfolded h(3)] and r = decode_loop_rejects [OF h(1,2) _ _ h(4), of 0 "[]", unfolded h(3)]
  show "ext2fs_digest_decode src (int n) dst
      = Some (if chars_num (take n src) < 256 ^ dec_len n then int (dec_len n) else -1, num_bytes (dec_len n) (chars_num (take n src)) @ drop (dec_len n) dst)"
    if "set (take n src) \<subseteq> set lookup_table"
    using a [OF _ _ that] n by (simp add: ext2fs_digest_decode_def Let_def dec_len_def min_absorb2 div_eq_0_iff)
  show "\<exists>d. ext2fs_digest_decode src (int n) dst = Some (-1, d)" if "\<not> set (take n src) \<subseteq> set lookup_table"
    using r [OF _ _ that] by (auto simp: ext2fs_digest_decode_def)
qed

subsection \<open>The two together\<close>

lemma num_chars_table: "set (num_chars n v) \<subseteq> set lookup_table"
  using digits_less [of 64] lookup_table_facts(1) by (auto simp: num_chars_def)

lemma chars_num_chars: "chars_num (num_chars n v) = v mod 64 ^ n"
proof -
  have "the (index_of (lookup_table ! d) lookup_table) = d" if "d \<in> set (digits 64 n v)" for d
    using index_of_nth [OF lookup_table_facts(2), of d "[]"] digits_less [OF _ that] lookup_table_facts(1) by simp
  then have "map ((\<lambda>c. the (index_of c lookup_table)) \<circ> (!) lookup_table) (digits 64 n v) = digits 64 n v" by (simp add: map_idI)
  then show ?thesis by (simp add: chars_num_def num_chars_def num_of_digits)
qed

lemma bytes_num_facts: "bytes_num bs < 256 ^ length bs" "num_bytes (length bs) (bytes_num bs) = bs"
proof -
  have "unat b < 256" for b :: u8 using unsigned_less [of b] by simp
  then have b: "\<forall>d \<in> set (map unat bs). d < 256" by simp
  from num_of_less [OF this] show "bytes_num bs < 256 ^ length bs" by (simp add: bytes_num_def)
  from digits_num_of [OF b] show "num_bytes (length bs) (bytes_num bs) = bs" by (simp add: num_bytes_def bytes_num_def comp_def)
qed

lemma enc_dec_len: "dec_len (enc_len n) = n" "256 ^ n \<le> (64 :: nat) ^ enc_len n"
proof -
  have l: "8 * n \<le> 6 * enc_len n" "6 * enc_len n \<le> 8 * n + 5"
    unfolding enc_len_def using div_mult_mod_eq [of "8 * n + 5" 6] mod_less_divisor [of 6 "8 * n + 5"] by linarith+
  then show "dec_len (enc_len n) = n" unfolding dec_len_def by (intro div_nat_eqI) (use l in simp_all)
  have "(2 :: nat) ^ (8 * n) \<le> 2 ^ (6 * enc_len n)" using l(1) by (intro power_increasing) auto
  then show "256 ^ n \<le> (64 :: nat) ^ enc_len n" by (simp add: power_mult)
qed

text \<open>
  (C21) A digest of any length is encoded within the buffer of four thirds its size, into characters that are neither
  zero nor a slash, and what the decoder makes of that name is the digest again.
\<close>

theorem digest_roundtrip:
  assumes "enc_len (length src) \<le> length dst" "length src \<le> length buf"
  shows "\<exists>d b. ext2fs_digest_encode src (int (length src)) dst = Some (int (enc_len (length src)), d)
    \<and> 0 \<notin> set (take (enc_len (length src)) d) \<and> of_char (CHR ''/'') \<notin> set (take (enc_len (length src)) d)
    \<and> ext2fs_digest_decode d (int (enc_len (length src))) buf = Some (int (length src), b) \<and> b = src @ drop (length src) buf"
proof -
  define n where "n = enc_len (length src)"
  define d where "d = num_chars n (bytes_num src) @ drop n dst"
  have t: "take n d = num_chars n (bytes_num src)" "n \<le> length d" by (simp_all add: d_def)
  have small: "chars_num (take n d) = bytes_num src"
    unfolding t(1) chars_num_chars using bytes_num_facts(1) [of src] enc_dec_len(2) [of "length src"] by (simp add: n_def)
  have "of_char (CHR ''/'') \<notin> set lookup_table" by (simp add: lookup_table_def)
  with lookup_table_facts(3) num_chars_table [of n "bytes_num src"] have "0 \<notin> set (take n d)" "of_char (CHR ''/'') \<notin> set (take n d)" unfolding t(1) by blast+
  moreover have "ext2fs_digest_encode src (int (length src)) dst = Some (int n, d)" using digest_encode_run [OF assms(1)] by (simp add: n_def d_def)
  moreover have "ext2fs_digest_decode d (int n) buf = Some (int (length src), src @ drop (length src) buf)"
    using digest_decode_run(1) [of n buf d] assms(2) num_chars_table [of n "bytes_num src"] t small bytes_num_facts [of src] enc_dec_len(1) [of "length src"]
    by (simp add: n_def)
  ultimately show ?thesis by (simp add: n_def)
qed

text \<open>
  The decoder accepts exactly the strings of characters of the table whose number fits in the bytes that it
  returns, and returns that number; for all others it returns -1.
\<close>

theorem digest_decode_exact:
  assumes "dec_len n \<le> length dst" "n \<le> length src"
  shows "\<exists>r d. ext2fs_digest_decode src (int n) dst = Some (r, d)
    \<and> (if set (take n src) \<subseteq> set lookup_table \<and> chars_num (take n src) < 256 ^ dec_len n
        then r = int (dec_len n) \<and> bytes_num (take (dec_len n) d) = chars_num (take n src) else r = -1)"
proof (cases "set (take n src) \<subseteq> set lookup_table")
  case True
  have "bytes_num (num_bytes k v) = v mod 256 ^ k" for k v
  proof -
    have "map (unat \<circ> (of_nat :: nat \<Rightarrow> u8)) (digits 256 k v) = digits 256 k v"
      using digits_less [of 256 _ k v] by (intro map_idI) (simp add: unat_of_nat)
    then show ?thesis by (simp add: bytes_num_def num_bytes_def num_of_digits)
  qed
  with digest_decode_run(1) [OF assms True] True show ?thesis by auto
next
  case False
  from digest_decode_run(2) [OF assms False] False show ?thesis by auto
qed

theorem digest_roundtrip_witness:
  "\<exists>d b. ext2fs_digest_encode [1, 2, 3, 4, 255] 5 (replicate 8 0) = Some (7, d) \<and> 0 \<notin> set (take 7 d) \<and> of_char (CHR ''/'') \<notin> set (take 7 d)
    \<and> ext2fs_digest_decode d 7 (replicate 6 0) = Some (5, b) \<and> b = [1, 2, 3, 4, 255, 0]"
proof -
  have "enc_len (Suc (Suc (Suc (Suc (Suc 0))))) = 7" by (simp add: enc_len_def)
  then show ?thesis using digest_roundtrip [of "[1, 2, 3, 4, 255]" "replicate 8 0" "replicate 6 0"] by simp
qed

theorem digest_decode_exact_witness:
  "\<exists>r d. ext2fs_digest_decode (map of_char ''BIA'') 3 (replicate 4 0) = Some (r, d)
    \<and> (if set (take 3 (map of_char ''BIA'')) \<subseteq> set lookup_table \<and> chars_num (take 3 (map of_char ''BIA'')) < 256 ^ dec_len 3
        then r = int (dec_len 3) \<and> bytes_num (take (dec_len 3) d) = chars_num (take 3 (map of_char ''BIA'')) else r = -1)"
  using digest_decode_exact [of 3 "replicate 4 0" "map of_char ''BIA''"] by (simp add: dec_len_def)

end
