(* ===== verification/Region.thy ===== *)
theory Region
  imports E2_Prelude
begin

text \<open>
  Allocations within a region: \<^verbatim>\<open>e2fsck/region.c\<close>. The checker records there which bytes of an attribute block or
  an inode are taken, to find values that overlap. A region is a linked list of intervals with a pointer to its
  last element; the elements lie in a heap of their own, a map from addresses to elements. Reading an address
  that holds no element, or freeing one, is undefined.
\<close>

type_synonym addr = nat

record region_el =
  el_start :: u64
  el_end :: u64
  el_next :: "addr option"

record region_struct =
  rg_min :: u64
  rg_max :: u64
  rg_allocated :: "addr option"
  rg_last :: "addr option"
  rg_heap :: "addr \<Rightarrow> region_el option"

definition region_create :: "bool \<Rightarrow> (addr \<Rightarrow> region_el option) \<Rightarrow> u64 \<Rightarrow> u64 \<Rightarrow> region_struct option" where
  "region_create ok heap mn mx =
     (if ok then Some \<lparr>rg_min = mn, rg_max = mx, rg_allocated = None, rg_last = None, rg_heap = heap\<rparr> else None)"

text \<open>The result is the heap after the elements were freed.\<close>

partial_function (option) region_free_loop :: "(addr \<Rightarrow> region_el option) \<Rightarrow> addr option \<Rightarrow> (addr \<Rightarrow> region_el option) ub" where
  [code]: "region_free_loop heap r = (case r of
       None \<Rightarrow> Some heap
     | Some p \<Rightarrow> do {
         el \<leftarrow> heap p;
         region_free_loop (heap(p := None)) (el_next el)
       })"

definition region_free :: "region_struct \<Rightarrow> (addr \<Rightarrow> region_el option) ub" where
  "region_free region = region_free_loop (rg_heap region) (rg_allocated region)"

definition set_el :: "region_struct \<Rightarrow> addr \<Rightarrow> (region_el \<Rightarrow> region_el) \<Rightarrow> region_struct ub" where
  "set_el region p f = do {
     el \<leftarrow> rg_heap region p;
     Some (region\<lparr>rg_heap := (rg_heap region)(p \<mapsto> f el)\<rparr>)
   }"

text \<open>How the walk along the list ends: with a result, or at a place for a new element, between two elements.\<close>

datatype region_walk = Walk_Done int region_struct | Walk_Place "addr option" "addr option"

definition grow_back :: "region_struct \<Rightarrow> addr \<Rightarrow> region_el \<Rightarrow> u64 \<Rightarrow> region_walk ub" where
  "grow_back region p r stop = (case el_next r of
       None \<Rightarrow> map_option (Walk_Done 0) (set_el region p (\<lambda>r. r\<lparr>el_end := stop\<rparr>))
     | Some q \<Rightarrow> do {
         nx \<leftarrow> rg_heap region q;
         if stop > el_start nx then Some (Walk_Done 1 region)
         else if stop = el_start nx then do {
           region \<leftarrow> set_el region p (\<lambda>r. r\<lparr>el_end := el_end nx, el_next := el_next nx\<rparr>);
           let region = region\<lparr>rg_heap := (rg_heap region)(q := None)\<rparr>;
           Some (Walk_Done 0 (if el_next nx = None then region\<lparr>rg_last := Some p\<rparr> else region))
         }
         else map_option (Walk_Done 0) (set_el region p (\<lambda>r. r\<lparr>el_end := stop\<rparr>))
       })"

partial_function (option) region_walk_loop :: "region_struct \<Rightarrow> u64 \<Rightarrow> u64 \<Rightarrow> addr option \<Rightarrow> addr option \<Rightarrow> region_walk ub" where
  [code]: "region_walk_loop region start stop prev r = (case r of
       None \<Rightarrow> Some (Walk_Place prev None)
     | Some p \<Rightarrow> do {
         el \<leftarrow> rg_heap region p;
         if start \<ge> el_start el \<and> start < el_end el \<or> stop > el_start el \<and> stop \<le> el_end el
            \<or> start \<le> el_start el \<and> stop \<ge> el_end el
         then Some (Walk_Done 1 region)
         else if stop = el_start el then map_option (Walk_Done 0) (set_el region p (\<lambda>r. r\<lparr>el_start := start\<rparr>))
         else if start = el_end el then grow_back region p el stop
         else if start < el_start el then Some (Walk_Place prev r)
         else region_walk_loop region start stop (Some p) (el_next el)
       })"

text \<open>\<open>new\<close> is the address that the allocator returns for an element, if it has memory.\<close>

definition region_insert :: "addr option \<Rightarrow> region_struct \<Rightarrow> u64 \<Rightarrow> int \<Rightarrow> addr option \<Rightarrow> addr option \<Rightarrow> (int \<times> region_struct) ub" where
  "region_insert new region start n prev r = (case new of
       None \<Rightarrow> Some (-1, region)
     | Some a \<Rightarrow> do {
         let region = region\<lparr>rg_heap := (rg_heap region)(a \<mapsto> \<lparr>el_start = start, el_end = start + of_int n, el_next = r\<rparr>)\<rparr>;
         let region = (if r = None then region\<lparr>rg_last := Some a\<rparr> else region);
         region \<leftarrow> (case prev of
             Some p \<Rightarrow> set_el region p (\<lambda>e. e\<lparr>el_next := Some a\<rparr>)
           | None \<Rightarrow> Some (region\<lparr>rg_allocated := Some a\<rparr>));
         Some (0, region)
       })"

text \<open>The two tests at the last element, and the walk when neither succeeds.\<close>

definition region_find :: "region_struct \<Rightarrow> u64 \<Rightarrow> u64 \<Rightarrow> region_walk ub" where
  "region_find region start stop = (case rg_last region of
       None \<Rightarrow> region_walk_loop region start stop None (rg_allocated region)
     | Some p \<Rightarrow> do {
         el \<leftarrow> rg_heap region p;
         if el_end el = start \<and> el_next el = None then map_option (Walk_Done 0) (set_el region p (\<lambda>e. e\<lparr>el_end := stop\<rparr>))
         else if start > el_end el \<and> el_next el = None then Some (Walk_Place (Some p) None)
         else region_walk_loop region start stop None (rg_allocated region)
       })"

definition region_allocate :: "addr option \<Rightarrow> region_struct \<Rightarrow> u64 \<Rightarrow> int \<Rightarrow> (int \<times> region_struct) ub" where
  "region_allocate new region start n = do {
     let stop = start + of_int n;
     if start < rg_min region \<or> stop > rg_max region then Some (-1, region)
     else if n = 0 then Some (1, region)
     else do {
       w \<leftarrow> region_find region start stop;
       case w of
         Walk_Done code region \<Rightarrow> Some (code, region)
       | Walk_Place prev r \<Rightarrow> region_insert new region start n prev r
     }
   }"

subsection \<open>Lists of intervals in the heap\<close>

type_synonym ival = "addr \<times> nat \<times> nat"

primrec path :: "(addr \<Rightarrow> region_el option) \<Rightarrow> addr option \<Rightarrow> ival list \<Rightarrow> addr option \<Rightarrow> bool" where
  "path h p [] q \<longleftrightarrow> p = q"
| "path h p (x # xs) q \<longleftrightarrow> p = Some (fst x) \<and> (case h (fst x) of None \<Rightarrow> False
     | Some el \<Rightarrow> unat (el_start el) = fst (snd x) \<and> unat (el_end el) = snd (snd x) \<and> path h (el_next el) xs q)"

lemma path_append [simp]: "path h p (xs @ ys) q \<longleftrightarrow> (\<exists>r. path h p xs r \<and> path h r ys q)"
  by (induction xs arbitrary: p) (auto split: option.splits)

lemma path_upd [simp]: "a \<notin> fst ` set xs \<Longrightarrow> path (h(a := v)) p xs q = path h p xs q"
  by (induction xs arbitrary: p) (auto split: option.splits)

lemma path_start: "path h p xs q \<Longrightarrow> p = (case xs of [] \<Rightarrow> q | x # _ \<Rightarrow> Some (fst x))"
  by (cases xs) auto

text \<open>
  A region in good order: the list ends and is the one given, its elements are non-empty intervals in ascending
  order with a gap between each two, within the bounds, and the last pointer is to the last one. The region
  owns its elements: they are the only difference to the heap \<open>H\<close> before the region was created.
\<close>

definition spread :: "ival list \<Rightarrow> bool" where
  "spread xs \<longleftrightarrow> (\<forall>(a, s, e) \<in> set xs. s < e) \<and> sorted_wrt (\<lambda>(a, s, e) (b, s', e'). e < s') xs"

definition last_ptr :: "ival list \<Rightarrow> addr option" where
  "last_ptr xs = (if xs = [] then None else Some (fst (last xs)))"

definition owns :: "(addr \<Rightarrow> region_el option) \<Rightarrow> region_struct \<Rightarrow> ival list \<Rightarrow> bool" where
  "owns H region xs \<longleftrightarrow> (\<forall>p. if p \<in> fst ` set xs then H p = None else rg_heap region p = H p)"

definition region_ok :: "(addr \<Rightarrow> region_el option) \<Rightarrow> region_struct \<Rightarrow> ival list \<Rightarrow> bool" where
  "region_ok H region xs \<longleftrightarrow> owns H region xs \<and> path (rg_heap region) (rg_allocated region) xs None \<and> distinct (map fst xs) \<and> spread xs
     \<and> rg_last region = last_ptr xs \<and> (\<forall>(a, s, e) \<in> set xs. unat (rg_min region) \<le> s \<and> e \<le> unat (rg_max region))"

definition covered :: "ival list \<Rightarrow> nat set" where
  "covered xs = (\<Union>(a, s, e) \<in> set xs. {s..<e})"

lemma covered_simps [simp]: "covered [] = {}" "covered ((a, s, e) # xs) = {s..<e} \<union> covered xs" "covered (xs @ ys) = covered xs \<union> covered ys"
  by (auto simp: covered_def)

lemma spread_simps [simp]:
  "spread []" "spread ((a, s, e) # xs) \<longleftrightarrow> s < e \<and> (\<forall>(b, s', e') \<in> set xs. e < s') \<and> spread xs"
  "spread (xs @ ys) \<longleftrightarrow> spread xs \<and> spread ys \<and> (\<forall>(a, s, e) \<in> set xs. \<forall>(b, s', e') \<in> set ys. e < s')"
  by (auto simp: spread_def sorted_wrt_append ball_Un)

lemma spreadD: "spread ((a, s, e) # xs) \<Longrightarrow> (b, s', e') \<in> set xs \<Longrightarrow> e < s'"
  by auto

subsection \<open>The walk on the list\<close>

datatype list_walk = Conflict | Grown "ival list" | Hole "ival list" "ival list"

definition hits :: "nat \<Rightarrow> nat \<Rightarrow> nat \<Rightarrow> nat \<Rightarrow> bool" where
  "hits s e x y \<longleftrightarrow> s \<ge> x \<and> s < y \<or> e > x \<and> e \<le> y \<or> s \<le> x \<and> e \<ge> y"

fun back_list :: "nat \<Rightarrow> ival \<Rightarrow> ival list \<Rightarrow> list_walk" where
  "back_list e (a, x, y) [] = Grown [(a, x, e)]"
| "back_list e (a, x, y) ((b, x', y') # r) = (if e > x' then Conflict else if e = x' then Grown ((a, x, y') # r) else Grown ((a, x, e) # (b, x', y') # r))"

primrec walk_cons :: "ival \<Rightarrow> list_walk \<Rightarrow> list_walk" where
  "walk_cons v Conflict = Conflict"
| "walk_cons v (Grown xs) = Grown (v # xs)"
| "walk_cons v (Hole xs ys) = Hole (v # xs) ys"

fun walk_list :: "nat \<Rightarrow> nat \<Rightarrow> ival list \<Rightarrow> list_walk" where
  "walk_list s e [] = Hole [] []"
| "walk_list s e ((a, x, y) # r) =
     (if hits s e x y then Conflict
      else if e = x then Grown ((a, s, y) # r)
      else if s = y then back_list e (a, x, y) r
      else if s < x then Hole [] ((a, x, y) # r)
      else walk_cons (a, x, y) (walk_list s e r))"

text \<open>What the walk finds, in terms of the numbers that are covered.\<close>

lemma hits_iff: "s < e \<Longrightarrow> x < y \<Longrightarrow> hits s e x y \<longleftrightarrow> {s..<e} \<inter> {x..<y} \<noteq> {}"
  by (auto simp: hits_def disjoint_iff not_le intro: exI [of _ s] exI [of _ x])

lemma covered_above: "\<forall>(b, s', e') \<in> set xs. z < s' \<Longrightarrow> w \<in> covered xs \<Longrightarrow> z < w"
  by (fastforce simp: covered_def)

lemma back_list_sound:
  assumes "spread ((a, x, y) # r)" "y < e"
  shows "back_list e (a, x, y) r = Conflict \<longleftrightarrow> {y..<e} \<inter> covered ((a, x, y) # r) \<noteq> {}"
    "back_list e (a, x, y) r = Grown ys \<Longrightarrow> spread ys \<and> covered ys = covered ((a, x, y) # r) \<union> {y..<e} \<and> (\<forall>(b, s', e') \<in> set ys. x \<le> s')"
proof (atomize (full), cases r)
  case Nil
  with assms show "(back_list e (a, x, y) r = Conflict \<longleftrightarrow> {y..<e} \<inter> covered ((a, x, y) # r) \<noteq> {}) \<and>
    (back_list e (a, x, y) r = Grown ys \<longrightarrow> spread ys \<and> covered ys = covered ((a, x, y) # r) \<union> {y..<e} \<and> (\<forall>(b, s', e') \<in> set ys. x \<le> s'))"
    by auto
next
  case (Cons n q)
  obtain b x' y' where n: "n = (b, x', y')" by (cases n)
  have q: "w \<in> covered q \<Longrightarrow> y' < w" for w using covered_above [of q y' w] assms Cons n by auto
  have o: "x < y" "y < x'" "x' < y'" using assms Cons n by auto
  have "(if e > x' then {y..<e} \<inter> covered ((a, x, y) # r) \<noteq> {} else {y..<e} \<inter> covered ((a, x, y) # r) = {})"
  proof (cases "e > x'")
    case True
    with o have "x' \<in> {y..<e} \<inter> covered ((a, x, y) # r)" by (auto simp: Cons n)
    with True show ?thesis by auto
  next
    case False
    have "w \<notin> covered ((a, x, y) # r)" if "w \<in> {y..<e}" for w using that o False q [of w] by (auto simp: Cons n)
    with False show ?thesis by (auto simp: disjoint_iff)
  qed
  moreover have "e = x' \<Longrightarrow> {x..<y} \<union> {y..<e} \<union> {x'..<y'} = {x..<y'}" "e < x' \<Longrightarrow> {x..<y} \<union> {y..<e} = {x..<e}" using o assms(2) by auto
  ultimately show "(back_list e (a, x, y) r = Conflict \<longleftrightarrow> {y..<e} \<inter> covered ((a, x, y) # r) \<noteq> {}) \<and>
    (back_list e (a, x, y) r = Grown ys \<longrightarrow> spread ys \<and> covered ys = covered ((a, x, y) # r) \<union> {y..<e} \<and> (\<forall>(b, s', e') \<in> set ys. x \<le> s'))"
    using assms o by (fastforce simp: Cons n split: if_splits)
qed

definition walk_sound :: "nat \<Rightarrow> nat \<Rightarrow> ival list \<Rightarrow> list_walk \<Rightarrow> bool" where
  "walk_sound s e xs w \<longleftrightarrow> (w = Conflict \<longleftrightarrow> {s..<e} \<inter> covered xs \<noteq> {})
     \<and> (\<forall>ys. w = Grown ys \<longrightarrow> spread ys \<and> covered ys = covered xs \<union> {s..<e} \<and> (\<forall>z. z < s \<longrightarrow> (\<forall>(b, s', e') \<in> set xs. z < s') \<longrightarrow> (\<forall>(b, s', e') \<in> set ys. z < s')))
     \<and> (\<forall>ps qs. w = Hole ps qs \<longrightarrow> xs = ps @ qs \<and> (\<forall>(a, x, y) \<in> set ps. y < s) \<and> (\<forall>(a, x, y) \<in> set qs. e < x))"

lemma walk_list_sound: "spread xs \<Longrightarrow> s < e \<Longrightarrow> walk_sound s e xs (walk_list s e xs)"
proof (induction xs)
  case Nil
  then show ?case by (simp add: walk_sound_def)
next
  case (Cons v r)
  obtain a x y where v: "v = (a, x, y)" by (cases v)
  have sp: "x < y" "spread r" "\<And>b s' e'. (b, s', e') \<in> set r \<Longrightarrow> y < s'" using Cons.prems v by auto
  have r: "y < w" if "w \<in> covered r" for w using covered_above [of r y w] that sp(3) by auto
  note h = hits_iff [OF Cons.prems(2) sp(1)]
  consider "hits s e x y" | "\<not> hits s e x y" "e = x" | "\<not> hits s e x y" "s = y" "e \<noteq> x" | "e < x" | "y < s" "\<not> hits s e x y"
  proof -
    have "hits s e x y \<or> e \<le> x \<or> y \<le> s" using Cons.prems(2) sp(1) unfolding hits_def by linarith
    then show thesis using that sp(1) by (metis le_neq_implies_less)
  qed
  then show ?case
  proof cases
    case 1
    then have "{s..<e} \<inter> covered (v # r) \<noteq> {}" using h unfolding v covered_simps by blast
    with 1 show ?thesis by (simp add: v walk_sound_def)
  next
    case 2
    have "{s..<e} \<inter> covered r = {}" using r 2 sp(1) by (fastforce simp: disjoint_iff)
    moreover have "{s..<y} = {x..<y} \<union> {s..<e}" using 2 sp(1) Cons.prems(2) by auto
    ultimately show ?thesis using 2 h sp Cons.prems(2) by (fastforce simp: v walk_sound_def)
  next
    case 3
    have e: "y < e" using 3 Cons.prems(2) by simp
    have "walk_list s e (v # r) = back_list e (a, x, y) r" using 3 by (simp add: v)
    moreover have "back_list e (a, x, y) r \<noteq> Hole ps qs" for ps qs by (cases r) (auto split: if_splits)
    ultimately show ?thesis using back_list_sound [OF Cons.prems(1) [unfolded v] e] 3(2) sp(1) unfolding walk_sound_def v by fastforce
  next
    case 4
    then have "\<not> hits s e x y" "s < x" "e \<noteq> x" "s \<noteq> y" using sp(1) Cons.prems(2) by (auto simp: hits_def)
    moreover have "{s..<e} \<inter> covered (v # r) = {}" using r 4 sp(1) by (fastforce simp: disjoint_iff v)
    ultimately show ?thesis using 4 sp by (fastforce simp: v walk_sound_def)
  next
    case 5
    then have w: "walk_list s e (v # r) = walk_cons (a, x, y) (walk_list s e r)" using sp(1) Cons.prems(2) by (simp add: v)
    have d: "{s..<e} \<inter> {x..<y} = {}" using 5 h by simp
    have ih: "walk_sound s e r (walk_list s e r)" using Cons.IH [OF sp(2) Cons.prems(2)] .
    show ?thesis
    proof (cases "walk_list s e r")
      case Conflict
      with ih d w show ?thesis by (auto simp: v walk_sound_def)
    next
      case (Grown ys)
      with ih have g: "{s..<e} \<inter> covered r = {}" "spread ys" "covered ys = covered r \<union> {s..<e}" and z: "\<And>z. z < s \<Longrightarrow> (\<forall>(b, s', e') \<in> set r. z < s') \<Longrightarrow> (\<forall>(b, s', e') \<in> set ys. z < s')"
        by (auto simp: walk_sound_def)
      have "\<forall>(b, s', e') \<in> set r. y < s'" using sp(3) by auto
      then have "\<forall>(b, s', e') \<in> set ys. y < s'" by (rule z [OF 5(1)])
      with g d sp Grown w z show ?thesis by (fastforce simp: v walk_sound_def)
    next
      case (Hole ps qs)
      with ih d 5 w show ?thesis by (fastforce simp: v walk_sound_def)
    qed
  qed
qed

subsection \<open>The walk in the heap\<close>

definition rep :: "(addr \<Rightarrow> region_el option) \<Rightarrow> region_struct \<Rightarrow> ival list \<Rightarrow> bool" where
  "rep H region xs \<longleftrightarrow> owns H region xs \<and> path (rg_heap region) (rg_allocated region) xs None \<and> distinct (map fst xs) \<and> rg_last region = last_ptr xs"

definition same_bounds :: "region_struct \<Rightarrow> region_struct \<Rightarrow> bool" where
  "same_bounds region region' \<longleftrightarrow> rg_min region' = rg_min region \<and> rg_max region' = rg_max region"

lemma last_ptr_simps [simp]: "last_ptr [] = None" "last_ptr (xs @ x # ys) = last_ptr (x # ys)" "last_ptr (x # y # ys) = last_ptr (y # ys)" "last_ptr [x] = Some (fst x)"
  by (simp_all add: last_ptr_def)

lemma last_ptr_head: "last_ptr ((a, s, e) # xs) = last_ptr ((a, s', e') # xs)"
  by (cases xs) simp_all

lemma rep_element:
  assumes "rep H region (ps @ (a, x, y) # qs)"
  obtains el where "rg_heap region a = Some el" "unat (el_start el) = x" "unat (el_end el) = y" "path (rg_heap region) (el_next el) qs None"
    "a \<notin> fst ` set ps" "a \<notin> fst ` set qs" "path (rg_heap region) (rg_allocated region) ps (Some a)"
  using assms that by (auto simp: rep_def split: option.splits)

lemma rep_change:
  assumes "rep H region (ps @ (a, x, y) # qs)" and el: "rg_heap region a = Some el" "el_next (f el) = el_next el"
  shows "\<exists>region'. set_el region a f = Some region' \<and> rep H region' (ps @ (a, unat (el_start (f el)), unat (el_end (f el))) # qs) \<and> same_bounds region region'"
  using assms rep_element [OF assms(1)]
  by (auto simp: set_el_def rep_def owns_def same_bounds_def last_ptr_head [of a x y qs "unat (el_start (f el))" "unat (el_end (f el))"] split: option.splits)

lemma rep_join:
  assumes rp: "rep H region (ps @ (a, x, y) # (b, x', y') # qs)" and el: "rg_heap region a = Some el" "rg_heap region b = Some nx"
  shows "\<exists>region'. set_el region a (\<lambda>r. r\<lparr>el_end := el_end nx, el_next := el_next nx\<rparr>) = Some region'
    \<and> rep H (let region' = region'\<lparr>rg_heap := (rg_heap region')(b := None)\<rparr> in if el_next nx = None then region'\<lparr>rg_last := Some a\<rparr> else region') (ps @ (a, x, y') # qs)
    \<and> same_bounds region (let region' = region'\<lparr>rg_heap := (rg_heap region')(b := None)\<rparr> in if el_next nx = None then region'\<lparr>rg_last := Some a\<rparr> else region')"
proof -
  have p: "path (rg_heap region) (rg_allocated region) ps (Some a)" "a \<notin> fst ` set ps" "b \<notin> fst ` set ps" "a \<noteq> b" "a \<notin> fst ` set qs" "b \<notin> fst ` set qs"
    "path (rg_heap region) (el_next nx) qs None" "unat (el_start el) = x" "unat (el_end nx) = y'" "distinct (map fst (ps @ qs))"
    "rg_last region = last_ptr ((b, x', y') # qs)"
    using rp el by (auto simp: rep_def)
  then have "el_next nx = None \<longleftrightarrow> qs = []" using path_start [OF p(7)] by (auto split: list.splits)
  moreover have "qs \<noteq> [] \<Longrightarrow> last_ptr ((b, x', y') # qs) = last_ptr ((a, x, y') # qs)" by (cases qs) simp_all
  moreover have "\<forall>p. if p \<in> fst ` set (ps @ (a, x, y) # (b, x', y') # qs) then H p = None else rg_heap region p = H p" using rp by (simp add: rep_def owns_def)
  ultimately show ?thesis using p el by (auto simp: set_el_def rep_def owns_def same_bounds_def Let_def split: if_splits)
qed

definition head_ptr :: "ival list \<Rightarrow> addr option" where
  "head_ptr xs = (case xs of [] \<Rightarrow> None | x # _ \<Rightarrow> Some (fst x))"

definition walk_matches :: "(addr \<Rightarrow> region_el option) \<Rightarrow> region_struct \<Rightarrow> ival list \<Rightarrow> ival list \<Rightarrow> region_walk \<Rightarrow> list_walk \<Rightarrow> bool" where
  "walk_matches H region ps xs w l \<longleftrightarrow> (case l of
       Conflict \<Rightarrow> w = Walk_Done 1 region
     | Grown ys \<Rightarrow> \<exists>region'. w = Walk_Done 0 region' \<and> rep H region' (ps @ ys) \<and> same_bounds region region'
     | Hole us vs \<Rightarrow> w = Walk_Place (last_ptr (ps @ us)) (head_ptr vs))"

lemma walk_matches_cons: "walk_matches H region (ps @ [v]) xs w l \<Longrightarrow> walk_matches H region ps (v # xs) w (walk_cons v l)"
  by (cases l) (simp_all add: walk_matches_def)

lemmas word_order_nat = word_less_nat_alt word_le_nat_alt word_unat_eq_iff

lemma grow_back_eq:
  assumes rp: "rep H region (ps @ (a, x, y) # qs)" and el: "rg_heap region a = Some el"
  shows "\<exists>w. grow_back region a el stop = Some w \<and> walk_matches H region ps ((a, x, y) # qs) w (back_list (unat stop) (a, x, y) qs)"
proof -
  have e: "unat (el_start el) = x" "path (rg_heap region) (el_next el) qs None" using rep_element [OF rp] el by auto
  from rep_change [OF rp el, of "\<lambda>r. r\<lparr>el_end := stop\<rparr>"] e obtain region' where
    g: "set_el region a (\<lambda>r. r\<lparr>el_end := stop\<rparr>) = Some region'" "rep H region' (ps @ (a, x, unat stop) # qs)" "same_bounds region region'" by auto
  show ?thesis
  proof (cases qs)
    case Nil
    with e g show ?thesis by (auto simp: grow_back_def walk_matches_def)
  next
    case (Cons v r)
    obtain b x' y' where v: "v = (b, x', y')" by (cases v)
    with e Cons obtain nx where nx: "el_next el = Some b" "rg_heap region b = Some nx" "unat (el_start nx) = x'" by (auto split: option.splits)
    from rep_join [OF rp [unfolded Cons v] el nx(2)] obtain region2 where
      j: "set_el region a (\<lambda>r. r\<lparr>el_end := el_end nx, el_next := el_next nx\<rparr>) = Some region2"
      "rep H (let region' = region2\<lparr>rg_heap := (rg_heap region2)(b := None)\<rparr> in if el_next nx = None then region'\<lparr>rg_last := Some a\<rparr> else region') (ps @ (a, x, y') # r)"
      "same_bounds region (let region' = region2\<lparr>rg_heap := (rg_heap region2)(b := None)\<rparr> in if el_next nx = None then region'\<lparr>rg_last := Some a\<rparr> else region')"
      unfolding Cons v by blast
    consider "unat stop > x'" | "unat stop = x'" | "unat stop < x'" by linarith
    then show ?thesis
    proof cases
      case 1
      then show ?thesis using nx by (simp add: Cons v grow_back_def walk_matches_def word_order_nat)
    next
      case 2
      then show ?thesis using nx j by (simp add: Cons v grow_back_def walk_matches_def word_order_nat Let_def)
    next
      case 3
      then show ?thesis using nx g by (simp add: Cons v grow_back_def walk_matches_def word_order_nat)
    qed
  qed
qed

lemma walk_loop_eq:
  assumes "rep H region (ps @ xs)" "r = head_ptr xs" "prev = last_ptr ps"
  shows "\<exists>w. region_walk_loop region start stop prev r = Some w \<and> walk_matches H region ps xs w (walk_list (unat start) (unat stop) xs)"
  using assms
proof (induction xs arbitrary: ps r prev)
  case Nil
  then show ?case by (subst region_walk_loop.simps) (simp add: head_ptr_def walk_matches_def)
next
  case (Cons v qs)
  obtain a x y where v: "v = (a, x, y)" by (cases v)
  from rep_element [OF Cons.prems(1) [unfolded v]] obtain el where
    e: "rg_heap region a = Some el" "unat (el_start el) = x" "unat (el_end el) = y" "path (rg_heap region) (el_next el) qs None" by auto
  have r: "r = Some a" using Cons.prems(2) v by (simp add: head_ptr_def)
  let ?s = "unat start" and ?e = "unat stop"
  have step: "region_walk_loop region start stop prev r =
      (if hits ?s ?e x y then Some (Walk_Done 1 region)
       else if ?e = x then map_option (Walk_Done 0) (set_el region a (\<lambda>r. r\<lparr>el_start := start\<rparr>))
       else if ?s = y then grow_back region a el stop
       else if ?s < x then Some (Walk_Place prev r)
       else region_walk_loop region start stop (Some a) (el_next el))"
    by (subst region_walk_loop.simps) (simp only: r option.case e(1) Option.bind.simps hits_def e(2,3) word_order_nat)
  consider "hits ?s ?e x y" | "\<not> hits ?s ?e x y" "?e = x" | "\<not> hits ?s ?e x y" "?e \<noteq> x" "?s = y"
    | "\<not> hits ?s ?e x y" "?e \<noteq> x" "?s \<noteq> y" "?s < x" | "\<not> hits ?s ?e x y" "?e \<noteq> x" "?s \<noteq> y" "\<not> ?s < x" by blast
  then show ?case
  proof cases
    case 1
    then show ?thesis by (simp add: step v walk_matches_def)
  next
    case 2
    from rep_change [OF Cons.prems(1) [unfolded v] e(1), of "\<lambda>r. r\<lparr>el_start := start\<rparr>"] e show ?thesis
      using 2 by (auto simp: step v walk_matches_def)
  next
    case 3
    with grow_back_eq [OF Cons.prems(1) [unfolded v] e(1), of stop] show ?thesis by (simp add: step v)
  next
    case 4
    then have "region_walk_loop region start stop prev r = Some (Walk_Place prev r)" by (simp add: step)
    with 4 Cons.prems(2,3) show ?thesis by (simp add: v walk_matches_def)
  next
    case 5
    have nx: "el_next el = head_ptr qs" using path_start [OF e(4)] by (simp add: head_ptr_def split: list.splits)
    have "rep H region ((ps @ [v]) @ qs)" using Cons.prems(1) by simp
    from Cons.IH [OF this nx, of "Some a"] obtain w where
      "region_walk_loop region start stop (Some a) (el_next el) = Some w" "walk_matches H region (ps @ [v]) qs w (walk_list ?s ?e qs)" by (auto simp: v)
    with walk_matches_cons [of H region ps v qs w] 5 show ?thesis by (auto simp: step v)
  qed
qed

subsection \<open>An allocation\<close>

lemma path_dom: "path h p xs q \<Longrightarrow> a \<in> fst ` set xs \<Longrightarrow> h a \<noteq> None"
  by (induction xs arbitrary: p) (auto split: option.splits)

lemma rep_insert:
  assumes rp: "rep H region (us @ vs)" and new: "rg_heap region a = None"
  shows "\<exists>region'. region_insert (Some a) region start n (last_ptr us) (head_ptr vs) = Some (0, region')
    \<and> rep H region' (us @ (a, unat start, unat (start + of_int n)) # vs) \<and> same_bounds region region'"
proof -
  have p: "path (rg_heap region) (rg_allocated region) us (head_ptr vs)" "path (rg_heap region) (head_ptr vs) vs None" "distinct (map fst (us @ vs))"
    "rg_last region = last_ptr (us @ vs)"
    using rp path_start [of "rg_heap region" _ vs None] by (auto simp: rep_def head_ptr_def)
  have own: "owns H region (us @ vs)" using rp by (simp add: rep_def)
  have fresh: "a \<notin> fst ` set us" "a \<notin> fst ` set vs" using path_dom [OF p(1), of a] path_dom [OF p(2), of a] new by blast+
  then have a: "H a = None" using own new by (auto simp: owns_def split: if_splits)
  have lst: "(if head_ptr vs = None then Some a else rg_last region) = last_ptr (us @ (a, unat start, unat (start + of_int n)) # vs)"
    using p(4) by (cases vs) (simp_all add: head_ptr_def)
  show ?thesis
  proof (cases us rule: rev_cases)
    case Nil
    with p fresh lst own a show ?thesis by (auto simp: region_insert_def Let_def rep_def owns_def same_bounds_def)
  next
    case (snoc us' u)
    obtain c x y where u: "u = (c, x, y)" by (cases u)
    with p snoc obtain el where el: "rg_heap region c = Some el" "unat (el_start el) = x" "unat (el_end el) = y" "path (rg_heap region) (rg_allocated region) us' (Some c)"
      by (auto split: option.splits)
    have c: "c \<noteq> a" "c \<notin> fst ` set us'" "c \<notin> fst ` set vs" "last_ptr us = Some c" "a \<notin> fst ` set us'" using fresh p(3) snoc u by (auto simp: last_ptr_def)
    with el p(2,3) fresh lst own a snoc u show ?thesis by (auto simp: region_insert_def Let_def rep_def set_el_def owns_def same_bounds_def)
  qed
qed

lemma walk_choice:
  assumes "spread (ps @ [(a, x, y)])" "s < e" "y \<le> s"
  shows "walk_list s e (ps @ [(a, x, y)]) = (if y = s then Grown (ps @ [(a, x, e)]) else Hole (ps @ [(a, x, y)]) [])"
  using assms by (induction ps) (auto simp: hits_def)

lemma region_find_eq:
  fixes start stop :: u64
  assumes rp: "rep H region xs" and sp: "spread xs" and lt: "start < stop"
  shows "\<exists>w. region_find region start stop = Some w \<and> walk_matches H region [] xs w (walk_list (unat start) (unat stop) xs)"
proof -
  have hd: "rg_allocated region = head_ptr xs" using rp path_start [of "rg_heap region" _ xs None] by (auto simp: rep_def head_ptr_def split: list.splits)
  have loop: "\<exists>w. region_walk_loop region start stop None (rg_allocated region) = Some w \<and> walk_matches H region [] xs w (walk_list (unat start) (unat stop) xs)"
    using walk_loop_eq [of H region "[]" xs] rp hd by simp
  show ?thesis
  proof (cases xs rule: rev_cases)
    case Nil
    with rp loop show ?thesis by (simp add: rep_def region_find_def)
  next
    case (snoc ps v)
    obtain a x y where v: "v = (a, x, y)" by (cases v)
    from rep_element [of H region ps a x y "[]"] rp snoc v obtain el where
      el: "rg_heap region a = Some el" "unat (el_start el) = x" "unat (el_end el) = y" "el_next el = None" by auto
    from rep_change [of H region ps a x y "[]", OF _ el(1), of "\<lambda>r. r\<lparr>el_end := stop\<rparr>"] rp snoc v el obtain region' where
      g: "set_el region a (\<lambda>r. r\<lparr>el_end := stop\<rparr>) = Some region'" "rep H region' (ps @ [(a, x, unat stop)])" "same_bounds region region'" by auto
    have l: "rg_last region = Some a" using rp snoc v by (simp add: rep_def)
    have w: "walk_list (unat start) (unat stop) xs = (if y = unat start then Grown (ps @ [(a, x, unat stop)]) else Hole xs [])" if "y \<le> unat start"
      using walk_choice [of ps a x y "unat start" "unat stop"] sp lt snoc v that by (simp add: word_order_nat)
    consider "y = unat start" | "y < unat start" | "unat start < y" by linarith
    then show ?thesis
    proof cases
      case 1
      with w g l el show ?thesis by (simp add: region_find_def word_order_nat walk_matches_def)
    next
      case 2
      have "last_ptr xs = Some a" by (simp add: snoc v)
      with 2 w l el show ?thesis by (simp add: region_find_def word_order_nat walk_matches_def head_ptr_def)
    next
      case 3
      with loop l el show ?thesis by (simp add: region_find_def word_order_nat)
    qed
  qed
qed

lemma bounds_covered:
  assumes "spread xs"
  shows "(\<forall>(a, s, e) \<in> set xs. lo \<le> s \<and> e \<le> hi) \<longleftrightarrow> covered xs \<subseteq> {lo..<hi}"
proof
  assume "\<forall>(a, s, e) \<in> set xs. lo \<le> s \<and> e \<le> hi"
  then show "covered xs \<subseteq> {lo..<hi}" by (fastforce simp: covered_def)
next
  assume c: "covered xs \<subseteq> {lo..<hi}"
  show "\<forall>(a, s, e) \<in> set xs. lo \<le> s \<and> e \<le> hi"
  proof (clarify, goal_cases)
    case (1 a s e)
    then have "s < e" using assms by (auto simp: spread_def)
    moreover have "{s..<e} \<subseteq> {lo..<hi}" using 1 c by (force simp: covered_def)
    ultimately show ?case by simp
  qed
qed

lemma region_ok_iff: "region_ok H region xs \<longleftrightarrow> rep H region xs \<and> spread xs \<and> covered xs \<subseteq> {unat (rg_min region)..<unat (rg_max region)}"
  using bounds_covered [of xs "unat (rg_min region)" "unat (rg_max region)"] unfolding region_ok_def rep_def by blast

lemma region_allocate_run:
  fixes region :: region_struct and start :: u64 and n :: int
  defines "I \<equiv> {unat start..<unat start + nat n}"
  assumes ok: "region_ok H region xs" and n: "0 < n" "unat start + nat n < 2 ^ 64" and new: "\<And>a. new = Some a \<Longrightarrow> rg_heap region a = None"
  shows "\<exists>code region' ys. region_allocate new region start n = Some (code, region') \<and> region_ok H region' ys
    \<and> rg_min region' = rg_min region \<and> rg_max region' = rg_max region
    \<and> (if \<not> I \<subseteq> {unat (rg_min region)..<unat (rg_max region)} then code = -1 \<and> region' = region \<and> ys = xs
       else if I \<inter> covered xs \<noteq> {} then code = 1 \<and> region' = region \<and> ys = xs
       else code = 0 \<and> covered ys = covered xs \<union> I \<or> code = -1 \<and> new = None \<and> region' = region \<and> ys = xs)"
proof -
  define stop where "stop = start + of_int n"
  have "unat stop = unat start + nat n"
  proof -
    have "unat (of_nat (nat n) :: u64) = nat n" using n(2) by (simp only: unat_of_nat) (simp add: take_bit_nat_eq_self)
    then have "unat (of_int n :: u64) = nat n" using n(1) by simp
    then show ?thesis using n by (simp add: stop_def unat_word_ariths)
  qed
  then have I: "I = {unat start..<unat stop}" "start < stop" "unat start < unat stop" using n(1) by (simp_all add: I_def word_order_nat)
  have rp: "rep H region xs" "spread xs" and bd: "covered xs \<subseteq> {unat (rg_min region)..<unat (rg_max region)}"
    using ok unfolding region_ok_iff by blast+
  have out: "(start < rg_min region \<or> stop > rg_max region) \<longleftrightarrow> \<not> I \<subseteq> {unat (rg_min region)..<unat (rg_max region)}"
    using I by (auto simp: word_order_nat)
  show ?thesis
  proof (cases "I \<subseteq> {unat (rg_min region)..<unat (rg_max region)}")
    case False
    with out ok show ?thesis by (auto simp: region_allocate_def Let_def stop_def)
  next
    case True
    from region_find_eq [OF rp I(2)] obtain w where w: "region_allocate new region start n = (case w of Walk_Done code region \<Rightarrow> Some (code, region)
         | Walk_Place prev r \<Rightarrow> region_insert new region start n prev r)" "walk_matches H region [] xs w (walk_list (unat start) (unat stop) xs)"
      using out True n(1) by (auto simp: region_allocate_def Let_def stop_def)
    note snd = walk_list_sound [OF rp(2) I(3)]
    show ?thesis
    proof (cases "walk_list (unat start) (unat stop) xs")
      case Conflict
      with w snd I(1) ok True show ?thesis by (auto simp: walk_matches_def walk_sound_def)
    next
      case (Grown ys)
      with w obtain region' where g: "w = Walk_Done 0 region'" "rep H region' ys" "same_bounds region region'" by (auto simp: walk_matches_def)
      have s: "spread ys" "covered ys = covered xs \<union> I" "I \<inter> covered xs = {}" using snd Grown I(1) by (auto simp: walk_sound_def)
      then have "region_ok H region' ys" using g bd True unfolding region_ok_iff same_bounds_def by simp
      with g s w True show ?thesis by (auto simp: same_bounds_def)
    next
      case (Hole us vs)
      with w have p: "w = Walk_Place (last_ptr us) (head_ptr vs)" by (simp add: walk_matches_def)
      have s: "xs = us @ vs" "I \<inter> covered xs = {}" "\<forall>(a, x, y) \<in> set us. y < unat start" "\<forall>(a, x, y) \<in> set vs. unat stop < x"
        using snd Hole I(1) by (auto simp: walk_sound_def)
      show ?thesis
      proof (cases new)
        case None
        with p w ok s True show ?thesis by (auto simp: region_insert_def)
      next
        case (Some a)
        from rep_insert [of H region us vs a start n] rp(1) s(1) new [OF Some] obtain region' where
          r: "region_insert new region start n (last_ptr us) (head_ptr vs) = Some (0, region')" "rep H region' (us @ (a, unat start, unat stop) # vs)"
            "rg_min region' = rg_min region" "rg_max region' = rg_max region" by (auto simp: Some stop_def same_bounds_def)
        have "spread (us @ (a, unat start, unat stop) # vs)" using rp(2) s I(3) by fastforce
        moreover have "covered (us @ (a, unat start, unat stop) # vs) = covered xs \<union> I" using s(1) I(1) by auto
        ultimately have "region_ok H region' (us @ (a, unat start, unat stop) # vs)" using r bd True unfolding region_ok_iff by simp
        with r p w s True \<open>covered (us @ (a, unat start, unat stop) # vs) = covered xs \<union> I\<close> show ?thesis by auto
      qed
    qed
  qed
qed

text \<open>
  An allocation in a region in good order is defined and keeps the order, and its code is exact: \<open>-1\<close> when the
  interval does not lie within the bounds, \<open>1\<close> when it meets a number that is taken, and otherwise \<open>0\<close>, after which
  exactly the numbers of the interval are taken in addition, or \<open>-1\<close> when an element was needed and memory ran out. With
  every code but \<open>0\<close> the region is unchanged.
\<close>

theorem region_allocate_correct:
  fixes region :: region_struct and start :: u64 and n :: int
  defines "I \<equiv> {unat start..<unat start + nat n}"
  assumes ok: "region_ok H region xs" and n: "0 < n" "unat start + nat n < 2 ^ 64" and new: "\<And>a. new = Some a \<Longrightarrow> rg_heap region a = None"
  shows "\<exists>code region' ys. region_allocate new region start n = Some (code, region') \<and> region_ok H region' ys
    \<and> rg_min region' = rg_min region \<and> rg_max region' = rg_max region
    \<and> (if \<not> I \<subseteq> {unat (rg_min region)..<unat (rg_max region)} then code = -1 \<and> region' = region \<and> ys = xs
       else if I \<inter> covered xs \<noteq> {} then code = 1 \<and> region' = region \<and> ys = xs
       else code = 0 \<and> covered ys = covered xs \<union> I \<or> code = -1 \<and> new = None \<and> region' = region \<and> ys = xs)"
  unfolding I_def by (rule region_allocate_run [OF ok n new])

subsection \<open>From creation to release\<close>

text \<open>The allocator returns an address that holds no element, or none.\<close>

definition malloc_ok :: "((addr \<Rightarrow> region_el option) \<Rightarrow> addr option) \<Rightarrow> bool" where
  "malloc_ok malloc \<longleftrightarrow> (\<forall>h a. malloc h = Some a \<longrightarrow> h a = None)"

primrec region_run :: "((addr \<Rightarrow> region_el option) \<Rightarrow> addr option) \<Rightarrow> (u64 \<times> int) list \<Rightarrow> region_struct \<Rightarrow> (int list \<times> region_struct) ub" where
  "region_run malloc [] region = Some ([], region)"
| "region_run malloc (q # qs) region = do {
     (c, region) \<leftarrow> region_allocate (malloc (rg_heap region)) region (fst q) (snd q);
     (cs, region) \<leftarrow> region_run malloc qs region;
     Some (c # cs, region)
   }"

text \<open>The contract: a set of numbers within \<open>B\<close>.\<close>

inductive region_trace :: "nat set \<Rightarrow> nat set \<Rightarrow> nat set list \<Rightarrow> int list \<Rightarrow> nat set \<Rightarrow> bool" for B :: "nat set" where
  trace_end: "region_trace B S [] [] S"
| trace_taken: "I \<subseteq> B \<Longrightarrow> I \<inter> S = {} \<Longrightarrow> region_trace B (S \<union> I) Is cs S' \<Longrightarrow> region_trace B S (I # Is) (0 # cs) S'"
| trace_conflict: "I \<subseteq> B \<Longrightarrow> I \<inter> S \<noteq> {} \<Longrightarrow> region_trace B S Is cs S' \<Longrightarrow> region_trace B S (I # Is) (1 # cs) S'"
| trace_refused: "\<not> I \<subseteq> B \<or> I \<inter> S = {} \<Longrightarrow> region_trace B S Is cs S' \<Longrightarrow> region_trace B S (I # Is) (-1 # cs) S'"

definition wants :: "u64 \<times> int \<Rightarrow> nat set" where
  "wants q = {unat (fst q)..<unat (fst q) + nat (snd q)}"

definition request_ok :: "u64 \<times> int \<Rightarrow> bool" where
  "request_ok q \<longleftrightarrow> 0 < snd q \<and> unat (fst q) + nat (snd q) < 2 ^ 64"

lemma region_run_simulates:
  assumes malloc: "malloc_ok malloc"
  shows "list_all request_ok qs \<Longrightarrow> region_ok H region xs \<Longrightarrow>
    \<exists>cs region' ys. region_run malloc qs region = Some (cs, region') \<and> region_ok H region' ys
      \<and> region_trace {unat (rg_min region)..<unat (rg_max region)} (covered xs) (map wants qs) cs (covered ys)"
proof (induction qs arbitrary: region xs)
  case Nil
  then show ?case by (auto intro: trace_end)
next
  case (Cons q qs)
  have q: "0 < snd q" "unat (fst q) + nat (snd q) < 2 ^ 64" using Cons.prems(1) by (simp_all add: request_ok_def)
  have m: "rg_heap region a = None" if "malloc (rg_heap region) = Some a" for a using malloc that by (simp add: malloc_ok_def)
  from region_allocate_run [OF Cons.prems(2) q m, folded wants_def] obtain c region1 ys1 where
    r: "region_allocate (malloc (rg_heap region)) region (fst q) (snd q) = Some (c, region1)" "region_ok H region1 ys1"
      "rg_min region1 = rg_min region" "rg_max region1 = rg_max region"
      "if \<not> wants q \<subseteq> {unat (rg_min region)..<unat (rg_max region)} then c = -1 \<and> region1 = region \<and> ys1 = xs
       else if wants q \<inter> covered xs \<noteq> {} then c = 1 \<and> region1 = region \<and> ys1 = xs
       else c = 0 \<and> covered ys1 = covered xs \<union> wants q \<or> c = -1 \<and> malloc (rg_heap region) = None \<and> region1 = region \<and> ys1 = xs" by blast
  from Cons.IH [OF _ r(2)] Cons.prems(1) r(3,4) obtain cs region2 ys2 where
    s: "region_run malloc qs region1 = Some (cs, region2)" "region_ok H region2 ys2"
      "region_trace {unat (rg_min region)..<unat (rg_max region)} (covered ys1) (map wants qs) cs (covered ys2)" by auto
  have "region_trace {unat (rg_min region)..<unat (rg_max region)} (covered xs) (map wants (q # qs)) (c # cs) (covered ys2)"
    using r(5) s(3) by (auto intro: region_trace.intros split: if_splits)
  with r s show ?case by auto
qed

text \<open>Freeing the list gives the heap from before the region was created: nothing leaks, and nothing is freed twice.\<close>

lemma region_free_loop_eq:
  "path h p xs None \<Longrightarrow> distinct (map fst xs) \<Longrightarrow> region_free_loop h p = Some (\<lambda>a. if a \<in> fst ` set xs then None else h a)"
proof (induction xs arbitrary: h p)
  case Nil
  then show ?case by (subst region_free_loop.simps) simp
next
  case (Cons v xs)
  then obtain el where el: "p = Some (fst v)" "h (fst v) = Some el" "path h (el_next el) xs None" by (auto split: option.splits)
  have "path (h(fst v := None)) (el_next el) xs None" using el(3) Cons.prems(2) by simp
  from Cons.IH [OF this] Cons.prems(2) el(1,2) have "region_free_loop h p = Some (\<lambda>a. if a \<in> fst ` set xs then None else (h(fst v := None)) a)"
    by (subst region_free_loop.simps) (simp del: fun_upd_apply)
  then show ?case by (auto simp: fun_eq_iff)
qed

lemma region_free_ok: "region_ok H region xs \<Longrightarrow> region_free region = Some H"
  using region_free_loop_eq [of "rg_heap region" "rg_allocated region" xs]
  by (auto simp: region_free_def region_ok_def owns_def fun_eq_iff split: if_splits)

text \<open>
  (C6) A region from its creation to its release: any sequence of requests for intervals runs without an undefined
  access, its codes are those of a set of numbers within the bounds (a request may be refused for lack of memory),
  and releasing the region gives back exactly the heap from before.
\<close>

theorem region_lifetime:
  assumes malloc: "malloc_ok malloc" and qs: "list_all request_ok qs"
    and cr: "region_create ok H mn mx = Some region"
  shows "\<exists>cs region' S. region_run malloc qs region = Some (cs, region') \<and> region_free region' = Some H
    \<and> region_trace {unat mn..<unat mx} {} (map wants qs) cs S"
proof -
  have r: "region = \<lparr>rg_min = mn, rg_max = mx, rg_allocated = None, rg_last = None, rg_heap = H\<rparr>" using cr by (simp add: region_create_def split: if_splits)
  have "region_ok H region []" by (simp add: r region_ok_def owns_def)
  from region_run_simulates [OF malloc qs this] obtain cs region' ys where
    "region_run malloc qs region = Some (cs, region')" "region_ok H region' ys" "region_trace {unat mn..<unat mx} {} (map wants qs) cs (covered ys)" unfolding r by auto
  with region_free_ok show ?thesis by blast
qed

definition first_free :: "(addr \<Rightarrow> region_el option) \<Rightarrow> addr option" where
  "first_free h = (if h 0 = None then Some 0 else if h 1 = None then Some 1 else None)"

lemma first_free_fresh: "malloc_ok first_free"
  by (auto simp: malloc_ok_def first_free_def split: if_splits)

lemma empty_region_ok: "region_ok (\<lambda>_. None) \<lparr>rg_min = 0, rg_max = 100, rg_allocated = None, rg_last = None, rg_heap = \<lambda>_. None\<rparr> []"
  by (simp add: region_ok_def owns_def)

theorem region_allocate_correct_witness:
  "\<exists>code region' ys. region_allocate (Some 0) \<lparr>rg_min = 0, rg_max = 100, rg_allocated = None, rg_last = None, rg_heap = \<lambda>_. None\<rparr> 10 20 = Some (code, region')
    \<and> region_ok (\<lambda>_. None) region' ys \<and> code = 0 \<and> covered ys = {10..<30}"
  using region_allocate_correct [OF empty_region_ok, of 20 10 "Some 0"] by auto

theorem region_lifetime_witness:
  "\<exists>region cs region' S. region_create True (\<lambda>_. None) 0 100 = Some region
    \<and> region_run first_free [(10, 20), (25, 10), (30, 5)] region = Some (cs, region') \<and> region_free region' = Some (\<lambda>_. None)
    \<and> region_trace {0..<100} {} [{10..<30}, {25..<35}, {30..<35}] cs S"
proof -
  have qs: "list_all request_ok [(10, 20), (25, 10), (30, 5)]" by (simp add: request_ok_def)
  obtain region where c: "region_create True (\<lambda>_. None) 0 100 = Some region" by (simp add: region_create_def)
  have "map wants [(10, 20), (25, 10), (30, 5)] = [{10..<30}, {25..<35}, {30..<35}]" by (simp add: wants_def)
  with region_lifetime [OF first_free_fresh qs c] c show ?thesis by auto
qed

end
