(* ===== verification/Uuid.thy ===== *)
theory Uuid
  imports Le_Bytes
begin

unbundle bit_operations_syntax

text \<open>
  Unique identifiers: \<^verbatim>\<open>lib/uuid\<close>. An identifier is 16 bytes; the fields of \<^verbatim>\<open>struct uuid\<close> are stored in network byte
  order and printed as hexadecimal digits with four dashes. Strings are byte arrays that end with a zero. Of the
  standard library the theory models \<^verbatim>\<open>strtoul\<close> with base 16, \<^verbatim>\<open>isxdigit\<close> in the C locale (which is false for bytes from 0x80 on, whose
  \<^verbatim>\<open>char\<close> is negative, as glibc has it; the C standard leaves them undefined) and the conversions
  \<^verbatim>\<open>%0wx\<close> and \<^verbatim>\<open>%0wX\<close> of \<^verbatim>\<open>sprintf\<close>. The generation of identifiers asks the system and is not modelled.
\<close>

record uuid =
  time_low :: u32
  time_mid :: u16
  time_hi_and_version :: u16
  clock_seq :: u16
  node :: "u8 list"

definition uuid_clear :: "u8 list \<Rightarrow> u8 list ub" where
  "uuid_clear uu = c_put uu 0 (replicate 16 0)"

primrec uuid_copy_loop :: "nat \<Rightarrow> nat \<Rightarrow> u8 list \<Rightarrow> u8 list \<Rightarrow> u8 list ub" where
  "uuid_copy_loop 0 i dst src = Some dst"
| "uuid_copy_loop (Suc k) i dst src = do {
     c \<leftarrow> c_load src i;
     dst \<leftarrow> c_store dst i c;
     uuid_copy_loop k (Suc i) dst src
   }"

definition uuid_copy :: "u8 list \<Rightarrow> u8 list \<Rightarrow> u8 list ub" where
  "uuid_copy dst src = uuid_copy_loop 16 0 dst src"

primrec uuid_null_loop :: "nat \<Rightarrow> nat \<Rightarrow> u8 list \<Rightarrow> int ub" where
  "uuid_null_loop 0 i uu = Some 1"
| "uuid_null_loop (Suc k) i uu = do {
     c \<leftarrow> c_load uu i;
     if c \<noteq> 0 then Some 0 else uuid_null_loop k (Suc i) uu
   }"

definition uuid_is_null :: "u8 list \<Rightarrow> int ub" where
  "uuid_is_null uu = uuid_null_loop 16 0 uu"

definition uuid_pack :: "uuid \<Rightarrow> u8 list \<Rightarrow> u8 list ub" where
  "uuid_pack uu out = do {
     let t = time_low uu;
     node \<leftarrow> c_get (node uu) 0 6;
     out \<leftarrow> c_put out 0 [ucast (drop_bit 8 (drop_bit 8 (drop_bit 8 t))), ucast (drop_bit 8 (drop_bit 8 t)), ucast (drop_bit 8 t), ucast t];
     let t = (ucast (time_mid uu) :: u32);
     out \<leftarrow> c_put out 4 [ucast (drop_bit 8 t), ucast t];
     let t = (ucast (time_hi_and_version uu) :: u32);
     out \<leftarrow> c_put out 6 [ucast (drop_bit 8 t), ucast t];
     let t = (ucast (clock_seq uu) :: u32);
     out \<leftarrow> c_put out 8 [ucast (drop_bit 8 t), ucast t];
     c_put out 10 node
   }"

text \<open>\<^verbatim>\<open>tmp = (tmp << 8) | *ptr++\<close> over a number of bytes.\<close>

definition be_read :: "u8 list \<Rightarrow> nat \<Rightarrow> nat \<Rightarrow> u32 ub" where
  "be_read inp i n = map_option (foldl (\<lambda>t b. push_bit 8 t OR ucast b) 0) (c_get inp i n)"

definition uuid_unpack :: "u8 list \<Rightarrow> uuid ub" where
  "uuid_unpack inp = do {
     a \<leftarrow> be_read inp 0 4;
     b \<leftarrow> be_read inp 4 2;
     c \<leftarrow> be_read inp 6 2;
     d \<leftarrow> be_read inp 8 2;
     n \<leftarrow> c_get inp 10 6;
     Some \<lparr>time_low = a, time_mid = ucast b, time_hi_and_version = ucast c, clock_seq = ucast d, node = n\<rparr>
   }"

subsection \<open>Printing\<close>

definition hex_char :: "bool \<Rightarrow> nat \<Rightarrow> u8" where
  "hex_char upper d = of_nat (if d < 10 then 48 + d else if upper then 55 + d else 87 + d)"

fun hex_digits :: "bool \<Rightarrow> nat \<Rightarrow> u8 list" where
  "hex_digits upper n = (if n < 16 then [hex_char upper n] else hex_digits upper (n div 16) @ [hex_char upper (n mod 16)])"

declare hex_digits.simps [simp del]

text \<open>\<^verbatim>\<open>%0wx\<close> or \<^verbatim>\<open>%0wX\<close>.\<close>

definition hex_padded :: "bool \<Rightarrow> nat \<Rightarrow> nat \<Rightarrow> u8 list" where
  "hex_padded upper w n = replicate (w - length (hex_digits upper n)) 48 @ hex_digits upper n"

text \<open>The format string is \<open>fmt_upper\<close> or \<open>fmt_lower\<close>.\<close>

definition uuid_unparse_x :: "u8 list \<Rightarrow> u8 list \<Rightarrow> bool \<Rightarrow> u8 list ub" where
  "uuid_unparse_x uu out upper = do {
     uuid \<leftarrow> uuid_unpack uu;
     let h = hex_padded upper;
     let nd = (\<lambda>i. h 2 (unat (node uuid ! i)));
     c_put out 0 (h 8 (unat (time_low uuid)) @ [0x2d] @ h 4 (unat (time_mid uuid)) @ [0x2d] @ h 4 (unat (time_hi_and_version uuid)) @ [0x2d]
       @ h 2 (unat (drop_bit 8 (clock_seq uuid))) @ h 2 (unat (clock_seq uuid AND 0xFF)) @ [0x2d]
       @ nd 0 @ nd 1 @ nd 2 @ nd 3 @ nd 4 @ nd 5 @ [0])
   }"

definition uuid_unparse_lower :: "u8 list \<Rightarrow> u8 list \<Rightarrow> u8 list ub" where
  "uuid_unparse_lower uu out = uuid_unparse_x uu out False"

definition uuid_unparse_upper :: "u8 list \<Rightarrow> u8 list \<Rightarrow> u8 list ub" where
  "uuid_unparse_upper uu out = uuid_unparse_x uu out True"

definition uuid_unparse :: "u8 list \<Rightarrow> u8 list \<Rightarrow> u8 list ub" where
  "uuid_unparse uu out = uuid_unparse_x uu out False"

subsection \<open>Reading\<close>

definition isxdigit :: "u8 \<Rightarrow> bool" where
  "isxdigit c \<longleftrightarrow> 48 \<le> c \<and> c \<le> 57 \<or> 65 \<le> c \<and> c \<le> 70 \<or> 97 \<le> c \<and> c \<le> 102"

definition c_isspace :: "u8 \<Rightarrow> bool" where
  "c_isspace c \<longleftrightarrow> c = 32 \<or> 9 \<le> c \<and> c \<le> 13"

definition hex_val :: "u8 \<Rightarrow> nat" where
  "hex_val c = (if c \<le> 57 then unat c - 48 else if c \<le> 70 then unat c - 55 else unat c - 87)"

text \<open>\<^verbatim>\<open>strtoul (s, NULL, 16)\<close> with 64-bit \<^verbatim>\<open>unsigned long\<close>; \<open>None\<close> if the string does not end.\<close>

definition strtoul16 :: "u8 list \<Rightarrow> u64 ub" where
  "strtoul16 s = do {
     let t = dropWhile c_isspace s;
     let neg = (take 1 t = [45]);
     let t = (if take 1 t \<in> {[43], [45]} then drop 1 t else t);
     let t = (if take 2 t \<in> {[48, 120], [48, 88]} \<and> 2 < length t \<and> isxdigit (t ! 2) then drop 2 t else t);
     let ds = takeWhile isxdigit t;
     let v = foldl (\<lambda>a c. a * 16 + hex_val c) 0 ds;
     if length ds = length t then None
     else Some (if v > 18446744073709551615 then 18446744073709551615 else if neg then - of_nat v else of_nat v)
   }"

text \<open>The loop over the characters: the number of rounds left, and \<open>i\<close>. The result is whether the format is right.\<close>

primrec parse_check :: "u8 list \<Rightarrow> nat \<Rightarrow> nat \<Rightarrow> bool ub" where
  "parse_check inp 0 i = Some True"
| "parse_check inp (Suc k) i = do {
     c \<leftarrow> c_load inp i;
     if i = 8 \<or> i = 13 \<or> i = 18 \<or> i = 23 then (if c = 0x2d then parse_check inp k (Suc i) else Some False)
     else if i = 36 \<and> c = 0 then parse_check inp k (Suc i)
     else if \<not> isxdigit c then Some False
     else parse_check inp k (Suc i)
   }"

primrec parse_node :: "u8 list \<Rightarrow> nat \<Rightarrow> nat \<Rightarrow> u8 list ub" where
  "parse_node inp 0 i = Some []"
| "parse_node inp (Suc k) i = do {
     a \<leftarrow> c_load inp i;
     b \<leftarrow> c_load inp (i + 1);
     v \<leftarrow> strtoul16 [a, b, 0];
     r \<leftarrow> parse_node inp k (i + 2);
     Some (ucast v # r)
   }"

definition uuid_parse :: "u8 list \<Rightarrow> u8 list \<Rightarrow> (int \<times> u8 list) ub" where
  "uuid_parse inp uu = do {
     len \<leftarrow> c_strlen inp;
     if len \<noteq> 36 then Some (-1, uu)
     else do {
       good \<leftarrow> parse_check inp 37 0;
       if \<not> good then Some (-1, uu)
       else do {
         a \<leftarrow> strtoul16 inp;
         b \<leftarrow> strtoul16 (drop 9 inp);
         c \<leftarrow> strtoul16 (drop 14 inp);
         d \<leftarrow> strtoul16 (drop 19 inp);
         n \<leftarrow> parse_node inp 6 24;
         uu \<leftarrow> uuid_pack \<lparr>time_low = ucast a, time_mid = ucast b, time_hi_and_version = ucast c, clock_seq = ucast d, node = n\<rparr> uu;
         Some (0, uu)
       }
     }
   }"

subsection \<open>Order, kind and time\<close>

definition uucmp :: "'a :: len word \<Rightarrow> 'a word \<Rightarrow> int \<Rightarrow> int" where
  "uucmp u v rest = (if u \<noteq> v then (if u < v then -1 else 1) else rest)"

text \<open>\<^verbatim>\<open>memcmp\<close>, of whose result only the sign is specified.\<close>

fun c_memcmp :: "u8 list \<Rightarrow> u8 list \<Rightarrow> int" where
  "c_memcmp (x # xs) (y # ys) = uucmp x y (c_memcmp xs ys)"
| "c_memcmp _ _ = 0"

definition uuid_compare :: "u8 list \<Rightarrow> u8 list \<Rightarrow> int ub" where
  "uuid_compare uu1 uu2 = do {
     u \<leftarrow> uuid_unpack uu1;
     v \<leftarrow> uuid_unpack uu2;
     Some (uucmp (time_low u) (time_low v) (uucmp (time_mid u) (time_mid v)
       (uucmp (time_hi_and_version u) (time_hi_and_version v) (uucmp (clock_seq u) (clock_seq v) (c_memcmp (node u) (node v))))))
   }"

definition uuid_type :: "u8 list \<Rightarrow> nat ub" where
  "uuid_type uu = map_option (\<lambda>u. unat (drop_bit 12 (time_hi_and_version u) AND 0xF)) (uuid_unpack uu)"

definition uuid_variant :: "u8 list \<Rightarrow> nat ub" where
  "uuid_variant uu = map_option (\<lambda>u. let var = clock_seq u in
     if var AND 0x8000 = 0 then 0 else if var AND 0x4000 = 0 then 1 else if var AND 0x2000 = 0 then 2 else 3) (uuid_unpack uu)"

text \<open>The seconds and microseconds, both \<^verbatim>\<open>long\<close>.\<close>

definition uuid_time :: "u8 list \<Rightarrow> (u64 \<times> u64) ub" where
  "uuid_time uu = do {
     u \<leftarrow> uuid_unpack uu;
     let high = (ucast (time_mid u) OR push_bit 16 (ucast (time_hi_and_version u AND 0xFFF)) :: u32);
     let clock_reg = (ucast (time_low u) OR push_bit 32 (ucast high) :: u64);
     let clock_reg = clock_reg - (push_bit 32 0x01B21DD2 + 0x13814000);
     Some (clock_reg div 10000000, clock_reg mod 10000000 div 10)
   }"

subsection \<open>Packing\<close>

lemma list_16:
  assumes "length bs = 16"
  obtains b0 b1 b2 b3 b4 b5 b6 b7 b8 b9 b10 b11 b12 b13 b14 b15 where
    "bs = [b0, b1, b2, b3, b4, b5, b6, b7, b8, b9, b10, b11, b12, b13, b14, b15]"
  using assms by (auto simp: numeral_eq_Suc length_Suc_conv)

lemma list_6:
  assumes "length bs = 6"
  obtains b0 b1 b2 b3 b4 b5 where "bs = [b0, b1, b2, b3, b4, b5]"
  using assms by (auto simp: numeral_eq_Suc length_Suc_conv)

lemma byte_bit: "bit (b :: u8) n \<Longrightarrow> n < 8"
  using bit_imp_le_length by fastforce

definition be16 :: "u8 \<Rightarrow> u8 \<Rightarrow> u16" where
  "be16 a b = push_bit 8 (ucast a) OR ucast b"

definition be32 :: "u8 \<Rightarrow> u8 \<Rightarrow> u8 \<Rightarrow> u8 \<Rightarrow> u32" where
  "be32 a b c d = push_bit 24 (ucast a) OR push_bit 16 (ucast b) OR push_bit 8 (ucast c) OR ucast d"

lemma be_folds:
  "ucast (push_bit 8 (ucast a) OR ucast b :: u32) = be16 a b"
  "((push_bit 24 (ucast a) OR push_bit 16 (ucast b)) OR push_bit 8 (ucast c)) OR ucast d = be32 a b c d"
  by (rule bit_word_eqI; auto simp: be16_def be32_def bit_simps)+

lemma be16_bytes: "ucast (drop_bit 8 (ucast (be16 a b) :: u32)) = a" "ucast (ucast (be16 a b) :: u32) = b"
    "be16 (ucast (drop_bit 8 w)) (ucast w) = w"
  by (rule bit_word_eqI; auto simp: be16_def bit_simps dest: byte_bit)+

lemma be32_bytes: "ucast (drop_bit 24 (be32 a b c d)) = a" "ucast (drop_bit 16 (be32 a b c d)) = b"
    "ucast (drop_bit 8 (be32 a b c d)) = c" "ucast (be32 a b c d) = d"
  by (rule bit_word_eqI; auto simp: be32_def bit_simps dest: byte_bit)+

lemma be32_whole: "be32 (ucast (drop_bit 24 v)) (ucast (drop_bit 16 v)) (ucast (drop_bit 8 v)) (ucast v) = v"
proof (rule bit_word_eqI)
  fix n assume "n < LENGTH(32)"
  then have n: "n < 32" by simp
  consider "n < 8" | "8 \<le> n" "n < 16" | "16 \<le> n" "n < 24" | "24 \<le> n" by linarith
  then show "bit (be32 (ucast (drop_bit 24 v)) (ucast (drop_bit 16 v)) (ucast (drop_bit 8 v)) (ucast v)) n = bit v n"
    by cases (use n in \<open>auto simp: be32_def bit_simps\<close>)
qed

lemma unpack_bytes:
  "uuid_unpack [b0, b1, b2, b3, b4, b5, b6, b7, b8, b9, c0, c1, c2, c3, c4, c5] = Some \<lparr>time_low = be32 b0 b1 b2 b3, time_mid = be16 b4 b5,
     time_hi_and_version = be16 b6 b7, clock_seq = be16 b8 b9, node = [c0, c1, c2, c3, c4, c5]\<rparr>"
  by (simp add: uuid_unpack_def be_read_def c_get_def be_folds)

lemma pack_bytes:
  assumes "length out = 16"
  shows "uuid_pack \<lparr>time_low = be32 b0 b1 b2 b3, time_mid = be16 b4 b5, time_hi_and_version = be16 b6 b7, clock_seq = be16 b8 b9, node = [c0, c1, c2, c3, c4, c5]\<rparr> out
    = Some [b0, b1, b2, b3, b4, b5, b6, b7, b8, b9, c0, c1, c2, c3, c4, c5]"
  by (rule list_16 [OF assms]) (simp add: uuid_pack_def Let_def c_get_def c_put_def be16_bytes be32_bytes)

lemma uuid_fields:
  assumes "length (node u) = 6"
  obtains b0 b1 b2 b3 b4 b5 b6 b7 b8 b9 c0 c1 c2 c3 c4 c5 where "u = \<lparr>time_low = be32 b0 b1 b2 b3, time_mid = be16 b4 b5,
     time_hi_and_version = be16 b6 b7, clock_seq = be16 b8 b9, node = [c0, c1, c2, c3, c4, c5]\<rparr>"
proof -
  obtain c0 c1 c2 c3 c4 c5 where "node u = [c0, c1, c2, c3, c4, c5]" by (rule list_6 [OF assms])
  then show thesis
    by (intro that [of "ucast (drop_bit 24 (time_low u))" "ucast (drop_bit 16 (time_low u))" "ucast (drop_bit 8 (time_low u))" "ucast (time_low u)"
        "ucast (drop_bit 8 (time_mid u))" "ucast (time_mid u)" "ucast (drop_bit 8 (time_hi_and_version u))" "ucast (time_hi_and_version u)"
        "ucast (drop_bit 8 (clock_seq u))" "ucast (clock_seq u)" c0 c1 c2 c3 c4 c5]) (simp add: be16_bytes(3) be32_whole)
qed

text \<open>
  Packing and unpacking are inverse to each other, for every identifier of 16 bytes and every value of the fields.
\<close>

theorem uuid_pack_unpack:
  assumes "length uu = 16" "length out = 16" "length (node u) = 6"
  shows "(\<exists>v. uuid_unpack uu = Some v \<and> uuid_pack v out = Some uu) \<and> (\<exists>bs. uuid_pack u out = Some bs \<and> uuid_unpack bs = Some u)"
proof
  show "\<exists>v. uuid_unpack uu = Some v \<and> uuid_pack v out = Some uu"
    by (rule list_16 [OF assms(1)]) (simp add: unpack_bytes pack_bytes [OF assms(2)])
  show "\<exists>bs. uuid_pack u out = Some bs \<and> uuid_unpack bs = Some u"
    by (rule uuid_fields [OF assms(3)]) (simp add: unpack_bytes pack_bytes [OF assms(2)])
qed

subsection \<open>Hexadecimal numbers\<close>

definition hex_num :: "u8 list \<Rightarrow> nat" where
  "hex_num ds = foldl (\<lambda>a c. a * 16 + hex_val c) 0 ds"

definition hex_lower :: "u8 \<Rightarrow> u8" where
  "hex_lower c = (if 65 \<le> c \<and> c \<le> 70 then c + 32 else c)"

lemma hex_num_simps [simp]: "hex_num [] = 0" "hex_num (ds @ [d]) = hex_num ds * 16 + hex_val d"
  by (simp_all add: hex_num_def)

lemma unat_byte: "n < 256 \<Longrightarrow> unat (of_nat n :: u8) = n"
  by (simp add: unat_of_nat take_bit_nat_eq_self)

lemma hex_char_facts:
  assumes "d < 16"
  shows "isxdigit (hex_char upper d)" "hex_val (hex_char upper d) = d"
  using assms by (auto simp: isxdigit_def hex_val_def hex_char_def word_le_nat_alt unat_byte)

lemma hex_val_facts:
  assumes "isxdigit c"
  shows "hex_val c < 16" "hex_char False (hex_val c) = hex_lower c"
proof -
  show "hex_val c < 16" using assms by (auto simp: isxdigit_def hex_val_def word_le_nat_alt)
  consider "48 \<le> unat c" "unat c \<le> 57" | "65 \<le> unat c" "unat c \<le> 70" | "97 \<le> unat c" "unat c \<le> 102"
    using assms by (auto simp: isxdigit_def word_le_nat_alt)
  then have "\<exists>n. hex_char False (hex_val c) = of_nat n \<and> n = unat (hex_lower c)"
    by cases (auto simp: hex_val_def hex_char_def hex_lower_def word_le_nat_alt unat_word_ariths add.commute [of 32] simp del: of_nat_add of_nat_diff)
  then show "hex_char False (hex_val c) = hex_lower c" by auto
qed

lemma hex_digits_step: "d < 16 \<Longrightarrow> 0 < n \<Longrightarrow> hex_digits upper (n * 16 + d) = hex_digits upper n @ [hex_char upper d]"
  by (subst hex_digits.simps) simp

lemma hex_digits_small: "d < 16 \<Longrightarrow> hex_digits upper d = [hex_char upper d]"
  by (subst hex_digits.simps) simp

lemma hex_digits_length: "0 < w \<Longrightarrow> n < 16 ^ w \<Longrightarrow> length (hex_digits upper n) \<le> w \<and> 0 < length (hex_digits upper n)"
proof (induction w arbitrary: n)
  case (Suc w)
  show ?case
  proof (cases "n < 16")
    case True
    then show ?thesis by (simp add: hex_digits_small)
  next
    case False
    then have "0 < w" using Suc.prems by (cases w) auto
    moreover have "n div 16 < 16 ^ w" using Suc.prems(2) by (simp add: less_mult_imp_div_less mult.commute)
    moreover have "hex_digits upper n = hex_digits upper (n div 16) @ [hex_char upper (n mod 16)]" using False by (subst hex_digits.simps) simp
    ultimately show ?thesis using Suc.IH [of "n div 16"] by simp
  qed
qed simp

text \<open>One digit more.\<close>

lemma hex_padded_step:
  assumes "0 < w" "n < 16 ^ w" "d < 16"
  shows "hex_padded upper (Suc w) (n * 16 + d) = hex_padded upper w n @ [hex_char upper d]"
proof (cases "n = 0")
  case True
  have "replicate w (48 :: u8) = replicate (w - 1) 48 @ [48]" using assms(1) by (metis Suc_diff_1 replicate_append_same replicate_Suc)
  with True assms show ?thesis by (simp add: hex_padded_def hex_digits_small hex_char_def)
next
  case False
  with assms hex_digits_length [OF assms(1,2), of upper] show ?thesis by (simp add: hex_padded_def hex_digits_step Suc_diff_le)
qed

lemma hex_padded_one: "d < 16 \<Longrightarrow> hex_padded upper 1 d = [hex_char upper d]"
  by (simp add: hex_padded_def hex_digits_small)

lemma hex_padded_facts:
  assumes "0 < w" "n < 16 ^ w"
  shows "length (hex_padded upper w n) = w \<and> (\<forall>c \<in> set (hex_padded upper w n). isxdigit c) \<and> hex_num (hex_padded upper w n) = n"
  using assms
proof (induction w arbitrary: n)
  case (Suc w)
  show ?case
  proof (cases "w = 0")
    case True
    with Suc.prems have "n < 16" by simp
    then show ?thesis using True hex_padded_one [of n upper] hex_char_facts [of n upper] by (simp add: hex_num_def)
  next
    case False
    have "n div 16 < 16 ^ w" using Suc.prems(2) by (simp add: less_mult_imp_div_less mult.commute)
    with Suc.IH [of "n div 16"] False hex_padded_step [of w "n div 16" "n mod 16" upper] hex_char_facts [of "n mod 16" upper]
    show ?thesis by auto
  qed
qed simp

lemma hex_num_bound: "\<forall>c \<in> set ds. isxdigit c \<Longrightarrow> hex_num ds < 16 ^ length ds"
proof (induction ds rule: rev_induct)
  case (snoc d ds)
  then show ?case using hex_val_facts(1) [of d] by auto
qed simp

lemma hex_padded_num: "ds \<noteq> [] \<Longrightarrow> \<forall>c \<in> set ds. isxdigit c \<Longrightarrow> hex_padded False (length ds) (hex_num ds) = map hex_lower ds"
proof (induction ds rule: rev_induct)
  case (snoc d ds)
  note d = hex_val_facts [of d]
  show ?case
  proof (cases "ds = []")
    case True
    then show ?thesis using snoc.prems d hex_padded_one [of "hex_val d" False] by (simp add: hex_num_def)
  next
    case False
    with snoc d hex_padded_step [of "length ds" "hex_num ds" "hex_val d" False] hex_num_bound [of ds] show ?thesis by auto
  qed
qed simp

lemma strtoul16_digits:
  assumes ds: "\<forall>c \<in> set ds. isxdigit c" "2 \<le> length ds" "hex_num ds < 2 ^ 64" and c: "\<not> isxdigit c"
  shows "strtoul16 (ds @ c # r) = Some (of_nat (hex_num ds))"
proof -
  obtain x y t where d: "ds = x # y # t" using ds(2) by (cases ds; cases "tl ds") auto
  have x: "\<not> c_isspace x" "x \<noteq> 43" "x \<noteq> 45" "y \<noteq> 120" "y \<noteq> 88"
    using ds(1) d by (auto simp: isxdigit_def c_isspace_def word_le_nat_alt)
  have tw: "takeWhile isxdigit (ds @ c # r) = ds" using ds(1) c by (simp add: takeWhile_append2)
  have "dropWhile c_isspace (ds @ c # r) = ds @ c # r" "take 1 (ds @ c # r) = [x]" "take 2 (ds @ c # r) = [x, y]" using x by (simp_all add: d)
  with tw x ds(3) show ?thesis unfolding strtoul16_def Let_def hex_num_def [symmetric] by simp
qed

subsection \<open>The format\<close>

definition uuid_string :: "u8 list \<Rightarrow> bool" where
  "uuid_string s \<longleftrightarrow> length s = 36 \<and> (\<forall>i < 36. if i \<in> {8, 13, 18, 23} then s ! i = 0x2d else isxdigit (s ! i))"

definition dashed :: "u8 list \<Rightarrow> u8 list \<Rightarrow> u8 list \<Rightarrow> u8 list \<Rightarrow> u8 list \<Rightarrow> u8 list" where
  "dashed A B C D N = A @ 0x2d # B @ 0x2d # C @ 0x2d # D @ 0x2d # N"

definition fields_ok :: "u8 list \<Rightarrow> u8 list \<Rightarrow> u8 list \<Rightarrow> u8 list \<Rightarrow> u8 list \<Rightarrow> bool" where
  "fields_ok A B C D N \<longleftrightarrow> length A = 8 \<and> length B = 4 \<and> length C = 4 \<and> length D = 4 \<and> length N = 12 \<and> (\<forall>c \<in> set (A @ B @ C @ D @ N). isxdigit c)"

lemma dashed_string: "fields_ok A B C D N \<Longrightarrow> uuid_string (dashed A B C D N)"
  by (auto simp: uuid_string_def fields_ok_def dashed_def nth_append nth_Cons')

lemma string_dashed:
  assumes "uuid_string s"
  obtains A B C D N where "s = dashed A B C D N" "fields_ok A B C D N"
proof -
  have l: "length s = 36" and c: "\<And>i. i < 36 \<Longrightarrow> i \<in> {8, 13, 18, 23} \<Longrightarrow> s ! i = 0x2d" and x: "\<And>i. i < 36 \<Longrightarrow> i \<notin> {8, 13, 18, 23} \<Longrightarrow> isxdigit (s ! i)"
    using assms by (auto simp: uuid_string_def split: if_splits)
  have piece: "drop i s = take n (drop i s) @ s ! (i + n) # drop (Suc (i + n)) s" if "i + n < 36" for i n
    using append_take_drop_id [of n "drop i s"] Cons_nth_drop_Suc [of "i + n" s] that l by (simp add: add.commute)
  have "s = dashed (take 8 s) (take 4 (drop 9 s)) (take 4 (drop 14 s)) (take 4 (drop 19 s)) (drop 24 s)"
    using piece [of 0 8] piece [of 9 4] piece [of 14 4] piece [of 19 4] c [of 8] c [of 13] c [of 18] c [of 23] by (simp add: dashed_def)
  moreover have d: "\<forall>d \<in> set (take n (drop i s)). isxdigit d" if "\<And>j. i \<le> j \<Longrightarrow> j < i + n \<Longrightarrow> j \<notin> {8, 13, 18, 23}" for i n
    using that x l by (auto simp: in_set_conv_nth)
  then have "fields_ok (take 8 s) (take 4 (drop 9 s)) (take 4 (drop 14 s)) (take 4 (drop 19 s)) (drop 24 s)"
    using l d [of 0 8] d [of 9 4] d [of 14 4] d [of 19 4] d [of 24 12] by (auto simp: fields_ok_def)
  ultimately show thesis using l that by simp
qed

lemma parse_check_eq:
  "i + k \<le> length inp \<Longrightarrow> parse_check inp k i = Some (\<forall>j. i \<le> j \<and> j < i + k \<longrightarrow>
    (if j \<in> {8, 13, 18, 23} then inp ! j = 0x2d else j = 36 \<and> inp ! j = 0 \<or> isxdigit (inp ! j)))"
proof (induction k arbitrary: i)
  case (Suc k)
  have "(\<forall>j. i \<le> j \<and> j < i + Suc k \<longrightarrow> P j) \<longleftrightarrow> P i \<and> (\<forall>j. Suc i \<le> j \<and> j < Suc i + k \<longrightarrow> P j)" for P
    by (metis Suc_leI add_Suc_right add_Suc_shift le_eq_less_or_eq less_add_Suc1 order_refl Suc_le_lessD)
  with Suc show ?case by auto
qed auto

fun pairs :: "u8 list \<Rightarrow> u8 list" where
  "pairs (a # b # xs) = of_nat (hex_num [a, b]) # pairs xs"
| "pairs _ = []"

lemma zero_no_digit: "\<not> isxdigit 0" "\<not> isxdigit 0x2d"
  by (simp_all add: isxdigit_def)

lemma small_ucast: "n < 2 ^ 64 \<Longrightarrow> ucast (of_nat n :: u64) = (of_nat n :: 'a :: len word)"
  by (simp add: unsigned_of_nat take_bit_nat_eq_self)

lemma parse_node_eq:
  assumes "length N = 2 * k" "\<forall>c \<in> set N. isxdigit c"
  shows "parse_node (P @ N @ r) k (length P) = Some (pairs N)"
  using assms
proof (induction k arbitrary: P N)
  case (Suc k)
  then obtain a b N' where N: "N = a # b # N'" by (cases N; cases "tl N") auto
  have v: "strtoul16 [a, b, 0] = Some (of_nat (hex_num [a, b]))" "hex_num [a, b] < 2 ^ 64"
    using strtoul16_digits [of "[a, b]" 0 "[]"] hex_num_bound [of "[a, b]"] Suc.prems(2) N zero_no_digit by auto
  from Suc.IH [of N' "P @ [a, b]"] Suc.prems N have "parse_node (P @ N @ r) k (length P + 2) = Some (pairs N')" by simp
  with v show ?case by (simp add: N nth_append small_ucast)
qed simp

subsection \<open>Reading and printing\<close>

lemma string_no_zero: "uuid_string s \<Longrightarrow> 0 \<notin> set s"
proof
  assume "uuid_string s" "0 \<in> set s"
  then obtain i where "i < 36" "s ! i = 0" "if i \<in> {8, 13, 18, 23} then s ! i = 0x2d else isxdigit (s ! i)"
    by (auto simp: uuid_string_def in_set_conv_nth)
  then show False using zero_no_digit by (auto split: if_splits)
qed

lemma parse_check_string:
  assumes "length s = 36"
  shows "parse_check (s @ [0]) 37 0 = Some (uuid_string s)"
proof -
  have "(\<forall>j. j < 37 \<longrightarrow> P j) \<longleftrightarrow> (\<forall>j < 36. P j) \<and> P 36" for P :: "nat \<Rightarrow> bool"
    using less_Suc_eq [of _ 36] by auto
  then show ?thesis using assms by (simp add: parse_check_eq uuid_string_def nth_append)
qed

lemma field_value:
  assumes "\<forall>c \<in> set ds. isxdigit c" "2 \<le> length ds" "length ds \<le> 8"
  shows "hex_num ds < 2 ^ 64" "hex_num ds < 16 ^ length ds"
proof -
  show b: "hex_num ds < 16 ^ length ds" by (rule hex_num_bound [OF assms(1)])
  have "(16 :: nat) ^ length ds \<le> 16 ^ 8" using assms(3) by (intro power_increasing) simp_all
  with b show "hex_num ds < 2 ^ 64" by simp
qed

definition string_fields :: "u8 list \<Rightarrow> u8 list \<Rightarrow> u8 list \<Rightarrow> u8 list \<Rightarrow> u8 list \<Rightarrow> uuid" where
  "string_fields A B C D N = \<lparr>time_low = of_nat (hex_num A), time_mid = of_nat (hex_num B), time_hi_and_version = of_nat (hex_num C),
     clock_seq = of_nat (hex_num D), node = pairs N\<rparr>"

lemma uuid_parse_fields:
  assumes "fields_ok A B C D N"
  shows "uuid_parse (dashed A B C D N @ [0]) uu = map_option (Pair 0) (uuid_pack (string_fields A B C D N) uu)"
proof -
  let ?s = "dashed A B C D N"
  have f: "\<forall>c \<in> set A. isxdigit c" "\<forall>c \<in> set B. isxdigit c" "\<forall>c \<in> set C. isxdigit c" "\<forall>c \<in> set D. isxdigit c" "\<forall>c \<in> set N. isxdigit c"
    and l: "length A = 8" "length B = 4" "length C = 4" "length D = 4" "length N = 2 * 6" using assms by (auto simp: fields_ok_def)
  have us: "uuid_string ?s" by (rule dashed_string [OF assms])
  then have len: "length ?s = 36" by (simp add: uuid_string_def)
  have st: "strtoul16 (?s @ [0]) = Some (of_nat (hex_num A))" "strtoul16 (drop 9 (?s @ [0])) = Some (of_nat (hex_num B))"
    "strtoul16 (drop 14 (?s @ [0])) = Some (of_nat (hex_num C))" "strtoul16 (drop 19 (?s @ [0])) = Some (of_nat (hex_num D))"
    using strtoul16_digits [OF f(1)] strtoul16_digits [OF f(2)] strtoul16_digits [OF f(3)] strtoul16_digits [OF f(4)]
      field_value [OF f(1)] field_value [OF f(2)] field_value [OF f(3)] field_value [OF f(4)] zero_no_digit l by (simp_all add: dashed_def)
  have nd: "parse_node (?s @ [0]) 6 24 = Some (pairs N)"
    using parse_node_eq [OF l(5) f(5), of "A @ 0x2d # B @ 0x2d # C @ 0x2d # D @ [0x2d]" "[0]"] l by (simp add: dashed_def)
  have u: "ucast (of_nat (hex_num A) :: u64) = (of_nat (hex_num A) :: u32)" "ucast (of_nat (hex_num B) :: u64) = (of_nat (hex_num B) :: u16)"
    "ucast (of_nat (hex_num C) :: u64) = (of_nat (hex_num C) :: u16)" "ucast (of_nat (hex_num D) :: u64) = (of_nat (hex_num D) :: u16)"
    using field_value(1) [OF f(1)] field_value(1) [OF f(2)] field_value(1) [OF f(3)] field_value(1) [OF f(4)] l by (simp_all add: small_ucast)
  show ?thesis unfolding uuid_parse_def c_strlen_string [OF string_no_zero [OF us]] Option.bind.simps parse_check_string [OF len] st nd u
    using us len by (cases "uuid_pack (string_fields A B C D N) uu") (simp_all add: string_fields_def)
qed

lemma hex_padded_pair: "n < 256 \<Longrightarrow> hex_padded upper 2 n = [hex_char upper (n div 16), hex_char upper (n mod 16)]"
  using hex_padded_step [of 1 "n div 16" "n mod 16" upper] hex_padded_one [of "n div 16" upper] by (simp add: numeral_2_eq_2)

lemma hex_padded_split: 
  assumes "n < 65536"
  shows "hex_padded upper 2 (n div 256) @ hex_padded upper 2 (n mod 256) = hex_padded upper 4 n"
proof -
  have d: "n div 16 div 16 = n div 256" "n mod 256 div 16 = n div 16 mod 16" "n mod 256 mod 16 = n mod 16"
    using div_mult2_eq [of n 16 16] mod_mult2_eq [of n 16 16] by simp_all
  have "hex_padded upper 4 n = hex_padded upper 3 (n div 16) @ [hex_char upper (n mod 16)]"
    using hex_padded_step [of 3 "n div 16" "n mod 16" upper] assms by simp
  moreover have "hex_padded upper 3 (n div 16) = hex_padded upper 2 (n div 256) @ [hex_char upper (n div 16 mod 16)]"
  proof -
    have "n div 256 * 16 + n div 16 mod 16 = n div 16" using div_mult_mod_eq [of "n div 16" 16] unfolding d(1) .
    moreover have "n div 256 < 16 ^ 2" using assms by simp
    ultimately show ?thesis using hex_padded_step [of 2 "n div 256" "n div 16 mod 16" upper] by simp
  qed
  ultimately have "hex_padded upper 4 n = hex_padded upper 2 (n div 256) @ [hex_char upper (n div 16 mod 16), hex_char upper (n mod 16)]" by simp
  with d show ?thesis by (simp add: hex_padded_pair)
qed

definition print_node :: "bool \<Rightarrow> u8 list \<Rightarrow> u8 list" where
  "print_node upper bs = concat (map (\<lambda>b. hex_padded upper 2 (unat b)) bs)"

lemma unat_u8_less: "unat (b :: u8) < 256"
  using unsigned_less [of b] by simp

lemma print_pairs:
  "pairs (print_node upper bs) = bs" "length (print_node upper bs) = 2 * length bs" "\<forall>c \<in> set (print_node upper bs). isxdigit c"
proof (induction bs)
  case (Cons b bs)
  note b = hex_padded_facts [of 2 "unat b" upper] hex_padded_pair [OF unat_u8_less [of b], of upper]
  {
    case 1
    with b Cons(1) unat_u8_less [of b] show ?case by (simp add: print_node_def)
  next
    case 2
    with b Cons(2) show ?case by (simp add: print_node_def)
  next
    case 3
    with b Cons(3) unat_u8_less [of b] show ?case by (auto simp: print_node_def)
  }
qed (simp_all add: print_node_def)

lemma pairs_print: "even (length N) \<Longrightarrow> \<forall>c \<in> set N. isxdigit c \<Longrightarrow> print_node False (pairs N) = map hex_lower N"
proof (induction N rule: pairs.induct)
  case (1 a b xs)
  have "hex_num [a, b] < 16 ^ length [a, b]" by (rule hex_num_bound) (use 1 in simp)
  then have "unat (of_nat (hex_num [a, b]) :: u8) = hex_num [a, b]" by (simp add: unat_byte)
  moreover have "hex_padded False 2 (hex_num [a, b]) = map hex_lower [a, b]" using hex_padded_num [of "[a, b]"] 1 by (simp add: numeral_2_eq_2)
  ultimately show ?case using 1 by (simp add: print_node_def)
qed (auto simp: print_node_def)

definition printed :: "bool \<Rightarrow> uuid \<Rightarrow> u8 list" where
  "printed upper u = dashed (hex_padded upper 8 (unat (time_low u))) (hex_padded upper 4 (unat (time_mid u)))
     (hex_padded upper 4 (unat (time_hi_and_version u))) (hex_padded upper 4 (unat (clock_seq u))) (print_node upper (node u))"

lemma and_ff_u16: "unat ((w :: u16) AND 0xff) = unat w mod 256" "unat (drop_bit 8 w) = unat w div 256"
proof -
  have "w AND 0xff = take_bit 8 w" by (simp add: take_bit_eq_mask mask_eq_exp_minus_1)
  then show "unat (w AND 0xff) = unat w mod 256" by (simp only: unsigned_take_bit_eq) (simp add: take_bit_eq_mod)
  show "unat (drop_bit 8 w) = unat w div 256" by (simp add: unat_drop_bit_div)
qed

lemma printed_fields:
  assumes "length (node u) = 6"
  shows "fields_ok (hex_padded upper 8 (unat (time_low u))) (hex_padded upper 4 (unat (time_mid u)))
     (hex_padded upper 4 (unat (time_hi_and_version u))) (hex_padded upper 4 (unat (clock_seq u))) (print_node upper (node u))"
    "string_fields (hex_padded upper 8 (unat (time_low u))) (hex_padded upper 4 (unat (time_mid u)))
     (hex_padded upper 4 (unat (time_hi_and_version u))) (hex_padded upper 4 (unat (clock_seq u))) (print_node upper (node u)) = u"
proof -
  have h: "length (hex_padded upper 4 (unat w)) = 4 \<and> (\<forall>c \<in> set (hex_padded upper 4 (unat w)). isxdigit c) \<and> hex_num (hex_padded upper 4 (unat w)) = unat w" for w :: u16
    using hex_padded_facts [of 4 "unat w" upper] unat_u16_less [of w] by simp
  have g: "length (hex_padded upper 8 (unat v)) = 8 \<and> (\<forall>c \<in> set (hex_padded upper 8 (unat v)). isxdigit c) \<and> hex_num (hex_padded upper 8 (unat v)) = unat v" for v :: u32
    using hex_padded_facts [of 8 "unat v" upper] unat_u32_less [of v] by simp
  show "fields_ok (hex_padded upper 8 (unat (time_low u))) (hex_padded upper 4 (unat (time_mid u)))
     (hex_padded upper 4 (unat (time_hi_and_version u))) (hex_padded upper 4 (unat (clock_seq u))) (print_node upper (node u))"
    unfolding fields_ok_def using h g print_pairs assms by auto
  show "string_fields (hex_padded upper 8 (unat (time_low u))) (hex_padded upper 4 (unat (time_mid u)))
     (hex_padded upper 4 (unat (time_hi_and_version u))) (hex_padded upper 4 (unat (clock_seq u))) (print_node upper (node u)) = u"
    unfolding string_fields_def by (simp add: h g print_pairs)
qed

lemma unparse_eq:
  assumes "uuid_unpack uu = Some u" "length (node u) = 6" "37 \<le> length out"
  shows "uuid_unparse_x uu out upper = Some (printed upper u @ 0 # drop 37 out)" "length (printed upper u) = 36"
proof -
  obtain a b c d e f where n: "node u = [a, b, c, d, e, f]" by (rule list_6 [OF assms(2)])
  have s: "hex_padded upper 2 (unat (drop_bit 8 (clock_seq u))) @ hex_padded upper 2 (unat (clock_seq u AND 0xFF)) @ r = hex_padded upper 4 (unat (clock_seq u)) @ r" for r
    using hex_padded_split [of "unat (clock_seq u)" upper] unat_u16_less by (simp add: and_ff_u16)
  show l: "length (printed upper u) = 36" using dashed_string [OF printed_fields(1) [OF assms(2)]] by (simp add: printed_def uuid_string_def)
  have "uuid_unparse_x uu out upper = c_put out 0 (printed upper u @ [0])"
    unfolding uuid_unparse_x_def assms(1) Option.bind.simps Let_def s printed_def dashed_def by (simp add: n print_node_def numeral_eq_Suc)
  with l assms(3) show "uuid_unparse_x uu out upper = Some (printed upper u @ 0 # drop 37 out)" by (simp add: c_put_def)
qed

text \<open>
  Printing an identifier, in lower or upper case, fills 37 bytes with a string of the format and its end, and
  reading the string gives the identifier back.
\<close>

theorem uuid_parse_unparse:
  assumes uu: "length uu = 16" and out: "37 \<le> length out" and old: "length old = 16"
  shows "\<exists>s. uuid_unparse_x uu out upper = Some (s @ 0 # drop 37 out) \<and> uuid_string s \<and> uuid_parse (s @ [0]) old = Some (0, uu)"
proof (rule list_16 [OF uu])
  fix b0 b1 b2 b3 b4 b5 b6 b7 b8 b9 c0 c1 c2 c3 c4 c5 assume b: "uu = [b0, b1, b2, b3, b4, b5, b6, b7, b8, b9, c0, c1, c2, c3, c4, c5]"
  define u where "u = \<lparr>time_low = be32 b0 b1 b2 b3, time_mid = be16 b4 b5, time_hi_and_version = be16 b6 b7, clock_seq = be16 b8 b9, node = [c0, c1, c2, c3, c4, c5]\<rparr>"
  have n: "length (node u) = 6" by (simp add: u_def)
  have p: "uuid_unpack uu = Some u" "uuid_pack u old = Some uu" by (simp_all add: b u_def unpack_bytes pack_bytes [OF old])
  have "uuid_parse (printed upper u @ [0]) old = Some (0, uu)"
    using uuid_parse_fields [OF printed_fields(1) [OF n, of upper], of old] printed_fields(2) [OF n, of upper] p(2) by (simp add: printed_def)
  moreover have "uuid_string (printed upper u)" unfolding printed_def by (rule dashed_string [OF printed_fields(1) [OF n]])
  ultimately show ?thesis using unparse_eq(1) [OF p(1) n out, of upper] by blast
qed

lemma pairs_length: "length (pairs N) = length N div 2"
  by (induction N rule: pairs.induct) simp_all

lemma printed_string:
  assumes "fields_ok A B C D N"
  shows "printed False (string_fields A B C D N) = map hex_lower (dashed A B C D N)"
proof -
  have f: "\<forall>c \<in> set A. isxdigit c" "\<forall>c \<in> set B. isxdigit c" "\<forall>c \<in> set C. isxdigit c" "\<forall>c \<in> set D. isxdigit c" "\<forall>c \<in> set N. isxdigit c"
    and l: "length A = 8" "length B = 4" "length C = 4" "length D = 4" "length N = 12" using assms by (auto simp: fields_ok_def)
  have v: "unat (of_nat (hex_num A) :: u32) = hex_num A" "unat (of_nat (hex_num B) :: u16) = hex_num B"
    "unat (of_nat (hex_num C) :: u16) = hex_num C" "unat (of_nat (hex_num D) :: u16) = hex_num D"
    using hex_num_bound [OF f(1)] hex_num_bound [OF f(2)] hex_num_bound [OF f(3)] hex_num_bound [OF f(4)] l
    by (simp_all add: unat_of_nat take_bit_nat_eq_self)
  have "hex_padded False 8 (hex_num A) = map hex_lower A" "hex_padded False 4 (hex_num B) = map hex_lower B"
    "hex_padded False 4 (hex_num C) = map hex_lower C" "hex_padded False 4 (hex_num D) = map hex_lower D"
    using hex_padded_num [OF _ f(1)] hex_padded_num [OF _ f(2)] hex_padded_num [OF _ f(3)] hex_padded_num [OF _ f(4)] l by force+
  with v pairs_print [OF _ f(5)] l show ?thesis by (simp add: printed_def string_fields_def dashed_def hex_lower_def)
qed

text \<open>
  (C19) A string is read as an identifier exactly when it has the format, 36 characters that are hexadecimal digits
  but for four dashes; printing the result in lower case gives the string with its letters in lower case. For every
  other string the code is \<open>-1\<close> and the buffer is unchanged.
\<close>

theorem uuid_parse_exact:
  assumes s: "0 \<notin> set s" and old: "length old = 16" and out: "37 \<le> length out"
  shows "if uuid_string s
    then \<exists>uu. uuid_parse (s @ [0]) old = Some (0, uu) \<and> length uu = 16 \<and> uuid_unparse_lower uu out = Some (map hex_lower s @ 0 # drop 37 out)
    else uuid_parse (s @ [0]) old = Some (-1, old)"
proof (cases "uuid_string s")
  case True
  then obtain A B C D N where f: "s = dashed A B C D N" "fields_ok A B C D N" by (rule string_dashed)
  have n: "length (node (string_fields A B C D N)) = 6" using f(2) by (simp add: string_fields_def fields_ok_def pairs_length)
  obtain uu where uu: "uuid_pack (string_fields A B C D N) old = Some uu" "uuid_unpack uu = Some (string_fields A B C D N)" "length uu = 16"
    by (rule uuid_fields [OF n]) (simp add: pack_bytes [OF old] unpack_bytes)
  have "uuid_parse (s @ [0]) old = Some (0, uu)" using uuid_parse_fields [OF f(2), of old] uu(1) by (simp add: f(1))
  moreover have "uuid_unparse_lower uu out = Some (map hex_lower s @ 0 # drop 37 out)"
    using unparse_eq(1) [OF uu(2) n out, of False] printed_string [OF f(2)] by (simp add: uuid_unparse_lower_def f(1))
  ultimately show ?thesis using True uu(3) by simp
next
  case False
  show ?thesis
  proof (cases "length s = 36")
    case True
    with False show ?thesis using c_strlen_string [OF s] parse_check_string [OF True] by (simp add: uuid_parse_def)
  next
    case f: False
    with False show ?thesis using c_strlen_string [OF s] by (simp add: uuid_parse_def)
  qed
qed

subsection \<open>The order\<close>

text \<open>The bytes as one number, the first byte the most significant.\<close>

definition be_num :: "u8 list \<Rightarrow> nat" where
  "be_num bs = foldl (\<lambda>n b. n * 256 + unat b) 0 bs"

lemma be_num_foldl: "foldl (\<lambda>n b. n * 256 + unat b) k bs = k * 256 ^ length bs + be_num (bs :: u8 list)"
proof (induction bs arbitrary: k)
  case (Cons b bs)
  show ?case unfolding be_num_def foldl.simps Cons.IH [of "k * 256 + unat b"] Cons.IH [of "0 * 256 + unat b"] by (simp add: algebra_simps)
qed (simp add: be_num_def)

lemma be_num_Cons: "be_num (b # bs) = unat b * 256 ^ length bs + be_num bs"
  using be_num_foldl [of "unat b" bs] by (simp add: be_num_def)

lemma be_num_bound: "be_num bs < 256 ^ length bs"
proof (induction bs)
  case (Cons b bs)
  have "unat b * 256 ^ length bs + be_num bs < Suc (unat b) * 256 ^ length bs" using Cons by simp
  also have "\<dots> \<le> 256 * 256 ^ length bs" using unat_u8_less [of b] by (intro mult_right_mono) simp_all
  finally show ?case by (simp add: be_num_Cons)
qed (simp add: be_num_def)

definition sign :: "nat \<Rightarrow> nat \<Rightarrow> int" where
  "sign m n = (if m < n then -1 else if m = n then 0 else 1)"

text \<open>Comparing a leading field decides unless it is equal.\<close>

lemma sign_lead:
  assumes "r < k" "s < k"
  shows "sign (m * k + r) (n * k + s) = (if m \<noteq> n then sign m n else sign r s)"
proof (cases "m = n")
  case False
  have "m * k + r < n * k + s" if "m < n" "r < k" for m n r s :: nat
  proof -
    have "m * k + r < Suc m * k" using that by simp
    also have "\<dots> \<le> n * k" using that by (intro mult_right_mono) simp_all
    finally show ?thesis by simp
  qed
  note less = this
  consider "m < n" | "n < m" using False by linarith
  then show ?thesis
  proof cases
    case 1
    with less [OF 1 assms(1), of s] show ?thesis by (simp add: sign_def)
  next
    case 2
    with less [OF 2 assms(2), of r] show ?thesis by (simp add: sign_def)
  qed
qed (simp add: sign_def)

lemma uucmp_sign: "uucmp u v r = (if unat u \<noteq> unat v then sign (unat u) (unat v) else r)"
  by (auto simp: uucmp_def sign_def word_less_nat_alt word_unat_eq_iff)

lemma c_memcmp_sign: "length xs = length ys \<Longrightarrow> c_memcmp xs ys = sign (be_num xs) (be_num ys)"
proof (induction xs ys rule: list_induct2)
  case (Cons x xs y ys)
  then show ?case using sign_lead [OF be_num_bound [of xs], of "be_num ys" "unat x" "unat y"] be_num_bound [of ys] by (simp add: uucmp_sign be_num_Cons)
qed (simp add: sign_def be_num_def)

lemma be_step:
  fixes w :: "'a :: len word"
  assumes "unat w * 256 + 255 < 2 ^ LENGTH('a)" "8 \<le> LENGTH('a)"
  shows "unat (push_bit 8 w OR ucast (b :: u8)) = unat w * 256 + unat b"
proof -
  have "push_bit 8 w AND ucast b = 0" by (rule bit_word_eqI) (auto simp: bit_simps dest: byte_bit)
  then have "push_bit 8 w OR ucast b = push_bit 8 w + ucast b" by (simp add: disjunctive_add_eq_or)
  moreover have "unat (push_bit 8 w) = unat w * 256" using assms(1) by (simp only: unsigned_push_bit_eq) (simp add: push_bit_eq_mult take_bit_nat_eq_self)
  moreover have "unat (ucast b :: 'a word) = unat b" 
  proof -
    have "(2 :: nat) ^ 8 \<le> 2 ^ LENGTH('a)" using assms(2) by (rule power_increasing) simp
    then have "unat b < 2 ^ LENGTH('a)" using unat_u8_less [of b] by simp
    then show ?thesis by (simp add: unsigned_ucast_eq take_bit_nat_eq_self)
  qed
  ultimately show ?thesis using assms(1) unat_u8_less [of b] by (simp add: unat_word_ariths)
qed

lemma be_words: "unat (be16 a b) = be_num [a, b]" "unat (be32 a b c d) = be_num [a, b, c, d]"
proof -
  note l = unat_u8_less [of a] unat_u8_less [of b] unat_u8_less [of c]
  have u: "unat (ucast a :: u16) = unat a" "unat (ucast a :: u32) = unat a" by (simp_all add: unsigned_ucast_eq take_bit_nat_eq_self less_trans [OF unat_u8_less])
  show "unat (be16 a b) = be_num [a, b]" unfolding be16_def using l u by (subst be_step) (simp_all add: be_num_def)
  have "be32 a b c d = push_bit 8 (push_bit 8 (push_bit 8 (ucast a) OR ucast b) OR ucast c) OR ucast d"
    using be_folds(2) [of a b c d] by simp
  then show "unat (be32 a b c d) = be_num [a, b, c, d]" using l u by (simp add: be_step be_num_def del: push_bit_or push_bit_push_bit)
qed

lemma be_num_append: "be_num (xs @ ys) = be_num xs * 256 ^ length ys + be_num ys"
  unfolding be_num_def foldl_append using be_num_foldl [of "foldl (\<lambda>n b. n * 256 + unat b) 0 xs" ys] by (simp add: be_num_def)

lemma be_num_inject: "length xs = length ys \<Longrightarrow> be_num xs = be_num ys \<longleftrightarrow> xs = ys"
proof -
  assume l: "length xs = length ys"
  then have "c_memcmp xs ys = 0 \<longleftrightarrow> xs = ys" by (induction xs ys rule: list_induct2) (simp_all add: uucmp_def)
  with c_memcmp_sign [OF l] show ?thesis by (auto simp: sign_def split: if_splits)
qed

text \<open>
  The comparison of identifiers is the order of the 16 bytes read as one number: it is \<open>0\<close> exactly for equal
  identifiers, and otherwise negative or positive as the first is smaller or greater.
\<close>

theorem uuid_compare_order:
  assumes "length uu1 = 16" "length uu2 = 16"
  shows "uuid_compare uu1 uu2 = Some (sign (be_num uu1) (be_num uu2)) \<and> (be_num uu1 = be_num uu2 \<longleftrightarrow> uu1 = uu2)"
proof
  show "be_num uu1 = be_num uu2 \<longleftrightarrow> uu1 = uu2" using assms by (simp add: be_num_inject)
  obtain a0 a1 a2 a3 a4 a5 a6 a7 a8 a9 c0 c1 c2 c3 c4 c5 where a: "uu1 = [a0, a1, a2, a3, a4, a5, a6, a7, a8, a9, c0, c1, c2, c3, c4, c5]"
    by (rule list_16 [OF assms(1)])
  obtain b0 b1 b2 b3 b4 b5 b6 b7 b8 b9 d0 d1 d2 d3 d4 d5 where b: "uu2 = [b0, b1, b2, b3, b4, b5, b6, b7, b8, b9, d0, d1, d2, d3, d4, d5]"
    by (rule list_16 [OF assms(2)])
  have lead: "sign (be_num (xs @ ys)) (be_num (zs @ ws)) = (if be_num xs \<noteq> be_num zs then sign (be_num xs) (be_num zs) else sign (be_num ys) (be_num ws))"
    if "length ys = length ws" for xs ys zs ws
    unfolding be_num_append that using sign_lead [OF be_num_bound [of ys], of "be_num ws" "be_num xs" "be_num zs"] be_num_bound [of ws] that by simp
  show "uuid_compare uu1 uu2 = Some (sign (be_num uu1) (be_num uu2))"
    unfolding a b uuid_compare_def unpack_bytes Option.bind.simps
    using lead [of "[a4, a5, a6, a7, a8, a9, c0, c1, c2, c3, c4, c5]" "[b4, b5, b6, b7, b8, b9, d0, d1, d2, d3, d4, d5]" "[a0, a1, a2, a3]" "[b0, b1, b2, b3]"]
      lead [of "[a6, a7, a8, a9, c0, c1, c2, c3, c4, c5]" "[b6, b7, b8, b9, d0, d1, d2, d3, d4, d5]" "[a4, a5]" "[b4, b5]"]
      lead [of "[a8, a9, c0, c1, c2, c3, c4, c5]" "[b8, b9, d0, d1, d2, d3, d4, d5]" "[a6, a7]" "[b6, b7]"]
      lead [of "[c0, c1, c2, c3, c4, c5]" "[d0, d1, d2, d3, d4, d5]" "[a8, a9]" "[b8, b9]"]
    by (simp add: uucmp_sign be_words c_memcmp_sign del: c_memcmp.simps)
qed

subsection \<open>Copying and the null identifier\<close>

lemma uuid_copy_loop_eq:
  "length dst = i + k \<Longrightarrow> length src = i + k \<Longrightarrow> take i dst = take i src \<Longrightarrow> uuid_copy_loop k i dst src = Some src"
proof (induction k arbitrary: i dst)
  case (Suc k)
  have "take (Suc i) (dst[i := src ! i]) = take (Suc i) src" using Suc.prems by (simp add: take_Suc_conv_app_nth)
  with Suc show ?case by simp
qed simp

lemma uuid_null_loop_eq: "i + k \<le> length uu \<Longrightarrow> uuid_null_loop k i uu = Some (if \<forall>c \<in> set (take k (drop i uu)). c = 0 then 1 else 0)"
proof (induction k arbitrary: i)
  case (Suc k)
  have "take (Suc k) (drop i uu) = uu ! i # take k (drop (Suc i) uu)" using Suc.prems by (simp add: Cons_nth_drop_Suc [symmetric])
  with Suc show ?case by auto
qed simp

lemma uuid_copy_correct: "length dst = 16 \<Longrightarrow> length src = 16 \<Longrightarrow> uuid_copy dst src = Some src"
  by (simp add: uuid_copy_def uuid_copy_loop_eq)

lemma uuid_is_null_iff: "length uu = 16 \<Longrightarrow> uuid_is_null uu = Some (if uuid_clear uu = Some uu then 1 else 0)"
proof -
  assume l: "length uu = 16"
  then have "(\<forall>c \<in> set uu. c = 0) \<longleftrightarrow> replicate 16 0 = uu" using replicate_length_same [of uu 0] by auto
  with l show ?thesis by (simp add: uuid_is_null_def uuid_null_loop_eq uuid_clear_def c_put_def)
qed

subsection \<open>Concrete identifiers\<close>

theorem uuid_pack_unpack_witness:
  "(\<exists>v. uuid_unpack [1, 2, 3, 4, 5, 6, 7, 8, 9, 10, 11, 12, 13, 14, 15, 16] = Some v
      \<and> uuid_pack v (replicate 16 0) = Some [1, 2, 3, 4, 5, 6, 7, 8, 9, 10, 11, 12, 13, 14, 15, 16])
   \<and> (\<exists>bs. uuid_pack \<lparr>time_low = 1, time_mid = 2, time_hi_and_version = 3, clock_seq = 4, node = [1, 2, 3, 4, 5, 6]\<rparr> (replicate 16 0) = Some bs
      \<and> uuid_unpack bs = Some \<lparr>time_low = 1, time_mid = 2, time_hi_and_version = 3, clock_seq = 4, node = [1, 2, 3, 4, 5, 6]\<rparr>)"
  by (rule uuid_pack_unpack) simp_all

theorem uuid_parse_unparse_witness:
  "\<exists>s. uuid_unparse_x [1, 2, 3, 4, 5, 6, 7, 8, 9, 10, 11, 12, 13, 14, 15, 16] (replicate 37 0) True = Some (s @ 0 # drop 37 (replicate 37 0))
    \<and> uuid_string s \<and> uuid_parse (s @ [0]) (replicate 16 0) = Some (0, [1, 2, 3, 4, 5, 6, 7, 8, 9, 10, 11, 12, 13, 14, 15, 16])"
  by (rule uuid_parse_unparse) simp_all

lemma example_fields: "fields_ok (replicate 8 0x41) (replicate 4 0x30) (replicate 4 0x31) (replicate 4 0x61) (replicate 12 0x62)"
  by (simp add: fields_ok_def isxdigit_def)

theorem uuid_parse_exact_witness:
  "\<exists>uu. uuid_parse (dashed (replicate 8 0x41) (replicate 4 0x30) (replicate 4 0x31) (replicate 4 0x61) (replicate 12 0x62) @ [0]) (replicate 16 0) = Some (0, uu)
    \<and> length uu = 16
    \<and> uuid_unparse_lower uu (replicate 37 0) = Some (map hex_lower (dashed (replicate 8 0x41) (replicate 4 0x30) (replicate 4 0x31) (replicate 4 0x61) (replicate 12 0x62)) @ 0 # drop 37 (replicate 37 0))"
  using uuid_parse_exact [OF string_no_zero [OF dashed_string [OF example_fields]], of "replicate 16 0" "replicate 37 0"] dashed_string [OF example_fields] by simp

theorem uuid_compare_order_witness:
  "uuid_compare (replicate 16 1) (replicate 15 1 @ [2]) = Some (sign (be_num (replicate 16 1)) (be_num (replicate 15 1 @ [2])))"
  using uuid_compare_order [of "replicate 16 1" "replicate 15 1 @ [2]"] by simp

end
