(* ===== verification/Extent_Table.thy ===== *)
theory Extent_Table
  imports Complex_Main C_Std
begin

text \<open>
  The table of extents of \<^verbatim>\<open>resize2fs\<close>: \<^verbatim>\<open>resize/extent.c\<close>. It translates the old numbers of blocks and inodes that
  are moved into the new ones. An entry stands for a run of numbers, and the search interpolates with numbers of type
  \<^verbatim>\<open>float\<close>.
\<close>

subsection \<open>Single precision\<close>

text \<open>
  The numbers that are not negative, as rationals, rounded to the nearest one with 24 significant bits, and to the
  even one of two that are equally near. Every number of this file is below \<open>2\<^sup>65\<close>, far from an overflow.
\<close>

fun bit_len :: "nat \<Rightarrow> nat" where
  "bit_len n = (if n = 0 then 0 else Suc (bit_len (n div 2)))"

declare bit_len.simps [simp del]

definition flt_exp :: "rat \<Rightarrow> int" where
  "flt_exp x = (let (p, q) = quotient_of x; e = int (bit_len (nat p)) - int (bit_len (nat q)) in if 2 powi e \<le> x then e else e - 1)"

definition round_even :: "rat \<Rightarrow> int" where
  "round_even x = (let f = \<lfloor>x\<rfloor>; r = x - of_int f in if r < 1 / 2 then f else if r > 1 / 2 then f + 1 else if even f then f else f + 1)"

definition flt_round :: "rat \<Rightarrow> rat" where
  "flt_round x = (if x = 0 then 0 else let u = 2 powi max (flt_exp x - 23) (-149) in of_int (round_even (x / u)) * u)"

text \<open>The constants 0.9 and 0.1 as \<^verbatim>\<open>double\<close>, which a comparison takes, and as \<^verbatim>\<open>float\<close>, which an assignment leaves.\<close>

definition dbl_9_10 :: rat where "dbl_9_10 = 8106479329266893 / 9007199254740992"
definition dbl_1_10 :: rat where "dbl_1_10 = 3602879701896397 / 36028797018963968"
definition flt_9_10 :: rat where "flt_9_10 = 15099494 / 16777216"
definition flt_1_10 :: rat where "flt_1_10 = 13421773 / 134217728"

lemma bit_len_bounds: "0 < n \<Longrightarrow> 2 ^ bit_len n \<le> 2 * n \<and> n < 2 ^ bit_len n"
proof (induction n rule: bit_len.induct)
  case (1 n)
  show ?case
  proof (cases "n div 2 = 0")
    case True
    then have "n = 1" using 1(2) by auto
    then show ?thesis by (simp add: bit_len.simps)
  next
    case False
    with 1 have "2 ^ bit_len (n div 2) \<le> 2 * (n div 2) \<and> n div 2 < 2 ^ bit_len (n div 2)" by simp
    moreover have "bit_len n = Suc (bit_len (n div 2))" using 1(2) by (simp add: bit_len.simps)
    ultimately show ?thesis by auto
  qed
qed

lemma flt_exp_le:
  assumes x: "0 < x"
  shows "2 powi flt_exp x \<le> x"
proof -
  obtain p q where pq: "quotient_of x = (p, q)" by fastforce
  have q: "0 < q" "x = of_int p / of_int q" using quotient_of_denom_pos [OF pq] quotient_of_div [OF pq] by simp_all
  with x have p: "0 < p" by (simp add: zero_less_divide_iff)
  define a b where "a = bit_len (nat p)" and "b = bit_len (nat q)"
  have "2 ^ a \<le> 2 * nat p" "nat q < 2 ^ b" using bit_len_bounds [of "nat p"] bit_len_bounds [of "nat q"] p q(1) by (simp_all add: a_def b_def)
  then have "of_nat (2 ^ a) \<le> (of_nat (2 * nat p) :: rat)" "of_nat (nat q) < (of_nat (2 ^ b) :: rat)" by (simp_all only: of_nat_le_iff of_nat_less_iff)
  with p q(1) have "(2 :: rat) ^ a \<le> 2 * of_int p" "of_int q < (2 :: rat) ^ b" by simp_all
  moreover have "(2 :: rat) powi (int a - int b - 1) = 2 ^ a / 2 ^ b / 2" by (simp add: power_int_diff)
  moreover have "(2 :: rat) ^ a / 2 ^ b / 2 \<le> of_int p / of_int q"
  proof -
    have "(2 :: rat) ^ a / 2 \<le> of_int p" using calculation(1) by simp
    then have "(2 :: rat) ^ a / 2 / 2 ^ b \<le> of_int p / of_int q" using calculation(2) q(1) p by (intro frac_le) auto
    then show ?thesis by (simp add: ac_simps)
  qed
  ultimately show ?thesis using q(2) pq by (simp add: flt_exp_def a_def b_def Let_def)
qed

lemma round_even_facts: "0 \<le> x \<Longrightarrow> 0 \<le> round_even x" "x \<le> of_int k \<Longrightarrow> round_even x \<le> k"
proof -
  show "0 \<le> x \<Longrightarrow> 0 \<le> round_even x" by (auto simp: round_even_def Let_def)
  assume k: "x \<le> of_int k"
  show "round_even x \<le> k"
  proof (cases "x = of_int k")
    case True
    then show ?thesis by (simp add: round_even_def)
  next
    case False
    with k have "\<lfloor>x\<rfloor> < k" by (simp add: floor_less_iff)
    then show ?thesis by (auto simp: round_even_def Let_def)
  qed
qed

lemma flt_round_bounds:
  assumes x: "0 \<le> x" "x \<le> of_nat n" and n: "n \<le> 16777216"
  shows "0 \<le> flt_round x" "flt_round x \<le> of_nat n"
proof -
  define u :: rat where "u = 2 powi max (flt_exp x - 23) (-149)"
  have u: "0 < u" by (simp add: u_def)
  have val: "flt_round x = (if x = 0 then 0 else of_int (round_even (x / u)) * u)" by (simp add: flt_round_def u_def Let_def)
  show "0 \<le> flt_round x" using round_even_facts(1) [of "x / u"] x(1) u by (simp add: val)
  show "flt_round x \<le> of_nat n"
  proof (cases "x = 0")
    case False
    with x have pos: "0 < x" by simp
    have e: "2 powi flt_exp x \<le> x" by (rule flt_exp_le [OF pos])
    have "\<exists>k. of_nat n = of_int k * u"
    proof (cases "flt_exp x \<le> 23")
      case True
      define j where "j = nat (- max (flt_exp x - 23) (-149))"
      have "max (flt_exp x - 23) (-149) = - int j" using True by (simp add: j_def)
      then have "u = 1 / 2 ^ j" by (simp add: u_def power_int_minus field_simps)
      then have "of_nat n = of_int (int n * 2 ^ j) * u" by simp
      then show ?thesis by blast
    next
      case False
      have "(2 :: rat) powi 24 \<le> 2 powi flt_exp x" using False by (intro power_int_increasing) auto
      with e x(2) have "(16777216 :: rat) \<le> x" "(16777216 :: rat) \<le> of_nat n" by simp_all
      with n have n: "n = 16777216" by (metis dual_order.antisym of_nat_le_iff of_nat_numeral)
      with x(2) \<open>16777216 \<le> x\<close> have "x = 16777216" by simp
      with e have "\<not> (2 :: rat) powi 25 \<le> 2 powi flt_exp x" by simp
      then have "\<not> 25 \<le> flt_exp x" using power_int_increasing [of 25 "flt_exp x" "2 :: rat"] by auto
      with False have "flt_exp x = 24" by simp
      then have "u = 2" by (simp add: u_def)
      with n have "of_nat n = of_int 8388608 * u" by simp
      then show ?thesis by blast
    qed
    then obtain k where k: "of_nat n = of_int k * u" ..
    with x(2) u have "x / u \<le> of_int k" by (simp add: field_simps)
    then have "round_even (x / u) \<le> k" by (rule round_even_facts(2))
    with u k show ?thesis using False by (simp add: val)
  qed (simp add: flt_round_def)
qed

subsection \<open>The table\<close>

record ext2_extent_entry =
  old_loc :: u64
  new_loc :: u64
  ee_size :: u64

record ext2_extent =
  xt_list :: "ext2_extent_entry list"
  xt_cursor :: u64
  xt_size :: u64
  xt_num :: u64
  xt_sorted :: bool

text \<open>\<open>ok1\<close> and \<open>ok2\<close> are the two allocations; an entry has 24 bytes, and an array whose size overflows is refused.\<close>

definition ext2fs_create_extent_table :: "bool \<Rightarrow> bool \<Rightarrow> u64 \<Rightarrow> errcode + ext2_extent" where
  "ext2fs_create_extent_table ok1 ok2 sz =
     (if \<not> ok1 then Inl EXT2_ET_NO_MEMORY
      else let sz = (if sz \<noteq> 0 then sz else 50)
           in if (- 1) div 24 < sz \<or> \<not> ok2 then Inl EXT2_ET_NO_MEMORY
              else Inr \<lparr>xt_list = replicate (unat sz) \<lparr>old_loc = 0, new_loc = 0, ee_size = 0\<rparr>,
                        xt_cursor = 0, xt_size = sz, xt_num = 0, xt_sorted = True\<rparr>)"

text \<open>The number goes into the last entry or behind it; then the same with the array that grows first.\<close>

definition extent_put :: "ext2_extent \<Rightarrow> u64 \<Rightarrow> u64 \<Rightarrow> (errcode \<times> ext2_extent) ub" where
  "extent_put extent oldl newl = do {
     let curr = xt_num extent;
     (merged, extent) \<leftarrow> (if curr \<noteq> 0 then do {
         ent \<leftarrow> c_load (xt_list extent) (unat (curr - 1));
         if old_loc ent + ee_size ent = oldl \<and> new_loc ent + ee_size ent = newl
         then do {
           l \<leftarrow> c_store (xt_list extent) (unat (curr - 1)) (ent\<lparr>ee_size := ee_size ent + 1\<rparr>);
           Some (True, extent\<lparr>xt_list := l\<rparr>)
         }
         else Some (False, if old_loc ent + ee_size ent > oldl then extent\<lparr>xt_sorted := False\<rparr> else extent)
       }
       else Some (False, extent));
     if merged then Some (E_OK, extent)
     else do {
       l \<leftarrow> c_store (xt_list extent) (unat curr) \<lparr>old_loc = oldl, new_loc = newl, ee_size = 1\<rparr>;
       Some (E_OK, extent\<lparr>xt_list := l, xt_num := xt_num extent + 1\<rparr>)
     }
   }"

text \<open>\<open>junk\<close> is what the new cells of a larger array hold.\<close>

definition ext2fs_add_extent_entry :: "bool \<Rightarrow> (nat \<Rightarrow> ext2_extent_entry) \<Rightarrow> ext2_extent \<Rightarrow> u64 \<Rightarrow> u64 \<Rightarrow> (errcode \<times> ext2_extent) ub" where
  "ext2fs_add_extent_entry ok junk extent oldl newl =
     (if xt_num extent \<ge> xt_size extent then
        let newsize = xt_size extent + 100
        in if ok then extent_put (extent\<lparr>xt_list := c_realloc junk (xt_list extent) (unat (24 * newsize) div 24), xt_size := newsize\<rparr>) oldl newl
           else Some (EXT2_ET_NO_MEMORY, extent)
      else extent_put extent oldl newl)"

definition extent_cmp :: "ext2_extent_entry compar" where
  "extent_cmp a b = Some (to_int (uint (old_loc a - old_loc b)))"

text \<open>
  Where between two values a number lies, from 0 to 1. For equal values the quotient is 0/0, which is no number and
  has no conversion to an integer.
\<close>

definition xt_range :: "u64 \<Rightarrow> u64 \<Rightarrow> u64 \<Rightarrow> rat ub" where
  "xt_range oldl lowval highval =
     (if oldl < lowval then Some 0
      else if oldl > highval then Some 1
      else if highval - lowval = 0 then None
      else let rng = flt_round (flt_round (of_nat (unat (oldl - lowval))) / flt_round (of_nat (unat (highval - lowval))));
               rng = (if rng > dbl_9_10 then flt_9_10 else rng);
               rng = (if rng < dbl_1_10 then flt_1_10 else rng)
           in Some rng)"

definition xt_mid :: "rat \<Rightarrow> int \<Rightarrow> int \<Rightarrow> int" where
  "xt_mid rng low high = low + \<lfloor>flt_round (rng * flt_round (of_int (high - low)))\<rfloor>"

partial_function (option) translate_loop :: "ext2_extent_entry list \<Rightarrow> u64 \<Rightarrow> int \<Rightarrow> int \<Rightarrow> u64 ub" where
  [code]: "translate_loop list oldl low high =
     (if low \<le> high then do {
        mid \<leftarrow> (if low = high then Some low
          else do {
            l \<leftarrow> c_load list (nat low);
            h \<leftarrow> c_load list (nat high);
            rng \<leftarrow> xt_range oldl (old_loc l) (old_loc h);
            Some (xt_mid rng low high)
          });
        ent \<leftarrow> c_load list (nat mid);
        if oldl \<ge> old_loc ent \<and> oldl < old_loc ent + ee_size ent then Some (new_loc ent + (oldl - old_loc ent))
        else if oldl < old_loc ent then translate_loop list oldl low (mid - 1)
        else translate_loop list oldl (mid + 1) high
      }
      else Some 0)"

definition ext2fs_extent_translate :: "ext2_extent \<Rightarrow> u64 \<Rightarrow> (u64 \<times> ext2_extent) ub" where
  "ext2fs_extent_translate extent oldl = do {
     extent \<leftarrow> (if xt_sorted extent then Some extent
       else do {
         let n = unat (xt_num extent);
         if n > length (xt_list extent) then None
         else do {
           l \<leftarrow> c_qsort extent_cmp (take n (xt_list extent));
           Some (extent\<lparr>xt_list := l @ drop n (xt_list extent), xt_sorted := True\<rparr>)
         }
       });
     r \<leftarrow> translate_loop (xt_list extent) oldl 0 (sint (xt_num extent - 1));
     Some (r, extent)
   }"

text \<open>\<open>reset\<close>: the call with null pointers. The result is the entry, all zero behind the last one.\<close>

definition ext2fs_iterate_extent :: "bool \<Rightarrow> ext2_extent \<Rightarrow> (errcode \<times> (u64 \<times> u64 \<times> u64) option \<times> ext2_extent) ub" where
  "ext2fs_iterate_extent reset extent =
     (if reset then Some (E_OK, None, extent\<lparr>xt_cursor := 0\<rparr>)
      else if xt_cursor extent \<ge> xt_num extent then Some (E_OK, Some (0, 0, 0), extent)
      else do {
        ent \<leftarrow> c_load (xt_list extent) (unat (xt_cursor extent));
        Some (E_OK, Some (old_loc ent, new_loc ent, ee_size ent), extent\<lparr>xt_cursor := xt_cursor extent + 1\<rparr>)
      })"

subsection \<open>The map of a table\<close>

definition xt_entries :: "ext2_extent \<Rightarrow> ext2_extent_entry list" where
  "xt_entries x = take (unat (xt_num x)) (xt_list x)"

abbreviation ee_start :: "ext2_extent_entry \<Rightarrow> nat" where "ee_start e \<equiv> unat (old_loc e)"
abbreviation ee_end :: "ext2_extent_entry \<Rightarrow> nat" where "ee_end e \<equiv> unat (old_loc e) + unat (ee_size e)"

definition covers :: "ext2_extent_entry \<Rightarrow> u64 \<Rightarrow> bool" where
  "covers e oldl \<longleftrightarrow> ee_start e \<le> unat oldl \<and> unat oldl < ee_end e"

definition ee_target :: "ext2_extent_entry \<Rightarrow> u64 \<Rightarrow> u64" where
  "ee_target e oldl = new_loc e + (oldl - old_loc e)"

definition xt_map :: "ext2_extent_entry list \<Rightarrow> u64 \<Rightarrow> u64 option" where
  "xt_map es oldl = map_option (\<lambda>e. ee_target e oldl) (List.find (\<lambda>e. covers e oldl) es)"

definition ee_disjoint :: "ext2_extent_entry \<Rightarrow> ext2_extent_entry \<Rightarrow> bool" where
  "ee_disjoint a b \<longleftrightarrow> ee_end a \<le> ee_start b \<or> ee_end b \<le> ee_start a"

abbreviation ee_before :: "ext2_extent_entry \<Rightarrow> ext2_extent_entry \<Rightarrow> bool" where "ee_before a b \<equiv> ee_end a \<le> ee_start b"

definition es_ok :: "ext2_extent_entry list \<Rightarrow> bool" where
  "es_ok es \<longleftrightarrow> distinct es \<and> (\<forall>e \<in> set es. 0 < unat (ee_size e) \<and> ee_end e < 18446744073709551616)
     \<and> (\<forall>a \<in> set es. \<forall>b \<in> set es. a \<noteq> b \<longrightarrow> ee_disjoint a b)"

definition xt_ok :: "ext2_extent \<Rightarrow> bool" where
  "xt_ok x \<longleftrightarrow> length (xt_list x) = unat (xt_size x) \<and> unat (xt_num x) \<le> unat (xt_size x) \<and> unat (xt_size x) \<le> 2 ^ 33
     \<and> es_ok (xt_entries x) \<and> (xt_sorted x \<longrightarrow> sorted_wrt ee_before (xt_entries x))"

lemma covers_iff: "ee_end e < 18446744073709551616 \<Longrightarrow> old_loc e \<le> oldl \<and> oldl < old_loc e + ee_size e \<longleftrightarrow> covers e oldl"
  by (simp add: covers_def word_le_nat_alt word_less_nat_alt unat_word_ariths)

lemma covers_one: "es_ok es \<Longrightarrow> a \<in> set es \<Longrightarrow> b \<in> set es \<Longrightarrow> covers a oldl \<Longrightarrow> covers b oldl \<Longrightarrow> a = b"
  by (fastforce simp: es_ok_def ee_disjoint_def covers_def)

lemma xt_map_Some: "es_ok es \<Longrightarrow> e \<in> set es \<Longrightarrow> covers e oldl \<Longrightarrow> xt_map es oldl = Some (ee_target e oldl)"
proof -
  assume e: "es_ok es" "e \<in> set es" "covers e oldl"
  then obtain e' where f: "List.find (\<lambda>e. covers e oldl) es = Some e'" by (metis find_None_iff not_None_eq)
  then have "e' \<in> set es" "covers e' oldl" by (auto simp: find_Some_iff)
  then have "e' = e" using covers_one [OF e(1)] e by blast
  with f show ?thesis by (simp add: xt_map_def)
qed

lemma xt_map_None: "xt_map es oldl = None \<longleftrightarrow> (\<forall>e \<in> set es. \<not> covers e oldl)"
  by (auto simp: xt_map_def find_None_iff)

lemma xt_map_mset:
  assumes "es_ok es" "mset es' = mset es"
  shows "es_ok es'" "xt_map es' = xt_map es"
proof -
  have st: "set es' = set es" "distinct es' = distinct es" using assms(2) mset_eq_setD mset_eq_imp_distinct_iff by blast+
  with assms(1) show ok: "es_ok es'" by (simp add: es_ok_def)
  show "xt_map es' = xt_map es"
  proof
    fix oldl
    show "xt_map es' oldl = xt_map es oldl"
    proof (cases "\<exists>e \<in> set es. covers e oldl")
      case True
      with xt_map_Some [OF ok] xt_map_Some [OF assms(1)] st show ?thesis by auto
    next
      case False
      with st show ?thesis using xt_map_None [of es oldl] xt_map_None [of es' oldl] by simp
    qed
  qed
qed

text \<open>One more number behind the last entry, or in a new one.\<close>

lemma es_ok_grow:
  assumes ok: "es_ok (es @ [e])" and new: "\<not> covers e oldl" "\<forall>a \<in> set es. \<not> covers a oldl" and o: "old_loc e + ee_size e = oldl" "unat oldl + 1 < 18446744073709551616"
  shows "es_ok (es @ [e\<lparr>ee_size := ee_size e + 1\<rparr>])"
    "xt_map (es @ [e\<lparr>ee_size := ee_size e + 1\<rparr>]) = (xt_map (es @ [e]))(oldl \<mapsto> new_loc e + ee_size e)"
    "sorted_wrt ee_before (es @ [e]) \<Longrightarrow> sorted_wrt ee_before (es @ [e\<lparr>ee_size := ee_size e + 1\<rparr>])"
proof -
  let ?e = "e\<lparr>ee_size := ee_size e + 1\<rparr>"
  have e: "0 < unat (ee_size e)" "ee_end e < 18446744073709551616" using ok by (auto simp: es_ok_def)
  then have ed: "ee_end e = unat oldl" using o(1) by (auto simp: unat_word_ariths)
  then have sz: "unat (ee_size e + 1) = unat (ee_size e) + 1" using o(2) by (simp add: unat_word_ariths)
  have old: "ee_start e < unat oldl" using ed e(1) by linarith
  have dis: "ee_disjoint a ?e" "ee_disjoint ?e a" "a \<noteq> ?e" if "a \<in> set es" for a
  proof -
    from that ok have "ee_disjoint a e" "0 < unat (ee_size a)" by (auto simp: es_ok_def)
    with that new(2) ed sz show "ee_disjoint a ?e" "ee_disjoint ?e a" by (auto simp: ee_disjoint_def covers_def)
    then show "a \<noteq> ?e" using \<open>0 < unat (ee_size a)\<close> by (auto simp: ee_disjoint_def)
  qed
  have mem: "\<forall>a \<in> set es. 0 < unat (ee_size a) \<and> ee_end a < 18446744073709551616" "distinct es"
    "\<forall>a \<in> set es. \<forall>b \<in> set es. a \<noteq> b \<longrightarrow> ee_disjoint a b" using ok by (auto simp: es_ok_def)
  show g: "es_ok (es @ [?e])" unfolding es_ok_def
  proof (intro conjI ballI impI)
    show "distinct (es @ [?e])" using mem(2) dis(3) by auto
    show "0 < unat (ee_size a)" "ee_end a < 18446744073709551616" if "a \<in> set (es @ [?e])" for a using that mem(1) sz ed o(2) by auto
    show "ee_disjoint a b" if "a \<in> set (es @ [?e])" "b \<in> set (es @ [?e])" "a \<noteq> b" for a b using that mem(3) dis(1,2) by auto
  qed
  show "xt_map (es @ [?e]) = (xt_map (es @ [e]))(oldl \<mapsto> new_loc e + ee_size e)"
  proof
    fix x
    have "oldl - old_loc e = ee_size e" using o(1) by auto
    then have t: "ee_target ?e oldl = new_loc e + ee_size e" "ee_target ?e x = ee_target e x" by (simp_all add: ee_target_def)
    have c: "covers ?e x \<longleftrightarrow> covers e x \<or> x = oldl" using sz ed old by (auto simp: covers_def word_unat_eq_iff)
    show "xt_map (es @ [?e]) x = ((xt_map (es @ [e]))(oldl \<mapsto> new_loc e + ee_size e)) x"
    proof (cases "\<exists>a \<in> set es. covers a x")
      case True
      then obtain a where a: "a \<in> set es" "covers a x" ..
      then have "x \<noteq> oldl" using new(2) by auto
      with xt_map_Some [OF g, of a x] xt_map_Some [OF ok, of a x] a show ?thesis by simp
    next
      case False
      show ?thesis
      proof (cases "covers ?e x")
        case True
        with xt_map_Some [OF g, of ?e x] xt_map_Some [OF ok, of e x] c t show ?thesis by auto
      next
        case no: False
        with c have "x \<noteq> oldl" "\<not> covers e x" by auto
        with False no xt_map_None [of "es @ [?e]" x] xt_map_None [of "es @ [e]" x] show ?thesis by auto
      qed
    qed
  qed
  show "sorted_wrt ee_before (es @ [e]) \<Longrightarrow> sorted_wrt ee_before (es @ [?e])" by (auto simp: sorted_wrt_append)
qed

lemma es_ok_append:
  assumes ok: "es_ok es" and new: "xt_map es oldl = None" and o: "unat oldl + 1 < 18446744073709551616"
  shows "es_ok (es @ [\<lparr>old_loc = oldl, new_loc = newl, ee_size = 1\<rparr>])"
    "xt_map (es @ [\<lparr>old_loc = oldl, new_loc = newl, ee_size = 1\<rparr>]) = (xt_map es)(oldl \<mapsto> newl)"
proof -
  let ?e = "\<lparr>old_loc = oldl, new_loc = newl, ee_size = 1\<rparr>"
  have n: "\<not> covers a oldl" if "a \<in> set es" for a using new that by (simp add: xt_map_None)
  have dis: "ee_disjoint a ?e" "ee_disjoint ?e a" "a \<noteq> ?e" if "a \<in> set es" for a
    using n [OF that] by (auto simp: ee_disjoint_def covers_def)
  show g: "es_ok (es @ [?e])" unfolding es_ok_def
  proof (intro conjI ballI impI)
    show "distinct (es @ [?e])" using ok dis(3) by (auto simp: es_ok_def)
    show "0 < unat (ee_size a)" "ee_end a < 18446744073709551616" if "a \<in> set (es @ [?e])" for a using that ok o by (auto simp: es_ok_def)
    show "ee_disjoint a b" if "a \<in> set (es @ [?e])" "b \<in> set (es @ [?e])" "a \<noteq> b" for a b using that ok dis(1,2) by (auto simp: es_ok_def)
  qed
  have c: "covers ?e x \<longleftrightarrow> x = oldl" "ee_target ?e oldl = newl" for x by (auto simp: covers_def ee_target_def word_unat_eq_iff)
  show "xt_map (es @ [?e]) = (xt_map es)(oldl \<mapsto> newl)"
  proof
    fix x
    show "xt_map (es @ [?e]) x = ((xt_map es)(oldl \<mapsto> newl)) x"
    proof (cases "x = oldl")
      case True
      with xt_map_Some [OF g, of ?e x] c show ?thesis by simp
    next
      case False
      with c(1) have no: "\<not> covers ?e x" by simp
      show ?thesis
      proof (cases "xt_map es x")
        case None
        with no False xt_map_None [of "es @ [?e]" x] xt_map_None [of es x] show ?thesis by auto
      next
        case (Some v)
        then obtain a where "a \<in> set es" "covers a x" using xt_map_None [of es x] by auto
        with xt_map_Some [OF g, of a x] xt_map_Some [OF ok, of a x] False show ?thesis by simp
      qed
    qed
  qed
qed

lemma xt_okD:
  assumes "xt_ok x"
  shows "length (xt_list x) = unat (xt_size x)" "unat (xt_num x) \<le> unat (xt_size x)" "unat (xt_size x) \<le> 2 ^ 33" "es_ok (xt_entries x)"
    "length (xt_entries x) = unat (xt_num x)" "xt_sorted x \<Longrightarrow> sorted_wrt ee_before (xt_entries x)"
  using assms by (auto simp: xt_ok_def xt_entries_def)

subsection \<open>Adding a number\<close>

lemma last_entry:
  assumes n: "unat num \<noteq> 0" "length l \<ge> unat num"
  shows "unat (num - 1) < length l" "take (unat num) l = take (unat (num - 1)) l @ [l ! unat (num - 1)]"
    "take (unat num) (l[unat (num - 1) := v]) = take (unat (num - 1)) l @ [v]"
proof -
  have "unat (num - 1) = unat num - 1" using n(1) by (metis unat_minus_one unat_0)
  then have k: "unat num = Suc (unat (num - 1))" using n(1) by simp
  with n show l: "unat (num - 1) < length l" by simp
  with k show "take (unat num) l = take (unat (num - 1)) l @ [l ! unat (num - 1)]" "take (unat num) (l[unat (num - 1) := v]) = take (unat (num - 1)) l @ [v]"
    by (simp_all add: take_Suc_conv_app_nth)
qed

lemma xt_grow:
  assumes ok: "xt_ok x" and room: "unat (xt_num x) < 2 ^ 32"
  shows "\<exists>x'. xt_ok x' \<and> xt_entries x' = xt_entries x \<and> xt_num x' < xt_size x' \<and> xt_num x' = xt_num x
      \<and> ext2fs_add_extent_entry True junk x oldl newl = extent_put x' oldl newl"
    "xt_num x < xt_size x \<Longrightarrow> ext2fs_add_extent_entry mem junk x oldl newl = extent_put x oldl newl"
    "\<not> xt_num x < xt_size x \<Longrightarrow> ext2fs_add_extent_entry False junk x oldl newl = Some (EXT2_ET_NO_MEMORY, x)"
proof -
  note d = xt_okD [OF ok]
  show "xt_num x < xt_size x \<Longrightarrow> ext2fs_add_extent_entry mem junk x oldl newl = extent_put x oldl newl"
    "\<not> xt_num x < xt_size x \<Longrightarrow> ext2fs_add_extent_entry False junk x oldl newl = Some (EXT2_ET_NO_MEMORY, x)"
    by (auto simp: ext2fs_add_extent_entry_def Let_def)
  show "\<exists>x'. xt_ok x' \<and> xt_entries x' = xt_entries x \<and> xt_num x' < xt_size x' \<and> xt_num x' = xt_num x
      \<and> ext2fs_add_extent_entry True junk x oldl newl = extent_put x' oldl newl"
  proof (cases "xt_num x < xt_size x")
    case True
    with ok show ?thesis by (auto simp: ext2fs_add_extent_entry_def)
  next
    case False
    then have n: "unat (xt_size x) = unat (xt_num x)" using d(2) by (simp add: word_less_nat_alt)
    from False have full: "xt_num x \<ge> xt_size x" by simp
    define sz where "sz = xt_size x + 100"
    have u: "unat sz = unat (xt_num x) + 100" "unat (24 * sz) div 24 = unat sz" using n room by (simp_all add: sz_def unat_word_ariths)
    define x' where "x' = x\<lparr>xt_list := c_realloc junk (xt_list x) (unat sz), xt_size := sz\<rparr>"
    have es: "xt_entries x' = xt_entries x" using u d(1) n by (simp add: x'_def xt_entries_def)
    have "xt_ok x'" using ok u room es unfolding xt_ok_def by (simp add: x'_def)
    moreover have "xt_num x' < xt_size x'" using u by (simp add: x'_def word_less_nat_alt)
    moreover have "ext2fs_add_extent_entry True junk x oldl newl = extent_put x' oldl newl"
      using full u(2) by (simp add: ext2fs_add_extent_entry_def Let_def x'_def sz_def)
    ultimately show ?thesis using es by (auto simp: x'_def)
  qed
qed

lemma extent_put_run:
  assumes ok: "xt_ok x" and lt: "xt_num x < xt_size x" and new: "xt_map (xt_entries x) oldl = None" and o: "unat oldl + 1 < 18446744073709551616"
  shows "\<exists>x'. extent_put x oldl newl = Some (E_OK, x') \<and> xt_ok x' \<and> xt_map (xt_entries x') = (xt_map (xt_entries x))(oldl \<mapsto> newl)
    \<and> unat (xt_num x') \<le> unat (xt_num x) + 1"
proof -
  note d = xt_okD [OF ok]
  let ?new = "\<lparr>old_loc = oldl, new_loc = newl, ee_size = 1\<rparr>"
  let ?k = "unat (xt_num x - 1)"
  define e where "e = xt_list x ! ?k"
  define fits where "fits \<longleftrightarrow> old_loc e + ee_size e = oldl \<and> new_loc e + ee_size e = newl"
  have num: "unat (xt_num x + 1) = unat (xt_num x) + 1" using lt d(2,3) by (simp add: word_less_nat_alt unat_word_ariths)
  have app: "take (unat (xt_num x + 1)) ((xt_list x)[unat (xt_num x) := ?new]) = xt_entries x @ [?new]"
    using num lt d(1) by (simp add: xt_entries_def take_Suc_conv_app_nth word_less_nat_alt)
  note ap = es_ok_append [OF d(4) new o, of newl]
  show ?thesis
  proof (cases "xt_num x \<noteq> 0 \<and> fits")
    case True
    then have n: "unat (xt_num x) \<noteq> 0" by (simp add: unat_eq_zero)
    have l: "length (xt_list x) \<ge> unat (xt_num x)" using d(1,2) by simp
    note le = last_entry [OF n l, folded e_def]
    let ?P = "take ?k (xt_list x)"
    let ?x = "x\<lparr>xt_list := (xt_list x)[?k := e\<lparr>ee_size := ee_size e + 1\<rparr>]\<rparr>"
    have es: "xt_entries x = ?P @ [e]" "xt_entries ?x = ?P @ [e\<lparr>ee_size := ee_size e + 1\<rparr>]" using le by (simp_all add: xt_entries_def)
    have none: "\<not> covers e oldl" "\<forall>a \<in> set ?P. \<not> covers a oldl" using new unfolding es(1) xt_map_None by auto
    note gr = es_ok_grow [OF d(4) [unfolded es(1)] none _ o]
    have run: "extent_put x oldl newl = Some (E_OK, ?x)"
      using True lt le(1) by (simp add: extent_put_def Let_def e_def [symmetric] fits_def)
    have "xt_ok ?x" using ok gr(1,3) True es unfolding xt_ok_def by (auto simp: fits_def)
    moreover have "xt_map (xt_entries ?x) = (xt_map (xt_entries x))(oldl \<mapsto> newl)" using gr(2) True by (simp add: es fits_def)
    ultimately show ?thesis using run by auto
  next
    case False
    define srt where "srt \<longleftrightarrow> xt_sorted x \<and> \<not> (xt_num x \<noteq> 0 \<and> old_loc e + ee_size e > oldl)"
    define x' where "x' = x\<lparr>xt_list := (xt_list x)[unat (xt_num x) := ?new], xt_num := xt_num x + 1, xt_sorted := srt\<rparr>"
    have es: "xt_entries x' = xt_entries x @ [?new]" using app by (simp add: x'_def xt_entries_def)
    have z: "unat (xt_num x) < length (xt_list x)" using lt d(1) by (simp add: word_less_nat_alt)
    have lts: "?k < length (xt_list x)" if "xt_num x \<noteq> 0" using that z last_entry(1) [of "xt_num x" "xt_list x"] by (simp add: unat_eq_zero)
    have run: "extent_put x oldl newl = Some (E_OK, x')"
      using False lt lts z by (cases "xt_num x = 0") (auto simp: extent_put_def Let_def e_def [symmetric] fits_def x'_def srt_def)
    have "sorted_wrt ee_before (xt_entries x')" if "srt"
    proof (cases "xt_num x = 0")
      case True
      then have "xt_entries x = []" by (simp add: xt_entries_def)
      with es show ?thesis by simp
    next
      case nz: False
      then have n: "unat (xt_num x) \<noteq> 0" by (simp add: unat_eq_zero)
      have l: "length (xt_list x) \<ge> unat (xt_num x)" using d(1,2) by simp
      have E: "xt_entries x = take ?k (xt_list x) @ [e]" using last_entry(2) [OF n l] by (simp add: xt_entries_def e_def)
      have s: "sorted_wrt ee_before (take ?k (xt_list x) @ [e])" using that d(6) E by (simp add: srt_def)
      have "ee_end e < 18446744073709551616" using d(4) unfolding E es_ok_def by simp
      then have "ee_end e \<le> unat oldl" using that nz by (simp add: srt_def word_less_nat_alt unat_word_ariths)
      with s show ?thesis unfolding es E by (fastforce simp: sorted_wrt_append)
    qed
    then have "xt_ok x'" using ok ap(1) es num lt unfolding xt_ok_def by (simp add: x'_def word_less_nat_alt)
    with run ap(2) es num show ?thesis by (auto simp: x'_def)
  qed
qed

subsection \<open>The search\<close>

lemma xt_mid_between:
  assumes r: "0 \<le> r" "r \<le> 1" and lh: "low < high" "high - low \<le> 16777216"
  shows "low \<le> xt_mid r low high" "xt_mid r low high \<le> high"
proof -
  define n where "n = nat (high - low)"
  have n: "n \<le> 16777216" "of_int (high - low) = (of_nat n :: rat)" using lh by (simp_all add: n_def)
  note b = flt_round_bounds [of "of_nat n" n, OF _ order_refl n(1), OF of_nat_0_le_iff]
  have "0 \<le> r * flt_round (of_nat n)" "r * flt_round (of_nat n) \<le> of_nat n" using r b mult_mono [of r 1 "flt_round (of_nat n)" "of_nat n"] by simp_all
  from flt_round_bounds [OF this n(1)] have "0 \<le> \<lfloor>flt_round (r * flt_round (of_nat n))\<rfloor>" "\<lfloor>flt_round (r * flt_round (of_nat n))\<rfloor> \<le> int n"
    by (simp_all add: floor_le_iff)
  then show "low \<le> xt_mid r low high" "xt_mid r low high \<le> high" using lh n(2) by (simp_all add: xt_mid_def n_def)
qed

lemma xt_range_unit:
  assumes "lowval < highval"
  shows "\<exists>r. xt_range oldl lowval highval = Some r \<and> 0 \<le> r \<and> r \<le> 1"
proof -
  have "highval - lowval \<noteq> 0" using assms by auto
  then show ?thesis by (auto simp: xt_range_def Let_def dbl_9_10_def dbl_1_10_def flt_9_10_def flt_1_10_def)
qed

text \<open>
  Everything below the window ends before the number that is looked for, and everything above it begins behind it.
\<close>

lemma translate_loop_run:
  assumes ok: "es_ok es" and srt: "sorted_wrt ee_before es" and len: "length es \<le> 16777217" and l: "length es \<le> length list" "take (length es) list = es"
    and win: "0 \<le> low" "high < int (length es)" "\<forall>i < nat low. ee_end (es ! i) \<le> unat oldl" "\<forall>i < length es. high < int i \<longrightarrow> unat oldl < ee_start (es ! i)"
  shows "translate_loop list oldl low high = Some (case xt_map es oldl of Some v \<Rightarrow> v | None \<Rightarrow> 0)"
  using win
proof (induction "nat (high + 1 - low)" arbitrary: low high rule: less_induct)
  case less
  have at: "c_load list (nat i) = Some (es ! nat i)" if "0 \<le> i" "i < int (length es)" for i
  proof -
    have "nat i < length es" using that by simp
    then have "list ! nat i = es ! nat i" using l(2) by (metis nth_take)
    with \<open>nat i < length es\<close> l(1) show ?thesis by simp
  qed
  have before: "ee_end (es ! i) \<le> ee_start (es ! j)" if "i < j" "j < length es" for i j using sorted_wrt_nth_less [OF srt that] by simp
  have good: "0 < unat (ee_size (es ! i))" "ee_end (es ! i) < 18446744073709551616" if "i < length es" for i using ok that by (auto simp: es_ok_def)
  show ?case
  proof (cases "low \<le> high")
    case False
    have "\<not> covers (es ! i) oldl" if "i < length es" for i
    proof (cases "i < nat low")
      case True
      with less.prems(3) show ?thesis by (auto simp: covers_def)
    next
      case no: False
      with False have "high < int i" using less.prems(1) by linarith
      with less.prems(4) that show ?thesis by (auto simp: covers_def)
    qed
    then have "xt_map es oldl = None" by (metis in_set_conv_nth xt_map_None)
    with False show ?thesis by (subst translate_loop.simps) simp
  next
    case True
    define choice where "choice = (if low = high then Some low
          else do {
            l \<leftarrow> c_load list (nat low);
            h \<leftarrow> c_load list (nat high);
            rng \<leftarrow> xt_range oldl (old_loc l) (old_loc h);
            Some (xt_mid rng low high)
          })"
    obtain mid where mid: "choice = Some mid" "low \<le> mid" "mid \<le> high"
    proof (cases "low = high")
      case True
      then show ?thesis using that [of low] by (simp add: choice_def)
    next
      case False
      with True have lh: "low < high" "high - low \<le> 16777216" using less.prems(1,2) len by simp_all
      have "nat low < nat high" "nat high < length es" "nat low < length es" using lh less.prems(1,2) by simp_all
      with before [of "nat low" "nat high"] good(1) [of "nat low"] have "old_loc (es ! nat low) < old_loc (es ! nat high)" by (simp add: word_less_nat_alt)
      from xt_range_unit [OF this] obtain r where r: "xt_range oldl (old_loc (es ! nat low)) (old_loc (es ! nat high)) = Some r" "0 \<le> r" "r \<le> 1" by blast
      have "choice = Some (xt_mid r low high)" using False at [of low] at [of high] less.prems(1,2) lh r(1) by (simp add: choice_def)
      with that xt_mid_between [OF r(2,3) lh] show ?thesis by blast
    qed
    define m where "m = nat mid"
    have m: "mid = int m" "m < length es" using mid(2,3) less.prems(1,2) by (simp_all add: m_def)
    let ?e = "es ! m"
    have ld: "c_load list m = Some ?e" using at [of mid] m by simp
    have cov: "old_loc ?e \<le> oldl \<and> oldl < old_loc ?e + ee_size ?e \<longleftrightarrow> covers ?e oldl" by (rule covers_iff [OF good(2) [OF m(2)]])
    have run: "translate_loop list oldl low high
      = (if covers ?e oldl then Some (ee_target ?e oldl) else if oldl < old_loc ?e then translate_loop list oldl low (mid - 1) else translate_loop list oldl (mid + 1) high)"
      using True mid(1) ld m(1) cov unfolding choice_def by (subst translate_loop.simps) (simp add: ee_target_def)
    consider (hit) "covers ?e oldl" | (left) "\<not> covers ?e oldl" "oldl < old_loc ?e" | (right) "\<not> covers ?e oldl" "\<not> oldl < old_loc ?e" by blast
    then show ?thesis
    proof cases
      case hit
      then show ?thesis using run xt_map_Some [OF ok nth_mem [OF m(2)]] by simp
    next
      case left
      have "unat oldl < ee_start (es ! i)" if "i < length es" "mid - 1 < int i" for i
        using left(2) before [of m i] that m by (cases "i = m") (auto simp: word_less_nat_alt)
      then have "translate_loop list oldl low (mid - 1) = Some (case xt_map es oldl of Some v \<Rightarrow> v | None \<Rightarrow> 0)"
        using less.prems mid m by (intro less.hyps) auto
      with left run show ?thesis by simp
    next
      case right
      have e: "ee_end ?e \<le> unat oldl" using right by (auto simp: covers_def word_less_nat_alt)
      have "ee_end (es ! i) \<le> unat oldl" if "i < nat (mid + 1)" for i
      proof (cases "i = m")
        case False
        with that m(1) have "i < m" by linarith
        with before [of i m] m(2) good(1) [OF m(2)] e show ?thesis by linarith
      qed (use e in simp)
      then have "translate_loop list oldl (mid + 1) high = Some (case xt_map es oldl of Some v \<Rightarrow> v | None \<Rightarrow> 0)"
        using less.prems mid m by (intro less.hyps) auto
      with right run show ?thesis by simp
    qed
  qed
qed

subsection \<open>Sorting and translating\<close>

definition in_window :: "nat \<Rightarrow> u64 \<Rightarrow> bool" where
  "in_window w oldl \<longleftrightarrow> w \<le> unat oldl \<and> unat oldl < w + 2147483648"

lemma extent_cmp_window:
  assumes "in_window w (old_loc a)" "in_window w (old_loc b)"
  shows "\<exists>c. extent_cmp a b = Some c \<and> (c \<le> 0 \<longleftrightarrow> old_loc a \<le> old_loc b) \<and> (c = 0 \<longleftrightarrow> old_loc a = old_loc b)"
proof -
  define p q where "p = ee_start a" and "q = ee_start b"
  have u: "uint (old_loc a) = int p" "uint (old_loc b) = int q" by (simp_all add: p_def q_def)
  have "to_int (uint (old_loc a - old_loc b)) = int p - int q"
    unfolding to_int_diff u using assms by (intro to_int_small) (auto simp: in_window_def p_def [symmetric] q_def [symmetric])
  then show ?thesis by (auto simp: extent_cmp_def word_le_nat_alt word_unat_eq_iff p_def [symmetric] q_def [symmetric])
qed

lemma sort_entries:
  assumes ok: "es_ok es" and win: "\<forall>oldl \<in> dom (xt_map es). in_window w oldl"
  shows "\<exists>ys. c_qsort extent_cmp es = Some ys \<and> mset ys = mset es \<and> sorted_wrt ee_before ys"
proof -
  have st: "in_window w (old_loc e)" if "e \<in> set es" for e
  proof -
    have "covers e (old_loc e)" using ok that by (auto simp: es_ok_def covers_def)
    with xt_map_Some [OF ok that] win show ?thesis by blast
  qed
  note c = consistent_keys [of es extent_cmp old_loc, OF extent_cmp_window [OF st st]]
  from c_qsort_sorts [OF c(1)] obtain ys where ys: "c_qsort extent_cmp es = Some ys" "mset ys = mset es" "sorted_wrt (cmp_le extent_cmp) ys" by auto
  have s: "set ys = set es" using ys(2) by (rule mset_eq_setD)
  have oky: "es_ok ys" by (rule xt_map_mset(1) [OF ok ys(2)])
  have "ee_before (ys ! i) (ys ! j)" if ij: "i < j" "j < length ys" for i j
  proof -
    have m: "ys ! i \<in> set ys" "ys ! j \<in> set ys" using ij by simp_all
    have "cmp_le extent_cmp (ys ! i) (ys ! j)" by (rule sorted_wrt_nth_less [OF ys(3) ij])
    then have le: "ee_start (ys ! i) \<le> ee_start (ys ! j)" using c(2) m s by (simp add: word_le_nat_alt)
    have "ys ! i \<noteq> ys ! j" using oky ij by (simp add: es_ok_def nth_eq_iff_index_eq)
    then have "ee_disjoint (ys ! i) (ys ! j)" "0 < unat (ee_size (ys ! j))" using oky m by (auto simp: es_ok_def)
    with le show ?thesis by (auto simp: ee_disjoint_def)
  qed
  then have "sorted_wrt ee_before ys" by (simp add: sorted_wrt_iff_nth_less)
  with ys show ?thesis by blast
qed

lemma sint_pred:
  assumes n: "unat n = k" "k \<le> 2 ^ 33"
  shows "sint (n - 1 :: u64) = int k - 1"
proof (cases "n = 0")
  case False
  then have k: "unat (n - 1) = k - 1" "0 < k" using n(1) unat_minus_one [of n] unat_gt_0 [of n] by simp_all
  then have u: "uint (n - 1) = int k - 1" by (metis uint_nat of_nat_diff Suc_leI One_nat_def of_nat_1)
  show ?thesis unfolding sint_uint u using k(2) n(2) by (intro signed_take_bit_int_eq_self) simp_all
qed (use n in simp)

lemma translate_run:
  assumes ok: "xt_ok x" and num: "unat (xt_num x) \<le> 16777217" and win: "\<forall>oldl \<in> dom (xt_map (xt_entries x)). in_window w oldl"
  shows "\<exists>x'. ext2fs_extent_translate x oldl = Some (case xt_map (xt_entries x) oldl of Some v \<Rightarrow> v | None \<Rightarrow> 0, x')
    \<and> xt_ok x' \<and> xt_map (xt_entries x') = xt_map (xt_entries x) \<and> xt_num x' = xt_num x"
proof -
  note d = xt_okD [OF ok]
  let ?n = "unat (xt_num x)"
  have search: "translate_loop (xt_list y) oldl 0 (sint (xt_num y - 1)) = Some (case xt_map (xt_entries y) oldl of Some v \<Rightarrow> v | None \<Rightarrow> 0)"
    if y: "xt_ok y" "xt_sorted y" "xt_num y = xt_num x" for y
  proof -
    note e = xt_okD [OF y(1)]
    have tk: "take (length (xt_entries y)) (xt_list y) = xt_entries y" using e(5) by (simp add: xt_entries_def)
    define k where "k = ?n"
    have "sint (xt_num y - 1) = int k - 1" using num by (intro sint_pred) (simp_all add: y(3) k_def)
    with e(1,2,5) num show ?thesis unfolding y(3) k_def [symmetric] by (intro translate_loop_run [OF e(4) e(6) [OF y(2)] _ _ tk]) auto
  qed
  show ?thesis
  proof (cases "xt_sorted x")
    case True
    with search [OF ok True] ok show ?thesis by (simp add: ext2fs_extent_translate_def)
  next
    case False
    from sort_entries [OF d(4) win] obtain ys where ys: "c_qsort extent_cmp (xt_entries x) = Some ys" "mset ys = mset (xt_entries x)" "sorted_wrt ee_before ys" by blast
    let ?x = "x\<lparr>xt_list := ys @ drop ?n (xt_list x), xt_sorted := True\<rparr>"
    have len: "length ys = ?n" using ys(2) d(5) by (metis mset_eq_length)
    then have es: "xt_entries ?x = ys" by (simp add: xt_entries_def)
    note m = xt_map_mset [OF d(4) ys(2)]
    have okx: "xt_ok ?x" using ok m(1) ys(3) es len d(1,2) unfolding xt_ok_def by simp
    have "ext2fs_extent_translate x oldl = do { r \<leftarrow> translate_loop (xt_list ?x) oldl 0 (sint (xt_num ?x - 1)); Some (r, ?x) }"
      using False ys(1) d(1,2) by (simp add: ext2fs_extent_translate_def Let_def xt_entries_def)
    with search [OF okx] es m(2) okx show ?thesis by simp
  qed
qed

subsection \<open>Any number of calls\<close>

datatype xt_op = Xt_Add bool u64 u64 | Xt_Translate u64

datatype xt_result = Xt_Code errcode | Xt_Loc u64

primrec xt_step :: "(nat \<Rightarrow> ext2_extent_entry) \<Rightarrow> xt_op \<Rightarrow> ext2_extent \<Rightarrow> (xt_result \<times> ext2_extent) ub" where
  "xt_step junk (Xt_Add mem oldl newl) x = do { (c, x) \<leftarrow> ext2fs_add_extent_entry mem junk x oldl newl; Some (Xt_Code c, x) }"
| "xt_step junk (Xt_Translate oldl) x = do { (v, x) \<leftarrow> ext2fs_extent_translate x oldl; Some (Xt_Loc v, x) }"

primrec xt_run :: "(nat \<Rightarrow> ext2_extent_entry) \<Rightarrow> xt_op list \<Rightarrow> ext2_extent \<Rightarrow> (xt_result list \<times> ext2_extent) ub" where
  "xt_run junk [] x = Some ([], x)"
| "xt_run junk (op # ops) x = do {
     (r, x) \<leftarrow> xt_step junk op x;
     (rs, x) \<leftarrow> xt_run junk ops x;
     Some (r # rs, x)
   }"

text \<open>The contract: a map, with 0 for what is not in it.\<close>

inductive xt_trace :: "(u64 \<rightharpoonup> u64) \<Rightarrow> xt_op list \<Rightarrow> xt_result list \<Rightarrow> (u64 \<rightharpoonup> u64) \<Rightarrow> bool" where
  xt_end: "xt_trace m [] [] m"
| xt_added: "xt_trace (m(oldl \<mapsto> newl)) ops rs m' \<Longrightarrow> xt_trace m (Xt_Add mem oldl newl # ops) (Xt_Code E_OK # rs) m'"
| xt_no_memory: "xt_trace m ops rs m' \<Longrightarrow> xt_trace m (Xt_Add False oldl newl # ops) (Xt_Code EXT2_ET_NO_MEMORY # rs) m'"
| xt_translated: "xt_trace m ops rs m' \<Longrightarrow> xt_trace m (Xt_Translate oldl # ops) (Xt_Loc (case m oldl of Some v \<Rightarrow> v | None \<Rightarrow> 0) # rs) m'"

inductive_simps xt_trace_simps:
  "xt_trace m [] rs m'"
  "xt_trace m (Xt_Add mem oldl newl # ops) rs m'"
  "xt_trace m (Xt_Translate oldl # ops) rs m'"

primrec xt_added_locs :: "xt_op list \<Rightarrow> u64 list" where
  "xt_added_locs [] = []"
| "xt_added_locs (op # ops) = (case op of Xt_Add _ oldl _ \<Rightarrow> oldl # xt_added_locs ops | Xt_Translate _ \<Rightarrow> xt_added_locs ops)"

lemma xt_step_simulates:
  assumes ok: "xt_ok x" and num: "unat (xt_num x) \<le> 16777216" and win: "\<forall>oldl \<in> dom (xt_map (xt_entries x)). in_window w oldl"
    and add: "\<And>mem oldl newl. op = Xt_Add mem oldl newl \<Longrightarrow> xt_map (xt_entries x) oldl = None \<and> unat oldl + 1 < 18446744073709551616"
  shows "\<exists>r x'. xt_step junk op x = Some (r, x') \<and> xt_ok x' \<and> unat (xt_num x') \<le> unat (xt_num x) + 1
    \<and> dom (xt_map (xt_entries x')) \<subseteq> dom (xt_map (xt_entries x)) \<union> set (xt_added_locs [op])
    \<and> (\<forall>ops rs m. xt_trace (xt_map (xt_entries x')) ops rs m \<longrightarrow> xt_trace (xt_map (xt_entries x)) (op # ops) (r # rs) m)"
proof (cases op)
  case (Xt_Translate oldl)
  from translate_run [OF ok _ win, of oldl] num show ?thesis unfolding Xt_Translate by (force intro: xt_translated)
next
  case (Xt_Add mem oldl newl)
  note new = add [OF Xt_Add, THEN conjunct1] add [OF Xt_Add, THEN conjunct2]
  have room: "unat (xt_num x) < 2 ^ 32" using num by simp
  note gr = xt_grow [OF ok room]
  have put: ?thesis if y: "xt_ok y" "xt_entries y = xt_entries x" "xt_num y < xt_size y" "xt_num y = xt_num x"
    and run: "ext2fs_add_extent_entry mem junk x oldl newl = extent_put y oldl newl" for y
  proof -
    from extent_put_run [OF y(1,3), of oldl newl] new y(2) obtain x' where
      "extent_put y oldl newl = Some (E_OK, x')" "xt_ok x'" "xt_map (xt_entries x') = (xt_map (xt_entries x))(oldl \<mapsto> newl)" "unat (xt_num x') \<le> unat (xt_num x) + 1"
      using y(4) by auto
    with run show ?thesis unfolding Xt_Add by (auto intro: xt_added)
  qed
  show ?thesis
  proof (cases "xt_num x < xt_size x")
    case True
    then show ?thesis using put [OF ok refl True refl gr(2) [OF True]] by blast
  next
    case full: False
    show ?thesis
    proof (cases mem)
      case True
      from gr(1) [of junk oldl newl] obtain y where "xt_ok y" "xt_entries y = xt_entries x" "xt_num y < xt_size y" "xt_num y = xt_num x"
        "ext2fs_add_extent_entry True junk x oldl newl = extent_put y oldl newl" by blast
      with put [of y] True show ?thesis by simp
    next
      case False
      then show ?thesis using gr(3) [OF full, of junk oldl newl] ok unfolding Xt_Add by (auto intro: xt_no_memory)
    qed
  qed
qed

text \<open>
  (C39) A table of extents is a map. Any history of additions and translations runs without an undefined access and
  without endless loops, and each translation returns the new number of an old one that was added before, in whatever
  order, and 0 for every other, as long as each old number is added once, all of them lie within a window of
  \<open>2\<^sup>31\<close> numbers, and the table has at most \<open>2\<^sup>24\<close> entries. An addition may be refused for lack of memory.
\<close>

theorem extent_table_history:
  assumes "xt_ok x" "unat (xt_num x) + length ops \<le> 16777216" "w + 2147483648 < 18446744073709551616"
    "\<forall>oldl \<in> dom (xt_map (xt_entries x)) \<union> set (xt_added_locs ops). in_window w oldl"
    "distinct (xt_added_locs ops)" "set (xt_added_locs ops) \<inter> dom (xt_map (xt_entries x)) = {}"
  shows "\<exists>rs x'. xt_run junk ops x = Some (rs, x') \<and> xt_ok x' \<and> xt_trace (xt_map (xt_entries x)) ops rs (xt_map (xt_entries x'))"
  using assms
proof (induction ops arbitrary: x)
  case Nil
  then show ?case by (auto intro: xt_end)
next
  case (Cons op ops)
  have a: "xt_map (xt_entries x) oldl = None \<and> unat oldl + 1 < 18446744073709551616" if "op = Xt_Add mem oldl newl" for mem oldl newl
    using Cons.prems(3,4,6) that by (auto simp: in_window_def)
  have "unat (xt_num x) \<le> 16777216" "\<forall>oldl \<in> dom (xt_map (xt_entries x)). in_window w oldl" using Cons.prems(2,4) by auto
  from xt_step_simulates [OF Cons.prems(1) this, of op junk] a obtain r x1 where
    s: "xt_step junk op x = Some (r, x1)" "xt_ok x1" "unat (xt_num x1) \<le> unat (xt_num x) + 1"
      "dom (xt_map (xt_entries x1)) \<subseteq> dom (xt_map (xt_entries x)) \<union> set (xt_added_locs [op])"
      "\<And>ops rs m. xt_trace (xt_map (xt_entries x1)) ops rs m \<Longrightarrow> xt_trace (xt_map (xt_entries x)) (op # ops) (r # rs) m" by blast
  have sub: "set (xt_added_locs [op]) \<union> set (xt_added_locs ops) = set (xt_added_locs (op # ops))" by (cases op) auto
  have dis: "distinct (xt_added_locs ops)" "set (xt_added_locs ops) \<inter> set (xt_added_locs [op]) = {}" using Cons.prems(5) by (cases op; auto)+
  have "\<forall>oldl \<in> dom (xt_map (xt_entries x1)) \<union> set (xt_added_locs ops). in_window w oldl" using Cons.prems(4) s(4) sub by blast
  moreover have "set (xt_added_locs ops) \<inter> dom (xt_map (xt_entries x1)) = {}" using Cons.prems(6) s(4) sub dis(2) by blast
  moreover have "unat (xt_num x1) + length ops \<le> 16777216" using Cons.prems(2) s(3) by simp
  ultimately show ?case using Cons.IH [OF s(2) _ Cons.prems(3) _ dis(1)] s(1,5) by force
qed

subsection \<open>Creation and iteration\<close>

lemma create_extent_table_ok:
  assumes "unat sz \<le> 2 ^ 33"
  shows "\<exists>x. ext2fs_create_extent_table True True sz = Inr x \<and> xt_ok x \<and> xt_entries x = []"
proof -
  have "unat ((- 1 :: u64) div 24) = 768614336404564650" by (simp add: unat_div)
  then have "\<not> (- 1) div 24 < sz" using assms by (simp add: word_less_nat_alt)
  moreover have "\<not> (- 1 :: u64) div 24 < 50" by simp
  ultimately show ?thesis using assms by (auto simp: ext2fs_create_extent_table_def Let_def xt_ok_def xt_entries_def es_ok_def)
qed

text \<open>An iteration returns the entries in the order of the table, and zeroes behind the last one.\<close>

lemma iterate_extent_run:
  assumes ok: "xt_ok x" and c: "xt_cursor x = of_nat i" "i < length (xt_entries x)"
  shows "ext2fs_iterate_extent False x = Some (E_OK, Some (old_loc (xt_entries x ! i), new_loc (xt_entries x ! i), ee_size (xt_entries x ! i)), x\<lparr>xt_cursor := of_nat (i + 1)\<rparr>)"
proof -
  note d = xt_okD [OF ok]
  have i: "i < unat (xt_num x)" using c(2) d(5) by simp
  then have "i < 18446744073709551616" using unat_u64_less [of "xt_num x"] by linarith
  then have "unat (of_nat i :: u64) = i" by (rule unat_of_nat_u64)
  moreover have "xt_list x ! i = xt_entries x ! i" using i by (simp add: xt_entries_def)
  ultimately show ?thesis using i c(1) d(1,2) by (simp add: ext2fs_iterate_extent_def word_le_nat_alt add.commute)
qed

subsection \<open>More entries than a number of type float can count\<close>

lemma bit_len_between: "2 ^ k \<le> n \<Longrightarrow> n < 2 * 2 ^ k \<Longrightarrow> bit_len n = Suc k"
proof (induction k arbitrary: n)
  case 0
  then have "n = 1" by simp
  then show ?case by (simp add: bit_len.simps)
next
  case (Suc k)
  then have "2 ^ k \<le> n div 2" "n div 2 < 2 * 2 ^ k" by auto
  then have "bit_len (n div 2) = Suc k" by (rule Suc.IH)
  moreover have "0 < n" using Suc.prems(1) by (metis gr0I le_0_eq power_not_zero zero_neq_numeral)
  ultimately show ?case by (simp add: bit_len.simps)
qed

lemma flt_exp_of_nat: "2 ^ k \<le> n \<Longrightarrow> n < 2 * 2 ^ k \<Longrightarrow> flt_exp (of_nat n) = int k"
proof -
  assume n: "2 ^ k \<le> n" "n < 2 * 2 ^ k"
  have "quotient_of (of_nat n) = (int n, 1)" using quotient_of_int [of "int n"] by simp
  moreover have "bit_len n = Suc k" "bit_len 1 = 1" using bit_len_between [OF n] by (simp_all add: bit_len.simps)
  moreover have "(2 :: rat) ^ k \<le> of_nat n" using n(1) by (metis of_nat_le_iff of_nat_numeral of_nat_power)
  ultimately show ?thesis by (simp add: flt_exp_def)
qed

lemma flt_round_nat:
  assumes "16777216 \<le> n" "n < 33554432"
  shows "flt_round (of_nat n) = of_int (round_even (of_nat n / 2)) * 2"
proof -
  have "flt_exp (of_nat n) = 24" using flt_exp_of_nat [of 24 n] assms by simp
  then show ?thesis using assms by (simp add: flt_round_def)
qed

lemma round_even_half: "round_even (of_int a + 1 / 2) = (if even a then a else a + 1)"
proof -
  have "\<lfloor>of_int a + 1 / 2 :: rat\<rfloor> = a" by (rule floor_unique) simp_all
  then show ?thesis unfolding round_even_def Let_def by simp
qed

lemma xt_mid_rounds_up: "xt_mid 1 0 16777219 = 16777220"
proof -
  have "round_even (16777219 / 2) = 8388610" using round_even_half [of 8388609] by simp
  moreover have "round_even (16777220 / 2) = 8388610" using round_even_facts(2) [of "16777220 / 2" 8388610] by (simp add: round_even_def)
  ultimately have "flt_round 16777219 = 16777220" "flt_round 16777220 = 16777220"
    using flt_round_nat [of 16777219] flt_round_nat [of 16777220] by simp_all
  then show ?thesis by (simp add: xt_mid_def)
qed

text \<open>
  In a sorted table of \<open>2\<^sup>24 + 4\<close> entries that fill the array, the search for a number behind the last entry
  reads behind the array: the distance of the ends, rounded to a \<^verbatim>\<open>float\<close>, is one more than it is.
\<close>

theorem extent_translate_overruns:
  assumes x: "xt_sorted x" "xt_num x = 16777220" "length (xt_list x) = 16777220"
    and old: "old_loc (xt_list x ! 0) \<le> oldl" "old_loc (xt_list x ! 16777219) < oldl"
  shows "ext2fs_extent_translate x oldl = None"
proof -
  have "xt_range oldl (old_loc (xt_list x ! 0)) (old_loc (xt_list x ! 16777219)) = Some 1" using old by (simp add: xt_range_def)
  then have "translate_loop (xt_list x) oldl 0 16777219 = None"
    using x(3) by (subst translate_loop.simps) (simp add: c_load_def xt_mid_rounds_up)
  then show ?thesis using x(1,2) by (simp add: ext2fs_extent_translate_def)
qed

subsection \<open>A concrete table\<close>

definition xt_example :: ext2_extent where
  "xt_example = projr (ext2fs_create_extent_table True True 0)"

lemma xt_example_ok: "xt_ok xt_example" "xt_entries xt_example = []" "xt_num xt_example = 0"
  using create_extent_table_ok [of 0] by (auto simp: xt_example_def xt_entries_def ext2fs_create_extent_table_def Let_def)

lemma xt_map_empty: "xt_map [] = Map.empty"
  by (simp add: xt_map_def fun_eq_iff)

text \<open>Entries out of order, two of which are merged.\<close>

theorem extent_table_history_witness:
  "\<exists>x'. xt_run (\<lambda>_. \<lparr>old_loc = 0, new_loc = 0, ee_size = 0\<rparr>)
      [Xt_Add True 20 120, Xt_Add True 10 110, Xt_Add True 11 111, Xt_Translate 11, Xt_Translate 12, Xt_Translate 20] xt_example
    = Some ([Xt_Code E_OK, Xt_Code E_OK, Xt_Code E_OK, Xt_Loc 111, Xt_Loc 0, Xt_Loc 120], x') \<and> xt_ok x'"
proof -
  let ?ops = "[Xt_Add True 20 120, Xt_Add True 10 110, Xt_Add True 11 111, Xt_Translate 11, Xt_Translate 12, Xt_Translate 20]"
  have "\<exists>rs x'. xt_run (\<lambda>_. \<lparr>old_loc = 0, new_loc = 0, ee_size = 0\<rparr>) ?ops xt_example = Some (rs, x') \<and> xt_ok x'
      \<and> xt_trace (xt_map (xt_entries xt_example)) ?ops rs (xt_map (xt_entries x'))"
    by (rule extent_table_history [OF xt_example_ok(1), where w = 0]) (simp_all add: xt_example_ok xt_map_empty in_window_def)
  then show ?thesis by (auto simp: xt_trace_simps xt_example_ok xt_map_empty)
qed

end
