(* ===== verification/Spec2Isabelle.thy ===== *)
theory Spec2Isabelle
  imports Badblocks Gen_Bitmap64 Ea_Refcount Bg_Layout Icount Alloc_Range Dir_Store Dirhash Dblist Digest Region Uuid Extent_Table
begin

text \<open>
  Verification of e2fsprogs 1.46.5, the programs that make, check, repair, resize and inspect ext2, ext3 and
  ext4 file systems. The programs (\<^verbatim>\<open>mke2fs\<close>, \<^verbatim>\<open>e2fsck\<close>, \<^verbatim>\<open>resize2fs\<close>, \<^verbatim>\<open>debugfs\<close>, \<^verbatim>\<open>tune2fs\<close>, ...) are clients of one
  library, \<^verbatim>\<open>lib/ext2fs\<close>, which keeps the superblock, the table of group descriptors and the bitmaps of a file system
  in memory and does all arithmetic on them. The development models this library from its bit operations up to the
  allocation of inodes and blocks and the entries of directory blocks, two data structures of \<^verbatim>\<open>e2fsck\<close>, one of
  \<^verbatim>\<open>resize2fs\<close>, and the library of unique identifiers.

  \<^bold>\<open>How C is modelled.\<close> Machine integers are words of their width and wrap around. A result of type \<open>'a ub\<close>
  is \<open>None\<close> where the code has no meaning in C (an access outside an array, a shift by too much, a null pointer, a
  division by zero) or does not end, and a theorem that an operation is defined says that it returns \<open>Some\<close>. Error codes
  are the datatype \<open>errcode\<close>; a function that returns a value through a pointer returns \<open>errcode + 'a\<close>, with \<open>Inl\<close> the error.
  Memory that was allocated and not written holds what an argument \<open>junk\<close> says; whether an allocation succeeds is a
  boolean argument; \<open>adr\<close> and \<open>base\<close> are addresses, where the code looks at their alignment. Loops that end for every
  input are \<open>fun\<close> or \<open>function\<close> with a termination proof; the others are \<open>partial_function (option)\<close>, and where they
  end is a theorem. There is no fuel anywhere.

  \<^bold>\<open>The parts and their theories.\<close>

  \<^item> \<open>E2_Prelude\<close>: words, arrays, error codes, and the lemmas on them that all theories share. \<open>Set_Store\<close>: the contract of
    a set of numbers with marks and unmarks (a locale), and the meaning of a history of them.

  \<^item> \<open>Badblocks\<close> (\<^verbatim>\<open>badblocks.c\<close>): sorted lists of block numbers. They implement \<open>Set_Store\<close>.

  \<^item> \<open>Bitops\<close> (\<^verbatim>\<open>bitops.c\<close>, \<^verbatim>\<open>bitops.h\<close>): bits of byte arrays. \<open>Gen_Bitmap32\<close> (\<^verbatim>\<open>gen_bitmap.c\<close>): the old bitmaps with
    32-bit numbers. \<open>Bmap64\<close> (\<^verbatim>\<open>bmap64.h\<close>): the structure of the new ones, and the contract between the front end and a
    back end, the locales \<open>bitmap_backend\<close> and \<open>bitmap_search\<close>. \<open>Bitarray\<close> (\<^verbatim>\<open>blkmap64_ba.c\<close>): the back end that is an array,
    with the interpretation of the contract. \<open>Gen_Bitmap64\<close> (\<^verbatim>\<open>gen_bitmap64.c\<close>): the front end, proved against the contract;
    bitmaps of clusters are sets of blocks that are unions of clusters. It implements \<open>Set_Store\<close> (a sublocale).

  \<^item> \<open>Key_Table\<close>: sorted tables with a guess where to look, the search that \<open>Ea_Refcount\<close> (\<^verbatim>\<open>e2fsck/ea_refcount.c\<close>) and
    \<open>Icount\<close> (\<^verbatim>\<open>icount.c\<close>) have in common; both refine maps from keys to counters.

  \<^item> \<open>Filsys\<close> (\<^verbatim>\<open>ext2_fs.h\<close>, \<^verbatim>\<open>ext2fs.h\<close>): the superblock, group descriptors, inodes and \<^verbatim>\<open>struct struct_ext2_filsys\<close> as records,
    feature tests and macros. \<open>Blknum\<close> (\<^verbatim>\<open>blknum.c\<close>, \<^verbatim>\<open>i_block.c\<close>, \<^verbatim>\<open>get_num_dirs.c\<close>): block counts, group descriptors and inode sizes.
    The fields of descriptors that come in two halves refine one number each (the locale \<open>desc_field\<close>). \<open>Bg_Layout\<close>
    (\<^verbatim>\<open>closefs.c\<close>, \<^verbatim>\<open>openfs.c\<close>, \<^verbatim>\<open>res_gdt.c\<close>): where superblocks and descriptors lie. \<open>Bitmaps\<close> (\<^verbatim>\<open>bitmaps.c\<close>): bitmaps of a file system.

  \<^item> \<open>Crc\<close> (\<^verbatim>\<open>crc32c.c\<close>, \<^verbatim>\<open>crc16.c\<close> and the generator of their tables), \<open>Le_Bytes\<close>, \<open>Csum\<close> (\<^verbatim>\<open>csum.c\<close>): the optimised
    checksums equal the polynomial ones, and a structure whose checksum was set verifies (an index block only if it has no
    more entries than its limit, which the code does not check).

  \<^item> \<open>Alloc_Stats\<close> (\<^verbatim>\<open>alloc_stats.c\<close>): the accounting of allocations. The state is the record \<open>alloc_state\<close>: the file system,
    its two bitmaps, and the names of the functions that a client has installed. \<open>inode_books\<close> says that the counters
    agree with the bitmap; a history of allocations (\<open>inode_reach\<close>, an inductive relation) keeps it and never gets stuck.

  \<^item> \<open>Alloc\<close>, \<open>Alloc_Blocks\<close>, \<open>Alloc_Range\<close> (\<^verbatim>\<open>alloc.c\<close>): the searches for inodes, blocks and runs of blocks, on the contract
    \<open>bitmap_search\<close> of the bitmaps, and their composition with the accounting. Functions of a client, reading the block bitmap from the
    device and writing zeroes are components of the argument \<open>alloc_env\<close>; the theorems on \<open>ext2fs_alloc_block3\<close> suppose
    of the device only that a write returns a code and leaves the structures in memory alone.

  \<^item> \<open>Dir_Block\<close> (\<^verbatim>\<open>dir_iterate.c\<close>, \<^verbatim>\<open>dirblock.c\<close>, \<^verbatim>\<open>newdir.c\<close>, and the callbacks of \<^verbatim>\<open>lookup.c\<close>, \<^verbatim>\<open>unlink.c\<close> and \<^verbatim>\<open>link.c\<close>): a
    directory block as bytes, its iteration, and the operations on one name. The device, the generation number of an inode and
    the map from logical to physical blocks are arguments. \<open>Dir_Ops\<close>: a block as a chain of entries (the record \<open>dent\<close>,
    well-formedness \<open>dir_ok\<close>, the entries in use \<open>live\<close>) and what each operation does to the chain. \<open>Dir_Store\<close>:
    the operations through reading, checksum and writing, and histories of them (\<open>dir_trace\<close>, an inductive relation) against a
    multiset of names; they suppose that the device returns what was written (\<open>device_ok\<close>). \<open>Dirhash\<close> (\<^verbatim>\<open>dirhash.c\<close>):
    the hashes of names. \<open>Dblist\<close> (\<^verbatim>\<open>dblist.c\<close>): the list of directory blocks, with \<^verbatim>\<open>qsort\<close> of
    \<open>C_Std\<close>, undefined for a comparison that is no order.

  \<^item> \<open>Region\<close> (\<^verbatim>\<open>e2fsck/region.c\<close>): allocated intervals as a linked list in a heap; from creation to release the
    operations refine a set of numbers (\<open>region_trace\<close>) and leave the heap as it was. They suppose that the allocator returns
    an unused address (\<open>malloc_ok\<close>).

  \<^item> \<open>Extent_Table\<close> (\<^verbatim>\<open>resize/extent.c\<close>): the old and new numbers of what \<^verbatim>\<open>resize2fs\<close> moves, in a table that is searched with
    numbers of type \<^verbatim>\<open>float\<close>, modelled as rationals with their rounding. Histories of operations refine a map (\<open>xt_trace\<close>,
    an inductive relation), up to \<open>2\<^sup>24\<close> entries; beyond, the search leaves the table.

  \<^item> \<open>Digest\<close> (\<^verbatim>\<open>digest_encode.c\<close>): digests as names of files, both of them numbers to a base.

  \<^item> \<open>Uuid\<close> (\<^verbatim>\<open>lib/uuid\<close>): packing, printing, reading and comparing of identifiers.

  \<^bold>\<open>What the theorems show.\<close> Refinement: histories of operations on lists, bitmaps and counters leave what the abstract
  set, map, list or multiset has, and setters of descriptor fields change one component of a view. Functional behaviour: searches return
  the least number of the wanted kind; runs of blocks act on exactly the clusters they touch; every block lies in
  the group that is computed for it; the allocators return the first free inode, block or run from their goal on, account for
  it, and fail exactly when there is none; a name is found, removed and inserted in a directory block as in a list of
  names, and the block keeps its form and its checksum. Equivalences: sliced against bitwise checksums, powers of 3, 5 and 7 against
  the test of roots, hashes of names against a fold over their characters. Round trips: checksums, record lengths, digests,
  identifiers. Errors: a number of operations do
  not do what their callers rely on, and theorems state exactly when: comparison of bitmaps and the count of used
  clusters miss blocks, the copy of a resized old bitmap and the array of inode counts are accessed behind their end,
  two searches for free blocks do not end, a name of more than 255 characters is written over other entries, a table of
  more than \<open>2\<^sup>24\<close> extents can be read behind its end, and the
  comparison of directory blocks is no order on large file systems.

  \<^bold>\<open>Not modelled.\<close> The red-black tree back end of bitmaps, whose contract is \<open>bitmap_search\<close>; extents and block
  maps, and with them the iteration over the blocks of a file, which \<^verbatim>\<open>ext2fs_link\<close>, \<^verbatim>\<open>ext2fs_unlink\<close> and \<^verbatim>\<open>ext2fs_lookup\<close> put
  around the operations on one block; the index of hashed directories; extended attributes, inline data, the
  iteration over inodes, opening, closing and all input and output; the libraries for error messages, command lines, block device
  identification and quota, and the generation of identifiers, which ask the system; and the programs themselves, which are
  dialogues around the library. Of \<^verbatim>\<open>e2fsck\<close> only the reference counts and the regions are modelled. \<^verbatim>\<open>ext2fs_find_inode_goal\<close>
  of \<^verbatim>\<open>alloc.c\<close> reads extents and is left out, as are the database behind inode counts (\<^verbatim>\<open>tdb.c\<close>, third-party), the swapping of
  bytes on big-endian machines and diagnostics on the terminal.
\<close>

end
